(* ===== verification/Rust_Prelude.thy ===== *)
theory Rust_Prelude
  imports Main "HOL-Library.Word" "HOL-Library.Monad_Syntax"
begin

text \<open>
  What the components share of the Rust language and of its standard library: the integer types
  as words, the arithmetic of the shipped \<open>dist\<close> profile (overflow checks on, so an overflow is a
  panic), slices, little-endian byte strings, UTF-8 validity, and the named theorem collections
  the component proofs use.

  A definition of type \<open>'a rust\<close> is a piece of code that can panic: \<open>None\<close> is the panic and
  \<open>Some v\<close> is the normal return of \<open>v\<close>. A Rust \<open>Option\<close> or \<open>Result\<close> that the code returns is then
  a value inside, so \<open>Some None\<close> is a normal return of Rust's \<open>None\<close>.
\<close>

unbundle bit_operations_syntax

named_theorems rust_arith \<open>unfolding of the checked and saturating arithmetic\<close>
named_theorems wire \<open>one step of a decoder on the bytes its encoder wrote\<close>

type_synonym u8 = "8 word"
type_synonym u16 = "16 word"
type_synonym u32 = "32 word"
type_synonym u64 = "64 word"
type_synonym bytes = "u8 list"
type_synonym 'a rust = "'a option"

section \<open>Checked, saturating and converting arithmetic\<close>

text \<open>
  Unsigned 64-bit quantities that are only added, multiplied and compared are natural numbers with
  the overflow check written out; \<open>usize\<close> has 64 bits on every supported target.
\<close>

definition u64_max :: nat where "u64_max = 2 ^ 64 - 1"
definition u32_max :: nat where "u32_max = 2 ^ 32 - 1"
definition u16_max :: nat where "u16_max = 2 ^ 16 - 1"
definition i64_max :: int where "i64_max = 2 ^ 63 - 1"
definition i64_min :: int where "i64_min = - (2 ^ 63)"

definition u64_check :: "nat \<Rightarrow> nat rust" where
  "u64_check n = (if n \<le> u64_max then Some n else None)"

definition u64_add :: "nat \<Rightarrow> nat \<Rightarrow> nat rust" where "u64_add a b = u64_check (a + b)"
definition u64_mul :: "nat \<Rightarrow> nat \<Rightarrow> nat rust" where "u64_mul a b = u64_check (a * b)"
definition u64_sub :: "nat \<Rightarrow> nat \<Rightarrow> nat rust" where
  "u64_sub a b = (if b \<le> a then Some (a - b) else None)"
definition u64_div :: "nat \<Rightarrow> nat \<Rightarrow> nat rust" where
  "u64_div a b = (if b = 0 then None else Some (a div b))"
definition u64_rem :: "nat \<Rightarrow> nat \<Rightarrow> nat rust" where
  "u64_rem a b = (if b = 0 then None else Some (a mod b))"
definition u64_sat_mul :: "nat \<Rightarrow> nat \<Rightarrow> nat" where "u64_sat_mul a b = min (a * b) u64_max"
definition u64_sat_add :: "nat \<Rightarrow> nat \<Rightarrow> nat" where "u64_sat_add a b = min (a + b) u64_max"
definition div_ceil :: "nat \<Rightarrow> nat \<Rightarrow> nat rust" where
  "div_ceil a b = (if b = 0 then None else Some ((a + b - 1) div b))"

definition u32_inc :: "nat \<Rightarrow> nat rust" where
  "u32_inc n = (if n < u32_max then Some (n + 1) else None)"
definition u32_sat_add :: "nat \<Rightarrow> nat \<Rightarrow> nat" where "u32_sat_add a b = min (a + b) u32_max"

definition i64_check :: "int \<Rightarrow> int rust" where
  "i64_check x = (if i64_min \<le> x \<and> x \<le> i64_max then Some x else None)"
definition i64_add :: "int \<Rightarrow> int \<Rightarrow> int rust" where "i64_add a b = i64_check (a + b)"
definition i64_sat_add :: "int \<Rightarrow> int \<Rightarrow> int" where
  "i64_sat_add a b = max i64_min (min i64_max (a + b))"

text \<open>\<open>crates/uffs-mft/src/index/convert.rs\<close>: the saturating narrowing conversions.\<close>

definition len_to_u32 :: "nat \<Rightarrow> nat" where
  "len_to_u32 n = (if n \<le> u32_max then n else u32_max)"
definition len_to_u16 :: "nat \<Rightarrow> nat" where
  "len_to_u16 n = (if n \<le> u16_max then n else u16_max)"

text \<open>\<open>u64::cast_signed\<close>.\<close>

definition cast_signed :: "nat \<Rightarrow> int" where
  "cast_signed n = (if n < 2 ^ 63 then int n else int n - 2 ^ 64)"

lemmas rust_limits = u64_max_def u32_max_def u16_max_def i64_max_def i64_min_def

lemmas checked_defs [rust_arith] =
  u64_check_def u64_add_def u64_mul_def u64_sub_def u64_div_def u64_rem_def u64_sat_mul_def
  u64_sat_add_def div_ceil_def u32_inc_def u32_sat_add_def i64_check_def i64_add_def

lemma len_to_u32_id [simp]: "n \<le> u32_max \<Longrightarrow> len_to_u32 n = n"
  by (simp add: len_to_u32_def)

lemma len_to_u32_le [simp]: "len_to_u32 n \<le> u32_max"
  by (simp add: len_to_u32_def)

lemma div_ceil_spec:
  assumes "div_ceil a b = Some q"
  shows "a \<le> q * b" and "q * b < a + b"
proof -
  from assms have b: "0 < b" and q: "q = (a + b - 1) div b"
    by (auto simp: div_ceil_def split: if_splits)
  have "q * b + (a + b - 1) mod b = a + b - 1"
    by (simp add: q)
  moreover have "(a + b - 1) mod b < b"
    using b by simp
  ultimately show "a \<le> q * b" and "q * b < a + b"
    using b by linarith+
qed

section \<open>Slices and vectors\<close>

text \<open>\<open>slice.get(i)\<close> and \<open>slice.get(a..b)\<close>: Rust's \<open>None\<close> out of range, never a panic.\<close>

definition vec_get :: "'a list \<Rightarrow> nat \<Rightarrow> 'a option" where
  "vec_get xs i = (if i < length xs then Some (xs ! i) else None)"

definition slice_get :: "'a list \<Rightarrow> nat \<Rightarrow> nat \<Rightarrow> 'a list option" where
  "slice_get xs a b = (if a \<le> b \<and> b \<le> length xs then Some (take (b - a) (drop a xs)) else None)"

lemma vec_get_Some_iff [simp]: "vec_get xs i = Some x \<longleftrightarrow> i < length xs \<and> x = xs ! i"
  by (auto simp: vec_get_def)

lemma vec_get_None_iff [simp]: "vec_get xs i = None \<longleftrightarrow> length xs \<le> i"
  by (auto simp: vec_get_def)

lemma vec_get_in [simp]: "i < length xs \<Longrightarrow> vec_get xs i = Some (xs ! i)"
  by (simp add: vec_get_def)

lemma slice_get_length: "slice_get xs a b = Some ys \<Longrightarrow> length ys = b - a"
  by (auto simp: slice_get_def split: if_splits)

lemma slice_get_append:
  "slice_get (pre @ ys @ post) (length pre) (length pre + length ys) = Some ys"
  by (simp add: slice_get_def)

section \<open>Little-endian byte strings\<close>

fun from_le_bytes :: "bytes \<Rightarrow> 'a::len word" where
  "from_le_bytes [] = 0"
| "from_le_bytes (b # bs) = ucast b OR push_bit 8 (from_le_bytes bs)"

definition to_le_bytes :: "nat \<Rightarrow> 'a::len word \<Rightarrow> bytes" where
  "to_le_bytes n w = map (\<lambda>i. ucast (drop_bit (8 * i) w)) [0..<n]"

lemma length_to_le_bytes [simp]: "length (to_le_bytes n w) = n"
  by (simp add: to_le_bytes_def)

lemma bit_from_le_bytes:
  "bit (from_le_bytes bs :: 'a::len word) n \<longleftrightarrow>
     n < LENGTH('a) \<and> n div 8 < length bs \<and> bit (bs ! (n div 8)) (n mod 8)"
proof (induction bs arbitrary: n)
  case Nil
  then show ?case by simp
next
  case (Cons b bs)
  show ?case
  proof (cases "n < 8")
    case True
    then show ?thesis
      by (auto simp: bit_or_iff bit_ucast_iff bit_push_bit_iff)
  next
    case False
    then have "n div 8 = Suc ((n - 8) div 8)" and "n mod 8 = (n - 8) mod 8"
      by (simp_all add: le_div_geq le_mod_geq)
    with False show ?thesis
      by (auto simp: bit_or_iff bit_ucast_iff bit_push_bit_iff Cons.IH dest: bit_imp_le_length)
  qed
qed

lemma from_to_le_bytes [simp]:
  assumes "LENGTH('a) \<le> 8 * n"
  shows "from_le_bytes (to_le_bytes n w) = (w :: 'a::len word)"
proof (rule bit_word_eqI)
  fix k assume k: "k < LENGTH('a)"
  with assms have "k div 8 < n" by (simp add: less_mult_imp_div_less mult.commute)
  with k show "bit (from_le_bytes (to_le_bytes n w) :: 'a word) k = bit w k"
    by (simp add: bit_from_le_bytes to_le_bytes_def bit_ucast_iff bit_drop_bit_eq)
qed

lemma unat_le_bound: "unat (w :: 'a::len word) \<le> 2 ^ LENGTH('a) - 1"
proof -
  have "unat w < 2 ^ LENGTH('a)" by (rule unsigned_less)
  then show ?thesis by linarith
qed

section \<open>Strings\<close>

text \<open>A \<open>str\<close> is the list of its characters, each a Unicode scalar value; literals are written with \<open>chars_of\<close>.\<close>

type_synonym str = "nat list"

definition chars_of :: "string \<Rightarrow> str" where "chars_of s = map of_char s"

section \<open>UTF-8\<close>

text \<open>
  \<open>str::from_utf8\<close>: the well-formed byte sequences of the Unicode standard's table 3-7, one scalar
  value at a time. The decoder returns the scalar value and the remaining bytes.
\<close>

definition cont_byte :: "u8 \<Rightarrow> bool" where
  "cont_byte b \<longleftrightarrow> 0x80 \<le> unat b \<and> unat b \<le> 0xBF"

definition utf8_second_ok :: "nat \<Rightarrow> u8 \<Rightarrow> bool" where
  "utf8_second_ok b0 b1 \<longleftrightarrow>
     (let lo = (if b0 = 0xE0 then 0xA0 else if b0 = 0xF0 then 0x90 else 0x80);
          hi = (if b0 = 0xED then 0x9F else if b0 = 0xF4 then 0x8F else 0xBF)
      in lo \<le> unat b1 \<and> unat b1 \<le> hi)"

fun utf8_next :: "bytes \<Rightarrow> (nat \<times> bytes) option" where
  "utf8_next [] = None"
| "utf8_next (b0 # bs) =
     (let n = unat b0 in
      if n < 0x80 then Some (n, bs)
      else if 0xC2 \<le> n \<and> n \<le> 0xDF then
        (case bs of b1 # r \<Rightarrow>
           if cont_byte b1 then Some ((n - 0xC0) * 64 + (unat b1 - 0x80), r) else None
         | _ \<Rightarrow> None)
      else if 0xE0 \<le> n \<and> n \<le> 0xEF then
        (case bs of b1 # b2 # r \<Rightarrow>
           if utf8_second_ok n b1 \<and> cont_byte b2
           then Some ((n - 0xE0) * 4096 + (unat b1 - 0x80) * 64 + (unat b2 - 0x80), r) else None
         | _ \<Rightarrow> None)
      else if 0xF0 \<le> n \<and> n \<le> 0xF4 then
        (case bs of b1 # b2 # b3 # r \<Rightarrow>
           if utf8_second_ok n b1 \<and> cont_byte b2 \<and> cont_byte b3
           then Some ((n - 0xF0) * 262144 + (unat b1 - 0x80) * 4096 + (unat b2 - 0x80) * 64
                        + (unat b3 - 0x80), r) else None
         | _ \<Rightarrow> None)
      else None)"

lemma utf8_next_shorter: "utf8_next bs = Some (c, r) \<Longrightarrow> length r < length bs"
  by (cases bs) (auto simp: Let_def split: if_splits list.splits)

function utf8_chars :: "bytes \<Rightarrow> nat list option" where
  "utf8_chars bs =
     (if bs = [] then Some []
      else case utf8_next bs of
             None \<Rightarrow> None
           | Some (c, r) \<Rightarrow> map_option (Cons c) (utf8_chars r))"
  by pat_completeness auto
termination
  by (relation "measure length") (auto dest: utf8_next_shorter)

declare utf8_chars.simps [simp del]

definition utf8_valid :: "bytes \<Rightarrow> bool" where
  "utf8_valid bs \<longleftrightarrow> utf8_chars bs \<noteq> None"

lemma utf8_chars_Nil [simp]: "utf8_chars [] = Some []"
  by (simp add: utf8_chars.simps)

lemma utf8_valid_Nil [simp]: "utf8_valid []"
  by (simp add: utf8_valid_def)

lemma utf8_ascii_chars: "\<forall>b\<in>set bs. unat b < 0x80 \<Longrightarrow> utf8_chars bs = Some (map unat bs)"
proof (induction bs)
  case (Cons b bs)
  then show ?case by (subst utf8_chars.simps) (simp add: Let_def)
qed simp

lemma utf8_chars_length: "utf8_chars bs = Some cs \<Longrightarrow> length cs \<le> length bs"
proof (induction bs arbitrary: cs rule: utf8_chars.induct)
  case (1 bs)
  show ?case
  proof (cases "bs = []")
    case False
    with "1.prems" obtain c r cs' where step: "utf8_next bs = Some (c, r)" "utf8_chars r = Some cs'" "cs = c # cs'"
      by (subst (asm) utf8_chars.simps) (auto split: option.splits prod.splits)
    with "1.IH" [OF False step(1) refl step(2)] utf8_next_shorter [OF step(1)] show ?thesis by simp
  qed (use "1.prems" in simp)
qed

section \<open>Binary search\<close>

text \<open>
  \<open>slice::binary_search_by\<close> as the standard library implements it: the window is halved until one
  element is left, which alone is compared for equality. The comparison may panic.
\<close>

datatype ordering = Less | Equal | Greater

function bs_loop :: "('a \<Rightarrow> ordering rust) \<Rightarrow> 'a list \<Rightarrow> nat \<Rightarrow> nat \<Rightarrow> nat rust" where
  "bs_loop f xs base sz =
     (if sz > 1 then
        (let half = sz div 2; mid = base + half in
         case f (xs ! mid) of
           None \<Rightarrow> None
         | Some c \<Rightarrow> bs_loop f xs (if c = Greater then base else mid) (sz - half))
      else Some base)"
  by pat_completeness auto
termination
  by (relation "measure (\<lambda>(f, xs, base, sz). sz)") auto

declare bs_loop.simps [simp del]

definition binary_search_by :: "('a \<Rightarrow> ordering rust) \<Rightarrow> 'a list \<Rightarrow> (nat + nat) rust" where
  "binary_search_by f xs =
     (if xs = [] then Some (Inl 0)
      else case bs_loop f xs 0 (length xs) of
             None \<Rightarrow> None
           | Some base \<Rightarrow>
               (case f (xs ! base) of
                  None \<Rightarrow> None
                | Some c \<Rightarrow> Some (if c = Equal then Inr base else Inl (base + (if c = Less then 1 else 0)))))"

text \<open>A comparison sorts a list when the \<open>Less\<close> elements come first and the \<open>Greater\<close> ones last.\<close>

definition sorts_by :: "('a \<Rightarrow> ordering) \<Rightarrow> 'a list \<Rightarrow> bool" where
  "sorts_by c xs \<longleftrightarrow> (\<forall>i j. i < j \<and> j < length xs \<longrightarrow>
     (c (xs ! i) = Greater \<longrightarrow> c (xs ! j) = Greater) \<and> (c (xs ! j) = Less \<longrightarrow> c (xs ! i) = Less))"

lemma bs_loop_finds:
  assumes "sorts_by c xs" and "\<forall>x \<in> set xs. f x = Some (c x)"
    and "base + sz \<le> length xs" and "1 \<le> sz"
    and "\<forall>k. base + sz \<le> k \<and> k < length xs \<longrightarrow> c (xs ! k) = Greater"
    and "base = 0 \<or> c (xs ! base) \<noteq> Greater"
  shows "\<exists>b. bs_loop f xs base sz = Some b \<and> b < length xs
     \<and> (\<forall>k < length xs. c (xs ! k) = Equal \<longrightarrow> c (xs ! b) = Equal)
     \<and> (\<forall>k. b < k \<and> k < length xs \<longrightarrow> c (xs ! k) = Greater) \<and> (b = 0 \<or> c (xs ! b) \<noteq> Greater)"
  using assms(3-6)
proof (induction sz arbitrary: base rule: less_induct)
  case (less sz)
  show ?case
  proof (cases "sz > 1")
    case False
    with less.prems have sz: "sz = 1" by simp
    have "c (xs ! base) = Equal" if k: "k < length xs" "c (xs ! k) = Equal" for k
    proof -
      have "k \<le> base" using less.prems(3) sz k by (metis Suc_eq_plus1 ordering.distinct(5) not_less_eq_eq)
      then show ?thesis
      proof (cases "k = base")
        case False
        with \<open>k \<le> base\<close> have "k < base" by simp
        moreover have "base < length xs" using less.prems(1) sz by simp
        ultimately have "c (xs ! base) = Less \<longrightarrow> c (xs ! k) = Less"
          using assms(1) unfolding sorts_by_def by blast
        with less.prems(4) k \<open>k < base\<close> show ?thesis by (cases "c (xs ! base)") auto
      qed (use k in simp)
    qed
    with sz less.prems(1,3,4) show ?thesis by (auto simp: bs_loop.simps)
  next
    case True
    let ?half = "sz div 2" let ?mid = "base + ?half"
    from True less.prems have mid: "?mid < length xs" "?half < sz" "0 < ?half" by auto
    then have f: "f (xs ! ?mid) = Some (c (xs ! ?mid))" using assms(2) by simp
    show ?thesis
    proof (cases "c (xs ! ?mid) = Greater")
      case greater: True
      have g: "c (xs ! k) = Greater" if "base + (sz - ?half) \<le> k" "k < length xs" for k
      proof -
        have "?mid \<le> k" using that(1) by linarith
        then have "k = ?mid \<or> ?mid < k" by auto
        then show ?thesis using greater assms(1) that(2) unfolding sorts_by_def by blast
      qed
      have "\<exists>b. bs_loop f xs base (sz - ?half) = Some b \<and> b < length xs
          \<and> (\<forall>k < length xs. c (xs ! k) = Equal \<longrightarrow> c (xs ! b) = Equal)
          \<and> (\<forall>k. b < k \<and> k < length xs \<longrightarrow> c (xs ! k) = Greater) \<and> (b = 0 \<or> c (xs ! b) \<noteq> Greater)"
        using mid less.prems g by (intro less.IH) auto
      with True f greater show ?thesis by (simp add: bs_loop.simps [of f xs base sz] Let_def)
    next
      case False
      have "\<exists>b. bs_loop f xs ?mid (sz - ?half) = Some b \<and> b < length xs
          \<and> (\<forall>k < length xs. c (xs ! k) = Equal \<longrightarrow> c (xs ! b) = Equal)
          \<and> (\<forall>k. b < k \<and> k < length xs \<longrightarrow> c (xs ! k) = Greater) \<and> (b = 0 \<or> c (xs ! b) \<noteq> Greater)"
        using mid less.prems False by (intro less.IH) auto
      with True f False show ?thesis by (simp add: bs_loop.simps [of f xs base sz] Let_def)
    qed
  qed
qed

lemma binary_search_by_spec:
  assumes "sorts_by c xs" and "\<forall>x \<in> set xs. f x = Some (c x)"
  shows "if \<exists>x \<in> set xs. c x = Equal
    then \<exists>i. binary_search_by f xs = Some (Inr i) \<and> i < length xs \<and> c (xs ! i) = Equal
    else \<exists>i. binary_search_by f xs = Some (Inl i) \<and> i \<le> length xs
      \<and> (\<forall>x \<in> set (take i xs). c x = Less) \<and> (\<forall>x \<in> set (drop i xs). c x = Greater)"
proof (cases "xs = []")
  case False
  then obtain b where b: "bs_loop f xs 0 (length xs) = Some b" "b < length xs"
    "\<forall>k < length xs. c (xs ! k) = Equal \<longrightarrow> c (xs ! b) = Equal"
    "\<forall>k. b < k \<and> k < length xs \<longrightarrow> c (xs ! k) = Greater" "b = 0 \<or> c (xs ! b) \<noteq> Greater"
    using bs_loop_finds [OF assms, of 0 "length xs"]
    by (metis One_nat_def Suc_leI add_0 length_greater_0_conv linorder_not_less order_refl)
  with assms(2) have fb: "f (xs ! b) = Some (c (xs ! b))" by simp
  have eq: "(\<exists>x \<in> set xs. c x = Equal) \<longleftrightarrow> c (xs ! b) = Equal"
    using b by (metis in_set_conv_nth)
  show ?thesis
  proof (cases "c (xs ! b)")
    case Less
    have "c (xs ! k) = Less" if "k \<le> b" for k
      using assms(1) Less b(2) that unfolding sorts_by_def by (metis le_neq_implies_less)
    then have "\<forall>x \<in> set (take (Suc b) xs). c x = Less"
      by (auto simp: in_set_conv_nth less_Suc_eq_le)
    moreover have "\<forall>x \<in> set (drop (Suc b) xs). c x = Greater"
      using b(4) by (auto simp: in_set_conv_nth)
    ultimately show ?thesis using b fb False eq Less by (auto simp: binary_search_by_def)
  next
    case Greater
    with b(5) have "b = 0" by simp
    have "\<forall>x \<in> set xs. c x = Greater"
      using b(4) Greater \<open>b = 0\<close> by (metis gr0I in_set_conv_nth)
    with b fb False eq Greater \<open>b = 0\<close> show ?thesis by (auto simp: binary_search_by_def)
  qed (use b fb False eq in \<open>auto simp: binary_search_by_def\<close>)
qed (simp add: binary_search_by_def)

text \<open>\<open>binary_search\<close> on a strictly ascending vector of integers.\<close>

definition num_cmp :: "'a::linorder \<Rightarrow> 'a \<Rightarrow> ordering" where
  "num_cmp v x = (if x < v then Less else if x = v then Equal else Greater)"

definition binary_search :: "'a::linorder list \<Rightarrow> 'a \<Rightarrow> nat + nat" where
  "binary_search xs v = the (binary_search_by (\<lambda>x. Some (num_cmp v x)) xs)"

lemma sorts_by_num_cmp:
  assumes "sorted_wrt (<) xs"
  shows "sorts_by (num_cmp v) xs"
  unfolding sorts_by_def
proof (intro allI impI)
  fix i j assume "i < j \<and> j < length xs"
  with assms have "xs ! i < xs ! j" by (auto simp: sorted_wrt_iff_nth_less)
  then show "(num_cmp v (xs ! i) = Greater \<longrightarrow> num_cmp v (xs ! j) = Greater) \<and>
      (num_cmp v (xs ! j) = Less \<longrightarrow> num_cmp v (xs ! i) = Less)"
    by (auto simp: num_cmp_def split: if_splits)
qed

lemma binary_search_found:
  assumes "sorted_wrt (<) xs" and "v \<in> set xs"
  shows "\<exists>i. binary_search xs v = Inr i \<and> i < length xs \<and> xs ! i = v"
  using binary_search_by_spec [OF sorts_by_num_cmp [OF assms(1), of v], of "\<lambda>x. Some (num_cmp v x)"] assms(2)
  by (auto simp: binary_search_def num_cmp_def split: if_splits)

lemma binary_search_missing:
  assumes "sorted_wrt (<) xs" and "v \<notin> set xs"
  shows "\<exists>i. binary_search xs v = Inl i \<and> i \<le> length xs
     \<and> (\<forall>x \<in> set (take i xs). x < v) \<and> (\<forall>x \<in> set (drop i xs). v < x)"
proof -
  have "\<not> (\<exists>x \<in> set xs. num_cmp v x = Equal)" using assms(2) by (auto simp: num_cmp_def split: if_splits)
  with binary_search_by_spec [OF sorts_by_num_cmp [OF assms(1), of v], of "\<lambda>x. Some (num_cmp v x)"]
  obtain i where "binary_search_by (\<lambda>x. Some (num_cmp v x)) xs = Some (Inl i)" "i \<le> length xs"
    "\<forall>x \<in> set (take i xs). num_cmp v x = Less" "\<forall>x \<in> set (drop i xs). num_cmp v x = Greater" by auto
  then show ?thesis by (intro exI [of _ i]) (auto simp: binary_search_def num_cmp_def split: if_splits)
qed

lemma binary_search_is_ok: "sorted_wrt (<) xs \<Longrightarrow> (\<exists>i. binary_search xs v = Inr i) \<longleftrightarrow> v \<in> set xs"
  using binary_search_found [of xs v] binary_search_missing [of xs v] by (cases "v \<in> set xs") auto

end
