(* ===== verification/Snapshot_Codec.thy ===== *)
theory Snapshot_Codec
  imports Rust_Prelude
begin

text \<open>
  The snapshot manager's wire codec, \<open>crates/uffs-broker-protocol/src/snapshot_manager/codec.rs\<close>:
  a bounds-checked forward reader over an untrusted byte slice and the matching writers. A reader
  operation takes the reader and returns an error or the value with the advanced reader, which is
  the source's \<open>&mut self\<close> with \<open>?\<close>; \<open>pbind\<close> is that sequencing.

  The locale \<open>wire_field\<close> is the contract between the writer and the reader of one field; every
  primitive of the codec interprets it, and the messages are proved from it.
\<close>

section \<open>Errors, the reader and sequencing\<close>

datatype snapshot_protocol_error =
    Truncated nat nat
  | LengthOutOfBounds string nat nat
  | UnknownDiscriminant string nat
  | InvalidUtf8 string

record reader =
  buf :: bytes
  pos :: nat

type_synonym 'a parser = "reader \<Rightarrow> snapshot_protocol_error + 'a \<times> reader"

definition pbind :: "'a parser \<Rightarrow> ('a \<Rightarrow> 'b parser) \<Rightarrow> 'b parser" where
  "pbind p f r = (case p r of Inl e \<Rightarrow> Inl e | Inr (x, r') \<Rightarrow> f x r')"

definition pret :: "'a \<Rightarrow> 'a parser" where
  "pret x r = Inr (x, r)"

definition pfail :: "snapshot_protocol_error \<Rightarrow> 'a parser" where
  "pfail e r = Inl e"

section \<open>Reading\<close>

definition reader_new :: "bytes \<Rightarrow> reader" where
  "reader_new b = \<lparr>buf = b, pos = 0\<rparr>"

definition remaining :: "reader \<Rightarrow> nat" where
  "remaining r = length (buf r) - pos r"

definition take_bytes :: "nat \<Rightarrow> bytes parser" where
  "take_bytes len r =
     (let available = remaining r in
      if available < len then Inl (Truncated len available)
      else case slice_get (buf r) (pos r) (pos r + len) of
             None \<Rightarrow> Inl (Truncated len available)
           | Some chunk \<Rightarrow> Inr (chunk, r\<lparr>pos := pos r + len\<rparr>))"

definition read_u8 :: "u8 parser" where
  "read_u8 = pbind (take_bytes 1) (\<lambda>bs.
     case bs of b # _ \<Rightarrow> pret b | [] \<Rightarrow> pfail (Truncated 1 0))"

text \<open>\<open>read_array::<N>\<close> copies a slice of length \<open>N\<close> into an array of that length.\<close>

definition read_array :: "nat \<Rightarrow> bytes parser" where
  "read_array n = take_bytes n"

definition read_u32_le :: "u32 parser" where
  "read_u32_le = pbind (read_array 4) (\<lambda>bs. pret (from_le_bytes bs))"

definition read_u64_le :: "u64 parser" where
  "read_u64_le = pbind (read_array 8) (\<lambda>bs. pret (from_le_bytes bs))"

text \<open>\<open>cast_signed\<close> keeps the bit pattern, so a signed integer is its word; \<open>sint\<close> reads it.\<close>

definition read_i64_le :: "u64 parser" where
  "read_i64_le = read_u64_le"

definition read_i32_le :: "u32 parser" where
  "read_i32_le = read_u32_le"

definition read_optional_i32 :: "u32 option parser" where
  "read_optional_i32 = pbind read_u8 (\<lambda>b.
     if b = 0 then pret None else pbind read_i32_le (\<lambda>x. pret (Some x)))"

definition read_bytes_u32_prefixed :: "string \<Rightarrow> nat \<Rightarrow> bytes parser" where
  "read_bytes_u32_prefixed field max_len = pbind read_u32_le (\<lambda>len.
     if unat len > max_len then pfail (LengthOutOfBounds field (unat len) max_len)
     else take_bytes (unat len))"

definition read_string_u16_prefixed :: "string \<Rightarrow> nat \<Rightarrow> bytes parser" where
  "read_string_u16_prefixed field max_len = pbind (read_array 2) (\<lambda>lb.
     let len = unat (from_le_bytes lb :: u16) in
     if len > max_len then pfail (LengthOutOfBounds field len max_len)
     else pbind (take_bytes len) (\<lambda>bs.
       if utf8_valid bs then pret bs else pfail (InvalidUtf8 field)))"

section \<open>Writing\<close>

text \<open>The writers append to \<open>out\<close>; each definition is the bytes it appends.\<close>

definition write_u16_le :: "u16 \<Rightarrow> bytes" where "write_u16_le v = to_le_bytes 2 v"
definition write_u32_le :: "u32 \<Rightarrow> bytes" where "write_u32_le v = to_le_bytes 4 v"
definition write_u64_le :: "u64 \<Rightarrow> bytes" where "write_u64_le v = to_le_bytes 8 v"
definition write_i64_le :: "u64 \<Rightarrow> bytes" where "write_i64_le v = to_le_bytes 8 v"
definition write_i32_le :: "u32 \<Rightarrow> bytes" where "write_i32_le v = to_le_bytes 4 v"

definition write_optional_i32 :: "u32 option \<Rightarrow> bytes" where
  "write_optional_i32 v = (case v of None \<Rightarrow> [0] | Some x \<Rightarrow> 1 # write_i32_le x)"

text \<open>\<open>bytes.len() as u32\<close> and \<open>value.len() as u16\<close> truncate.\<close>

definition write_bytes_u32_prefixed :: "bytes \<Rightarrow> bytes" where
  "write_bytes_u32_prefixed bs = write_u32_le (of_nat (length bs)) @ bs"

definition write_string_u16_prefixed :: "bytes \<Rightarrow> bytes" where
  "write_string_u16_prefixed s = write_u16_le (of_nat (length s)) @ s"

section \<open>The contract of a wire field\<close>

text \<open>A reader that has consumed \<open>pre\<close> and has \<open>rest\<close> ahead.\<close>

definition reader_at :: "bytes \<Rightarrow> bytes \<Rightarrow> reader" where
  "reader_at pre rest = \<lparr>buf = pre @ rest, pos = length pre\<rparr>"

fun is_truncated :: "snapshot_protocol_error + 'a \<Rightarrow> bool" where
  "is_truncated (Inl (Truncated n a)) = True"
| "is_truncated _ = False"

lemma reader_new_at: "reader_new b = reader_at [] b"
  by (simp add: reader_new_def reader_at_def)

lemma take_bytes_at [wire]:
  "take_bytes (length xs) (reader_at pre (xs @ rest)) = Inr (xs, reader_at (pre @ xs) rest)"
  by (simp add: take_bytes_def reader_at_def remaining_def slice_get_def)

lemma take_bytes_short:
  "length rest < n \<Longrightarrow> take_bytes n (reader_at pre rest) = Inl (Truncated n (length rest))"
  by (simp add: take_bytes_def reader_at_def remaining_def)

lemma pbind_pret [simp]: "pbind (pret x) f = f x"
  by (rule ext) (simp add: pbind_def pret_def)

lemma pbind_Inr_iff:
  "pbind p f r = Inr y \<longleftrightarrow> (\<exists>x r'. p r = Inr (x, r') \<and> f x r' = Inr y)"
  by (cases "p r") (auto simp: pbind_def)

lemma pbind_assoc: "pbind (pbind p f) g = pbind p (\<lambda>x. pbind (f x) g)"
  by (rule ext) (simp add: pbind_def split: sum.splits prod.splits)

locale wire_field =
  fixes enc :: "'a \<Rightarrow> bytes"
    and dec :: "'a parser"
    and ok :: "'a \<Rightarrow> bool"
  assumes dec_enc: "ok x \<Longrightarrow> dec (reader_at pre (enc x @ rest)) = Inr (x, reader_at (pre @ enc x) rest)"
    and dec_cut: "ok x \<Longrightarrow> k < length (enc x) \<Longrightarrow> is_truncated (dec (reader_at pre (take k (enc x))))"
begin

lemma then_dec:
  "ok x \<Longrightarrow> pbind dec f (reader_at pre (enc x @ rest)) = f x (reader_at (pre @ enc x) rest)"
  by (simp add: pbind_def dec_enc)

lemma last_dec: "ok x \<Longrightarrow> pbind dec f (reader_at pre (enc x)) = f x (reader_at (pre @ enc x) [])"
  using then_dec [of x f pre "[]"] by simp

lemma then_cut:
  assumes "ok x"
    and cont: "\<And>j pre. j < length rest \<Longrightarrow> is_truncated (f x (reader_at pre (take j rest)))"
    and k: "k < length (enc x @ rest)"
  shows "is_truncated (pbind dec f (reader_at pre (take k (enc x @ rest))))"
proof (cases "k < length (enc x)")
  case True
  then have "is_truncated (dec (reader_at pre (take k (enc x))))"
    using assms(1) by (rule dec_cut [rotated])
  then obtain n a where "dec (reader_at pre (take k (enc x))) = Inl (Truncated n a)"
    by (auto elim: is_truncated.elims)
  with True show ?thesis
    by (simp add: pbind_def)
next
  case False
  with k have "k - length (enc x) < length rest" by simp
  with False cont show ?thesis
    by (simp add: then_dec [OF assms(1)])
qed

lemma last_cut:
  assumes "ok x" and "k < length (enc x)"
  shows "is_truncated (pbind dec f (reader_at pre (take k (enc x))))"
  using then_cut [of x "[]" f k pre] assms by simp

end

section \<open>The primitives satisfy it\<close>

text \<open>A fixed-width field: \<open>n\<close> bytes taken and converted.\<close>

lemma fixed_width_field:
  assumes "\<And>x. length (enc x) = n" and "\<And>x. ok x \<Longrightarrow> conv (enc x) = x"
  shows "wire_field enc (pbind (take_bytes n) (\<lambda>bs. pret (conv bs))) ok"
proof
  fix x pre rest assume "ok x"
  then show "pbind (take_bytes n) (\<lambda>bs. pret (conv bs)) (reader_at pre (enc x @ rest))
      = Inr (x, reader_at (pre @ enc x) rest)"
    using take_bytes_at [of "enc x" pre rest] by (simp add: pbind_def pret_def assms)
next
  fix x k pre assume "k < length (enc x)"
  then show "is_truncated (pbind (take_bytes n) (\<lambda>bs. pret (conv bs)) (reader_at pre (take k (enc x))))"
    by (simp add: pbind_def take_bytes_short assms)
qed

interpretation f_u64: wire_field write_u64_le read_u64_le "\<lambda>_. True"
  unfolding read_u64_le_def read_array_def by (rule fixed_width_field) (simp_all add: write_u64_le_def)

interpretation f_i64: wire_field write_i64_le read_i64_le "\<lambda>_. True"
  unfolding read_i64_le_def read_u64_le_def read_array_def
  by (rule fixed_width_field) (simp_all add: write_i64_le_def)

interpretation f_u32: wire_field write_u32_le read_u32_le "\<lambda>_. True"
  unfolding read_u32_le_def read_array_def by (rule fixed_width_field) (simp_all add: write_u32_le_def)

interpretation f_i32: wire_field write_i32_le read_i32_le "\<lambda>_. True"
  unfolding read_i32_le_def read_u32_le_def read_array_def
  by (rule fixed_width_field) (simp_all add: write_i32_le_def)

interpretation f_u8: wire_field "\<lambda>b. [b]" read_u8 "\<lambda>_. True"
proof
  show "read_u8 (reader_at pre ([x] @ rest)) = Inr (x, reader_at (pre @ [x]) rest)" for x pre rest
    using take_bytes_at [of "[x]" pre rest] by (simp add: read_u8_def pbind_def pret_def)
  show "is_truncated (read_u8 (reader_at pre (take k [x])))" if "k < length [x]" for k x pre
    using that by (simp add: read_u8_def pbind_def take_bytes_short)
qed

interpretation f_array16: wire_field "\<lambda>bs. bs" "read_array 16" "\<lambda>bs. length bs = 16"
proof
  show "read_array 16 (reader_at pre (x @ rest)) = Inr (x, reader_at (pre @ x) rest)"
    if "length x = 16" for x pre rest
    using take_bytes_at [of x pre rest] that by (simp add: read_array_def)
  show "is_truncated (read_array 16 (reader_at pre (take k x)))"
    if "length x = 16" and "k < length x" for x k pre
    using that by (simp add: read_array_def take_bytes_short)
qed

lemmas fixed_wire [wire] =
  f_u64.then_dec f_u64.last_dec f_i64.then_dec f_i64.last_dec f_u32.then_dec f_u32.last_dec
  f_i32.then_dec f_i32.last_dec f_array16.then_dec f_array16.last_dec

lemma read_u8_Cons [wire]:
  "pbind read_u8 f (reader_at pre (b # rest)) = f b (reader_at (pre @ [b]) rest)"
  using f_u8.then_dec [where x = b and f = f and pre = pre and rest = rest] by simp

lemma read_u8_cut: "is_truncated (pbind read_u8 f (reader_at pre []))"
  by (simp add: read_u8_def pbind_def take_bytes_short)

text \<open>Length-prefixed byte strings and UTF-8 strings, for any field name and limit.\<close>

definition bytes_ok :: "nat \<Rightarrow> bytes \<Rightarrow> bool" where
  "bytes_ok max_len bs \<longleftrightarrow> length bs \<le> max_len"

definition string_ok :: "nat \<Rightarrow> bytes \<Rightarrow> bool" where
  "string_ok max_len s \<longleftrightarrow> length s \<le> max_len \<and> utf8_valid s"

lemma unat_of_nat_len:
  "n \<le> u32_max \<Longrightarrow> unat (of_nat n :: u32) = n"
  "n \<le> u16_max \<Longrightarrow> unat (of_nat n :: u16) = n"
  by (simp_all add: unat_of_nat rust_limits)

lemma bytes_prefixed_field:
  assumes m: "max_len \<le> u32_max"
  shows "wire_field write_bytes_u32_prefixed (read_bytes_u32_prefixed field max_len) (bytes_ok max_len)"
proof
  fix x pre rest assume "bytes_ok max_len x"
  with m have "unat (of_nat (length x) :: u32) = length x" and "length x \<le> max_len"
    by (simp_all add: bytes_ok_def unat_of_nat_len)
  then show "read_bytes_u32_prefixed field max_len (reader_at pre (write_bytes_u32_prefixed x @ rest))
      = Inr (x, reader_at (pre @ write_bytes_u32_prefixed x) rest)"
    by (simp add: read_bytes_u32_prefixed_def write_bytes_u32_prefixed_def wire)
next
  fix x k pre assume x: "bytes_ok max_len x" and k: "k < length (write_bytes_u32_prefixed x)"
  from x m have len: "unat (of_nat (length x) :: u32) = length x" and le: "length x \<le> max_len"
    by (simp_all add: bytes_ok_def unat_of_nat_len)
  show "is_truncated (read_bytes_u32_prefixed field max_len
          (reader_at pre (take k (write_bytes_u32_prefixed x))))"
    unfolding read_bytes_u32_prefixed_def write_bytes_u32_prefixed_def
    by (rule f_u32.then_cut) (use k in \<open>simp_all add: len le [THEN leD] take_bytes_short write_bytes_u32_prefixed_def\<close>)
qed

lemma from_write_u16_le [simp]: "from_le_bytes (write_u16_le v) = v"
  by (simp add: write_u16_le_def)

lemma read_array2_at [wire]:
  "pbind (read_array 2) f (reader_at pre (write_u16_le v @ rest))
     = f (write_u16_le v) (reader_at (pre @ write_u16_le v) rest)"
  using take_bytes_at [of "write_u16_le v" pre rest]
  by (simp add: pbind_def read_array_def write_u16_le_def)

lemma string_prefixed_field:
  assumes m: "max_len \<le> u16_max"
  shows "wire_field write_string_u16_prefixed (read_string_u16_prefixed field max_len) (string_ok max_len)"
proof
  fix x pre rest assume "string_ok max_len x"
  with m have "unat (of_nat (length x) :: u16) = length x" "length x \<le> max_len" "utf8_valid x"
    by (simp_all add: string_ok_def unat_of_nat_len)
  then show "read_string_u16_prefixed field max_len (reader_at pre (write_string_u16_prefixed x @ rest))
      = Inr (x, reader_at (pre @ write_string_u16_prefixed x) rest)"
    by (simp add: read_string_u16_prefixed_def write_string_u16_prefixed_def wire Let_def
          pbind_def [of "take_bytes _"] pret_def)
next
  fix x k pre assume x: "string_ok max_len x" and k: "k < length (write_string_u16_prefixed x)"
  from x m have len: "unat (of_nat (length x) :: u16) = length x" and le: "length x \<le> max_len"
    by (simp_all add: string_ok_def unat_of_nat_len)
  let ?lb = "write_u16_le (of_nat (length x))"
  have kb: "k < 2 + length x" using k by (simp add: write_string_u16_prefixed_def write_u16_le_def)
  show "is_truncated (read_string_u16_prefixed field max_len
          (reader_at pre (take k (write_string_u16_prefixed x))))"
  proof (cases "k < 2")
    case True
    then have "length (take k (?lb @ x)) < 2" by simp
    then show ?thesis
      unfolding read_string_u16_prefixed_def write_string_u16_prefixed_def
      by (simp only: read_array_def pbind_def [of "take_bytes 2"] take_bytes_short sum.case
            is_truncated.simps)
  next
    case False
    then have "take k (?lb @ x) = ?lb @ take (k - 2) x" by (simp add: write_u16_le_def)
    with False kb len le show ?thesis
      by (simp add: read_string_u16_prefixed_def write_string_u16_prefixed_def wire Let_def)
        (simp add: pbind_def take_bytes_short)
  qed
qed

interpretation f_opt_i32: wire_field write_optional_i32 read_optional_i32 "\<lambda>_. True"
proof
  show "read_optional_i32 (reader_at pre (write_optional_i32 x @ rest))
      = Inr (x, reader_at (pre @ write_optional_i32 x) rest)" for x pre rest
    by (cases x) (simp_all add: read_optional_i32_def write_optional_i32_def wire pret_def)
  show "is_truncated (read_optional_i32 (reader_at pre (take k (write_optional_i32 x))))"
    if "k < length (write_optional_i32 x)" for k x pre
  proof (cases k)
    case 0
    then show ?thesis by (simp add: read_optional_i32_def read_u8_cut)
  next
    case (Suc j)
    with that show ?thesis
      by (cases x) (simp_all add: read_optional_i32_def write_optional_i32_def wire f_i32.last_cut)
  qed
qed

section \<open>What a successful read tells\<close>

text \<open>
  The reader's position never passes the end of the buffer, which is what makes the subtraction in
  \<open>remaining\<close> safe, and a read value never exceeds its declared limit.
\<close>

definition reader_inv :: "reader \<Rightarrow> bool" where
  "reader_inv r \<longleftrightarrow> pos r \<le> length (buf r)"

definition advances :: "'a parser \<Rightarrow> bool" where
  "advances p \<longleftrightarrow> (\<forall>r x r'. reader_inv r \<longrightarrow> p r = Inr (x, r') \<longrightarrow>
     reader_inv r' \<and> buf r' = buf r \<and> pos r \<le> pos r')"

lemma advancesD:
  "advances p \<Longrightarrow> reader_inv r \<Longrightarrow> p r = Inr (x, r') \<Longrightarrow>
     reader_inv r' \<and> buf r' = buf r \<and> pos r \<le> pos r'"
  unfolding advances_def by blast

lemma advances_pbind [intro!]:
  assumes "advances p" and "\<And>x. advances (f x)"
  shows "advances (pbind p f)"
  unfolding advances_def
proof (intro allI impI)
  fix r y r' assume r: "reader_inv r" and "pbind p f r = Inr (y, r')"
  then obtain x r1 where p: "p r = Inr (x, r1)" and f: "f x r1 = Inr (y, r')"
    by (auto simp: pbind_Inr_iff)
  from advancesD [OF assms(1) r p] have r1: "reader_inv r1" "buf r1 = buf r" "pos r \<le> pos r1" by auto
  from advancesD [OF assms(2) r1(1) f] r1(2,3)
  show "reader_inv r' \<and> buf r' = buf r \<and> pos r \<le> pos r'" by (metis order_trans)
qed

lemma advances_pret [simp, intro]: "advances (pret x)"
  by (simp add: advances_def pret_def)

lemma advances_pfail [simp, intro]: "advances (pfail e)"
  by (simp add: advances_def pfail_def)

lemma advances_take_bytes [simp, intro]: "advances (take_bytes n)"
  by (auto simp: advances_def take_bytes_def reader_inv_def remaining_def slice_get_def Let_def
      split: if_splits option.splits)

lemma advances_reads [simp, intro]:
  "advances read_u8" "advances (read_array n)" "advances read_u32_le" "advances read_u64_le"
  "advances read_i64_le" "advances read_i32_le"
  unfolding read_u8_def read_array_def read_u32_le_def read_u64_le_def read_i64_le_def read_i32_le_def
  by (auto split: list.split)

lemma advances_prefixed [simp, intro]:
  "advances read_optional_i32" "advances (read_bytes_u32_prefixed fld m)"
  "advances (read_string_u16_prefixed fld m)"
  unfolding read_optional_i32_def read_bytes_u32_prefixed_def read_string_u16_prefixed_def Let_def
  by auto

lemma take_bytes_InrD: "take_bytes n r = Inr (x, r') \<Longrightarrow> length x = n"
  by (auto simp: take_bytes_def Let_def split: if_splits option.splits dest: slice_get_length)

lemma read_bytes_InrD:
  "read_bytes_u32_prefixed field m r = Inr (x, r') \<Longrightarrow> bytes_ok m x"
  by (auto simp: read_bytes_u32_prefixed_def pbind_Inr_iff pfail_def bytes_ok_def
      dest!: take_bytes_InrD split: if_splits)

lemma read_string_InrD:
  "read_string_u16_prefixed field m r = Inr (x, r') \<Longrightarrow> string_ok m x"
  by (auto simp: read_string_u16_prefixed_def pbind_Inr_iff pfail_def string_ok_def pret_def Let_def
      dest!: take_bytes_InrD split: if_splits)

end
