(* ===== verification/Snapshot_Messages.thy ===== *)
theory Snapshot_Messages
  imports Snapshot_Codec
begin

text \<open>
  The snapshot manager's message bodies and its request and response unions,
  \<open>crates/uffs-broker-protocol/src/snapshot_manager/messages.rs\<close> and \<open>mod.rs\<close>. Record fields carry
  a prefix for their struct, since several structs share field names. A Rust \<open>String\<close> is its byte
  string; the \<open>ok\<close> predicates state the type invariants (array length, valid UTF-8) and the limits
  the decoder enforces.
\<close>

definition MAX_IDENTIFIER_BYTES :: nat where "MAX_IDENTIFIER_BYTES = 1024"
definition MAX_PATH_BYTES :: nat where "MAX_PATH_BYTES = 32767 * 2"
definition MAX_MESSAGE_BYTES :: nat where "MAX_MESSAGE_BYTES = 4096"

lemmas wire_limits = MAX_IDENTIFIER_BYTES_def MAX_PATH_BYTES_def MAX_MESSAGE_BYTES_def rust_limits

section \<open>Message bodies\<close>

record volume_identity =
  volume_serial :: u64
  volume_guid :: bytes

definition volume_encode :: "volume_identity \<Rightarrow> bytes" where
  "volume_encode v = write_u64_le (volume_serial v) @ write_bytes_u32_prefixed (volume_guid v)"

definition volume_decode :: "volume_identity parser" where
  "volume_decode =
     pbind read_u64_le (\<lambda>serial.
     pbind (read_bytes_u32_prefixed ''volume_guid'' MAX_IDENTIFIER_BYTES) (\<lambda>guid.
     pret \<lparr>volume_serial = serial, volume_guid = guid\<rparr>))"

record create_snapshot_lease =
  csl_job_id :: bytes
  csl_volume :: volume_identity
  csl_root :: bytes
  csl_lifetime_secs :: u64
  csl_policy_id :: u32

definition create_encode :: "create_snapshot_lease \<Rightarrow> bytes" where
  "create_encode m = csl_job_id m @ volume_encode (csl_volume m)
     @ write_bytes_u32_prefixed (csl_root m) @ write_u64_le (csl_lifetime_secs m)
     @ write_u32_le (csl_policy_id m)"

definition create_decode :: "create_snapshot_lease parser" where
  "create_decode =
     pbind (read_array 16) (\<lambda>job.
     pbind volume_decode (\<lambda>vol.
     pbind (read_bytes_u32_prefixed ''requested_root'' MAX_PATH_BYTES) (\<lambda>root.
     pbind read_u64_le (\<lambda>secs.
     pbind read_u32_le (\<lambda>policy.
     pret \<lparr>csl_job_id = job, csl_volume = vol, csl_root = root, csl_lifetime_secs = secs,
           csl_policy_id = policy\<rparr>)))))"

record create_result =
  cr_lease_id :: u64
  cr_snapshot_id :: bytes
  cr_device_identity :: bytes
  cr_created_at :: u64
  cr_expires_at :: u64

definition create_result_encode :: "create_result \<Rightarrow> bytes" where
  "create_result_encode m = write_u64_le (cr_lease_id m) @ write_bytes_u32_prefixed (cr_snapshot_id m)
     @ write_string_u16_prefixed (cr_device_identity m) @ write_i64_le (cr_created_at m)
     @ write_i64_le (cr_expires_at m)"

definition create_result_decode :: "create_result parser" where
  "create_result_decode =
     pbind read_u64_le (\<lambda>lease.
     pbind (read_bytes_u32_prefixed ''snapshot_id'' MAX_IDENTIFIER_BYTES) (\<lambda>sid.
     pbind (read_string_u16_prefixed ''snapshot_device_identity'' 2048) (\<lambda>dev.
     pbind read_i64_le (\<lambda>created.
     pbind read_i64_le (\<lambda>expires.
     pret \<lparr>cr_lease_id = lease, cr_snapshot_id = sid, cr_device_identity = dev,
           cr_created_at = created, cr_expires_at = expires\<rparr>)))))"

record duplicate_handle =
  dup_lease_id :: u64
  dup_reader_pid :: u32

definition duplicate_encode :: "duplicate_handle \<Rightarrow> bytes" where
  "duplicate_encode m = write_u64_le (dup_lease_id m) @ write_u32_le (dup_reader_pid m)"

definition duplicate_decode :: "duplicate_handle parser" where
  "duplicate_decode =
     pbind read_u64_le (\<lambda>lease.
     pbind read_u32_le (\<lambda>pid.
     pret \<lparr>dup_lease_id = lease, dup_reader_pid = pid\<rparr>))"

record renew_lease_msg =
  ren_lease_id :: u64
  ren_expiry :: u64

definition renew_encode :: "renew_lease_msg \<Rightarrow> bytes" where
  "renew_encode m = write_u64_le (ren_lease_id m) @ write_i64_le (ren_expiry m)"

definition renew_decode :: "renew_lease_msg parser" where
  "renew_decode =
     pbind read_u64_le (\<lambda>lease.
     pbind read_i64_le (\<lambda>expiry.
     pret \<lparr>ren_lease_id = lease, ren_expiry = expiry\<rparr>))"

text \<open>\<open>ReleaseSnapshotLease\<close> and \<open>QuerySnapshotLease\<close> are one \<open>u64\<close> each.\<close>

datatype release_msg = ReleaseSnapshotLease u64
datatype query_msg = QuerySnapshotLease u64

fun release_encode :: "release_msg \<Rightarrow> bytes" where
  "release_encode (ReleaseSnapshotLease i) = write_u64_le i"

definition release_decode :: "release_msg parser" where
  "release_decode = pbind read_u64_le (\<lambda>i. pret (ReleaseSnapshotLease i))"

fun query_encode :: "query_msg \<Rightarrow> bytes" where
  "query_encode (QuerySnapshotLease i) = write_u64_le i"

definition query_decode :: "query_msg parser" where
  "query_decode = pbind read_u64_le (\<lambda>i. pret (QuerySnapshotLease i))"

section \<open>Discriminants\<close>

datatype snapshot_lease_state = WireActive | WireExpired | WireReleased | WireUnknown

fun lease_state_encode :: "snapshot_lease_state \<Rightarrow> u8" where
  "lease_state_encode WireActive = 0"
| "lease_state_encode WireExpired = 1"
| "lease_state_encode WireReleased = 2"
| "lease_state_encode WireUnknown = 3"

definition lease_state_decode :: "u8 \<Rightarrow> u8 + snapshot_lease_state" where
  "lease_state_decode b =
     (if b = 0 then Inr WireActive else if b = 1 then Inr WireExpired
      else if b = 2 then Inr WireReleased else if b = 3 then Inr WireUnknown else Inl b)"

datatype error_code =
    SnapshotCreateFailed | VolumeValidationFailed | Unauthorized | LeaseNotFound
  | LeaseNotActive | ReaderIdentityRejected | SnapshotStorageExhausted | InternalError

fun error_code_encode :: "error_code \<Rightarrow> u8" where
  "error_code_encode SnapshotCreateFailed = 0"
| "error_code_encode VolumeValidationFailed = 1"
| "error_code_encode Unauthorized = 2"
| "error_code_encode LeaseNotFound = 3"
| "error_code_encode LeaseNotActive = 4"
| "error_code_encode ReaderIdentityRejected = 5"
| "error_code_encode SnapshotStorageExhausted = 6"
| "error_code_encode InternalError = 7"

definition error_code_decode :: "u8 \<Rightarrow> u8 + error_code" where
  "error_code_decode b =
     (if b = 0 then Inr SnapshotCreateFailed else if b = 1 then Inr VolumeValidationFailed
      else if b = 2 then Inr Unauthorized else if b = 3 then Inr LeaseNotFound
      else if b = 4 then Inr LeaseNotActive else if b = 5 then Inr ReaderIdentityRejected
      else if b = 6 then Inr SnapshotStorageExhausted else if b = 7 then Inr InternalError
      else Inl b)"

record lease_status_msg =
  ls_lease_id :: u64
  ls_state :: snapshot_lease_state
  ls_snapshot_id :: bytes
  ls_created_at :: u64
  ls_expires_at :: u64

definition lease_status_encode :: "lease_status_msg \<Rightarrow> bytes" where
  "lease_status_encode m = write_u64_le (ls_lease_id m) @ [lease_state_encode (ls_state m)]
     @ write_bytes_u32_prefixed (ls_snapshot_id m) @ write_i64_le (ls_created_at m)
     @ write_i64_le (ls_expires_at m)"

definition lease_status_decode :: "lease_status_msg parser" where
  "lease_status_decode =
     pbind read_u64_le (\<lambda>lease.
     pbind read_u8 (\<lambda>b.
     case lease_state_decode b of
       Inl other \<Rightarrow> pfail (UnknownDiscriminant ''state'' (unat other))
     | Inr st \<Rightarrow>
         pbind (read_bytes_u32_prefixed ''snapshot_id'' MAX_IDENTIFIER_BYTES) (\<lambda>sid.
         pbind read_i64_le (\<lambda>created.
         pbind read_i64_le (\<lambda>expires.
         pret \<lparr>ls_lease_id = lease, ls_state = st, ls_snapshot_id = sid,
               ls_created_at = created, ls_expires_at = expires\<rparr>)))))"

section \<open>Requests and responses\<close>

datatype snapshot_request =
    ReqCreate create_snapshot_lease
  | ReqDuplicate duplicate_handle
  | ReqRenew renew_lease_msg
  | ReqRelease release_msg
  | ReqQuery query_msg

fun request_encode :: "snapshot_request \<Rightarrow> bytes" where
  "request_encode (ReqCreate m) = 0 # create_encode m"
| "request_encode (ReqDuplicate m) = 1 # duplicate_encode m"
| "request_encode (ReqRenew m) = 2 # renew_encode m"
| "request_encode (ReqRelease m) = 3 # release_encode m"
| "request_encode (ReqQuery m) = 4 # query_encode m"

definition request_body :: "u8 \<Rightarrow> snapshot_request parser" where
  "request_body tag =
     (if tag = 0 then pbind create_decode (\<lambda>m. pret (ReqCreate m))
      else if tag = 1 then pbind duplicate_decode (\<lambda>m. pret (ReqDuplicate m))
      else if tag = 2 then pbind renew_decode (\<lambda>m. pret (ReqRenew m))
      else if tag = 3 then pbind release_decode (\<lambda>m. pret (ReqRelease m))
      else if tag = 4 then pbind query_decode (\<lambda>m. pret (ReqQuery m))
      else pfail (UnknownDiscriminant ''request_tag'' (unat tag)))"

definition request_decode :: "bytes \<Rightarrow> snapshot_protocol_error + snapshot_request" where
  "request_decode bs = map_sum id fst (pbind read_u8 request_body (reader_new bs))"

datatype snapshot_response =
    RespCreated create_result
  | RespDuplicated
  | RespRenewed u64
  | RespReleased
  | RespStatus lease_status_msg
  | RespError error_code "u32 option" bytes

fun response_encode :: "snapshot_response \<Rightarrow> bytes" where
  "response_encode (RespCreated m) = 0 # create_result_encode m"
| "response_encode RespDuplicated = [1]"
| "response_encode (RespRenewed t) = 2 # write_i64_le t"
| "response_encode RespReleased = [3]"
| "response_encode (RespStatus m) = 4 # lease_status_encode m"
| "response_encode (RespError code hresult message) =
     5 # error_code_encode code # write_optional_i32 hresult @ write_string_u16_prefixed message"

definition response_body :: "u8 \<Rightarrow> snapshot_response parser" where
  "response_body tag =
     (if tag = 0 then pbind create_result_decode (\<lambda>m. pret (RespCreated m))
      else if tag = 1 then pret RespDuplicated
      else if tag = 2 then pbind read_i64_le (\<lambda>t. pret (RespRenewed t))
      else if tag = 3 then pret RespReleased
      else if tag = 4 then pbind lease_status_decode (\<lambda>m. pret (RespStatus m))
      else if tag = 5 then
        pbind read_u8 (\<lambda>b.
        case error_code_decode b of
          Inl other \<Rightarrow> pfail (UnknownDiscriminant ''code'' (unat other))
        | Inr code \<Rightarrow>
            pbind read_optional_i32 (\<lambda>hresult.
            pbind (read_string_u16_prefixed ''message'' MAX_MESSAGE_BYTES) (\<lambda>message.
            pret (RespError code hresult message))))
      else pfail (UnknownDiscriminant ''response_tag'' (unat tag)))"

definition response_decode :: "bytes \<Rightarrow> snapshot_protocol_error + snapshot_response" where
  "response_decode bs = map_sum id fst (pbind read_u8 response_body (reader_new bs))"

section \<open>Well-formed messages\<close>

definition volume_ok :: "volume_identity \<Rightarrow> bool" where
  "volume_ok v \<longleftrightarrow> bytes_ok MAX_IDENTIFIER_BYTES (volume_guid v)"

fun request_ok :: "snapshot_request \<Rightarrow> bool" where
  "request_ok (ReqCreate m) \<longleftrightarrow>
     length (csl_job_id m) = 16 \<and> volume_ok (csl_volume m) \<and> bytes_ok MAX_PATH_BYTES (csl_root m)"
| "request_ok _ \<longleftrightarrow> True"

fun response_ok :: "snapshot_response \<Rightarrow> bool" where
  "response_ok (RespCreated m) \<longleftrightarrow>
     bytes_ok MAX_IDENTIFIER_BYTES (cr_snapshot_id m) \<and> string_ok 2048 (cr_device_identity m)"
| "response_ok (RespStatus m) \<longleftrightarrow> bytes_ok MAX_IDENTIFIER_BYTES (ls_snapshot_id m)"
| "response_ok (RespError _ _ message) \<longleftrightarrow> string_ok MAX_MESSAGE_BYTES message"
| "response_ok _ \<longleftrightarrow> True"

section \<open>The message fields as wire fields\<close>

interpretation f_guid: wire_field write_bytes_u32_prefixed
    "read_bytes_u32_prefixed ''volume_guid'' MAX_IDENTIFIER_BYTES" "bytes_ok MAX_IDENTIFIER_BYTES"
  by (rule bytes_prefixed_field) (simp add: wire_limits)

interpretation f_sid: wire_field write_bytes_u32_prefixed
    "read_bytes_u32_prefixed ''snapshot_id'' MAX_IDENTIFIER_BYTES" "bytes_ok MAX_IDENTIFIER_BYTES"
  by (rule bytes_prefixed_field) (simp add: wire_limits)

interpretation f_root: wire_field write_bytes_u32_prefixed
    "read_bytes_u32_prefixed ''requested_root'' MAX_PATH_BYTES" "bytes_ok MAX_PATH_BYTES"
  by (rule bytes_prefixed_field) (simp add: wire_limits)

interpretation f_dev: wire_field write_string_u16_prefixed
    "read_string_u16_prefixed ''snapshot_device_identity'' 2048" "string_ok 2048"
  by (rule string_prefixed_field) (simp add: wire_limits)

interpretation f_msg: wire_field write_string_u16_prefixed
    "read_string_u16_prefixed ''message'' MAX_MESSAGE_BYTES" "string_ok MAX_MESSAGE_BYTES"
  by (rule string_prefixed_field) (simp add: wire_limits)

lemmas prefixed_wire [wire] =
  f_guid.then_dec f_guid.last_dec f_sid.then_dec f_sid.last_dec f_root.then_dec f_root.last_dec
  f_dev.then_dec f_dev.last_dec f_msg.then_dec f_msg.last_dec f_opt_i32.then_dec f_opt_i32.last_dec

lemma discriminants [simp]:
  "lease_state_decode (lease_state_encode s) = Inr s"
  "error_code_decode (error_code_encode c) = Inr c"
  by (cases s; simp add: lease_state_decode_def) (cases c; simp add: error_code_decode_def)

text \<open>Every message body is a wire field in turn, so a union's decoder is one step over its tag.\<close>

interpretation f_volume: wire_field volume_encode volume_decode volume_ok
proof
  show "volume_decode (reader_at pre (volume_encode v @ rest)) = Inr (v, reader_at (pre @ volume_encode v) rest)"
    if "volume_ok v" for v pre rest
    using that by (cases v) (simp add: volume_decode_def volume_encode_def volume_ok_def wire pret_def)
  show "is_truncated (volume_decode (reader_at pre (take k (volume_encode v))))"
    if "volume_ok v" and "k < length (volume_encode v)" for v k pre
    using that unfolding volume_decode_def volume_encode_def volume_ok_def
    by (intro f_u64.then_cut f_guid.last_cut TrueI)
qed

lemmas volume_wire [wire] = f_volume.then_dec f_volume.last_dec

interpretation f_create: wire_field create_encode create_decode "\<lambda>m. request_ok (ReqCreate m)"
proof
  show "create_decode (reader_at pre (create_encode m @ rest)) = Inr (m, reader_at (pre @ create_encode m) rest)"
    if "request_ok (ReqCreate m)" for m pre rest
    using that by (cases m) (simp add: create_decode_def create_encode_def wire pret_def)
  show "is_truncated (create_decode (reader_at pre (take k (create_encode m))))"
    if "request_ok (ReqCreate m)" and "k < length (create_encode m)" for m k pre
    using that unfolding create_decode_def create_encode_def request_ok.simps
    by (elim conjE, intro f_array16.then_cut f_volume.then_cut f_root.then_cut f_u64.then_cut
        f_u32.last_cut TrueI)
qed

interpretation f_duplicate: wire_field duplicate_encode duplicate_decode "\<lambda>_. True"
proof
  show "duplicate_decode (reader_at pre (duplicate_encode m @ rest)) = Inr (m, reader_at (pre @ duplicate_encode m) rest)"
    for m pre rest
    by (cases m) (simp add: duplicate_decode_def duplicate_encode_def wire pret_def)
  show "is_truncated (duplicate_decode (reader_at pre (take k (duplicate_encode m))))"
    if "k < length (duplicate_encode m)" for k m pre
    using that unfolding duplicate_decode_def duplicate_encode_def
    by (intro f_u64.then_cut f_u32.last_cut TrueI)
qed

interpretation f_renew: wire_field renew_encode renew_decode "\<lambda>_. True"
proof
  show "renew_decode (reader_at pre (renew_encode m @ rest)) = Inr (m, reader_at (pre @ renew_encode m) rest)"
    for m pre rest
    by (cases m) (simp add: renew_decode_def renew_encode_def wire pret_def)
  show "is_truncated (renew_decode (reader_at pre (take k (renew_encode m))))"
    if "k < length (renew_encode m)" for k m pre
    using that unfolding renew_decode_def renew_encode_def
    by (intro f_u64.then_cut f_i64.last_cut TrueI)
qed

interpretation f_release: wire_field release_encode release_decode "\<lambda>_. True"
proof
  show "release_decode (reader_at pre (release_encode m @ rest)) = Inr (m, reader_at (pre @ release_encode m) rest)"
    for m pre rest
    by (cases m) (simp add: release_decode_def wire pret_def)
  show "is_truncated (release_decode (reader_at pre (take k (release_encode m))))"
    if "k < length (release_encode m)" for k m pre
    using that by (cases m) (simp add: release_decode_def f_u64.last_cut)
qed

interpretation f_query: wire_field query_encode query_decode "\<lambda>_. True"
proof
  show "query_decode (reader_at pre (query_encode m @ rest)) = Inr (m, reader_at (pre @ query_encode m) rest)"
    for m pre rest
    by (cases m) (simp add: query_decode_def wire pret_def)
  show "is_truncated (query_decode (reader_at pre (take k (query_encode m))))"
    if "k < length (query_encode m)" for k m pre
    using that by (cases m) (simp add: query_decode_def f_u64.last_cut)
qed

lemmas request_wire [wire] =
  f_create.last_dec f_duplicate.last_dec f_renew.last_dec f_release.last_dec f_query.last_dec
lemmas request_cut =
  f_create.last_cut f_duplicate.last_cut f_renew.last_cut f_release.last_cut f_query.last_cut

interpretation f_cresult: wire_field create_result_encode create_result_decode "\<lambda>m. response_ok (RespCreated m)"
proof
  show "create_result_decode (reader_at pre (create_result_encode m @ rest))
      = Inr (m, reader_at (pre @ create_result_encode m) rest)"
    if "response_ok (RespCreated m)" for m pre rest
    using that by (cases m) (simp add: create_result_decode_def create_result_encode_def wire pret_def)
  show "is_truncated (create_result_decode (reader_at pre (take k (create_result_encode m))))"
    if "response_ok (RespCreated m)" and "k < length (create_result_encode m)" for m k pre
    using that unfolding create_result_decode_def create_result_encode_def response_ok.simps
    by (elim conjE, intro f_u64.then_cut f_sid.then_cut f_dev.then_cut f_i64.then_cut f_i64.last_cut TrueI)
qed

lemma lease_status_tail_cut:
  assumes "bytes_ok MAX_IDENTIFIER_BYTES (ls_snapshot_id m)"
    and "k < length (write_bytes_u32_prefixed (ls_snapshot_id m) @ write_i64_le (ls_created_at m) @ write_i64_le (ls_expires_at m))"
  shows "is_truncated (pbind (read_bytes_u32_prefixed ''snapshot_id'' MAX_IDENTIFIER_BYTES)
      (\<lambda>sid. pbind read_i64_le (\<lambda>created. pbind read_i64_le (f sid created)))
      (reader_at pre (take k (write_bytes_u32_prefixed (ls_snapshot_id m)
         @ write_i64_le (ls_created_at m) @ write_i64_le (ls_expires_at m)))))"
  using assms by (intro f_sid.then_cut f_i64.then_cut f_i64.last_cut TrueI)

interpretation f_status: wire_field lease_status_encode lease_status_decode "\<lambda>m. response_ok (RespStatus m)"
proof
  show "lease_status_decode (reader_at pre (lease_status_encode m @ rest))
      = Inr (m, reader_at (pre @ lease_status_encode m) rest)"
    if "response_ok (RespStatus m)" for m pre rest
    using that by (cases m) (simp add: lease_status_decode_def lease_status_encode_def wire pret_def)
  show "is_truncated (lease_status_decode (reader_at pre (take k (lease_status_encode m))))"
    if "response_ok (RespStatus m)" and "k < length (lease_status_encode m)" for m k pre
    using that unfolding lease_status_decode_def lease_status_encode_def response_ok.simps
    by (intro f_u64.then_cut f_u8.then_cut TrueI) (simp_all add: lease_status_tail_cut del: take_append)
qed

lemmas response_wire [wire] = f_cresult.last_dec f_status.last_dec

section \<open>Properties\<close>

text \<open>
  C22. Every request the broker's client can build within the protocol's limits is decoded by the
  broker to exactly that request.
\<close>

theorem request_roundtrip:
  assumes "request_ok q"
  shows "request_decode (request_encode q) = Inr q"
  using assms
  by (cases q) (simp_all add: request_decode_def reader_new_at request_body_def wire pret_def)

theorem request_roundtrip_witness:
  "request_decode (request_encode (ReqCreate
     \<lparr>csl_job_id = replicate 16 7, csl_volume = \<lparr>volume_serial = 0xABCD, volume_guid = [1, 2, 3]\<rparr>,
      csl_root = [67, 58], csl_lifetime_secs = 600, csl_policy_id = 1\<rparr>)) =
   Inr (ReqCreate
     \<lparr>csl_job_id = replicate 16 7, csl_volume = \<lparr>volume_serial = 0xABCD, volume_guid = [1, 2, 3]\<rparr>,
      csl_root = [67, 58], csl_lifetime_secs = 600, csl_policy_id = 1\<rparr>)"
  by (rule request_roundtrip) (simp add: volume_ok_def bytes_ok_def wire_limits)

text \<open>
  Every response within the protocol's limits, with its device identity and error message valid
  UTF-8, is decoded by the client to exactly that response.
\<close>

theorem response_roundtrip:
  assumes "response_ok p"
  shows "response_decode (response_encode p) = Inr p"
  using assms
  by (cases p) (simp_all add: response_decode_def reader_new_at response_body_def wire pret_def)

theorem response_roundtrip_witness:
  "response_decode (response_encode (RespError LeaseNotActive (Some 0x8004230F) [110, 111])) =
   Inr (RespError LeaseNotActive (Some 0x8004230F) [110, 111])"
  by (rule response_roundtrip) (simp add: string_ok_def utf8_valid_def utf8_ascii_chars wire_limits)

text \<open>
  A request cut short anywhere is refused as truncated: the broker never accepts a proper
  prefix of a valid request and never misreads one as another message.
\<close>

theorem request_prefix_rejected:
  assumes "request_ok q" and "k < length (request_encode q)"
  shows "\<exists>needed available. request_decode (take k (request_encode q)) = Inl (Truncated needed available)"
proof -
  have "is_truncated (pbind read_u8 request_body (reader_at [] (take k (request_encode q))))"
  proof (cases k)
    case 0
    then show ?thesis by (simp add: read_u8_cut)
  next
    case (Suc j)
    with assms show ?thesis
      by (cases q) (simp_all add: wire request_body_def request_cut)
  qed
  then show ?thesis
    by (auto simp: request_decode_def reader_new_at elim: is_truncated.elims)
qed

theorem request_prefix_rejected_witness:
  "\<exists>needed available. request_decode (take 5 (request_encode (ReqQuery (QuerySnapshotLease 9))))
     = Inl (Truncated needed available)"
  by (rule request_prefix_rejected) (simp_all add: write_u64_le_def)

text \<open>
  Whatever bytes arrive, a request that decodes satisfies the limits: no identifier longer than
  \<open>MAX_IDENTIFIER_BYTES\<close>, no path longer than \<open>MAX_PATH_BYTES\<close>, a job id of 16 bytes.
\<close>

theorem request_decode_bounded:
  assumes "request_decode bs = Inr q"
  shows "request_ok q"
proof -
  have vol: "volume_decode r = Inr (v, r') \<Longrightarrow> volume_ok v" for r v r'
    by (auto simp: volume_decode_def pbind_Inr_iff pret_def volume_ok_def dest: read_bytes_InrD)
  have create: "create_decode r = Inr (m, r') \<Longrightarrow> request_ok (ReqCreate m)" for r m r'
    by (auto simp: create_decode_def pbind_Inr_iff pret_def read_array_def
        dest: take_bytes_InrD read_bytes_InrD vol)
  from assms obtain tag r r' where "request_body tag r = Inr (q, r')"
    by (cases "pbind read_u8 request_body (reader_new bs)")
      (auto simp: request_decode_def pbind_Inr_iff)
  then show ?thesis
    by (auto simp: request_body_def pbind_Inr_iff pret_def pfail_def split: if_splits dest: create)
qed

theorem request_decode_bounded_witness:
  "request_ok (ReqQuery (QuerySnapshotLease 0x0807060504030201))"
  by (rule request_decode_bounded [of "[4, 1, 2, 3, 4, 5, 6, 7, 8]"]) code_simp

end
