(* ===== verification/Snapshot_Lease.thy ===== *)
theory Snapshot_Lease
  imports Snapshot_Messages "HOL-Library.AList"
begin

text \<open>
  The broker's snapshot lease manager, \<open>crates/uffs-broker/src/snapshot_lease.rs\<close>. The VSS backend
  (\<open>VssProvider\<close>, Windows only) is a parameter: a record of its three operations over a backend state
  \<open>'p\<close>. The lease table (a \<open>HashMap\<close>) is an association list with distinct keys, whose order stands
  for the hash map's unspecified iteration order. Times are \<open>i64\<close> milliseconds as integers; the
  lease counter is a \<open>u64\<close> that wraps as \<open>fetch_add\<close> does. Each method runs to completion before the
  next one starts.
\<close>

section \<open>State and the backend interface\<close>

record snapshot_handle =
  sh_snapshot_id :: bytes
  sh_device_identity :: bytes

datatype vss_error = InvalidVolume string | CreateFailed "int option" string | DeleteFailed string

datatype lease_error = NotFound | NotActive | Vss vss_error

record 'p vss_provider =
  create_snapshot :: "'p \<Rightarrow> volume_identity \<Rightarrow> bytes \<Rightarrow> (vss_error + snapshot_handle) \<times> 'p"
  delete_snapshot :: "'p \<Rightarrow> bytes \<Rightarrow> (vss_error + unit) \<times> 'p"
  list_existing_snapshots :: "'p \<Rightarrow> (vss_error + bytes list) \<times> 'p"

datatype record_state = Active | Expired | Released

fun to_wire :: "record_state \<Rightarrow> snapshot_lease_state" where
  "to_wire Active = WireActive"
| "to_wire Expired = WireExpired"
| "to_wire Released = WireReleased"

record lease_record =
  lr_snapshot_id :: bytes
  lr_device_identity :: bytes
  lr_created_at :: int
  lr_expires_at :: int
  lr_state :: record_state

record 'p lease_manager =
  backend :: 'p
  next_lease_id :: nat
  leases :: "(nat \<times> lease_record) list"

record created_lease =
  cl_lease_id :: nat
  cl_snapshot_id :: bytes
  cl_device_identity :: bytes
  cl_created_at :: int
  cl_expires_at :: int

record lease_status =
  st_state :: snapshot_lease_state
  st_snapshot_id :: bytes
  st_created_at :: int
  st_expires_at :: int

section \<open>Operations\<close>

definition manager_new :: "'p \<Rightarrow> 'p lease_manager" where
  "manager_new p = \<lparr>backend = p, next_lease_id = 1, leases = []\<rparr>"

definition secs_to_ms_saturating :: "nat \<Rightarrow> int" where
  "secs_to_ms_saturating secs =
     (let ms = u64_sat_mul secs 1000 in if int ms \<le> i64_max then int ms else i64_max)"

text \<open>The loop of \<open>sweep_expired\<close> over the table's values; a failed delete is ignored.\<close>

fun sweep_records ::
  "'p vss_provider \<Rightarrow> int \<Rightarrow> 'p \<Rightarrow> (nat \<times> lease_record) list \<Rightarrow> 'p \<times> (nat \<times> lease_record) list"
where
  "sweep_records v now p [] = (p, [])"
| "sweep_records v now p ((i, r) # rs) =
     (if lr_state r = Active \<and> now \<ge> lr_expires_at r
      then (let p1 = snd (delete_snapshot v p (lr_snapshot_id r));
                (p2, rs') = sweep_records v now p1 rs
            in (p2, (i, r\<lparr>lr_state := Expired\<rparr>) # rs'))
      else (let (p2, rs') = sweep_records v now p rs in (p2, (i, r) # rs')))"

definition sweep_expired :: "'p vss_provider \<Rightarrow> int \<Rightarrow> 'p lease_manager \<Rightarrow> 'p lease_manager" where
  "sweep_expired v now m =
     (let (p, rs) = sweep_records v now (backend m) (leases m) in m\<lparr>backend := p, leases := rs\<rparr>)"

definition create_lease ::
  "'p vss_provider \<Rightarrow> volume_identity \<Rightarrow> bytes \<Rightarrow> nat \<Rightarrow> int \<Rightarrow> 'p lease_manager
     \<Rightarrow> (lease_error + created_lease) \<times> 'p lease_manager"
where
  "create_lease v volume root max_secs now m0 =
     (let m = sweep_expired v now m0 in
      case create_snapshot v (backend m) volume root of
        (Inl e, p) \<Rightarrow> (Inl (Vss e), m\<lparr>backend := p\<rparr>)
      | (Inr h, p) \<Rightarrow>
          (let i = next_lease_id m;
               expires = i64_sat_add now (secs_to_ms_saturating max_secs);
               r = \<lparr>lr_snapshot_id = sh_snapshot_id h, lr_device_identity = sh_device_identity h,
                    lr_created_at = now, lr_expires_at = expires, lr_state = Active\<rparr>
           in (Inr \<lparr>cl_lease_id = i, cl_snapshot_id = sh_snapshot_id h,
                    cl_device_identity = sh_device_identity h, cl_created_at = now,
                    cl_expires_at = expires\<rparr>,
               m\<lparr>backend := p, next_lease_id := (i + 1) mod 2 ^ 64,
                 leases := AList.update i r (leases m)\<rparr>)))"

definition renew_lease ::
  "'p vss_provider \<Rightarrow> nat \<Rightarrow> int \<Rightarrow> int \<Rightarrow> 'p lease_manager \<Rightarrow> (lease_error + int) \<times> 'p lease_manager"
where
  "renew_lease v i expiry now m0 =
     (let m = sweep_expired v now m0 in
      case map_of (leases m) i of
        None \<Rightarrow> (Inl NotFound, m)
      | Some r \<Rightarrow>
          if lr_state r \<noteq> Active then (Inl NotActive, m)
          else (Inr expiry, m\<lparr>leases := AList.update i (r\<lparr>lr_expires_at := expiry\<rparr>) (leases m)\<rparr>))"

definition release_lease ::
  "'p vss_provider \<Rightarrow> nat \<Rightarrow> 'p lease_manager \<Rightarrow> (lease_error + unit) \<times> 'p lease_manager"
where
  "release_lease v i m =
     (case map_of (leases m) i of
        None \<Rightarrow> (Inl NotFound, m)
      | Some r \<Rightarrow>
          if lr_state r \<noteq> Active then (Inr (), m)
          else (case delete_snapshot v (backend m) (lr_snapshot_id r) of
                  (Inl e, p) \<Rightarrow> (Inl (Vss e), m\<lparr>backend := p\<rparr>)
                | (Inr _, p) \<Rightarrow>
                    (Inr (), m\<lparr>backend := p,
                               leases := AList.update i (r\<lparr>lr_state := Released\<rparr>) (leases m)\<rparr>)))"

definition query_lease ::
  "'p vss_provider \<Rightarrow> nat \<Rightarrow> int \<Rightarrow> 'p lease_manager \<Rightarrow> lease_status option \<times> 'p lease_manager"
where
  "query_lease v i now m0 =
     (let m = sweep_expired v now m0 in
      (map_option (\<lambda>r. \<lparr>st_state = to_wire (lr_state r), st_snapshot_id = lr_snapshot_id r,
          st_created_at = lr_created_at r, st_expires_at = lr_expires_at r\<rparr>) (map_of (leases m) i), m))"

definition device_identity_if_active ::
  "'p vss_provider \<Rightarrow> nat \<Rightarrow> int \<Rightarrow> 'p lease_manager \<Rightarrow> bytes option \<times> 'p lease_manager"
where
  "device_identity_if_active v i now m0 =
     (let m = sweep_expired v now m0 in
      (case map_of (leases m) i of
         None \<Rightarrow> None
       | Some r \<Rightarrow> if lr_state r = Active then Some (lr_device_identity r) else None, m))"

fun delete_all :: "'p vss_provider \<Rightarrow> 'p \<Rightarrow> bytes list \<Rightarrow> nat \<times> 'p" where
  "delete_all v p [] = (0, p)"
| "delete_all v p (s # ss) =
     (case delete_snapshot v p s of
        (Inl _, p1) \<Rightarrow> delete_all v p1 ss
      | (Inr _, p1) \<Rightarrow> (let (n, p2) = delete_all v p1 ss in (n + 1, p2)))"

definition reconcile_at_startup ::
  "'p vss_provider \<Rightarrow> 'p lease_manager \<Rightarrow> (vss_error + nat) \<times> 'p lease_manager"
where
  "reconcile_at_startup v m =
     (case list_existing_snapshots v (backend m) of
        (Inl e, p) \<Rightarrow> (Inl e, m\<lparr>backend := p\<rparr>)
      | (Inr ss, p) \<Rightarrow> (let (n, p') = delete_all v p ss in (Inr n, m\<lparr>backend := p'\<rparr>)))"

section \<open>The sweep\<close>

definition swept :: "int \<Rightarrow> lease_record \<Rightarrow> lease_record" where
  "swept now r = (if lr_state r = Active \<and> now \<ge> lr_expires_at r then r\<lparr>lr_state := Expired\<rparr> else r)"

definition sweep_table :: "int \<Rightarrow> (nat \<times> lease_record) list \<Rightarrow> (nat \<times> lease_record) list" where
  "sweep_table now rs = map (\<lambda>(i, r). (i, swept now r)) rs"

lemma sweep_records_leases: "snd (sweep_records v now p rs) = sweep_table now rs"
  by (induction v now p rs rule: sweep_records.induct)
    (auto simp: swept_def sweep_table_def Let_def split: prod.splits)

lemma sweep_expired_leases [simp]: "leases (sweep_expired v now m) = sweep_table now (leases m)"
  by (simp add: sweep_expired_def case_prod_unfold sweep_records_leases)

lemma sweep_expired_next [simp]: "next_lease_id (sweep_expired v now m) = next_lease_id m"
  by (simp add: sweep_expired_def split: prod.splits)

lemma map_of_swept [simp]: "map_of (sweep_table now rs) j = map_option (swept now) (map_of rs j)"
  by (induction rs) (auto simp: sweep_table_def)

lemma keys_swept [simp]: "map fst (sweep_table now rs) = map fst rs"
  by (induction rs) (auto simp: sweep_table_def)

lemma dom_swept [simp]: "dom (map_of (sweep_table now rs)) = dom (map_of rs)"
  by (auto simp: dom_def)

lemma swept_idle [simp]: "lr_state r \<noteq> Active \<Longrightarrow> swept now r = r"
  by (simp add: swept_def)

lemma swept_Active_iff [simp]:
  "lr_state (swept now r) = Active \<longleftrightarrow> lr_state r = Active \<and> now < lr_expires_at r"
  by (auto simp: swept_def)

section \<open>The table invariant and the steps of the manager\<close>

text \<open>Lease ids are distinct, never \<open>0\<close>, and below the counter.\<close>

definition lease_inv :: "'p lease_manager \<Rightarrow> bool" where
  "lease_inv m \<longleftrightarrow> distinct (map fst (leases m)) \<and> 1 \<le> next_lease_id m \<and>
     (\<forall>i \<in> dom (map_of (leases m)). 1 \<le> i \<and> i < next_lease_id m)"

text \<open>
  One step is one call of a method that can change the state. A call of \<open>create_lease\<close> counts as long as
  the 64-bit counter has an id left.
\<close>

inductive lease_step :: "'p vss_provider \<Rightarrow> 'p lease_manager \<Rightarrow> 'p lease_manager \<Rightarrow> bool"
  for v :: "'p vss_provider"
where
  create: "next_lease_id m < 2 ^ 64 - 1 \<Longrightarrow> lease_step v m (snd (create_lease v vol root secs now m))"
| renew: "lease_step v m (snd (renew_lease v i expiry now m))"
| release: "lease_step v m (snd (release_lease v i m))"
| query: "lease_step v m (snd (query_lease v i now m))"
| device: "lease_step v m (snd (device_identity_if_active v i now m))"
| sweep: "lease_step v m (sweep_expired v now m)"
| reconcile: "lease_step v m (snd (reconcile_at_startup v m))"

abbreviation lease_steps :: "'p vss_provider \<Rightarrow> 'p lease_manager \<Rightarrow> 'p lease_manager \<Rightarrow> bool" where
  "lease_steps v \<equiv> (lease_step v)\<^sup>*\<^sup>*"

lemmas lease_ops = create_lease_def renew_lease_def release_lease_def query_lease_def
  device_identity_if_active_def reconcile_at_startup_def Let_def

lemma lease_inv_new: "lease_inv (manager_new p)"
  by (simp add: lease_inv_def manager_new_def)

lemma lease_inv_sweep: "lease_inv m \<Longrightarrow> lease_inv (sweep_expired v now m)"
  unfolding lease_inv_def sweep_expired_leases sweep_expired_next keys_swept dom_swept .

lemma lease_inv_update:
  assumes "lease_inv m" and "map_of (leases m) i \<noteq> None"
  shows "lease_inv (m\<lparr>backend := p, leases := AList.update i r (leases m)\<rparr>)"
  using assms by (auto simp: lease_inv_def distinct_update update_conv' domIff)

lemma lease_inv_backend: "lease_inv (m\<lparr>backend := p\<rparr>) = lease_inv m"
  by (simp add: lease_inv_def)

lemma lease_inv_create:
  assumes "lease_inv m" and "next_lease_id m < 2 ^ 64 - 1"
  shows "lease_inv (snd (create_lease v vol root secs now m))"
proof (cases "create_snapshot v (backend (sweep_expired v now m)) vol root")
  case (Pair res p)
  show ?thesis
  proof (cases res)
    case Inl
    with Pair assms(1) show ?thesis
      by (simp add: create_lease_def Let_def lease_inv_backend lease_inv_sweep)
  next
    case (Inr h)
    from assms(1) have "lease_inv (sweep_expired v now m)" by (rule lease_inv_sweep)
    with Inr Pair assms(2) show ?thesis
      by (auto simp: create_lease_def Let_def lease_inv_def distinct_update update_conv' less_Suc_eq)
  qed
qed


lemma lease_inv_renew: "lease_inv m \<Longrightarrow> lease_inv (snd (renew_lease v i expiry now m))"
  using lease_inv_update [where m = "sweep_expired v now m" and i = i and p = "backend (sweep_expired v now m)"]
  by (auto simp: renew_lease_def Let_def lease_inv_sweep split: option.splits)

lemma lease_inv_release: "lease_inv m \<Longrightarrow> lease_inv (snd (release_lease v i m))"
  using lease_inv_update [of m i]
  by (auto simp: release_lease_def lease_inv_backend split: option.splits prod.splits sum.splits)

lemma lease_inv_reconcile: "lease_inv m \<Longrightarrow> lease_inv (snd (reconcile_at_startup v m))"
  by (auto simp: reconcile_at_startup_def Let_def lease_inv_backend split: prod.splits sum.splits)

lemma lease_step_inv: "lease_step v m m' \<Longrightarrow> lease_inv m \<Longrightarrow> lease_inv m'"
proof (induction rule: lease_step.induct)
  case query
  then show ?case by (simp add: query_lease_def Let_def lease_inv_sweep)
next
  case device
  then show ?case by (simp add: device_identity_if_active_def Let_def lease_inv_sweep)
qed (simp_all add: lease_inv_create lease_inv_renew lease_inv_release lease_inv_reconcile lease_inv_sweep)

lemma lease_steps_inv: "lease_steps v m m' \<Longrightarrow> lease_inv m \<Longrightarrow> lease_inv m'"
  by (induction rule: rtranclp_induct) (auto dest: lease_step_inv)

text \<open>A fresh id is not a key, so inserting it leaves every other lease alone.\<close>

lemma fresh_id: "lease_inv m \<Longrightarrow> map_of (leases m) (next_lease_id m) = None"
  by (auto simp: lease_inv_def domIff)

lemma create_lease_keeps:
  assumes "lease_inv m" and "map_of (leases m) i = Some r" and "lr_state r \<noteq> Active"
  shows "map_of (leases (snd (create_lease v vol root secs now m))) i = Some r"
proof -
  from assms(1,2) have "i \<noteq> next_lease_id m"
    using fresh_id by fastforce
  with assms(2,3) show ?thesis
    by (auto simp: create_lease_def Let_def update_conv' split: prod.splits sum.splits)
qed

lemma lease_step_keeps_terminal:
  "lease_step v m m' \<Longrightarrow> lease_inv m \<Longrightarrow> map_of (leases m) i = Some r \<Longrightarrow> lr_state r \<noteq> Active
     \<Longrightarrow> map_of (leases m') i = Some r"
proof (induction rule: lease_step.induct)
  case create
  then show ?case by (simp add: create_lease_keeps)
next
  case (renew m j)
  then show ?case
    by (cases "j = i") (auto simp: renew_lease_def Let_def update_conv' split: option.splits)
next
  case (release m j)
  then show ?case
    by (cases "j = i") (auto simp: release_lease_def update_conv' split: option.splits prod.splits sum.splits)
qed (auto simp: query_lease_def device_identity_if_active_def reconcile_at_startup_def Let_def
    split: prod.splits sum.splits)

section \<open>Properties\<close>

text \<open>
  A lease that has expired or been released stays exactly as it is for the rest of the
  manager's life: no sequence of calls revives it, renews it or changes its record.
\<close>

theorem terminal_lease_final:
  assumes "lease_steps v m m'" and "lease_inv m"
    and "map_of (leases m) i = Some r" and "lr_state r \<noteq> Active"
  shows "map_of (leases m') i = Some r"
  using assms
proof (induction rule: rtranclp_induct)
  case base
  then show ?case by simp
next
  case (step m1 m2)
  from step have "lease_inv m1" by (blast intro: lease_steps_inv)
  with step show ?case by (blast intro: lease_step_keeps_terminal)
qed

definition demo_provider :: "unit vss_provider" where
  "demo_provider = \<lparr>create_snapshot = (\<lambda>p _ _. (Inr \<lparr>sh_snapshot_id = [1], sh_device_identity = [68]\<rparr>, p)),
     delete_snapshot = (\<lambda>p _. (Inr (), p)), list_existing_snapshots = (\<lambda>p. (Inr [], p))\<rparr>"

definition demo_record :: lease_record where
  "demo_record = \<lparr>lr_snapshot_id = [1], lr_device_identity = [68], lr_created_at = 0,
     lr_expires_at = 1000, lr_state = Released\<rparr>"

definition demo_manager :: "unit lease_manager" where
  "demo_manager = \<lparr>backend = (), next_lease_id = 2, leases = [(1, demo_record)]\<rparr>"

theorem terminal_lease_final_witness:
  "map_of (leases (snd (renew_lease demo_provider 1 9000 5 demo_manager))) 1 = Some demo_record"
proof (rule terminal_lease_final)
  show "lease_steps demo_provider demo_manager (snd (renew_lease demo_provider 1 9000 5 demo_manager))"
    by (rule r_into_rtranclp) (rule lease_step.renew)
qed (simp_all add: demo_manager_def demo_record_def lease_inv_def)

text \<open>
  C25. The identity of a snapshot device is handed out only for a lease that was active and not yet
  past its expiry when it was asked for.
\<close>

theorem device_only_while_leased:
  assumes "fst (device_identity_if_active v i now m) = Some d"
  shows "\<exists>r. map_of (leases m) i = Some r \<and> lr_state r = Active \<and> now < lr_expires_at r
            \<and> lr_device_identity r = d"
  using assms
  by (auto simp: device_identity_if_active_def Let_def swept_def split: option.splits if_splits)

theorem device_only_while_leased_witness:
  "\<exists>r. map_of (leases (snd (create_lease demo_provider \<lparr>volume_serial = 1, volume_guid = []\<rparr> [] 60 100
          (manager_new ())))) 1 = Some r \<and> lr_state r = Active \<and> 5000 < lr_expires_at r
          \<and> lr_device_identity r = [68]"
  by (rule device_only_while_leased [where v = demo_provider])
    (simp add: device_identity_if_active_def create_lease_def demo_provider_def manager_new_def
      sweep_expired_def swept_def sweep_table_def i64_sat_add_def secs_to_ms_saturating_def rust_arith rust_limits)

text \<open>
  A lease that \<open>create_lease\<close> reports is recorded under a fresh id, is active, and expires the
  requested lifetime (saturated) after its creation; every reachable manager keeps its ids distinct
  and below the counter.
\<close>

theorem create_lease_fresh:
  assumes "lease_steps v (manager_new p0) m"
    and "next_lease_id m < 2 ^ 64 - 1"
    and "create_lease v vol root secs now m = (Inr c, m')"
  shows "map_of (leases m) (cl_lease_id c) = None
       \<and> map_of (leases m') (cl_lease_id c) =
           Some \<lparr>lr_snapshot_id = cl_snapshot_id c, lr_device_identity = cl_device_identity c,
                 lr_created_at = now, lr_expires_at = i64_sat_add now (secs_to_ms_saturating secs),
                 lr_state = Active\<rparr>
       \<and> lease_inv m'"
proof -
  from assms(1) have inv: "lease_inv m"
    by (rule lease_steps_inv) (rule lease_inv_new)
  from assms(3) have m': "m' = snd (create_lease v vol root secs now m)" by simp
  have "lease_inv m'"
    unfolding m' using inv assms(2) by (rule lease_inv_create)
  moreover have "cl_lease_id c = next_lease_id m"
    using assms(3) by (auto simp: create_lease_def Let_def split: prod.splits sum.splits)
  ultimately show ?thesis
    using assms(3) fresh_id [OF inv]
    by (auto simp: create_lease_def Let_def update_conv' split: prod.splits sum.splits)
qed

theorem create_lease_fresh_witness:
  "map_of (leases (manager_new ())) 1 = None \<and>
   map_of (leases (snd (create_lease demo_provider \<lparr>volume_serial = 1, volume_guid = []\<rparr> [] 60 100
          (manager_new ())))) 1 =
      Some \<lparr>lr_snapshot_id = [1], lr_device_identity = [68], lr_created_at = 100,
            lr_expires_at = 60100, lr_state = Active\<rparr>"
proof -
  let ?v = "\<lparr>volume_serial = 1, volume_guid = []\<rparr>"
  let ?c = "\<lparr>cl_lease_id = 1, cl_snapshot_id = [1], cl_device_identity = [68], cl_created_at = 100,
             cl_expires_at = 60100\<rparr>"
  have "create_lease demo_provider ?v [] 60 100 (manager_new ()) =
      (Inr ?c, snd (create_lease demo_provider ?v [] 60 100 (manager_new ())))"
    by (simp add: create_lease_def demo_provider_def manager_new_def sweep_expired_def
        i64_sat_add_def secs_to_ms_saturating_def rust_arith rust_limits)
  from create_lease_fresh [OF rtranclp.rtrancl_refl _ this]
  show ?thesis
    by (simp add: manager_new_def i64_sat_add_def secs_to_ms_saturating_def rust_arith rust_limits)
qed

text \<open>
  \<open>release_lease\<close> is the one method that does not sweep first, although the sweep's comment says
  every other method does. What an overdue lease ends up as therefore depends on the order of calls:
  released before any sweep it is reported as released, swept first it is reported as expired and the
  release is a successful no-op.
\<close>

theorem release_races_sweep:
  assumes "map_of (leases m) i = Some r" and "lr_state r = Active" and "lr_expires_at r \<le> now"
    and "fst (delete_snapshot v (backend m) (lr_snapshot_id r)) = Inr ()"
  shows "map_option st_state (fst (query_lease v i now (snd (release_lease v i m)))) = Some WireReleased
    \<and> map_option st_state (fst (query_lease v i now m)) = Some WireExpired
    \<and> fst (release_lease v i (sweep_expired v now m)) = Inr ()
    \<and> map_option st_state (fst (query_lease v i now (snd (release_lease v i (sweep_expired v now m)))))
        = Some WireExpired"
proof -
  obtain p where "delete_snapshot v (backend m) (lr_snapshot_id r) = (Inr (), p)"
    using assms(4) by (cases "delete_snapshot v (backend m) (lr_snapshot_id r)") auto
  with assms show ?thesis
    by (simp add: release_lease_def query_lease_def Let_def update_conv' swept_def)
qed

theorem release_races_sweep_witness:
  "map_option st_state (fst (query_lease demo_provider 1 5000 (snd (release_lease demo_provider 1
      (demo_manager\<lparr>leases := [(1, demo_record\<lparr>lr_state := Active\<rparr>)]\<rparr>))))) = Some WireReleased"
  using release_races_sweep [of "demo_manager\<lparr>leases := [(1, demo_record\<lparr>lr_state := Active\<rparr>)]\<rparr>" 1
      "demo_record\<lparr>lr_state := Active\<rparr>" 5000 demo_provider]
  by (simp add: demo_provider_def demo_record_def)

end
