(* ===== verification/Shard.thy ===== *)
theory Shard
  imports Rust_Prelude
begin

text \<open>
  One drive's shard in the daemon's cache: the tier state and its transition graph
  (\<open>crates/uffs-daemon/src/cache/shard.rs\<close>), the query counters it shares across rebuilds
  (\<open>cache/shard/drive_stats.rs\<close>), and the idle policy (\<open>cache/policy.rs\<close>). A shard is polymorphic
  in its body \<open>'b\<close> (the drive's compact index) and parked body \<open>'k\<close> (bloom and path trie).
\<close>

section \<open>Tier states\<close>

datatype shard_state = Unknown | Cold | Parked | Warm | Hot | Evicting

fun state_repr :: "shard_state \<Rightarrow> nat" where
  "state_repr Unknown = 0"
| "state_repr Cold = 1"
| "state_repr Parked = 2"
| "state_repr Warm = 3"
| "state_repr Hot = 4"
| "state_repr Evicting = 5"

definition from_repr :: "nat \<Rightarrow> shard_state" where
  "from_repr r = (if r = 0 then Unknown else if r = 1 then Cold else if r = 2 then Parked
     else if r = 4 then Hot else if r = 5 then Evicting else Warm)"

fun can_transition_to :: "shard_state \<Rightarrow> shard_state \<Rightarrow> bool" where
  "can_transition_to Unknown to = (to = Cold \<or> to = Parked \<or> to = Warm)"
| "can_transition_to Cold to = (to = Parked \<or> to = Warm)"
| "can_transition_to Parked to = (to = Cold \<or> to = Warm)"
| "can_transition_to Warm to = (to = Hot \<or> to = Evicting)"
| "can_transition_to Hot to = (to = Warm \<or> to = Evicting)"
| "can_transition_to Evicting to = (to = Cold \<or> to = Parked)"

fun state_display :: "shard_state \<Rightarrow> string" where
  "state_display Unknown = ''unknown''"
| "state_display Cold = ''cold''"
| "state_display Parked = ''parked''"
| "state_display Warm = ''warm''"
| "state_display Hot = ''hot''"
| "state_display Evicting = ''evicting''"

datatype parse_shard_state_error = ParseShardStateError string

definition state_from_str :: "string \<Rightarrow> parse_shard_state_error + shard_state" where
  "state_from_str s =
     (if s = ''unknown'' then Inr Unknown else if s = ''cold'' then Inr Cold
      else if s = ''parked'' then Inr Parked else if s = ''warm'' then Inr Warm
      else if s = ''hot'' then Inr Hot else if s = ''evicting'' then Inr Evicting
      else Inl (ParseShardStateError s))"

lemma from_repr_state_repr [simp]: "from_repr (state_repr s) = s"
  by (cases s) (simp_all add: from_repr_def)

lemma state_from_str_display [simp]: "state_from_str (state_display s) = Inr s"
  by (cases s) (simp_all add: state_from_str_def)

section \<open>Counters and entries\<close>

type_synonym drive_letter = char

record drive_stats =
  queries_total :: nat
  last_query_at_ms :: nat
  promotions_total :: nat

definition stats_new :: drive_stats where
  "stats_new = \<lparr>queries_total = 0, last_query_at_ms = 0, promotions_total = 0\<rparr>"

definition mark_query_at :: "nat \<Rightarrow> drive_stats \<Rightarrow> drive_stats" where
  "mark_query_at now st =
     st\<lparr>queries_total := (queries_total st + 1) mod 2 ^ 64, last_query_at_ms := now\<rparr>"

definition mark_loaded_at :: "nat \<Rightarrow> drive_stats \<Rightarrow> drive_stats" where
  "mark_loaded_at now st = st\<lparr>last_query_at_ms := now\<rparr>"

definition record_cold_to_hot_promote :: "drive_stats \<Rightarrow> drive_stats" where
  "record_cold_to_hot_promote st = st\<lparr>promotions_total := (promotions_total st + 1) mod 2 ^ 64\<rparr>"

record ('b, 'k) shard_entry =
  se_drive :: drive_letter
  se_state :: nat
  se_stats :: drive_stats
  se_body :: "'b option"
  se_parked_body :: "'k option"
  se_pin_until_ms :: nat

definition shard_state_of :: "('b, 'k) shard_entry \<Rightarrow> shard_state" where
  "shard_state_of e = from_repr (se_state e)"

definition new_warm :: "drive_letter \<Rightarrow> 'b \<Rightarrow> ('b, 'k) shard_entry" where
  "new_warm d b = \<lparr>se_drive = d, se_state = state_repr Warm, se_stats = stats_new, se_body = Some b,
     se_parked_body = None, se_pin_until_ms = 0\<rparr>"

definition new_warm_with_stats :: "drive_letter \<Rightarrow> 'b \<Rightarrow> drive_stats \<Rightarrow> ('b, 'k) shard_entry" where
  "new_warm_with_stats d b st = \<lparr>se_drive = d, se_state = state_repr Warm, se_stats = st,
     se_body = Some b, se_parked_body = None, se_pin_until_ms = 0\<rparr>"

definition new_hot_with_stats :: "drive_letter \<Rightarrow> 'b \<Rightarrow> drive_stats \<Rightarrow> ('b, 'k) shard_entry" where
  "new_hot_with_stats d b st = \<lparr>se_drive = d, se_state = state_repr Hot, se_stats = st,
     se_body = Some b, se_parked_body = None, se_pin_until_ms = 0\<rparr>"

definition new_parked :: "drive_letter \<Rightarrow> drive_stats \<Rightarrow> 'k \<Rightarrow> ('b, 'k) shard_entry" where
  "new_parked d st k = \<lparr>se_drive = d, se_state = state_repr Parked, se_stats = st,
     se_body = None, se_parked_body = Some k, se_pin_until_ms = 0\<rparr>"

definition new_cold :: "drive_letter \<Rightarrow> drive_stats \<Rightarrow> ('b, 'k) shard_entry" where
  "new_cold d st = \<lparr>se_drive = d, se_state = state_repr Cold, se_stats = st,
     se_body = None, se_parked_body = None, se_pin_until_ms = 0\<rparr>"

lemmas shard_ctor_defs = new_warm_def new_warm_with_stats_def new_hot_with_stats_def new_parked_def
  new_cold_def

definition is_pinned :: "('b, 'k) shard_entry \<Rightarrow> nat \<Rightarrow> bool" where
  "is_pinned e now_ms \<longleftrightarrow> se_pin_until_ms e > now_ms"

definition pin_until :: "nat \<Rightarrow> ('b, 'k) shard_entry \<Rightarrow> ('b, 'k) shard_entry" where
  "pin_until t e = e\<lparr>se_pin_until_ms := t\<rparr>"

text \<open>
  \<open>try_transition\<close>: a compare-and-swap loop. \<open>interfere\<close> lists the representations other threads
  store between this thread's load and its exchange, one per iteration; the loop retries while the
  exchange fails and stops at the first iteration without interference.
\<close>

record illegal_transition =
  it_from :: shard_state
  it_to :: shard_state

fun try_transition ::
  "nat list \<Rightarrow> shard_state \<Rightarrow> nat \<Rightarrow> (illegal_transition + shard_state) \<times> nat"
where
  "try_transition interfere to cell =
     (let prev = from_repr cell in
      if \<not> can_transition_to prev to then (Inl \<lparr>it_from = prev, it_to = to\<rparr>, cell)
      else (case interfere of
              [] \<Rightarrow> (Inr prev, state_repr to)
            | seen # rest \<Rightarrow>
                if seen = cell then (Inr prev, state_repr to) else try_transition rest to seen))"

declare try_transition.simps [simp del]

section \<open>The idle policy\<close>

record tier_thresholds =
  hot_to_warm_secs :: nat
  warm_to_parked_secs :: nat
  parked_to_cold_secs :: nat

definition next_state_for_idle_with_thresholds ::
  "shard_state \<Rightarrow> nat \<Rightarrow> tier_thresholds \<Rightarrow> shard_state option"
where
  "next_state_for_idle_with_thresholds s idle_secs th =
     (case s of
        Hot \<Rightarrow> if idle_secs \<ge> hot_to_warm_secs th then Some Warm else None
      | Warm \<Rightarrow> if idle_secs \<ge> warm_to_parked_secs th then Some Parked else None
      | Parked \<Rightarrow> if idle_secs \<ge> parked_to_cold_secs th then Some Cold else None
      | Cold \<Rightarrow> None
      | Unknown \<Rightarrow> None
      | Evicting \<Rightarrow> None)"

section \<open>Well-formed entries\<close>

text \<open>
  What the constructors establish: the stored representation is a stable tier, the two searchable
  tiers hold a body, a parked shard holds its parked body only, a cold one holds nothing.
\<close>

definition entry_ok :: "('b, 'k) shard_entry \<Rightarrow> bool" where
  "entry_ok e \<longleftrightarrow>
     (case shard_state_of e of
        Warm \<Rightarrow> se_body e \<noteq> None \<and> se_parked_body e = None
      | Hot \<Rightarrow> se_body e \<noteq> None \<and> se_parked_body e = None
      | Parked \<Rightarrow> se_body e = None \<and> se_parked_body e \<noteq> None
      | Cold \<Rightarrow> se_body e = None \<and> se_parked_body e = None
      | _ \<Rightarrow> False)"

lemma ctor_fields [simp]:
  "se_drive (new_warm d b) = d" "se_drive (new_warm_with_stats d b st) = d"
  "se_drive (new_hot_with_stats d b st) = d" "se_drive (new_parked d st k) = d"
  "se_drive (new_cold d st) = d"
  "shard_state_of (new_warm d b) = Warm" "shard_state_of (new_warm_with_stats d b st) = Warm"
  "shard_state_of (new_hot_with_stats d b st) = Hot" "shard_state_of (new_parked d st k) = Parked"
  "shard_state_of (new_cold d st) = Cold"
  by (simp_all add: shard_ctor_defs shard_state_of_def from_repr_def)

lemma ctor_ok [simp, intro]:
  "entry_ok (new_warm d b)" "entry_ok (new_warm_with_stats d b st)"
  "entry_ok (new_hot_with_stats d b st)" "entry_ok (new_parked d st k)" "entry_ok (new_cold d st)"
  by (simp_all add: entry_ok_def) (simp_all add: shard_ctor_defs)

lemma pin_until_fields [simp]:
  "se_drive (pin_until t e) = se_drive e" "shard_state_of (pin_until t e) = shard_state_of e"
  "se_body (pin_until t e) = se_body e" "entry_ok (pin_until t e) = entry_ok e"
  by (simp_all add: pin_until_def shard_state_of_def entry_ok_def split: shard_state.split)

section \<open>Properties\<close>

text \<open>
  The compare-and-swap transition, however other threads interfere: it always returns, and it
  moves the cell only along an edge of the transition graph from the state it reports; when it
  refuses, the state it saw has no such edge and it wrote nothing of its own.
\<close>

theorem try_transition_linearizes:
  "case try_transition interfere to cell of
     (Inr prev, cell') \<Rightarrow> can_transition_to prev to \<and> cell' = state_repr to
       \<and> prev \<in> from_repr ` set (cell # interfere)
   | (Inl e, cell') \<Rightarrow> \<not> can_transition_to (it_from e) to \<and> it_to e = to
       \<and> it_from e = from_repr cell' \<and> cell' \<in> set (cell # interfere)"
proof (induction interfere to cell rule: try_transition.induct)
  case (1 interfere to cell)
  show ?case
  proof (cases "can_transition_to (from_repr cell) to")
    case False
    then show ?thesis by (simp add: try_transition.simps [of interfere])
  next
    case legal: True
    show ?thesis
    proof (cases interfere)
      case Nil
      with legal show ?thesis by (simp add: try_transition.simps [of "[]"])
    next
      case (Cons seen rest)
      show ?thesis
      proof (cases "seen = cell")
        case True
        with legal Cons show ?thesis by (simp add: try_transition.simps [of "_ # _"])
      next
        case False
        with legal Cons have "try_transition interfere to cell = try_transition rest to seen"
          by (simp add: try_transition.simps [of "seen # _"])
        with "1.IH" [OF refl _ Cons False] legal Cons show ?thesis
          by (auto split: prod.splits sum.splits)
      qed
    qed
  qed
qed

end
