(* ===== verification/Shard_Registry.thy ===== *)
theory Shard_Registry
  imports Shard
begin

text \<open>
  The daemon's shard registry (\<open>crates/uffs-daemon/src/cache/registry.rs\<close>) and the controllers that
  rebuild it: the idle tick and the pressure cascade (\<open>index/transitions.rs\<close>), operator hibernate and
  preload (\<open>index/tiering_ops.rs\<close>), and the journal refresh swap (\<open>index/journal.rs\<close>). The registry is
  immutable: every operation returns a rebuilt one, which the manager stores under its write lock, so
  each controller here is the state change it makes in one lock window. Tracing, prefetch hints and
  working-set trims are left out; they do not touch the registry.

  Two functions of the compact index are arguments: \<open>letter_of\<close> (\<open>body.letter\<close>) and \<open>to_parked\<close>
  (\<open>body.to_parked_body()\<close>). The adaptive thresholds are floating-point functions of the query rate;
  the controller takes whatever thresholds they produce for an entry as the argument \<open>ttl\<close>.
\<close>

section \<open>The registry\<close>

datatype demote_reason = IdleTtl | PressureCascade | OperatorHibernate

fun demote_reason_str :: "demote_reason \<Rightarrow> string" where
  "demote_reason_str IdleTtl = ''demote''"
| "demote_reason_str PressureCascade = ''pressure-cascade''"
| "demote_reason_str OperatorHibernate = ''operator-hibernate''"

definition is_legal_demote_target :: "shard_state \<Rightarrow> shard_state \<Rightarrow> bool" where
  "is_legal_demote_target from_st target \<longleftrightarrow>
     ((from_st = Hot \<or> from_st = Warm) \<and> (target = Parked \<or> target = Cold))
     \<or> (from_st = Parked \<and> target = Cold)"

record ('b, 'k) shard_registry =
  shards :: "('b, 'k) shard_entry list"
  active_index :: "'b list"

definition is_active :: "('b, 'k) shard_entry \<Rightarrow> bool" where
  "is_active e \<longleftrightarrow> shard_state_of e = Warm \<or> shard_state_of e = Hot"

definition registry_new :: "('b, 'k) shard_registry" where
  "registry_new = \<lparr>shards = [], active_index = []\<rparr>"

definition from_shards :: "('b, 'k) shard_entry list \<Rightarrow> ('b, 'k) shard_registry" where
  "from_shards es = \<lparr>shards = es, active_index = List.map_filter se_body (filter is_active es)\<rparr>"

definition registry_add :: "('b \<Rightarrow> drive_letter) \<Rightarrow> 'b \<Rightarrow> ('b, 'k) shard_registry \<Rightarrow> ('b, 'k) shard_registry" where
  "registry_add letter_of b r = from_shards (shards r @ [new_warm (letter_of b) b])"

definition registry_replace ::
  "('b \<Rightarrow> drive_letter) \<Rightarrow> drive_letter \<Rightarrow> 'b \<Rightarrow> ('b, 'k) shard_registry \<Rightarrow> ('b, 'k) shard_registry"
where
  "registry_replace letter_of match_letter b r =
     from_shards (filter (\<lambda>e. se_drive e \<noteq> match_letter) (shards r) @ [new_warm (letter_of b) b])"

definition registry_remove :: "drive_letter \<Rightarrow> ('b, 'k) shard_registry \<Rightarrow> ('b, 'k) shard_registry" where
  "registry_remove d r = from_shards (filter (\<lambda>e. se_drive e \<noteq> d) (shards r))"

text \<open>\<open>iter().enumerate().find(..)\<close>: the first shard of the drive, with its position.\<close>

fun find_shard_from :: "nat \<Rightarrow> drive_letter \<Rightarrow> ('b, 'k) shard_entry list \<Rightarrow> (nat \<times> ('b, 'k) shard_entry) option" where
  "find_shard_from n d [] = None"
| "find_shard_from n d (e # es) = (if se_drive e = d then Some (n, e) else find_shard_from (Suc n) d es)"

definition find_shard :: "drive_letter \<Rightarrow> ('b, 'k) shard_registry \<Rightarrow> (nat \<times> ('b, 'k) shard_entry) option" where
  "find_shard d r = find_shard_from 0 d (shards r)"

definition rebuild_at ::
  "nat \<Rightarrow> ('b, 'k) shard_entry \<Rightarrow> ('b, 'k) shard_registry \<Rightarrow> ('b, 'k) shard_registry"
where
  "rebuild_at pos e r = from_shards ((shards r)[pos := e])"

definition demote_letter_with_reason ::
  "('b \<Rightarrow> 'k) \<Rightarrow> drive_letter \<Rightarrow> shard_state \<Rightarrow> demote_reason \<Rightarrow> ('b, 'k) shard_registry
     \<Rightarrow> ('b, 'k) shard_registry option"
where
  "demote_letter_with_reason to_parked letter target reason r =
     (case find_shard letter r of
        None \<Rightarrow> None
      | Some (pos, old) \<Rightarrow>
          if \<not> is_legal_demote_target (shard_state_of old) target then None
          else (case target of
                  Parked \<Rightarrow>
                    (case se_body old of
                       None \<Rightarrow> None
                     | Some b \<Rightarrow> Some (rebuild_at pos (new_parked (se_drive old) (se_stats old) (to_parked b)) r))
                | Cold \<Rightarrow> Some (rebuild_at pos (new_cold (se_drive old) (se_stats old)) r)
                | _ \<Rightarrow> None))"

definition demote_letter ::
  "('b \<Rightarrow> 'k) \<Rightarrow> drive_letter \<Rightarrow> shard_state \<Rightarrow> ('b, 'k) shard_registry \<Rightarrow> ('b, 'k) shard_registry option"
where
  "demote_letter to_parked letter target r = demote_letter_with_reason to_parked letter target IdleTtl r"

definition promote_letter ::
  "drive_letter \<Rightarrow> 'b \<Rightarrow> ('b, 'k) shard_registry \<Rightarrow> ('b, 'k) shard_registry option"
where
  "promote_letter letter b r =
     (case find_shard letter r of
        None \<Rightarrow> None
      | Some (pos, old) \<Rightarrow>
          if shard_state_of old \<notin> {Parked, Cold} then None
          else Some (rebuild_at pos (new_warm_with_stats (se_drive old) b (se_stats old)) r))"

definition promote_letter_to_hot ::
  "drive_letter \<Rightarrow> 'b \<Rightarrow> ('b, 'k) shard_registry \<Rightarrow> ('b, 'k) shard_registry option"
where
  "promote_letter_to_hot letter b r =
     (case find_shard letter r of
        None \<Rightarrow> None
      | Some (pos, old) \<Rightarrow>
          if shard_state_of old \<notin> {Parked, Cold, Warm} then None
          else (let st = (if shard_state_of old = Cold then record_cold_to_hot_promote (se_stats old)
                          else se_stats old)
                in Some (rebuild_at pos (new_hot_with_stats (se_drive old) b st) r)))"

definition replace_warm_body ::
  "drive_letter \<Rightarrow> 'b \<Rightarrow> ('b, 'k) shard_registry \<Rightarrow> ('b, 'k) shard_registry option"
where
  "replace_warm_body letter b r =
     (case find_shard letter r of
        None \<Rightarrow> None
      | Some (pos, old) \<Rightarrow>
          if shard_state_of old \<notin> {Warm, Hot} then None
          else Some (rebuild_at pos (new_warm_with_stats (se_drive old) b (se_stats old)) r))"

definition registry_contains :: "drive_letter \<Rightarrow> ('b, 'k) shard_registry \<Rightarrow> bool" where
  "registry_contains d r = list_ex (\<lambda>e. se_drive e = d) (shards r)"

definition loaded_letters :: "('b, 'k) shard_registry \<Rightarrow> drive_letter list" where
  "loaded_letters r = map se_drive (shards r)"

section \<open>The controllers\<close>

datatype tier_level = TierHot | TierWarm | TierParked

fun tier_to_state :: "tier_level \<Rightarrow> shard_state" where
  "tier_to_state TierHot = Hot"
| "tier_to_state TierWarm = Warm"
| "tier_to_state TierParked = Parked"

text \<open>The \<open>[shards.per_drive]\<close> section: key and \<open>min_tier\<close>, in the key order of the \<open>BTreeMap\<close>.\<close>

type_synonym per_drive_config = "(string \<times> tier_level option) list"

definition letter_eq_ignore_ascii_case :: "drive_letter \<Rightarrow> char \<Rightarrow> bool" where
  "letter_eq_ignore_ascii_case letter c \<longleftrightarrow>
     (let n = of_char c :: nat; folded = unset_bit 5 n
      in n < 128 \<and> of_char letter = folded \<and> 65 \<le> folded \<and> folded \<le> 90)"

fun trim_end_colon :: "string \<Rightarrow> string" where
  "trim_end_colon s = rev (dropWhile (\<lambda>c. c = CHR '':'') (rev s))"

definition min_tier_for_drive :: "drive_letter \<Rightarrow> per_drive_config \<Rightarrow> shard_state option" where
  "min_tier_for_drive letter cfg =
     (case find (\<lambda>(key, _).
                   (case trim_end_colon key of
                      [c] \<Rightarrow> letter_eq_ignore_ascii_case letter c
                    | _ \<Rightarrow> False)) cfg of
        None \<Rightarrow> None
      | Some (_, min_tier) \<Rightarrow> map_option tier_to_state min_tier)"

fun tier_rank :: "shard_state \<Rightarrow> nat" where
  "tier_rank Hot = 4"
| "tier_rank Warm = 3"
| "tier_rank Parked = 2"
| "tier_rank Cold = 1"
| "tier_rank Unknown = 0"
| "tier_rank Evicting = 0"

definition evaluate_idle_demote ::
  "(('b, 'k) shard_entry \<Rightarrow> tier_thresholds) \<Rightarrow> per_drive_config \<Rightarrow> nat \<Rightarrow> ('b, 'k) shard_entry
     \<Rightarrow> shard_state option"
where
  "evaluate_idle_demote ttl cfg now_ms e =
     (let idle_secs = (now_ms - last_query_at_ms (se_stats e)) div 1000;
          target = next_state_for_idle_with_thresholds (shard_state_of e) idle_secs (ttl e)
      in case (target, min_tier_for_drive (se_drive e) cfg) of
           (Some proposed, Some fl) \<Rightarrow> if tier_rank proposed < tier_rank fl then None else Some proposed
         | (Some proposed, None) \<Rightarrow> Some proposed
         | (None, _) \<Rightarrow> None)"

text \<open>The write-lock batch: every demote that the registry refuses is skipped.\<close>

fun apply_demotes ::
  "('b \<Rightarrow> 'k) \<Rightarrow> demote_reason \<Rightarrow> (drive_letter \<times> shard_state) list \<Rightarrow> ('b, 'k) shard_registry
     \<Rightarrow> ('b, 'k) shard_registry"
where
  "apply_demotes to_parked reason [] r = r"
| "apply_demotes to_parked reason ((letter, target) # ds) r =
     (case demote_letter_with_reason to_parked letter target reason r of
        None \<Rightarrow> apply_demotes to_parked reason ds r
      | Some r' \<Rightarrow> apply_demotes to_parked reason ds r')"

definition idle_demotes ::
  "(('b, 'k) shard_entry \<Rightarrow> tier_thresholds) \<Rightarrow> per_drive_config \<Rightarrow> nat \<Rightarrow> ('b, 'k) shard_registry
     \<Rightarrow> (drive_letter \<times> shard_state) list"
where
  "idle_demotes ttl cfg now_ms r =
     List.map_filter (\<lambda>e. map_option (Pair (se_drive e)) (evaluate_idle_demote ttl cfg now_ms e))
       (filter (\<lambda>e. \<not> is_pinned e now_ms) (shards r))"

definition demote_idle_shards ::
  "('b \<Rightarrow> 'k) \<Rightarrow> (('b, 'k) shard_entry \<Rightarrow> tier_thresholds) \<Rightarrow> per_drive_config \<Rightarrow> nat
     \<Rightarrow> ('b, 'k) shard_registry \<Rightarrow> ('b, 'k) shard_registry"
where
  "demote_idle_shards to_parked ttl cfg now_ms r =
     apply_demotes to_parked IdleTtl (idle_demotes ttl cfg now_ms r) r"

text \<open>\<open>Iterator::min_by_key\<close>: the first of several minimal elements.\<close>

fun min_by_key :: "('a \<Rightarrow> nat) \<Rightarrow> 'a list \<Rightarrow> 'a option" where
  "min_by_key f [] = None"
| "min_by_key f (x # xs) =
     (case min_by_key f xs of None \<Rightarrow> Some x | Some y \<Rightarrow> if f x \<le> f y then Some x else Some y)"

definition cascade_victim :: "nat \<Rightarrow> ('b, 'k) shard_registry \<Rightarrow> ('b, 'k) shard_entry option" where
  "cascade_victim now_ms r =
     min_by_key (\<lambda>e. last_query_at_ms (se_stats e))
       (filter (\<lambda>e. \<not> is_pinned e now_ms) (filter (\<lambda>e. shard_state_of e = Warm) (shards r)))"

definition cascade_demote_one_step ::
  "('b \<Rightarrow> 'k) \<Rightarrow> nat \<Rightarrow> ('b, 'k) shard_registry
     \<Rightarrow> (drive_letter \<times> shard_state) option \<times> ('b, 'k) shard_registry"
where
  "cascade_demote_one_step to_parked now_ms r =
     (case cascade_victim now_ms r of
        None \<Rightarrow> (None, r)
      | Some e \<Rightarrow>
          (case demote_letter_with_reason to_parked (se_drive e) Parked PressureCascade r of
             None \<Rightarrow> (None, r)
           | Some r' \<Rightarrow> (Some (se_drive e, Parked), r')))"

record hibernate_outcome =
  hot_demoted :: "drive_letter list"
  warm_demoted :: "drive_letter list"
  parked_demoted :: "drive_letter list"
  already_cold :: "drive_letter list"

fun hibernate_detect ::
  "drive_letter list \<Rightarrow> ('b, 'k) shard_entry list \<Rightarrow> hibernate_outcome \<times> (drive_letter \<times> shard_state) list"
where
  "hibernate_detect drives [] =
     (\<lparr>hot_demoted = [], warm_demoted = [], parked_demoted = [], already_cold = []\<rparr>, [])"
| "hibernate_detect drives (e # es) =
     (let (out, ds) = hibernate_detect drives es; d = se_drive e in
      if drives \<noteq> [] \<and> d \<notin> set drives then (out, ds)
      else case shard_state_of e of
             Hot \<Rightarrow> (out\<lparr>hot_demoted := d # hot_demoted out\<rparr>, (d, Cold) # ds)
           | Warm \<Rightarrow> (out\<lparr>warm_demoted := d # warm_demoted out\<rparr>, (d, Cold) # ds)
           | Parked \<Rightarrow> (out\<lparr>parked_demoted := d # parked_demoted out\<rparr>, (d, Cold) # ds)
           | _ \<Rightarrow> (out\<lparr>already_cold := d # already_cold out\<rparr>, ds))"

definition hibernate_shards ::
  "('b \<Rightarrow> 'k) \<Rightarrow> drive_letter list \<Rightarrow> ('b, 'k) shard_registry \<Rightarrow> hibernate_outcome \<times> ('b, 'k) shard_registry"
where
  "hibernate_shards to_parked drives r =
     (let (out, ds) = hibernate_detect drives (shards r)
      in (out, apply_demotes to_parked OperatorHibernate ds r))"

datatype preload_outcome =
    Promoted shard_state nat | AlreadyHot nat | UnknownDrive | LoadFailed | Busy shard_state

definition update_shard_at ::
  "nat \<Rightarrow> (('b, 'k) shard_entry \<Rightarrow> ('b, 'k) shard_entry) \<Rightarrow> ('b, 'k) shard_registry \<Rightarrow> ('b, 'k) shard_registry"
where
  "update_shard_at pos f r = r\<lparr>shards := (shards r)[pos := f (shards r ! pos)]\<rparr>"

definition swap_in_hot_with_pin ::
  "drive_letter \<Rightarrow> 'b \<Rightarrow> nat \<Rightarrow> nat \<Rightarrow> ('b, 'k) shard_registry \<Rightarrow> preload_outcome \<times> ('b, 'k) shard_registry"
where
  "swap_in_hot_with_pin letter b pin_ms now_ms r =
     (let prev = (case find_shard letter r of None \<Rightarrow> Unknown | Some (_, e) \<Rightarrow> shard_state_of e) in
      case promote_letter_to_hot letter b r of
        None \<Rightarrow> (Busy prev, r)
      | Some r1 \<Rightarrow>
          (Promoted prev pin_ms,
           case find_shard letter r1 of
             None \<Rightarrow> r1
           | Some (pos, _) \<Rightarrow>
               update_shard_at pos
                 (\<lambda>e. pin_until pin_ms (e\<lparr>se_stats := mark_loaded_at now_ms (se_stats e)\<rparr>)) r1))"

text \<open>
  \<open>preload_drive\<close>: \<open>load\<close> is the result of the single-flight body load for a cold or parked drive,
  \<open>now_ms\<close> the clock when the pin deadline is computed and \<open>swap_ms\<close> inside the swap.
\<close>

definition preload_drive ::
  "'b option \<Rightarrow> nat \<Rightarrow> nat \<Rightarrow> drive_letter \<Rightarrow> nat \<Rightarrow> ('b, 'k) shard_registry
     \<Rightarrow> preload_outcome \<times> ('b, 'k) shard_registry"
where
  "preload_drive load now_ms swap_ms letter pin_minutes r =
     (let pin_ms = u64_sat_add now_ms (u64_sat_mul pin_minutes 60000) in
      case find_shard letter r of
        None \<Rightarrow> (UnknownDrive, r)
      | Some (pos, e) \<Rightarrow>
          (case shard_state_of e of
             Hot \<Rightarrow> (AlreadyHot pin_ms, update_shard_at pos (pin_until pin_ms) r)
           | Unknown \<Rightarrow> (Busy Unknown, r)
           | Evicting \<Rightarrow> (Busy Evicting, r)
           | Warm \<Rightarrow> (case se_body e of
                        None \<Rightarrow> (LoadFailed, r)
                      | Some b \<Rightarrow> swap_in_hot_with_pin letter b pin_ms swap_ms r)
           | Cold \<Rightarrow> (case load of None \<Rightarrow> (LoadFailed, r)
                      | Some b \<Rightarrow> swap_in_hot_with_pin letter b pin_ms swap_ms r)
           | Parked \<Rightarrow> (case load of None \<Rightarrow> (LoadFailed, r)
                        | Some b \<Rightarrow> swap_in_hot_with_pin letter b pin_ms swap_ms r)))"

definition apply_journal_body ::
  "drive_letter \<Rightarrow> 'b \<Rightarrow> ('b, 'k) shard_registry \<Rightarrow> bool \<times> ('b, 'k) shard_registry"
where
  "apply_journal_body letter b r =
     (case replace_warm_body letter b r of None \<Rightarrow> (False, r) | Some r' \<Rightarrow> (True, r'))"

section \<open>The contract of a rebuild\<close>

text \<open>
  The invariant of the registry: every shard is well formed and the active index is exactly the bodies
  of the searchable shards, in order.
\<close>

definition registry_inv :: "('b, 'k) shard_registry \<Rightarrow> bool" where
  "registry_inv r \<longleftrightarrow> (\<forall>e \<in> set (shards r). entry_ok e) \<and>
     active_index r = List.map_filter se_body (filter is_active (shards r))"

lemma registry_inv_from_shards: "(\<And>e. e \<in> set es \<Longrightarrow> entry_ok e) \<Longrightarrow> registry_inv (from_shards es)"
  by (simp add: registry_inv_def from_shards_def)

lemma from_shards_shards [simp]: "shards (from_shards es) = es"
  by (simp add: from_shards_def)

lemma rebuild_at_shards [simp]: "shards (rebuild_at pos e r) = (shards r)[pos := e]"
  by (simp add: rebuild_at_def)

lemma registry_inv_rebuild: "registry_inv r \<Longrightarrow> entry_ok e \<Longrightarrow> registry_inv (rebuild_at pos e r)"
  unfolding rebuild_at_def
  by (rule registry_inv_from_shards) (auto simp: registry_inv_def dest!: set_update_subset_insert [THEN subsetD])

lemma find_shard_fromD:
  "find_shard_from n d es = Some (k, e) \<Longrightarrow>
     n \<le> k \<and> k - n < length es \<and> es ! (k - n) = e \<and> se_drive e = d"
proof (induction es arbitrary: n)
  case (Cons x es)
  show ?case
  proof (cases "se_drive x = d")
    case True
    with Cons.prems show ?thesis by simp
  next
    case False
    with Cons.prems have "find_shard_from (Suc n) d es = Some (k, e)" by simp
    from Cons.IH [OF this] show ?thesis by (simp add: nth_Cons' Suc_le_eq) linarith
  qed
qed simp

lemma find_shardD:
  assumes "find_shard d r = Some (pos, e)"
  shows "pos < length (shards r)" and "shards r ! pos = e" and "se_drive e = d" and "e \<in> set (shards r)"
  using find_shard_fromD [OF assms [unfolded find_shard_def]] by (auto simp: in_set_conv_nth)

lemma find_shard_from_None: "find_shard_from n d es = None \<longleftrightarrow> d \<notin> se_drive ` set es"
  by (induction es arbitrary: n) auto

lemma find_shard_from_distinct:
  "distinct (map se_drive es) \<Longrightarrow> k < length es \<Longrightarrow>
     find_shard_from n (se_drive (es ! k)) es = Some (n + k, es ! k)"
proof (induction es arbitrary: n k)
  case (Cons x es)
  show ?case
  proof (cases k)
    case (Suc j)
    with Cons.prems have "se_drive (es ! j) \<in> se_drive ` set es" by simp
    with Cons.prems(1) have "se_drive x \<noteq> se_drive (es ! j)" by auto
    with Suc Cons show ?thesis by simp
  qed simp
qed simp

lemma find_shard_distinct:
  "distinct (loaded_letters r) \<Longrightarrow> k < length (shards r) \<Longrightarrow>
     find_shard (se_drive (shards r ! k)) r = Some (k, shards r ! k)"
  using find_shard_from_distinct [of "shards r" k 0] by (simp add: find_shard_def loaded_letters_def)

text \<open>
  What a tier change of one drive promises: it replaces that drive's entry by a well-formed one of the
  same drive whose query counter and idle clock are those of the old entry, and touches nothing else.
\<close>

locale tier_change =
  fixes change :: "('b, 'k) shard_registry \<Rightarrow> ('b, 'k) shard_registry option"
    and letter :: drive_letter
  assumes change_entry: "change r = Some r' \<Longrightarrow>
     \<exists>pos old new. find_shard letter r = Some (pos, old) \<and> r' = rebuild_at pos new r
       \<and> se_drive new = se_drive old \<and> entry_ok new
       \<and> queries_total (se_stats new) = queries_total (se_stats old)
       \<and> last_query_at_ms (se_stats new) = last_query_at_ms (se_stats old)"
begin

lemma change_inv: "change r = Some r' \<Longrightarrow> registry_inv r \<Longrightarrow> registry_inv r'"
  using change_entry [of r r'] registry_inv_rebuild by blast

lemma change_letters:
  assumes "change r = Some r'"
  shows "loaded_letters r' = loaded_letters r"
proof -
  from change_entry [OF assms] obtain pos old new
    where f: "find_shard letter r = Some (pos, old)" and r': "r' = rebuild_at pos new r"
      and d: "se_drive new = se_drive old" by blast
  from find_shardD [OF f] d show ?thesis
    by (simp add: loaded_letters_def r' map_update list_update_same_conv)
qed

lemma change_others:
  assumes "change r = Some r'" and "se_drive (shards r ! k) \<noteq> letter" and "k < length (shards r)"
  shows "shards r' ! k = shards r ! k"
proof -
  from change_entry [OF assms(1)] obtain pos old new
    where f: "find_shard letter r = Some (pos, old)" and r': "r' = rebuild_at pos new r" by blast
  from find_shardD [OF f] assms(2) have "pos \<noteq> k" by auto
  with r' show ?thesis by simp
qed

lemma change_counters:
  assumes "change r = Some r'"
  shows "map (\<lambda>e. (queries_total (se_stats e), last_query_at_ms (se_stats e))) (shards r')
       = map (\<lambda>e. (queries_total (se_stats e), last_query_at_ms (se_stats e))) (shards r)"
proof -
  from change_entry [OF assms] obtain pos old new
    where f: "find_shard letter r = Some (pos, old)" and r': "r' = rebuild_at pos new r"
      and d: "queries_total (se_stats new) = queries_total (se_stats old)"
        "last_query_at_ms (se_stats new) = last_query_at_ms (se_stats old)" by blast
  from find_shardD [OF f] d show ?thesis
    by (simp add: r' map_update list_update_same_conv)
qed

end

lemma new_stats [simp]:
  "se_stats (new_warm_with_stats d b st) = st" "se_stats (new_hot_with_stats d b st) = st"
  "se_stats (new_parked d st k) = st" "se_stats (new_cold d st) = st"
  "se_pin_until_ms (new_warm_with_stats d b st) = 0"
  by (simp_all add: shard_ctor_defs)

interpretation tc_demote: tier_change "demote_letter_with_reason to_parked letter target reason" letter
  for to_parked letter target reason
proof
  fix r r' assume "demote_letter_with_reason to_parked letter target reason r = Some r'"
  then show "\<exists>pos old new. find_shard letter r = Some (pos, old) \<and> r' = rebuild_at pos new r
       \<and> se_drive new = se_drive old \<and> entry_ok new
       \<and> queries_total (se_stats new) = queries_total (se_stats old)
       \<and> last_query_at_ms (se_stats new) = last_query_at_ms (se_stats old)"
    by (fastforce simp: demote_letter_with_reason_def split: option.splits if_splits shard_state.splits)
qed

interpretation tc_promote: tier_change "promote_letter letter b" letter for letter b
proof
  fix r r' assume "promote_letter letter b r = Some r'"
  then show "\<exists>pos old new. find_shard letter r = Some (pos, old) \<and> r' = rebuild_at pos new r
       \<and> se_drive new = se_drive old \<and> entry_ok new
       \<and> queries_total (se_stats new) = queries_total (se_stats old)
       \<and> last_query_at_ms (se_stats new) = last_query_at_ms (se_stats old)"
    by (fastforce simp: promote_letter_def split: option.splits if_splits)
qed

interpretation tc_hot: tier_change "promote_letter_to_hot letter b" letter for letter b
proof
  fix r r' assume "promote_letter_to_hot letter b r = Some r'"
  then show "\<exists>pos old new. find_shard letter r = Some (pos, old) \<and> r' = rebuild_at pos new r
       \<and> se_drive new = se_drive old \<and> entry_ok new
       \<and> queries_total (se_stats new) = queries_total (se_stats old)
       \<and> last_query_at_ms (se_stats new) = last_query_at_ms (se_stats old)"
    by (fastforce simp: promote_letter_to_hot_def Let_def record_cold_to_hot_promote_def
        split: option.splits if_splits)
qed

interpretation tc_refresh: tier_change "replace_warm_body letter b" letter for letter b
proof
  fix r r' assume "replace_warm_body letter b r = Some r'"
  then show "\<exists>pos old new. find_shard letter r = Some (pos, old) \<and> r' = rebuild_at pos new r
       \<and> se_drive new = se_drive old \<and> entry_ok new
       \<and> queries_total (se_stats new) = queries_total (se_stats old)
       \<and> last_query_at_ms (se_stats new) = last_query_at_ms (se_stats old)"
    by (fastforce simp: replace_warm_body_def split: option.splits if_splits)
qed

end
