(* ===== verification/Cache_Cleaner.thy ===== *)
theory Cache_Cleaner
  imports Shard
begin

text \<open>
  The deletion of a drive's cache files (\<open>crates/uffs-daemon/src/cache/cache_cleaner.rs\<close>) over a disk: what
  \<open>symlink_metadata\<close> and \<open>remove_file\<close> of the standard library find under each path. The cache directory is an
  argument. The lemmas say which bytes a run frees, which errors it reports and what it leaves, so that a second run
  over the same drive frees nothing.
\<close>

section \<open>The disk\<close>

text \<open>A regular file has a size and, when removing it fails, the error of that; a path without an entry is not found.\<close>

datatype fs_entry = RegularFile nat "string option" | OtherEntry | MetadataError string

type_synonym disk = "string \<rightharpoonup> fs_entry"

section \<open>The cleaner\<close>

definition drive_cache_paths :: "string \<Rightarrow> drive_letter \<Rightarrow> string list" where
  "drive_cache_paths cache_dir letter =
     map (\<lambda>name. cache_dir @ ''/'' @ [letter] @ name) [''_compact.uffs'', ''_usn.cursor'', ''_index.uffs'', ''_index.lock'']"

definition format_path_error :: "string \<Rightarrow> string \<Rightarrow> string" where
  "format_path_error path err = path @ '': '' @ err"

fun delete_files :: "string list \<Rightarrow> nat \<Rightarrow> string list \<Rightarrow> disk \<Rightarrow> (nat \<times> string list) \<times> disk" where
  "delete_files [] freed errors fs = ((freed, errors), fs)"
| "delete_files (path # paths) freed errors fs =
     (case fs path of
        Some (RegularFile len None) \<Rightarrow> delete_files paths (u64_sat_add freed len) errors (fs(path := None))
      | Some (RegularFile len (Some err)) \<Rightarrow> delete_files paths freed (errors @ [format_path_error path err]) fs
      | Some OtherEntry \<Rightarrow> delete_files paths freed errors fs
      | None \<Rightarrow> delete_files paths freed errors fs
      | Some (MetadataError err) \<Rightarrow> delete_files paths freed (errors @ [format_path_error path err]) fs)"

definition delete_drive_cache_files :: "string list \<Rightarrow> disk \<Rightarrow> (nat \<times> string list) \<times> disk" where
  "delete_drive_cache_files paths fs = delete_files paths 0 [] fs"

definition cleaner_forget :: "string \<Rightarrow> drive_letter \<Rightarrow> disk \<Rightarrow> (nat \<times> string list) \<times> disk" where
  "cleaner_forget cache_dir letter fs = delete_drive_cache_files (drive_cache_paths cache_dir letter) fs"

section \<open>What a run does\<close>

definition removable :: "disk \<Rightarrow> string \<Rightarrow> bool" where "removable fs p \<longleftrightarrow> (\<exists>len. fs p = Some (RegularFile len None))"

definition path_bytes :: "disk \<Rightarrow> string \<Rightarrow> nat" where
  "path_bytes fs p = (case fs p of Some (RegularFile len None) \<Rightarrow> len | _ \<Rightarrow> 0)"

definition path_errors :: "disk \<Rightarrow> string \<Rightarrow> string list" where
  "path_errors fs p = (case fs p of
       Some (RegularFile len (Some err)) \<Rightarrow> [format_path_error p err] | Some (MetadataError err) \<Rightarrow> [format_path_error p err] | _ \<Rightarrow> [])"

definition without :: "string set \<Rightarrow> disk \<Rightarrow> disk" where
  "without P fs = (\<lambda>p. if p \<in> P \<and> removable fs p then None else fs p)"

lemma without_reads [simp]:
  "path_bytes (without P fs) p = (if p \<in> P then 0 else path_bytes fs p)" "path_errors (without P fs) p = path_errors fs p"
  by (auto simp: without_def path_bytes_def path_errors_def removable_def split: option.splits fs_entry.splits)

lemma without_without [simp]: "without P (without Q fs) = without (P \<union> Q) fs"
  by (auto simp: without_def removable_def fun_eq_iff)

lemma without_empty [simp]: "without {} fs = fs" by (simp add: without_def)

lemma delete_files_spec:
  "distinct paths \<Longrightarrow> freed \<le> u64_max \<Longrightarrow> delete_files paths freed errors fs =
    ((min (freed + sum_list (map (path_bytes fs) paths)) u64_max, errors @ concat (map (path_errors fs) paths)), without (set paths) fs)"
proof (induction paths arbitrary: freed errors fs)
  case (Cons path paths)
  show ?case
  proof (cases "removable fs path")
    case True
    then obtain len where f: "fs path = Some (RegularFile len None)" by (auto simp: removable_def)
    have here: "path_bytes fs path = len" "path_errors fs path = []" by (simp_all add: path_bytes_def path_errors_def f)
    have "path_bytes (fs(path := None)) p = path_bytes fs p \<and> path_errors (fs(path := None)) p = path_errors fs p" if "p \<in> set paths" for p
      using that Cons.prems(1) by (auto simp: path_bytes_def path_errors_def)
    then have maps: "map (path_bytes (fs(path := None))) paths = map (path_bytes fs) paths"
      "map (path_errors (fs(path := None))) paths = map (path_errors fs) paths" by simp_all
    have left: "without (set paths) (fs(path := None)) = without (set (path # paths)) fs"
      using f Cons.prems(1) by (auto simp: without_def removable_def fun_eq_iff)
    have sat: "min (min (freed + len) u64_max + n) u64_max = min (freed + (len + n)) u64_max" for n by (simp add: min_def)
    have "delete_files (path # paths) freed errors fs = delete_files paths (min (freed + len) u64_max) errors (fs(path := None))"
      by (simp add: f u64_sat_add_def)
    with Cons.IH [of "min (freed + len) u64_max" errors "fs(path := None)"] Cons.prems(1) show ?thesis
      by (simp only: maps left sat here list.map concat.simps sum_list.Cons append_Nil distinct.simps min.cobounded2 simp_thms)
  next
    case False
    then have left: "without (set (path # paths)) fs = without (set paths) fs" by (auto simp: without_def fun_eq_iff)
    from False have zero: "path_bytes fs path = 0" by (auto simp: removable_def path_bytes_def split: option.splits fs_entry.splits)
    from False have "delete_files (path # paths) freed errors fs = delete_files paths freed (errors @ path_errors fs path) fs"
      by (auto simp: removable_def path_errors_def split: option.splits fs_entry.splits)
    with Cons.IH [of freed "errors @ path_errors fs path" fs] Cons.prems left zero show ?thesis by simp
  qed
qed (simp add: min_def)

text \<open>Drives have cache files of their own.\<close>

lemma drive_paths_distinct: "distinct (drive_cache_paths cache_dir letter)"
  by (simp add: drive_cache_paths_def)

lemma drive_paths_own: "p \<in> set (drive_cache_paths dir a) \<Longrightarrow> p \<in> set (drive_cache_paths dir b) \<Longrightarrow> a = b"
  by (auto simp: drive_cache_paths_def)

definition drive_bytes :: "string \<Rightarrow> disk \<Rightarrow> drive_letter \<Rightarrow> nat" where
  "drive_bytes dir fs d = sum_list (map (path_bytes fs) (drive_cache_paths dir d))"

definition drive_errors :: "string \<Rightarrow> disk \<Rightarrow> drive_letter \<Rightarrow> string list" where
  "drive_errors dir fs d = concat (map (path_errors fs) (drive_cache_paths dir d))"

definition cache_paths :: "string \<Rightarrow> drive_letter set \<Rightarrow> string set" where
  "cache_paths dir D = (\<Union>d \<in> D. set (drive_cache_paths dir d))"

lemma cleaner_forget_spec:
  "cleaner_forget dir d fs = ((min (drive_bytes dir fs d) u64_max, drive_errors dir fs d), without (set (drive_cache_paths dir d)) fs)"
  by (simp add: cleaner_forget_def delete_drive_cache_files_def delete_files_spec [OF drive_paths_distinct] drive_bytes_def drive_errors_def)

text \<open>Once forgotten, a drive has nothing to free, and its errors are there again.\<close>

lemma forgotten_reads:
  "drive_bytes dir (without (cache_paths dir D) fs) d = (if d \<in> D then 0 else drive_bytes dir fs d)"
  "drive_errors dir (without (cache_paths dir D) fs) d = drive_errors dir fs d"
proof -
  have "p \<in> cache_paths dir D \<longleftrightarrow> d \<in> D" if "p \<in> set (drive_cache_paths dir d)" for p
    using that by (auto simp: cache_paths_def dest: drive_paths_own)
  then have "map (path_bytes (without (cache_paths dir D) fs)) (drive_cache_paths dir d)
      = map (\<lambda>p. if d \<in> D then 0 else path_bytes fs p) (drive_cache_paths dir d)" by (intro map_cong) simp_all
  then show "drive_bytes dir (without (cache_paths dir D) fs) d = (if d \<in> D then 0 else drive_bytes dir fs d)"
    unfolding drive_bytes_def by (cases "d \<in> D") (simp_all only: if_True if_False, simp)
  have "path_errors (without (cache_paths dir D) fs) = path_errors fs" by (rule ext) simp
  then show "drive_errors dir (without (cache_paths dir D) fs) d = drive_errors dir fs d" by (simp only: drive_errors_def)
qed

end
