(* ===== verification/Shard_Daemon.thy ===== *)
theory Shard_Daemon
  imports Shard_Registry Cache_Cleaner
begin

text \<open>
  The daemon's operations on the registry that involve the search path and the operator's
  \<open>forget\<close> (\<open>crates/uffs-daemon/src/index/\<close>: \<open>dispatch.rs\<close>, \<open>loading.rs\<close>, \<open>forget_drive.rs\<close>), the
  interleaving of all registry operations as a step relation, and the tiering theorems.

  An async operation that takes the write lock several times is the sequence of its lock windows; the
  step relation interleaves the windows of different operations, so its theorems hold for every
  schedule. The body loader is an argument; the cache files are the disk of \<open>Cache_Cleaner\<close>.
\<close>

section \<open>Loading and dispatch\<close>

definition mark_loaded_first ::
  "drive_letter \<Rightarrow> nat \<Rightarrow> ('b, 'k) shard_registry \<Rightarrow> ('b, 'k) shard_registry"
where
  "mark_loaded_first letter now_ms r =
     (case find_shard letter r of
        None \<Rightarrow> r
      | Some (pos, _) \<Rightarrow> update_shard_at pos (\<lambda>e. e\<lparr>se_stats := mark_loaded_at now_ms (se_stats e)\<rparr>) r)"

definition add_drive ::
  "('b \<Rightarrow> drive_letter) \<Rightarrow> nat \<Rightarrow> 'b \<Rightarrow> ('b, 'k) shard_registry \<Rightarrow> ('b, 'k) shard_registry"
where
  "add_drive letter_of now_ms b r = mark_loaded_first (letter_of b) now_ms (registry_add letter_of b r)"

definition replace_drive ::
  "('b \<Rightarrow> drive_letter) \<Rightarrow> nat \<Rightarrow> drive_letter \<Rightarrow> 'b \<Rightarrow> ('b, 'k) shard_registry \<Rightarrow> ('b, 'k) shard_registry"
where
  "replace_drive letter_of now_ms letter b r =
     mark_loaded_first (letter_of b) now_ms (registry_replace letter_of letter b r)"

text \<open>
  The query counters are atomics behind an \<open>Arc\<close>, so marking changes the shared counters in place:
  the shard list is mapped and the cached active index is the same.
\<close>

definition record_search_dispatch :: "nat \<Rightarrow> ('b, 'k) shard_registry \<Rightarrow> ('b, 'k) shard_registry" where
  "record_search_dispatch now_ms r =
     r\<lparr>shards := map (\<lambda>e. if shard_state_of e = Warm \<or> shard_state_of e = Hot
                          then e\<lparr>se_stats := mark_query_at now_ms (se_stats e)\<rparr> else e) (shards r)\<rparr>"

text \<open>\<open>ext_keep k terms\<close> is \<open>decide_for_ext_filter(Some(&parked.bloom), terms).keep()\<close>.\<close>

definition bloom_pre_check_should_promote ::
  "('k \<Rightarrow> bytes list \<Rightarrow> bool) \<Rightarrow> ('b, 'k) shard_entry \<Rightarrow> bytes list \<Rightarrow> bool"
where
  "bloom_pre_check_should_promote ext_keep e ext_terms =
     (if ext_terms = [] then True
      else case se_parked_body e of None \<Rightarrow> True | Some k \<Rightarrow> ext_keep k ext_terms)"

definition promote_plan ::
  "('k \<Rightarrow> bytes list \<Rightarrow> bool) \<Rightarrow> drive_letter list \<Rightarrow> bytes list \<Rightarrow> ('b, 'k) shard_registry
     \<Rightarrow> drive_letter list"
where
  "promote_plan ext_keep params_drives ext_terms r =
     map se_drive
       (filter (\<lambda>e. bloom_pre_check_should_promote ext_keep e ext_terms)
         (filter (\<lambda>e. shard_state_of e = Parked \<or> shard_state_of e = Cold)
           (filter (\<lambda>e. params_drives = [] \<or> se_drive e \<in> set params_drives) (shards r))))"

text \<open>One turn of the drain loop of \<open>ensure_warm_for_dispatch\<close>: a finished load and its lock window.\<close>

definition promote_window ::
  "nat \<Rightarrow> drive_letter \<Rightarrow> 'b option \<Rightarrow> ('b, 'k) shard_registry \<Rightarrow> ('b, 'k) shard_registry"
where
  "promote_window now_ms letter body_opt r =
     (case body_opt of
        None \<Rightarrow> r
      | Some b \<Rightarrow>
          (case promote_letter letter b r of
             None \<Rightarrow> r
           | Some r' \<Rightarrow> mark_loaded_first letter now_ms r'))"

text \<open>
  \<open>ensure_warm_for_dispatch\<close> run alone: \<open>order\<close> is the order in which the parallel loads finish (a
  rearrangement of the plan), \<open>load\<close> the loader, and \<open>clock\<close> the time that the lock window of each drive reads.
\<close>

fun drain_loads ::
  "(drive_letter \<Rightarrow> nat) \<Rightarrow> (drive_letter \<Rightarrow> 'b option) \<Rightarrow> drive_letter list \<Rightarrow> ('b, 'k) shard_registry \<Rightarrow> ('b, 'k) shard_registry"
where
  "drain_loads clock load [] r = r"
| "drain_loads clock load (d # ds) r = drain_loads clock load ds (promote_window (clock d) d (load d) r)"

definition ensure_warm_for_dispatch ::
  "('k \<Rightarrow> bytes list \<Rightarrow> bool) \<Rightarrow> (drive_letter list \<Rightarrow> drive_letter list) \<Rightarrow> (drive_letter \<Rightarrow> nat)
     \<Rightarrow> (drive_letter \<Rightarrow> 'b option) \<Rightarrow> drive_letter list \<Rightarrow> bytes list
     \<Rightarrow> ('b, 'k) shard_registry \<Rightarrow> ('b, 'k) shard_registry"
where
  "ensure_warm_for_dispatch ext_keep order clock load params_drives ext_terms r =
     (let needs_promote = promote_plan ext_keep params_drives ext_terms r in
      if needs_promote = [] then r else drain_loads clock load (order needs_promote) r)"

section \<open>Forget\<close>

record forget_outcome =
  fo_forgotten :: "drive_letter list"
  fo_already_absent :: "drive_letter list"
  fo_freed_bytes :: nat
  fo_errors :: "string list"

datatype forget_outcome_or_busy =
    ForgetOk forget_outcome | ForgetBusy "(drive_letter \<times> shard_state) list"

definition forget_default :: forget_outcome where
  "forget_default = \<lparr>fo_forgotten = [], fo_already_absent = [], fo_freed_bytes = 0, fo_errors = []\<rparr>"

definition forget_snapshots ::
  "drive_letter list \<Rightarrow> ('b, 'k) shard_registry \<Rightarrow> (drive_letter \<times> shard_state option) list"
where
  "forget_snapshots drives r =
     map (\<lambda>d. (d, map_option (\<lambda>(_, e). shard_state_of e) (find_shard d r))) drives"

definition forget_busy ::
  "bool \<Rightarrow> drive_letter list \<Rightarrow> ('b, 'k) shard_registry \<Rightarrow> (drive_letter \<times> shard_state) list"
where
  "forget_busy force drives r =
     List.map_filter (\<lambda>(d, st). case st of
         None \<Rightarrow> None
       | Some s \<Rightarrow> if \<not> force \<and> s \<noteq> Cold then Some (d, s) else None) (forget_snapshots drives r)"

fun auto_hibernate_for_forget ::
  "('b \<Rightarrow> 'k) \<Rightarrow> (drive_letter \<times> shard_state option) list \<Rightarrow> ('b, 'k) shard_registry
     \<Rightarrow> ('b, 'k) shard_registry"
where
  "auto_hibernate_for_forget to_parked [] r = r"
| "auto_hibernate_for_forget to_parked ((d, None) # ss) r = auto_hibernate_for_forget to_parked ss r"
| "auto_hibernate_for_forget to_parked ((d, Some s) # ss) r =
     (if s = Cold then auto_hibernate_for_forget to_parked ss r
      else case demote_letter_with_reason to_parked d Cold OperatorHibernate r of
             None \<Rightarrow> auto_hibernate_for_forget to_parked ss r
           | Some r' \<Rightarrow> auto_hibernate_for_forget to_parked ss r')"

definition starts_with :: "string \<Rightarrow> string \<Rightarrow> bool" where
  "starts_with s p \<longleftrightarrow> take (length p) s = p"

definition forget_error :: "drive_letter \<Rightarrow> string \<Rightarrow> string" where
  "forget_error d err = [d, CHR '':'', CHR '' ''] @ err"

definition forget_one ::
  "string \<Rightarrow> drive_letter \<Rightarrow> forget_outcome \<times> ('b, 'k) shard_registry \<times> disk
     \<Rightarrow> forget_outcome \<times> ('b, 'k) shard_registry \<times> disk"
where
  "forget_one cache_dir letter = (\<lambda>(out, r, fs).
     (let r' = registry_remove letter r;
          ((freed, errs), fs') = cleaner_forget cache_dir letter fs;
          out1 = out\<lparr>fo_freed_bytes := u64_sat_add (fo_freed_bytes out) freed,
                     fo_errors := fo_errors out @ map (forget_error letter) errs\<rparr>;
          had_errors = (fo_errors out1 \<noteq> [] \<and> starts_with (last (fo_errors out1)) [letter, CHR '':''])
      in (if freed > 0 then out1\<lparr>fo_forgotten := fo_forgotten out1 @ [letter]\<rparr>
          else if \<not> had_errors then out1\<lparr>fo_already_absent := fo_already_absent out1 @ [letter]\<rparr>
          else out1, r', fs')))"

definition forget_drives ::
  "('b \<Rightarrow> 'k) \<Rightarrow> string \<Rightarrow> drive_letter list \<Rightarrow> bool \<Rightarrow> ('b, 'k) shard_registry \<Rightarrow> disk
     \<Rightarrow> forget_outcome_or_busy \<times> ('b, 'k) shard_registry \<times> disk"
where
  "forget_drives to_parked cache_dir drives force r fs =
     (let snapshots = forget_snapshots drives r; busy = forget_busy force drives r in
      if busy \<noteq> [] then (ForgetBusy busy, r, fs)
      else let r1 = (if force then auto_hibernate_for_forget to_parked snapshots r else r);
               (out, r2, fs') = fold (forget_one cache_dir) (map fst snapshots) (forget_default, r1, fs)
           in (ForgetOk out, r2, fs'))"

section \<open>The lock windows as steps\<close>

text \<open>
  Every change of the registry, by whichever task, is one of these windows. The demote controllers
  detect under a read lock and apply under a later write lock, so the window of a batch applies
  whatever list was detected earlier; likewise a preload's swap and pin. \<open>letter_of\<close> and \<open>to_parked\<close>
  are the two functions of the compact index.
\<close>

inductive daemon_step ::
  "('b \<Rightarrow> drive_letter) \<Rightarrow> ('b \<Rightarrow> 'k) \<Rightarrow> ('b, 'k) shard_registry \<Rightarrow> ('b, 'k) shard_registry \<Rightarrow> bool"
  for letter_of :: "'b \<Rightarrow> drive_letter" and to_parked :: "'b \<Rightarrow> 'k"
where
  Add: "daemon_step letter_of to_parked r (add_drive letter_of now b r)"
| Replace: "daemon_step letter_of to_parked r (replace_drive letter_of now d b r)"
| Remove: "daemon_step letter_of to_parked r (registry_remove d r)"
| Promote: "daemon_step letter_of to_parked r (promote_window now d bo r)"
| Query: "daemon_step letter_of to_parked r (record_search_dispatch now r)"
| Batch: "daemon_step letter_of to_parked r (apply_demotes to_parked reason ds r)"
| Swap: "daemon_step letter_of to_parked r (snd (swap_in_hot_with_pin d b pin_ms now r))"
| Pin: "daemon_step letter_of to_parked r (update_shard_at pos (pin_until t) r)"
| Journal: "daemon_step letter_of to_parked r (snd (apply_journal_body d b r))"

inductive daemon_reach ::
  "('b \<Rightarrow> drive_letter) \<Rightarrow> ('b \<Rightarrow> 'k) \<Rightarrow> ('b, 'k) shard_registry \<Rightarrow> bool"
  for letter_of :: "'b \<Rightarrow> drive_letter" and to_parked :: "'b \<Rightarrow> 'k"
where
  Boot: "daemon_reach letter_of to_parked registry_new"
| Step: "daemon_reach letter_of to_parked r \<Longrightarrow> daemon_step letter_of to_parked r r'
     \<Longrightarrow> daemon_reach letter_of to_parked r'"

section \<open>Invariant lemmas\<close>

text \<open>An in-place change of one shard that keeps its tier and its bodies keeps the invariant.\<close>

definition keeps_body :: "(('b, 'k) shard_entry \<Rightarrow> ('b, 'k) shard_entry) \<Rightarrow> bool" where
  "keeps_body f \<longleftrightarrow> (\<forall>e. se_drive (f e) = se_drive e \<and> se_state (f e) = se_state e
     \<and> se_body (f e) = se_body e \<and> se_parked_body (f e) = se_parked_body e)"

lemma keeps_body_ok: "keeps_body f \<Longrightarrow> entry_ok (f e) = entry_ok e"
  by (simp add: keeps_body_def entry_ok_def shard_state_of_def split: shard_state.split)

lemma keeps_body_active: "keeps_body f \<Longrightarrow> is_active (f e) = is_active e"
  by (simp add: keeps_body_def is_active_def shard_state_of_def)

lemma keeps_bodyI [intro, simp]:
  "keeps_body (pin_until t)" "keeps_body (\<lambda>e. e\<lparr>se_stats := g e\<rparr>)"
  "keeps_body (\<lambda>e. pin_until t (e\<lparr>se_stats := g e\<rparr>))"
  "keeps_body (\<lambda>e. if P e then e\<lparr>se_stats := g e\<rparr> else e)"
  by (simp_all add: keeps_body_def pin_until_def)

lemma active_update:
  assumes "keeps_body f"
  shows "List.map_filter se_body (filter is_active (es[pos := f (es ! pos)]))
       = List.map_filter se_body (filter is_active es)"
proof (induction es arbitrary: pos)
  case (Cons e es)
  then show ?case
    using assms keeps_body_active [OF assms] unfolding keeps_body_def
    by (cases pos) (auto simp: map_filter_simps split: option.split)
qed simp

lemma update_shard_at_inv:
  assumes "keeps_body f" and "registry_inv r"
  shows "registry_inv (update_shard_at pos f r)"
proof (cases "pos < length (shards r)")
  case True
  with assms show ?thesis
    by (auto simp: registry_inv_def update_shard_at_def active_update keeps_body_ok
        dest!: set_update_subset_insert [THEN subsetD])
next
  case False
  with assms(2) show ?thesis by (simp add: update_shard_at_def list_update_beyond)
qed

lemma map_entries_inv:
  assumes "keeps_body f" and "registry_inv r"
  shows "registry_inv (r\<lparr>shards := map f (shards r)\<rparr>)"
proof -
  have "List.map_filter se_body (filter is_active (map f es)) = List.map_filter se_body (filter is_active es)" for es
    using assms(1) keeps_body_active [OF assms(1)]
    by (induction es) (auto simp: keeps_body_def map_filter_simps split: option.split)
  with assms show ?thesis by (simp add: registry_inv_def keeps_body_ok)
qed

lemma mark_loaded_first_inv: "registry_inv r \<Longrightarrow> registry_inv (mark_loaded_first d now r)"
  by (auto simp: mark_loaded_first_def update_shard_at_inv split: option.split)

lemma apply_demotes_inv: "registry_inv r \<Longrightarrow> registry_inv (apply_demotes to_parked reason ds r)"
  by (induction to_parked reason ds r rule: apply_demotes.induct)
    (auto split: option.split dest: tc_demote.change_inv)

lemma promote_window_inv: "registry_inv r \<Longrightarrow> registry_inv (promote_window now d bo r)"
  by (auto simp: promote_window_def mark_loaded_first_inv tc_promote.change_inv split: option.split)

lemma swap_in_hot_inv: "registry_inv r \<Longrightarrow> registry_inv (snd (swap_in_hot_with_pin d b pin now r))"
  by (auto simp: swap_in_hot_with_pin_def Let_def tc_hot.change_inv update_shard_at_inv split: option.split)

lemma registry_edit_inv:
  "registry_inv r \<Longrightarrow> registry_inv (registry_add letter_of b r)"
  "registry_inv r \<Longrightarrow> registry_inv (registry_replace letter_of d b r)"
  "registry_inv r \<Longrightarrow> registry_inv (registry_remove d r)"
  unfolding registry_add_def registry_replace_def registry_remove_def
  by (rule registry_inv_from_shards; auto simp: registry_inv_def)+

lemmas window_inv = mark_loaded_first_inv apply_demotes_inv promote_window_inv swap_in_hot_inv
  registry_edit_inv update_shard_at_inv map_entries_inv

lemma journal_inv: "registry_inv r \<Longrightarrow> registry_inv (snd (apply_journal_body d b r))"
  by (auto simp: apply_journal_body_def tc_refresh.change_inv split: option.split)

lemma daemon_step_inv: "daemon_step letter_of to_parked r r' \<Longrightarrow> registry_inv r \<Longrightarrow> registry_inv r'"
  by (induction rule: daemon_step.induct)
    (auto simp: add_drive_def replace_drive_def record_search_dispatch_def window_inv journal_inv)

lemma registry_new_inv [simp]: "registry_inv registry_new"
  by (simp add: registry_inv_def registry_new_def map_filter_simps)

section \<open>A batch of demotes, shard by shard\<close>

text \<open>
  With one shard per letter a batch acts on each shard independently: \<open>demote_one\<close> is what one demote
  does to the shard it names.
\<close>

definition demote_one :: "('b \<Rightarrow> 'k) \<Rightarrow> shard_state \<Rightarrow> ('b, 'k) shard_entry \<Rightarrow> ('b, 'k) shard_entry" where
  "demote_one to_parked target e =
     (if \<not> is_legal_demote_target (shard_state_of e) target then e
      else case target of
             Parked \<Rightarrow> (case se_body e of None \<Rightarrow> e
                        | Some b \<Rightarrow> new_parked (se_drive e) (se_stats e) (to_parked b))
           | Cold \<Rightarrow> new_cold (se_drive e) (se_stats e)
           | _ \<Rightarrow> e)"

definition demote_if :: "('b \<Rightarrow> 'k) \<Rightarrow> drive_letter \<times> shard_state \<Rightarrow> ('b, 'k) shard_entry \<Rightarrow> ('b, 'k) shard_entry" where
  "demote_if to_parked lt e = (if se_drive e = fst lt then demote_one to_parked (snd lt) e else e)"

lemma demote_if_drive [simp]: "se_drive (demote_if to_parked lt e) = se_drive e"
  by (simp add: demote_if_def demote_one_def split: shard_state.split option.split)

lemma fold_demote_if_drive [simp]: "se_drive (fold (demote_if to_parked) ds e) = se_drive e"
  by (induction ds arbitrary: e) simp_all

lemma find_shard_None: "find_shard d r = None \<longleftrightarrow> d \<notin> se_drive ` set (shards r)"
  by (simp add: find_shard_def find_shard_from_None)

lemma demote_letter_pointwise:
  assumes "distinct (loaded_letters r)"
  shows "shards (case demote_letter_with_reason to_parked d t reason r of None \<Rightarrow> r | Some r' \<Rightarrow> r')
       = map (demote_if to_parked (d, t)) (shards r)"
proof (cases "find_shard d r")
  case None
  then have "map (demote_if to_parked (d, t)) (shards r) = map id (shards r)"
    by (intro map_cong) (auto simp: find_shard_None demote_if_def)
  with None show ?thesis by (simp add: demote_letter_with_reason_def)
next
  case (Some pe)
  then obtain pos old where f: "find_shard d r = Some (pos, old)" by (cases pe) simp
  note pos = find_shardD [OF f]
  have others: "se_drive (shards r ! k) \<noteq> d" if "k < length (shards r)" "k \<noteq> pos" for k
    using find_shard_distinct [OF assms that(1)] f that(2) by auto
  have "shards (case demote_letter_with_reason to_parked d t reason r of None \<Rightarrow> r | Some r' \<Rightarrow> r')
      = (shards r)[pos := demote_one to_parked t old]"
    using f pos by (auto simp: demote_letter_with_reason_def demote_one_def list_update_same_conv
        split: shard_state.split option.split)
  also have "\<dots> = map (demote_if to_parked (d, t)) (shards r)"
    using pos others by (auto simp: list_eq_iff_nth_eq demote_if_def nth_list_update)
  finally show ?thesis .
qed

lemma apply_demotes_letters: "loaded_letters (apply_demotes to_parked reason ds r) = loaded_letters r"
  by (induction to_parked reason ds r rule: apply_demotes.induct)
    (auto split: option.split simp: tc_demote.change_letters)

lemma apply_demotes_pointwise:
  "distinct (loaded_letters r) \<Longrightarrow>
     shards (apply_demotes to_parked reason ds r) = map (fold (demote_if to_parked) ds) (shards r)"
proof (induction to_parked reason ds r rule: apply_demotes.induct)
  case (2 to_parked reason d t ds r)
  let ?r = "case demote_letter_with_reason to_parked d t reason r of None \<Rightarrow> r | Some r' \<Rightarrow> r'"
  have "distinct (loaded_letters ?r)"
    using "2.prems" by (auto split: option.split simp: tc_demote.change_letters)
  then have "shards (apply_demotes to_parked reason ds ?r) = map (fold (demote_if to_parked) ds) (shards ?r)"
    using "2.IH" "2.prems" by (auto split: option.splits)
  moreover have "apply_demotes to_parked reason ((d, t) # ds) r = apply_demotes to_parked reason ds ?r"
    by (simp split: option.split)
  ultimately show ?case
    using demote_letter_pointwise [OF "2.prems", of to_parked d t reason] by (simp add: comp_def)
qed simp

lemma fold_demote_if_other:
  "se_drive e \<notin> fst ` set ds \<Longrightarrow> fold (demote_if to_parked) ds e = e"
  by (induction ds) (auto simp: demote_if_def)

lemma fold_demote_if_one:
  assumes "distinct (map fst ds)" and "(se_drive e, t) \<in> set ds"
  shows "fold (demote_if to_parked) ds e = demote_one to_parked t e"
  using assms
proof (induction ds arbitrary: e)
  case (Cons lt ds)
  show ?case
  proof (cases "fst lt = se_drive e")
    case True
    with Cons.prems have "lt = (se_drive e, t)" by (auto simp: rev_image_eqI)
    moreover from Cons.prems True have "se_drive e \<notin> fst ` set ds" by auto
    moreover have "se_drive (demote_one to_parked t e) = se_drive e"
      by (simp add: demote_one_def split: shard_state.split option.split)
    ultimately show ?thesis by (simp add: fold_demote_if_other demote_if_def [of _ "(se_drive e, t)"])
  next
    case False
    with Cons show ?thesis by (auto simp: demote_if_def [of _ lt])
  qed
qed simp

text \<open>The controllers' detect phases name a shard at most once, with a target read off that shard.\<close>

lemma map_filter_fst_distinct:
  "distinct (map f xs) \<Longrightarrow>
     distinct (map fst (List.map_filter (\<lambda>x. map_option (Pair (f x)) (g x)) xs))
     \<and> fst ` set (List.map_filter (\<lambda>x. map_option (Pair (f x)) (g x)) xs) \<subseteq> f ` set xs"
  by (induction xs) (auto simp: map_filter_simps split: option.split)

lemma in_map_filter: "y \<in> set (List.map_filter f xs) \<longleftrightarrow> (\<exists>x \<in> set xs. f x = Some y)"
  by (induction xs) (auto simp: map_filter_simps split: option.split)

lemma same_drive_same_shard:
  assumes "distinct (loaded_letters r)" "e \<in> set (shards r)" "e' \<in> set (shards r)" "se_drive e = se_drive e'"
  shows "e = e'"
  using assms by (auto simp: loaded_letters_def distinct_map dest: inj_onD)

lemma idle_demotes_distinct:
  "distinct (loaded_letters r) \<Longrightarrow> distinct (map fst (idle_demotes ttl cfg now r))"
  unfolding idle_demotes_def
  by (rule map_filter_fst_distinct [THEN conjunct1]) (auto simp: loaded_letters_def intro: distinct_map_filter)

lemma idle_demotes_mem:
  assumes "distinct (loaded_letters r)" and "e \<in> set (shards r)"
  shows "(se_drive e, t) \<in> set (idle_demotes ttl cfg now r)
     \<longleftrightarrow> \<not> is_pinned e now \<and> evaluate_idle_demote ttl cfg now e = Some t"
  using same_drive_same_shard [OF assms(1) _ assms(2)] assms(2) by (auto simp: idle_demotes_def in_map_filter)

lemma idle_tick_entry:
  assumes "distinct (loaded_letters r)" and "k < length (shards r)"
  shows "shards (demote_idle_shards to_parked ttl cfg now r) ! k =
     (let e = shards r ! k in
      if is_pinned e now then e
      else case evaluate_idle_demote ttl cfg now e of None \<Rightarrow> e | Some t \<Rightarrow> demote_one to_parked t e)"
proof -
  let ?e = "shards r ! k" and ?ds = "idle_demotes ttl cfg now r"
  have e: "?e \<in> set (shards r)" using assms(2) by simp
  note dd = idle_demotes_distinct [OF assms(1)] and mem = idle_demotes_mem [OF assms(1) e]
  have "shards (demote_idle_shards to_parked ttl cfg now r) ! k = fold (demote_if to_parked) ?ds ?e"
    using assms by (simp add: demote_idle_shards_def apply_demotes_pointwise)
  moreover have "fold (demote_if to_parked) ?ds ?e = ?e"
    if "is_pinned ?e now \<or> evaluate_idle_demote ttl cfg now ?e = None"
    using that mem by (intro fold_demote_if_other) force
  moreover have "fold (demote_if to_parked) ?ds ?e = demote_one to_parked t ?e"
    if "\<not> is_pinned ?e now" "evaluate_idle_demote ttl cfg now ?e = Some t" for t
    using that mem dd by (intro fold_demote_if_one) auto
  ultimately show ?thesis by (auto simp: Let_def split: option.split)
qed

lemma min_by_key_None [simp]: "min_by_key f xs = None \<longleftrightarrow> xs = []"
  by (induction xs) (auto split: option.splits)

lemma min_by_key_Some:
  "min_by_key f xs = Some x \<Longrightarrow> x \<in> set xs \<and> (\<forall>y \<in> set xs. f x \<le> f y)"
proof (induction xs arbitrary: x)
  case (Cons z xs)
  then show ?case by (fastforce split: option.splits if_splits)
qed simp

lemma cascade_victimD:
  assumes "cascade_victim now r = Some e"
  shows "e \<in> set (shards r) \<and> shard_state_of e = Warm \<and> \<not> is_pinned e now \<and>
     (\<forall>e' \<in> set (shards r). shard_state_of e' = Warm \<and> \<not> is_pinned e' now
        \<longrightarrow> last_query_at_ms (se_stats e) \<le> last_query_at_ms (se_stats e'))"
  using min_by_key_Some [OF assms [unfolded cascade_victim_def]] by auto

lemma find_shard_member:
  assumes "distinct (loaded_letters r)" and "e \<in> set (shards r)"
  obtains pos where "find_shard (se_drive e) r = Some (pos, e)"
proof -
  from assms(2) obtain pos where "pos < length (shards r)" "shards r ! pos = e"
    by (auto simp: in_set_conv_nth)
  with find_shard_distinct [OF assms(1), of pos] that show thesis by auto
qed

lemma cascade_step_shards:
  assumes "distinct (loaded_letters r)" and "registry_inv r"
  shows "cascade_demote_one_step to_parked now r =
     (case cascade_victim now r of
        None \<Rightarrow> (None, r)
      | Some e \<Rightarrow> (Some (se_drive e, Parked),
                   apply_demotes to_parked PressureCascade [(se_drive e, Parked)] r))"
proof (cases "cascade_victim now r")
  case (Some e)
  from cascade_victimD [OF this] have e: "e \<in> set (shards r)" "shard_state_of e = Warm" by auto
  from assms(2) e obtain b where b: "se_body e = Some b"
    by (auto simp: registry_inv_def entry_ok_def split: shard_state.splits dest!: bspec)
  from find_shard_member [OF assms(1) e(1)] obtain pos where "find_shard (se_drive e) r = Some (pos, e)" .
  with Some e b show ?thesis
    by (simp add: cascade_demote_one_step_def demote_letter_with_reason_def is_legal_demote_target_def)
qed (simp add: cascade_demote_one_step_def)

lemma hibernate_detect_demotes:
  "snd (hibernate_detect drives es) =
     map (\<lambda>e. (se_drive e, Cold))
       (filter (\<lambda>e. (drives = [] \<or> se_drive e \<in> set drives) \<and> shard_state_of e \<in> {Hot, Warm, Parked}) es)"
  by (induction es) (auto simp: Let_def split: prod.split shard_state.split)

lemma hibernate_entry:
  assumes "distinct (loaded_letters r)" and "k < length (shards r)"
  shows "shards (snd (hibernate_shards to_parked drives r)) ! k =
     (let e = shards r ! k in
      if (drives = [] \<or> se_drive e \<in> set drives) \<and> shard_state_of e \<in> {Hot, Warm, Parked}
      then new_cold (se_drive e) (se_stats e) else e)"
proof -
  let ?e = "shards r ! k" and ?ds = "snd (hibernate_detect drives (shards r))"
  have e: "?e \<in> set (shards r)" using assms(2) by simp
  have dd: "distinct (map fst ?ds)"
    using assms(1) by (auto simp: hibernate_detect_demotes loaded_letters_def comp_def intro: distinct_map_filter)
  have mem: "(se_drive ?e, t) \<in> set ?ds \<longleftrightarrow> t = Cold \<and> (drives = [] \<or> se_drive ?e \<in> set drives)
      \<and> shard_state_of ?e \<in> {Hot, Warm, Parked}" for t
    using same_drive_same_shard [OF assms(1) _ e] e by (auto simp: hibernate_detect_demotes)
  have "shards (snd (hibernate_shards to_parked drives r)) ! k = fold (demote_if to_parked) ?ds ?e"
    using assms by (simp add: hibernate_shards_def Let_def case_prod_unfold apply_demotes_pointwise)
  also have "\<dots> = (if (drives = [] \<or> se_drive ?e \<in> set drives) \<and> shard_state_of ?e \<in> {Hot, Warm, Parked}
      then demote_one to_parked Cold ?e else ?e)"
    using mem fold_demote_if_one [OF dd] by (auto intro!: fold_demote_if_other simp: image_iff)
  finally show ?thesis by (simp add: Let_def demote_one_def is_legal_demote_target_def)
qed

text \<open>A promotion run on a registry with one shard per letter, shard by shard.\<close>

lemma mark_loaded_first_shards:
  "find_shard d r = Some (pos, e) \<Longrightarrow>
     shards (mark_loaded_first d now r) = (shards r)[pos := e\<lparr>se_stats := mark_loaded_at now (se_stats e)\<rparr>]"
  using find_shardD(2) [of d r pos e] by (simp add: mark_loaded_first_def update_shard_at_def)

definition promoted_entry :: "nat \<Rightarrow> 'b \<Rightarrow> ('b, 'k) shard_entry \<Rightarrow> ('b, 'k) shard_entry" where
  "promoted_entry now b e = new_warm_with_stats (se_drive e) b (mark_loaded_at now (se_stats e))"

lemma promoted_entry_fields [simp]:
  "se_drive (promoted_entry now b e) = se_drive e" "shard_state_of (promoted_entry now b e) = Warm"
  "se_body (promoted_entry now b e) = Some b"
  by (simp_all add: promoted_entry_def) (simp add: new_warm_with_stats_def)

lemma promote_window_shards:
  assumes "distinct (loaded_letters r)" and "k < length (shards r)"
    and "shard_state_of (shards r ! k) \<in> {Parked, Cold}"
  shows "shards (promote_window now (se_drive (shards r ! k)) (Some b) r)
       = (shards r)[k := promoted_entry now b (shards r ! k)]"
proof -
  let ?d = "se_drive (shards r ! k)" and ?r = "rebuild_at k (new_warm_with_stats (se_drive (shards r ! k)) b (se_stats (shards r ! k))) r"
  have p: "promote_letter ?d b r = Some ?r"
    using assms by (auto simp: promote_letter_def find_shard_distinct)
  have "find_shard ?d ?r = Some (k, shards ?r ! k)"
    using find_shard_distinct [of ?r k] assms p by (simp add: tc_promote.change_letters)
  with p assms(2) show ?thesis
    by (simp add: promote_window_def mark_loaded_first_shards promoted_entry_def)
      (simp add: new_warm_with_stats_def)
qed

lemma promote_window_other:
  assumes "k < length (shards r)" and "se_drive (shards r ! k) \<noteq> d"
  shows "shards (promote_window now d bo r) ! k = shards r ! k"
proof -
  have "shards (mark_loaded_first d now r') ! k = shards r' ! k" if "se_drive (shards r' ! k) \<noteq> d" for r'
  proof (cases "find_shard d r'")
    case (Some pe)
    then obtain pos e where f: "find_shard d r' = Some (pos, e)" by (cases pe) simp
    with that find_shardD(2,3) [OF f] have "pos \<noteq> k" by auto
    with f show ?thesis by (simp add: mark_loaded_first_shards)
  qed (simp add: mark_loaded_first_def)
  note mark = this
  have "shards (mark_loaded_first d now r') ! k = shards r ! k" if "promote_letter d b r = Some r'" for b r'
    using tc_promote.change_others [OF that assms(2,1)] mark [of r'] assms(2) by simp
  then show ?thesis by (auto simp: promote_window_def split: option.split)
qed

lemma promote_window_refused:
  assumes "distinct (loaded_letters r)" and "k < length (shards r)"
    and "shard_state_of (shards r ! k) \<notin> {Parked, Cold}"
  shows "promote_window now (se_drive (shards r ! k)) bo r = r"
  using assms by (auto simp: promote_window_def promote_letter_def find_shard_distinct split: option.split)

lemma promote_window_letters [simp]:
  "loaded_letters (promote_window now d bo r) = loaded_letters r"
proof -
  have "loaded_letters (mark_loaded_first d now r') = loaded_letters r'" for r' :: "('a, 'b) shard_registry"
    using find_shardD(1) [of d r'] by (auto simp: mark_loaded_first_def update_shard_at_def loaded_letters_def
        map_update list_update_same_conv split: option.split)
  then show ?thesis by (auto simp: promote_window_def tc_promote.change_letters split: option.split)
qed

definition drained_entry ::
  "nat \<Rightarrow> (drive_letter \<Rightarrow> 'b option) \<Rightarrow> ('b, 'k) shard_entry \<Rightarrow> ('b, 'k) shard_entry"
where
  "drained_entry now load e =
     (if shard_state_of e \<in> {Parked, Cold}
      then case load (se_drive e) of None \<Rightarrow> e | Some b \<Rightarrow> promoted_entry now b e else e)"

lemma promote_window_entry:
  assumes "distinct (loaded_letters r)" and "k < length (shards r)"
  shows "shards (promote_window now d (load d) r) ! k =
     (if se_drive (shards r ! k) = d then drained_entry now load (shards r ! k) else shards r ! k)"
proof (cases "se_drive (shards r ! k) = d")
  case True
  show ?thesis
  proof (cases "shard_state_of (shards r ! k) \<in> {Parked, Cold}")
    case active: True
    show ?thesis
    proof (cases "load d")
      case (Some b)
      with True active assms promote_window_shards [OF assms active, of now b] show ?thesis
        by (simp add: drained_entry_def)
    qed (use True active in \<open>auto simp: drained_entry_def promote_window_def\<close>)
  next
    case False
    with promote_window_refused [OF assms False, of now "load d"] True show ?thesis
      by (simp add: drained_entry_def)
  qed
qed (simp add: promote_window_other assms)

lemma drained_entry_idem [simp]: "drained_entry now load (drained_entry now load e) = drained_entry now load e"
  by (simp add: drained_entry_def split: option.split)

lemma drained_entry_drive [simp]: "se_drive (drained_entry now load e) = se_drive e"
  by (simp add: drained_entry_def split: option.split)

lemma letters_length: "loaded_letters r = loaded_letters r' \<Longrightarrow> length (shards r) = length (shards r')"
  by (metis length_map loaded_letters_def)

lemma drain_loads_entry:
  "distinct (loaded_letters r) \<Longrightarrow> k < length (shards r) \<Longrightarrow>
     shards (drain_loads clock load ds r) ! k =
     (if se_drive (shards r ! k) \<in> set ds then drained_entry (clock (se_drive (shards r ! k))) load (shards r ! k) else shards r ! k)"
proof (induction clock load ds r rule: drain_loads.induct)
  case (2 clock load d ds r)
  have "length (shards (promote_window (clock d) d (load d) r)) = length (shards r)"
    by (rule letters_length) simp
  with 2 show ?case by (simp add: promote_window_entry)
qed simp

lemma filter_list_update_out:
  "\<not> P x \<Longrightarrow> i < length xs \<Longrightarrow> \<not> P (xs ! i) \<Longrightarrow> filter P (xs[i := x]) = filter P xs"
proof (induction xs arbitrary: i)
  case (Cons a xs)
  then show ?case by (cases i) simp_all
qed simp

lemma auto_hibernate_others:
  "fst ` set ss \<subseteq> D \<Longrightarrow>
     filter (\<lambda>e. se_drive e \<notin> D) (shards (auto_hibernate_for_forget to_parked ss r))
   = filter (\<lambda>e. se_drive e \<notin> D) (shards r)"
proof (induction to_parked ss r rule: auto_hibernate_for_forget.induct)
  case (3 to_parked d s ss r)
  have "filter (\<lambda>e. se_drive e \<notin> D) (shards r') = filter (\<lambda>e. se_drive e \<notin> D) (shards r)"
    if demoted: "demote_letter_with_reason to_parked d Cold OperatorHibernate r = Some r'" for r'
  proof -
    from tc_demote.change_entry [OF demoted] obtain pos old new
      where f: "find_shard d r = Some (pos, old)" and "r' = rebuild_at pos new r" "se_drive new = se_drive old"
      by blast
    with find_shardD [OF f] "3.prems" show ?thesis by (simp add: filter_list_update_out)
  qed
  with 3 show ?case by (simp split: option.split)
qed simp_all

text \<open>The drives at their first request, and the requests that find nothing to free.\<close>

definition first_requests :: "drive_letter list \<Rightarrow> drive_letter list" where "first_requests ds = rev (remdups (rev ds))"

lemma first_requests_snoc: "first_requests (ds @ [d]) = (if d \<in> set ds then first_requests ds else first_requests ds @ [d])"
  by (simp add: first_requests_def)

definition idle_requests :: "string \<Rightarrow> disk \<Rightarrow> drive_letter list \<Rightarrow> drive_letter list" where
  "idle_requests dir fs ds = map ((!) ds)
     (filter (\<lambda>k. drive_errors dir fs (ds ! k) = [] \<and> (drive_bytes dir fs (ds ! k) = 0 \<or> ds ! k \<in> set (take k ds))) [0..<length ds])"

lemma idle_requests_snoc:
  "idle_requests dir fs (ds @ [d]) =
     idle_requests dir fs ds @ (if drive_errors dir fs d = [] \<and> (drive_bytes dir fs d = 0 \<or> d \<in> set ds) then [d] else [])"
proof -
  have "map ((!) (ds @ [d])) (filter (\<lambda>k. drive_errors dir fs ((ds @ [d]) ! k) = [] \<and> (drive_bytes dir fs ((ds @ [d]) ! k) = 0
        \<or> (ds @ [d]) ! k \<in> set (take k (ds @ [d])))) [0..<length ds]) = idle_requests dir fs ds"
    unfolding idle_requests_def by (intro map_cong filter_cong) (auto simp: nth_append)
  then show ?thesis by (simp add: idle_requests_def)
qed

lemma fold_forget_one:
  "fold (forget_one dir) ds (forget_default, r, fs) =
     (\<lparr>fo_forgotten = filter (\<lambda>d. 0 < drive_bytes dir fs d) (first_requests ds),
       fo_already_absent = idle_requests dir fs ds,
       fo_freed_bytes = min (sum_list (map (drive_bytes dir fs) (first_requests ds))) u64_max,
       fo_errors = concat (map (\<lambda>d. map (forget_error d) (drive_errors dir fs d)) ds)\<rparr>,
      fold registry_remove ds r, without (cache_paths dir (set ds)) fs)"
proof (induction ds rule: rev_induct)
  case (snoc d ds)
  let ?errs = "concat (map (\<lambda>d. map (forget_error d) (drive_errors dir fs d)) ds) @ map (forget_error d) (drive_errors dir fs d)"
  have had: "?errs \<noteq> [] \<and> starts_with (last ?errs) [d, CHR '':''] \<longleftrightarrow> drive_errors dir fs d \<noteq> []"
  proof (cases "drive_errors dir fs d = []")
    case True
    have "\<not> starts_with err [d, CHR '':'']" if "err \<in> set ?errs" for err
      using that True by (auto simp: starts_with_def forget_error_def)
    with True show ?thesis using last_in_set [of ?errs] by blast
  qed (simp add: starts_with_def forget_error_def last_map)
  let ?bytes = "if d \<in> set ds then 0 else drive_bytes dir fs d"
  have clean: "cleaner_forget dir d (without (cache_paths dir (set ds)) fs)
      = ((min ?bytes u64_max, drive_errors dir fs d), without (cache_paths dir (set (ds @ [d]))) fs)"
    unfolding cleaner_forget_spec forgotten_reads by (simp add: cache_paths_def Un_commute)
  have pos: "0 < min ?bytes u64_max \<longleftrightarrow> 0 < ?bytes" by (simp add: u64_max_def)
  have sat: "u64_sat_add (min n u64_max) (min m u64_max) = min (n + m) u64_max" for n m by (auto simp: u64_sat_add_def min_def)
  have sat0: "u64_sat_add (min n u64_max) 0 = min n u64_max" for n using sat [of n 0] by simp
  have "0 < u64_max" by (simp add: u64_max_def)
  with had show ?case
    unfolding fold_append comp_def snoc.IH
    by (simp add: forget_one_def Let_def clean pos sat sat0 first_requests_snoc idle_requests_snoc)
qed (simp add: forget_default_def first_requests_def idle_requests_def cache_paths_def)

lemma fold_registry_remove:
  "shards (fold registry_remove ds r) = filter (\<lambda>e. se_drive e \<notin> set ds) (shards r)"
  by (induction ds arbitrary: r) (auto simp: registry_remove_def intro!: filter_cong)

lemma map_fst_forget_snapshots [simp]: "map fst (forget_snapshots drives r) = drives"
  by (induction drives) (simp_all add: forget_snapshots_def)

lemma fst_set_forget_snapshots [simp]: "fst ` set (forget_snapshots drives r) = set drives"
  by (metis list.set_map map_fst_forget_snapshots)

section \<open>Properties\<close>

text \<open>
  C23. In every state the daemon reaches, by any interleaving of loads, searches, demote batches,
  preloads, forgets and journal refreshes, each shard is in a stable tier with exactly the bodies of
  that tier, and the active index that searches read is the list of bodies of the searchable shards.
\<close>

theorem daemon_registry_consistent:
  assumes "daemon_reach letter_of to_parked r"
  shows "(\<forall>e \<in> set (shards r). entry_ok e) \<and>
     active_index r = map (\<lambda>e. the (se_body e)) (filter is_active (shards r))"
proof -
  have inv: "registry_inv r"
    using assms by (induction rule: daemon_reach.induct) (auto dest: daemon_step_inv)
  have "List.map_filter se_body (filter is_active es) = map (\<lambda>e. the (se_body e)) (filter is_active es)"
    if "\<forall>e \<in> set es. entry_ok e" for es :: "('a, 'b) shard_entry list"
    using that by (induction es) (auto simp: map_filter_simps entry_ok_def is_active_def split: option.split)
  with inv show ?thesis by (auto simp: registry_inv_def)
qed

theorem daemon_registry_consistent_witness:
  "let r = snd (hibernate_shards (\<lambda>b::nat. b) [] (add_drive (\<lambda>_. CHR ''C'') 5 7 registry_new))
   in (\<forall>e \<in> set (shards r). entry_ok e) \<and> active_index r = map (\<lambda>e. the (se_body e)) (filter is_active (shards r))"
proof -
  have "daemon_reach (\<lambda>_. CHR ''C'') (\<lambda>b::nat. b) (add_drive (\<lambda>_. CHR ''C'') 5 7 registry_new)"
    by (intro daemon_reach.Step [OF daemon_reach.Boot] daemon_step.Add)
  then have "daemon_reach (\<lambda>_. CHR ''C'') (\<lambda>b::nat. b)
      (snd (hibernate_shards (\<lambda>b. b) [] (add_drive (\<lambda>_. CHR ''C'') 5 7 registry_new)))"
    unfolding hibernate_shards_def Let_def case_prod_unfold snd_conv
    by (rule daemon_reach.Step) (rule daemon_step.Batch)
  from daemon_registry_consistent [OF this] show ?thesis unfolding Let_def .
qed

text \<open>
  A pinned shard is left alone by the idle tick, whatever the thresholds and the configuration,
  and by a step of the pressure cascade.
\<close>

theorem pinned_shard_kept:
  assumes "distinct (loaded_letters r)" and "k < length (shards r)" and "is_pinned (shards r ! k) now"
  shows "shards (demote_idle_shards to_parked ttl cfg now r) ! k = shards r ! k \<and>
    shards (snd (cascade_demote_one_step to_parked now r)) ! k = shards r ! k"
proof (intro conjI)
  show "shards (demote_idle_shards to_parked ttl cfg now r) ! k = shards r ! k"
    using assms by (simp add: idle_tick_entry)
  have "se_drive (shards r ! k) \<noteq> se_drive e" if "cascade_victim now r = Some e" for e
    using cascade_victimD [OF that] same_drive_same_shard [OF assms(1), of e "shards r ! k"] assms(2,3)
    by fastforce
  then show "shards (snd (cascade_demote_one_step to_parked now r)) ! k = shards r ! k"
    using assms(2) by (auto simp: cascade_demote_one_step_def tc_demote.change_others split: option.split)
qed

definition demo_registry :: "(nat, nat) shard_registry" where
  "demo_registry = from_shards
     [pin_until 9000000 (new_hot_with_stats (CHR ''C'') 1 stats_new), new_warm (CHR ''D'') 2,
      new_parked (CHR ''E'') stats_new 3]"

lemma demo_registry_ok: "distinct (loaded_letters demo_registry)" "registry_inv demo_registry"
  "length (shards demo_registry) = 3"
  by (auto simp: demo_registry_def loaded_letters_def intro!: registry_inv_from_shards)

theorem pinned_shard_kept_witness:
  "shards (demote_idle_shards (\<lambda>b. b) (\<lambda>_. \<lparr>hot_to_warm_secs = 60, warm_to_parked_secs = 300,
       parked_to_cold_secs = 3600\<rparr>) [] 8000000 demo_registry) ! 0 = shards demo_registry ! 0"
  by (rule pinned_shard_kept [OF demo_registry_ok(1), THEN conjunct1])
    (simp_all add: demo_registry_ok(3), simp add: demo_registry_def is_pinned_def pin_until_def)

text \<open>
  The idle tick computes a demotion from \<open>Hot\<close> to \<open>Warm\<close> that the registry refuses: a hot shard
  keeps its entry through every idle tick, pinned or not, for all thresholds, clocks and configurations.
\<close>

theorem idle_tick_never_demotes_hot:
  assumes "distinct (loaded_letters r)" and "k < length (shards r)" and "shard_state_of (shards r ! k) = Hot"
  shows "shards (demote_idle_shards to_parked ttl cfg now r) ! k = shards r ! k"
  using assms
  by (simp add: idle_tick_entry Let_def evaluate_idle_demote_def next_state_for_idle_with_thresholds_def
      demote_one_def is_legal_demote_target_def split: option.split)

theorem idle_tick_never_demotes_hot_witness:
  "shards (demote_idle_shards (\<lambda>b. b) (\<lambda>_. \<lparr>hot_to_warm_secs = 60, warm_to_parked_secs = 300,
       parked_to_cold_secs = 3600\<rparr>) [] 90000000 demo_registry) ! 0 = shards demo_registry ! 0
   \<and> next_state_for_idle_with_thresholds Hot 90000 \<lparr>hot_to_warm_secs = 60, warm_to_parked_secs = 300,
       parked_to_cold_secs = 3600\<rparr> = Some Warm"
proof
  show "shards (demote_idle_shards (\<lambda>b. b) (\<lambda>_. \<lparr>hot_to_warm_secs = 60, warm_to_parked_secs = 300,
       parked_to_cold_secs = 3600\<rparr>) [] 90000000 demo_registry) ! 0 = shards demo_registry ! 0"
    by (rule idle_tick_never_demotes_hot [OF demo_registry_ok(1)])
      (simp_all add: demo_registry_ok(3), simp add: demo_registry_def)
qed (simp add: next_state_for_idle_with_thresholds_def)

text \<open>
  A drive whose configured \<open>min_tier\<close> floor its shard meets still meets it after an idle tick.
\<close>

theorem idle_tick_respects_min_tier:
  assumes "distinct (loaded_letters r)" and "k < length (shards r)"
    and "min_tier_for_drive (se_drive (shards r ! k)) cfg = Some fl"
    and "tier_rank fl \<le> tier_rank (shard_state_of (shards r ! k))"
  shows "tier_rank fl \<le> tier_rank (shard_state_of (shards (demote_idle_shards to_parked ttl cfg now r) ! k))"
  using assms
  by (auto simp: idle_tick_entry Let_def demote_one_def evaluate_idle_demote_def
      split: option.splits if_splits shard_state.splits)

theorem idle_tick_respects_min_tier_witness:
  "tier_rank Warm \<le> tier_rank (shard_state_of (shards (demote_idle_shards (\<lambda>b. b)
     (\<lambda>_. \<lparr>hot_to_warm_secs = 60, warm_to_parked_secs = 300, parked_to_cold_secs = 3600\<rparr>)
     [(''D:'', Some TierWarm)] 90000000 demo_registry) ! 1))"
  by (rule idle_tick_respects_min_tier [OF demo_registry_ok(1)])
    (simp_all add: demo_registry_ok(3), simp_all add: demo_registry_def min_tier_for_drive_def
      letter_eq_ignore_ascii_case_def Let_def unset_bit_eq)

text \<open>
  Hibernating everything leaves every shard \<open>Cold\<close> with its counters and an empty active index,
  whatever tiers and pins the shards had.
\<close>

theorem hibernate_all_cold:
  assumes "distinct (loaded_letters r)" and "registry_inv r"
  shows "let r' = snd (hibernate_shards to_parked [] r) in
     active_index r' = [] \<and> length (shards r') = length (shards r) \<and>
     (\<forall>k < length (shards r). shard_state_of (shards r' ! k) = Cold
        \<and> se_drive (shards r' ! k) = se_drive (shards r ! k) \<and> se_stats (shards r' ! k) = se_stats (shards r ! k))"
proof -
  let ?r = "snd (hibernate_shards to_parked [] r)"
  have len: "length (shards ?r) = length (shards r)"
    using assms(1) by (simp add: hibernate_shards_def Let_def case_prod_unfold apply_demotes_pointwise)
  have cold: "shard_state_of (shards ?r ! k) = Cold \<and> se_drive (shards ?r ! k) = se_drive (shards r ! k)
      \<and> se_stats (shards ?r ! k) = se_stats (shards r ! k)" if "k < length (shards r)" for k
  proof -
    from assms(2) that have "entry_ok (shards r ! k)" by (simp add: registry_inv_def)
    then show ?thesis using hibernate_entry [OF assms(1) that, of to_parked "[]"]
      by (cases "shard_state_of (shards r ! k)") (auto simp: entry_ok_def Let_def)
  qed
  have "registry_inv ?r"
    using assms(2) by (simp add: hibernate_shards_def Let_def case_prod_unfold apply_demotes_inv)
  moreover have "\<not> is_active e" if "e \<in> set (shards ?r)" for e
    using that cold len by (auto simp: in_set_conv_nth is_active_def)
  ultimately have "active_index ?r = []" by (simp add: registry_inv_def map_filter_simps)
  with cold len show ?thesis by (simp add: Let_def)
qed

theorem hibernate_all_cold_witness:
  "let r' = snd (hibernate_shards (\<lambda>b. b) [] demo_registry) in
     active_index r' = [] \<and> length (shards r') = length (shards demo_registry) \<and>
     (\<forall>k < length (shards demo_registry). shard_state_of (shards r' ! k) = Cold
        \<and> se_drive (shards r' ! k) = se_drive (shards demo_registry ! k)
        \<and> se_stats (shards r' ! k) = se_stats (shards demo_registry ! k))"
  by (rule hibernate_all_cold [OF demo_registry_ok(1,2)])

text \<open>
  A cascade step parks exactly one shard, the least recently queried of the unpinned warm ones,
  and reports it; it reports nothing only when there is none.
\<close>

theorem cascade_parks_lru:
  assumes "distinct (loaded_letters r)" and "registry_inv r"
  shows "case cascade_demote_one_step to_parked now r of
     (None, r') \<Rightarrow> r' = r \<and> (\<forall>e \<in> set (shards r). shard_state_of e = Warm \<longrightarrow> is_pinned e now)
   | (Some (d, t), r') \<Rightarrow> t = Parked \<and>
       (\<exists>k b. k < length (shards r) \<and> d = se_drive (shards r ! k) \<and> shard_state_of (shards r ! k) = Warm
          \<and> \<not> is_pinned (shards r ! k) now \<and> se_body (shards r ! k) = Some b
          \<and> (\<forall>e \<in> set (shards r). shard_state_of e = Warm \<and> \<not> is_pinned e now
               \<longrightarrow> last_query_at_ms (se_stats (shards r ! k)) \<le> last_query_at_ms (se_stats e))
          \<and> shards r' = (shards r)[k := new_parked d (se_stats (shards r ! k)) (to_parked b)])"
proof (cases "cascade_victim now r")
  case None
  then have "\<forall>e \<in> set (shards r). shard_state_of e = Warm \<longrightarrow> is_pinned e now"
    by (auto simp: cascade_victim_def filter_empty_conv)
  with None show ?thesis by (simp add: cascade_demote_one_step_def)
next
  case (Some e)
  note v = cascade_victimD [OF Some]
  from v obtain pos where f: "find_shard (se_drive e) r = Some (pos, e)"
    using find_shard_member [OF assms(1)] by blast
  from assms(2) v obtain b where b: "se_body e = Some b"
    by (auto simp: registry_inv_def entry_ok_def split: shard_state.splits dest!: bspec)
  with Some f v have "cascade_demote_one_step to_parked now r =
      (Some (se_drive e, Parked), rebuild_at pos (new_parked (se_drive e) (se_stats e) (to_parked b)) r)"
    by (simp add: cascade_demote_one_step_def demote_letter_with_reason_def is_legal_demote_target_def)
  then show ?thesis using find_shardD [OF f] b v by auto
qed

theorem cascade_parks_lru_witness:
  "fst (cascade_demote_one_step (\<lambda>b. b) 5 demo_registry) = Some (CHR ''D'', Parked)
   \<and> (case cascade_demote_one_step (\<lambda>b. b) 5 demo_registry of
     (None, r') \<Rightarrow> False
   | (Some (d, t), r') \<Rightarrow> t = Parked)"
proof
  show "fst (cascade_demote_one_step (\<lambda>b. b) 5 demo_registry) = Some (CHR ''D'', Parked)"
    by (simp add: demo_registry_def cascade_demote_one_step_def cascade_victim_def is_pinned_def
        demote_letter_with_reason_def find_shard_def is_legal_demote_target_def new_warm_def)
      (simp add: shard_state_of_def from_repr_def)
  then show "case cascade_demote_one_step (\<lambda>b. b) 5 demo_registry of (None, r') \<Rightarrow> False | (Some (d, t), r') \<Rightarrow> t = Parked"
    using cascade_parks_lru [OF demo_registry_ok(1,2), where to_parked = "\<lambda>b. b" and now = 5] by (auto split: prod.splits option.splits)
qed

text \<open>
  A journal refresh of a hot shard turns it \<open>Warm\<close> and clears its pin, however long the pin was
  meant to last; its counters survive and the new body is the one searched.
\<close>

theorem journal_refresh_drops_pin:
  assumes "find_shard d r = Some (k, e)" and "shard_state_of e = Hot" and "is_pinned e now"
  shows "fst (apply_journal_body d b r) \<and>
    (let e' = shards (snd (apply_journal_body d b r)) ! k in
     shard_state_of e' = Warm \<and> \<not> is_pinned e' t \<and> se_stats e' = se_stats e \<and> se_body e' = Some b)"
  using assms find_shardD [OF assms(1)]
  by (simp add: apply_journal_body_def replace_warm_body_def is_pinned_def Let_def)
    (simp add: new_warm_with_stats_def)

theorem journal_refresh_drops_pin_witness:
  "fst (apply_journal_body (CHR ''C'') 8 demo_registry) \<and>
    (let e' = shards (snd (apply_journal_body (CHR ''C'') 8 demo_registry)) ! 0 in
     shard_state_of e' = Warm \<and> \<not> is_pinned e' 5
     \<and> se_stats e' = se_stats (shards demo_registry ! 0) \<and> se_body e' = Some 8)"
  by (rule journal_refresh_drops_pin [where now = 5])
    (simp_all add: demo_registry_def find_shard_def is_pinned_def pin_until_def shard_state_of_def
      new_hot_with_stats_def from_repr_def)

text \<open>
  The idle tick's detect and apply are two lock windows. A parked shard past its threshold that
  a search promotes between them is not kept warm: the batch drops it to \<open>Cold\<close>.
\<close>

theorem idle_batch_drops_promoted_shard:
  assumes "distinct (loaded_letters r)" and "k < length (shards r)"
    and "shard_state_of (shards r ! k) = Parked" and "\<not> is_pinned (shards r ! k) now"
    and "evaluate_idle_demote ttl cfg now (shards r ! k) = Some Cold"
  shows "let d = se_drive (shards r ! k); r1 = promote_window now2 d (Some b) r in
    shard_state_of (shards r1 ! k) = Warm \<and>
    shard_state_of (shards (apply_demotes to_parked IdleTtl (idle_demotes ttl cfg now r) r1) ! k) = Cold"
proof -
  let ?e = "shards r ! k" and ?ds = "idle_demotes ttl cfg now r"
  let ?r1 = "promote_window now2 (se_drive ?e) (Some b) r"
  have sh: "shards ?r1 = (shards r)[k := promoted_entry now2 b ?e]"
    using assms(1-3) by (simp add: promote_window_shards)
  then have "loaded_letters ?r1 = loaded_letters r"
    using assms(2) by (simp add: loaded_letters_def map_update list_update_same_conv)
  with assms(1) have "distinct (loaded_letters ?r1)" by simp
  then have "shards (apply_demotes to_parked IdleTtl ?ds ?r1) ! k
      = fold (demote_if to_parked) ?ds (promoted_entry now2 b ?e)"
    using sh assms(2) by (simp add: apply_demotes_pointwise)
  also have "\<dots> = demote_one to_parked Cold (promoted_entry now2 b ?e)"
    using assms by (intro fold_demote_if_one) (simp_all add: idle_demotes_distinct idle_demotes_mem)
  finally show ?thesis
    using sh assms(2) by (simp add: Let_def demote_one_def is_legal_demote_target_def)
qed

theorem idle_batch_drops_promoted_shard_witness:
  "let r1 = promote_window 90000000 (CHR ''E'') (Some 4) demo_registry in
    shard_state_of (shards r1 ! 2) = Warm \<and>
    shard_state_of (shards (apply_demotes (\<lambda>b. b) IdleTtl (idle_demotes (\<lambda>_. \<lparr>hot_to_warm_secs = 60,
      warm_to_parked_secs = 300, parked_to_cold_secs = 3600\<rparr>) [] 90000000 demo_registry) r1) ! 2) = Cold"
proof -
  have k: "(2::nat) < length (shards demo_registry)" by (simp add: demo_registry_ok(3))
  have e: "shards demo_registry ! 2 = new_parked (CHR ''E'') stats_new 3" by (simp add: demo_registry_def)
  show ?thesis
    using idle_batch_drops_promoted_shard [OF demo_registry_ok(1) k, of 90000000
        "\<lambda>_. \<lparr>hot_to_warm_secs = 60, warm_to_parked_secs = 300, parked_to_cold_secs = 3600\<rparr>" "[]" 90000000 4 "\<lambda>b. b"]
    unfolding e
    by (simp add: Let_def evaluate_idle_demote_def next_state_for_idle_with_thresholds_def
        min_tier_for_drive_def stats_new_def is_pinned_def) (simp add: new_parked_def)
qed

text \<open>
  C24. Dispatch warm-up: whatever order the parallel loads finish in, each parked or cold shard the
  query may need (of a requested drive, and not ruled out by its bloom filter) whose load succeeds is
  \<open>Warm\<close> with the loaded body and its idle clock at the time of its promotion; every other shard is untouched.
\<close>

theorem ensure_warm_promotes_needed:
  assumes "distinct (loaded_letters r)" and "k < length (shards r)"
    and "\<And>ds. set (order ds) = set ds"
  shows "shards (ensure_warm_for_dispatch ext_keep order clock load params_drives ext_terms r) ! k =
    (let e = shards r ! k in
     if (params_drives = [] \<or> se_drive e \<in> set params_drives) \<and> shard_state_of e \<in> {Parked, Cold}
        \<and> bloom_pre_check_should_promote ext_keep e ext_terms
     then (case load (se_drive e) of
             None \<Rightarrow> e
           | Some b \<Rightarrow> new_warm_with_stats (se_drive e) b ((se_stats e)\<lparr>last_query_at_ms := clock (se_drive e)\<rparr>))
     else e)"
proof -
  let ?e = "shards r ! k" and ?plan = "promote_plan ext_keep params_drives ext_terms r"
  have e: "?e \<in> set (shards r)" using assms(2) by simp
  have mem: "se_drive ?e \<in> set ?plan \<longleftrightarrow> (params_drives = [] \<or> se_drive ?e \<in> set params_drives)
      \<and> shard_state_of ?e \<in> {Parked, Cold} \<and> bloom_pre_check_should_promote ext_keep ?e ext_terms"
    using same_drive_same_shard [OF assms(1) _ e] e by (auto simp: promote_plan_def image_iff)
  have "shards (ensure_warm_for_dispatch ext_keep order clock load params_drives ext_terms r) ! k
      = (if se_drive ?e \<in> set ?plan then drained_entry (clock (se_drive ?e)) load ?e else ?e)"
    using drain_loads_entry [OF assms(1,2), of clock load "order ?plan"] assms(3)
    by (auto simp: ensure_warm_for_dispatch_def Let_def)
  then show ?thesis
    using mem by (auto simp: Let_def drained_entry_def promoted_entry_def mark_loaded_at_def split: option.split)
qed

theorem ensure_warm_promotes_needed_witness:
  "shard_state_of (shards (ensure_warm_for_dispatch (\<lambda>_ _. True) rev (\<lambda>d. if d = CHR ''E'' then 77 else 78) (\<lambda>_. Some 9) [] [] demo_registry) ! 2) = Warm"
proof -
  have k: "(2::nat) < length (shards demo_registry)" by (simp add: demo_registry_ok(3))
  have e: "shards demo_registry ! 2 = new_parked (CHR ''E'') stats_new 3" by (simp add: demo_registry_def)
  show ?thesis
    using ensure_warm_promotes_needed [OF demo_registry_ok(1) k, of rev "\<lambda>_ _. True" "\<lambda>d. if d = CHR ''E'' then 77 else 78" "\<lambda>_. Some 9" "[]" "[]"]
    by (simp add: e Let_def bloom_pre_check_should_promote_def)
qed

text \<open>
  C26. Forget. Without \<open>force\<close>, a requested drive that is loaded and not \<open>Cold\<close> makes the whole request
  \<open>Busy\<close> and changes nothing, in the registry and on disk. Otherwise exactly the requested drives leave the registry
  and exactly their removable cache files leave the disk. A drive is reported forgotten at its first request when that
  freed bytes; every request that freed nothing and met no error reports it as already absent, so also a second
  request for a drive that was just forgotten; the errors of every request are listed.
\<close>

theorem forget_drives_outcome:
  "case forget_drives to_parked dir drives force r fs of
     (ForgetBusy busy, r', fs') \<Rightarrow> r' = r \<and> fs' = fs \<and> \<not> force \<and> busy \<noteq> [] \<and>
        (\<forall>(d, s) \<in> set busy. d \<in> set drives \<and> s \<noteq> Cold)
   | (ForgetOk out, r', fs') \<Rightarrow>
        shards r' = filter (\<lambda>e. se_drive e \<notin> set drives) (shards r)
        \<and> (force \<or> (\<forall>d \<in> set drives. \<forall>k e. find_shard d r = Some (k, e) \<longrightarrow> shard_state_of e = Cold))
        \<and> fs' = (\<lambda>p. if (\<exists>d \<in> set drives. p \<in> set (drive_cache_paths dir d)) \<and> removable fs p then None else fs p)
        \<and> fo_forgotten out = filter (\<lambda>d. 0 < drive_bytes dir fs d) (first_requests drives)
        \<and> fo_already_absent out = idle_requests dir fs drives
        \<and> fo_freed_bytes out = min (sum_list (map (drive_bytes dir fs) (first_requests drives))) u64_max
        \<and> fo_errors out = concat (map (\<lambda>d. map (forget_error d) (drive_errors dir fs d)) drives)"
proof (cases "forget_busy force drives r = []")
  case True
  then have "\<forall>x \<in> set drives. \<not> force \<longrightarrow> (case find_shard x r of None \<Rightarrow> True | Some (_, e) \<Rightarrow> shard_state_of e = Cold)"
    by (simp add: forget_busy_def forget_snapshots_def map_filter_def filter_empty_conv split: option.splits)
      (metis option.distinct(1))
  then have cold: "force \<or> (\<forall>d \<in> set drives. \<forall>k e. find_shard d r = Some (k, e) \<longrightarrow> shard_state_of e = Cold)"
    by (auto split: option.splits)
  show ?thesis
    using True cold unfolding forget_drives_def map_fst_forget_snapshots fold_forget_one Let_def
    by (simp add: fold_registry_remove auto_hibernate_others without_def cache_paths_def)
next
  case False
  then have "\<not> force" by (auto simp: forget_busy_def map_filter_def filter_empty_conv split: option.splits)
  moreover have "\<forall>(d, s) \<in> set (forget_busy force drives r). d \<in> set drives \<and> s \<noteq> Cold"
    by (auto simp: forget_busy_def in_map_filter forget_snapshots_def split: option.splits if_splits; metis)
  moreover have "forget_drives to_parked dir drives force r fs = (ForgetBusy (forget_busy force drives r), r, fs)"
    using False by (simp add: forget_drives_def Let_def)
  ultimately show ?thesis using False by simp
qed

text \<open>A drive that is loaded, \<open>Cold\<close> and without cache files, and one with a cache file of ten bytes.\<close>

definition demo_cold :: "(nat, nat) shard_registry" where
  "demo_cold = \<lparr>shards = [new_cold (CHR ''E'') stats_new], active_index = []\<rparr>"

definition demo_disk :: disk where
  "demo_disk = [hd (drive_cache_paths ''c'' (CHR ''D'')) \<mapsto> RegularFile 10 None]"

text \<open>The first is reported as already absent although the registry had it; the second, requested twice, as
  forgotten and as already absent.\<close>

lemma loaded_cold_drive_absent:
  "find_shard (CHR ''E'') demo_cold \<noteq> None \<and> fst (forget_drives (\<lambda>b. b) ''c'' [CHR ''E''] False demo_cold Map.empty)
     = ForgetOk \<lparr>fo_forgotten = [], fo_already_absent = [CHR ''E''], fo_freed_bytes = 0, fo_errors = []\<rparr>"
  by (simp add: forget_drives_def forget_snapshots_def forget_busy_def demo_cold_def find_shard_def forget_one_def cleaner_forget_def
      delete_drive_cache_files_def drive_cache_paths_def forget_default_def new_cold_def shard_state_of_def from_repr_def u64_sat_add_def
      Let_def map_filter_def starts_with_def)

lemma twice_requested_drive:
  "fst (forget_drives (\<lambda>b. b) ''c'' [CHR ''D'', CHR ''D''] False demo_cold demo_disk)
     = ForgetOk \<lparr>fo_forgotten = [CHR ''D''], fo_already_absent = [CHR ''D''], fo_freed_bytes = 10, fo_errors = []\<rparr>"
  by (simp add: forget_drives_def forget_snapshots_def forget_busy_def demo_cold_def find_shard_def forget_one_def cleaner_forget_def
      delete_drive_cache_files_def drive_cache_paths_def forget_default_def new_cold_def demo_disk_def u64_sat_add_def u64_max_def
      registry_remove_def Let_def map_filter_def starts_with_def)

theorem forget_drives_outcome_witness:
  "case forget_drives (\<lambda>b. b) ''c'' [CHR ''D'', CHR ''D''] False demo_cold demo_disk of
     (ForgetBusy busy, r', fs') \<Rightarrow> False
   | (ForgetOk out, r', fs') \<Rightarrow> shards r' = shards demo_cold \<and> fs' = Map.empty \<and> fo_forgotten out = [CHR ''D'']"
proof -
  let ?p = "hd (drive_cache_paths ''c'' (CHR ''D''))"
  have p: "?p \<in> set (drive_cache_paths ''c'' (CHR ''D''))" by (simp add: drive_cache_paths_def)
  obtain out r' fs' where run: "forget_drives (\<lambda>b. b) ''c'' [CHR ''D'', CHR ''D''] False demo_cold demo_disk = (ForgetOk out, r', fs')"
    and out: "fo_forgotten out = [CHR ''D'']"
    using twice_requested_drive by (cases "forget_drives (\<lambda>b. b) ''c'' [CHR ''D'', CHR ''D''] False demo_cold demo_disk") auto
  from forget_drives_outcome [where to_parked = "\<lambda>b. b" and dir = "''c''" and drives = "[CHR ''D'', CHR ''D'']" and force = False
      and r = demo_cold and fs = demo_disk, unfolded run]
  have "shards r' = filter (\<lambda>e. se_drive e \<notin> {CHR ''D''}) (shards demo_cold)"
    "fs' = (\<lambda>q. if q \<in> set (drive_cache_paths ''c'' (CHR ''D'')) \<and> removable demo_disk q then None else demo_disk q)" by simp_all
  moreover from this(2) p have "fs' = Map.empty" by (auto simp: fun_eq_iff demo_disk_def removable_def)
  ultimately show ?thesis using run out by (simp add: demo_cold_def new_cold_def)
qed

end
