(* ===== verification/Mft_Bitmap.thy ===== *)
theory Mft_Bitmap
  imports Rust_Prelude
begin

text \<open>
  The allocation bitmap of the master file table (\<open>crates/uffs-mft/src/platform/bitmap.rs\<close>): which
  records are in use, which prefix and suffix of a range can be skipped, and the ranges of clusters
  that hold any record in use. Record numbers are 64-bit, and \<open>usize\<close> is 64 bits on the targets.
\<close>

section \<open>Definitions\<close>

record mft_bitmap =
  bm_data :: bytes
  bm_record_count :: nat

definition bitmap_from_bytes :: "bytes \<Rightarrow> mft_bitmap" where
  "bitmap_from_bytes d = \<lparr>bm_data = d, bm_record_count = length d * 8\<rparr>"

definition new_all_valid :: "nat \<Rightarrow> mft_bitmap" where
  "new_all_valid n = \<lparr>bm_data = replicate ((n + 7) div 8) 0xFF, bm_record_count = n\<rparr>"

text \<open>\<open>(byte & (1 << k)) != 0\<close>.\<close>

definition test_bit8 :: "u8 \<Rightarrow> nat \<Rightarrow> bool" where
  "test_bit8 byte k \<longleftrightarrow> byte AND push_bit k 1 \<noteq> 0"

definition is_record_in_use :: "mft_bitmap \<Rightarrow> nat \<Rightarrow> bool" where
  "is_record_in_use b frs =
     (if frs \<ge> bm_record_count b then False
      else let byte_index = frs div 8; bit_index = frs mod 8 in
           if byte_index \<ge> length (bm_data b) then False
           else case vec_get (bm_data b) byte_index of None \<Rightarrow> False | Some byte \<Rightarrow> test_bit8 byte bit_index)"

definition count_ones :: "u8 \<Rightarrow> nat" where
  "count_ones byte = length (filter (test_bit8 byte) [0..<8])"

definition leading_zeros :: "u8 \<Rightarrow> nat" where
  "leading_zeros byte = length (takeWhile (\<lambda>k. \<not> test_bit8 byte k) (rev [0..<8]))"

definition count_in_use :: "mft_bitmap \<Rightarrow> nat" where
  "count_in_use b = sum_list (map count_ones (bm_data b))"

fun last_nonzero :: "(nat \<times> u8) list \<Rightarrow> nat" where
  "last_nonzero [] = 0"
| "last_nonzero ((byte_idx, byte) # rest) =
     (if byte \<noteq> 0 then byte_idx * 8 + (7 - leading_zeros byte) else last_nonzero rest)"

definition max_frs_in_use :: "mft_bitmap \<Rightarrow> nat" where
  "max_frs_in_use b = last_nonzero (rev (enumerate 0 (bm_data b)))"

definition in_use_records :: "mft_bitmap \<Rightarrow> nat list" where
  "in_use_records b =
     concat (map (\<lambda>(byte_idx, byte). map (\<lambda>bit_idx. byte_idx * 8 + bit_idx) (filter (test_bit8 byte) [0..<8]))
       (enumerate 0 (bm_data b)))"

text \<open>The loop of \<open>find_in_use_range\<close> over the remaining record numbers.\<close>

fun take_in_use :: "bytes \<Rightarrow> nat \<Rightarrow> nat list \<Rightarrow> nat list \<Rightarrow> nat list" where
  "take_in_use d count [] result = result"
| "take_in_use d count (frs # rest) result =
     (if length result \<ge> count then result
      else if (case vec_get d (frs div 8) of None \<Rightarrow> False | Some byte \<Rightarrow> test_bit8 byte (frs mod 8))
      then take_in_use d count rest (result @ [frs])
      else take_in_use d count rest result)"

definition find_in_use_range :: "mft_bitmap \<Rightarrow> nat \<Rightarrow> nat \<Rightarrow> nat list" where
  "find_in_use_range b start_frs count =
     take_in_use (bm_data b) count [start_frs..<bm_record_count b] []"

fun count_until :: "(nat \<Rightarrow> bool) \<Rightarrow> nat list \<Rightarrow> nat" where
  "count_until p [] = 0"
| "count_until p (x # xs) = (if p x then 0 else 1 + count_until p xs)"

definition calculate_skip_range :: "mft_bitmap \<Rightarrow> nat \<Rightarrow> nat \<Rightarrow> nat \<times> nat" where
  "calculate_skip_range b start_frs end_frs =
     (let start = start_frs; stop = min end_frs (bm_record_count b) in
      if start \<ge> stop then (0, 0)
      else let skip_begin = count_until (is_record_in_use b) [start..<stop] in
           if skip_begin = stop - start then (skip_begin, 0)
           else (skip_begin, count_until (is_record_in_use b) (rev [start..<stop])))"

definition cluster_mask :: "nat \<Rightarrow> nat \<Rightarrow> nat \<Rightarrow> nat \<Rightarrow> nat \<Rightarrow> u8" where
  "cluster_mask start stop start_byte end_byte byte_idx =
     (if byte_idx = start_byte \<and> start mod 8 \<noteq> 0 then push_bit (start mod 8) 0xFF
      else if byte_idx = end_byte - 1 \<and> stop mod 8 \<noteq> 0 then push_bit (stop mod 8) 1 - 1
      else 0xFF)"

definition cluster_has_in_use :: "mft_bitmap \<Rightarrow> nat \<Rightarrow> nat \<Rightarrow> bool rust" where
  "cluster_has_in_use b start_frs records_per_cluster = do {
     past \<leftarrow> u64_add start_frs records_per_cluster;
     let stop = min past (bm_record_count b);
     let start_byte = start_frs div 8;
     let end_byte = (stop + 7) div 8;
     Some (list_ex (\<lambda>byte_idx. case vec_get (bm_data b) byte_idx of
                None \<Rightarrow> False
              | Some byte \<Rightarrow> byte AND cluster_mask start_frs stop start_byte end_byte byte_idx \<noteq> 0)
            [start_byte..<min end_byte (length (bm_data b))])
   }"

text \<open>
  The two \<open>while\<close> loops of the range iterator: advance the cluster number until a cluster with a record
  in use (\<open>want\<close>) or without one (\<open>\<not> want\<close>).
\<close>

function advance_clusters :: "mft_bitmap \<Rightarrow> nat \<Rightarrow> nat \<Rightarrow> bool \<Rightarrow> nat \<Rightarrow> nat rust" where
  "advance_clusters b rpc ntot want cur =
     (if cur < ntot then do {
        start_frs \<leftarrow> u64_mul cur rpc;
        has \<leftarrow> cluster_has_in_use b start_frs rpc;
        (if has = want then Some cur else advance_clusters b rpc ntot want (cur + 1))
      }
      else Some cur)"
  by pat_completeness auto
termination
  by (relation "measure (\<lambda>(b, rpc, ntot, want, cur). ntot - cur)") auto

declare advance_clusters.simps [simp del]

definition cluster_range_next ::
  "mft_bitmap \<Rightarrow> nat \<Rightarrow> nat \<Rightarrow> nat \<Rightarrow> ((nat \<times> nat) option \<times> nat) rust"
where
  "cluster_range_next b rpc ntot cur = do {
     range_start \<leftarrow> advance_clusters b rpc ntot True cur;
     (if range_start \<ge> ntot then Some (None, range_start)
      else do {
        past \<leftarrow> advance_clusters b rpc ntot False range_start;
        len \<leftarrow> u64_sub past range_start;
        Some (Some (range_start, len), past)
      })
   }"

lemma advance_clusters_ge: "advance_clusters b rpc ntot want cur = Some c \<Longrightarrow> cur \<le> c"
proof (induction b rpc ntot want cur rule: advance_clusters.induct)
  case (1 b rpc ntot want cur)
  show ?case
  proof (cases "cur < ntot")
    case True
    with "1.prems" obtain s h where sh: "u64_mul cur rpc = Some s" "cluster_has_in_use b s rpc = Some h"
      by (auto simp: advance_clusters.simps [of _ _ _ _ cur] split: bind_splits)
    show ?thesis
    proof (cases "h = want")
      case False
      with "1.prems" "1.IH" [OF True sh False] True sh show ?thesis
        by (simp add: advance_clusters.simps [of _ _ _ _ cur])
    qed (use "1.prems" True sh in \<open>simp add: advance_clusters.simps [of _ _ _ _ cur]\<close>)
  qed (use "1.prems" in \<open>simp add: advance_clusters.simps\<close>)
qed

lemma advance_clusters_stop:
  "advance_clusters b rpc ntot want cur = Some c \<Longrightarrow> c < ntot \<Longrightarrow>
     \<exists>s. u64_mul c rpc = Some s \<and> cluster_has_in_use b s rpc = Some want"
proof (induction b rpc ntot want cur rule: advance_clusters.induct)
  case (1 b rpc ntot want cur)
  show ?case
  proof (cases "cur < ntot")
    case True
    with "1.prems" obtain s h where sh: "u64_mul cur rpc = Some s" "cluster_has_in_use b s rpc = Some h"
      by (auto simp: advance_clusters.simps [of _ _ _ _ cur] split: bind_splits)
    show ?thesis
    proof (cases "h = want")
      case False
      with "1.prems" "1.IH" [OF True sh False] True sh show ?thesis
        by (simp add: advance_clusters.simps [of _ _ _ _ cur])
    qed (use "1.prems" True sh in \<open>auto simp: advance_clusters.simps [of _ _ _ _ cur]\<close>)
  qed (use "1.prems" in \<open>simp add: advance_clusters.simps\<close>)
qed

lemma cluster_range_next_advances:
  assumes "cluster_range_next b rpc ntot cur = Some (Some r, cur')"
  shows "cur < cur'" and "cur < ntot"
proof -
  from assms obtain c where c: "advance_clusters b rpc ntot True cur = Some c" "c < ntot"
    "advance_clusters b rpc ntot False c = Some cur'"
    by (auto simp: cluster_range_next_def split: bind_splits if_splits)
  from advance_clusters_stop [OF c(1,2)] obtain s
    where s: "u64_mul c rpc = Some s" "cluster_has_in_use b s rpc = Some True" by blast
  from c(2,3) s have "advance_clusters b rpc ntot False (c + 1) = Some cur'"
    by (simp add: advance_clusters.simps [of _ _ _ _ c])
  from advance_clusters_ge [OF this] advance_clusters_ge [OF c(1)] c(2)
  show "cur < cur'" and "cur < ntot" by simp_all
qed

text \<open>The ranges the iterator yields from a cluster on.\<close>

function cluster_ranges_from :: "mft_bitmap \<Rightarrow> nat \<Rightarrow> nat \<Rightarrow> nat \<Rightarrow> (nat \<times> nat) list rust" where
  "cluster_ranges_from b rpc ntot cur =
     (case cluster_range_next b rpc ntot cur of
        None \<Rightarrow> None
      | Some (None, _) \<Rightarrow> Some []
      | Some (Some r, cur') \<Rightarrow> map_option (Cons r) (cluster_ranges_from b rpc ntot cur'))"
  by pat_completeness auto
termination
proof (relation "measure (\<lambda>(b, rpc, ntot, cur). ntot - cur)")
  fix b rpc ntot cur x ro cur' r
  assume "cluster_range_next b rpc ntot cur = Some x" "(ro, cur') = x" "ro = Some r"
  then have "cluster_range_next b rpc ntot cur = Some (Some r, cur')" by simp
  from cluster_range_next_advances [OF this]
  show "((b, rpc, ntot, cur'), (b, rpc, ntot, cur)) \<in> measure (\<lambda>(b, rpc, ntot, cur). ntot - cur)" by simp
qed simp

declare cluster_ranges_from.simps [simp del]

definition in_use_cluster_ranges :: "mft_bitmap \<Rightarrow> nat \<Rightarrow> (nat \<times> nat) list rust" where
  "in_use_cluster_ranges b rpc = do {
     ntot \<leftarrow> div_ceil (bm_record_count b) rpc;
     cluster_ranges_from b rpc ntot 0
   }"

section \<open>Bits\<close>

lemma test_bit8_bit [simp]: "k < 8 \<Longrightarrow> test_bit8 byte k \<longleftrightarrow> bit byte k"
  using and_exp_eq_0_iff_not_bit [of byte k] by (simp add: test_bit8_def push_bit_of_1)

definition bit_at :: "bytes \<Rightarrow> nat \<Rightarrow> bool" where
  "bit_at d n \<longleftrightarrow> n div 8 < length d \<and> bit (d ! (n div 8)) (n mod 8)"

lemma in_use_bit_at: "is_record_in_use b frs \<longleftrightarrow> frs < bm_record_count b \<and> bit_at (bm_data b) frs"
  by (auto simp: is_record_in_use_def bit_at_def Let_def)

lemma u8_nonzero_bit: "(w :: u8) \<noteq> 0 \<longleftrightarrow> (\<exists>k < 8. bit w k)"
  by (auto simp: bit_eq_iff bit_simps dest: bit_imp_le_length)

lemma mask_ff [simp]: "bit (0xFF :: int) k \<longleftrightarrow> k < 8"
proof -
  have "(0xFF :: int) = mask 8" by (simp add: mask_eq_exp_minus_1)
  show ?thesis unfolding \<open>0xFF = mask 8\<close> bit_mask_iff by auto
qed

lemma bit_low_mask [simp]: "n < 8 \<Longrightarrow> bit (2 ^ n - 1 :: u8) k \<longleftrightarrow> k < n"
  unfolding mask_eq_exp_minus_1 [symmetric] bit_mask_iff by auto

text \<open>The mask keeps every bit of the cluster (it may keep more when the cluster lies inside one byte).\<close>

lemma cluster_mask_keeps:
  assumes "start \<le> n" and "n < stop"
  shows "bit (cluster_mask start stop (start div 8) ((stop + 7) div 8) (n div 8)) (n mod 8)"
proof -
  have "n mod 8 < 8" by simp
  moreover have "start mod 8 \<le> n mod 8" if "n div 8 = start div 8"
    using assms(1) that div_mult_mod_eq [of n 8] div_mult_mod_eq [of start 8] by linarith
  moreover have "n mod 8 < stop mod 8" if "n div 8 = (stop + 7) div 8 - 1" "stop mod 8 \<noteq> 0"
  proof -
    have "stop + 7 = stop mod 8 - 1 + (stop div 8 + 1) * 8" using that(2) by (simp add: algebra_simps)
    then have "(stop + 7) div 8 = (stop mod 8 - 1) div 8 + (stop div 8 + 1)" by simp
    moreover have "stop mod 8 - 1 < 8" by (simp add: less_imp_diff_less)
    ultimately have "(stop + 7) div 8 = stop div 8 + 1" by simp
    with that(1) have "n div 8 = stop div 8" by simp
    with assms(2) div_mult_mod_eq [of n 8] div_mult_mod_eq [of stop 8] show ?thesis by linarith
  qed
  ultimately show ?thesis
    by (auto simp: cluster_mask_def bit_push_bit_iff less_imp_diff_less)
qed

lemma cluster_has_in_use_sound:
  assumes "cluster_has_in_use b start rpc = Some h" and "start \<le> n" and "n < start + rpc"
    and "is_record_in_use b n"
  shows "h"
proof -
  let ?stop = "min (start + rpc) (bm_record_count b)"
  have n: "n < ?stop" "bit_at (bm_data b) n" using assms(3,4) by (auto simp: in_use_bit_at)
  then have "n div 8 \<in> set [start div 8..<min ((?stop + 7) div 8) (length (bm_data b))]"
    using assms(2) by (auto simp: bit_at_def div_le_mono less_eq_div_iff_mult_less_eq Suc_le_eq [symmetric])
  moreover have "bm_data b ! (n div 8) AND cluster_mask start ?stop (start div 8) ((?stop + 7) div 8) (n div 8) \<noteq> 0"
    unfolding u8_nonzero_bit
    using cluster_mask_keeps [OF assms(2) n(1)] n(2)
    by (intro exI [of _ "n mod 8"]) (auto simp: bit_and_iff bit_at_def)
  moreover have "n div 8 < length (bm_data b)" using n(2) by (simp add: bit_at_def)
  ultimately have "list_ex (\<lambda>byte_idx. case vec_get (bm_data b) byte_idx of None \<Rightarrow> False
        | Some byte \<Rightarrow> byte AND cluster_mask start ?stop (start div 8) ((?stop + 7) div 8) byte_idx \<noteq> 0)
      [start div 8..<min ((?stop + 7) div 8) (length (bm_data b))]"
    by (auto simp: list_ex_iff intro!: bexI [of _ "n div 8"])
  with assms(1) show ?thesis
    by (simp add: cluster_has_in_use_def Let_def u64_add_def u64_check_def split: if_splits)
qed

section \<open>Ranges of clusters\<close>

text \<open>
  \<open>has c\<close> is what the iterator computes for cluster \<open>c\<close>, when no product or sum overflows; the loops then
  stop at the first cluster that agrees with \<open>want\<close>.
\<close>

definition clusters_fit :: "mft_bitmap \<Rightarrow> nat \<Rightarrow> nat \<Rightarrow> (nat \<Rightarrow> bool) \<Rightarrow> bool" where
  "clusters_fit b rpc ntot has \<longleftrightarrow> (\<forall>c < ntot. \<exists>s. u64_mul c rpc = Some s \<and> cluster_has_in_use b s rpc = Some (has c))"

lemma advance_clusters_spec:
  assumes "clusters_fit b rpc ntot has" and "cur \<le> ntot"
  shows "\<exists>c. advance_clusters b rpc ntot want cur = Some c \<and> cur \<le> c \<and> c \<le> ntot
     \<and> (\<forall>k. cur \<le> k \<and> k < c \<longrightarrow> has k \<noteq> want) \<and> (c < ntot \<longrightarrow> has c = want)"
  using assms(2)
proof (induction "ntot - cur" arbitrary: cur)
  case 0
  then show ?case by (auto simp: advance_clusters.simps)
next
  case (Suc n)
  then have lt: "cur < ntot" by simp
  with assms(1) obtain s where s: "u64_mul cur rpc = Some s" "cluster_has_in_use b s rpc = Some (has cur)"
    unfolding clusters_fit_def by blast
  show ?case
  proof (cases "has cur = want")
    case True
    with lt s show ?thesis by (auto simp: advance_clusters.simps)
  next
    case False
    from Suc have "n = ntot - (cur + 1)" "cur + 1 \<le> ntot" by simp_all
    from Suc.hyps(1) [OF this] obtain c where c: "advance_clusters b rpc ntot want (cur + 1) = Some c" "cur + 1 \<le> c" "c \<le> ntot"
      "\<forall>k. cur + 1 \<le> k \<and> k < c \<longrightarrow> has k \<noteq> want" "c < ntot \<longrightarrow> has c = want" by blast
    have "has k \<noteq> want" if "cur \<le> k" "k < c" for k
      using that c(4) False by (cases "k = cur") auto
    with c lt s False show ?thesis by (auto simp: advance_clusters.simps [of _ _ _ _ cur])
  qed
qed

text \<open>The ranges cover exactly the clusters with a record in use, in order, with a gap between two ranges.\<close>

definition range_set :: "(nat \<times> nat) list \<Rightarrow> nat set" where
  "range_set rs = (\<Union>(s, n) \<in> set rs. {s..<s + n})"

lemma cluster_ranges_from_spec:
  assumes "clusters_fit b rpc ntot has" and "cur \<le> ntot"
  shows "\<exists>rs. cluster_ranges_from b rpc ntot cur = Some rs
     \<and> range_set rs = {c. cur \<le> c \<and> c < ntot \<and> has c}
     \<and> sorted_wrt (\<lambda>(s, n) (s', n'). s + n < s') rs \<and> (\<forall>(s, n) \<in> set rs. cur \<le> s \<and> 0 < n)"
  using assms(2)
proof (induction "ntot - cur" arbitrary: cur rule: less_induct)
  case less
  from advance_clusters_spec [OF assms(1) less.prems, of True] obtain c
    where c: "advance_clusters b rpc ntot True cur = Some c" "cur \<le> c" "c \<le> ntot"
      "\<And>k. cur \<le> k \<Longrightarrow> k < c \<Longrightarrow> \<not> has k" "c < ntot \<Longrightarrow> has c" by auto
  show ?case
  proof (cases "c < ntot")
    case False
    with c have "cluster_ranges_from b rpc ntot cur = Some []"
      by (simp add: cluster_ranges_from.simps cluster_range_next_def)
    moreover have "{c. cur \<le> c \<and> c < ntot \<and> has c} = {}" using c(3,4) False by fastforce
    ultimately show ?thesis by (simp add: range_set_def)
  next
    case True
    from advance_clusters_spec [OF assms(1), of c False] c(3) obtain d
      where d: "advance_clusters b rpc ntot False c = Some d" "c \<le> d" "d \<le> ntot"
        "\<And>k. c \<le> k \<Longrightarrow> k < d \<Longrightarrow> has k" "d < ntot \<Longrightarrow> \<not> has d" by auto
    have cd: "c < d" using d c(5) [OF True] True by (cases "c = d") auto
    have "ntot - d < ntot - cur" using cd c(2) d(3) by linarith
    from less.hyps [OF this d(3)] obtain rs where rs: "cluster_ranges_from b rpc ntot d = Some rs"
      "range_set rs = {c. d \<le> c \<and> c < ntot \<and> has c}"
      "sorted_wrt (\<lambda>(s, n) (s', n'). s + n < s') rs" "\<forall>(s, n) \<in> set rs. d \<le> s \<and> 0 < n" by blast
    have eq: "cluster_ranges_from b rpc ntot cur = Some ((c, d - c) # rs)"
      using c(1) d(1,2) True rs(1)
      by (simp add: cluster_ranges_from.simps [of _ _ _ cur] cluster_range_next_def u64_sub_def)
    have far: "d < s" if "(s, n) \<in> set rs" for s n
    proof -
      from rs(4) that have "d \<le> s" "0 < n" by auto
      with that rs(2) have "s \<in> {c. d \<le> c \<and> c < ntot \<and> has c}" by (force simp: range_set_def)
      with d(5) \<open>d \<le> s\<close> show ?thesis by (cases "s = d") auto
    qed
    have "range_set ((c, d - c) # rs) = {c..<d} \<union> {c. d \<le> c \<and> c < ntot \<and> has c}"
      using rs(2) d(2) by (simp add: range_set_def)
    also have "\<dots> = {k. cur \<le> k \<and> k < ntot \<and> has k}"
    proof (intro set_eqI iffI)
      fix k assume k: "k \<in> {k. cur \<le> k \<and> k < ntot \<and> has k}"
      then have "c \<le> k" using c(4) [of k] by (cases "k < c") auto
      with k show "k \<in> {c..<d} \<union> {c. d \<le> c \<and> c < ntot \<and> has c}" by auto
    next
      fix k assume "k \<in> {c..<d} \<union> {c. d \<le> c \<and> c < ntot \<and> has c}"
      then show "k \<in> {k. cur \<le> k \<and> k < ntot \<and> has k}"
        using c(2) d(3) d(4) [of k] cd by auto
    qed
    finally have "range_set ((c, d - c) # rs) = {k. cur \<le> k \<and> k < ntot \<and> has k}" .
    moreover have "sorted_wrt (\<lambda>(s, n) (s', n'). s + n < s') ((c, d - c) # rs)"
      using rs(3) far d(2) by auto
    moreover have "\<forall>(s, n) \<in> set ((c, d - c) # rs). cur \<le> s \<and> 0 < n"
      using rs(4) c(2) cd by fastforce
    ultimately show ?thesis using eq by blast
  qed
qed

section \<open>Skips\<close>

lemma count_until_spec:
  "count_until p xs \<le> length xs \<and> (\<forall>i < count_until p xs. \<not> p (xs ! i))
     \<and> (count_until p xs < length xs \<longrightarrow> p (xs ! count_until p xs))"
  by (induction p xs rule: count_until.induct) (auto simp: nth_Cons' less_Suc_eq_0_disj)

section \<open>Enumeration\<close>

lemma concat_enumerate_bits:
  "concat (map (\<lambda>(i, byte). map (\<lambda>k. i * 8 + k) (filter (test_bit8 byte) [0..<8])) (enumerate n d))
   = filter (\<lambda>m. bit (d ! (m div 8 - n)) (m mod 8)) [n * 8..<(n + length d) * 8]"
proof (induction d arbitrary: n)
  case (Cons byte d)
  have split: "[n * 8..<(n + length (byte # d)) * 8] = map (\<lambda>k. n * 8 + k) [0..<8] @ [Suc n * 8..<(Suc n + length d) * 8]"
    (is "_ = _ @ ?rest")
  proof -
    have "map (\<lambda>k. n * 8 + k) [0..<8] = [n * 8..<n * 8 + 8]" using map_add_upt [of "n * 8" 8] by (simp add: add.commute)
    moreover have "[n * 8..<(n + length (byte # d)) * 8] = [n * 8..<n * 8 + 8] @ [n * 8 + 8..<n * 8 + 8 + length d * 8]"
      by (subst upt_add_eq_append [symmetric]) (simp_all add: algebra_simps)
    ultimately show ?thesis by (simp add: algebra_simps)
  qed
  have head: "filter (\<lambda>m. bit ((byte # d) ! (m div 8 - n)) (m mod 8)) (map (\<lambda>k. n * 8 + k) [0..<8])
      = map (\<lambda>k. n * 8 + k) (filter (test_bit8 byte) [0..<8])"
    unfolding filter_map comp_def by (rule arg_cong [where f = "map _"], rule filter_cong) auto
  have tail: "filter (\<lambda>m. bit ((byte # d) ! (m div 8 - n)) (m mod 8)) ?rest
      = filter (\<lambda>m. bit (d ! (m div 8 - Suc n)) (m mod 8)) ?rest"
  proof (rule filter_cong [OF refl])
    fix m assume "m \<in> set ?rest"
    then have "Suc n \<le> m div 8" by (simp add: less_eq_div_iff_mult_less_eq)
    then have "m div 8 - n = Suc (m div 8 - Suc n)" by simp
    then show "bit ((byte # d) ! (m div 8 - n)) (m mod 8) = bit (d ! (m div 8 - Suc n)) (m mod 8)" by simp
  qed
  show ?case unfolding split using Cons.IH [of "Suc n"] head tail by simp
qed simp

lemma in_use_records_filter:
  "in_use_records (bitmap_from_bytes d) = filter (is_record_in_use (bitmap_from_bytes d)) [0..<length d * 8]"
  unfolding in_use_records_def using concat_enumerate_bits [of 0 d]
  by (auto simp: bitmap_from_bytes_def in_use_bit_at bit_at_def less_mult_imp_div_less intro!: filter_cong)

lemma count_in_use_length: "count_in_use b = length (in_use_records b)"
proof -
  have "sum_list (map count_ones d) =
      length (concat (map (\<lambda>(i, byte). map (\<lambda>k. i * 8 + k) (filter (test_bit8 byte) [0..<8])) (enumerate n d)))" for d n
    by (induction d arbitrary: n) (simp_all add: count_ones_def)
  then show ?thesis by (simp add: count_in_use_def in_use_records_def)
qed

section \<open>Properties\<close>

text \<open>
  C40. The range iterator yields, in ascending order and with a gap between any two, maximal runs of
  clusters, and every record in use lies in a cluster of one of them: reading only these ranges
  loses no record.
\<close>

theorem in_use_cluster_ranges_complete:
  assumes "0 < rpc" and "bm_record_count b + 2 * rpc \<le> u64_max"
  shows "\<exists>rs. in_use_cluster_ranges b rpc = Some rs
    \<and> sorted_wrt (\<lambda>(s, n) (s', n'). s + n < s') rs \<and> (\<forall>(s, n) \<in> set rs. 0 < n)
    \<and> (\<forall>frs. is_record_in_use b frs \<longrightarrow> (\<exists>(s, n) \<in> set rs. s \<le> frs div rpc \<and> frs div rpc < s + n))"
proof -
  obtain ntot where ntot: "div_ceil (bm_record_count b) rpc = Some ntot"
    using assms(1) by (auto simp: div_ceil_def)
  note spec = div_ceil_spec [OF ntot]
  define has where "has c = (case cluster_has_in_use b (c * rpc) rpc of None \<Rightarrow> False | Some h \<Rightarrow> h)" for c
  have fit: "clusters_fit b rpc ntot has"
    unfolding clusters_fit_def
  proof (intro allI impI)
    fix c assume c: "c < ntot"
    then have "c * rpc \<le> ntot * rpc" by simp
    with spec(2) assms have "c * rpc + rpc \<le> u64_max" by linarith
    then show "\<exists>s. u64_mul c rpc = Some s \<and> cluster_has_in_use b s rpc = Some (has c)"
      by (auto simp: u64_mul_def u64_check_def has_def cluster_has_in_use_def u64_add_def Let_def)
  qed
  from cluster_ranges_from_spec [OF fit, of 0] obtain rs where rs: "cluster_ranges_from b rpc ntot 0 = Some rs"
    "range_set rs = {c. c < ntot \<and> has c}" "sorted_wrt (\<lambda>(s, n) (s', n'). s + n < s') rs"
    "\<forall>(s, n) \<in> set rs. 0 < n" by auto
  have "\<exists>(s, n) \<in> set rs. s \<le> frs div rpc \<and> frs div rpc < s + n" if frs: "is_record_in_use b frs" for frs
  proof -
    let ?c = "frs div rpc"
    have "frs < ntot * rpc" using frs spec(1) by (auto simp: in_use_bit_at)
    then have c: "?c < ntot" by (simp add: less_mult_imp_div_less)
    with fit obtain h where h: "cluster_has_in_use b (?c * rpc) rpc = Some h" "has ?c = h"
      by (auto simp: clusters_fit_def u64_mul_def u64_check_def split: if_splits)
    have "?c * rpc \<le> frs" "frs < ?c * rpc + rpc"
      using assms(1) by (simp_all add: dividend_less_div_times add.commute)
    with cluster_has_in_use_sound [OF h(1) _ _ frs] h(2) have "has ?c" by simp
    with c rs(2) have "?c \<in> range_set rs" by simp
    then obtain s n where "(s, n) \<in> set rs" "?c \<in> {s..<s + n}" unfolding range_set_def by blast
    then show ?thesis by (intro bexI [of _ "(s, n)"]) auto
  qed
  with ntot rs show ?thesis by (auto simp: in_use_cluster_ranges_def)
qed

text \<open>
  The skip range of a run of records: everything skipped at either end is not in use, and unless
  the whole run is skipped the first and the last record kept are in use.
\<close>

theorem skip_range_tight:
  assumes "calculate_skip_range b start stop = (sb, se)" and "stop \<le> bm_record_count b" and "start < stop"
  shows "sb + se \<le> stop - start
    \<and> (\<forall>frs. (start \<le> frs \<and> frs < start + sb) \<or> (stop - se \<le> frs \<and> frs < stop) \<longrightarrow> \<not> is_record_in_use b frs)
    \<and> (sb + se < stop - start \<longrightarrow> is_record_in_use b (start + sb) \<and> is_record_in_use b (stop - se - 1))"
proof -
  let ?xs = "[start..<stop]" let ?f = "count_until (is_record_in_use b) ?xs"
  let ?g = "count_until (is_record_in_use b) (rev ?xs)"
  have res: "(sb, se) = (if ?f = stop - start then (?f, 0) else (?f, ?g))"
    using assms by (simp add: calculate_skip_range_def Let_def min_def split: if_splits)
  have rev_nth': "rev ?xs ! i = stop - 1 - i" if "i < stop - start" for i
    using that by (simp add: rev_nth)
  have f: "?f \<le> stop - start" "\<And>i. i < ?f \<Longrightarrow> \<not> is_record_in_use b (start + i)"
    "?f < stop - start \<longrightarrow> is_record_in_use b (start + ?f)"
    using count_until_spec [of "is_record_in_use b" ?xs] by auto
  have g: "?g \<le> stop - start" "\<And>i. i < ?g \<Longrightarrow> \<not> is_record_in_use b (stop - 1 - i)"
    "?g < stop - start \<longrightarrow> is_record_in_use b (stop - 1 - ?g)"
    using count_until_spec [of "is_record_in_use b" "rev ?xs"] rev_nth' by (auto simp: less_le_trans)
  have front: "\<not> is_record_in_use b frs" if "start \<le> frs" "frs < start + ?f" for frs
    using f(2) [of "frs - start"] that by simp
  have rear: "\<not> is_record_in_use b frs" if "stop - ?g \<le> frs" "frs < stop" for frs
    using g(2) [of "stop - 1 - frs"] that g(1) by simp
  show ?thesis
  proof (cases "?f = stop - start")
    case True
    with res front assms(3) show ?thesis by auto
  next
    case False
    with f(1) have lt: "?f < stop - start" by simp
    then have "start + ?f < stop" and use: "is_record_in_use b (start + ?f)" using f(3) by auto
    then have gap: "start + ?f < stop - ?g" using rear [of "start + ?f"] by (metis leI)
    then have "?g < stop - start" by linarith
    with g(3) have "is_record_in_use b (stop - ?g - 1)" by (simp add: diff_right_commute)
    moreover have "sb = ?f" "se = ?g" using res False by auto
    moreover have "?f + ?g \<le> stop - start" using gap by linarith
    ultimately show ?thesis using front rear use by blast
  qed
qed

text \<open>
  On the bitmap of a volume, \<open>in_use_records\<close> lists exactly the records in use in ascending order,
  and \<open>count_in_use\<close> is their number.
\<close>

theorem in_use_records_exact:
  "in_use_records (bitmap_from_bytes d) = filter (is_record_in_use (bitmap_from_bytes d)) [0..<length d * 8]
   \<and> count_in_use (bitmap_from_bytes d) = card {frs. is_record_in_use (bitmap_from_bytes d) frs}"
proof -
  have "{frs. is_record_in_use (bitmap_from_bytes d) frs}
      = set (filter (is_record_in_use (bitmap_from_bytes d)) [0..<length d * 8])"
    by (auto simp: in_use_bit_at bitmap_from_bytes_def)
  moreover have "distinct (filter (is_record_in_use (bitmap_from_bytes d)) [0..<length d * 8])" by simp
  ultimately show ?thesis
    using in_use_records_filter [of d] count_in_use_length [of "bitmap_from_bytes d"]
    by (simp only: distinct_card)
qed

section \<open>Witnesses\<close>

theorem in_use_cluster_ranges_complete_witness:
  "\<exists>rs. in_use_cluster_ranges (bitmap_from_bytes [0x05, 0, 0, 0x80]) 4 = Some rs
    \<and> (\<exists>(s, n) \<in> set rs. s \<le> 31 div 4 \<and> 31 div 4 < s + n)"
proof -
  have "is_record_in_use (bitmap_from_bytes [0x05, 0, 0, 0x80]) 31" by code_simp
  moreover have "(0::nat) < 4" "bm_record_count (bitmap_from_bytes [0x05, 0, 0, 0x80]) + 2 * 4 \<le> u64_max"
    by (simp_all add: bitmap_from_bytes_def u64_max_def)
  ultimately show ?thesis using in_use_cluster_ranges_complete by blast
qed

theorem skip_range_tight_witness:
  "calculate_skip_range (bitmap_from_bytes [0xF0, 0x0F]) 0 16 = (4, 4)
   \<and> is_record_in_use (bitmap_from_bytes [0xF0, 0x0F]) 4 \<and> is_record_in_use (bitmap_from_bytes [0xF0, 0x0F]) 11"
proof -
  have c: "calculate_skip_range (bitmap_from_bytes [0xF0, 0x0F]) 0 16 = (4, 4)" by code_simp
  with skip_range_tight [OF c] show ?thesis by (simp add: bitmap_from_bytes_def)
qed

end
