(* ===== verification/Ntfs_Records.thy ===== *)
theory Ntfs_Records
  imports Rust_Prelude
begin

text \<open>
  NTFS file records (\<open>crates/uffs-mft/src/ntfs/records.rs\<close>), the two update-sequence fixups
  (\<open>apply_usa_fixup\<close> there and \<open>apply_fixup\<close> of \<open>parse/fixup.rs\<close>) and the boot sector geometry
  (\<open>ntfs/boot_sector.rs\<close>). On-disk integers are words of their width; a read past the end of the buffer
  is \<open>None\<close> where the source uses \<open>get\<close>, and a panic (also \<open>None\<close>) where it indexes.
\<close>

section \<open>Field reads\<close>

definition FILE_RECORD_MAGIC :: u32 where "FILE_RECORD_MAGIC = 0x454C4946"
definition SECTOR_SIZE :: nat where "SECTOR_SIZE = 512"

definition read_le_array :: "nat \<Rightarrow> bytes \<Rightarrow> nat \<Rightarrow> bytes option" where
  "read_le_array n data off = slice_get data off (off + n)"

definition read_u8_at :: "bytes \<Rightarrow> nat \<Rightarrow> u8 option" where
  "read_u8_at data off = vec_get data off"
definition read_u16_le_at :: "bytes \<Rightarrow> nat \<Rightarrow> u16 option" where
  "read_u16_le_at data off = map_option from_le_bytes (read_le_array 2 data off)"
definition read_u32_le_at :: "bytes \<Rightarrow> nat \<Rightarrow> u32 option" where
  "read_u32_le_at data off = map_option from_le_bytes (read_le_array 4 data off)"
definition read_u64_le_at :: "bytes \<Rightarrow> nat \<Rightarrow> u64 option" where
  "read_u64_le_at data off = map_option from_le_bytes (read_le_array 8 data off)"
definition read_i64_le_at :: "bytes \<Rightarrow> nat \<Rightarrow> int option" where
  "read_i64_le_at data off = map_option (\<lambda>bs. sint (from_le_bytes bs :: u64)) (read_le_array 8 data off)"

section \<open>Headers\<close>

record multi_sector_header =
  msh_magic :: u32
  usa_offset :: u16
  usa_count :: u16

definition is_file_record :: "multi_sector_header \<Rightarrow> bool" where
  "is_file_record h \<longleftrightarrow> msh_magic h = FILE_RECORD_MAGIC"

definition parse_multi_sector_header :: "bytes \<Rightarrow> multi_sector_header option" where
  "parse_multi_sector_header data = do {
     m \<leftarrow> read_u32_le_at data 0;
     off \<leftarrow> read_u16_le_at data 4;
     cnt \<leftarrow> read_u16_le_at data 6;
     Some \<lparr>msh_magic = m, usa_offset = off, usa_count = cnt\<rparr>
   }"

datatype attribute_type =
    StandardInformation | AttributeList | FileName | ObjectId | SecurityDescriptor | VolumeName
  | VolumeInformation | DataAttr | IndexRoot | IndexAllocation | Bitmap | ReparsePoint | EaInformation
  | Ea | PropertySet | LoggedUtilityStream | EndMarker

definition attribute_type_from_u32 :: "u32 \<Rightarrow> attribute_type option" where
  "attribute_type_from_u32 v =
     (if v = 0x10 then Some StandardInformation else if v = 0x20 then Some AttributeList
      else if v = 0x30 then Some FileName else if v = 0x40 then Some ObjectId
      else if v = 0x50 then Some SecurityDescriptor else if v = 0x60 then Some VolumeName
      else if v = 0x70 then Some VolumeInformation else if v = 0x80 then Some DataAttr
      else if v = 0x90 then Some IndexRoot else if v = 0xA0 then Some IndexAllocation
      else if v = 0xB0 then Some Bitmap else if v = 0xC0 then Some ReparsePoint
      else if v = 0xD0 then Some EaInformation else if v = 0xE0 then Some Ea
      else if v = 0xF0 then Some PropertySet else if v = 0x100 then Some LoggedUtilityStream
      else if v = 0xFFFFFFFF then Some EndMarker else None)"

record attribute_record_header =
  arh_type_code :: u32
  arh_length :: u32
  arh_is_non_resident :: u8
  arh_name_length :: u8
  arh_name_offset :: u16
  arh_flags :: u16
  arh_instance :: u16

definition parse_attribute_record_header :: "bytes \<Rightarrow> attribute_record_header option" where
  "parse_attribute_record_header data = do {
     tc \<leftarrow> read_u32_le_at data 0;
     len \<leftarrow> read_u32_le_at data 4;
     nr \<leftarrow> read_u8_at data 8;
     nl \<leftarrow> read_u8_at data 9;
     no \<leftarrow> read_u16_le_at data 10;
     fl \<leftarrow> read_u16_le_at data 12;
     ins \<leftarrow> read_u16_le_at data 14;
     Some \<lparr>arh_type_code = tc, arh_length = len, arh_is_non_resident = nr, arh_name_length = nl,
       arh_name_offset = no, arh_flags = fl, arh_instance = ins\<rparr>
   }"

record resident_attribute_data =
  rad_value_length :: u32
  rad_value_offset :: u16
  rad_flags :: u16

definition parse_resident_attribute_data :: "bytes \<Rightarrow> resident_attribute_data option" where
  "parse_resident_attribute_data data = do {
     vl \<leftarrow> read_u32_le_at data 0;
     vo \<leftarrow> read_u16_le_at data 4;
     fl \<leftarrow> read_u16_le_at data 6;
     Some \<lparr>rad_value_length = vl, rad_value_offset = vo, rad_flags = fl\<rparr>
   }"

record non_resident_attribute_data =
  lowest_vcn :: int
  highest_vcn :: int
  mapping_pairs_offset :: u16
  compression_unit :: u8
  nrd_reserved :: bytes
  allocated_size :: int
  data_size :: int
  initialized_size :: int

definition parse_non_resident_attribute_data :: "bytes \<Rightarrow> non_resident_attribute_data option" where
  "parse_non_resident_attribute_data data = do {
     lv \<leftarrow> read_i64_le_at data 0;
     hv \<leftarrow> read_i64_le_at data 8;
     mp \<leftarrow> read_u16_le_at data 16;
     cu \<leftarrow> read_u8_at data 18;
     rs \<leftarrow> read_le_array 5 data 19;
     al \<leftarrow> read_i64_le_at data 24;
     ds \<leftarrow> read_i64_le_at data 32;
     is \<leftarrow> read_i64_le_at data 40;
     Some \<lparr>lowest_vcn = lv, highest_vcn = hv, mapping_pairs_offset = mp, compression_unit = cu,
       nrd_reserved = rs, allocated_size = al, data_size = ds, initialized_size = is\<rparr>
   }"

record file_record_segment_header =
  frs_multi_sector_header :: multi_sector_header
  log_file_sequence_number :: u64
  sequence_number :: u16
  link_count :: u16
  first_attribute_offset :: u16
  frs_flags :: u16
  bytes_in_use :: u32
  bytes_allocated :: u32
  base_file_record_segment :: u64
  next_attribute_number :: u16
  frs_reserved :: u16
  segment_number_lower :: u32

definition parse_file_record_segment_header :: "bytes \<Rightarrow> file_record_segment_header option" where
  "parse_file_record_segment_header data = do {
     ms \<leftarrow> parse_multi_sector_header data;
     lf \<leftarrow> read_u64_le_at data 8;
     sq \<leftarrow> read_u16_le_at data 16;
     lc \<leftarrow> read_u16_le_at data 18;
     fa \<leftarrow> read_u16_le_at data 20;
     fl \<leftarrow> read_u16_le_at data 22;
     bu \<leftarrow> read_u32_le_at data 24;
     ba \<leftarrow> read_u32_le_at data 28;
     br \<leftarrow> read_u64_le_at data 32;
     na \<leftarrow> read_u16_le_at data 40;
     rs \<leftarrow> read_u16_le_at data 42;
     sl \<leftarrow> read_u32_le_at data 44;
     Some \<lparr>frs_multi_sector_header = ms, log_file_sequence_number = lf, sequence_number = sq,
       link_count = lc, first_attribute_offset = fa, frs_flags = fl, bytes_in_use = bu,
       bytes_allocated = ba, base_file_record_segment = br, next_attribute_number = na,
       frs_reserved = rs, segment_number_lower = sl\<rparr>
   }"

definition is_in_use :: "file_record_segment_header \<Rightarrow> bool" where
  "is_in_use h \<longleftrightarrow> frs_flags h AND 1 \<noteq> 0"
definition is_directory :: "file_record_segment_header \<Rightarrow> bool" where
  "is_directory h \<longleftrightarrow> frs_flags h AND 2 \<noteq> 0"
definition is_base_record :: "file_record_segment_header \<Rightarrow> bool" where
  "is_base_record h \<longleftrightarrow> base_file_record_segment h = 0"

section \<open>Attributes\<close>

record attribute_iterator =
  ai_data :: bytes
  ai_offset :: nat
  ai_max_offset :: nat

record attribute_ref =
  ar_data :: bytes
  ar_header :: attribute_record_header

definition attribute_iterator_new :: "bytes \<Rightarrow> attribute_iterator option" where
  "attribute_iterator_new rec =
     (if length rec < 48 then None
      else do {
        h \<leftarrow> parse_file_record_segment_header rec;
        if \<not> is_file_record (frs_multi_sector_header h) then None
        else (let first_attr = unat (first_attribute_offset h); in_use = unat (bytes_in_use h) in
              if first_attr \<ge> length rec \<or> in_use > length rec then None
              else Some \<lparr>ai_data = rec, ai_offset = first_attr, ai_max_offset = in_use\<rparr>)
      })"

definition attribute_next :: "attribute_iterator \<Rightarrow> (attribute_ref \<times> attribute_iterator) option" where
  "attribute_next it = do {
     header_slice \<leftarrow> slice_get (ai_data it) (ai_offset it) (ai_offset it + 16);
     if ai_offset it + 16 > ai_max_offset it then None
     else do {
       h \<leftarrow> parse_attribute_record_header header_slice;
       if arh_type_code h = 0xFFFFFFFF then None
       else (let len = unat (arh_length h) in
             if len < 16 \<or> ai_offset it + len > ai_max_offset it then None
             else do {
               attr_data \<leftarrow> slice_get (ai_data it) (ai_offset it) (ai_offset it + len);
               Some (\<lparr>ar_data = attr_data, ar_header = h\<rparr>, it\<lparr>ai_offset := ai_offset it + len\<rparr>)
             })
     }
   }"

lemma attribute_next_advances:
  assumes "attribute_next it = Some (a, it')"
  shows "ai_offset it + 16 \<le> ai_offset it'" and "ai_offset it' \<le> length (ai_data it)"
    and "ai_data it' = ai_data it" and "ai_max_offset it' = ai_max_offset it"
    and "ai_offset it' \<le> ai_max_offset it" and "ai_offset it' = ai_offset it + length (ar_data a)"
    and "slice_get (ai_data it) (ai_offset it) (ai_offset it') = Some (ar_data a)"
    and "length (ar_data a) = unat (arh_length (ar_header a))"
    and "parse_attribute_record_header (take 16 (ar_data a)) = Some (ar_header a)"
  using assms
  by (auto simp: attribute_next_def slice_get_def Let_def min_def split: bind_splits if_splits)

function attribute_collect :: "attribute_iterator \<Rightarrow> attribute_ref list" where
  "attribute_collect it =
     (case attribute_next it of None \<Rightarrow> [] | Some (a, it') \<Rightarrow> a # attribute_collect it')"
  by pat_completeness auto
termination
proof (relation "measure (\<lambda>it. length (ai_data it) - ai_offset it)")
  fix it x a it'
  assume "attribute_next it = Some x" "(a, it') = x"
  from attribute_next_advances(1-3) [of it a it'] this
  show "(it', it) \<in> measure (\<lambda>it. length (ai_data it) - ai_offset it)" by simp
qed simp

declare attribute_collect.simps [simp del]

definition is_non_resident :: "attribute_ref \<Rightarrow> bool" where
  "is_non_resident a \<longleftrightarrow> arh_is_non_resident (ar_header a) \<noteq> 0"

definition is_unnamed :: "attribute_ref \<Rightarrow> bool" where
  "is_unnamed a \<longleftrightarrow> arh_name_length (ar_header a) = 0"

definition attribute_type_of :: "attribute_ref \<Rightarrow> attribute_type option" where
  "attribute_type_of a = attribute_type_from_u32 (arh_type_code (ar_header a))"

definition resident_value :: "attribute_ref \<Rightarrow> bytes option" where
  "resident_value a =
     (if is_non_resident a then None
      else do {
        resident_slice \<leftarrow> slice_get (ar_data a) 16 (16 + 8);
        r \<leftarrow> parse_resident_attribute_data resident_slice;
        slice_get (ar_data a) (unat (rad_value_offset r)) (unat (rad_value_offset r) + unat (rad_value_length r))
      })"

definition non_resident_data :: "attribute_ref \<Rightarrow> non_resident_attribute_data option" where
  "non_resident_data a =
     (if \<not> is_non_resident a then None
      else do {
        nr_slice \<leftarrow> slice_get (ar_data a) 16 (16 + 48);
        parse_non_resident_attribute_data nr_slice
      })"

fun as_chunks2 :: "bytes \<Rightarrow> u16 list" where
  "as_chunks2 (a # b # bs) = from_le_bytes [a, b] # as_chunks2 bs"
| "as_chunks2 _ = []"

definition attribute_name :: "attribute_ref \<Rightarrow> u16 list option" where
  "attribute_name a =
     (if arh_name_length (ar_header a) = 0 then None
      else do {
        name_bytes \<leftarrow> slice_get (ar_data a) (unat (arh_name_offset (ar_header a)))
          (unat (arh_name_offset (ar_header a)) + unat (arh_name_length (ar_header a)) * 2);
        Some (as_chunks2 name_bytes)
      })"

section \<open>Fixups\<close>

text \<open>Indexing and index assignment of a slice: a panic out of range.\<close>

definition u16_index :: "bytes \<Rightarrow> nat \<Rightarrow> u16 rust" where
  "u16_index d i = do { a \<leftarrow> vec_get d i; b \<leftarrow> vec_get d (i + 1); Some (from_le_bytes [a, b]) }"

definition set_index :: "bytes \<Rightarrow> nat \<Rightarrow> u8 \<Rightarrow> bytes rust" where
  "set_index d i b = (if i < length d then Some (d[i := b]) else None)"

text \<open>The loop of \<open>apply_fixup\<close>, over the remaining sector numbers of \<open>1..usa_count\<close>.\<close>

fun fixup_sectors :: "u16 \<Rightarrow> nat \<Rightarrow> nat list \<Rightarrow> bytes \<Rightarrow> (bool \<times> bytes) rust" where
  "fixup_sectors check_value off [] d = Some (True, d)"
| "fixup_sectors check_value off (idx # idxs) d =
     (let sector_end = idx * SECTOR_SIZE - 2; entry = off + idx * 2 in
      if sector_end + 2 > length d then Some (True, d)
      else do {
        current \<leftarrow> u16_index d sector_end;
        if current \<noteq> check_value then Some (False, d)
        else do {
          e0 \<leftarrow> vec_get d entry;
          d1 \<leftarrow> set_index d sector_end e0;
          e1 \<leftarrow> vec_get d1 (entry + 1);
          d2 \<leftarrow> set_index d1 (sector_end + 1) e1;
          fixup_sectors check_value off idxs d2
        }
      })"

text \<open>
  \<open>apply_fixup\<close>: the result flag and the buffer left behind. \<open>MultiSectorHeader::read_from_prefix\<close> reads
  the eight bytes of the header, which on the little-endian targets is \<open>parse_multi_sector_header\<close>.
\<close>

definition apply_fixup :: "bytes \<Rightarrow> (bool \<times> bytes) rust" where
  "apply_fixup data =
     (if length data < 8 then Some (False, data)
      else case parse_multi_sector_header data of
             None \<Rightarrow> Some (False, data)
           | Some h \<Rightarrow>
               if msh_magic h \<noteq> FILE_RECORD_MAGIC then Some (False, data)
               else (let off = unat (usa_offset h); cnt = unat (usa_count h) in
                     if cnt < 2 then Some (False, data)
                     else if off + cnt * 2 > length data then Some (False, data)
                     else do {
                       check_value \<leftarrow> u16_index data off;
                       fixup_sectors check_value off [1..<cnt] data
                     }))"

fun usa_sectors :: "u16 \<Rightarrow> nat \<Rightarrow> nat list \<Rightarrow> bool \<times> bytes \<Rightarrow> bool \<times> bytes" where
  "usa_sectors check_value off [] st = st"
| "usa_sectors check_value off (idx # idxs) (result, d) =
     (let sector_end = idx * SECTOR_SIZE - 2; entry = off + idx * 2 in
      case slice_get d entry (entry + 2) of
        None \<Rightarrow> (result, d)
      | Some replacement \<Rightarrow>
          (case slice_get d sector_end (sector_end + 2) of
             None \<Rightarrow> (result, d)
           | Some cur \<Rightarrow>
               usa_sectors check_value off idxs
                 (result \<and> from_le_bytes cur = check_value,
                  take sector_end d @ replacement @ drop (sector_end + 2) d)))"

definition apply_usa_fixup :: "bytes \<Rightarrow> u16 \<Rightarrow> u16 \<Rightarrow> bool \<times> bytes" where
  "apply_usa_fixup buffer off cnt =
     (if unat cnt < 1 then (False, buffer)
      else case slice_get buffer (unat off) (unat off + 2) of
             None \<Rightarrow> (False, buffer)
           | Some check_bytes \<Rightarrow>
               usa_sectors (from_le_bytes check_bytes) (unat off) [1..<unat cnt] (True, buffer))"

definition fixup_file_record :: "bytes \<Rightarrow> bool \<times> bytes" where
  "fixup_file_record buffer =
     (if length buffer < 8 then (False, buffer)
      else case parse_multi_sector_header buffer of
             None \<Rightarrow> (False, buffer)
           | Some h \<Rightarrow>
               if \<not> is_file_record h then (False, buffer)
               else apply_usa_fixup buffer (usa_offset h) (usa_count h))"

section \<open>Boot sector\<close>

record ntfs_boot_sector =
  oem_id :: bytes
  bytes_per_sector :: u16
  sectors_per_cluster :: u8
  mft_start_lcn :: int
  clusters_per_file_record :: int

definition boot_is_valid :: "ntfs_boot_sector \<Rightarrow> bool rust" where
  "boot_is_valid b = map_option (\<lambda>p. p = [0x4E, 0x54, 0x46, 0x53]) (slice_get (oem_id b) 0 4)"

definition u32_mul :: "nat \<Rightarrow> nat \<Rightarrow> nat rust" where
  "u32_mul a b = (if a * b \<le> u32_max then Some (a * b) else None)"

definition cluster_size :: "ntfs_boot_sector \<Rightarrow> nat rust" where
  "cluster_size b = u32_mul (unat (sectors_per_cluster b)) (unat (bytes_per_sector b))"

text \<open>\<open>clusters_per_file_record\<close> is an \<open>i8\<close>: \<open>wrapping_neg\<close> of -128 is -128, which does not convert.\<close>

definition file_record_size :: "ntfs_boot_sector \<Rightarrow> nat rust" where
  "file_record_size b =
     (if clusters_per_file_record b \<ge> 0 then do {
        cs \<leftarrow> cluster_size b;
        u32_mul (nat (clusters_per_file_record b)) cs
      }
      else (let shift = (if clusters_per_file_record b = -128 then 12
                         else nat (- clusters_per_file_record b))
            in if shift < 32 then Some (2 ^ shift) else None))"

definition nonneg_to_u64 :: "int \<Rightarrow> nat" where
  "nonneg_to_u64 v = (if v > 0 then nat v else 0)"

definition mft_byte_offset :: "ntfs_boot_sector \<Rightarrow> nat rust" where
  "mft_byte_offset b = do { cs \<leftarrow> cluster_size b; u64_mul (nonneg_to_u64 (mft_start_lcn b)) cs }"

section \<open>Lemmas on the fixups\<close>

lemma fixup_sectors_total:
  assumes "\<forall>i \<in> set idxs. 1 \<le> i \<and> off + i * 2 + 2 \<le> length d"
  shows "\<exists>ok d'. fixup_sectors chk off idxs d = Some (ok, d') \<and> length d' = length d"
  using assms
proof (induction idxs arbitrary: d)
  case (Cons i idxs)
  then have "\<exists>ok d'. fixup_sectors chk off idxs (d[j := x, k := y]) = Some (ok, d') \<and> length d' = length d" for j k x y
    using Cons.IH [of "d[j := x, k := y]"] by simp
  with Cons.prems show ?case by (simp add: u16_index_def set_index_def Let_def) blast
qed auto

lemma parse_msh_some: "8 \<le> length d \<Longrightarrow> parse_multi_sector_header d \<noteq> None"
  by (simp add: parse_multi_sector_header_def read_u32_le_at_def read_u16_le_at_def read_le_array_def
      slice_get_def)

lemma slice_get_two: "slice_get d i (i + 2) = (if i + 2 \<le> length d then Some [d ! i, d ! (i + 1)] else None)"
proof -
  have "take 2 (drop i d) = [d ! i, d ! (i + 1)]" if "i + 2 \<le> length d"
    using that by (simp add: take_Suc_conv_app_nth numeral_2_eq_2 nth_append add.commute [of i])
  then show ?thesis by (simp add: slice_get_def)
qed

lemma splice_two: "i + 2 \<le> length d \<Longrightarrow> take i d @ [a, b] @ drop (i + 2) d = d[i := a, i + 1 := b]"
  by (auto simp: list_eq_iff_nth_eq nth_append nth_list_update nth_Cons' min_def intro!: arg_cong [where f = "nth d"])

lemmas slice_get_two' [simp] = slice_get_two slice_get_two [simplified]

text \<open>
  With an even update-sequence offset no entry straddles the end of a sector, so the two loops read
  the same replacement bytes.
\<close>

lemma usa_sectors_agrees:
  assumes "fixup_sectors chk off idxs d = Some (True, d')" and "even off"
    and "\<forall>i \<in> set idxs. 1 \<le> i \<and> off + i * 2 + 2 \<le> length d"
  shows "usa_sectors chk off idxs (True, d) = (True, d')"
  using assms
proof (induction idxs arbitrary: d)
  case (Cons i idxs)
  let ?s = "i * 512 - 2" and ?e = "off + i * 2"
  have i: "1 \<le> i" "?e + 2 \<le> length d" using Cons.prems(3) by auto
  show ?case
  proof (cases "?s + 2 \<le> length d")
    case False
    with Cons.prems i show ?thesis by (simp add: SECTOR_SIZE_def Let_def)
  next
    case True
    let ?d = "d[?s := d ! ?e, ?s + 1 := d ! (?e + 1)]"
    have "?e + 1 \<noteq> ?s" using Cons.prems(2) i(1) by presburger
    with Cons.prems(1) True i have chk: "from_le_bytes [d ! ?s, d ! (?s + 1)] = chk"
      and rest: "fixup_sectors chk off idxs ?d = Some (True, d')"
      by (auto simp: SECTOR_SIZE_def Let_def u16_index_def set_index_def split: if_splits)
    have "usa_sectors chk off idxs (True, ?d) = (True, d')"
      using Cons.prems(2,3) by (intro Cons.IH [OF rest]) auto
    with True i chk splice_two [OF True, of "d ! ?e" "d ! (?e + 1)"] show ?thesis
      by (simp add: SECTOR_SIZE_def Let_def)
  qed
qed simp

lemma attribute_collect_tiles:
  "let as = attribute_collect it; n = (\<Sum>a\<leftarrow>as. length (ar_data a)) in
     concat (map ar_data as) = take n (drop (ai_offset it) (ai_data it))
     \<and> (as \<noteq> [] \<longrightarrow> ai_offset it + n \<le> ai_max_offset it \<and> ai_offset it + n \<le> length (ai_data it))
     \<and> (\<forall>a \<in> set as. 16 \<le> length (ar_data a) \<and> length (ar_data a) = unat (arh_length (ar_header a))
          \<and> parse_attribute_record_header (take 16 (ar_data a)) = Some (ar_header a))"
proof (induction it rule: attribute_collect.induct)
  case (1 it)
  show ?case
  proof (cases "attribute_next it")
    case None
    then show ?thesis by (simp add: attribute_collect.simps [of it])
  next
    case (Some p)
    then obtain a it' where p: "attribute_next it = Some (a, it')" by (cases p) simp
    note adv = attribute_next_advances [OF p]
    have a: "ar_data a = take (length (ar_data a)) (drop (ai_offset it) (ai_data it))"
      using adv(6,7) by (auto simp: slice_get_def split: if_splits)
    have c: "attribute_collect it = a # attribute_collect it'"
      using p by (simp add: attribute_collect.simps [of it])
    note ih = "1.IH" [OF p refl, unfolded Let_def adv(3,4,6)]
    have "concat (map ar_data (attribute_collect it)) = ar_data a @
        take (\<Sum>a\<leftarrow>attribute_collect it'. length (ar_data a)) (drop (length (ar_data a)) (drop (ai_offset it) (ai_data it)))"
      using ih by (simp add: c add.commute)
    also have "\<dots> = take (\<Sum>a\<leftarrow>attribute_collect it. length (ar_data a)) (drop (ai_offset it) (ai_data it))"
      using a by (metis c list.simps(9) sum_list.Cons take_add)
    finally have "concat (map ar_data (attribute_collect it)) =
        take (\<Sum>a\<leftarrow>attribute_collect it. length (ar_data a)) (drop (ai_offset it) (ai_data it))" .
    moreover have "ai_offset it + (\<Sum>a\<leftarrow>attribute_collect it. length (ar_data a)) \<le> ai_max_offset it
        \<and> ai_offset it + (\<Sum>a\<leftarrow>attribute_collect it. length (ar_data a)) \<le> length (ai_data it)"
      using ih adv by (cases "attribute_collect it' = []") (auto simp: c)
    moreover have "\<forall>a \<in> set (attribute_collect it). 16 \<le> length (ar_data a)
        \<and> length (ar_data a) = unat (arh_length (ar_header a))
        \<and> parse_attribute_record_header (take 16 (ar_data a)) = Some (ar_header a)"
      using ih adv(1,6,8,9) by (auto simp: c)
    ultimately show ?thesis unfolding Let_def by blast
  qed
qed

section \<open>Properties\<close>

text \<open>
  C37. Walking the attributes of any record, corrupt or not, ends, and the attributes found are
  consecutive slices from the first-attribute offset that stay inside both the buffer and the bytes in
  use; each is at least a header long, as long as its header says, and carries that header.
\<close>

theorem attributes_tile_record:
  assumes "attribute_iterator_new rec = Some it" and "attribute_collect it = as"
    and "n = (\<Sum>a\<leftarrow>as. length (ar_data a))"
  shows "concat (map ar_data as) = take n (drop (ai_offset it) rec)
    \<and> (as \<noteq> [] \<longrightarrow> ai_offset it + n \<le> ai_max_offset it \<and> ai_max_offset it \<le> length rec)
    \<and> (\<forall>a \<in> set as. 16 \<le> length (ar_data a) \<and> length (ar_data a) = unat (arh_length (ar_header a))
         \<and> parse_attribute_record_header (take 16 (ar_data a)) = Some (ar_header a))"
proof -
  from assms(1) have "ai_data it = rec" "ai_max_offset it \<le> length rec"
    by (auto simp: attribute_iterator_new_def Let_def split: bind_splits if_splits)
  with attribute_collect_tiles [of it] assms(2,3) show ?thesis by (auto simp: Let_def)
qed

text \<open>
  \<open>apply_fixup\<close> never panics on any buffer and never changes its length.
\<close>

theorem apply_fixup_total:
  "\<exists>ok data'. apply_fixup data = Some (ok, data') \<and> length data' = length data"
proof -
  have "\<exists>ok d'. fixup_sectors chk off [1..<cnt] data = Some (ok, d') \<and> length d' = length data"
    if "off + cnt * 2 \<le> length data" for chk off cnt
    using that by (intro fixup_sectors_total) auto
  then show ?thesis by (auto simp: apply_fixup_def Let_def u16_index_def split: option.split)
qed

text \<open>
  The two fixup routines agree: on a record with an even update-sequence offset (as NTFS writes
  it), whatever \<open>apply_fixup\<close> accepts, \<open>fixup_file_record\<close> accepts with the same repaired buffer.
\<close>

theorem fixups_agree:
  assumes "apply_fixup data = Some (True, data')"
    and "parse_multi_sector_header data = Some h" and "even (unat (usa_offset h))"
  shows "fixup_file_record data = (True, data')"
proof -
  let ?off = "unat (usa_offset h)" and ?cnt = "unat (usa_count h)"
  from assms(1,2) have len: "8 \<le> length data" and magic: "is_file_record h" and cnt: "2 \<le> ?cnt"
    and fit: "?off + ?cnt * 2 \<le> length data"
    by (auto simp: apply_fixup_def Let_def is_file_record_def split: if_splits)
  from cnt fit have two: "slice_get data ?off (?off + 2) = Some [data ! ?off, data ! (?off + 1)]" by simp
  from assms(1,2) len magic cnt fit
  have "fixup_sectors (from_le_bytes [data ! ?off, data ! (?off + 1)]) ?off [1..<?cnt] data = Some (True, data')"
    by (auto simp: apply_fixup_def Let_def is_file_record_def u16_index_def split: if_splits)
  then have "usa_sectors (from_le_bytes [data ! ?off, data ! (?off + 1)]) ?off [1..<?cnt] (True, data) = (True, data')"
    using assms(3) fit by (intro usa_sectors_agrees) auto
  with assms(2) len magic cnt two show ?thesis by (simp add: fixup_file_record_def apply_usa_fixup_def)
qed

text \<open>
  The record size of a boot sector is a power of two below \<open>2^32\<close> or a whole number of clusters,
  and the computation panics exactly for an encoded exponent from 32 to 127.
\<close>

theorem file_record_size_panics_iff:
  assumes "-128 \<le> clusters_per_file_record b" and "clusters_per_file_record b \<le> 127"
  shows "file_record_size b = None \<longleftrightarrow>
    -127 \<le> clusters_per_file_record b \<and> clusters_per_file_record b \<le> -32"
proof (cases "0 \<le> clusters_per_file_record b")
  case True
  have s: "unat (sectors_per_cluster b) \<le> 255" and w: "unat (bytes_per_sector b) \<le> 65535"
    using unat_le_bound [of "sectors_per_cluster b"] unat_le_bound [of "bytes_per_sector b"] by simp_all
  have c: "nat (clusters_per_file_record b) \<le> 127" using assms(2) by simp
  have "unat (sectors_per_cluster b) * unat (bytes_per_sector b) \<le> 255 * 65535"
    by (rule mult_le_mono [OF s w])
  moreover from mult_le_mono [OF c this]
  have "nat (clusters_per_file_record b) * (unat (sectors_per_cluster b) * unat (bytes_per_sector b)) \<le> u32_max"
    by (simp add: u32_max_def)
  ultimately show ?thesis
    using True by (simp add: file_record_size_def cluster_size_def u32_mul_def u32_max_def)
next
  case False
  with assms show ?thesis by (auto simp: file_record_size_def Let_def)
qed

section \<open>Witnesses\<close>

definition demo_boot :: ntfs_boot_sector where
  "demo_boot = \<lparr>oem_id = [0x4E, 0x54, 0x46, 0x53, 0x20, 0x20, 0x20, 0x20], bytes_per_sector = 512,
     sectors_per_cluster = 8, mft_start_lcn = 786432, clusters_per_file_record = -10\<rparr>"

theorem file_record_size_panics_iff_witness:
  "file_record_size demo_boot = Some 1024 \<and> file_record_size (demo_boot\<lparr>clusters_per_file_record := -40\<rparr>) = None"
  using file_record_size_panics_iff [of "demo_boot\<lparr>clusters_per_file_record := -40\<rparr>"]
  by (simp add: demo_boot_def file_record_size_def)

definition demo_file_record :: bytes where
  "demo_file_record = [0x46, 0x49, 0x4C, 0x45, 8, 0, 2, 0, 0xAA, 0xBB, 0x11, 0x22] @ replicate 8 0
     @ [48, 0, 1, 0, 72, 0, 0, 0, 0, 2, 0, 0] @ replicate 16 0
     @ [0x80, 0, 0, 0, 16, 0, 0, 0, 0, 0, 0, 0, 0, 0, 1, 0] @ replicate 8 0xFF
     @ replicate 438 0 @ [0xAA, 0xBB]"

theorem fixups_agree_witness:
  "apply_fixup demo_file_record = Some (True, demo_file_record[510 := 0x11, 511 := 0x22])
   \<and> fixup_file_record demo_file_record = (True, demo_file_record[510 := 0x11, 511 := 0x22])"
proof -
  have h: "parse_multi_sector_header demo_file_record
      = Some \<lparr>msh_magic = FILE_RECORD_MAGIC, usa_offset = 8, usa_count = 2\<rparr>" by code_simp
  have a: "apply_fixup demo_file_record = Some (True, demo_file_record[510 := 0x11, 511 := 0x22])" by code_simp
  from fixups_agree [OF a h] a show ?thesis by simp
qed

theorem attributes_tile_record_witness:
  "map (length \<circ> ar_data) (attribute_collect \<lparr>ai_data = demo_file_record, ai_offset = 48, ai_max_offset = 72\<rparr>) = [16]
   \<and> concat (map ar_data (attribute_collect \<lparr>ai_data = demo_file_record, ai_offset = 48, ai_max_offset = 72\<rparr>))
     = take 16 (drop 48 demo_file_record)"
proof -
  have n: "attribute_iterator_new demo_file_record
      = Some \<lparr>ai_data = demo_file_record, ai_offset = 48, ai_max_offset = 72\<rparr>" by code_simp
  have l: "map (length \<circ> ar_data) (attribute_collect \<lparr>ai_data = demo_file_record, ai_offset = 48, ai_max_offset = 72\<rparr>) = [16]"
    by code_simp
  then have "(\<Sum>a\<leftarrow>attribute_collect \<lparr>ai_data = demo_file_record, ai_offset = 48, ai_max_offset = 72\<rparr>. length (ar_data a)) = 16"
    by (simp add: comp_def)
  with attributes_tile_record [OF n refl refl] l show ?thesis by simp
qed

end
