(* ===== verification/Data_Runs.thy ===== *)
theory Data_Runs
  imports Ntfs_Records
begin

text \<open>
  The mapping pairs of a non-resident attribute (\<open>crates/uffs-mft/src/ntfs/data_runs.rs\<close>): the run
  iterator, its variable-length integers and the extraction from an attribute. A shift by 64 or more
  and an \<open>i64\<close> overflow panic in the shipped profile; the model's outer \<open>None\<close> is that panic.
\<close>

section \<open>Definitions\<close>

text \<open>\<open>crates/uffs-mft/src/platform/lcn.rs\<close>: a logical cluster number is a signed 64-bit integer.\<close>

type_synonym lcn = int

definition lcn_is_zero :: "lcn \<Rightarrow> bool" where "lcn_is_zero l \<longleftrightarrow> l = 0"
definition lcn_is_hole :: "lcn \<Rightarrow> bool" where "lcn_is_hole l \<longleftrightarrow> l < 0"
definition raw_unsigned :: "lcn \<Rightarrow> nat" where "raw_unsigned l = nat (l mod 2 ^ 64)"

record data_run =
  dr_vcn :: int
  dr_cluster_count :: nat
  dr_lcn :: lcn

definition is_sparse :: "data_run \<Rightarrow> bool" where
  "is_sparse r = lcn_is_zero (dr_lcn r)"

definition run_byte_offset :: "data_run \<Rightarrow> nat \<Rightarrow> nat rust" where
  "run_byte_offset r bytes_per_cluster =
     (if lcn_is_hole (dr_lcn r) then Some 0 else u64_mul (raw_unsigned (dr_lcn r)) bytes_per_cluster)"

definition run_byte_size :: "data_run \<Rightarrow> nat \<Rightarrow> nat rust" where
  "run_byte_size r bytes_per_cluster = u64_mul (dr_cluster_count r) bytes_per_cluster"

text \<open>\<open>value |= byte << (i * 8)\<close>, byte by byte; a shift count of 64 or more panics.\<close>

fun or_shifted :: "nat \<Rightarrow> u64 \<Rightarrow> bytes \<Rightarrow> u64 rust" where
  "or_shifted i v [] = Some v"
| "or_shifted i v (b # bs) =
     (if i * 8 < 64 then or_shifted (Suc i) (v OR push_bit (i * 8) (ucast b)) bs else None)"

definition parse_variable_length_unsigned :: "bytes \<Rightarrow> nat rust" where
  "parse_variable_length_unsigned data = map_option unat (or_shifted 0 0 data)"

definition parse_variable_length_signed :: "bytes \<Rightarrow> int rust" where
  "parse_variable_length_signed data =
     (if data = [] then Some 0
      else do {
        v \<leftarrow> or_shifted 0 0 data;
        let shift = length data * 8;
        Some (sint (if last data AND 0x80 \<noteq> 0 \<and> shift < 64 then v OR push_bit shift (- 1) else v))
      })"

record data_run_iter =
  it_data :: bytes
  it_offset :: nat
  it_current_vcn :: int
  it_current_lcn :: int

definition parse_data_runs_iter :: "bytes \<Rightarrow> int \<Rightarrow> data_run_iter" where
  "parse_data_runs_iter data lowest =
     \<lparr>it_data = data, it_offset = 0, it_current_vcn = lowest, it_current_lcn = 0\<rparr>"

definition run_stop :: "data_run_iter \<Rightarrow> (data_run option \<times> data_run_iter) rust" where
  "run_stop it = Some (None, it\<lparr>it_offset := length (it_data it)\<rparr>)"

definition data_run_next :: "data_run_iter \<Rightarrow> (data_run option \<times> data_run_iter) rust" where
  "data_run_next it =
     (case vec_get (it_data it) (it_offset it) of
        None \<Rightarrow> Some (None, it)
      | Some header \<Rightarrow>
          if header = 0 then run_stop it
          else (let length_size = unat (header AND 0x0F);
                    offset_size = unat (drop_bit 4 header AND 0x0F);
                    off = it_offset it + 1
                in case slice_get (it_data it) off (off + length_size) of
                     None \<Rightarrow> run_stop it
                   | Some length_bytes \<Rightarrow> do {
                       run_length \<leftarrow> parse_variable_length_unsigned length_bytes;
                       let off1 = off + length_size;
                       (if offset_size > 0 \<and> slice_get (it_data it) off1 (off1 + offset_size) = None
                        then run_stop it
                        else do {
                          lcn_delta \<leftarrow> (if offset_size > 0
                             then parse_variable_length_signed (the (slice_get (it_data it) off1 (off1 + offset_size)))
                             else Some 0);
                          cur_lcn \<leftarrow> i64_add (it_current_lcn it) lcn_delta;
                          cur_vcn \<leftarrow> (if int run_length \<le> i64_max
                             then i64_add (it_current_vcn it) (int run_length) else Some (it_current_vcn it));
                          Some (Some \<lparr>dr_vcn = it_current_vcn it, dr_cluster_count = run_length,
                                  dr_lcn = (if offset_size > 0 then cur_lcn else 0)\<rparr>,
                                it\<lparr>it_offset := off1 + offset_size, it_current_vcn := cur_vcn,
                                   it_current_lcn := cur_lcn\<rparr>)
                        })
                     }))"

lemma data_run_next_advances:
  assumes "data_run_next it = Some (Some run, it')"
  shows "it_offset it < it_offset it'" and "it_offset it < length (it_data it)"
    and "it_data it' = it_data it"
  using assms
  by (auto simp: data_run_next_def run_stop_def Let_def split: option.splits if_splits bind_splits)

text \<open>\<open>Iterator::collect\<close> over the runs.\<close>

function collect_runs :: "data_run_iter \<Rightarrow> data_run list rust" where
  "collect_runs it =
     (case data_run_next it of
        None \<Rightarrow> None
      | Some (None, _) \<Rightarrow> Some []
      | Some (Some run, it') \<Rightarrow> map_option (Cons run) (collect_runs it'))"
  by pat_completeness auto
termination
proof (relation "measure (\<lambda>it. length (it_data it) - it_offset it)")
  fix it x ro it' run
  assume "data_run_next it = Some x" "(ro, it') = x" "ro = Some run"
  then have "data_run_next it = Some (Some run, it')" by simp
  from data_run_next_advances [OF this]
  show "(it', it) \<in> measure (\<lambda>it. length (it_data it) - it_offset it)" by simp
qed simp

declare collect_runs.simps [simp del]

definition parse_data_runs :: "bytes \<Rightarrow> int \<Rightarrow> data_run list rust" where
  "parse_data_runs data lowest = collect_runs (parse_data_runs_iter data lowest)"

definition data_runs_iter_from_attribute :: "bytes \<Rightarrow> data_run_iter" where
  "data_runs_iter_from_attribute attr_data =
     (let empty_it = parse_data_runs_iter [] 0 in
      case slice_get attr_data 0 16 of
        None \<Rightarrow> empty_it
      | Some header_slice \<Rightarrow>
          (case parse_attribute_record_header header_slice of
             None \<Rightarrow> empty_it
           | Some header \<Rightarrow>
               if arh_is_non_resident header = 0 then empty_it
               else (case slice_get attr_data 16 (16 + 48) of
                       None \<Rightarrow> empty_it
                     | Some nr_slice \<Rightarrow>
                         (case parse_non_resident_attribute_data nr_slice of
                            None \<Rightarrow> empty_it
                          | Some nr \<Rightarrow>
                              (case slice_get attr_data (unat (mapping_pairs_offset nr)) (length attr_data) of
                                 None \<Rightarrow> empty_it
                               | Some mp \<Rightarrow> parse_data_runs_iter mp (lowest_vcn nr))))))"

definition extract_data_runs_from_attribute :: "bytes \<Rightarrow> data_run list rust" where
  "extract_data_runs_from_attribute attr_data = collect_runs (data_runs_iter_from_attribute attr_data)"

section \<open>Variable-length integers\<close>

lemma or_shifted_le:
  "i + length bs \<le> 8 \<Longrightarrow> or_shifted i v bs = Some (v OR push_bit (i * 8) (from_le_bytes bs))"
proof (induction bs arbitrary: i v)
  case (Cons b bs)
  then have "or_shifted i v (b # bs) =
      Some ((v OR push_bit (i * 8) (ucast b)) OR push_bit (Suc i * 8) (from_le_bytes bs))" by simp
  moreover have "(v OR push_bit (i * 8) (ucast b)) OR push_bit (Suc i * 8) (from_le_bytes bs)
      = v OR push_bit (i * 8) (from_le_bytes (b # bs))"
    by (rule bit_word_eqI) (auto simp: push_bit_push_bit bit_or_iff add.commute)
  ultimately show ?case by simp
qed simp

lemma or_shifted_too_long: "8 < i + length bs \<Longrightarrow> i \<le> 8 \<Longrightarrow> or_shifted i v bs = None"
proof (induction bs arbitrary: i v)
  case (Cons b bs)
  then show ?case by (cases "i = 8") auto
qed simp

lemma or_shifted_from_le:
  "or_shifted 0 0 bs = (if length bs \<le> 8 then Some (from_le_bytes bs) else None)"
  by (simp add: or_shifted_le or_shifted_too_long)

lemma from_to_le_bytes_take:
  assumes "8 * n \<le> 64"
  shows "from_le_bytes (to_le_bytes n w) = take_bit (8 * n) (w :: u64)"
proof (rule bit_word_eqI)
  fix k assume "k < LENGTH(64)"
  then show "bit (from_le_bytes (to_le_bytes n w) :: u64) k = bit (take_bit (8 * n) w) k"
    by (auto simp: bit_from_le_bytes to_le_bytes_def bit_ucast_iff bit_drop_bit_eq bit_take_bit_iff
        div_less_iff_less_mult mult.commute)
qed

lemma parse_unsigned_encoded:
  assumes "n \<le> 8" and "count < 2 ^ (8 * n)"
  shows "parse_variable_length_unsigned (to_le_bytes n (of_nat count :: u64)) = Some count"
proof -
  have "(2::nat) ^ (8 * n) \<le> 2 ^ 64" using assms(1) by (intro power_increasing) auto
  with assms have "unat (take_bit (8 * n) (of_nat count :: u64)) = count"
    by (simp add: unsigned_take_bit_eq unat_of_nat take_bit_nat_eq_self)
  with assms(1) show ?thesis
    by (simp add: parse_variable_length_unsigned_def or_shifted_from_le from_to_le_bytes_take)
qed

lemma parse_signed_encoded:
  assumes n: "1 \<le> n" "n \<le> 8" and d: "- (2 ^ (8 * n - 1)) \<le> delta" "delta < 2 ^ (8 * n - 1)"
  shows "parse_variable_length_signed (to_le_bytes n (of_int delta :: u64)) = Some delta"
proof -
  let ?w = "of_int delta :: u64" and ?m = "8 * n - 1"
  have sign: "bit delta k = bit delta ?m" if "?m \<le> k" for k
  proof -
    have "bit delta k = bit (signed_take_bit ?m delta) k" unfolding signed_take_bit_int_eq_self [OF d] ..
    then show ?thesis using that by (simp only: bit_signed_take_bit_iff min.absorb1)  simp
  qed
  have last: "last (to_le_bytes n ?w) AND 0x80 \<noteq> 0 \<longleftrightarrow> bit delta ?m"
  proof -
    have "last (to_le_bytes n ?w) = ucast (drop_bit (8 * (n - 1)) ?w)"
      using n(1) by (simp add: to_le_bytes_def last_map)
    moreover have "8 * (n - 1) + 7 = ?m" using n(1) by simp
    moreover have "?m < 64" using n by simp
    ultimately have "bit (last (to_le_bytes n ?w)) 7 \<longleftrightarrow> bit delta ?m"
      by (simp add: bit_ucast_iff bit_drop_bit_eq bit_word_of_int_iff)
    then show ?thesis using and_exp_eq_0_iff_not_bit [of "last (to_le_bytes n ?w)" 7] by simp
  qed
  have "(if bit delta ?m \<and> n * 8 < 64 then take_bit (8 * n) ?w OR push_bit (n * 8) (- 1) else take_bit (8 * n) ?w) = ?w"
    (is "?lhs = _")
  proof (rule bit_word_eqI)
    fix k assume k: "k < LENGTH(64)"
    show "bit ?lhs k = bit ?w k"
    proof (cases "k < 8 * n")
      case True
      then show ?thesis by (auto simp: bit_or_iff bit_take_bit_iff bit_not_iff bit_mask_iff)
    next
      case False
      with sign [of k] k show ?thesis
        by (auto simp: bit_or_iff bit_take_bit_iff bit_not_iff bit_mask_iff bit_word_of_int_iff)
    qed
  qed
  moreover have "to_le_bytes n ?w \<noteq> []" using n by (auto simp: to_le_bytes_def)
  moreover have "sint ?w = delta"
  proof -
    have "(2::int) ^ ?m \<le> 2 ^ 63" using n by (intro power_increasing) auto
    with d show ?thesis by (simp add: signed_of_int signed_take_bit_int_eq_self)
  qed
  ultimately show ?thesis
    using n last by (simp add: parse_variable_length_signed_def or_shifted_from_le from_to_le_bytes_take Let_def)
qed

section \<open>What a run list means\<close>

text \<open>
  The on-disk encoding of one run, as NTFS documents it: a header byte with the two field sizes, the
  cluster count in \<open>enc_length_size\<close> bytes and the signed distance from the previous run's first cluster
  in \<open>enc_offset_size\<close> bytes, none for a sparse run.
\<close>

record run_encoding =
  enc_length_size :: nat
  enc_count :: nat
  enc_offset_size :: nat
  enc_delta :: int

definition run_encoding_ok :: "run_encoding \<Rightarrow> bool" where
  "run_encoding_ok e \<longleftrightarrow> 1 \<le> enc_length_size e \<and> enc_length_size e \<le> 8
     \<and> enc_count e < 2 ^ (8 * enc_length_size e) \<and> int (enc_count e) \<le> i64_max
     \<and> enc_offset_size e \<le> 8 \<and> (enc_offset_size e = 0 \<longrightarrow> enc_delta e = 0)
     \<and> (enc_offset_size e > 0 \<longrightarrow> - (2 ^ (8 * enc_offset_size e - 1)) \<le> enc_delta e
          \<and> enc_delta e < 2 ^ (8 * enc_offset_size e - 1))"

definition encode_run :: "run_encoding \<Rightarrow> bytes" where
  "encode_run e = of_nat (enc_length_size e + 16 * enc_offset_size e)
     # to_le_bytes (enc_length_size e) (of_nat (enc_count e) :: u64)
     @ to_le_bytes (enc_offset_size e) (of_int (enc_delta e) :: u64)"

text \<open>Where the runs lie: counts accumulate into the virtual, distances into the logical cluster.\<close>

fun laid_out :: "int \<Rightarrow> int \<Rightarrow> run_encoding list \<Rightarrow> data_run list" where
  "laid_out vcn lc [] = []"
| "laid_out vcn lc (e # es) =
     \<lparr>dr_vcn = vcn, dr_cluster_count = enc_count e,
       dr_lcn = (if enc_offset_size e > 0 then lc + enc_delta e else 0)\<rparr>
     # laid_out (vcn + int (enc_count e)) (lc + enc_delta e) es"

fun positions_fit :: "int \<Rightarrow> int \<Rightarrow> run_encoding list \<Rightarrow> bool" where
  "positions_fit vcn lc [] = True"
| "positions_fit vcn lc (e # es) =
     (i64_check (vcn + int (enc_count e)) \<noteq> None \<and> i64_check (lc + enc_delta e) \<noteq> None
      \<and> positions_fit (vcn + int (enc_count e)) (lc + enc_delta e) es)"

lemma header_nibbles:
  assumes "ls < 16" and "os < 16"
  shows "unat ((of_nat (ls + 16 * os) :: u8) AND 0x0F) = ls"
    and "unat (drop_bit 4 (of_nat (ls + 16 * os) :: u8) AND 0x0F) = os"
proof -
  let ?h = "of_nat (ls + 16 * os) :: u8"
  have "unat (of_nat x :: u8) = x" if "x < 256" for x
    using that by (simp add: unat_of_nat take_bit_nat_eq_self)
  moreover have "ls + 16 * os < 256" using assms by simp
  ultimately have h: "unat ?h = ls + 16 * os" by blast
  have m: "w AND 0x0F = take_bit 4 w" for w :: u8 by (simp add: take_bit_eq_mask mask_eq_exp_minus_1)
  show "unat (?h AND 0x0F) = ls"
    unfolding m unsigned_take_bit_eq h using assms by (simp add: take_bit_nat_def)
  show "unat (drop_bit 4 ?h AND 0x0F) = os"
    unfolding m unsigned_take_bit_eq unsigned_drop_bit_eq h using assms by (simp add: take_bit_nat_def drop_bit_nat_def)
qed

lemma header_nonzero: "1 \<le> ls \<Longrightarrow> ls < 16 \<Longrightarrow> os < 16 \<Longrightarrow> (of_nat (ls + 16 * os) :: u8) \<noteq> 0"
  using header_nibbles(1) [of ls os] by auto

lemma slice_get_mid:
  "i = length pre \<Longrightarrow> j = i + length ys \<Longrightarrow> slice_get (pre @ ys @ post) i j = Some ys"
  using slice_get_append by simp

lemma data_run_next_encoded:
  assumes e: "run_encoding_ok e"
    and it: "it_data it = pre @ encode_run e @ post" "it_offset it = length pre"
    and v: "i64_check (it_current_vcn it + int (enc_count e)) = Some v"
    and l: "i64_check (it_current_lcn it + enc_delta e) = Some l"
  shows "data_run_next it = Some (Some \<lparr>dr_vcn = it_current_vcn it, dr_cluster_count = enc_count e,
       dr_lcn = (if enc_offset_size e > 0 then l else 0)\<rparr>,
     it\<lparr>it_offset := length (pre @ encode_run e), it_current_vcn := v, it_current_lcn := l\<rparr>)"
proof -
  let ?ls = "enc_length_size e" and ?os = "enc_offset_size e"
  let ?lb = "to_le_bytes ?ls (of_nat (enc_count e) :: u64)" and ?ob = "to_le_bytes ?os (of_int (enc_delta e) :: u64)"
  have b: "1 \<le> ?ls" "?ls \<le> 8" "?ls < 16" "?os < 16" "?os \<le> 8" "enc_count e < 2 ^ (8 * ?ls)" "int (enc_count e) \<le> i64_max"
    using e by (auto simp: run_encoding_ok_def)
  have hd: "vec_get (it_data it) (it_offset it) = Some (of_nat (?ls + 16 * ?os))"
    unfolding it encode_run_def by (simp add: nth_append)
  note nib = header_nibbles [OF b(3,4)] header_nonzero [OF b(1,3,4)]
  have s1: "slice_get (it_data it) (it_offset it + 1) (it_offset it + 1 + ?ls) = Some ?lb"
    using slice_get_mid [of _ "pre @ [of_nat (?ls + 16 * ?os)]" _ ?lb "?ob @ post"] unfolding it encode_run_def by simp
  have s2: "slice_get (it_data it) (it_offset it + 1 + ?ls) (it_offset it + 1 + ?ls + ?os) = Some ?ob"
    using slice_get_mid [of _ "pre @ of_nat (?ls + 16 * ?os) # ?lb" _ ?ob post] unfolding it encode_run_def by simp
  have p1: "parse_variable_length_unsigned ?lb = Some (enc_count e)"
    using b by (intro parse_unsigned_encoded)
  have p2: "(if ?os > 0 then parse_variable_length_signed ?ob else Some 0) = Some (enc_delta e)"
    using e by (auto simp: run_encoding_ok_def intro!: parse_signed_encoded)
  have "length (pre @ encode_run e) = it_offset it + 1 + ?ls + ?os" by (simp add: it(2) encode_run_def)
  note end_at = this
  have delta: "enc_delta e = 0" if "?os = 0" using e that by (simp add: run_encoding_ok_def)
  show ?thesis
  proof (cases "?os = 0")
    case True
    with nib(3) p1 b(7) v l delta end_at show ?thesis
      unfolding data_run_next_def hd option.case nib Let_def s1 by (simp add: i64_add_def)
  next
    case False
    with nib(3) p1 p2 b(7) v l end_at show ?thesis
      unfolding data_run_next_def hd option.case nib Let_def s1 s2 by (simp add: i64_add_def)
  qed
qed

lemma collect_runs_encoded:
  assumes "\<forall>e \<in> set es. run_encoding_ok e"
    and "it_data it = pre @ concat (map encode_run es) @ 0 # post" and "it_offset it = length pre"
    and "positions_fit (it_current_vcn it) (it_current_lcn it) es"
  shows "collect_runs it = Some (laid_out (it_current_vcn it) (it_current_lcn it) es)"
  using assms
proof (induction es arbitrary: it pre)
  case Nil
  then show ?case
    by (simp add: collect_runs.simps [of it] data_run_next_def run_stop_def nth_append vec_get_def)
next
  case (Cons e es)
  let ?v = "it_current_vcn it + int (enc_count e)" and ?l = "it_current_lcn it + enc_delta e"
  let ?it = "it\<lparr>it_offset := length (pre @ encode_run e), it_current_vcn := ?v, it_current_lcn := ?l\<rparr>"
  have vl: "i64_check ?v = Some ?v" "i64_check ?l = Some ?l"
    using Cons.prems(4) by (auto simp: i64_check_def split: if_splits)
  have "data_run_next it = Some (Some \<lparr>dr_vcn = it_current_vcn it, dr_cluster_count = enc_count e,
       dr_lcn = (if enc_offset_size e > 0 then ?l else 0)\<rparr>, ?it)"
    using Cons.prems vl by (intro data_run_next_encoded) auto
  moreover have "collect_runs ?it = Some (laid_out ?v ?l es)"
    using Cons.prems Cons.IH [of ?it "pre @ encode_run e"] by simp
  ultimately show ?case by (simp add: collect_runs.simps [of it])
qed

section \<open>Properties\<close>

text \<open>
  C38. Decoding the mapping pairs of any well-formed run list gives exactly the runs it describes: the
  counts, the virtual clusters that accumulate from the attribute's lowest one, the absolute logical
  clusters from the signed distances, and cluster 0 for a sparse run; decoding stops at the terminator.
\<close>

theorem data_runs_roundtrip:
  assumes "\<forall>e \<in> set es. run_encoding_ok e" and "positions_fit lowest 0 es"
  shows "parse_data_runs (concat (map encode_run es) @ 0 # post) lowest = Some (laid_out lowest 0 es)"
  using assms collect_runs_encoded [of es "parse_data_runs_iter (concat (map encode_run es) @ 0 # post) lowest" "[]" post]
  by (simp add: parse_data_runs_def parse_data_runs_iter_def)

theorem data_runs_roundtrip_witness:
  "parse_data_runs (concat (map encode_run
      [\<lparr>enc_length_size = 1, enc_count = 24, enc_offset_size = 2, enc_delta = 22068\<rparr>,
       \<lparr>enc_length_size = 1, enc_count = 5, enc_offset_size = 0, enc_delta = 0\<rparr>,
       \<lparr>enc_length_size = 2, enc_count = 300, enc_offset_size = 1, enc_delta = -7\<rparr>]) @ [0]) 0
   = Some [\<lparr>dr_vcn = 0, dr_cluster_count = 24, dr_lcn = 22068\<rparr>,
           \<lparr>dr_vcn = 24, dr_cluster_count = 5, dr_lcn = 0\<rparr>,
           \<lparr>dr_vcn = 29, dr_cluster_count = 300, dr_lcn = 22061\<rparr>]"
  by (subst data_runs_roundtrip) (simp_all add: run_encoding_ok_def i64_check_def i64_min_def i64_max_def)

text \<open>
  A run header whose length nibble is 9 to 15 with that many bytes behind it makes the decoder
  panic (a shift by 64), whatever follows; the size comes straight from the disk.
\<close>

theorem wide_run_length_panics:
  assumes "8 < unat (header AND 0x0F)" and "unat (header AND 0x0F) \<le> length body"
  shows "parse_data_runs (header # body) lowest = None"
proof -
  have "header \<noteq> 0" using assms(1) by auto
  with assms show ?thesis
    by (simp add: parse_data_runs_def collect_runs.simps parse_data_runs_iter_def data_run_next_def Let_def
        slice_get_def parse_variable_length_unsigned_def or_shifted_from_le)
qed

theorem wide_run_length_panics_witness: "parse_data_runs (0x19 # replicate 12 0) 0 = None"
  by (rule wide_run_length_panics) simp_all

end
