(* ===== verification/Extent_Map.thy ===== *)
theory Extent_Map
  imports Data_Runs
begin

text \<open>
  The extents of the master file table (\<open>crates/uffs-mft/src/platform/extents.rs\<close>) and the map from
  record numbers to volume offsets and planned reads (\<open>crates/uffs-mft/src/io/extent_map.rs\<close>). All
  arithmetic is checked 64-bit arithmetic; the outer \<open>None\<close> is an overflow panic or a division by zero.
\<close>

section \<open>Definitions\<close>

record mft_extent =
  ext_vcn :: nat
  ext_cluster_count :: nat
  ext_lcn :: lcn

definition extent_byte_offset :: "mft_extent \<Rightarrow> nat \<Rightarrow> nat rust" where
  "extent_byte_offset e bytes_per_cluster =
     (if lcn_is_hole (ext_lcn e) then Some 0 else u64_mul (raw_unsigned (ext_lcn e)) bytes_per_cluster)"

definition extent_byte_size :: "mft_extent \<Rightarrow> nat \<Rightarrow> nat rust" where
  "extent_byte_size e bytes_per_cluster = u64_mul (ext_cluster_count e) bytes_per_cluster"

record mft_extent_map =
  em_extents :: "mft_extent list"
  em_bytes_per_cluster :: nat
  em_bytes_per_record :: nat

fun u64_sum :: "nat \<Rightarrow> nat list \<Rightarrow> nat rust" where
  "u64_sum acc [] = Some acc"
| "u64_sum acc (x # xs) = do { acc' \<leftarrow> u64_add acc x; u64_sum acc' xs }"

definition extent_map_new :: "mft_extent list \<Rightarrow> nat \<Rightarrow> nat \<Rightarrow> mft_extent_map rust" where
  "extent_map_new es bytes_per_cluster bytes_per_record = do {
     total_clusters \<leftarrow> u64_sum 0 (map ext_cluster_count es);
     records_per_cluster \<leftarrow> u64_div bytes_per_cluster bytes_per_record;
     _ \<leftarrow> u64_mul total_clusters records_per_cluster;
     _ \<leftarrow> u64_mul total_clusters bytes_per_cluster;
     Some \<lparr>em_extents = es, em_bytes_per_cluster = bytes_per_cluster, em_bytes_per_record = bytes_per_record\<rparr>
   }"

definition extent_map_contiguous :: "nat \<Rightarrow> nat \<Rightarrow> nat \<Rightarrow> nat \<Rightarrow> mft_extent_map rust" where
  "extent_map_contiguous start_lcn mft_size_bytes bytes_per_cluster bytes_per_record = do {
     cluster_count \<leftarrow> div_ceil mft_size_bytes bytes_per_cluster;
     _ \<leftarrow> u64_div mft_size_bytes bytes_per_record;
     Some \<lparr>em_extents = [\<lparr>ext_vcn = 0, ext_cluster_count = cluster_count, ext_lcn = cast_signed start_lcn\<rparr>],
       em_bytes_per_cluster = bytes_per_cluster, em_bytes_per_record = bytes_per_record\<rparr>
   }"

definition extent_cmp :: "nat \<Rightarrow> mft_extent \<Rightarrow> ordering rust" where
  "extent_cmp vcn e =
     (if vcn < ext_vcn e then Some Greater
      else do {
        past \<leftarrow> u64_add (ext_vcn e) (ext_cluster_count e);
        Some (if vcn \<ge> past then Less else Equal)
      })"

definition find_extent :: "mft_extent_map \<Rightarrow> nat \<Rightarrow> mft_extent option rust" where
  "find_extent m vcn = do {
     r \<leftarrow> binary_search_by (extent_cmp vcn) (em_extents m);
     Some (case r of Inl _ \<Rightarrow> None | Inr idx \<Rightarrow> vec_get (em_extents m) idx)
   }"

definition physical_offset :: "mft_extent_map \<Rightarrow> nat \<Rightarrow> nat option rust" where
  "physical_offset m frs = do {
     virtual_byte_offset \<leftarrow> u64_mul frs (em_bytes_per_record m);
     vcn \<leftarrow> u64_div virtual_byte_offset (em_bytes_per_cluster m);
     found \<leftarrow> find_extent m vcn;
     (case found of
        None \<Rightarrow> Some None
      | Some e \<Rightarrow>
          if lcn_is_hole (ext_lcn e) then Some None
          else do {
            vcn_offset \<leftarrow> u64_sub vcn (ext_vcn e);
            cluster_byte_offset \<leftarrow> u64_mul vcn_offset (em_bytes_per_cluster m);
            offset_in_cluster \<leftarrow> u64_rem virtual_byte_offset (em_bytes_per_cluster m);
            start \<leftarrow> u64_mul (raw_unsigned (ext_lcn e)) (em_bytes_per_cluster m);
            mid \<leftarrow> u64_add start cluster_byte_offset;
            physical \<leftarrow> u64_add mid offset_in_cluster;
            Some (Some physical)
          })
   }"

definition total_size :: "mft_extent_map \<Rightarrow> nat rust" where
  "total_size m =
     (case those (map (\<lambda>e. u64_mul (ext_cluster_count e) (em_bytes_per_cluster m)) (em_extents m)) of
        None \<Rightarrow> None
      | Some sizes \<Rightarrow> u64_sum 0 sizes)"

definition total_records :: "mft_extent_map \<Rightarrow> nat rust" where
  "total_records m = do { sz \<leftarrow> total_size m; u64_div sz (em_bytes_per_record m) }"

record planned_read =
  pr_volume_offset :: nat
  pr_byte_len :: nat
  pr_base_frs :: nat

text \<open>The inner loop of \<open>read_plan\<close>; the chunk is positive there, as the early return ensures.\<close>

function plan_chunks :: "nat \<Rightarrow> nat \<Rightarrow> nat \<Rightarrow> nat \<Rightarrow> nat \<Rightarrow> nat \<Rightarrow> planned_read list rust" where
  "plan_chunks chunk record_size virtual_start extent_bytes physical_start off =
     (if off < extent_bytes \<and> 0 < chunk then
        (let byte_len = min chunk (extent_bytes - off) in do {
           vol \<leftarrow> u64_add physical_start off;
           virt \<leftarrow> u64_add virtual_start off;
           base \<leftarrow> u64_div virt record_size;
           off' \<leftarrow> u64_add off byte_len;
           rest \<leftarrow> plan_chunks chunk record_size virtual_start extent_bytes physical_start off';
           Some (\<lparr>pr_volume_offset = vol, pr_byte_len = byte_len, pr_base_frs = base\<rparr> # rest)
         })
      else Some [])"
  by pat_completeness auto
termination
  by (relation "measure (\<lambda>(chunk, rs, vs, eb, ps, off). eb - off)")
    (auto simp: u64_add_def u64_check_def split: if_splits)

declare plan_chunks.simps [simp del]

fun plan_extents :: "nat \<Rightarrow> nat \<Rightarrow> nat \<Rightarrow> nat \<Rightarrow> mft_extent list \<Rightarrow> planned_read list rust" where
  "plan_extents chunk record_size clus virtual_end [] = Some []"
| "plan_extents chunk record_size clus virtual_end (e # es) =
     (if lcn_is_hole (ext_lcn e) then plan_extents chunk record_size clus virtual_end es
      else (let virtual_start = u64_sat_mul (ext_vcn e) clus in
            if virtual_start \<ge> virtual_end then Some []
            else (let extent_bytes = min (u64_sat_mul (ext_cluster_count e) clus) (virtual_end - virtual_start);
                      physical_start = u64_sat_mul (raw_unsigned (ext_lcn e)) clus
                  in do {
                    reads \<leftarrow> plan_chunks chunk record_size virtual_start extent_bytes physical_start 0;
                    rest \<leftarrow> plan_extents chunk record_size clus virtual_end es;
                    Some (reads @ rest)
                  })))"

definition read_plan :: "mft_extent_map \<Rightarrow> nat \<Rightarrow> nat \<Rightarrow> planned_read list rust" where
  "read_plan m chunk_bytes total_recs = do {
     n \<leftarrow> u64_div chunk_bytes (em_bytes_per_record m);
     chunk \<leftarrow> u64_mul n (em_bytes_per_record m);
     (if chunk = 0 \<or> em_bytes_per_record m = 0 then Some []
      else plan_extents chunk (em_bytes_per_record m) (em_bytes_per_cluster m)
             (u64_sat_mul total_recs (em_bytes_per_record m)) (em_extents m))
   }"

section \<open>Well-formed maps\<close>

text \<open>
  Extents as the volume reports them: in order of virtual cluster, not overlapping, with every byte
  position of the table and of the volume below \<open>2^64\<close>.
\<close>

definition extent_ok :: "nat \<Rightarrow> mft_extent \<Rightarrow> bool" where
  "extent_ok bpc e \<longleftrightarrow> (ext_vcn e + ext_cluster_count e) * bpc \<le> u64_max
     \<and> ext_vcn e + ext_cluster_count e \<le> u64_max
     \<and> (0 \<le> ext_lcn e \<longrightarrow> ext_lcn e < 2 ^ 63 \<and> (nat (ext_lcn e) + ext_cluster_count e) * bpc \<le> u64_max)"

definition extent_map_ok :: "mft_extent_map \<Rightarrow> bool" where
  "extent_map_ok m \<longleftrightarrow> 0 < em_bytes_per_cluster m
     \<and> sorted_wrt (\<lambda>e e'. ext_vcn e + ext_cluster_count e \<le> ext_vcn e') (em_extents m)
     \<and> (\<forall>e \<in> set (em_extents m). extent_ok (em_bytes_per_cluster m) e)"

definition covers :: "nat \<Rightarrow> mft_extent \<Rightarrow> bool" where
  "covers vcn e \<longleftrightarrow> ext_vcn e \<le> vcn \<and> vcn < ext_vcn e + ext_cluster_count e"

definition cmp_of :: "nat \<Rightarrow> mft_extent \<Rightarrow> ordering" where
  "cmp_of vcn e = (if vcn < ext_vcn e then Greater else if covers vcn e then Equal else Less)"

lemma cmp_of_Equal [simp]: "cmp_of vcn e = Equal \<longleftrightarrow> covers vcn e"
  by (auto simp: cmp_of_def covers_def)

lemma extent_cmp_total: "extent_ok bpc e \<Longrightarrow> extent_cmp vcn e = Some (cmp_of vcn e)"
  by (auto simp: extent_cmp_def cmp_of_def covers_def extent_ok_def u64_add_def u64_check_def)

lemma extents_sorted_by:
  assumes "extent_map_ok m"
  shows "sorts_by (cmp_of vcn) (em_extents m)"
  unfolding sorts_by_def
proof (intro allI impI)
  fix i j assume ij: "i < j \<and> j < length (em_extents m)"
  with assms have "ext_vcn (em_extents m ! i) + ext_cluster_count (em_extents m ! i) \<le> ext_vcn (em_extents m ! j)"
    by (auto simp: extent_map_ok_def sorted_wrt_iff_nth_less)
  then show "(cmp_of vcn (em_extents m ! i) = Greater \<longrightarrow> cmp_of vcn (em_extents m ! j) = Greater) \<and>
      (cmp_of vcn (em_extents m ! j) = Less \<longrightarrow> cmp_of vcn (em_extents m ! i) = Less)"
    by (auto simp: cmp_of_def covers_def split: if_splits)
qed

lemma covers_unique:
  assumes "extent_map_ok m" and "e \<in> set (em_extents m)" and "e' \<in> set (em_extents m)"
    and "covers vcn e" and "covers vcn e'"
  shows "e = e'"
proof -
  obtain i j where ij: "i < length (em_extents m)" "e = em_extents m ! i" "j < length (em_extents m)" "e' = em_extents m ! j"
    using assms(2,3) by (auto simp: in_set_conv_nth)
  have s: "a < b \<Longrightarrow> b < length (em_extents m) \<Longrightarrow>
      ext_vcn (em_extents m ! a) + ext_cluster_count (em_extents m ! a) \<le> ext_vcn (em_extents m ! b)" for a b
    using assms(1) by (auto simp: extent_map_ok_def sorted_wrt_iff_nth_less)
  have "i = j"
  proof (cases i j rule: linorder_cases)
    case less
    with s [of i j] ij assms(4,5) show ?thesis by (simp add: covers_def)
  next
    case greater
    with s [of j i] ij assms(4,5) show ?thesis by (simp add: covers_def)
  qed
  with ij show ?thesis by simp
qed

text \<open>The reference: a linear scan for the extent that covers the cluster.\<close>

lemma find_extent_linear:
  assumes "extent_map_ok m"
  shows "find_extent m vcn = Some (find (covers vcn) (em_extents m))"
proof -
  have cmp: "\<forall>e \<in> set (em_extents m). extent_cmp vcn e = Some (cmp_of vcn e)"
    using assms by (auto simp: extent_map_ok_def intro: extent_cmp_total)
  note bs = binary_search_by_spec [OF extents_sorted_by [OF assms] cmp]
  show ?thesis
  proof (cases "\<exists>e \<in> set (em_extents m). covers vcn e")
    case True
    with bs obtain i where i: "binary_search_by (extent_cmp vcn) (em_extents m) = Some (Inr i)"
      "i < length (em_extents m)" "covers vcn (em_extents m ! i)" by auto
    from True obtain e where e: "find (covers vcn) (em_extents m) = Some e"
      by (cases "find (covers vcn) (em_extents m)") (auto simp: find_None_iff)
    then have "e \<in> set (em_extents m)" "covers vcn e" by (auto simp: find_Some_iff)
    with i e covers_unique [OF assms] show ?thesis by (auto simp: find_extent_def)
  next
    case False
    with bs obtain i where "binary_search_by (extent_cmp vcn) (em_extents m) = Some (Inl i)" by auto
    moreover from False have "find (covers vcn) (em_extents m) = None" by (auto simp: find_None_iff)
    ultimately show ?thesis by (simp add: find_extent_def)
  qed
qed

lemma raw_unsigned_pos: "0 \<le> l \<Longrightarrow> l < 2 ^ 63 \<Longrightarrow> raw_unsigned l = nat l"
  by (simp add: raw_unsigned_def)

text \<open>The volume offset of byte \<open>v\<close> of the table inside an extent.\<close>

definition extent_offset :: "nat \<Rightarrow> mft_extent \<Rightarrow> nat \<Rightarrow> nat" where
  "extent_offset bpc e v = nat (ext_lcn e) * bpc + (v - ext_vcn e * bpc)"

lemma extent_offset_fits:
  assumes "extent_ok bpc e" and "0 < bpc" and "covers (v div bpc) e" and "0 \<le> ext_lcn e"
  shows "nat (ext_lcn e) * bpc + (v div bpc - ext_vcn e) * bpc + v mod bpc = extent_offset bpc e v"
    and "extent_offset bpc e v \<le> u64_max" and "ext_vcn e * bpc \<le> v"
proof -
  have c: "ext_vcn e \<le> v div bpc" "v div bpc < ext_vcn e + ext_cluster_count e" using assms(3) by (auto simp: covers_def)
  have v: "v div bpc * bpc + v mod bpc = v" by simp
  have le: "ext_vcn e * bpc \<le> v div bpc * bpc" using c(1) by simp
  then show "ext_vcn e * bpc \<le> v" using v by linarith
  have "(v div bpc - ext_vcn e) * bpc = v div bpc * bpc - ext_vcn e * bpc" by (simp add: diff_mult_distrib)
  with v le have "(v div bpc - ext_vcn e) * bpc + v mod bpc = v - ext_vcn e * bpc" by linarith
  then show eq: "nat (ext_lcn e) * bpc + (v div bpc - ext_vcn e) * bpc + v mod bpc = extent_offset bpc e v"
    by (simp add: extent_offset_def add.assoc)
  have "v div bpc - ext_vcn e + 1 \<le> ext_cluster_count e" using c by linarith
  then have "(v div bpc - ext_vcn e + 1) * bpc \<le> ext_cluster_count e * bpc" by (rule mult_le_mono1)
  moreover have "v mod bpc < bpc" using assms(2) by simp
  ultimately have "nat (ext_lcn e) * bpc + (v div bpc - ext_vcn e) * bpc + v mod bpc
      \<le> (nat (ext_lcn e) + ext_cluster_count e) * bpc" by (simp add: algebra_simps)
  also have "\<dots> \<le> u64_max" using assms(1,4) by (simp add: extent_ok_def)
  finally show "extent_offset bpc e v \<le> u64_max" unfolding eq .
qed

lemma physical_offset_eq:
  assumes ok: "extent_map_ok m" and fit: "frs * em_bytes_per_record m \<le> u64_max"
  shows "physical_offset m frs = Some
     (case find (covers (frs * em_bytes_per_record m div em_bytes_per_cluster m)) (em_extents m) of
        None \<Rightarrow> None
      | Some e \<Rightarrow> if ext_lcn e < 0 then None
                   else Some (extent_offset (em_bytes_per_cluster m) e (frs * em_bytes_per_record m)))"
proof -
  let ?bpc = "em_bytes_per_cluster m" and ?v = "frs * em_bytes_per_record m"
  have bpc: "0 < ?bpc" using ok by (simp add: extent_map_ok_def)
  have start: "physical_offset m frs = (case find (covers (?v div ?bpc)) (em_extents m) of
        None \<Rightarrow> Some None
      | Some e \<Rightarrow>
          if lcn_is_hole (ext_lcn e) then Some None
          else do {
            vcn_offset \<leftarrow> u64_sub (?v div ?bpc) (ext_vcn e);
            cluster_byte_offset \<leftarrow> u64_mul vcn_offset ?bpc;
            offset_in_cluster \<leftarrow> u64_rem ?v ?bpc;
            start \<leftarrow> u64_mul (raw_unsigned (ext_lcn e)) ?bpc;
            mid \<leftarrow> u64_add start cluster_byte_offset;
            physical \<leftarrow> u64_add mid offset_in_cluster;
            Some (Some physical)
          })"
    using fit bpc by (simp add: physical_offset_def u64_mul_def u64_check_def u64_div_def find_extent_linear [OF ok])
  show ?thesis
  proof (cases "find (covers (?v div ?bpc)) (em_extents m)")
    case (Some e)
    then have e: "e \<in> set (em_extents m)" and c: "covers (?v div ?bpc) e" by (auto simp: find_Some_iff)
    from e ok have eok: "extent_ok ?bpc e" by (simp add: extent_map_ok_def)
    show ?thesis
    proof (cases "ext_lcn e < 0")
      case False
      then have pos: "0 \<le> ext_lcn e" by simp
      note fits = extent_offset_fits [OF eok bpc c pos]
      have raw: "raw_unsigned (ext_lcn e) = nat (ext_lcn e)"
        using eok pos by (intro raw_unsigned_pos) (auto simp: extent_ok_def)
      have le: "ext_vcn e \<le> ?v div ?bpc" using c by (simp add: covers_def)
      from fits(1,2) have "nat (ext_lcn e) * ?bpc + (?v div ?bpc - ext_vcn e) * ?bpc + ?v mod ?bpc \<le> u64_max" by simp
      then show ?thesis
        using Some start False raw le bpc fits(1)
        by (simp add: lcn_is_hole_def u64_sub_def u64_mul_def u64_add_def u64_rem_def u64_check_def)
    qed (use Some start in \<open>simp add: lcn_is_hole_def\<close>)
  qed (use start in simp)
qed

section \<open>The read plan\<close>

text \<open>The \<open>q\<close>-th byte of an extent starts a read, and a read of the plan holds byte \<open>v\<close> of the table.\<close>

definition chunk_read :: "nat \<Rightarrow> nat \<Rightarrow> nat \<Rightarrow> nat \<Rightarrow> nat \<Rightarrow> nat \<Rightarrow> planned_read" where
  "chunk_read chunk rs vs eb ps q =
     \<lparr>pr_volume_offset = ps + q, pr_byte_len = min chunk (eb - q), pr_base_frs = (vs + q) div rs\<rparr>"

definition planned_for :: "nat \<Rightarrow> nat \<Rightarrow> nat \<Rightarrow> nat \<Rightarrow> planned_read list \<Rightarrow> mft_extent \<Rightarrow> nat \<Rightarrow> bool" where
  "planned_for chunk rs cs vend reads e v \<longleftrightarrow>
     (let vs = ext_vcn e * cs; eb = min (ext_cluster_count e * cs) (vend - vs) in
      \<exists>q. chunk dvd q \<and> vs + q \<le> v \<and> v < vs + q + min chunk (eb - q)
        \<and> chunk_read chunk rs vs eb (nat (ext_lcn e) * cs) q \<in> set reads)"

lemma plan_chunks_covers:
  assumes "0 < chunk" and "0 < rs" and "ps + eb \<le> u64_max" and "vs + eb \<le> u64_max" and "off \<le> eb"
  shows "\<exists>reads. plan_chunks chunk rs vs eb ps off = Some reads \<and>
     (\<forall>x. off \<le> x \<and> x < eb \<longrightarrow> (\<exists>q. chunk dvd (q - off) \<and> off \<le> q \<and> q \<le> x \<and> x < q + min chunk (eb - q)
        \<and> chunk_read chunk rs vs eb ps q \<in> set reads))"
  using assms(5)
proof (induction "eb - off" arbitrary: off rule: less_induct)
  case less
  show ?case
  proof (cases "off < eb")
    case False
    then show ?thesis by (simp add: plan_chunks.simps)
  next
    case True
    let ?len = "min chunk (eb - off)"
    let ?cov = "\<lambda>from reads x. \<exists>q. chunk dvd (q - from) \<and> from \<le> q \<and> q \<le> x \<and> x < q + min chunk (eb - q)
        \<and> chunk_read chunk rs vs eb ps q \<in> set reads"
    have "off + ?len \<le> eb" "eb - (off + ?len) < eb - off" using True assms(1) by auto
    from less.hyps [OF this(2) this(1)] obtain reads
      where r: "plan_chunks chunk rs vs eb ps (off + ?len) = Some reads"
        and c: "\<And>x. off + ?len \<le> x \<Longrightarrow> x < eb \<Longrightarrow> ?cov (off + ?len) reads x" by blast
    let ?hd = "chunk_read chunk rs vs eb ps off"
    have eq: "plan_chunks chunk rs vs eb ps off = Some (?hd # reads)"
      using True assms(1-4) r
      by (simp add: plan_chunks.simps [of _ _ _ _ _ off] Let_def u64_add_def u64_check_def u64_div_def chunk_read_def)
    have "?cov off (?hd # reads) x" if x: "off \<le> x" "x < eb" for x
    proof (cases "x < off + ?len")
      case True
      with x show ?thesis by (intro exI [of _ off]) auto
    next
      case False
      then have "off + ?len \<le> x" by (rule leI)
      from c [OF this x(2)] obtain q where q: "chunk dvd (q - (off + ?len))" "off + ?len \<le> q" "q \<le> x"
        "x < q + min chunk (eb - q)"
        "chunk_read chunk rs vs eb ps q \<in> set reads"
        by blast
      from False x have "?len = chunk" by auto
      have "chunk dvd (q - off)"
      proof -
        have "q - off = q - (off + ?len) + chunk" using q(2) \<open>?len = chunk\<close> by linarith
        with q(1) show ?thesis by simp
      qed
      with q show ?thesis by (intro exI [of _ q]) auto
    qed
    with eq show ?thesis by blast
  qed
qed

lemma plan_extents_covers:
  assumes "0 < chunk" and "0 < rs" and "vend \<le> u64_max"
    and "sorted_wrt (\<lambda>e e'. ext_vcn e + ext_cluster_count e \<le> ext_vcn e') es"
    and "\<forall>e \<in> set es. extent_ok cs e"
  shows "\<exists>reads. plan_extents chunk rs cs vend es = Some reads \<and>
     (\<forall>e v. e \<in> set es \<and> 0 \<le> ext_lcn e \<and> ext_vcn e * cs \<le> v \<and> v < (ext_vcn e + ext_cluster_count e) * cs \<and> v < vend
        \<longrightarrow> planned_for chunk rs cs vend reads e v)"
  using assms(4,5)
proof (induction es)
  case (Cons e es)
  then obtain rest where rest: "plan_extents chunk rs cs vend es = Some rest"
    and ih: "\<And>e v. e \<in> set es \<Longrightarrow> 0 \<le> ext_lcn e \<Longrightarrow> ext_vcn e * cs \<le> v \<Longrightarrow>
        v < (ext_vcn e + ext_cluster_count e) * cs \<Longrightarrow> v < vend \<Longrightarrow>
        planned_for chunk rs cs vend rest e v" by auto
  have ok: "extent_ok cs e" using Cons.prems(2) by simp
  then have sv: "u64_sat_mul (ext_vcn e) cs = ext_vcn e * cs"
    and sc: "u64_sat_mul (ext_cluster_count e) cs = ext_cluster_count e * cs"
    by (auto simp: extent_ok_def u64_sat_mul_def add_mult_distrib)
  consider (hole) "ext_lcn e < 0" | (past) "0 \<le> ext_lcn e" "vend \<le> ext_vcn e * cs"
    | (planned) "0 \<le> ext_lcn e" "ext_vcn e * cs < vend" by linarith
  then show ?case
  proof cases
    case hole
    with rest have "plan_extents chunk rs cs vend (e # es) = Some rest" by (simp add: lcn_is_hole_def)
    with hole ih show ?thesis by auto
  next
    case past
    then have "plan_extents chunk rs cs vend (e # es) = Some []" by (simp add: lcn_is_hole_def sv)
    moreover have "vend \<le> v" if "e' \<in> set (e # es)" "ext_vcn e' * cs \<le> v" for e' v
    proof -
      have "ext_vcn e \<le> ext_vcn e'" using Cons.prems(1) that(1) by (auto dest: add_leD1)
      then have "ext_vcn e * cs \<le> ext_vcn e' * cs" by simp
      with past that(2) show ?thesis by linarith
    qed
    ultimately show ?thesis by (auto simp: not_less [symmetric])
  next
    case planned
    let ?eb = "min (ext_cluster_count e * cs) (vend - ext_vcn e * cs)" and ?ps = "nat (ext_lcn e) * cs"
    have ps: "u64_sat_mul (raw_unsigned (ext_lcn e)) cs = ?ps"
      using ok planned(1) by (auto simp: extent_ok_def raw_unsigned_pos u64_sat_mul_def add_mult_distrib)
    have "?ps + ?eb \<le> u64_max" and "ext_vcn e * cs + ?eb \<le> u64_max"
      using ok planned(1) by (auto simp: extent_ok_def add_mult_distrib)
    from plan_chunks_covers [OF assms(1,2) this, of 0] obtain reads
      where reads: "plan_chunks chunk rs (ext_vcn e * cs) ?eb ?ps 0 = Some reads"
        and cov: "\<And>x. x < ?eb \<Longrightarrow> \<exists>q. chunk dvd q \<and> q \<le> x \<and> x < q + min chunk (?eb - q)
          \<and> chunk_read chunk rs (ext_vcn e * cs) ?eb ?ps q \<in> set reads"
      by auto
    have all: "plan_extents chunk rs cs vend (e # es) = Some (reads @ rest)"
      using planned rest reads by (simp add: lcn_is_hole_def sv sc ps Let_def)
    have here: "planned_for chunk rs cs vend (reads @ rest) e v"
      if v: "ext_vcn e * cs \<le> v" "v < (ext_vcn e + ext_cluster_count e) * cs" "v < vend" for v
    proof -
      have "v - ext_vcn e * cs < ?eb" using v by (auto simp: add_mult_distrib)
      from cov [OF this] obtain q where q: "chunk dvd q" "q \<le> v - ext_vcn e * cs"
        "v - ext_vcn e * cs < q + min chunk (?eb - q)"
        "chunk_read chunk rs (ext_vcn e * cs) ?eb ?ps q \<in> set reads" by blast
      from q(2,3) v(1) have "ext_vcn e * cs + q \<le> v" "v < ext_vcn e * cs + q + min chunk (?eb - q)" by linarith+
      with q(1,4) show ?thesis unfolding planned_for_def Let_def by auto
    qed
    have "planned_for chunk rs cs vend rest e' v \<Longrightarrow> planned_for chunk rs cs vend (reads @ rest) e' v" for e' v
      by (auto simp: planned_for_def Let_def)
    with here ih all show ?thesis by auto
  qed
qed simp

section \<open>Properties\<close>

text \<open>A record that starts inside a chunk of whole records lies inside it, at its own number.\<close>

lemma chunk_holds_record:
  assumes rs: "0 < rs" and "rs dvd q" and "rs dvd vs" and "rs dvd eb" and "rs dvd ck"
    and lo: "vs + q \<le> frs * rs" and hi: "frs * rs < vs + q + min ck (eb - q)"
  shows "frs * rs + rs \<le> vs + q + min ck (eb - q)" and "(vs + q) div rs + (frs * rs - (vs + q)) div rs = (frs :: nat)"
proof -
  have d: "rs dvd vs + q" "rs dvd min ck (eb - q)" using assms(2-5) by (auto simp: min_def intro: dvd_diff_nat)
  then have "rs dvd vs + q + min ck (eb - q) - frs * rs" by (intro dvd_diff_nat) auto
  then have "rs \<le> vs + q + min ck (eb - q) - frs * rs" using hi by (intro dvd_imp_le) auto
  with hi show "frs * rs + rs \<le> vs + q + min ck (eb - q)" by linarith
  obtain a where "vs + q = rs * a" using d(1) by (elim dvdE)
  with lo rs show "(vs + q) div rs + (frs * rs - (vs + q)) div rs = frs" by (simp add: mult.commute [of frs] flip: diff_mult_distrib2)
qed

text \<open>
  The binary search over the extents finds the volume offset of a record exactly as a linear scan
  would: no extent or a hole gives \<open>None\<close>, and otherwise the offset is the extent's first byte on the
  volume plus the record's distance from the extent's first byte in the table. Nothing panics.
\<close>

theorem physical_offset_correct:
  assumes "extent_map_ok m" and "frs * em_bytes_per_record m \<le> u64_max"
  shows "physical_offset m frs = Some
     (let v = frs * em_bytes_per_record m; bpc = em_bytes_per_cluster m in
      case find (\<lambda>e. ext_vcn e \<le> v div bpc \<and> v div bpc < ext_vcn e + ext_cluster_count e) (em_extents m) of
        None \<Rightarrow> None
      | Some e \<Rightarrow> if ext_lcn e < 0 then None
                   else Some (nat (ext_lcn e) * bpc + (v - ext_vcn e * bpc)))"
  using physical_offset_eq [OF assms] unfolding covers_def [abs_def] extent_offset_def Let_def .

text \<open>
  C39. Every record the map can locate is read exactly where it lies: for a chunk of at least one record
  and clusters of whole records, the plan is computed without a panic and holds, for each record below
  the requested count with a volume offset, a read that contains the whole record, and whose first
  record number places that record at its own number.
\<close>

theorem read_plan_covers_records:
  assumes ok: "extent_map_ok m" and rs: "0 < em_bytes_per_record m"
    and dvd: "em_bytes_per_record m dvd em_bytes_per_cluster m"
    and chunk: "em_bytes_per_record m \<le> chunk_bytes" "chunk_bytes \<le> u64_max"
    and total: "total_recs * em_bytes_per_record m \<le> u64_max"
  shows "\<exists>reads. read_plan m chunk_bytes total_recs = Some reads \<and>
    (\<forall>frs p. frs < total_recs \<and> physical_offset m frs = Some (Some p) \<longrightarrow>
       (\<exists>r \<in> set reads. pr_volume_offset r \<le> p \<and> p + em_bytes_per_record m \<le> pr_volume_offset r + pr_byte_len r
          \<and> pr_base_frs r + (p - pr_volume_offset r) div em_bytes_per_record m = frs))"
proof -
  let ?rs = "em_bytes_per_record m" and ?cs = "em_bytes_per_cluster m" and ?vend = "total_recs * em_bytes_per_record m"
  define ck where "ck = chunk_bytes div ?rs * ?rs"
  have "ck \<le> chunk_bytes" unfolding ck_def by (rule div_times_less_eq_dividend)
  then have "ck \<le> u64_max" using chunk(2) by (rule order.trans)
  moreover have "0 < ck" "?rs dvd ck" using rs chunk(1) by (auto simp: ck_def div_greater_zero_iff)
  ultimately have ck: "0 < ck" "ck \<le> u64_max" "?rs dvd ck" by auto
  have sorted: "sorted_wrt (\<lambda>e e'. ext_vcn e + ext_cluster_count e \<le> ext_vcn e') (em_extents m)"
    and exts: "\<forall>e \<in> set (em_extents m). extent_ok ?cs e" using ok by (auto simp: extent_map_ok_def)
  from plan_extents_covers [OF ck(1) rs total sorted exts] obtain reads
    where plan: "plan_extents ck ?rs ?cs ?vend (em_extents m) = Some reads"
      and cov: "\<And>e v. e \<in> set (em_extents m) \<Longrightarrow> 0 \<le> ext_lcn e \<Longrightarrow> ext_vcn e * ?cs \<le> v \<Longrightarrow>
        v < (ext_vcn e + ext_cluster_count e) * ?cs \<Longrightarrow> v < ?vend \<Longrightarrow> planned_for ck ?rs ?cs ?vend reads e v" by blast
  have "read_plan m chunk_bytes total_recs = Some reads"
    using plan rs ck total by (simp add: read_plan_def u64_div_def u64_mul_def u64_check_def u64_sat_mul_def ck_def [symmetric])
  moreover have "\<exists>r \<in> set reads. pr_volume_offset r \<le> p \<and> p + ?rs \<le> pr_volume_offset r + pr_byte_len r
      \<and> pr_base_frs r + (p - pr_volume_offset r) div ?rs = frs"
    if frs: "frs < total_recs" and p: "physical_offset m frs = Some (Some p)" for frs p
  proof -
    let ?v = "frs * ?rs"
    have v: "?v < ?vend" "?v \<le> u64_max" using frs rs total by (simp_all, meson le_less_trans less_imp_le_nat mult_le_mono1 order.trans)
    from p physical_offset_eq [OF ok v(2)] obtain e
      where f: "find (covers (?v div ?cs)) (em_extents m) = Some e" and lcn: "0 \<le> ext_lcn e" and p: "p = extent_offset ?cs e ?v"
      by (auto split: option.splits if_splits)
    from f have e: "e \<in> set (em_extents m)" and c: "covers (?v div ?cs) e" by (auto simp: find_Some_iff)
    have cs: "0 < ?cs" using ok by (simp add: extent_map_ok_def)
    have lo: "ext_vcn e * ?cs \<le> ?v" using extent_offset_fits(3) [OF _ cs c lcn] exts e by blast
    have hi: "?v < (ext_vcn e + ext_cluster_count e) * ?cs"
      using c cs by (simp add: covers_def div_less_iff_less_mult)
    let ?vs = "ext_vcn e * ?cs" and ?eb = "min (ext_cluster_count e * ?cs) (?vend - ext_vcn e * ?cs)"
    from cov [OF e lcn lo hi v(1)] obtain q where q: "ck dvd q" "?vs + q \<le> ?v" "?v < ?vs + q + min ck (?eb - q)"
      "chunk_read ck ?rs ?vs ?eb (nat (ext_lcn e) * ?cs) q \<in> set reads" unfolding planned_for_def Let_def by blast
    have "?rs dvd q" "?rs dvd ?vs" "?rs dvd ?eb" using q(1) ck(3) dvd by (auto simp: min_def intro: dvd_trans dvd_diff_nat)
    from chunk_holds_record [OF rs this ck(3) q(2,3)]
    have len: "?v + ?rs \<le> ?vs + q + min ck (?eb - q)" and base: "(?vs + q) div ?rs + (?v - (?vs + q)) div ?rs = frs" by blast+
    let ?l = "nat (ext_lcn e) * ?cs"
    have pv: "p + ?vs = ?l + ?v" using p lo by (simp add: extent_offset_def)
    have "?l + q \<le> p" using pv q(2) by linarith
    moreover have "p + ?rs \<le> ?l + q + min ck (?eb - q)" using pv len by linarith
    moreover have "p - (?l + q) = ?v - (?vs + q)" using pv by linarith
    ultimately show ?thesis
      using base by (intro bexI [OF _ q(4)] conjI) (simp_all only: chunk_read_def planned_read.select_convs)
  qed
  ultimately show ?thesis by blast
qed

definition demo_map :: mft_extent_map where
  "demo_map = \<lparr>em_extents = [\<lparr>ext_vcn = 0, ext_cluster_count = 4, ext_lcn = 100\<rparr>,
      \<lparr>ext_vcn = 4, ext_cluster_count = 2, ext_lcn = -1\<rparr>, \<lparr>ext_vcn = 6, ext_cluster_count = 3, ext_lcn = 50\<rparr>],
     em_bytes_per_cluster = 4096, em_bytes_per_record = 1024\<rparr>"

lemma demo_map_ok: "extent_map_ok demo_map"
  by (simp add: demo_map_def extent_map_ok_def extent_ok_def u64_max_def)

theorem physical_offset_correct_witness: "physical_offset demo_map 26 = Some (Some 206848)"
  using physical_offset_correct [OF demo_map_ok, of 26] by (simp add: demo_map_def u64_max_def Let_def)

theorem read_plan_covers_records_witness:
  "\<exists>reads. read_plan demo_map 8192 36 = Some reads \<and>
    (\<forall>frs p. frs < 36 \<and> physical_offset demo_map frs = Some (Some p) \<longrightarrow>
       (\<exists>r \<in> set reads. pr_volume_offset r \<le> p \<and> p + em_bytes_per_record demo_map \<le> pr_volume_offset r + pr_byte_len r
          \<and> pr_base_frs r + (p - pr_volume_offset r) div em_bytes_per_record demo_map = frs))"
  by (rule read_plan_covers_records [OF demo_map_ok]) (simp_all add: demo_map_def u64_max_def)

end
