(* ===== verification/Compact_Record.thy ===== *)
theory Compact_Record
  imports Rust_Prelude
begin

text \<open>
  One record of the in-memory index (\<open>crates/uffs-core/src/compact/record.rs\<close>): its fields, the packed
  file reference, its name in the shared name buffer and the metafile test. Indices, lengths and sizes
  are natural numbers below the bound of their type; the packed reference is a 64-bit word.
\<close>

section \<open>Definitions\<close>

record compact_record =
  cr_size :: nat
  cr_allocated :: nat
  cr_treesize :: nat
  cr_tree_allocated :: nat
  cr_created :: int
  cr_modified :: int
  cr_accessed :: int
  cr_file_ref :: u64
  cr_name_offset :: nat
  cr_flags :: u32
  cr_parent_idx :: nat
  cr_descendants :: nat
  cr_name_len :: nat
  cr_extension_id :: nat
  cr_path_len :: nat
  cr_name_first_byte :: u8

text \<open>The derived \<open>Default\<close>: every field zero.\<close>

definition compact_record_default :: compact_record where
  "compact_record_default = \<lparr>cr_size = 0, cr_allocated = 0, cr_treesize = 0, cr_tree_allocated = 0, cr_created = 0,
     cr_modified = 0, cr_accessed = 0, cr_file_ref = 0, cr_name_offset = 0, cr_flags = 0, cr_parent_idx = 0,
     cr_descendants = 0, cr_name_len = 0, cr_extension_id = 0, cr_path_len = 0, cr_name_first_byte = 0\<rparr>"

definition FRS_MASK :: u64 where "FRS_MASK = 0x0000FFFFFFFFFFFF"

definition pack_file_reference :: "u64 \<Rightarrow> u16 \<Rightarrow> u64" where
  "pack_file_reference frs seq = (frs AND FRS_MASK) OR push_bit 48 (ucast seq)"

definition unpack_frs :: "u64 \<Rightarrow> u64" where "unpack_frs r = r AND FRS_MASK"

definition record_frs :: "compact_record \<Rightarrow> u64" where "record_frs r = cr_file_ref r AND FRS_MASK"

definition record_sequence_number :: "compact_record \<Rightarrow> u16" where
  "record_sequence_number r =
     (let s = drop_bit 48 (cr_file_ref r) in if unat s \<le> u16_max then ucast s else of_nat u16_max)"

definition ascii_bytes :: "string \<Rightarrow> bytes" where
  "ascii_bytes s = map (\<lambda>c. of_nat (of_char c)) s"

definition NTFS_METAFILE_NAMES :: "bytes list" where
  "NTFS_METAFILE_NAMES = map ascii_bytes
     [''$MFT'', ''$MFTMirr'', ''$LogFile'', ''$Volume'', ''$AttrDef'', ''$Bitmap'', ''$Boot'', ''$BadClus'',
      ''$Secure'', ''$UpCase'', ''$Extend'', ''$ObjId'', ''$Quota'', ''$Reparse'', ''$UsnJrnl'',
      ''$RmMetadata'', ''$Deleted'', ''$Repair'', ''$Tops'', ''$TxfLog'', ''$Txf'']"

text \<open>\<open>str::eq_ignore_ascii_case\<close>.\<close>

definition to_ascii_lowercase :: "u8 \<Rightarrow> u8" where
  "to_ascii_lowercase b = (if 0x41 \<le> b \<and> b \<le> 0x5A then b + 0x20 else b)"

definition eq_ignore_ascii_case :: "bytes \<Rightarrow> bytes \<Rightarrow> bool" where
  "eq_ignore_ascii_case a b \<longleftrightarrow> map to_ascii_lowercase a = map to_ascii_lowercase b"

definition is_ntfs_metafile_name :: "bytes \<Rightarrow> bool" where
  "is_ntfs_metafile_name name = list_ex (eq_ignore_ascii_case name) NTFS_METAFILE_NAMES"

definition DIRECTORY_BIT :: u32 where "DIRECTORY_BIT = 0x0010"

definition is_directory_record :: "compact_record \<Rightarrow> bool" where
  "is_directory_record r \<longleftrightarrow> cr_flags r AND DIRECTORY_BIT \<noteq> 0"

definition name_bytes :: "compact_record \<Rightarrow> bytes \<Rightarrow> bytes" where
  "name_bytes r names =
     (let start = cr_name_offset r; stop = u64_sat_add start (cr_name_len r) in
      case slice_get names start stop of None \<Rightarrow> [] | Some bs \<Rightarrow> bs)"

definition record_name :: "compact_record \<Rightarrow> bytes \<Rightarrow> bytes" where
  "record_name r names = (if utf8_valid (name_bytes r names) then name_bytes r names else [])"

definition is_name_malformed :: "compact_record \<Rightarrow> bytes \<Rightarrow> bool" where
  "is_name_malformed r names \<longleftrightarrow> \<not> utf8_valid (name_bytes r names)"

definition is_system_metafile :: "compact_record \<Rightarrow> bytes \<Rightarrow> bool" where
  "is_system_metafile r names \<longleftrightarrow> cr_name_first_byte r = 0x24 \<and> is_ntfs_metafile_name (record_name r names)"

section \<open>Properties\<close>

lemma FRS_MASK_mask: "FRS_MASK = mask 48"
  by (simp add: FRS_MASK_def mask_eq_exp_minus_1)

text \<open>
  Packing a file reference loses nothing of an NTFS record number (48 bits) and its sequence number.
\<close>

theorem file_reference_roundtrip:
  assumes "unat frs < 2 ^ 48"
  shows "unpack_frs (pack_file_reference frs seq) = frs
    \<and> record_frs (r\<lparr>cr_file_ref := pack_file_reference frs seq\<rparr>) = frs
    \<and> record_sequence_number (r\<lparr>cr_file_ref := pack_file_reference frs seq\<rparr>) = seq"
proof -
  have "take_bit 48 frs = frs"
    using assms by (intro word_unat_eq_iff [THEN iffD2]) (simp add: unsigned_take_bit_eq take_bit_nat_eq_self)
  then have lo: "frs AND FRS_MASK = frs" by (simp add: FRS_MASK_mask take_bit_eq_mask)
  have hi: "\<not> bit frs k" if "48 \<le> k" for k
    using \<open>take_bit 48 frs = frs\<close> that by (metis bit_take_bit_iff not_le)
  have un: "unpack_frs (pack_file_reference frs seq) = frs"
    unfolding unpack_frs_def pack_file_reference_def lo
    by (rule bit_word_eqI) (use hi in \<open>force simp: FRS_MASK_mask bit_simps not_le\<close>)
  have s: "drop_bit 48 (pack_file_reference frs seq) = ucast seq"
    unfolding pack_file_reference_def lo
    by (rule bit_word_eqI) (auto simp: bit_simps hi dest: bit_imp_le_length)
  have "unat (ucast seq :: u64) = unat seq" 
    by (simp add: unsigned_ucast_eq take_bit_nat_eq_self order.strict_trans2 [OF unsigned_less])
  moreover have "ucast (ucast seq :: u64) = seq" by (rule bit_word_eqI) (auto simp: bit_simps)
  ultimately show ?thesis
    using un s unat_le_bound [of seq] by (simp add: record_frs_def unpack_frs_def record_sequence_number_def u16_max_def)
qed

theorem file_reference_roundtrip_witness: "unpack_frs (pack_file_reference 123456 7) = 123456"
  using file_reference_roundtrip [of 123456 7] by simp

end
