(* ===== verification/Csr_Index.thy ===== *)
theory Csr_Index
  imports Compact_Record
begin

text \<open>
  The compressed-sparse-row indexes: children of a record (\<open>crates/uffs-core/src/compact/children.rs\<close>)
  and records of an extension (\<open>compact/extension.rs\<close>). Both are the same two-pass counting sort over a
  key per record, and the path trie uses it a third time; the passes are shared definitions here, and
  the contract of the result is the locale \<open>bucket_index\<close>.
\<close>

section \<open>The two passes\<close>

text \<open>Pass 1: \<open>counts[k] += 1\<close> for each record with a key in range (a \<open>u32\<close> overflow panics).\<close>

fun csr_count :: "nat option list \<Rightarrow> nat list \<Rightarrow> nat list rust" where
  "csr_count [] counts = Some counts"
| "csr_count (None # ks) counts = csr_count ks counts"
| "csr_count (Some k # ks) counts =
     (if k < length counts then do { c \<leftarrow> u32_inc (counts ! k); csr_count ks (counts[k := c]) }
      else csr_count ks counts)"

text \<open>The saturating prefix sum, with the final total as last offset.\<close>

fun csr_prefix :: "nat \<Rightarrow> nat list \<Rightarrow> nat list" where
  "csr_prefix running [] = [running]"
| "csr_prefix running (c # cs) = running # csr_prefix (u32_sat_add running c) cs"

text \<open>Pass 2: each record's index goes to its bucket's write position, which then advances.\<close>

fun csr_scatter :: "nat \<Rightarrow> nat option list \<Rightarrow> nat list \<Rightarrow> nat list \<Rightarrow> nat list rust" where
  "csr_scatter idx [] write_pos vals = Some vals"
| "csr_scatter idx (None # ks) write_pos vals = csr_scatter (Suc idx) ks write_pos vals"
| "csr_scatter idx (Some k # ks) write_pos vals =
     (if k < length write_pos \<and> write_pos ! k < length vals
      then do {
        p \<leftarrow> u32_inc (write_pos ! k);
        csr_scatter (Suc idx) ks (write_pos[k := p]) (vals[write_pos ! k := len_to_u32 idx])
      }
      else csr_scatter (Suc idx) ks write_pos vals)"

type_synonym csr = "nat list \<times> nat list"

definition csr_build :: "nat \<Rightarrow> nat option list \<Rightarrow> csr rust" where
  "csr_build n ks = do {
     counts \<leftarrow> csr_count ks (replicate n 0);
     let offsets = csr_prefix 0 counts;
     vals \<leftarrow> csr_scatter 0 ks offsets (replicate (last offsets) 0);
     Some (offsets, vals)
   }"

definition csr_get :: "csr \<Rightarrow> nat \<Rightarrow> nat list" where
  "csr_get ix k =
     (let start = (case vec_get (fst ix) k of None \<Rightarrow> 0 | Some o1 \<Rightarrow> o1);
          stop = (case vec_get (fst ix) (k + 1) of None \<Rightarrow> 0 | Some o2 \<Rightarrow> o2)
      in case slice_get (snd ix) start stop of None \<Rightarrow> [] | Some vs \<Rightarrow> vs)"

section \<open>The two indexes\<close>

definition child_key :: "compact_record \<Rightarrow> nat option" where
  "child_key r = (if cr_parent_idx r \<noteq> u32_max then Some (cr_parent_idx r) else None)"

definition children_build :: "compact_record list \<Rightarrow> csr rust" where
  "children_build records = csr_build (length records) (map child_key records)"

definition children_get :: "csr \<Rightarrow> nat \<Rightarrow> nat list" where
  "children_get ix idx = csr_get ix idx"

definition children_total :: "csr \<Rightarrow> nat" where "children_total ix = length (snd ix)"
definition children_record_count :: "csr \<Rightarrow> nat" where "children_record_count ix = length (fst ix) - 1"
definition children_empty :: csr where "children_empty = ([0], [])"

definition extension_key :: "compact_record \<Rightarrow> nat option" where
  "extension_key r = (if cr_name_len r = 0 then None else Some (cr_extension_id r))"

definition max_extension_id :: "compact_record list \<Rightarrow> nat" where
  "max_extension_id records = fold max (map cr_extension_id records) 0"

definition extension_build :: "compact_record list \<Rightarrow> csr rust" where
  "extension_build records = csr_build (max_extension_id records + 1) (map extension_key records)"

definition extension_get :: "csr \<Rightarrow> nat \<Rightarrow> nat list" where
  "extension_get ix ext_id = csr_get ix ext_id"

definition extension_total_entries :: "csr \<Rightarrow> nat" where "extension_total_entries ix = length (snd ix)"
definition extension_empty :: csr where "extension_empty = ([0], [])"

section \<open>The contract\<close>

text \<open>The records of bucket \<open>k\<close>, in order.\<close>

definition positions :: "nat option list \<Rightarrow> nat \<Rightarrow> nat list" where
  "positions ks k = filter (\<lambda>i. ks ! i = Some k) [0..<length ks]"

lemma positions_snoc: "positions (ks @ [x]) k = positions ks k @ (if x = Some k then [length ks] else [])"
proof -
  have "filter (\<lambda>i. (ks @ [x]) ! i = Some k) [0..<length ks] = filter (\<lambda>i. ks ! i = Some k) [0..<length ks]"
    by (rule filter_cong) (auto simp: nth_append)
  then show ?thesis by (simp add: positions_def nth_append)
qed

lemma positions_Nil [simp]: "positions [] k = []"
  by (simp add: positions_def)

text \<open>
  What an index over one key per record promises: bucket \<open>k\<close> holds exactly the records with key \<open>k\<close>, in
  ascending order, as long as the record indices fit a \<open>u32\<close>.
\<close>

locale bucket_index =
  fixes ks :: "nat option list" and n :: nat and get :: "nat \<Rightarrow> nat list"
  assumes get_positions: "length ks \<le> u32_max \<Longrightarrow> k < n \<Longrightarrow> get k = positions ks k"
begin

lemma get_mem: "length ks \<le> u32_max \<Longrightarrow> k < n \<Longrightarrow> i \<in> set (get k) \<longleftrightarrow> i < length ks \<and> ks ! i = Some k"
  by (auto simp: get_positions positions_def)

lemma get_sorted: "length ks \<le> u32_max \<Longrightarrow> k < n \<Longrightarrow> sorted (get k) \<and> distinct (get k)"
  by (simp add: get_positions positions_def sorted_wrt_filter)

lemma get_disjoint:
  "length ks \<le> u32_max \<Longrightarrow> k < n \<Longrightarrow> k' < n \<Longrightarrow> k \<noteq> k' \<Longrightarrow> set (get k) \<inter> set (get k') = {}"
  by (auto simp: get_mem)

end

section \<open>The counting sort meets the contract\<close>

lemma length_positions_append: "length (positions (xs @ ys) k) = length (positions xs k) + length (positions ys k)"
proof (induction ys rule: rev_induct)
  case (snoc y ys)
  have "positions (xs @ ys @ [y]) k = positions (xs @ ys) k @ (if y = Some k then [length (xs @ ys)] else [])"
    using positions_snoc [of "xs @ ys" y k] by simp
  with snoc show ?case by (simp add: positions_snoc)
qed simp

lemma length_positions_le: "length (positions ks k) \<le> length ks"
  unfolding positions_def by (metis diff_zero length_filter_le length_upt)

lemma length_positions_Cons: "length (positions (x # ks) k) = (if x = Some k then 1 else 0) + length (positions ks k)"
  using length_positions_append [of "[x]" ks k] positions_snoc [of "[]" x k] by simp

lemma csr_count_spec:
  assumes "\<forall>k < length counts. counts ! k + length (positions ks k) \<le> u32_max"
  shows "\<exists>cs. csr_count ks counts = Some cs \<and> length cs = length counts
     \<and> (\<forall>k < length counts. cs ! k = counts ! k + length (positions ks k))"
  using assms
proof (induction ks counts rule: csr_count.induct)
  case (3 k ks counts)
  show ?case
  proof (cases "k < length counts")
    case True
    with "3.prems" have inc: "u32_inc (counts ! k) = Some (counts ! k + 1)"
      by (auto simp: length_positions_Cons u32_inc_def)
    have "\<forall>j < length (counts[k := counts ! k + 1]). counts[k := counts ! k + 1] ! j + length (positions ks j) \<le> u32_max"
      using "3.prems" True by (auto simp: length_positions_Cons nth_list_update)
    from "3.IH"(1) [OF True inc this] inc True show ?thesis
      by (auto simp: length_positions_Cons nth_list_update)
  next
    case False
    with "3.prems" have "\<forall>j < length counts. counts ! j + length (positions ks j) \<le> u32_max"
      by (auto simp: length_positions_Cons)
    from "3.IH"(2) [OF False this] False show ?thesis by (auto simp: length_positions_Cons)
  qed
qed (simp_all add: length_positions_Cons)

lemma csr_prefix_length [simp]: "length (csr_prefix r cs) = Suc (length cs)"
  by (induction cs arbitrary: r) simp_all

lemma csr_prefix_nth:
  "r + sum_list cs \<le> u32_max \<Longrightarrow> k \<le> length cs \<Longrightarrow> csr_prefix r cs ! k = r + sum_list (take k cs)"
proof (induction cs arbitrary: r k)
  case (Cons c cs)
  then show ?case by (cases k) (simp_all add: u32_sat_add_def)
qed simp

text \<open>
  The scatter invariant: after the records of \<open>done\<close> every bucket holds its records of \<open>done\<close> from its
  offset on, and its write position stands behind them.
\<close>

definition scatter_inv :: "nat list \<Rightarrow> nat \<Rightarrow> nat option list \<Rightarrow> nat list \<Rightarrow> nat list \<Rightarrow> bool" where
  "scatter_inv offs n done wp vals \<longleftrightarrow> length wp = Suc n \<and> length vals = offs ! n \<and> wp ! n = offs ! n \<and>
     (\<forall>k < n. wp ! k = offs ! k + length (positions done k)
        \<and> (\<forall>j < length (positions done k). vals ! (offs ! k + j) = positions done k ! j))"

locale bucket_layout =
  fixes ks :: "nat option list" and n :: nat and offs :: "nat list"
  assumes small: "length ks \<le> u32_max"
    and step: "k < n \<Longrightarrow> offs ! Suc k = offs ! k + length (positions ks k)"
    and total: "offs ! n \<le> u32_max"
begin

lemma offs_mono: "i \<le> j \<Longrightarrow> j \<le> n \<Longrightarrow> offs ! i \<le> offs ! j"
proof (induction j)
  case (Suc j)
  then show ?case using step [of j] by (cases "i = Suc j") auto
qed simp

lemma slot_in_bucket:
  assumes "ks = done @ Some k # rest" and "k < n"
  shows "offs ! k + length (positions done k) < offs ! Suc k"
  using step [OF assms(2)] by (simp add: assms(1) length_positions_append length_positions_Cons)

lemma buckets_apart:
  assumes "k < n" and "k' < n" and "k \<noteq> k'" and "j < length (positions ks k)" and "j' < length (positions ks k')"
  shows "offs ! k + j \<noteq> offs ! k' + j'"
proof (cases "k < k'")
  case True
  with offs_mono [of "Suc k" k'] step [of k] assms show ?thesis by simp
next
  case False
  with assms(3) have "Suc k' \<le> k" by simp
  with offs_mono [of "Suc k'" k] step [of k'] assms show ?thesis by simp
qed

lemma scatter_step:
  assumes inv: "scatter_inv offs n done wp vals" and ks: "ks = done @ Some k # rest" and k: "k < n"
  shows "wp ! k < length vals" and "u32_inc (wp ! k) = Some (wp ! k + 1)"
    and "scatter_inv offs n (done @ [Some k]) (wp[k := wp ! k + 1]) (vals[wp ! k := len_to_u32 (length done)])"
proof -
  let ?m = "length (positions done k)"
  have wp: "wp ! k = offs ! k + ?m" "length wp = Suc n" "length vals = offs ! n" using inv k by (auto simp: scatter_inv_def)
  have "offs ! k + ?m < offs ! Suc k" by (rule slot_in_bucket [OF ks k])
  also have "\<dots> \<le> offs ! n" using k by (intro offs_mono) auto
  finally show lt: "wp ! k < length vals" using wp by simp
  with total wp(3) show "u32_inc (wp ! k) = Some (wp ! k + 1)" by (simp add: u32_inc_def)
  have len: "len_to_u32 (length done) = length done" using small ks by simp
  have sub: "length (positions done k') \<le> length (positions ks k')" for k'
    by (simp add: ks length_positions_append)
  have mk: "?m < length (positions ks k)" by (simp add: ks length_positions_append length_positions_Cons)
  have "wp[k := wp ! k + 1] ! k' = offs ! k' + length (positions (done @ [Some k]) k')
      \<and> (\<forall>j < length (positions (done @ [Some k]) k').
           vals[wp ! k := length done] ! (offs ! k' + j) = positions (done @ [Some k]) k' ! j)" if k': "k' < n" for k'
  proof (cases "k' = k")
    case True
    have "vals[wp ! k := length done] ! (offs ! k + j) = (positions done k @ [length done]) ! j" if "j < Suc ?m" for j
      using that inv k lt wp(1) by (cases "j = ?m") (auto simp: scatter_inv_def nth_append)
    with True wp k show ?thesis by (simp add: positions_snoc)
  next
    case False
    have "offs ! k + ?m \<noteq> offs ! k' + j" if "j < length (positions done k')" for j
      using buckets_apart [OF k k' False [symmetric] mk] that sub [of k'] by (meson less_le_trans)
    with False inv k' wp(1) show ?thesis by (auto simp: scatter_inv_def positions_snoc)
  qed
  with inv k show "scatter_inv offs n (done @ [Some k]) (wp[k := wp ! k + 1]) (vals[wp ! k := len_to_u32 (length done)])"
    by (simp add: scatter_inv_def len)
qed

lemma scatter_all:
  assumes "scatter_inv offs n done wp vals" and "ks = done @ rest"
  shows "\<exists>vs wp'. csr_scatter (length done) rest wp vals = Some vs \<and> scatter_inv offs n ks wp' vs"
  using assms
proof (induction rest arbitrary: "done" wp vals)
  case (Cons x rest)
  show ?case
  proof (cases "\<exists>k < n. x = Some k")
    case True
    then obtain k where k: "k < n" "x = Some k" by blast
    note st = scatter_step [OF Cons.prems(1) Cons.prems(2) [unfolded k(2)] k(1)]
    have "k < length wp" using Cons.prems(1) k(1) by (simp add: scatter_inv_def)
    with st Cons.IH [OF st(3)] Cons.prems(2) k show ?thesis by simp
  next
    case False
    have inv: "scatter_inv offs n (done @ [x]) wp vals"
      using Cons.prems(1) False by (auto simp: scatter_inv_def positions_snoc)
    have "csr_scatter (length done) (x # rest) wp vals = csr_scatter (Suc (length done)) rest wp vals"
    proof (cases x)
      case (Some k)
      with False have "n \<le> k" by auto
      with Cons.prems(1) have "\<not> (k < length wp \<and> wp ! k < length vals)"
        by (cases "k = n") (auto simp: scatter_inv_def)
      with Some show ?thesis by auto
    qed simp
    with Cons.IH [OF inv] Cons.prems(2) show ?thesis by simp
  qed
qed auto

end

text \<open>The layout the two passes compute, for any keys whose indices fit a \<open>u32\<close>.\<close>

definition bucket_counts :: "nat option list \<Rightarrow> nat \<Rightarrow> nat list" where
  "bucket_counts ks n = map (\<lambda>k. length (positions ks k)) [0..<n]"

lemma length_bucket_counts [simp]: "length (bucket_counts ks n) = n"
  by (simp add: bucket_counts_def)

lemma bucket_counts_nth [simp]: "k < n \<Longrightarrow> bucket_counts ks n ! k = length (positions ks k)"
  by (simp add: bucket_counts_def)

lemma sum_bucket_counts: "sum_list (bucket_counts ks n) \<le> length ks"
proof -
  have "(\<Sum>k<n. length (positions ks k)) \<le> length ks"
  proof (induction ks)
    case (Cons x ks)
    have "(\<Sum>k<n. if x = Some k then 1 else 0) \<le> (1::nat)"
      by (cases x) (simp_all add: sum.delta)
    with Cons show ?case by (simp add: length_positions_Cons sum.distrib)
  qed simp
  then show ?thesis by (simp add: bucket_counts_def interv_sum_list_conv_sum_set_nat atLeast0LessThan)
qed

lemma bucket_offsets:
  assumes "length ks \<le> u32_max" and "k \<le> n"
  shows "csr_prefix 0 (bucket_counts ks n) ! k = sum_list (take k (bucket_counts ks n))"
  using csr_prefix_nth [of 0 "bucket_counts ks n" k] sum_bucket_counts [of ks n] assms
  by simp

interpretation layout: bucket_layout "take u32_max ks" n "csr_prefix 0 (bucket_counts (take u32_max ks) n)" for ks n
proof
  show small: "length (take u32_max ks) \<le> u32_max" by simp
  show "csr_prefix 0 (bucket_counts (take u32_max ks) n) ! Suc k
      = csr_prefix 0 (bucket_counts (take u32_max ks) n) ! k + length (positions (take u32_max ks) k)" if "k < n" for k
    using that by (simp add: bucket_offsets [OF small] take_Suc_conv_app_nth)
  have "csr_prefix 0 (bucket_counts (take u32_max ks) n) ! n = sum_list (bucket_counts (take u32_max ks) n)"
    by (simp add: bucket_offsets [OF small])
  with sum_bucket_counts [of "take u32_max ks" n] small
  show "csr_prefix 0 (bucket_counts (take u32_max ks) n) ! n \<le> u32_max" by linarith
qed

lemma csr_counted:
  assumes "length ks \<le> u32_max"
  shows "csr_count ks (replicate n 0) = Some (bucket_counts ks n)"
proof -
  have "\<forall>k < length (replicate n 0). replicate n 0 ! k + length (positions ks k) \<le> u32_max"
    using length_positions_le [of ks] assms by (auto intro: order.trans)
  from csr_count_spec [OF this] obtain cs where cs: "csr_count ks (replicate n 0) = Some cs" "length cs = n"
    "\<forall>k < n. cs ! k = length (positions ks k)" by auto
  then have "cs = bucket_counts ks n" by (simp add: list_eq_iff_nth_eq)
  with cs(1) show ?thesis by simp
qed

text \<open>The second pass overwrites every slot, so what the vector held before does not matter.\<close>

lemma csr_scattered:
  assumes "length ks \<le> u32_max" and "length vals = last (csr_prefix 0 (bucket_counts ks n))"
  shows "\<exists>vs. csr_scatter 0 ks (csr_prefix 0 (bucket_counts ks n)) vals = Some vs
     \<and> (\<forall>k < n. slice_get vs (csr_prefix 0 (bucket_counts ks n) ! k) (csr_prefix 0 (bucket_counts ks n) ! Suc k) = Some (positions ks k))"
proof -
  let ?offs = "csr_prefix 0 (bucket_counts ks n)"
  have ks: "take u32_max ks = ks" using assms by simp
  have "?offs \<noteq> []" by (metis csr_prefix_length length_0_conv nat.distinct(1))
  then have last: "last ?offs = ?offs ! n" by (simp add: last_conv_nth)
  have "scatter_inv ?offs n [] ?offs vals"
    using assms(2) by (simp add: scatter_inv_def last)
  from layout.scatter_all [where ks = ks and rest = ks and ?done = "[]", unfolded ks, OF this]
  obtain vs wp where vs: "csr_scatter 0 ks ?offs vals = Some vs" "scatter_inv ?offs n ks wp vs"
    by auto
  have "slice_get vs (?offs ! k) (?offs ! Suc k) = Some (positions ks k)" if k: "k < n" for k
  proof -
    have step: "?offs ! Suc k = ?offs ! k + length (positions ks k)" and le: "?offs ! Suc k \<le> ?offs ! n"
      using layout.step [where ks = ks, of k n, unfolded ks, OF k] layout.offs_mono [where ks = ks, of "Suc k" n n, unfolded ks] k
      by auto
    have "slice_get vs (?offs ! k) (?offs ! Suc k) = Some (take (length (positions ks k)) (drop (?offs ! k) vs))"
      using vs(2) step le by (simp add: slice_get_def scatter_inv_def)
    moreover have "take (length (positions ks k)) (drop (?offs ! k) vs) = positions ks k"
      using vs(2) k step le by (auto simp: list_eq_iff_nth_eq scatter_inv_def)
    ultimately show ?thesis by simp
  qed
  with vs(1) show ?thesis by blast
qed

lemma csr_build_spec:
  assumes "length ks \<le> u32_max"
  shows "\<exists>ix. csr_build n ks = Some ix \<and> (\<forall>k < n. csr_get ix k = positions ks k)"
proof -
  let ?offs = "csr_prefix 0 (bucket_counts ks n)"
  obtain vs where vs: "csr_scatter 0 ks ?offs (replicate (last ?offs) 0) = Some vs"
    "\<And>k. k < n \<Longrightarrow> slice_get vs (?offs ! k) (?offs ! Suc k) = Some (positions ks k)"
    using csr_scattered [OF assms, of "replicate (last ?offs) 0" n] by auto
  have "csr_get (?offs, vs) k = positions ks k" if "k < n" for k
    using vs(2) [OF that] that by (simp add: csr_get_def vec_get_def)
  with csr_counted [OF assms] vs(1) show ?thesis by (auto simp: csr_build_def Let_def)
qed

lemma csr_count_length: "csr_count ks cs = Some cs' \<Longrightarrow> length cs' = length cs"
  by (induction ks cs rule: csr_count.induct) (auto split: if_splits bind_splits)

lemma csr_build_offsets_length: "csr_build n ks = Some ix \<Longrightarrow> length (fst ix) = Suc n"
  by (auto simp: csr_build_def Let_def split: bind_splits dest: csr_count_length)

lemma csr_build_beyond:
  assumes "csr_build n ks = Some ix" and "n \<le> k" and "0 < n"
  shows "csr_get ix k = []"
proof -
  from assms(1) obtain counts vals where c: "csr_count ks (replicate n 0) = Some counts"
    "csr_scatter 0 ks (csr_prefix 0 counts) (replicate (last (csr_prefix 0 counts)) 0) = Some vals"
    and ix: "ix = (csr_prefix 0 counts, vals)"
    by (auto simp: csr_build_def Let_def split: bind_splits)
  from csr_count_length [OF c(1)] assms(2) have out: "length (csr_prefix 0 counts) \<le> k + 1" by simp
  have stop: "(case slice_get vals a 0 of None \<Rightarrow> [] | Some vs \<Rightarrow> vs) = []" for a by (simp add: slice_get_def)
  have none: "vec_get (csr_prefix 0 counts) (k + 1) = None" using out by simp
  show ?thesis unfolding ix csr_get_def Let_def fst_conv snd_conv none option.case by (rule stop)
qed

lemma csr_build_bucket_index: "bucket_index ks n (csr_get (the (csr_build n ks)))"
  using csr_build_spec [of ks n] by unfold_locales auto

interpretation children: bucket_index "map child_key records" "length records"
  "children_get (the (children_build records))" for records
  unfolding children_get_def [abs_def] children_build_def by (rule csr_build_bucket_index)

interpretation extensions: bucket_index "map extension_key records" "max_extension_id records + 1"
  "extension_get (the (extension_build records))" for records
  unfolding extension_get_def [abs_def] extension_build_def by (rule csr_build_bucket_index)

lemma fold_max_acc: "m \<le> fold max xs (m :: nat)"
proof (induction xs arbitrary: m)
  case (Cons x xs)
  from Cons [of "max x m"] show ?case by simp
qed simp

lemma fold_max_ge: "x \<in> set xs \<Longrightarrow> x \<le> fold max xs (m :: nat)"
proof (induction xs arbitrary: m)
  case (Cons y xs)
  then show ?case using fold_max_acc [of "max y m" xs] by auto
qed simp

lemma max_extension_id_ge: "r \<in> set records \<Longrightarrow> cr_extension_id r \<le> max_extension_id records"
  unfolding max_extension_id_def by (rule fold_max_ge) simp

section \<open>Properties\<close>

text \<open>
  The children index never panics on an index of at most \<open>2^32 - 1\<close> records, and the children it
  lists for a record are exactly the records with that parent, in ascending order, each once.
\<close>

theorem children_index_correct:
  assumes "length records \<le> u32_max" and "p < length records" and "p < u32_max"
  shows "\<exists>ix. children_build records = Some ix \<and>
    children_get ix p = filter (\<lambda>i. cr_parent_idx (records ! i) = p) [0..<length records]"
proof -
  obtain ix where ix: "children_build records = Some ix"
    using csr_build_spec [of "map child_key records" "length records"] assms(1) by (auto simp: children_build_def)
  have "children_get ix p = positions (map child_key records) p"
    using children.get_positions [where records = records and k = p] ix assms by simp
  also have "\<dots> = filter (\<lambda>i. cr_parent_idx (records ! i) = p) [0..<length records]"
    unfolding positions_def using assms(3) by (auto simp: child_key_def intro!: filter_cong split: if_splits)
  finally show ?thesis using ix by blast
qed

theorem children_index_correct_witness:
  "\<exists>ix. children_build [compact_record_default, compact_record_default\<lparr>cr_parent_idx := u32_max\<rparr>] = Some ix
     \<and> children_get ix 0 = [0]"
  using children_index_correct [of "[compact_record_default, compact_record_default\<lparr>cr_parent_idx := u32_max\<rparr>]" 0]
  by (simp add: u32_max_def compact_record_default_def)

text \<open>
  The extension index lists for an extension id exactly the live records (those with a name) of
  that extension, in ascending order; an id that no record has gives the empty list.
\<close>

theorem extension_index_correct:
  assumes "length records \<le> u32_max"
  shows "\<exists>ix. extension_build records = Some ix \<and>
    (\<forall>ext. extension_get ix ext =
       filter (\<lambda>i. cr_extension_id (records ! i) = ext \<and> cr_name_len (records ! i) \<noteq> 0) [0..<length records])"
proof -
  let ?ks = "map extension_key records" and ?n = "max_extension_id records + 1"
  obtain ix where ix: "csr_build ?n ?ks = Some ix"
    using csr_build_spec [of ?ks ?n] assms by auto
  have keys: "positions ?ks ext =
      filter (\<lambda>i. cr_extension_id (records ! i) = ext \<and> cr_name_len (records ! i) \<noteq> 0) [0..<length records]" for ext
    unfolding positions_def by (auto simp: extension_key_def intro!: filter_cong split: if_splits)
  have "extension_get ix ext = positions ?ks ext" for ext
  proof (cases "ext < ?n")
    case True
    with extensions.get_positions [where records = records and k = ext] ix assms show ?thesis
      by (simp add: extension_build_def)
  next
    case False
    have "extension_get ix ext = []"
      using csr_build_beyond [OF ix, of ext] False assms by (simp add: extension_get_def)
    moreover have "positions ?ks ext = []"
    proof -
      have "cr_extension_id (records ! i) \<noteq> ext" if "i < length records" for i
        using max_extension_id_ge [OF nth_mem [OF that]] False by linarith
      then show ?thesis unfolding keys by (auto simp: filter_empty_conv)
    qed
    ultimately show ?thesis by simp
  qed
  with ix keys show ?thesis by (auto simp: extension_build_def)
qed

theorem extension_index_correct_witness:
  "\<exists>ix. extension_build [compact_record_default, compact_record_default\<lparr>cr_name_len := 4\<rparr>] = Some ix
     \<and> extension_get ix 0 = [1]"
proof -
  let ?rs = "[compact_record_default, compact_record_default\<lparr>cr_name_len := 4\<rparr>]"
  have "length ?rs \<le> u32_max" by (simp add: u32_max_def)
  from extension_index_correct [OF this] obtain ix where "extension_build ?rs = Some ix"
    "extension_get ix 0 = filter (\<lambda>i. cr_extension_id (?rs ! i) = 0 \<and> cr_name_len (?rs ! i) \<noteq> 0) [0..<length ?rs]" by blast
  moreover have "filter (\<lambda>i. cr_extension_id (?rs ! i) = 0 \<and> cr_name_len (?rs ! i) \<noteq> 0) [0..<length ?rs] = [1]"
    by (simp add: compact_record_default_def)
  ultimately show ?thesis by auto
qed


end
