(* ===== verification/Path_Trie.thy ===== *)
theory Path_Trie
  imports Csr_Index
begin

text \<open>
  The directory trie kept for a parked drive (\<open>crates/uffs-core/src/path_trie.rs\<close>): a node per directory
  record with its parent and name, the children in compressed-sparse-row form, lookup by path segments
  and reconstruction of a path. The walk up the parents has no bound in the source; it is a partial
  function whose \<open>None\<close> is not returning.
\<close>

section \<open>Definitions\<close>

definition NO_PARENT :: nat where "NO_PARENT = u32_max"

record trie_node =
  tn_parent_idx :: nat
  tn_name_offset :: nat
  tn_name_len :: nat

record path_trie =
  pt_nodes :: "trie_node list"
  pt_names :: bytes
  pt_children :: csr

text \<open>Pass 1 of \<open>build\<close>, over the enumerated records: the index map, the nodes and the names so far.\<close>

fun collect_directories ::
  "bytes \<Rightarrow> (nat \<times> compact_record) list \<Rightarrow> (nat \<rightharpoonup> nat) \<times> trie_node list \<times> bytes
     \<Rightarrow> (nat \<rightharpoonup> nat) \<times> trie_node list \<times> bytes"
where
  "collect_directories names [] st = st"
| "collect_directories names ((i, r) # rest) (m, nodes, trie_names) =
     (if \<not> is_directory_record r then collect_directories names rest (m, nodes, trie_names)
      else (let basename = (case slice_get names (cr_name_offset r) (cr_name_offset r + cr_name_len r) of
                              None \<Rightarrow> [] | Some bs \<Rightarrow> bs);
                node = \<lparr>tn_parent_idx = cr_parent_idx r, tn_name_offset = len_to_u32 (length trie_names),
                        tn_name_len = cr_name_len r\<rparr>
            in collect_directories names rest
                 (m(len_to_u32 i \<mapsto> len_to_u32 (length nodes)), nodes @ [node], trie_names @ basename)))"

text \<open>Pass 2: the record index of the parent becomes its node index.\<close>

definition trie_parent :: "(nat \<rightharpoonup> nat) \<Rightarrow> nat \<Rightarrow> nat" where
  "trie_parent m record_parent =
     (if record_parent = u32_max then NO_PARENT
      else case m record_parent of Some tp \<Rightarrow> tp | None \<Rightarrow> NO_PARENT)"

definition node_key :: "trie_node \<Rightarrow> nat option" where
  "node_key nd = (if tn_parent_idx nd \<noteq> NO_PARENT then Some (tn_parent_idx nd) else None)"

definition build_children_csr :: "trie_node list \<Rightarrow> csr rust" where
  "build_children_csr nodes = csr_build (length nodes) (map node_key nodes)"

definition trie_build :: "compact_record list \<Rightarrow> bytes \<Rightarrow> path_trie rust" where
  "trie_build records names =
     (let (m, nodes0, trie_names) = collect_directories names (enumerate 0 records) (Map.empty, [], []);
          nodes = map (\<lambda>nd. nd\<lparr>tn_parent_idx := trie_parent m (tn_parent_idx nd)\<rparr>) nodes0
      in do {
        ch \<leftarrow> build_children_csr nodes;
        Some \<lparr>pt_nodes = nodes, pt_names = trie_names, pt_children = ch\<rparr>
      })"

definition name_of :: "path_trie \<Rightarrow> nat \<Rightarrow> bytes option" where
  "name_of t idx = do {
     nd \<leftarrow> vec_get (pt_nodes t) idx;
     slice_get (pt_names t) (tn_name_offset nd) (tn_name_offset nd + tn_name_len nd)
   }"

definition parent_of :: "path_trie \<Rightarrow> nat \<Rightarrow> nat option" where
  "parent_of t idx = do {
     nd \<leftarrow> vec_get (pt_nodes t) idx;
     (if tn_parent_idx nd = NO_PARENT then None else Some (tn_parent_idx nd))
   }"

definition children_of :: "path_trie \<Rightarrow> nat \<Rightarrow> nat list" where
  "children_of t idx =
     (case vec_get (fst (pt_children t)) idx of
        None \<Rightarrow> []
      | Some start \<Rightarrow>
          (case vec_get (fst (pt_children t)) (idx + 1) of
             None \<Rightarrow> []
           | Some stop \<Rightarrow> (case slice_get (snd (pt_children t)) start stop of None \<Rightarrow> [] | Some vs \<Rightarrow> vs)))"

definition roots :: "path_trie \<Rightarrow> nat list" where
  "roots t = map (\<lambda>(i, nd). len_to_u32 i) (filter (\<lambda>(i, nd). tn_parent_idx nd = NO_PARENT) (enumerate 0 (pt_nodes t)))"

fun walk_segments :: "path_trie \<Rightarrow> nat \<Rightarrow> bytes list \<Rightarrow> nat option" where
  "walk_segments t current [] = Some current"
| "walk_segments t current (segment # rest) =
     (case find (\<lambda>child. name_of t child = Some segment) (children_of t current) of
        None \<Rightarrow> None
      | Some child \<Rightarrow> walk_segments t child rest)"

definition lookup_path :: "path_trie \<Rightarrow> bytes list \<Rightarrow> nat option" where
  "lookup_path t segments =
     (case segments of
        [] \<Rightarrow> None
      | first # rest \<Rightarrow>
          (case find (\<lambda>idx. name_of t idx = Some first) (roots t) of
             None \<Rightarrow> None
           | Some current \<Rightarrow> walk_segments t current rest))"

text \<open>The loop of \<open>full_path\<close>: the outer \<open>None\<close> is not returning, the inner one the \<open>?\<close> on a missing name.\<close>

partial_function (option) climb :: "path_trie \<Rightarrow> nat \<Rightarrow> bytes list \<Rightarrow> bytes list option option" where
  "climb t cursor segments_reversed =
     (case name_of t cursor of
        None \<Rightarrow> Some None
      | Some name \<Rightarrow>
          (case parent_of t cursor of
             Some parent \<Rightarrow> climb t parent (segments_reversed @ [name])
           | None \<Rightarrow> Some (Some (segments_reversed @ [name]))))"

fun join_segments :: "bytes list \<Rightarrow> bytes" where
  "join_segments [] = []"
| "join_segments [s] = s"
| "join_segments (s # ss) = s @ 0x2F # join_segments ss"

definition full_path :: "path_trie \<Rightarrow> nat \<Rightarrow> bytes option option" where
  "full_path t idx =
     (if idx \<ge> length (pt_nodes t) then Some None
      else do {
        chain \<leftarrow> climb t idx [];
        Some (map_option (\<lambda>segs. join_segments (rev segs)) chain)
      })"

definition trie_from_raw_parts ::
  "trie_node list \<Rightarrow> bytes \<Rightarrow> nat list \<Rightarrow> nat list \<Rightarrow> path_trie option"
where
  "trie_from_raw_parts nodes names child_offsets child_indices =
     (if length child_offsets \<noteq> length nodes + 1 then None
      else if length child_indices \<noteq> last child_offsets then None
      else if list_ex (\<lambda>nd. tn_name_offset nd + tn_name_len nd > length names) nodes then None
      else Some \<lparr>pt_nodes = nodes, pt_names = names, pt_children = (child_offsets, child_indices)\<rparr>)"

section \<open>Children and roots\<close>

lemma children_of_csr_get: "fst (pt_children t) \<noteq> [] \<Longrightarrow> idx + 1 < length (fst (pt_children t)) \<Longrightarrow>
    children_of t idx = csr_get (pt_children t) idx"
  by (simp add: children_of_def csr_get_def)

interpretation trie_children: bucket_index "map node_key nodes" "length nodes"
  "csr_get (the (build_children_csr nodes))" for nodes
  unfolding build_children_csr_def by (rule csr_build_bucket_index)

text \<open>What \<open>build\<close> establishes: the children lists invert the parent pointers.\<close>

definition trie_inv :: "path_trie \<Rightarrow> bool" where
  "trie_inv t \<longleftrightarrow> length (pt_nodes t) \<le> u32_max \<and>
     (\<forall>i < length (pt_nodes t). children_of t i = filter (\<lambda>k. parent_of t k = Some i) [0..<length (pt_nodes t)])"

lemma roots_eq:
  assumes "length (pt_nodes t) \<le> u32_max"
  shows "roots t = filter (\<lambda>k. parent_of t k = None) [0..<length (pt_nodes t)]"
proof -
  have "map (\<lambda>(i, nd). len_to_u32 i) (filter (\<lambda>(i, nd). P nd) (enumerate 0 xs)) = filter (\<lambda>k. P (xs ! k)) [0..<length xs]"
    if "length xs \<le> u32_max" for xs :: "trie_node list" and P
    using that
  proof (induction xs rule: rev_induct)
    case (snoc x xs)
    have "filter (\<lambda>k. P ((xs @ [x]) ! k)) [0..<length xs] = filter (\<lambda>k. P (xs ! k)) [0..<length xs]"
      by (rule filter_cong) (auto simp: nth_append)
    with snoc show ?case by (simp add: enumerate_append_eq)
  qed simp
  from this [OF assms, of "\<lambda>nd. tn_parent_idx nd = NO_PARENT"] show ?thesis
    unfolding roots_def by (auto simp: parent_of_def intro!: filter_cong split: if_splits)
qed

lemma trie_build_inv:
  assumes "trie_build records names = Some t" and "length (pt_nodes t) \<le> u32_max"
  shows "trie_inv t"
proof -
  let ?ns = "pt_nodes t"
  from assms(1) have ch: "build_children_csr ?ns = Some (pt_children t)"
    by (auto simp: trie_build_def Let_def split: prod.splits bind_splits)
  have "children_of t i = filter (\<lambda>k. parent_of t k = Some i) [0..<length ?ns]" if i: "i < length ?ns" for i
  proof -
    have len: "length (fst (pt_children t)) = Suc (length ?ns)"
      using csr_build_offsets_length [OF ch [unfolded build_children_csr_def]] .
    have "csr_get (pt_children t) i = positions (map node_key ?ns) i"
      using trie_children.get_positions [where nodes = ?ns and k = i] ch assms(2) i by simp
    also have "\<dots> = filter (\<lambda>k. parent_of t k = Some i) [0..<length ?ns]"
      unfolding positions_def by (auto simp: node_key_def parent_of_def intro!: filter_cong split: if_splits)
    finally show ?thesis using children_of_csr_get [of t i] len i by (cases "fst (pt_children t)") auto
  qed
  with assms(2) show ?thesis by (simp add: trie_inv_def)
qed

section \<open>Paths\<close>

text \<open>The path of a node: the names from its root down, when the parent pointers lead to a root.\<close>

inductive trie_path :: "path_trie \<Rightarrow> nat \<Rightarrow> bytes list \<Rightarrow> bool" for t :: path_trie where
  Root: "parent_of t i = None \<Longrightarrow> name_of t i = Some s \<Longrightarrow> trie_path t i [s]"
| Child: "parent_of t i = Some p \<Longrightarrow> trie_path t p ss \<Longrightarrow> name_of t i = Some s \<Longrightarrow> trie_path t i (ss @ [s])"

inductive_simps trie_path_Nil: "trie_path t i []"

lemma trie_path_nonempty: "trie_path t i segs \<Longrightarrow> segs \<noteq> []"
  by (induction rule: trie_path.induct) auto

lemma trie_path_in_range: "trie_path t i segs \<Longrightarrow> i < length (pt_nodes t)"
  by (induction rule: trie_path.induct) (auto simp: name_of_def vec_get_def split: if_splits)

lemma climb_path: "trie_path t i segs \<Longrightarrow> climb t i acc = Some (Some (acc @ rev segs))"
proof (induction arbitrary: acc rule: trie_path.induct)
  case (Root i s)
  then show ?case by (simp add: climb.simps [of t i])
next
  case (Child i p ss s)
  then show ?case by (simp add: climb.simps [of t i])
qed

lemma walk_segments_append:
  "walk_segments t c (xs @ ys) = (case walk_segments t c xs of None \<Rightarrow> None | Some d \<Rightarrow> walk_segments t d ys)"
  by (induction xs arbitrary: c) (auto split: option.split)

lemma lookup_path_snoc:
  "segs \<noteq> [] \<Longrightarrow> lookup_path t (segs @ [s]) =
     (case lookup_path t segs of
        None \<Rightarrow> None
      | Some p \<Rightarrow> find (\<lambda>child. name_of t child = Some s) (children_of t p))"
  by (cases segs) (auto simp: lookup_path_def walk_segments_append split: option.split)

definition sibling_names_distinct :: "path_trie \<Rightarrow> bool" where
  "sibling_names_distinct t \<longleftrightarrow> (\<forall>i < length (pt_nodes t). \<forall>j < length (pt_nodes t).
     parent_of t i = parent_of t j \<and> name_of t i = name_of t j \<longrightarrow> i = j)"

lemma find_only: "x \<in> set xs \<Longrightarrow> P x \<Longrightarrow> (\<And>y. y \<in> set xs \<Longrightarrow> P y \<Longrightarrow> y = x) \<Longrightarrow> find P xs = Some x"
proof (induction xs)
  case (Cons a xs)
  show ?case
  proof (cases "P a")
    case True
    with Cons.prems(3) [of a] show ?thesis by simp
  next
    case False
    with Cons.prems(1,2) have "x \<in> set xs" by auto
    then have "find P xs = Some x" using Cons.prems(2) by (rule Cons.IH) (rule Cons.prems(3), auto)
    with False show ?thesis by simp
  qed
qed simp

lemma lookup_own_path:
  assumes inv: "trie_inv t" and uniq: "sibling_names_distinct t" and "trie_path t i segs"
  shows "lookup_path t segs = Some i"
  using assms(3)
proof (induction rule: trie_path.induct)
  case (Root i s)
  have i: "i < length (pt_nodes t)" using trie_path.Root [OF Root] by (rule trie_path_in_range)
  have "find (\<lambda>idx. name_of t idx = Some s) (roots t) = Some i"
  proof (rule find_only)
    show "i \<in> set (roots t)" using inv Root(1) i by (simp add: trie_inv_def roots_eq)
    fix y assume "y \<in> set (roots t)" "name_of t y = Some s"
    with inv have "parent_of t y = None" "y < length (pt_nodes t)" by (auto simp: trie_inv_def roots_eq)
    with Root i \<open>name_of t y = Some s\<close> uniq show "y = i" unfolding sibling_names_distinct_def by metis
  qed (fact Root(2))
  then show ?case by (simp add: lookup_path_def)
next
  case (Child i p ss s)
  have i: "i < length (pt_nodes t)" using trie_path.Child [OF Child(1,2,3)] by (rule trie_path_in_range)
  have p: "p < length (pt_nodes t)" by (rule trie_path_in_range [OF Child(2)])
  have "find (\<lambda>idx. name_of t idx = Some s) (children_of t p) = Some i"
  proof (rule find_only)
    show "i \<in> set (children_of t p)" using inv Child(1) i p by (simp add: trie_inv_def)
    fix y assume "y \<in> set (children_of t p)" "name_of t y = Some s"
    with inv p have "parent_of t y = Some p" "y < length (pt_nodes t)" by (auto simp: trie_inv_def)
    with Child(1,3) i \<open>name_of t y = Some s\<close> uniq show "y = i" unfolding sibling_names_distinct_def by metis
  qed (fact Child(3))
  with Child.IH trie_path_nonempty [OF Child(2)] show ?case by (simp add: lookup_path_snoc)
qed

text \<open>On a node that is its own parent the climb never returns.\<close>

lemma climb_self_loop:
  assumes "parent_of t i = Some i" and "name_of t i = Some nm"
  shows "climb t i acc = None"
proof (rule ccontr)
  assume "climb t i acc \<noteq> None"
  then obtain r where r: "climb t i acc = Some r" by blast
  have "parent_of t i = Some i \<longrightarrow> name_of t i = Some nm \<longrightarrow> False"
    by (rule climb.raw_induct [where P = "\<lambda>t' c a y. parent_of t' c = Some c \<longrightarrow> name_of t' c = Some nm \<longrightarrow> False", OF _ r])
      (auto split: option.splits)
  with assms show False by simp
qed

section \<open>What the build collects\<close>

definition dir_indices :: "compact_record list \<Rightarrow> nat list" where
  "dir_indices records = filter (\<lambda>i. is_directory_record (records ! i)) [0..<length records]"

lemma dir_indices_snoc:
  "dir_indices (rs @ [r]) = dir_indices rs @ (if is_directory_record r then [length rs] else [])"
proof -
  have "filter (\<lambda>i. is_directory_record ((rs @ [r]) ! i)) [0..<length rs] = filter (\<lambda>i. is_directory_record (rs ! i)) [0..<length rs]"
    by (rule filter_cong) (auto simp: nth_append)
  then show ?thesis by (simp add: dir_indices_def nth_append)
qed

lemma collect_directories_append:
  "collect_directories names (xs @ ys) st = collect_directories names ys (collect_directories names xs st)"
proof (induction xs arbitrary: st)
  case (Cons x xs)
  then show ?case by (cases x; cases st) (simp add: Let_def)
qed simp

text \<open>The name bytes of the directories collected so far, and the invariant of pass 1.\<close>

definition dir_name :: "bytes \<Rightarrow> compact_record \<Rightarrow> bytes" where
  "dir_name names r = take (cr_name_len r) (drop (cr_name_offset r) names)"

definition dir_names_ok :: "compact_record list \<Rightarrow> bytes \<Rightarrow> bool" where
  "dir_names_ok records names \<longleftrightarrow>
     (\<forall>r \<in> set records. is_directory_record r \<longrightarrow> cr_name_offset r + cr_name_len r \<le> length names)
     \<and> sum_list (map cr_name_len (filter is_directory_record records)) \<le> u32_max \<and> length records \<le> u32_max"

definition collect_inv ::
  "compact_record list \<Rightarrow> bytes \<Rightarrow> (nat \<rightharpoonup> nat) \<times> trie_node list \<times> bytes \<Rightarrow> bool"
where
  "collect_inv rs names = (\<lambda>(m, nodes, tn). let ds = dir_indices rs in
     length nodes = length ds \<and> dom m = set ds
     \<and> length tn = sum_list (map cr_name_len (filter is_directory_record rs))
     \<and> (\<forall>j < length ds. m (ds ! j) = Some j \<and> tn_parent_idx (nodes ! j) = cr_parent_idx (rs ! (ds ! j))
          \<and> slice_get tn (tn_name_offset (nodes ! j)) (tn_name_offset (nodes ! j) + tn_name_len (nodes ! j))
              = Some (dir_name names (rs ! (ds ! j)))))"

lemma dir_indices_bound: "j < length (dir_indices rs) \<Longrightarrow> dir_indices rs ! j < length rs"
  using nth_mem [of j "dir_indices rs"] by (auto simp: dir_indices_def)

lemma slice_get_grow: "slice_get xs a b = Some ys \<Longrightarrow> slice_get (xs @ zs) a b = Some ys"
  by (auto simp: slice_get_def split: if_splits)

lemma length_dir_indices: "length (dir_indices rs) \<le> length rs"
  unfolding dir_indices_def by (metis diff_zero length_filter_le length_upt)

lemma collect_inv_step:
  assumes inv: "collect_inv rs names (m, nodes, tn)" and ok: "dir_names_ok (rs @ [r]) names"
  shows "collect_inv (rs @ [r]) names (collect_directories names [(length rs, r)] (m, nodes, tn))"
proof (cases "is_directory_record r")
  case False
  then show ?thesis
    using inv dir_indices_bound [of _ rs] by (auto simp: collect_inv_def dir_indices_snoc Let_def nth_append)
next
  case True
  let ?ds = "dir_indices rs" and ?off = "length tn"
  have nm: "slice_get names (cr_name_offset r) (cr_name_offset r + cr_name_len r) = Some (dir_name names r)"
    and len: "length (dir_name names r) = cr_name_len r"
    using ok True by (auto simp: dir_names_ok_def slice_get_def dir_name_def)
  have small: "len_to_u32 (length rs) = length rs" "len_to_u32 (length nodes) = length ?ds" "len_to_u32 ?off = ?off"
    using ok inv length_dir_indices [of rs] by (auto simp: dir_names_ok_def collect_inv_def Let_def)
  let ?nd = "\<lparr>tn_parent_idx = cr_parent_idx r, tn_name_offset = ?off, tn_name_len = cr_name_len r\<rparr>"
  have st: "collect_directories names [(length rs, r)] (m, nodes, tn)
      = (m(length rs \<mapsto> length ?ds), nodes @ [?nd], tn @ dir_name names r)"
    using True nm small by (simp add: Let_def)
  have new: "slice_get (tn @ dir_name names r) ?off (?off + cr_name_len r) = Some (dir_name names r)"
    using slice_get_append [of tn "dir_name names r" "[]"] len by simp
  have bd: "?ds ! j < length rs" if "j < length ?ds" for j using dir_indices_bound [OF that] .
  then have "?ds ! j \<noteq> length rs" if "j < length ?ds" for j using that by (metis less_irrefl)
  with bd inv new len True show ?thesis
    unfolding st collect_inv_def Let_def
    by (auto simp: dir_indices_snoc nth_append less_Suc_eq slice_get_grow)
qed

lemma collect_directories_inv:
  assumes "dir_names_ok rs names"
  shows "collect_inv rs names (collect_directories names (enumerate 0 rs) (Map.empty, [], []))"
  using assms
proof (induction rs rule: rev_induct)
  case Nil
  then show ?case by (simp add: collect_inv_def dir_indices_def)
next
  case (snoc r rs)
  obtain m nodes tn where st: "collect_directories names (enumerate 0 rs) (Map.empty, [], []) = (m, nodes, tn)"
    by (cases "collect_directories names (enumerate 0 rs) (Map.empty, [], [])") auto
  have "dir_names_ok rs names" using snoc.prems by (auto simp: dir_names_ok_def)
  with snoc.IH st have "collect_inv rs names (m, nodes, tn)" by simp
  from collect_inv_step [OF this snoc.prems] st show ?case
    by (simp add: enumerate_append_eq collect_directories_append del: collect_directories.simps)
qed

lemma trie_build_nodes:
  assumes ok: "dir_names_ok records names"
  shows "\<exists>t. trie_build records names = Some t \<and> trie_inv t \<and> length (pt_nodes t) = length (dir_indices records)
     \<and> (\<forall>j < length (dir_indices records).
          name_of t j = Some (dir_name names (records ! (dir_indices records ! j)))
          \<and> (\<forall>p. parent_of t j = Some p \<longleftrightarrow> p < length (dir_indices records)
               \<and> cr_parent_idx (records ! (dir_indices records ! j)) = dir_indices records ! p))"
proof -
  let ?ds = "dir_indices records"
  obtain m nodes0 tn where st: "collect_directories names (enumerate 0 records) (Map.empty, [], []) = (m, nodes0, tn)"
    by (cases "collect_directories names (enumerate 0 records) (Map.empty, [], [])") auto
  define nodes where "nodes = map (\<lambda>nd. nd\<lparr>tn_parent_idx := trie_parent m (tn_parent_idx nd)\<rparr>) nodes0"
  from collect_directories_inv [OF ok] st have inv: "length nodes0 = length ?ds" "dom m = set ?ds"
    "\<And>j. j < length ?ds \<Longrightarrow> m (?ds ! j) = Some j \<and> tn_parent_idx (nodes0 ! j) = cr_parent_idx (records ! (?ds ! j))
       \<and> slice_get tn (tn_name_offset (nodes0 ! j)) (tn_name_offset (nodes0 ! j) + tn_name_len (nodes0 ! j))
           = Some (dir_name names (records ! (?ds ! j)))"
    by (auto simp: collect_inv_def Let_def)
  have len: "length nodes = length ?ds" "length ?ds \<le> length records" "length records \<le> u32_max"
    using inv(1) ok length_dir_indices [of records] by (auto simp: nodes_def dir_names_ok_def)
  then have small: "length nodes \<le> u32_max" by simp
  from csr_build_spec [of "map node_key nodes" "length nodes"] small obtain ch
    where ch: "build_children_csr nodes = Some ch" by (auto simp: build_children_csr_def)
  let ?t = "\<lparr>pt_nodes = nodes, pt_names = tn, pt_children = ch\<rparr>"
  have t: "trie_build records names = Some ?t" by (simp add: trie_build_def st Let_def ch flip: nodes_def)
  moreover have "trie_inv ?t" by (rule trie_build_inv [OF t]) (simp add: small)
  moreover have "name_of ?t j = Some (dir_name names (records ! (?ds ! j)))" if "j < length ?ds" for j
    using inv(1,3) that by (auto simp: name_of_def nodes_def)
  moreover have "parent_of ?t j = Some p \<longleftrightarrow> p < length ?ds \<and> cr_parent_idx (records ! (?ds ! j)) = ?ds ! p" if j: "j < length ?ds" for j p
  proof -
    let ?rp = "cr_parent_idx (records ! (?ds ! j))"
    have par: "tn_parent_idx (nodes ! j) = trie_parent m ?rp" using inv(1) inv(3) [OF j] j by (simp add: nodes_def)
    have m: "m ?rp = Some p \<longleftrightarrow> p < length ?ds \<and> ?rp = ?ds ! p" for p
    proof
      assume a: "m ?rp = Some p"
      then have "?rp \<in> set ?ds" using inv(2) by (metis domI)
      then obtain q where q: "q < length ?ds" "?rp = ?ds ! q" by (metis in_set_conv_nth)
      with a inv(3) [OF q(1)] show "p < length ?ds \<and> ?rp = ?ds ! p" by simp
    qed (use inv(3) in auto)
    have bound: "?ds ! q \<noteq> u32_max" "q \<noteq> u32_max" if "q < length ?ds" for q
      using dir_indices_bound [OF that] len that by auto
    have "parent_of ?t j = Some p \<longleftrightarrow> m ?rp = Some p"
    proof (cases "m ?rp")
      case None
      with par j len(1) show ?thesis by (simp add: parent_of_def trie_parent_def NO_PARENT_def)
    next
      case (Some q)
      with m have q: "q < length ?ds" "?rp = ?ds ! q" by auto
      with bound [OF q(1)] Some par j len(1) show ?thesis by (simp add: parent_of_def trie_parent_def NO_PARENT_def)
    qed
    with m show ?thesis by simp
  qed
  ultimately show ?thesis using len(1) by auto
qed

section \<open>Properties\<close>

text \<open>
  The trie built from any records (with their names inside the buffer) has one node per directory
  record in record order, carries that record's name and points to the node of its parent directory;
  the children of a node are exactly the nodes that point to it.
\<close>

theorem trie_build_faithful:
  assumes "dir_names_ok records names" and "ds = dir_indices records"
  shows "\<exists>t. trie_build records names = Some t \<and> length (pt_nodes t) = length ds \<and>
    (\<forall>j < length ds. name_of t j = Some (dir_name names (records ! (ds ! j)))
       \<and> (\<forall>p. parent_of t j = Some p \<longleftrightarrow> p < length ds \<and> cr_parent_idx (records ! (ds ! j)) = ds ! p)
       \<and> children_of t j = filter (\<lambda>k. parent_of t k = Some j) [0..<length ds])"
  using trie_build_nodes [OF assms(1)] unfolding assms(2) trie_inv_def by metis

text \<open>
  C32. Paths round-trip: in a built trie whose siblings have distinct names, the path of a node that
  hangs below a root is reconstructed (the climb returns) and looking its segments up finds the node.
\<close>

theorem trie_path_roundtrip:
  assumes "trie_build records names = Some t" and "length (pt_nodes t) \<le> u32_max"
    and "sibling_names_distinct t" and "trie_path t i segs"
  shows "full_path t i = Some (Some (join_segments segs)) \<and> lookup_path t segs = Some i"
  using climb_path [OF assms(4), of "[]"] trie_path_in_range [OF assms(4)]
    lookup_own_path [OF trie_build_inv [OF assms(1,2)] assms(3,4)]
  by (simp add: full_path_def)

definition demo_dirs :: "compact_record list" where
  "demo_dirs = [compact_record_default\<lparr>cr_flags := 0x10, cr_parent_idx := 4294967295, cr_name_len := 1\<rparr>,
     compact_record_default\<lparr>cr_name_offset := 1, cr_name_len := 2\<rparr>,
     compact_record_default\<lparr>cr_flags := 0x10, cr_parent_idx := 0, cr_name_offset := 3, cr_name_len := 3\<rparr>]"

definition demo_names :: bytes where "demo_names = [0x43, 0x61, 0x62, 0x73, 0x72, 0x63]"

theorem trie_build_faithful_witness:
  "\<exists>t. trie_build demo_dirs demo_names = Some t \<and> length (pt_nodes t) = 2"
proof -
  have "dir_names_ok demo_dirs demo_names"
    by (simp add: dir_names_ok_def demo_dirs_def demo_names_def compact_record_default_def is_directory_record_def
        DIRECTORY_BIT_def u32_max_def)
  moreover have "length (dir_indices demo_dirs) = 2"
    by (simp add: dir_indices_def demo_dirs_def compact_record_default_def is_directory_record_def DIRECTORY_BIT_def)
  ultimately show ?thesis using trie_build_faithful by metis
qed

definition demo_trie :: path_trie where
  "demo_trie = \<lparr>pt_nodes = [\<lparr>tn_parent_idx = u32_max, tn_name_offset = 0, tn_name_len = 1\<rparr>,
       \<lparr>tn_parent_idx = 0, tn_name_offset = 1, tn_name_len = 3\<rparr>],
     pt_names = [0x43, 0x73, 0x72, 0x63], pt_children = ([0, 1, 1], [1])\<rparr>"

theorem trie_path_roundtrip_witness:
  "full_path demo_trie 1 = Some (Some [0x43, 0x2F, 0x73, 0x72, 0x63])
   \<and> lookup_path demo_trie [[0x43], [0x73, 0x72, 0x63]] = Some 1"
proof -
  have b: "trie_build demo_dirs demo_names = Some demo_trie"
    by (simp add: trie_build_def demo_dirs_def demo_names_def demo_trie_def compact_record_default_def
        is_directory_record_def DIRECTORY_BIT_def slice_get_def u32_max_def trie_parent_def NO_PARENT_def
        build_children_csr_def csr_build_def node_key_def u32_inc_def u32_sat_add_def len_to_u32_def)
  have n: "name_of demo_trie 0 = Some [0x43]" "name_of demo_trie 1 = Some [0x73, 0x72, 0x63]"
    "parent_of demo_trie 0 = None" "parent_of demo_trie 1 = Some 0"
    by (simp_all add: name_of_def parent_of_def demo_trie_def slice_get_def NO_PARENT_def u32_max_def)
  have "trie_path demo_trie 1 ([[0x43]] @ [[0x73, 0x72, 0x63]])"
    using n by (intro trie_path.intros)
  moreover have "length (pt_nodes demo_trie) \<le> u32_max" by (simp add: demo_trie_def u32_max_def)
  moreover have "sibling_names_distinct demo_trie"
    using n by (auto simp: sibling_names_distinct_def demo_trie_def less_Suc_eq)
  ultimately show ?thesis using trie_path_roundtrip [OF b] by simp
qed

text \<open>
  A directory record whose parent index is its own index builds a trie on which \<open>full_path\<close> of that
  directory never returns; nothing in the build rules such records out.
\<close>

theorem full_path_diverges_on_self_parent:
  assumes "dir_names_ok records names" and "j < length (dir_indices records)"
    and "cr_parent_idx (records ! (dir_indices records ! j)) = dir_indices records ! j"
  shows "\<exists>t. trie_build records names = Some t \<and> full_path t j = None"
proof -
  obtain t where t: "trie_build records names = Some t" "length (pt_nodes t) = length (dir_indices records)"
    "name_of t j = Some (dir_name names (records ! (dir_indices records ! j)))" "parent_of t j = Some j"
    using trie_build_nodes [OF assms(1)] assms(2,3) by metis
  with climb_self_loop [OF t(4,3)] assms(2) show ?thesis by (auto simp: full_path_def)
qed

theorem full_path_diverges_on_self_parent_witness:
  "\<exists>t. trie_build [compact_record_default\<lparr>cr_flags := 0x10\<rparr>] [] = Some t \<and> full_path t 0 = None"
proof -
  let ?rs = "[compact_record_default\<lparr>cr_flags := 0x10\<rparr>]"
  have "dir_names_ok ?rs []"
    by (simp add: dir_names_ok_def compact_record_default_def is_directory_record_def DIRECTORY_BIT_def u32_max_def)
  moreover have "dir_indices ?rs = [0]"
    by (simp add: dir_indices_def compact_record_default_def is_directory_record_def DIRECTORY_BIT_def)
  ultimately show ?thesis using full_path_diverges_on_self_parent [of ?rs "[]" 0] by (simp add: compact_record_default_def)
qed

end
