(* ===== verification/Case_Fold.thy ===== *)
theory Case_Fold
  imports Rust_Prelude "HOL-Library.Sublist" "HOL-Library.List_Lexorder"
begin

text \<open>
  The NTFS \<open>$UpCase\<close> case folding (\<open>crates/uffs-text/src/case_fold.rs\<close>). A table is its list of 16-bit
  entries, a string is the list of its scalar values (\<open>str::chars\<close>), and the folded form of a string is
  a list of 16-bit words. The tables themselves are data of the volume and stay variables.
\<close>

section \<open>Definitions\<close>

type_synonym case_fold = "u16 list"

definition fold_char :: "case_fold \<Rightarrow> nat \<Rightarrow> u16" where
  "fold_char t cp =
     (if cp < 0x10000 then (case vec_get t cp of None \<Rightarrow> of_nat cp | Some u \<Rightarrow> u)
      else of_nat (cp mod 0x10000))"

fun cmp_str :: "case_fold \<Rightarrow> nat list \<Rightarrow> nat list \<Rightarrow> ordering" where
  "cmp_str t [] [] = Equal"
| "cmp_str t [] (b # bs) = Less"
| "cmp_str t (a # as) [] = Greater"
| "cmp_str t (a # as) (b # bs) =
     (if fold_char t a = fold_char t b then cmp_str t as bs
      else if fold_char t a < fold_char t b then Less else Greater)"

definition fold_to_u16 :: "case_fold \<Rightarrow> nat list \<Rightarrow> u16 list" where
  "fold_to_u16 t text = map (fold_char t) text"

text \<open>The three pattern loops consume the input one character per pattern entry.\<close>

fun eq_folded :: "case_fold \<Rightarrow> nat list \<Rightarrow> u16 list \<Rightarrow> bool" where
  "eq_folded t input [] \<longleftrightarrow> input = []"
| "eq_folded t [] (p # ps) \<longleftrightarrow> False"
| "eq_folded t (c # cs) (p # ps) \<longleftrightarrow> fold_char t c = p \<and> eq_folded t cs ps"

fun starts_with_folded :: "case_fold \<Rightarrow> nat list \<Rightarrow> u16 list \<Rightarrow> bool" where
  "starts_with_folded t input [] \<longleftrightarrow> True"
| "starts_with_folded t [] (p # ps) \<longleftrightarrow> False"
| "starts_with_folded t (c # cs) (p # ps) \<longleftrightarrow> fold_char t c = p \<and> starts_with_folded t cs ps"

definition ends_with_folded :: "case_fold \<Rightarrow> nat list \<Rightarrow> u16 list \<Rightarrow> bool" where
  "ends_with_folded t input suffix_folded \<longleftrightarrow> starts_with_folded t (rev input) (rev suffix_folded)"

text \<open>\<open>slice::windows\<close>, for a positive size.\<close>

definition windows :: "nat \<Rightarrow> 'a list \<Rightarrow> 'a list list" where
  "windows n xs = map (\<lambda>i. take n (drop i xs)) [0..<Suc (length xs) - n]"

definition contains_folded :: "case_fold \<Rightarrow> nat list \<Rightarrow> u16 list \<Rightarrow> bool" where
  "contains_folded t input needle \<longleftrightarrow>
     needle = [] \<or> list_ex (\<lambda>w. w = needle) (windows (length needle) (map (fold_char t) input))"

definition upcase_diff :: "case_fold \<Rightarrow> case_fold \<Rightarrow> (u16 \<times> u16 \<times> u16) list" where
  "upcase_diff t other =
     map (\<lambda>(idx, lhs, rhs). (if idx \<le> u16_max then of_nat idx else 0, lhs, rhs))
       (filter (\<lambda>(idx, lhs, rhs). lhs \<noteq> rhs) (enumerate 0 (zip t other)))"

text \<open>\<open>char::from_u32\<close> and \<open>char::encode_utf8\<close>.\<close>

definition is_scalar :: "nat \<Rightarrow> bool" where
  "is_scalar cp \<longleftrightarrow> cp < 0xD800 \<or> (0xE000 \<le> cp \<and> cp < 0x110000)"

definition encode_utf8 :: "nat \<Rightarrow> bytes" where
  "encode_utf8 cp =
     (if cp < 0x80 then [of_nat cp]
      else if cp < 0x800 then [of_nat (0xC0 + cp div 64), of_nat (0x80 + cp mod 64)]
      else if cp < 0x10000 then
        [of_nat (0xE0 + cp div 4096), of_nat (0x80 + cp div 64 mod 64), of_nat (0x80 + cp mod 64)]
      else [of_nat (0xF0 + cp div 262144), of_nat (0x80 + cp div 4096 mod 64), of_nat (0x80 + cp div 64 mod 64),
            of_nat (0x80 + cp mod 64)])"

definition fold_bytes :: "case_fold \<Rightarrow> nat \<Rightarrow> bytes" where
  "fold_bytes t cp =
     (if cp < 0x80 then
        (let folded = (case vec_get t cp of None \<Rightarrow> of_nat cp | Some u \<Rightarrow> u) in
         [if unat folded \<le> 0xFF then ucast folded else 0])
      else if cp < 0x10000 then
        (let folded_cp = unat (case vec_get t cp of None \<Rightarrow> of_nat cp | Some u \<Rightarrow> u) in
         if is_scalar folded_cp then encode_utf8 folded_cp else [])
      else encode_utf8 cp)"

definition fold_into :: "case_fold \<Rightarrow> nat list \<Rightarrow> bytes" where
  "fold_into t name = (let buf = concat (map (fold_bytes t) name) in if utf8_valid buf then buf else [])"

section \<open>Windows\<close>

lemma mem_windows: "0 < n \<Longrightarrow> w \<in> set (windows n xs) \<longleftrightarrow> length w = n \<and> sublist w xs"
proof
  assume n: "0 < n" and "w \<in> set (windows n xs)"
  then obtain i where "i < Suc (length xs) - n" and w: "w = take n (drop i xs)" by (auto simp: windows_def)
  then have i: "i + n \<le> length xs" "w = take n (drop i xs)" by simp_all
  then have "xs = take i xs @ w @ drop n (drop i xs)" by (metis append_take_drop_id)
  then show "length w = n \<and> sublist w xs" using i by (auto simp: sublist_def)
next
  assume n: "0 < n" and "length w = n \<and> sublist w xs"
  then obtain ps ss where xs: "xs = ps @ w @ ss" and len: "length w = n" by (auto simp: sublist_def)
  then have "w = take n (drop (length ps) xs)" "length ps < Suc (length xs) - n" by auto
  then show "w \<in> set (windows n xs)" unfolding windows_def by auto
qed

lemma windows_mono: "sublist xs ys \<Longrightarrow> 0 < n \<Longrightarrow> set (windows n xs) \<subseteq> set (windows n ys)"
  by (auto simp: mem_windows intro: sublist_order.order.trans)

section \<open>Matching\<close>

lemma eq_folded_iff: "eq_folded t input p \<longleftrightarrow> fold_to_u16 t input = p"
  by (induction t input p rule: eq_folded.induct) (auto simp: fold_to_u16_def)

lemma starts_with_folded_iff: "starts_with_folded t input p \<longleftrightarrow> prefix p (fold_to_u16 t input)"
  by (induction t input p rule: starts_with_folded.induct) (auto simp: fold_to_u16_def)

lemma ends_with_folded_iff: "ends_with_folded t input p \<longleftrightarrow> suffix p (fold_to_u16 t input)"
  by (simp add: ends_with_folded_def starts_with_folded_iff fold_to_u16_def rev_map suffix_to_prefix)

lemma contains_folded_iff: "contains_folded t input needle \<longleftrightarrow> sublist needle (fold_to_u16 t input)"
  by (cases "needle = []") (auto simp: contains_folded_def fold_to_u16_def list_ex_iff mem_windows)

text \<open>
  The four pattern tests of the case folding decide exactly equality, prefix, suffix and substring
  of the folded text, for every text, table and pattern.
\<close>

theorem folded_tests_exact:
  "eq_folded t input p = (fold_to_u16 t input = p) \<and> starts_with_folded t input p = prefix p (fold_to_u16 t input)
   \<and> ends_with_folded t input p = suffix p (fold_to_u16 t input)
   \<and> contains_folded t input p = sublist p (fold_to_u16 t input)"
  by (simp add: eq_folded_iff starts_with_folded_iff ends_with_folded_iff contains_folded_iff)

text \<open>
  The case-insensitive string order is the lexicographic order of the folded texts: two strings
  compare equal exactly when they fold to the same text, and it is a total order on folded texts.
\<close>

theorem cmp_str_lexicographic: "cmp_str t lhs rhs = num_cmp (fold_to_u16 t rhs) (fold_to_u16 t lhs)"
  by (induction t lhs rhs rule: cmp_str.induct) (auto simp: fold_to_u16_def num_cmp_def)

section \<open>The folded buffer\<close>

lemma unat_of_nat_byte: "n < 256 \<Longrightarrow> unat (of_nat n :: u8) = n"
  by (simp add: unat_of_nat take_bit_nat_eq_self)

lemma utf8_next_two:
  "unat x = 0xC0 + a \<Longrightarrow> unat y = 0x80 + b \<Longrightarrow> 2 \<le> a \<Longrightarrow> a < 32 \<Longrightarrow> b < 64 \<Longrightarrow>
   utf8_next (x # y # r) = Some (a * 64 + b, r)"
  by (simp add: cont_byte_def Let_def)

lemma utf8_next_three:
  "unat x = 0xE0 + a \<Longrightarrow> unat y = 0x80 + b \<Longrightarrow> unat z = 0x80 + c \<Longrightarrow> a < 16 \<Longrightarrow> b < 64 \<Longrightarrow> c < 64 \<Longrightarrow>
   (a = 0 \<Longrightarrow> 32 \<le> b) \<Longrightarrow> (a = 13 \<Longrightarrow> b < 32) \<Longrightarrow>
   utf8_next (x # y # z # r) = Some (a * 4096 + b * 64 + c, r)"
  by (auto simp: cont_byte_def utf8_second_ok_def Let_def)

lemma utf8_next_four:
  "unat x = 0xF0 + a \<Longrightarrow> unat y = 0x80 + b \<Longrightarrow> unat z = 0x80 + c \<Longrightarrow> unat w = 0x80 + d \<Longrightarrow>
   a < 5 \<Longrightarrow> b < 64 \<Longrightarrow> c < 64 \<Longrightarrow> d < 64 \<Longrightarrow> (a = 0 \<Longrightarrow> 16 \<le> b) \<Longrightarrow> (a = 4 \<Longrightarrow> b < 16) \<Longrightarrow>
   utf8_next (x # y # z # w # r) = Some (a * 262144 + b * 4096 + c * 64 + d, r)"
  by (auto simp: cont_byte_def utf8_second_ok_def Let_def)

lemma utf8_next_encode:
  assumes "is_scalar cp"
  shows "utf8_next (encode_utf8 cp @ rest) = Some (cp, rest)"
proof -
  define a3 b3 a4 b2 c2 where d: "a3 = cp div 4096" "b3 = cp div 64 mod 64" "a4 = cp div 262144"
    "b2 = cp div 4096 mod 64" "c2 = cp mod 64"
  have "cp = cp div 64 * 64 + c2" "cp div 64 = a3 * 64 + b3" "a3 = a4 * 64 + b2"
    using div_mult_mod_eq [of cp 64] div_mult_mod_eq [of "cp div 64" 64] div_mult_mod_eq [of "cp div 4096" 64]
    by (simp_all add: d flip: div_mult2_eq)
  then have cp3: "cp = a3 * 4096 + b3 * 64 + c2" and cp4: "cp = a4 * 262144 + b2 * 4096 + b3 * 64 + c2" by simp_all
  have lt: "b3 < 64" "c2 < 64" "b2 < 64" by (simp_all add: d)
  consider "cp < 0x80" | "0x80 \<le> cp" "cp < 0x800" | "0x800 \<le> cp" "cp < 0x10000" | "0x10000 \<le> cp" "cp < 0x110000"
    using assms by (force simp: is_scalar_def)
  then show ?thesis
  proof cases
    case 1
    then show ?thesis by (simp add: encode_utf8_def unat_of_nat_byte)
  next
    case 2
    then have "cp div 64 < 32" "2 \<le> cp div 64" by auto
    then have "utf8_next (of_nat (0xC0 + cp div 64) # of_nat (0x80 + c2) # rest) = Some (cp div 64 * 64 + c2, rest)"
      using lt by (intro utf8_next_two unat_of_nat_byte) auto
    with 2 show ?thesis by (simp add: encode_utf8_def d(5))
  next
    case 3
    then have "a3 < 16" by (auto simp: d)
    moreover have "32 \<le> b3" if "a3 = 0" using cp3 3(1) lt that by linarith
    moreover have "b3 < 32" if "a3 = 13" using cp3 assms [unfolded is_scalar_def] lt that by linarith
    ultimately have n:  "utf8_next (of_nat (0xE0 + a3) # of_nat (0x80 + b3) # of_nat (0x80 + c2) # rest)
        = Some (a3 * 4096 + b3 * 64 + c2, rest)"
      using lt by (intro utf8_next_three unat_of_nat_byte) auto
    have "encode_utf8 cp = [of_nat (0xE0 + a3), of_nat (0x80 + b3), of_nat (0x80 + c2)]"
      using 3 by (simp add: encode_utf8_def d)
    with n show ?thesis by (simp flip: cp3)
  next
    case 4
    then have "a4 < 5" by (auto simp: d)
    moreover have "16 \<le> b2" if "a4 = 0" using cp4 4(1) lt that by linarith
    moreover have "b2 < 16" if "a4 = 4" using cp4 4(2) lt that by linarith
    ultimately have n:  "utf8_next (of_nat (0xF0 + a4) # of_nat (0x80 + b2) # of_nat (0x80 + b3) # of_nat (0x80 + c2) # rest)
        = Some (a4 * 262144 + b2 * 4096 + b3 * 64 + c2, rest)"
      using lt by (intro utf8_next_four unat_of_nat_byte) auto
    have "encode_utf8 cp = [of_nat (0xF0 + a4), of_nat (0x80 + b2), of_nat (0x80 + b3), of_nat (0x80 + c2)]"
      using 4 by (simp add: encode_utf8_def d)
    with n show ?thesis by (simp flip: cp4)
  qed
qed

lemma utf8_chars_encode:
  "\<forall>c \<in> set cs. is_scalar c \<Longrightarrow> utf8_chars (concat (map encode_utf8 cs)) = Some cs"
proof (induction cs)
  case (Cons c cs)
  moreover have "encode_utf8 c \<noteq> []" by (simp add: encode_utf8_def)
  ultimately show ?case by (subst utf8_chars.simps) (simp add: utf8_next_encode)
qed simp

text \<open>A table as NTFS has them: ASCII stays ASCII and a scalar value folds to a scalar value.\<close>

definition upcase_ok :: "case_fold \<Rightarrow> bool" where
  "upcase_ok t \<longleftrightarrow> list_all (\<lambda>(i, u). (i < 0x80 \<longrightarrow> unat u < 0x80) \<and> is_scalar (unat u)) (enumerate 0 t)"

lemma upcase_ok_nth: "upcase_ok t \<Longrightarrow> i < length t \<Longrightarrow> (i < 0x80 \<longrightarrow> unat (t ! i) < 0x80) \<and> is_scalar (unat (t ! i))"
  by (auto simp: upcase_ok_def list_all_iff in_set_enumerate_eq)

definition fold_scalar :: "case_fold \<Rightarrow> nat \<Rightarrow> nat" where
  "fold_scalar t cp = (if cp < 0x10000 then unat (fold_char t cp) else cp)"

lemma fold_bytes_encode:
  assumes "upcase_ok t" and "is_scalar cp"
  shows "is_scalar (fold_scalar t cp)" and "fold_bytes t cp = encode_utf8 (fold_scalar t cp)"
proof -
  have un: "unat (of_nat cp :: u16) = cp" if "cp < 0x10000" using that by (simp add: unat_of_nat take_bit_nat_eq_self)
  show s: "is_scalar (fold_scalar t cp)"
    using assms upcase_ok_nth [OF assms(1), of cp] un
    by (auto simp: fold_scalar_def fold_char_def vec_get_def)
  show "fold_bytes t cp = encode_utf8 (fold_scalar t cp)"
  proof (cases "cp < 0x80")
    case True
    with upcase_ok_nth [OF assms(1), of cp] un
    have "fold_scalar t cp < 0x80" by (auto simp: fold_scalar_def fold_char_def vec_get_def)
    moreover have "ucast u = (of_nat (unat u) :: u8)" for u :: u16 by simp
    ultimately show ?thesis using True
      by (simp add: fold_bytes_def encode_utf8_def fold_scalar_def fold_char_def Let_def)
  next
    case False
    with s show ?thesis by (auto simp: fold_bytes_def fold_scalar_def fold_char_def Let_def)
  qed
qed

text \<open>
  The folded name a search compares is well-formed UTF-8 and decodes to the folded characters of the
  name, one for each, under a table that maps scalar values to scalar values and ASCII to ASCII.
\<close>

theorem fold_into_decodes:
  assumes "upcase_ok t" and "\<forall>c \<in> set name. is_scalar c"
  shows "utf8_chars (fold_into t name) = Some (map (fold_scalar t) name)"
proof -
  have "concat (map (fold_bytes t) name) = concat (map encode_utf8 (map (fold_scalar t) name))"
    using fold_bytes_encode [OF assms(1)] assms(2) by (simp add: comp_def cong: map_cong)
  moreover have "utf8_chars (concat (map encode_utf8 (map (fold_scalar t) name))) = Some (map (fold_scalar t) name)"
    using fold_bytes_encode [OF assms(1)] assms(2) by (intro utf8_chars_encode) auto
  ultimately show ?thesis by (simp add: fold_into_def utf8_valid_def Let_def)
qed

theorem fold_into_decodes_witness: "utf8_chars (fold_into [] [0x61, 0x20AC]) = Some [0x61, 0x20AC]"
  using fold_into_decodes [of "[]" "[0x61, 0x20AC]"]
  by (simp add: upcase_ok_def is_scalar_def fold_scalar_def fold_char_def vec_get_def)

end
