(* ===== verification/Index_Delta.thy ===== *)
theory Index_Delta
  imports Rust_Prelude
begin

text \<open>
  The overlay of index changes since the last full build (\<open>crates/uffs-core/src/compact/delta.rs\<close>):
  posting lists per trigram, extension and parent, a set of tombstoned records, and the two merges of
  a base posting list with a delta posting list. Record indices are natural numbers below \<open>2^32\<close>.
\<close>

section \<open>Definitions\<close>

record index_delta =
  id_trigram :: "u64 \<rightharpoonup> nat list"
  id_ext :: "nat \<rightharpoonup> nat list"
  id_children :: "nat \<rightharpoonup> nat list"
  id_tombstones :: "nat set"
  id_touched_records :: nat

definition index_delta_default :: index_delta where
  "index_delta_default = \<lparr>id_trigram = Map.empty, id_ext = Map.empty, id_children = Map.empty,
     id_tombstones = {}, id_touched_records = 0\<rparr>"

definition sorted_insert :: "nat list \<Rightarrow> nat \<Rightarrow> nat list" where
  "sorted_insert xs v = (case binary_search xs v of Inr _ \<Rightarrow> xs | Inl pos \<Rightarrow> take pos xs @ v # drop pos xs)"

text \<open>\<open>sorted_insert(map.entry(key).or_default(), idx)\<close>.\<close>

definition postings :: "('k \<rightharpoonup> nat list) \<Rightarrow> 'k \<Rightarrow> nat list" where
  "postings m k = (case m k of None \<Rightarrow> [] | Some l \<Rightarrow> l)"

definition entry_insert :: "nat \<Rightarrow> 'k \<Rightarrow> ('k \<rightharpoonup> nat list) \<Rightarrow> ('k \<rightharpoonup> nat list)" where
  "entry_insert idx k m = m(k \<mapsto> sorted_insert (postings m k) idx)"

definition add_record :: "nat \<Rightarrow> u64 list \<Rightarrow> nat \<Rightarrow> nat \<Rightarrow> index_delta \<Rightarrow> index_delta" where
  "add_record idx trigrams ext_id parent_idx d =
     d\<lparr>id_trigram := fold (entry_insert idx) trigrams (id_trigram d),
       id_ext := entry_insert idx ext_id (id_ext d),
       id_children := (if parent_idx \<noteq> u32_max then entry_insert idx parent_idx (id_children d) else id_children d),
       id_touched_records := u32_sat_add (id_touched_records d) 1\<rparr>"

definition tombstone :: "nat \<Rightarrow> index_delta \<Rightarrow> index_delta" where
  "tombstone idx d =
     (if idx \<notin> id_tombstones d
      then d\<lparr>id_tombstones := insert idx (id_tombstones d), id_touched_records := u32_sat_add (id_touched_records d) 1\<rparr>
      else d)"

definition is_tombstoned :: "index_delta \<Rightarrow> nat \<Rightarrow> bool" where
  "is_tombstoned d idx \<longleftrightarrow> idx \<in> id_tombstones d"

definition delta_len :: "index_delta \<Rightarrow> nat" where "delta_len d = id_touched_records d"
definition delta_is_empty :: "index_delta \<Rightarrow> bool" where "delta_is_empty d \<longleftrightarrow> id_touched_records d = 0"

definition trigram_postings :: "index_delta \<Rightarrow> u64 \<Rightarrow> nat list" where
  "trigram_postings d key = postings (id_trigram d) key"

definition ext_postings :: "index_delta \<Rightarrow> nat \<Rightarrow> nat list" where
  "ext_postings d ext_id = postings (id_ext d) ext_id"

definition child_postings :: "index_delta \<Rightarrow> nat \<Rightarrow> nat list" where
  "child_postings d parent_idx = postings (id_children d) parent_idx"

text \<open>The values that \<open>merge_filter\<close> emits, in order.\<close>

fun merge_filter :: "nat list \<Rightarrow> nat list \<Rightarrow> (nat \<Rightarrow> bool) \<Rightarrow> nat list" where
  "merge_filter (bv # base) (dv # delta) is_valid =
     (if bv < dv then (if is_valid bv then [bv] else []) @ merge_filter base (dv # delta) is_valid
      else if bv > dv then (if is_valid dv then [dv] else []) @ merge_filter (bv # base) delta is_valid
      else (if is_valid bv then [bv] else []) @ merge_filter base delta is_valid)"
| "merge_filter (bv # base) [] is_valid = (if is_valid bv then [bv] else []) @ merge_filter base [] is_valid"
| "merge_filter [] (dv # delta) is_valid = (if is_valid dv then [dv] else []) @ merge_filter [] delta is_valid"
| "merge_filter [] [] is_valid = []"

definition push_new :: "nat list \<Rightarrow> nat \<Rightarrow> nat list" where
  "push_new out v = (if out \<noteq> [] \<and> last out = v then out else out @ [v])"

fun merge_loop :: "nat list \<Rightarrow> nat list \<Rightarrow> nat list \<Rightarrow> nat list" where
  "merge_loop (bv # base) (dv # delta) out =
     (if bv < dv then merge_loop base (dv # delta) (push_new out bv)
      else if bv > dv then merge_loop (bv # base) delta (push_new out dv)
      else merge_loop base delta (push_new out bv))"
| "merge_loop (bv # base) [] out = merge_loop base [] (push_new out bv)"
| "merge_loop [] (dv # delta) out = merge_loop [] delta (push_new out dv)"
| "merge_loop [] [] out = out"

definition merge_postings :: "nat list \<Rightarrow> nat list \<Rightarrow> nat list" where
  "merge_postings base delta =
     (if delta = [] then base else if base = [] then delta else merge_loop base delta [])"

section \<open>Strictly ascending lists\<close>

abbreviation ascending :: "nat list \<Rightarrow> bool" where "ascending xs \<equiv> sorted_wrt (<) xs"

lemma ascending_unique: "ascending xs \<Longrightarrow> ascending ys \<Longrightarrow> set xs = set ys \<Longrightarrow> xs = ys"
  by (simp add: strict_sorted_equal)

lemma ascending_filter_upt:
  assumes "ascending xs" and "\<And>i. i \<in> set xs \<longleftrightarrow> i < n \<and> P i"
  shows "xs = filter P [0..<n]"
  using assms by (intro ascending_unique) (auto simp: sorted_wrt_filter)

lemma sorted_insert_ascending:
  assumes "ascending xs"
  shows "ascending (sorted_insert xs v)" and "set (sorted_insert xs v) = insert v (set xs)"
proof -
  have "ascending (sorted_insert xs v) \<and> set (sorted_insert xs v) = insert v (set xs)"
  proof (cases "v \<in> set xs")
    case True
    with binary_search_found [OF assms True] assms show ?thesis by (auto simp: sorted_insert_def)
  next
    case False
    from binary_search_missing [OF assms False] obtain i where i: "binary_search xs v = Inl i" "i \<le> length xs"
      "\<forall>x \<in> set (take i xs). x < v" "\<forall>x \<in> set (drop i xs). v < x" by auto
    have "ascending (take i xs)" "ascending (drop i xs)" using assms by (simp_all add: sorted_wrt_take sorted_wrt_drop)
    then have "ascending (take i xs @ v # drop i xs)"
      using i(3,4) by (simp add: sorted_wrt_append) (meson less_trans)
    moreover have "set (take i xs @ v # drop i xs) = insert v (set xs)"
      by (metis Un_insert_right append_take_drop_id list.simps(15) set_append)
    ultimately show ?thesis using i(1) by (simp add: sorted_insert_def)
  qed
  then show "ascending (sorted_insert xs v)" "set (sorted_insert xs v) = insert v (set xs)" by auto
qed

section \<open>Merging\<close>

lemma merge_filter_spec:
  "ascending b \<Longrightarrow> ascending d \<Longrightarrow>
   ascending (merge_filter b d P) \<and> set (merge_filter b d P) = {x \<in> set b \<union> set d. P x}"
  by (induction b d P rule: merge_filter.induct) (auto simp: not_less_iff_gr_or_eq)

lemma merge_loop_spec:
  "ascending b \<Longrightarrow> ascending d \<Longrightarrow> ascending out \<Longrightarrow> \<forall>x \<in> set out. \<forall>y \<in> set b \<union> set d. x < y \<Longrightarrow>
   merge_loop b d out = out @ merge_filter b d (\<lambda>_. True)"
proof (induction b d out rule: merge_loop.induct)
  case (1 bv base dv delta out)
  consider (lt) "bv < dv" | (gt) "dv < bv" | (eq) "bv = dv" by linarith
  then show ?case
  proof cases
    case lt
    with "1.prems" have "push_new out bv = out @ [bv]" by (auto simp: push_new_def)
    moreover have "merge_loop base (dv # delta) (out @ [bv]) = (out @ [bv]) @ merge_filter base (dv # delta) (\<lambda>_. True)"
      using "1.IH"(1) [OF lt] calculation "1.prems" lt by (force simp: sorted_wrt_append)
    ultimately show ?thesis using lt by simp
  next
    case gt
    with "1.prems" have "push_new out dv = out @ [dv]" by (auto simp: push_new_def)
    moreover have "merge_loop (bv # base) delta (out @ [dv]) = (out @ [dv]) @ merge_filter (bv # base) delta (\<lambda>_. True)"
      using "1.IH"(2) gt calculation "1.prems" by (force simp: sorted_wrt_append)
    ultimately show ?thesis using gt by simp
  next
    case eq
    with "1.prems" have "push_new out bv = out @ [bv]" by (auto simp: push_new_def)
    moreover have "merge_loop base delta (out @ [bv]) = (out @ [bv]) @ merge_filter base delta (\<lambda>_. True)"
      using "1.IH"(3) eq calculation "1.prems" by (force simp: sorted_wrt_append)
    ultimately show ?thesis using eq by simp
  qed
next
  case (2 bv base out)
  then have "push_new out bv = out @ [bv]" by (auto simp: push_new_def)
  with 2 show ?case by (auto simp: sorted_wrt_append)
next
  case (3 dv delta out)
  then have "push_new out dv = out @ [dv]" by (auto simp: push_new_def)
  with 3 show ?case by (auto simp: sorted_wrt_append)
qed simp

lemma merge_postings_eq: "ascending b \<Longrightarrow> ascending d \<Longrightarrow> merge_postings b d = merge_filter b d (\<lambda>_. True)"
  using merge_filter_spec [of b d "\<lambda>_. True"] merge_loop_spec [of b d "[]"]
  by (auto simp: merge_postings_def intro!: ascending_unique)

text \<open>
  What a merge of a base posting list with a delta posting list promises its callers: an ascending
  list of the union. A query that validates each candidate against the records is then exact as soon
  as every record that satisfies it is in one of the two lists.
\<close>

locale posting_union =
  fixes merge :: "nat list \<Rightarrow> nat list \<Rightarrow> nat list"
  assumes merge_ascending: "ascending b \<Longrightarrow> ascending d \<Longrightarrow> ascending (merge b d)"
    and merge_set: "ascending b \<Longrightarrow> ascending d \<Longrightarrow> set (merge b d) = set b \<union> set d"
begin

lemma covered_query_exact:
  assumes "ascending b" and "ascending d" and "\<And>i. P i \<Longrightarrow> i < n \<and> i \<in> set b \<union> set d"
  shows "filter P (merge b d) = filter P [0..<n]"
  using assms merge_ascending [of b d] merge_set [of b d]
  by (intro ascending_filter_upt) (auto simp: sorted_wrt_filter)

lemma merge_commute: "ascending b \<Longrightarrow> ascending d \<Longrightarrow> merge b d = merge d b"
  using merge_ascending merge_set by (intro ascending_unique) auto

end

interpretation merging: posting_union merge_postings
  by unfold_locales (auto simp: merge_postings_eq merge_filter_spec)

interpretation filtering: posting_union "\<lambda>b d. merge_filter b d (\<lambda>_. True)"
  by unfold_locales (auto simp: merge_filter_spec)

lemma merge_filter_is_filter:
  "ascending b \<Longrightarrow> ascending d \<Longrightarrow> merge_filter b d P = filter P (merge_filter b d (\<lambda>_. True))"
  using merge_filter_spec [of b d P] merge_filter_spec [of b d "\<lambda>_. True"]
  by (intro ascending_unique) (auto simp: sorted_wrt_filter)

section \<open>The overlay as a history of changes\<close>

datatype delta_op =
    Add (op_idx: nat) (op_trigrams: "u64 list") (op_ext: nat) (op_parent: nat)
  | Remove (op_idx: nat)

fun delta_apply :: "delta_op \<Rightarrow> index_delta \<Rightarrow> index_delta" where
  "delta_apply (Add idx ts ext par) d = add_record idx ts ext par d"
| "delta_apply (Remove idx) d = tombstone idx d"

definition delta_run :: "delta_op list \<Rightarrow> index_delta" where
  "delta_run ops = fold delta_apply ops index_delta_default"

definition all_ascending :: "('k \<rightharpoonup> nat list) \<Rightarrow> bool" where
  "all_ascending m \<longleftrightarrow> (\<forall>k. ascending (postings m k))"

lemma postings_entry_insert:
  assumes "all_ascending m"
  shows "all_ascending (entry_insert idx k m)"
    and "set (postings (entry_insert idx k m) k') = (if k' = k then {idx} else {}) \<union> set (postings m k')"
  using assms sorted_insert_ascending by (auto simp: all_ascending_def entry_insert_def postings_def)

lemma postings_fold_insert:
  assumes "all_ascending m"
  shows "all_ascending (fold (entry_insert idx) ks m)
    \<and> set (postings (fold (entry_insert idx) ks m) k) = (if k \<in> set ks then {idx} else {}) \<union> set (postings m k)"
  using assms
proof (induction ks arbitrary: m)
  case (Cons k' ks)
  then show ?case
    using postings_entry_insert [OF Cons.prems, of idx k'] Cons.IH [of "entry_insert idx k' m"] by auto
qed simp

definition delta_ok :: "index_delta \<Rightarrow> bool" where
  "delta_ok d \<longleftrightarrow> all_ascending (id_trigram d) \<and> all_ascending (id_ext d) \<and> all_ascending (id_children d)"

lemma delta_ok_default [simp]: "delta_ok index_delta_default"
  by (simp add: delta_ok_def all_ascending_def postings_def index_delta_default_def)

lemma delta_ok_add [simp]: "delta_ok d \<Longrightarrow> delta_ok (add_record idx ts ext par d)"
  by (simp add: delta_ok_def add_record_def postings_fold_insert postings_entry_insert)

lemma delta_ok_tombstone [simp]: "delta_ok (tombstone idx d) = delta_ok d"
  by (simp add: delta_ok_def tombstone_def)

lemma delta_ok_apply: "delta_ok d \<Longrightarrow> delta_ok (delta_apply c d)"
  by (cases c) simp_all

lemma delta_ok_postings:
  assumes "delta_ok d"
  shows "ascending (trigram_postings d t)" "ascending (ext_postings d e)" "ascending (child_postings d p)"
  using assms by (simp_all add: delta_ok_def all_ascending_def trigram_postings_def ext_postings_def child_postings_def)

lemma add_record_postings:
  assumes "delta_ok d"
  shows "set (trigram_postings (add_record idx ts ext par d) t)
      = (if t \<in> set ts then {idx} else {}) \<union> set (trigram_postings d t)"
    and "set (ext_postings (add_record idx ts ext par d) e) = (if e = ext then {idx} else {}) \<union> set (ext_postings d e)"
    and "set (child_postings (add_record idx ts ext par d) p)
      = (if p = par \<and> par \<noteq> u32_max then {idx} else {}) \<union> set (child_postings d p)"
    and "id_tombstones (add_record idx ts ext par d) = id_tombstones d"
  using assms postings_fold_insert [of "id_trigram d" idx ts t]
  by (auto simp: delta_ok_def add_record_def trigram_postings_def ext_postings_def child_postings_def postings_entry_insert)

lemma tombstone_postings [simp]:
  "trigram_postings (tombstone idx d) = trigram_postings d" "ext_postings (tombstone idx d) = ext_postings d"
  "child_postings (tombstone idx d) = child_postings d" "id_tombstones (tombstone idx d) = insert idx (id_tombstones d)"
  by (auto simp: tombstone_def trigram_postings_def [abs_def] ext_postings_def [abs_def] child_postings_def [abs_def])

lemma delta_run_snoc: "delta_run (ops @ [c]) = delta_apply c (delta_run ops)"
  by (simp add: delta_run_def)

lemma delta_run_ok: "delta_ok (delta_run ops)"
  by (induction ops rule: rev_induct) (simp_all add: delta_run_snoc delta_ok_apply, simp add: delta_run_def)

lemma delta_run_trigrams:
  "set (trigram_postings (delta_run ops) t) = {i. \<exists>ts x q. Add i ts x q \<in> set ops \<and> t \<in> set ts}"
proof (induction ops rule: rev_induct)
  case (snoc c ops)
  then show ?case by (cases c) (auto simp: delta_run_snoc add_record_postings [OF delta_run_ok] split: if_splits)
qed (simp add: delta_run_def index_delta_default_def trigram_postings_def postings_def)

lemma delta_run_ext: "set (ext_postings (delta_run ops) e) = {i. \<exists>ts q. Add i ts e q \<in> set ops}"
proof (induction ops rule: rev_induct)
  case (snoc c ops)
  then show ?case by (cases c) (auto simp: delta_run_snoc add_record_postings [OF delta_run_ok] split: if_splits)
qed (simp add: delta_run_def index_delta_default_def ext_postings_def postings_def)

lemma delta_run_children:
  "set (child_postings (delta_run ops) p) = {i. p \<noteq> u32_max \<and> (\<exists>ts x. Add i ts x p \<in> set ops)}"
proof (induction ops rule: rev_induct)
  case (snoc c ops)
  then show ?case by (cases c) (auto simp: delta_run_snoc add_record_postings [OF delta_run_ok] split: if_splits)
qed (simp add: delta_run_def index_delta_default_def child_postings_def postings_def)

lemma delta_run_tombstones: "{i. is_tombstoned (delta_run ops) i} = {i. Remove i \<in> set ops}"
proof (induction ops rule: rev_induct)
  case (snoc c ops)
  then show ?case by (cases c) (auto simp: delta_run_snoc add_record_postings [OF delta_run_ok] is_tombstoned_def)
qed (simp add: delta_run_def index_delta_default_def is_tombstoned_def)

text \<open>
  After any history of changes every posting list of the overlay is strictly ascending and holds
  exactly the records added under its key, and the tombstones are exactly the records removed.
\<close>

theorem delta_history_exact:
  "ascending (trigram_postings (delta_run ops) t) \<and> ascending (ext_postings (delta_run ops) e)
   \<and> ascending (child_postings (delta_run ops) p)
   \<and> set (trigram_postings (delta_run ops) t) = {i. \<exists>ts x q. Add i ts x q \<in> set ops \<and> t \<in> set ts}
   \<and> set (ext_postings (delta_run ops) e) = {i. \<exists>ts q. Add i ts e q \<in> set ops}
   \<and> set (child_postings (delta_run ops) p) = {i. p \<noteq> u32_max \<and> (\<exists>ts x. Add i ts x p \<in> set ops)}
   \<and> {i. is_tombstoned (delta_run ops) i} = {i. Remove i \<in> set ops}"
  by (simp only: delta_ok_postings [OF delta_run_ok] delta_run_trigrams delta_run_ext delta_run_children
      delta_run_tombstones simp_thms)

text \<open>
  Merging two strictly ascending posting lists gives the strictly ascending list of their union,
  each record once, by the allocating merge and by the filtering one alike.
\<close>

theorem merge_is_union:
  assumes "sorted_wrt (<) base" and "sorted_wrt (<) delta"
  shows "merge_postings base delta = sorted_list_of_set (set base \<union> set delta)
    \<and> merge_filter base delta is_valid = filter is_valid (sorted_list_of_set (set base \<union> set delta))"
proof -
  have u: "merge_postings base delta = sorted_list_of_set (set base \<union> set delta)"
    using merging.merge_ascending [OF assms] merging.merge_set [OF assms] by (intro ascending_unique) auto
  moreover have "merge_filter base delta is_valid = filter is_valid (merge_postings base delta)"
    unfolding merge_postings_eq [OF assms] by (rule merge_filter_is_filter [OF assms])
  ultimately show ?thesis by simp
qed

theorem merge_is_union_witness:
  "merge_postings [1, 4, 7] [2, 4] = sorted_list_of_set (set [1, 4, 7] \<union> set [2, 4])
   \<and> merge_filter [1, 4, 7] [2, 4] even = filter even (sorted_list_of_set (set [1, 4, 7] \<union> set [2, 4]))"
  by (rule merge_is_union) simp_all

end
