(* ===== verification/Trigram.thy ===== *)
theory Trigram
  imports Case_Fold Csr_Index Index_Delta "HOL-Library.AList"
begin

text \<open>
  The trigram inverted index (\<open>crates/uffs-core/src/trigram.rs\<close>, \<open>trigram_key.rs\<close>): the parallel two-pass
  build, its pruning of frequent trigrams, the posting lookup and the candidate search.

  Hash maps are association lists: the code sorts what it reads out of them, or adds up counts, so no
  result depends on an iteration order. The parallel scatter of the second pass is a list of stores, and
  the order in which the worker threads perform them is the argument \<open>sched\<close> of the build.
\<close>

section \<open>Trigrams of a name\<close>

definition pack_char_trigram :: "u16 \<Rightarrow> u16 \<Rightarrow> u16 \<Rightarrow> u64" where
  "pack_char_trigram cp0 cp1 cp2 = push_bit 32 (ucast cp0) OR push_bit 16 (ucast cp1) OR ucast cp2"

fun pack_window :: "u16 list \<Rightarrow> u64" where
  "pack_window [cp0, cp1, cp2] = pack_char_trigram cp0 cp1 cp2"
| "pack_window _ = 0"

definition packed_windows :: "u16 list \<Rightarrow> u64 list" where
  "packed_windows folded = map pack_window (windows 3 folded)"

text \<open>\<open>TinyTriSet::insert\<close>: whether the element was new, and the set afterwards.\<close>

definition tri_set_insert :: "u64 \<Rightarrow> u64 list \<Rightarrow> bool \<times> u64 list" where
  "tri_set_insert packed seen = (if packed \<in> set seen then (False, seen) else (True, seen @ [packed]))"

text \<open>The windows for which the insertion succeeds, in order: what each of the three window loops acts on.\<close>

fun fresh_trigrams :: "u64 list \<Rightarrow> u64 list \<Rightarrow> u64 list" where
  "fresh_trigrams seen [] = []"
| "fresh_trigrams seen (packed # rest) =
     (case tri_set_insert packed seen of
        (is_new, seen') \<Rightarrow> (if is_new then [packed] else []) @ fresh_trigrams seen' rest)"

definition folded_name :: "case_fold \<Rightarrow> bytes \<Rightarrow> compact_record \<Rightarrow> u16 list" where
  "folded_name t names r =
     (case slice_get names (cr_name_offset r) (cr_name_offset r + cr_name_len r) of
        None \<Rightarrow> []
      | Some bs \<Rightarrow> map (fold_char t) (case utf8_chars bs of None \<Rightarrow> [] | Some cs \<Rightarrow> cs))"

definition record_trigrams :: "case_fold \<Rightarrow> bytes \<Rightarrow> compact_record \<Rightarrow> u64 list" where
  "record_trigrams t names r =
     (if length (folded_name t names r) < 3 then []
      else fresh_trigrams [] (packed_windows (folded_name t names r)))"

section \<open>Build\<close>

record trigram_index =
  ti_keys :: "u64 list"
  ti_offsets :: "nat list"
  ti_values :: "nat list"

definition trigram_empty :: trigram_index where
  "trigram_empty = \<lparr>ti_keys = [], ti_offsets = [0], ti_values = []\<rparr>"

definition CHUNK_SIZE :: nat where "CHUNK_SIZE = 64 * 1024"

function chunks :: "nat \<Rightarrow> 'a list \<Rightarrow> 'a list list" where
  "chunks n xs = (if xs = [] \<or> n = 0 then [] else take n xs # chunks n (drop n xs))"
  by pat_completeness auto
termination by (relation "measure (\<lambda>(n, xs). length xs)") auto

declare chunks.simps [simp del]

definition u32_add :: "nat \<Rightarrow> nat \<Rightarrow> nat rust" where
  "u32_add a b = (if a + b \<le> u32_max then Some (a + b) else None)"

type_synonym tri_counts = "(u64 \<times> nat) list"

definition count_of :: "tri_counts \<Rightarrow> u64 \<Rightarrow> nat" where
  "count_of m k = (case map_of m k of None \<Rightarrow> 0 | Some c \<Rightarrow> c)"

text \<open>\<open>*map.entry(k).or_insert(0) += n\<close>, for each pair in turn.\<close>

fun add_counts :: "tri_counts \<Rightarrow> tri_counts \<Rightarrow> tri_counts rust" where
  "add_counts [] m = Some m"
| "add_counts ((k, n) # es) m = do { c \<leftarrow> u32_add (count_of m k) n; add_counts es (AList.update k c m) }"

definition count_chunk :: "case_fold \<Rightarrow> bytes \<Rightarrow> compact_record list \<Rightarrow> tri_counts rust" where
  "count_chunk t names chunk = add_counts (map (\<lambda>k. (k, 1)) (concat (map (record_trigrams t names) chunk))) []"

text \<open>A parallel \<open>map\<close> and \<open>collect\<close>: the results in order; a panic in one task is a panic of the whole.\<close>

fun par_map :: "('a \<Rightarrow> 'b rust) \<Rightarrow> 'a list \<Rightarrow> 'b list rust" where
  "par_map f [] = Some []"
| "par_map f (x # xs) = do { y \<leftarrow> f x; ys \<leftarrow> par_map f xs; Some (y # ys) }"

definition freq_cap :: "nat \<Rightarrow> nat" where "freq_cap record_count = max (record_count div 4) 1024"

fun advance_offsets :: "(u64 \<rightharpoonup> nat) \<Rightarrow> tri_counts \<Rightarrow> nat list \<Rightarrow> nat list rust" where
  "advance_offsets lut [] acc = Some acc"
| "advance_offsets lut ((packed, cnt) # es) acc =
     (case lut packed of
        None \<Rightarrow> advance_offsets lut es acc
      | Some ki \<Rightarrow>
          if ki < length acc then do { p \<leftarrow> u32_add (acc ! ki) cnt; advance_offsets lut es (acc[ki := p]) }
          else advance_offsets lut es acc)"

text \<open>The write positions each chunk starts from; the last advance is computed and dropped.\<close>

fun chunk_write_pos :: "(u64 \<rightharpoonup> nat) \<Rightarrow> tri_counts list \<Rightarrow> nat list \<Rightarrow> nat list list rust" where
  "chunk_write_pos lut [] acc = Some []"
| "chunk_write_pos lut (m # ms) acc = do {
     acc' \<leftarrow> advance_offsets lut m acc;
     rest \<leftarrow> chunk_write_pos lut ms acc';
     Some (acc # rest)
   }"

type_synonym store = "nat \<times> nat"

fun scatter_trigrams :: "(u64 \<rightharpoonup> nat) \<Rightarrow> nat \<Rightarrow> nat \<Rightarrow> u64 list \<Rightarrow> nat list \<Rightarrow> (store list \<times> nat list) rust" where
  "scatter_trigrams lut n_values rec_idx [] write_pos = Some ([], write_pos)"
| "scatter_trigrams lut n_values rec_idx (packed # rest) write_pos =
     (case lut packed of
        None \<Rightarrow> scatter_trigrams lut n_values rec_idx rest write_pos
      | Some ki \<Rightarrow>
          if ki < length write_pos \<and> write_pos ! ki < n_values then do {
            p \<leftarrow> u32_inc (write_pos ! ki);
            (stores, wp) \<leftarrow> scatter_trigrams lut n_values rec_idx rest (write_pos[ki := p]);
            Some ((write_pos ! ki, rec_idx) # stores, wp)
          }
          else scatter_trigrams lut n_values rec_idx rest write_pos)"

text \<open>The stores of one chunk, whose first record has index \<open>idx\<close>.\<close>

fun scatter_chunk ::
  "case_fold \<Rightarrow> bytes \<Rightarrow> (u64 \<rightharpoonup> nat) \<Rightarrow> nat \<Rightarrow> nat \<Rightarrow> compact_record list \<Rightarrow> nat list \<Rightarrow> store list rust"
where
  "scatter_chunk t names lut n_values idx [] write_pos = Some []"
| "scatter_chunk t names lut n_values idx (r # rs) write_pos = do {
     (stores, wp) \<leftarrow> scatter_trigrams lut n_values (len_to_u32 idx) (record_trigrams t names r) write_pos;
     rest \<leftarrow> scatter_chunk t names lut n_values (idx + 1) rs wp;
     Some (stores @ rest)
   }"

definition perform_stores :: "store list \<Rightarrow> nat list \<Rightarrow> nat list" where
  "perform_stores stores vals = fold (\<lambda>(p, v) vs. vs[p := v]) stores vals"

definition scatter_postings_parallel ::
  "(store list \<Rightarrow> store list) \<Rightarrow> compact_record list \<Rightarrow> bytes \<Rightarrow> case_fold \<Rightarrow> (u64 \<rightharpoonup> nat) \<Rightarrow> nat list \<Rightarrow> nat \<Rightarrow>
   tri_counts list \<Rightarrow> nat list rust"
where
  "scatter_postings_parallel sched records names t lut offsets total_postings chunk_counts =
     (if length offsets \<le> 1 then Some []
      else do {
        poss \<leftarrow> chunk_write_pos lut chunk_counts (take (length offsets - 1) offsets);
        stores \<leftarrow> par_map (\<lambda>(chunk_idx, chunk, base_pos).
            scatter_chunk t names lut total_postings (chunk_idx * CHUNK_SIZE) chunk base_pos)
          (enumerate 0 (zip (chunks CHUNK_SIZE records) poss));
        Some (perform_stores (sched (concat stores)) (replicate total_postings 0))
      })"

definition trigram_build ::
  "(store list \<Rightarrow> store list) \<Rightarrow> compact_record list \<Rightarrow> bytes \<Rightarrow> case_fold \<Rightarrow> trigram_index rust"
where
  "trigram_build sched records names t =
     (if records = [] then Some trigram_empty
      else do {
        chunk_counts \<leftarrow> par_map (count_chunk t names) (chunks CHUNK_SIZE records);
        global_counts \<leftarrow> add_counts (concat chunk_counts) [];
        let sorted_keys = sort_key fst (filter (\<lambda>(_, cnt). cnt \<le> freq_cap (length records)) global_counts);
        let keys = map fst sorted_keys;
        let offsets = csr_prefix 0 (map snd sorted_keys);
        let lut = map_of (zip keys (map len_to_u32 [0..<length keys]));
        vals \<leftarrow> scatter_postings_parallel sched records names t lut offsets (last offsets) chunk_counts;
        Some \<lparr>ti_keys = keys, ti_offsets = offsets, ti_values = vals\<rparr>
      })"

section \<open>Search\<close>

definition get_posting :: "trigram_index \<Rightarrow> u64 \<Rightarrow> nat list option" where
  "get_posting ix packed =
     (case binary_search (ti_keys ix) packed of
        Inl _ \<Rightarrow> None
      | Inr idx \<Rightarrow> do {
          start \<leftarrow> vec_get (ti_offsets ix) idx;
          stop \<leftarrow> vec_get (ti_offsets ix) (idx + 1);
          slice_get (ti_values ix) start stop
        })"

definition needle_trigrams :: "case_fold \<Rightarrow> nat list \<Rightarrow> u64 list option" where
  "needle_trigrams t needle =
     (let folded = map (fold_char t) needle in
      if length folded < 3 then None else Some (fresh_trigrams [] (packed_windows folded)))"

text \<open>The inner \<open>while let\<close> of \<open>intersect_in_place\<close>.\<close>

function advance_past :: "nat list \<Rightarrow> nat \<Rightarrow> nat \<Rightarrow> nat" where
  "advance_past other v j = (if j < length other \<and> other ! j < v then advance_past other v (j + 1) else j)"
  by pat_completeness auto
termination by (relation "measure (\<lambda>(other, v, j). length other - j)") auto

declare advance_past.simps [simp del]

fun intersect_loop :: "nat list \<Rightarrow> nat list \<Rightarrow> nat \<Rightarrow> nat \<Rightarrow> nat list \<Rightarrow> nat list" where
  "intersect_loop [] other write j result = take write result"
| "intersect_loop (i # is) other write j result =
     (case vec_get result i of
        None \<Rightarrow> take write result
      | Some v \<Rightarrow>
          (let j' = advance_past other v j in
           if vec_get other j' = Some v \<and> write < length result
           then intersect_loop is other (write + 1) (j' + 1) (result[write := v])
           else intersect_loop is other write j' result))"

definition intersect_in_place :: "nat list \<Rightarrow> nat list \<Rightarrow> nat list" where
  "intersect_in_place result other = intersect_loop [0..<length result] other 0 0 result"

fun intersect_all :: "nat list \<Rightarrow> nat list list \<Rightarrow> nat list" where
  "intersect_all result [] = result"
| "intersect_all result (l # ls) =
     (let result' = intersect_in_place result l in if result' = [] then result' else intersect_all result' ls)"

definition trigram_index_search :: "trigram_index \<Rightarrow> case_fold \<Rightarrow> nat list \<Rightarrow> nat list option" where
  "trigram_index_search ix t needle = do {
     trigrams \<leftarrow> needle_trigrams t needle;
     (if trigrams = [] then Some []
      else let lists = sort_key length (List.map_filter (get_posting ix) trigrams) in
           case lists of [] \<Rightarrow> Some [] | first # rest \<Rightarrow> Some (intersect_all first rest))
   }"

section \<open>Trigrams of a text\<close>

lemma fresh_trigrams_distinct:
  "distinct (fresh_trigrams seen ps) \<and> set (fresh_trigrams seen ps) = set ps - set seen"
  by (induction ps arbitrary: seen) (auto simp: tri_set_insert_def)

lemma length_window: "w \<in> set (windows 3 f) \<Longrightarrow> length w = 3"
  by (simp add: mem_windows)

lemma pack_char_trigram_bit:
  "bit (pack_char_trigram a b c) k \<longleftrightarrow>
     k < 16 \<and> bit c k \<or> 16 \<le> k \<and> k < 32 \<and> bit b (k - 16) \<or> 32 \<le> k \<and> k < 48 \<and> bit a (k - 32)"
  unfolding pack_char_trigram_def by (auto simp: bit_simps not_le dest: bit_imp_le_length)

lemma pack_char_trigram_inj: "pack_char_trigram a b c = pack_char_trigram a' b' c' \<longleftrightarrow> a = a' \<and> b = b' \<and> c = c'"
proof
  assume eq: "pack_char_trigram a b c = pack_char_trigram a' b' c'"
  have "bit c k = bit c' k" "bit b k = bit b' k" "bit a k = bit a' k" if k: "k < 16" for k
    using eq [unfolded bit_eq_iff, rule_format, of k] eq [unfolded bit_eq_iff, rule_format, of "k + 16"]
      eq [unfolded bit_eq_iff, rule_format, of "k + 32"] k by (simp_all add: pack_char_trigram_bit)
  then show "a = a' \<and> b = b' \<and> c = c'" by (auto intro: bit_word_eqI)
qed simp

lemma pack_window_inj: "length v = 3 \<Longrightarrow> length w = 3 \<Longrightarrow> pack_window v = pack_window w \<longleftrightarrow> v = w"
  by (auto simp: numeral_3_eq_3 length_Suc_conv pack_char_trigram_inj)

definition text_trigrams :: "u16 list \<Rightarrow> u64 set" where
  "text_trigrams f = pack_window ` set (windows 3 f)"

lemma text_trigrams_mono: "sublist f g \<Longrightarrow> text_trigrams f \<subseteq> text_trigrams g"
  using windows_mono [of f g 3] by (auto simp: text_trigrams_def)

lemma mem_text_trigrams: "length w = 3 \<Longrightarrow> pack_window w \<in> text_trigrams f \<longleftrightarrow> sublist w f"
  by (auto simp: text_trigrams_def mem_windows pack_window_inj)

lemma text_trigrams_short: "length f < 3 \<Longrightarrow> text_trigrams f = {}"
  by (simp add: text_trigrams_def windows_def)

lemma record_trigrams_spec:
  "distinct (record_trigrams t names r)" "set (record_trigrams t names r) = text_trigrams (folded_name t names r)"
  using fresh_trigrams_distinct [of "[]" "packed_windows (folded_name t names r)"]
  by (auto simp: record_trigrams_def packed_windows_def text_trigrams_def text_trigrams_short windows_def)

lemma needle_trigrams_spec:
  assumes "3 \<le> length needle"
  obtains ts where "needle_trigrams t needle = Some ts" "distinct ts" "ts \<noteq> []"
    "set ts = text_trigrams (map (fold_char t) needle)"
proof -
  let ?ts = "fresh_trigrams [] (packed_windows (map (fold_char t) needle))"
  have s: "set ?ts = text_trigrams (map (fold_char t) needle)"
    using fresh_trigrams_distinct [of "[]"] by (simp add: packed_windows_def text_trigrams_def)
  have "take 3 (map (fold_char t) needle) \<in> set (windows 3 (map (fold_char t) needle))"
    using assms by (auto simp: mem_windows sublist_take)
  with s have "?ts \<noteq> []" unfolding text_trigrams_def by (metis empty_iff empty_set image_eqI)
  with s assms fresh_trigrams_distinct [of "[]"] that show ?thesis by (simp add: needle_trigrams_def Let_def)
qed

section \<open>Counting\<close>

definition sum_for :: "tri_counts \<Rightarrow> u64 \<Rightarrow> nat" where
  "sum_for es k = sum_list (map snd (filter (\<lambda>e. fst e = k) es))"

lemma sum_for_simps [simp]:
  "sum_for [] k = 0" "sum_for ((k', n) # es) k = (if k' = k then n else 0) + sum_for es k"
  "sum_for (es @ es') k = sum_for es k + sum_for es' k"
  by (simp_all add: sum_for_def)

lemma count_of_update: "count_of (AList.update k c m) k' = (if k' = k then c else count_of m k')"
  by (simp add: count_of_def update_conv')

lemma add_counts_spec:
  assumes "\<And>k. count_of m k + sum_for es k \<le> u32_max" and "distinct (map fst m)"
  shows "\<exists>m'. add_counts es m = Some m' \<and> distinct (map fst m') \<and> set (map fst m') = set (map fst m) \<union> set (map fst es)
    \<and> (\<forall>k. count_of m' k = count_of m k + sum_for es k)"
  using assms
proof (induction es arbitrary: m)
  case (Cons e es)
  obtain k n where e: "e = (k, n)" by (cases e)
  let ?m = "AList.update k (count_of m k + n) m"
  have le: "count_of ?m k' + sum_for es k' \<le> u32_max" for k'
    using Cons.prems(1) [of k'] by (auto simp: e count_of_update split: if_splits)
  have "count_of m k + n \<le> u32_max" using Cons.prems(1) [of k] by (simp add: e)
  moreover have "set (map fst ?m) = insert k (set (map fst m))" by (simp add: dom_update [simplified dom_map_of_conv_image_fst])
  ultimately show ?case
    using Cons.IH [of ?m, OF le distinct_update [OF Cons.prems(2)]] by (auto simp: e u32_add_def count_of_update)
qed simp

lemma sum_for_distinct: "distinct (map fst m) \<Longrightarrow> sum_for m k = count_of m k"
proof (induction m)
  case (Cons e m)
  obtain k' n where e: "e = (k', n)" by (cases e)
  have "sum_for m k = 0" if "k \<notin> fst ` set m" using that by (force simp: sum_for_def filter_empty_conv)
  with Cons show ?case by (auto simp: e count_of_def)
qed (simp add: count_of_def)

lemma sum_for_units: "sum_for (map (\<lambda>k. (k, 1)) ks) k = count_list ks k"
  by (induction ks) auto

lemma count_list_distinct: "distinct xs \<Longrightarrow> count_list xs x = (if x \<in> set xs then 1 else 0)"
  by (induction xs) auto

section \<open>Posting lists\<close>

text \<open>The records, counted from \<open>idx\<close>, whose trigrams contain \<open>k\<close>.\<close>

fun posting_from :: "nat \<Rightarrow> u64 list list \<Rightarrow> u64 \<Rightarrow> nat list" where
  "posting_from idx [] k = []"
| "posting_from idx (ts # trs) k = (if k \<in> set ts then [idx] else []) @ posting_from (Suc idx) trs k"

lemma posting_from_append:
  "posting_from idx (xs @ ys) k = posting_from idx xs k @ posting_from (idx + length xs) ys k"
  by (induction xs arbitrary: idx) simp_all

lemma posting_from_filter: "posting_from idx trs k = filter (\<lambda>i. k \<in> set (trs ! (i - idx))) [idx..<idx + length trs]"
proof (induction trs arbitrary: idx)
  case (Cons ts trs)
  have "filter (\<lambda>i. k \<in> set (trs ! (i - Suc idx))) [Suc idx..<Suc (idx + length trs)]
      = filter (\<lambda>i. k \<in> set ((ts # trs) ! (i - idx))) [Suc idx..<Suc (idx + length trs)]"
    by (rule filter_cong) (auto simp: nth_Cons' Suc_diff_le)
  moreover have "[idx..<idx + length (ts # trs)] = idx # [Suc idx..<Suc (idx + length trs)]"
    by (simp add: upt_conv_Cons del: upt_Suc)
  ultimately show ?case using Cons [of "Suc idx"] by (simp del: upt_Suc)
qed simp

lemma length_posting_from: "length (posting_from idx trs k) = length (filter (\<lambda>ts. k \<in> set ts) trs)"
  by (induction trs arbitrary: idx) simp_all

lemma count_concat_posting:
  "\<forall>ts \<in> set trs. distinct ts \<Longrightarrow> count_list (concat trs) k = length (posting_from idx trs k)"
  by (induction trs) (auto simp: length_posting_from count_list_distinct)

section \<open>The stores of the second pass\<close>

definition lut_ok :: "(u64 \<rightharpoonup> nat) \<Rightarrow> u64 list \<Rightarrow> bool" where
  "lut_ok lut keys \<longleftrightarrow> distinct keys \<and> (\<forall>k i. lut k = Some i \<longleftrightarrow> i < length keys \<and> keys ! i = k)"

lemma lut_ok_None: "lut_ok lut keys \<Longrightarrow> lut k = None \<longleftrightarrow> k \<notin> set keys"
  unfolding lut_ok_def by (metis in_set_conv_nth not_None_eq)

lemma advance_offsets_spec:
  assumes "lut_ok lut keys" and "length acc = length keys"
    and "\<forall>i < length keys. acc ! i + sum_for es (keys ! i) \<le> u32_max"
  shows "\<exists>acc'. advance_offsets lut es acc = Some acc' \<and> length acc' = length keys
    \<and> (\<forall>i < length keys. acc' ! i = acc ! i + sum_for es (keys ! i))"
  using assms(2,3)
proof (induction es arbitrary: acc)
  case (Cons e es)
  obtain k n where e: "e = (k, n)" by (cases e)
  show ?case
  proof (cases "lut k")
    case None
    have ne: "k \<noteq> keys ! i" if "i < length keys" for i using None assms(1) that by (metis lut_ok_None nth_mem)
    have "\<forall>i < length keys. acc ! i + sum_for es (keys ! i) \<le> u32_max" using Cons.prems(2) ne by (simp add: e)
    from Cons.IH [OF Cons.prems(1) this] None ne show ?thesis by (simp add: e)
  next
    case (Some ki)
    then have ki: "ki < length keys" "keys ! ki = k" "\<And>i. i < length keys \<Longrightarrow> keys ! i = k \<longleftrightarrow> i = ki"
      using assms(1) by (auto simp: lut_ok_def nth_eq_iff_index_eq)
    let ?acc = "acc[ki := acc ! ki + n]"
    have "acc ! ki + n \<le> u32_max" using Cons.prems(2) [rule_format, OF ki(1)] ki(2) by (simp add: e)
    moreover have "\<forall>i < length keys. ?acc ! i + sum_for es (keys ! i) \<le> u32_max"
    proof (intro allI impI)
      fix i assume i: "i < length keys"
      show "?acc ! i + sum_for es (keys ! i) \<le> u32_max"
        using Cons.prems(2) [rule_format, OF i] ki(3) [OF i] Cons.prems(1) i by (auto simp: e split: if_splits)
    qed
    ultimately obtain acc' where rec: "advance_offsets lut es ?acc = Some acc'" "length acc' = length keys"
      "\<forall>i < length keys. acc' ! i = ?acc ! i + sum_for es (keys ! i)" and add: "u32_add (acc ! ki) n = Some (acc ! ki + n)"
      using Cons.IH [of ?acc] Cons.prems(1) by (auto simp: u32_add_def)
    have "acc' ! i = acc ! i + sum_for (e # es) (keys ! i)" if i: "i < length keys" for i
      using rec(3) i ki(3) [OF i] Cons.prems(1) by (auto simp: e nth_list_update)
    with rec(1,2) add Some ki(1) Cons.prems(1) show ?thesis by (simp add: e)
  qed
qed simp

definition slots :: "u64 list \<Rightarrow> nat list \<Rightarrow> nat \<Rightarrow> u64 list list \<Rightarrow> store set" where
  "slots keys wp idx trs =
     {(wp ! ki + j, posting_from idx trs (keys ! ki) ! j) | ki j. ki < length keys \<and> j < length (posting_from idx trs (keys ! ki))}"

lemma slots_Nil [simp]: "slots keys wp idx [] = {}"
  by (simp add: slots_def)

lemma slots_one: "slots keys wp idx [ts] = {(wp ! ki, idx) | ki. ki < length keys \<and> keys ! ki \<in> set ts}"
  by (auto simp: slots_def)

lemma slots_append:
  assumes "\<forall>ki < length keys. wp' ! ki = wp ! ki + length (posting_from idx xs (keys ! ki))"
  shows "slots keys wp idx (xs @ ys) = slots keys wp idx xs \<union> slots keys wp' (idx + length xs) ys" (is "?L = ?A \<union> ?B")
proof (intro equalityI subsetI)
  fix s assume "s \<in> ?L"
  then obtain ki j where s: "s = (wp ! ki + j, posting_from idx (xs @ ys) (keys ! ki) ! j)" "ki < length keys"
    "j < length (posting_from idx (xs @ ys) (keys ! ki))" by (auto simp: slots_def)
  show "s \<in> ?A \<union> ?B"
  proof (cases "j < length (posting_from idx xs (keys ! ki))")
    case True
    with s show ?thesis unfolding slots_def by (auto simp: posting_from_append nth_append)
  next
    case False
    let ?j = "j - length (posting_from idx xs (keys ! ki))"
    have "s = (wp' ! ki + ?j, posting_from (idx + length xs) ys (keys ! ki) ! ?j)"
      using s False assms by (simp add: posting_from_append nth_append)
    moreover have "?j < length (posting_from (idx + length xs) ys (keys ! ki))"
      using s(3) False by (simp add: posting_from_append)
    ultimately have "s \<in> ?B" using s(2) unfolding slots_def by blast
    then show ?thesis by simp
  qed
next
  fix s assume "s \<in> ?A \<union> ?B"
  then show "s \<in> ?L"
  proof
    assume "s \<in> ?A"
    then show ?thesis unfolding slots_def by (force simp: posting_from_append nth_append)
  next
    assume "s \<in> ?B"
    then obtain ki j where s: "s = (wp' ! ki + j, posting_from (idx + length xs) ys (keys ! ki) ! j)" "ki < length keys"
      "j < length (posting_from (idx + length xs) ys (keys ! ki))" by (auto simp: slots_def)
    let ?j = "length (posting_from idx xs (keys ! ki)) + j"
    have "s = (wp ! ki + ?j, posting_from idx (xs @ ys) (keys ! ki) ! ?j)"
      "?j < length (posting_from idx (xs @ ys) (keys ! ki))"
      using s assms by (simp_all add: posting_from_append nth_append)
    with s(2) show ?thesis unfolding slots_def by blast
  qed
qed

lemma scatter_trigrams_spec:
  assumes "lut_ok lut keys" and "length wp = length keys" and "distinct ts" and "n_values \<le> u32_max"
    and "\<forall>ki < length keys. keys ! ki \<in> set ts \<longrightarrow> wp ! ki < n_values"
  shows "\<exists>st wp'. scatter_trigrams lut n_values v ts wp = Some (st, wp') \<and> length wp' = length keys
    \<and> (\<forall>ki < length keys. wp' ! ki = wp ! ki + (if keys ! ki \<in> set ts then 1 else 0))
    \<and> set st = {(wp ! ki, v) | ki. ki < length keys \<and> keys ! ki \<in> set ts}"
  using assms(2,3,5)
proof (induction ts arbitrary: wp)
  case (Cons k ts)
  show ?case
  proof (cases "lut k")
    case None
    then have "keys ! i \<noteq> k" if "i < length keys" for i using assms(1) that by (metis lut_ok_None nth_mem)
    moreover from this have "{(wp ! ki, v) | ki. ki < length keys \<and> keys ! ki \<in> set (k # ts)}
        = {(wp ! ki, v) | ki. ki < length keys \<and> keys ! ki \<in> set ts}" by auto
    ultimately show ?thesis using None Cons.IH [of wp] Cons.prems by auto
  next
    case (Some ki)
    then have ki: "ki < length keys" "keys ! ki = k" "\<And>i. i < length keys \<Longrightarrow> keys ! i = k \<longleftrightarrow> i = ki"
      using assms(1) by (auto simp: lut_ok_def nth_eq_iff_index_eq)
    let ?wp = "wp[ki := wp ! ki + 1]"
    have lt: "wp ! ki < n_values" using Cons.prems(3) ki by simp
    then have inc: "u32_inc (wp ! ki) = Some (wp ! ki + 1)" using assms(4) by (simp add: u32_inc_def)
    have other: "keys ! i \<in> set ts \<Longrightarrow> ki \<noteq> i" for i using Cons.prems(2) ki by auto
    have prem: "\<forall>i < length keys. keys ! i \<in> set ts \<longrightarrow> ?wp ! i < n_values"
      using Cons.prems(3) other by (metis list.set_intros(2) nth_list_update_neq)
    obtain st wp' where rec: "scatter_trigrams lut n_values v ts ?wp = Some (st, wp')" "length wp' = length keys"
      "\<forall>i < length keys. wp' ! i = ?wp ! i + (if keys ! i \<in> set ts then 1 else 0)"
      "set st = {(?wp ! i, v) | i. i < length keys \<and> keys ! i \<in> set ts}"
      using Cons.IH [of ?wp, OF _ _ prem] Cons.prems by auto
    have "set st = {(wp ! i, v) | i. i < length keys \<and> keys ! i \<in> set ts}"
      unfolding rec(4) by (intro Collect_cong ex_cong1) (use other in auto)
    moreover have "wp' ! i = wp ! i + (if keys ! i \<in> set (k # ts) then 1 else 0)" if "i < length keys" for i
      using rec(3) ki(3) [OF that] other [of i] Cons.prems(1) ki(1) that by (auto simp: nth_list_update)
    moreover have "{(wp ! i, v) | i. i < length keys \<and> keys ! i \<in> set (k # ts)}
        = insert (wp ! ki, v) {(wp ! i, v) | i. i < length keys \<and> keys ! i \<in> set ts}"
      using ki by auto
    ultimately show ?thesis using rec(1,2) Some lt inc ki(1) Cons.prems(1) by simp
  qed
qed simp

lemma scatter_chunk_spec:
  assumes "lut_ok lut keys" and "n_values \<le> u32_max" and "length wp = length keys" and "idx + length rs \<le> u32_max"
    and "\<forall>ki < length keys. wp ! ki + length (posting_from idx (map (record_trigrams t names) rs) (keys ! ki)) \<le> n_values"
  shows "\<exists>st. scatter_chunk t names lut n_values idx rs wp = Some st
    \<and> set st = slots keys wp idx (map (record_trigrams t names) rs)"
  using assms(3-5)
proof (induction rs arbitrary: idx wp)
  case (Cons r rs)
  let ?ts = "record_trigrams t names r" and ?trs = "map (record_trigrams t names) rs"
  obtain st wp' where st: "scatter_trigrams lut n_values idx ?ts wp = Some (st, wp')" "length wp' = length keys"
    "\<forall>ki < length keys. wp' ! ki = wp ! ki + (if keys ! ki \<in> set ?ts then 1 else 0)"
    "set st = {(wp ! ki, idx) | ki. ki < length keys \<and> keys ! ki \<in> set ?ts}"
    using scatter_trigrams_spec [OF assms(1) Cons.prems(1) record_trigrams_spec(1) assms(2), of t names r idx] Cons.prems(3)
    by force
  have prem: "\<forall>ki < length keys. wp' ! ki + length (posting_from (Suc idx) ?trs (keys ! ki)) \<le> n_values"
    using Cons.prems(3) st(3) by auto
  obtain rest where rest: "scatter_chunk t names lut n_values (Suc idx) rs wp' = Some rest"
    "set rest = slots keys wp' (Suc idx) ?trs"
    using Cons.IH [OF st(2) _ prem] Cons.prems(2) by auto
  have "slots keys wp idx (?ts # ?trs) = slots keys wp idx [?ts] \<union> slots keys wp' (Suc idx) ?trs"
    using slots_append [of keys wp' wp idx "[?ts]" ?trs] st(3) by simp
  with st rest Cons.prems(2) show ?case by (simp add: slots_one)
qed simp

section \<open>The chunks\<close>

lemma par_map_spec:
  "(\<And>x. x \<in> set xs \<Longrightarrow> \<exists>y. f x = Some y \<and> Q x y) \<Longrightarrow> \<exists>ys. par_map f xs = Some ys \<and> list_all2 Q xs ys"
proof (induction xs)
  case (Cons x xs)
  then obtain y ys where "f x = Some y" "Q x y" "par_map f xs = Some ys" "list_all2 Q xs ys" by fastforce
  then show ?case by auto
qed simp

lemma concat_chunks: "0 < n \<Longrightarrow> concat (chunks n xs) = xs"
  by (induction n xs rule: chunks.induct) (subst chunks.simps, simp)

lemma set_chunks: "0 < n \<Longrightarrow> c \<in> set (chunks n xs) \<Longrightarrow> length c \<le> length xs"
proof (induction n xs rule: chunks.induct)
  case (1 n xs)
  from 1(3) have "xs \<noteq> []" by (subst (asm) chunks.simps) (auto split: if_splits)
  with 1 have "c = take n xs \<or> c \<in> set (chunks n (drop n xs))" by (subst (asm) (2) chunks.simps) auto
  then show ?case using 1 \<open>xs \<noteq> []\<close> by fastforce
qed

definition counts_chunk :: "case_fold \<Rightarrow> bytes \<Rightarrow> compact_record list \<Rightarrow> tri_counts \<Rightarrow> bool" where
  "counts_chunk t names chunk m \<longleftrightarrow> distinct (map fst m)
     \<and> set (map fst m) = (\<Union>r \<in> set chunk. set (record_trigrams t names r))
     \<and> (\<forall>k. count_of m k = length (posting_from 0 (map (record_trigrams t names) chunk) k))"

lemma count_chunk_spec:
  assumes "length chunk \<le> u32_max"
  shows "\<exists>m. count_chunk t names chunk = Some m \<and> counts_chunk t names chunk m"
proof -
  let ?trs = "map (record_trigrams t names) chunk"
  have "\<forall>ts \<in> set ?trs. distinct ts" using record_trigrams_spec(1) by auto
  from count_concat_posting [OF this]
  have s: "sum_for (map (\<lambda>k. (k, 1)) (concat ?trs)) k = length (posting_from 0 ?trs k)" for k
    unfolding sum_for_units .
  have "length (posting_from 0 ?trs k) \<le> u32_max" for k
    unfolding length_posting_from using assms length_filter_le [of "\<lambda>ts. k \<in> set ts" ?trs] le_trans length_map by metis
  with s have le: "count_of [] k + sum_for (map (\<lambda>k. (k, 1)) (concat ?trs)) k \<le> u32_max" for k by (simp add: count_of_def)
  from add_counts_spec [OF le] s show ?thesis
    by (fastforce simp: count_chunk_def counts_chunk_def count_of_def)
qed

lemma counts_posting: "counts_chunk t names chunk m \<Longrightarrow> sum_for m k = length (posting_from idx (map (record_trigrams t names) chunk) k)"
  by (simp add: counts_chunk_def sum_for_distinct length_posting_from)

lemma counts_all:
  assumes "list_all2 (counts_chunk t names) cs ms"
  shows "sum_for (concat ms) k = length (posting_from idx (map (record_trigrams t names) (concat cs)) k)
    \<and> set (map fst (concat ms)) = (\<Union>r \<in> set (concat cs). set (record_trigrams t names r))"
  using assms
proof (induction arbitrary: idx)
  case (Cons c cs m ms)
  from counts_posting [OF Cons(1)] Cons.IH [of "idx + length c"] Cons(1) show ?case
    by (auto simp: posting_from_append counts_chunk_def)
qed simp

lemma scatter_chunks_spec:
  assumes "lut_ok lut keys" and "n_values \<le> u32_max" and "0 < n"
    and "list_all2 (counts_chunk t names) (chunks n rs) ms" and "length acc = length keys"
    and "c * n + length rs \<le> u32_max"
    and "\<forall>ki < length keys. acc ! ki + length (posting_from (c * n) (map (record_trigrams t names) rs) (keys ! ki)) \<le> n_values"
  shows "\<exists>poss sts. chunk_write_pos lut ms acc = Some poss
    \<and> par_map (\<lambda>(ci, ch, bp). scatter_chunk t names lut n_values (ci * n) ch bp) (enumerate c (zip (chunks n rs) poss)) = Some sts
    \<and> set (concat sts) = slots keys acc (c * n) (map (record_trigrams t names) rs)"
  using assms(3-)
proof (induction n rs arbitrary: c acc ms rule: chunks.induct)
  case (1 n rs)
  show ?case
  proof (cases "rs = []")
    case True
    with "1.prems"(2) have "ms = []" by (simp add: chunks.simps)
    with True show ?thesis by (simp add: chunks.simps)
  next
    case False
    let ?rt = "map (record_trigrams t names)" and ?ch = "take n rs" and ?rest = "drop n rs"
    have ch: "chunks n rs = ?ch # chunks n ?rest" using False "1.prems"(1) by (simp add: chunks.simps [of n rs])
    from "1.prems"(2) obtain m ms' where ms: "ms = m # ms'" "counts_chunk t names ?ch m"
      "list_all2 (counts_chunk t names) (chunks n ?rest) ms'"
      by (auto simp: ch list_all2_Cons1)
    have rs: "?rt rs = ?rt ?ch @ ?rt ?rest" by (metis append_take_drop_id map_append)
    let ?i = "c * n + length ?ch"
    have post: "length (posting_from (c * n) (?rt rs) k) = sum_for m k + length (posting_from ?i (?rt ?rest) k)" for k
      using counts_posting [OF ms(2), of k "c * n"] by (simp add: rs posting_from_append)
    have adv: "\<forall>ki < length keys. acc ! ki + sum_for m (keys ! ki) \<le> u32_max"
    proof (intro allI impI)
      fix ki assume "ki < length keys"
      with "1.prems"(5) post [of "keys ! ki"] have "acc ! ki + sum_for m (keys ! ki) \<le> n_values" by auto
      with assms(2) show "acc ! ki + sum_for m (keys ! ki) \<le> u32_max" by linarith
    qed
    from advance_offsets_spec [OF assms(1) "1.prems"(3) adv] obtain acc' where
      acc': "advance_offsets lut m acc = Some acc'" "length acc' = length keys"
      "\<forall>ki < length keys. acc' ! ki = acc ! ki + sum_for m (keys ! ki)" by blast
    have next_idx: "?i = Suc c * n \<or> ?rest = []" by auto
    have posts: "posting_from ?i (?rt ?rest) k = posting_from (Suc c * n) (?rt ?rest) k" for k
      using next_idx by (metis list.simps(8) posting_from.simps(1))
    have lim: "Suc c * n + length ?rest \<le> u32_max \<or> ?rest = []" using "1.prems"(4) by auto
    obtain poss sts where rec: "chunk_write_pos lut ms' acc' = Some poss"
      "par_map (\<lambda>(ci, ch, bp). scatter_chunk t names lut n_values (ci * n) ch bp) (enumerate (Suc c) (zip (chunks n ?rest) poss)) = Some sts"
      "set (concat sts) = slots keys acc' (Suc c * n) (?rt ?rest)"
    proof (cases "?rest = []")
      case True
      with ms(3) that [of "[]" "[]"] show ?thesis by (simp add: chunks.simps)
    next
      case ne: False
      have "\<forall>ki < length keys. acc' ! ki + length (posting_from (Suc c * n) (?rt ?rest) (keys ! ki)) \<le> n_values"
        using "1.prems"(5) acc'(3) post [unfolded posts] by auto
      from "1.IH" [OF _ "1.prems"(1) ms(3) acc'(2) _ this] lim ne False "1.prems"(1) that show ?thesis by blast
    qed
    have "\<forall>ki < length keys. acc ! ki + length (posting_from (c * n) (?rt ?ch) (keys ! ki)) \<le> n_values"
      using "1.prems"(5) by (auto simp: rs posting_from_append)
    moreover have "c * n + length ?ch \<le> u32_max" using "1.prems"(4) by (simp add: min_def)
    ultimately obtain st where st: "scatter_chunk t names lut n_values (c * n) ?ch acc = Some st"
      "set st = slots keys acc (c * n) (?rt ?ch)"
      using scatter_chunk_spec [OF assms(1,2) "1.prems"(3), of "c * n" ?ch t names] by blast
    have "slots keys acc (c * n) (?rt rs) = slots keys acc (c * n) (?rt ?ch) \<union> slots keys acc' ?i (?rt ?rest)"
      using slots_append [of keys acc' acc "c * n" "?rt ?ch" "?rt ?rest"] acc'(3) counts_posting [OF ms(2), of _ "c * n"]
      by (simp add: rs)
    also have "slots keys acc' ?i (?rt ?rest) = slots keys acc' (Suc c * n) (?rt ?rest)"
      unfolding slots_def posts ..
    finally show ?thesis using ms(1) acc'(1) rec st by (simp add: ch)
  qed
qed

section \<open>The finished index\<close>

definition trigram_posting :: "case_fold \<Rightarrow> bytes \<Rightarrow> compact_record list \<Rightarrow> u64 \<Rightarrow> nat list" where
  "trigram_posting t names records k = filter (\<lambda>i. k \<in> text_trigrams (folded_name t names (records ! i))) [0..<length records]"

definition selective :: "case_fold \<Rightarrow> bytes \<Rightarrow> compact_record list \<Rightarrow> u64 \<Rightarrow> bool" where
  "selective t names records k \<longleftrightarrow>
     trigram_posting t names records k \<noteq> [] \<and> length (trigram_posting t names records k) \<le> freq_cap (length records)"

lemma trigram_posting_from:
  "posting_from 0 (map (record_trigrams t names) records) k = trigram_posting t names records k"
  unfolding posting_from_filter trigram_posting_def by (rule filter_cong) (auto simp: record_trigrams_spec(2))

lemma perform_stores_spec:
  assumes "\<forall>(p, v) \<in> set st. p < length T \<and> v = T ! p" and "length vals = length T" and "p < length T"
  shows "length (perform_stores st vals) = length T
    \<and> perform_stores st vals ! p = (if p \<in> fst ` set st then T ! p else vals ! p)"
  using assms
proof (induction st arbitrary: vals)
  case (Cons s st)
  obtain q v where s: "s = (q, v)" by (cases s)
  have "perform_stores (s # st) vals = perform_stores st (vals[q := v])" by (simp add: perform_stores_def s)
  with Cons.IH [of "vals[q := v]"] Cons.prems show ?case by (auto simp: s nth_list_update)
qed (simp add: perform_stores_def)

lemma concat_slot:
  "i < length xss \<Longrightarrow> j < length (xss ! i) \<Longrightarrow>
   sum_list (map length (take i xss)) + j < length (concat xss) \<and> concat xss ! (sum_list (map length (take i xss)) + j) = xss ! i ! j"
proof (induction xss arbitrary: i)
  case (Cons xs xss)
  then show ?case
  proof (cases i)
    case (Suc i')
    with Cons.IH [of i'] Cons.prems show ?thesis by (simp add: nth_append length_concat)
  qed (simp add: nth_append)
qed simp

lemma concat_slot_ex:
  "p < length (concat xss) \<Longrightarrow> \<exists>i j. i < length xss \<and> j < length (xss ! i) \<and> p = sum_list (map length (take i xss)) + j"
proof (induction xss arbitrary: p)
  case (Cons xs xss)
  show ?case
  proof (cases "p < length xs")
    case True
    then show ?thesis by (intro exI [of _ 0] exI [of _ p]) simp
  next
    case False
    then have "p - length xs < length (concat xss)" using Cons.prems by simp
    from Cons.IH [OF this] obtain i j where
      "i < length xss" "j < length (xss ! i)" "p - length xs = sum_list (map length (take i xss)) + j" by auto
    with False show ?thesis by (intro exI [of _ "Suc i"] exI [of _ j]) simp
  qed
qed simp

lemma concat_slice:
  assumes "i < length xss"
  shows "slice_get (concat xss) (sum_list (map length (take i xss))) (sum_list (map length (take (Suc i) xss))) = Some (xss ! i)"
proof -
  have "concat xss = concat (take i xss) @ (xss ! i) @ concat (drop (Suc i) xss)"
    using assms by (metis append_take_drop_id concat.simps(2) concat_append Cons_nth_drop_Suc)
  with assms show ?thesis
    by (simp add: slice_get_def take_Suc_conv_app_nth length_concat [symmetric])
qed

lemma sum_indicator: "sum_list (map (\<lambda>x. if P x then 1 else 0) xs) = length (filter P xs)"
  by (induction xs) auto

lemma sum_postings_le:
  assumes "distinct keys"
  shows "sum_list (map (\<lambda>k. length (posting_from idx trs k)) keys) \<le> sum_list (map length trs)"
proof (induction trs arbitrary: idx)
  case (Cons ts trs)
  have "length (filter (\<lambda>k. k \<in> set ts) keys) = card (set (filter (\<lambda>k. k \<in> set ts) keys))"
    using assms distinct_card distinct_filter by metis
  also have "\<dots> \<le> length ts" by (rule order_trans [OF card_mono card_length]) auto
  finally have "sum_list (map (\<lambda>k. if k \<in> set ts then 1 else 0) keys) \<le> length ts" by (simp add: sum_indicator)
  moreover have "sum_list (map (\<lambda>k. length (posting_from idx (ts # trs) k)) keys)
      = sum_list (map (\<lambda>k. if k \<in> set ts then 1 else 0) keys) + sum_list (map (\<lambda>k. length (posting_from (Suc idx) trs k)) keys)"
    by (induction keys) simp_all
  ultimately show ?case using Cons [of "Suc idx"] by simp
qed simp

lemma lut_ok_zip:
  assumes "distinct keys" and "length keys \<le> u32_max"
  shows "lut_ok (map_of (zip keys (map len_to_u32 [0..<length keys]))) keys"
proof -
  have "map len_to_u32 [0..<length keys] = [0..<length keys]"
    using assms(2) by (intro map_idI) auto
  moreover have "map_of (zip keys [0..<length keys]) k = Some i \<longleftrightarrow> i < length keys \<and> keys ! i = k" for k i
    using assms(1) by (auto simp: map_of_eq_Some_iff set_zip)
  ultimately show ?thesis using assms(1) by (simp add: lut_ok_def)
qed

text \<open>The counts after the first pass, and the kept keys in order.\<close>

lemma first_pass:
  assumes "length records \<le> u32_max"
  obtains ms gc where "par_map (count_chunk t names) (chunks CHUNK_SIZE records) = Some ms"
    "list_all2 (counts_chunk t names) (chunks CHUNK_SIZE records) ms"
    "add_counts (concat ms) [] = Some gc" "distinct (map fst gc)"
    "\<forall>k. count_of gc k = length (trigram_posting t names records k)"
    "set (map fst gc) = {k. trigram_posting t names records k \<noteq> []}"
proof -
  let ?P = "trigram_posting t names records" and ?cs = "chunks CHUNK_SIZE records"
  have CS: "0 < CHUNK_SIZE" by (simp add: CHUNK_SIZE_def)
  have "\<exists>m. count_chunk t names c = Some m \<and> counts_chunk t names c m" if "c \<in> set ?cs" for c
    using count_chunk_spec [of c t names] set_chunks [OF CS that] assms by simp
  from par_map_spec [where Q = "counts_chunk t names", OF this] obtain ms where
    ms: "par_map (count_chunk t names) ?cs = Some ms" "list_all2 (counts_chunk t names) ?cs ms" by blast
  have sums: "sum_for (concat ms) k = length (?P k)" for k
    using counts_all [OF ms(2), of k 0] by (simp add: concat_chunks [OF CS] trigram_posting_from)
  have "set (map fst (concat ms)) = (\<Union>r \<in> set records. text_trigrams (folded_name t names r))"
    using counts_all [OF ms(2)] by (simp add: concat_chunks [OF CS] record_trigrams_spec(2))
  also have "\<dots> = {k. ?P k \<noteq> []}" by (force simp: trigram_posting_def filter_empty_conv set_conv_nth)
  finally have dom: "set (map fst (concat ms)) = {k. ?P k \<noteq> []}" .
  have "length (?P k) \<le> u32_max" for k
    using assms length_filter_le [of "\<lambda>i. k \<in> text_trigrams (folded_name t names (records ! i))" "[0..<length records]"]
    by (simp add: trigram_posting_def)
  then have le: "count_of [] k + sum_for (concat ms) k \<le> u32_max" for k by (simp add: sums count_of_def)
  from add_counts_spec [OF le] that [OF ms] dom show ?thesis by (auto simp: sums count_of_def)
qed

lemma kept_keys:
  assumes "distinct (map fst gc)" and "\<forall>k. count_of gc k = length (P k)" and "set (map fst gc) = {k. P k \<noteq> []}"
    and sk: "sk = sort_key fst (filter (\<lambda>(_, cnt). cnt \<le> cap) gc)"
  shows "sorted_wrt (<) (map fst sk) \<and> map snd sk = map (\<lambda>k. length (P k)) (map fst sk)
    \<and> set (map fst sk) = {k. P k \<noteq> [] \<and> length (P k) \<le> cap}"
proof (intro conjI)
  have cnt: "c = length (P k)" if "(k, c) \<in> set gc" for k c
    using assms(1,2) that by (metis (mono_tags, lifting) count_of_def map_of_is_SomeI option.simps(5))
  have sub: "set sk = {e \<in> set gc. snd e \<le> cap}" by (auto simp: sk)
  have "distinct (map fst (filter (\<lambda>(_, cnt). cnt \<le> cap) gc))" using assms(1) by (simp add: distinct_map_filter)
  then have "distinct (map fst sk)" unfolding sk by (simp add: distinct_map)
  then show "sorted_wrt (<) (map fst sk)" by (simp add: strict_sorted_iff sk)
  show "map snd sk = map (\<lambda>k. length (P k)) (map fst sk)"
    using cnt sub by (auto simp: comp_def intro!: map_cong)
  show "set (map fst sk) = {k. P k \<noteq> [] \<and> length (P k) \<le> cap}"
    using cnt sub assms(3) by (force simp: set_eq_iff image_iff)
qed

text \<open>Stores that write every slot of a layout its value fill it, in whatever order they happen.\<close>

lemma stores_fill:
  assumes "set st = {(sum_list (map length (take i xss)) + j, xss ! i ! j) | i j. i < length xss \<and> j < length (xss ! i)}"
  shows "perform_stores st (replicate (length (concat xss)) 0) = concat xss"
proof -
  have sound: "\<forall>(p, v) \<in> set st. p < length (concat xss) \<and> v = concat xss ! p"
    using concat_slot [of _ xss] unfolding assms by auto
  have complete: "p \<in> fst ` set st" if "p < length (concat xss)" for p
    using concat_slot_ex [OF that] unfolding assms by force
  show ?thesis
  proof (cases "concat xss = []")
    case True
    with sound have "st = []" by (cases st) auto
    then show ?thesis unfolding True by (simp add: perform_stores_def)
  next
    case False
    note spec = perform_stores_spec [OF sound, of "replicate (length (concat xss)) 0", simplified]
    from False have "length (perform_stores st (replicate (length (concat xss)) 0)) = length (concat xss)"
      using spec [of 0] by simp
    then show ?thesis using spec complete by (intro nth_equalityI) auto
  qed
qed

lemma layout_offsets:
  assumes "sum_list (map length xss) \<le> u32_max"
  shows "i \<le> length xss \<Longrightarrow> csr_prefix 0 (map length xss) ! i = sum_list (map length (take i xss))"
    and "last (csr_prefix 0 (map length xss)) = length (concat xss)"
    and "i < length xss \<Longrightarrow> csr_prefix 0 (map length xss) ! i + length (xss ! i) \<le> length (concat xss)"
proof -
  show n: "csr_prefix 0 (map length xss) ! i = sum_list (map length (take i xss))" if "i \<le> length xss" for i
    using csr_prefix_nth [of 0 "map length xss" i] assms that by (simp add: take_map)
  have "csr_prefix 0 (map length xss) \<noteq> []" by (metis csr_prefix_length length_0_conv nat.distinct(1))
  then show "last (csr_prefix 0 (map length xss)) = length (concat xss)"
    using n [of "length xss"] by (simp add: last_conv_nth length_concat)
  assume i: "i < length xss"
  have "sum_list (map length (take (Suc i) xss)) \<le> sum_list (map length xss)"
    by (metis append_take_drop_id le_add1 map_append sum_list_append)
  with i n [of i] show "csr_prefix 0 (map length xss) ! i + length (xss ! i) \<le> length (concat xss)"
    by (simp add: take_Suc_conv_app_nth length_concat)
qed

lemma scatter_postings_spec:
  assumes "lut_ok lut keys" and "length records \<le> u32_max" and "\<And>st. set (sched st) = set st"
    and "list_all2 (counts_chunk t names) (chunks CHUNK_SIZE records) ms"
    and xss: "xss = map (trigram_posting t names records) keys" and total: "sum_list (map length xss) \<le> u32_max"
  shows "scatter_postings_parallel sched records names t lut (csr_prefix 0 (map length xss)) (length (concat xss)) ms
    = Some (concat xss)"
proof (cases "keys = []")
  case True
  then show ?thesis by (simp add: scatter_postings_parallel_def xss)
next
  case False
  let ?offs = "csr_prefix 0 (map length xss)" and ?rt = "map (record_trigrams t names)"
  let ?acc = "take (length ?offs - 1) ?offs" and ?n = "length (concat xss)"
  have len: "length xss = length keys" by (simp add: xss)
  have acc: "length ?acc = length keys" "\<And>i. i < length keys \<Longrightarrow> ?acc ! i = sum_list (map length (take i xss))"
    using len layout_offsets(1) [OF total] by auto
  have post: "posting_from 0 (?rt records) (keys ! i) = xss ! i" if "i < length keys" for i
    using that by (simp add: xss trigram_posting_from)
  have lim: "\<forall>i < length keys. ?acc ! i + length (posting_from (0 * CHUNK_SIZE) (?rt records) (keys ! i)) \<le> ?n"
    using layout_offsets(1,3) [OF total] acc(2) post len by simp
  have n: "?n \<le> u32_max" using total by (simp add: length_concat)
  have CS: "0 < CHUNK_SIZE" by (simp add: CHUNK_SIZE_def)
  have "0 * CHUNK_SIZE + length records \<le> u32_max" using assms(2) by simp
  from scatter_chunks_spec [OF assms(1) n CS assms(4) acc(1) this lim]
  obtain poss sts where st: "chunk_write_pos lut ms ?acc = Some poss"
    "par_map (\<lambda>(ci, ch, bp). scatter_chunk t names lut ?n (ci * CHUNK_SIZE) ch bp) (enumerate 0 (zip (chunks CHUNK_SIZE records) poss)) = Some sts"
    "set (concat sts) = slots keys ?acc 0 (?rt records)" by auto
  have "slots keys ?acc 0 (?rt records)
      = {(sum_list (map length (take i xss)) + j, xss ! i ! j) | i j. i < length xss \<and> j < length (xss ! i)}"
    unfolding slots_def len by (intro Collect_cong ex_cong1) (use acc(2) post in auto)
  with st(3) have "perform_stores (sched (concat sts)) (replicate ?n 0) = concat xss"
    by (intro stores_fill) (simp only: assms(3))
  with st(1,2) False len show ?thesis by (simp add: scatter_postings_parallel_def)
qed

definition built_layout :: "case_fold \<Rightarrow> bytes \<Rightarrow> compact_record list \<Rightarrow> u64 list \<Rightarrow> trigram_index" where
  "built_layout t names records keys =
     (let xss = map (trigram_posting t names records) keys in
      \<lparr>ti_keys = keys, ti_offsets = csr_prefix 0 (map length xss), ti_values = concat xss\<rparr>)"

lemma trigram_build_layout:
  assumes "length records \<le> u32_max" and "sum_list (map (\<lambda>r. length (record_trigrams t names r)) records) \<le> u32_max"
    and "\<And>st. set (sched st) = set st" and "records \<noteq> []"
  obtains keys where "trigram_build sched records names t = Some (built_layout t names records keys)"
    "sorted_wrt (<) keys" "set keys = {k. selective t names records k}"
    "sum_list (map length (map (trigram_posting t names records) keys)) \<le> u32_max"
proof -
  let ?P = "trigram_posting t names records"
  obtain ms gc where p1: "par_map (count_chunk t names) (chunks CHUNK_SIZE records) = Some ms"
    "list_all2 (counts_chunk t names) (chunks CHUNK_SIZE records) ms" "add_counts (concat ms) [] = Some gc"
    and gc: "distinct (map fst gc)" "\<forall>k. count_of gc k = length (?P k)" "set (map fst gc) = {k. ?P k \<noteq> []}"
    by (rule first_pass [OF assms(1)])
  define sk where "sk = sort_key fst (filter (\<lambda>(_, cnt). cnt \<le> freq_cap (length records)) gc)"
  define keys where "keys = map fst sk"
  define xss where "xss = map ?P keys"
  have keys: "sorted_wrt (<) keys" "map snd sk = map length xss" "set keys = {k. selective t names records k}"
    using kept_keys [OF gc sk_def] by (auto simp: keys_def selective_def xss_def comp_def)
  then have dist: "distinct keys" by (simp add: strict_sorted_iff)
  have total: "sum_list (map length xss) \<le> u32_max"
    using sum_postings_le [OF dist, of 0 "map (record_trigrams t names) records"] assms(2)
    by (simp add: trigram_posting_from comp_def xss_def)
  have "sum_list (map (\<lambda>k. 1) keys) \<le> sum_list (map (\<lambda>k. length (?P k)) keys)"
    using keys(3) by (intro sum_list_mono) (auto simp: selective_def Suc_le_eq)
  with total have "length keys \<le> u32_max" by (simp add: sum_list_triv xss_def comp_def)
  moreover have "length (filter (\<lambda>(_, cnt). cnt \<le> freq_cap (length records)) gc) = length keys" by (simp add: keys_def sk_def)
  ultimately
  have "trigram_build sched records names t = Some (built_layout t names records keys)"
    using scatter_postings_spec [OF lut_ok_zip [OF dist] assms(1,3) p1(2) xss_def total] assms(4) p1(1,3) keys(2) layout_offsets(2) [OF total]
    by (simp add: trigram_build_def built_layout_def Let_def flip: sk_def keys_def xss_def)
  with that keys total show ?thesis by (simp add: xss_def)
qed

lemma get_posting_layout:
  assumes "sorted_wrt (<) keys" and "sum_list (map length (map (trigram_posting t names records) keys)) \<le> u32_max"
  shows "get_posting (built_layout t names records keys) k
    = (if k \<in> set keys then Some (trigram_posting t names records k) else None)"
proof (cases "k \<in> set keys")
  case True
  from binary_search_found [OF assms(1) True] obtain i where i: "binary_search keys k = Inr i" "i < length keys" "keys ! i = k"
    by auto
  let ?xss = "map (trigram_posting t names records) keys"
  from concat_slice [of i ?xss] i layout_offsets(1) [OF assms(2)] show ?thesis
    using True by (simp add: get_posting_def built_layout_def Let_def)
next
  case False
  with binary_search_missing [OF assms(1) False] show ?thesis by (auto simp: get_posting_def built_layout_def Let_def)
qed

section \<open>Intersection\<close>

lemma advance_past_spec:
  "j \<le> advance_past other v j \<and> (\<forall>i. j \<le> i \<and> i < advance_past other v j \<longrightarrow> i < length other \<and> other ! i < v)
   \<and> (advance_past other v j < length other \<longrightarrow> v \<le> other ! advance_past other v j)"
proof (induction other v j rule: advance_past.induct)
  case (1 other v j)
  show ?case
  proof (cases "j < length other \<and> other ! j < v")
    case True
    then have "advance_past other v j = advance_past other v (j + 1)" by (simp add: advance_past.simps [of other v j])
    moreover have "i = j \<or> j + 1 \<le> i" if "j \<le> i" for i using that by linarith
    ultimately show ?thesis using 1 [OF True] True by (metis add_leD1)
  qed (auto simp: advance_past.simps [of other v j])
qed

lemma intersect_loop_spec:
  assumes "ascending orig" and "ascending other"
  shows "length result = length orig \<Longrightarrow> drop i result = drop i orig \<Longrightarrow> i \<le> length orig \<Longrightarrow> w \<le> i \<Longrightarrow>
    take w result = filter (\<lambda>x. x \<in> set other) (take i orig) \<Longrightarrow>
    (\<forall>a < j. a < length other \<longrightarrow> (\<forall>b < length orig. i \<le> b \<longrightarrow> other ! a < orig ! b)) \<Longrightarrow>
    intersect_loop [i..<length orig] other w j result = filter (\<lambda>x. x \<in> set other) orig"
proof (induction "length orig - i" arbitrary: i w j result)
  case 0
  then show ?case by simp
next
  case (Suc d)
  then have i: "i < length orig" by simp
  let ?v = "orig ! i" and ?j = "advance_past other (orig ! i) j"
  have v: "result ! i = ?v" using Suc.prems(2) i Suc.prems(1) by (metis Cons_nth_drop_Suc nth_via_drop)
  have asc: "orig ! a < orig ! b" if "a < b" "b < length orig" for a b using assms(1) that by (simp add: sorted_wrt_iff_nth_less)
  have before: "other ! a < ?v" if "a < ?j" "a < length other" for a
    using advance_past_spec [of j other ?v] Suc.prems(6) i that by (cases "a < j") auto
  have hit: "?v \<in> set other \<longleftrightarrow> vec_get other ?j = Some ?v"
  proof
    assume "?v \<in> set other"
    then obtain a where a: "a < length other" "other ! a = ?v" by (auto simp: in_set_conv_nth)
    with before [of a] have "?j \<le> a" by (metis less_irrefl not_le)
    then have "?j = a \<or> other ! ?j < other ! a" using a(1) assms(2) by (auto simp: sorted_wrt_iff_nth_less le_eq_less_or_eq)
    with a \<open>?j \<le> a\<close> have "?j < length other" "other ! ?j \<le> ?v" by auto
    with advance_past_spec [of j other ?v] show "vec_get other ?j = Some ?v" by auto
  next
    assume "vec_get other ?j = Some ?v"
    then show "?v \<in> set other" by (metis nth_mem vec_get_Some_iff)
  qed
  have upt: "[i..<length orig] = i # [Suc i..<length orig]" using i by (simp add: upt_conv_Cons)
  have tk: "take (Suc i) orig = take i orig @ [?v]" using i by (simp add: take_Suc_conv_app_nth)
  have dr: "drop (Suc i) result = drop (Suc i) orig" using Suc.prems(2) by (metis drop_Suc tl_drop)
  have bound: "other ! a < orig ! b" if "a < Suc ?j" "a < length other" "Suc i \<le> b" "b < length orig" "other ! a \<le> ?v" for a b
    using asc [of i b] that by linarith
  show ?case
  proof (cases "?v \<in> set other")
    case True
    have "intersect_loop [Suc i..<length orig] other (w + 1) (?j + 1) (result[w := ?v]) = filter (\<lambda>x. x \<in> set other) orig"
    proof (rule Suc.hyps(1))
      show "drop (Suc i) (result[w := ?v]) = drop (Suc i) orig" using dr Suc.prems(4) by simp
      show "take (w + 1) (result[w := ?v]) = filter (\<lambda>x. x \<in> set other) (take (Suc i) orig)"
        using Suc.prems(1,4,5) i True by (simp add: tk take_Suc_conv_app_nth)
      have "other ! a \<le> ?v" if "a < Suc ?j" "a < length other" for a
        using that before [of a] hit True by (cases "a = ?j") auto
      with bound show "\<forall>a < ?j + 1. a < length other \<longrightarrow> (\<forall>b < length orig. Suc i \<le> b \<longrightarrow> other ! a < orig ! b)" by simp
    qed (use Suc in auto)
    with True hit v i Suc.prems(1,4) show ?thesis unfolding upt by (simp add: Let_def)
  next
    case False
    have "intersect_loop [Suc i..<length orig] other w ?j result = filter (\<lambda>x. x \<in> set other) orig"
    proof (rule Suc.hyps(1))
      show "take w result = filter (\<lambda>x. x \<in> set other) (take (Suc i) orig)"
        using Suc.prems(5) False by (simp add: tk)
      show "\<forall>a < ?j. a < length other \<longrightarrow> (\<forall>b < length orig. Suc i \<le> b \<longrightarrow> other ! a < orig ! b)"
        using bound before by (meson less_SucI less_imp_le)
    qed (use Suc dr in auto)
    with False hit v i Suc.prems(1) show ?thesis unfolding upt by (auto simp: Let_def)
  qed
qed

lemma intersect_in_place_filter:
  "ascending result \<Longrightarrow> ascending other \<Longrightarrow> intersect_in_place result other = filter (\<lambda>x. x \<in> set other) result"
  unfolding intersect_in_place_def by (rule intersect_loop_spec) auto

lemma intersect_all_filter:
  "ascending result \<Longrightarrow> \<forall>l \<in> set ls. ascending l \<Longrightarrow>
   intersect_all result ls = filter (\<lambda>x. \<forall>l \<in> set ls. x \<in> set l) result"
proof (induction ls arbitrary: result)
  case (Cons l ls)
  let ?r = "filter (\<lambda>x. x \<in> set l) result"
  have "intersect_in_place result l = ?r" using Cons.prems by (simp add: intersect_in_place_filter)
  moreover have "filter (\<lambda>x. \<forall>l \<in> set (l # ls). x \<in> set l) result = filter (\<lambda>x. \<forall>l \<in> set ls. x \<in> set l) ?r"
    by (simp add: conj_commute)
  moreover have "intersect_all ?r ls = filter (\<lambda>x. \<forall>l \<in> set ls. x \<in> set l) ?r"
    using Cons.prems by (intro Cons.IH) (auto simp: sorted_wrt_filter)
  ultimately show ?case by (cases "?r = []") (simp_all add: Let_def)
qed simp

text \<open>The candidates of a list of ascending posting lists, whatever order they are intersected in.\<close>

lemma intersect_sorted:
  assumes "\<forall>l \<in> set pls. ascending l" and "sort_key length pls = first # rest"
  shows "ascending (intersect_all first rest) \<and> set (intersect_all first rest) = {x. \<forall>l \<in> set pls. x \<in> set l}"
proof -
  have "set (first # rest) = set pls" using assms(2) by (metis set_sort)
  then have l: "set pls = insert first (set rest)" by simp
  with assms(1) have "ascending first" "\<forall>l \<in> set rest. ascending l" by auto
  with intersect_all_filter [of first rest] l show ?thesis by (auto simp: sorted_wrt_filter)
qed

section \<open>Properties\<close>

lemma trigram_posting_ascending: "ascending (trigram_posting t names records k)"
  by (simp add: trigram_posting_def sorted_wrt_filter)

lemma trigram_build_postings:
  assumes "length records \<le> u32_max" and "sum_list (map (\<lambda>r. length (record_trigrams t names r)) records) \<le> u32_max"
    and "\<And>st. set (sched st) = set st"
  obtains ix where "trigram_build sched records names t = Some ix"
    "\<And>k. get_posting ix k = (if selective t names records k then Some (trigram_posting t names records k) else None)"
proof (cases "records = []")
  case True
  then have "trigram_build sched records names t = Some trigram_empty" by (simp add: trigram_build_def)
  moreover have "get_posting trigram_empty k = None" for k
    by (simp add: get_posting_def trigram_empty_def binary_search_def binary_search_by_def)
  ultimately show ?thesis using that True by (simp add: selective_def trigram_posting_def)
next
  case False
  from trigram_build_layout [OF assms this] obtain keys where
    keys: "trigram_build sched records names t = Some (built_layout t names records keys)" "sorted_wrt (<) keys"
    "set keys = {k. selective t names records k}"
    "sum_list (map length (map (trigram_posting t names records) keys)) \<le> u32_max" by blast
  with get_posting_layout [OF keys(2,4)] that show ?thesis by simp
qed

lemma trigram_search_postings:
  assumes "\<And>k. get_posting ix k = (if selective t names records k then Some (trigram_posting t names records k) else None)"
    and "3 \<le> length needle"
  shows "trigram_index_search ix t needle = Some
    (if \<exists>k \<in> text_trigrams (map (fold_char t) needle). selective t names records k
     then filter (\<lambda>i. \<forall>k \<in> text_trigrams (map (fold_char t) needle). selective t names records k \<longrightarrow>
            k \<in> text_trigrams (folded_name t names (records ! i))) [0..<length records]
     else [])"
proof -
  obtain ts where ts: "needle_trigrams t needle = Some ts" "ts \<noteq> []" "set ts = text_trigrams (map (fold_char t) needle)"
    using needle_trigrams_spec [OF assms(2)] by metis
  let ?pls = "List.map_filter (get_posting ix) ts" and ?P = "trigram_posting t names records"
  have pls: "set ?pls = ?P ` {k \<in> set ts. selective t names records k}"
    by (auto simp: map_filter_def assms(1) image_iff split: if_splits)
  show ?thesis
  proof (cases "sort_key length ?pls")
    case Nil
    then have "?pls = []" by (metis length_0_conv length_sort)
    with pls ts have "\<not> (\<exists>k \<in> text_trigrams (map (fold_char t) needle). selective t names records k)" by auto
    with ts Nil show ?thesis by (simp add: trigram_index_search_def)
  next
    case (Cons first rest)
    have "first \<in> set ?pls" using Cons by (metis list.set_intros(1) set_sort)
    with pls ts(3) obtain k where k: "k \<in> text_trigrams (map (fold_char t) needle)" "selective t names records k" by auto
    have "\<forall>l \<in> set ?pls. ascending l" unfolding pls by (auto simp: trigram_posting_ascending)
    from intersect_sorted [OF this Cons]
    have "ascending (intersect_all first rest)" "set (intersect_all first rest) = {x. \<forall>l \<in> set ?pls. x \<in> set l}" by auto
    then have "intersect_all first rest = filter (\<lambda>i. \<forall>k \<in> text_trigrams (map (fold_char t) needle).
        selective t names records k \<longrightarrow> k \<in> text_trigrams (folded_name t names (records ! i))) [0..<length records]"
      using k unfolding pls ts(3) by (intro ascending_filter_upt) (auto simp: trigram_posting_def)
    with ts Cons k show ?thesis by (auto simp: trigram_index_search_def)
  qed
qed

text \<open>
  C31. The parallel build never panics while the records and the trigram occurrences fit 32 bits, and
  whatever order the worker threads store in, the index it builds answers a trigram with the ascending
  list of exactly the records whose folded name contains it, or with nothing when no record has the
  trigram or more than \<open>freq_cap\<close> records do.
\<close>

theorem trigram_build_correct:
  assumes "length records \<le> u32_max" and "sum_list (map (\<lambda>r. length (record_trigrams t names r)) records) \<le> u32_max"
    and "\<forall>st. set (sched st) = set st"
  shows "\<exists>ix. trigram_build sched records names t = Some ix \<and> (\<forall>k. get_posting ix k =
    (if selective t names records k then Some (trigram_posting t names records k) else None))"
  using trigram_build_postings [OF assms(1,2), of sched] assms(3) by metis

definition demo_aaa :: compact_record where
  "demo_aaa = compact_record_default\<lparr>cr_name_len := 3\<rparr>"

lemma demo_aaa_folded: "folded_name [] [0x61, 0x61, 0x61] demo_aaa = [0x61, 0x61, 0x61]"
  by (simp add: folded_name_def demo_aaa_def compact_record_default_def slice_get_def utf8_ascii_chars fold_char_def vec_get_def)

lemma text_trigrams_single: "text_trigrams [a, b, c] = {pack_char_trigram a b c}"
  by (auto simp: text_trigrams_def windows_def upt_conv_Cons numeral_3_eq_3)

lemma demo_aaa_trigrams: "record_trigrams [] [0x61, 0x61, 0x61] demo_aaa = [pack_char_trigram 0x61 0x61 0x61]"
  by (simp add: record_trigrams_def demo_aaa_folded packed_windows_def windows_def upt_conv_Cons tri_set_insert_def
      numeral_3_eq_3)

lemma demo_aaa_posting: "trigram_posting [] [0x61, 0x61, 0x61] (replicate n demo_aaa) (pack_char_trigram 0x61 0x61 0x61) = [0..<n]"
  by (auto simp: trigram_posting_def demo_aaa_folded text_trigrams_single intro!: filter_True)

lemma demo_aaa_fits:
  "n \<le> 2000 \<Longrightarrow> length (replicate n demo_aaa) \<le> u32_max
     \<and> sum_list (map (\<lambda>r. length (record_trigrams [] [0x61, 0x61, 0x61] r)) (replicate n demo_aaa)) \<le> u32_max"
  by (simp add: demo_aaa_trigrams sum_list_replicate u32_max_def)

theorem trigram_build_correct_witness:
  "\<exists>ix. trigram_build rev (replicate 2 demo_aaa) [0x61, 0x61, 0x61] [] = Some ix
     \<and> get_posting ix (pack_char_trigram 0x61 0x61 0x61) = Some [0, 1]"
  using trigram_build_correct [of "replicate 2 demo_aaa" "[]" "[0x61, 0x61, 0x61]" rev] demo_aaa_fits [of 2]
    demo_aaa_posting [of 2] by (fastforce simp: selective_def freq_cap_def upt_conv_Cons numeral_2_eq_2)

text \<open>
  A search for a needle of three characters or more over a freshly built index returns, in ascending
  order, exactly the records whose folded name contains every selective trigram of the folded needle;
  with no selective trigram at all it returns the empty list.
\<close>

theorem trigram_search_exact:
  assumes "length records \<le> u32_max" and "sum_list (map (\<lambda>r. length (record_trigrams t names r)) records) \<le> u32_max"
    and "\<forall>st. set (sched st) = set st" and "3 \<le> length needle"
  shows "\<exists>ix. trigram_build sched records names t = Some ix \<and> trigram_index_search ix t needle = Some
    (if \<exists>k \<in> text_trigrams (map (fold_char t) needle). selective t names records k
     then filter (\<lambda>i. \<forall>k \<in> text_trigrams (map (fold_char t) needle). selective t names records k \<longrightarrow>
            k \<in> text_trigrams (folded_name t names (records ! i))) [0..<length records]
     else [])"
proof -
  obtain ix where "trigram_build sched records names t = Some ix"
    "\<And>k. get_posting ix k = (if selective t names records k then Some (trigram_posting t names records k) else None)"
    using trigram_build_postings [OF assms(1,2), of sched] assms(3) by metis
  with trigram_search_postings [OF this(2) assms(4)] show ?thesis by blast
qed

theorem trigram_search_exact_witness:
  "\<exists>ix. trigram_build rev (replicate 2 demo_aaa) [0x61, 0x61, 0x61] [] = Some ix
     \<and> trigram_index_search ix [] [0x61, 0x61, 0x61] = Some [0, 1]"
proof -
  have f: "fold_char [] 0x61 = 0x61" by (simp add: fold_char_def vec_get_def)
  have s: "selective [] [0x61, 0x61, 0x61] (replicate 2 demo_aaa) (pack_char_trigram 0x61 0x61 0x61)"
    using demo_aaa_posting [of 2] by (simp add: selective_def freq_cap_def)
  from trigram_search_exact [of "replicate 2 demo_aaa" "[]" "[0x61, 0x61, 0x61]" rev "[0x61, 0x61, 0x61]"]
    demo_aaa_fits [of 2] obtain ix where ix: "trigram_build rev (replicate 2 demo_aaa) [0x61, 0x61, 0x61] [] = Some ix"
    "trigram_index_search ix [] [0x61, 0x61, 0x61] = Some (filter (\<lambda>i. pack_char_trigram 0x61 0x61 0x61 \<in>
       text_trigrams (folded_name [] [0x61, 0x61, 0x61] (replicate 2 demo_aaa ! i))) [0..<2])"
    using s by (auto simp: f text_trigrams_single)
  have "filter (\<lambda>i. pack_char_trigram 0x61 0x61 0x61 \<in>
       text_trigrams (folded_name [] [0x61, 0x61, 0x61] (replicate 2 demo_aaa ! i))) [0..<2] = [0, 1]"
    using demo_aaa_posting [of 2] by (simp add: trigram_posting_def upt_conv_Cons numeral_2_eq_2)
  with ix show ?thesis by simp
qed

text \<open>
  No match is lost while the needle has a selective trigram: every record whose folded name contains
  the folded needle as a substring is among the candidates.
\<close>

theorem trigram_search_complete:
  assumes "length records \<le> u32_max" and "sum_list (map (\<lambda>r. length (record_trigrams t names r)) records) \<le> u32_max"
    and "\<forall>st. set (sched st) = set st" and "3 \<le> length needle"
    and "\<exists>k \<in> text_trigrams (map (fold_char t) needle). selective t names records k"
    and "i < length records" and "sublist (map (fold_char t) needle) (folded_name t names (records ! i))"
  shows "\<exists>ix cand. trigram_build sched records names t = Some ix \<and> trigram_index_search ix t needle = Some cand \<and> i \<in> set cand"
proof -
  obtain ix where ix: "trigram_build sched records names t = Some ix"
    "\<And>k. get_posting ix k = (if selective t names records k then Some (trigram_posting t names records k) else None)"
    using trigram_build_postings [OF assms(1,2), of sched] assms(3) by metis
  from text_trigrams_mono [OF assms(7)] assms(5,6) ix(1) trigram_search_postings [OF ix(2) assms(4)] show ?thesis by auto
qed

theorem trigram_search_complete_witness:
  "\<exists>ix cand. trigram_build rev (replicate 2 demo_aaa) [0x61, 0x61, 0x61] [] = Some ix
     \<and> trigram_index_search ix [] [0x61, 0x61, 0x61] = Some cand \<and> 1 \<in> set cand"
proof -
  have f: "fold_char [] 0x61 = 0x61" by (simp add: fold_char_def vec_get_def)
  have s: "selective [] [0x61, 0x61, 0x61] (replicate 2 demo_aaa) (pack_char_trigram 0x61 0x61 0x61)"
    using demo_aaa_posting [of 2] by (simp add: selective_def freq_cap_def)
  show ?thesis
    by (rule trigram_search_complete [of "replicate 2 demo_aaa" "[]" "[0x61, 0x61, 0x61]" rev "[0x61, 0x61, 0x61]" 1])
      (use demo_aaa_fits [of 2] s in \<open>simp_all add: f text_trigrams_single demo_aaa_folded\<close>)
qed

text \<open>
  The pruning loses matches: when every trigram of the needle occurs in more records than
  \<open>freq_cap\<close> allows, the search answers with an empty candidate list, although each of those records
  contains the trigram, and not with the \<open>None\<close> that makes the callers scan all the records.
\<close>

theorem pruned_needle_finds_nothing:
  assumes "length records \<le> u32_max" and "sum_list (map (\<lambda>r. length (record_trigrams t names r)) records) \<le> u32_max"
    and "\<forall>st. set (sched st) = set st" and "3 \<le> length needle"
    and "\<forall>k \<in> text_trigrams (map (fold_char t) needle). freq_cap (length records) < length (trigram_posting t names records k)"
  shows "\<exists>ix. trigram_build sched records names t = Some ix \<and> trigram_index_search ix t needle = Some []"
proof -
  obtain ix where ix: "trigram_build sched records names t = Some ix"
    "\<And>k. get_posting ix k = (if selective t names records k then Some (trigram_posting t names records k) else None)"
    using trigram_build_postings [OF assms(1,2), of sched] assms(3) by metis
  moreover have "\<not> (\<exists>k \<in> text_trigrams (map (fold_char t) needle). selective t names records k)"
    using assms(5) by (auto simp: selective_def)
  ultimately show ?thesis using trigram_search_postings [OF ix(2) assms(4)] by simp
qed

theorem pruned_needle_finds_nothing_witness:
  "\<exists>ix. trigram_build rev (replicate 1025 demo_aaa) [0x61, 0x61, 0x61] [] = Some ix
     \<and> trigram_index_search ix [] [0x61, 0x61, 0x61] = Some []"
proof -
  have f: "fold_char [] 0x61 = 0x61" by (simp add: fold_char_def vec_get_def)
  show ?thesis
    by (rule pruned_needle_finds_nothing [of "replicate 1025 demo_aaa" "[]" "[0x61, 0x61, 0x61]" rev "[0x61, 0x61, 0x61]"])
      (use demo_aaa_fits [of 1025] demo_aaa_posting [of 1025] in \<open>simp_all add: f text_trigrams_single freq_cap_def\<close>)
qed

end
