(* ===== verification/Compact_Index.thy ===== *)
theory Compact_Index
  imports Trigram
begin

text \<open>
  The index of one drive (\<open>DriveCompactIndex\<close> of \<open>crates/uffs-core/src/compact.rs\<close>): the records and names,
  the three base indexes, the overlay of changes, the queries through base and overlay, the overlaying
  of one batch of changes, the fold of the overlay into fresh bases, and the extension table.

  Unicode lower-casing is the argument \<open>lower\<close> of the extension table; the drive letter, the source and
  the epoch are labels that no operation here reads, and the heap report is diagnostic.
\<close>

section \<open>Definitions\<close>

record drive_index =
  di_records :: "compact_record list"
  di_names :: bytes
  di_trigram :: trigram_index
  di_children :: csr
  di_ext_index :: csr
  di_fold :: case_fold
  di_ext_names :: "bytes list"
  di_frs_to_compact :: "nat list"
  di_delta :: "index_delta option"

definition TRIGRAM_COMPACT_THRESHOLD :: nat where "TRIGRAM_COMPACT_THRESHOLD = 50000"

text \<open>\<open>crates/uffs-core/src/compact/path_len.rs\<close>: a record a batch created or renamed.\<close>

record path_change =
  pc_idx :: nat
  pc_subtree :: bool

definition effective_posting :: "drive_index \<Rightarrow> index_delta \<Rightarrow> u64 \<Rightarrow> nat list" where
  "effective_posting d delta tri =
     merge_postings (case get_posting (di_trigram d) tri of None \<Rightarrow> [] | Some l \<Rightarrow> l) (trigram_postings delta tri)"

definition readded :: "index_delta \<Rightarrow> u64 list \<Rightarrow> nat \<Rightarrow> bool" where
  "readded delta trigrams idx \<longleftrightarrow>
     list_all (\<lambda>tri. case binary_search (trigram_postings delta tri) idx of Inr _ \<Rightarrow> True | Inl _ \<Rightarrow> False) trigrams"

definition trigram_search :: "drive_index \<Rightarrow> nat list \<Rightarrow> nat list option" where
  "trigram_search d needle =
     (case di_delta d of
        None \<Rightarrow> trigram_index_search (di_trigram d) (di_fold d) needle
      | Some delta \<Rightarrow> do {
          trigrams \<leftarrow> needle_trigrams (di_fold d) needle;
          (if trigrams = [] then Some []
           else case sort_key length (filter (\<lambda>l. l \<noteq> []) (map (effective_posting d delta) trigrams)) of
                  [] \<Rightarrow> Some []
                | first # rest \<Rightarrow>
                    let result = intersect_all first rest in
                    Some (if id_tombstones delta \<noteq> {}
                          then filter (\<lambda>idx. \<not> is_tombstoned delta idx \<or> readded delta trigrams idx) result
                          else result))
        })"

definition compact_base :: "(store list \<Rightarrow> store list) \<Rightarrow> drive_index \<Rightarrow> drive_index rust" where
  "compact_base sched d = do {
     t \<leftarrow> trigram_build sched (di_records d) (di_names d) (di_fold d);
     e \<leftarrow> extension_build (di_records d);
     c \<leftarrow> children_build (di_records d);
     Some (d\<lparr>di_trigram := t, di_ext_index := e, di_children := c, di_delta := None\<rparr>)
   }"

definition fold_delta_for_save :: "(store list \<Rightarrow> store list) \<Rightarrow> drive_index \<Rightarrow> drive_index rust" where
  "fold_delta_for_save sched d = (if di_delta d \<noteq> None then compact_base sched d else Some d)"

definition valid_child :: "compact_record list \<Rightarrow> nat \<Rightarrow> nat \<Rightarrow> bool" where
  "valid_child records p c =
     (case vec_get records c of None \<Rightarrow> False | Some r \<Rightarrow> cr_parent_idx r = p \<and> cr_name_len r \<noteq> 0)"

text \<open>The children \<open>for_each_child\<close> visits, in order; \<open>children_of\<close> collects them.\<close>

definition for_each_child :: "drive_index \<Rightarrow> nat \<Rightarrow> nat list" where
  "for_each_child d p =
     (case di_delta d of
        None \<Rightarrow> children_get (di_children d) p
      | Some delta \<Rightarrow> merge_filter (children_get (di_children d) p) (child_postings delta p) (valid_child (di_records d) p))"

definition children_of_record :: "drive_index \<Rightarrow> nat \<Rightarrow> nat list" where
  "children_of_record d p = (if di_delta d = None then children_get (di_children d) p else for_each_child d p)"

definition records_with_ext :: "drive_index \<Rightarrow> nat \<Rightarrow> nat list" where
  "records_with_ext d ext_id =
     (case di_delta d of
        None \<Rightarrow> extension_get (di_ext_index d) ext_id
      | Some delta \<Rightarrow>
          filter (\<lambda>idx. case vec_get (di_records d) idx of
                     None \<Rightarrow> False | Some r \<Rightarrow> cr_extension_id r = ext_id \<and> cr_name_len r \<noteq> 0)
            (merge_postings (extension_get (di_ext_index d) ext_id) (ext_postings delta ext_id)))"

definition str_chars :: "bytes \<Rightarrow> nat list" where
  "str_chars s = (case utf8_chars s of None \<Rightarrow> [] | Some cs \<Rightarrow> cs)"

definition overlay_add :: "drive_index \<Rightarrow> path_change \<Rightarrow> index_delta \<Rightarrow> index_delta" where
  "overlay_add d change delta =
     (case vec_get (di_records d) (pc_idx change) of
        None \<Rightarrow> delta
      | Some r \<Rightarrow>
          if cr_name_len r = 0 then delta
          else add_record (pc_idx change)
                 (case needle_trigrams (di_fold d) (str_chars (record_name r (di_names d))) of None \<Rightarrow> [] | Some ts \<Rightarrow> ts)
                 (cr_extension_id r) (cr_parent_idx r) delta)"

definition apply_index_delta ::
  "(store list \<Rightarrow> store list) \<Rightarrow> path_change list \<Rightarrow> nat list \<Rightarrow> drive_index \<Rightarrow> (bool \<times> drive_index) rust"
where
  "apply_index_delta sched adds tombs d =
     (let pending = (case di_delta d of None \<Rightarrow> 0 | Some delta \<Rightarrow> delta_len delta);
          batch = len_to_u32 (u64_sat_add (length adds) (length tombs))
      in if u32_sat_add pending batch > TRIGRAM_COMPACT_THRESHOLD then do {
           d' \<leftarrow> compact_base sched d;
           Some (True, d')
         }
         else
           (let delta0 = (case di_delta d of None \<Rightarrow> index_delta_default | Some delta \<Rightarrow> delta)
            in Some (False, d\<lparr>di_delta := Some (fold (overlay_add d) adds (fold tombstone tombs delta0))\<rparr>)))"

text \<open>The suffix after the last dot, as \<open>rfind('.')\<close> and the slice behind it give it; \<open>None\<close> without a dot.\<close>

fun after_last_dot :: "bytes \<Rightarrow> (nat \<times> bytes) option" where
  "after_last_dot [] = None"
| "after_last_dot (b # bs) =
     (case after_last_dot bs of
        Some (pos, ext) \<Rightarrow> Some (Suc pos, ext)
      | None \<Rightarrow> if b = 0x2E then Some (0, bs) else None)"

fun position_of :: "'a \<Rightarrow> 'a list \<Rightarrow> nat option" where
  "position_of x [] = None"
| "position_of x (y # ys) = (if y = x then Some 0 else map_option Suc (position_of x ys))"

definition intern_extension :: "(bytes \<Rightarrow> bytes) \<Rightarrow> bytes \<Rightarrow> drive_index \<Rightarrow> nat \<times> drive_index" where
  "intern_extension lower filename d =
     (case after_last_dot filename of
        None \<Rightarrow> (0, d)
      | Some (dot_pos, raw_ext) \<Rightarrow>
          if dot_pos = 0 \<or> dot_pos + 1 \<ge> length filename then (0, d)
          else (let normalized = lower (dropWhile (\<lambda>b. b = 0x2E) raw_ext) in
                if normalized = [] then (0, d)
                else case position_of normalized (di_ext_names d) of
                       Some existing \<Rightarrow> (if existing \<le> u16_max then existing else 0, d)
                     | None \<Rightarrow>
                         if length (di_ext_names d) \<ge> u16_max then (0, d)
                         else (length (di_ext_names d), d\<lparr>di_ext_names := di_ext_names d @ [normalized]\<rparr>)))"

definition resolve_ext_ids :: "(bytes \<Rightarrow> bytes) \<Rightarrow> bytes list \<Rightarrow> drive_index \<Rightarrow> nat list" where
  "resolve_ext_ids norm exts d =
     remdups (sort (List.map_filter (\<lambda>ext.
       let normalized = norm ext in
       if normalized = [] then None
       else map_option (\<lambda>idx. if idx \<le> u16_max then idx else 0) (position_of normalized (di_ext_names d))) exts))"

section \<open>The records as the specification\<close>

definition live :: "compact_record list \<Rightarrow> nat \<Rightarrow> bool" where
  "live records i \<longleftrightarrow> i < length records \<and> cr_name_len (records ! i) \<noteq> 0"

definition name_trigrams :: "drive_index \<Rightarrow> nat \<Rightarrow> u64 set" where
  "name_trigrams d i = text_trigrams (folded_name (di_fold d) (di_names d) (di_records d ! i))"

text \<open>
  What the index promises of its size, and of its parent links: a parent is a record of the drive, and
  a deleted record has none.
\<close>

definition index_fits :: "drive_index \<Rightarrow> bool" where
  "index_fits d \<longleftrightarrow> length (di_records d) \<le> u32_max \<and> length (di_names d) < u64_max
     \<and> sum_list (map (\<lambda>r. length (record_trigrams (di_fold d) (di_names d) r)) (di_records d)) \<le> u32_max"

definition links_ok :: "compact_record list \<Rightarrow> bool" where
  "links_ok records \<longleftrightarrow> list_all (\<lambda>r. (cr_parent_idx r = u32_max \<or> cr_parent_idx r < length records)
     \<and> (cr_name_len r = 0 \<longrightarrow> cr_parent_idx r = u32_max)) records"

lemma links_okD:
  assumes "links_ok records" and "i < length records"
  shows "cr_parent_idx (records ! i) = u32_max \<or> cr_parent_idx (records ! i) < length records"
    and "cr_name_len (records ! i) = 0 \<Longrightarrow> cr_parent_idx (records ! i) = u32_max"
  using assms by (auto simp: links_ok_def list_all_length)

lemma vec_get_case: "(case vec_get xs i of None \<Rightarrow> False | Some x \<Rightarrow> P x) \<longleftrightarrow> i < length xs \<and> P (xs ! i)"
  by (simp add: vec_get_def)

lemma valid_child_iff: "valid_child records p c \<longleftrightarrow> live records c \<and> cr_parent_idx (records ! c) = p"
  by (auto simp: valid_child_def live_def vec_get_case)

lemma folded_name_chars:
  assumes "length names < u64_max"
  shows "folded_name t names r = map (fold_char t) (str_chars (record_name r names))"
proof -
  let ?stop = "cr_name_offset r + cr_name_len r"
  have "slice_get names (cr_name_offset r) (u64_sat_add (cr_name_offset r) (cr_name_len r))
      = slice_get names (cr_name_offset r) ?stop"
    using assms by (cases "?stop \<le> u64_max") (simp_all add: u64_sat_add_def slice_get_def)
  then show ?thesis
    by (auto simp: folded_name_def record_name_def name_bytes_def str_chars_def utf8_valid_def Let_def split: option.split)
qed

section \<open>The overlay covers the records\<close>

text \<open>
  Every live record is found under its extension and its parent in base or overlay, and under all the
  trigrams of its name either in the base, untouched by a tombstone, or in the overlay; a trigram that
  the base pruned is no obligation on the base.
\<close>

definition covered :: "drive_index \<Rightarrow> index_delta \<Rightarrow> nat \<Rightarrow> bool" where
  "covered d delta i \<longleftrightarrow>
     (let r = di_records d ! i in
      i \<in> set (extension_get (di_ext_index d) (cr_extension_id r)) \<union> set (ext_postings delta (cr_extension_id r))
      \<and> (cr_parent_idx r \<noteq> u32_max \<longrightarrow>
           i \<in> set (children_get (di_children d) (cr_parent_idx r)) \<union> set (child_postings delta (cr_parent_idx r)))
      \<and> ((i \<notin> id_tombstones delta
            \<and> (\<forall>k \<in> name_trigrams d i. \<forall>l. get_posting (di_trigram d) k = Some l \<longrightarrow> i \<in> set l))
         \<or> (\<forall>k \<in> name_trigrams d i. i \<in> set (trigram_postings delta k))))"

definition bases_ascending :: "drive_index \<Rightarrow> bool" where
  "bases_ascending d \<longleftrightarrow> (\<forall>e. ascending (extension_get (di_ext_index d) e))
     \<and> (\<forall>p. ascending (children_get (di_children d) p))
     \<and> (\<forall>k l. get_posting (di_trigram d) k = Some l \<longrightarrow> ascending l)"

definition bases_fresh :: "drive_index \<Rightarrow> bool" where
  "bases_fresh d \<longleftrightarrow> extension_build (di_records d) = Some (di_ext_index d) \<and> children_build (di_records d) = Some (di_children d)
     \<and> (\<forall>k. get_posting (di_trigram d) k =
          (if selective (di_fold d) (di_names d) (di_records d) k
           then Some (trigram_posting (di_fold d) (di_names d) (di_records d) k) else None))"

definition index_inv :: "drive_index \<Rightarrow> bool" where
  "index_inv d \<longleftrightarrow> index_fits d \<and> links_ok (di_records d) \<and>
     (case di_delta d of
        None \<Rightarrow> bases_fresh d
      | Some delta \<Rightarrow> bases_ascending d \<and> delta_ok delta \<and> (\<forall>i. live (di_records d) i \<longrightarrow> covered d delta i))"

text \<open>What freshly built bases answer.\<close>

lemma fresh_children:
  assumes "bases_fresh d" and "index_fits d" and "links_ok (di_records d)" and "p < u32_max"
  shows "children_get (di_children d) p = filter (\<lambda>i. live (di_records d) i \<and> cr_parent_idx (di_records d ! i) = p) [0..<length (di_records d)]"
proof -
  let ?rs = "di_records d"
  have live: "live ?rs i" if "i < length ?rs" "cr_parent_idx (?rs ! i) = p" for i
    using links_okD(2) [OF assms(3) that(1)] that assms(4) by (auto simp: live_def)
  show ?thesis
  proof (cases "p < length ?rs")
    case True
    with children_index_correct [of ?rs p] assms(1,2,4)
    have "children_get (di_children d) p = filter (\<lambda>i. cr_parent_idx (?rs ! i) = p) [0..<length ?rs]"
      by (auto simp: bases_fresh_def index_fits_def)
    then show ?thesis using live by (auto intro: filter_cong)
  next
    case False
    have none: "cr_parent_idx (?rs ! i) \<noteq> p" if "i < length ?rs" for i
      using links_okD(1) [OF assms(3) that] False assms(4) by auto
    have "children_get (di_children d) p = []"
    proof (cases "?rs = []")
      case True
      with assms(1) have "di_children d = ([0], [])" by (auto simp: bases_fresh_def children_build_def csr_build_def)
      then show ?thesis by (cases p) (simp_all add: children_get_def csr_get_def vec_get_def slice_get_def)
    next
      case ne: False
      with csr_build_beyond [of "length ?rs" "map child_key ?rs" "di_children d" p] False assms(1)
      show ?thesis by (simp add: bases_fresh_def children_build_def children_get_def)
    qed
    with none show ?thesis by (simp add: filter_empty_conv)
  qed
qed

lemma fresh_extension:
  assumes "bases_fresh d" and "index_fits d"
  shows "extension_get (di_ext_index d) e = filter (\<lambda>i. live (di_records d) i \<and> cr_extension_id (di_records d ! i) = e) [0..<length (di_records d)]"
proof -
  have "extension_get (di_ext_index d) e
      = filter (\<lambda>i. cr_extension_id (di_records d ! i) = e \<and> cr_name_len (di_records d ! i) \<noteq> 0) [0..<length (di_records d)]"
    using extension_index_correct [of "di_records d"] assms by (auto simp: bases_fresh_def index_fits_def)
  then show ?thesis by (auto simp: live_def intro: filter_cong)
qed

section \<open>The queries see the records\<close>

lemma records_with_ext_exact:
  assumes "index_inv d"
  shows "records_with_ext d e = filter (\<lambda>i. live (di_records d) i \<and> cr_extension_id (di_records d ! i) = e) [0..<length (di_records d)]"
proof (cases "di_delta d")
  case None
  with assms fresh_extension [of d e] show ?thesis by (simp add: records_with_ext_def index_inv_def)
next
  case (Some delta)
  let ?P = "\<lambda>i. live (di_records d) i \<and> cr_extension_id (di_records d ! i) = e"
  from Some assms have asc: "ascending (extension_get (di_ext_index d) e)" "ascending (ext_postings delta e)"
    by (auto simp: index_inv_def bases_ascending_def delta_ok_postings)
  have cov: "i < length (di_records d) \<and> i \<in> set (extension_get (di_ext_index d) e) \<union> set (ext_postings delta e)" if "?P i" for i
    using that assms Some by (auto simp: index_inv_def covered_def Let_def live_def)
  have "records_with_ext d e = filter ?P (merge_postings (extension_get (di_ext_index d) e) (ext_postings delta e))"
    unfolding records_with_ext_def Some by (auto simp: vec_get_case live_def intro!: filter_cong)
  also have "\<dots> = filter ?P [0..<length (di_records d)]"
    by (rule merging.covered_query_exact [OF asc cov])
  finally show ?thesis .
qed

lemma for_each_child_exact:
  assumes "index_inv d" and "p < u32_max"
  shows "for_each_child d p = filter (\<lambda>i. live (di_records d) i \<and> cr_parent_idx (di_records d ! i) = p) [0..<length (di_records d)]"
proof (cases "di_delta d")
  case None
  with assms fresh_children [of d p] show ?thesis by (simp add: for_each_child_def index_inv_def)
next
  case (Some delta)
  let ?P = "\<lambda>i. live (di_records d) i \<and> cr_parent_idx (di_records d ! i) = p"
  from Some assms have asc: "ascending (children_get (di_children d) p)" "ascending (child_postings delta p)"
    by (auto simp: index_inv_def bases_ascending_def delta_ok_postings)
  have cov: "i < length (di_records d) \<and> i \<in> set (children_get (di_children d) p) \<union> set (child_postings delta p)" if "?P i" for i
    using that assms Some by (auto simp: index_inv_def covered_def Let_def live_def)
  have "for_each_child d p = merge_filter (children_get (di_children d) p) (child_postings delta p) ?P"
    unfolding for_each_child_def Some by (simp add: valid_child_iff [abs_def])
  also have "\<dots> = filter ?P [0..<length (di_records d)]"
    unfolding merge_filter_is_filter [OF asc, of ?P] by (rule filtering.covered_query_exact [OF asc cov])
  finally show ?thesis .
qed

text \<open>A trigram constrains the candidates soundly when the base has it or nobody does.\<close>

definition trigram_intact :: "drive_index \<Rightarrow> u64 \<Rightarrow> bool" where
  "trigram_intact d k \<longleftrightarrow>
     (case di_delta d of None \<Rightarrow> True
      | Some delta \<Rightarrow> get_posting (di_trigram d) k \<noteq> None \<or> trigram_postings delta k = [])"

definition trigram_known :: "drive_index \<Rightarrow> u64 \<Rightarrow> bool" where
  "trigram_known d k \<longleftrightarrow>
     (case di_delta d of None \<Rightarrow> get_posting (di_trigram d) k \<noteq> None | Some delta \<Rightarrow> effective_posting d delta k \<noteq> [])"

lemma effective_posting_spec:
  assumes "index_inv d" and "di_delta d = Some delta"
  shows "ascending (effective_posting d delta k)"
    and "set (effective_posting d delta k) =
      (case get_posting (di_trigram d) k of None \<Rightarrow> {} | Some l \<Rightarrow> set l) \<union> set (trigram_postings delta k)"
proof -
  have "ascending (case get_posting (di_trigram d) k of None \<Rightarrow> [] | Some l \<Rightarrow> l)" "ascending (trigram_postings delta k)"
    using assms by (auto simp: index_inv_def bases_ascending_def delta_ok_postings split: option.split)
  then show "ascending (effective_posting d delta k)"
    "set (effective_posting d delta k) =
      (case get_posting (di_trigram d) k of None \<Rightarrow> {} | Some l \<Rightarrow> set l) \<union> set (trigram_postings delta k)"
    unfolding effective_posting_def by (auto simp: merging.merge_ascending merging.merge_set split: option.splits)
qed

lemma readded_iff:
  assumes "delta_ok delta"
  shows "readded delta ts i \<longleftrightarrow> (\<forall>k \<in> set ts. i \<in> set (trigram_postings delta k))"
proof -
  have "(case binary_search (trigram_postings delta k) i of Inr _ \<Rightarrow> True | Inl _ \<Rightarrow> False) \<longleftrightarrow> i \<in> set (trigram_postings delta k)" for k
    using binary_search_is_ok [OF delta_ok_postings(1) [OF assms], of k i] by (cases "binary_search (trigram_postings delta k) i") auto
  then show ?thesis by (simp add: readded_def list_all_iff)
qed

text \<open>The candidates of the overlaid search as a set.\<close>

lemma overlay_candidates:
  assumes inv: "index_inv d" and delta: "di_delta d = Some delta" and len: "3 \<le> length needle"
    and known: "\<exists>k \<in> text_trigrams (map (fold_char (di_fold d)) needle). effective_posting d delta k \<noteq> []"
  obtains cand where "trigram_search d needle = Some cand"
    "set cand = {i. (\<forall>k \<in> text_trigrams (map (fold_char (di_fold d)) needle).
        effective_posting d delta k \<noteq> [] \<longrightarrow> i \<in> set (effective_posting d delta k))
      \<and> (i \<notin> id_tombstones delta \<or> (\<forall>k \<in> text_trigrams (map (fold_char (di_fold d)) needle). i \<in> set (trigram_postings delta k)))}"
proof -
  obtain ts where ts: "needle_trigrams (di_fold d) needle = Some ts" "ts \<noteq> []"
    "set ts = text_trigrams (map (fold_char (di_fold d)) needle)"
    using needle_trigrams_spec [OF len] by metis
  let ?pls = "filter (\<lambda>l. l \<noteq> []) (map (effective_posting d delta) ts)"
  have "?pls \<noteq> []" using known ts(3) by (auto simp: filter_empty_conv)
  then obtain first rest where fr: "sort_key length ?pls = first # rest"
    by (metis length_0_conv length_sort neq_Nil_conv)
  have "\<forall>l \<in> set ?pls. ascending l" using effective_posting_spec(1) [OF inv delta] by auto
  from intersect_sorted [OF this fr]
  have set: "set (intersect_all first rest) = {x. \<forall>l \<in> set ?pls. x \<in> set l}" by blast
  have dok: "delta_ok delta" using inv delta by (simp add: index_inv_def)
  let ?cand = "filter (\<lambda>i. i \<notin> id_tombstones delta \<or> readded delta ts i) (intersect_all first rest)"
  have "trigram_search d needle = Some ?cand"
    using ts(1,2) fr by (auto simp: trigram_search_def delta Let_def is_tombstoned_def)
  moreover have "set ?cand = {i. (\<forall>k \<in> set ts. effective_posting d delta k \<noteq> [] \<longrightarrow> i \<in> set (effective_posting d delta k))
      \<and> (i \<notin> id_tombstones delta \<or> (\<forall>k \<in> set ts. i \<in> set (trigram_postings delta k)))}"
    unfolding set_filter set readded_iff [OF dok] by auto
  ultimately show ?thesis using that unfolding ts(3) by blast
qed

lemma trigram_search_current:
  assumes inv: "index_inv d" and len: "3 \<le> length needle"
    and intact: "\<forall>k \<in> text_trigrams (map (fold_char (di_fold d)) needle). trigram_intact d k"
    and known: "\<exists>k \<in> text_trigrams (map (fold_char (di_fold d)) needle). trigram_known d k"
    and i: "live (di_records d) i"
    and sub: "sublist (map (fold_char (di_fold d)) needle) (folded_name (di_fold d) (di_names d) (di_records d ! i))"
  shows "\<exists>cand. trigram_search d needle = Some cand \<and> i \<in> set cand"
proof -
  let ?N = "text_trigrams (map (fold_char (di_fold d)) needle)"
  have N: "?N \<subseteq> name_trigrams d i" using text_trigrams_mono [OF sub] by (simp add: name_trigrams_def)
  show ?thesis
  proof (cases "di_delta d")
    case None
    with inv have post: "get_posting (di_trigram d) k = (if selective (di_fold d) (di_names d) (di_records d) k
        then Some (trigram_posting (di_fold d) (di_names d) (di_records d) k) else None)" for k
      by (simp add: index_inv_def bases_fresh_def)
    from trigram_search_postings [OF post len] known None N i show ?thesis
      by (auto simp: trigram_search_def trigram_known_def post name_trigrams_def live_def split: if_splits)
  next
    case (Some delta)
    note eff = effective_posting_spec [OF inv Some]
    have cov: "(i \<notin> id_tombstones delta \<and> (\<forall>k \<in> ?N. \<forall>l. get_posting (di_trigram d) k = Some l \<longrightarrow> i \<in> set l))
        \<or> (\<forall>k \<in> ?N. i \<in> set (trigram_postings delta k))"
      using inv Some i N by (auto simp: index_inv_def covered_def Let_def)
    have hit: "i \<in> set (effective_posting d delta k)" if k: "k \<in> ?N" "effective_posting d delta k \<noteq> []" for k
    proof (cases "get_posting (di_trigram d) k")
      case None
      with intact k Some have "trigram_postings delta k = []" by (auto simp: trigram_intact_def)
      with None k(2) eff(2) [of k] have False by simp
      then show ?thesis ..
    next
      case (Some l)
      with cov k(1) eff(2) [of k] show ?thesis by auto
    qed
    from known Some have "\<exists>k \<in> ?N. effective_posting d delta k \<noteq> []" by (simp add: trigram_known_def)
    from overlay_candidates [OF inv Some len this] obtain cand where "trigram_search d needle = Some cand"
      "set cand = {i. (\<forall>k \<in> ?N. effective_posting d delta k \<noteq> [] \<longrightarrow> i \<in> set (effective_posting d delta k))
        \<and> (i \<notin> id_tombstones delta \<or> (\<forall>k \<in> ?N. i \<in> set (trigram_postings delta k)))}" .
    with hit cov show ?thesis by auto
  qed
qed

section \<open>A batch keeps the index covered\<close>

lemma fresh_covered:
  assumes "bases_fresh d" and "index_fits d" and "links_ok (di_records d)"
  shows "bases_ascending d" and "live (di_records d) i \<Longrightarrow> covered d index_delta_default i"
proof -
  have "children_get (di_children d) p = [] \<or> p < u32_max" for p
  proof (cases "p < u32_max")
    case False
    have "children_get (di_children d) p = []" if "di_records d \<noteq> []"
      using csr_build_beyond [of "length (di_records d)" "map child_key (di_records d)" "di_children d" p] assms(1,2) False that
      by (simp add: bases_fresh_def children_build_def children_get_def index_fits_def)
    moreover have "children_get (di_children d) p = []" if "di_records d = []"
    proof -
      from that assms(1) have "di_children d = ([0], [])" by (auto simp: bases_fresh_def children_build_def csr_build_def)
      then show ?thesis by (cases p) (simp_all add: children_get_def csr_get_def vec_get_def slice_get_def)
    qed
    ultimately show ?thesis by blast
  qed simp
  moreover have "ascending (filter P [0..<n])" for P n by (simp add: sorted_wrt_filter)
  ultimately have ch: "ascending (children_get (di_children d) p)" for p
    using fresh_children [OF assms, of p] by (metis sorted_wrt.simps(1))
  show "bases_ascending d"
    unfolding bases_ascending_def using ch assms(1) fresh_extension [OF assms(1,2)]
    by (auto simp: sorted_wrt_filter bases_fresh_def trigram_posting_ascending split: if_splits)
  assume i: "live (di_records d) i"
  then have lt: "i < length (di_records d)" by (simp add: live_def)
  from links_okD(1) [OF assms(3) lt] assms(2)
  have "cr_parent_idx (di_records d ! i) \<noteq> u32_max \<Longrightarrow> cr_parent_idx (di_records d ! i) < u32_max" by (auto simp: index_fits_def)
  with i lt fresh_children [OF assms, of "cr_parent_idx (di_records d ! i)"] fresh_extension [OF assms(1,2)] assms(1)
  show "covered d index_delta_default i"
    by (auto simp: covered_def Let_def name_trigrams_def index_delta_default_def bases_fresh_def trigram_posting_def split: if_splits)
qed

lemma fold_tombstones [simp]:
  "trigram_postings (fold tombstone ts delta) = trigram_postings delta" "ext_postings (fold tombstone ts delta) = ext_postings delta"
  "child_postings (fold tombstone ts delta) = child_postings delta" "delta_ok (fold tombstone ts delta) = delta_ok delta"
  "id_tombstones (fold tombstone ts delta) = set ts \<union> id_tombstones delta"
  by (induction ts arbitrary: delta) auto

lemma add_trigrams:
  assumes "index_fits d"
  shows "set (case needle_trigrams (di_fold d) (str_chars (record_name (di_records d ! i) (di_names d))) of None \<Rightarrow> [] | Some ts \<Rightarrow> ts)
    = name_trigrams d i"
proof -
  let ?cs = "str_chars (record_name (di_records d ! i) (di_names d))"
  have f: "folded_name (di_fold d) (di_names d) (di_records d ! i) = map (fold_char (di_fold d)) ?cs"
    using assms by (intro folded_name_chars) (simp add: index_fits_def)
  show ?thesis
  proof (cases "3 \<le> length ?cs")
    case True
    from needle_trigrams_spec [OF this] show ?thesis unfolding name_trigrams_def f by (metis option.simps(5))
  next
    case False
    then show ?thesis by (simp add: needle_trigrams_def name_trigrams_def f text_trigrams_short)
  qed
qed

lemma overlay_add_spec:
  assumes "delta_ok delta" and "index_fits d"
  shows "delta_ok (overlay_add d c delta)" and "id_tombstones (overlay_add d c delta) = id_tombstones delta"
    and "set (ext_postings delta e) \<subseteq> set (ext_postings (overlay_add d c delta) e)"
    and "set (child_postings delta p) \<subseteq> set (child_postings (overlay_add d c delta) p)"
    and "set (trigram_postings delta k) \<subseteq> set (trigram_postings (overlay_add d c delta) k)"
    and "live (di_records d) (pc_idx c) \<Longrightarrow> covered d (overlay_add d c delta) (pc_idx c)"
  using assms(1) add_trigrams [OF assms(2), of "pc_idx c"]
  by (auto simp: overlay_add_def add_record_postings live_def covered_def Let_def vec_get_def split: option.splits if_splits)

lemma covered_mono:
  assumes "covered d delta i" and "id_tombstones delta' = id_tombstones delta"
    and "\<And>e. set (ext_postings delta e) \<subseteq> set (ext_postings delta' e)"
    and "\<And>p. set (child_postings delta p) \<subseteq> set (child_postings delta' p)"
    and "\<And>k. set (trigram_postings delta k) \<subseteq> set (trigram_postings delta' k)"
  shows "covered d delta' i"
  using assms unfolding covered_def Let_def by blast

lemma overlay_adds:
  assumes "index_fits d"
  shows "delta_ok delta \<Longrightarrow> delta_ok (fold (overlay_add d) adds delta)
    \<and> (\<forall>i. covered d delta i \<or> (\<exists>c \<in> set adds. pc_idx c = i \<and> live (di_records d) i) \<longrightarrow> covered d (fold (overlay_add d) adds delta) i)"
proof (induction adds arbitrary: delta)
  case (Cons c adds)
  note one = overlay_add_spec [OF Cons.prems assms, where c = c]
  have "covered d (overlay_add d c delta) i" if "covered d delta i" for i
    using covered_mono [OF that one(2)] one(3-5) by blast
  with Cons.IH [OF one(1)] one(6) show ?case by auto
qed simp

text \<open>
  What a batch may change: a live record afterwards is listed among the additions, or it was live
  before with the same extension, parent and name and is not tombstoned. The bases stay as they are.
\<close>

definition changes_noted :: "drive_index \<Rightarrow> drive_index \<Rightarrow> path_change list \<Rightarrow> nat list \<Rightarrow> bool" where
  "changes_noted d d1 adds tombs \<longleftrightarrow>
     (\<forall>i. live (di_records d1) i \<longrightarrow> i \<in> pc_idx ` set adds \<or>
        (live (di_records d) i \<and> i \<notin> set tombs \<and> cr_extension_id (di_records d1 ! i) = cr_extension_id (di_records d ! i)
         \<and> cr_parent_idx (di_records d1 ! i) = cr_parent_idx (di_records d ! i) \<and> name_trigrams d1 i = name_trigrams d i))"

definition same_bases :: "drive_index \<Rightarrow> drive_index \<Rightarrow> bool" where
  "same_bases d d1 \<longleftrightarrow> di_trigram d1 = di_trigram d \<and> di_children d1 = di_children d \<and> di_ext_index d1 = di_ext_index d
     \<and> di_delta d1 = di_delta d"

definition same_records :: "drive_index \<Rightarrow> drive_index \<Rightarrow> bool" where
  "same_records d d1 \<longleftrightarrow> di_records d1 = di_records d \<and> di_names d1 = di_names d \<and> di_fold d1 = di_fold d
     \<and> di_ext_names d1 = di_ext_names d \<and> di_frs_to_compact d1 = di_frs_to_compact d"

lemma covered_carry:
  assumes "covered d delta i" and "same_bases d d1" and "i \<notin> set tombs"
    and "cr_extension_id (di_records d1 ! i) = cr_extension_id (di_records d ! i)"
    and "cr_parent_idx (di_records d1 ! i) = cr_parent_idx (di_records d ! i)" and "name_trigrams d1 i = name_trigrams d i"
  shows "covered d1 (fold tombstone tombs delta) i"
  using assms by (simp add: covered_def same_bases_def Let_def)

lemma compact_base_fresh:
  assumes "index_fits d" and "links_ok (di_records d)" and "\<forall>st. set (sched st) = set st"
  shows "\<exists>d'. compact_base sched d = Some d' \<and> same_records d d' \<and> di_delta d' = None \<and> index_inv d'"
proof -
  from assms(1) have n: "length (di_records d) \<le> u32_max"
    "sum_list (map (\<lambda>r. length (record_trigrams (di_fold d) (di_names d) r)) (di_records d)) \<le> u32_max"
    by (auto simp: index_fits_def)
  obtain t where t: "trigram_build sched (di_records d) (di_names d) (di_fold d) = Some t"
    "\<And>k. get_posting t k = (if selective (di_fold d) (di_names d) (di_records d) k
       then Some (trigram_posting (di_fold d) (di_names d) (di_records d) k) else None)"
    using trigram_build_postings [OF n, of sched] assms(3) by metis
  obtain e where e: "extension_build (di_records d) = Some e" using extension_index_correct [OF n(1)] by blast
  obtain c where c: "children_build (di_records d) = Some c"
    using csr_build_spec [of "map child_key (di_records d)" "length (di_records d)"] n(1) by (auto simp: children_build_def)
  let ?d = "d\<lparr>di_trigram := t, di_ext_index := e, di_children := c, di_delta := None\<rparr>"
  have "compact_base sched d = Some ?d" by (simp add: compact_base_def t e c)
  moreover have "index_inv ?d" using assms(1,2) t(2) e c by (simp add: index_inv_def index_fits_def bases_fresh_def)
  ultimately show ?thesis by (auto simp: same_records_def)
qed

lemma overlaid_start:
  assumes "index_inv d"
  defines "delta \<equiv> (case di_delta d of None \<Rightarrow> index_delta_default | Some delta \<Rightarrow> delta)"
  shows "delta_ok delta \<and> bases_ascending d \<and> (\<forall>i. live (di_records d) i \<longrightarrow> covered d delta i)"
  using assms(1) fresh_covered [of d] unfolding delta_def by (auto simp: index_inv_def split: option.splits)

lemma apply_index_delta_inv:
  assumes inv: "index_inv d" and same: "same_bases d d1" and fits: "index_fits d1" and links: "links_ok (di_records d1)"
    and noted: "changes_noted d d1 adds tombs" and sched: "\<forall>st. set (sched st) = set st"
  shows "\<exists>b d2. apply_index_delta sched adds tombs d1 = Some (b, d2) \<and> index_inv d2 \<and> same_records d1 d2"
proof (cases "apply_index_delta sched adds tombs d1 = map_option (\<lambda>d'. (True, d')) (compact_base sched d1)")
  case True
  with compact_base_fresh [OF fits links sched] show ?thesis by auto
next
  case False
  let ?start = "case di_delta d1 of None \<Rightarrow> index_delta_default | Some delta \<Rightarrow> delta"
  let ?delta = "fold (overlay_add d1) adds (fold tombstone tombs ?start)"
  from False have ap: "apply_index_delta sched adds tombs d1 = Some (False, d1\<lparr>di_delta := Some ?delta\<rparr>)"
    by (auto simp: apply_index_delta_def Let_def split: if_splits option.splits Option.bind_splits)
  have d0: "delta_ok ?start" "bases_ascending d" "\<And>i. live (di_records d) i \<Longrightarrow> covered d ?start i"
    using overlaid_start [OF inv] same by (auto simp: same_bases_def)
  have asc: "bases_ascending (d1\<lparr>di_delta := Some ?delta\<rparr>)" using d0(2) same by (simp add: bases_ascending_def same_bases_def)
  have adds: "delta_ok ?delta" "\<And>i. covered d1 (fold tombstone tombs ?start) i \<or> (\<exists>c \<in> set adds. pc_idx c = i \<and> live (di_records d1) i) \<Longrightarrow> covered d1 ?delta i"
    using overlay_adds [OF fits, of "fold tombstone tombs ?start" adds] d0(1) by auto
  have "covered d1 ?delta i" if i: "live (di_records d1) i" for i
  proof (rule adds(2), cases "i \<in> pc_idx ` set adds")
    case True
    with i show "covered d1 (fold tombstone tombs ?start) i \<or> (\<exists>c \<in> set adds. pc_idx c = i \<and> live (di_records d1) i)" by auto
  next
    case False
    with noted i have old: "live (di_records d) i" "i \<notin> set tombs" "cr_extension_id (di_records d1 ! i) = cr_extension_id (di_records d ! i)"
      "cr_parent_idx (di_records d1 ! i) = cr_parent_idx (di_records d ! i)" "name_trigrams d1 i = name_trigrams d i"
      by (auto simp: changes_noted_def)
    from covered_carry [OF d0(3) [OF old(1)] same old(2-)]
    show "covered d1 (fold tombstone tombs ?start) i \<or> (\<exists>c \<in> set adds. pc_idx c = i \<and> live (di_records d1) i)" ..
  qed
  then have "covered (d1\<lparr>di_delta := Some ?delta\<rparr>) ?delta i" if "live (di_records d1) i" for i
    using that by (simp add: covered_def name_trigrams_def Let_def)
  then have "index_inv (d1\<lparr>di_delta := Some ?delta\<rparr>)"
    using fits links asc adds(1) by (simp add: index_inv_def index_fits_def)
  with ap show ?thesis by (auto simp: same_records_def)
qed

section \<open>The extension table\<close>

lemma position_of_Some: "position_of x xs = Some i \<Longrightarrow> i < length xs \<and> xs ! i = x"
  by (induction xs arbitrary: i) (auto split: if_splits)

lemma position_of_None: "position_of x xs = None \<longleftrightarrow> x \<notin> set xs"
  by (induction xs) auto

lemma position_of_distinct: "distinct xs \<Longrightarrow> i < length xs \<Longrightarrow> position_of (xs ! i) xs = Some i"
proof (induction xs arbitrary: i)
  case (Cons x xs)
  then show ?case by (cases i) auto
qed simp

text \<open>The table as the build leaves it: distinct names, the empty one first.\<close>

definition ext_table_ok :: "drive_index \<Rightarrow> bool" where
  "ext_table_ok d \<longleftrightarrow> distinct (di_ext_names d) \<and> length (di_ext_names d) \<le> u16_max
     \<and> di_ext_names d \<noteq> [] \<and> hd (di_ext_names d) = []"

lemma intern_extension_frame:
  "intern_extension lower f d = (e, d') \<Longrightarrow> \<exists>xs. d' = d\<lparr>di_ext_names := di_ext_names d @ xs\<rparr>"
  by (auto simp: intern_extension_def Let_def split: option.splits if_splits prod.splits intro: exI [of _ "[]"])

section \<open>Properties\<close>

text \<open>
  The queries through base and overlay agree with the records: the records of an extension and the
  children of a record are exactly the live ones that carry it, in ascending order, whatever mix of
  base postings, overlay postings and tombstones the index holds.
\<close>

theorem overlay_queries_exact:
  assumes "index_inv d" and "p < u32_max"
  shows "records_with_ext d e = filter (\<lambda>i. live (di_records d) i \<and> cr_extension_id (di_records d ! i) = e) [0..<length (di_records d)]
    \<and> children_of_record d p = filter (\<lambda>i. live (di_records d) i \<and> cr_parent_idx (di_records d ! i) = p) [0..<length (di_records d)]"
  using records_with_ext_exact [OF assms(1)] for_each_child_exact [OF assms]
  by (simp add: children_of_record_def for_each_child_def split: option.split_asm)

definition demo_drive :: drive_index where
  "demo_drive = \<lparr>di_records = [], di_names = [], di_trigram = trigram_empty, di_children = children_empty,
     di_ext_index = ([0, 0], []), di_fold = [], di_ext_names = [[]], di_frs_to_compact = [], di_delta = None\<rparr>"

lemma demo_drive_inv: "index_inv demo_drive"
proof -
  have "get_posting trigram_empty k = None" for k
    by (simp add: get_posting_def trigram_empty_def binary_search_def binary_search_by_def)
  then show ?thesis
    by (simp add: index_inv_def index_fits_def links_ok_def bases_fresh_def demo_drive_def children_empty_def extension_build_def
        children_build_def csr_build_def max_extension_id_def selective_def trigram_posting_def u64_max_def u32_sat_add_def u32_max_def)
qed

theorem overlay_queries_exact_witness: "records_with_ext demo_drive 3 = [] \<and> children_of_record demo_drive 0 = []"
  using overlay_queries_exact [OF demo_drive_inv, of 0 3] by (simp add: u32_max_def) (simp add: demo_drive_def)

text \<open>
  C6. Folding the overlay into fresh bases never panics on an index that fits, drops the overlay and
  answers every extension query and every child query as before.
\<close>

theorem compaction_preserves_queries:
  assumes "index_inv d" and "\<forall>st. set (sched st) = set st"
  shows "\<exists>d'. fold_delta_for_save sched d = Some d' \<and> di_delta d' = None \<and> index_inv d' \<and> di_records d' = di_records d
    \<and> (\<forall>e. records_with_ext d' e = records_with_ext d e) \<and> (\<forall>p < u32_max. for_each_child d' p = for_each_child d p)"
proof (cases "di_delta d = None")
  case True
  with assms(1) show ?thesis by (simp add: fold_delta_for_save_def)
next
  case False
  from assms(1) have "index_fits d" "links_ok (di_records d)" by (simp_all add: index_inv_def)
  from compact_base_fresh [OF this assms(2)] obtain d' where
    d': "compact_base sched d = Some d'" "same_records d d'" "di_delta d' = None" "index_inv d'" by blast
  with records_with_ext_exact [OF assms(1)] records_with_ext_exact [OF d'(4)] for_each_child_exact [OF assms(1)]
    for_each_child_exact [OF d'(4)] False show ?thesis by (auto simp: fold_delta_for_save_def same_records_def)
qed

theorem compaction_preserves_queries_witness:
  "\<exists>d'. fold_delta_for_save rev demo_drive = Some d' \<and> (\<forall>e. records_with_ext d' e = records_with_ext demo_drive e)"
  using compaction_preserves_queries [OF demo_drive_inv, of rev] by auto

text \<open>
  C5. A substring search through base and overlay loses no live match, provided each trigram of the
  needle is either kept by the base or absent from the overlay too, and one of them has postings.
\<close>

theorem overlay_search_complete:
  assumes "index_inv d" and "3 \<le> length needle"
    and "\<forall>k \<in> text_trigrams (map (fold_char (di_fold d)) needle). trigram_intact d k"
    and "\<exists>k \<in> text_trigrams (map (fold_char (di_fold d)) needle). trigram_known d k"
    and "live (di_records d) i"
    and "sublist (map (fold_char (di_fold d)) needle) (folded_name (di_fold d) (di_names d) (di_records d ! i))"
  shows "\<exists>cand. trigram_search d needle = Some cand \<and> i \<in> set cand"
  by (rule trigram_search_current [OF assms])

lemma demo_aaa_len [simp]: "cr_name_len demo_aaa = 3"
  by (simp add: demo_aaa_def)

definition demo_aaa_drive :: drive_index where
  "demo_aaa_drive = the (compact_base rev (demo_drive\<lparr>di_records := [demo_aaa\<lparr>cr_parent_idx := u32_max\<rparr>], di_names := [0x61, 0x61, 0x61]\<rparr>))"

lemma demo_aaa_drive_inv:
  "index_inv demo_aaa_drive \<and> di_delta demo_aaa_drive = None \<and> di_records demo_aaa_drive = [demo_aaa\<lparr>cr_parent_idx := u32_max\<rparr>]
   \<and> di_names demo_aaa_drive = [0x61, 0x61, 0x61] \<and> di_fold demo_aaa_drive = []"
proof -
  let ?d = "demo_drive\<lparr>di_records := [demo_aaa\<lparr>cr_parent_idx := u32_max\<rparr>], di_names := [0x61, 0x61, 0x61]\<rparr>"
  have "record_trigrams [] [0x61, 0x61, 0x61] (demo_aaa\<lparr>cr_parent_idx := u32_max\<rparr>) = record_trigrams [] [0x61, 0x61, 0x61] demo_aaa"
    by (simp add: record_trigrams_def folded_name_def)
  then have "index_fits ?d" "links_ok (di_records ?d)"
    by (simp_all add: index_fits_def links_ok_def demo_drive_def demo_aaa_trigrams u32_max_def u64_max_def)
  from compact_base_fresh [OF this, of rev] show ?thesis
    by (auto simp: demo_aaa_drive_def same_records_def demo_drive_def)
qed

theorem overlay_search_complete_witness: "\<exists>cand. trigram_search demo_aaa_drive [0x61, 0x61, 0x61] = Some cand \<and> 0 \<in> set cand"
proof -
  let ?k = "pack_char_trigram 0x61 0x61 0x61" and ?r = "demo_aaa\<lparr>cr_parent_idx := u32_max\<rparr>"
  have f: "fold_char [] 0x61 = 0x61" by (simp add: fold_char_def vec_get_def)
  have name: "folded_name [] [0x61, 0x61, 0x61] ?r = [0x61, 0x61, 0x61]"
    using demo_aaa_folded by (simp add: folded_name_def)
  have "selective [] [0x61, 0x61, 0x61] [?r] ?k"
    by (simp add: selective_def trigram_posting_def name text_trigrams_single freq_cap_def)
  then have "trigram_known demo_aaa_drive ?k" "trigram_intact demo_aaa_drive ?k"
    using demo_aaa_drive_inv by (auto simp: trigram_known_def trigram_intact_def index_inv_def bases_fresh_def)
  then show ?thesis using demo_aaa_drive_inv
    by (intro overlay_search_complete) (simp_all add: f text_trigrams_single name live_def demo_aaa_len)
qed

text \<open>
  A trigram that the base pruned hides the base again once the overlay has a posting for it: every
  candidate of a needle with that trigram is then a record of the overlay, so the matching records of
  the base are lost until the next compaction.
\<close>

theorem overlay_hides_pruned_matches:
  assumes "index_inv d" and "di_delta d = Some delta" and "3 \<le> length needle"
    and "k \<in> text_trigrams (map (fold_char (di_fold d)) needle)"
    and "get_posting (di_trigram d) k = None" and "trigram_postings delta k \<noteq> []"
  shows "\<exists>cand. trigram_search d needle = Some cand \<and> set cand \<subseteq> set (trigram_postings delta k)"
proof -
  have eff: "set (effective_posting d delta k) = set (trigram_postings delta k)"
    using effective_posting_spec(2) [OF assms(1,2), of k] assms(5) by simp
  then have "effective_posting d delta k \<noteq> []" using assms(6) by auto
  with assms(4) have "\<exists>k \<in> text_trigrams (map (fold_char (di_fold d)) needle). effective_posting d delta k \<noteq> []" by blast
  from overlay_candidates [OF assms(1,2,3) this] obtain cand where "trigram_search d needle = Some cand"
    "set cand = {i. (\<forall>k \<in> text_trigrams (map (fold_char (di_fold d)) needle).
        effective_posting d delta k \<noteq> [] \<longrightarrow> i \<in> set (effective_posting d delta k))
      \<and> (i \<notin> id_tombstones delta \<or> (\<forall>k \<in> text_trigrams (map (fold_char (di_fold d)) needle). i \<in> set (trigram_postings delta k)))}" .
  with \<open>effective_posting d delta k \<noteq> []\<close> assms(4) eff show ?thesis by auto
qed

definition demo_root_aaa :: compact_record where "demo_root_aaa = demo_aaa\<lparr>cr_parent_idx := u32_max\<rparr>"

lemma demo_root_aaa_simps [simp]:
  "cr_name_len demo_root_aaa = 3" "cr_parent_idx demo_root_aaa = u32_max"
  "folded_name t names demo_root_aaa = folded_name t names demo_aaa"
  "record_trigrams t names demo_root_aaa = record_trigrams t names demo_aaa"
  by (simp_all add: demo_root_aaa_def folded_name_def record_trigrams_def)

definition demo_many :: "nat \<Rightarrow> drive_index" where
  "demo_many n = demo_drive\<lparr>di_records := replicate n demo_root_aaa, di_names := [0x61, 0x61, 0x61]\<rparr>"

lemma demo_many_fits: "n \<le> 2000 \<Longrightarrow> index_fits (demo_many n) \<and> links_ok (di_records (demo_many n))"
  by (simp add: demo_many_def index_fits_def links_ok_def demo_drive_def demo_aaa_trigrams sum_list_replicate u32_max_def u64_max_def
      list_all_length)

theorem overlay_hides_pruned_matches_witness:
  "\<exists>d cand. length (di_records d) = 1026 \<and> (\<forall>i < 1026. live (di_records d) i
       \<and> folded_name (di_fold d) (di_names d) (di_records d ! i) = [0x61, 0x61, 0x61])
     \<and> trigram_search d [0x61, 0x61, 0x61] = Some cand \<and> set cand \<subseteq> {1025}"
proof -
  let ?k = "pack_char_trigram 0x61 0x61 0x61" and ?c = "\<lparr>pc_idx = 1025, pc_subtree = False\<rparr>"
  obtain d0 where d0: "same_records (demo_many 1025) d0" "di_delta d0 = None" "index_inv d0"
    using compact_base_fresh [of "demo_many 1025" rev] demo_many_fits [of 1025] by auto
  define d1 where "d1 = d0\<lparr>di_records := di_records (demo_many 1026)\<rparr>"
  have d1: "di_names d1 = [0x61, 0x61, 0x61]" "di_fold d1 = []" "di_delta d1 = None"
    "di_records d1 = replicate 1026 demo_root_aaa" "di_records d0 = replicate 1025 demo_root_aaa" "di_fold d0 = []"
    "di_names d0 = [0x61, 0x61, 0x61]" "di_trigram d1 = di_trigram d0"
    using d0 by (simp_all add: d1_def demo_many_def same_records_def demo_drive_def)
  have fits: "index_fits d1" "links_ok (di_records d1)"
    using demo_many_fits [of 1026] d1 by (auto simp: index_fits_def demo_many_def demo_drive_def)
  have "changes_noted d0 d1 [?c] []"
    by (auto simp: changes_noted_def d1 live_def name_trigrams_def nth_append less_Suc_eq_le le_less)
  from apply_index_delta_inv [OF d0(3) _ fits this, of rev]
  obtain b d2 where d2: "apply_index_delta rev [?c] [] d1 = Some (b, d2)" "index_inv d2" "same_records d1 d2"
    by (auto simp: same_bases_def d1_def)
  define delta where "delta = overlay_add d1 ?c index_delta_default"
  have delta: "di_delta d2 = Some delta" and tri: "di_trigram d2 = di_trigram d0"
    using d2(1) by (auto simp: apply_index_delta_def d1(3,8) Let_def u64_sat_add_def u32_sat_add_def
        TRIGRAM_COMPACT_THRESHOLD_def u32_max_def u64_max_def len_to_u32_def delta_def)
  have post: "set (trigram_postings delta ?k) = {1025}"
    using add_trigrams [OF fits(1), of 1025] add_record_postings(1) [OF delta_ok_default]
    by (simp add: delta_def overlay_add_def d1 name_trigrams_def demo_aaa_folded text_trigrams_single vec_get_def)
      (simp add: index_delta_default_def trigram_postings_def postings_def)
  have "\<not> selective [] [0x61, 0x61, 0x61] (replicate 1025 demo_root_aaa) ?k"
  proof -
    have "trigram_posting [] [0x61, 0x61, 0x61] (replicate 1025 demo_root_aaa) ?k = [0..<1025]"
      by (auto simp: trigram_posting_def demo_aaa_folded text_trigrams_single intro!: filter_True)
    then show ?thesis by (simp add: selective_def freq_cap_def)
  qed
  then have none: "get_posting (di_trigram d2) ?k = None" using d0 tri d1 by (auto simp: index_inv_def bases_fresh_def)
  have rec: "di_records d2 = replicate 1026 demo_root_aaa" "di_fold d2 = []" "di_names d2 = [0x61, 0x61, 0x61]"
    using d2(3) d1 by (auto simp: same_records_def)
  have "map (fold_char (di_fold d2)) [0x61, 0x61, 0x61] = [0x61, 0x61, 0x61]" by (simp add: rec fold_char_def vec_get_def)
  then have k: "?k \<in> text_trigrams (map (fold_char (di_fold d2)) [0x61, 0x61, 0x61])" by (simp add: text_trigrams_single)
  have "trigram_postings delta ?k \<noteq> []" using post by auto
  from overlay_hides_pruned_matches [OF d2(2) delta _ k none this] post
  obtain cand where "trigram_search d2 [0x61, 0x61, 0x61] = Some cand" "set cand \<subseteq> {1025}" by auto
  then show ?thesis using rec by (intro exI [of _ d2] exI [of _ cand]) (auto simp: live_def demo_aaa_folded)
qed

text \<open>
  Interning the extension of a file name keeps the ids already given, keeps the table free of
  duplicates and below its limit, and gives an id under which the lower-cased extension is found again;
  the id 0 stands for no extension, or for a full table.
\<close>

theorem intern_extension_stable:
  assumes "ext_table_ok d" and "intern_extension lower f d = (e, d')"
  shows "ext_table_ok d' \<and> (\<exists>xs. di_ext_names d' = di_ext_names d @ xs) \<and> e < length (di_ext_names d')
    \<and> (e \<noteq> 0 \<longrightarrow> (\<exists>pos ext. after_last_dot f = Some (pos, ext) \<and> 0 < pos
         \<and> di_ext_names d' ! e = lower (dropWhile (\<lambda>b. b = 0x2E) ext)
         \<and> position_of (lower (dropWhile (\<lambda>b. b = 0x2E) ext)) (di_ext_names d') = Some e))"
proof (cases "after_last_dot f")
  case None
  with assms show ?thesis by (auto simp: intern_extension_def ext_table_ok_def)
next
  case (Some pe)
  obtain pos ext where pe: "pe = (pos, ext)" by (cases pe)
  let ?n = "lower (dropWhile (\<lambda>b. b = 0x2E) ext)" and ?names = "di_ext_names d"
  consider "pos = 0 \<or> pos + 1 \<ge> length f \<or> ?n = []" | i where "0 < pos" "position_of ?n ?names = Some i" "e = i" "d' = d"
    | "position_of ?n ?names = None" "length ?names \<ge> u16_max" "e = 0" "d' = d"
    | "0 < pos" "?n \<noteq> []" "position_of ?n ?names = None" "length ?names < u16_max" "e = length ?names" "d' = d\<lparr>di_ext_names := ?names @ [?n]\<rparr>"
    using assms Some pe position_of_Some [of ?n ?names]
    by (fastforce simp: intern_extension_def Let_def ext_table_ok_def split: if_splits option.splits)
  then show ?thesis
  proof cases
    case 1
    with assms Some pe have "e = 0" "d' = d" by (auto simp: intern_extension_def Let_def split: if_splits)
    with assms(1) show ?thesis by (simp add: ext_table_ok_def)
  next
    case (2 i)
    with position_of_Some [OF 2(2)] assms(1) Some pe show ?thesis by (auto simp: ext_table_ok_def)
  next
    case 3
    with assms(1) show ?thesis by (auto simp: ext_table_ok_def u16_max_def)
  next
    case 4
    then have nin: "?n \<notin> set ?names" by (simp add: position_of_None)
    with 4 assms(1) have ok: "ext_table_ok d'" by (simp add: ext_table_ok_def)
    then have "position_of (di_ext_names d' ! e) (di_ext_names d') = Some e"
      using 4 by (intro position_of_distinct) (simp_all add: ext_table_ok_def)
    with ok 4 Some pe show ?thesis by (simp add: nth_append)
  qed
qed

theorem intern_extension_stable_witness:
  "\<exists>d'. intern_extension id [0x61, 0x2E, 0x63] demo_drive = (1, d') \<and> ext_table_ok d'"
proof -
  have "ext_table_ok demo_drive" by (simp add: ext_table_ok_def demo_drive_def u16_max_def)
  moreover have "intern_extension id [0x61, 0x2E, 0x63] demo_drive = (1, demo_drive\<lparr>di_ext_names := [[], [0x63]]\<rparr>)"
    by (simp add: intern_extension_def demo_drive_def u16_max_def)
  ultimately show ?thesis using intern_extension_stable [of demo_drive id "[0x61, 0x2E, 0x63]" 1] by blast
qed

end
