(* ===== verification/Path_Len.thy ===== *)
theory Path_Len
  imports Compact_Index
begin

text \<open>
  Path lengths (\<open>crates/uffs-core/src/compact/path_len.rs\<close>): the breadth-first computation over all the
  records, and the refresh of the records one batch touched, with the shift of the subtree below a
  renamed directory. Both walks are loops over a work list; they are partial functions here, and that
  they return is proved for records whose parent links have no cycle.
\<close>

section \<open>Definitions\<close>

definition name_char_count :: "compact_record \<Rightarrow> bytes \<Rightarrow> nat" where
  "name_char_count r names =
     (case slice_get names (cr_name_offset r) (cr_name_offset r + cr_name_len r) of
        None \<Rightarrow> cr_name_len r
      | Some bs \<Rightarrow> (case utf8_chars bs of None \<Rightarrow> cr_name_len r | Some cs \<Rightarrow> len_to_u32 (length cs)))"

definition drive_prefix_chars :: nat where "drive_prefix_chars = 2"

definition set_path_len :: "nat \<Rightarrow> nat \<Rightarrow> compact_record list \<Rightarrow> compact_record list" where
  "set_path_len i pl records = (if i < length records then records[i := (records ! i)\<lparr>cr_path_len := len_to_u16 pl\<rparr>] else records)"

text \<open>The forward adjacency lists and the roots.\<close>

fun adjacency :: "(nat \<times> compact_record) list \<Rightarrow> nat list list \<times> nat list \<Rightarrow> nat list list \<times> nat list" where
  "adjacency [] (children, rs) = (children, rs)"
| "adjacency ((idx, r) # rest) (children, rs) =
     (let p = cr_parent_idx r in
      if p = u32_max then adjacency rest (children, rs @ [len_to_u32 idx])
      else if p < length children then adjacency rest (children[p := children ! p @ [len_to_u32 idx]], rs)
      else adjacency rest (children, rs))"

text \<open>The loop over the roots, and the queue loop.\<close>

fun seed_roots :: "bytes \<Rightarrow> nat list \<Rightarrow> compact_record list \<Rightarrow> (nat list \<times> compact_record list) rust" where
  "seed_roots names [] records = Some ([], records)"
| "seed_roots names (root # rest) records =
     (case vec_get records root of
        None \<Rightarrow> seed_roots names rest records
      | Some r \<Rightarrow> do {
          let name_chars = name_char_count r names;
          pl \<leftarrow> (if name_chars = 0 then Some (drive_prefix_chars + 1) else u32_add (drive_prefix_chars + 1) name_chars);
          (queue, records') \<leftarrow> seed_roots names rest (set_path_len root pl records);
          Some (root # queue, records')
        })"

definition child_path_len :: "bytes \<Rightarrow> nat \<Rightarrow> nat \<Rightarrow> compact_record list \<Rightarrow> compact_record list" where
  "child_path_len names parent_pl child records =
     (let child_chars = (case vec_get records child of None \<Rightarrow> 0 | Some r \<Rightarrow> name_char_count r names) in
      set_path_len child (u32_sat_add (u32_sat_add parent_pl 1) child_chars) records)"

partial_function (option) bfs ::
  "nat list list \<Rightarrow> bytes \<Rightarrow> nat list \<Rightarrow> compact_record list \<Rightarrow> compact_record list option"
where
  [code]: "bfs children names queue records =
     (case queue of
        [] \<Rightarrow> Some records
      | idx # rest \<Rightarrow>
          (let parent_pl = (case vec_get records idx of None \<Rightarrow> 0 | Some r \<Rightarrow> cr_path_len r);
               kids = (case vec_get children idx of None \<Rightarrow> [] | Some cs \<Rightarrow> cs)
           in bfs children names (rest @ kids) (fold (child_path_len names parent_pl) kids records)))"

definition compute_path_lengths :: "compact_record list \<Rightarrow> bytes \<Rightarrow> compact_record list rust" where
  "compute_path_lengths records names =
     (case adjacency (enumerate 0 records) (replicate (length records) [], []) of
        (children, rs) \<Rightarrow> do {
          (queue, records') \<leftarrow> seed_roots names rs records;
          bfs children names queue records'
        })"

definition path_len_from_parent :: "compact_record list \<Rightarrow> bytes \<Rightarrow> nat \<Rightarrow> nat" where
  "path_len_from_parent records names idx =
     (case vec_get records idx of
        None \<Rightarrow> 0
      | Some r \<Rightarrow>
          (let name_chars = name_char_count r names in
           if cr_parent_idx r = u32_max then
             (if name_chars = 0 then u32_sat_add drive_prefix_chars 1
              else u32_sat_add (u32_sat_add drive_prefix_chars 1) name_chars)
           else u32_sat_add (u32_sat_add (case vec_get records (cr_parent_idx r) of None \<Rightarrow> 0 | Some q \<Rightarrow> cr_path_len q) 1)
                  name_chars))"

definition push_children :: "compact_record list \<Rightarrow> csr \<Rightarrow> index_delta option \<Rightarrow> nat \<Rightarrow> nat list" where
  "push_children records children delta p =
     (case delta of
        None \<Rightarrow> children_get children p
      | Some overlay \<Rightarrow> merge_filter (children_get children p) (child_postings overlay p) (valid_child records p))"

text \<open>The first pass of the shift: the stack has its top first, so pushing a list reverses it.\<close>

partial_function (option) collect_descendants ::
  "compact_record list \<Rightarrow> csr \<Rightarrow> index_delta option \<Rightarrow> nat list \<Rightarrow> nat list \<Rightarrow> nat list option"
where
  [code]: "collect_descendants records children delta stack acc =
     (case stack of
        [] \<Rightarrow> Some acc
      | idx # rest \<Rightarrow>
          collect_descendants records children delta (rev (push_children records children delta idx) @ rest) (acc @ [idx]))"

definition shift_one :: "int \<Rightarrow> nat \<Rightarrow> compact_record list \<Rightarrow> compact_record list" where
  "shift_one shift idx records =
     (case vec_get records idx of
        None \<Rightarrow> records
      | Some r \<Rightarrow> records[idx := r\<lparr>cr_path_len := nat (max 0 (min (int u16_max) (i64_sat_add (int (cr_path_len r)) shift)))\<rparr>])"

definition shift_subtree_path_len ::
  "csr \<Rightarrow> index_delta option \<Rightarrow> nat \<Rightarrow> int \<Rightarrow> compact_record list \<Rightarrow> compact_record list rust"
where
  "shift_subtree_path_len children delta root shift records = do {
     descendants \<leftarrow> collect_descendants records children delta (rev (push_children records children delta root)) [];
     Some (fold (shift_one shift) descendants records)
   }"

definition refresh_one ::
  "bytes \<Rightarrow> csr \<Rightarrow> index_delta option \<Rightarrow> path_change \<Rightarrow> compact_record list \<Rightarrow> compact_record list rust"
where
  "refresh_one names children delta change records =
     (case vec_get records (pc_idx change) of
        None \<Rightarrow> Some records
      | Some r \<Rightarrow>
          if cr_name_len r = 0 \<and> cr_parent_idx r = u32_max then Some records
          else (let old_pl = cr_path_len r;
                    new_pl = path_len_from_parent records names (pc_idx change);
                    records' = set_path_len (pc_idx change) new_pl records;
                    shift = int new_pl - int old_pl
                in if pc_subtree change \<and> shift \<noteq> 0
                   then shift_subtree_path_len children delta (pc_idx change) shift records'
                   else Some records'))"

fun update_path_lengths_incremental ::
  "bytes \<Rightarrow> csr \<Rightarrow> index_delta option \<Rightarrow> path_change list \<Rightarrow> compact_record list \<Rightarrow> compact_record list rust"
where
  "update_path_lengths_incremental names children delta [] records = Some records"
| "update_path_lengths_incremental names children delta (c # cs) records = do {
     records' \<leftarrow> refresh_one names children delta c records;
     update_path_lengths_incremental names children delta cs records'
   }"

section \<open>Only path lengths change\<close>

definition strip_pl :: "compact_record list \<Rightarrow> compact_record list" where
  "strip_pl records = map (\<lambda>r. r\<lparr>cr_path_len := 0\<rparr>) records"

lemma strip_pl_length: "strip_pl rs' = strip_pl rs \<Longrightarrow> length rs' = length rs"
  by (metis length_map strip_pl_def)

lemma strip_pl_nth: "strip_pl rs' = strip_pl rs \<Longrightarrow> i < length rs \<Longrightarrow> (rs' ! i)\<lparr>cr_path_len := 0\<rparr> = (rs ! i)\<lparr>cr_path_len := 0\<rparr>"
  by (metis (mono_tags, lifting) length_map nth_map strip_pl_def)

lemma strip_pl_fields:
  assumes "strip_pl rs' = strip_pl rs" and "i < length rs"
  shows "cr_parent_idx (rs' ! i) = cr_parent_idx (rs ! i)" and "cr_name_len (rs' ! i) = cr_name_len (rs ! i)"
    and "cr_extension_id (rs' ! i) = cr_extension_id (rs ! i)" and "cr_name_offset (rs' ! i) = cr_name_offset (rs ! i)"
  using arg_cong [OF strip_pl_nth [OF assms], of cr_parent_idx] arg_cong [OF strip_pl_nth [OF assms], of cr_name_len]
    arg_cong [OF strip_pl_nth [OF assms], of cr_extension_id] arg_cong [OF strip_pl_nth [OF assms], of cr_name_offset]
  by simp_all

lemma strip_pl_update [simp]: "i < length rs \<Longrightarrow> strip_pl (rs[i := (rs ! i)\<lparr>cr_path_len := pl\<rparr>]) = strip_pl rs"
  by (simp add: strip_pl_def map_update list_update_same_conv)

lemma strip_set_path_len [simp]: "strip_pl (set_path_len i pl rs) = strip_pl rs"
  by (simp add: set_path_len_def)

lemma strip_child_path_len [simp]: "strip_pl (child_path_len names pl c rs) = strip_pl rs"
  by (simp add: child_path_len_def Let_def)

lemma strip_fold_child [simp]: "strip_pl (fold (child_path_len names pl) cs rs) = strip_pl rs"
  by (induction cs arbitrary: rs) simp_all

lemma strip_shift_one [simp]: "strip_pl (shift_one s i rs) = strip_pl rs"
  by (simp add: shift_one_def vec_get_def)

lemma strip_fold_shift [simp]: "strip_pl (fold (shift_one s) ds rs) = strip_pl rs"
  by (induction ds arbitrary: rs) simp_all

lemma strip_shift_subtree: "shift_subtree_path_len ch delta root s rs = Some rs' \<Longrightarrow> strip_pl rs' = strip_pl rs"
  by (auto simp: shift_subtree_path_len_def split: Option.bind_splits)

lemma strip_refresh_one: "refresh_one names ch delta c rs = Some rs' \<Longrightarrow> strip_pl rs' = strip_pl rs"
  by (auto simp: refresh_one_def Let_def dest: strip_shift_subtree split: option.splits if_splits)

lemma strip_incremental: "update_path_lengths_incremental names ch delta cs rs = Some rs' \<Longrightarrow> strip_pl rs' = strip_pl rs"
  by (induction cs arbitrary: rs) (auto dest: strip_refresh_one split: Option.bind_splits)

lemma live_strip: "strip_pl rs' = strip_pl rs \<Longrightarrow> live rs' = live rs"
  using strip_pl_length [of rs' rs] strip_pl_fields(2) [of rs' rs] by (auto simp: live_def fun_eq_iff)

lemma name_fields_only:
  "cr_name_offset r' = cr_name_offset r \<Longrightarrow> cr_name_len r' = cr_name_len r \<Longrightarrow>
   name_char_count r' names = name_char_count r names \<and> folded_name t names r' = folded_name t names r
   \<and> record_trigrams t names r' = record_trigrams t names r"
  by (simp add: name_char_count_def folded_name_def record_trigrams_def split: option.split)

section \<open>The subtree walk returns\<close>

definition kids :: "compact_record list \<Rightarrow> nat \<Rightarrow> nat list" where
  "kids records p = filter (\<lambda>i. live records i \<and> cr_parent_idx (records ! i) = p) [0..<length records]"

lemma kids_strip: "strip_pl rs' = strip_pl rs \<Longrightarrow> kids rs' = kids rs"
proof
  fix p assume eq: "strip_pl rs' = strip_pl rs"
  show "kids rs' p = kids rs p"
    unfolding kids_def live_strip [OF eq] strip_pl_length [OF eq]
    by (rule filter_cong) (use strip_pl_fields(1) [OF eq] in auto)
qed

text \<open>Parent links without a cycle: a rank that grows from a record to its children.\<close>

definition links_ranked :: "(nat \<Rightarrow> nat) \<Rightarrow> compact_record list \<Rightarrow> bool" where
  "links_ranked rank records \<longleftrightarrow>
     (\<forall>i < length records. cr_parent_idx (records ! i) < length records \<longrightarrow> rank (cr_parent_idx (records ! i)) < rank i)"

definition weight :: "(nat \<Rightarrow> nat) \<Rightarrow> compact_record list \<Rightarrow> nat \<Rightarrow> nat" where
  "weight rank records i = Suc (length records) ^ (Max (rank ` {..<length records}) - rank i)"

lemma sum_list_bound: "\<forall>x \<in> set xs. f x \<le> b \<Longrightarrow> sum_list (map f xs) \<le> length xs * (b :: nat)"
  by (induction xs) auto

lemma kids_lighter:
  assumes "links_ranked rank records" and "p < length records"
  shows "sum_list (map (weight rank records) (kids records p)) < weight rank records p"
proof -
  let ?n = "length records" and ?m = "Max (rank ` {..<length records})"
  show ?thesis
  proof (cases "kids records p = []")
    case False
    then obtain c where c: "c \<in> set (kids records p)" by (cases "kids records p") auto
    have up: "rank p < rank c" "rank c \<le> ?m" if "c \<in> set (kids records p)" for c
      using that assms by (auto simp: kids_def live_def links_ranked_def)
    have "weight rank records c' \<le> Suc ?n ^ (?m - rank p - 1)" if "c' \<in> set (kids records p)" for c'
      using up [OF that] by (auto simp: weight_def intro!: power_increasing)
    then have "sum_list (map (weight rank records) (kids records p)) \<le> length (kids records p) * Suc ?n ^ (?m - rank p - 1)"
      by (intro sum_list_bound) auto
    also have "\<dots> < Suc ?n * Suc ?n ^ (?m - rank p - 1)"
      using length_filter_le [of "\<lambda>i. live records i \<and> cr_parent_idx (records ! i) = p" "[0..<?n]"]
      by (intro mult_strict_right_mono) (simp_all add: kids_def less_Suc_eq_le)
    also have "\<dots> = weight rank records p"
      using up [OF c] by (simp add: weight_def power_Suc [symmetric] Suc_diff_Suc del: power_Suc)
    finally show ?thesis .
  qed (simp add: weight_def)
qed

definition child_rel :: "compact_record list \<Rightarrow> (nat \<times> nat) set" where
  "child_rel records = {(p, c). c \<in> set (kids records p)}"

definition subtree :: "compact_record list \<Rightarrow> nat \<Rightarrow> nat set" where
  "subtree records p = {x. (p, x) \<in> (child_rel records)\<^sup>*}"

lemma subtree_self [simp]: "p \<in> subtree records p"
  by (simp add: subtree_def)

lemma subtree_unfold: "subtree records p = insert p (\<Union>c \<in> set (kids records p). subtree records c)"
  by (auto simp: subtree_def child_rel_def elim: converse_rtranclE intro: converse_rtrancl_into_rtrancl)

lemma subtree_rank:
  assumes "links_ranked rank records" and "x \<in> subtree records p" and "p < length records"
  shows "x < length records \<and> (x = p \<or> rank p < rank x)"
proof -
  have "(p, x) \<in> (child_rel records)\<^sup>*" using assms(2) by (simp add: subtree_def)
  then show ?thesis
  proof induction
    case (step y z)
    then show ?case using assms(1) by (auto simp: child_rel_def kids_def live_def links_ranked_def)
  qed (use assms(3) in simp)
qed

text \<open>Two subtrees that meet are nested, because a record has one parent.\<close>

lemma subtree_nested:
  "x \<in> subtree records a \<Longrightarrow> x \<in> subtree records b \<Longrightarrow> a \<in> subtree records b \<or> b \<in> subtree records a"
proof -
  have "(a, x) \<in> (child_rel records)\<^sup>* \<Longrightarrow> (b, x) \<in> (child_rel records)\<^sup>* \<Longrightarrow>
      (b, a) \<in> (child_rel records)\<^sup>* \<or> (a, b) \<in> (child_rel records)\<^sup>*" for x
  proof (induction rule: rtrancl_induct)
    case (step y z)
    from step.prems show ?case
    proof (cases rule: rtranclE)
      case base
      with step.hyps show ?thesis by (meson rtrancl.rtrancl_into_rtrancl)
    next
      case (step w)
      with \<open>(y, z) \<in> child_rel records\<close> have "w = y" by (auto simp: child_rel_def kids_def)
      with step \<open>(b, y) \<in> (child_rel records)\<^sup>* \<Longrightarrow> _\<close> show ?thesis by blast
    qed
  qed simp
  then show "x \<in> subtree records a \<Longrightarrow> x \<in> subtree records b \<Longrightarrow> a \<in> subtree records b \<or> b \<in> subtree records a"
    by (auto simp: subtree_def)
qed

lemma siblings_apart:
  assumes "links_ranked rank records" and "p < length records" and "a \<in> set (kids records p)" and "b \<in> set (kids records p)" and "a \<noteq> b"
  shows "subtree records a \<inter> subtree records b = {}"
proof (rule ccontr)
  assume "subtree records a \<inter> subtree records b \<noteq> {}"
  then have "a \<in> subtree records b \<or> b \<in> subtree records a" using subtree_nested by blast
  moreover have False if xy: "x \<in> subtree records y" "x \<noteq> y" "x \<in> set (kids records p)" "y \<in> set (kids records p)" for x y
  proof -
    have "(y, x) \<in> (child_rel records)\<^sup>*" using xy(1) by (simp add: subtree_def)
    then obtain w where w: "(y, w) \<in> (child_rel records)\<^sup>*" "(w, x) \<in> child_rel records" using xy(2) by (metis rtranclE)
    then have "w = p" using xy(3) by (auto simp: child_rel_def kids_def)
    with w have "p \<in> subtree records y" by (simp add: subtree_def)
    moreover have "y < length records" "rank p < rank y" using xy(4) assms(1,2) by (auto simp: kids_def live_def links_ranked_def)
    ultimately show False using subtree_rank [OF assms(1), of p y] by auto
  qed
  ultimately show False using assms(3-5) by blast
qed

fun apart :: "compact_record list \<Rightarrow> nat list \<Rightarrow> bool" where
  "apart records [] \<longleftrightarrow> True"
| "apart records (s # ss) \<longleftrightarrow> (\<forall>t \<in> set ss. subtree records s \<inter> subtree records t = {}) \<and> apart records ss"

lemma apart_append:
  "apart records (xs @ ys) \<longleftrightarrow> apart records xs \<and> apart records ys
     \<and> (\<forall>x \<in> set xs. \<forall>y \<in> set ys. subtree records x \<inter> subtree records y = {})"
  by (induction xs) auto

lemma apart_rev [simp]: "apart records (rev xs) \<longleftrightarrow> apart records xs"
  by (induction xs) (auto simp: apart_append)

lemma apart_distinct_siblings:
  assumes "links_ranked rank records" and "p < length records"
  shows "distinct xs \<Longrightarrow> set xs \<subseteq> set (kids records p) \<Longrightarrow> apart records xs"
proof (induction xs)
  case (Cons x xs)
  then show ?case using siblings_apart [OF assms] by (metis apart.simps(2) distinct.simps(2) list.set_intros insert_subset list.simps(15) subsetD)
qed simp

lemma collect_descendants_total:
  assumes ranked: "links_ranked rank records" and push: "\<And>p. p < length records \<Longrightarrow> push_children records ch delta p = kids records p"
  shows "\<forall>s \<in> set stack. s < length records \<Longrightarrow> apart records stack \<Longrightarrow>
    \<exists>ds. collect_descendants records ch delta stack acc = Some (acc @ ds) \<and> distinct ds \<and> set ds = (\<Union>s \<in> set stack. subtree records s)"
proof (induction "sum_list (map (weight rank records) stack)" arbitrary: stack acc rule: less_induct)
  case less
  show ?case
  proof (cases stack)
    case Nil
    then show ?thesis by (simp add: collect_descendants.simps)
  next
    case (Cons s ss)
    with less.prems(1) have s: "s < length records" by simp
    let ?k = "kids records s" and ?stack = "rev (kids records s) @ ss"
    have lt: "sum_list (map (weight rank records) ?stack) < sum_list (map (weight rank records) stack)"
      using kids_lighter [OF ranked s] by (simp add: Cons sum_list_rev rev_map [symmetric])
    have ap: "apart records ?k" by (rule apart_distinct_siblings [OF ranked s]) (simp_all add: kids_def)
    have sub: "subtree records c \<subseteq> subtree records s" if "c \<in> set ?k" for c using that subtree_unfold [of records s] by blast
    have "apart records ?stack" using ap less.prems(2) sub by (auto simp: Cons apart_append)
    moreover have "\<forall>c \<in> set ?stack. c < length records" using less.prems(1) by (auto simp: Cons kids_def)
    ultimately obtain ds where ds: "collect_descendants records ch delta ?stack (acc @ [s]) = Some ((acc @ [s]) @ ds)" "distinct ds"
      "set ds = (\<Union>s \<in> set ?stack. subtree records s)"
      using less.hyps [OF lt, of "acc @ [s]"] by blast
    have "s \<notin> subtree records c" if "c \<in> set ?k" for c
      using that subtree_rank [OF ranked, of s c] ranked s by (auto simp: kids_def live_def links_ranked_def)
    moreover have "s \<notin> subtree records t" if "t \<in> set ss" for t
      using less.prems(2) that subtree_self [of s records] by (auto simp: Cons simp del: subtree_self)
    ultimately have "s \<notin> set ds" using ds(3) by auto
    moreover have "collect_descendants records ch delta stack acc = Some (acc @ s # ds)"
      using ds(1) push [OF s] by (simp add: Cons collect_descendants.simps [of records ch delta "s # ss"])
    moreover have "set (s # ds) = (\<Union>t \<in> set stack. subtree records t)"
      using ds(3) subtree_unfold [of records s] by (auto simp: Cons)
    ultimately show ?thesis using ds(2) by (intro exI [of _ "s # ds"]) simp
  qed
qed

section \<open>The refresh of a batch returns\<close>

lemma push_children_kids:
  assumes "index_inv d" and "strip_pl rs = strip_pl (di_records d)" and "p < length rs"
  shows "push_children rs (di_children d) (di_delta d) p = kids rs p"
proof -
  have n: "p < u32_max" using assms by (auto simp: index_inv_def index_fits_def dest: strip_pl_length)
  have "valid_child rs p = valid_child (di_records d) p"
    using live_strip [OF assms(2)] strip_pl_fields(1) [OF assms(2)] strip_pl_length [OF assms(2)]
    by (auto simp: valid_child_iff fun_eq_iff live_def)
  then have "push_children rs (di_children d) (di_delta d) p = for_each_child d p"
    by (simp add: push_children_def for_each_child_def split: option.split)
  also have "\<dots> = kids (di_records d) p" using for_each_child_exact [OF assms(1) n] by (simp add: kids_def)
  finally show ?thesis by (simp add: kids_strip [OF assms(2)])
qed

lemma links_ranked_strip: "strip_pl rs' = strip_pl rs \<Longrightarrow> links_ranked rank rs' = links_ranked rank rs"
  using strip_pl_length [of rs' rs] strip_pl_fields(1) [of rs' rs] by (auto simp: links_ranked_def)

lemma shift_subtree_total:
  assumes "index_inv d" and "strip_pl rs = strip_pl (di_records d)" and "links_ranked rank (di_records d)" and "c < length rs"
  shows "\<exists>ds. shift_subtree_path_len (di_children d) (di_delta d) c s rs = Some (fold (shift_one s) ds rs)
    \<and> distinct ds \<and> set ds = subtree rs c - {c}"
proof -
  have ranked: "links_ranked rank rs" using links_ranked_strip [OF assms(2)] assms(3) by blast
  note push = push_children_kids [OF assms(1,2)]
  have kid: "k < length rs" "rank c < rank k" if "k \<in> set (kids rs c)" for k
    using that ranked assms(4) by (auto simp: kids_def live_def links_ranked_def)
  have "apart rs (rev (kids rs c))"
    using apart_distinct_siblings [OF ranked assms(4), of "kids rs c"] by (simp add: kids_def)
  moreover have "\<forall>k \<in> set (rev (kids rs c)). k < length rs" using kid by auto
  ultimately obtain ds where ds: "collect_descendants rs (di_children d) (di_delta d) (rev (kids rs c)) [] = Some ds" "distinct ds"
    "set ds = (\<Union>k \<in> set (kids rs c). subtree rs k)"
    using collect_descendants_total [OF ranked push, of "rev (kids rs c)" "[]"] by auto
  have "c \<notin> subtree rs k" if "k \<in> set (kids rs c)" for k
    using subtree_rank [OF ranked, of c k] kid [OF that] by auto
  then have "set ds = subtree rs c - {c}" using ds(3) subtree_unfold [of rs c] by auto
  with ds(1,2) push [OF assms(4)] show ?thesis by (intro exI [of _ ds]) (simp add: shift_subtree_path_len_def)
qed

lemma refresh_one_total:
  assumes "index_inv d" and "strip_pl rs = strip_pl (di_records d)" and "links_ranked rank (di_records d)"
  shows "\<exists>rs'. refresh_one names (di_children d) (di_delta d) c rs = Some rs' \<and> strip_pl rs' = strip_pl (di_records d)"
proof -
  have "\<exists>rs'. shift_subtree_path_len (di_children d) (di_delta d) (pc_idx c) s (set_path_len (pc_idx c) pl rs) = Some rs'"
    if "pc_idx c < length rs" for s pl
    using shift_subtree_total [OF assms(1) _ assms(3), of "set_path_len (pc_idx c) pl rs" "pc_idx c" s] assms(2) that
    by (auto simp: strip_pl_length [OF strip_set_path_len])
  then have "\<exists>rs'. refresh_one names (di_children d) (di_delta d) c rs = Some rs'"
    by (auto simp: refresh_one_def Let_def vec_get_def)
  with strip_refresh_one assms(2) show ?thesis by fastforce
qed

lemma incremental_total:
  assumes "index_inv d" and "links_ranked rank (di_records d)"
  shows "strip_pl rs = strip_pl (di_records d) \<Longrightarrow>
    \<exists>rs'. update_path_lengths_incremental names (di_children d) (di_delta d) cs rs = Some rs' \<and> strip_pl rs' = strip_pl (di_records d)"
proof (induction cs arbitrary: rs)
  case (Cons c cs)
  from refresh_one_total [OF assms(1) Cons.prems assms(2), of names c] obtain r where
    "refresh_one names (di_children d) (di_delta d) c rs = Some r" "strip_pl r = strip_pl (di_records d)" by blast
  with Cons.IH [of r] show ?case by simp
qed simp

section \<open>A renamed directory\<close>

definition consistent :: "bytes \<Rightarrow> compact_record list \<Rightarrow> nat \<Rightarrow> bool" where
  "consistent names records i \<longleftrightarrow> cr_path_len (records ! i) = path_len_from_parent records names i"

lemma path_len_shift_one:
  "i < length rs \<Longrightarrow> cr_path_len (shift_one s j rs ! i) =
     (if i = j then nat (max 0 (min (int u16_max) (i64_sat_add (int (cr_path_len (rs ! i))) s))) else cr_path_len (rs ! i))"
  by (auto simp: shift_one_def vec_get_def nth_list_update)

lemma length_shift_one [simp]: "length (shift_one s j rs) = length rs"
  by (auto simp: shift_one_def vec_get_def)

lemma path_len_fold_shift:
  "distinct ds \<Longrightarrow> i < length rs \<Longrightarrow> cr_path_len (fold (shift_one s) ds rs ! i) =
     (if i \<in> set ds then nat (max 0 (min (int u16_max) (i64_sat_add (int (cr_path_len (rs ! i))) s))) else cr_path_len (rs ! i))"
  by (induction ds arbitrary: rs) (auto simp: path_len_shift_one)

lemma from_parent_strip:
  assumes "strip_pl rs' = strip_pl rs" and "i < length rs"
    and "cr_parent_idx (rs ! i) < length rs \<Longrightarrow> cr_path_len (rs' ! cr_parent_idx (rs ! i)) = cr_path_len (rs ! cr_parent_idx (rs ! i))"
  shows "path_len_from_parent rs' names i = path_len_from_parent rs names i"
proof -
  note f = strip_pl_fields [OF assms(1,2)] and n = strip_pl_length [OF assms(1)]
  have "name_char_count (rs' ! i) names = name_char_count (rs ! i) names" using name_fields_only [OF f(4,2)] by blast
  then show ?thesis using assms(2,3) f(1) n by (simp add: path_len_from_parent_def vec_get_def Let_def)
qed

lemma from_parent_child:
  assumes "i < length rs" and "cr_parent_idx (rs ! i) = p" and "p < length rs" and "p \<noteq> u32_max"
  shows "path_len_from_parent rs names i = u32_sat_add (u32_sat_add (cr_path_len (rs ! p)) 1) (name_char_count (rs ! i) names)"
  using assms by (simp add: path_len_from_parent_def vec_get_def Let_def)

lemma subtree_longer:
  assumes cons: "\<forall>i. live rs i \<and> i \<noteq> c \<longrightarrow> consistent names rs i \<and> cr_path_len (rs ! i) \<le> u16_max"
    and n: "length rs \<le> u32_max" and ranked: "links_ranked rank rs" and c: "c < length rs"
  shows "x \<in> subtree rs c \<Longrightarrow> cr_path_len (rs ! c) \<le> cr_path_len (rs ! x)"
proof -
  have "(c, x) \<in> (child_rel rs)\<^sup>* \<Longrightarrow> cr_path_len (rs ! c) \<le> cr_path_len (rs ! x)"
  proof (induction rule: rtrancl_induct)
    case (step y z)
    then have z: "live rs z" "z < length rs" "cr_parent_idx (rs ! z) = y" by (auto simp: child_rel_def kids_def live_def)
    have yz: "y \<in> subtree rs c" "z \<in> subtree rs c" using step.hyps by (auto simp: subtree_def)
    have y: "y < length rs" using subtree_rank [OF ranked yz(1) c] by simp
    have "rank y < rank z" using ranked z y by (auto simp: links_ranked_def)
    then have "z \<noteq> c" using subtree_rank [OF ranked yz(1) c] by auto
    with cons z have "cr_path_len (rs ! z) = path_len_from_parent rs names z" "cr_path_len (rs ! z) \<le> u16_max"
      by (auto simp: consistent_def)
    with from_parent_child [OF z(2,3) y] y n have "cr_path_len (rs ! y) \<le> cr_path_len (rs ! z)"
      by (auto simp: u32_sat_add_def u32_max_def u16_max_def)
    with step.IH show ?case by simp
  qed simp
  then show "x \<in> subtree rs c \<Longrightarrow> cr_path_len (rs ! c) \<le> cr_path_len (rs ! x)" by (simp add: subtree_def)
qed

text \<open>What a rename of \<open>c\<close> is given: all other live records agree with their parents, and nothing leaves 16 bits.\<close>

definition rename_ready :: "bytes \<Rightarrow> compact_record list \<Rightarrow> nat \<Rightarrow> bool" where
  "rename_ready names rs c \<longleftrightarrow> live rs c
     \<and> (\<forall>i. live rs i \<and> i \<noteq> c \<longrightarrow> consistent names rs i \<and> cr_path_len (rs ! i) \<le> u16_max)
     \<and> path_len_from_parent rs names c \<le> u16_max
     \<and> (\<forall>x \<in> subtree rs c. cr_path_len (rs ! x) + path_len_from_parent rs names c \<le> u16_max + cr_path_len (rs ! c))"

lemma rename_effect:
  assumes inv: "index_inv d" and ranked: "links_ranked rank (di_records d)" and rs: "rs = di_records d" and ready: "rename_ready names rs c"
    and s: "s = int (path_len_from_parent rs names c) - int (cr_path_len (rs ! c))"
  shows "\<exists>rs'. refresh_one names (di_children d) (di_delta d) \<lparr>pc_idx = c, pc_subtree = True\<rparr> rs = Some rs' \<and> strip_pl rs' = strip_pl rs
    \<and> (\<forall>i < length rs. int (cr_path_len (rs' ! i)) = int (cr_path_len (rs ! i)) + (if i \<in> subtree rs c then s else 0))"
proof -
  define new where "new = path_len_from_parent rs names c"
  have lt: "c < length rs" and dead: "cr_name_len (rs ! c) \<noteq> 0" using ready by (simp_all add: live_def rename_ready_def)
  have n: "length rs \<le> u32_max" using inv by (simp add: index_inv_def index_fits_def rs)
  define rs1 where "rs1 = set_path_len c new rs"
  have rs1: "strip_pl rs1 = strip_pl rs" "length rs1 = length rs" by (simp_all add: rs1_def strip_pl_length [OF strip_set_path_len])
  have pl1: "cr_path_len (rs1 ! i) = (if i = c then new else cr_path_len (rs ! i))" if "i < length rs" for i
    using ready lt that by (auto simp: rs1_def set_path_len_def nth_list_update len_to_u16_def new_def rename_ready_def)
  have sub1: "subtree rs1 c = subtree rs c" by (simp add: subtree_def child_rel_def kids_strip [OF rs1(1)])
  obtain ds where ds: "shift_subtree_path_len (di_children d) (di_delta d) c s rs1 = Some (fold (shift_one s) ds rs1)"
    "distinct ds" "set ds = subtree rs c - {c}"
    using shift_subtree_total [OF inv _ ranked, of rs1 c s] rs1 lt sub1 by (auto simp: rs)
  define rs2 where "rs2 = (if s \<noteq> 0 then fold (shift_one s) ds rs1 else rs1)"
  have run: "refresh_one names (di_children d) (di_delta d) \<lparr>pc_idx = c, pc_subtree = True\<rparr> rs = Some rs2"
    using ds(1) lt dead by (simp add: refresh_one_def Let_def rs2_def rs1_def new_def s)
  have long: "cr_path_len (rs ! c) \<le> cr_path_len (rs ! x)" if "x \<in> subtree rs c" for x
    using subtree_longer [of rs c names, OF _ n _ lt that] ready ranked by (simp add: rename_ready_def rs)
  have "int (cr_path_len (rs2 ! i)) = int (cr_path_len (rs ! i)) + (if i \<in> subtree rs c then s else 0)" if i: "i < length rs" for i
  proof (cases "i \<in> subtree rs c \<and> i \<noteq> c")
    case True
    with long ready have "0 \<le> int (cr_path_len (rs ! i)) + s" "int (cr_path_len (rs ! i)) + s \<le> int u16_max"
      by (force simp: s rename_ready_def)+
    with True i rs1(2) ds(2,3) pl1 [OF i] show ?thesis
      by (auto simp: rs2_def path_len_fold_shift i64_sat_add_def i64_max_def i64_min_def u16_max_def)
  next
    case False
    then show ?thesis using i rs1(2) ds(2,3) pl1 [OF i] by (auto simp: rs2_def path_len_fold_shift s new_def)
  qed
  with run rs1(1) show ?thesis by (auto simp: rs2_def)
qed

lemma consistent_after_shift:
  assumes strip: "strip_pl rs' = strip_pl rs" and n: "length rs \<le> u32_max" and ranked: "links_ranked rank rs" and ready: "rename_ready names rs c"
    and s: "s = int (path_len_from_parent rs names c) - int (cr_path_len (rs ! c))"
    and pl: "\<forall>i < length rs. int (cr_path_len (rs' ! i)) = int (cr_path_len (rs ! i)) + (if i \<in> subtree rs c then s else 0)"
    and i: "live rs i"
  shows "consistent names rs' i"
proof -
  let ?p = "cr_parent_idx (rs ! i)"
  have lt: "i < length rs" "c < length rs" using i ready by (auto simp: live_def rename_ready_def)
  have up: "i \<in> subtree rs c" if "?p \<in> subtree rs c"
  proof -
    have "(?p, i) \<in> child_rel rs" using i lt by (auto simp: child_rel_def kids_def)
    with that show ?thesis by (auto simp: subtree_def intro: rtrancl_into_rtrancl)
  qed
  have keep: "path_len_from_parent rs' names i = path_len_from_parent rs names i" if "?p \<notin> subtree rs c \<or> length rs \<le> ?p"
    using that pl by (intro from_parent_strip [OF strip lt(1)]) auto
  consider (self) "i = c" | (outside) "i \<noteq> c" "i \<notin> subtree rs c" | (inside) "i \<noteq> c" "i \<in> subtree rs c" by blast
  then show ?thesis
  proof cases
    case self
    have "?p \<notin> subtree rs c \<or> length rs \<le> ?p"
      using subtree_rank [OF ranked _ lt(2), of ?p] ranked lt self by (fastforce simp: links_ranked_def not_le)
    with keep pl [rule_format, OF lt(2)] self show ?thesis by (simp add: consistent_def s)
  next
    case outside
    then have "path_len_from_parent rs' names i = path_len_from_parent rs names i" using up keep by blast
    with outside pl [rule_format, OF lt(1)] i ready show ?thesis by (simp add: consistent_def rename_ready_def)
  next
    case inside
    then have down: "?p \<in> subtree rs c" by (auto simp: subtree_def child_rel_def kids_def elim: rtranclE)
    have p: "?p < length rs" "?p \<noteq> u32_max" using subtree_rank [OF ranked down lt(2)] n by auto
    note f = strip_pl_fields [OF strip lt(1)]
    have cc: "name_char_count (rs' ! i) names = name_char_count (rs ! i) names" using name_fields_only [OF f(4,2)] by blast
    have "path_len_from_parent rs' names i = u32_sat_add (u32_sat_add (cr_path_len (rs' ! ?p)) 1) (name_char_count (rs ! i) names)"
      using from_parent_child [of i rs' ?p names] lt f(1) p strip_pl_length [OF strip] cc by simp
    moreover have "cr_path_len (rs ! i) = u32_sat_add (u32_sat_add (cr_path_len (rs ! ?p)) 1) (name_char_count (rs ! i) names)"
      "cr_path_len (rs ! i) \<le> u16_max" "int (cr_path_len (rs ! i)) + s \<le> int u16_max"
      using from_parent_child [OF lt(1) refl p, of names] ready i inside by (force simp: rename_ready_def consistent_def s)+
    ultimately show ?thesis using pl [rule_format, OF p(1)] pl [rule_format, OF lt(1)] down inside
      by (auto simp: consistent_def u32_sat_add_def u32_max_def u16_max_def min_def split: if_splits)
  qed
qed

text \<open>
  C8. Refreshing one renamed directory keeps every path length right: when all other live records agree
  with their parents before, and no length leaves 16 bits, the walk returns and afterwards every live
  record, the whole subtree included, agrees with its parent again.
\<close>

theorem rename_refresh_consistent:
  assumes "index_inv d" and "links_ranked rank (di_records d)" and "rename_ready names (di_records d) c"
  shows "\<exists>rs'. refresh_one names (di_children d) (di_delta d) \<lparr>pc_idx = c, pc_subtree = True\<rparr> (di_records d) = Some rs'
    \<and> strip_pl rs' = strip_pl (di_records d) \<and> (\<forall>i. live rs' i \<longrightarrow> consistent names rs' i)"
proof -
  from rename_effect [OF assms(1,2) refl assms(3) refl] obtain rs' where
    rs': "refresh_one names (di_children d) (di_delta d) \<lparr>pc_idx = c, pc_subtree = True\<rparr> (di_records d) = Some rs'"
    "strip_pl rs' = strip_pl (di_records d)" and pl: "\<forall>i < length (di_records d). int (cr_path_len (rs' ! i)) = int (cr_path_len (di_records d ! i))
       + (if i \<in> subtree (di_records d) c then int (path_len_from_parent (di_records d) names c) - int (cr_path_len (di_records d ! c)) else 0)"
    by blast
  have "length (di_records d) \<le> u32_max" using assms(1) by (simp add: index_inv_def index_fits_def)
  from consistent_after_shift [OF rs'(2) this assms(2,3) refl pl] rs' show ?thesis by (simp add: live_strip [OF rs'(2)])
qed

lemma kids_demo_aaa: "kids [demo_aaa\<lparr>cr_parent_idx := u32_max\<rparr>] 0 = []"
  by (simp add: kids_def live_def u32_max_def)

theorem rename_refresh_consistent_witness:
  "\<exists>rs'. refresh_one [0x61, 0x61, 0x61] (di_children demo_aaa_drive) (di_delta demo_aaa_drive)
       \<lparr>pc_idx = 0, pc_subtree = True\<rparr> (di_records demo_aaa_drive) = Some rs' \<and> cr_path_len (rs' ! 0) = 6"
proof -
  let ?r = "demo_aaa\<lparr>cr_parent_idx := u32_max\<rparr>" and ?n = "[0x61, 0x61, 0x61] :: bytes"
  have rs: "di_records demo_aaa_drive = [?r]" using demo_aaa_drive_inv by blast
  have fields: "cr_name_offset ?r = 0" "cr_name_len ?r = 3" "cr_path_len ?r = 0" "cr_parent_idx ?r = u32_max"
    by (simp_all add: demo_aaa_def compact_record_default_def)
  have "name_char_count ?r ?n = 3"
    by (simp add: name_char_count_def fields slice_get_def utf8_ascii_chars len_to_u32_def u32_max_def del: select_convs)
  then have cnt: "name_char_count q ?n = 3" if "cr_name_offset q = 0" "cr_name_len q = 3" for q
    using that fields name_fields_only [of q ?r] by metis
  then have six: "path_len_from_parent [q] ?n 0 = 6" if "cr_name_offset q = 0" "cr_name_len q = 3" "cr_parent_idx q = u32_max" for q
    using that cnt [of q] by (simp add: path_len_from_parent_def vec_get_def Let_def u32_sat_add_def drive_prefix_chars_def u32_max_def)
  have sub: "subtree [?r] 0 = {0}" using subtree_unfold [of "[?r]" 0] kids_demo_aaa by auto
  have "rename_ready ?n [?r] 0"
    using six [OF fields(1,2,4)] fields by (auto simp: rename_ready_def sub live_def u16_max_def)
  moreover have "links_ranked id [?r]" by (auto simp: links_ranked_def u32_max_def)
  ultimately obtain rs' where rs': "refresh_one ?n (di_children demo_aaa_drive) (di_delta demo_aaa_drive)
       \<lparr>pc_idx = 0, pc_subtree = True\<rparr> (di_records demo_aaa_drive) = Some rs'" "strip_pl rs' = strip_pl [?r]" "live rs' 0 \<longrightarrow> consistent ?n rs' 0"
    using rename_refresh_consistent [of demo_aaa_drive id ?n 0] demo_aaa_drive_inv unfolding rs by blast
  have len: "length rs' = 1" using strip_pl_length [OF rs'(2)] by simp
  then obtain q where q: "rs' = [q]" by (auto simp: length_Suc_conv)
  have "live rs' 0" using live_strip [OF rs'(2)] fields by (simp add: live_def)
  moreover have "path_len_from_parent rs' ?n 0 = 6"
    using six [of q] strip_pl_fields [OF rs'(2), of 0] fields by (simp add: q)
  ultimately show ?thesis using rs' by (auto simp: consistent_def)
qed

section \<open>The full computation\<close>

lemma adjacency_spec:
  assumes "n + length rs \<le> u32_max" and "length ch \<le> u32_max" and "adjacency (enumerate n rs) (ch, roots) = (ch', roots')"
  shows "length ch' = length ch
    \<and> (\<forall>p < length ch. ch' ! p = ch ! p @ filter (\<lambda>i. cr_parent_idx (rs ! (i - n)) = p) [n..<n + length rs])
    \<and> roots' = roots @ filter (\<lambda>i. cr_parent_idx (rs ! (i - n)) = u32_max) [n..<n + length rs]"
  using assms
proof (induction rs arbitrary: n ch roots)
  case (Cons r rs)
  let ?p = "cr_parent_idx r"
  let ?ch = "if ?p \<noteq> u32_max \<and> ?p < length ch then ch[?p := ch ! ?p @ [n]] else ch"
  let ?roots = "if ?p = u32_max then roots @ [n] else roots"
  have step: "adjacency (enumerate (Suc n) rs) (?ch, ?roots) = (ch', roots')"
    using Cons.prems by (simp add: Let_def len_to_u32_def split: if_splits)
  have later: "filter (\<lambda>i. cr_parent_idx ((r # rs) ! (i - n)) = q) [Suc n..<Suc n + length rs]
      = filter (\<lambda>i. cr_parent_idx (rs ! (i - Suc n)) = q) [Suc n..<Suc n + length rs]" for q
    by (rule filter_cong) (auto simp: nth_Cons')
  have split: "[n..<n + length (r # rs)] = n # [Suc n..<Suc n + length rs]" by (rule trans [OF upt_conv_Cons]) simp_all
  have ih: "length ch' = length ?ch"
    "\<forall>p < length ?ch. ch' ! p = ?ch ! p @ filter (\<lambda>i. cr_parent_idx (rs ! (i - Suc n)) = p) [Suc n..<Suc n + length rs]"
    "roots' = ?roots @ filter (\<lambda>i. cr_parent_idx (rs ! (i - Suc n)) = u32_max) [Suc n..<Suc n + length rs]"
    using Cons.IH [OF _ _ step] Cons.prems(1,2) by simp_all
  have lists: "filter (\<lambda>i. cr_parent_idx ((r # rs) ! (i - n)) = q) [n..<n + length (r # rs)]
      = (if ?p = q then [n] else []) @ filter (\<lambda>i. cr_parent_idx (rs ! (i - Suc n)) = q) [Suc n..<Suc n + length rs]" for q
    unfolding split filter.simps later by simp
  have heads: "?ch ! q = ch ! q @ (if ?p = q then [n] else [])" if "q < length ch" for q
    using that Cons.prems(2) by (auto simp: nth_list_update)
  have "ch' ! q = ch ! q @ filter (\<lambda>i. cr_parent_idx ((r # rs) ! (i - n)) = q) [n..<n + length (r # rs)]" if "q < length ch" for q
    using ih(2) that heads [OF that] unfolding lists by simp
  moreover have "roots' = roots @ filter (\<lambda>i. cr_parent_idx ((r # rs) ! (i - n)) = u32_max) [n..<n + length (r # rs)]"
    unfolding lists ih(3) by simp
  ultimately show ?case using ih(1) by simp
qed simp

definition roots_of :: "compact_record list \<Rightarrow> nat list" where
  "roots_of rs = filter (\<lambda>i. cr_parent_idx (rs ! i) = u32_max) [0..<length rs]"

lemma adjacency_kids:
  assumes "links_ok rs" and "length rs \<le> u32_max"
  shows "\<exists>ch. adjacency (enumerate 0 rs) (replicate (length rs) [], []) = (ch, roots_of rs)
    \<and> length ch = length rs \<and> (\<forall>p < length rs. ch ! p = kids rs p)"
proof -
  obtain ch roots where run: "adjacency (enumerate 0 rs) (replicate (length rs) [], []) = (ch, roots)" by fastforce
  have "filter (\<lambda>i. cr_parent_idx (rs ! i) = p) [0..<length rs] = kids rs p" if p: "p < length rs" for p
  proof -
    have "live rs i" if "i < length rs" "cr_parent_idx (rs ! i) = p" for i
      using links_okD(2) [OF assms(1) that(1)] that p assms(2) by (auto simp: live_def)
    then show ?thesis unfolding kids_def by (intro filter_cong) auto
  qed
  with adjacency_spec [OF _ _ run] run assms(2) show ?thesis by (simp add: roots_of_def)
qed

text \<open>A settled record has the length its parent and its name give, cut to 16 bits.\<close>

definition settled :: "bytes \<Rightarrow> compact_record list \<Rightarrow> nat \<Rightarrow> bool" where
  "settled names rs i \<longleftrightarrow> cr_path_len (rs ! i) = len_to_u16 (path_len_from_parent rs names i)"

lemma length_set_path_len [simp]: "length (set_path_len i pl rs) = length rs"
  by (simp add: set_path_len_def)

lemma path_len_set: "i < length rs \<Longrightarrow> cr_path_len (set_path_len j pl rs ! i) = (if i = j then len_to_u16 pl else cr_path_len (rs ! i))"
  by (auto simp: set_path_len_def nth_list_update)

lemma name_count_strip:
  assumes "strip_pl rs' = strip_pl rs" and "i < length rs"
  shows "name_char_count (rs' ! i) names = name_char_count (rs ! i) names"
  using name_fields_only strip_pl_fields(2,4) [OF assms] by metis

lemma path_len_fold_child:
  assumes "i < length rs" and "set ks \<subseteq> {..<length rs}"
  shows "cr_path_len (fold (child_path_len names pl) ks rs ! i) =
    (if i \<in> set ks then len_to_u16 (u32_sat_add (u32_sat_add pl 1) (name_char_count (rs ! i) names)) else cr_path_len (rs ! i))"
  using assms
proof (induction ks arbitrary: rs)
  case (Cons k ks)
  let ?rs = "child_path_len names pl k rs"
  have "length ?rs = length rs" by (simp add: child_path_len_def Let_def)
  moreover have "name_char_count (?rs ! i) names = name_char_count (rs ! i) names"
    using name_count_strip [OF strip_child_path_len Cons.prems(1)] .
  moreover have "cr_path_len (?rs ! i) = (if i = k then len_to_u16 (u32_sat_add (u32_sat_add pl 1) (name_char_count (rs ! i) names))
      else cr_path_len (rs ! i))"
    using Cons.prems by (auto simp: child_path_len_def Let_def path_len_set vec_get_def)
  ultimately show ?case using Cons.IH [of ?rs] Cons.prems by auto
qed simp

lemma name_char_count_bound:
  assumes "cr_name_len r \<le> u16_max"
  shows "name_char_count r names \<le> u16_max"
proof -
  have "length cs \<le> cr_name_len r" if "slice_get names (cr_name_offset r) (cr_name_offset r + cr_name_len r) = Some bs" "utf8_chars bs = Some cs" for bs cs
    using utf8_chars_length [OF that(2)] that(1) by (auto simp: slice_get_def split: if_splits)
  with assms show ?thesis by (fastforce simp: name_char_count_def len_to_u32_def split: option.split)
qed

lemma root_from_parent:
  assumes "cr_parent_idx (rs ! i) = u32_max" and "i < length rs" and "cr_name_len (rs ! i) \<le> u16_max"
  shows "path_len_from_parent rs names i = 3 + name_char_count (rs ! i) names"
  using name_char_count_bound [OF assms(3), of names] assms(1,2)
  by (auto simp: path_len_from_parent_def vec_get_def Let_def u32_sat_add_def drive_prefix_chars_def u32_max_def u16_max_def)

text \<open>Setting a length unsettles only the record itself and its children.\<close>

lemma settled_elsewhere:
  assumes "strip_pl rs' = strip_pl rs" and "i < length rs" and "cr_path_len (rs' ! i) = cr_path_len (rs ! i)"
    and "cr_parent_idx (rs ! i) < length rs \<Longrightarrow> cr_path_len (rs' ! cr_parent_idx (rs ! i)) = cr_path_len (rs ! cr_parent_idx (rs ! i))"
    and "settled names rs i"
  shows "settled names rs' i"
  using assms(3,5) from_parent_strip [OF assms(1,2,4), of names] by (simp add: settled_def)

lemma seed_roots_spec:
  assumes "\<forall>r \<in> set roots. r < length rs \<and> cr_parent_idx (rs ! r) = u32_max" and "\<forall>r \<in> set rs. cr_name_len r \<le> u16_max"
    and "length rs \<le> u32_max" and "distinct roots"
  shows "\<exists>rs'. seed_roots names roots rs = Some (roots, rs') \<and> strip_pl rs' = strip_pl rs
    \<and> (\<forall>r \<in> set roots. settled names rs' r)
    \<and> (\<forall>i < length rs. i \<notin> set roots \<longrightarrow> cr_path_len (rs' ! i) = cr_path_len (rs ! i))"
  using assms
proof (induction roots arbitrary: rs)
  case (Cons r roots)
  let ?n = "name_char_count (rs ! r) names" and ?rs = "set_path_len r (3 + name_char_count (rs ! r) names) rs"
  have r: "r < length rs" "cr_parent_idx (rs ! r) = u32_max" "cr_name_len (rs ! r) \<le> u16_max" using Cons.prems by auto
  have add: "(if ?n = 0 then Some (drive_prefix_chars + 1) else u32_add (drive_prefix_chars + 1) ?n) = Some (3 + ?n)"
    using name_char_count_bound [OF r(3), of names] by (simp add: u32_add_def drive_prefix_chars_def u32_max_def u16_max_def)
  have strip: "strip_pl ?rs = strip_pl rs" by simp
  note f = strip_pl_fields [OF strip]
  have "cr_name_len (?rs ! i) \<le> u16_max" if "i < length rs" for i using f(2) [OF that] Cons.prems(2) that by simp
  then have "\<forall>q \<in> set ?rs. cr_name_len q \<le> u16_max" by (auto simp: in_set_conv_nth)
  moreover have "\<forall>q \<in> set roots. q < length ?rs \<and> cr_parent_idx (?rs ! q) = u32_max" using Cons.prems(1) f(1) by auto
  ultimately obtain rs' where rs': "seed_roots names roots ?rs = Some (roots, rs')" "strip_pl rs' = strip_pl ?rs"
    "\<forall>q \<in> set roots. settled names rs' q" "\<forall>i < length ?rs. i \<notin> set roots \<longrightarrow> cr_path_len (rs' ! i) = cr_path_len (?rs ! i)"
    using Cons.IH [of ?rs] Cons.prems(3,4) by auto
  have strip': "strip_pl rs' = strip_pl rs" using rs'(2) by simp
  have "settled names rs' r"
  proof -
    have "cr_path_len (rs' ! r) = len_to_u16 (3 + ?n)" using rs'(4) r(1) Cons.prems(4) by (simp add: path_len_set)
    moreover have "path_len_from_parent rs' names r = 3 + ?n"
      using root_from_parent [of rs' r names] r strip_pl_fields [OF strip' r(1)] strip_pl_length [OF strip'] name_count_strip [OF strip' r(1)] by simp
    ultimately show ?thesis by (simp add: settled_def)
  qed
  then show ?case using rs' r add strip' by (auto simp: vec_get_def path_len_set Let_def)
qed simp

lemma below_kid:
  assumes "links_ranked rank rs" and "p < length rs" and "k \<in> set (kids rs p)"
  shows "p \<notin> subtree rs k" and "k < length rs" and "k \<noteq> p"
  using assms subtree_rank [OF assms(1), of p k] by (auto simp: kids_def live_def links_ranked_def)

lemma subtree_parent:
  "x \<in> subtree rs p \<Longrightarrow> x \<noteq> p \<Longrightarrow> cr_parent_idx (rs ! x) \<in> subtree rs p"
  by (auto simp: subtree_def child_rel_def kids_def elim: rtranclE)

text \<open>
  The queue loop: as long as every record that is not strictly below a queued one is settled, it returns
  with every record settled.
\<close>

lemma bfs_settles:
  assumes ranked: "links_ranked rank rs0" and ch: "length ch = length rs0" "\<forall>p < length rs0. ch ! p = kids rs0 p" and n: "length rs0 \<le> u32_max"
    and links: "links_ok rs0"
  shows "strip_pl rs = strip_pl rs0 \<Longrightarrow> \<forall>q \<in> set queue. q < length rs0 \<Longrightarrow> apart rs0 queue \<Longrightarrow>
    \<forall>i < length rs0. (\<forall>q \<in> set queue. i \<in> subtree rs0 q \<longrightarrow> i = q) \<longrightarrow> settled names rs i \<Longrightarrow>
    \<exists>rs'. bfs ch names queue rs = Some rs' \<and> strip_pl rs' = strip_pl rs0 \<and> (\<forall>i < length rs0. settled names rs' i)"
proof (induction "sum_list (map (weight rank rs0) queue)" arbitrary: queue rs rule: less_induct)
  case less
  show ?case
  proof (cases queue)
    case Nil
    with less.prems show ?thesis by (simp add: bfs.simps)
  next
    case (Cons p rest)
    with less.prems(2) have p: "p < length rs0" by simp
    note strip = less.prems(1)
    have len: "length rs = length rs0" using strip_pl_length [OF strip] .
    let ?k = "kids rs0 p" and ?queue = "rest @ kids rs0 p"
    let ?rs = "fold (child_path_len names (cr_path_len (rs ! p))) ?k rs"
    have run: "bfs ch names queue rs = bfs ch names ?queue ?rs"
      using p ch len by (simp add: Cons bfs.simps [of _ _ "p # rest"] vec_get_def Let_def)
    have k: "k < length rs0" "k \<noteq> p" "p \<notin> subtree rs0 k" "cr_parent_idx (rs0 ! k) = p" if "k \<in> set ?k" for k
      using below_kid [OF ranked p that] that by (auto simp: kids_def)
    have strip': "strip_pl ?rs = strip_pl rs" by simp
    have pl: "cr_path_len (?rs ! i) = (if i \<in> set ?k then len_to_u16 (u32_sat_add (u32_sat_add (cr_path_len (rs ! p)) 1) (name_char_count (rs ! i) names))
        else cr_path_len (rs ! i))" if "i < length rs0" for i
    proof -
      have "set ?k \<subseteq> {..<length rs}" using k(1) len by auto
      with path_len_fold_child [of i rs ?k names "cr_path_len (rs ! p)"] that len show ?thesis by simp
    qed
    have sub: "subtree rs0 c \<subseteq> subtree rs0 p" if "c \<in> set ?k" for c using that subtree_unfold [of rs0 p] by blast
    have ap: "apart rs0 ?queue"
      using less.prems(3) sub apart_distinct_siblings [OF ranked p, of ?k] by (auto simp: Cons apart_append kids_def)
    have lt: "sum_list (map (weight rank rs0) ?queue) < sum_list (map (weight rank rs0) queue)"
      using kids_lighter [OF ranked p] by (simp add: Cons)
    have "settled names ?rs i" if i: "i < length rs0" "\<forall>q \<in> set ?queue. i \<in> subtree rs0 q \<longrightarrow> i = q" for i
    proof (cases "i \<in> set ?k")
      case True
      have par: "cr_parent_idx (?rs ! i) = p"
        using strip_pl_fields(1) [OF strip' , of i] strip_pl_fields(1) [OF strip, of i] k(4) [OF True] i(1) len by simp
      have "path_len_from_parent ?rs names i = u32_sat_add (u32_sat_add (cr_path_len (?rs ! p)) 1) (name_char_count (?rs ! i) names)"
        using from_parent_child [of i ?rs p names] par p i(1) n strip_pl_length [OF strip'] len by simp
      moreover have "cr_path_len (?rs ! p) = cr_path_len (rs ! p)" using pl [OF p] k(2) by auto
      moreover have "name_char_count (?rs ! i) names = name_char_count (rs ! i) names" using name_count_strip [OF strip'] i(1) len by simp
      ultimately show ?thesis using pl [OF i(1)] True by (simp add: settled_def)
    next
      case False
      have old: "settled names rs i"
      proof -
        have "i = q" if "q \<in> set queue" "i \<in> subtree rs0 q" for q
          using that i(2) False subtree_unfold [of rs0 p] by (auto simp: Cons)
        with less.prems(4) i(1) show ?thesis by blast
      qed
      have par: "cr_parent_idx (rs ! i) = cr_parent_idx (rs0 ! i)" using strip_pl_fields(1) [OF strip i(1)] .
      have "cr_parent_idx (rs ! i) \<notin> set ?k" if par_lt: "cr_parent_idx (rs ! i) < length rs0"
      proof
        assume a: "cr_parent_idx (rs ! i) \<in> set ?k"
        have "live rs0 i" using links_okD(2) [OF links i(1)] par_lt par n i(1) by (auto simp: live_def)
        then have "(cr_parent_idx (rs ! i), i) \<in> child_rel rs0" using i(1) par by (auto simp: child_rel_def kids_def)
        then have "i \<in> subtree rs0 (cr_parent_idx (rs ! i))" by (auto simp: subtree_def)
        with a i(2) have "i = cr_parent_idx (rs ! i)" by auto
        with a False show False by simp
      qed
      then show ?thesis using pl i(1) False len old by (intro settled_elsewhere [OF strip']) auto
    qed
    then show ?thesis using less.hyps [OF lt, of ?rs] run strip' strip less.prems(2) ap k(1) by (auto simp: Cons)
  qed
qed

lemma root_above:
  assumes "links_ranked rank rs" and "links_ok rs" and "length rs \<le> u32_max"
  shows "i < length rs \<Longrightarrow> \<exists>r \<in> set (roots_of rs). i \<in> subtree rs r"
proof (induction "rank i" arbitrary: i rule: less_induct)
  case less
  let ?p = "cr_parent_idx (rs ! i)"
  show ?case
  proof (cases "?p = u32_max")
    case True
    with less.prems show ?thesis by (intro bexI [of _ i]) (auto simp: roots_of_def)
  next
    case False
    then have p: "?p < length rs" "live rs i" using links_okD [OF assms(2) less.prems] less.prems by (auto simp: live_def)
    moreover have "rank ?p < rank i" using assms(1) p(1) less.prems by (simp add: links_ranked_def)
    ultimately obtain r where "r \<in> set (roots_of rs)" "?p \<in> subtree rs r" using less.hyps by blast
    moreover have "(?p, i) \<in> child_rel rs" using p less.prems by (auto simp: child_rel_def kids_def)
    ultimately show ?thesis by (intro bexI [of _ r]) (auto simp: subtree_def intro: rtrancl_into_rtrancl)
  qed
qed

lemma roots_apart:
  assumes "length rs \<le> u32_max"
  shows "distinct xs \<Longrightarrow> set xs \<subseteq> set (roots_of rs) \<Longrightarrow> apart rs xs"
proof (induction xs)
  case (Cons x xs)
  have top: "a = b" if a: "a \<in> set (roots_of rs)" and b: "b \<in> set (roots_of rs)" and "a \<in> subtree rs b" for a b
  proof (rule ccontr)
    assume "a \<noteq> b"
    with \<open>a \<in> subtree rs b\<close> obtain w where "(b, w) \<in> (child_rel rs)\<^sup>*" "(w, a) \<in> child_rel rs"
      by (auto simp: subtree_def elim: rtranclE)
    then have "w = u32_max" using a by (auto simp: child_rel_def kids_def roots_of_def)
    then have "u32_max \<in> subtree rs b" using \<open>(b, w) \<in> _\<close> by (simp add: subtree_def)
    moreover have "u32_max \<noteq> b" using b assms by (auto simp: roots_of_def)
    ultimately have "u32_max < length rs" by (auto simp: subtree_def child_rel_def kids_def elim: rtranclE)
    with assms show False by simp
  qed
  have "subtree rs x \<inter> subtree rs t = {}" if "t \<in> set xs" for t
    using subtree_nested [of _ rs x t] top [of x t] top [of t x] Cons.prems that by fastforce
  with Cons show ?case by simp
qed simp

lemma compute_settles:
  assumes "links_ok rs" and "links_ranked rank rs" and "length rs \<le> u32_max" and "\<forall>r \<in> set rs. cr_name_len r \<le> u16_max"
  shows "\<exists>rs'. compute_path_lengths rs names = Some rs' \<and> strip_pl rs' = strip_pl rs \<and> (\<forall>i < length rs. settled names rs' i)"
proof -
  obtain ch where ch: "adjacency (enumerate 0 rs) (replicate (length rs) [], []) = (ch, roots_of rs)"
    "length ch = length rs" "\<forall>p < length rs. ch ! p = kids rs p"
    using adjacency_kids [OF assms(1,3)] by blast
  have roots: "\<forall>r \<in> set (roots_of rs). r < length rs \<and> cr_parent_idx (rs ! r) = u32_max" "distinct (roots_of rs)"
    by (auto simp: roots_of_def)
  from seed_roots_spec [OF roots(1) assms(4,3) roots(2), of names] obtain rs1 where
    rs1: "seed_roots names (roots_of rs) rs = Some (roots_of rs, rs1)" "strip_pl rs1 = strip_pl rs" "\<forall>r \<in> set (roots_of rs). settled names rs1 r"
    by blast
  have "settled names rs1 i" if "i < length rs" "\<forall>q \<in> set (roots_of rs). i \<in> subtree rs q \<longrightarrow> i = q" for i
    using root_above [OF assms(2,1,3) that(1)] that(2) rs1(3) by blast
  then obtain rs' where "bfs ch names (roots_of rs) rs1 = Some rs'" "strip_pl rs' = strip_pl rs" "\<forall>i < length rs. settled names rs' i"
    using bfs_settles [OF assms(2) ch(2,3) assms(3,1) rs1(2), of "roots_of rs" names] roots(1) roots_apart [OF assms(3) roots(2)] by auto
  then show ?thesis by (auto simp: compute_path_lengths_def ch(1) rs1(1))
qed

text \<open>
  C7. The full computation returns on every drive whose parent links lead to a root, changes nothing but
  path lengths, and leaves each record with the length of its parent's path, a separator and its own
  name, a root with the drive prefix and its name, cut to 16 bits.
\<close>

theorem compute_path_lengths_settles:
  assumes "links_ok rs" and "links_ranked rank rs" and "length rs \<le> u32_max" and "\<forall>r \<in> set rs. cr_name_len r \<le> u16_max"
  shows "\<exists>rs'. compute_path_lengths rs names = Some rs' \<and> strip_pl rs' = strip_pl rs \<and> (\<forall>i < length rs. settled names rs' i)"
  using compute_settles [OF assms] .

text \<open>A directory \<open>b\<close> that was 10 characters longer, a directory \<open>q\<close> just moved into it, and a file \<open>f\<close> in \<open>q\<close>.\<close>

definition demo_dir :: "nat \<Rightarrow> nat \<Rightarrow> nat \<Rightarrow> nat \<Rightarrow> compact_record" where
  "demo_dir off len par pl = compact_record_default\<lparr>cr_name_offset := off, cr_name_len := len, cr_parent_idx := par,
     cr_path_len := pl, cr_flags := DIRECTORY_BIT\<rparr>"

definition demo_moved :: "compact_record list" where
  "demo_moved = [demo_dir 0 1 u32_max 13, demo_dir 1 1 0 4, demo_dir 2 1 1 6]"

definition demo_moved_names :: bytes where "demo_moved_names = [0x62, 0x71, 0x66]"

definition demo_moved_children :: csr where "demo_moved_children = ([0, 1, 2, 2], [1, 2])"


lemma u32_max_numeral: "u32_max = 4294967295"
  by (simp add: u32_max_def)

lemma bfs_unfold:
  "bfs children names [] records = Some records"
  "bfs children names (idx # rest) records =
     (let parent_pl = (case vec_get records idx of None \<Rightarrow> 0 | Some r \<Rightarrow> cr_path_len r);
          ks = (case vec_get children idx of None \<Rightarrow> [] | Some cs \<Rightarrow> cs)
      in bfs children names (rest @ ks) (fold (child_path_len names parent_pl) ks records))"
  by (simp_all add: bfs.simps [of _ _ "[]"] bfs.simps [of _ _ "idx # rest"])

lemma collect_unfold:
  "collect_descendants records children delta [] acc = Some acc"
  "collect_descendants records children delta (idx # rest) acc =
     collect_descendants records children delta (rev (push_children records children delta idx) @ rest) (acc @ [idx])"
  by (simp_all add: collect_descendants.simps [of _ _ _ "[]"] collect_descendants.simps [of _ _ _ "idx # rest"])

lemma demo_dir_fields [simp]:
  "cr_name_len (demo_dir off len par pl) = len" "cr_parent_idx (demo_dir off len par pl) = par"
  "cr_path_len (demo_dir off len par pl) = pl" "cr_name_offset (demo_dir off len par pl) = off"
  "(demo_dir off len par pl)\<lparr>cr_path_len := q\<rparr> = demo_dir off len par q"
  by (simp_all add: demo_dir_def)

lemma demo_dir_chars:
  "name_char_count (demo_dir 0 (Suc 0) par pl) demo_moved_names = Suc 0"
  "name_char_count (demo_dir (Suc 0) (Suc 0) par pl) demo_moved_names = Suc 0"
  "name_char_count (demo_dir (Suc (Suc 0)) (Suc 0) par pl) demo_moved_names = Suc 0"
  by (simp_all add: name_char_count_def demo_moved_names_def slice_get_def utf8_ascii_chars len_to_u32_def u32_max_numeral)

lemma demo_children:
  "push_children records demo_moved_children None 0 = [Suc 0]"
  "push_children records demo_moved_children None (Suc 0) = [Suc (Suc 0)]"
  "push_children records demo_moved_children None (Suc (Suc 0)) = []"
  by (simp_all add: push_children_def demo_moved_children_def children_get_def csr_get_def slice_get_def vec_get_def)

definition demo_with :: "nat \<Rightarrow> nat \<Rightarrow> nat \<Rightarrow> compact_record list" where
  "demo_with a b c = [demo_dir 0 (Suc 0) u32_max a, demo_dir (Suc 0) (Suc 0) 0 b, demo_dir (Suc (Suc 0)) (Suc 0) (Suc 0) c]"

lemma demo_shift:
  "shift_one s (Suc 0) (demo_with a b c) = demo_with a (nat (max 0 (min (int u16_max) (i64_sat_add (int b) s)))) c"
  "shift_one s (Suc (Suc 0)) (demo_with a b c) = demo_with a b (nat (max 0 (min (int u16_max) (i64_sat_add (int c) s))))"
  by (simp_all add: shift_one_def vec_get_def demo_with_def)

lemma demo_set:
  "set_path_len 0 pl (demo_with a b c) = demo_with (len_to_u16 pl) b c"
  "set_path_len (Suc 0) pl (demo_with a b c) = demo_with a (len_to_u16 pl) c"
  by (simp_all add: set_path_len_def demo_with_def)

lemma demo_from_parent:
  "path_len_from_parent (demo_with a b c) demo_moved_names 0 = 4"
  "b' = a + 2 \<Longrightarrow> b' < 100 \<Longrightarrow> path_len_from_parent (demo_with a b c) demo_moved_names (Suc 0) = b'"
  by (simp_all add: path_len_from_parent_def vec_get_def demo_with_def demo_dir_chars drive_prefix_chars_def u32_sat_add_def u32_max_numeral)

lemma demo_shift_subtree:
  "shift_subtree_path_len demo_moved_children None 0 s (demo_with a b c) =
     Some (shift_one s (Suc (Suc 0)) (shift_one s (Suc 0) (demo_with a b c)))"
  "shift_subtree_path_len demo_moved_children None (Suc 0) s (demo_with a b c) = Some (shift_one s (Suc (Suc 0)) (demo_with a b c))"
  by (simp_all add: shift_subtree_path_len_def demo_children collect_unfold)

lemma demo_refresh:
  "refresh_one demo_moved_names demo_moved_children None \<lparr>pc_idx = 0, pc_subtree = True\<rparr> (demo_with 13 b c) =
     Some (shift_one (- 9) (Suc (Suc 0)) (shift_one (- 9) (Suc 0) (demo_with 4 b c)))"
  "b' = a + 2 \<Longrightarrow> b' < 100 \<Longrightarrow> b \<noteq> b' \<Longrightarrow>
   refresh_one demo_moved_names demo_moved_children None \<lparr>pc_idx = 1, pc_subtree = True\<rparr> (demo_with a b c) =
     Some (shift_one (int b' - int b) (Suc (Suc 0)) (demo_with a b' c))"
proof -
  have get: "vec_get (demo_with a b c) 0 = Some (demo_dir 0 (Suc 0) u32_max a)"
    "vec_get (demo_with a b c) (Suc 0) = Some (demo_dir (Suc 0) (Suc 0) 0 b)" for a b c
    by (simp_all add: vec_get_def demo_with_def)
  show "refresh_one demo_moved_names demo_moved_children None \<lparr>pc_idx = 0, pc_subtree = True\<rparr> (demo_with 13 b c) =
     Some (shift_one (- 9) (Suc (Suc 0)) (shift_one (- 9) (Suc 0) (demo_with 4 b c)))"
    by (simp add: refresh_one_def get Let_def demo_from_parent demo_set demo_shift_subtree len_to_u16_def u16_max_def)
  show "b' = a + 2 \<Longrightarrow> b' < 100 \<Longrightarrow> b \<noteq> b' \<Longrightarrow>
   refresh_one demo_moved_names demo_moved_children None \<lparr>pc_idx = 1, pc_subtree = True\<rparr> (demo_with a b c) =
     Some (shift_one (int b' - int b) (Suc (Suc 0)) (demo_with a b' c))"
    using demo_from_parent(2) [of b' a b c]
    by (simp add: refresh_one_def get Let_def demo_set demo_shift_subtree len_to_u16_def u16_max_def)
qed

lemma demo_moved_with: "demo_moved = demo_with 13 4 6"
  by (simp add: demo_moved_def demo_with_def numeral_2_eq_2)

lemma demo_lengths: "map cr_path_len (demo_with a b c) = [a, b, c]"
  by (simp add: demo_with_def)

lemmas demo_limits = u16_max_def i64_sat_add_def i64_max_def i64_min_def

lemma demo_parent_then_child:
  "map_option (map cr_path_len) (update_path_lengths_incremental demo_moved_names demo_moved_children None
      [\<lparr>pc_idx = 0, pc_subtree = True\<rparr>, \<lparr>pc_idx = 1, pc_subtree = True\<rparr>] demo_moved) = Some [4, 6, 6]"
proof -
  have "refresh_one demo_moved_names demo_moved_children None \<lparr>pc_idx = 0, pc_subtree = True\<rparr> demo_moved = Some (demo_with 4 0 0)"
    unfolding demo_moved_with demo_refresh(1) demo_shift by (simp add: demo_limits)
  moreover have "refresh_one demo_moved_names demo_moved_children None \<lparr>pc_idx = 1, pc_subtree = True\<rparr> (demo_with 4 0 0) = Some (demo_with 4 6 6)"
    using demo_refresh(2) [of 6 4 0 0] by (simp add: demo_shift demo_limits)
  ultimately show ?thesis by (simp add: demo_lengths)
qed

lemma demo_child_then_parent:
  "map_option (map cr_path_len) (update_path_lengths_incremental demo_moved_names demo_moved_children None
      [\<lparr>pc_idx = 1, pc_subtree = True\<rparr>, \<lparr>pc_idx = 0, pc_subtree = True\<rparr>] demo_moved) = Some [4, 6, 8]"
proof -
  have "refresh_one demo_moved_names demo_moved_children None \<lparr>pc_idx = 1, pc_subtree = True\<rparr> demo_moved = Some (demo_with 13 15 17)"
    using demo_refresh(2) [of 15 13 4 6] by (simp add: demo_moved_with demo_shift demo_limits)
  moreover have "refresh_one demo_moved_names demo_moved_children None \<lparr>pc_idx = 0, pc_subtree = True\<rparr> (demo_with 13 15 17) = Some (demo_with 4 6 8)"
    unfolding demo_refresh(1) demo_shift by (simp add: demo_limits)
  ultimately show ?thesis by (simp add: demo_lengths)
qed

lemma demo_moved_csr: "children_build demo_moved = Some demo_moved_children"
  by (simp add: demo_moved_with demo_with_def demo_moved_children_def children_build_def csr_build_def child_key_def u32_inc_def
      u32_sat_add_def u32_max_numeral numeral_2_eq_2 numeral_3_eq_3 len_to_u32_def)

lemma demo_child_len:
  "child_path_len demo_moved_names pl (Suc 0) (demo_with a b c) = demo_with a (len_to_u16 (u32_sat_add (u32_sat_add pl 1) 1)) c"
  "child_path_len demo_moved_names pl (Suc (Suc 0)) (demo_with a b c) = demo_with a b (len_to_u16 (u32_sat_add (u32_sat_add pl 1) 1))"
  by (simp_all add: child_path_len_def demo_with_def Let_def vec_get_def demo_dir_chars set_path_len_def)

lemma demo_full: "map_option (map cr_path_len) (compute_path_lengths demo_moved demo_moved_names) = Some [4, 6, 8]"
proof -
  let ?children = "[[Suc 0], [Suc (Suc 0)], []]"
  have adj: "adjacency (enumerate 0 demo_moved) (replicate (length demo_moved) [], []) = (?children, [0])"
    by (simp add: demo_moved_with demo_with_def u32_max_numeral len_to_u32_def)
  have seed: "seed_roots demo_moved_names [0] demo_moved = Some ([0], demo_with 4 4 6)"
    by (simp add: demo_moved_with demo_set)
      (simp add: demo_with_def vec_get_def demo_dir_chars drive_prefix_chars_def u32_add_def u32_max_numeral set_path_len_def len_to_u16_def u16_max_def)
  have get: "vec_get (demo_with a b c) 0 = Some (demo_dir 0 (Suc 0) u32_max a)"
    "vec_get (demo_with a b c) (Suc 0) = Some (demo_dir (Suc 0) (Suc 0) 0 b)"
    "vec_get (demo_with a b c) (Suc (Suc 0)) = Some (demo_dir (Suc (Suc 0)) (Suc 0) (Suc 0) c)"
    "vec_get ?children 0 = Some [Suc 0]" "vec_get ?children (Suc 0) = Some [Suc (Suc 0)]" "vec_get ?children (Suc (Suc 0)) = Some []" for a b c
    by (simp_all add: vec_get_def demo_with_def)
  have "bfs ?children demo_moved_names [0] (demo_with 4 4 6) = Some (demo_with 4 6 8)"
    by (simp add: bfs_unfold Let_def get demo_child_len u32_sat_add_def u32_max_numeral len_to_u16_def u16_max_def)
  then show ?thesis by (simp add: compute_path_lengths_def adj seed demo_lengths del: seed_roots.simps)
qed

theorem compute_path_lengths_settles_witness:
  "\<exists>rs'. compute_path_lengths demo_moved demo_moved_names = Some rs' \<and> (\<forall>i < 3. settled demo_moved_names rs' i)"
proof -
  have "links_ok demo_moved" "links_ranked id demo_moved" "length demo_moved = 3" "\<forall>r \<in> set demo_moved. cr_name_len r \<le> u16_max"
    by (simp_all add: demo_moved_with demo_with_def links_ok_def links_ranked_def u32_max_numeral u16_max_def less_Suc_eq_0_disj)
      (auto simp: less_Suc_eq u32_max_numeral)
  with compute_path_lengths_settles [of demo_moved id demo_moved_names] show ?thesis by (simp add: u32_max_numeral) blast
qed

text \<open>
  The refresh of two renamed directories depends on their order. A directory is renamed to a shorter
  name and, in the same batch, another directory is moved into it: refreshed in the one order the file
  below the moved directory gets the length 6, in the other order 8, which is the true length of its
  path and what the full computation gives. The subtraction is clamped at zero and the lost amount is
  never recovered.
\<close>

theorem rename_refresh_order_matters:
  "children_build demo_moved = Some demo_moved_children
   \<and> map_option (map cr_path_len) (update_path_lengths_incremental demo_moved_names demo_moved_children None
      [\<lparr>pc_idx = 0, pc_subtree = True\<rparr>, \<lparr>pc_idx = 1, pc_subtree = True\<rparr>] demo_moved) = Some [4, 6, 6]
   \<and> map_option (map cr_path_len) (update_path_lengths_incremental demo_moved_names demo_moved_children None
      [\<lparr>pc_idx = 1, pc_subtree = True\<rparr>, \<lparr>pc_idx = 0, pc_subtree = True\<rparr>] demo_moved) = Some [4, 6, 8]
   \<and> map_option (map cr_path_len) (compute_path_lengths demo_moved demo_moved_names) = Some [4, 6, 8]"
  using demo_moved_csr demo_parent_then_child demo_child_then_parent demo_full by blast

end
