(* ===== verification/Usn_Changes.thy ===== *)
theory Usn_Changes
  imports Rust_Prelude "HOL-Library.Multiset"
begin

text \<open>
  Change-journal events: their classification and aggregation into one net change per file record
  (\<open>crates/uffs-mft/src/usn/mod.rs\<close>), and the ordering of a batch so that a directory is created before
  what lies in it (\<open>order_parent_first\<close> of \<open>crates/uffs-core/src/compact_loader.rs\<close>). File record numbers
  are 64-bit numbers; the journal read itself is a Windows call and not modelled.
\<close>

section \<open>Events\<close>

record usn_record =
  ur_frs :: nat
  ur_parent_frs :: nat
  ur_usn :: int
  ur_reason :: u32
  ur_file_attributes :: u32
  ur_filename :: bytes

definition DATA_EXTEND :: u32 where "DATA_EXTEND = 0x00000002"
definition DATA_TRUNCATION :: u32 where "DATA_TRUNCATION = 0x00000004"
definition FILE_CREATE :: u32 where "FILE_CREATE = 0x00000100"
definition FILE_DELETE :: u32 where "FILE_DELETE = 0x00000200"
definition RENAME_NEW_NAME :: u32 where "RENAME_NEW_NAME = 0x00002000"
definition BASIC_INFO_CHANGE :: u32 where "BASIC_INFO_CHANGE = 0x00008000"
definition CLOSE :: u32 where "CLOSE = 0x80000000"

datatype change_type = Created | Deleted | Renamed | SizeChanged | MetadataChanged | Other

definition change_type_of :: "usn_record \<Rightarrow> change_type" where
  "change_type_of r =
     (if ur_reason r AND FILE_DELETE \<noteq> 0 then Deleted
      else if ur_reason r AND FILE_CREATE \<noteq> 0 then Created
      else if ur_reason r AND RENAME_NEW_NAME \<noteq> 0 then Renamed
      else if ur_reason r AND (DATA_EXTEND OR DATA_TRUNCATION) \<noteq> 0 then SizeChanged
      else if ur_reason r AND BASIC_INFO_CHANGE \<noteq> 0 then MetadataChanged
      else Other)"

definition is_close :: "usn_record \<Rightarrow> bool" where "is_close r \<longleftrightarrow> ur_reason r AND CLOSE \<noteq> 0"

section \<open>Net changes\<close>

record record_meta =
  rm_size :: nat
  rm_allocated :: nat
  rm_created :: int
  rm_modified :: int
  rm_accessed :: int
  rm_flags :: u32

definition record_meta_default :: record_meta where
  "record_meta_default = \<lparr>rm_size = 0, rm_allocated = 0, rm_created = 0, rm_modified = 0, rm_accessed = 0, rm_flags = 0\<rparr>"

record file_change =
  fc_frs :: nat
  fc_parent_frs :: nat
  fc_filename :: bytes
  fc_created :: bool
  fc_deleted :: bool
  fc_renamed :: bool
  fc_size_changed :: bool
  fc_metadata_changed :: bool
  fc_meta :: "record_meta option"

definition file_change_new :: "nat \<Rightarrow> file_change" where
  "file_change_new frs = \<lparr>fc_frs = frs, fc_parent_frs = 0, fc_filename = [], fc_created = False, fc_deleted = False,
     fc_renamed = False, fc_size_changed = False, fc_metadata_changed = False, fc_meta = None\<rparr>"

fun apply_event :: "change_type \<Rightarrow> file_change \<Rightarrow> file_change" where
  "apply_event Created c = c\<lparr>fc_created := True, fc_deleted := False, fc_renamed := False\<rparr>"
| "apply_event Deleted c = c\<lparr>fc_deleted := True, fc_created := False, fc_renamed := False\<rparr>"
| "apply_event Renamed c = c\<lparr>fc_renamed := True, fc_deleted := False\<rparr>"
| "apply_event SizeChanged c = c\<lparr>fc_size_changed := True\<rparr>"
| "apply_event MetadataChanged c = c\<lparr>fc_metadata_changed := True\<rparr>"
| "apply_event Other c = c"

definition aggregate_one :: "usn_record \<Rightarrow> file_change \<Rightarrow> file_change" where
  "aggregate_one r c =
     apply_event (change_type_of r)
       (c\<lparr>fc_parent_frs := ur_parent_frs r, fc_filename := (if ur_filename r \<noteq> [] then ur_filename r else fc_filename c)\<rparr>)"

definition aggregate_changes :: "usn_record list \<Rightarrow> (nat \<rightharpoonup> file_change)" where
  "aggregate_changes records =
     fold (\<lambda>r m. m(ur_frs r \<mapsto> aggregate_one r (case m (ur_frs r) of None \<Rightarrow> file_change_new (ur_frs r) | Some c \<Rightarrow> c)))
       records Map.empty"

section \<open>Parents first\<close>

definition waits_for :: "nat set \<Rightarrow> nat set \<Rightarrow> file_change \<Rightarrow> bool" where
  "waits_for batch_creates applied_creates c \<longleftrightarrow>
     (fc_created c \<or> fc_renamed c) \<and> fc_parent_frs c \<noteq> fc_frs c
     \<and> fc_parent_frs c \<in> batch_creates \<and> fc_parent_frs c \<notin> applied_creates"

definition note_create :: "file_change \<Rightarrow> nat set \<Rightarrow> nat set" where
  "note_create c applied = (if fc_created c then insert (fc_frs c) applied else applied)"

text \<open>The first loop: the creates applied so far, what is emitted, what is deferred.\<close>

fun split_batch :: "nat set \<Rightarrow> file_change list \<Rightarrow> nat set \<Rightarrow> nat set \<times> file_change list \<times> file_change list" where
  "split_batch B [] applied = (applied, [], [])"
| "split_batch B (c # cs) applied =
     (if waits_for B applied c
      then (case split_batch B cs applied of (a, emitted, deferred) \<Rightarrow> (a, emitted, c # deferred))
      else (case split_batch B cs (note_create c applied) of (a, emitted, deferred) \<Rightarrow> (a, c # emitted, deferred)))"

text \<open>One \<open>retain\<close> pass: a deferred change whose parent has been emitted is emitted.\<close>

fun retain_pass :: "file_change list \<Rightarrow> nat set \<Rightarrow> nat set \<times> file_change list \<times> file_change list" where
  "retain_pass [] applied = (applied, [], [])"
| "retain_pass (c # cs) applied =
     (if fc_parent_frs c \<in> applied
      then (case retain_pass cs (note_create c applied) of (a, emitted, kept) \<Rightarrow> (a, c # emitted, kept))
      else (case retain_pass cs applied of (a, emitted, kept) \<Rightarrow> (a, emitted, c # kept)))"

lemma retain_pass_kept: "retain_pass cs applied = (a, emitted, kept) \<Longrightarrow> length kept \<le> length cs"
  by (induction cs arbitrary: applied a emitted kept) (fastforce split: if_splits prod.splits)+

function release :: "file_change list \<Rightarrow> nat set \<Rightarrow> file_change list" where
  "release deferred applied =
     (if deferred = [] then []
      else case retain_pass deferred applied of
             (a, emitted, kept) \<Rightarrow>
               if length kept = length deferred then emitted @ kept else emitted @ release kept a)"
  by pat_completeness auto
termination
  by (relation "measure (\<lambda>(deferred, applied). length deferred)") (auto dest: retain_pass_kept [OF sym] simp: le_neq_implies_less)

declare release.simps [simp del]

definition order_parent_first :: "file_change list \<Rightarrow> file_change list" where
  "order_parent_first changes =
     (let batch_creates = fc_frs ` set (filter fc_created changes) in
      case split_batch batch_creates changes {} of
        (applied, out, deferred) \<Rightarrow> out @ release deferred applied)"

section \<open>The net state of a record\<close>

lemma aggregate_changes_at:
  "aggregate_changes records frs =
     (let evs = filter (\<lambda>r. ur_frs r = frs) records in
      if evs = [] then None else Some (fold aggregate_one evs (file_change_new frs)))"
proof (induction records rule: rev_induct)
  case (snoc r records)
  have "aggregate_changes (records @ [r]) = (aggregate_changes records)(ur_frs r \<mapsto> aggregate_one r
      (case aggregate_changes records (ur_frs r) of None \<Rightarrow> file_change_new (ur_frs r) | Some c \<Rightarrow> c))"
    by (simp add: aggregate_changes_def)
  with snoc show ?case by (auto simp: Let_def split: if_splits)
qed (simp add: aggregate_changes_def)

definition structural :: "change_type list \<Rightarrow> change_type list" where
  "structural es = filter (\<lambda>e. e = Created \<or> e = Deleted \<or> e = Renamed) es"

lemma aggregate_fold_flags:
  defines "es evs \<equiv> structural (map change_type_of evs)"
  shows "fc_deleted (fold aggregate_one evs (file_change_new frs)) \<longleftrightarrow> es evs \<noteq> [] \<and> last (es evs) = Deleted"
    and "fc_renamed (fold aggregate_one evs (file_change_new frs)) \<longleftrightarrow> es evs \<noteq> [] \<and> last (es evs) = Renamed"
    and "fc_created (fold aggregate_one evs (file_change_new frs)) \<longleftrightarrow> Created \<in> set (takeWhile (\<lambda>e. e \<noteq> Deleted) (rev (es evs)))"
proof -
  have "(fc_deleted (fold aggregate_one evs (file_change_new frs)) \<longleftrightarrow> es evs \<noteq> [] \<and> last (es evs) = Deleted)
    \<and> (fc_renamed (fold aggregate_one evs (file_change_new frs)) \<longleftrightarrow> es evs \<noteq> [] \<and> last (es evs) = Renamed)
    \<and> (fc_created (fold aggregate_one evs (file_change_new frs)) \<longleftrightarrow> Created \<in> set (takeWhile (\<lambda>e. e \<noteq> Deleted) (rev (es evs))))"
  proof (induction evs rule: rev_induct)
    case (snoc r evs)
    then show ?case
      by (cases "change_type_of r") (simp_all add: aggregate_one_def es_def structural_def)
  qed (simp add: file_change_new_def es_def structural_def)
  then show "fc_deleted (fold aggregate_one evs (file_change_new frs)) \<longleftrightarrow> es evs \<noteq> [] \<and> last (es evs) = Deleted"
    "fc_renamed (fold aggregate_one evs (file_change_new frs)) \<longleftrightarrow> es evs \<noteq> [] \<and> last (es evs) = Renamed"
    "fc_created (fold aggregate_one evs (file_change_new frs)) \<longleftrightarrow> Created \<in> set (takeWhile (\<lambda>e. e \<noteq> Deleted) (rev (es evs)))"
    by blast+
qed

lemma apply_event_frame [simp]:
  "fc_frs (apply_event e c) = fc_frs c" "fc_parent_frs (apply_event e c) = fc_parent_frs c"
  "fc_filename (apply_event e c) = fc_filename c" "fc_meta (apply_event e c) = fc_meta c"
  by (cases e; simp)+

lemma aggregate_fold_frame:
  "fc_frs (fold aggregate_one evs (file_change_new frs)) = frs \<and> fc_meta (fold aggregate_one evs (file_change_new frs)) = None
   \<and> (evs \<noteq> [] \<longrightarrow> fc_parent_frs (fold aggregate_one evs (file_change_new frs)) = ur_parent_frs (last evs))"
  by (induction evs rule: rev_induct) (simp_all add: aggregate_one_def file_change_new_def)

text \<open>
  One journal batch nets to one change per record number. A record is reported deleted exactly when
  the last create, delete or rename of its number is a delete, renamed exactly when it is a rename, and
  created exactly when a create follows the last delete; deleted excludes the other two, and the parent
  is that of the last event.
\<close>

theorem aggregate_net_state:
  fixes records frs
  defines "evs \<equiv> filter (\<lambda>r. ur_frs r = frs) records"
  defines "es \<equiv> structural (map change_type_of evs)"
  shows "case aggregate_changes records frs of
      None \<Rightarrow> evs = []
    | Some c \<Rightarrow> evs \<noteq> [] \<and> fc_frs c = frs \<and> fc_parent_frs c = ur_parent_frs (last evs)
        \<and> fc_deleted c = (es \<noteq> [] \<and> last es = Deleted) \<and> fc_renamed c = (es \<noteq> [] \<and> last es = Renamed)
        \<and> fc_created c = (Created \<in> set (takeWhile (\<lambda>e. e \<noteq> Deleted) (rev es)))
        \<and> \<not> (fc_deleted c \<and> (fc_created c \<or> fc_renamed c))"
proof (cases "evs = []")
  case True
  then show ?thesis by (simp add: aggregate_changes_at evs_def)
next
  case False
  let ?c = "fold aggregate_one evs (file_change_new frs)"
  have "aggregate_changes records frs = Some ?c" using False by (simp add: aggregate_changes_at evs_def)
  moreover have "\<not> (fc_deleted ?c \<and> (fc_created ?c \<or> fc_renamed ?c))"
    unfolding aggregate_fold_flags by (cases "structural (map change_type_of evs)" rule: rev_cases) auto
  ultimately show ?thesis using False aggregate_fold_frame [of evs frs] aggregate_fold_flags [of evs frs] by (simp add: es_def)
qed

section \<open>The order of a batch\<close>

lemma split_batch_mset:
  "split_batch B cs applied = (a, emitted, deferred) \<Longrightarrow> mset emitted + mset deferred = mset cs"
  by (induction cs arbitrary: applied a emitted deferred) (fastforce split: if_splits prod.splits)+

lemma retain_pass_mset:
  "retain_pass cs applied = (a, emitted, kept) \<Longrightarrow> mset emitted + mset kept = mset cs"
  by (induction cs arbitrary: applied a emitted kept) (fastforce split: if_splits prod.splits)+

lemma release_mset: "mset (release deferred applied) = mset deferred"
proof (induction deferred applied rule: release.induct)
  case (1 deferred applied)
  obtain a emitted kept where p: "retain_pass deferred applied = (a, emitted, kept)" by (cases "retain_pass deferred applied") auto
  show ?case
  proof (cases "deferred = [] \<or> length kept = length deferred")
    case True
    then show ?thesis using retain_pass_mset [OF p] p by (auto simp: release.simps [of deferred applied])
  next
    case False
    then have "release deferred applied = emitted @ release kept a" using p by (simp add: release.simps [of deferred applied])
    with 1 [OF _ p [symmetric]] False retain_pass_mset [OF p] show ?thesis by simp
  qed
qed

text \<open>A list emits parents first when every change that waits on the batch comes after its parent's create.\<close>

fun parents_first :: "nat set \<Rightarrow> nat set \<Rightarrow> file_change list \<Rightarrow> bool" where
  "parents_first B applied [] \<longleftrightarrow> True"
| "parents_first B applied (c # cs) \<longleftrightarrow> \<not> waits_for B applied c \<and> parents_first B (note_create c applied) cs"

definition creates_of :: "file_change list \<Rightarrow> nat set" where
  "creates_of cs = fc_frs ` set (filter fc_created cs)"

lemma creates_of_simps [simp]:
  "creates_of [] = {}" "creates_of (c # cs) = (if fc_created c then {fc_frs c} else {}) \<union> creates_of cs"
  "creates_of (xs @ ys) = creates_of xs \<union> creates_of ys"
  by (auto simp: creates_of_def)

lemma parents_first_append:
  "parents_first B applied (xs @ ys) \<longleftrightarrow> parents_first B applied xs \<and> parents_first B (applied \<union> creates_of xs) ys"
  by (induction xs arbitrary: applied) (auto simp: note_create_def Un_assoc [symmetric] insert_commute)

lemma waits_for_mono: "waits_for B A c \<Longrightarrow> A' \<subseteq> A \<Longrightarrow> waits_for B A' c"
  by (auto simp: waits_for_def)

lemma split_batch_spec:
  "split_batch B cs applied = (a, emitted, deferred) \<Longrightarrow>
   parents_first B applied emitted \<and> a = applied \<union> creates_of emitted \<and> (\<forall>c \<in> set deferred. waits_for B applied c)"
proof (induction cs arbitrary: applied a emitted deferred)
  case (Cons c cs)
  show ?case
  proof (cases "waits_for B applied c")
    case True
    with Cons show ?thesis by (auto split: prod.splits)
  next
    case False
    with Cons.prems obtain em where "split_batch B cs (note_create c applied) = (a, em, deferred)" "emitted = c # em"
      by (auto split: prod.splits)
    with Cons.IH [OF this(1)] False show ?thesis by (auto simp: note_create_def intro: waits_for_mono)
  qed
qed simp

lemma retain_pass_spec:
  "retain_pass cs applied = (a, emitted, kept) \<Longrightarrow>
   parents_first B applied emitted \<and> a = applied \<union> creates_of emitted
   \<and> (length kept = length cs \<longrightarrow> (\<forall>c \<in> set cs. fc_parent_frs c \<notin> applied))"
proof (induction cs arbitrary: applied a emitted kept)
  case (Cons c cs)
  show ?case
  proof (cases "fc_parent_frs c \<in> applied")
    case True
    with Cons.prems obtain em where em: "retain_pass cs (note_create c applied) = (a, em, kept)" "emitted = c # em"
      by (auto split: prod.splits)
    with Cons.IH [OF em(1)] retain_pass_kept [OF em(1)] True show ?thesis
      by (auto simp: note_create_def waits_for_def)
  next
    case False
    with Cons.prems obtain k where "retain_pass cs applied = (a, emitted, k)" "kept = c # k" by (auto split: prod.splits)
    with Cons.IH [OF this(1)] False show ?thesis by auto
  qed
qed simp

text \<open>
  A batch without a cycle of creates: some rank grows from the parent to the child along the creates.
\<close>

definition creates_ranked :: "(nat \<Rightarrow> nat) \<Rightarrow> file_change list \<Rightarrow> bool" where
  "creates_ranked rank cs \<longleftrightarrow>
     list_all (\<lambda>c. fc_created c \<and> fc_parent_frs c \<noteq> fc_frs c \<and> fc_parent_frs c \<in> creates_of cs \<longrightarrow>
       rank (fc_parent_frs c) < rank (fc_frs c)) cs"

lemma stuck_is_empty:
  assumes rank: "creates_ranked rank cs"
    and sub: "set kept \<subseteq> set cs" and waits: "\<forall>c \<in> set kept. waits_for (creates_of cs) applied c"
    and all: "creates_of cs \<subseteq> applied \<union> creates_of kept"
  shows "kept = []"
proof (rule ccontr)
  assume "kept \<noteq> []"
  then have "\<exists>c. c \<in> set kept" by (cases kept) auto
  then obtain c where c: "c \<in> set kept" "\<And>c'. c' \<in> set kept \<Longrightarrow> rank (fc_parent_frs c) \<le> rank (fc_parent_frs c')"
    using arg_min_nat_lemma [of "\<lambda>c. c \<in> set kept" _ "\<lambda>c. rank (fc_parent_frs c)"] by blast
  from waits c(1) have "fc_parent_frs c \<in> creates_of cs" "fc_parent_frs c \<notin> applied" by (auto simp: waits_for_def)
  with all obtain p where p: "p \<in> set kept" "fc_created p" "fc_frs p = fc_parent_frs c" by (auto simp: creates_of_def)
  with waits sub rank have "rank (fc_parent_frs p) < rank (fc_frs p)"
    by (auto simp: creates_ranked_def list_all_iff waits_for_def)
  with c(2) [OF p(1)] p(3) show False by simp
qed

lemma release_parents_first:
  assumes rank: "creates_ranked rank cs"
  shows "set deferred \<subseteq> set cs \<Longrightarrow> \<forall>c \<in> set deferred. waits_for (creates_of cs) {} c \<Longrightarrow>
    creates_of cs \<subseteq> applied \<union> creates_of deferred \<Longrightarrow> parents_first (creates_of cs) applied (release deferred applied)"
proof (induction deferred applied rule: release.induct)
  case (1 deferred applied)
  show ?case
  proof (cases "deferred = []")
    case True
    then show ?thesis by (simp add: release.simps)
  next
    case False
    obtain a emitted kept where p: "retain_pass deferred applied = (a, emitted, kept)" by (cases "retain_pass deferred applied") auto
    note sp = retain_pass_spec [OF p, of "creates_of cs"]
    have m: "mset emitted + mset kept = mset deferred" by (rule retain_pass_mset [OF p])
    then have kd: "set kept \<subseteq> set deferred" "set emitted \<union> set kept = set deferred" by (metis set_mset_mset set_mset_union Un_upper2)+
    then have cr: "creates_of deferred = creates_of emitted \<union> creates_of kept" by (auto simp: creates_of_def)
    show ?thesis
    proof (cases "length kept = length deferred")
      case True
      with sp "1.prems"(2) have "\<forall>c \<in> set deferred. waits_for (creates_of cs) applied c" by (auto simp: waits_for_def)
      from stuck_is_empty [OF rank "1.prems"(1) this "1.prems"(3)] False show ?thesis by simp
    next
      case len: False
      have "parents_first (creates_of cs) a (release kept a)"
        using False p len "1.prems" kd(1) sp cr by (intro "1.IH" [OF False p [symmetric]]) auto
      with sp len False p show ?thesis by (simp add: release.simps [of deferred applied] parents_first_append)
    qed
  qed
qed

lemma order_parent_first_spec:
  assumes "creates_ranked rank changes"
  shows "mset (order_parent_first changes) = mset changes
    \<and> parents_first (creates_of changes) {} (order_parent_first changes)"
proof -
  obtain a emitted deferred where s: "split_batch (creates_of changes) changes {} = (a, emitted, deferred)"
    by (cases "split_batch (creates_of changes) changes {}") auto
  have out: "order_parent_first changes = emitted @ release deferred a"
    using s by (simp add: order_parent_first_def creates_of_def)
  note sp = split_batch_spec [OF s]
  have m: "mset emitted + mset deferred = mset changes" by (rule split_batch_mset [OF s])
  then have sets: "set emitted \<union> set deferred = set changes" by (metis set_mset_mset set_mset_union)
  then have "creates_of changes = creates_of emitted \<union> creates_of deferred" by (auto simp: creates_of_def)
  with sp sets have "parents_first (creates_of changes) a (release deferred a)"
    by (intro release_parents_first [OF assms]) auto
  with sp m show ?thesis by (simp add: out release_mset parents_first_append)
qed

lemma order_parent_first_keeps: "mset (order_parent_first changes) = mset changes"
proof -
  obtain a emitted deferred where s: "split_batch (creates_of changes) changes {} = (a, emitted, deferred)"
    by (cases "split_batch (creates_of changes) changes {}") auto
  then have "order_parent_first changes = emitted @ release deferred a" by (simp add: order_parent_first_def creates_of_def)
  with split_batch_mset [OF s] show ?thesis by (simp add: release_mset)
qed

text \<open>The same by positions: a change that goes into a directory of the batch stands behind a create of that directory.\<close>

definition behind_its_parent :: "file_change list \<Rightarrow> nat \<Rightarrow> bool" where
  "behind_its_parent cs i \<longleftrightarrow>
     (let c = cs ! i in
      (fc_created c \<or> fc_renamed c) \<and> fc_parent_frs c \<noteq> fc_frs c \<and> (\<exists>p \<in> set cs. fc_created p \<and> fc_frs p = fc_parent_frs c)
      \<longrightarrow> (\<exists>k < i. fc_created (cs ! k) \<and> fc_frs (cs ! k) = fc_parent_frs c))"

lemma parents_first_behind:
  assumes "parents_first (creates_of cs) {} cs" and "i < length cs"
  shows "behind_its_parent cs i"
proof -
  have "cs = take i cs @ cs ! i # drop (Suc i) cs" using assms(2) by (rule id_take_nth_drop)
  with assms(1) have "\<not> waits_for (creates_of cs) (creates_of (take i cs)) (cs ! i)"
    by (metis parents_first.simps(2) parents_first_append sup_bot_left)
  then show ?thesis
    by (auto simp: waits_for_def behind_its_parent_def creates_of_def Let_def in_set_conv_nth image_iff Bex_def)
qed

text \<open>
  C19. Ordering a batch always ends and loses and repeats nothing, for every batch; and unless the creates of the
  batch form a cycle every created or moved record comes after the create of its parent directory, however deep the
  batch nests.
\<close>

theorem order_parent_first_correct:
  "mset (order_parent_first changes) = mset changes
   \<and> ((\<exists>rank. creates_ranked rank changes) \<longrightarrow>
        (\<forall>i < length changes. behind_its_parent (order_parent_first changes) i))"
proof (intro conjI impI allI)
  show m: "mset (order_parent_first changes) = mset changes" by (rule order_parent_first_keeps)
  fix i assume "\<exists>rank. creates_ranked rank changes" and i: "i < length changes"
  then have "parents_first (creates_of changes) {} (order_parent_first changes)" using order_parent_first_spec by blast
  moreover have "creates_of (order_parent_first changes) = creates_of changes" using mset_eq_setD [OF m] by (simp add: creates_of_def)
  ultimately show "behind_its_parent (order_parent_first changes) i"
    using i mset_eq_length [OF m] by (intro parents_first_behind) simp_all
qed

definition demo_create :: "nat \<Rightarrow> nat \<Rightarrow> file_change" where
  "demo_create frs par = (file_change_new frs)\<lparr>fc_parent_frs := par, fc_created := True, fc_filename := [0x61]\<rparr>"

theorem order_parent_first_correct_witness:
  "behind_its_parent (order_parent_first [demo_create 9 8, demo_create 8 5]) 1
   \<and> order_parent_first [demo_create 9 8, demo_create 8 5] = [demo_create 8 5, demo_create 9 8]
   \<and> mset (order_parent_first [demo_create 9 8, demo_create 8 9]) = mset [demo_create 9 8, demo_create 8 9]"
proof (intro conjI)
  have "creates_ranked (\<lambda>f. if f = 9 then 2 else if f = 8 then 1 else 0) [demo_create 9 8, demo_create 8 5]"
    by (simp add: creates_ranked_def demo_create_def file_change_new_def)
  then show "behind_its_parent (order_parent_first [demo_create 9 8, demo_create 8 5]) 1"
    using order_parent_first_correct [of "[demo_create 9 8, demo_create 8 5]"] by auto
  show "order_parent_first [demo_create 9 8, demo_create 8 5] = [demo_create 8 5, demo_create 9 8]"
    by (simp add: order_parent_first_def waits_for_def note_create_def demo_create_def file_change_new_def release.simps)
  show "mset (order_parent_first [demo_create 9 8, demo_create 8 9]) = mset [demo_create 9 8, demo_create 8 9]"
    using order_parent_first_correct [of "[demo_create 9 8, demo_create 8 9]"] by blast
qed

end
