(* ===== verification/Usn_Patch.thy ===== *)
theory Usn_Patch
  imports Path_Len Usn_Changes
begin

text \<open>
  Applying a batch of journal changes to the index of a drive (\<open>apply_usn_patch\<close> of
  \<open>crates/uffs-core/src/compact_loader.rs\<close>, with \<open>compact_loader/apply.rs\<close> and \<open>compact_loader/rebuild.rs\<close>):
  the batch is put in order, each change overwrites, appends or deletes one record, and the touched
  records are then overlaid on the indexes and get their path lengths.

  The slice of changes and the vectors are shorter than 2 ^ 64, so the counters cannot overflow and are
  natural numbers; the reserve of capacity before a resize has no effect on the values. Lower-casing of
  extensions is the argument \<open>lower\<close>, the order in which parallel workers write the argument \<open>sched\<close>.
\<close>

section \<open>Definitions\<close>

record patch_stats =
  ps_deleted :: nat
  ps_created :: nat
  ps_renamed :: nat
  ps_skipped :: nat

definition patch_stats_default :: patch_stats where
  "patch_stats_default = \<lparr>ps_deleted = 0, ps_created = 0, ps_renamed = 0, ps_skipped = 0\<rparr>"

text \<open>The variables of \<open>apply_usn_patch\<close> that its loop updates.\<close>

record patch_state =
  ps_drive :: drive_index
  ps_stats :: patch_stats
  ps_path_changes :: "path_change list"
  ps_tombstones :: "nat list"

definition frs_to_usize :: "nat \<Rightarrow> nat" where
  "frs_to_usize frs = (if frs \<le> u64_max then frs else u64_max)"

definition compact_slot :: "drive_index \<Rightarrow> nat \<Rightarrow> nat" where
  "compact_slot d frs = (case vec_get (di_frs_to_compact d) (frs_to_usize frs) of None \<Rightarrow> u32_max | Some c \<Rightarrow> c)"

record staged_create =
  sc_name_offset :: nat
  sc_name_len :: nat
  sc_name_first_byte :: u8
  sc_extension_id :: nat
  sc_parent_idx :: nat
  sc_meta :: record_meta

definition first_byte :: "bytes \<Rightarrow> u8" where
  "first_byte bs = (case bs of [] \<Rightarrow> 0 | b # _ \<Rightarrow> b)"

definition stage_create :: "(bytes \<Rightarrow> bytes) \<Rightarrow> file_change \<Rightarrow> drive_index \<Rightarrow> staged_create \<times> drive_index" where
  "stage_create lower change d =
     (case intern_extension lower (fc_filename change) d of
        (extension_id, d1) \<Rightarrow>
          (let name_start = length (di_names d1);
               d2 = d1\<lparr>di_names := di_names d1 @ fc_filename change\<rparr>
           in (\<lparr>sc_name_offset = len_to_u32 name_start, sc_name_len = len_to_u16 (length (fc_filename change)),
                sc_name_first_byte = first_byte (fc_filename change), sc_extension_id = extension_id,
                sc_parent_idx = compact_slot d2 (fc_parent_frs change),
                sc_meta = (case fc_meta change of None \<Rightarrow> record_meta_default | Some m \<Rightarrow> m)\<rparr>, d2)))"

definition overwrite_slot :: "staged_create \<Rightarrow> compact_record \<Rightarrow> compact_record" where
  "overwrite_slot staged r = r\<lparr>
     cr_name_offset := sc_name_offset staged, cr_name_len := sc_name_len staged,
     cr_name_first_byte := sc_name_first_byte staged, cr_extension_id := sc_extension_id staged,
     cr_parent_idx := sc_parent_idx staged, cr_size := rm_size (sc_meta staged),
     cr_allocated := rm_allocated (sc_meta staged), cr_created := rm_created (sc_meta staged),
     cr_modified := rm_modified (sc_meta staged), cr_accessed := rm_accessed (sc_meta staged),
     cr_flags := rm_flags (sc_meta staged), cr_treesize := 0, cr_tree_allocated := 0,
     cr_descendants := 0, cr_path_len := 0\<rparr>"

definition skip_change :: "patch_state \<Rightarrow> patch_state" where
  "skip_change st = st\<lparr>ps_stats := (ps_stats st)\<lparr>ps_skipped := ps_skipped (ps_stats st) + 1\<rparr>\<rparr>"

definition apply_delete :: "nat \<Rightarrow> nat \<Rightarrow> patch_state \<Rightarrow> patch_state" where
  "apply_delete frs_usize compact_idx st =
     (if compact_idx = u32_max then skip_change st
      else let d = ps_drive st in
        case vec_get (di_records d) compact_idx of
          None \<Rightarrow> st
        | Some r \<Rightarrow>
            st\<lparr>ps_drive := d\<lparr>di_records := (di_records d)[compact_idx := r\<lparr>cr_name_len := 0, cr_parent_idx := u32_max\<rparr>],
                 di_frs_to_compact := (if frs_usize < length (di_frs_to_compact d)
                                       then (di_frs_to_compact d)[frs_usize := u32_max] else di_frs_to_compact d)\<rparr>,
               ps_tombstones := ps_tombstones st @ [compact_idx],
               ps_stats := (ps_stats st)\<lparr>ps_deleted := ps_deleted (ps_stats st) + 1\<rparr>\<rparr>)"

definition new_record :: "staged_create \<Rightarrow> nat \<Rightarrow> compact_record" where
  "new_record staged frs_usize = \<lparr>
     cr_size = rm_size (sc_meta staged), cr_allocated = rm_allocated (sc_meta staged), cr_treesize = 0,
     cr_tree_allocated = 0, cr_created = rm_created (sc_meta staged), cr_modified = rm_modified (sc_meta staged),
     cr_accessed = rm_accessed (sc_meta staged), cr_file_ref = pack_file_reference (of_nat frs_usize) 0,
     cr_name_offset = sc_name_offset staged, cr_flags = rm_flags (sc_meta staged),
     cr_parent_idx = sc_parent_idx staged, cr_descendants = 0, cr_name_len = sc_name_len staged,
     cr_extension_id = sc_extension_id staged, cr_path_len = 0, cr_name_first_byte = sc_name_first_byte staged\<rparr>"

definition register_frs :: "nat \<Rightarrow> nat \<Rightarrow> nat list \<Rightarrow> nat list" where
  "register_frs frs_usize idx table =
     (let grown = (if frs_usize \<ge> length table
                   then table @ replicate (u64_sat_add frs_usize 1 - length table) u32_max else table)
      in if frs_usize < length grown then grown[frs_usize := idx] else grown)"

definition apply_create :: "(bytes \<Rightarrow> bytes) \<Rightarrow> file_change \<Rightarrow> nat \<Rightarrow> nat \<Rightarrow> patch_state \<Rightarrow> patch_state" where
  "apply_create lower change frs_usize compact_idx st =
     (if fc_filename change = [] then skip_change st
      else case stage_create lower change (ps_drive st) of
        (staged, d) \<Rightarrow>
          (let counted = (ps_stats st)\<lparr>ps_created := ps_created (ps_stats st) + 1\<rparr> in
           if compact_idx = u32_max then
             (let new_compact_idx = len_to_u32 (length (di_records d)) in
              st\<lparr>ps_drive := d\<lparr>di_records := di_records d @ [new_record staged frs_usize],
                   di_frs_to_compact := register_frs frs_usize new_compact_idx (di_frs_to_compact d)\<rparr>,
                 ps_path_changes := ps_path_changes st @ [\<lparr>pc_idx = new_compact_idx, pc_subtree = False\<rparr>],
                 ps_stats := counted\<rparr>)
           else case vec_get (di_records d) compact_idx of
             None \<Rightarrow> st\<lparr>ps_drive := d\<rparr>
           | Some r \<Rightarrow>
               st\<lparr>ps_drive := d\<lparr>di_records := (di_records d)[compact_idx := overwrite_slot staged r]\<rparr>,
                  ps_path_changes := ps_path_changes st @ [\<lparr>pc_idx = compact_idx, pc_subtree = False\<rparr>],
                  ps_tombstones := ps_tombstones st @ [compact_idx], ps_stats := counted\<rparr>))"

definition renamed_record :: "file_change \<Rightarrow> nat \<Rightarrow> nat \<Rightarrow> nat \<Rightarrow> compact_record \<Rightarrow> compact_record" where
  "renamed_record change name_start extension_id new_parent r =
     (let r1 = r\<lparr>cr_name_offset := len_to_u32 name_start, cr_name_len := len_to_u16 (length (fc_filename change)),
                 cr_extension_id := extension_id, cr_name_first_byte := first_byte (fc_filename change),
                 cr_parent_idx := new_parent\<rparr>
      in case fc_meta change of
           None \<Rightarrow> r1
         | Some m \<Rightarrow> r1\<lparr>cr_size := rm_size m, cr_allocated := rm_allocated m, cr_created := rm_created m,
                       cr_modified := rm_modified m, cr_accessed := rm_accessed m, cr_flags := rm_flags m\<rparr>)"

definition apply_rename :: "(bytes \<Rightarrow> bytes) \<Rightarrow> file_change \<Rightarrow> nat \<Rightarrow> patch_state \<Rightarrow> patch_state" where
  "apply_rename lower change compact_idx st =
     (if compact_idx = u32_max \<or> fc_filename change = [] then skip_change st
      else case intern_extension lower (fc_filename change) (ps_drive st) of
        (extension_id, d1) \<Rightarrow>
          (let name_start = length (di_names d1);
               d = d1\<lparr>di_names := di_names d1 @ fc_filename change\<rparr>;
               new_parent_compact = compact_slot d (fc_parent_frs change)
           in case vec_get (di_records d) compact_idx of
                None \<Rightarrow> st\<lparr>ps_drive := d\<rparr>
              | Some r \<Rightarrow>
                  (let r' = renamed_record change name_start extension_id new_parent_compact r in
                   st\<lparr>ps_drive := d\<lparr>di_records := (di_records d)[compact_idx := r']\<rparr>,
                      ps_path_changes := ps_path_changes st @ [\<lparr>pc_idx = compact_idx, pc_subtree = is_directory_record r'\<rparr>],
                      ps_tombstones := ps_tombstones st @ [compact_idx],
                      ps_stats := (ps_stats st)\<lparr>ps_renamed := ps_renamed (ps_stats st) + 1\<rparr>\<rparr>)))"

definition apply_change :: "(bytes \<Rightarrow> bytes) \<Rightarrow> file_change \<Rightarrow> patch_state \<Rightarrow> patch_state" where
  "apply_change lower change st =
     (let frs_usize = frs_to_usize (fc_frs change);
          compact_idx = compact_slot (ps_drive st) (fc_frs change)
      in if fc_deleted change then apply_delete frs_usize compact_idx st
         else if fc_created change then apply_create lower change frs_usize compact_idx st
         else if fc_renamed change then apply_rename lower change compact_idx st
         else skip_change st)"

definition patch_start :: "drive_index \<Rightarrow> patch_state" where
  "patch_start d = \<lparr>ps_drive = d, ps_stats = patch_stats_default, ps_path_changes = [], ps_tombstones = []\<rparr>"

definition FULL_PATH_RECOMPUTE_THRESHOLD :: nat where "FULL_PATH_RECOMPUTE_THRESHOLD = 50000"

definition rebuild_derived ::
  "(store list \<Rightarrow> store list) \<Rightarrow> path_change list \<Rightarrow> nat list \<Rightarrow> drive_index \<Rightarrow> (bool \<times> drive_index) rust"
where
  "rebuild_derived sched path_changes tombstones d = do {
     (compacted, d1) \<leftarrow> apply_index_delta sched path_changes tombstones d;
     records \<leftarrow> (if length path_changes > FULL_PATH_RECOMPUTE_THRESHOLD
                 then compute_path_lengths (di_records d1) (di_names d1)
                 else update_path_lengths_incremental (di_names d1) (di_children d1) (di_delta d1) path_changes (di_records d1));
     Some (compacted, d1\<lparr>di_records := records\<rparr>)
   }"

definition apply_changes :: "(bytes \<Rightarrow> bytes) \<Rightarrow> file_change list \<Rightarrow> drive_index \<Rightarrow> patch_state" where
  "apply_changes lower changes d = fold (apply_change lower) (order_parent_first changes) (patch_start d)"

definition apply_usn_patch ::
  "(store list \<Rightarrow> store list) \<Rightarrow> (bytes \<Rightarrow> bytes) \<Rightarrow> file_change list \<Rightarrow> drive_index \<Rightarrow> (patch_stats \<times> drive_index) rust"
where
  "apply_usn_patch sched lower changes d =
     (let st = apply_changes lower changes d in do {
        (compacted, d') \<leftarrow> rebuild_derived sched (ps_path_changes st) (ps_tombstones st) (ps_drive st);
        Some (ps_stats st, d')
      })"

section \<open>Records, names and the slot table\<close>

definition table_ok :: "drive_index \<Rightarrow> bool" where
  "table_ok d \<longleftrightarrow> list_all (\<lambda>c. c = u32_max \<or> c < length (di_records d)) (di_frs_to_compact d)"

definition names_ok :: "drive_index \<Rightarrow> bool" where
  "names_ok d \<longleftrightarrow> list_all (\<lambda>r. cr_name_len r \<le> u16_max
     \<and> (cr_name_len r \<noteq> 0 \<longrightarrow> cr_name_offset r + cr_name_len r \<le> length (di_names d))) (di_records d)"

lemma compact_slot_ok: "table_ok d \<Longrightarrow> compact_slot d frs = u32_max \<or> compact_slot d frs < length (di_records d)"
  by (auto simp: table_ok_def compact_slot_def vec_get_def list_all_length)

definition trigram_load :: "case_fold \<Rightarrow> bytes \<Rightarrow> compact_record list \<Rightarrow> nat" where
  "trigram_load t names rs = sum_list (map (\<lambda>r. length (record_trigrams t names r)) rs)"

lemma index_fits_load:
  "index_fits d \<longleftrightarrow> length (di_records d) \<le> u32_max \<and> length (di_names d) < u64_max
     \<and> trigram_load (di_fold d) (di_names d) (di_records d) \<le> u32_max"
  by (simp add: index_fits_def trigram_load_def)

lemma slice_get_grown: "stop \<le> length xs \<Longrightarrow> slice_get (xs @ ys) start stop = slice_get xs start stop"
  by (auto simp: slice_get_def)

lemma slice_get_empty: "slice_get xs i i = (if i \<le> length xs then Some [] else None)"
  by (simp add: slice_get_def)

lemma fresh_trigrams_length: "length (fresh_trigrams seen xs) \<le> length xs"
proof (induction xs arbitrary: seen)
  case (Cons x xs)
  then show ?case by (cases "tri_set_insert x seen") (auto simp: le_SucI)
qed simp

lemma folded_name_length: "length (folded_name t names r) \<le> cr_name_len r"
proof -
  have "length cs \<le> cr_name_len r" if "slice_get names (cr_name_offset r) (cr_name_offset r + cr_name_len r) = Some bs" "utf8_chars bs = Some cs" for bs cs
    using utf8_chars_length [OF that(2)] that(1) by (auto simp: slice_get_def split: if_splits)
  then show ?thesis by (auto simp: folded_name_def split: option.split)
qed

lemma record_trigrams_length: "length (record_trigrams t names r) \<le> cr_name_len r"
proof -
  have "length (packed_windows (folded_name t names r)) \<le> length (folded_name t names r)" by (simp add: packed_windows_def windows_def)
  with fresh_trigrams_length [of "[]" "packed_windows (folded_name t names r)"] folded_name_length [of t names r]
  have "length (fresh_trigrams [] (packed_windows (folded_name t names r))) \<le> cr_name_len r" by linarith
  then show ?thesis by (simp add: record_trigrams_def)
qed

lemma names_grown:
  assumes "cr_name_len r = 0 \<or> cr_name_offset r + cr_name_len r \<le> length names"
  shows "folded_name t (names @ f) r = folded_name t names r" and "record_trigrams t (names @ f) r = record_trigrams t names r"
proof -
  show "folded_name t (names @ f) r = folded_name t names r"
    using assms by (auto simp: folded_name_def slice_get_grown slice_get_empty)
  then show "record_trigrams t (names @ f) r = record_trigrams t names r" by (simp add: record_trigrams_def)
qed

lemma sum_list_update_le: "i < length xs \<Longrightarrow> sum_list (map g (xs[i := x])) \<le> sum_list (map g xs) + (g x :: nat)"
proof (induction xs arbitrary: i)
  case (Cons y ys)
  then show ?case by (cases i) auto
qed simp

text \<open>Writing one record, over a slot or behind the last one.\<close>

definition put_record :: "nat \<Rightarrow> compact_record \<Rightarrow> compact_record list \<Rightarrow> compact_record list" where
  "put_record j r rs = (if j < length rs then rs[j := r] else rs @ [r])"

lemma put_record_length: "length (put_record j r rs) = (if j < length rs then length rs else Suc (length rs))"
  by (simp add: put_record_def)

lemma put_record_nth:
  "j \<le> length rs \<Longrightarrow> i < length (put_record j r rs) \<Longrightarrow> put_record j r rs ! i = (if i = j then r else rs ! i)"
  by (auto simp: put_record_def nth_append)

lemma put_record_all:
  "j \<le> length rs \<Longrightarrow> (\<forall>i < length rs. i \<noteq> j \<longrightarrow> P (rs ! i)) \<Longrightarrow> P r \<Longrightarrow> list_all P (put_record j r rs)"
  by (auto simp: list_all_length put_record_nth) (auto simp: put_record_length split: if_splits)

lemma trigram_load_put:
  assumes "list_all (\<lambda>r. cr_name_len r \<noteq> 0 \<longrightarrow> cr_name_offset r + cr_name_len r \<le> length names) rs"
  shows "trigram_load t (names @ f) (put_record j r rs) \<le> trigram_load t names rs + cr_name_len r"
proof -
  let ?g = "\<lambda>r. length (record_trigrams t (names @ f) r)"
  have "map ?g rs = map (\<lambda>r. length (record_trigrams t names r)) rs"
    using assms by (auto simp: list_all_iff names_grown(2))
  then have old: "sum_list (map ?g rs) = trigram_load t names rs" by (simp only: trigram_load_def)
  moreover have "sum_list (map ?g (put_record j r rs)) \<le> sum_list (map ?g rs) + ?g r"
    using sum_list_update_le [of j rs ?g r] by (auto simp: put_record_def)
  ultimately show ?thesis using record_trigrams_length [of t "names @ f" r] by (simp add: trigram_load_def)
qed

section \<open>What the loop keeps\<close>

text \<open>
  Between the drive before the batch and the drive in the loop: the bases are untouched, names are only
  appended, and a record that is live now is on the list of additions or is as it was.
\<close>

definition as_before :: "drive_index \<Rightarrow> drive_index \<Rightarrow> nat list \<Rightarrow> nat \<Rightarrow> bool" where
  "as_before d d1 tombs i \<longleftrightarrow> live (di_records d) i \<and> i \<notin> set tombs
     \<and> cr_extension_id (di_records d1 ! i) = cr_extension_id (di_records d ! i)
     \<and> cr_parent_idx (di_records d1 ! i) = cr_parent_idx (di_records d ! i)
     \<and> cr_name_offset (di_records d1 ! i) = cr_name_offset (di_records d ! i)
     \<and> cr_name_len (di_records d1 ! i) = cr_name_len (di_records d ! i)"

definition tracked :: "drive_index \<Rightarrow> drive_index \<Rightarrow> path_change list \<Rightarrow> nat list \<Rightarrow> bool" where
  "tracked d d1 adds tombs \<longleftrightarrow> same_bases d d1 \<and> di_fold d1 = di_fold d \<and> (\<exists>f. di_names d1 = di_names d @ f)
     \<and> table_ok d1 \<and> links_ok (di_records d1) \<and> names_ok d1
     \<and> (\<forall>i. live (di_records d1) i \<longrightarrow> i \<in> pc_idx ` set adds \<or> as_before d d1 tombs i)"

lemma as_before_step:
  "as_before d d1 tombs i \<Longrightarrow> di_records d2 ! i = di_records d1 ! i \<Longrightarrow> i \<noteq> j \<Longrightarrow> set tombs' \<subseteq> insert j (set tombs) \<Longrightarrow>
   as_before d d2 tombs' i"
  by (auto simp: as_before_def)

lemma tracked_start: "index_inv d \<Longrightarrow> table_ok d \<Longrightarrow> names_ok d \<Longrightarrow> tracked d d [] []"
  by (simp add: tracked_def same_bases_def index_inv_def as_before_def)

lemma tracked_noted:
  assumes "tracked d d1 adds tombs" and "names_ok d"
  shows "changes_noted d d1 adds tombs"
proof -
  from assms(1) obtain f where f: "di_fold d1 = di_fold d" "di_names d1 = di_names d @ f" by (auto simp: tracked_def)
  have "name_trigrams d1 i = name_trigrams d i"
    if "live (di_records d) i" "cr_name_offset (di_records d1 ! i) = cr_name_offset (di_records d ! i)"
      "cr_name_len (di_records d1 ! i) = cr_name_len (di_records d ! i)" for i
  proof -
    have "cr_name_offset (di_records d ! i) + cr_name_len (di_records d ! i) \<le> length (di_names d)"
      using assms(2) that(1) by (auto simp: names_ok_def list_all_length live_def)
    then have "folded_name (di_fold d) (di_names d @ f) (di_records d ! i) = folded_name (di_fold d) (di_names d) (di_records d ! i)"
      by (intro names_grown) simp
    moreover have "folded_name (di_fold d) (di_names d @ f) (di_records d1 ! i) = folded_name (di_fold d) (di_names d @ f) (di_records d ! i)"
      using name_fields_only [OF that(2,3)] by blast
    ultimately show ?thesis by (simp add: name_trigrams_def f)
  qed
  with assms(1) show ?thesis unfolding tracked_def changes_noted_def as_before_def by blast
qed

lemma tracked_put:
  assumes "tracked d d1 adds tombs" and "j \<le> length (di_records d1)" and "same_bases d1 d2" and "di_fold d2 = di_fold d1"
    and "di_names d2 = di_names d1 @ f" and "di_records d2 = put_record j r (di_records d1)" and "table_ok d2"
    and "cr_parent_idx r = u32_max \<or> cr_parent_idx r < length (di_records d1)" and "cr_name_len r \<noteq> 0" and "cr_name_len r \<le> u16_max"
    and "cr_name_offset r + cr_name_len r \<le> length (di_names d2)" and "set tombs' \<subseteq> insert j (set tombs)"
  shows "tracked d d2 (adds @ [\<lparr>pc_idx = j, pc_subtree = b\<rparr>]) tombs'"
proof -
  note put = put_record_nth [OF assms(2)] and len = put_record_length [of j r "di_records d1"]
  have "links_ok (di_records d2)"
    unfolding assms(6) links_ok_def using assms(1,8,9) len
    by (intro put_record_all [OF assms(2)]) (auto simp: tracked_def links_ok_def list_all_length less_SucI)
  moreover have "names_ok d2"
    unfolding names_ok_def assms(6) using assms(1,5,10,11)
    by (intro put_record_all [OF assms(2)]) (auto simp: tracked_def names_ok_def list_all_length trans_le_add1)
  moreover have "i \<in> pc_idx ` set (adds @ [\<lparr>pc_idx = j, pc_subtree = b\<rparr>]) \<or> as_before d d2 tombs' i" if i: "live (di_records d2) i" for i
  proof (cases "i = j")
    case False
    with i put [of i r] assms(2) len have "live (di_records d1) i" "di_records d2 ! i = di_records d1 ! i"
      by (auto simp: live_def assms(6) split: if_splits)
    with assms(1,12) False as_before_step [of d d1 tombs i d2 j tombs'] show ?thesis by (auto simp: tracked_def)
  qed simp
  moreover have "same_bases d d2" using assms(1,3) by (auto simp: tracked_def same_bases_def)
  ultimately show ?thesis using assms(1,4,5,7) unfolding tracked_def by auto
qed

lemma tracked_kill:
  assumes "tracked d d1 adds tombs" and "j < length (di_records d1)" and "same_bases d1 d2" and "di_fold d2 = di_fold d1"
    and "di_names d2 = di_names d1" and "table_ok d2"
    and "di_records d2 = (di_records d1)[j := (di_records d1 ! j)\<lparr>cr_name_len := 0, cr_parent_idx := u32_max\<rparr>]"
  shows "tracked d d2 adds (tombs @ [j])"
proof -
  have "links_ok (di_records d2)" "names_ok d2"
    using assms by (auto simp: tracked_def links_ok_def names_ok_def list_all_length nth_list_update)
  moreover have "live (di_records d1) i \<and> di_records d2 ! i = di_records d1 ! i \<and> i \<noteq> j" if "live (di_records d2) i" for i
    using that assms(2) by (cases "i = j") (auto simp: live_def assms(7))
  moreover have "same_bases d d2" using assms(1,3) by (auto simp: tracked_def same_bases_def)
  ultimately show ?thesis using assms(1,4,5,6) as_before_step [of d d1 tombs _ d2 j "tombs @ [j]"] unfolding tracked_def by auto
qed

text \<open>Room for \<open>n\<close> more records and \<open>b\<close> more bytes of names.\<close>

definition room :: "nat \<Rightarrow> nat \<Rightarrow> drive_index \<Rightarrow> bool" where
  "room n b d \<longleftrightarrow> length (di_records d) + n \<le> u32_max \<and> length (di_names d) + b \<le> u32_max
     \<and> trigram_load (di_fold d) (di_names d) (di_records d) + b \<le> u32_max"

lemma room_fits: "room 0 0 d \<Longrightarrow> index_fits d"
  by (simp add: room_def index_fits_load u32_max_def u64_max_def)

lemma room_less: "room (Suc n) (k + b) d \<Longrightarrow> room n b d"
  by (simp add: room_def)

lemma room_put:
  assumes "room (Suc n) (length f + b) d1" and "names_ok d1" and "di_fold d2 = di_fold d1" and "di_names d2 = di_names d1 @ f"
    and "di_records d2 = put_record j r (di_records d1)" and "cr_name_len r \<le> length f"
  shows "room n b d2"
proof -
  have "list_all (\<lambda>r. cr_name_len r \<noteq> 0 \<longrightarrow> cr_name_offset r + cr_name_len r \<le> length (di_names d1)) (di_records d1)"
    using assms(2) by (simp add: names_ok_def list_all_length)
  from trigram_load_put [OF this, of "di_fold d1" f j r] assms show ?thesis
    by (auto simp: room_def put_record_length)
qed

lemma room_kill:
  assumes "room (Suc n) (k + b) d1" and "di_fold d2 = di_fold d1" and "di_names d2 = di_names d1" and "j < length (di_records d1)"
    and "di_records d2 = (di_records d1)[j := (di_records d1 ! j)\<lparr>cr_name_len := 0, cr_parent_idx := u32_max\<rparr>]"
  shows "room n b d2"
proof -
  let ?r = "(di_records d1 ! j)\<lparr>cr_name_len := 0, cr_parent_idx := u32_max\<rparr>"
  let ?g = "\<lambda>r. length (record_trigrams (di_fold d1) (di_names d1) r)"
  have "sum_list (map ?g ((di_records d1)[j := ?r])) \<le> sum_list (map ?g (di_records d1)) + ?g ?r"
    by (rule sum_list_update_le [OF assms(4)])
  moreover have "?g ?r = 0" using record_trigrams_length [of "di_fold d1" "di_names d1" ?r] by simp
  ultimately show ?thesis using assms by (simp add: room_def trigram_load_def)
qed

section \<open>One change\<close>

lemma compact_slot_names [simp]: "compact_slot (d\<lparr>di_names := f\<rparr>) frs = compact_slot d frs"
  by (simp add: compact_slot_def)

lemma compact_slot_ext [simp]: "compact_slot (d\<lparr>di_ext_names := xs\<rparr>) frs = compact_slot d frs"
  by (simp add: compact_slot_def)

lemma register_frs_ok:
  assumes "list_all P table" and "P u32_max" and "P idx"
  shows "list_all P (register_frs frs idx table)"
  using assms by (auto simp: register_frs_def Let_def list_all_length nth_list_update nth_append)

text \<open>The drive with the staged name and extension, and the record staged over \<open>r\<close>.\<close>

lemma stage_create_cases:
  obtains s xs where "stage_create lower c d = (s, d\<lparr>di_ext_names := di_ext_names d @ xs, di_names := di_names d @ fc_filename c\<rparr>)"
    and "sc_name_offset s = len_to_u32 (length (di_names d))" and "sc_name_len s = len_to_u16 (length (fc_filename c))"
    and "sc_parent_idx s = compact_slot d (fc_parent_frs c)" and "sc_extension_id s = fst (intern_extension lower (fc_filename c) d)"
proof -
  obtain e d1 where i: "intern_extension lower (fc_filename c) d = (e, d1)" by fastforce
  from intern_extension_frame [OF this] obtain xs where "d1 = d\<lparr>di_ext_names := di_ext_names d @ xs\<rparr>" ..
  then show ?thesis by (intro that [of "fst (stage_create lower c d)" xs]) (simp_all add: stage_create_def Let_def i)
qed


text \<open>
  The three outcomes. A create or a rename with a name writes the record of its slot, a create of an
  unknown number the record behind the last; a delete of a known number clears its record; everything
  else is counted as skipped.
\<close>

definition target_slot :: "drive_index \<Rightarrow> file_change \<Rightarrow> nat" where
  "target_slot d c = (if compact_slot d (fc_frs c) = u32_max then length (di_records d) else compact_slot d (fc_frs c))"

definition must_write :: "drive_index \<Rightarrow> file_change \<Rightarrow> bool" where
  "must_write d c \<longleftrightarrow> \<not> fc_deleted c \<and> fc_filename c \<noteq> [] \<and> (fc_created c \<or> fc_renamed c \<and> compact_slot d (fc_frs c) \<noteq> u32_max)"

definition must_clear :: "drive_index \<Rightarrow> file_change \<Rightarrow> bool" where
  "must_clear d c \<longleftrightarrow> fc_deleted c \<and> compact_slot d (fc_frs c) \<noteq> u32_max"

definition written :: "(bytes \<Rightarrow> bytes) \<Rightarrow> file_change \<Rightarrow> patch_state \<Rightarrow> patch_state \<Rightarrow> bool" where
  "written lower c st st' \<longleftrightarrow>
     (\<exists>r b. let d = ps_drive st; d' = ps_drive st'; j = target_slot d c in
      same_bases d d' \<and> di_fold d' = di_fold d \<and> di_names d' = di_names d @ fc_filename c
      \<and> (\<exists>xs. di_ext_names d' = di_ext_names d @ xs) \<and> di_records d' = put_record j r (di_records d)
      \<and> cr_name_offset r = len_to_u32 (length (di_names d)) \<and> cr_name_len r = len_to_u16 (length (fc_filename c))
      \<and> cr_parent_idx r = compact_slot d (fc_parent_frs c) \<and> cr_extension_id r = fst (intern_extension lower (fc_filename c) d)
      \<and> di_frs_to_compact d' = (if compact_slot d (fc_frs c) = u32_max
            then register_frs (frs_to_usize (fc_frs c)) j (di_frs_to_compact d) else di_frs_to_compact d)
      \<and> ps_path_changes st' = ps_path_changes st @ [\<lparr>pc_idx = j, pc_subtree = b\<rparr>]
      \<and> set (ps_tombstones st') \<subseteq> insert j (set (ps_tombstones st)))"

definition cleared :: "file_change \<Rightarrow> patch_state \<Rightarrow> patch_state \<Rightarrow> bool" where
  "cleared c st st' \<longleftrightarrow>
     (let d = ps_drive st; d' = ps_drive st'; j = compact_slot d (fc_frs c) in
      same_bases d d' \<and> di_fold d' = di_fold d \<and> di_names d' = di_names d \<and> di_ext_names d' = di_ext_names d
      \<and> di_records d' = (di_records d)[j := (di_records d ! j)\<lparr>cr_name_len := 0, cr_parent_idx := u32_max\<rparr>]
      \<and> di_frs_to_compact d' = (di_frs_to_compact d)[frs_to_usize (fc_frs c) := u32_max]
      \<and> ps_path_changes st' = ps_path_changes st \<and> ps_tombstones st' = ps_tombstones st @ [j])"

lemma apply_change_clears:
  assumes "table_ok (ps_drive st)" and "must_clear (ps_drive st) c"
  shows "cleared c st (apply_change lower c st)"
proof -
  have "compact_slot (ps_drive st) (fc_frs c) < length (di_records (ps_drive st))"
    using compact_slot_ok [OF assms(1), of "fc_frs c"] assms(2) by (auto simp: must_clear_def)
  with assms(2) show ?thesis
    by (simp add: cleared_def apply_change_def apply_delete_def must_clear_def Let_def vec_get_def same_bases_def list_update_beyond)
qed

lemma apply_change_skips:
  "\<not> must_write (ps_drive st) c \<Longrightarrow> \<not> must_clear (ps_drive st) c \<Longrightarrow> apply_change lower c st = skip_change st"
  by (auto simp: must_write_def must_clear_def apply_change_def apply_delete_def apply_create_def apply_rename_def Let_def)

lemma apply_create_writes:
  assumes "length (di_records (ps_drive st)) < u32_max" and "fc_filename c \<noteq> []"
    and "compact_slot (ps_drive st) (fc_frs c) = u32_max \<or> compact_slot (ps_drive st) (fc_frs c) < length (di_records (ps_drive st))"
  shows "written lower c st (apply_create lower c (frs_to_usize (fc_frs c)) (compact_slot (ps_drive st) (fc_frs c)) st)"
proof -
  let ?d = "ps_drive st" and ?j = "compact_slot (ps_drive st) (fc_frs c)"
  obtain s xs where s: "stage_create lower c ?d = (s, ?d\<lparr>di_ext_names := di_ext_names ?d @ xs, di_names := di_names ?d @ fc_filename c\<rparr>)"
    "sc_name_offset s = len_to_u32 (length (di_names ?d))" "sc_name_len s = len_to_u16 (length (fc_filename c))"
    "sc_parent_idx s = compact_slot ?d (fc_parent_frs c)" "sc_extension_id s = fst (intern_extension lower (fc_filename c) ?d)"
    using stage_create_cases [of lower c ?d] by metis
  show ?thesis
  proof (cases "?j = u32_max")
    case True
    then show ?thesis unfolding written_def using assms(1,2) s
      by (intro exI [of _ "new_record s (frs_to_usize (fc_frs c))"] exI [of _ False])
        (auto simp: apply_create_def Let_def target_slot_def put_record_def new_record_def len_to_u32_def same_bases_def)
  next
    case False
    then show ?thesis unfolding written_def using assms s
      by (intro exI [of _ "overwrite_slot s (di_records ?d ! ?j)"] exI [of _ False])
        (auto simp: apply_create_def Let_def target_slot_def put_record_def overwrite_slot_def vec_get_def same_bases_def)
  qed
qed

lemma apply_rename_writes:
  assumes "fc_filename c \<noteq> []" and "compact_slot (ps_drive st) (fc_frs c) < length (di_records (ps_drive st))"
    and "compact_slot (ps_drive st) (fc_frs c) \<noteq> u32_max"
  shows "written lower c st (apply_rename lower c (compact_slot (ps_drive st) (fc_frs c)) st)"
proof -
  let ?d = "ps_drive st" and ?j = "compact_slot (ps_drive st) (fc_frs c)"
  obtain e d1 where i: "intern_extension lower (fc_filename c) ?d = (e, d1)" by fastforce
  from intern_extension_frame [OF this] obtain xs where d1: "d1 = ?d\<lparr>di_ext_names := di_ext_names ?d @ xs\<rparr>" ..
  let ?r = "renamed_record c (length (di_names ?d)) e (compact_slot ?d (fc_parent_frs c)) (di_records ?d ! ?j)"
  show ?thesis unfolding written_def using assms
    by (intro exI [of _ ?r] exI [of _ "is_directory_record ?r"])
      (auto simp: apply_rename_def i d1 Let_def target_slot_def put_record_def renamed_record_def vec_get_def same_bases_def split: option.split)
qed

lemma apply_change_writes:
  assumes "table_ok (ps_drive st)" and "length (di_records (ps_drive st)) < u32_max" and "must_write (ps_drive st) c"
  shows "written lower c st (apply_change lower c st)"
  using assms(3) compact_slot_ok [OF assms(1), of "fc_frs c"] apply_create_writes [OF assms(2), of c lower] apply_rename_writes [of c st lower]
  by (auto simp: must_write_def apply_change_def Let_def)

section \<open>The whole batch\<close>

lemma written_tracked:
  assumes "written lower c st st'" and "must_write (ps_drive st) c" and "tracked d (ps_drive st) (ps_path_changes st) (ps_tombstones st)"
    and "room (Suc n) (length (fc_filename c) + b) (ps_drive st)"
  shows "tracked d (ps_drive st') (ps_path_changes st') (ps_tombstones st') \<and> room n b (ps_drive st')"
proof -
  let ?d = "ps_drive st" and ?d' = "ps_drive st'"
  let ?j = "target_slot ?d c"
  from assms(1) obtain r sub where w: "same_bases ?d ?d'" "di_fold ?d' = di_fold ?d" "di_names ?d' = di_names ?d @ fc_filename c"
    "di_records ?d' = put_record ?j r (di_records ?d)" "cr_name_offset r = len_to_u32 (length (di_names ?d))"
    "cr_name_len r = len_to_u16 (length (fc_filename c))" "cr_parent_idx r = compact_slot ?d (fc_parent_frs c)"
    "di_frs_to_compact ?d' = (if compact_slot ?d (fc_frs c) = u32_max
       then register_frs (frs_to_usize (fc_frs c)) ?j (di_frs_to_compact ?d) else di_frs_to_compact ?d)"
    "ps_path_changes st' = ps_path_changes st @ [\<lparr>pc_idx = ?j, pc_subtree = sub\<rparr>]"
    "set (ps_tombstones st') \<subseteq> insert ?j (set (ps_tombstones st))"
    by (auto simp: written_def Let_def)
  from assms(3) have ok: "table_ok ?d" "names_ok ?d" by (auto simp: tracked_def)
  note slot = compact_slot_ok [OF ok(1)]
  have j: "?j \<le> length (di_records ?d)" using slot [of "fc_frs c"] by (auto simp: target_slot_def)
  have len: "length (di_records ?d') \<ge> length (di_records ?d)" "?j < length (di_records ?d')"
    using j by (simp_all add: w(4) put_record_length)
  have "list_all (\<lambda>c. c = u32_max \<or> c < length (di_records ?d')) (di_frs_to_compact ?d)"
    using ok(1) len(1) by (auto simp: table_ok_def list_all_length)
  then have tab: "table_ok ?d'"
    using len(2) unfolding table_ok_def w(8) by (auto intro: register_frs_ok)
  have nl: "cr_name_len r \<noteq> 0" "cr_name_len r \<le> u16_max" "cr_name_len r \<le> length (fc_filename c)"
    using assms(2) by (simp_all add: w(6) len_to_u16_def must_write_def u16_max_def)
  moreover have "cr_name_offset r + cr_name_len r \<le> length (di_names ?d')"
    using assms(4) nl(3) by (simp add: w(3,5) room_def len_to_u32_def)
  ultimately have "tracked d ?d' (ps_path_changes st') (ps_tombstones st')"
    unfolding w(9) using tracked_put [OF assms(3) j w(1-4) tab _ nl(1,2) _ w(10)] slot [of "fc_parent_frs c"] w(7) by simp
  with room_put [OF assms(4) ok(2) w(2,3,4) nl(3)] show ?thesis by simp
qed

lemma cleared_tracked:
  assumes "cleared c st st'" and "must_clear (ps_drive st) c" and "tracked d (ps_drive st) (ps_path_changes st) (ps_tombstones st)"
    and "room (Suc n) (k + b) (ps_drive st)"
  shows "tracked d (ps_drive st') (ps_path_changes st') (ps_tombstones st') \<and> room n b (ps_drive st')"
proof -
  let ?d = "ps_drive st" and ?d' = "ps_drive st'"
  let ?j = "compact_slot ?d (fc_frs c)"
  from assms(1) have w: "same_bases ?d ?d'" "di_fold ?d' = di_fold ?d" "di_names ?d' = di_names ?d"
    "di_records ?d' = (di_records ?d)[?j := (di_records ?d ! ?j)\<lparr>cr_name_len := 0, cr_parent_idx := u32_max\<rparr>]"
    "di_frs_to_compact ?d' = (di_frs_to_compact ?d)[frs_to_usize (fc_frs c) := u32_max]"
    "ps_path_changes st' = ps_path_changes st" "ps_tombstones st' = ps_tombstones st @ [?j]"
    by (simp_all add: cleared_def Let_def)
  from assms(3) have ok: "table_ok ?d" by (auto simp: tracked_def)
  have j: "?j < length (di_records ?d)" using compact_slot_ok [OF ok, of "fc_frs c"] assms(2) by (auto simp: must_clear_def)
  have "table_ok ?d'" using ok by (auto simp: table_ok_def w(4,5) list_all_iff dest!: set_update_subset_insert [THEN subsetD])
  from tracked_kill [OF assms(3) j w(1-3) this w(4)] room_kill [OF assms(4) w(2,3) j w(4)] show ?thesis
    by (simp add: w(6,7))
qed

definition batch_bytes :: "file_change list \<Rightarrow> nat" where
  "batch_bytes cs = sum_list (map (\<lambda>c. length (fc_filename c)) cs)"

lemma apply_change_tracked:
  assumes "tracked d (ps_drive st) (ps_path_changes st) (ps_tombstones st)" and "room (Suc n) (length (fc_filename c) + b) (ps_drive st)"
  shows "tracked d (ps_drive (apply_change lower c st)) (ps_path_changes (apply_change lower c st)) (ps_tombstones (apply_change lower c st))
    \<and> room n b (ps_drive (apply_change lower c st))"
proof -
  have ok: "table_ok (ps_drive st)" using assms(1) by (simp add: tracked_def)
  consider (w) "must_write (ps_drive st) c" | (k) "must_clear (ps_drive st) c"
    | (s) "\<not> must_write (ps_drive st) c" "\<not> must_clear (ps_drive st) c" by blast
  then show ?thesis
  proof cases
    case w
    have "length (di_records (ps_drive st)) < u32_max" using assms(2) by (simp add: room_def)
    from written_tracked [OF apply_change_writes [OF ok this w] w assms] show ?thesis .
  next
    case k
    from cleared_tracked [OF apply_change_clears [OF ok k] k assms] show ?thesis .
  next
    case s
    from apply_change_skips [OF this] assms room_less show ?thesis by (simp add: skip_change_def)
  qed
qed

lemma apply_fold_tracked:
  "tracked d (ps_drive st) (ps_path_changes st) (ps_tombstones st) \<Longrightarrow> room (length cs + n) (batch_bytes cs + b) (ps_drive st) \<Longrightarrow>
   tracked d (ps_drive (fold (apply_change lower) cs st)) (ps_path_changes (fold (apply_change lower) cs st))
     (ps_tombstones (fold (apply_change lower) cs st)) \<and> room n b (ps_drive (fold (apply_change lower) cs st))"
proof (induction cs arbitrary: st)
  case (Cons c cs)
  from apply_change_tracked [OF Cons.prems(1), of "length cs + n" c "batch_bytes cs + b" lower] Cons.prems(2) Cons.IH
  show ?case by (simp add: batch_bytes_def add.assoc)
qed (simp add: batch_bytes_def)

lemma order_parent_first_sizes:
  "length (order_parent_first changes) = length changes" "batch_bytes (order_parent_first changes) = batch_bytes changes"
  using mset_eq_length [OF order_parent_first_keeps]
    arg_cong [OF order_parent_first_keeps, of "\<lambda>m. sum_mset (image_mset (\<lambda>c. length (fc_filename c)) m)"]
  by (simp_all add: batch_bytes_def flip: sum_mset_sum_list)

lemma apply_changes_tracked:
  assumes "index_inv d" and "table_ok d" and "names_ok d" and "room (length changes) (batch_bytes changes) d"
  shows "tracked d (ps_drive (apply_changes lower changes d)) (ps_path_changes (apply_changes lower changes d)) (ps_tombstones (apply_changes lower changes d))
    \<and> room 0 0 (ps_drive (apply_changes lower changes d))"
proof -
  from order_parent_first_sizes apply_fold_tracked [of d "patch_start d" "order_parent_first changes" 0 0 lower] tracked_start [OF assms(1-3)] assms(4)
  show ?thesis by (simp add: apply_changes_def patch_start_def)
qed

section \<open>Overlay and path lengths\<close>

lemma strip_pl_map:
  assumes "strip_pl rs' = strip_pl rs" and "\<And>r. g (r\<lparr>cr_path_len := 0\<rparr>) = g r"
  shows "map g rs' = map g rs"
proof -
  have "map g rs = map g (strip_pl rs)" for rs using assms(2) by (simp add: strip_pl_def)
  then show ?thesis by (metis assms(1))
qed

lemma index_inv_strip:
  assumes "index_inv d" and "strip_pl rs = strip_pl (di_records d)"
  shows "index_inv (d\<lparr>di_records := rs\<rparr>)"
proof -
  let ?d = "d\<lparr>di_records := rs\<rparr>" and ?rs = "di_records d"
  have len: "length rs = length ?rs" by (rule strip_pl_length [OF assms(2)])
  have lv: "live rs = live ?rs" by (rule live_strip [OF assms(2)])
  have fold: "folded_name t names (r\<lparr>cr_path_len := 0\<rparr>) = folded_name t names r"
    "record_trigrams t names (r\<lparr>cr_path_len := 0\<rparr>) = record_trigrams t names r" for t names r
    by (simp_all add: folded_name_def record_trigrams_def)
  have fits: "index_fits ?d = index_fits d"
    using strip_pl_map [OF assms(2), of "\<lambda>r. length (record_trigrams (di_fold d) (di_names d) r)"] len by (simp add: index_fits_def fold)
  have links: "links_ok rs = links_ok ?rs"
    using strip_pl_fields(1,2) [OF assms(2)] len by (simp add: links_ok_def list_all_length)
  have names: "folded_name t names (rs ! i) = folded_name t names (?rs ! i)" if "i < length ?rs" for t names i
    using name_fields_only [of "rs ! i" "?rs ! i"] strip_pl_fields [OF assms(2) that] by blast
  then have post: "trigram_posting t names rs k = trigram_posting t names ?rs k" for t names k
    by (auto simp: trigram_posting_def len intro: filter_cong)
  have "extension_build rs = extension_build ?rs" "children_build rs = children_build ?rs"
    using strip_pl_map [OF assms(2), of extension_key] strip_pl_map [OF assms(2), of child_key] strip_pl_map [OF assms(2), of cr_extension_id]
    by (simp_all add: children_build_def extension_build_def child_key_def extension_key_def max_extension_id_def len)
  then have fresh: "bases_fresh ?d = bases_fresh d" by (simp add: bases_fresh_def post selective_def len)
  have cov: "covered ?d delta i = covered d delta i" if "i < length ?rs" for delta i
    using strip_pl_fields [OF assms(2) that] names [OF that] by (simp add: covered_def name_trigrams_def Let_def)
  have "(\<forall>i. live rs i \<longrightarrow> covered ?d delta i) = (\<forall>i. live ?rs i \<longrightarrow> covered d delta i)" for delta
    using cov by (auto simp: lv live_def)
  with assms(1) fits links fresh show ?thesis by (auto simp: index_inv_def bases_ascending_def split: option.splits)
qed

lemma rebuild_derived_total:
  assumes "index_inv d" and "tracked d d1 adds tombs" and "names_ok d" and "room 0 0 d1"
    and "links_ranked rank (di_records d1)" and "\<forall>st. set (sched st) = set st"
  shows "\<exists>b d2. rebuild_derived sched adds tombs d1 = Some (b, d2) \<and> index_inv d2 \<and> strip_pl (di_records d2) = strip_pl (di_records d1)
    \<and> di_names d2 = di_names d1 \<and> di_fold d2 = di_fold d1 \<and> di_ext_names d2 = di_ext_names d1 \<and> di_frs_to_compact d2 = di_frs_to_compact d1"
proof -
  from assms(2) have tr: "same_bases d d1" "links_ok (di_records d1)" "names_ok d1" by (simp_all add: tracked_def)
  from apply_index_delta_inv [OF assms(1) tr(1) room_fits [OF assms(4)] tr(2) tracked_noted [OF assms(2,3)] assms(6)]
  obtain b d2 where d2: "apply_index_delta sched adds tombs d1 = Some (b, d2)" "index_inv d2" "same_records d1 d2" by blast
  then have same: "di_records d2 = di_records d1" "di_names d2 = di_names d1" by (simp_all add: same_records_def)
  have n: "length (di_records d1) \<le> u32_max" "\<forall>r \<in> set (di_records d1). cr_name_len r \<le> u16_max"
    using assms(4) tr(3) by (simp_all add: room_def names_ok_def list_all_iff)
  obtain rs where rs: "(if length adds > FULL_PATH_RECOMPUTE_THRESHOLD then compute_path_lengths (di_records d2) (di_names d2)
      else update_path_lengths_incremental (di_names d2) (di_children d2) (di_delta d2) adds (di_records d2)) = Some rs"
    "strip_pl rs = strip_pl (di_records d2)"
  proof -
    have "\<exists>rs. compute_path_lengths (di_records d2) (di_names d2) = Some rs \<and> strip_pl rs = strip_pl (di_records d2)"
      using compute_settles [OF tr(2) assms(5) n, of "di_names d1"] by (auto simp: same)
    moreover have "\<exists>rs. update_path_lengths_incremental (di_names d2) (di_children d2) (di_delta d2) adds (di_records d2) = Some rs
        \<and> strip_pl rs = strip_pl (di_records d2)"
      using incremental_total [OF d2(2), of rank "di_records d2" "di_names d2" adds] assms(5) by (simp add: same)
    ultimately show thesis by (cases "length adds > FULL_PATH_RECOMPUTE_THRESHOLD") (auto intro: that)
  qed
  have "rebuild_derived sched adds tombs d1 = Some (b, d2\<lparr>di_records := rs\<rparr>)"
    using rs(1) by (simp add: rebuild_derived_def d2(1))
  with index_inv_strip [OF d2(2) rs(2)] rs(2) d2(3) show ?thesis by (simp add: same_records_def)
qed

definition drive_ok :: "drive_index \<Rightarrow> bool" where
  "drive_ok d \<longleftrightarrow> index_inv d \<and> table_ok d \<and> names_ok d"

lemma drive_ok_strip:
  assumes "table_ok d1" and "names_ok d1" and "strip_pl (di_records d2) = strip_pl (di_records d1)" and "di_names d2 = di_names d1"
    and "di_frs_to_compact d2 = di_frs_to_compact d1" and "index_inv d2"
  shows "drive_ok d2"
  using assms strip_pl_length [OF assms(3)] strip_pl_fields [OF assms(3)]
  by (auto simp: drive_ok_def table_ok_def names_ok_def list_all_length)

lemma usn_patch_total:
  assumes "drive_ok d" and "room (length changes) (batch_bytes changes) d" and "\<forall>st. set (sched st) = set st"
    and "links_ranked rank (di_records (ps_drive (apply_changes lower changes d)))"
  shows "\<exists>d'. apply_usn_patch sched lower changes d = Some (ps_stats (apply_changes lower changes d), d') \<and> drive_ok d'
    \<and> strip_pl (di_records d') = strip_pl (di_records (ps_drive (apply_changes lower changes d)))
    \<and> di_names d' = di_names (ps_drive (apply_changes lower changes d))
    \<and> di_frs_to_compact d' = di_frs_to_compact (ps_drive (apply_changes lower changes d))
    \<and> di_ext_names d' = di_ext_names (ps_drive (apply_changes lower changes d))"
proof -
  let ?st = "apply_changes lower changes d"
  from assms(1) have inv: "index_inv d" "table_ok d" "names_ok d" by (simp_all add: drive_ok_def)
  from apply_changes_tracked [OF inv assms(2)] have tr: "tracked d (ps_drive ?st) (ps_path_changes ?st) (ps_tombstones ?st)" "room 0 0 (ps_drive ?st)"
    by simp_all
  from rebuild_derived_total [OF inv(1) tr(1) inv(3) tr(2) assms(4,3)] obtain b d' where
    d': "rebuild_derived sched (ps_path_changes ?st) (ps_tombstones ?st) (ps_drive ?st) = Some (b, d')" "index_inv d'"
    "strip_pl (di_records d') = strip_pl (di_records (ps_drive ?st))" "di_names d' = di_names (ps_drive ?st)"
    "di_frs_to_compact d' = di_frs_to_compact (ps_drive ?st)" "di_ext_names d' = di_ext_names (ps_drive ?st)" by blast
  moreover have "drive_ok d'" using drive_ok_strip [OF _ _ d'(3,4,5,2)] tr(1) by (simp add: tracked_def)
  ultimately show ?thesis by (simp add: apply_usn_patch_def Let_def)
qed

text \<open>
  C2. A journal batch keeps the index exact. On a drive in order, with room for the batch, and unless
  the batch leaves a cycle of parent links, applying it returns; the drive is in order again, and every
  extension query and every child query gives exactly the live records that the record mutations left.
\<close>

theorem usn_patch_keeps_queries_exact:
  assumes "drive_ok d" and "room (length changes) (batch_bytes changes) d" and "\<forall>st. set (sched st) = set st"
    and "links_ranked rank (di_records (ps_drive (apply_changes lower changes d)))"
  shows "\<exists>stats d'. apply_usn_patch sched lower changes d = Some (stats, d') \<and> drive_ok d'
    \<and> strip_pl (di_records d') = strip_pl (di_records (ps_drive (apply_changes lower changes d)))
    \<and> (\<forall>e. records_with_ext d' e = filter (\<lambda>i. live (di_records d') i \<and> cr_extension_id (di_records d' ! i) = e) [0..<length (di_records d')])
    \<and> (\<forall>p < u32_max. for_each_child d' p = filter (\<lambda>i. live (di_records d') i \<and> cr_parent_idx (di_records d' ! i) = p) [0..<length (di_records d')])"
  using usn_patch_total [OF assms] records_with_ext_exact for_each_child_exact by (fastforce simp: drive_ok_def)

lemma demo_batch_order: "order_parent_first [demo_create 2 1, demo_create 1 0] = [demo_create 1 0, demo_create 2 1]"
  by (simp add: order_parent_first_def waits_for_def note_create_def demo_create_def file_change_new_def release.simps)

lemma demo_create_fields [simp]:
  "fc_frs (demo_create frs par) = frs" "fc_parent_frs (demo_create frs par) = par" "fc_filename (demo_create frs par) = [0x61]"
  "fc_created (demo_create frs par)" "\<not> fc_deleted (demo_create frs par)" "\<not> fc_renamed (demo_create frs par)"
  "fc_meta (demo_create frs par) = None"
  by (simp_all add: demo_create_def file_change_new_def)

lemma demo_intern: "intern_extension id [0x61] d = (0, d)"
  by (simp add: intern_extension_def)

lemma demo_usize: "frs_to_usize 0 = 0" "frs_to_usize (Suc 0) = Suc 0" "frs_to_usize 2 = 2"
  by (simp_all add: frs_to_usize_def u64_max_def)

lemma demo_register:
  "register_frs (Suc 0) 0 [] = [u32_max, 0]" "register_frs 2 (Suc 0) [u32_max, 0] = [u32_max, 0, Suc 0]"
proof -
  have "u64_sat_add (Suc 0) 1 = 2" "u64_sat_add 2 1 = 3" by (simp_all add: u64_sat_add_def u64_max_def)
  then show "register_frs (Suc 0) 0 [] = [u32_max, 0]" "register_frs 2 (Suc 0) [u32_max, 0] = [u32_max, 0, Suc 0]"
    by (simp_all add: register_frs_def numeral_2_eq_2 numeral_3_eq_3 Let_def)
qed

lemma demo_after_first:
  "\<exists>r. ps_drive (apply_change id (demo_create 1 0) (patch_start demo_drive)) =
     demo_drive\<lparr>di_records := [r], di_names := [0x61], di_frs_to_compact := [u32_max, 0]\<rparr> \<and> cr_parent_idx r = u32_max"
  by (simp add: apply_change_def apply_create_def stage_create_def demo_intern demo_usize demo_register Let_def compact_slot_def patch_start_def
      demo_drive_def new_record_def len_to_u32_def vec_get_def)

lemma demo_patch_links:
  "\<exists>r s. di_records (ps_drive (apply_changes id [demo_create 2 1, demo_create 1 0] demo_drive)) = [r, s]
     \<and> cr_parent_idx r = u32_max \<and> cr_parent_idx s = 0"
proof -
  let ?st = "apply_change id (demo_create 1 0) (patch_start demo_drive)"
  obtain r where r: "ps_drive ?st = demo_drive\<lparr>di_records := [r], di_names := [0x61], di_frs_to_compact := [u32_max, 0]\<rparr>" "cr_parent_idx r = u32_max"
    using demo_after_first by blast
  have "apply_changes id [demo_create 2 1, demo_create 1 0] demo_drive = apply_change id (demo_create 2 1) ?st"
    by (simp add: apply_changes_def demo_batch_order del: One_nat_def)
  with r show ?thesis
    by (simp add: apply_change_def [of _ "demo_create 2 (Suc 0)"] apply_create_def stage_create_def demo_intern demo_usize Let_def compact_slot_def new_record_def
        vec_get_def len_to_u32_def)
qed

lemma demo_patch_ready:
  "drive_ok demo_drive" "room (length [demo_create 2 1, demo_create 1 0]) (batch_bytes [demo_create 2 1, demo_create 1 0]) demo_drive"
  "links_ranked id (di_records (ps_drive (apply_changes id [demo_create 2 1, demo_create 1 0] demo_drive)))"
proof -
  show "drive_ok demo_drive" using demo_drive_inv by (simp add: drive_ok_def table_ok_def names_ok_def demo_drive_def)
  show "room (length [demo_create 2 1, demo_create 1 0]) (batch_bytes [demo_create 2 1, demo_create 1 0]) demo_drive"
    by (simp add: room_def batch_bytes_def demo_drive_def trigram_load_def u32_max_def)
  show "links_ranked id (di_records (ps_drive (apply_changes id [demo_create 2 1, demo_create 1 0] demo_drive)))"
    using demo_patch_links by (auto simp: links_ranked_def less_Suc_eq u32_max_def)
qed

theorem usn_patch_keeps_queries_exact_witness:
  "\<exists>stats d'. apply_usn_patch rev id [demo_create 2 1, demo_create 1 0] demo_drive = Some (stats, d') \<and> length (di_records d') = 2 \<and> drive_ok d'"
proof -
  obtain stats d' where "apply_usn_patch rev id [demo_create 2 1, demo_create 1 0] demo_drive = Some (stats, d')" "drive_ok d'"
    "strip_pl (di_records d') = strip_pl (di_records (ps_drive (apply_changes id [demo_create 2 1, demo_create 1 0] demo_drive)))"
    using usn_patch_keeps_queries_exact [OF demo_patch_ready(1,2) _ demo_patch_ready(3), of rev] by auto
  moreover have "length (di_records d') = 2" using demo_patch_links strip_pl_length [OF calculation(3)] by auto
  ultimately show ?thesis by blast
qed

section \<open>The effect on the files\<close>

text \<open>What the drive says of a file: its name and the slot of its parent.\<close>

definition entry_of :: "drive_index \<Rightarrow> nat \<Rightarrow> (bytes \<times> nat) option" where
  "entry_of d frs = (let j = compact_slot d frs in
     if j = u32_max then None else Some (record_name (di_records d ! j) (di_names d), cr_parent_idx (di_records d ! j)))"

text \<open>No two files share a slot.\<close>

definition table_inj :: "drive_index \<Rightarrow> bool" where
  "table_inj d \<longleftrightarrow> (\<forall>f g. compact_slot d f \<noteq> u32_max \<longrightarrow> compact_slot d f = compact_slot d g \<longrightarrow> frs_to_usize f = frs_to_usize g)"

lemma table_injD: "table_inj d \<Longrightarrow> compact_slot d f \<noteq> u32_max \<Longrightarrow> compact_slot d f = compact_slot d g \<Longrightarrow> frs_to_usize f = frs_to_usize g"
  unfolding table_inj_def by blast

lemma compact_slot_register:
  assumes "frs_to_usize frs < u64_max" and "di_frs_to_compact d' = register_frs (frs_to_usize frs) j (di_frs_to_compact d)"
  shows "compact_slot d' f = (if frs_to_usize f = frs_to_usize frs then j else compact_slot d f)"
proof -
  let ?t = "di_frs_to_compact d" and ?k = "frs_to_usize frs"
  let ?g = "if ?k \<ge> length ?t then ?t @ replicate (Suc ?k - length ?t) u32_max else ?t"
  have eq: "di_frs_to_compact d' = ?g[?k := j]" "?k < length ?g"
    using assms by (auto simp: register_frs_def Let_def u64_sat_add_def)
  have "compact_slot d' f = (if frs_to_usize f < length ?g then if frs_to_usize f = ?k then j else ?g ! frs_to_usize f else u32_max)"
    by (simp add: compact_slot_def vec_get_def eq(1) nth_list_update split: if_splits)
  also have "\<dots> = (if frs_to_usize f = ?k then j else compact_slot d f)"
    using eq(2) by (auto simp: compact_slot_def vec_get_def nth_append)
  finally show ?thesis .
qed

lemma compact_slot_clear:
  assumes "di_frs_to_compact d' = (di_frs_to_compact d)[frs_to_usize frs := u32_max]"
  shows "compact_slot d' f = (if frs_to_usize f = frs_to_usize frs then u32_max else compact_slot d f)"
  using assms by (auto simp: compact_slot_def vec_get_def nth_list_update)

text \<open>The slots after one change, whatever it is.\<close>

lemma slots_after:
  assumes "table_ok (ps_drive st)" and "length (di_records (ps_drive st)) < u32_max" and "frs_to_usize (fc_frs c) < u64_max"
  shows "compact_slot (ps_drive (apply_change lower c st)) f =
    (if frs_to_usize f = frs_to_usize (fc_frs c) then
       (if must_write (ps_drive st) c then target_slot (ps_drive st) c
        else if must_clear (ps_drive st) c then u32_max else compact_slot (ps_drive st) f)
     else compact_slot (ps_drive st) f)"
proof -
  let ?d = "ps_drive st" and ?d' = "ps_drive (apply_change lower c st)"
  have same: "compact_slot ?d f = compact_slot ?d (fc_frs c)" if "frs_to_usize f = frs_to_usize (fc_frs c)" using that by (simp add: compact_slot_def)
  consider (w) "must_write ?d c" | (k) "must_clear ?d c" "\<not> must_write ?d c" | (s) "\<not> must_write ?d c" "\<not> must_clear ?d c" by blast
  then show ?thesis
  proof cases
    case w
    from apply_change_writes [OF assms(1,2) w, of lower] have t: "di_frs_to_compact ?d' = (if compact_slot ?d (fc_frs c) = u32_max
        then register_frs (frs_to_usize (fc_frs c)) (target_slot ?d c) (di_frs_to_compact ?d) else di_frs_to_compact ?d)"
      by (auto simp: written_def Let_def)
    show ?thesis
    proof (cases "compact_slot ?d (fc_frs c) = u32_max")
      case True
      with t w compact_slot_register [OF assms(3), of ?d' "target_slot ?d c" ?d f] show ?thesis by simp
    next
      case False
      with t have "compact_slot ?d' f = compact_slot ?d f" by (simp add: compact_slot_def)
      with False w same show ?thesis by (simp add: target_slot_def)
    qed
  next
    case k
    from apply_change_clears [OF assms(1) k(1), of lower] have "di_frs_to_compact ?d' = (di_frs_to_compact ?d)[frs_to_usize (fc_frs c) := u32_max]"
      by (simp add: cleared_def Let_def)
    from compact_slot_clear [OF this, of f] k show ?thesis by simp
  next
    case s
    with apply_change_skips [OF s] same show ?thesis by (simp add: skip_change_def)
  qed
qed

lemma table_inj_after:
  assumes "table_inj (ps_drive st)" and "table_ok (ps_drive st)" and "length (di_records (ps_drive st)) < u32_max" and "frs_to_usize (fc_frs c) < u64_max"
  shows "table_inj (ps_drive (apply_change lower c st))"
proof -
  let ?d = "ps_drive st"
  note s = slots_after [OF assms(2-4), of lower]
  have fresh: "compact_slot ?d f \<noteq> target_slot ?d c \<or> compact_slot ?d f = u32_max"
    if "frs_to_usize f \<noteq> frs_to_usize (fc_frs c)" for f
    using that table_injD [OF assms(1), of f "fc_frs c"] compact_slot_ok [OF assms(2), of f] by (auto simp: target_slot_def)
  have "frs_to_usize f = frs_to_usize g"
    if "compact_slot (ps_drive (apply_change lower c st)) f \<noteq> u32_max"
      "compact_slot (ps_drive (apply_change lower c st)) f = compact_slot (ps_drive (apply_change lower c st)) g" for f g
  proof -
    have inj: "frs_to_usize f = frs_to_usize g" if "compact_slot ?d f \<noteq> u32_max" "compact_slot ?d f = compact_slot ?d g" for f g
      using table_injD [OF assms(1) that] .
    from that fresh [of f] fresh [of g] inj [of f g] show ?thesis
      unfolding s by (cases "frs_to_usize f = frs_to_usize (fc_frs c)"; cases "frs_to_usize g = frs_to_usize (fc_frs c)") (simp_all split: if_splits)
  qed
  then show ?thesis unfolding table_inj_def by blast
qed

lemma record_name_grown:
  assumes "cr_name_len r \<noteq> 0" and "cr_name_offset r + cr_name_len r \<le> length names"
  shows "record_name r (names @ f) = record_name r names"
  using assms by (simp add: record_name_def name_bytes_def Let_def u64_sat_add_def slice_get_grown)

text \<open>A change leaves the entry of every other file as it is.\<close>

definition slots_live :: "drive_index \<Rightarrow> bool" where
  "slots_live d \<longleftrightarrow> (\<forall>f. compact_slot d f \<noteq> u32_max \<longrightarrow> live (di_records d) (compact_slot d f))"

lemma other_record:
  assumes "table_inj (ps_drive st)" and "table_ok (ps_drive st)" and "length (di_records (ps_drive st)) < u32_max"
    and "frs_to_usize f \<noteq> frs_to_usize (fc_frs c)" and "compact_slot (ps_drive st) f \<noteq> u32_max"
  shows "di_records (ps_drive (apply_change lower c st)) ! compact_slot (ps_drive st) f = di_records (ps_drive st) ! compact_slot (ps_drive st) f
    \<and> compact_slot (ps_drive st) f < length (di_records (ps_drive (apply_change lower c st)))
    \<and> (\<exists>g. di_names (ps_drive (apply_change lower c st)) = di_names (ps_drive st) @ g)"
proof -
  let ?d = "ps_drive st" and ?d' = "ps_drive (apply_change lower c st)" and ?j = "compact_slot (ps_drive st) f"
  have j: "?j < length (di_records ?d)" using compact_slot_ok [OF assms(2), of f] assms(5) by blast
  have ne: "?j \<noteq> compact_slot ?d (fc_frs c)" using table_injD [OF assms(1,5), of "fc_frs c"] assms(4) by blast
  consider (w) "must_write ?d c" | (k) "must_clear ?d c" | (s) "\<not> must_write ?d c" "\<not> must_clear ?d c" by blast
  then show ?thesis
  proof cases
    case w
    have t: "target_slot ?d c \<le> length (di_records ?d)" using compact_slot_ok [OF assms(2), of "fc_frs c"] by (auto simp: target_slot_def)
    from apply_change_writes [OF assms(2,3) w, of lower] obtain r where
      "di_records ?d' = put_record (target_slot ?d c) r (di_records ?d)" "di_names ?d' = di_names ?d @ fc_filename c"
      by (auto simp: written_def Let_def)
    moreover have "?j \<noteq> target_slot ?d c" using ne j by (auto simp: target_slot_def)
    ultimately show ?thesis using j put_record_nth [OF t, of ?j r] put_record_length [of "target_slot ?d c" r "di_records ?d"] by simp
  next
    case k
    with apply_change_clears [OF assms(2) k, of lower] ne j show ?thesis by (simp add: cleared_def Let_def)
  next
    case s
    with apply_change_skips [OF s] j show ?thesis by (simp add: skip_change_def)
  qed
qed

lemma entry_other:
  assumes "table_inj (ps_drive st)" and "table_ok (ps_drive st)" and "names_ok (ps_drive st)" and "slots_live (ps_drive st)"
    and "length (di_records (ps_drive st)) < u32_max" and "frs_to_usize (fc_frs c) < u64_max" and "frs_to_usize f \<noteq> frs_to_usize (fc_frs c)"
  shows "entry_of (ps_drive (apply_change lower c st)) f = entry_of (ps_drive st) f"
proof (cases "compact_slot (ps_drive st) f = u32_max")
  case True
  then show ?thesis using slots_after [OF assms(2,5,6), of lower f] assms(7) by (simp add: entry_of_def)
next
  case False
  let ?d = "ps_drive st"
  let ?r = "di_records ?d ! compact_slot ?d f"
  from assms(3,4) False have "cr_name_len ?r \<noteq> 0" "cr_name_offset ?r + cr_name_len ?r \<le> length (di_names ?d)"
    by (auto simp: slots_live_def live_def names_ok_def list_all_length)
  from record_name_grown [OF this] other_record [OF assms(1,2,5,7) False, of lower] slots_after [OF assms(2,5,6), of lower f] assms(7) False
  show ?thesis by (auto simp: entry_of_def)
qed

lemma slots_live_after:
  assumes "table_inj (ps_drive st)" and "table_ok (ps_drive st)" and "slots_live (ps_drive st)"
    and "length (di_records (ps_drive st)) < u32_max" and "frs_to_usize (fc_frs c) < u64_max"
  shows "slots_live (ps_drive (apply_change lower c st))"
proof -
  let ?d = "ps_drive st" and ?d' = "ps_drive (apply_change lower c st)"
  note s = slots_after [OF assms(2,4,5), of lower]
  have "live (di_records ?d') (compact_slot ?d' f)" if f: "compact_slot ?d' f \<noteq> u32_max" for f
  proof (cases "frs_to_usize f = frs_to_usize (fc_frs c)")
    case False
    then have "compact_slot ?d' f = compact_slot ?d f" by (simp add: s)
    with other_record [OF assms(1,2,4) False, of lower] assms(3) f show ?thesis by (auto simp: slots_live_def live_def)
  next
    case True
    consider (w) "must_write ?d c" | (k) "must_clear ?d c" "\<not> must_write ?d c" | (n) "\<not> must_write ?d c" "\<not> must_clear ?d c" by blast
    then show ?thesis
    proof cases
      case w
      have t: "target_slot ?d c \<le> length (di_records ?d)" using compact_slot_ok [OF assms(2), of "fc_frs c"] by (auto simp: target_slot_def)
      from apply_change_writes [OF assms(2,4) w, of lower] obtain r where
        r: "di_records ?d' = put_record (target_slot ?d c) r (di_records ?d)" "cr_name_len r = len_to_u16 (length (fc_filename c))"
        by (auto simp: written_def Let_def)
      have "cr_name_len r \<noteq> 0" using w r(2) by (simp add: must_write_def len_to_u16_def u16_max_def)
      with r(1) True w t put_record_nth [OF t, of "target_slot ?d c" r] show ?thesis
        by (simp add: s live_def put_record_length)
    next
      case k
      with f True show ?thesis by (simp add: s)
    next
      case n
      with apply_change_skips [OF n] f assms(3) show ?thesis by (simp add: skip_change_def slots_live_def)
    qed
  qed
  then show ?thesis by (simp add: slots_live_def)
qed

definition in_step :: "drive_index \<Rightarrow> nat \<Rightarrow> nat \<Rightarrow> patch_state \<Rightarrow> bool" where
  "in_step d n b st \<longleftrightarrow> tracked d (ps_drive st) (ps_path_changes st) (ps_tombstones st) \<and> room n b (ps_drive st)
     \<and> table_inj (ps_drive st) \<and> slots_live (ps_drive st)"

lemma in_stepD:
  assumes "in_step d (Suc n) b st"
  shows "table_inj (ps_drive st)" and "table_ok (ps_drive st)" and "names_ok (ps_drive st)" and "slots_live (ps_drive st)"
    and "length (di_records (ps_drive st)) < u32_max"
  using assms by (simp_all add: in_step_def tracked_def room_def)

lemma in_step_change:
  assumes "in_step d (Suc n) (length (fc_filename c) + b) st" and "frs_to_usize (fc_frs c) < u64_max"
  shows "in_step d n b (apply_change lower c st)"
  using assms(1) apply_change_tracked [of d st n c b lower] table_inj_after [OF in_stepD(1,2,5) [OF assms(1)] assms(2), of lower]
    slots_live_after [OF in_stepD(1,2,4,5) [OF assms(1)] assms(2), of lower]
  by (simp add: in_step_def)

lemma in_step_fold:
  "in_step d (length cs + n) (batch_bytes cs + b) st \<Longrightarrow> \<forall>c \<in> set cs. frs_to_usize (fc_frs c) < u64_max \<Longrightarrow>
   in_step d n b (fold (apply_change lower) cs st)"
proof (induction cs arbitrary: st)
  case (Cons c cs)
  with in_step_change [of d "length cs + n" c "batch_bytes cs + b" st lower] show ?case by (simp add: batch_bytes_def add.assoc)
qed (simp add: batch_bytes_def)

lemma entry_fold_other:
  "in_step d (length cs + n) (batch_bytes cs + b) st \<Longrightarrow>
   \<forall>c \<in> set cs. frs_to_usize (fc_frs c) < u64_max \<and> frs_to_usize f \<noteq> frs_to_usize (fc_frs c) \<Longrightarrow>
   entry_of (ps_drive (fold (apply_change lower) cs st)) f = entry_of (ps_drive st) f"
proof (induction cs arbitrary: st)
  case (Cons c cs)
  then have st: "in_step d (Suc (length cs + n)) (length (fc_filename c) + (batch_bytes cs + b)) st" by (simp add: batch_bytes_def add.assoc)
  have "entry_of (ps_drive (apply_change lower c st)) f = entry_of (ps_drive st) f"
    using Cons.prems(2) by (intro entry_other in_stepD [OF st]) simp_all
  with Cons.IH [OF in_step_change [OF st]] Cons.prems(2) show ?case by simp
qed simp

lemma slot_fold_stable:
  "in_step d (length cs + n) (batch_bytes cs + b) st \<Longrightarrow>
   \<forall>c \<in> set cs. frs_to_usize (fc_frs c) < u64_max \<and> (frs_to_usize f = frs_to_usize (fc_frs c) \<longrightarrow> \<not> fc_deleted c \<and> \<not> fc_created c) \<Longrightarrow>
   compact_slot (ps_drive (fold (apply_change lower) cs st)) f = compact_slot (ps_drive st) f"
proof (induction cs arbitrary: st)
  case (Cons c cs)
  then have st: "in_step d (Suc (length cs + n)) (length (fc_filename c) + (batch_bytes cs + b)) st" by (simp add: batch_bytes_def add.assoc)
  have "compact_slot (ps_drive (apply_change lower c st)) f = compact_slot (ps_drive st) f"
    using Cons.prems(2) slots_after [OF in_stepD(2,5) [OF st], of c lower f]
    by (auto simp: must_write_def must_clear_def target_slot_def compact_slot_def)
  with Cons.IH [OF in_step_change [OF st]] Cons.prems(2) show ?case by simp
qed simp

lemma entry_written:
  assumes "in_step d (Suc n) (length (fc_filename c) + b) st" and "frs_to_usize (fc_frs c) < u64_max" and "must_write (ps_drive st) c"
    and "utf8_valid (fc_filename c)" and "length (fc_filename c) \<le> u16_max"
  shows "entry_of (ps_drive (apply_change lower c st)) (fc_frs c) = Some (fc_filename c, compact_slot (ps_drive st) (fc_parent_frs c))"
proof -
  let ?d = "ps_drive st" and ?d' = "ps_drive (apply_change lower c st)"
  note ok = in_stepD [OF assms(1)]
  have t: "target_slot ?d c \<le> length (di_records ?d)" using compact_slot_ok [OF ok(2), of "fc_frs c"] by (auto simp: target_slot_def)
  with ok(5) have ne: "target_slot ?d c \<noteq> u32_max" by simp
  from apply_change_writes [OF ok(2,5) assms(3), of lower] obtain r where
    r: "di_records ?d' = put_record (target_slot ?d c) r (di_records ?d)" "di_names ?d' = di_names ?d @ fc_filename c"
      "cr_name_offset r = len_to_u32 (length (di_names ?d))" "cr_name_len r = len_to_u16 (length (fc_filename c))"
      "cr_parent_idx r = compact_slot ?d (fc_parent_frs c)"
    by (auto simp: written_def Let_def)
  have small: "length (di_names ?d) + length (fc_filename c) \<le> u32_max" using assms(1) by (simp add: in_step_def room_def)
  have "slice_get (di_names ?d @ fc_filename c) (length (di_names ?d)) (length (di_names ?d) + length (fc_filename c)) = Some (fc_filename c)"
    by (simp add: slice_get_def)
  then have "name_bytes r (di_names ?d') = fc_filename c"
    using small assms(5) by (simp add: name_bytes_def r(2-4) Let_def len_to_u32_def len_to_u16_def u64_sat_add_def u32_max_def u64_max_def)
  then have "record_name r (di_names ?d') = fc_filename c" using assms(4) by (simp add: record_name_def)
  moreover have "compact_slot ?d' (fc_frs c) = target_slot ?d c" using slots_after [OF ok(2,5) assms(2), of lower "fc_frs c"] assms(3) by simp
  moreover have "di_records ?d' ! target_slot ?d c = r"
    using put_record_nth [OF t, of "target_slot ?d c" r] t by (simp add: r(1) put_record_length)
  ultimately show ?thesis using ne r(5) by (simp add: entry_of_def)
qed

text \<open>What a batch asks for one file: its entry afterwards, given the drive before and after.\<close>

definition asked_for :: "file_change list \<Rightarrow> drive_index \<Rightarrow> drive_index \<Rightarrow> file_change \<Rightarrow> bool" where
  "asked_for changes d d' c \<longleftrightarrow>
     (fc_deleted c \<longrightarrow> entry_of d' (fc_frs c) = None)
     \<and> (\<not> fc_deleted c \<and> (fc_created c \<or> fc_renamed c \<and> entry_of d (fc_frs c) \<noteq> None)
         \<and> fc_filename c \<noteq> [] \<and> utf8_valid (fc_filename c) \<and> length (fc_filename c) \<le> u16_max \<longrightarrow>
         (\<exists>p. entry_of d' (fc_frs c) = Some (fc_filename c, p)
            \<and> (fc_parent_frs c < u64_max \<and> fc_parent_frs c \<noteq> fc_frs c \<and> (\<forall>c' \<in> set changes. fc_frs c' = fc_parent_frs c \<longrightarrow> \<not> fc_deleted c')
               \<longrightarrow> p = compact_slot d' (fc_parent_frs c))))"

lemma batch_effect_one:
  assumes start: "in_step d (length (xs @ c # ys)) (batch_bytes (xs @ c # ys)) (patch_start d)"
    and small: "\<forall>c \<in> set (xs @ c # ys). fc_frs c < u64_max" and dist: "distinct (map fc_frs (xs @ c # ys))"
    and first: "parents_first (creates_of changes) {} (xs @ c # ys)" and sets: "set changes = set (xs @ c # ys)"
  shows "asked_for changes d (ps_drive (fold (apply_change lower) (xs @ c # ys) (patch_start d))) c"
proof -
  define st1 where "st1 = fold (apply_change lower) xs (patch_start d)"
  define st2 where "st2 = apply_change lower c st1"
  define st3 where "st3 = fold (apply_change lower) ys st2"
  have run: "fold (apply_change lower) (xs @ c # ys) (patch_start d) = st3" by (simp add: st1_def st2_def st3_def)
  have usz [simp]: "frs_to_usize f = f" if "f < u64_max" for f using that by (simp add: frs_to_usize_def)
  have s0: "in_step d (length xs + Suc (length ys)) (batch_bytes xs + (length (fc_filename c) + batch_bytes ys)) (patch_start d)"
    using start by (simp add: batch_bytes_def)
  then have s1: "in_step d (Suc (length ys)) (length (fc_filename c) + batch_bytes ys) st1"
    unfolding st1_def using in_step_fold [OF s0] small by simp
  then have s2: "in_step d (length ys + 0) (batch_bytes ys + 0) st2"
    unfolding st2_def using in_step_change [OF s1] small by simp
  have e1: "entry_of (ps_drive st1) (fc_frs c) = entry_of d (fc_frs c)"
    unfolding st1_def using entry_fold_other [OF s0] small dist by (simp add: patch_start_def image_iff)
  have e3: "entry_of (ps_drive st3) (fc_frs c) = entry_of (ps_drive st2) (fc_frs c)"
    unfolding st3_def using small dist by (intro entry_fold_other [OF s2]) (auto simp: image_iff)
  have known: "entry_of x f \<noteq> None \<longleftrightarrow> compact_slot x f \<noteq> u32_max" for x f by (simp add: entry_of_def Let_def)
  note after = slots_after [OF in_stepD(2,5) [OF s1], of c lower]
  have del: "entry_of (ps_drive st2) (fc_frs c) = None" if "fc_deleted c"
    using that after [of "fc_frs c"] small by (auto simp: st2_def entry_of_def must_write_def must_clear_def)
  have par: "compact_slot (ps_drive st3) (fc_parent_frs c) = compact_slot (ps_drive st1) (fc_parent_frs c)"
    if p: "fc_parent_frs c < u64_max" "fc_parent_frs c \<noteq> fc_frs c" "\<forall>c' \<in> set changes. fc_frs c' = fc_parent_frs c \<longrightarrow> \<not> fc_deleted c'"
      and w: "fc_created c \<or> fc_renamed c"
  proof -
    have "\<not> fc_created y" if y: "y \<in> set ys" "fc_frs y = fc_parent_frs c" for y
    proof
      assume "fc_created y"
      then have "fc_parent_frs c \<in> creates_of changes" using y sets by (auto simp: creates_of_def image_iff)
      moreover have "\<not> waits_for (creates_of changes) (creates_of xs) c" using first by (simp add: parents_first_append)
      ultimately have "fc_parent_frs c \<in> creates_of xs" using p(2) w by (auto simp: waits_for_def)
      then have "fc_parent_frs c \<in> fc_frs ` set xs" by (auto simp: creates_of_def)
      moreover have "fc_parent_frs c \<in> fc_frs ` set ys" using y by (metis imageI)
      ultimately show False using dist by auto
    qed
    then have "compact_slot (ps_drive st3) (fc_parent_frs c) = compact_slot (ps_drive st2) (fc_parent_frs c)"
      unfolding st3_def using small p(1,3) sets by (intro slot_fold_stable [OF s2]) auto
    also have "\<dots> = compact_slot (ps_drive st1) (fc_parent_frs c)" using after [of "fc_parent_frs c"] small p(1,2) by (simp add: st2_def)
    finally show ?thesis .
  qed
  have put: "entry_of (ps_drive st2) (fc_frs c) = Some (fc_filename c, compact_slot (ps_drive st1) (fc_parent_frs c))"
    if "must_write (ps_drive st1) c" "utf8_valid (fc_filename c)" "length (fc_filename c) \<le> u16_max"
    unfolding st2_def using entry_written [OF s1 _ that] small by simp
  show ?thesis unfolding run asked_for_def
    using del put par e3 e1 known [of "ps_drive st1" "fc_frs c"] by (auto simp: must_write_def)
qed

lemma batch_leaves_others:
  assumes "in_step d (length cs) (batch_bytes cs) (patch_start d)" and "\<forall>c \<in> set cs. fc_frs c < u64_max"
    and "f < u64_max" and "f \<notin> fc_frs ` set cs"
  shows "entry_of (ps_drive (fold (apply_change lower) cs (patch_start d))) f = entry_of d f"
proof -
  have "frs_to_usize (fc_frs c) < u64_max \<and> frs_to_usize f \<noteq> frs_to_usize (fc_frs c)" if "c \<in> set cs" for c
    using assms(2-4) that by (force simp: frs_to_usize_def)
  then have "entry_of (ps_drive (fold (apply_change lower) cs (patch_start d))) f = entry_of (ps_drive (patch_start d)) f"
    using assms(1) by (intro entry_fold_other [of d _ 0 0]) auto
  then show ?thesis by (simp add: patch_start_def)
qed

lemma entry_of_strip:
  assumes "strip_pl (di_records d2) = strip_pl (di_records d1)" and "di_names d2 = di_names d1" and "di_frs_to_compact d2 = di_frs_to_compact d1"
    and "table_ok d1"
  shows "entry_of d2 f = entry_of d1 f" and "compact_slot d2 f = compact_slot d1 f"
proof -
  show slot: "compact_slot d2 f = compact_slot d1 f" using assms(3) by (simp add: compact_slot_def)
  have "record_name (di_records d2 ! compact_slot d1 f) (di_names d1) = record_name (di_records d1 ! compact_slot d1 f) (di_names d1)"
    "cr_parent_idx (di_records d2 ! compact_slot d1 f) = cr_parent_idx (di_records d1 ! compact_slot d1 f)"
    if "compact_slot d1 f \<noteq> u32_max"
    using strip_pl_fields [OF assms(1)] compact_slot_ok [OF assms(4), of f] that by (simp_all add: record_name_def name_bytes_def)
  then show "entry_of d2 f = entry_of d1 f" by (simp add: entry_of_def Let_def slot assms(2))
qed

text \<open>A deleted record stays dead: no file has its slot any more, and new files get slots of their own.\<close>

definition unused_slot :: "drive_index \<Rightarrow> nat \<Rightarrow> bool" where
  "unused_slot d j \<longleftrightarrow> j < length (di_records d) \<and> \<not> live (di_records d) j \<and> (\<forall>f. compact_slot d f \<noteq> j)"

lemma unused_after:
  assumes "table_ok (ps_drive st)" and "length (di_records (ps_drive st)) < u32_max" and "frs_to_usize (fc_frs c) < u64_max"
    and "unused_slot (ps_drive st) j"
  shows "unused_slot (ps_drive (apply_change lower c st)) j"
proof -
  let ?d = "ps_drive st" and ?d' = "ps_drive (apply_change lower c st)"
  from assms(4) have j: "j < length (di_records ?d)" "\<not> live (di_records ?d) j" "\<And>f. compact_slot ?d f \<noteq> j"
    by (simp_all add: unused_slot_def)
  then have t: "target_slot ?d c \<noteq> j" "target_slot ?d c \<le> length (di_records ?d)"
    using compact_slot_ok [OF assms(1), of "fc_frs c"] by (auto simp: target_slot_def)
  have "j \<noteq> u32_max" using j(1) assms(2) by simp
  then have slots: "compact_slot ?d' f \<noteq> j" for f using slots_after [OF assms(1-3), of lower f] j(3) t(1) by auto
  consider (w) "must_write ?d c" | (k) "must_clear ?d c" | (s) "\<not> must_write ?d c" "\<not> must_clear ?d c" by blast
  then have "j < length (di_records ?d') \<and> di_records ?d' ! j = di_records ?d ! j"
  proof cases
    case w
    from apply_change_writes [OF assms(1,2) w, of lower] obtain r where "di_records ?d' = put_record (target_slot ?d c) r (di_records ?d)"
      by (auto simp: written_def Let_def)
    with put_record_nth [OF t(2), of j r] put_record_length [of "target_slot ?d c" r "di_records ?d"] t(1) j(1) show ?thesis by simp
  next
    case k
    with apply_change_clears [OF assms(1) k, of lower] j(1,3) show ?thesis by (simp add: cleared_def Let_def)
  next
    case s
    with apply_change_skips [OF s] j(1) show ?thesis by (simp add: skip_change_def)
  qed
  with j(1,2) slots show ?thesis by (simp add: unused_slot_def live_def)
qed

lemma unused_fold:
  "in_step d (length cs + n) (batch_bytes cs + b) st \<Longrightarrow> \<forall>c \<in> set cs. frs_to_usize (fc_frs c) < u64_max \<Longrightarrow>
   unused_slot (ps_drive st) j \<Longrightarrow> unused_slot (ps_drive (fold (apply_change lower) cs st)) j"
proof (induction cs arbitrary: st)
  case (Cons c cs)
  then have st: "in_step d (Suc (length cs + n)) (length (fc_filename c) + (batch_bytes cs + b)) st" by (simp add: batch_bytes_def add.assoc)
  have "unused_slot (ps_drive (apply_change lower c st)) j"
    using Cons.prems(2,3) by (intro unused_after in_stepD [OF st]) simp_all
  with Cons.IH [OF in_step_change [OF st]] Cons.prems(2) show ?case by simp
qed simp

lemma slot_fold_other:
  "in_step d (length cs + n) (batch_bytes cs + b) st \<Longrightarrow>
   \<forall>c \<in> set cs. frs_to_usize (fc_frs c) < u64_max \<and> frs_to_usize f \<noteq> frs_to_usize (fc_frs c) \<Longrightarrow>
   compact_slot (ps_drive (fold (apply_change lower) cs st)) f = compact_slot (ps_drive st) f"
  by (rule slot_fold_stable) auto

lemma cleared_unused:
  assumes "in_step d (Suc n) b st" and "frs_to_usize (fc_frs c) < u64_max" and "must_clear (ps_drive st) c"
  shows "unused_slot (ps_drive (apply_change lower c st)) (compact_slot (ps_drive st) (fc_frs c))"
proof -
  let ?d = "ps_drive st" and ?d' = "ps_drive (apply_change lower c st)" and ?j = "compact_slot (ps_drive st) (fc_frs c)"
  note ok = in_stepD [OF assms(1)]
  have ne: "?j \<noteq> u32_max" using assms(3) by (simp add: must_clear_def)
  then have j: "?j < length (di_records ?d)" using compact_slot_ok [OF ok(2), of "fc_frs c"] by blast
  have "di_records ?d' = (di_records ?d)[?j := (di_records ?d ! ?j)\<lparr>cr_name_len := 0, cr_parent_idx := u32_max\<rparr>]"
    using apply_change_clears [OF ok(2) assms(3), of lower] by (simp add: cleared_def Let_def)
  with j have "?j < length (di_records ?d') \<and> \<not> live (di_records ?d') ?j" by (simp add: live_def)
  moreover have "compact_slot ?d' f \<noteq> ?j" for f
    using slots_after [OF ok(2,5) assms(2), of lower f] table_injD [OF ok(1) ne, of f] ne assms(3)
    by (auto simp: must_write_def must_clear_def)
  ultimately show ?thesis by (simp add: unused_slot_def)
qed

lemma batch_deletes:
  assumes start: "in_step d (length (xs @ c # ys)) (batch_bytes (xs @ c # ys)) (patch_start d)"
    and small: "\<forall>c \<in> set (xs @ c # ys). fc_frs c < u64_max" and dist: "distinct (map fc_frs (xs @ c # ys))"
    and del: "fc_deleted c" "compact_slot d (fc_frs c) \<noteq> u32_max"
  shows "unused_slot (ps_drive (fold (apply_change lower) (xs @ c # ys) (patch_start d))) (compact_slot d (fc_frs c))"
proof -
  define st where "st = fold (apply_change lower) xs (patch_start d)"
  have usz: "frs_to_usize f = f" if "f < u64_max" for f using that by (simp add: frs_to_usize_def)
  have s0: "in_step d (length xs + Suc (length ys)) (batch_bytes xs + (length (fc_filename c) + batch_bytes ys)) (patch_start d)"
    using start by (simp add: batch_bytes_def)
  then have s: "in_step d (Suc (length ys)) (length (fc_filename c) + batch_bytes ys) st"
    unfolding st_def using in_step_fold [OF s0] small usz by simp
  have slot: "compact_slot (ps_drive st) (fc_frs c) = compact_slot d (fc_frs c)"
    unfolding st_def using slot_fold_other [OF s0] small dist usz by (simp add: patch_start_def image_iff)
  have "unused_slot (ps_drive (apply_change lower c st)) (compact_slot d (fc_frs c))"
    using cleared_unused [OF s, of c lower] del slot small usz by (simp add: must_clear_def)
  with unused_fold [of d ys 0 0 "apply_change lower c st"] in_step_change [OF s, of lower] small usz show ?thesis
    by (simp add: st_def)
qed

text \<open>What an erased record is for the queries: it is not live, and no extension and no directory lists it.\<close>

definition erased :: "drive_index \<Rightarrow> nat \<Rightarrow> bool" where
  "erased d j \<longleftrightarrow> \<not> live (di_records d) j \<and> (\<forall>e. j \<notin> set (records_with_ext d e)) \<and> (\<forall>p < u32_max. j \<notin> set (for_each_child d p))"

text \<open>
  C1. A journal batch does to every file what it asks: the number of a deleted file has no entry any more, and the
  record it had is dead and in the answer of no extension query and of no child query; a created or renamed file has
  its new name in a live record, and its parent link points at the slot its parent directory has after the batch, also
  when that directory is created in the same batch and comes later in it; every other file stays as it is, and
  the drive is in order again. Before the batch the drive is in order and has room for it, the batch has one change per
  file, and neither its creates nor the parent links it leaves form a cycle.
\<close>

theorem usn_patch_effect:
  assumes "drive_ok d" and "table_inj d" and "slots_live d" and "room (length changes) (batch_bytes changes) d"
    and "distinct (map fc_frs changes)" and "\<forall>c \<in> set changes. fc_frs c < u64_max" and "creates_ranked level changes"
    and "\<forall>st. set (sched st) = set st" and "links_ranked rank (di_records (ps_drive (apply_changes lower changes d)))"
  shows "\<exists>stats d'. apply_usn_patch sched lower changes d = Some (stats, d')
    \<and> (\<forall>c \<in> set changes. asked_for changes d d' c)
    \<and> (\<forall>c \<in> set changes. fc_deleted c \<and> compact_slot d (fc_frs c) \<noteq> u32_max \<longrightarrow> erased d' (compact_slot d (fc_frs c)))
    \<and> drive_ok d' \<and> table_inj d' \<and> slots_live d'
    \<and> (\<forall>f < u64_max. f \<notin> fc_frs ` set changes \<longrightarrow> entry_of d' f = entry_of d f)"
proof -
  let ?cs = "order_parent_first changes" and ?st = "apply_changes lower changes d"
  from usn_patch_total [OF assms(1,4,8,9)] obtain d' where d': "apply_usn_patch sched lower changes d = Some (ps_stats ?st, d')"
    and inv: "drive_ok d'" and strip:
    "strip_pl (di_records d') = strip_pl (di_records (ps_drive ?st))" "di_names d' = di_names (ps_drive ?st)"
    "di_frs_to_compact d' = di_frs_to_compact (ps_drive ?st)" by blast
  have m: "mset ?cs = mset changes" by (rule order_parent_first_keeps)
  have sets: "set ?cs = set changes" using mset_eq_setD [OF m] .
  have dist: "distinct (map fc_frs ?cs)" using assms(5) mset_eq_imp_distinct_iff [of "map fc_frs ?cs" "map fc_frs changes"] m by simp
  have start: "in_step d (length ?cs) (batch_bytes ?cs) (patch_start d)"
    using assms(1-4) tracked_start by (simp add: in_step_def patch_start_def order_parent_first_sizes drive_ok_def)
  have usz: "frs_to_usize f = f" if "f < u64_max" for f using that by (simp add: frs_to_usize_def)
  have small: "\<forall>c \<in> set ?cs. fc_frs c < u64_max" using assms(6) sets by simp
  have end_ok: "table_ok (ps_drive ?st)" "slots_live (ps_drive ?st)" "table_inj (ps_drive ?st)"
    using in_step_fold [of d ?cs 0 0 "patch_start d" lower] start small usz by (simp_all add: apply_changes_def in_step_def tracked_def)
  note final = entry_of_strip [OF strip end_ok(1)]
  have alive: "live (di_records d') j = live (di_records (ps_drive ?st)) j" for j
    using strip_pl_length [OF strip(1)] strip_pl_fields [OF strip(1), of j] by (auto simp: live_def)
  have lists: "\<not> live (di_records d') j \<Longrightarrow> erased d' j" for j
    using inv records_with_ext_exact [of d'] for_each_child_exact [of d'] by (simp add: drive_ok_def erased_def)
  have "asked_for changes d (ps_drive ?st) c" if "c \<in> set changes" for c
  proof -
    from that sets obtain xs ys where cs: "?cs = xs @ c # ys" by (metis split_list)
    from batch_effect_one [of d xs c ys changes lower] start small dist order_parent_first_spec [OF assms(7)] sets
    show ?thesis by (simp add: apply_changes_def cs)
  qed
  then have "asked_for changes d d' c" if "c \<in> set changes" for c using that by (simp add: asked_for_def final)
  moreover have "erased d' (compact_slot d (fc_frs c))" if c: "c \<in> set changes" "fc_deleted c" "compact_slot d (fc_frs c) \<noteq> u32_max" for c
  proof -
    from c(1) sets obtain xs ys where cs: "?cs = xs @ c # ys" by (metis split_list)
    from batch_deletes [of d xs c ys lower] start small dist c(2,3) show ?thesis
      by (intro lists) (simp add: alive unused_slot_def apply_changes_def cs)
  qed
  moreover have "slots_live d'" using end_ok(2) by (simp add: slots_live_def final alive)
  moreover have "table_inj d'" using end_ok(3) unfolding table_inj_def final .
  moreover have "entry_of d' f = entry_of d f" if "f < u64_max" "f \<notin> fc_frs ` set changes" for f
    using batch_leaves_others [OF start small, of f lower] that sets by (simp add: final apply_changes_def)
  ultimately show ?thesis using d' inv by blast
qed

text \<open>A drive with one file, number 1 under the name \<open>a\<close>, that an earlier batch put into the overlay.\<close>

definition demo_row :: compact_record where
  "demo_row = new_record \<lparr>sc_name_offset = 0, sc_name_len = 1, sc_name_first_byte = 0x61, sc_extension_id = 0, sc_parent_idx = u32_max,
     sc_meta = record_meta_default\<rparr> 1"

definition demo_bare :: drive_index where
  "demo_bare = demo_drive\<lparr>di_records := [demo_row], di_names := [0x61], di_frs_to_compact := [u32_max, 0]\<rparr>"

definition demo_known :: drive_index where
  "demo_known = demo_bare\<lparr>di_delta := Some (overlay_add demo_bare \<lparr>pc_idx = 0, pc_subtree = False\<rparr> index_delta_default)\<rparr>"

definition demo_delete :: file_change where
  "demo_delete = (file_change_new 1)\<lparr>fc_deleted := True\<rparr>"

lemma demo_known_fields:
  "di_records demo_known = [demo_row]" "di_names demo_known = [0x61]" "di_frs_to_compact demo_known = [u32_max, 0]"
  "di_delta demo_known = Some (overlay_add demo_bare \<lparr>pc_idx = 0, pc_subtree = False\<rparr> index_delta_default)"
  "cr_parent_idx demo_row = u32_max" "cr_name_len demo_row = 1" "cr_name_offset demo_row = 0"
  by (simp_all add: demo_known_def demo_bare_def demo_row_def new_record_def)

lemma demo_known_slot: "compact_slot demo_known f = (if frs_to_usize f = 1 then 0 else u32_max)"
  by (auto simp: compact_slot_def demo_known_def demo_bare_def vec_get_def nth_Cons' numeral_2_eq_2 less_Suc_eq)

lemma demo_known_ok: "drive_ok demo_known" "room (length [demo_delete]) (batch_bytes [demo_delete]) demo_known" "table_inj demo_known" "slots_live demo_known"
proof -
  have load: "length (record_trigrams [] [0x61] demo_row) \<le> 1"
    using record_trigrams_length [of "[]" "[0x61]" demo_row] by (simp add: demo_row_def new_record_def)
  then have fits: "index_fits demo_bare" by (simp add: index_fits_def demo_bare_def demo_drive_def u32_max_def u64_max_def)
  let ?delta = "overlay_add demo_bare \<lparr>pc_idx = 0, pc_subtree = False\<rparr> index_delta_default"
  note add = overlay_add_spec [OF delta_ok_default fits, where c = "\<lparr>pc_idx = 0, pc_subtree = False\<rparr>"]
  have "live (di_records demo_bare) 0" by (simp add: live_def demo_bare_def demo_row_def new_record_def)
  with add(6) have "covered demo_bare ?delta 0" by simp
  then have "covered demo_known ?delta 0" by (simp add: covered_def demo_known_def name_trigrams_def)
  moreover have "bases_ascending demo_drive"
    using demo_drive_inv fresh_covered(1) [of demo_drive] by (simp add: index_inv_def) (simp add: demo_drive_def)
  then have "bases_ascending demo_known" by (simp add: bases_ascending_def demo_known_def demo_bare_def)
  moreover have "index_fits demo_known" using fits by (simp add: index_fits_def demo_known_def)
  ultimately have "index_inv demo_known" using add(1)
    by (simp add: index_inv_def links_ok_def live_def demo_known_fields)
  then show "drive_ok demo_known" by (simp add: drive_ok_def table_ok_def names_ok_def demo_known_fields u16_max_def)
  show "room (length [demo_delete]) (batch_bytes [demo_delete]) demo_known"
    using load by (simp add: room_def batch_bytes_def demo_delete_def file_change_new_def demo_known_def demo_bare_def demo_drive_def trigram_load_def u32_max_def)
  show "table_inj demo_known" by (simp add: table_inj_def demo_known_slot)
  show "slots_live demo_known"
    by (simp add: slots_live_def demo_known_slot live_def demo_known_fields)
qed

lemma demo_delete_links: "links_ranked id (di_records (ps_drive (apply_changes id [demo_delete] demo_known)))"
proof -
  have "order_parent_first [demo_delete] = [demo_delete]"
    by (simp add: order_parent_first_def waits_for_def note_create_def demo_delete_def file_change_new_def release.simps)
  then have "apply_changes id [demo_delete] demo_known = apply_change id demo_delete (patch_start demo_known)" by (simp add: apply_changes_def)
  also have "di_records (ps_drive \<dots>) = [demo_row\<lparr>cr_name_len := 0, cr_parent_idx := u32_max\<rparr>]"
    by (simp add: apply_change_def apply_delete_def patch_start_def demo_delete_def file_change_new_def demo_known_slot demo_usize Let_def
        demo_known_fields vec_get_def u32_max_def)
  finally show ?thesis by (simp add: links_ranked_def u32_max_def)
qed

theorem usn_patch_effect_witness:
  "(\<exists>stats d'. apply_usn_patch rev id [demo_create 2 1, demo_create 1 0] demo_drive = Some (stats, d')
     \<and> entry_of d' 2 = Some ([0x61], compact_slot d' 1))
   \<and> entry_of demo_known 1 \<noteq> None
   \<and> (\<exists>stats d'. apply_usn_patch rev id [demo_delete] demo_known = Some (stats, d') \<and> entry_of d' 1 = None \<and> erased d' 0)"
proof (intro conjI)
  show "entry_of demo_known 1 \<noteq> None" by (simp add: entry_of_def demo_known_slot demo_usize u32_max_def Let_def)
  have del: "fc_frs demo_delete = 1" "fc_deleted demo_delete" "\<not> fc_created demo_delete" by (simp_all add: demo_delete_def file_change_new_def)
  have "creates_ranked id [demo_delete]" using del by (simp add: creates_ranked_def)
  then obtain stats d' where "apply_usn_patch rev id [demo_delete] demo_known = Some (stats, d')" "asked_for [demo_delete] demo_known d' demo_delete"
    "compact_slot demo_known (fc_frs demo_delete) \<noteq> u32_max \<longrightarrow> erased d' (compact_slot demo_known (fc_frs demo_delete))"
    using usn_patch_effect [OF demo_known_ok(1,3,4,2) _ _ _ _ demo_delete_links, of id rev] del by (auto simp: u64_max_def)
  then show "\<exists>stats d'. apply_usn_patch rev id [demo_delete] demo_known = Some (stats, d') \<and> entry_of d' 1 = None \<and> erased d' 0"
    using del by (auto simp: asked_for_def demo_known_slot demo_usize u32_max_def)
next
  let ?cs = "[demo_create 2 1, demo_create 1 0]"
  have un: "compact_slot demo_drive f = u32_max" for f by (simp add: compact_slot_def demo_drive_def vec_get_def)
  then have "table_inj demo_drive" "slots_live demo_drive" by (simp_all add: table_inj_def slots_live_def)
  moreover have "creates_ranked id ?cs" by (simp add: creates_ranked_def)
  moreover have "distinct (map fc_frs ?cs)" "\<forall>c \<in> set ?cs. fc_frs c < u64_max" by (simp_all add: u64_max_def)
  ultimately obtain stats d' where d': "apply_usn_patch rev id ?cs demo_drive = Some (stats, d')" "\<forall>c \<in> set ?cs. asked_for ?cs demo_drive d' c"
    using usn_patch_effect [OF demo_patch_ready(1) _ _ demo_patch_ready(2) _ _ _ _ demo_patch_ready(3), of id rev] by auto
  from d'(2) have "asked_for ?cs demo_drive d' (demo_create 2 1)" by simp
  moreover have "utf8_valid [0x61]" by (simp add: utf8_valid_def utf8_ascii_chars)
  ultimately have "entry_of d' 2 = Some ([0x61], compact_slot d' 1)"
    by (simp add: asked_for_def u16_max_def u64_max_def)
  with d'(1) show "\<exists>stats d'. apply_usn_patch rev id [demo_create 2 1, demo_create 1 0] demo_drive = Some (stats, d')
     \<and> entry_of d' 2 = Some ([0x61], compact_slot d' 1)" by blast
qed

text \<open>
  A drive without a slot table does not turn a batch into a no-op: a create with a name appends a
  record and is counted as created, and only deletes and renames are skipped.
\<close>

theorem empty_table_still_creates:
  assumes "di_frs_to_compact d = []" and "\<not> fc_deleted c"
  shows "(fc_created c \<and> fc_filename c \<noteq> [] \<longrightarrow>
      length (di_records (ps_drive (apply_change lower c (patch_start d)))) = Suc (length (di_records d))
      \<and> ps_created (ps_stats (apply_change lower c (patch_start d))) = 1)
    \<and> (\<not> fc_created c \<longrightarrow> apply_change lower c (patch_start d) = skip_change (patch_start d))"
proof -
  have un: "compact_slot d f = u32_max" for f using assms(1) by (simp add: compact_slot_def vec_get_def)
  obtain s xs where s: "stage_create lower c d = (s, d\<lparr>di_ext_names := di_ext_names d @ xs, di_names := di_names d @ fc_filename c\<rparr>)"
    using stage_create_cases [of lower c d] by metis
  show ?thesis using assms(2) un
    by (auto simp: apply_change_def patch_start_def apply_create_def apply_rename_def s Let_def patch_stats_default_def)
qed

theorem empty_table_still_creates_witness:
  "length (di_records (ps_drive (apply_change id (demo_create 1 0) (patch_start demo_drive)))) = 1"
  using empty_table_still_creates [of demo_drive "demo_create 1 0" id] by (simp add: demo_drive_def)

end
