(* ===== verification/Bloom.thy ===== *)
theory Bloom
  imports Usn_Patch
begin

text \<open>
  The Bloom filter of a drive (\<open>crates/uffs-core/src/bloom.rs\<close>), its build from the index
  (\<open>compact_filters.rs\<close>) and the pre-check that skips a drive whose filter misses every wanted extension
  (\<open>search/bloom_skip.rs\<close>, \<open>apply_bloom_pre_check\<close> of \<open>search/backend.rs\<close>).

  The hasher is the package \<open>rustc_hash\<close>: \<open>fx seed key\<close> stands for its result after the seed and the key
  were written, and nothing is assumed of it. The filter is sized with floating-point formulas;
  \<open>sizing n\<close> stands for the bit count and the hash count they give for \<open>n\<close> items. The estimate of the
  false-positive rate is telemetry.
\<close>

section \<open>Definitions\<close>

type_synonym fx_hash = "u64 \<Rightarrow> bytes \<Rightarrow> u64"

definition SEED_A :: u64 where "SEED_A = 0xA5A5C3C3F0F05A5A"
definition SEED_B :: u64 where "SEED_B = 0x5A5A3C3C0F0FA5A5"

record bloom =
  bl_bits :: "u64 list"
  bl_nbits :: nat
  bl_k_hashes :: nat

text \<open>\<open>clamp(1, 32)\<close> on an 8-bit hash count.\<close>

definition clamp_k :: "nat \<Rightarrow> nat" where "clamp_k k = max 1 (min k 32)"

definition align_nbits :: "nat \<Rightarrow> nat" where
  "align_nbits n = max (u64_sat_mul ((n + 63) div 64) 64) 64"

definition with_size_and_k :: "nat \<Rightarrow> nat \<Rightarrow> bloom" where
  "with_size_and_k nbits k_hashes =
     (let aligned_nbits = align_nbits nbits in
      \<lparr>bl_bits = replicate (aligned_nbits div 64) 0, bl_nbits = aligned_nbits, bl_k_hashes = clamp_k k_hashes\<rparr>)"

definition with_capacity_and_fpr :: "(nat \<Rightarrow> nat \<times> nat) \<Rightarrow> nat \<Rightarrow> bloom rust" where
  "with_capacity_and_fpr sizing n_items =
     (if n_items = 0 then None
      else case sizing n_items of (nbits_raw, k) \<Rightarrow> Some (with_size_and_k (align_nbits nbits_raw) (clamp_k k)))"

definition base_hashes :: "fx_hash \<Rightarrow> bytes \<Rightarrow> u64 \<times> u64" where
  "base_hashes fx key = (fx SEED_A key, fx SEED_B key OR 1)"

definition bit_index :: "bloom \<Rightarrow> u64 \<Rightarrow> u64 \<Rightarrow> nat \<Rightarrow> nat rust" where
  "bit_index b hash_a hash_b probe_idx = u64_rem (unat (hash_a + of_nat probe_idx * hash_b)) (bl_nbits b)"

definition set_bit_at :: "nat \<Rightarrow> bloom \<Rightarrow> bloom rust" where
  "set_bit_at pos b =
     (let word_idx = pos div 64; bit_idx = pos mod 64 in
      if word_idx < length (bl_bits b)
      then Some (b\<lparr>bl_bits := (bl_bits b)[word_idx := bl_bits b ! word_idx OR push_bit bit_idx 1]\<rparr>)
      else None)"

definition get_bit_at :: "bloom \<Rightarrow> nat \<Rightarrow> bool rust" where
  "get_bit_at b pos =
     (let word_idx = pos div 64; bit_idx = pos mod 64 in
      if word_idx < length (bl_bits b) then Some (drop_bit bit_idx (bl_bits b ! word_idx) AND 1 = 1) else None)"

fun insert_probes :: "u64 \<Rightarrow> u64 \<Rightarrow> nat list \<Rightarrow> bloom \<Rightarrow> bloom rust" where
  "insert_probes hash_a hash_b [] b = Some b"
| "insert_probes hash_a hash_b (i # is) b = do {
     pos \<leftarrow> bit_index b hash_a hash_b i;
     b' \<leftarrow> set_bit_at pos b;
     insert_probes hash_a hash_b is b'
   }"

definition bloom_insert :: "fx_hash \<Rightarrow> bytes \<Rightarrow> bloom \<Rightarrow> bloom rust" where
  "bloom_insert fx key b = (case base_hashes fx key of (hash_a, hash_b) \<Rightarrow> insert_probes hash_a hash_b [0..<bl_k_hashes b] b)"

fun contains_probes :: "bloom \<Rightarrow> u64 \<Rightarrow> u64 \<Rightarrow> nat list \<Rightarrow> bool rust" where
  "contains_probes b hash_a hash_b [] = Some True"
| "contains_probes b hash_a hash_b (i # is) = do {
     pos \<leftarrow> bit_index b hash_a hash_b i;
     hit \<leftarrow> get_bit_at b pos;
     if \<not> hit then Some False else contains_probes b hash_a hash_b is
   }"

definition bloom_contains :: "fx_hash \<Rightarrow> bloom \<Rightarrow> bytes \<Rightarrow> bool rust" where
  "bloom_contains fx b key = (case base_hashes fx key of (hash_a, hash_b) \<Rightarrow> contains_probes b hash_a hash_b [0..<bl_k_hashes b])"

definition bloom_from_raw_parts :: "nat \<Rightarrow> nat \<Rightarrow> u64 list \<Rightarrow> bloom option" where
  "bloom_from_raw_parts nbits k_hashes bits =
     (if nbits = 0 \<or> nbits mod 64 \<noteq> 0 then None
      else if length bits \<noteq> nbits div 64 then None
      else Some \<lparr>bl_bits = bits, bl_nbits = nbits, bl_k_hashes = clamp_k k_hashes\<rparr>)"

text \<open>The build: the folded name of each record, then every interned extension.\<close>

fun insert_all :: "('k \<Rightarrow> 'f \<Rightarrow> 'f rust) \<Rightarrow> 'k list \<Rightarrow> 'f \<Rightarrow> 'f rust" where
  "insert_all ins [] b = Some b"
| "insert_all ins (key # keys) b = do {
     b' \<leftarrow> ins key b;
     insert_all ins keys b'
   }"

definition basename_key :: "drive_index \<Rightarrow> compact_record \<Rightarrow> bytes option" where
  "basename_key d r =
     (case slice_get (di_names d) (cr_name_offset r) (u64_sat_add (cr_name_offset r) (cr_name_len r)) of
        None \<Rightarrow> None
      | Some raw_bytes \<Rightarrow> map_option (fold_into (di_fold d)) (utf8_chars raw_bytes))"

definition build_bloom :: "fx_hash \<Rightarrow> (nat \<Rightarrow> nat \<times> nat) \<Rightarrow> drive_index \<Rightarrow> bloom rust" where
  "build_bloom fx sizing d = do {
     b0 \<leftarrow> with_capacity_and_fpr sizing (max (u64_sat_add (length (di_records d)) (length (di_ext_names d))) 1);
     b1 \<leftarrow> insert_all (bloom_insert fx) (List.map_filter (basename_key d) (di_records d)) b0;
     insert_all (bloom_insert fx) (filter (\<lambda>ext. ext \<noteq> []) (di_ext_names d)) b1
   }"

datatype bloom_decision = Skip | Keep

fun any_hit :: "('f \<Rightarrow> 'k \<Rightarrow> bool rust) \<Rightarrow> 'f \<Rightarrow> 'k list \<Rightarrow> bool rust" where
  "any_hit has b [] = Some False"
| "any_hit has b (term # terms) = do {
     hit \<leftarrow> has b term;
     if hit then Some True else any_hit has b terms
   }"

definition decide_for_ext_filter :: "fx_hash \<Rightarrow> bloom option \<Rightarrow> bytes list \<Rightarrow> bloom_decision rust" where
  "decide_for_ext_filter fx bl ext_terms =
     (if ext_terms = [] then Some Keep
      else case bl of
        None \<Rightarrow> Some Keep
      | Some b \<Rightarrow> do {
          hit \<leftarrow> any_hit (bloom_contains fx) b ext_terms;
          Some (if hit then Keep else Skip)
        })"

text \<open>A drive with the filter it carries; the pre-check keeps those that are not skipped.\<close>

fun retain_drives :: "fx_hash \<Rightarrow> bytes list \<Rightarrow> (drive_index \<times> bloom option) list \<Rightarrow> (drive_index \<times> bloom option) list rust" where
  "retain_drives fx ext_terms [] = Some []"
| "retain_drives fx ext_terms ((d, bl) # rest) = do {
     decision \<leftarrow> decide_for_ext_filter fx bl ext_terms;
     kept \<leftarrow> retain_drives fx ext_terms rest;
     Some (if decision = Keep then (d, bl) # kept else kept)
   }"

definition apply_bloom_pre_check ::
  "fx_hash \<Rightarrow> bytes list \<Rightarrow> (drive_index \<times> bloom option) list \<Rightarrow> (drive_index \<times> bloom option) list rust"
where
  "apply_bloom_pre_check fx ext_terms active_drives =
     (if ext_terms = [] then Some active_drives else retain_drives fx ext_terms active_drives)"

section \<open>What a filter promises\<close>

text \<open>
  A membership filter: on a well-formed filter insertion and test return, an inserted key tests true,
  and insertion never makes a key test false.
\<close>

locale membership_filter =
  fixes ok :: "'f \<Rightarrow> bool"
    and ins :: "'k \<Rightarrow> 'f \<Rightarrow> 'f option"
    and has :: "'f \<Rightarrow> 'k \<Rightarrow> bool option"
  assumes ins_ok: "ok f \<Longrightarrow> \<exists>f'. ins k f = Some f' \<and> ok f'"
    and has_total: "ok f \<Longrightarrow> has f k \<noteq> None"
    and ins_has: "ok f \<Longrightarrow> ins k f = Some f' \<Longrightarrow> has f' k = Some True"
    and ins_mono: "ok f \<Longrightarrow> ins k f = Some f' \<Longrightarrow> has f q = Some True \<Longrightarrow> has f' q = Some True"
begin

lemma insert_all_has:
  "ok f \<Longrightarrow> \<exists>f'. insert_all ins ks f = Some f' \<and> ok f' \<and> (\<forall>k. k \<in> set ks \<or> has f k = Some True \<longrightarrow> has f' k = Some True)"
proof (induction ks arbitrary: f)
  case (Cons k ks)
  from ins_ok [OF Cons.prems, of k] obtain f1 where f1: "ins k f = Some f1" "ok f1" by blast
  with Cons.IH [OF f1(2)] ins_has [OF Cons.prems f1(1)] ins_mono [OF Cons.prems f1(1)] show ?case by auto
qed simp

lemma any_hit_iff:
  assumes "ok f"
  shows "any_hit has f ks = Some (\<exists>k \<in> set ks. has f k = Some True)"
proof (induction ks)
  case (Cons k ks)
  with has_total [OF assms, of k] show ?case by auto
qed simp

end

section \<open>The Bloom filter keeps the promise\<close>

definition bloom_ok :: "bloom \<Rightarrow> bool" where
  "bloom_ok b \<longleftrightarrow> bl_nbits b = 64 * length (bl_bits b) \<and> bl_bits b \<noteq> [] \<and> 1 \<le> bl_k_hashes b \<and> bl_k_hashes b \<le> 32"

definition bit_set :: "bloom \<Rightarrow> nat \<Rightarrow> bool" where
  "bit_set b pos \<longleftrightarrow> bit (bl_bits b ! (pos div 64)) (pos mod 64)"

lemma word_in_range: "bloom_ok b \<Longrightarrow> pos < bl_nbits b \<Longrightarrow> pos div 64 < length (bl_bits b)"
  by (simp add: bloom_ok_def less_mult_imp_div_less mult.commute)

lemma get_bit_at_set: "bloom_ok b \<Longrightarrow> pos < bl_nbits b \<Longrightarrow> get_bit_at b pos = Some (bit_set b pos)"
  by (simp add: get_bit_at_def Let_def word_in_range bit_set_def bit_iff_and_drop_bit_eq_1)

lemma bit_index_some:
  assumes "bloom_ok b"
  obtains pos where "bit_index b ha hb i = Some pos" and "pos < bl_nbits b" and "\<And>b'. bl_nbits b' = bl_nbits b \<Longrightarrow> bit_index b' ha hb i = Some pos"
  using assms by (auto simp: bloom_ok_def bit_index_def u64_rem_def)

lemma set_bit_at_some:
  assumes "bloom_ok b" and "pos < bl_nbits b"
  obtains b' where "set_bit_at pos b = Some b'" and "bloom_ok b'" and "bl_nbits b' = bl_nbits b" and "bl_k_hashes b' = bl_k_hashes b"
    and "\<And>q. q < bl_nbits b \<Longrightarrow> bit_set b' q \<longleftrightarrow> q = pos \<or> bit_set b q"
proof -
  let ?w = "pos div 64" and ?i = "pos mod 64"
  let ?b = "b\<lparr>bl_bits := (bl_bits b)[?w := bl_bits b ! ?w OR push_bit ?i 1]\<rparr>"
  have w: "?w < length (bl_bits b)" by (rule word_in_range [OF assms])
  have "bit_set ?b q \<longleftrightarrow> q = pos \<or> bit_set b q" if "q < bl_nbits b" for q
  proof (cases "q div 64 = ?w")
    case True
    have "q mod 64 < 64" "?i < 64" by simp_all
    moreover have "q = pos \<longleftrightarrow> q mod 64 = ?i" using True by (metis div_mult_mod_eq)
    ultimately show ?thesis using w True by (auto simp: bit_set_def bit_simps)
  next
    case False
    then have "q \<noteq> pos" by auto
    with False w show ?thesis by (simp add: bit_set_def)
  qed
  moreover have "bloom_ok ?b" using assms(1) by (simp add: bloom_ok_def)
  ultimately show thesis using w by (intro that [of ?b]) (simp_all add: set_bit_at_def Let_def)
qed

text \<open>The positions a key probes.\<close>

definition probes :: "bloom \<Rightarrow> u64 \<Rightarrow> u64 \<Rightarrow> nat list \<Rightarrow> nat set" where
  "probes b ha hb is = {pos. \<exists>i \<in> set is. bit_index b ha hb i = Some pos}"

lemma probes_nbits: "bl_nbits b' = bl_nbits b \<Longrightarrow> probes b' ha hb is = probes b ha hb is"
  by (simp add: probes_def bit_index_def)

lemma probes_below: "bloom_ok b \<Longrightarrow> pos \<in> probes b ha hb is \<Longrightarrow> pos < bl_nbits b"
  by (auto simp: probes_def bit_index_def u64_rem_def bloom_ok_def split: if_splits)

lemma insert_probes_spec:
  "bloom_ok b \<Longrightarrow> \<exists>b'. insert_probes ha hb is b = Some b' \<and> bloom_ok b' \<and> bl_nbits b' = bl_nbits b \<and> bl_k_hashes b' = bl_k_hashes b
     \<and> (\<forall>q < bl_nbits b. bit_set b' q \<longleftrightarrow> q \<in> probes b ha hb is \<or> bit_set b q)"
proof (induction "is" arbitrary: b)
  case (Cons i "is")
  obtain pos where pos: "bit_index b ha hb i = Some pos" "pos < bl_nbits b" using bit_index_some [OF Cons.prems] by metis
  obtain b1 where b1: "set_bit_at pos b = Some b1" "bloom_ok b1" "bl_nbits b1 = bl_nbits b" "bl_k_hashes b1 = bl_k_hashes b"
    "\<And>q. q < bl_nbits b \<Longrightarrow> bit_set b1 q \<longleftrightarrow> q = pos \<or> bit_set b q" using set_bit_at_some [OF Cons.prems pos(2)] by metis
  from Cons.IH [OF b1(2)] obtain b' where b': "insert_probes ha hb is b1 = Some b'" "bloom_ok b'" "bl_nbits b' = bl_nbits b" "bl_k_hashes b' = bl_k_hashes b"
    "\<forall>q < bl_nbits b. bit_set b' q \<longleftrightarrow> q \<in> probes b ha hb is \<or> bit_set b1 q"
    unfolding probes_nbits [OF b1(3)] b1(3,4) by blast
  have "probes b ha hb (i # is) = insert pos (probes b ha hb is)" using pos(1) by (auto simp: probes_def)
  with b' b1 pos(1) show ?case by auto
qed (simp add: probes_def)

lemma contains_probes_spec:
  "bloom_ok b \<Longrightarrow> contains_probes b ha hb is = Some (\<forall>q \<in> probes b ha hb is. bit_set b q)"
proof (induction "is")
  case (Cons i "is")
  obtain pos where pos: "bit_index b ha hb i = Some pos" "pos < bl_nbits b" using bit_index_some [OF Cons.prems] by metis
  have "probes b ha hb (i # is) = insert pos (probes b ha hb is)" using pos(1) by (auto simp: probes_def)
  with pos Cons get_bit_at_set [OF Cons.prems pos(2)] show ?case by simp
qed (simp add: probes_def)

lemma bloom_insert_spec:
  assumes "bloom_ok b"
  shows "\<exists>b'. bloom_insert fx key b = Some b' \<and> bloom_ok b' \<and> bl_nbits b' = bl_nbits b \<and> bl_k_hashes b' = bl_k_hashes b
    \<and> (\<forall>q < bl_nbits b. bit_set b' q \<longleftrightarrow> q \<in> probes b (fst (base_hashes fx key)) (snd (base_hashes fx key)) [0..<bl_k_hashes b] \<or> bit_set b q)"
  using insert_probes_spec [OF assms] by (simp add: bloom_insert_def case_prod_beta)

lemma bloom_contains_spec:
  assumes "bloom_ok b"
  shows "bloom_contains fx b key = Some (\<forall>q \<in> probes b (fst (base_hashes fx key)) (snd (base_hashes fx key)) [0..<bl_k_hashes b]. bit_set b q)"
  using contains_probes_spec [OF assms] by (simp add: bloom_contains_def case_prod_beta)

interpretation bloom_filter: membership_filter bloom_ok "bloom_insert fx" "bloom_contains fx" for fx
proof unfold_locales
  fix f k assume ok: "bloom_ok f"
  show "\<exists>f'. bloom_insert fx k f = Some f' \<and> bloom_ok f'" using bloom_insert_spec [OF ok, of fx k] by blast
  show "bloom_contains fx f k \<noteq> None" using bloom_contains_spec [OF ok, of fx k] by simp
next
  fix f k f' q assume ok: "bloom_ok f" and run: "bloom_insert fx k f = Some f'"
  from bloom_insert_spec [OF ok, of fx k] run have f': "bloom_ok f'" "bl_nbits f' = bl_nbits f" "bl_k_hashes f' = bl_k_hashes f"
    "\<forall>q < bl_nbits f. bit_set f' q \<longleftrightarrow> q \<in> probes f (fst (base_hashes fx k)) (snd (base_hashes fx k)) [0..<bl_k_hashes f] \<or> bit_set f q"
    by auto
  note has = bloom_contains_spec [OF f'(1), of fx] bloom_contains_spec [OF ok, of fx] and below = probes_below [OF ok]
  show "bloom_contains fx f' k = Some True" unfolding has probes_nbits [OF f'(2)] f'(3) using f'(4) below by auto
  show "bloom_contains fx f' q = Some True" if "bloom_contains fx f q = Some True"
    using that unfolding has probes_nbits [OF f'(2)] f'(3) using f'(4) below by auto
qed

section \<open>Build and pre-check\<close>

text \<open>A sizing within what a 64-bit count can round up.\<close>

definition sizing_fits :: "(nat \<Rightarrow> nat \<times> nat) \<Rightarrow> bool" where
  "sizing_fits sizing \<longleftrightarrow> (\<forall>n. fst (sizing n) \<le> u64_max - 63)"

lemma align_nbits_mult:
  assumes "n \<le> u64_max - 63"
  shows "align_nbits n = 64 * max 1 ((n + 63) div 64)" and "align_nbits (align_nbits n) = align_nbits n"
proof -
  let ?q = "(n + 63) div 64"
  have "?q * 64 \<le> n + 63" by simp
  also have "\<dots> \<le> u64_max" using assms by (simp add: u64_max_def)
  finally have q: "?q * 64 \<le> u64_max" .
  then show al: "align_nbits n = 64 * max 1 ?q" by (simp add: align_nbits_def u64_sat_mul_def max_def)
  have "(64 * max 1 ?q + 63) div 64 = max 1 ?q" by (simp only: mult.commute [of 64])
  moreover have "64 * max 1 ?q \<le> u64_max" using q by (simp add: u64_max_def mult.commute)
  ultimately show "align_nbits (align_nbits n) = align_nbits n"
    unfolding al align_nbits_def [of "64 * max 1 ?q"] u64_sat_mul_def by (simp only: mult.commute [of _ 64]) simp
qed

lemma with_capacity_ok:
  assumes "sizing_fits sizing" and "n \<noteq> 0"
  shows "\<exists>b. with_capacity_and_fpr sizing n = Some b \<and> bloom_ok b \<and> (\<forall>w \<in> set (bl_bits b). w = 0)"
proof -
  obtain m k where s: "sizing n = (m, k)" by fastforce
  then have "m \<le> u64_max - 63" using assms(1) by (metis fst_conv sizing_fits_def)
  note al = align_nbits_mult [OF this]
  have "with_size_and_k (align_nbits m) (clamp_k k)
      = \<lparr>bl_bits = replicate (align_nbits m div 64) 0, bl_nbits = align_nbits m, bl_k_hashes = clamp_k (clamp_k k)\<rparr>"
    by (simp add: with_size_and_k_def Let_def al(2))
  with assms(2) show ?thesis unfolding al(1) by (simp add: with_capacity_and_fpr_def s al(1) bloom_ok_def clamp_k_def)
qed

lemma build_bloom_has:
  assumes "sizing_fits sizing"
  shows "\<exists>b. build_bloom fx sizing d = Some b \<and> bloom_ok b
    \<and> (\<forall>r \<in> set (di_records d). \<forall>key. basename_key d r = Some key \<longrightarrow> bloom_contains fx b key = Some True)
    \<and> (\<forall>ext \<in> set (di_ext_names d). ext \<noteq> [] \<longrightarrow> bloom_contains fx b ext = Some True)"
proof -
  obtain b0 where b0: "with_capacity_and_fpr sizing (max (u64_sat_add (length (di_records d)) (length (di_ext_names d))) 1) = Some b0" "bloom_ok b0"
  proof -
    have "max (u64_sat_add (length (di_records d)) (length (di_ext_names d))) 1 \<noteq> 0" by simp
    from with_capacity_ok [OF assms this] that show thesis by blast
  qed
  let ?names = "List.map_filter (basename_key d) (di_records d)" and ?exts = "filter (\<lambda>ext. ext \<noteq> []) (di_ext_names d)"
  obtain b1 where b1: "insert_all (bloom_insert fx) ?names b0 = Some b1" "bloom_ok b1" "\<forall>k \<in> set ?names. bloom_contains fx b1 k = Some True"
    using bloom_filter.insert_all_has [OF b0(2), of fx ?names] by blast
  obtain b2 where b2: "insert_all (bloom_insert fx) ?exts b1 = Some b2" "bloom_ok b2"
    "\<forall>k. k \<in> set ?exts \<or> bloom_contains fx b1 k = Some True \<longrightarrow> bloom_contains fx b2 k = Some True"
    using bloom_filter.insert_all_has [OF b1(2), of fx ?exts] by blast
  have "key \<in> set ?names" if "r \<in> set (di_records d)" "basename_key d r = Some key" for r key
    using that by (force simp: List.map_filter_def)
  with b0(1) b1 b2 show ?thesis by (auto simp: build_bloom_def)
qed

lemma decide_keep:
  assumes "bl = None \<or> (\<exists>b. bl = Some b \<and> bloom_ok b)"
  shows "\<exists>decision. decide_for_ext_filter fx bl terms = Some decision
    \<and> (decision = Skip \<longleftrightarrow> terms \<noteq> [] \<and> (\<exists>b. bl = Some b \<and> (\<forall>t \<in> set terms. bloom_contains fx b t \<noteq> Some True)))"
  using assms bloom_filter.any_hit_iff [of _ fx terms] by (auto simp: decide_for_ext_filter_def)

text \<open>A filter that belongs to a drive: absent, or built from the drive as it is.\<close>

definition filter_current :: "fx_hash \<Rightarrow> (nat \<Rightarrow> nat \<times> nat) \<Rightarrow> drive_index \<times> bloom option \<Rightarrow> bool" where
  "filter_current fx sizing x \<longleftrightarrow> (case snd x of None \<Rightarrow> True | Some b \<Rightarrow> build_bloom fx sizing (fst x) = Some b)"

lemma resolve_nothing:
  assumes "\<forall>t \<in> set terms. norm t = t \<and> (t = [] \<or> t \<notin> set (di_ext_names d))"
  shows "resolve_ext_ids norm terms d = []"
proof -
  have "List.map_filter (\<lambda>ext. let normalized = norm ext in if normalized = [] then None
      else map_option (\<lambda>idx. if idx \<le> u16_max then idx else 0) (position_of normalized (di_ext_names d))) terms = []"
    using assms position_of_None [of _ "di_ext_names d"] by (auto simp: List.map_filter_def filter_empty_conv Let_def split: if_splits)
  then show ?thesis by (simp add: resolve_ext_ids_def)
qed

lemma skipped_resolves_nothing:
  assumes "sizing_fits sizing" and "filter_current fx sizing (d, bl)" and "\<forall>t \<in> set terms. norm t = t"
    and "decide_for_ext_filter fx bl terms = Some Skip"
  shows "resolve_ext_ids norm terms d = []"
proof (rule resolve_nothing, intro ballI conjI)
  obtain b where b: "bl = Some b" using assms(4) by (auto simp: decide_for_ext_filter_def split: if_splits option.splits)
  with assms(2) have "build_bloom fx sizing d = Some b" by (simp add: filter_current_def)
  with build_bloom_has [OF assms(1), of fx d] have ok: "bloom_ok b" "\<forall>ext \<in> set (di_ext_names d). ext \<noteq> [] \<longrightarrow> bloom_contains fx b ext = Some True"
    by auto
  fix t assume t: "t \<in> set terms"
  with assms(3) show "norm t = t" by blast
  from decide_keep [of bl fx terms] assms(4) ok(1) b t have "bloom_contains fx b t \<noteq> Some True" by auto
  with ok(2) show "t = [] \<or> t \<notin> set (di_ext_names d)" by blast
qed

lemma retain_drives_spec:
  "\<forall>x \<in> set drives. \<exists>decision. decide_for_ext_filter fx (snd x) terms = Some decision \<Longrightarrow>
   retain_drives fx terms drives = Some (filter (\<lambda>x. decide_for_ext_filter fx (snd x) terms = Some Keep) drives)"
proof (induction drives)
  case (Cons x drives)
  then show ?case by (cases x) (auto split: bloom_decision.splits)
qed simp

text \<open>
  C9. The Bloom pre-check loses no drive it should search: with filters that are absent or built from
  the drives as they are, whatever the hash function, the check returns some of the drives in order, and
  on every drive it drops no wanted extension is known at all, so no record can match.
\<close>

theorem bloom_pre_check_sound:
  assumes "sizing_fits sizing" and "\<forall>x \<in> set drives. filter_current fx sizing x" and "\<forall>t \<in> set terms. norm t = t"
  shows "\<exists>kept. apply_bloom_pre_check fx terms drives = Some kept \<and> subseq kept drives
    \<and> (\<forall>x \<in> set drives. x \<notin> set kept \<longrightarrow> resolve_ext_ids norm terms (fst x) = [])"
proof (cases "terms = []")
  case True
  then show ?thesis by (simp add: apply_bloom_pre_check_def)
next
  case False
  have total: "\<exists>decision. decide_for_ext_filter fx (snd x) terms = Some decision" if "x \<in> set drives" for x
  proof -
    have "snd x = None \<or> (\<exists>b. snd x = Some b \<and> bloom_ok b)"
      using assms(2) that build_bloom_has [OF assms(1), of fx "fst x"] by (cases "snd x") (auto simp: filter_current_def)
    from decide_keep [OF this, of fx terms] show ?thesis by blast
  qed
  let ?kept = "filter (\<lambda>x. decide_for_ext_filter fx (snd x) terms = Some Keep) drives"
  have "apply_bloom_pre_check fx terms drives = Some ?kept"
    using retain_drives_spec [of drives fx terms] total False by (simp add: apply_bloom_pre_check_def)
  moreover have "resolve_ext_ids norm terms (fst x) = []" if x: "x \<in> set drives" "x \<notin> set ?kept" for x
  proof -
    obtain decision where "decide_for_ext_filter fx (snd x) terms = Some decision" using total [OF x(1)] by blast
    with x have "decide_for_ext_filter fx (snd x) terms = Some Skip" by (cases decision) simp_all
    moreover have "filter_current fx sizing (fst x, snd x)" using assms(2) x(1) by simp
    ultimately show ?thesis by (intro skipped_resolves_nothing [OF assms(1) _ assms(3)])
  qed
  ultimately show ?thesis by (intro exI [of _ ?kept]) simp
qed

theorem bloom_pre_check_sound_witness:
  "\<exists>kept. apply_bloom_pre_check (\<lambda>seed key. seed) [[0x63]] [(demo_drive, None)] = Some kept \<and> subseq kept [(demo_drive, None)]"
proof -
  have "sizing_fits (\<lambda>n. (1024, 7))" by (simp add: sizing_fits_def u64_max_def)
  from bloom_pre_check_sound [OF this, of "[(demo_drive, None)]" "\<lambda>seed key. seed" "[[0x63]]" id] show ?thesis
    by (auto simp: filter_current_def)
qed

text \<open>A batch with one new file \<open>a.c\<close> on an empty drive, and the filter the drive carried before.\<close>

definition demo_file :: file_change where "demo_file = (demo_create 1 0)\<lparr>fc_filename := [0x61, 0x2E, 0x63]\<rparr>"

lemma demo_file_fields [simp]:
  "fc_frs demo_file = 1" "fc_parent_frs demo_file = 0" "fc_filename demo_file = [0x61, 0x2E, 0x63]"
  "fc_created demo_file" "\<not> fc_deleted demo_file" "\<not> fc_renamed demo_file" "fc_meta demo_file = None"
  by (simp_all add: demo_file_def demo_create_def file_change_new_def)

lemma demo_file_intern: "intern_extension id [0x61, 0x2E, 0x63] demo_drive = (1, demo_drive\<lparr>di_ext_names := [[], [0x63]]\<rparr>)"
  by (simp add: intern_extension_def demo_drive_def u16_max_def)

lemma demo_file_order: "order_parent_first [demo_file] = [demo_file]"
  by (simp add: order_parent_first_def waits_for_def note_create_def release.simps)

lemma demo_file_run:
  "\<exists>r. di_records (ps_drive (apply_changes id [demo_file] demo_drive)) = [r] \<and> cr_parent_idx r = u32_max \<and> cr_extension_id r = 1
     \<and> cr_name_len r = 3 \<and> di_ext_names (ps_drive (apply_changes id [demo_file] demo_drive)) = [[], [0x63]]"
proof -
  have slot: "compact_slot demo_drive f = u32_max" for f by (simp add: compact_slot_def demo_drive_def vec_get_def)
  show ?thesis
    by (simp add: apply_changes_def demo_file_order apply_change_def apply_create_def stage_create_def demo_file_intern Let_def slot patch_start_def
        new_record_def len_to_u16_def u16_max_def) (simp add: demo_drive_def)
qed

lemma demo_file_ready:
  "room (length [demo_file]) (batch_bytes [demo_file]) demo_drive"
  "links_ranked id (di_records (ps_drive (apply_changes id [demo_file] demo_drive)))"
proof -
  show "room (length [demo_file]) (batch_bytes [demo_file]) demo_drive"
    by (simp add: room_def batch_bytes_def demo_drive_def trigram_load_def u32_max_def)
  show "links_ranked id (di_records (ps_drive (apply_changes id [demo_file] demo_drive)))"
    using demo_file_run by (auto simp: links_ranked_def u32_max_def)
qed

lemma empty_filter_misses:
  assumes "bloom_ok b" and "\<forall>w \<in> set (bl_bits b). w = 0"
  shows "bloom_contains fx b key = Some False"
proof -
  obtain pos where pos: "bit_index b (fst (base_hashes fx key)) (snd (base_hashes fx key)) 0 = Some pos" "pos < bl_nbits b"
    using bit_index_some [OF assms(1)] by metis
  have "pos \<in> probes b (fst (base_hashes fx key)) (snd (base_hashes fx key)) [0..<bl_k_hashes b]"
    using pos(1) assms(1) by (auto simp: probes_def bloom_ok_def intro!: bexI [of _ 0])
  moreover have "\<not> bit_set b pos" using assms(2) nth_mem [OF word_in_range [OF assms(1) pos(2)]] by (auto simp: bit_set_def)
  ultimately show ?thesis using bloom_contains_spec [OF assms(1), of fx key] by auto
qed

text \<open>
  A filter is not refreshed by a journal batch, so the pre-check can lose a file. A drive carries the
  filter built from it while empty; a batch creates \<open>a.c\<close>; the index then finds the file under its
  extension, but the pre-check for that extension drops the drive, whatever the hash function.
\<close>

theorem stale_bloom_hides_new_extension:
  assumes "sizing_fits sizing"
  shows "\<exists>b stats d'. build_bloom fx sizing demo_drive = Some b \<and> apply_usn_patch rev id [demo_file] demo_drive = Some (stats, d')
    \<and> resolve_ext_ids id [[0x63]] d' = [1] \<and> records_with_ext d' 1 = [0]
    \<and> apply_bloom_pre_check fx [[0x63]] [(d', Some b)] = Some []"
proof -
  obtain b where b: "with_capacity_and_fpr sizing 1 = Some b" "bloom_ok b" "\<forall>w \<in> set (bl_bits b). w = 0"
    using with_capacity_ok [OF assms, of 1] by auto
  have "u64_sat_add 0 (Suc 0) = 1" by (simp add: u64_sat_add_def u64_max_def)
  then have build: "build_bloom fx sizing demo_drive = Some b"
    using b(1) by (simp add: build_bloom_def demo_drive_def List.map_filter_def)
  obtain stats d' where d': "apply_usn_patch rev id [demo_file] demo_drive = Some (stats, d')" "drive_ok d'"
    "strip_pl (di_records d') = strip_pl (di_records (ps_drive (apply_changes id [demo_file] demo_drive)))"
    "di_ext_names d' = di_ext_names (ps_drive (apply_changes id [demo_file] demo_drive))"
    using usn_patch_total [OF demo_patch_ready(1) demo_file_ready(1) _ demo_file_ready(2), of rev] by auto
  obtain r where r: "di_records (ps_drive (apply_changes id [demo_file] demo_drive)) = [r]" "cr_extension_id r = 1" "cr_name_len r = 3"
    "di_ext_names d' = [[], [0x63]]"
    using demo_file_run d'(4) by auto
  have n: "length (di_records d') = 1" using strip_pl_length [OF d'(3)] r(1) by simp
  moreover have "cr_extension_id (di_records d' ! 0) = 1" "cr_name_len (di_records d' ! 0) = 3"
    using strip_pl_fields [OF d'(3), of 0] r by simp_all
  ultimately have "records_with_ext d' 1 = [0]"
    using records_with_ext_exact [of d' 1] d'(2) by (simp add: drive_ok_def live_def)
  moreover have "resolve_ext_ids id [[0x63]] d' = [1]" by (simp add: resolve_ext_ids_def r(4) List.map_filter_def u16_max_def)
  moreover have "apply_bloom_pre_check fx [[0x63]] [(d', Some b)] = Some []"
    using empty_filter_misses [OF b(2,3), of fx "[0x63]"] by (simp add: apply_bloom_pre_check_def decide_for_ext_filter_def)
  ultimately show ?thesis using build d'(1) by blast
qed

theorem stale_bloom_hides_new_extension_witness:
  "\<exists>b stats d'. build_bloom (\<lambda>seed key. seed) (\<lambda>n. (1024, 7)) demo_drive = Some b
    \<and> apply_usn_patch rev id [demo_file] demo_drive = Some (stats, d') \<and> records_with_ext d' 1 = [0]
    \<and> apply_bloom_pre_check (\<lambda>seed key. seed) [[0x63]] [(d', Some b)] = Some []"
proof -
  have "sizing_fits (\<lambda>n. (1024, 7))" by (simp add: sizing_fits_def u64_max_def)
  from stale_bloom_hides_new_extension [OF this, of "\<lambda>seed key. seed"] show ?thesis by blast
qed

end
