(* ===== verification/Path_Resolve.thy ===== *)
theory Path_Resolve
  imports Compact_Index
begin

text \<open>
  Full paths and result rows. The first part resolves the path of a record by walking up its parent links,
  with and without the directory caches (\<open>crates/uffs-core/src/search/tree.rs\<close>), and renders names that are
  not valid UTF-8 (\<open>compact/record.rs\<close>). The second part turns record indices into result rows, one after
  the other or in parallel chunks (\<open>search/query/row_resolve.rs\<close>, \<open>search/query/mod.rs\<close>, \<open>search/display_row.rs\<close>).

  A string is its list of UTF-8 bytes. A cache is a partial map from record indices.
\<close>

section \<open>Names\<close>

datatype malformed_render = Lossy | Normalized

text \<open>
  \<open>Utf8Error\<close>: \<open>valid_up_to\<close> is the length of the longest valid prefix, \<open>error_len\<close> the length of the offending
  sequence behind it, \<open>None\<close> when the input ends inside a sequence.
\<close>

function valid_up_to :: "bytes \<Rightarrow> nat" where
  "valid_up_to bs = (case utf8_next bs of None \<Rightarrow> 0 | Some (c, r) \<Rightarrow> (length bs - length r) + valid_up_to r)"
  by pat_completeness auto
termination
  by (relation "measure length") (auto dest: utf8_next_shorter)

declare valid_up_to.simps [simp del]

fun bad_tail :: "nat \<Rightarrow> nat \<Rightarrow> bytes \<Rightarrow> nat option" where
  "bad_tail seen 0 bs = Some seen"
| "bad_tail seen (Suc n) [] = None"
| "bad_tail seen (Suc n) (b # bs) = (if cont_byte b then bad_tail (Suc seen) n bs else Some seen)"

definition error_len :: "bytes \<Rightarrow> nat option" where
  "error_len bs =
     (case bs of
        [] \<Rightarrow> None
      | b0 # rest \<Rightarrow>
          (let n = unat b0 in
           if 0xC2 \<le> n \<and> n \<le> 0xDF then bad_tail 1 1 rest
           else if 0xE0 \<le> n \<and> n \<le> 0xF4 then
             (case rest of
                [] \<Rightarrow> None
              | b1 # others \<Rightarrow> if utf8_second_ok n b1 then bad_tail 2 (if n \<le> 0xEF then 1 else 2) others else Some 1)
           else Some 1))"

definition FFFD :: bytes where "FFFD = [0xEF, 0xBF, 0xBD]"

definition hex_digit :: "nat \<Rightarrow> u8" where
  "hex_digit n = of_nat (if n < 10 then 0x30 + n else 0x37 + n)"

definition bad_unit :: "u8 \<Rightarrow> u8 \<Rightarrow> bytes" where
  "bad_unit b1 b2 =
     (let unit = 0xD000 OR (((unat b1) AND 0x3F) * 64) OR ((unat b2) AND 0x3F) in
      ascii_bytes ''<BAD:'' @ map (\<lambda>shift. hex_digit (unit div 2 ^ shift mod 16)) [12, 8, 4, 0] @ ascii_bytes ''>'')"

text \<open>The marker for the bytes at an error position, and what is left behind them.\<close>

definition render_bad :: "bytes \<Rightarrow> malformed_render \<Rightarrow> bytes \<times> bytes" where
  "render_bad bad render =
     (let other = ((case render of Lossy \<Rightarrow> FFFD | Normalized \<Rightarrow> ascii_bytes ''<BAD>''),
                   drop (min (case error_len bad of None \<Rightarrow> 1 | Some n \<Rightarrow> n) (length bad)) bad)
      in case bad of
           b0 # b1 # b2 # rest \<Rightarrow>
             if b0 = 0xED \<and> 0xA0 \<le> b1 \<and> b1 \<le> 0xBF \<and> 0x80 \<le> b2 \<and> b2 \<le> 0xBF
             then ((case render of Lossy \<Rightarrow> FFFD | Normalized \<Rightarrow> bad_unit b1 b2), rest)
             else other
         | _ \<Rightarrow> other)"

lemma bad_tail_ge: "bad_tail seen n bs = Some k \<Longrightarrow> seen \<le> k"
  by (induction seen n bs rule: bad_tail.induct) (auto split: if_splits)

lemma error_len_pos: "error_len bs = Some n \<Longrightarrow> 0 < n"
  by (auto simp: error_len_def Let_def split: list.splits if_splits dest!: bad_tail_ge)

lemma render_bad_shorter: "bad \<noteq> [] \<Longrightarrow> length (snd (render_bad bad render)) < length bad"
proof -
  assume "bad \<noteq> []"
  then have "0 < min (case error_len bad of None \<Rightarrow> 1 | Some n \<Rightarrow> n) (length bad)"
    using error_len_pos [of bad] by (auto split: option.split)
  with \<open>bad \<noteq> []\<close> show ?thesis by (auto simp: render_bad_def Let_def split: list.splits)
qed

lemma valid_up_to_all: "valid_up_to bs = length bs \<longleftrightarrow> utf8_valid bs"
proof (induction bs rule: valid_up_to.induct)
  case (1 bs)
  show ?case
  proof (cases "utf8_next bs")
    case None
    then have "valid_up_to bs = 0" by (simp add: valid_up_to.simps [of bs])
    moreover from None have "utf8_valid bs \<longleftrightarrow> bs = []" by (simp add: utf8_valid_def utf8_chars.simps [of bs])
    ultimately show ?thesis by auto
  next
    case (Some p)
    then obtain c r where r: "utf8_next bs = Some (c, r)" by (cases p) auto
    then have len: "length r < length bs" by (rule utf8_next_shorter)
    from r have "valid_up_to bs = (length bs - length r) + valid_up_to r" by (simp add: valid_up_to.simps [of bs])
    moreover from r len have "utf8_valid bs \<longleftrightarrow> utf8_valid r" by (auto simp: utf8_valid_def utf8_chars.simps [of bs])
    ultimately show ?thesis using 1 [OF r refl] len by arith
  qed
qed

lemma valid_up_to_le: "valid_up_to bs \<le> length bs"
proof (induction bs rule: valid_up_to.induct)
  case (1 bs)
  show ?case
  proof (cases "utf8_next bs")
    case (Some p)
    then obtain c r where r: "utf8_next bs = Some (c, r)" by (cases p) auto
    then show ?thesis using 1 [OF r refl] utf8_next_shorter [OF r] by (simp add: valid_up_to.simps [of bs])
  qed (simp add: valid_up_to.simps [of bs])
qed

function render_malformed :: "bytes \<Rightarrow> malformed_render \<Rightarrow> bytes" where
  "render_malformed rest render =
     (if rest = [] then []
      else if utf8_valid rest then rest
      else
        (let good = valid_up_to rest in
         take good rest @ fst (render_bad (drop good rest) render)
           @ render_malformed (snd (render_bad (drop good rest) render)) render))"
  by pat_completeness auto
termination
proof (relation "measure (\<lambda>(rest, render). length rest)")
  fix rest :: bytes and render good
  assume "rest \<noteq> []" "\<not> utf8_valid rest" "good = valid_up_to rest"
  then have "valid_up_to rest < length rest" using valid_up_to_all [of rest] valid_up_to_le [of rest] by simp
  then have "drop good rest \<noteq> []" using \<open>good = _\<close> by simp
  from render_bad_shorter [OF this, of render]
  show "((snd (render_bad (drop good rest) render), render), (rest, render)) \<in> measure (\<lambda>(rest, render). length rest)"
    by auto
qed simp

declare render_malformed.simps [simp del]

definition name_display_with :: "compact_record \<Rightarrow> bytes \<Rightarrow> malformed_render \<Rightarrow> bytes" where
  "name_display_with r names render =
     (let bs = name_bytes r names in if utf8_valid bs then bs else render_malformed bs render)"

section \<open>The parent walk\<close>

definition chain_end :: "bytes \<Rightarrow> bool" where
  "chain_end bs \<longleftrightarrow> bs = [] \<or> bs = [0x2E]"

text \<open>
  The walk up the parent links: it stops at a cached directory, a missing record, a nameless record, the
  root or after 257 records. It gives the walked records and the cached directory it stopped at.
\<close>

function walk_up :: "(nat \<Rightarrow> bytes option) \<Rightarrow> drive_index \<Rightarrow> nat \<Rightarrow> nat \<Rightarrow> nat list \<Rightarrow> nat list \<times> (nat \<times> bytes) option" where
  "walk_up cache d depth current chain =
     (if depth > 256 then (chain, None)
      else case cache (len_to_u32 current) of
        Some cached \<Rightarrow> (chain, Some (current, cached))
      | None \<Rightarrow>
          (case vec_get (di_records d) current of
             None \<Rightarrow> (chain, None)
           | Some r \<Rightarrow>
               if chain_end (name_bytes r (di_names d)) then (chain, None)
               else if cr_parent_idx r = u32_max then (chain @ [current], None)
               else walk_up cache d (depth + 1) (cr_parent_idx r) (chain @ [current])))"
  by pat_completeness auto
termination
  by (relation "measure (\<lambda>(cache, d, depth, current, chain). 257 - depth)") auto

declare walk_up.simps [simp del]

definition push_component :: "bytes \<Rightarrow> bytes \<Rightarrow> bytes" where
  "push_component path name = (if path \<noteq> [] \<and> last path \<noteq> 0x5C then path @ [0x5C] else path) @ name"

text \<open>One turn of the loops that build the path: a record that is gone or nameless adds nothing.\<close>

definition add_segment :: "drive_index \<Rightarrow> malformed_render \<Rightarrow> nat \<Rightarrow> bytes \<Rightarrow> bytes" where
  "add_segment d render idx path =
     (case vec_get (di_records d) idx of
        None \<Rightarrow> path
      | Some r \<Rightarrow>
          if chain_end (name_bytes r (di_names d)) then path
          else push_component path (name_display_with r (di_names d) render))"

type_synonym dir_cache = "nat \<rightharpoonup> bytes"
type_synonym malformed_cache = "nat \<rightharpoonup> bool"

definition or_insert :: "nat \<Rightarrow> 'v \<Rightarrow> (nat \<rightharpoonup> 'v) \<Rightarrow> (nat \<rightharpoonup> 'v)" where
  "or_insert k v m = (case m k of None \<Rightarrow> m(k \<mapsto> v) | Some _ \<Rightarrow> m)"

definition cache_segment :: "drive_index \<Rightarrow> malformed_render \<Rightarrow> nat \<Rightarrow> bytes \<times> dir_cache \<Rightarrow> bytes \<times> dir_cache" where
  "cache_segment d render idx = (\<lambda>(dir_path, cache).
     (case vec_get (di_records d) idx of
        None \<Rightarrow> (dir_path, cache)
      | Some r \<Rightarrow>
          if chain_end (name_bytes r (di_names d)) then (dir_path, cache)
          else
            (let dir_path' = push_component dir_path (name_display_with r (di_names d) render)
             in (dir_path', if is_directory_record r then or_insert (len_to_u32 idx) dir_path' cache else cache))))"

definition resolve_path_inner ::
  "drive_index \<Rightarrow> nat \<Rightarrow> bytes \<Rightarrow> dir_cache option \<Rightarrow> malformed_render \<Rightarrow> bytes \<times> dir_cache option"
where
  "resolve_path_inner d record_idx volume_prefix cache render =
     (case walk_up (case cache of None \<Rightarrow> Map.empty | Some c \<Rightarrow> c) d 0 record_idx [] of
        (chain, hit) \<Rightarrow>
          (let pre = (case hit of None \<Rightarrow> volume_prefix | Some (_, cached) \<Rightarrow> cached)
           in (fold (add_segment d render) (rev chain) pre,
               map_option (\<lambda>c. snd (fold (cache_segment d render) (rev chain) (pre, c))) cache)))"

definition resolve_path :: "drive_index \<Rightarrow> nat \<Rightarrow> bytes \<Rightarrow> malformed_render \<Rightarrow> bytes" where
  "resolve_path d record_idx volume_prefix render = fst (resolve_path_inner d record_idx volume_prefix None render)"

definition resolve_path_cached ::
  "drive_index \<Rightarrow> nat \<Rightarrow> bytes \<Rightarrow> dir_cache \<Rightarrow> malformed_render \<Rightarrow> bytes \<times> dir_cache"
where
  "resolve_path_cached d record_idx volume_prefix cache render =
     (case resolve_path_inner d record_idx volume_prefix (Some cache) render of
        (path, cache') \<Rightarrow> (path, case cache' of None \<Rightarrow> cache | Some c \<Rightarrow> c))"

text \<open>The state of the building loop of the second resolver: path, bit, directory path, bit and both caches.\<close>

record build_state =
  bs_path :: bytes
  bs_malformed :: bool
  bs_dir_path :: bytes
  bs_dir_malformed :: bool
  bs_dir_cache :: dir_cache
  bs_mal_cache :: malformed_cache

definition build_segment :: "drive_index \<Rightarrow> malformed_render \<Rightarrow> nat \<Rightarrow> build_state \<Rightarrow> build_state" where
  "build_segment d render idx s =
     (case vec_get (di_records d) idx of
        None \<Rightarrow> s
      | Some r \<Rightarrow>
          (let bs = name_bytes r (di_names d) in
           if chain_end bs then s
           else
             (let bad = (\<not> utf8_valid bs); name = name_display_with r (di_names d) render; key = len_to_u32 idx;
                  dir_path = push_component (bs_dir_path s) name; dir_malformed = (bs_dir_malformed s \<or> bad)
              in s\<lparr>bs_path := push_component (bs_path s) name, bs_malformed := (bs_malformed s \<or> bad),
                   bs_dir_path := dir_path, bs_dir_malformed := dir_malformed,
                   bs_dir_cache := (if is_directory_record r then or_insert key dir_path (bs_dir_cache s) else bs_dir_cache s),
                   bs_mal_cache := (if is_directory_record r then or_insert key dir_malformed (bs_mal_cache s) else bs_mal_cache s)\<rparr>)))"

definition resolve_path_cached_with_malformed ::
  "drive_index \<Rightarrow> nat \<Rightarrow> bytes \<Rightarrow> dir_cache \<Rightarrow> malformed_cache \<Rightarrow> malformed_render
    \<Rightarrow> (bytes \<times> bool) \<times> dir_cache \<times> malformed_cache"
where
  "resolve_path_cached_with_malformed d record_idx volume_prefix cache mal_cache render =
     (case walk_up cache d 0 record_idx [] of
        (chain, hit) \<Rightarrow>
          (let pre = (case hit of None \<Rightarrow> volume_prefix | Some (_, cached) \<Rightarrow> cached);
               bad = (case hit of None \<Rightarrow> False
                      | Some (idx, _) \<Rightarrow> (case mal_cache (len_to_u32 idx) of None \<Rightarrow> False | Some b \<Rightarrow> b));
               s = fold (build_segment d render) (rev chain)
                     \<lparr>bs_path = pre, bs_malformed = bad, bs_dir_path = pre, bs_dir_malformed = bad,
                      bs_dir_cache = cache, bs_mal_cache = mal_cache\<rparr>
           in ((bs_path s, bs_malformed s), bs_dir_cache s, bs_mal_cache s)))"

section \<open>Rows\<close>

record display_row =
  dr_record_index :: nat
  dr_path :: bytes
  dr_name_start :: nat
  dr_size :: nat
  dr_is_directory :: bool
  dr_modified :: int
  dr_created :: int
  dr_accessed :: int
  dr_flags :: u32
  dr_allocated :: nat
  dr_descendants :: nat
  dr_treesize :: nat
  dr_tree_allocated :: nat
  dr_malformed :: bool
  dr_malformed_path :: bool
  dr_name_hex :: "bytes option"
  dr_file_reference :: u64

text \<open>The position behind the last backslash, as \<open>rfind\<close> gives it.\<close>

fun after_last_sep :: "bytes \<Rightarrow> nat option" where
  "after_last_sep [] = None"
| "after_last_sep (b # bs) =
     (case after_last_sep bs of Some p \<Rightarrow> Some (Suc p) | None \<Rightarrow> if b = 0x5C then Some 1 else None)"

definition row_name_start :: "bytes \<Rightarrow> nat" where
  "row_name_start path = len_to_u32 (case after_last_sep path of None \<Rightarrow> 0 | Some p \<Rightarrow> p)"

definition row_name :: "display_row \<Rightarrow> bytes" where
  "row_name row = (if dr_name_start row \<le> length (dr_path row) then drop (dr_name_start row) (dr_path row) else [])"

definition path_dir :: "display_row \<Rightarrow> bytes" where
  "path_dir row = (if dr_name_start row \<le> length (dr_path row) then take (dr_name_start row) (dr_path row) else dr_path row)"

definition nibble :: "u8 \<Rightarrow> u8" where
  "nibble v = (if unat v < 10 then of_nat (0x30 + unat v) else if unat v < 16 then of_nat (0x57 + unat v) else 0x3F)"

definition hex_encode :: "bytes \<Rightarrow> bytes" where
  "hex_encode bs = concat (map (\<lambda>b. [nibble (drop_bit 4 b), nibble (b AND 0x0F)]) bs)"

record row_forensics =
  rf_malformed :: bool
  rf_malformed_path :: bool
  rf_name_hex :: "bytes option"

definition row_forensics_of :: "compact_record \<Rightarrow> bytes \<Rightarrow> bool \<Rightarrow> row_forensics" where
  "row_forensics_of r names path_malformed =
     (let bs = name_bytes r names; malformed = (\<not> utf8_valid bs)
      in \<lparr>rf_malformed = malformed, rf_malformed_path = (path_malformed \<or> malformed),
          rf_name_hex = (if malformed then Some (hex_encode bs) else None)\<rparr>)"

definition make_display_row :: "nat \<Rightarrow> compact_record \<Rightarrow> bytes \<Rightarrow> bytes \<Rightarrow> row_forensics \<Rightarrow> display_row" where
  "make_display_row record_index r name path forensics =
     (let is_ads = (0x3A \<in> set name) in
      \<lparr>dr_record_index = record_index, dr_path = path, dr_name_start = row_name_start path, dr_size = cr_size r,
       dr_is_directory = (is_directory_record r \<and> \<not> is_ads), dr_modified = cr_modified r, dr_created = cr_created r,
       dr_accessed = cr_accessed r, dr_flags = cr_flags r, dr_allocated = cr_allocated r, dr_descendants = cr_descendants r,
       dr_treesize = cr_treesize r, dr_tree_allocated = cr_tree_allocated r, dr_malformed = rf_malformed forensics,
       dr_malformed_path = rf_malformed_path forensics, dr_name_hex = rf_name_hex forensics, dr_file_reference = cr_file_ref r\<rparr>)"

definition RESOLVE_CHUNK_SIZE :: nat where "RESOLVE_CHUNK_SIZE = 4096"

text \<open>The shared row loop over indices, with the caches it threads.\<close>

fun rows_loop ::
  "drive_index \<Rightarrow> bytes \<Rightarrow> malformed_render \<Rightarrow> nat list \<Rightarrow> dir_cache \<Rightarrow> malformed_cache \<Rightarrow> display_row list"
where
  "rows_loop d volume_prefix render [] cache mal_cache = []"
| "rows_loop d volume_prefix render (idx # indices) cache mal_cache =
     (case vec_get (di_records d) idx of
        None \<Rightarrow> rows_loop d volume_prefix render indices cache mal_cache
      | Some r \<Rightarrow>
          (let name = record_name r (di_names d) in
           if name = [] then rows_loop d volume_prefix render indices cache mal_cache
           else case resolve_path_cached_with_malformed d idx volume_prefix cache mal_cache render of
             ((path, bad), cache', mal_cache') \<Rightarrow>
               make_display_row idx r name path (row_forensics_of r (di_names d) bad)
                 # rows_loop d volume_prefix render indices cache' mal_cache'))"

definition indices_to_rows_sequential :: "drive_index \<Rightarrow> nat list \<Rightarrow> bytes \<Rightarrow> malformed_render \<Rightarrow> display_row list" where
  "indices_to_rows_sequential d indices volume_prefix render =
     rows_loop d volume_prefix render indices Map.empty Map.empty"

definition indices_to_rows_parallel :: "drive_index \<Rightarrow> nat list \<Rightarrow> bytes \<Rightarrow> malformed_render \<Rightarrow> display_row list" where
  "indices_to_rows_parallel d indices volume_prefix render =
     concat (map (\<lambda>chunk. rows_loop d volume_prefix render chunk Map.empty Map.empty) (chunks RESOLVE_CHUNK_SIZE indices))"

definition indices_to_rows :: "drive_index \<Rightarrow> nat list \<Rightarrow> bytes \<Rightarrow> malformed_render \<Rightarrow> display_row list" where
  "indices_to_rows d indices volume_prefix render =
     (if length indices < RESOLVE_CHUNK_SIZE then indices_to_rows_sequential d indices volume_prefix render
      else indices_to_rows_parallel d indices volume_prefix render)"

section \<open>Ancestors\<close>

text \<open>
  A record is \<open>rooted\<close> when the walk up its parents ends by itself within the given number of records; its
  lineage is the list of named records on the way, the outermost first.
\<close>

fun rooted :: "drive_index \<Rightarrow> nat \<Rightarrow> nat \<Rightarrow> bool" where
  "rooted d 0 i \<longleftrightarrow> False"
| "rooted d (Suc n) i \<longleftrightarrow>
     (case vec_get (di_records d) i of
        None \<Rightarrow> True
      | Some r \<Rightarrow> chain_end (name_bytes r (di_names d)) \<or> cr_parent_idx r = u32_max \<or> rooted d n (cr_parent_idx r))"

fun lineage :: "drive_index \<Rightarrow> nat \<Rightarrow> nat \<Rightarrow> nat list" where
  "lineage d 0 i = []"
| "lineage d (Suc n) i =
     (case vec_get (di_records d) i of
        None \<Rightarrow> []
      | Some r \<Rightarrow>
          if chain_end (name_bytes r (di_names d)) then []
          else (if cr_parent_idx r = u32_max then [] else lineage d n (cr_parent_idx r)) @ [i])"

definition shallow :: "drive_index \<Rightarrow> nat \<Rightarrow> bool" where "shallow d i \<longleftrightarrow> rooted d 257 i"
definition ancestry :: "drive_index \<Rightarrow> nat \<Rightarrow> nat list" where "ancestry d i = lineage d 257 i"

lemma rooted_Suc: "rooted d n i \<Longrightarrow> rooted d (Suc n) i \<and> lineage d (Suc n) i = lineage d n i"
proof (induction n arbitrary: i)
  case (Suc n)
  show ?case
  proof (cases "vec_get (di_records d) i")
    case (Some r)
    with Suc.prems Suc.IH [of "cr_parent_idx r"] show ?thesis
      by (simp only: rooted.simps lineage.simps option.case) auto
  qed (simp add: vec_get_def)
qed simp

lemma rooted_mono: "n \<le> m \<Longrightarrow> rooted d n i \<Longrightarrow> rooted d m i \<and> lineage d m i = lineage d n i"
proof (induction m rule: dec_induct)
  case (step m)
  then show ?case using rooted_Suc [of d m i] by simp
qed simp

lemma rooted_shallow:
  assumes "rooted d n i" and "n \<le> 257"
  shows "shallow d i" and "ancestry d i = lineage d n i"
  using rooted_mono [OF assms(2,1)] by (simp_all add: shallow_def ancestry_def)

text \<open>Every ancestor is itself shallow, and its ancestors come before it.\<close>

lemma lineage_split:
  "rooted d n i \<Longrightarrow> n \<le> 257 \<Longrightarrow> lineage d n i = xs @ j # ys \<Longrightarrow>
   shallow d j \<and> ancestry d j = xs @ [j] \<and> j < length (di_records d) \<and> \<not> chain_end (name_bytes (di_records d ! j) (di_names d))"
proof (induction n arbitrary: i ys)
  case (Suc n)
  then obtain r where r: "vec_get (di_records d) i = Some r" "\<not> chain_end (name_bytes r (di_names d))"
    by (auto split: option.splits if_splits)
  let ?up = "if cr_parent_idx r = u32_max then [] else lineage d n (cr_parent_idx r)"
  have lin: "lineage d (Suc n) i = ?up @ [i]" using r by simp
  have eq: "?up @ [i] = xs @ j # ys" using lin Suc.prems(3) by argo
  show ?case
  proof (cases ys rule: rev_cases)
    case Nil
    with eq have "?up = xs" "i = j" by simp_all
    then show ?thesis using rooted_shallow [OF Suc.prems(1,2)] lin r by (auto simp: vec_get_def split: if_splits)
  next
    case (snoc zs z)
    with eq have up: "?up = xs @ j # zs" by simp
    then have "cr_parent_idx r \<noteq> u32_max" by auto
    with up have "lineage d n (cr_parent_idx r) = xs @ j # zs" "rooted d n (cr_parent_idx r)"
      using Suc.prems(1) r by simp_all
    with Suc.IH Suc.prems(2) show ?thesis by simp
  qed
qed simp

lemmas ancestry_split = lineage_split [of d 257 i for d i, folded shallow_def ancestry_def, simplified]

section \<open>The walk finds the ancestors\<close>

definition path_of :: "drive_index \<Rightarrow> bytes \<Rightarrow> malformed_render \<Rightarrow> nat list \<Rightarrow> bytes" where
  "path_of d volume_prefix render line = fold (add_segment d render) line volume_prefix"

definition bad_line :: "drive_index \<Rightarrow> nat list \<Rightarrow> bool" where
  "bad_line d line \<longleftrightarrow> list_ex (\<lambda>j. is_name_malformed (di_records d ! j) (di_names d)) line"

definition dir_cache_ok :: "drive_index \<Rightarrow> bytes \<Rightarrow> malformed_render \<Rightarrow> dir_cache \<Rightarrow> bool" where
  "dir_cache_ok d volume_prefix render cache \<longleftrightarrow>
     (\<forall>k s. cache k = Some s \<longrightarrow> k < length (di_records d) \<and> shallow d k \<and> s = path_of d volume_prefix render (ancestry d k))"

definition mal_cache_ok :: "drive_index \<Rightarrow> dir_cache \<Rightarrow> malformed_cache \<Rightarrow> bool" where
  "mal_cache_ok d cache mal_cache \<longleftrightarrow>
     (\<forall>k. mal_cache k = (if cache k = None then None else Some (bad_line d (ancestry d k))))"

lemma dir_cache_okD:
  assumes "dir_cache_ok d vp render cache" and "length (di_records d) \<le> u32_max" and "cache (len_to_u32 k) = Some s"
  shows "len_to_u32 k = k" and "shallow d k" and "s = path_of d vp render (ancestry d k)"
proof -
  have "len_to_u32 k < length (di_records d)" "shallow d (len_to_u32 k)" "s = path_of d vp render (ancestry d (len_to_u32 k))"
    using assms by (auto simp: dir_cache_ok_def)
  moreover from this(1) show "len_to_u32 k = k" using assms(2) by (auto simp: len_to_u32_def split: if_splits)
  ultimately show "shallow d k" "s = path_of d vp render (ancestry d k)" by simp_all
qed

lemma walk_up_ancestry:
  assumes ok: "dir_cache_ok d vp render cache" and fits: "length (di_records d) \<le> u32_max"
  shows "rooted d n i \<Longrightarrow> n + depth \<le> 257 \<Longrightarrow> \<exists>ys hit. walk_up cache d depth i chain = (chain @ ys, hit) \<and>
     (case hit of None \<Rightarrow> ancestry d i = rev ys
      | Some (k, s) \<Rightarrow> cache (len_to_u32 k) = Some s \<and> ancestry d i = ancestry d k @ rev ys)"
proof (induction n arbitrary: i depth chain)
  case (Suc n)
  have anc: "ancestry d i = lineage d (Suc n) i" using rooted_shallow(2) [OF Suc.prems(1)] Suc.prems(2) by simp
  note step = walk_up.simps [of cache d depth i chain]
  have depth: "\<not> 256 < depth" using Suc.prems(2) by simp
  show ?case
  proof (cases "cache (len_to_u32 i)")
    case (Some s)
    then show ?thesis using depth by (simp add: step)
  next
    case miss: None
    show ?thesis
    proof (cases "vec_get (di_records d) i")
      case None
      then show ?thesis using miss depth anc by (simp add: step vec_get_def)
    next
      case (Some r)
      show ?thesis
      proof (cases "chain_end (name_bytes r (di_names d)) \<or> cr_parent_idx r = u32_max")
        case True
        then show ?thesis using Some miss depth anc by (auto simp: step)
      next
        case False
        then have root: "rooted d n (cr_parent_idx r)" using Suc.prems(1) Some by simp
        have up: "ancestry d (cr_parent_idx r) = lineage d n (cr_parent_idx r)" using rooted_shallow(2) [OF root] Suc.prems(2) by simp
        have here: "ancestry d i = ancestry d (cr_parent_idx r) @ [i]" unfolding anc up using False Some by simp
        from Suc.IH [OF root, of "depth + 1" "chain @ [i]"] Suc.prems(2) obtain ys hit where
          w: "walk_up cache d (depth + 1) (cr_parent_idx r) (chain @ [i]) = ((chain @ [i]) @ ys, hit)"
          and h: "case hit of None \<Rightarrow> ancestry d (cr_parent_idx r) = rev ys
            | Some (k, s) \<Rightarrow> cache (len_to_u32 k) = Some s \<and> ancestry d (cr_parent_idx r) = ancestry d k @ rev ys" by auto
        have "walk_up cache d depth i chain = (chain @ i # ys, hit)"
          unfolding step using depth miss Some False w by simp
        moreover have "case hit of None \<Rightarrow> ancestry d i = rev (i # ys)
            | Some (k, s) \<Rightarrow> cache (len_to_u32 k) = Some s \<and> ancestry d i = ancestry d k @ rev (i # ys)"
          using h here by (auto split: option.splits)
        ultimately show ?thesis by blast
      qed
    qed
  qed
qed simp

section \<open>Building fills the caches rightly\<close>

text \<open>The loop of the plain cached resolver is the second one without the bits.\<close>

lemma cache_segment_project:
  "fold (cache_segment d render) xs (bs_dir_path s, bs_dir_cache s) =
     (bs_dir_path (fold (build_segment d render) xs s), bs_dir_cache (fold (build_segment d render) xs s))"
proof (induction xs arbitrary: s)
  case (Cons x xs)
  have "cache_segment d render x (bs_dir_path s, bs_dir_cache s)
      = (bs_dir_path (build_segment d render x s), bs_dir_cache (build_segment d render x s))"
    by (auto simp: cache_segment_def build_segment_def Let_def split: option.split)
  with Cons show ?case by simp
qed simp

lemma build_segment_path:
  "bs_dir_path s = bs_path s \<Longrightarrow> bs_dir_malformed s = bs_malformed s \<Longrightarrow>
   bs_path (fold (build_segment d render) xs s) = fold (add_segment d render) xs (bs_path s)
   \<and> bs_dir_path (fold (build_segment d render) xs s) = fold (add_segment d render) xs (bs_path s)
   \<and> bs_dir_malformed (fold (build_segment d render) xs s) = bs_malformed (fold (build_segment d render) xs s)"
proof (induction xs arbitrary: s)
  case (Cons x xs)
  let ?s = "build_segment d render x s"
  have "bs_path ?s = add_segment d render x (bs_path s)" "bs_dir_path ?s = bs_path ?s" "bs_dir_malformed ?s = bs_malformed ?s"
    using Cons.prems by (auto simp: build_segment_def add_segment_def Let_def split: option.split)
  with Cons.IH [of ?s] show ?case by simp
qed simp

lemma or_insert_Some: "or_insert k v m k' = Some w \<Longrightarrow> m k' = Some w \<or> (k' = k \<and> w = v)"
  by (auto simp: or_insert_def split: option.splits if_splits)

lemma len_to_u32_below: "i < n \<Longrightarrow> n \<le> u32_max \<Longrightarrow> len_to_u32 i = i"
  by (simp add: len_to_u32_def)

text \<open>What the building loop keeps while it walks down a lineage: the caches are right, the paths and bits those of the walked part.\<close>

definition build_ok :: "drive_index \<Rightarrow> bytes \<Rightarrow> malformed_render \<Rightarrow> nat list \<Rightarrow> build_state \<Rightarrow> bool" where
  "build_ok d vp render base s \<longleftrightarrow> bs_dir_path s = path_of d vp render base \<and> bs_dir_malformed s = bad_line d base
     \<and> dir_cache_ok d vp render (bs_dir_cache s) \<and> mal_cache_ok d (bs_dir_cache s) (bs_mal_cache s)"

lemma build_segment_ok:
  assumes ok: "build_ok d vp render base s" and fits: "length (di_records d) \<le> u32_max"
    and j: "shallow d j" "ancestry d j = base @ [j]" "j < length (di_records d)" "\<not> chain_end (name_bytes (di_records d ! j) (di_names d))"
  shows "build_ok d vp render (base @ [j]) (build_segment d render j s)"
proof -
  let ?r = "di_records d ! j" and ?s = "build_segment d render j s"
  have get: "vec_get (di_records d) j = Some ?r" using j(3) by (simp add: vec_get_def)
  have path: "bs_dir_path ?s = path_of d vp render (base @ [j])" and bad: "bs_dir_malformed ?s = bad_line d (base @ [j])"
    using ok get j(4) by (auto simp: build_segment_def build_ok_def path_of_def bad_line_def add_segment_def is_name_malformed_def Let_def)
  have caches: "bs_dir_cache ?s = (if is_directory_record ?r then or_insert j (bs_dir_path ?s) (bs_dir_cache s) else bs_dir_cache s)"
    "bs_mal_cache ?s = (if is_directory_record ?r then or_insert j (bs_dir_malformed ?s) (bs_mal_cache s) else bs_mal_cache s)"
    using get j(4) len_to_u32_below [OF j(3) fits] by (simp_all add: build_segment_def Let_def)
  have "dir_cache_ok d vp render (bs_dir_cache ?s)"
    using ok j path unfolding caches by (auto simp: build_ok_def dir_cache_ok_def dest!: or_insert_Some)
  moreover have "mal_cache_ok d (bs_dir_cache ?s) (bs_mal_cache ?s)"
    using ok bad j(2) unfolding caches by (auto simp: build_ok_def mal_cache_ok_def or_insert_def split: option.split)
  ultimately show ?thesis using path bad by (simp add: build_ok_def)
qed

lemma build_line_ok:
  assumes fits: "length (di_records d) \<le> u32_max" and i: "shallow d i"
  shows "build_ok d vp render base s \<Longrightarrow> ancestry d i = base @ xs @ rest \<Longrightarrow> build_ok d vp render (base @ xs) (fold (build_segment d render) xs s)"
proof (induction xs arbitrary: base s)
  case (Cons j xs)
  then have "ancestry d i = base @ j # (xs @ rest)" by simp
  from ancestry_split [OF i this] have "build_ok d vp render (base @ [j]) (build_segment d render j s)"
    using build_segment_ok [OF Cons.prems(1) fits] by blast
  from Cons.IH [OF this] Cons.prems(2) show ?case by simp
qed simp

lemma fold_add_append: "fold (add_segment d render) xs (path_of d vp render base) = path_of d vp render (base @ xs)"
  by (simp add: path_of_def)

lemma resolve_path_shallow:
  assumes "shallow d i" and "length (di_records d) \<le> u32_max"
  shows "resolve_path d i vp render = path_of d vp render (ancestry d i)"
proof -
  have "dir_cache_ok d vp render Map.empty" by (simp add: dir_cache_ok_def)
  from walk_up_ancestry [OF this assms(2), of 257 i 0 "[]"] assms(1)
  obtain ys hit where "walk_up Map.empty d 0 i [] = (ys, hit)" "case hit of None \<Rightarrow> ancestry d i = rev ys | Some _ \<Rightarrow> False"
    by (auto simp: shallow_def split: option.splits)
  then have "walk_up Map.empty d 0 i [] = (ys, None)" "ancestry d i = rev ys" by (cases hit; simp)+
  then show ?thesis by (simp add: resolve_path_def resolve_path_inner_def path_of_def)
qed

text \<open>The start of the building loop behind the walk.\<close>

lemma walk_up_start:
  assumes "dir_cache_ok d vp render cache" and "mal_cache_ok d cache mal_cache" and "shallow d i" and "length (di_records d) \<le> u32_max"
  obtains ys hit base where "walk_up cache d 0 i [] = (ys, hit)" and "ancestry d i = base @ rev ys"
    and "(case hit of None \<Rightarrow> vp | Some (_, cached) \<Rightarrow> cached) = path_of d vp render base"
    and "(case hit of None \<Rightarrow> False | Some (idx, _) \<Rightarrow> (case mal_cache (len_to_u32 idx) of None \<Rightarrow> False | Some b \<Rightarrow> b)) = bad_line d base"
proof -
  from walk_up_ancestry [OF assms(1,4), of 257 i 0 "[]"] assms(3) obtain ys hit where w: "walk_up cache d 0 i [] = (ys, hit)"
    and h: "case hit of None \<Rightarrow> ancestry d i = rev ys
      | Some (k, s) \<Rightarrow> cache (len_to_u32 k) = Some s \<and> ancestry d i = ancestry d k @ rev ys"
    by (auto simp: shallow_def)
  show ?thesis
  proof (cases hit)
    case None
    with h that [OF w, of "[]"] show ?thesis by (simp add: path_of_def bad_line_def)
  next
    case (Some p)
    then obtain k s where k: "hit = Some (k, s)" by (cases p) auto
    with h have hk: "cache (len_to_u32 k) = Some s" "ancestry d i = ancestry d k @ rev ys" by simp_all
    note dk = dir_cache_okD [OF assms(1,4) hk(1)]
    have "mal_cache (len_to_u32 k) = Some (bad_line d (ancestry d k))"
      using assms(2) hk(1) dk(1) unfolding mal_cache_ok_def by (metis option.distinct(1))
    with that [OF w hk(2)] dk(3) k show ?thesis by simp
  qed
qed

lemma resolve_with_malformed_shallow:
  assumes "dir_cache_ok d vp render cache" and "mal_cache_ok d cache mal_cache" and "shallow d i" and "length (di_records d) \<le> u32_max"
  shows "\<exists>cache' mal_cache'. resolve_path_cached_with_malformed d i vp cache mal_cache render
      = ((path_of d vp render (ancestry d i), bad_line d (ancestry d i)), cache', mal_cache')
     \<and> dir_cache_ok d vp render cache' \<and> mal_cache_ok d cache' mal_cache'"
proof -
  obtain ys hit base where w: "walk_up cache d 0 i [] = (ys, hit)" "ancestry d i = base @ rev ys"
    "(case hit of None \<Rightarrow> vp | Some (_, cached) \<Rightarrow> cached) = path_of d vp render base"
    "(case hit of None \<Rightarrow> False | Some (idx, _) \<Rightarrow> (case mal_cache (len_to_u32 idx) of None \<Rightarrow> False | Some b \<Rightarrow> b)) = bad_line d base"
    using walk_up_start [OF assms] by metis
  define s where "s = \<lparr>bs_path = path_of d vp render base, bs_malformed = bad_line d base, bs_dir_path = path_of d vp render base,
    bs_dir_malformed = bad_line d base, bs_dir_cache = cache, bs_mal_cache = mal_cache\<rparr>"
  have "build_ok d vp render base s" using assms(1,2) by (simp add: s_def build_ok_def)
  from build_line_ok [OF assms(4,3) this, of "rev ys" "[]"] w(2)
  have ok: "build_ok d vp render (ancestry d i) (fold (build_segment d render) (rev ys) s)" by simp
  note p = build_segment_path [of s d render "rev ys"]
  let ?e = "fold (build_segment d render) (rev ys) s"
  have "resolve_path_cached_with_malformed d i vp cache mal_cache render = ((bs_path ?e, bs_malformed ?e), bs_dir_cache ?e, bs_mal_cache ?e)"
    unfolding resolve_path_cached_with_malformed_def w(1) by (simp add: Let_def w(3,4) s_def)
  moreover have "bs_path ?e = path_of d vp render (ancestry d i)" "bs_malformed ?e = bad_line d (ancestry d i)"
    using p ok w(2) by (simp_all add: s_def build_ok_def fold_add_append)
  ultimately show ?thesis using ok by (simp add: build_ok_def)
qed

lemma resolve_cached_shallow:
  assumes "dir_cache_ok d vp render cache" and "shallow d i" and "length (di_records d) \<le> u32_max"
  shows "\<exists>cache'. resolve_path_cached d i vp cache render = (path_of d vp render (ancestry d i), cache') \<and> dir_cache_ok d vp render cache'"
proof -
  define m where "m = (\<lambda>k. if cache k = None then None else Some (bad_line d (ancestry d k)))"
  have "mal_cache_ok d cache m" by (simp add: mal_cache_ok_def m_def)
  then obtain ys hit base where w: "walk_up cache d 0 i [] = (ys, hit)" "ancestry d i = base @ rev ys"
    "(case hit of None \<Rightarrow> vp | Some (_, cached) \<Rightarrow> cached) = path_of d vp render base"
    using walk_up_start [OF assms(1) _ assms(2,3)] by metis
  define s where "s = \<lparr>bs_path = path_of d vp render base, bs_malformed = bad_line d base, bs_dir_path = path_of d vp render base,
    bs_dir_malformed = bad_line d base, bs_dir_cache = cache, bs_mal_cache = m\<rparr>"
  have "build_ok d vp render base s" using assms(1) \<open>mal_cache_ok d cache m\<close> by (simp add: s_def build_ok_def)
  from build_line_ok [OF assms(3,2) this, of "rev ys" "[]"] w(2)
  have "dir_cache_ok d vp render (bs_dir_cache (fold (build_segment d render) (rev ys) s))" by (simp add: build_ok_def)
  then show ?thesis using w cache_segment_project [of d render "rev ys" s]
    by (simp add: resolve_path_cached_def resolve_path_inner_def Let_def fold_add_append s_def)
qed

section \<open>Threading a cache\<close>

text \<open>
  The contract of a cached resolver: from a valid cache it answers an admissible question like the
  reference, and leaves a valid cache. Questions answered one after the other then all agree with it.
\<close>

fun thread :: "('q \<Rightarrow> 'c \<Rightarrow> 'a \<times> 'c) \<Rightarrow> 'q list \<Rightarrow> 'c \<Rightarrow> 'a list" where
  "thread resolve [] c = []"
| "thread resolve (q # qs) c = (case resolve q c of (a, c') \<Rightarrow> a # thread resolve qs c')"

locale cached_resolver =
  fixes valid :: "'c \<Rightarrow> bool" and admissible :: "'q \<Rightarrow> bool" and resolve :: "'q \<Rightarrow> 'c \<Rightarrow> 'a \<times> 'c" and ref :: "'q \<Rightarrow> 'a"
  assumes exact: "valid c \<Longrightarrow> admissible q \<Longrightarrow> fst (resolve q c) = ref q"
    and keeps_valid: "valid c \<Longrightarrow> admissible q \<Longrightarrow> valid (snd (resolve q c))"
begin

lemma thread_exact: "valid c \<Longrightarrow> list_all admissible qs \<Longrightarrow> thread resolve qs c = map ref qs"
proof (induction qs arbitrary: c)
  case (Cons q qs)
  then show ?case using exact [of c q] keeps_valid [of c q] by (cases "resolve q c") simp
qed simp

end

definition resolvable :: "drive_index \<Rightarrow> nat \<Rightarrow> bool" where
  "resolvable d i \<longleftrightarrow> shallow d i \<and> length (di_records d) \<le> u32_max"

interpretation dir_cached: cached_resolver "dir_cache_ok d vp render" "resolvable d"
  "\<lambda>i cache. resolve_path_cached d i vp cache render" "\<lambda>i. resolve_path d i vp render" for d vp render
proof
  fix c q assume "dir_cache_ok d vp render c" "resolvable d q"
  with resolve_cached_shallow [of d vp render c q] resolve_path_shallow [of d q vp render]
  show "fst (resolve_path_cached d q vp c render) = resolve_path d q vp render"
    "dir_cache_ok d vp render (snd (resolve_path_cached d q vp c render))" by (auto simp: resolvable_def)
qed

interpretation malformed_cached: cached_resolver
  "\<lambda>(cache, mal_cache). dir_cache_ok d vp render cache \<and> mal_cache_ok d cache mal_cache" "resolvable d"
  "\<lambda>i (cache, mal_cache). resolve_path_cached_with_malformed d i vp cache mal_cache render"
  "\<lambda>i. (resolve_path d i vp render, bad_line d (ancestry d i))" for d vp render
proof
  fix c q assume "case c of (cache, mal_cache) \<Rightarrow> dir_cache_ok d vp render cache \<and> mal_cache_ok d cache mal_cache" "resolvable d q"
  then obtain cache mal_cache where c: "c = (cache, mal_cache)" "dir_cache_ok d vp render cache" "mal_cache_ok d cache mal_cache"
    "shallow d q" "length (di_records d) \<le> u32_max" by (auto simp: resolvable_def)
  from resolve_with_malformed_shallow [OF c(2-5)] resolve_path_shallow [OF c(4,5), of vp render]
  show "fst (case c of (cache, mal_cache) \<Rightarrow> resolve_path_cached_with_malformed d q vp cache mal_cache render)
      = (resolve_path d q vp render, bad_line d (ancestry d q))"
    "case snd (case c of (cache, mal_cache) \<Rightarrow> resolve_path_cached_with_malformed d q vp cache mal_cache render) of
      (cache, mal_cache) \<Rightarrow> dir_cache_ok d vp render cache \<and> mal_cache_ok d cache mal_cache" by (auto simp: c(1))
qed

section \<open>Rows\<close>

definition shown :: "drive_index \<Rightarrow> nat \<Rightarrow> bool" where
  "shown d i \<longleftrightarrow> i < length (di_records d) \<and> record_name (di_records d ! i) (di_names d) \<noteq> []"

definition row_at :: "drive_index \<Rightarrow> nat \<Rightarrow> bytes \<Rightarrow> bool \<Rightarrow> display_row" where
  "row_at d i path bad =
     (let r = di_records d ! i in make_display_row i r (record_name r (di_names d)) path (row_forensics_of r (di_names d) bad))"

lemma rows_loop_thread:
  "rows_loop d vp render indices cache mal_cache =
     map (\<lambda>(i, path, bad). row_at d i path bad) (zip (filter (shown d) indices)
       (thread (\<lambda>i (cache, mal_cache). resolve_path_cached_with_malformed d i vp cache mal_cache render) (filter (shown d) indices) (cache, mal_cache)))"
proof (induction indices arbitrary: cache mal_cache)
  case (Cons i indices)
  show ?case
  proof (cases "shown d i")
    case True
    then have "vec_get (di_records d) i = Some (di_records d ! i)" "record_name (di_records d ! i) (di_names d) \<noteq> []"
      by (simp_all add: shown_def vec_get_def)
    with True Cons.IH show ?thesis by (simp add: row_at_def Let_def split: prod.split)
  next
    case False
    then show ?thesis using Cons.IH by (auto simp: shown_def vec_get_def Let_def)
  qed
qed simp

lemma rows_loop_exact:
  assumes "list_all (resolvable d) indices"
  shows "rows_loop d vp render indices Map.empty Map.empty =
     map (\<lambda>i. row_at d i (resolve_path d i vp render) (bad_line d (ancestry d i))) (filter (shown d) indices)"
proof -
  have "dir_cache_ok d vp render Map.empty \<and> mal_cache_ok d Map.empty Map.empty" by (simp add: dir_cache_ok_def mal_cache_ok_def)
  moreover have "list_all (resolvable d) (filter (shown d) indices)" using assms by (auto simp: list_all_iff)
  ultimately show ?thesis
    unfolding rows_loop_thread by (subst malformed_cached.thread_exact) (simp_all add: zip_map2 zip_same_conv_map)
qed

lemma chunks_in: "0 < n \<Longrightarrow> ch \<in> set (chunks n xs) \<Longrightarrow> set ch \<subseteq> set xs"
  using arg_cong [OF concat_chunks [of n xs], of set] by auto

text \<open>
  A path is resolved from the directory cache as without it: from a cache that holds right paths the
  cached resolver gives the path the plain walk gives and leaves a cache of right paths, for every record
  within 257 levels of the root.
\<close>

theorem cached_path_exact:
  assumes "dir_cache_ok d vp render cache" and "resolvable d i"
  shows "\<exists>cache'. resolve_path_cached d i vp cache render = (resolve_path d i vp render, cache') \<and> dir_cache_ok d vp render cache'"
  using dir_cached.exact [OF assms] dir_cached.keeps_valid [OF assms] by (metis prod.collapse)

text \<open>A drive with a root, a directory \<open>a\<close> in it and a file \<open>b\<close> in that.\<close>

definition sample_drive :: drive_index where
  "sample_drive = \<lparr>di_records =
      [compact_record_default\<lparr>cr_name_len := 1, cr_flags := 0x10, cr_parent_idx := 0\<rparr>,
       compact_record_default\<lparr>cr_name_offset := 1, cr_name_len := 1, cr_flags := 0x10, cr_parent_idx := 0\<rparr>,
       compact_record_default\<lparr>cr_name_offset := 2, cr_name_len := 1, cr_parent_idx := 1\<rparr>],
     di_names = [0x2E, 0x61, 0x62], di_trigram = trigram_empty, di_children = ([], []), di_ext_index = ([], []),
     di_fold = [], di_ext_names = [], di_frs_to_compact = [], di_delta = None\<rparr>"

lemma sample_records: "length (di_records sample_drive) = 3" "length (di_names sample_drive) = 3"
  by (simp_all add: sample_drive_def)

lemma sample_names: "name_bytes (di_records sample_drive ! 0) (di_names sample_drive) = [0x2E]"
  "name_bytes (di_records sample_drive ! 1) (di_names sample_drive) = [0x61]"
  "name_bytes (di_records sample_drive ! 2) (di_names sample_drive) = [0x62]"
  "cr_parent_idx (di_records sample_drive ! 1) = 0" "cr_parent_idx (di_records sample_drive ! 2) = 1"
  by (simp_all add: sample_drive_def name_bytes_def compact_record_default_def u64_sat_add_def u64_max_def slice_get_def)

lemma rooted_step: "i < length (di_records d) \<Longrightarrow> rooted d n (cr_parent_idx (di_records d ! i)) \<Longrightarrow> rooted d (Suc n) i"
  by (simp add: vec_get_def)

lemma sample_resolvable: "resolvable sample_drive 1" "resolvable sample_drive 2"
proof -
  have zero: "rooted sample_drive (Suc n) 0" for n
    using sample_names(1) by (simp add: chain_end_def vec_get_def sample_records)
  have one: "rooted sample_drive (Suc (Suc n)) 1" for n
    using rooted_step [of 1 sample_drive "Suc n"] zero by (simp only: sample_names sample_records rel_simps simp_thms)
  have "rooted sample_drive (Suc (Suc (Suc 0))) 2"
    using rooted_step [of 2 sample_drive "Suc (Suc 0)"] one by (simp only: sample_names sample_records rel_simps simp_thms)
  with one [of "Suc 0"] have "rooted sample_drive 3 1" "rooted sample_drive 3 2" by (simp_all only: numeral_3_eq_3)
  then show "resolvable sample_drive 1" "resolvable sample_drive 2"
    using rooted_shallow(1) [of sample_drive 3] by (simp_all add: resolvable_def sample_records u32_max_def)
qed

theorem cached_path_exact_witness:
  "\<exists>cache'. resolve_path_cached sample_drive 2 [0x43, 0x3A, 0x5C] Map.empty Lossy
     = (resolve_path sample_drive 2 [0x43, 0x3A, 0x5C] Lossy, cache') \<and> dir_cache_ok sample_drive [0x43, 0x3A, 0x5C] Lossy cache'"
  using cached_path_exact [of sample_drive "[0x43, 0x3A, 0x5C]" Lossy Map.empty 2] sample_resolvable(2)
  by (simp add: dir_cache_ok_def)

text \<open>
  C27. The result rows do not depend on caches, chunks or threads: every index that has a record with a
  readable name gives one row, in order, with the path the plain walk gives and the bit that says whether
  a name on the way is malformed.
\<close>

theorem indices_to_rows_exact:
  assumes "list_all (resolvable d) indices"
  shows "indices_to_rows d indices vp render =
     map (\<lambda>i. row_at d i (resolve_path d i vp render) (bad_line d (ancestry d i))) (filter (shown d) indices)"
proof (cases "length indices < RESOLVE_CHUNK_SIZE")
  case True
  then show ?thesis using rows_loop_exact [OF assms] by (simp add: indices_to_rows_def indices_to_rows_sequential_def)
next
  case False
  let ?row = "\<lambda>i. row_at d i (resolve_path d i vp render) (bad_line d (ancestry d i))"
  have "0 < RESOLVE_CHUNK_SIZE" by (simp add: RESOLVE_CHUNK_SIZE_def)
  note ch = chunks_in [OF this, of _ indices] concat_chunks [OF this, of indices]
  have "rows_loop d vp render c Map.empty Map.empty = map ?row (filter (shown d) c)" if "c \<in> set (chunks RESOLVE_CHUNK_SIZE indices)" for c
    using that ch(1) [OF that] assms by (intro rows_loop_exact) (auto simp: list_all_iff)
  then have "indices_to_rows_parallel d indices vp render = concat (map (\<lambda>c. map ?row (filter (shown d) c)) (chunks RESOLVE_CHUNK_SIZE indices))"
    unfolding indices_to_rows_parallel_def by (metis (no_types, lifting) map_cong)
  also have "\<dots> = map ?row (filter (shown d) indices)"
    by (subst (2) ch(2) [symmetric]) (simp add: map_concat filter_concat comp_def)
  finally show ?thesis using False by (simp add: indices_to_rows_def)
qed

lemma rows_loop_wellformed: "list_all (\<lambda>row. \<not> dr_malformed row) (rows_loop d vp render indices cache mal_cache)"
proof -
  have "\<not> dr_malformed (row_at d i path bad)" if "shown d i" for i path bad
    using that by (auto simp: shown_def row_at_def make_display_row_def row_forensics_of_def record_name_def Let_def split: if_splits)
  then show ?thesis unfolding rows_loop_thread by (auto simp: list_all_iff dest: set_zip_leftD)
qed

text \<open>
  A row is built from the readable form of the name, which is empty for a malformed one: no row of a
  result carries the malformed bit, and a record with a malformed name has no row.
\<close>

theorem malformed_names_have_no_row: "list_all (\<lambda>row. \<not> dr_malformed row) (indices_to_rows d indices vp render)"
  using rows_loop_wellformed
  by (auto simp: indices_to_rows_def indices_to_rows_sequential_def indices_to_rows_parallel_def list_all_iff)

theorem indices_to_rows_exact_witness:
  "map dr_record_index (indices_to_rows sample_drive [2, 1, 2] [0x43, 0x3A, 0x5C] Lossy) = [2, 1, 2]"
proof -
  have "shown sample_drive 1" "shown sample_drive 2"
    using sample_names by (simp_all add: shown_def sample_records record_name_def utf8_valid_def utf8_ascii_chars)
  then show ?thesis
    using indices_to_rows_exact [of sample_drive "[2, 1, 2]" "[0x43, 0x3A, 0x5C]" Lossy] sample_resolvable
    by (simp add: row_at_def make_display_row_def Let_def)
qed

end
