(* ===== verification/Glob_Match.thy ===== *)
theory Glob_Match
  imports Case_Fold
begin

text \<open>
  Name patterns. The first part is the byte matcher of the tree search (\<open>name_matches\<close>, \<open>segment_matches\<close>
  and \<open>glob_match\<close> of \<open>crates/uffs-core/src/search/tree.rs\<close>); names and patterns are UTF-8 there, so a
  string is its list of bytes. The second part is the pattern compiler: parsing (\<open>pattern.rs\<close>,
  \<open>pattern/parse.rs\<close>), classification of a glob (\<open>compiled_pattern/glob.rs\<close>) and the matcher it compiles to
  (\<open>index_search/pattern.rs\<close>); a string is its list of scalar values there, as in the folding theory.

  The packages \<open>regex\<close> and \<open>globset\<close> are arguments: \<open>regex_new\<close> compiles a regular expression or gives the
  reason of its error, \<open>is_match\<close> runs one, \<open>globset_regex\<close> gives the expression of a glob or the reason.
\<close>

section \<open>The byte matcher\<close>

definition is_path_pattern :: "bytes \<Rightarrow> bool" where
  "is_path_pattern pattern \<longleftrightarrow> 0x5C \<in> set pattern \<or> 0x2F \<in> set pattern"

definition is_prefix_pattern :: "bytes \<Rightarrow> bytes option" where
  "is_prefix_pattern pattern =
     (if pattern = [] \<or> last pattern \<noteq> 0x2A then None
      else let prefix = butlast pattern in
        if length prefix < 3 then None
        else if 0x2A \<in> set prefix \<or> 0x3F \<in> set prefix \<or> 0x5C \<in> set prefix \<or> 0x2F \<in> set prefix then None
        else Some prefix)"

function skip_stars :: "bytes \<Rightarrow> nat \<Rightarrow> nat" where
  "skip_stars pattern pi = (if pi < length pattern \<and> pattern ! pi = 0x2A then skip_stars pattern (pi + 1) else pi)"
  by pat_completeness auto
termination
  by (relation "measure (\<lambda>(pattern, pi). length pattern - pi)") auto

declare skip_stars.simps [simp del]

text \<open>The loop of \<open>glob_match\<close>; the sentinel \<open>usize::MAX\<close> says that no star was seen.\<close>

partial_function (option) glob_loop :: "bytes \<Rightarrow> bytes \<Rightarrow> nat \<Rightarrow> nat \<Rightarrow> nat \<Rightarrow> nat \<Rightarrow> bool option" where
  [code]: "glob_loop text pattern ti pi last_star_p last_star_t =
     (if ti < length text then
        (if pi < length pattern \<and> (pattern ! pi = 0x3F \<or> pattern ! pi = text ! ti)
         then glob_loop text pattern (ti + 1) (pi + 1) last_star_p last_star_t
         else if pi < length pattern \<and> pattern ! pi = 0x2A
         then glob_loop text pattern ti (pi + 1) pi ti
         else if last_star_p \<noteq> u64_max
         then glob_loop text pattern (last_star_t + 1) (last_star_p + 1) last_star_p (last_star_t + 1)
         else Some False)
      else Some (skip_stars pattern pi = length pattern))"

definition glob_match :: "bytes \<Rightarrow> bytes \<Rightarrow> bool option" where
  "glob_match text pattern = glob_loop text pattern 0 0 u64_max 0"

text \<open>\<open>str::split\<close> at a character.\<close>

fun split_at :: "'a \<Rightarrow> 'a list \<Rightarrow> 'a list list" where
  "split_at c [] = [[]]"
| "split_at c (x # xs) =
     (if x = c then [] # split_at c xs
      else case split_at c xs of [] \<Rightarrow> [[x]] | y # ys \<Rightarrow> (x # y) # ys)"

definition name_matches_single :: "bytes \<Rightarrow> bytes \<Rightarrow> bool option" where
  "name_matches_single name pattern =
     (if pattern = [0x2A] then Some True
      else if 0x2A \<notin> set pattern \<and> 0x3F \<notin> set pattern then Some (sublist pattern name)
      else glob_match name pattern)"

fun any_sub_matches :: "bytes \<Rightarrow> bytes list \<Rightarrow> bool option" where
  "any_sub_matches name [] = Some False"
| "any_sub_matches name (sub # subs) = do {
     hit \<leftarrow> name_matches_single name sub;
     if hit then Some True else any_sub_matches name subs
   }"

definition name_matches :: "bytes \<Rightarrow> bytes \<Rightarrow> bool option" where
  "name_matches name pattern =
     (if name = [] \<or> name = [0x2E] then Some False
      else if pattern = [0x2A] then Some True
      else if 0x7C \<in> set pattern then any_sub_matches name (split_at 0x7C pattern)
      else name_matches_single name pattern)"

definition segment_matches :: "bytes \<Rightarrow> bytes \<Rightarrow> bool option" where
  "segment_matches name segment =
     (if name = [] \<or> name = [0x2E] then Some False
      else if segment = [0x2A] \<or> segment = [0x2A, 0x2A] then Some True
      else if 0x2A \<notin> set segment \<and> 0x3F \<notin> set segment then Some (name = segment)
      else glob_match name segment)"

section \<open>Patterns\<close>

datatype core_error = InvalidPattern str string | InvalidGlob str str | InvalidRegex str str

datatype pattern_type = Glob | Regex | Literal

record parsed_pattern =
  pp_drive :: "nat option"
  pp_pattern :: str
  pp_pattern_type :: pattern_type
  pp_case_sensitive :: bool
  pp_is_path_pattern :: bool

text \<open>\<open>char::is_whitespace\<close>, \<open>str::trim\<close> and \<open>str::trim_matches\<close>.\<close>

definition is_whitespace :: "nat \<Rightarrow> bool" where
  "is_whitespace c \<longleftrightarrow> (0x9 \<le> c \<and> c \<le> 0xD) \<or> c = 0x20 \<or> c = 0x85 \<or> c = 0xA0 \<or> c = 0x1680 \<or> (0x2000 \<le> c \<and> c \<le> 0x200A)
     \<or> c = 0x2028 \<or> c = 0x2029 \<or> c = 0x202F \<or> c = 0x205F \<or> c = 0x3000"

definition trim_where :: "(nat \<Rightarrow> bool) \<Rightarrow> str \<Rightarrow> str" where
  "trim_where P s = rev (dropWhile P (rev (dropWhile P s)))"

definition ascii_alpha :: "nat \<Rightarrow> bool" where
  "ascii_alpha c \<longleftrightarrow> (0x41 \<le> c \<and> c \<le> 0x5A) \<or> (0x61 \<le> c \<and> c \<le> 0x7A)"

definition ascii_upper :: "nat \<Rightarrow> nat" where
  "ascii_upper c = (if 0x61 \<le> c \<and> c \<le> 0x7A then c - 0x20 else c)"

definition extract_drive_prefix :: "str \<Rightarrow> nat option \<times> str" where
  "extract_drive_prefix input =
     (case input of
        drive_char # c # rest \<Rightarrow> if c = 0x3A \<and> ascii_alpha drive_char then (Some (ascii_upper drive_char), rest) else (None, input)
      | _ \<Rightarrow> (None, input))"

definition extract_drive_from_regex :: "str \<Rightarrow> nat option \<times> str" where
  "extract_drive_from_regex pattern =
     (case pattern of
        drive_char # c # sep # _ \<Rightarrow>
          if c = 0x3A \<and> ascii_alpha drive_char \<and> (sep = 0x5C \<or> sep = 0x2F)
          then (Some (ascii_upper drive_char), pattern) else (None, pattern)
      | _ \<Rightarrow> (None, pattern))"

definition contains_path_separator :: "str \<Rightarrow> bool" where
  "contains_path_separator pattern =
     (let inner = (case pattern of c # rest \<Rightarrow> if c = 0x2F \<or> c = 0x5C then rest else pattern | [] \<Rightarrow> pattern) in
      0x5C \<in> set inner \<or> 0x2F \<in> set inner)"

definition detect_pattern_type :: "str \<Rightarrow> pattern_type" where
  "detect_pattern_type pattern = (if 0x2A \<in> set pattern \<or> 0x3F \<in> set pattern \<or> 0x5B \<in> set pattern then Glob else Literal)"

definition parse_regex :: "str \<Rightarrow> core_error + parsed_pattern" where
  "parse_regex input =
     (let pattern = trim_where (\<lambda>c. c = 0x27) (trim_where (\<lambda>c. c = 0x22) (trim_where is_whitespace input)) in
      if pattern = [] then Inl (InvalidPattern pattern ''REGEX pattern cannot be empty'')
      else case extract_drive_from_regex pattern of
        (drive, remaining) \<Rightarrow>
          Inr \<lparr>pp_drive = drive, pp_pattern = remaining, pp_pattern_type = Regex, pp_case_sensitive = False,
               pp_is_path_pattern = contains_path_separator remaining\<rparr>)"

definition parse_pattern :: "str \<Rightarrow> core_error + parsed_pattern" where
  "parse_pattern text =
     (let input = trim_where is_whitespace text in
      case input of
        [] \<Rightarrow> Inl (InvalidPattern input ''Pattern cannot be empty'')
      | c # regex_pattern \<Rightarrow>
          if c = 0x3E then parse_regex regex_pattern
          else case extract_drive_prefix input of
            (drive, remaining) \<Rightarrow>
              (let has_separator = contains_path_separator remaining;
                   is_path = (has_separator \<or> detect_pattern_type remaining = Literal);
                   normalized = (if has_separator then map (\<lambda>c. if c = 0x2F then 0x5C else c) remaining else remaining)
               in Inr \<lparr>pp_drive = drive, pp_pattern = normalized, pp_pattern_type = detect_pattern_type normalized,
                      pp_case_sensitive = False, pp_is_path_pattern = is_path\<rparr>))"

section \<open>Classification of a glob\<close>

datatype glob_kind =
    GK_Any | GK_Exact str | GK_Prefix str | GK_Suffix str | GK_Contains str | GK_PrefixSuffix str str
  | GK_Extension str | GK_Complex str

definition extract_extension :: "str \<Rightarrow> str option" where
  "extract_extension suf =
     (case suf of
        c # after_dot \<Rightarrow> if c = 0x2E \<and> after_dot \<noteq> [] \<and> 0x2E \<notin> set after_dot then Some after_dot else None
      | [] \<Rightarrow> None)"

definition strip_last :: "'a \<Rightarrow> 'a list \<Rightarrow> 'a list option" where
  "strip_last c s = (if s \<noteq> [] \<and> last s = c then Some (butlast s) else None)"

definition strip_first :: "'a \<Rightarrow> 'a list \<Rightarrow> 'a list option" where
  "strip_first c s = (case s of x # rest \<Rightarrow> if x = c then Some rest else None | [] \<Rightarrow> None)"

text \<open>\<open>str::split_once\<close> at the first occurrence of a character.\<close>

fun split_once :: "'a \<Rightarrow> 'a list \<Rightarrow> ('a list \<times> 'a list) option" where
  "split_once c [] = None"
| "split_once c (x # xs) = (if x = c then Some ([], xs) else map_option (\<lambda>(a, b). (x # a, b)) (split_once c xs))"

definition classify_one_star :: "str \<Rightarrow> glob_kind" where
  "classify_one_star pattern =
     (if pattern = [0x2A] then GK_Any
      else case strip_first 0x2A pattern of
        Some suf \<Rightarrow> (case extract_extension suf of None \<Rightarrow> GK_Suffix suf | Some ext \<Rightarrow> GK_Extension ext)
      | None \<Rightarrow>
          (case strip_last 0x2A pattern of
             Some pre \<Rightarrow> GK_Prefix pre
           | None \<Rightarrow> (case split_once 0x2A pattern of
                       None \<Rightarrow> GK_PrefixSuffix pattern [] | Some (pre, suf) \<Rightarrow> GK_PrefixSuffix pre suf)))"

definition classify_single_star_pattern :: "str \<Rightarrow> glob_kind" where
  "classify_single_star_pattern pattern =
     (let star_count = length (filter (\<lambda>c. c = 0x2A) pattern) in
      if star_count = 1 then classify_one_star pattern
      else if star_count = 2 \<and> strip_first 0x2A pattern \<noteq> None \<and> strip_last 0x2A pattern \<noteq> None then
        (let needle = (case Option.bind (strip_first 0x2A pattern) (strip_last 0x2A) of None \<Rightarrow> [] | Some n \<Rightarrow> n) in
         if 0x2A \<in> set needle then GK_Complex pattern else GK_Contains needle)
      else GK_Complex pattern)"

definition classify_glob :: "str \<Rightarrow> glob_kind" where
  "classify_glob pattern =
     (let has_star = 0x2A \<in> set pattern; has_question = 0x3F \<in> set pattern; has_bracket = 0x5B \<in> set pattern;
          has_double_star = sublist [0x2A, 0x2A] pattern
      in if \<not> has_star \<and> \<not> has_question \<and> \<not> has_bracket then GK_Exact pattern
         else if has_question \<or> has_bracket \<or> has_double_star then GK_Complex pattern
         else classify_single_star_pattern pattern)"

section \<open>The compiled matcher\<close>

datatype 'r index_pattern =
    IP_Any
  | IP_Exact str "u16 list"
  | IP_Prefix str "u16 list"
  | IP_Suffix str "u16 list"
  | IP_Contains str "u16 list"
  | IP_PrefixSuffix str str "u16 list" "u16 list"
  | IP_Regex 'r 'r
  | IP_Or "'r index_pattern list"

fun ip_matches :: "('r \<Rightarrow> str \<Rightarrow> bool) \<Rightarrow> case_fold \<Rightarrow> bool \<Rightarrow> str \<Rightarrow> 'r index_pattern \<Rightarrow> bool"
  and ip_any :: "('r \<Rightarrow> str \<Rightarrow> bool) \<Rightarrow> case_fold \<Rightarrow> bool \<Rightarrow> str \<Rightarrow> 'r index_pattern list \<Rightarrow> bool" where
  "ip_matches is_match t cs input IP_Any \<longleftrightarrow> True"
| "ip_matches is_match t cs input (IP_Exact v folded) \<longleftrightarrow> (if cs then input = v else eq_folded t input folded)"
| "ip_matches is_match t cs input (IP_Prefix pre folded) \<longleftrightarrow> (if cs then prefix pre input else starts_with_folded t input folded)"
| "ip_matches is_match t cs input (IP_Suffix suf folded) \<longleftrightarrow> (if cs then suffix suf input else ends_with_folded t input folded)"
| "ip_matches is_match t cs input (IP_Contains needle folded) \<longleftrightarrow> (if cs then sublist needle input else contains_folded t input folded)"
| "ip_matches is_match t cs input (IP_PrefixSuffix pre suf pre_folded suf_folded) \<longleftrightarrow>
     (if cs then prefix pre input \<and> suffix suf input
      else starts_with_folded t input pre_folded \<and> ends_with_folded t input suf_folded)"
| "ip_matches is_match t cs input (IP_Regex regex regex_lower) \<longleftrightarrow> (if cs then is_match regex input else is_match regex_lower input)"
| "ip_matches is_match t cs input (IP_Or patterns) \<longleftrightarrow> ip_any is_match t cs input patterns"
| "ip_any is_match t cs input [] \<longleftrightarrow> False"
| "ip_any is_match t cs input (p # ps) \<longleftrightarrow> ip_matches is_match t cs input p \<or> ip_any is_match t cs input ps"

definition strip_str :: "str \<Rightarrow> str \<Rightarrow> str" where
  "strip_str pre s = (if prefix pre s then drop (length pre) s else s)"

definition compile_complex ::
  "(str \<Rightarrow> str + str) \<Rightarrow> (str \<Rightarrow> str + 'r) \<Rightarrow> str \<Rightarrow> core_error + 'r index_pattern"
where
  "compile_complex globset_regex regex_new glob_pattern =
     (let slashed = map (\<lambda>c. if c = 0x5C then 0x2F else c) glob_pattern;
          globset_pattern = (if strip_first 0x2F slashed \<noteq> None then chars_of ''**'' @ slashed else slashed)
      in case globset_regex globset_pattern of
           Inl reason \<Rightarrow> Inl (InvalidGlob glob_pattern reason)
         | Inr raw_regex \<Rightarrow>
             (let regex_str_win = concat (map (\<lambda>c. if c = 0x2F then [0x5B, 0x2F, 0x5C, 0x5C, 0x5D] else [c]) (strip_str (chars_of ''(?-u)'') raw_regex)) in
              case regex_new regex_str_win of
                Inl reason \<Rightarrow> Inl (InvalidRegex regex_str_win reason)
              | Inr regex \<Rightarrow>
                  (case regex_new (chars_of ''(?i)'' @ regex_str_win) of
                     Inl reason \<Rightarrow> Inl (InvalidRegex regex_str_win reason)
                   | Inr regex_lower \<Rightarrow> Inr (IP_Regex regex regex_lower))))"

definition compile_index_pattern_with_fold ::
  "(str \<Rightarrow> str + str) \<Rightarrow> (str \<Rightarrow> str + 'r) \<Rightarrow> str \<Rightarrow> case_fold \<Rightarrow> core_error + 'r index_pattern"
where
  "compile_index_pattern_with_fold globset_regex regex_new pattern t =
     (case classify_glob pattern of
        GK_Any \<Rightarrow> Inr IP_Any
      | GK_Exact v \<Rightarrow> Inr (IP_Exact v (fold_to_u16 t v))
      | GK_Prefix pre \<Rightarrow> Inr (IP_Prefix pre (fold_to_u16 t pre))
      | GK_Suffix suf \<Rightarrow> Inr (IP_Suffix suf (fold_to_u16 t suf))
      | GK_Extension ext \<Rightarrow> Inr (IP_Suffix (0x2E # ext) (fold_to_u16 t (0x2E # ext)))
      | GK_Contains needle \<Rightarrow> Inr (IP_Contains needle (fold_to_u16 t needle))
      | GK_PrefixSuffix pre suf \<Rightarrow> Inr (IP_PrefixSuffix pre suf (fold_to_u16 t pre) (fold_to_u16 t suf))
      | GK_Complex glob_pattern \<Rightarrow> compile_complex globset_regex regex_new glob_pattern)"

fun compile_all ::
  "(str \<Rightarrow> str + str) \<Rightarrow> (str \<Rightarrow> str + 'r) \<Rightarrow> case_fold \<Rightarrow> str list \<Rightarrow> core_error + 'r index_pattern list"
where
  "compile_all globset_regex regex_new t [] = Inr []"
| "compile_all globset_regex regex_new t (part # parts) =
     (case compile_index_pattern_with_fold globset_regex regex_new (trim_where is_whitespace part) t of
        Inl e \<Rightarrow> Inl e
      | Inr p \<Rightarrow> (case compile_all globset_regex regex_new t parts of Inl e \<Rightarrow> Inl e | Inr ps \<Rightarrow> Inr (p # ps)))"

definition compile_parsed_pattern_with_fold ::
  "(str \<Rightarrow> str + str) \<Rightarrow> (str \<Rightarrow> str + 'r) \<Rightarrow> parsed_pattern \<Rightarrow> case_fold \<Rightarrow> core_error + 'r index_pattern"
where
  "compile_parsed_pattern_with_fold globset_regex regex_new parsed t =
     (let pat = pp_pattern parsed in
      if pp_pattern_type parsed \<noteq> Regex \<and> 0x7C \<in> set pat \<and> length (split_at 0x7C pat) > 1 then
        (case compile_all globset_regex regex_new t (split_at 0x7C pat) of Inl e \<Rightarrow> Inl e | Inr ps \<Rightarrow> Inr (IP_Or ps))
      else case pp_pattern_type parsed of
        Glob \<Rightarrow> compile_index_pattern_with_fold globset_regex regex_new pat t
      | Regex \<Rightarrow>
          (let anchored = (if strip_last 0x24 pat \<noteq> None then pat else pat @ [0x24]) in
           case regex_new anchored of
             Inl reason \<Rightarrow> Inl (InvalidRegex pat reason)
           | Inr regex \<Rightarrow>
               (case regex_new (chars_of ''(?i)'' @ anchored) of
                  Inl reason \<Rightarrow> Inl (InvalidRegex pat reason)
                | Inr regex_lower \<Rightarrow> Inr (IP_Regex regex regex_lower)))
      | Literal \<Rightarrow> Inr (IP_Contains pat (fold_to_u16 t pat)))"

section \<open>What a glob means\<close>

text \<open>The reference: a star stands for any sequence, a question mark for any one element.\<close>

datatype 'a token = Star | One | Lit 'a

fun globs :: "'a token list \<Rightarrow> 'a list \<Rightarrow> bool" where
  "globs [] xs \<longleftrightarrow> xs = []"
| "globs (Star # ps) [] \<longleftrightarrow> globs ps []"
| "globs (Star # ps) (x # xs) \<longleftrightarrow> globs ps (x # xs) \<or> globs (Star # ps) xs"
| "globs (One # ps) [] \<longleftrightarrow> False"
| "globs (One # ps) (x # xs) \<longleftrightarrow> globs ps xs"
| "globs (Lit a # ps) [] \<longleftrightarrow> False"
| "globs (Lit a # ps) (x # xs) \<longleftrightarrow> a = x \<and> globs ps xs"

definition token_of :: "'a :: numeral \<Rightarrow> 'a token" where
  "token_of c = (if c = 0x2A then Star else if c = 0x3F then One else Lit c)"

definition tokens :: "'a :: numeral list \<Rightarrow> 'a token list" where
  "tokens pattern = map token_of pattern"

lemma globs_star: "globs (Star # ps) xs \<longleftrightarrow> (\<exists>k \<le> length xs. globs ps (drop k xs))"
proof (induction xs)
  case (Cons x xs)
  have "(\<exists>k \<le> length (x # xs). globs ps (drop k (x # xs))) \<longleftrightarrow> globs ps (x # xs) \<or> (\<exists>k \<le> length xs. globs ps (drop k xs))"
  proof -
    have "(\<exists>k \<le> Suc n. P k) \<longleftrightarrow> P 0 \<or> (\<exists>k \<le> n. P (Suc k))" for P n
      by (metis Suc_le_mono le0 not0_implies_Suc)
    then show ?thesis by simp
  qed
  with Cons show ?case by simp
qed simp

lemma globs_no_star: "Star \<notin> set ss \<Longrightarrow> globs (ss @ ps) xs \<Longrightarrow> length ss \<le> length xs \<and> globs ps (drop (length ss) xs)"
proof (induction ss arbitrary: xs)
  case (Cons s ss)
  then show ?case by (cases xs; cases s) auto
qed simp

lemma globs_Nil: "globs ps [] \<longleftrightarrow> set ps \<subseteq> {Star}"
proof (induction ps)
  case (Cons p ps)
  then show ?case by (cases p) auto
qed simp

lemma globs_stars_tail: "globs (Star # ps) [] \<longleftrightarrow> globs ps []"
  by simp

section \<open>The loop decides it\<close>

definition pat_from :: "bytes \<Rightarrow> nat \<Rightarrow> u8 token list" where
  "pat_from pattern pi = drop pi (tokens pattern)"

lemma pat_from_Cons: "pi < length pattern \<Longrightarrow> pat_from pattern pi = token_of (pattern ! pi) # pat_from pattern (Suc pi)"
  by (simp add: pat_from_def tokens_def drop_map Cons_nth_drop_Suc [symmetric])

lemma pat_from_end: "length pattern \<le> pi \<Longrightarrow> pat_from pattern pi = []"
  by (simp add: pat_from_def tokens_def)

lemma drop_text: "ti < length text \<Longrightarrow> drop ti text = text ! ti # drop (Suc ti) text"
  by (simp add: Cons_nth_drop_Suc)

lemma skip_stars_end: "pi \<le> length pattern \<Longrightarrow> skip_stars pattern pi = length pattern \<longleftrightarrow> globs (pat_from pattern pi) []"
proof (induction pattern pi rule: skip_stars.induct)
  case (1 pattern pi)
  show ?case
  proof (cases "pi < length pattern")
    case True
    then show ?thesis
      using 1 by (cases "pattern ! pi = 0x2A") (auto simp: skip_stars.simps [of pattern pi] pat_from_Cons token_of_def)
  next
    case False
    with "1.prems" show ?thesis by (simp add: skip_stars.simps [of pattern "length pattern"] pat_from_end)
  qed
qed

text \<open>
  Where the loop stands: without a star the rest of the pattern must match the rest of the text. With a
  star, the pattern behind it has matched the text from \<open>st\<close> on without another star, and the answer is
  that this attempt goes on to match or one that starts later does.
\<close>

definition loop_inv :: "bytes \<Rightarrow> bytes \<Rightarrow> nat \<Rightarrow> nat \<Rightarrow> nat \<Rightarrow> nat \<Rightarrow> bool" where
  "loop_inv text pattern ti pi sp st \<longleftrightarrow> ti \<le> length text \<and> pi \<le> length pattern \<and>
     (if sp = u64_max then globs (tokens pattern) text = globs (pat_from pattern pi) (drop ti text)
      else sp < pi \<and> st \<le> ti \<and> ti - st = pi - Suc sp \<and> Star \<notin> set (take (pi - Suc sp) (pat_from pattern (Suc sp)))
        \<and> (globs (tokens pattern) text \<longleftrightarrow>
             globs (pat_from pattern pi) (drop ti text) \<or> (\<exists>k. st < k \<and> k \<le> length text \<and> globs (pat_from pattern (Suc sp)) (drop k text))))"

lemma pat_from_split: "Suc sp \<le> pi \<Longrightarrow> pat_from pattern (Suc sp) = take (pi - Suc sp) (pat_from pattern (Suc sp)) @ pat_from pattern pi"
  by (simp add: pat_from_def flip: drop_drop) (metis append_take_drop_id drop_drop le_add_diff_inverse2)

text \<open>An attempt that starts later reaches the current pattern position later.\<close>

lemma later_attempt:
  assumes "loop_inv text pattern ti pi sp st" and "sp \<noteq> u64_max" and "st < k" and "globs (pat_from pattern (Suc sp)) (drop k text)" and "k \<le> length text"
  shows "ti < k + (ti - st)" and "k + (ti - st) \<le> length text" and "globs (pat_from pattern pi) (drop (k + (ti - st)) text)"
proof -
  let ?ss = "take (pi - Suc sp) (pat_from pattern (Suc sp))"
  from assms(1,2) have inv: "sp < pi" "st \<le> ti" "ti - st = pi - Suc sp" "Star \<notin> set ?ss" "pi \<le> length pattern"
    by (simp_all add: loop_inv_def)
  then have len: "length ?ss = ti - st" by (simp add: pat_from_def tokens_def)
  from globs_no_star [OF inv(4), of "pat_from pattern pi" "drop k text"] assms(4) pat_from_split [of sp pi pattern] inv(1) len
  have "ti - st \<le> length (drop k text)" "globs (pat_from pattern pi) (drop (ti - st) (drop k text))" by simp_all
  then show "ti < k + (ti - st)" "k + (ti - st) \<le> length text" "globs (pat_from pattern pi) (drop (k + (ti - st)) text)"
    using assms(3,5) inv(2) by (simp_all add: add.commute)
qed

lemma loop_take:
  assumes "loop_inv text pattern ti pi sp st" and "ti < length text" and "pi < length pattern"
    and "pattern ! pi = 0x3F \<or> pattern ! pi = text ! ti" and "0x2A \<notin> set text"
  shows "loop_inv text pattern (ti + 1) (pi + 1) sp st"
proof -
  have "text ! ti \<noteq> 0x2A" using assms(2,5) by (metis nth_mem)
  with assms(4) have tok: "token_of (pattern ! pi) = One \<or> token_of (pattern ! pi) = Lit (text ! ti)" "token_of (pattern ! pi) \<noteq> Star"
    by (auto simp: token_of_def)
  then have step: "globs (pat_from pattern pi) (drop ti text) \<longleftrightarrow> globs (pat_from pattern (Suc pi)) (drop (Suc ti) text)"
    by (auto simp: pat_from_Cons [OF assms(3)] drop_text [OF assms(2)])
  show ?thesis
  proof (cases "sp = u64_max")
    case True
    then show ?thesis using assms(1-3) step by (simp add: loop_inv_def)
  next
    case False
    then have inv: "sp < pi" "st \<le> ti" "ti - st = pi - Suc sp" "Star \<notin> set (take (pi - Suc sp) (pat_from pattern (Suc sp)))"
      using assms(1) by (simp_all add: loop_inv_def)
    have "take (Suc pi - Suc sp) (pat_from pattern (Suc sp)) = take (pi - Suc sp) (pat_from pattern (Suc sp)) @ [token_of (pattern ! pi)]"
    proof -
      have "Suc pi - Suc sp = Suc (pi - Suc sp)" using inv(1) by simp
      moreover have "pi - Suc sp < length (pat_from pattern (Suc sp))" using inv(1) assms(3) by (simp add: pat_from_def tokens_def)
      moreover have "pat_from pattern (Suc sp) ! (pi - Suc sp) = token_of (pattern ! pi)"
        using inv(1) assms(3) by (simp add: pat_from_def tokens_def)
      ultimately show ?thesis by (simp only: take_Suc_conv_app_nth)
    qed
    then have "Star \<notin> set (take (Suc pi - Suc sp) (pat_from pattern (Suc sp)))" using inv(4) tok(2) by auto
    moreover have "Suc ti - st = Suc pi - Suc sp" using inv by linarith
    ultimately show ?thesis using assms(1-3) False step inv(1,2) by (simp add: loop_inv_def)
  qed
qed

lemma loop_star:
  assumes "loop_inv text pattern ti pi sp st" and "pi < length pattern" and "pattern ! pi = 0x2A" and "length pattern \<le> u64_max"
  shows "loop_inv text pattern ti (pi + 1) pi ti"
proof -
  have ti: "ti \<le> length text" using assms(1) by (simp add: loop_inv_def)
  have star: "globs (pat_from pattern pi) (drop ti text) \<longleftrightarrow> (\<exists>k. ti \<le> k \<and> k \<le> length text \<and> globs (pat_from pattern (Suc pi)) (drop k text))"
  proof -
    have "globs (pat_from pattern pi) (drop ti text) \<longleftrightarrow> (\<exists>k \<le> length text - ti. globs (pat_from pattern (Suc pi)) (drop (ti + k) text))"
      by (simp add: pat_from_Cons [OF assms(2)] token_of_def assms(3) globs_star add.commute)
    also have "\<dots> \<longleftrightarrow> (\<exists>k. ti \<le> k \<and> k \<le> length text \<and> globs (pat_from pattern (Suc pi)) (drop k text))"
    proof
      assume "\<exists>k. ti \<le> k \<and> k \<le> length text \<and> globs (pat_from pattern (Suc pi)) (drop k text)"
      then obtain k where "ti \<le> k" "k \<le> length text" "globs (pat_from pattern (Suc pi)) (drop k text)" by blast
      then show "\<exists>k \<le> length text - ti. globs (pat_from pattern (Suc pi)) (drop (ti + k) text)"
        by (intro exI [of _ "k - ti"]) simp
    next
      assume "\<exists>k \<le> length text - ti. globs (pat_from pattern (Suc pi)) (drop (ti + k) text)"
      then obtain k where "k \<le> length text - ti" "globs (pat_from pattern (Suc pi)) (drop (ti + k) text)" by blast
      then show "\<exists>k. ti \<le> k \<and> k \<le> length text \<and> globs (pat_from pattern (Suc pi)) (drop k text)"
        using ti by (intro exI [of _ "ti + k"]) simp
    qed
    finally show ?thesis .
  qed
  have "globs (tokens pattern) text \<longleftrightarrow> globs (pat_from pattern pi) (drop ti text)"
  proof (cases "sp = u64_max")
    case True
    then show ?thesis using assms(1) by (simp add: loop_inv_def)
  next
    case False
    have "globs (pat_from pattern pi) (drop ti text)"
      if "st < k" "k \<le> length text" "globs (pat_from pattern (Suc sp)) (drop k text)" for k
    proof -
      note l = later_attempt [OF assms(1) False that(1,3,2)]
      then have "\<exists>j \<le> length (drop (k + (ti - st)) text). globs (pat_from pattern (Suc pi)) (drop j (drop (k + (ti - st)) text))"
        using globs_star [of "pat_from pattern (Suc pi)" "drop (k + (ti - st)) text"] by (simp add: pat_from_Cons [OF assms(2)] token_of_def assms(3))
      then obtain j where "j \<le> length text - (k + (ti - st))" "globs (pat_from pattern (Suc pi)) (drop (k + (ti - st) + j) text)"
        by (auto simp: add.commute)
      then show ?thesis using l(1,2) unfolding star by (intro exI [of _ "k + (ti - st) + j"]) auto
    qed
    then show ?thesis using assms(1) False by (auto simp: loop_inv_def)
  qed
  then have "globs (tokens pattern) text \<longleftrightarrow> globs (pat_from pattern (Suc pi)) (drop ti text)
      \<or> (\<exists>k. ti < k \<and> k \<le> length text \<and> globs (pat_from pattern (Suc pi)) (drop k text))"
    unfolding star using ti by (auto simp: le_less)
  then show ?thesis using ti assms(2,4) by (simp add: loop_inv_def)
qed

lemma no_step_fails:
  assumes "ti < length text" and "\<not> (pi < length pattern \<and> (pattern ! pi = 0x3F \<or> pattern ! pi = text ! ti))"
    and "\<not> (pi < length pattern \<and> pattern ! pi = 0x2A)"
  shows "\<not> globs (pat_from pattern pi) (drop ti text)"
  using assms by (cases "pi < length pattern") (auto simp: drop_text pat_from_Cons pat_from_end token_of_def)

lemma loop_retry:
  assumes "loop_inv text pattern ti pi sp st" and "ti < length text" and "sp \<noteq> u64_max" and "\<not> globs (pat_from pattern pi) (drop ti text)"
  shows "loop_inv text pattern (st + 1) (sp + 1) sp (st + 1)"
proof -
  from assms(1,3) have inv: "sp < pi" "st \<le> ti" "pi \<le> length pattern"
    "globs (tokens pattern) text \<longleftrightarrow> globs (pat_from pattern pi) (drop ti text) \<or> (\<exists>k. st < k \<and> k \<le> length text \<and> globs (pat_from pattern (Suc sp)) (drop k text))"
    by (simp_all add: loop_inv_def)
  have ex: "(\<exists>k. st < k \<and> k \<le> length text \<and> P k) \<longleftrightarrow> P (Suc st) \<or> (\<exists>k. Suc st < k \<and> k \<le> length text \<and> P k)" for P
  proof
    assume "\<exists>k. st < k \<and> k \<le> length text \<and> P k"
    then obtain k where k: "st < k" "k \<le> length text" "P k" by blast
    show "P (Suc st) \<or> (\<exists>k. Suc st < k \<and> k \<le> length text \<and> P k)"
    proof (cases "k = Suc st")
      case False
      with k show ?thesis by (intro disjI2 exI [of _ k]) simp
    qed (use k in simp)
  next
    assume "P (Suc st) \<or> (\<exists>k. Suc st < k \<and> k \<le> length text \<and> P k)"
    then show "\<exists>k. st < k \<and> k \<le> length text \<and> P k"
    proof
      assume "P (Suc st)"
      then show ?thesis using inv(2) assms(2) by (intro exI [of _ "Suc st"]) simp
    next
      assume "\<exists>k. Suc st < k \<and> k \<le> length text \<and> P k"
      then obtain k where "Suc st < k" "k \<le> length text" "P k" by blast
      then show ?thesis by (intro exI [of _ k]) simp
    qed
  qed
  have "globs (tokens pattern) text \<longleftrightarrow> globs (pat_from pattern (Suc sp)) (drop (Suc st) text)
      \<or> (\<exists>k. Suc st < k \<and> k \<le> length text \<and> globs (pat_from pattern (Suc sp)) (drop k text))"
    using inv(4) assms(4) ex [of "\<lambda>k. globs (pat_from pattern (Suc sp)) (drop k text)"] by blast
  then show ?thesis using inv(1-3) assms(2,3) by (simp add: loop_inv_def)
qed

lemma loop_done:
  assumes "loop_inv text pattern ti pi sp st" and "length text \<le> ti"
  shows "skip_stars pattern pi = length pattern \<longleftrightarrow> globs (tokens pattern) text"
proof -
  have fin: "skip_stars pattern pi = length pattern \<longleftrightarrow> globs (pat_from pattern pi) (drop ti text)" "ti = length text"
    using assms skip_stars_end [of pi pattern] by (simp_all add: loop_inv_def)
  have False if "sp \<noteq> u64_max" "st < k" "k \<le> length text" "globs (pat_from pattern (Suc sp)) (drop k text)" for k
    using later_attempt(1,2) [OF assms(1) that(1,2,4,3)] fin(2) by simp
  then show ?thesis using assms(1) fin by (auto simp: loop_inv_def split: if_splits)
qed

text \<open>Each turn of the loop makes the star, the text position or the pattern position advance.\<close>

definition loop_order :: "bytes \<Rightarrow> bytes \<Rightarrow> ((nat \<times> nat \<times> nat \<times> nat) \<times> (nat \<times> nat \<times> nat \<times> nat)) set" where
  "loop_order text pattern = measures [\<lambda>(ti, pi, sp, st). if sp = u64_max then Suc (length text) else length text - st,
     \<lambda>(ti, pi, sp, st). length text - ti, \<lambda>(ti, pi, sp, st). length pattern - pi]"

lemma loop_order_wf: "wf (loop_order text pattern)"
  by (simp add: loop_order_def)

lemma glob_loop_correct:
  assumes "0x2A \<notin> set text" and "length pattern \<le> u64_max"
  shows "loop_inv text pattern ti pi sp st \<Longrightarrow> glob_loop text pattern ti pi sp st = Some (globs (tokens pattern) text)"
proof (induction "(ti, pi, sp, st)" arbitrary: ti pi sp st rule: wf_induct_rule [OF loop_order_wf [of "text" pattern]])
  case (1 ti pi sp st)
  let ?take = "pi < length pattern \<and> (pattern ! pi = 0x3F \<or> pattern ! pi = text ! ti)" and ?star = "pi < length pattern \<and> pattern ! pi = 0x2A"
  have inv: "ti \<le> length text" "sp \<noteq> u64_max \<Longrightarrow> st \<le> ti" using "1.prems" by (auto simp: loop_inv_def)
  note step = glob_loop.simps [of "text" pattern ti pi sp st]
  consider (stop) "length text \<le> ti" | (tk) "ti < length text" "?take" | (st) "ti < length text" "\<not> ?take" "?star"
    | (re) "ti < length text" "\<not> ?take" "\<not> ?star" "sp \<noteq> u64_max" | (no) "ti < length text" "\<not> ?take" "\<not> ?star" "sp = u64_max"
    by force
  then show ?case
  proof cases
    case stop
    then show ?thesis using loop_done [OF "1.prems" stop] by (simp add: step)
  next
    case tk
    have "glob_loop text pattern (ti + 1) (pi + 1) sp st = Some (globs (tokens pattern) text)"
      using tk loop_take [OF "1.prems" tk(1)] assms(1) by (intro "1.hyps") (auto simp: loop_order_def)
    then show ?thesis using tk by (simp add: step)
  next
    case st
    have "glob_loop text pattern ti (pi + 1) pi ti = Some (globs (tokens pattern) text)"
      using st loop_star [OF "1.prems" _ _ assms(2)] inv assms(2) by (intro "1.hyps") (auto simp: loop_order_def)
    then show ?thesis using st by (simp add: step)
  next
    case re
    have "glob_loop text pattern (st + 1) (sp + 1) sp (st + 1) = Some (globs (tokens pattern) text)"
      using re loop_retry [OF "1.prems" re(1,4) no_step_fails [OF re(1-3)]] inv by (intro "1.hyps") (auto simp: loop_order_def)
    then show ?thesis using re by (cases "pi < length pattern") (simp_all add: step)
  next
    case no
    have "glob_loop text pattern ti pi sp st = Some False" unfolding step using no by auto
    moreover have "\<not> globs (tokens pattern) text" using no_step_fails [OF no(1-3)] "1.prems" no(4) by (simp add: loop_inv_def)
    ultimately show ?thesis by simp
  qed
qed

lemma glob_match_globs:
  assumes "0x2A \<notin> set text" and "length pattern < u64_max"
  shows "glob_match text pattern = Some (globs (tokens pattern) text)"
  unfolding glob_match_def by (rule glob_loop_correct) (use assms in \<open>simp_all add: loop_inv_def pat_from_def\<close>)

text \<open>The loop ends on every text, stars in the text included.\<close>

lemma glob_loop_total:
  assumes "length pattern \<le> u64_max"
  shows "(sp \<noteq> u64_max \<Longrightarrow> st \<le> ti) \<Longrightarrow> \<exists>b. glob_loop text pattern ti pi sp st = Some b"
proof (induction "(ti, pi, sp, st)" arbitrary: ti pi sp st rule: wf_induct_rule [OF loop_order_wf [of "text" pattern]])
  case (1 ti pi sp st)
  note step = glob_loop.simps [of "text" pattern ti pi sp st]
  have taken: "\<exists>b. glob_loop text pattern (ti + 1) (pi + 1) sp st = Some b" if "ti < length text"
    by (rule "1.hyps") (use that "1.prems" in \<open>auto simp: loop_order_def\<close>)
  have star: "\<exists>b. glob_loop text pattern ti (pi + 1) pi ti = Some b" if "ti < length text" "pi < length pattern"
    by (rule "1.hyps") (use that "1.prems" assms in \<open>auto simp: loop_order_def\<close>)
  have retry: "\<exists>b. glob_loop text pattern (st + 1) (sp + 1) sp (st + 1) = Some b" if "ti < length text" "sp \<noteq> u64_max"
    by (rule "1.hyps") (use that "1.prems" in \<open>auto simp: loop_order_def\<close>)
  show ?case unfolding step using taken star retry by (auto split: if_splits)
qed

lemma glob_match_total: "length pattern \<le> u64_max \<Longrightarrow> \<exists>b. glob_match text pattern = Some b"
  unfolding glob_match_def by (rule glob_loop_total) simp_all

section \<open>Names\<close>

lemma split_at_ne: "split_at c xs \<noteq> []"
  by (induction xs) (auto split: list.splits)

lemma split_at_whole: "c \<notin> set xs \<Longrightarrow> split_at c xs = [xs]"
  by (induction xs) auto

lemma split_at_length: "sub \<in> set (split_at c xs) \<Longrightarrow> length sub \<le> length xs"
proof (induction xs arbitrary: sub)
  case (Cons x xs)
  show ?case
  proof (cases "x = c")
    case True
    with Cons show ?thesis by (auto intro: le_SucI)
  next
    case False
    obtain y ys where "split_at c xs = y # ys" using split_at_ne [of c xs] by (cases "split_at c xs") auto
    with Cons False show ?thesis by (auto intro: le_SucI)
  qed
qed simp

definition has_wildcard :: "'a :: numeral list \<Rightarrow> bool" where
  "has_wildcard p \<longleftrightarrow> 0x2A \<in> set p \<or> 0x3F \<in> set p"

text \<open>What one alternative of a pattern asks of a name: a glob matches the whole, plain text any part.\<close>

definition wants :: "'a :: numeral list \<Rightarrow> 'a list \<Rightarrow> bool" where
  "wants p name \<longleftrightarrow> (if has_wildcard p then globs (tokens p) name else sublist p name)"

lemma globs_single_star: "globs [Star] xs"
  by (induction xs) auto

lemma name_matches_single_wants:
  assumes "0x2A \<notin> set name" and "length p < u64_max"
  shows "name_matches_single name p = Some (wants p name)"
proof -
  have "globs (tokens [0x2A :: u8]) name" by (simp add: tokens_def token_of_def globs_single_star)
  then show ?thesis using glob_match_globs [OF assms] by (auto simp: name_matches_single_def wants_def has_wildcard_def)
qed

lemma any_sub_matches_wants:
  "0x2A \<notin> set name \<Longrightarrow> \<forall>p \<in> set ps. length p < u64_max \<Longrightarrow> any_sub_matches name ps = Some (\<exists>p \<in> set ps. wants p name)"
  by (induction ps) (simp_all add: name_matches_single_wants)

text \<open>
  The wildcard matcher of the tree search always returns and decides what globs mean: on a name
  without a star byte, for every pattern, it says whether the pattern with its stars and question marks
  can be laid over the whole name, byte by byte.
\<close>

theorem glob_match_decides:
  assumes "0x2A \<notin> set text" and "length pattern < u64_max"
  shows "glob_match text pattern = Some (globs (tokens pattern) text)"
  by (rule glob_match_globs [OF assms])

theorem glob_match_decides_witness: "glob_match [0x61, 0x62, 0x61, 0x62, 0x63] [0x2A, 0x61, 0x3F, 0x63] = Some True"
  using glob_match_decides [of "[0x61, 0x62, 0x61, 0x62, 0x63]" "[0x2A, 0x61, 0x3F, 0x63]"]
  by (simp add: tokens_def token_of_def u64_max_def)

lemma name_matches_total:
  assumes "length pattern \<le> u64_max"
  shows "\<exists>b. name_matches name pattern = Some b"
proof -
  have single: "\<exists>b. name_matches_single name p = Some b" if "length p \<le> u64_max" for p
    using glob_match_total [OF that] by (auto simp: name_matches_single_def)
  have "\<exists>b. any_sub_matches name ps = Some b" if "\<forall>p \<in> set ps. length p \<le> u64_max" for ps
    using that
  proof (induction ps)
    case (Cons p ps)
    then show ?case using single [of p] by auto
  qed auto
  moreover have "\<forall>p \<in> set (split_at 0x7C pattern). length p \<le> u64_max" using split_at_length assms by (metis le_trans)
  ultimately show ?thesis using single [OF assms] by (auto simp: name_matches_def)
qed

text \<open>
  On bytes a pattern matches a name when one of its alternatives between bars does: an alternative with
  wildcards as a glob of the whole name in which a question mark is one byte, one without as a part of it.
  What this means for characters is the matter of the theory of the pattern search.
\<close>

lemma name_matches_bytes:
  assumes "0x2A \<notin> set name" and "length pattern < u64_max"
  shows "name_matches name pattern =
    Some (name \<noteq> [] \<and> name \<noteq> [0x2E] \<and> (\<exists>p \<in> set (split_at 0x7C pattern). wants p name))"
proof -
  have "\<forall>p \<in> set (split_at 0x7C pattern). length p < u64_max" using split_at_length assms(2) by (metis le_less_trans)
  note any = any_sub_matches_wants [OF assms(1) this]
  have star: "wants [0x2A] name" by (simp add: wants_def has_wildcard_def tokens_def token_of_def globs_single_star)
  show ?thesis
  proof (cases "0x7C \<in> set pattern")
    case True
    then show ?thesis using any by (auto simp: name_matches_def)
  next
    case False
    then show ?thesis using name_matches_single_wants [OF assms] star by (auto simp: name_matches_def split_at_whole)
  qed
qed

section \<open>Compiled globs\<close>

text \<open>The tokens a class of globs stands for.\<close>

fun kind_tokens :: "glob_kind \<Rightarrow> nat token list" where
  "kind_tokens GK_Any = [Star]"
| "kind_tokens (GK_Exact v) = map Lit v"
| "kind_tokens (GK_Prefix pre) = map Lit pre @ [Star]"
| "kind_tokens (GK_Suffix suf) = Star # map Lit suf"
| "kind_tokens (GK_Contains needle) = Star # map Lit needle @ [Star]"
| "kind_tokens (GK_PrefixSuffix pre suf) = map Lit pre @ Star # map Lit suf"
| "kind_tokens (GK_Extension ext) = Star # Lit 0x2E # map Lit ext"
| "kind_tokens (GK_Complex p) = tokens p"

definition is_complex :: "glob_kind \<Rightarrow> bool" where
  "is_complex k \<longleftrightarrow> (case k of GK_Complex p \<Rightarrow> True | _ \<Rightarrow> False)"

lemma tokens_plain: "0x2A \<notin> set s \<Longrightarrow> 0x3F \<notin> set s \<Longrightarrow> tokens s = map Lit s"
  by (induction s) (auto simp: tokens_def token_of_def)

lemma tokens_simps [simp]: "tokens (x # xs) = token_of x # tokens xs" "tokens (xs @ ys) = tokens xs @ tokens ys" "tokens [] = []"
  "token_of (0x2A :: nat) = Star"
  by (simp_all add: tokens_def token_of_def)

lemma strip_first_Some: "strip_first c s = Some r \<longleftrightarrow> s = c # r"
  by (auto simp: strip_first_def split: list.splits)

lemma strip_last_Some: "strip_last c s = Some r \<longleftrightarrow> s = r @ [c]"
  unfolding strip_last_def by (metis append_butlast_last_id butlast_snoc last_snoc option.inject option.simps(3) snoc_eq_iff_butlast)

lemma split_once_Some: "split_once c s = Some (a, b) \<Longrightarrow> s = a @ c # b \<and> c \<notin> set a"
  by (induction s arbitrary: a) (auto split: if_splits)

lemma split_once_None: "split_once c s = None \<longleftrightarrow> c \<notin> set s"
  by (induction s) auto

lemma extract_extension_Some: "extract_extension suf = Some ext \<Longrightarrow> suf = 0x2E # ext"
  by (auto simp: extract_extension_def split: list.splits if_splits)

lemma no_more_stars: "length (filter (\<lambda>c. c = x) (a @ x # b)) = 1 \<Longrightarrow> x \<notin> set a \<and> x \<notin> set b"
  by (auto simp: filter_empty_conv)

lemma classify_one_star_tokens:
  assumes "length (filter (\<lambda>c. c = 0x2A) p) = 1" and "0x3F \<notin> set p"
  shows "kind_tokens (classify_one_star p) = tokens p" and "\<not> is_complex (classify_one_star p)"
proof -
  have "0x2A \<in> set p"
  proof (rule ccontr)
    assume "0x2A \<notin> set p"
    then have "filter (\<lambda>c. c = 0x2A) p = []" by (auto simp: filter_empty_conv)
    then show False using assms(1) by simp
  qed
  then obtain a b where ab: "split_once 0x2A p = Some (a, b)" by (cases "split_once 0x2A p") (auto simp: split_once_None)
  then have p: "p = a @ 0x2A # b" using split_once_Some by fastforce
  have "0x2A \<notin> set a \<and> 0x2A \<notin> set b" by (rule no_more_stars) (use assms(1) in \<open>simp only: p\<close>)
  then have "0x2A \<notin> set a" "0x2A \<notin> set b" by simp_all
  then have tok: "tokens p = map Lit a @ Star # map Lit b" using p assms(2) by (simp add: tokens_plain)
  have "kind_tokens (classify_one_star p) = tokens p \<and> \<not> is_complex (classify_one_star p)"
  proof (cases a)
    case Nil
    then show ?thesis using tok p extract_extension_Some [of b]
      by (cases "extract_extension b") (auto simp: classify_one_star_def strip_first_def is_complex_def)
  next
    case (Cons x xs)
    with p \<open>0x2A \<notin> set a\<close> have nf: "strip_first 0x2A p = None" "p \<noteq> [0x2A]" by (auto simp: strip_first_def)
    show ?thesis
    proof (cases "strip_last 0x2A p")
      case None
      then show ?thesis using nf ab tok by (simp add: classify_one_star_def is_complex_def)
    next
      case (Some r)
      then have "b = []" "r = a" using p \<open>0x2A \<notin> set b\<close> unfolding strip_last_Some
        by (auto simp: append_eq_append_conv2 Cons_eq_append_conv append_eq_Cons_conv)
      then show ?thesis using nf Some tok by (simp add: classify_one_star_def is_complex_def)
    qed
  qed
  then show "kind_tokens (classify_one_star p) = tokens p" "\<not> is_complex (classify_one_star p)" by simp_all
qed

lemma classify_glob_tokens:
  assumes "\<not> is_complex (classify_glob p)"
  shows "kind_tokens (classify_glob p) = tokens p"
proof (cases "0x2A \<in> set p \<or> 0x3F \<in> set p \<or> 0x5B \<in> set p")
  case False
  then show ?thesis by (simp add: classify_glob_def tokens_plain)
next
  case True
  then have q: "0x3F \<notin> set p" and k: "classify_glob p = classify_single_star_pattern p"
    using assms by (auto simp: classify_glob_def Let_def is_complex_def split: if_splits)
  show ?thesis
  proof (cases "length (filter (\<lambda>c. c = 0x2A) p) = 1")
    case True
    then show ?thesis using k q classify_one_star_tokens(1) by (simp add: classify_single_star_pattern_def)
  next
    case False
    with assms k obtain r s where r: "strip_first 0x2A p = Some r" "strip_last 0x2A p = Some s"
      by (auto simp: classify_single_star_pattern_def is_complex_def Let_def split: if_splits)
    then have "p = 0x2A # r" "p = s @ [0x2A]" by (simp_all add: strip_first_Some strip_last_Some)
    moreover from this False have "r \<noteq> []" by auto
    ultimately obtain n where n: "r = n @ [0x2A]" by (metis append_butlast_last_id last_ConsR last_snoc)
    then have bind: "Option.bind (strip_first 0x2A p) (strip_last 0x2A) = Some n" using r by (simp add: strip_last_Some)
    have "0x2A \<notin> set n" "classify_glob p = GK_Contains n"
      using assms k False bind by (auto simp: classify_single_star_pattern_def is_complex_def Let_def split: if_splits)
    moreover from this r(1) n q have "tokens p = Star # map Lit n @ [Star]" by (auto simp: tokens_plain strip_first_Some)
    ultimately show ?thesis by simp
  qed
qed

lemma globs_lits: "globs (map Lit xs @ ps) ys \<longleftrightarrow> prefix xs ys \<and> globs ps (drop (length xs) ys)"
proof (induction xs arbitrary: ys)
  case (Cons x xs)
  then show ?case by (cases ys) auto
qed simp

lemma globs_lits_only: "globs (map Lit xs) ys \<longleftrightarrow> ys = xs"
  using globs_lits [of xs "[]" ys] by (auto simp: prefix_def)

lemma globs_star_lits: "globs (Star # map Lit xs) ys \<longleftrightarrow> suffix xs ys"
proof -
  have "(\<exists>k \<le> length ys. drop k ys = xs) \<longleftrightarrow> suffix xs ys"
    by (metis suffix_drop suffix_def append_eq_conv_conj le_add1 length_append)
  then show ?thesis by (simp add: globs_star globs_lits_only)
qed

lemma globs_star_lits_star: "globs (Star # map Lit xs @ [Star]) ys \<longleftrightarrow> sublist xs ys"
proof -
  have "globs (Star # map Lit xs @ [Star]) ys \<longleftrightarrow> (\<exists>k \<le> length ys. prefix xs (drop k ys))"
    by (simp add: globs_star [of "map Lit xs @ [Star]"] globs_lits globs_single_star)
  also have "\<dots> \<longleftrightarrow> sublist xs ys"
  proof
    assume "\<exists>k \<le> length ys. prefix xs (drop k ys)"
    then obtain k where "prefix xs (drop k ys)" by blast
    then show "sublist xs ys" using sublist_drop sublist_order.order.trans prefix_imp_sublist by blast
  next
    assume "sublist xs ys"
    then obtain a b where "ys = a @ xs @ b" by (auto simp: sublist_def)
    then show "\<exists>k \<le> length ys. prefix xs (drop k ys)" by (intro exI [of _ "length a"]) simp
  qed
  finally show ?thesis .
qed

lemma suffix_of_drop: "k \<le> length ys \<Longrightarrow> suffix xs (drop k ys) \<longleftrightarrow> suffix xs ys \<and> k + length xs \<le> length ys"
proof
  assume "k \<le> length ys" "suffix xs (drop k ys)"
  then show "suffix xs ys \<and> k + length xs \<le> length ys"
    using suffix_length_le [of xs "drop k ys"] suffix_drop [of k ys] suffix_order.trans [of xs "drop k ys" ys] by simp
next
  assume "suffix xs ys \<and> k + length xs \<le> length ys"
  then show "suffix xs (drop k ys)"
    by (metis add_le_imp_le_diff drop_append length_append length_drop suffix_def diff_is_0_eq drop_0 add.commute add_le_cancel_right)
qed

text \<open>A test of a kind, on any image of the letters: the matcher is right on inputs long enough.\<close>

definition kind_matches :: "(nat \<Rightarrow> 'a) \<Rightarrow> glob_kind \<Rightarrow> 'a list \<Rightarrow> bool" where
  "kind_matches f k xs = (case k of
     GK_Any \<Rightarrow> True | GK_Exact v \<Rightarrow> xs = map f v | GK_Prefix pre \<Rightarrow> prefix (map f pre) xs | GK_Suffix suf \<Rightarrow> suffix (map f suf) xs
   | GK_Contains needle \<Rightarrow> sublist (map f needle) xs
   | GK_PrefixSuffix pre suf \<Rightarrow> prefix (map f pre) xs \<and> suffix (map f suf) xs
   | GK_Extension ext \<Rightarrow> suffix (map f (0x2E # ext)) xs | GK_Complex p \<Rightarrow> True)"

lemma map_Lit_token: "map (map_token f) (map Lit s) = map Lit (map f s)"
  by simp

lemma kind_matches_globs:
  assumes "\<not> is_complex k"
  shows "globs (map (map_token f) (kind_tokens k)) xs \<longleftrightarrow> kind_matches f k xs \<and> length (filter (\<lambda>x. x \<noteq> Star) (kind_tokens k)) \<le> length xs"
proof -
  have lits: "length (filter (\<lambda>x. x \<noteq> Star) (map Lit s)) = length s" for s :: str by (induction s) auto
  note simps = kind_matches_def lits map_Lit_token globs_star_lits globs_star_lits_star globs_lits globs_lits_only globs_single_star
  show ?thesis
  proof (cases k)
    case (GK_Extension ext)
    then show ?thesis using globs_star_lits [of "map f (0x2E # ext)" xs] suffix_length_le [of "map f (0x2E # ext)" xs]
      by (auto simp: simps simp flip: map_map)
  next
    case (GK_PrefixSuffix pre suf)
    then have "globs (map (map_token f) (kind_tokens k)) xs \<longleftrightarrow> prefix (map f pre) xs \<and> suffix (map f suf) (drop (length pre) xs)"
      by (simp add: globs_lits globs_star_lits map_Lit_token del: map_map)
    moreover have "prefix (map f pre) xs \<Longrightarrow> length pre \<le> length xs" by (metis length_map prefix_length_le)
    ultimately show ?thesis using GK_PrefixSuffix by (auto simp: kind_matches_def suffix_of_drop lits)
  qed (use assms suffix_length_le prefix_length_le sublist_length_le in
        \<open>fastforce simp: simps is_complex_def simp del: map_map\<close>)+
qed

lemma compiled_kind_matches:
  assumes "\<not> is_complex (classify_glob pattern)"
  shows "\<exists>ip. compile_index_pattern_with_fold globset_regex regex_new pattern t = Inr ip
     \<and> (\<forall>input. ip_matches is_match t True input ip = kind_matches id (classify_glob pattern) input
          \<and> ip_matches is_match t False input ip = kind_matches (fold_char t) (classify_glob pattern) (fold_to_u16 t input))"
  using assms
  by (cases "classify_glob pattern")
     (simp_all add: compile_index_pattern_with_fold_def is_complex_def kind_matches_def eq_folded_iff starts_with_folded_iff
       ends_with_folded_iff contains_folded_iff fold_to_u16_def map_idI)

lemma stars_filtered: "length (filter (\<lambda>x. x \<noteq> Star) (tokens s)) = length (filter (\<lambda>c. c \<noteq> 0x2A) s)" for s :: str
  by (induction s) (auto simp: token_of_def)

lemma map_token_id: "map (map_token id) ts = ts"
  by (simp add: token.map_id0)

text \<open>
  A glob without question marks, brackets and double stars compiles without an error to a test that
  decides it: on the letters as they are, and in the insensitive mode on the folded letters, the glob lies
  over the whole name exactly when the test says so and the name has at least as many letters as the glob.
\<close>

theorem compiled_glob_decides:
  assumes "\<not> is_complex (classify_glob pattern)"
  shows "\<exists>ip. compile_index_pattern_with_fold globset_regex regex_new pattern t = Inr ip
     \<and> (\<forall>input. let enough = length (filter (\<lambda>c. c \<noteq> 0x2A) pattern) \<le> length input in
          globs (tokens pattern) input = (ip_matches is_match t True input ip \<and> enough)
          \<and> globs (map (map_token (fold_char t)) (tokens pattern)) (fold_to_u16 t input) = (ip_matches is_match t False input ip \<and> enough))"
proof -
  note tok = classify_glob_tokens [OF assms]
  have len: "length (fold_to_u16 t input) = length input" for input by (simp add: fold_to_u16_def)
  from compiled_kind_matches [OF assms] obtain ip
    where ip: "compile_index_pattern_with_fold globset_regex regex_new pattern t = Inr ip"
      "\<forall>input. ip_matches is_match t True input ip = kind_matches id (classify_glob pattern) input
          \<and> ip_matches is_match t False input ip = kind_matches (fold_char t) (classify_glob pattern) (fold_to_u16 t input)" by blast
  show ?thesis
    using ip kind_matches_globs [OF assms, where f = id] kind_matches_globs [OF assms, where f = "fold_char t"]
    by (simp add: tok stars_filtered map_token_id len Let_def)
qed

theorem compiled_glob_decides_witness:
  "\<exists>ip :: unit index_pattern. compile_index_pattern_with_fold Inr (\<lambda>_. Inr ()) [0x61, 0x2A, 0x62] [] = Inr ip
     \<and> ip_matches (\<lambda>_ _. False) [] True [0x61, 0x63, 0x62] ip \<and> \<not> ip_matches (\<lambda>_ _. False) [] True [0x61, 0x63, 0x63] ip"
proof -
  have "\<not> is_complex (classify_glob [0x61, 0x2A, 0x62])" by code_simp
  from compiled_glob_decides [OF this, of Inr "\<lambda>_. Inr ()" "[]" "\<lambda>_ _. False"]
  obtain ip :: "unit index_pattern" where ip: "compile_index_pattern_with_fold Inr (\<lambda>_. Inr ()) [0x61, 0x2A, 0x62] [] = Inr ip"
    and m: "\<forall>input. globs (tokens [0x61, 0x2A, 0x62]) input =
      (ip_matches (\<lambda>_ _. False) [] True input ip \<and> length (filter (\<lambda>c. c \<noteq> 0x2A) [0x61, 0x2A, 0x62 :: nat]) \<le> length input)"
    by (auto simp: Let_def)
  show ?thesis using ip m [rule_format, of "[0x61, 0x63, 0x62]"] m [rule_format, of "[0x61, 0x63, 0x63]"] by (auto simp: token_of_def)
qed

text \<open>
  The compiled test of a glob with text on both sides of its star lets the two overlap: the glob
  \<open>a*a\<close> accepts the name \<open>a\<close>, in both modes and under every folding table, although no two letters are there.
\<close>

theorem prefix_suffix_overlap:
  "\<exists>ip. compile_index_pattern_with_fold globset_regex regex_new [0x61, 0x2A, 0x61] t = Inr ip
     \<and> ip_matches is_match t cs [0x61] ip \<and> \<not> globs (tokens [0x61 :: nat, 0x2A, 0x61]) [0x61]"
proof -
  have "classify_glob [0x61, 0x2A, 0x61] = GK_PrefixSuffix [0x61] [0x61]" by code_simp
  then show ?thesis
    by (simp add: compile_index_pattern_with_fold_def starts_with_folded_iff ends_with_folded_iff token_of_def)
qed

end
