(* ===== verification/Calendar_Time.thy ===== *)
theory Calendar_Time
  imports Glob_Match
begin

text \<open>
  Dates and time bounds: the decomposition of a file time into calendar fields (\<open>crates/uffs-time/src/lib.rs\<close>)
  and the parsing of the time bounds of a search (\<open>crates/uffs-core/src/search/filters/time_parsing.rs\<close>).

  A file time is an integer with the range of \<open>i64\<close> written out; the 32-bit unsigned arithmetic of the date
  algorithm is on natural numbers with its underflow and overflow checks. A string is its list of scalar
  values, as in the pattern compiler.
\<close>

section \<open>Arithmetic\<close>

text \<open>Division of \<open>i64\<close> rounds towards zero, and the remainder has the sign of the dividend.\<close>

definition idiv :: "int \<Rightarrow> int \<Rightarrow> int" where
  "idiv a b = (if 0 \<le> a then a div b else - ((- a) div b))"

definition irem :: "int \<Rightarrow> int \<Rightarrow> int" where
  "irem a b = a - b * idiv a b"

definition i64_sub :: "int \<Rightarrow> int \<Rightarrow> int rust" where "i64_sub a b = i64_check (a - b)"
definition i64_mul :: "int \<Rightarrow> int \<Rightarrow> int rust" where "i64_mul a b = i64_check (a * b)"

definition u32_check :: "nat \<Rightarrow> nat rust" where
  "u32_check n = (if n \<le> u32_max then Some n else None)"
definition u32_add :: "nat \<Rightarrow> nat \<Rightarrow> nat rust" where "u32_add a b = u32_check (a + b)"
definition u32_mul :: "nat \<Rightarrow> nat \<Rightarrow> nat rust" where "u32_mul a b = u32_check (a * b)"
definition u32_sub :: "nat \<Rightarrow> nat \<Rightarrow> nat rust" where
  "u32_sub a b = (if b \<le> a then Some (a - b) else None)"

text \<open>\<open>u32::try_from(x).unwrap_or(e)\<close> on an \<open>i64\<close>, and the cast \<open>as u32\<close>.\<close>

definition u32_or :: "nat \<Rightarrow> int \<Rightarrow> nat" where
  "u32_or e x = (if 0 \<le> x \<and> x \<le> int u32_max then nat x else e)"

definition as_u32 :: "int \<Rightarrow> nat" where "as_u32 x = nat (x mod 2 ^ 32)"
definition as_i32 :: "int \<Rightarrow> int" where "as_i32 x = (x + 2 ^ 31) mod 2 ^ 32 - 2 ^ 31"

section \<open>Dates\<close>

definition FILETIME_TICKS_PER_SECOND :: int where "FILETIME_TICKS_PER_SECOND = 10000000"
definition FILETIME_TICKS_PER_MICROSECOND :: int where "FILETIME_TICKS_PER_MICROSECOND = 10"
definition FILETIME_UNIX_DIFF :: int where "FILETIME_UNIX_DIFF = 116444736000000000"
definition TICKS_PER_DAY :: int where "TICKS_PER_DAY = FILETIME_TICKS_PER_SECOND * 86400"

record calendar_parts =
  cp_year :: int
  cp_month :: nat
  cp_day :: nat
  cp_hour :: nat
  cp_minute :: nat
  cp_second :: nat

definition filetime_to_unix_micros :: "int \<Rightarrow> int rust" where
  "filetime_to_unix_micros filetime =
     (if filetime = 0 then Some 0
      else do { x \<leftarrow> i64_sub filetime FILETIME_UNIX_DIFF; Some (idiv x FILETIME_TICKS_PER_MICROSECOND) })"

definition filetime_with_tz_bias :: "int \<Rightarrow> int \<Rightarrow> int rust" where
  "filetime_with_tz_bias filetime tz_bias_secs = do {
     b \<leftarrow> i64_mul tz_bias_secs FILETIME_TICKS_PER_SECOND;
     i64_add filetime b
   }"

text \<open>The year of the era, the day of the year and the month and day behind them, from the day of the era.\<close>

definition year_of_era :: "nat \<Rightarrow> nat rust" where
  "year_of_era doe = do {
     a \<leftarrow> u32_sub doe (doe div 1460);
     b \<leftarrow> u32_add a (doe div 36524);
     c \<leftarrow> u32_sub b (doe div 146096);
     Some (c div 365)
   }"

definition day_of_year :: "nat \<Rightarrow> nat \<Rightarrow> nat rust" where
  "day_of_year doe yoe = do {
     a \<leftarrow> u32_mul 365 yoe;
     b \<leftarrow> u32_add a (yoe div 4);
     c \<leftarrow> u32_sub b (yoe div 100);
     u32_sub doe c
   }"

definition month_day :: "nat \<Rightarrow> (nat \<times> nat) rust" where
  "month_day doy = do {
     a \<leftarrow> u32_mul 5 doy;
     b \<leftarrow> u32_add a 2;
     (let mp = b div 153 in do {
        c \<leftarrow> u32_mul 153 mp;
        e \<leftarrow> u32_add c 2;
        f \<leftarrow> u32_sub doy (e div 5);
        day \<leftarrow> u32_add f 1;
        month \<leftarrow> (if mp < 10 then u32_add mp 3 else u32_sub mp 9);
        Some (month, day)
      })
   }"

definition era_of :: "int \<Rightarrow> int rust" where
  "era_of z = (if 0 \<le> z then Some (idiv z 146097) else do { a \<leftarrow> i64_sub z 146096; Some (idiv a 146097) })"

definition filetime_to_calendar :: "int \<Rightarrow> calendar_parts option rust" where
  "filetime_to_calendar filetime =
     (if filetime = 0 then Some None
      else
        (let total_secs = idiv filetime FILETIME_TICKS_PER_SECOND;
             days_since_1601 = total_secs div 86400;
             day_secs = total_secs mod 86400;
             hour = as_u32 (idiv day_secs 3600);
             minute = as_u32 (idiv (irem day_secs 3600) 60);
             second = as_u32 (irem day_secs 60)
         in do {
           z \<leftarrow> i64_add days_since_1601 584694;
           era \<leftarrow> era_of z;
           e \<leftarrow> i64_mul era 146097;
           r \<leftarrow> i64_sub z e;
           (let doe = as_u32 r in do {
              yoe \<leftarrow> year_of_era doe;
              e4 \<leftarrow> i64_mul era 400;
              y \<leftarrow> i64_add (int yoe) e4;
              doy \<leftarrow> day_of_year doe yoe;
              (month, day) \<leftarrow> month_day doy;
              year \<leftarrow> (if month \<le> 2 then i64_add y 1 else Some y);
              Some (Some \<lparr>cp_year = as_i32 year, cp_month = month, cp_day = day,
                          cp_hour = hour, cp_minute = minute, cp_second = second\<rparr>)
            })
         }))"

definition month_from_filetime :: "int \<Rightarrow> nat rust" where
  "month_from_filetime filetime = do {
     c \<leftarrow> filetime_to_calendar filetime;
     Some (case c of Some p \<Rightarrow> cp_month p | None \<Rightarrow> 1)
   }"

definition days_to_ymd_1601 :: "int \<Rightarrow> (int \<times> int \<times> int) rust" where
  "days_to_ymd_1601 days_since_1601 = do {
     z \<leftarrow> i64_add days_since_1601 584694;
     era \<leftarrow> era_of z;
     e \<leftarrow> i64_mul era 146097;
     r \<leftarrow> i64_sub z e;
     (let doe = u32_or 0 r in do {
        yoe \<leftarrow> year_of_era doe;
        e4 \<leftarrow> i64_mul era 400;
        y \<leftarrow> i64_add (int yoe) e4;
        doy \<leftarrow> day_of_year doe yoe;
        (month, day) \<leftarrow> month_day doy;
        year \<leftarrow> (if month \<le> 2 then i64_add y 1 else Some y);
        Some (year, int month, int day)
      })
   }"

definition is_leap :: "int \<Rightarrow> bool" where
  "is_leap year \<longleftrightarrow> (irem year 4 = 0 \<and> irem year 100 \<noteq> 0) \<or> irem year 400 = 0"

definition days_in_month :: "int \<Rightarrow> int \<Rightarrow> int" where
  "days_in_month year month =
     (if month \<in> {1, 3, 5, 7, 8, 10, 12} then 31
      else if month = 2 then (if is_leap year then 29 else 28)
      else 30)"

definition ymd_to_days_1601 :: "int \<Rightarrow> int \<Rightarrow> int \<Rightarrow> int rust" where
  "ymd_to_days_1601 year month day = do {
     (adj_year, adj_month) \<leftarrow>
       (if month \<le> 2 then do { y \<leftarrow> i64_sub year 1; m \<leftarrow> i64_add month 9; Some (y, m) }
        else do { m \<leftarrow> i64_sub month 3; Some (year, m) });
     era \<leftarrow> (if 0 \<le> adj_year then Some (idiv adj_year 400) else do { a \<leftarrow> i64_sub adj_year 399; Some (idiv a 400) });
     e \<leftarrow> i64_mul era 400;
     r \<leftarrow> i64_sub adj_year e;
     (let yoe = u32_or 0 r; adj_month_u32 = u32_or 0 adj_month; day_u32 = u32_or 1 day in do {
        a \<leftarrow> u32_mul 153 adj_month_u32;
        b \<leftarrow> u32_add a 2;
        c \<leftarrow> u32_add (b div 5) day_u32;
        doy \<leftarrow> u32_sub c 1;
        f \<leftarrow> u32_mul yoe 365;
        g \<leftarrow> u32_add f (yoe div 4);
        h \<leftarrow> u32_sub g (yoe div 100);
        doe \<leftarrow> u32_add h doy;
        k \<leftarrow> i64_mul era 146097;
        days \<leftarrow> i64_add (int doe) k;
        i64_sub days 584694
      })
   }"

section \<open>Time bounds\<close>

definition ascii_lower :: "nat \<Rightarrow> nat" where
  "ascii_lower c = (if 0x41 \<le> c \<and> c \<le> 0x5A then c + 0x20 else c)"

text \<open>\<open>str::parse::<i64>\<close>: an optional sign and at least one digit, an error outside the range.\<close>

definition digits_value :: "str \<Rightarrow> nat" where
  "digits_value ds = foldl (\<lambda>n c. n * 10 + (c - 0x30)) 0 ds"

definition all_digits :: "str \<Rightarrow> bool" where
  "all_digits ds \<longleftrightarrow> ds \<noteq> [] \<and> list_all (\<lambda>c. 0x30 \<le> c \<and> c \<le> 0x39) ds"

definition parse_i64 :: "str \<Rightarrow> int option" where
  "parse_i64 s =
     (let (neg, ds) = (case s of c # r \<Rightarrow> if c = 0x2D then (True, r) else if c = 0x2B then (False, r) else (False, s) | [] \<Rightarrow> (False, s))
      in if all_digits ds then i64_check (if neg then - int (digits_value ds) else int (digits_value ds)) else None)"

definition utf8_bytes :: "str \<Rightarrow> bytes" where
  "utf8_bytes s = concat (map encode_utf8 s)"

text \<open>
  \<open>split_at(len - 1)\<close> panics when the last byte is not a character of its own. The outer option is the
  panic; the inner one whether the bound was understood.
\<close>

definition split_last :: "str \<Rightarrow> (str \<times> str) rust" where
  "split_last s = (if s \<noteq> [] \<and> last s < 0x80 then Some (butlast s, [last s]) else None)"

definition parse_iso_date :: "str \<Rightarrow> int option rust" where
  "parse_iso_date trimmed =
     (if length (utf8_bytes trimmed) = 10 \<and> vec_get (utf8_bytes trimmed) 4 = Some 0x2D then
        (case split_at 0x2D trimmed of
           [year_s, month_s, day_s] \<Rightarrow>
             (case (parse_i64 year_s, parse_i64 month_s, parse_i64 day_s) of
                (Some year, Some month, Some day) \<Rightarrow> do {
                  days \<leftarrow> ymd_to_days_1601 year month day;
                  t \<leftarrow> i64_mul days TICKS_PER_DAY;
                  Some (Some t)
                }
              | _ \<Rightarrow> Some None)
         | _ \<Rightarrow> Some None)
      else Some None)"

definition today_start :: "int \<Rightarrow> int rust" where
  "today_start now_ft = i64_sub now_ft (irem now_ft TICKS_PER_DAY)"

definition shift_days :: "int \<Rightarrow> int \<Rightarrow> int rust" where
  "shift_days t days = do { x \<leftarrow> i64_mul days TICKS_PER_DAY; i64_add t x }"

definition back_days :: "int \<Rightarrow> int \<Rightarrow> int rust" where
  "back_days t days = do { x \<leftarrow> i64_mul days TICKS_PER_DAY; i64_sub t x }"

text \<open>The start of a year, month and week as the branches of the range table compute them.\<close>

definition year_start :: "int \<Rightarrow> int rust" where
  "year_start year = do { days \<leftarrow> ymd_to_days_1601 year 1 1; i64_mul days TICKS_PER_DAY }"

definition month_start :: "int \<Rightarrow> int \<Rightarrow> int rust" where
  "month_start today day = do { k \<leftarrow> i64_sub day 1; back_days today k }"

definition week_start :: "int \<Rightarrow> int rust" where
  "week_start today = back_days today (irem (idiv today TICKS_PER_DAY) 7)"

definition named :: "str \<Rightarrow> string list \<Rightarrow> bool" where
  "named lower names \<longleftrightarrow> lower \<in> set (map chars_of names)"

definition parse_named_time_range :: "str \<Rightarrow> int \<Rightarrow> bool \<Rightarrow> int option rust" where
  "parse_named_time_range name now_ft is_newer = do {
     today \<leftarrow> today_start now_ft;
     (let lower = map ascii_lower name; days = idiv today TICKS_PER_DAY in
      if named lower [''today''] then Some (Some today)
      else if named lower [''yesterday''] then
        (if is_newer then map_option Some (i64_sub today TICKS_PER_DAY) else Some (Some today))
      else if named lower [''this_week'', ''thisweek''] then map_option Some (week_start today)
      else if named lower [''last_week'', ''lastweek''] then do {
        monday \<leftarrow> week_start today;
        if is_newer then map_option Some (i64_sub monday (7 * TICKS_PER_DAY)) else Some (Some monday)
      }
      else if named lower [''this_month'', ''thismonth''] then do {
        (year, month, day) \<leftarrow> days_to_ymd_1601 days;
        map_option Some (month_start today day)
      }
      else if named lower [''last_month'', ''lastmonth''] then do {
        (year, month, day) \<leftarrow> days_to_ymd_1601 days;
        start \<leftarrow> month_start today day;
        if is_newer then do {
          (prev_year, prev_month) \<leftarrow> (if month = 1 then do { y \<leftarrow> i64_sub year 1; Some (y, 12) }
                                     else do { m \<leftarrow> i64_sub month 1; Some (year, m) });
          map_option Some (back_days start (days_in_month prev_year prev_month))
        }
        else Some (Some start)
      }
      else if named lower [''this_year'', ''thisyear'', ''ytd''] then do {
        (year, _, _) \<leftarrow> days_to_ymd_1601 days;
        map_option Some (year_start year)
      }
      else if named lower [''last_year'', ''lastyear''] then do {
        (year, _, _) \<leftarrow> days_to_ymd_1601 days;
        y \<leftarrow> (if is_newer then i64_sub year 1 else Some year);
        map_option Some (year_start y)
      }
      else if named lower [''last_7d'', ''last7d''] then map_option Some (i64_sub now_ft (7 * TICKS_PER_DAY))
      else if named lower [''last_30d'', ''last30d''] then map_option Some (i64_sub now_ft (30 * TICKS_PER_DAY))
      else if named lower [''last_90d'', ''last90d''] then map_option Some (i64_sub now_ft (90 * TICKS_PER_DAY))
      else if named lower [''last_365d'', ''last365d''] then map_option Some (i64_sub now_ft (365 * TICKS_PER_DAY))
      else if named lower [''next_day'', ''nextday'', ''tomorrow''] then
        map_option Some (i64_add today (if is_newer then TICKS_PER_DAY else 2 * TICKS_PER_DAY))
      else if named lower [''next_week'', ''nextweek''] then do {
        monday \<leftarrow> week_start today;
        next_monday \<leftarrow> i64_add monday (7 * TICKS_PER_DAY);
        if is_newer then Some (Some next_monday) else map_option Some (i64_add next_monday (7 * TICKS_PER_DAY))
      }
      else if named lower [''next_month'', ''nextmonth''] then do {
        (year, month, day) \<leftarrow> days_to_ymd_1601 days;
        start \<leftarrow> month_start today day;
        next_start \<leftarrow> shift_days start (days_in_month year month);
        if is_newer then Some (Some next_start)
        else do {
          (ny, nm) \<leftarrow> (if month = 12 then do { y \<leftarrow> i64_add year 1; Some (y, 1) }
                      else do { m \<leftarrow> i64_add month 1; Some (year, m) });
          map_option Some (shift_days next_start (days_in_month ny nm))
        }
      }
      else if named lower [''next_year'', ''nextyear''] then do {
        (year, _, _) \<leftarrow> days_to_ymd_1601 days;
        y \<leftarrow> i64_add year (if is_newer then 1 else 2);
        map_option Some (year_start y)
      }
      else Some None)
   }"

text \<open>The length of a duration suffix in seconds.\<close>

definition duration_delta :: "int \<Rightarrow> str \<Rightarrow> int option rust" where
  "duration_delta count suf =
     (if suf = chars_of ''s'' then map_option Some (i64_mul count FILETIME_TICKS_PER_SECOND)
      else if suf = chars_of ''m'' then do { x \<leftarrow> i64_mul count 60; map_option Some (i64_mul x FILETIME_TICKS_PER_SECOND) }
      else if suf = chars_of ''h'' then do { x \<leftarrow> i64_mul count 3600; map_option Some (i64_mul x FILETIME_TICKS_PER_SECOND) }
      else if suf = chars_of ''d'' then map_option Some (i64_mul count TICKS_PER_DAY)
      else if suf = chars_of ''w'' then do { x \<leftarrow> i64_mul count 7; map_option Some (i64_mul x TICKS_PER_DAY) }
      else Some None)"

definition parse_time_bound :: "str \<Rightarrow> int \<Rightarrow> bool \<Rightarrow> int option rust" where
  "parse_time_bound spec now_ft is_newer =
     (let trimmed = trim_where is_whitespace spec in do {
        range \<leftarrow> parse_named_time_range trimmed now_ft is_newer;
        (case range of
           Some ts \<Rightarrow> Some (Some ts)
         | None \<Rightarrow>
             if length (utf8_bytes trimmed) \<ge> 2 then do {
               (num_str, suf) \<leftarrow> split_last trimmed;
               (case parse_i64 num_str of
                  Some count \<Rightarrow> do {
                    delta \<leftarrow> duration_delta count suf;
                    (case delta of None \<Rightarrow> Some None | Some d \<Rightarrow> map_option Some (i64_sub now_ft d))
                  }
                | None \<Rightarrow> parse_iso_date trimmed)
             }
             else parse_iso_date trimmed)
      })"

text \<open>The month and quarter tokens.\<close>

definition month_token :: "str \<Rightarrow> nat list" where
  "month_token lower =
     (if named lower [''january'', ''jan''] then [1] else if named lower [''february'', ''feb''] then [2]
      else if named lower [''march'', ''mar''] then [3] else if named lower [''april'', ''apr''] then [4]
      else if named lower [''may''] then [5] else if named lower [''june'', ''jun''] then [6]
      else if named lower [''july'', ''jul''] then [7] else if named lower [''august'', ''aug''] then [8]
      else if named lower [''september'', ''sep''] then [9] else if named lower [''october'', ''oct''] then [10]
      else if named lower [''november'', ''nov''] then [11] else if named lower [''december'', ''dec''] then [12]
      else if named lower [''q1''] then [1, 2, 3] else if named lower [''q2''] then [4, 5, 6]
      else if named lower [''q3''] then [7, 8, 9] else if named lower [''q4''] then [10, 11, 12]
      else [])"

definition parse_month_spec :: "str \<Rightarrow> nat list" where
  "parse_month_spec spec =
     remdups (sort (concat (map (\<lambda>t. month_token (map ascii_lower (trim_where is_whitespace t))) (split_at 0x2C spec))))"

datatype parse_size_error = Empty | InvalidNumber str | Overflow str

definition strip_str_suffix :: "str \<Rightarrow> str \<Rightarrow> str option" where
  "strip_str_suffix suf s = (if suffix suf s then Some (take (length s - length suf) s) else None)"

definition SIZE_SUFFIXES :: "(str \<times> nat) list" where
  "SIZE_SUFFIXES = [(chars_of ''TB'', 1024 * 1024 * 1024 * 1024), (chars_of ''GB'', 1024 * 1024 * 1024),
     (chars_of ''MB'', 1024 * 1024), (chars_of ''KB'', 1024), (chars_of ''B'', 1)]"

fun find_suffix :: "str \<Rightarrow> (str \<times> nat) list \<Rightarrow> (str \<times> nat) option" where
  "find_suffix s [] = None"
| "find_suffix s ((suf, mult) # rest) = (case strip_str_suffix suf s of Some r \<Rightarrow> Some (r, mult) | None \<Rightarrow> find_suffix s rest)"

text \<open>\<open>str::parse::<u64>\<close>: an optional plus and at least one digit.\<close>

definition parse_u64 :: "str \<Rightarrow> nat option" where
  "parse_u64 s =
     (let ds = (case s of c # r \<Rightarrow> if c = 0x2B then r else s | [] \<Rightarrow> s)
      in if all_digits ds then u64_check (digits_value ds) else None)"

definition parse_size :: "str \<Rightarrow> parse_size_error + nat" where
  "parse_size spec =
     (let trimmed = trim_where is_whitespace spec in
      if trimmed = [] then Inl Empty
      else
        (let upper = map ascii_upper trimmed;
             (digits, multiplier) = (case find_suffix upper SIZE_SUFFIXES of None \<Rightarrow> (upper, 1) | Some p \<Rightarrow> p)
         in case parse_u64 (trim_where is_whitespace digits) of
              None \<Rightarrow> Inl (InvalidNumber spec)
            | Some count \<Rightarrow> (case u64_mul count multiplier of None \<Rightarrow> Inl (Overflow spec) | Some n \<Rightarrow> Inr n)))"

section \<open>The calendar of one era\<close>

text \<open>
  A day of the 400-year era that begins on the first of March is \<open>c\<close> centuries, \<open>q\<close> leap cycles and \<open>a\<close> years
  and \<open>r\<close> days; the last day of a cycle, a century and the era is the 366th of its year.
\<close>

definition era_block :: "nat \<Rightarrow> nat \<Rightarrow> nat \<Rightarrow> nat \<Rightarrow> bool" where
  "era_block c q a r \<longleftrightarrow> c \<le> 3 \<and> q \<le> 24 \<and> a \<le> 3 \<and> (r \<le> 364 \<or> (r = 365 \<and> a = 3 \<and> (q < 24 \<or> c = 3)))"

definition era_day :: "nat \<Rightarrow> nat \<Rightarrow> nat \<Rightarrow> nat \<Rightarrow> nat" where
  "era_day c q a r = 36524 * c + 1461 * q + 365 * a + r"

lemma era_day_less: "era_block c q a r \<Longrightarrow> era_day c q a r < 146097"
  by (auto simp: era_block_def era_day_def)

lemma era_day_exists: "doe < 146097 \<Longrightarrow> \<exists>c q a r. era_block c q a r \<and> doe = era_day c q a r"
proof -
  assume doe: "doe < 146097"
  define c where "c = min 3 (doe div 36524)"
  define x where "x = doe - 36524 * c"
  have c: "c \<le> 3" and doe_x: "doe = 36524 * c + x" and x: "x < 36524 \<or> (x = 36524 \<and> c = 3)"
    using doe by (auto simp: c_def x_def min_def)
  define y where "y = x mod 1461"
  define a where "a = min 3 (y div 365)"
  define r where "r = y - 365 * a"
  have q: "x div 1461 \<le> 24" and xq: "x = 1461 * (x div 1461) + y" using x by (auto simp: y_def)
  have y: "y \<le> 1460" using mod_less_divisor [of 1461 x] unfolding y_def by linarith
  have "a \<le> 3" and ya: "y = 365 * a + r" and r: "r \<le> 364 \<or> (r = 365 \<and> a = 3)"
    using y by (auto simp: a_def r_def min_def)
  have "x div 1461 < 24 \<or> c = 3" if "r = 365" "a = 3"
    using x xq ya that q by (cases "x div 1461 = 24") auto
  then have "era_block c (x div 1461) a r" using c q \<open>a \<le> 3\<close> r by (auto simp: era_block_def)
  moreover have "doe = era_day c (x div 1461) a r" using doe_x xq ya by (simp add: era_day_def)
  ultimately show ?thesis by blast
qed

lemma year_of_era_block:
  assumes "era_block c q a r"
  shows "year_of_era (era_day c q a r) = Some (100 * c + 4 * q + a)"
proof -
  let ?d = "era_day c q a r"
  have b: "c \<le> 3" "q \<le> 24" "a \<le> 3" "r \<le> 365" "r = 365 \<Longrightarrow> a = 3 \<and> (q < 24 \<or> c = 3)" using assms by (auto simp: era_block_def)
  define e where "e = (if 1460 \<le> 24 * c + q + 365 * a + r then 1 else 0 :: nat)"
  define f where "f = (if ?d = 146096 then 1 else 0 :: nat)"
  have d1: "?d div 1460 = 25 * c + q + e"
    using b(1-4) by (intro div_nat_eqI) (auto simp: era_day_def e_def)
  have "?d < 146096 \<Longrightarrow> 1461 * q + 365 * a + r < 36524"
    using b unfolding era_day_def by (cases "q = 24 \<and> a = 3 \<and> r = 365") auto
  then have d2: "?d div 36524 = c + f"
    using b(1-4) era_day_less [OF assms] by (intro div_nat_eqI) (auto simp: era_day_def f_def split: if_splits)
  have d3: "?d div 146096 = f"
    using era_day_less [OF assms] by (intro div_nat_eqI) (auto simp: f_def)
  have r: "e \<le> r" "r - e \<le> 364"
    using b by (cases "r = 365"; auto simp: e_def)+
  have sub: "25 * c + q + e \<le> ?d" "f \<le> ?d - (25 * c + q + e) + (c + f)" using b r by (auto simp: era_day_def)
  have val: "?d - (25 * c + q + e) + (c + f) - f = 365 * (100 * c + 4 * q + a) + (r - e)"
    using r by (simp add: era_day_def)
  have "?d - (25 * c + q + e) + (c + f) \<le> u32_max" using era_day_less [OF assms] b(1) by (auto simp: u32_max_def f_def)
  then have "u32_sub ?d (25 * c + q + e) = Some (?d - (25 * c + q + e))"
    "u32_add (?d - (25 * c + q + e)) (c + f) = Some (?d - (25 * c + q + e) + (c + f))"
    "u32_sub (?d - (25 * c + q + e) + (c + f)) f = Some (365 * (100 * c + 4 * q + a) + (r - e))"
    unfolding val [symmetric] by (simp_all only: u32_sub_def u32_add_def u32_check_def sub if_True)
  moreover have "(365 * (100 * c + 4 * q + a) + (r - e)) div 365 = 100 * c + 4 * q + a"
    using r by (intro div_nat_eqI) auto
  ultimately show ?thesis
    unfolding year_of_era_def d1 d2 d3 by (simp only: Option.bind.bind_lunit)
qed

lemma yoe_parts: "q \<le> 24 \<Longrightarrow> a \<le> 3 \<Longrightarrow> (100 * c + 4 * q + a) div 4 = 25 * c + q \<and> (100 * c + 4 * q + a) div 100 = (c :: nat)"
  by (auto intro!: div_nat_eqI)

lemma day_of_year_block:
  assumes "era_block c q a r"
  shows "day_of_year (era_day c q a r) (100 * c + 4 * q + a) = Some r"
proof -
  have p: "(100 * c + 4 * q + a) div 4 = 25 * c + q" "(100 * c + 4 * q + a) div 100 = c"
    using assms yoe_parts by (simp_all add: era_block_def)
  have "365 * (100 * c + 4 * q + a) + (25 * c + q) \<le> u32_max" using assms by (auto simp: era_block_def u32_max_def)
  then show ?thesis
    by (simp add: day_of_year_def p u32_mul_def u32_add_def u32_sub_def u32_check_def era_day_def)
qed

text \<open>The months since March, with the day of the year each begins on.\<close>

definition month_begin :: "nat \<Rightarrow> nat" where "month_begin mp = (153 * mp + 2) div 5"

lemma month_of_day:
  assumes "r \<le> 365"
  defines "mp \<equiv> (5 * r + 2) div 153"
  shows "mp \<le> 11" and "month_begin mp \<le> r" and "r < month_begin (Suc mp)"
proof -
  have "153 * mp \<le> 5 * r + 2" "5 * r + 2 < 153 * mp + 153" by (auto simp: mp_def)
  then show "mp \<le> 11" "month_begin mp \<le> r" "r < month_begin (Suc mp)"
    using assms(1) by (auto simp: month_begin_def)
qed

lemma month_day_block:
  assumes "r \<le> 365"
  defines "mp \<equiv> (5 * r + 2) div 153"
  shows "month_day r = Some (if mp < 10 then mp + 3 else mp - 9, r - month_begin mp + 1)"
proof -
  note m = month_of_day [OF assms(1), folded mp_def]
  have "u32_mul 5 r = Some (5 * r)" "u32_add (5 * r) 2 = Some (5 * r + 2)" "u32_mul 153 mp = Some (153 * mp)"
    "u32_add (153 * mp) 2 = Some (153 * mp + 2)" "u32_sub r ((153 * mp + 2) div 5) = Some (r - month_begin mp)"
    "u32_add (r - month_begin mp) 1 = Some (r - month_begin mp + 1)"
    "(if mp < 10 then u32_add mp 3 else u32_sub mp 9) = Some (if mp < 10 then mp + 3 else mp - 9)"
    using m assms(1) by (simp_all add: u32_mul_def u32_add_def u32_sub_def u32_check_def u32_max_def month_begin_def)
  then show ?thesis unfolding month_day_def by (simp only: Option.bind.bind_lunit Let_def mp_def [symmetric])
qed

section \<open>Dates of all eras\<close>

lemma floor_era:
  assumes "0 \<le> k" and "k < n"
  shows "(if 0 \<le> n * e + k then idiv (n * e + k) n else idiv (n * e + k - (n - 1)) n) = (e :: int)"
proof (cases "0 \<le> n * e + k")
  case True
  then show ?thesis using assms by (simp add: idiv_def)
next
  case False
  have "((n - 1 - k) + n * (- e)) div n = - e" using assms by (subst div_mult_self2) (simp_all add: div_pos_pos_trivial)
  then have "(- (n * e + k - (n - 1))) div n = - e" by (simp add: algebra_simps)
  then show ?thesis using False assms by (simp add: idiv_def)
qed

lemma u32_or_nat: "n \<le> u32_max \<Longrightarrow> u32_or e (int n) = n"
  by (simp add: u32_or_def)

lemma i64_near: "\<bar>x\<bar> \<le> 10 ^ 18 \<Longrightarrow> i64_check x = Some x"
  by (auto simp: i64_check_def i64_min_def i64_max_def abs_le_iff)

definition civil :: "int \<Rightarrow> nat \<Rightarrow> nat \<Rightarrow> nat \<Rightarrow> nat \<Rightarrow> int \<times> int \<times> int" where
  "civil era c q a r =
     (let mp = (5 * r + 2) div 153; y = 400 * era + int (100 * c + 4 * q + a); month = (if mp < 10 then mp + 3 else mp - 9)
      in (if month \<le> 2 then y + 1 else y, int month, int (r - month_begin mp + 1)))"

definition days_of :: "int \<Rightarrow> nat \<Rightarrow> nat \<Rightarrow> nat \<Rightarrow> nat \<Rightarrow> int" where
  "days_of era c q a r = 146097 * era + int (era_day c q a r) - 584694"

definition year_bound :: int where "year_bound = 10 ^ 12"

text \<open>The checked steps both conversions from a day number take.\<close>

lemma civil_steps:
  assumes b: "era_block c q a r" and e: "\<bar>era\<bar> \<le> year_bound"
  shows "i64_add (days_of era c q a r) 584694 = Some (146097 * era + int (era_day c q a r))"
    and "i64_mul era 146097 = Some (era * 146097)"
    and "i64_sub (146097 * era + int (era_day c q a r)) (era * 146097) = Some (int (era_day c q a r))"
    and "i64_mul era 400 = Some (era * 400)"
    and "i64_add (int (100 * c + 4 * q + a)) (era * 400) = Some (400 * era + int (100 * c + 4 * q + a))"
    and "i64_add (400 * era + int (100 * c + 4 * q + a)) 1 = Some (400 * era + int (100 * c + 4 * q + a) + 1)"
    and "era_of (146097 * era + int (era_day c q a r)) = Some era"
proof -
  let ?doe = "era_day c q a r" and ?z = "146097 * era + int (era_day c q a r)" and ?yoe = "100 * c + 4 * q + a"
  have doe: "?doe < 146097" by (rule era_day_less [OF b])
  have yoe: "?yoe < 400" using b by (auto simp: era_block_def)
  show "i64_add (days_of era c q a r) 584694 = Some ?z" "i64_mul era 146097 = Some (era * 146097)"
    "i64_sub ?z (era * 146097) = Some (int ?doe)" "i64_mul era 400 = Some (era * 400)"
    "i64_add (int ?yoe) (era * 400) = Some (400 * era + int ?yoe)" "i64_add (400 * era + int ?yoe) 1 = Some (400 * era + int ?yoe + 1)"
    using e doe yoe unfolding i64_add_def i64_sub_def i64_mul_def days_of_def year_bound_def
    by (subst i64_near; simp add: algebra_simps)+
  have "i64_sub ?z 146096 = Some (?z - 146096)"
    using e doe unfolding i64_sub_def year_bound_def by (subst i64_near) (simp_all add: algebra_simps)
  then show "era_of ?z = Some era"
    using floor_era [of "int ?doe" 146097 era] doe by (auto simp: era_of_def split: if_splits)
qed

lemma days_to_ymd_block:
  assumes b: "era_block c q a r" and e: "\<bar>era\<bar> \<le> year_bound"
  shows "days_to_ymd_1601 (days_of era c q a r) = Some (civil era c q a r)"
proof -
  have r: "r \<le> 365" using b by (auto simp: era_block_def)
  have u: "u32_or 0 (int (era_day c q a r)) = era_day c q a r"
    using era_day_less [OF b] by (intro u32_or_nat) (simp add: u32_max_def)
  show ?thesis
    unfolding days_to_ymd_1601_def
    by (simp only: civil_steps [OF b e] u Option.bind.bind_lunit Let_def year_of_era_block [OF b] day_of_year_block [OF b] month_day_block [OF r]
        prod.case civil_def if_distrib [where f = Some, symmetric])
qed

lemma month_begin_step: "mp \<le> 11 \<Longrightarrow> month_begin mp < month_begin (Suc mp)"
  by (auto simp: month_begin_def)

lemma ymd_to_days_block:
  assumes b: "era_block c q a r" and e: "\<bar>era\<bar> \<le> year_bound"
  shows "(case civil era c q a r of (y, m, d) \<Rightarrow> ymd_to_days_1601 y m d) = Some (days_of era c q a r)"
proof -
  define mp where "mp = (5 * r + 2) div 153"
  define y where "y = 400 * era + int (100 * c + 4 * q + a)"
  let ?yoe = "100 * c + 4 * q + a" and ?day = "r - month_begin mp + 1"
  have r: "r \<le> 365" and yoe: "?yoe < 400" using b by (auto simp: era_block_def)
  note m = month_of_day [OF r, folded mp_def]
  have adj: "(case civil era c q a r of (yr, mo, d) \<Rightarrow> (if mo \<le> 2 then do { y \<leftarrow> i64_sub yr 1; m \<leftarrow> i64_add mo 9; Some (y, m) }
      else do { m \<leftarrow> i64_sub mo 3; Some (yr, m) })) = Some (y, int mp)"
    using m(1) e yoe unfolding civil_def mp_def [symmetric] y_def [symmetric] Let_def
    by (auto simp: i64_sub_def i64_add_def i64_near y_def year_bound_def abs_le_iff)
  have era: "(if 0 \<le> y then Some (idiv y 400) else do { a \<leftarrow> i64_sub y 399; Some (idiv a 400) }) = Some era"
    using floor_era [of "int ?yoe" 400 era] yoe e
    by (auto simp: y_def i64_sub_def i64_near year_bound_def abs_le_iff split: if_splits)
  have near: "i64_mul era 400 = Some (era * 400)" "i64_sub y (era * 400) = Some (int ?yoe)" "i64_mul era 146097 = Some (era * 146097)"
    using e yoe by (auto simp: i64_mul_def i64_sub_def i64_near y_def year_bound_def abs_le_iff algebra_simps)
  have far: "i64_add (int (era_day c q a r)) (era * 146097) = Some (146097 * era + int (era_day c q a r))"
    "i64_sub (146097 * era + int (era_day c q a r)) 584694 = Some (days_of era c q a r)"
    using e era_day_less [OF b] by (auto simp: i64_add_def i64_sub_def i64_near days_of_def year_bound_def abs_le_iff algebra_simps)
  have u: "u32_or 0 (int ?yoe) = ?yoe" "u32_or 0 (int mp) = mp" "u32_or 1 (int ?day) = ?day"
    by (rule u32_or_nat; use yoe m(1) r in \<open>simp add: u32_max_def\<close>)+
  have parts: "?yoe div 4 = 25 * c + q" "?yoe div 100 = c" using b yoe_parts by (simp_all add: era_block_def)
  have nat: "u32_mul 153 mp = Some (153 * mp)" "u32_add (153 * mp) 2 = Some (153 * mp + 2)"
    "u32_add (month_begin mp) ?day = Some (r + 1)" "u32_sub (r + 1) 1 = Some r" "u32_mul ?yoe 365 = Some (?yoe * 365)"
    "u32_add (?yoe * 365) (?yoe div 4) = Some (?yoe * 365 + (25 * c + q))"
    "u32_sub (?yoe * 365 + (25 * c + q)) (?yoe div 100) = Some (36524 * c + 1461 * q + 365 * a)"
    "u32_add (36524 * c + 1461 * q + 365 * a) r = Some (era_day c q a r)"
    using m(1,2) r yoe era_day_less [OF b] unfolding parts
    by (simp_all add: u32_mul_def u32_add_def u32_sub_def u32_check_def u32_max_def era_day_def)
  obtain yr mo where civ: "civil era c q a r = (yr, mo, int ?day)" by (simp add: civil_def mp_def Let_def)
  have "ymd_to_days_1601 yr mo (int ?day) = Some (days_of era c q a r)"
    using adj unfolding ymd_to_days_1601_def civ prod.case
    by (simp only: Option.bind.bind_lunit prod.case era near far u Let_def nat month_begin_def [symmetric])
  then show ?thesis by (simp add: civ)
qed

lemma idiv_dvd: "0 < b \<Longrightarrow> irem a b = 0 \<longleftrightarrow> b dvd a"
proof (cases "0 \<le> a")
  case True
  then have "irem a b = a mod b" by (simp add: irem_def idiv_def minus_mult_div_eq_mod)
  then show ?thesis by (simp add: dvd_eq_mod_eq_0)
next
  case False
  then have "irem a b = - ((- a) mod b)" using minus_mult_div_eq_mod [of "- a" b] by (simp add: irem_def idiv_def)
  then show ?thesis by (metis dvd_eq_mod_eq_0 dvd_minus_iff neg_equal_0_iff_equal)
qed

lemma dvd_block: "0 < k \<Longrightarrow> k \<le> n \<Longrightarrow> n dvd n * e + k \<longleftrightarrow> k = (n :: int)"
  using zdvd_imp_le [of n k] by (auto simp: dvd_add_right_iff)

lemma leap_block:
  assumes "c \<le> 3" and "q \<le> 24" and "a \<le> 3"
  shows "is_leap (400 * era + int (100 * c + 4 * q + a) + 1) \<longleftrightarrow> a = 3 \<and> (q < 24 \<or> c = 3)"
proof -
  let ?y = "400 * era + int (100 * c + 4 * q + a) + 1"
  have "4 dvd ?y \<longleftrightarrow> int a + 1 = 4"
    using dvd_block [of "int a + 1" 4 "100 * era + 25 * int c + int q"] assms(3) by (simp add: algebra_simps)
  moreover have "100 dvd ?y \<longleftrightarrow> 4 * int q + int a + 1 = 100"
    using dvd_block [of "4 * int q + int a + 1" 100 "4 * era + int c"] assms by (simp add: algebra_simps)
  moreover have "400 dvd ?y \<longleftrightarrow> 100 * int c + 4 * int q + int a + 1 = 400"
    using dvd_block [of "100 * int c + 4 * int q + int a + 1" 400 era] assms by (simp add: algebra_simps)
  moreover have "(a = 3 \<and> \<not> (q = 24 \<and> a = 3)) \<or> (c = 3 \<and> q = 24 \<and> a = 3) \<longleftrightarrow> a = 3 \<and> (q < 24 \<or> c = 3)" using assms(2) by auto
  moreover have "int a + 1 = 4 \<longleftrightarrow> a = 3" "4 * int q + int a + 1 = 100 \<longleftrightarrow> q = 24 \<and> a = 3"
    "100 * int c + 4 * int q + int a + 1 = 400 \<longleftrightarrow> c = 3 \<and> q = 24 \<and> a = 3" using assms by arith+
  ultimately show ?thesis unfolding is_leap_def by (simp only: idiv_dvd zero_less_numeral)
qed

definition valid_date :: "int \<Rightarrow> int \<Rightarrow> int \<Rightarrow> bool" where
  "valid_date year month day \<longleftrightarrow> 1 \<le> month \<and> month \<le> 12 \<and> 1 \<le> day \<and> day \<le> days_in_month year month"

lemma month_begins: "month_begin 0 = 0" "month_begin 1 = 31" "month_begin 2 = 61" "month_begin 3 = 92" "month_begin 4 = 122"
  "month_begin 5 = 153" "month_begin 6 = 184" "month_begin 7 = 214" "month_begin 8 = 245" "month_begin 9 = 275"
  "month_begin 10 = 306" "month_begin 11 = 337" "month_begin 12 = 367"
  by (simp_all add: month_begin_def)

lemma month_cases:
  assumes "mp \<le> 11"
  shows "mp = 0 \<or> mp = 1 \<or> mp = 2 \<or> mp = 3 \<or> mp = 4 \<or> mp = 5 \<or> mp = 6 \<or> mp = 7 \<or> mp = 8 \<or> mp = 9 \<or> mp = 10 \<or> mp = (11 :: nat)"
  using assms by arith

text \<open>The month lengths: all but February from the table, February by the leap rule.\<close>

lemma month_length:
  assumes "mp \<le> 11"
  shows "days_in_month year (if mp < 10 then int mp + 3 else int mp - 9) =
    (if mp = 11 then (if is_leap year then 29 else 28) else int (month_begin (mp + 1)) - int (month_begin mp))"
  using month_cases [OF assms] by (elim disjE) (simp_all add: days_in_month_def month_begin_def)

lemma month_of_begin: "month_begin mp \<le> r \<Longrightarrow> r < month_begin (Suc mp) \<Longrightarrow> (5 * r + 2) div 153 = mp"
  by (intro div_nat_eqI) (auto simp: month_begin_def)

lemma civil_valid:
  assumes b: "era_block c q a r" and civ: "civil era c q a r = (y, m, d)"
  shows "valid_date y m d"
proof -
  define mp where "mp = (5 * r + 2) div 153"
  have r: "r \<le> 365" "r = 365 \<Longrightarrow> a = 3 \<and> (q < 24 \<or> c = 3)" "c \<le> 3" "q \<le> 24" "a \<le> 3" using b by (auto simp: era_block_def)
  note mo = month_of_day [OF r(1), folded mp_def]
  have m: "m = (if mp < 10 then int mp + 3 else int mp - 9)" "d = int (r - month_begin mp + 1)"
    and y: "mp = 11 \<Longrightarrow> y = 400 * era + int (100 * c + 4 * q + a) + 1"
    using civ [unfolded civil_def Let_def mp_def [symmetric]] mo(1) by (auto split: if_splits)
  have "d \<le> days_in_month y m"
  proof (cases "mp = 11")
    case True
    then show ?thesis using month_length [OF mo(1), of y] m mo(2) r leap_block [OF r(3-5), of era] y
      by (auto simp: month_begins)
  next
    case False
    then show ?thesis using month_length [OF mo(1), of y] m mo(2,3) by simp
  qed
  then show ?thesis using m mo(1) by (auto simp: valid_date_def)
qed

lemma yoe_split: "yoe < 400 \<Longrightarrow> yoe = 100 * (yoe div 100) + 4 * (yoe mod 100 div 4) + yoe mod (4 :: nat)"
proof -
  have "yoe mod 4 = yoe mod 100 mod 4" by (simp add: mod_mod_cancel)
  then show ?thesis by (metis add.assoc mult_div_mod_eq)
qed

lemma civil_complete:
  assumes "valid_date y m d"
  obtains era c q a r where "era_block c q a r" and "civil era c q a r = (y, m, d)" and "\<bar>era\<bar> \<le> \<bar>y\<bar> + 1"
proof -
  define ay where "ay = (if m \<le> 2 then y - 1 else y)"
  define mp where "mp = nat (if m \<le> 2 then m + 9 else m - 3)"
  define yoe where "yoe = nat (ay mod 400)"
  define c q a where cqa: "c = yoe div 100" "q = yoe mod 100 div 4" "a = yoe mod 4"
  define r where "r = month_begin mp + nat d - 1"
  have v: "1 \<le> m" "m \<le> 12" "1 \<le> d" "d \<le> days_in_month y m" using assms by (auto simp: valid_date_def)
  have mp: "mp \<le> 11" "m = (if mp < 10 then int mp + 3 else int mp - 9)" "mp = 11 \<longleftrightarrow> m = 2" using v by (auto simp: mp_def)
  have "yoe < 400" by (simp add: yoe_def)
  then have yoe: "c \<le> 3" "q \<le> 24" "a \<le> 3" "yoe = 100 * c + 4 * q + a" unfolding cqa by (simp_all add: less_mult_imp_div_less yoe_split)
  have ay: "ay = 400 * (ay div 400) + int (100 * c + 4 * q + a)" unfolding yoe(4) [symmetric] by (simp add: yoe_def)
  have y: "mp = 11 \<Longrightarrow> y = 400 * (ay div 400) + int (100 * c + 4 * q + a) + 1" using ay mp(3) by (simp add: ay_def)
  have len: "d \<le> (if mp = 11 then (if is_leap y then 29 else 28) else int (month_begin (mp + 1)) - int (month_begin mp))"
    using v(4) month_length [OF mp(1), of y] mp(2) by simp
  have r: "month_begin mp \<le> r" "r < month_begin (Suc mp)" "int r = int (month_begin mp) + d - 1"
    using len v(3) month_begin_step [OF mp(1)] by (auto simp: r_def month_begins split: if_splits)
  have "r \<le> 364 \<or> (r = 365 \<and> mp = 11 \<and> is_leap y)"
  proof (cases "mp = 11")
    case True
    then show ?thesis using r(3) len by (auto simp: month_begins split: if_splits)
  next
    case False
    then have "month_begin (Suc mp) \<le> 337" using mp(1) by (auto simp: month_begin_def)
    then show ?thesis using r(2) by simp
  qed
  then have block: "era_block c q a r" using yoe leap_block [OF yoe(1-3), of "ay div 400"] y by (auto simp: era_block_def)
  note mo = month_of_begin [OF r(1,2)]
  have parts: "int (if mp < 10 then mp + 3 else mp - 9) = m" "(if mp < 10 then mp + 3 else mp - 9) \<le> 2 \<longleftrightarrow> m \<le> 2"
    "int (r - month_begin mp + 1) = d" using mp(1,2) r(1,3) by (auto simp: of_nat_diff)
  have "civil (ay div 400) c q a r = (y, m, d)"
    unfolding civil_def Let_def mo parts ay [symmetric] by (simp add: ay_def)
  moreover have "\<bar>ay div 400\<bar> \<le> \<bar>y\<bar> + 1" unfolding ay_def by (cases "m \<le> 2"; cases "0 \<le> y"; simp; linarith)
  ultimately show ?thesis using that block by blast
qed

section \<open>Properties\<close>

lemma days_block:
  assumes "\<bar>days\<bar> \<le> 10 ^ 12"
  obtains era c q a r where "era_block c q a r" and "days = days_of era c q a r" and "\<bar>era\<bar> \<le> year_bound"
proof -
  let ?z = "days + 584694"
  have "nat (?z mod 146097) < 146097" by (simp add: nat_less_iff)
  then obtain c q a r where b: "era_block c q a r" "nat (?z mod 146097) = era_day c q a r" using era_day_exists by blast
  have "int (era_day c q a r) = ?z mod 146097" using b(2) by (metis int_nat_eq pos_mod_sign zero_less_numeral)
  then have "days = days_of (?z div 146097) c q a r" by (simp add: days_of_def)
  moreover have "\<bar>?z div 146097\<bar> \<le> year_bound" using assms unfolding year_bound_def by (simp add: abs_le_iff) linarith
  ultimately show ?thesis using that b(1) by blast
qed

text \<open>
  C28. The two date conversions are inverse to each other: every day number within a million million days
  has a valid date that converts back to it, and it is the only valid date that does.
\<close>

theorem calendar_inverse:
  assumes "\<bar>days\<bar> \<le> 10 ^ 12"
  shows "\<exists>y m d. days_to_ymd_1601 days = Some (y, m, d) \<and> valid_date y m d \<and> ymd_to_days_1601 y m d = Some days
     \<and> (\<forall>y' m' d'. \<bar>y'\<bar> \<le> 10 ^ 11 \<longrightarrow> valid_date y' m' d' \<longrightarrow> ymd_to_days_1601 y' m' d' = Some days \<longrightarrow> (y', m', d') = (y, m, d))"
proof -
  obtain era c q a r where b: "era_block c q a r" "days = days_of era c q a r" "\<bar>era\<bar> \<le> year_bound"
    using days_block [OF assms] by metis
  obtain y m d where civ: "civil era c q a r = (y, m, d)" by (cases "civil era c q a r") auto
  note to = days_to_ymd_block [OF b(1,3), folded b(2), unfolded civ]
  have uniq: "(y', m', d') = (y, m, d)"
    if v: "\<bar>y'\<bar> \<le> 10 ^ 11" "valid_date y' m' d'" "ymd_to_days_1601 y' m' d' = Some days" for y' m' d'
  proof -
    obtain era' c' q' a' r' where b': "era_block c' q' a' r'" "civil era' c' q' a' r' = (y', m', d')" "\<bar>era'\<bar> \<le> \<bar>y'\<bar> + 1"
      using civil_complete [OF v(2)] by metis
    then have e': "\<bar>era'\<bar> \<le> year_bound" using v(1) by (simp add: year_bound_def)
    have "days = days_of era' c' q' a' r'" using ymd_to_days_block [OF b'(1) e'] v(3) b'(2) by simp
    then show ?thesis using days_to_ymd_block [OF b'(1) e'] b'(2) to by simp
  qed
  show ?thesis using to civil_valid [OF b(1) civ] ymd_to_days_block [OF b(1,3)] civ b(2) uniq by auto
qed

theorem calendar_inverse_witness:
  "\<exists>y m d. days_to_ymd_1601 154556 = Some (y, m, d) \<and> valid_date y m d \<and> ymd_to_days_1601 y m d = Some 154556"
proof -
  have "\<bar>154556 :: int\<bar> \<le> 10 ^ 12" by simp
  from calendar_inverse [OF this] show ?thesis by blast
qed

definition time_parts :: "calendar_parts \<Rightarrow> int \<Rightarrow> int" where
  "time_parts p days = 86400 * days + 3600 * int (cp_hour p) + 60 * int (cp_minute p) + int (cp_second p)"

lemma as_u32_id: "0 \<le> x \<Longrightarrow> x < 2 ^ 32 \<Longrightarrow> int (as_u32 x) = x"
  by (simp add: as_u32_def)

lemma as_i32_id: "\<bar>x\<bar> < 2 ^ 31 \<Longrightarrow> as_i32 x = x"
  by (simp add: as_i32_def)

lemma irem_nonneg: "0 \<le> a \<Longrightarrow> irem a b = a mod b" "0 \<le> a \<Longrightarrow> idiv a b = a div b"
  by (simp_all add: irem_def idiv_def minus_mult_div_eq_mod)

lemma civil_parts: "fst (civil era c q a r) = (case civil era c q a r of (y, m, d) \<Rightarrow> y)" "0 \<le> fst (snd (civil era c q a r))"
  by (auto simp: civil_def Let_def)

lemma filetime_to_calendar_block:
  assumes b: "era_block c q a r" and e: "\<bar>era\<bar> \<le> 10 ^ 6" and ft: "filetime \<noteq> 0"
    and days: "idiv filetime FILETIME_TICKS_PER_SECOND div 86400 = days_of era c q a r" and civ: "civil era c q a r = (y, m, d)"
  defines "s \<equiv> idiv filetime FILETIME_TICKS_PER_SECOND mod 86400"
  shows "filetime_to_calendar filetime = Some (Some \<lparr>cp_year = y, cp_month = nat m, cp_day = nat d,
    cp_hour = nat (s div 3600), cp_minute = nat (s mod 3600 div 60), cp_second = nat (s mod 60)\<rparr>)"
proof -
  have e': "\<bar>era\<bar> \<le> year_bound" using e by (simp add: year_bound_def)
  have r: "r \<le> 365" and yoe: "100 * c + 4 * q + a < 400" using b by (auto simp: era_block_def)
  have doe: "as_u32 (int (era_day c q a r)) = era_day c q a r" using era_day_less [OF b] by (simp add: as_u32_def)
  have s: "0 \<le> s" "s < 86400" by (simp_all add: s_def)
  have hms: "as_u32 (idiv s 3600) = nat (s div 3600)" "as_u32 (idiv (irem s 3600) 60) = nat (s mod 3600 div 60)" "as_u32 (irem s 60) = nat (s mod 60)"
  proof -
    have "s div 3600 < 24" "s mod 3600 < 3600" "s mod 60 < 60" using s by auto
    then show "as_u32 (idiv s 3600) = nat (s div 3600)" "as_u32 (idiv (irem s 3600) 60) = nat (s mod 3600 div 60)" "as_u32 (irem s 60) = nat (s mod 60)"
      using s by (simp_all add: irem_nonneg as_u32_def)
  qed
  define mp where "mp = (5 * r + 2) div 153"
  let ?month = "if mp < 10 then mp + 3 else mp - 9" and ?y = "400 * era + int (100 * c + 4 * q + a)"
  have y: "(if ?month \<le> 2 then Some (?y + 1) else Some ?y) = Some y" and md: "nat m = ?month" "nat d = r - month_begin mp + 1"
    using civ [unfolded civil_def Let_def mp_def [symmetric]] by (auto simp: nat_add_distrib)
  have "as_i32 y = y" using civ e yoe by (intro as_i32_id) (auto simp: civil_def Let_def abs_less_iff split: if_splits)
  then show ?thesis
    unfolding filetime_to_calendar_def Let_def s_def [symmetric] days
    by (simp only: ft if_False civil_steps [OF b e'] doe Option.bind.bind_lunit year_of_era_block [OF b] day_of_year_block [OF b]
        month_day_block [OF r, folded mp_def] prod.case y md hms)
qed

lemma day_split: "t = 86400 * (t div 86400) + 3600 * (t mod 86400 div 3600) + 60 * (t mod 86400 mod 3600 div 60) + t mod 86400 mod (60 :: int)"
proof -
  have "t mod 86400 mod 60 = t mod 86400 mod 3600 mod 60" by (simp add: mod_mod_cancel)
  then show ?thesis
    using mult_div_mod_eq [of 86400 t] mult_div_mod_eq [of 3600 "t mod 86400"] mult_div_mod_eq [of 60 "t mod 86400 mod 3600"] by linarith
qed

lemma filetime_block:
  assumes "i64_min \<le> filetime" and "filetime \<le> i64_max"
  obtains era c q a r where "era_block c q a r" "idiv filetime FILETIME_TICKS_PER_SECOND div 86400 = days_of era c q a r"
    "\<bar>era\<bar> \<le> year_bound" "\<bar>era\<bar> \<le> 10 ^ 6"
proof -
  define t where "t = idiv filetime FILETIME_TICKS_PER_SECOND"
  have "\<bar>t\<bar> \<le> 10 ^ 12" using assms unfolding t_def idiv_def FILETIME_TICKS_PER_SECOND_def i64_min_def i64_max_def
    by (cases "0 \<le> filetime"; simp add: abs_le_iff; linarith)
  then have "\<bar>t div 86400\<bar> \<le> 10 ^ 8" by (simp add: abs_le_iff) linarith
  then have "\<bar>t div 86400\<bar> \<le> 10 ^ 12" by simp
  from days_block [OF this] obtain era c q a r where b: "era_block c q a r" "t div 86400 = days_of era c q a r" "\<bar>era\<bar> \<le> year_bound" by metis
  moreover have "\<bar>era\<bar> \<le> 10 ^ 6" using b(2) \<open>\<bar>t div 86400\<bar> \<le> 10 ^ 8\<close> era_day_less [OF b(1)] by (simp add: days_of_def abs_le_iff)
  ultimately show ?thesis using that by (simp add: t_def)
qed

lemma month_from_filetime_total:
  assumes "i64_min \<le> filetime" and "filetime \<le> i64_max"
  shows "\<exists>m. month_from_filetime filetime = Some m"
proof (cases "filetime = 0")
  case False
  obtain era c q a r where b: "era_block c q a r" "idiv filetime FILETIME_TICKS_PER_SECOND div 86400 = days_of era c q a r"
    "\<bar>era\<bar> \<le> 10 ^ 6" using filetime_block [OF assms] .
  obtain y m d where "civil era c q a r = (y, m, d)" by (cases "civil era c q a r") auto
  from filetime_to_calendar_block [OF b(1,3) False b(2) this] show ?thesis by (simp add: month_from_filetime_def)
qed (simp add: month_from_filetime_def filetime_to_calendar_def)

text \<open>The year of a file time lies within thirty-one thousand years of the epoch, far inside 32 bits.\<close>

lemma civil_year_near:
  assumes "era_block c q a r" and "civil era c q a r = (y, m, d)" and "\<bar>days_of era c q a r\<bar> \<le> 10675200"
  shows "- 30000 \<le> y" and "y \<le> 31000"
  using assms unfolding era_block_def civil_def days_of_def era_day_def by (auto simp: Let_def abs_le_iff split: if_splits)

lemma filetime_days_near:
  assumes "i64_min \<le> filetime" and "filetime \<le> i64_max"
  shows "\<bar>idiv filetime FILETIME_TICKS_PER_SECOND div 86400\<bar> \<le> 10675200"
proof -
  have "\<bar>idiv filetime FILETIME_TICKS_PER_SECOND\<bar> \<le> 922337203685"
    using assms unfolding idiv_def FILETIME_TICKS_PER_SECOND_def i64_min_def i64_max_def
    by (cases "0 \<le> filetime"; simp add: abs_le_iff; linarith)
  then show ?thesis by (simp add: abs_le_iff) linarith
qed

text \<open>
  C29. A file time, whatever its bits, decomposes without a panic into a valid date and a time of day that
  together are the whole seconds of the file time; only the zero file time has none. The year lies between
  -30000 and 31000 for every 64-bit value, the smallest included, so the cast to 32 bits loses nothing; the
  comment of \<open>CalendarParts\<close> says the smallest value overflows it.
\<close>

theorem filetime_to_calendar_exact:
  assumes "i64_min \<le> filetime" and "filetime \<le> i64_max" and "filetime \<noteq> 0"
  shows "\<exists>p days. filetime_to_calendar filetime = Some (Some p) \<and> valid_date (cp_year p) (int (cp_month p)) (int (cp_day p))
     \<and> ymd_to_days_1601 (cp_year p) (int (cp_month p)) (int (cp_day p)) = Some days
     \<and> - 30000 \<le> cp_year p \<and> cp_year p \<le> 31000 \<and> cp_hour p < 24 \<and> cp_minute p < 60 \<and> cp_second p < 60
     \<and> idiv filetime FILETIME_TICKS_PER_SECOND = time_parts p days"
proof -
  define t where "t = idiv filetime FILETIME_TICKS_PER_SECOND"
  obtain era c q a r where b: "era_block c q a r" "t div 86400 = days_of era c q a r" "\<bar>era\<bar> \<le> year_bound" and e: "\<bar>era\<bar> \<le> 10 ^ 6"
    using filetime_block [OF assms(1,2)] unfolding t_def .
  obtain y m d where civ: "civil era c q a r = (y, m, d)" by (cases "civil era c q a r") auto
  note cal = filetime_to_calendar_block [OF b(1) e assms(3) b(2) [unfolded t_def] civ, folded t_def]
  have near: "- 30000 \<le> y" "y \<le> 31000"
    using civil_year_near [OF b(1) civ] filetime_days_near [OF assms(1,2)] b(2) by (simp_all add: t_def)
  have v: "valid_date y m d" by (rule civil_valid [OF b(1) civ])
  then have md: "int (nat m) = m" "int (nat d) = d" by (simp_all add: valid_date_def)
  have days: "ymd_to_days_1601 y m d = Some (t div 86400)" using ymd_to_days_block [OF b(1,3)] civ b(2) by simp
  define H M S where hms_def: "H = t mod 86400 div 3600" "M = t mod 86400 mod 3600 div 60" "S = t mod 86400 mod 60"
  have "0 \<le> H" "0 \<le> M" "0 \<le> S" "H < 24" "M < 60" "S < 60"
    unfolding hms_def by (simp_all add: pos_imp_zdiv_nonneg_iff div_less_iff_less_mult)
  note hms = this and split = day_split [of t, folded hms_def]
  define p where "p = \<lparr>cp_year = y, cp_month = nat m, cp_day = nat d, cp_hour = nat H, cp_minute = nat M, cp_second = nat S\<rparr>"
  have small: "- 30000 \<le> cp_year p" "cp_year p \<le> 31000" "cp_hour p < 24" "cp_minute p < 60" "cp_second p < 60"
    using near hms by (simp_all add: p_def nat_less_iff)
  have "t = time_parts p (t div 86400)" using hms split by (simp add: time_parts_def p_def)
  moreover have "filetime_to_calendar filetime = Some (Some p)" using cal by (simp only: p_def hms_def)
  moreover have "valid_date (cp_year p) (int (cp_month p)) (int (cp_day p))" "ymd_to_days_1601 (cp_year p) (int (cp_month p)) (int (cp_day p)) = Some (t div 86400)"
    using v days md by (simp_all only: p_def calendar_parts.simps)
  ultimately show ?thesis using small unfolding t_def [symmetric] by blast
qed

theorem filetime_to_calendar_exact_witness:
  "(\<exists>p. filetime_to_calendar 133485408000000000 = Some (Some p) \<and> cp_hour p < 24)
   \<and> (\<exists>p. filetime_to_calendar i64_min = Some (Some p) \<and> - 30000 \<le> cp_year p)"
  using filetime_to_calendar_exact [of 133485408000000000] filetime_to_calendar_exact [of i64_min] by (auto simp: i64_min_def i64_max_def)

lemma idiv_between:
  assumes "0 < b"
  shows "0 \<le> a \<Longrightarrow> 0 \<le> b * idiv a b \<and> b * idiv a b \<le> a" and "a < 0 \<Longrightarrow> a \<le> b * idiv a b \<and> b * idiv a b \<le> 0"
proof -
  show "0 \<le> b * idiv a b \<and> b * idiv a b \<le> a" if "0 \<le> a"
  proof -
    have "0 \<le> a div b" using that assms by (simp add: pos_imp_zdiv_nonneg_iff)
    moreover have "b * (a div b) \<le> a" using mult_div_mod_eq [of b a] pos_mod_sign [OF assms, of a] by linarith
    ultimately show ?thesis using that assms by (simp add: idiv_def)
  qed
  show "a \<le> b * idiv a b \<and> b * idiv a b \<le> 0" if "a < 0"
  proof -
    have "0 \<le> (- a) div b" using that assms by (simp add: pos_imp_zdiv_nonneg_iff)
    moreover have "b * ((- a) div b) \<le> - a" using mult_div_mod_eq [of b "- a"] pos_mod_sign [OF assms, of "- a"] by linarith
    ultimately show ?thesis using that assms by (simp add: idiv_def)
  qed
qed

lemma today_start_ok:
  assumes "i64_min \<le> now_ft" and "now_ft \<le> i64_max"
  shows "\<exists>t. today_start now_ft = Some t"
proof -
  have T: "0 < TICKS_PER_DAY" by (simp add: TICKS_PER_DAY_def FILETIME_TICKS_PER_SECOND_def)
  have "now_ft - irem now_ft TICKS_PER_DAY = TICKS_PER_DAY * idiv now_ft TICKS_PER_DAY" by (simp add: irem_def)
  then show ?thesis using assms idiv_between [OF T, of now_ft]
    by (cases "0 \<le> now_ft") (auto simp: today_start_def i64_sub_def i64_check_def i64_min_def i64_max_def)
qed

lemma unnamed_range:
  assumes "i64_min \<le> now_ft" and "now_ft \<le> i64_max" and "map ascii_lower name = lower" and "hd lower \<in> {0x30 .. 0x39}"
  shows "parse_named_time_range name now_ft is_newer = Some None"
proof -
  obtain t where "today_start now_ft = Some t" using today_start_ok [OF assms(1,2)] by blast
  moreover have "\<not> named lower ns" if "list_all (\<lambda>n. n \<noteq> [] \<and> of_char (hd n) \<notin> {0x30 .. 0x39 :: nat}) ns" for ns
    using that assms(4) by (auto simp: named_def chars_of_def list_all_iff hd_map)
  ultimately show ?thesis using assms(3) by (simp add: parse_named_time_range_def Let_def)
qed

text \<open>
  Three kinds of time bounds a user can write make the parser panic, at whatever time of the clock:
  a date with day zero in March, a number followed by a letter that takes more than one byte, and a
  duration too long for a file time.
\<close>

theorem parse_time_bound_panics:
  assumes "i64_min \<le> now_ft" and "now_ft \<le> i64_max"
  shows "parse_time_bound (chars_of ''2024-03-00'') now_ft is_newer = None
     \<and> parse_time_bound [0x31, 0xE9] now_ft is_newer = None
     \<and> parse_time_bound (chars_of ''99999999999999d'') now_ft is_newer = None"
proof -
  have spec: "chars_of ''2024-03-00'' = [0x32, 0x30, 0x32, 0x34, 0x2D, 0x30, 0x33, 0x2D, 0x30, 0x30]"
    "chars_of ''99999999999999d'' = replicate 14 0x39 @ [0x64]" by code_simp+
  have named: "parse_named_time_range (chars_of ''2024-03-00'') now_ft is_newer = Some None"
    "parse_named_time_range [0x31, 0xE9] now_ft is_newer = Some None"
    "parse_named_time_range (chars_of ''99999999999999d'') now_ft is_newer = Some None"
    by (rule unnamed_range [OF assms refl], simp add: spec ascii_lower_def)+
  have trim: "trim_where is_whitespace (chars_of ''2024-03-00'') = chars_of ''2024-03-00''"
    "trim_where is_whitespace [0x31, 0xE9] = [0x31, 0xE9]" "trim_where is_whitespace (chars_of ''99999999999999d'') = chars_of ''99999999999999d''"
    unfolding spec by (simp_all add: trim_where_def is_whitespace_def)
  have "parse_iso_date (chars_of ''2024-03-00'') = None"
  proof -
    have "ymd_to_days_1601 2024 3 0 = None"
      by (simp add: ymd_to_days_1601_def i64_sub_def i64_mul_def i64_check_def i64_min_def i64_max_def idiv_def u32_or_def
          u32_mul_def u32_add_def u32_sub_def u32_check_def u32_max_def Let_def)
    then show ?thesis
      by (simp add: parse_iso_date_def spec utf8_bytes_def encode_utf8_def vec_get_def parse_i64_def all_digits_def digits_value_def
          i64_check_def i64_min_def i64_max_def Let_def)
  qed
  then have "parse_time_bound (chars_of ''2024-03-00'') now_ft is_newer = None"
    unfolding parse_time_bound_def Let_def trim named
    by (simp add: spec utf8_bytes_def encode_utf8_def split_last_def parse_i64_def all_digits_def)
  moreover have "parse_time_bound [0x31, 0xE9] now_ft is_newer = None"
    unfolding parse_time_bound_def Let_def trim named by (simp add: utf8_bytes_def encode_utf8_def split_last_def)
  moreover have "parse_time_bound (chars_of ''99999999999999d'') now_ft is_newer = None"
  proof -
    have "replicate 14 (0x39 :: nat) = [0x39, 0x39, 0x39, 0x39, 0x39, 0x39, 0x39, 0x39, 0x39, 0x39, 0x39, 0x39, 0x39, 0x39]" by code_simp
    moreover have "chars_of ''s'' = [0x73]" "chars_of ''m'' = [0x6D]" "chars_of ''h'' = [0x68]" "chars_of ''d'' = [0x64]" by code_simp+
    ultimately show ?thesis unfolding parse_time_bound_def Let_def trim named
      by (simp add: spec utf8_bytes_def encode_utf8_def split_last_def parse_i64_def all_digits_def digits_value_def
          i64_check_def i64_min_def i64_max_def i64_mul_def duration_delta_def TICKS_PER_DAY_def FILETIME_TICKS_PER_SECOND_def)
  qed
  ultimately show ?thesis by simp
qed

theorem parse_time_bound_panics_witness: "parse_time_bound (chars_of ''2024-03-00'') 133485408000000000 True = None"
  using parse_time_bound_panics [of 133485408000000000 True] by (simp add: i64_min_def i64_max_def)

end
