(* ===== verification/Semantic_Type.thy ===== *)
theory Semantic_Type
  imports Compact_Record
begin

text \<open>
  The type of a file, from its extension: the collections of \<open>crates/uffs-core/src/extensions/mod.rs\<close> and the
  categories of \<open>crates/uffs-core/src/search/derived.rs\<close>, with the two classifications, by name and by number, and
  the list of extensions a type stands for. Extensions are ASCII and kept as \<open>string\<close>.
\<close>

section \<open>Collections\<close>

definition PICTURES :: "string list" where
  "PICTURES = [''jpg'', ''jpeg'', ''png'', ''gif'', ''bmp'', ''tiff'', ''tif'', ''webp'', ''svg'', ''ico'', ''raw'', ''heic'']"

definition DOCUMENTS :: "string list" where
  "DOCUMENTS = [''doc'', ''docx'', ''pdf'', ''txt'', ''rtf'', ''odt'', ''xls'', ''xlsx'', ''ppt'', ''pptx'', ''csv'', ''md'']"

definition VIDEOS :: "string list" where
  "VIDEOS = [''mp4'', ''avi'', ''mkv'', ''mov'', ''wmv'', ''flv'', ''webm'', ''mpeg'', ''mpg'', ''m4v'', ''3gp'']"

definition MUSIC :: "string list" where
  "MUSIC = [''mp3'', ''wav'', ''flac'', ''aac'', ''ogg'', ''wma'', ''m4a'', ''opus'', ''aiff'']"

definition ARCHIVES :: "string list" where
  "ARCHIVES = [''zip'', ''rar'', ''7z'', ''tar'', ''gz'', ''bz2'', ''xz'', ''iso'']"

definition CODE :: "string list" where
  "CODE = [''rs'', ''py'', ''js'', ''ts'', ''java'', ''c'', ''cpp'', ''h'', ''hpp'', ''go'', ''rb'', ''php'', ''swift'', ''kt'']"

definition EXECUTABLES_COLLECTION :: "string list" where
  "EXECUTABLES_COLLECTION = [''exe'', ''msi'', ''bat'', ''cmd'', ''ps1'', ''com'', ''scr'', ''vbs'', ''wsf'', ''dll'', ''sys'']"

definition EXECUTABLES :: "string list" where
  "EXECUTABLES = [''exe'', ''msi'', ''bat'', ''cmd'', ''ps1'', ''com'', ''scr'']"

definition SCRIPTS :: "string list" where
  "SCRIPTS = [''sh'', ''bash'', ''zsh'', ''fish'', ''csh'', ''ksh'', ''awk'', ''sed'', ''lua'', ''pl'', ''pm'', ''tcl'']"

definition WEB :: "string list" where
  "WEB = [''html'', ''htm'', ''css'', ''scss'', ''less'', ''sass'', ''jsx'', ''tsx'', ''vue'', ''svelte'', ''wasm'', ''xhtml'']"

definition FONTS :: "string list" where
  "FONTS = [''ttf'', ''otf'', ''woff'', ''woff2'', ''eot'', ''fon'']"

definition DATABASES :: "string list" where
  "DATABASES = [''db'', ''sqlite'', ''sqlite3'', ''mdb'', ''accdb'', ''sql'', ''ldf'', ''mdf'', ''ndf'', ''dbf'']"

definition CONFIGS :: "string list" where
  "CONFIGS = [''ini'', ''cfg'', ''conf'', ''yaml'', ''yml'', ''toml'', ''json'', ''xml'', ''env'', ''properties'', ''reg'', ''inf'',
     ''plist'']"

definition LOGS :: "string list" where
  "LOGS = [''log'', ''out'', ''err'', ''trace'', ''evt'', ''evtx'']"

definition BACKUPS :: "string list" where
  "BACKUPS = [''bak'', ''old'', ''orig'', ''swp'', ''tmp'', ''temp'', ''~'']"

definition DISK_IMAGES :: "string list" where
  "DISK_IMAGES = [''vmdk'', ''vhd'', ''vhdx'', ''vdi'', ''qcow2'', ''img'', ''wim'', ''iso'', ''dmg'']"

definition DATA :: "string list" where
  "DATA = [''csv'', ''tsv'', ''parquet'', ''avro'', ''arrow'', ''ndjson'', ''jsonl'', ''dat'', ''sav'', ''hdf5'']"

definition CAD :: "string list" where
  "CAD = [''dwg'', ''dxf'', ''step'', ''stp'', ''stl'', ''obj'', ''fbx'', ''blend'', ''3ds'', ''gltf'', ''glb'']"

definition SHORTCUTS :: "string list" where
  "SHORTCUTS = [''lnk'', ''url'', ''desktop'', ''webloc'']"

definition SYSTEM :: "string list" where
  "SYSTEM = [''sys'', ''dll'', ''drv'', ''ocx'', ''cpl'', ''ax'', ''mui'']"

definition CERTS :: "string list" where
  "CERTS = [''pem'', ''crt'', ''cer'', ''der'', ''pfx'', ''p12'', ''key'', ''csr'', ''jks'']"

definition EBOOKS :: "string list" where
  "EBOOKS = [''epub'', ''mobi'', ''azw'', ''azw3'', ''djvu'', ''cbr'', ''cbz'']"

definition expand_collection :: "string \<Rightarrow> string list option" where
  "expand_collection token =
     (if token \<in> {''pictures'', ''images''} then Some PICTURES
      else if token \<in> {''documents'', ''docs''} then Some DOCUMENTS
      else if token \<in> {''videos'', ''video''} then Some VIDEOS
      else if token \<in> {''music'', ''audio''} then Some MUSIC
      else if token \<in> {''archives'', ''compressed''} then Some ARCHIVES
      else if token \<in> {''code'', ''source''} then Some CODE
      else if token \<in> {''executables'', ''exec''} then Some EXECUTABLES_COLLECTION
      else None)"

section \<open>Categories\<close>

definition semantic_type_id_from_extension :: "string \<Rightarrow> nat" where
  "semantic_type_id_from_extension ext =
     (if ext \<in> set DOCUMENTS then 1
      else if ext \<in> set PICTURES then 2
      else if ext \<in> set VIDEOS then 3
      else if ext \<in> set MUSIC then 4
      else if ext \<in> set ARCHIVES then 5
      else if ext \<in> set CODE then 6
      else if ext \<in> set EXECUTABLES then 7
      else if ext \<in> set SCRIPTS then 8
      else if ext \<in> set WEB then 9
      else if ext \<in> set FONTS then 10
      else if ext \<in> set DATABASES then 11
      else if ext \<in> set CONFIGS then 12
      else if ext \<in> set LOGS then 13
      else if ext \<in> set BACKUPS then 14
      else if ext \<in> set DISK_IMAGES then 15
      else if ext \<in> set DATA then 16
      else if ext \<in> set CAD then 17
      else if ext \<in> set SHORTCUTS then 18
      else if ext \<in> set SYSTEM then 19
      else if ext \<in> set CERTS then 20
      else if ext \<in> set EBOOKS then 21
      else 0)"

definition SEMANTIC_TYPE_NAMES :: "string list" where
  "SEMANTIC_TYPE_NAMES = [''other'', ''document'', ''picture'', ''video'', ''audio'', ''archive'', ''code'', ''executable'', ''script'',
     ''web'', ''font'', ''database'', ''config'', ''log'', ''backup'', ''disk'', ''data'', ''cad'', ''shortcut'', ''system'', ''cert'',
     ''ebook'', ''directory'', ''file'']"

definition ALL_TYPE_CATEGORIES :: "string list" where
  "ALL_TYPE_CATEGORIES = [''archive'', ''audio'', ''backup'', ''cad'', ''cert'', ''code'', ''config'', ''data'', ''database'',
     ''directory'', ''disk'', ''document'', ''ebook'', ''executable'', ''file'', ''font'', ''log'', ''other'', ''picture'', ''script'',
     ''shortcut'', ''system'', ''video'', ''web'']"

definition semantic_type_name_from_id :: "nat \<Rightarrow> string" where
  "semantic_type_name_from_id i = (case vec_get SEMANTIC_TYPE_NAMES i of None \<Rightarrow> ''other'' | Some n \<Rightarrow> n)"

definition semantic_type_from_extension :: "string \<Rightarrow> string" where
  "semantic_type_from_extension ext =
     (if ext \<in> set DOCUMENTS then ''document''
      else if ext \<in> set PICTURES then ''picture''
      else if ext \<in> set VIDEOS then ''video''
      else if ext \<in> set MUSIC then ''audio''
      else if ext \<in> set ARCHIVES then ''archive''
      else if ext \<in> set CODE then ''code''
      else if ext \<in> set EXECUTABLES then ''executable''
      else if ext \<in> set SCRIPTS then ''script''
      else if ext \<in> set WEB then ''web''
      else if ext \<in> set FONTS then ''font''
      else if ext \<in> set DATABASES then ''database''
      else if ext \<in> set CONFIGS then ''config''
      else if ext \<in> set LOGS then ''log''
      else if ext \<in> set BACKUPS then ''backup''
      else if ext \<in> set DISK_IMAGES then ''disk''
      else if ext \<in> set DATA then ''data''
      else if ext \<in> set CAD then ''cad''
      else if ext \<in> set SHORTCUTS then ''shortcut''
      else if ext \<in> set SYSTEM then ''system''
      else if ext \<in> set CERTS then ''cert''
      else if ext \<in> set EBOOKS then ''ebook''
      else ''other'')"

definition extensions_for_type :: "string \<Rightarrow> string list option" where
  "extensions_for_type type_name =
     (if type_name = ''document'' then Some DOCUMENTS
      else if type_name = ''picture'' then Some PICTURES
      else if type_name = ''video'' then Some VIDEOS
      else if type_name = ''audio'' then Some MUSIC
      else if type_name = ''archive'' then Some ARCHIVES
      else if type_name = ''code'' then Some CODE
      else if type_name = ''executable'' then Some EXECUTABLES
      else if type_name = ''script'' then Some SCRIPTS
      else if type_name = ''web'' then Some WEB
      else if type_name = ''font'' then Some FONTS
      else if type_name = ''database'' then Some DATABASES
      else if type_name = ''config'' then Some CONFIGS
      else if type_name = ''log'' then Some LOGS
      else if type_name = ''backup'' then Some BACKUPS
      else if type_name = ''disk'' then Some DISK_IMAGES
      else if type_name = ''data'' then Some DATA
      else if type_name = ''cad'' then Some CAD
      else if type_name = ''shortcut'' then Some SHORTCUTS
      else if type_name = ''system'' then Some SYSTEM
      else if type_name = ''cert'' then Some CERTS
      else if type_name = ''ebook'' then Some EBOOKS
      else None)"

section \<open>Agreement\<close>

text \<open>The categories in the order both classifications try them.\<close>

definition type_table :: "(string \<times> string list) list" where
  "type_table = [(''document'', DOCUMENTS), (''picture'', PICTURES), (''video'', VIDEOS), (''audio'', MUSIC),
     (''archive'', ARCHIVES), (''code'', CODE), (''executable'', EXECUTABLES), (''script'', SCRIPTS),
     (''web'', WEB), (''font'', FONTS), (''database'', DATABASES), (''config'', CONFIGS),
     (''log'', LOGS), (''backup'', BACKUPS), (''disk'', DISK_IMAGES), (''data'', DATA),
     (''cad'', CAD), (''shortcut'', SHORTCUTS), (''system'', SYSTEM), (''cert'', CERTS),
     (''ebook'', EBOOKS)]"

lemmas collection_defs = DOCUMENTS_def PICTURES_def VIDEOS_def MUSIC_def ARCHIVES_def CODE_def EXECUTABLES_def SCRIPTS_def WEB_def
  FONTS_def DATABASES_def CONFIGS_def LOGS_def BACKUPS_def DISK_IMAGES_def DATA_def CAD_def SHORTCUTS_def SYSTEM_def CERTS_def EBOOKS_def

lemma extensions_for_type_table: "extensions_for_type n = map_of type_table n"
  by (simp add: extensions_for_type_def type_table_def)

lemma type_is_listed:
  "semantic_type_from_extension e = ''other'' \<or>
   (\<exists>l. extensions_for_type (semantic_type_from_extension e) = Some l \<and> e \<in> set l)"
  unfolding semantic_type_from_extension_def extensions_for_type_def by (simp split: if_split)

lemma listed_types: "list_all (\<lambda>(n, l). list_all (\<lambda>e. semantic_type_from_extension e = n \<or> e \<in> {''csv'', ''iso''}) l) type_table"
  by code_simp

text \<open>
  The number and the name of a type agree, and each type has its own extension list: outside two extensions
  that stand in two lists, a file is of a type exactly when its extension is in the list the type stands for.
\<close>

theorem type_classification:
  "semantic_type_name_from_id (semantic_type_id_from_extension e) = semantic_type_from_extension e
   \<and> (e = ''csv'' \<or> e = ''iso'' \<or> ty = ''other'' \<or>
      (semantic_type_from_extension e = ty) = (\<exists>l. extensions_for_type ty = Some l \<and> e \<in> set l))"
proof (intro conjI)
  show "semantic_type_name_from_id (semantic_type_id_from_extension e) = semantic_type_from_extension e"
    unfolding semantic_type_id_from_extension_def semantic_type_from_extension_def
    by (simp add: semantic_type_name_from_id_def SEMANTIC_TYPE_NAMES_def vec_get_def split: if_split)
  have "semantic_type_from_extension e = ty" if "extensions_for_type ty = Some l" "e \<in> set l" "e \<noteq> ''csv''" "e \<noteq> ''iso''" for l
    using that listed_types map_of_SomeD [of type_table ty l] by (fastforce simp: extensions_for_type_table list_all_iff)
  then show "e = ''csv'' \<or> e = ''iso'' \<or> ty = ''other'' \<or>
      (semantic_type_from_extension e = ty) = (\<exists>l. extensions_for_type ty = Some l \<and> e \<in> set l)"
    using type_is_listed [of e] by blast
qed

text \<open>
  Two extensions stand in two lists: a search for data files finds spreadsheets in CSV, which are shown as
  documents, and a search for disk images finds ISO images, which are shown as archives.
\<close>

theorem types_overlap:
  "semantic_type_from_extension ''csv'' = ''document'' \<and> ''csv'' \<in> set (the (extensions_for_type ''data''))
   \<and> semantic_type_from_extension ''iso'' = ''archive'' \<and> ''iso'' \<in> set (the (extensions_for_type ''disk''))"
  by code_simp

end
