(* ===== verification/Search_Filters.thy ===== *)
theory Search_Filters
  imports Path_Resolve Calendar_Time Semantic_Type
begin

text \<open>
  The filters of a search: \<open>SearchFilters\<close> with its tests on records and on result rows
  (\<open>crates/uffs-core/src/search/filters/mod.rs\<close>, \<open>apply.rs\<close>), the attribute specification (\<open>attr_parsing.rs\<close>), the
  extension tests (\<open>ext_match.rs\<close>), path separators (\<open>path_normalize.rs\<close>) and the bulkiness of \<open>search/derived.rs\<close>.

  Names are UTF-8 bytes; the specifications a user writes are lists of scalar values. The Unicode lower-casing
  of the standard library is an argument: \<open>lower_str\<close> for strings, \<open>lower_chars\<close> letter by letter. The options of
  a lower or upper bound and the reusable buffers of the code are the option type and nothing.
\<close>

section \<open>Attributes\<close>

definition attr_bit :: "str \<Rightarrow> u32" where
  "attr_bit name =
     (if named name [''readonly'', ''read-only'', ''r''] then 0x0001
      else if named name [''hidden'', ''h''] then 0x0002
      else if named name [''system'', ''s''] then 0x0004
      else if named name [''directory'', ''dir'', ''d''] then 0x0010
      else if named name [''archive'', ''a''] then 0x0020
      else if named name [''device''] then 0x0040
      else if named name [''normal''] then 0x0080
      else if named name [''temporary'', ''temp'', ''t''] then 0x0100
      else if named name [''sparse''] then 0x0200
      else if named name [''reparse''] then 0x0400
      else if named name [''compressed'', ''c''] then 0x0800
      else if named name [''offline'', ''o''] then 0x1000
      else if named name [''notindexed'', ''notcontent'', ''n''] then 0x2000
      else if named name [''encrypted'', ''e''] then 0x4000
      else if named name [''integrity'', ''i''] then 0x8000
      else if named name [''virtual'', ''v''] then 0x00010000
      else if named name [''noscrub'', ''no_scrub_data'', ''x''] then 0x00020000
      else if named name [''pinned'', ''p''] then 0x00080000
      else if named name [''unpinned'', ''u''] then 0x00100000
      else 0)"

definition expand_attr_preset :: "str \<Rightarrow> str option" where
  "expand_attr_preset token =
     (if named token [''system-files'', ''system_files'', ''sysfiles''] then Some (chars_of ''hidden,system'')
      else if named token [''user-files'', ''user_files'', ''userfiles''] then Some (chars_of ''!hidden,!system'')
      else if named token [''compressed-encrypted'', ''compressed_encrypted'', ''compenc''] then Some (chars_of ''compressed,encrypted'')
      else None)"

definition attr_tokens :: "str \<Rightarrow> str list" where
  "attr_tokens spec = map (\<lambda>raw. map ascii_lower (trim_where is_whitespace raw)) (split_at 0x2C spec)"

text \<open>
  The recursion of the two parsers goes one level deep, into the tokens of a preset, none of which is a
  preset: the expansion of a preset is parsed by the flat loop.
\<close>

definition require_flat :: "str list \<Rightarrow> u32" where
  "require_flat ts = foldr (\<lambda>t bits. (if strip_first 0x21 t \<noteq> None then 0 else attr_bit t) OR bits) ts 0"

definition parse_attr_require :: "str \<Rightarrow> u32" where
  "parse_attr_require spec =
     foldl (\<lambda>bits lowered.
       if strip_first 0x21 lowered \<noteq> None then bits
       else case expand_attr_preset lowered of
         Some expanded \<Rightarrow> bits OR require_flat (attr_tokens expanded)
       | None \<Rightarrow> bits OR attr_bit lowered) 0 (attr_tokens spec)"

definition exclude_flat :: "str list \<Rightarrow> u32" where
  "exclude_flat ts = foldr (\<lambda>t bits. (case strip_first 0x21 t of Some name \<Rightarrow> attr_bit name | None \<Rightarrow> 0) OR bits) ts 0"

definition parse_attr_exclude :: "str \<Rightarrow> u32" where
  "parse_attr_exclude spec =
     foldl (\<lambda>bits lowered.
       case strip_first 0x21 lowered of
         Some name \<Rightarrow>
           (case expand_attr_preset name of
              Some expanded \<Rightarrow> bits OR exclude_flat (attr_tokens expanded)
            | None \<Rightarrow> bits OR attr_bit name)
       | None \<Rightarrow>
           (case expand_attr_preset lowered of
              Some expanded \<Rightarrow> bits OR exclude_flat (attr_tokens expanded)
            | None \<Rightarrow> bits)) 0 (attr_tokens spec)"

section \<open>Extensions and separators\<close>

definition extract_extension_after_dot :: "bytes \<Rightarrow> bytes" where
  "extract_extension_after_dot filename =
     (case after_last_dot filename of
        None \<Rightarrow> []
      | Some (dot_pos, ext) \<Rightarrow> if dot_pos = 0 \<or> dot_pos \<ge> length filename - 1 then [] else ext)"

definition extension_matches_filter :: "(bytes \<Rightarrow> bytes) \<Rightarrow> bytes \<Rightarrow> bytes \<Rightarrow> bool" where
  "extension_matches_filter lower_str allowed normalized_extension \<longleftrightarrow>
     allowed = normalized_extension \<or> lower_str allowed = normalized_extension"

fun normalize_from :: "bool \<Rightarrow> str \<Rightarrow> str" where
  "normalize_from prev_was_sep [] = []"
| "normalize_from prev_was_sep (ch # rest) =
     (if ch = 0x5C \<or> ch = 0x2F
      then (if prev_was_sep then [] else [0x5C]) @ normalize_from True rest
      else ch # normalize_from False rest)"

definition normalize_path_separators :: "str \<Rightarrow> str" where
  "normalize_path_separators input = normalize_from False input"

definition parse_path_excludes :: "str option \<Rightarrow> str list option" where
  "parse_path_excludes spec =
     (case spec of
        None \<Rightarrow> None
      | Some s \<Rightarrow>
          (let entries = map (\<lambda>e. normalize_path_separators (map ascii_lower e))
                 (filter (\<lambda>e. e \<noteq> []) (map (trim_where is_whitespace) (split_at 0x2C s)))
           in if entries = [] then None else Some entries))"

section \<open>Filters\<close>

record search_filters =
  sf_hide_system :: bool
  sf_hide_ads :: bool
  sf_min_size :: "nat option"
  sf_max_size :: "nat option"
  sf_newer_us :: "int option"
  sf_older_us :: "int option"
  sf_newer_created_us :: "int option"
  sf_older_created_us :: "int option"
  sf_newer_accessed_us :: "int option"
  sf_older_accessed_us :: "int option"
  sf_attr_require :: u32
  sf_attr_exclude :: u32
  sf_min_descendants :: "nat option"
  sf_max_descendants :: "nat option"
  sf_extensions :: "bytes list"
  sf_resolved_ext_ids :: "nat list"
  sf_exclude_lower :: "bytes option"
  sf_path_contains_lower :: "bytes option"
  sf_path_excludes_lower :: "bytes list option"
  sf_type_filter :: "bytes option"
  sf_min_bulkiness :: "nat option"
  sf_max_bulkiness :: "nat option"
  sf_min_name_len :: "nat option"
  sf_max_name_len :: "nat option"
  sf_min_path_len :: "nat option"
  sf_max_path_len :: "nat option"
  sf_min_allocated :: "nat option"
  sf_max_allocated :: "nat option"
  sf_min_treesize :: "nat option"
  sf_max_treesize :: "nat option"
  sf_min_tree_allocated :: "nat option"
  sf_max_tree_allocated :: "nat option"
  sf_allowed_months :: "nat list"
  sf_malformed :: "bool option"
  sf_deleted :: "bool option"
  sf_normalize_malformed :: bool

definition search_filters_default :: search_filters where
  "search_filters_default = \<lparr>sf_hide_system = False, sf_hide_ads = False, sf_min_size = None, sf_max_size = None,
     sf_newer_us = None, sf_older_us = None, sf_newer_created_us = None, sf_older_created_us = None,
     sf_newer_accessed_us = None, sf_older_accessed_us = None, sf_attr_require = 0, sf_attr_exclude = 0,
     sf_min_descendants = None, sf_max_descendants = None, sf_extensions = [], sf_resolved_ext_ids = [],
     sf_exclude_lower = None, sf_path_contains_lower = None, sf_path_excludes_lower = None, sf_type_filter = None,
     sf_min_bulkiness = None, sf_max_bulkiness = None, sf_min_name_len = None, sf_max_name_len = None,
     sf_min_path_len = None, sf_max_path_len = None, sf_min_allocated = None, sf_max_allocated = None,
     sf_min_treesize = None, sf_max_treesize = None, sf_min_tree_allocated = None, sf_max_tree_allocated = None,
     sf_allowed_months = [], sf_malformed = None, sf_deleted = None, sf_normalize_malformed = False\<rparr>"

definition malformed_render_of :: "search_filters \<Rightarrow> malformed_render" where
  "malformed_render_of f = (if sf_normalize_malformed f then Normalized else Lossy)"

text \<open>
  The extension list and its merge with a type that stands for a list of extensions. The bytes of a string are
  its UTF-8, compared with the ASCII of the tables.
\<close>

definition utf8_of :: "str \<Rightarrow> bytes" where "utf8_of s = concat (map encode_utf8 s)"

definition string_of :: "bytes \<Rightarrow> string" where "string_of bs = map (\<lambda>b. char_of (unat b)) bs"

definition parse_ext_filter :: "(bytes \<Rightarrow> bytes) \<Rightarrow> str option \<Rightarrow> bytes list" where
  "parse_ext_filter lower_str ext_filter =
     (case ext_filter of
        None \<Rightarrow> []
      | Some ext_list \<Rightarrow>
          concat (map (\<lambda>segment.
            let token = lower_str (utf8_of (dropWhile (\<lambda>c. c = 0x2E) (trim_where is_whitespace segment))) in
            if token = [] then []
            else case expand_collection (string_of token) of
                   Some collection \<Rightarrow> map ascii_bytes collection
                 | None \<Rightarrow> [token]) (split_at 0x2C ext_list)))"

definition merge_type_extensions :: "bytes list \<Rightarrow> bytes option \<Rightarrow> bytes list \<times> bytes option" where
  "merge_type_extensions extensions type_filter =
     (case type_filter of
        None \<Rightarrow> (extensions, None)
      | Some type_name \<Rightarrow>
          (let lower = map to_ascii_lowercase type_name in
           case extensions_for_type (string_of lower) of
             None \<Rightarrow> (extensions, Some lower)
           | Some type_exts \<Rightarrow>
               (if extensions = [] then map ascii_bytes type_exts
                else filter (\<lambda>ext. ext \<in> set (map ascii_bytes type_exts)) extensions, None)))"

text \<open>The parameters of a search, as the command line or the daemon gives them.\<close>

record search_filter_params =
  fp_hide_system :: bool
  fp_hide_ads :: bool
  fp_min_size :: "nat option"
  fp_max_size :: "nat option"
  fp_min_descendants :: "nat option"
  fp_max_descendants :: "nat option"
  fp_newer :: "str option"
  fp_older :: "str option"
  fp_newer_created :: "str option"
  fp_older_created :: "str option"
  fp_newer_accessed :: "str option"
  fp_older_accessed :: "str option"
  fp_attr_filter :: "str option"
  fp_ext_filter :: "str option"
  fp_exclude :: "str option"
  fp_path_contains :: "str option"
  fp_path_excludes :: "str option"
  fp_type_filter :: "str option"
  fp_min_bulkiness :: "nat option"
  fp_max_bulkiness :: "nat option"
  fp_min_name_len :: "nat option"
  fp_max_name_len :: "nat option"
  fp_min_path_len :: "nat option"
  fp_max_path_len :: "nat option"
  fp_min_allocated :: "nat option"
  fp_max_allocated :: "nat option"
  fp_min_treesize :: "nat option"
  fp_max_treesize :: "nat option"
  fp_min_tree_allocated :: "nat option"
  fp_max_tree_allocated :: "nat option"
  fp_allowed_months :: "nat list"

definition search_filter_params_default :: search_filter_params where
  "search_filter_params_default = \<lparr>fp_hide_system = False, fp_hide_ads = False, fp_min_size = None, fp_max_size = None,
     fp_min_descendants = None, fp_max_descendants = None, fp_newer = None, fp_older = None, fp_newer_created = None,
     fp_older_created = None, fp_newer_accessed = None, fp_older_accessed = None, fp_attr_filter = None, fp_ext_filter = None,
     fp_exclude = None, fp_path_contains = None, fp_path_excludes = None, fp_type_filter = None, fp_min_bulkiness = None,
     fp_max_bulkiness = None, fp_min_name_len = None, fp_max_name_len = None, fp_min_path_len = None, fp_max_path_len = None,
     fp_min_allocated = None, fp_max_allocated = None, fp_min_treesize = None, fp_max_treesize = None,
     fp_min_tree_allocated = None, fp_max_tree_allocated = None, fp_allowed_months = []\<rparr>"

definition time_bound :: "str option \<Rightarrow> int \<Rightarrow> bool \<Rightarrow> int option rust" where
  "time_bound spec now_us is_newer = (case spec of None \<Rightarrow> Some None | Some s \<Rightarrow> parse_time_bound s now_us is_newer)"

definition from_params :: "(bytes \<Rightarrow> bytes) \<Rightarrow> case_fold \<Rightarrow> int \<Rightarrow> search_filter_params \<Rightarrow> search_filters rust" where
  "from_params lower_str fold_table now_us p =
     (case merge_type_extensions (parse_ext_filter lower_str (fp_ext_filter p)) (map_option utf8_of (fp_type_filter p)) of
        (extensions, type_filter) \<Rightarrow> do {
          newer \<leftarrow> time_bound (fp_newer p) now_us True;
          older \<leftarrow> time_bound (fp_older p) now_us False;
          newer_created \<leftarrow> time_bound (fp_newer_created p) now_us True;
          older_created \<leftarrow> time_bound (fp_older_created p) now_us False;
          newer_accessed \<leftarrow> time_bound (fp_newer_accessed p) now_us True;
          older_accessed \<leftarrow> time_bound (fp_older_accessed p) now_us False;
          (let attr = (case fp_attr_filter p of None \<Rightarrow> [] | Some spec \<Rightarrow> spec) in
           Some \<lparr>sf_hide_system = fp_hide_system p, sf_hide_ads = fp_hide_ads p, sf_min_size = fp_min_size p, sf_max_size = fp_max_size p,
             sf_newer_us = newer, sf_older_us = older, sf_newer_created_us = newer_created, sf_older_created_us = older_created,
             sf_newer_accessed_us = newer_accessed, sf_older_accessed_us = older_accessed, sf_attr_require = parse_attr_require attr,
             sf_attr_exclude = parse_attr_exclude attr, sf_min_descendants = fp_min_descendants p, sf_max_descendants = fp_max_descendants p,
             sf_extensions = extensions, sf_resolved_ext_ids = [], sf_exclude_lower = map_option (fold_into fold_table) (fp_exclude p),
             sf_path_contains_lower = map_option (\<lambda>pat. utf8_of (normalize_path_separators (map ascii_lower pat))) (fp_path_contains p),
             sf_path_excludes_lower = map_option (map utf8_of) (parse_path_excludes (fp_path_excludes p)), sf_type_filter = type_filter,
             sf_min_bulkiness = map_option (\<lambda>pct. u64_sat_mul pct 10000) (fp_min_bulkiness p),
             sf_max_bulkiness = map_option (\<lambda>pct. u64_sat_mul pct 10000) (fp_max_bulkiness p),
             sf_min_name_len = fp_min_name_len p, sf_max_name_len = fp_max_name_len p, sf_min_path_len = fp_min_path_len p,
             sf_max_path_len = fp_max_path_len p, sf_min_allocated = fp_min_allocated p, sf_max_allocated = fp_max_allocated p,
             sf_min_treesize = fp_min_treesize p, sf_max_treesize = fp_max_treesize p, sf_min_tree_allocated = fp_min_tree_allocated p,
             sf_max_tree_allocated = fp_max_tree_allocated p, sf_allowed_months = fp_allowed_months p, sf_malformed = None,
             sf_deleted = None, sf_normalize_malformed = False\<rparr>)
        })"

definition resolve_ext_ids_for_drive :: "(bytes \<Rightarrow> bytes) \<Rightarrow> drive_index \<Rightarrow> search_filters \<Rightarrow> search_filters" where
  "resolve_ext_ids_for_drive norm d f =
     (if sf_extensions f = [] then f\<lparr>sf_resolved_ext_ids := []\<rparr>
      else f\<lparr>sf_resolved_ext_ids := resolve_ext_ids norm (sf_extensions f) d\<rparr>)"

definition above :: "'a :: ord option \<Rightarrow> 'a \<Rightarrow> bool" where
  "above bound x = (case bound of None \<Rightarrow> True | Some b \<Rightarrow> \<not> x < b)"

definition below :: "'a :: ord option \<Rightarrow> 'a \<Rightarrow> bool" where
  "below bound x = (case bound of None \<Rightarrow> True | Some b \<Rightarrow> \<not> b < x)"

definition before :: "'a :: ord option \<Rightarrow> 'a \<Rightarrow> bool" where
  "before bound x = (case bound of None \<Rightarrow> True | Some b \<Rightarrow> \<not> b \<le> x)"

definition BULKINESS_SCALE :: nat where "BULKINESS_SCALE = 1000000"

definition bulkiness_from_sizes :: "nat \<Rightarrow> nat \<Rightarrow> nat" where
  "bulkiness_from_sizes logical allocated =
     (if logical = 0 then 0 else u64_sat_mul allocated BULKINESS_SCALE div logical)"

definition bulkiness_for_record :: "compact_record \<Rightarrow> nat" where
  "bulkiness_for_record r =
     (if is_directory_record r then bulkiness_from_sizes (cr_treesize r) (cr_tree_allocated r)
      else bulkiness_from_sizes (cr_size r) (cr_allocated r))"

definition DELETED_TOMBSTONE_FLAG :: u32 where "DELETED_TOMBSTONE_FLAG = 0x80000000"

definition matches_derived :: "search_filters \<Rightarrow> compact_record \<Rightarrow> bytes \<Rightarrow> bool rust" where
  "matches_derived f r names =
     (if \<not> ((sf_min_name_len f = None \<and> sf_max_name_len f = None) \<or>
            (let name_len = len_to_u16 (length (str_chars (record_name r names)))
             in above (sf_min_name_len f) name_len \<and> below (sf_max_name_len f) name_len)) then Some False
      else if \<not> (above (sf_min_allocated f) (cr_allocated r) \<and> below (sf_max_allocated f) (cr_allocated r)) then Some False
      else if \<not> (above (sf_min_treesize f) (cr_treesize r) \<and> below (sf_max_treesize f) (cr_treesize r)) then Some False
      else if \<not> (above (sf_min_tree_allocated f) (cr_tree_allocated r) \<and> below (sf_max_tree_allocated f) (cr_tree_allocated r)) then Some False
      else if \<not> ((sf_min_bulkiness f = None \<and> sf_max_bulkiness f = None) \<or>
                 (above (sf_min_bulkiness f) (bulkiness_for_record r) \<and> below (sf_max_bulkiness f) (bulkiness_for_record r))) then Some False
      else if \<not> (above (sf_min_path_len f) (cr_path_len r) \<and> below (sf_max_path_len f) (cr_path_len r)) then Some False
      else do {
        month_ok \<leftarrow> (if sf_allowed_months f = [] then Some True
                     else do { month \<leftarrow> month_from_filetime (cr_modified r); Some (month \<in> set (sf_allowed_months f)) });
        if \<not> month_ok then Some False
        else Some (case sf_malformed f of None \<Rightarrow> True | Some want \<Rightarrow> (\<not> utf8_valid (name_bytes r names)) = want)
      })"

text \<open>The tests of \<open>matches_record\<close> before the exclusion pattern.\<close>

definition ext_test :: "(bytes \<Rightarrow> bytes) \<Rightarrow> (bytes \<Rightarrow> bytes) \<Rightarrow> search_filters \<Rightarrow> compact_record \<Rightarrow> bytes \<Rightarrow> bool" where
  "ext_test lower_str lower_chars f r names \<longleftrightarrow>
     (if sf_resolved_ext_ids f \<noteq> [] then cr_extension_id r \<in> set (sf_resolved_ext_ids f)
      else if sf_extensions f \<noteq> [] then
        (let ext = extract_extension_after_dot (record_name r names)
         in ext \<noteq> [] \<and> list_ex (\<lambda>allowed. extension_matches_filter lower_str allowed (lower_chars ext)) (sf_extensions f))
      else True)"

definition record_tests :: "search_filters \<Rightarrow> compact_record \<Rightarrow> bytes \<Rightarrow> bool" where
  "record_tests f r names \<longleftrightarrow>
     \<not> (sf_hide_system f \<and> is_system_metafile r names)
     \<and> \<not> (sf_hide_ads f \<and> 0x3A \<in> set (record_name r names))
     \<and> above (sf_min_size f) (cr_size r) \<and> below (sf_max_size f) (cr_size r)
     \<and> above (sf_newer_us f) (cr_modified r) \<and> before (sf_older_us f) (cr_modified r)
     \<and> above (sf_newer_created_us f) (cr_created r) \<and> before (sf_older_created_us f) (cr_created r)
     \<and> above (sf_newer_accessed_us f) (cr_accessed r) \<and> before (sf_older_accessed_us f) (cr_accessed r)
     \<and> \<not> (sf_attr_require f \<noteq> 0 \<and> cr_flags r AND sf_attr_require f \<noteq> sf_attr_require f)
     \<and> \<not> (sf_attr_exclude f \<noteq> 0 \<and> cr_flags r AND sf_attr_exclude f \<noteq> 0)
     \<and> (case sf_deleted f of None \<Rightarrow> True | Some want \<Rightarrow> (cr_flags r AND DELETED_TOMBSTONE_FLAG \<noteq> 0) = want)
     \<and> above (sf_min_descendants f) (cr_descendants r) \<and> below (sf_max_descendants f) (cr_descendants r)"

definition matches_record ::
  "(bytes \<Rightarrow> bytes) \<Rightarrow> (bytes \<Rightarrow> bytes) \<Rightarrow> search_filters \<Rightarrow> compact_record \<Rightarrow> bytes \<Rightarrow> case_fold \<Rightarrow> bool rust"
where
  "matches_record lower_str lower_chars f r names t =
     (if \<not> record_tests f r names \<or> \<not> ext_test lower_str lower_chars f r names then Some False
      else do {
        excluded \<leftarrow> (case sf_exclude_lower f of
                       None \<Rightarrow> Some False
                     | Some excl \<Rightarrow> name_matches (fold_into t (str_chars (record_name r names))) excl);
        if excluded then Some False else matches_derived f r names
      })"

definition is_ext_only :: "search_filters \<Rightarrow> bool" where
  "is_ext_only f \<longleftrightarrow> sf_extensions f \<noteq> [] \<and> sf_min_size f = None \<and> sf_max_size f = None \<and> sf_newer_us f = None
     \<and> sf_older_us f = None \<and> sf_newer_created_us f = None \<and> sf_older_created_us f = None \<and> sf_newer_accessed_us f = None
     \<and> sf_older_accessed_us f = None \<and> sf_attr_require f = 0 \<and> sf_attr_exclude f = 0 \<and> sf_min_descendants f = None
     \<and> sf_max_descendants f = None \<and> sf_exclude_lower f = None \<and> sf_path_contains_lower f = None
     \<and> sf_path_excludes_lower f = None \<and> sf_type_filter f = None \<and> sf_min_bulkiness f = None \<and> sf_max_bulkiness f = None
     \<and> sf_min_name_len f = None \<and> sf_max_name_len f = None \<and> sf_min_path_len f = None \<and> sf_max_path_len f = None
     \<and> sf_min_allocated f = None \<and> sf_max_allocated f = None \<and> sf_min_treesize f = None \<and> sf_max_treesize f = None
     \<and> sf_min_tree_allocated f = None \<and> sf_max_tree_allocated f = None \<and> sf_allowed_months f = []"

definition filters_is_empty :: "search_filters \<Rightarrow> bool" where
  "filters_is_empty f \<longleftrightarrow> \<not> sf_hide_system f \<and> \<not> sf_hide_ads f \<and> sf_min_size f = None \<and> sf_max_size f = None \<and> sf_newer_us f = None
     \<and> sf_older_us f = None \<and> sf_newer_created_us f = None \<and> sf_older_created_us f = None \<and> sf_newer_accessed_us f = None
     \<and> sf_older_accessed_us f = None \<and> sf_attr_require f = 0 \<and> sf_attr_exclude f = 0 \<and> sf_min_descendants f = None
     \<and> sf_max_descendants f = None \<and> sf_extensions f = [] \<and> sf_exclude_lower f = None \<and> sf_path_contains_lower f = None
     \<and> sf_path_excludes_lower f = None \<and> sf_type_filter f = None \<and> sf_min_bulkiness f = None \<and> sf_max_bulkiness f = None
     \<and> sf_min_name_len f = None \<and> sf_max_name_len f = None \<and> sf_min_path_len f = None \<and> sf_max_path_len f = None
     \<and> sf_min_allocated f = None \<and> sf_max_allocated f = None \<and> sf_min_treesize f = None \<and> sf_max_treesize f = None
     \<and> sf_min_tree_allocated f = None \<and> sf_max_tree_allocated f = None \<and> sf_allowed_months f = []
     \<and> sf_malformed f = None \<and> sf_deleted f = None"

section \<open>Rows\<close>

datatype filter_mode = FM_All | FilesOnly | DirsOnly

definition apply_filter :: "filter_mode \<Rightarrow> display_row list \<Rightarrow> display_row list" where
  "apply_filter mode rows =
     (case mode of
        FM_All \<Rightarrow> rows
      | FilesOnly \<Rightarrow> filter (\<lambda>row. \<not> dr_is_directory row) rows
      | DirsOnly \<Rightarrow> filter dr_is_directory rows)"

definition needs_display_row_filter :: "search_filters \<Rightarrow> bool" where
  "needs_display_row_filter f \<longleftrightarrow> sf_path_contains_lower f \<noteq> None \<or> sf_path_excludes_lower f \<noteq> None \<or> sf_type_filter f \<noteq> None"

definition extension_from_name :: "bytes \<Rightarrow> bytes option" where
  "extension_from_name name =
     (case after_last_dot name of
        None \<Rightarrow> None
      | Some (dot, ext) \<Rightarrow> if dot = 0 \<or> dot + 1 \<ge> length name then None else Some ext)"

definition semantic_type_for_row :: "display_row \<Rightarrow> string" where
  "semantic_type_for_row row =
     (if dr_is_directory row then ''directory''
      else case extension_from_name (row_name row) of
             None \<Rightarrow> ''file''
           | Some ext \<Rightarrow> semantic_type_from_extension (string_of (map to_ascii_lowercase ext)))"

definition bulkiness_for_row :: "display_row \<Rightarrow> nat" where
  "bulkiness_for_row row =
     (if dr_is_directory row then bulkiness_from_sizes (dr_treesize row) (dr_tree_allocated row)
      else bulkiness_from_sizes (dr_size row) (dr_allocated row))"

fun any_name_matches :: "bytes \<Rightarrow> bytes list \<Rightarrow> bool rust" where
  "any_name_matches name [] = Some False"
| "any_name_matches name (p # ps) = do { hit \<leftarrow> name_matches name p; if hit then Some True else any_name_matches name ps }"

definition apply_derived_filters :: "display_row \<Rightarrow> search_filters \<Rightarrow> bool rust" where
  "apply_derived_filters row f =
     (let name_len = len_to_u16 (length (str_chars (row_name row)));
          path_len = len_to_u16 (length (str_chars (dr_path row)));
          dir_lower = map to_ascii_lowercase (path_dir row)
      in if \<not> (above (sf_min_name_len f) name_len \<and> below (sf_max_name_len f) name_len) then Some False
         else if \<not> (above (sf_min_path_len f) path_len \<and> below (sf_max_path_len f) path_len) then Some False
         else do {
           inside \<leftarrow> (case sf_path_contains_lower f of None \<Rightarrow> Some True | Some pat \<Rightarrow> name_matches dir_lower pat);
           (if \<not> inside then Some False
            else do {
              dropped \<leftarrow> (case sf_path_excludes_lower f of None \<Rightarrow> Some False | Some excludes \<Rightarrow> any_name_matches dir_lower excludes);
              (if dropped then Some False
               else if \<not> (case sf_type_filter f of None \<Rightarrow> True | Some wanted \<Rightarrow> semantic_type_for_row row = string_of wanted) then Some False
               else if \<not> (above (sf_min_bulkiness f) (bulkiness_for_row row) \<and> below (sf_max_bulkiness f) (bulkiness_for_row row)) then Some False
               else if \<not> (above (sf_min_allocated f) (dr_allocated row) \<and> below (sf_max_allocated f) (dr_allocated row)) then Some False
               else if \<not> (above (sf_min_treesize f) (dr_treesize row) \<and> below (sf_max_treesize f) (dr_treesize row)) then Some False
               else if \<not> (above (sf_min_tree_allocated f) (dr_tree_allocated row) \<and> below (sf_max_tree_allocated f) (dr_tree_allocated row)) then Some False
               else if sf_allowed_months f = [] then Some True
               else do { month \<leftarrow> month_from_filetime (dr_modified row); Some (month \<in> set (sf_allowed_months f)) })
            })
         })"

text \<open>The tests of \<open>row_passes_filters\<close> before the exclusion pattern.\<close>

definition row_tests :: "(bytes \<Rightarrow> bytes) \<Rightarrow> (bytes \<Rightarrow> bytes) \<Rightarrow> search_filters \<Rightarrow> display_row \<Rightarrow> bool" where
  "row_tests lower_str lower_chars f row \<longleftrightarrow>
     \<not> (sf_hide_system f \<and> is_ntfs_metafile_name (row_name row))
     \<and> \<not> (sf_hide_ads f \<and> 0x3A \<in> set (row_name row))
     \<and> (case sf_malformed f of None \<Rightarrow> True | Some want \<Rightarrow> dr_malformed row = want)
     \<and> above (sf_min_size f) (dr_size row) \<and> below (sf_max_size f) (dr_size row)
     \<and> above (sf_newer_us f) (dr_modified row) \<and> before (sf_older_us f) (dr_modified row)
     \<and> above (sf_newer_created_us f) (dr_created row) \<and> before (sf_older_created_us f) (dr_created row)
     \<and> above (sf_newer_accessed_us f) (dr_accessed row) \<and> before (sf_older_accessed_us f) (dr_accessed row)
     \<and> \<not> (sf_attr_require f \<noteq> 0 \<and> dr_flags row AND sf_attr_require f \<noteq> sf_attr_require f)
     \<and> \<not> (sf_attr_exclude f \<noteq> 0 \<and> dr_flags row AND sf_attr_exclude f \<noteq> 0)
     \<and> above (sf_min_descendants f) (dr_descendants row) \<and> below (sf_max_descendants f) (dr_descendants row)
     \<and> (sf_extensions f = [] \<or>
        (let ext = extract_extension_after_dot (row_name row)
         in ext \<noteq> [] \<and> list_ex (\<lambda>allowed. extension_matches_filter lower_str allowed (lower_chars ext)) (sf_extensions f)))"

definition row_passes_filters ::
  "(bytes \<Rightarrow> bytes) \<Rightarrow> (bytes \<Rightarrow> bytes) \<Rightarrow> display_row \<Rightarrow> search_filters \<Rightarrow> case_fold \<Rightarrow> bool rust"
where
  "row_passes_filters lower_str lower_chars row f t =
     (if filters_is_empty f then Some True
      else if \<not> row_tests lower_str lower_chars f row then Some False
      else do {
        excluded \<leftarrow> (case sf_exclude_lower f of
                       None \<Rightarrow> Some False
                     | Some excl \<Rightarrow> name_matches (fold_into t (str_chars (row_name row))) excl);
        if excluded then Some False else apply_derived_filters row f
      })"

fun retain_rows :: "(display_row \<Rightarrow> bool rust) \<Rightarrow> display_row list \<Rightarrow> display_row list rust" where
  "retain_rows keep [] = Some []"
| "retain_rows keep (row # rows) = do { k \<leftarrow> keep row; rest \<leftarrow> retain_rows keep rows; Some (if k then row # rest else rest) }"

definition apply_search_filters ::
  "(bytes \<Rightarrow> bytes) \<Rightarrow> (bytes \<Rightarrow> bytes) \<Rightarrow> case_fold \<Rightarrow> display_row list \<Rightarrow> search_filters \<Rightarrow> display_row list rust"
where
  "apply_search_filters lower_str lower_chars default_table rows f =
     (if filters_is_empty f then Some rows
      else retain_rows (\<lambda>row. row_passes_filters lower_str lower_chars row f default_table) rows)"

section \<open>Records\<close>

text \<open>The bounds that make the arithmetic of the filters safe: a time is an \<open>i64\<close>, a pattern fits in memory.\<close>

definition filter_fits :: "search_filters \<Rightarrow> bool" where
  "filter_fits f \<longleftrightarrow> (case sf_exclude_lower f of None \<Rightarrow> True | Some excl \<Rightarrow> length excl \<le> u64_max)"

definition time_fits :: "compact_record \<Rightarrow> bool" where
  "time_fits r \<longleftrightarrow> i64_min \<le> cr_modified r \<and> cr_modified r \<le> i64_max"

lemma guard_total: "\<exists>b. e = Some b \<Longrightarrow> \<exists>b. (if c then Some x else e) = Some b"
  by auto

lemma matches_derived_total:
  assumes "time_fits r"
  shows "\<exists>b. matches_derived f r names = Some b"
proof -
  obtain m where "month_from_filetime (cr_modified r) = Some m" using month_from_filetime_total assms by (auto simp: time_fits_def)
  then show ?thesis unfolding matches_derived_def by (intro guard_total) auto
qed

lemma matches_record_total:
  assumes "filter_fits f" and "time_fits r"
  shows "\<exists>b. matches_record lower_str lower_chars f r names t = Some b"
proof -
  have "\<exists>b. (case sf_exclude_lower f of None \<Rightarrow> Some False
      | Some excl \<Rightarrow> name_matches (fold_into t (str_chars (record_name r names))) excl) = Some b"
    using assms(1) name_matches_total by (auto simp: filter_fits_def split: option.split)
  with matches_derived_total [OF assms(2), of f names] show ?thesis by (auto simp: matches_record_def)
qed

lemmas bound_defs = above_def below_def before_def

lemma is_ext_only_matches:
  assumes "is_ext_only f" and "sf_malformed f = None" and "sf_deleted f = None" and "sf_resolved_ext_ids f \<noteq> []"
  shows "matches_record lower_str lower_chars f r names t =
    Some (\<not> (sf_hide_system f \<and> is_system_metafile r names) \<and> \<not> (sf_hide_ads f \<and> 0x3A \<in> set (record_name r names))
      \<and> cr_extension_id r \<in> set (sf_resolved_ext_ids f))"
  using assms by (auto simp: is_ext_only_def matches_record_def record_tests_def ext_test_def matches_derived_def bound_defs)

lemma empty_filters_match:
  assumes "filters_is_empty f" and "sf_resolved_ext_ids f = []"
  shows "matches_record lower_str lower_chars f r names t = Some True"
  using assms by (auto simp: filters_is_empty_def matches_record_def record_tests_def ext_test_def matches_derived_def bound_defs)

section \<open>Specifications\<close>

text \<open>
  A list of extensions and a type that have no extension in common leave no restriction at all: the
  intersection is the empty list, which stands for every extension, and the type is gone. Every record
  passes the filter that should let none pass.
\<close>

theorem disjoint_type_matches_everything:
  assumes "extensions_for_type (string_of (map to_ascii_lowercase (utf8_of type_name))) = Some type_exts"
    and "set (parse_ext_filter lower_str (Some ext_list)) \<inter> set (map ascii_bytes type_exts) = {}" and "parse_ext_filter lower_str (Some ext_list) \<noteq> []"
  shows "\<exists>f. from_params lower_str fold_table now_us
      (search_filter_params_default\<lparr>fp_ext_filter := Some ext_list, fp_type_filter := Some type_name\<rparr>) = Some f
    \<and> filters_is_empty f \<and> matches_record lower_str lower_chars (resolve_ext_ids_for_drive norm d f) r names t = Some True"
proof -
  have "filter (\<lambda>ext. ext \<in> set (map ascii_bytes type_exts)) (parse_ext_filter lower_str (Some ext_list)) = []"
    using assms(2) by (auto simp: filter_empty_conv)
  then have m: "merge_type_extensions (parse_ext_filter lower_str (Some ext_list)) (Some (utf8_of type_name)) = ([], None)"
    using assms(1,3) by (simp add: merge_type_extensions_def)
  have attr: "parse_attr_require [] = 0" "parse_attr_exclude [] = 0"
    by (simp_all add: parse_attr_require_def parse_attr_exclude_def attr_tokens_def trim_where_def strip_first_def
        expand_attr_preset_def attr_bit_def named_def chars_of_def)
  have "from_params lower_str fold_table now_us (search_filter_params_default\<lparr>fp_ext_filter := Some ext_list, fp_type_filter := Some type_name\<rparr>)
      = Some search_filters_default"
    by (simp add: from_params_def m attr search_filter_params_default_def search_filters_default_def time_bound_def parse_path_excludes_def)
  moreover have e: "filters_is_empty search_filters_default" "sf_resolved_ext_ids search_filters_default = []"
    by (simp_all add: filters_is_empty_def search_filters_default_def)
  moreover have "resolve_ext_ids_for_drive norm d search_filters_default = search_filters_default"
    by (simp add: resolve_ext_ids_for_drive_def search_filters_default_def)
  ultimately show ?thesis using empty_filters_match [OF e] by simp
qed

theorem disjoint_type_matches_everything_witness:
  "\<exists>f. from_params id [] 0 (search_filter_params_default\<lparr>fp_ext_filter := Some (chars_of ''rs''), fp_type_filter := Some (chars_of ''Font'')\<rparr>) = Some f
    \<and> filters_is_empty f"
proof -
  have l: "string_of (map to_ascii_lowercase (utf8_of (chars_of ''Font''))) = ''font''"
    by (simp add: utf8_of_def chars_of_def encode_utf8_def to_ascii_lowercase_def string_of_def char_of_eq_iff)
  have e: "parse_ext_filter id (Some (chars_of ''rs'')) = [ascii_bytes ''rs'']"
    by (simp add: parse_ext_filter_def chars_of_def trim_where_def is_whitespace_def utf8_of_def encode_utf8_def ascii_bytes_def string_of_def
        expand_collection_def char_of_eq_iff)
  have "extensions_for_type ''font'' = Some FONTS" by (simp add: extensions_for_type_def)
  moreover have "set [ascii_bytes ''rs''] \<inter> set (map ascii_bytes FONTS) = {}" by (simp add: FONTS_def ascii_bytes_def)
  ultimately show ?thesis
    using disjoint_type_matches_everything [of "chars_of ''Font''" FONTS id "chars_of ''rs''" "[]" 0] by (simp add: l e) metis
qed

text \<open>
  Excluding a preset excludes nothing: the tokens of the expansion carry no exclamation mark and the flat
  parser drops them, so \<open>!system-files\<close> neither requires nor excludes a bit, while the same list written out
  excludes hidden and system files.
\<close>

theorem negated_preset_excludes_nothing:
  "parse_attr_exclude (chars_of ''!system-files'') = 0 \<and> parse_attr_require (chars_of ''!system-files'') = 0
   \<and> parse_attr_exclude (chars_of ''!hidden,!system'') = 0x0006"
proof -
  have t: "attr_tokens (chars_of ''!system-files'') = [chars_of ''!system-files'']"
    "attr_tokens (chars_of ''!hidden,!system'') = [chars_of ''!hidden'', chars_of ''!system'']"
    "attr_tokens (chars_of ''hidden,system'') = [chars_of ''hidden'', chars_of ''system'']"
    by (simp_all add: attr_tokens_def chars_of_def trim_where_def is_whitespace_def ascii_lower_def)
  have s: "strip_first 0x21 (chars_of ''!system-files'') = Some (chars_of ''system-files'')" "strip_first 0x21 (chars_of ''!hidden'') = Some (chars_of ''hidden'')"
    "strip_first 0x21 (chars_of ''!system'') = Some (chars_of ''system'')" "strip_first 0x21 (chars_of ''hidden'') = None" "strip_first 0x21 (chars_of ''system'') = None"
    by (simp_all add: strip_first_def chars_of_def)
  have p: "expand_attr_preset (chars_of ''system-files'') = Some (chars_of ''hidden,system'')" "expand_attr_preset (chars_of ''hidden'') = None"
    "expand_attr_preset (chars_of ''system'') = None" by (simp_all add: expand_attr_preset_def named_def chars_of_def)
  have "attr_bit (chars_of ''hidden'') = 2" "attr_bit (chars_of ''system'') = 4" by (simp_all add: attr_bit_def named_def chars_of_def)
  then show ?thesis
    unfolding parse_attr_exclude_def parse_attr_require_def t by (simp add: s p t exclude_flat_def)
qed

section \<open>Rows and records\<close>

text \<open>A row stands for a record when it shows the fields of the record and a path that ends in its name.\<close>

definition row_of :: "display_row \<Rightarrow> compact_record \<Rightarrow> bytes \<Rightarrow> bool" where
  "row_of row r names \<longleftrightarrow> row_name row = record_name r names \<and> dr_size row = cr_size r \<and> dr_modified row = cr_modified r
     \<and> dr_created row = cr_created r \<and> dr_accessed row = cr_accessed r \<and> dr_flags row = cr_flags r
     \<and> dr_allocated row = cr_allocated r \<and> dr_descendants row = cr_descendants r \<and> dr_treesize row = cr_treesize r
     \<and> dr_tree_allocated row = cr_tree_allocated r \<and> dr_is_directory row = is_directory_record r
     \<and> dr_malformed row = (\<not> utf8_valid (name_bytes r names)) \<and> len_to_u16 (length (str_chars (dr_path row))) = cr_path_len r"

definition only_record_filters :: "search_filters \<Rightarrow> bool" where
  "only_record_filters f \<longleftrightarrow> \<not> needs_display_row_filter f \<and> sf_deleted f = None \<and> sf_resolved_ext_ids f = []"

lemma above_None [simp]: "above None x" by (simp add: above_def)
lemma below_None [simp]: "below None x" by (simp add: below_def)

lemma derived_agree:
  assumes "row_of row r names" and "only_record_filters f" and "sf_malformed f = None \<or> sf_malformed f = Some (\<not> utf8_valid (name_bytes r names))"
  shows "apply_derived_filters row f = matches_derived f r names"
proof -
  have none: "sf_path_contains_lower f = None" "sf_path_excludes_lower f = None" "sf_type_filter f = None"
    using assms(2) by (auto simp: only_record_filters_def needs_display_row_filter_def)
  have bulk: "bulkiness_for_row row = bulkiness_for_record r" using assms(1) by (simp add: row_of_def bulkiness_for_row_def bulkiness_for_record_def)
  have mal: "(case sf_malformed f of None \<Rightarrow> True | Some want \<Rightarrow> (\<not> utf8_valid (name_bytes r names)) = want)" using assms(3) by auto
  have len: "len_to_u16 (length (str_chars (dr_path row))) = cr_path_len r" and name: "row_name row = record_name r names"
    and sizes: "dr_allocated row = cr_allocated r" "dr_treesize row = cr_treesize r" "dr_tree_allocated row = cr_tree_allocated r" "dr_modified row = cr_modified r"
    using assms(1) by (simp_all add: row_of_def)
  show ?thesis
    unfolding apply_derived_filters_def matches_derived_def Let_def bulk len name sizes none
    by (cases "above (sf_min_name_len f) (len_to_u16 (length (str_chars (record_name r names)))) \<and> below (sf_max_name_len f) (len_to_u16 (length (str_chars (record_name r names))))";
        cases "above (sf_min_path_len f) (cr_path_len r) \<and> below (sf_max_path_len f) (cr_path_len r)";
        cases "month_from_filetime (cr_modified r)")
      (use mal in \<open>auto simp: \<close>)
qed

lemma malformed_decided:
  assumes "matches_derived f r names = Some True"
  shows "sf_malformed f = None \<or> sf_malformed f = Some (\<not> utf8_valid (name_bytes r names))"
proof -
  from assms show ?thesis unfolding matches_derived_def
    by (auto split: if_splits option.splits Option.bind_splits)
qed

text \<open>
  A filter decides the same on a result row as on the record behind it as long as it
  asks nothing of the directory, the type or the deletion mark: both scans of the program, the one over
  records and the one over finished rows, then let the same files pass.
\<close>

theorem row_filter_agrees:
  assumes "row_of row r names" and "only_record_filters f"
    and "is_ntfs_metafile_name (record_name r names) = is_system_metafile r names"
    and "filter_fits f" and "time_fits r"
  shows "row_passes_filters lower_str lower_chars row f t = matches_record lower_str lower_chars f r names t"
proof (cases "filters_is_empty f")
  case True
  then show ?thesis using empty_filters_match [OF True] assms(2) by (simp add: row_passes_filters_def only_record_filters_def)
next
  case False
  have name: "row_name row = record_name r names" and mal: "dr_malformed row = (\<not> utf8_valid (name_bytes r names))" using assms(1) by (simp_all add: row_of_def)
  have tests: "row_tests lower_str lower_chars f row \<longleftrightarrow> record_tests f r names \<and> ext_test lower_str lower_chars f r names
      \<and> (sf_malformed f = None \<or> sf_malformed f = Some (\<not> utf8_valid (name_bytes r names)))"
    using assms by (auto simp: row_tests_def record_tests_def ext_test_def row_of_def only_record_filters_def Let_def split: option.split)
  show ?thesis
  proof (cases "sf_malformed f = None \<or> sf_malformed f = Some (\<not> utf8_valid (name_bytes r names))")
    case True
    with False tests show ?thesis
      unfolding row_passes_filters_def matches_record_def name derived_agree [OF assms(1,2) True] by simp
  next
    case m: False
    obtain b where b: "matches_record lower_str lower_chars f r names t = Some b" using matches_record_total [OF assms(4,5)] by blast
    then have "\<not> b" using m malformed_decided [of f r names] by (auto simp: matches_record_def split: if_splits Option.bind_splits)
    with b tests m False show ?thesis by (simp add: row_passes_filters_def)
  qed
qed

text \<open>A row the row builder makes stands for its record, when its path ends in the name and is as long as the record says.\<close>

lemma make_display_row_of:
  assumes "row_name (make_display_row i r (record_name r names) path (row_forensics_of r names bad)) = record_name r names"
    and "0x3A \<notin> set (record_name r names)" and "len_to_u16 (length (str_chars path)) = cr_path_len r"
  shows "row_of (make_display_row i r (record_name r names) path (row_forensics_of r names bad)) r names"
  using assms by (simp add: row_of_def make_display_row_def row_forensics_of_def Let_def)

definition big_file :: compact_record where
  "big_file = demo_aaa\<lparr>cr_size := 900, cr_modified := 5, cr_path_len := 6\<rparr>"

definition big_row :: display_row where
  "big_row = make_display_row 0 big_file [0x61, 0x61, 0x61] [0x43, 0x3A, 0x5C, 0x61, 0x61, 0x61] (row_forensics_of big_file [0x61, 0x61, 0x61] False)"

theorem row_filter_agrees_witness:
  "row_passes_filters id id big_row (search_filters_default\<lparr>sf_min_size := Some 1000, sf_hide_system := True\<rparr>) []
     = matches_record id id (search_filters_default\<lparr>sf_min_size := Some 1000, sf_hide_system := True\<rparr>) big_file [0x61, 0x61, 0x61] []"
proof -
  have name: "record_name big_file [0x61, 0x61, 0x61] = [0x61, 0x61, 0x61]"
    by (simp add: big_file_def demo_aaa_def record_name_def name_bytes_def u64_sat_add_def slice_get_def utf8_valid_def utf8_ascii_chars u64_max_def compact_record_default_def Let_def)
  have chars: "str_chars [0x43, 0x3A, 0x5C, 0x61, 0x61, 0x61] = [0x43, 0x3A, 0x5C, 0x61, 0x61, 0x61]" by (simp add: str_chars_def utf8_ascii_chars)
  have len: "cr_path_len big_file = 6" by (simp add: big_file_def)
  have row: "big_row = make_display_row 0 big_file (record_name big_file [0x61, 0x61, 0x61]) [0x43, 0x3A, 0x5C, 0x61, 0x61, 0x61]
      (row_forensics_of big_file [0x61, 0x61, 0x61] False)" by (simp only: name big_row_def)
  have "row_of big_row big_file [0x61, 0x61, 0x61]"
    unfolding row by (rule make_display_row_of)
      (simp_all add: name chars row_name_def make_display_row_def row_name_start_def len_to_u32_def Let_def len len_to_u16_def u32_max_def u16_max_def)
  moreover have "\<not> is_ntfs_metafile_name [0x61, 0x61, 0x61]"
    by (simp add: is_ntfs_metafile_name_def NTFS_METAFILE_NAMES_def eq_ignore_ascii_case_def ascii_bytes_def to_ascii_lowercase_def)
  moreover have "time_fits big_file" by (simp add: time_fits_def big_file_def i64_min_def i64_max_def)
  ultimately show ?thesis
    by (intro row_filter_agrees)
      (simp_all add: only_record_filters_def needs_display_row_filter_def search_filters_default_def name is_system_metafile_def filter_fits_def)
qed

end
