(* ===== verification/Top_N.thy ===== *)
theory Top_N
  imports Search_Filters "HOL-Library.Multiset"
begin

text \<open>
  The search for everything with a limit and a sort column: the sort key of a record
  (\<open>crates/uffs-core/src/search/query/numeric_sort_key.rs\<close>), the bounded heap (\<open>query/mod.rs\<close>), the scan of a drive
  with its shortcut over the extension index, the merge of the drives and the choice of the best
  (\<open>query/numeric_top_n.rs\<close>).

  A binary heap is the list of its elements from the greatest down. An unstable sort is a stable sort after a
  rearrangement \<open>tie\<close> of the list, which is an argument: it decides between equal keys. The scans of the drives run
  in parallel but share nothing; they are a map over the drives. A drive is its letter with its index.
\<close>

section \<open>Sort keys\<close>

datatype field_id =
    F_Drive | F_Path | F_Name | F_PathOnly | F_Size | F_SizeOnDisk | F_Created | F_Modified | F_Accessed | F_Extension | F_Type
  | F_Attributes | F_AttributeValue | F_Hidden | F_System | F_Archive | F_ReadOnly | F_Compressed | F_Encrypted | F_Sparse
  | F_Reparse | F_Offline | F_NotIndexed | F_Temporary | F_Virtual | F_Pinned | F_Unpinned | F_Descendants | F_TreeSize
  | F_TreeAllocated | F_Bulkiness | F_Integrity | F_NoScrub | F_DirectoryFlag | F_RecallOnOpen | F_RecallOnDataAccess
  | F_ParityAttributes | F_NameLength | F_PathLength | F_Malformed | F_MalformedPath | F_NameHex

definition from_be_bytes :: "bytes \<Rightarrow> int" where
  "from_be_bytes bs = cast_signed (foldl (\<lambda>acc b. acc * 256 + unat b) 0 bs)"

definition pad_to :: "nat \<Rightarrow> bytes \<Rightarrow> bytes" where
  "pad_to n bs = take n bs @ replicate (n - length bs) 0"

definition folded_low_bytes :: "drive_index \<Rightarrow> compact_record \<Rightarrow> bytes" where
  "folded_low_bytes d r = map (\<lambda>c. ucast (fold_char (di_fold d) c)) (str_chars (record_name r (di_names d)))"

definition flag_key :: "compact_record \<Rightarrow> u32 \<Rightarrow> int" where
  "flag_key r bits = (if cr_flags r AND bits \<noteq> 0 then 1 else 0)"

definition name_count_key :: "drive_index \<Rightarrow> compact_record \<Rightarrow> int" where
  "name_count_key d r = min (int (length (str_chars (record_name r (di_names d))))) i64_max"

definition extract_sort_key :: "compact_record \<Rightarrow> field_id \<Rightarrow> u8 \<times> drive_index \<Rightarrow> int" where
  "extract_sort_key r sort_column drive =
     (case drive of (letter, d) \<Rightarrow>
       (case sort_column of
          F_Size \<Rightarrow> cast_signed (cr_size r)
        | F_SizeOnDisk \<Rightarrow> cast_signed (cr_allocated r)
        | F_Created \<Rightarrow> cr_created r
        | F_Accessed \<Rightarrow> cr_accessed r
        | F_Descendants \<Rightarrow> int (cr_descendants r)
        | F_TreeAllocated \<Rightarrow> if is_directory_record r then cast_signed (cr_tree_allocated r) else cast_signed (cr_allocated r)
        | F_Bulkiness \<Rightarrow> cast_signed (bulkiness_for_record r)
        | F_Extension \<Rightarrow> int (cr_extension_id r)
        | F_Type \<Rightarrow> int (cr_extension_id r)
        | F_Name \<Rightarrow> from_be_bytes (pad_to 8 (folded_low_bytes d r))
        | F_Drive \<Rightarrow> from_be_bytes (letter # pad_to 7 (folded_low_bytes d r))
        | F_TreeSize \<Rightarrow> if is_directory_record r then cast_signed (cr_treesize r) else cast_signed (cr_size r)
        | F_DirectoryFlag \<Rightarrow> if is_directory_record r then 1 else 0
        | F_Hidden \<Rightarrow> flag_key r 0x0002
        | F_System \<Rightarrow> flag_key r 0x0004
        | F_ReadOnly \<Rightarrow> flag_key r 0x0001
        | F_Archive \<Rightarrow> flag_key r 0x0020
        | F_Compressed \<Rightarrow> flag_key r 0x0800
        | F_Encrypted \<Rightarrow> flag_key r 0x4000
        | F_Sparse \<Rightarrow> flag_key r 0x0200
        | F_Reparse \<Rightarrow> flag_key r 0x0400
        | F_Offline \<Rightarrow> flag_key r 0x1000
        | F_NotIndexed \<Rightarrow> flag_key r 0x2000
        | F_Temporary \<Rightarrow> flag_key r 0x0100
        | F_Integrity \<Rightarrow> flag_key r 0x8000
        | F_NoScrub \<Rightarrow> flag_key r 0x00020000
        | F_Pinned \<Rightarrow> flag_key r 0x00080000
        | F_Unpinned \<Rightarrow> flag_key r 0x00100000
        | F_RecallOnOpen \<Rightarrow> flag_key r 0x00040000
        | F_RecallOnDataAccess \<Rightarrow> flag_key r 0x00400000
        | F_Attributes \<Rightarrow> uint (cr_flags r)
        | F_AttributeValue \<Rightarrow> uint (cr_flags r)
        | F_ParityAttributes \<Rightarrow> uint (cr_flags r)
        | F_Virtual \<Rightarrow> flag_key r 0x00010000
        | F_Malformed \<Rightarrow> if utf8_valid (name_bytes r (di_names d)) then 0 else 1
        | F_Path \<Rightarrow> cr_modified r
        | F_PathOnly \<Rightarrow> cr_modified r
        | F_Modified \<Rightarrow> cr_modified r
        | F_MalformedPath \<Rightarrow> cr_modified r
        | F_NameHex \<Rightarrow> cr_modified r
        | F_NameLength \<Rightarrow> name_count_key d r
        | F_PathLength \<Rightarrow> name_count_key d r))"

section \<open>The bounded heap\<close>

datatype heap_entry = HeapEntry (sort_key_of: int) (drive_idx_of: nat) (rec_idx_of: nat)

instantiation heap_entry :: linorder
begin

definition less_eq_heap_entry :: "heap_entry \<Rightarrow> heap_entry \<Rightarrow> bool" where
  "a \<le> b \<longleftrightarrow> sort_key_of a < sort_key_of b \<or> sort_key_of a = sort_key_of b \<and>
     (drive_idx_of a < drive_idx_of b \<or> drive_idx_of a = drive_idx_of b \<and> rec_idx_of a \<le> rec_idx_of b)"

definition less_heap_entry :: "heap_entry \<Rightarrow> heap_entry \<Rightarrow> bool" where
  "a < b \<longleftrightarrow> a \<le> b \<and> \<not> b \<le> (a :: heap_entry)"

instance
  by standard (auto simp: less_eq_heap_entry_def less_heap_entry_def heap_entry.expand)

end

datatype 'a reverse = Reverse (unreverse: 'a)

instantiation reverse :: (linorder) linorder
begin

definition less_eq_reverse :: "'a reverse \<Rightarrow> 'a reverse \<Rightarrow> bool" where
  "a \<le> b \<longleftrightarrow> unreverse b \<le> unreverse a"

definition less_reverse :: "'a reverse \<Rightarrow> 'a reverse \<Rightarrow> bool" where
  "a < b \<longleftrightarrow> unreverse b < unreverse a"

instance
  by standard (auto simp: less_eq_reverse_def less_reverse_def reverse.expand)

end

definition heap_push :: "'a :: linorder \<Rightarrow> 'a list \<Rightarrow> 'a list" where
  "heap_push entry heap = rev (insort entry (rev heap))"

definition heap_push_capped :: "'a :: linorder list \<Rightarrow> 'a \<Rightarrow> nat \<Rightarrow> 'a list" where
  "heap_push_capped heap entry limit =
     (if length heap < limit then heap_push entry heap
      else case heap of [] \<Rightarrow> heap | worst # rest \<Rightarrow> if entry < worst then heap_push entry rest else heap)"

section \<open>The scan of a drive\<close>

type_synonym candidate = "nat \<times> nat \<times> int"

record drive_scan_cfg =
  sc_limit :: nat
  sc_use_heap :: bool
  sc_sort_column :: field_id
  sc_sort_desc :: bool
  sc_filter_mode :: filter_mode
  sc_has_filters :: bool

record drive_top_n =
  dt_heap_desc :: "heap_entry reverse list"
  dt_heap_asc :: "heap_entry list"
  dt_fallback :: "candidate list"
  dt_use_heap :: bool
  dt_sort_desc :: bool
  dt_limit :: nat

definition drive_top_n_new :: "drive_scan_cfg \<Rightarrow> drive_top_n" where
  "drive_top_n_new cfg = \<lparr>dt_heap_desc = [], dt_heap_asc = [], dt_fallback = [], dt_use_heap = sc_use_heap cfg,
     dt_sort_desc = sc_sort_desc cfg, dt_limit = sc_limit cfg\<rparr>"

definition as_candidate :: "heap_entry \<Rightarrow> candidate" where
  "as_candidate e = (drive_idx_of e, rec_idx_of e, sort_key_of e)"

definition drive_top_n_push :: "heap_entry \<Rightarrow> drive_top_n \<Rightarrow> drive_top_n" where
  "drive_top_n_push entry s =
     (if dt_use_heap s then
        (if dt_sort_desc s then s\<lparr>dt_heap_desc := heap_push_capped (dt_heap_desc s) (Reverse entry) (dt_limit s)\<rparr>
         else s\<lparr>dt_heap_asc := heap_push_capped (dt_heap_asc s) entry (dt_limit s)\<rparr>)
      else s\<lparr>dt_fallback := dt_fallback s @ [as_candidate entry]\<rparr>)"

definition drive_top_n_drain :: "drive_top_n \<Rightarrow> candidate list" where
  "drive_top_n_drain s =
     (if \<not> dt_use_heap s then dt_fallback s
      else if dt_sort_desc s then map (\<lambda>e. as_candidate (unreverse e)) (dt_heap_desc s)
      else map as_candidate (dt_heap_asc s))"

definition heap_entry_for :: "nat \<Rightarrow> nat \<Rightarrow> compact_record \<Rightarrow> u8 \<times> drive_index \<Rightarrow> field_id \<Rightarrow> heap_entry" where
  "heap_entry_for drive_idx rec_idx r drive sort_column =
     HeapEntry (extract_sort_key r sort_column drive) (len_to_u16 drive_idx) (len_to_u32 rec_idx)"

definition ext_candidate_passes :: "compact_record \<Rightarrow> bytes \<Rightarrow> search_filters \<Rightarrow> filter_mode \<Rightarrow> bool" where
  "ext_candidate_passes r names f mode \<longleftrightarrow>
     cr_name_len r \<noteq> 0 \<and> \<not> (mode = FilesOnly \<and> is_directory_record r) \<and> \<not> (sf_hide_system f \<and> is_system_metafile r names)
     \<and> \<not> (sf_hide_ads f \<and> 0x3A \<in> set (record_name r names))"

definition scan_ext_fast_path ::
  "nat \<Rightarrow> u8 \<times> drive_index \<Rightarrow> search_filters \<Rightarrow> drive_scan_cfg \<Rightarrow> drive_top_n \<Rightarrow> drive_top_n"
where
  "scan_ext_fast_path drive_idx drive f cfg state =
     foldl (\<lambda>st ext_id. foldl (\<lambda>st rec_idx.
         case vec_get (di_records (snd drive)) rec_idx of
           None \<Rightarrow> st
         | Some r \<Rightarrow>
             if ext_candidate_passes r (di_names (snd drive)) f (sc_filter_mode cfg)
             then drive_top_n_push (heap_entry_for drive_idx rec_idx r drive (sc_sort_column cfg)) st else st)
       st (records_with_ext (snd drive) ext_id)) state (sf_resolved_ext_ids f)"

definition full_scan_record_passes ::
  "(bytes \<Rightarrow> bytes) \<Rightarrow> (bytes \<Rightarrow> bytes) \<Rightarrow> compact_record \<Rightarrow> drive_index \<Rightarrow> search_filters \<Rightarrow> filter_mode \<Rightarrow> bool \<Rightarrow> nat \<Rightarrow> (bool \<times> nat) rust"
where
  "full_scan_record_passes lower_str lower_chars r d f mode has_filters filtered =
     (if cr_name_len r = 0 then Some (False, filtered)
      else if has_filters then
        (if mode = FilesOnly \<and> is_directory_record r then Some (False, filtered)
         else if mode = DirsOnly \<and> \<not> is_directory_record r then Some (False, filtered)
         else do {
           hit \<leftarrow> matches_record lower_str lower_chars f r (di_names d) (di_fold d);
           Some (if hit then (True, filtered) else (False, u64_sat_add filtered 1))
         })
      else Some (True, filtered))"

fun scan_full_from ::
  "(bytes \<Rightarrow> bytes) \<Rightarrow> (bytes \<Rightarrow> bytes) \<Rightarrow> nat \<Rightarrow> u8 \<times> drive_index \<Rightarrow> search_filters \<Rightarrow> drive_scan_cfg \<Rightarrow> nat \<Rightarrow> compact_record list \<Rightarrow>
   drive_top_n \<Rightarrow> nat \<Rightarrow> (drive_top_n \<times> nat) rust"
where
  "scan_full_from lower_str lower_chars drive_idx drive f cfg rec_idx [] state filtered = Some (state, filtered)"
| "scan_full_from lower_str lower_chars drive_idx drive f cfg rec_idx (r # records) state filtered = do {
     (passes, filtered') \<leftarrow>
       full_scan_record_passes lower_str lower_chars r (snd drive) f (sc_filter_mode cfg) (sc_has_filters cfg) filtered;
     scan_full_from lower_str lower_chars drive_idx drive f cfg (rec_idx + 1) records
       (if passes then drive_top_n_push (heap_entry_for drive_idx rec_idx r drive (sc_sort_column cfg)) state else state) filtered'
   }"

definition scan_full_records where
  "scan_full_records lower_str lower_chars drive_idx drive f cfg state =
     scan_full_from lower_str lower_chars drive_idx drive f cfg 0 (di_records (snd drive)) state 0"

definition scan_drive_candidates ::
  "(bytes \<Rightarrow> bytes) \<Rightarrow> (bytes \<Rightarrow> bytes) \<Rightarrow> nat \<Rightarrow> u8 \<times> drive_index \<Rightarrow> search_filters \<Rightarrow> drive_scan_cfg \<Rightarrow> (candidate list \<times> nat) rust"
where
  "scan_drive_candidates lower_str lower_chars drive_idx drive f cfg =
     (let state = drive_top_n_new cfg;
          ext_fast_path = (is_ext_only f \<and> sc_filter_mode cfg \<noteq> DirsOnly)
      in if ext_fast_path \<and> sf_resolved_ext_ids f \<noteq> [] then
           Some (drive_top_n_drain (scan_ext_fast_path drive_idx drive f cfg state), 0)
         else if ext_fast_path \<and> sf_extensions f \<noteq> [] then Some (drive_top_n_drain state, 0)
         else do {
           (state', filtered) \<leftarrow> scan_full_records lower_str lower_chars drive_idx drive f cfg state;
           Some (drive_top_n_drain state', filtered)
         })"

section \<open>All drives\<close>

definition scan_all_drives_parallel where
  "scan_all_drives_parallel lower_str lower_chars norm drives f cfg = do {
     per_drive \<leftarrow> par_map (\<lambda>(drive_idx, drive).
         scan_drive_candidates lower_str lower_chars drive_idx drive (resolve_ext_ids_for_drive norm (snd drive) f) cfg)
       (enumerate 0 drives);
     Some (sum_list (map snd per_drive), concat (map fst per_drive))
   }"

definition sort_and_localise :: "(candidate list \<Rightarrow> candidate list) \<Rightarrow> candidate list \<Rightarrow> bool \<Rightarrow> nat \<Rightarrow> candidate list" where
  "sort_and_localise tie candidates sort_desc limit =
     (let localise = (\<lambda>cs. sort_key (\<lambda>(drive_idx, rec_idx, _). HeapEntry 0 drive_idx rec_idx) (tie cs))
      in if limit \<ge> length candidates then localise candidates
         else localise (take limit
           (if sort_desc then sort_key (\<lambda>(_, _, key). Reverse key) (tie candidates)
            else sort_key (\<lambda>(_, _, key). key) (tie candidates))))"

text \<open>The scan and the choice of \<open>collect_global_top_n_numeric\<close>.\<close>

definition top_n_candidates where
  "top_n_candidates lower_str lower_chars norm tie drives limit sort_column sort_desc mode f =
     (let has_filters = (\<not> filters_is_empty f \<or> mode \<noteq> FM_All);
          cfg = \<lparr>sc_limit = limit, sc_use_heap = (limit < 1000000), sc_sort_column = sort_column, sc_sort_desc = sort_desc,
                 sc_filter_mode = mode, sc_has_filters = has_filters\<rparr>
      in do {
        (_, raw_candidates) \<leftarrow> scan_all_drives_parallel lower_str lower_chars norm drives f cfg;
        Some (sort_and_localise tie raw_candidates sort_desc limit)
      })"

section \<open>The smallest elements\<close>

definition smallest :: "nat \<Rightarrow> 'a :: linorder list \<Rightarrow> 'a list" where
  "smallest n xs = take n (sort xs)"

lemma sort_unique: "sorted ys \<Longrightarrow> mset ys = mset xs \<Longrightarrow> sort xs = ys"
  by (metis properties_for_sort)

lemma smallest_mset: "mset xs = mset ys \<Longrightarrow> smallest n xs = smallest n ys"
  unfolding smallest_def by (metis mset_sort sort_unique sorted_sort)

lemma take_insort:
  assumes "sorted s"
  shows "take n (insort e (take n s)) = take n (insort e s)"
  using assms
proof (induction s arbitrary: n)
  case (Cons x s)
  then show ?case by (cases n) (auto simp: take_Cons')
qed simp

lemma smallest_Cons: "smallest n (x # xs) = smallest n (x # smallest n xs)"
proof -
  have "sort (smallest n xs) = smallest n xs" by (simp add: smallest_def sorted_sort_id sorted_wrt_take)
  then show ?thesis using take_insort [of "sort xs" n x] by (simp add: smallest_def)
qed

lemma smallest_append: "smallest n (ys @ xs) = smallest n (ys @ smallest n xs)"
proof (induction ys)
  case Nil
  then show ?case by (simp add: smallest_def sorted_sort_id sorted_wrt_take)
next
  case (Cons y ys)
  then show ?case using smallest_Cons [of n y] by (metis append_Cons)
qed

lemma smallest_append2:
  assumes "smallest n xs = smallest n xs'" and "smallest n ys = smallest n ys'"
  shows "smallest n (xs @ ys) = smallest n (xs' @ ys')"
proof -
  have "smallest n (xs @ ys) = smallest n (xs @ ys')" using smallest_append [of n xs] assms(2) by metis
  also have "\<dots> = smallest n (ys' @ xs)" by (rule smallest_mset) simp
  also have "\<dots> = smallest n (ys' @ xs')" using smallest_append [of n ys'] assms(1) by metis
  also have "\<dots> = smallest n (xs' @ ys')" by (rule smallest_mset) simp
  finally show ?thesis .
qed

lemma smallest_concat:
  "list_all2 (\<lambda>c a. smallest n c = smallest n a) cs as \<Longrightarrow> smallest n (concat cs) = smallest n (concat as)"
  by (induction rule: list_all2_induct) (auto intro: smallest_append2)

lemma smallest_map:
  assumes "mono f"
  shows "smallest n (map f xs) = map f (smallest n xs)"
proof -
  have "sort (map f xs) = map f (sort xs)"
    by (rule sort_unique) (use assms in \<open>auto simp: sorted_map monoD intro: sorted_wrt_mono_rel [OF _ sorted_sort]\<close>)
  then show ?thesis by (simp add: smallest_def take_map)
qed

section \<open>The heap\<close>

lemma insort_last: "sorted t \<Longrightarrow> (\<And>x. x \<in> set t \<Longrightarrow> x \<le> e) \<Longrightarrow> insort e t = t @ [e]"
  using sort_unique [of "t @ [e]" "e # t"] by (simp add: sorted_append sorted_sort_id)

lemma insort_before_last: "sorted (t @ [z]) \<Longrightarrow> e < z \<Longrightarrow> insort e (t @ [z]) = insort e t @ [z]"
  using sort_unique [of "insort e t @ [z]" "e # t @ [z]"] by (auto simp: sorted_append sorted_sort_id sorted_insort set_insort_key)

lemma heap_push_capped_smallest:
  assumes "sorted s" and "length s \<le> n"
  shows "heap_push_capped (rev s) e n = rev (take n (insort e s))"
proof (cases "length s < n")
  case True
  then show ?thesis by (simp add: heap_push_capped_def heap_push_def)
next
  case full: False
  show ?thesis
  proof (cases s rule: rev_cases)
    case Nil
    with full show ?thesis by (simp add: heap_push_capped_def)
  next
    case (snoc t z)
    with full assms(2) have n: "n = Suc (length t)" by simp
    show ?thesis
    proof (cases "e < z")
      case True
      with assms(1) snoc show ?thesis by (simp add: heap_push_capped_def heap_push_def n insort_before_last)
    next
      case False
      with assms(1) snoc have "insort e s = s @ [e]" by (intro insort_last) (auto simp: sorted_append)
      with False snoc show ?thesis by (simp add: heap_push_capped_def n)
    qed
  qed
qed

text \<open>After any sequence of pushes a heap of capacity \<open>n\<close> holds the \<open>n\<close> smallest entries, each as often as it was pushed.\<close>

lemma heap_keeps_smallest: "foldl (\<lambda>h e. heap_push_capped h e n) [] xs = rev (smallest n xs)"
proof (induction xs rule: rev_induct)
  case (snoc x xs)
  have "sort (xs @ [x]) = insort x (sort xs)" by (rule sort_unique) (simp_all add: sorted_insort)
  moreover have "take n (insort x (take n (sort xs))) = take n (insort x (sort xs))" by (rule take_insort) simp
  ultimately show ?case
    using snoc heap_push_capped_smallest [of "smallest n xs" n x] by (simp add: smallest_def sorted_wrt_take)
qed (simp add: smallest_def)

section \<open>What a scan keeps\<close>

text \<open>The rank of a candidate: the smaller, the better, in the wanted direction.\<close>

fun rank :: "bool \<Rightarrow> candidate \<Rightarrow> int" where
  "rank desc (drive_idx, rec_idx, key) = (if desc then - key else key)"

text \<open>A list of candidates stands for a longer one, up to the best \<open>n\<close>.\<close>

definition stands_for :: "nat \<Rightarrow> bool \<Rightarrow> candidate list \<Rightarrow> candidate list \<Rightarrow> bool" where
  "stands_for n desc cs as \<longleftrightarrow> mset cs \<subseteq># mset as \<and> smallest n (map (rank desc) cs) = smallest n (map (rank desc) as)"

lemma stands_for_concat: "list_all2 (stands_for n desc) css ass \<Longrightarrow> stands_for n desc (concat css) (concat ass)"
proof (induction rule: list_all2_induct)
  case (Cons c cs a as)
  then show ?case by (auto simp: stands_for_def intro: smallest_append2 subset_mset.add_mono)
qed (simp add: stands_for_def)

lemma stands_for_mset: "stands_for n desc cs as \<Longrightarrow> mset as = mset as' \<Longrightarrow> stands_for n desc cs as'"
  unfolding stands_for_def using smallest_mset [of "map (rank desc) as" "map (rank desc) as'" n] by simp

lemma smallest_rev: "smallest n (rev xs) = smallest n xs"
  by (rule smallest_mset) simp

lemma smallest_idem: "smallest n (smallest n xs) = smallest n xs"
  by (simp add: smallest_def sorted_sort_id sorted_wrt_take)

lemma smallest_sub: "mset (smallest n xs) \<subseteq># mset xs"
  unfolding smallest_def by (metis append_take_drop_id mset_append mset_sort mset_subset_eq_add_left)

lemma heap_stands_for:
  assumes "mono (\<lambda>e. rank desc (f e))"
  shows "stands_for n desc (map f (rev (smallest n es))) (map f es)"
proof -
  have "smallest n (map (rank desc) (map f (rev (smallest n es)))) = smallest n (rev (map (\<lambda>e. rank desc (f e)) (smallest n es)))"
    by (simp add: rev_map comp_def)
  also have "\<dots> = map (\<lambda>e. rank desc (f e)) (smallest n es)"
    by (simp only: smallest_rev smallest_map [OF assms] smallest_idem)
  also have "\<dots> = smallest n (map (rank desc) (map f es))" by (simp add: smallest_map [OF assms, symmetric] comp_def)
  finally show ?thesis using image_mset_subseteq_mono [OF smallest_sub, of f] by (simp add: stands_for_def)
qed

definition push_all :: "heap_entry list \<Rightarrow> drive_top_n \<Rightarrow> drive_top_n" where
  "push_all es s = foldl (\<lambda>s e. drive_top_n_push e s) s es"

lemma push_all_fields:
  "push_all es s = s\<lparr>dt_heap_desc := (if dt_use_heap s \<and> dt_sort_desc s
       then foldl (\<lambda>h e. heap_push_capped h e (dt_limit s)) (dt_heap_desc s) (map Reverse es) else dt_heap_desc s),
     dt_heap_asc := (if dt_use_heap s \<and> \<not> dt_sort_desc s then foldl (\<lambda>h e. heap_push_capped h e (dt_limit s)) (dt_heap_asc s) es else dt_heap_asc s),
     dt_fallback := (if dt_use_heap s then dt_fallback s else dt_fallback s @ map as_candidate es)\<rparr>"
  unfolding push_all_def by (induction es arbitrary: s) (auto simp: drive_top_n_push_def)

lemma drain_stands_for: "stands_for (sc_limit cfg) (sc_sort_desc cfg) (drive_top_n_drain (push_all es (drive_top_n_new cfg))) (map as_candidate es)"
proof -
  have asc: "mono (\<lambda>e. rank False (as_candidate e))" by (auto simp: mono_def as_candidate_def less_eq_heap_entry_def)
  have desc: "mono (\<lambda>e. rank True (as_candidate (unreverse e)))"
    by (auto simp: mono_def as_candidate_def less_eq_heap_entry_def less_eq_reverse_def)
  from heap_stands_for [OF asc, of "sc_limit cfg" es] heap_stands_for [OF desc, of "sc_limit cfg" "map Reverse es"] show ?thesis
    by (auto simp: push_all_fields drive_top_n_new_def drive_top_n_drain_def heap_keeps_smallest comp_def stands_for_def)
qed

section \<open>What a scan sees\<close>

definition passes_filter_mode :: "bool \<Rightarrow> filter_mode \<Rightarrow> bool" where
  "passes_filter_mode is_directory mode = (case mode of FM_All \<Rightarrow> True | FilesOnly \<Rightarrow> \<not> is_directory | DirsOnly \<Rightarrow> is_directory)"

text \<open>The records a search is about, by the filter alone.\<close>

definition visible :: "(bytes \<Rightarrow> bytes) \<Rightarrow> (bytes \<Rightarrow> bytes) \<Rightarrow> search_filters \<Rightarrow> filter_mode \<Rightarrow> drive_index \<Rightarrow> nat \<Rightarrow> bool" where
  "visible lower_str lower_chars f mode d i \<longleftrightarrow> live (di_records d) i
     \<and> passes_filter_mode (is_directory_record (di_records d ! i)) mode
     \<and> matches_record lower_str lower_chars f (di_records d ! i) (di_names d) (di_fold d) = Some True"

definition entries :: "nat \<Rightarrow> u8 \<times> drive_index \<Rightarrow> field_id \<Rightarrow> nat list \<Rightarrow> heap_entry list" where
  "entries j drive column is = map (\<lambda>i. heap_entry_for j i (di_records (snd drive) ! i) drive column) is"

text \<open>
  What the scan relies on: times in range; and when no extension of the filter has a number on the drive,
  then no name on the drive ends in one of them.
\<close>

definition scan_ready :: "(bytes \<Rightarrow> bytes) \<Rightarrow> (bytes \<Rightarrow> bytes) \<Rightarrow> search_filters \<Rightarrow> drive_index \<Rightarrow> bool" where
  "scan_ready lower_str lower_chars f d \<longleftrightarrow> index_inv d \<and> list_all time_fits (di_records d)
     \<and> (sf_extensions f \<noteq> [] \<and> sf_resolved_ext_ids f = [] \<longrightarrow>
        list_all (\<lambda>r. cr_name_len r = 0 \<or> \<not> ext_test lower_str lower_chars f r (di_names d)) (di_records d))"

lemma full_scan_record_passes_spec:
  assumes "filter_fits f" and "time_fits r" and "\<not> hf \<Longrightarrow> matches_record lower_str lower_chars f r (di_names d) (di_fold d) = Some True"
    and "\<not> hf \<Longrightarrow> mode = FM_All"
  shows "\<exists>n'. full_scan_record_passes lower_str lower_chars r d f mode hf n =
    Some (cr_name_len r \<noteq> 0 \<and> passes_filter_mode (is_directory_record r) mode
      \<and> matches_record lower_str lower_chars f r (di_names d) (di_fold d) = Some True, n')"
proof -
  obtain b where "matches_record lower_str lower_chars f r (di_names d) (di_fold d) = Some b" using matches_record_total [OF assms(1,2)] by blast
  with assms(3,4) show ?thesis by (cases mode) (auto simp: full_scan_record_passes_def passes_filter_mode_def)
qed

lemma scan_full_from_spec:
  assumes "filter_fits f" and "list_all time_fits (di_records (snd drive))"
    and "\<And>r. \<not> sc_has_filters cfg \<Longrightarrow> matches_record lower_str lower_chars f r (di_names (snd drive)) (di_fold (snd drive)) = Some True"
    and "\<not> sc_has_filters cfg \<Longrightarrow> sc_filter_mode cfg = FM_All"
  shows "k + length rs = length (di_records (snd drive)) \<Longrightarrow> rs = drop k (di_records (snd drive)) \<Longrightarrow>
    \<exists>n'. scan_full_from lower_str lower_chars j drive f cfg k rs st n =
      Some (push_all (entries j drive (sc_sort_column cfg)
        (filter (visible lower_str lower_chars f (sc_filter_mode cfg) (snd drive)) [k..<length (di_records (snd drive))])) st, n')"
proof (induction rs arbitrary: k st n)
  case Nil
  then show ?case by (simp add: push_all_def entries_def)
next
  case (Cons r rs)
  let ?recs = "di_records (snd drive)"
  from Cons.prems(1) have len: "k < length ?recs" "Suc k + length rs = length ?recs" by simp_all
  from Cons.prems(2) Cons_nth_drop_Suc [OF len(1)] have "r # rs = ?recs ! k # drop (Suc k) ?recs" by (rule trans [OF _ sym])
  then have k: "k < length ?recs" "r = ?recs ! k" "rs = drop (Suc k) ?recs" "Suc k + length rs = length ?recs" using len by simp_all
  have t: "time_fits r" using assms(2) k by (simp add: list_all_length)
  from full_scan_record_passes_spec [where d = "snd drive" and mode = "sc_filter_mode cfg" and hf = "sc_has_filters cfg" and n = n, OF assms(1) t assms(3,4)]
  obtain n' where n': "full_scan_record_passes lower_str lower_chars r (snd drive) f (sc_filter_mode cfg) (sc_has_filters cfg) n =
      Some (visible lower_str lower_chars f (sc_filter_mode cfg) (snd drive) k, n')" using k(1,2) by (auto simp: visible_def live_def)
  have "[k..<length ?recs] = k # [Suc k..<length ?recs]" using k(1) by (rule upt_conv_Cons)
  with n' Cons.IH [OF k(4,3)] k(2) show ?case by (auto simp: push_all_def entries_def)
qed

lemma foldl_when: "foldl (\<lambda>s x. if P x then g s (h x) else s) s xs = foldl g s (map h (filter P xs))"
  by (induction xs arbitrary: s) auto

lemma scan_ext_fast_path_spec:
  assumes "index_inv (snd drive)"
  shows "scan_ext_fast_path j drive f cfg st = push_all (entries j drive (sc_sort_column cfg)
    (concat (map (\<lambda>e. filter (\<lambda>i. ext_candidate_passes (di_records (snd drive) ! i) (di_names (snd drive)) f (sc_filter_mode cfg))
       (records_with_ext (snd drive) e)) (sf_resolved_ext_ids f)))) st"
proof -
  have inner: "foldl (\<lambda>st i. case vec_get (di_records (snd drive)) i of None \<Rightarrow> st
      | Some r \<Rightarrow> if ext_candidate_passes r (di_names (snd drive)) f (sc_filter_mode cfg)
          then drive_top_n_push (heap_entry_for j i r drive (sc_sort_column cfg)) st else st) st (records_with_ext (snd drive) e)
    = push_all (entries j drive (sc_sort_column cfg) (filter (\<lambda>i. ext_candidate_passes (di_records (snd drive) ! i) (di_names (snd drive)) f (sc_filter_mode cfg))
       (records_with_ext (snd drive) e))) st" for st e
  proof -
    have "set (records_with_ext (snd drive) e) \<subseteq> {..<length (di_records (snd drive))}" by (auto simp: records_with_ext_exact [OF assms])
    then show ?thesis unfolding push_all_def entries_def foldl_when [symmetric]
      by (intro foldl_cong) (auto simp: vec_get_def)
  qed
  have app: "push_all (entries j drive c (xs @ ys)) st = push_all (entries j drive c ys) (push_all (entries j drive c xs) st)" for c xs ys st
    by (simp add: push_all_def entries_def)
  have "foldl (\<lambda>st e. push_all (entries j drive (sc_sort_column cfg) (g e)) st) st es
      = push_all (entries j drive (sc_sort_column cfg) (concat (map g es))) st" for g es st
    by (induction es arbitrary: st) (simp_all add: app, simp add: push_all_def entries_def)
  then show ?thesis unfolding scan_ext_fast_path_def inner .
qed

lemma mset_filter_disj: "(\<And>x. \<not> (A x \<and> B x)) \<Longrightarrow> mset (filter (\<lambda>x. A x \<or> B x) xs) = mset (filter A xs) + mset (filter B xs)"
  by (induction xs) auto

lemma ext_buckets_mset:
  assumes "index_inv d" and "distinct ids"
  shows "mset (concat (map (\<lambda>e. filter P (records_with_ext d e)) ids))
    = mset (filter (\<lambda>i. live (di_records d) i \<and> cr_extension_id (di_records d ! i) \<in> set ids \<and> P i) [0..<length (di_records d)])"
  using assms(2)
proof (induction ids)
  case (Cons e ids)
  have "filter (\<lambda>i. live (di_records d) i \<and> cr_extension_id (di_records d ! i) \<in> set (e # ids) \<and> P i) [0..<length (di_records d)]
      = filter (\<lambda>i. (live (di_records d) i \<and> cr_extension_id (di_records d ! i) = e \<and> P i)
        \<or> (live (di_records d) i \<and> cr_extension_id (di_records d ! i) \<in> set ids \<and> P i)) [0..<length (di_records d)]"
    by (rule filter_cong) auto
  moreover have "filter P (records_with_ext d e) = filter (\<lambda>i. live (di_records d) i \<and> cr_extension_id (di_records d ! i) = e \<and> P i) [0..<length (di_records d)]"
    by (auto simp: records_with_ext_exact [OF assms(1)] intro: filter_cong)
  moreover have "mset (filter (\<lambda>i. (live (di_records d) i \<and> cr_extension_id (di_records d ! i) = e \<and> P i)
        \<or> (live (di_records d) i \<and> cr_extension_id (di_records d ! i) \<in> set ids \<and> P i)) [0..<length (di_records d)])
      = mset (filter (\<lambda>i. live (di_records d) i \<and> cr_extension_id (di_records d ! i) = e \<and> P i) [0..<length (di_records d)])
        + mset (filter (\<lambda>i. live (di_records d) i \<and> cr_extension_id (di_records d ! i) \<in> set ids \<and> P i) [0..<length (di_records d)])"
    using Cons.prems by (intro mset_filter_disj) auto
  ultimately show ?case using Cons by (simp del: mset_filter)
qed simp

lemma ext_scan_visible:
  assumes "index_inv d" and "is_ext_only f" and "sf_malformed f = None" and "sf_deleted f = None" and "sf_resolved_ext_ids f \<noteq> []"
    and "distinct (sf_resolved_ext_ids f)" and "mode \<noteq> DirsOnly"
  shows "mset (concat (map (\<lambda>e. filter (\<lambda>i. ext_candidate_passes (di_records d ! i) (di_names d) f mode) (records_with_ext d e)) (sf_resolved_ext_ids f)))
    = mset (filter (visible lower_str lower_chars f mode d) [0..<length (di_records d)])"
proof -
  have "filter (visible lower_str lower_chars f mode d) [0..<length (di_records d)]
      = filter (\<lambda>i. live (di_records d) i \<and> cr_extension_id (di_records d ! i) \<in> set (sf_resolved_ext_ids f)
          \<and> ext_candidate_passes (di_records d ! i) (di_names d) f mode) [0..<length (di_records d)]"
    using assms(7) by (intro filter_cong refl; cases mode)
      (auto simp: visible_def is_ext_only_matches [OF assms(2-5)] ext_candidate_passes_def passes_filter_mode_def live_def)
  then show ?thesis by (simp only: ext_buckets_mset [OF assms(1,6)])
qed

lemma scan_drive_spec:
  assumes ready: "scan_ready lower_str lower_chars f (snd drive)" and fits: "filter_fits f" and dist: "distinct (sf_resolved_ext_ids f)"
    and ext: "is_ext_only f \<Longrightarrow> sf_malformed f = None \<and> sf_deleted f = None"
    and plain: "\<not> sc_has_filters cfg \<Longrightarrow> filters_is_empty f \<and> sf_resolved_ext_ids f = [] \<and> sc_filter_mode cfg = FM_All"
  shows "\<exists>cs n. scan_drive_candidates lower_str lower_chars j drive f cfg = Some (cs, n)
    \<and> stands_for (sc_limit cfg) (sc_sort_desc cfg) cs (map as_candidate (entries j drive (sc_sort_column cfg)
        (filter (visible lower_str lower_chars f (sc_filter_mode cfg) (snd drive)) [0..<length (di_records (snd drive))])))"
    (is "\<exists>cs n. _ \<and> stands_for _ _ cs (map as_candidate (entries _ _ _ ?vis))")
proof -
  have inv: "index_inv (snd drive)" and times: "list_all time_fits (di_records (snd drive))" using ready by (simp_all add: scan_ready_def)
  let ?fast = "is_ext_only f \<and> sc_filter_mode cfg \<noteq> DirsOnly"
  have exts: "sf_extensions f \<noteq> []" if "?fast" using that by (simp add: is_ext_only_def)
  consider (ids) "?fast" "sf_resolved_ext_ids f \<noteq> []" | (none) "?fast" "sf_resolved_ext_ids f = []" | (full) "\<not> ?fast" by blast
  then show ?thesis
  proof cases
    case ids
    let ?es = "concat (map (\<lambda>e. filter (\<lambda>i. ext_candidate_passes (di_records (snd drive) ! i) (di_names (snd drive)) f (sc_filter_mode cfg))
       (records_with_ext (snd drive) e)) (sf_resolved_ext_ids f))"
    have "mset ?es = mset ?vis" using ids ext inv dist by (intro ext_scan_visible) auto
    then have "mset (map as_candidate (entries j drive (sc_sort_column cfg) ?es)) = mset (map as_candidate (entries j drive (sc_sort_column cfg) ?vis))"
      by (simp only: entries_def map_map mset_map)
    from stands_for_mset [OF drain_stands_for this] ids show ?thesis
      by (simp add: scan_drive_candidates_def Let_def scan_ext_fast_path_spec [OF inv])
  next
    case none
    have "\<not> visible lower_str lower_chars f (sc_filter_mode cfg) (snd drive) i" for i
      using none exts ready by (auto simp: scan_ready_def visible_def matches_record_def live_def list_all_length)
    then have "?vis = []" by simp
    then show ?thesis using none exts drain_stands_for [of cfg "[]"]
      by (simp add: scan_drive_candidates_def Let_def entries_def push_all_def)
  next
    case full
    from scan_full_from_spec [where k = 0 and rs = "di_records (snd drive)" and st = "drive_top_n_new cfg" and n = 0 and j = j, OF fits times, of cfg lower_str lower_chars]
    obtain n where "scan_full_records lower_str lower_chars j drive f cfg (drive_top_n_new cfg) =
        Some (push_all (entries j drive (sc_sort_column cfg) ?vis) (drive_top_n_new cfg), n)"
      using plain empty_filters_match by (auto simp: scan_full_records_def)
    then show ?thesis using full drain_stands_for [of cfg] by (auto simp: scan_drive_candidates_def Let_def)
  qed
qed

section \<open>The best of all drives\<close>

lemma sort_and_localise_spec:
  assumes "\<And>cs. mset (tie cs) = mset cs"
  shows "mset (sort_and_localise tie cs desc n) \<subseteq># mset cs
    \<and> sort (map (rank desc) (sort_and_localise tie cs desc n)) = smallest n (map (rank desc) cs)"
proof -
  define s where "s = (if desc then sort_key (\<lambda>(_, _, key). Reverse key) (tie cs) else sort_key (\<lambda>(_, _, key). key) (tie cs))"
  have "sorted (map (rank desc) s)"
  proof (cases desc)
    case True
    have "sorted (map (\<lambda>(_, _, key). Reverse key) s)" by (simp add: s_def True)
    then show ?thesis by (auto simp: sorted_map True less_eq_reverse_def split_beta elim!: sorted_wrt_mono_rel [rotated])
  next
    case False
    have "sorted (map (\<lambda>(_, _, key). key) s)" by (simp add: s_def False)
    then show ?thesis by (auto simp: sorted_map False split_beta elim!: sorted_wrt_mono_rel [rotated])
  qed
  moreover have ms: "mset s = mset cs" by (simp add: s_def assms)
  then have "mset (map (rank desc) s) = mset (map (rank desc) cs)" by simp
  ultimately have s: "sort (map (rank desc) cs) = map (rank desc) s" by (intro sort_unique)
  have loc: "mset (sort_and_localise tie cs desc n) = mset (if n \<ge> length cs then cs else take n s)"
    by (simp add: sort_and_localise_def Let_def assms s_def)
  have "mset (take n s) \<subseteq># mset s" by (metis append_take_drop_id mset_append mset_subset_eq_add_left)
  then have sub: "mset (sort_and_localise tie cs desc n) \<subseteq># mset cs" using loc ms by simp
  have len: "length s = length cs" using ms by (rule mset_eq_length)
  have "mset (map (rank desc) (sort_and_localise tie cs desc n)) = mset (smallest n (map (rank desc) cs))"
    using loc len by (simp add: smallest_def s take_map ms)
  then have "sort (map (rank desc) (sort_and_localise tie cs desc n)) = smallest n (map (rank desc) cs)"
    by (intro sort_unique) (simp_all add: smallest_def sorted_wrt_take)
  with sub show ?thesis by blast
qed

definition resolved :: "(bytes \<Rightarrow> bytes) \<Rightarrow> search_filters \<Rightarrow> drive_index \<Rightarrow> search_filters" where
  "resolved norm f d = resolve_ext_ids_for_drive norm d f"

definition all_candidates where
  "all_candidates lower_str lower_chars norm drives column mode f =
     concat (map (\<lambda>(j, drive). map as_candidate (entries j drive column
       (filter (visible lower_str lower_chars (resolved norm f (snd drive)) mode (snd drive)) [0..<length (di_records (snd drive))])))
       (enumerate 0 drives))"

lemma resolved_same [simp]:
  "is_ext_only (resolved norm f d) = is_ext_only f" "filters_is_empty (resolved norm f d) = filters_is_empty f"
  "filter_fits (resolved norm f d) = filter_fits f" "sf_malformed (resolved norm f d) = sf_malformed f" "sf_deleted (resolved norm f d) = sf_deleted f"
  "sf_extensions (resolved norm f d) = sf_extensions f" "sf_extensions f = [] \<Longrightarrow> sf_resolved_ext_ids (resolved norm f d) = []"
  "distinct (sf_resolved_ext_ids (resolved norm f d))"
  by (simp_all add: resolved_def resolve_ext_ids_for_drive_def is_ext_only_def filters_is_empty_def filter_fits_def resolve_ext_ids_def)

lemma scan_all_drives_spec:
  assumes "filter_fits f" and "is_ext_only f \<Longrightarrow> sf_malformed f = None \<and> sf_deleted f = None"
    and "list_all (\<lambda>(letter, d). scan_ready lower_str lower_chars (resolved norm f d) d) drives"
    and "sc_has_filters cfg \<longleftrightarrow> \<not> filters_is_empty f \<or> sc_filter_mode cfg \<noteq> FM_All"
  shows "\<exists>n cs. scan_all_drives_parallel lower_str lower_chars norm drives f cfg = Some (n, cs)
    \<and> stands_for (sc_limit cfg) (sc_sort_desc cfg) cs (all_candidates lower_str lower_chars norm drives (sc_sort_column cfg) (sc_filter_mode cfg) f)"
proof -
  define scan where "scan = (\<lambda>(j, drive). scan_drive_candidates lower_str lower_chars j drive (resolve_ext_ids_for_drive norm (snd drive) f) cfg)"
  define best where "best = (\<lambda>(j, drive). map as_candidate (entries j drive (sc_sort_column cfg)
    (filter (visible lower_str lower_chars (resolved norm f (snd drive)) (sc_filter_mode cfg) (snd drive)) [0..<length (di_records (snd drive))])))"
  have "\<exists>y. scan x = Some y \<and> stands_for (sc_limit cfg) (sc_sort_desc cfg) (fst y) (best x)" if "x \<in> set (enumerate 0 drives)" for x
  proof -
    obtain j drive where x: "x = (j, drive)" by (cases x) simp
    with that have "drive \<in> set drives" by (auto simp: in_set_enumerate_eq)
    with assms(3) have "scan_ready lower_str lower_chars (resolved norm f (snd drive)) (snd drive)" by (auto simp: list_all_iff)
    moreover have "sf_extensions f = []" if "\<not> sc_has_filters cfg" using that assms(4) by (simp add: filters_is_empty_def)
    ultimately obtain cs n where "scan_drive_candidates lower_str lower_chars j drive (resolved norm f (snd drive)) cfg = Some (cs, n)"
      "stands_for (sc_limit cfg) (sc_sort_desc cfg) cs (best x)"
      using scan_drive_spec [of lower_str lower_chars "resolved norm f (snd drive)" drive cfg j] assms by (auto simp: x best_def)
    then show ?thesis by (intro exI [of _ "(cs, n)"]) (simp add: x scan_def resolved_def)
  qed
  then have "\<exists>per. par_map scan (enumerate 0 drives) = Some per
      \<and> list_all2 (\<lambda>x y. stands_for (sc_limit cfg) (sc_sort_desc cfg) (fst y) (best x)) (enumerate 0 drives) per"
    by (rule par_map_spec)
  then obtain per where per: "par_map scan (enumerate 0 drives) = Some per"
    "list_all2 (\<lambda>x y. stands_for (sc_limit cfg) (sc_sort_desc cfg) (fst y) (best x)) (enumerate 0 drives) per" by blast
  have "list_all2 (stands_for (sc_limit cfg) (sc_sort_desc cfg)) (map fst per) (map best (enumerate 0 drives))"
    using per(2) by (simp add: list_all2_conv_all_nth)
  from stands_for_concat [OF this] per(1) show ?thesis
    by (auto simp: scan_all_drives_parallel_def scan_def [symmetric] all_candidates_def best_def)
qed

text \<open>
  C4. The search for everything finds the best files of all drives, as long as a filter that consists of an extension
  list alone, in the sense of \<open>is_ext_only\<close>, does not also ask for malformed names or for deleted files: the shortcut
  over the extension index tests neither (\<open>ext_shortcut_ignores_filters\<close>). Then, on drives whose index is up to date,
  whatever order the drives are scanned in and however ties are broken, the result is made of files that pass the
  filter and its sort keys are the first \<open>limit\<close> of the sorted keys of all files on all drives that pass it. The
  bounded heaps, the shortcut and the scan of a drive that has none of the wanted extensions lose nothing.
\<close>

theorem top_n_exact:
  assumes "filter_fits f" and "is_ext_only f \<Longrightarrow> sf_malformed f = None \<and> sf_deleted f = None"
    and "list_all (\<lambda>(letter, d). scan_ready lower_str lower_chars (resolved norm f d) d) drives"
    and "\<And>cs. mset (tie cs) = mset cs"
  shows "\<exists>result. top_n_candidates lower_str lower_chars norm tie drives limit column desc mode f = Some result
    \<and> mset result \<subseteq># mset (all_candidates lower_str lower_chars norm drives column mode f)
    \<and> sort (map (rank desc) result) = take limit (sort (map (rank desc) (all_candidates lower_str lower_chars norm drives column mode f)))"
proof -
  define cfg where "cfg = \<lparr>sc_limit = limit, sc_use_heap = (limit < 1000000), sc_sort_column = column, sc_sort_desc = desc,
    sc_filter_mode = mode, sc_has_filters = (\<not> filters_is_empty f \<or> mode \<noteq> FM_All)\<rparr>"
  obtain n cs where cs: "scan_all_drives_parallel lower_str lower_chars norm drives f cfg = Some (n, cs)"
    "stands_for limit desc cs (all_candidates lower_str lower_chars norm drives column mode f)"
    using scan_all_drives_spec [OF assms(1-3), of cfg] by (auto simp: cfg_def)
  then have "top_n_candidates lower_str lower_chars norm tie drives limit column desc mode f = Some (sort_and_localise tie cs desc limit)"
    by (simp add: top_n_candidates_def cfg_def Let_def)
  with sort_and_localise_spec [of tie cs desc limit, OF assms(4)] cs(2) show ?thesis
    by (auto simp: stands_for_def smallest_def [symmetric] dest: subset_mset.trans)
qed

theorem top_n_exact_witness:
  "\<exists>result. top_n_candidates id id id rev [(0x43, demo_aaa_drive)] 1 F_Size True FM_All search_filters_default = Some result
    \<and> sort (map (rank True) result) = take 1 (sort (map (rank True) (all_candidates id id id [(0x43, demo_aaa_drive)] F_Size FM_All search_filters_default)))"
proof -
  have "scan_ready id id (resolved id search_filters_default demo_aaa_drive) demo_aaa_drive"
    using demo_aaa_drive_inv
    by (simp add: scan_ready_def time_fits_def demo_aaa_def compact_record_default_def i64_min_def i64_max_def search_filters_default_def)
  then show ?thesis
    using top_n_exact [of search_filters_default id id id "[(0x43, demo_aaa_drive)]" rev 1 F_Size True FM_All]
    by (auto simp: filter_fits_def search_filters_default_def is_ext_only_def)
qed

text \<open>
  The shortcut over the extension index ignores two filters: a search by extension that also asks for
  malformed or for deleted files takes the shortcut, which tests neither, and gives the same candidates as
  the search without them.
\<close>

theorem ext_shortcut_ignores_filters:
  assumes "is_ext_only f" and "mode \<noteq> DirsOnly"
  shows "scan_drive_candidates lower_str lower_chars j drive (f\<lparr>sf_malformed := m, sf_deleted := del\<rparr>) (cfg\<lparr>sc_filter_mode := mode\<rparr>)
    = scan_drive_candidates lower_str lower_chars j drive f (cfg\<lparr>sc_filter_mode := mode\<rparr>)"
proof -
  have "is_ext_only (f\<lparr>sf_malformed := m, sf_deleted := del\<rparr>) \<and> sf_extensions f \<noteq> []" using assms(1) by (simp add: is_ext_only_def)
  moreover have pass: "ext_candidate_passes r names (f\<lparr>sf_malformed := m, sf_deleted := del\<rparr>) md = ext_candidate_passes r names f md" for r names md
    by (simp add: ext_candidate_passes_def)
  have "scan_ext_fast_path j drive (f\<lparr>sf_malformed := m, sf_deleted := del\<rparr>) c st = scan_ext_fast_path j drive f c st" for c st
    unfolding scan_ext_fast_path_def pass by simp
  ultimately show ?thesis using assms by (simp add: scan_drive_candidates_def Let_def)
qed

definition ext_c :: search_filters where "ext_c = search_filters_default\<lparr>sf_extensions := [[0x63]], sf_resolved_ext_ids := [1]\<rparr>"

definition size_cfg :: drive_scan_cfg where
  "size_cfg = \<lparr>sc_limit = 5, sc_use_heap = True, sc_sort_column = F_Size, sc_sort_desc = True, sc_filter_mode = FM_All, sc_has_filters = True\<rparr>"

theorem ext_shortcut_ignores_filters_witness:
  "scan_drive_candidates id id 0 (0x43, demo_aaa_drive) (ext_c\<lparr>sf_malformed := Some True, sf_deleted := None\<rparr>) (size_cfg\<lparr>sc_filter_mode := FilesOnly\<rparr>)
   = scan_drive_candidates id id 0 (0x43, demo_aaa_drive) ext_c (size_cfg\<lparr>sc_filter_mode := FilesOnly\<rparr>)"
  by (rule ext_shortcut_ignores_filters) (simp_all add: is_ext_only_def ext_c_def search_filters_default_def)

section \<open>Rows\<close>

text \<open>
  The rows of the chosen candidates. A worker keeps one pair of caches for each drive; a drive without
  caches yet has empty ones.
\<close>

definition stack_volume_prefix :: "u8 \<Rightarrow> bytes" where "stack_volume_prefix letter = [letter, 0x3A, 0x5C]"

fun resolve_chunk_from ::
  "(u8 \<times> drive_index) list \<Rightarrow> malformed_render \<Rightarrow> candidate list \<Rightarrow> (nat \<Rightarrow> dir_cache \<times> malformed_cache) \<Rightarrow> display_row list"
where
  "resolve_chunk_from drives render [] caches = []"
| "resolve_chunk_from drives render ((drive_idx, rec_idx, _) # chunk) caches =
     (case vec_get drives drive_idx of
        None \<Rightarrow> resolve_chunk_from drives render chunk caches
      | Some (letter, d) \<Rightarrow>
          (case vec_get (di_records d) rec_idx of
             None \<Rightarrow> resolve_chunk_from drives render chunk caches
           | Some r \<Rightarrow>
               if cr_name_len r = 0 then resolve_chunk_from drives render chunk caches
               else case caches drive_idx of (cache, mal_cache) \<Rightarrow>
                 (case resolve_path_cached_with_malformed d rec_idx (stack_volume_prefix letter) cache mal_cache render of
                    ((path, path_malformed), cache', mal_cache') \<Rightarrow>
                      make_display_row rec_idx r (record_name r (di_names d)) path (row_forensics_of r (di_names d) path_malformed)
                        # resolve_chunk_from drives render chunk (caches(drive_idx := (cache', mal_cache'))))))"

definition resolve_chunk :: "(u8 \<times> drive_index) list \<Rightarrow> candidate list \<Rightarrow> malformed_render \<Rightarrow> display_row list" where
  "resolve_chunk drives chunk render = resolve_chunk_from drives render chunk (\<lambda>_. (Map.empty, Map.empty))"

definition resolve_candidates_to_rows :: "(u8 \<times> drive_index) list \<Rightarrow> candidate list \<Rightarrow> malformed_render \<Rightarrow> display_row list" where
  "resolve_candidates_to_rows drives candidates render =
     concat (map (\<lambda>chunk. resolve_chunk drives chunk render) (chunks RESOLVE_CHUNK_SIZE candidates))"

fun candidate_live :: "(u8 \<times> drive_index) list \<Rightarrow> candidate \<Rightarrow> bool" where
  "candidate_live drives (j, i, _) \<longleftrightarrow> j < length drives \<and> live (di_records (snd (drives ! j))) i"

fun candidate_row :: "(u8 \<times> drive_index) list \<Rightarrow> malformed_render \<Rightarrow> candidate \<Rightarrow> display_row" where
  "candidate_row drives render (j, i, _) =
     (case drives ! j of (letter, d) \<Rightarrow> row_at d i (resolve_path d i (stack_volume_prefix letter) render) (bad_line d (ancestry d i)))"

fun candidate_resolvable :: "(u8 \<times> drive_index) list \<Rightarrow> candidate \<Rightarrow> bool" where
  "candidate_resolvable drives (j, i, _) \<longleftrightarrow> resolvable (snd (drives ! j)) i"

definition caches_ok :: "(u8 \<times> drive_index) list \<Rightarrow> malformed_render \<Rightarrow> (nat \<Rightarrow> dir_cache \<times> malformed_cache) \<Rightarrow> bool" where
  "caches_ok drives render caches \<longleftrightarrow> (\<forall>j. case drives ! j of (letter, d) \<Rightarrow> case caches j of (cache, mal_cache) \<Rightarrow>
     dir_cache_ok d (stack_volume_prefix letter) render cache \<and> mal_cache_ok d cache mal_cache)"

lemma resolve_chunk_from_exact:
  assumes "caches_ok drives render caches" and "list_all (candidate_resolvable drives) (filter (candidate_live drives) chunk)"
  shows "resolve_chunk_from drives render chunk caches = map (candidate_row drives render) (filter (candidate_live drives) chunk)"
  using assms
proof (induction chunk arbitrary: caches)
  case (Cons c chunk)
  obtain j i k where c: "c = (j, i, k)" by (cases c) simp
  show ?case
  proof (cases "candidate_live drives c")
    case False
    with Cons show ?thesis by (auto simp: c vec_get_def live_def split: prod.split)
  next
    case True
    obtain letter d where drive: "drives ! j = (letter, d)" by (cases "drives ! j")
    obtain cache mal where caches: "caches j = (cache, mal)" by (cases "caches j")
    have ok: "dir_cache_ok d (stack_volume_prefix letter) render cache \<and> mal_cache_ok d cache mal"
      using Cons.prems(1) [unfolded caches_ok_def, rule_format, of j] by (simp add: caches drive)
    have "resolvable d i" using Cons.prems(2) True by (simp add: c drive)
    with ok malformed_cached.exact [of d "stack_volume_prefix letter" render "(cache, mal)" i]
      malformed_cached.keeps_valid [of d "stack_volume_prefix letter" render "(cache, mal)" i]
    obtain cache' mal' where r: "resolve_path_cached_with_malformed d i (stack_volume_prefix letter) cache mal render
        = ((resolve_path d i (stack_volume_prefix letter) render, bad_line d (ancestry d i)), cache', mal')"
      "dir_cache_ok d (stack_volume_prefix letter) render cache'" "mal_cache_ok d cache' mal'"
      by (cases "resolve_path_cached_with_malformed d i (stack_volume_prefix letter) cache mal render") auto
    have "caches_ok drives render (caches(j := (cache', mal')))"
      using Cons.prems(1) r(2,3) by (auto simp: caches_ok_def drive)
    note ih = Cons.IH [OF this]
    have "list_all (candidate_resolvable drives) (filter (candidate_live drives) chunk)" using Cons.prems(2) True by simp
    from ih [OF this] True r(1) show ?thesis by (simp add: c drive caches vec_get_def live_def row_at_def Let_def fun_upd_def)
  qed
qed simp

text \<open>
  The rows of a search for everything are those of the chosen candidates, in order, each with the path
  the plain walk gives, for any split into chunks. Unlike the row builder of the other searches this one
  asks only whether the record has a name: a file with a malformed name is shown.
\<close>

theorem candidate_rows_exact:
  assumes "list_all (candidate_resolvable drives) (filter (candidate_live drives) cs)"
  shows "resolve_candidates_to_rows drives cs render = map (candidate_row drives render) (filter (candidate_live drives) cs)"
proof -
  have pos: "0 < RESOLVE_CHUNK_SIZE" by (simp add: RESOLVE_CHUNK_SIZE_def)
  have "resolve_chunk drives ch render = map (candidate_row drives render) (filter (candidate_live drives) ch)"
    if "ch \<in> set (chunks RESOLVE_CHUNK_SIZE cs)" for ch
    unfolding resolve_chunk_def using assms chunks_in [OF pos that]
    by (intro resolve_chunk_from_exact) (auto simp: caches_ok_def dir_cache_ok_def mal_cache_ok_def list_all_iff split: prod.split)
  then have "resolve_candidates_to_rows drives cs render
      = concat (map (\<lambda>ch. map (candidate_row drives render) (filter (candidate_live drives) ch)) (chunks RESOLVE_CHUNK_SIZE cs))"
    unfolding resolve_candidates_to_rows_def by (metis (no_types, lifting) map_cong)
  also have "\<dots> = map (candidate_row drives render) (filter (candidate_live drives) cs)"
    by (subst (2) concat_chunks [OF pos, symmetric]) (simp add: map_concat filter_concat comp_def)
  finally show ?thesis .
qed

theorem candidate_rows_exact_witness:
  "map dr_record_index (resolve_candidates_to_rows [(0x43, sample_drive)] [(0, 2, 7), (0, 1, 5)] Lossy) = [2, 1]"
proof -
  have "candidate_live [(0x43, sample_drive)] (0, i, k)" if "i \<in> {1, 2}" for i k
    using that by (auto simp: live_def sample_drive_def)
  moreover have "candidate_resolvable [(0x43, sample_drive)] (0, i, k)" if "i \<in> {1, 2}" for i k
    using that sample_resolvable by auto
  ultimately show ?thesis
    using candidate_rows_exact [of "[(0x43, sample_drive)]" "[(0, 2, 7), (0, 1, 5)]" Lossy]
    by (simp add: row_at_def make_display_row_def Let_def)
qed

end
