(* ===== verification/Search_Query.thy ===== *)
theory Search_Query
  imports Top_N
begin

text \<open>
  The search of one drive for a pattern (\<open>crates/uffs-core/src/search/query/mod.rs\<close>) and for a prefix
  (\<open>query/prefix_search.rs\<close>): the choice of the needle for the trigram index, the test of a name, the collection
  of the matching records up to the limit, and the descent into matching directories.

  A needle is a list of scalar values. The regular expression engine and the lower-casing of the standard
  library are arguments. The stack of the descent may never run empty when the parent links form a cycle; its
  loop is a partial function. The theory also lifts the byte matcher of names to characters, since names and
  patterns are UTF-8: a suffix of the bytes of a name that starts inside a character matches no letter of a pattern.
\<close>

section \<open>Needles\<close>

text \<open>\<open>max_by_key\<close> gives the last of the longest.\<close>

fun last_longest :: "str \<Rightarrow> str list \<Rightarrow> str" where
  "last_longest best [] = best"
| "last_longest best (s # ss) = last_longest (if length (utf8_of best) \<le> length (utf8_of s) then s else best) ss"

definition split_wild :: "str \<Rightarrow> str list" where
  "split_wild needle = concat (map (split_at 0x3F) (split_at 0x2A needle))"

definition extract_trigram_needle :: "str \<Rightarrow> bool \<Rightarrow> bool \<Rightarrow> str" where
  "extract_trigram_needle needle is_glob is_or =
     (if is_or then []
      else if is_glob then (case split_wild needle of [] \<Rightarrow> [] | s # ss \<Rightarrow> last_longest s ss)
      else needle)"

section \<open>Collecting\<close>

type_synonym name_test = "bytes \<Rightarrow> bool rust"

definition keeps ::
  "(bytes \<Rightarrow> bytes) \<Rightarrow> (bytes \<Rightarrow> bytes) \<Rightarrow> drive_index \<Rightarrow> name_test \<Rightarrow> search_filters \<Rightarrow> compact_record \<Rightarrow> bool rust"
where
  "keeps lower_str lower_chars d matches f r = do {
     hit \<leftarrow> matches (record_name r (di_names d));
     if hit then matches_record lower_str lower_chars f r (di_names d) (di_fold d) else Some False
   }"

text \<open>The two loops of \<open>collect_match_indices\<close>, over all records and over the candidates; \<open>out\<close> is what was found.\<close>

fun collect_loop :: "(compact_record \<Rightarrow> bool rust) \<Rightarrow> drive_index \<Rightarrow> nat \<Rightarrow> nat list \<Rightarrow> nat list \<Rightarrow> nat list rust" where
  "collect_loop keep d limit [] out = Some out"
| "collect_loop keep d limit (idx # indices) out =
     (if length out \<ge> limit then Some out
      else case vec_get (di_records d) idx of
             None \<Rightarrow> collect_loop keep d limit indices out
           | Some r \<Rightarrow> do {
               hit \<leftarrow> keep r;
               collect_loop keep d limit indices (if hit then out @ [len_to_u32 idx] else out)
             })"

definition collect_match_indices ::
  "(bytes \<Rightarrow> bytes) \<Rightarrow> (bytes \<Rightarrow> bytes) \<Rightarrow> drive_index \<Rightarrow> nat list option \<Rightarrow> nat \<Rightarrow> name_test \<Rightarrow> search_filters \<Rightarrow> nat list rust"
where
  "collect_match_indices lower_str lower_chars d candidates limit matches f =
     collect_loop (keeps lower_str lower_chars d matches f) d limit
       (case candidates of None \<Rightarrow> [0..<length (di_records d)] | Some cs \<Rightarrow> cs) []"

section \<open>The search for a pattern\<close>

definition is_glob_needle :: "str \<Rightarrow> bool" where "is_glob_needle needle \<longleftrightarrow> 0x2A \<in> set needle \<or> 0x3F \<in> set needle"

definition is_or_needle :: "str \<Rightarrow> bool" where "is_or_needle needle \<longleftrightarrow> 0x7C \<in> set needle"

definition name_test_for :: "case_fold \<Rightarrow> str \<Rightarrow> bool \<Rightarrow> bool \<Rightarrow> name_test" where
  "name_test_for t needle case_sensitive whole_word name =
     (let is_glob = is_glob_needle needle; is_or = is_or_needle needle;
          needle_folded = (if case_sensitive then utf8_of needle else fold_into t needle);
          simple_substring = (\<not> is_glob \<and> \<not> is_or \<and> \<not> whole_word \<and> \<not> case_sensitive)
      in if name = [] \<or> name = [0x2E] then Some False
         else if whole_word then
           (let shown = (if case_sensitive then name else fold_into t (str_chars name))
            in if is_glob \<or> is_or then name_matches shown needle_folded else Some (shown = needle_folded))
         else if simple_substring then Some (sublist needle_folded (fold_into t (str_chars name)))
         else if case_sensitive then name_matches name (utf8_of needle)
         else name_matches (fold_into t (str_chars name)) needle_folded)"

text \<open>The depth-first descent: the stack of \<open>expand_directory_descendants\<close> and the indices it finds.\<close>

fun push_dirs :: "drive_index \<Rightarrow> nat list \<Rightarrow> nat list \<Rightarrow> nat list" where
  "push_dirs d [] stack = stack"
| "push_dirs d (c # cs) stack =
     push_dirs d cs (case vec_get (di_records d) c of Some r \<Rightarrow> if is_directory_record r then c # stack else stack | None \<Rightarrow> stack)"

partial_function (option) descend :: "drive_index \<Rightarrow> nat list \<Rightarrow> nat list \<Rightarrow> nat list option" where
  [code]: "descend d stack extra =
     (case stack of
        [] \<Rightarrow> Some extra
      | dir_idx # rest \<Rightarrow>
          (let children = children_of_record d dir_idx
           in descend d (push_dirs d children rest) (extra @ children)))"

fun descend_all :: "drive_index \<Rightarrow> nat list \<Rightarrow> nat list \<Rightarrow> nat list option" where
  "descend_all d [] extra = Some extra"
| "descend_all d (idx # indices) extra =
     (case vec_get (di_records d) idx of
        Some r \<Rightarrow> if is_directory_record r then do { extra' \<leftarrow> descend d [idx] extra; descend_all d indices extra' } else descend_all d indices extra
      | None \<Rightarrow> descend_all d indices extra)"

definition expand_directory_descendants :: "drive_index \<Rightarrow> nat list \<Rightarrow> nat list option" where
  "expand_directory_descendants d indices = do {
     extra \<leftarrow> descend_all d indices [];
     Some (if extra = [] then indices else remdups (sort (indices @ extra)))
   }"

definition search_compact_indices where
  "search_compact_indices lower_str lower_chars norm d needle limit case_sensitive whole_word match_path f =
     (let trigram_needle = extract_trigram_needle needle (is_glob_needle needle) (is_or_needle needle);
          candidates = (if \<not> case_sensitive \<and> length (utf8_of trigram_needle) \<ge> 3 then trigram_search d trigram_needle else None)
      in do {
        match_indices \<leftarrow> collect_match_indices lower_str lower_chars d candidates limit
          (name_test_for (di_fold d) needle case_sensitive whole_word) (resolve_ext_ids_for_drive norm d f);
        (if match_path \<and> match_indices \<noteq> [] then expand_directory_descendants d match_indices else Some match_indices)
      })"

definition search_compact_drive where
  "search_compact_drive lower_str lower_chars norm drive needle limit case_sensitive whole_word match_path f =
     (if needle = [] then Some []
      else do {
        match_indices \<leftarrow> search_compact_indices lower_str lower_chars norm (snd drive) needle limit case_sensitive whole_word match_path f;
        Some (indices_to_rows (snd drive) match_indices (stack_volume_prefix (fst drive)) (malformed_render_of f))
      })"

definition search_compact_drive_regex where
  "search_compact_drive_regex lower_str lower_chars norm is_match drive limit f =
     (let d = snd drive in do {
        match_indices \<leftarrow> collect_match_indices lower_str lower_chars d None limit
          (\<lambda>name. Some (name \<noteq> [] \<and> is_match name)) (resolve_ext_ids_for_drive norm d f);
        Some (indices_to_rows d match_indices (stack_volume_prefix (fst drive)) (malformed_render_of f))
      })"

section \<open>The search for a prefix\<close>

text \<open>The first three bytes, when they end at a character, and the whole prefix otherwise.\<close>

fun chars_of_bytes :: "nat \<Rightarrow> str \<Rightarrow> str option" where
  "chars_of_bytes n [] = (if n = 0 then Some [] else None)"
| "chars_of_bytes n (c # cs) =
     (if n = 0 then Some []
      else if length (encode_utf8 c) \<le> n then map_option (Cons c) (chars_of_bytes (n - length (encode_utf8 c)) cs)
      else None)"

definition prefix_needle :: "str \<Rightarrow> str" where
  "prefix_needle pre = (case chars_of_bytes (min (length (utf8_of pre)) 3) pre of Some s \<Rightarrow> s | None \<Rightarrow> pre)"

fun prefix_loop :: "(compact_record \<Rightarrow> bool rust) \<Rightarrow> drive_index \<Rightarrow> nat \<Rightarrow> nat list \<Rightarrow> nat list \<Rightarrow> nat list rust" where
  "prefix_loop keep d limit [] out = Some out"
| "prefix_loop keep d limit (idx # indices) out =
     (case vec_get (di_records d) idx of
        None \<Rightarrow> prefix_loop keep d limit indices out
      | Some r \<Rightarrow> do {
          hit \<leftarrow> keep r;
          (if hit then (if length (out @ [idx]) \<ge> limit then Some (out @ [idx]) else prefix_loop keep d limit indices (out @ [idx]))
           else prefix_loop keep d limit indices out)
        })"

definition prefix_test :: "case_fold \<Rightarrow> str \<Rightarrow> bool \<Rightarrow> name_test" where
  "prefix_test t pre case_sensitive name =
     Some (name \<noteq> [] \<and> (if case_sensitive then prefix (utf8_of pre) name else prefix (fold_into t pre) (fold_into t (str_chars name))))"

definition search_compact_drive_prefix where
  "search_compact_drive_prefix lower_str lower_chars norm drive pre limit case_sensitive f =
     (let d = snd drive in do {
        match_indices \<leftarrow> (case trigram_search d (prefix_needle pre) of
            None \<Rightarrow> Some []
          | Some cs \<Rightarrow> prefix_loop (keeps lower_str lower_chars d (prefix_test (di_fold d) pre case_sensitive) (resolve_ext_ids_for_drive norm d f)) d limit cs []);
        Some (indices_to_rows d match_indices (stack_volume_prefix (fst drive)) (malformed_render_of f))
      })"

section \<open>UTF-8 keeps substrings\<close>

lemma cont_byte_of_nat: "n < 64 \<Longrightarrow> cont_byte (of_nat (0x80 + n))"
  using unat_of_nat_byte [of "0x80 + n"] by (simp only: cont_byte_def) simp

lemma lead_byte_of_nat: "0xC0 \<le> n \<Longrightarrow> n < 0x100 \<Longrightarrow> \<not> cont_byte (of_nat n)" "n < 0x80 \<Longrightarrow> \<not> cont_byte (of_nat n)"
  using unat_of_nat_byte [of n] by (simp_all only: cont_byte_def) simp_all

lemma encode_utf8_lead:
  assumes "is_scalar c"
  shows "\<exists>b cs. encode_utf8 c = b # cs \<and> \<not> cont_byte b \<and> list_all cont_byte cs"
proof -
  have c: "c < 0x110000" using assms by (auto simp: is_scalar_def)
  have m: "c mod 64 < 64" "c div 64 mod 64 < 64" "c div 4096 mod 64 < 64" by simp_all
  consider "c < 0x80" | "\<not> c < 0x80" "c < 0x800" | "\<not> c < 0x800" "c < 0x10000" | "\<not> c < 0x10000" by linarith
  then show ?thesis
  proof cases
    case 1
    then show ?thesis using lead_byte_of_nat(2) [of c] by (simp add: encode_utf8_def)
  next
    case 2
    then have "\<not> cont_byte (of_nat (0xC0 + c div 64))" by (intro lead_byte_of_nat(1)) auto
    then show ?thesis using 2 cont_byte_of_nat [OF m(1)] by (simp only: encode_utf8_def if_True if_False) simp
  next
    case 3
    then have "\<not> cont_byte (of_nat (0xE0 + c div 4096))" by (intro lead_byte_of_nat(1)) auto
    moreover have "\<not> c < 0x80" using 3 by simp
    ultimately show ?thesis using 3 cont_byte_of_nat [OF m(1)] cont_byte_of_nat [OF m(2)] by (simp only: encode_utf8_def if_True if_False) simp
  next
    case 4
    then have "\<not> cont_byte (of_nat (0xF0 + c div 262144))" using c by (intro lead_byte_of_nat(1)) auto
    moreover have "\<not> c < 0x80" "\<not> c < 0x800" using 4 by simp_all
    ultimately show ?thesis using 4 cont_byte_of_nat [OF m(1)] cont_byte_of_nat [OF m(2)] cont_byte_of_nat [OF m(3)]
      by (simp only: encode_utf8_def if_True if_False) simp
  qed
qed

lemma utf8_of_Cons [simp]: "utf8_of (x # xs) = encode_utf8 x @ utf8_of xs" and utf8_of_Nil [simp]: "utf8_of [] = []"
  by (simp_all add: utf8_of_def)

lemma utf8_prefix:
  "list_all is_scalar xs \<Longrightarrow> list_all is_scalar ys \<Longrightarrow> prefix (utf8_of xs) (utf8_of ys) \<Longrightarrow> prefix xs ys"
proof (induction xs arbitrary: ys)
  case (Cons x xs)
  from Cons.prems obtain zs where zs: "utf8_of ys = encode_utf8 x @ utf8_of xs @ zs" by (auto simp: prefix_def)
  have x: "is_scalar x" using Cons.prems by simp
  show ?case
  proof (cases ys)
    case Nil
    with zs encode_utf8_lead [OF x] show ?thesis by auto
  next
    case (Cons y ys')
    then have y: "is_scalar y" using \<open>list_all is_scalar ys\<close> by simp
    from zs Cons utf8_next_encode [OF x, of "utf8_of xs @ zs"] utf8_next_encode [OF y, of "utf8_of ys'"]
    have "y = x" "utf8_of ys' = utf8_of xs @ zs" by simp_all
    with Cons.IH [of ys'] Cons.prems Cons show ?thesis by (simp add: prefix_def)
  qed
qed simp

lemma sublist_skip:
  "list_all cont_byte cs \<Longrightarrow> A \<noteq> [] \<Longrightarrow> \<not> cont_byte (hd A) \<Longrightarrow> sublist A (cs @ R) \<Longrightarrow> sublist A R"
proof (induction cs)
  case (Cons c cs)
  then have "\<not> prefix A (c # cs @ R)" by (cases A) auto
  with Cons show ?case by (simp add: sublist_Cons_right)
qed simp

lemma utf8_sublist:
  assumes "list_all is_scalar xs" and "list_all is_scalar ys" and "sublist (utf8_of xs) (utf8_of ys)"
  shows "sublist xs ys"
proof (cases xs)
  case (Cons x xs')
  obtain b cs where b: "utf8_of xs = b # cs" "\<not> cont_byte b"
  proof -
    obtain b cs where "encode_utf8 x = b # cs" "\<not> cont_byte b" using encode_utf8_lead [of x] assms(1) Cons by auto
    then show thesis using that [of b "cs @ utf8_of xs'"] Cons by simp
  qed
  show ?thesis using assms(2,3)
  proof (induction ys)
    case (Cons y ys)
    obtain b' cs' where y: "encode_utf8 y = b' # cs'" "list_all cont_byte cs'" using encode_utf8_lead [of y] Cons.prems(1) by auto
    from Cons.prems(2) have "prefix (utf8_of xs) (utf8_of (y # ys)) \<or> sublist (utf8_of xs) (cs' @ utf8_of ys)"
      by (simp add: y sublist_Cons_right)
    then show ?case
    proof
      assume "prefix (utf8_of xs) (utf8_of (y # ys))"
      then have "prefix xs (y # ys)" using utf8_prefix assms(1) Cons.prems(1) by blast
      then show ?thesis by (rule prefix_imp_sublist)
    next
      assume "sublist (utf8_of xs) (cs' @ utf8_of ys)"
      then have "sublist (utf8_of xs) (utf8_of ys)" using sublist_skip [OF y(2)] b by simp
      then show ?thesis using Cons by (simp add: sublist_Cons_right)
    qed
  qed (use b in simp)
qed simp

lemma utf8_next_scalar: "utf8_next bs = Some (c, r) \<Longrightarrow> is_scalar c"
  apply (cases bs; simp add: Let_def is_scalar_def cont_byte_def utf8_second_ok_def split: if_splits list.splits)
  apply arith+
  done

lemma utf8_chars_scalar: "utf8_chars bs = Some cs \<Longrightarrow> list_all is_scalar cs"
proof (induction bs arbitrary: cs rule: utf8_chars.induct)
  case (1 bs)
  show ?case
  proof (cases "bs = []")
    case False
    with "1.prems" obtain c r cs' where "utf8_next bs = Some (c, r)" "utf8_chars r = Some cs'" "cs = c # cs'"
      by (subst (asm) utf8_chars.simps) (auto split: option.splits)
    with "1.IH" [OF False] utf8_next_scalar show ?thesis by simp
  qed (use "1.prems" in simp)
qed

lemma str_chars_scalar: "list_all is_scalar (str_chars s)"
  using utf8_chars_scalar by (auto simp: str_chars_def split: option.split)

lemma fold_into_utf8:
  assumes "upcase_ok t" and "list_all is_scalar name"
  shows "fold_into t name = utf8_of (map (fold_scalar t) name)" and "list_all is_scalar (map (fold_scalar t) name)"
proof -
  have sc: "list_all is_scalar (map (fold_scalar t) name)" using fold_bytes_encode(1) [OF assms(1)] assms(2) by (auto simp: list_all_iff)
  have "concat (map (fold_bytes t) name) = utf8_of (map (fold_scalar t) name)"
    using fold_bytes_encode(2) [OF assms(1)] assms(2) by (simp add: utf8_of_def list_all_iff comp_def cong: map_cong)
  moreover have "utf8_valid (utf8_of (map (fold_scalar t) name))"
    using utf8_chars_encode [of "map (fold_scalar t) name"] sc by (simp add: utf8_of_def utf8_valid_def list_all_iff)
  ultimately show "fold_into t name = utf8_of (map (fold_scalar t) name)" "list_all is_scalar (map (fold_scalar t) name)"
    using sc by (simp_all add: fold_into_def Let_def)
qed

lemma fold_char_scalar: "fold_char t c = of_nat (fold_scalar t c)"
proof (cases "c < 0x10000")
  case False
  have "(of_nat (c mod 0x10000) :: u16) = of_nat c" by (simp add: word_of_nat_eq_iff take_bit_eq_mod)
  then show ?thesis using False by (simp add: fold_scalar_def fold_char_def)
qed (simp add: fold_scalar_def)

text \<open>A folded needle inside a folded name, byte by byte, is inside it letter by letter.\<close>

lemma folded_sublist:
  assumes "upcase_ok t" and "list_all is_scalar needle" and "list_all is_scalar name" and "sublist (fold_into t needle) (fold_into t name)"
  shows "sublist (map (fold_char t) needle) (map (fold_char t) name)"
proof -
  have "sublist (map (fold_scalar t) needle) (map (fold_scalar t) name)"
    using utf8_sublist fold_into_utf8 [OF assms(1,2)] fold_into_utf8 [OF assms(1,3)] assms(4) by simp
  from map_mono_sublist [OF this, of of_nat] show ?thesis unfolding map_map comp_def fold_char_scalar .
qed

section \<open>What a name that matches contains\<close>

text \<open>The folding table keeps the wildcards and the bar apart from all letters.\<close>

definition wild_ok :: "case_fold \<Rightarrow> bool" where
  "wild_ok t \<longleftrightarrow> list_all (\<lambda>(i, u). list_all (\<lambda>w. (unat u = w) = (i = w)) [0x2A, 0x3F, 0x7C]) (enumerate 0 t)"

lemma fold_scalar_wild:
  assumes "wild_ok t" and "w \<in> {0x2A, 0x3F, 0x7C}"
  shows "fold_scalar t c = w \<longleftrightarrow> c = w"
proof (cases "c < 0x10000 \<and> c < length t")
  case True
  then have "(c, t ! c) \<in> set (enumerate 0 t)" by (simp add: in_set_enumerate_eq)
  with assms True show ?thesis unfolding wild_ok_def list_all_iff by (fastforce simp: fold_scalar_def fold_char_def vec_get_def)
next
  case False
  then show ?thesis by (auto simp: fold_scalar_def fold_char_def vec_get_def unat_of_nat take_bit_nat_eq_self)
qed

lemma byte_inj: "m < 256 \<Longrightarrow> n < 256 \<Longrightarrow> (of_nat m :: u8) = of_nat n \<longleftrightarrow> m = n"
  by (metis unat_of_nat_byte)

lemma encode_ascii:
  assumes "is_scalar c" and "w < 0x80"
  shows "of_nat w \<in> set (encode_utf8 c) \<longleftrightarrow> c = w"
proof -
  have high: "\<not> cont_byte (of_nat w)" using assms(2) by (rule lead_byte_of_nat(2))
  have neq: "(of_nat n :: u8) \<noteq> of_nat w" if "0x80 \<le> n" "n < 0x100" for n
    using that assms(2) byte_inj [of n w] by simp
  obtain b cs where bcs: "encode_utf8 c = b # cs" "list_all cont_byte cs" using encode_utf8_lead [OF assms(1)] by auto
  then have "of_nat w \<notin> set cs" using high by (auto simp: list_all_iff)
  then have mem: "of_nat w \<in> set (encode_utf8 c) \<longleftrightarrow> b = of_nat w" using bcs(1) by auto
  show ?thesis
  proof (cases "c < 0x80")
    case True
    then have "b = of_nat c" using bcs(1) by (simp add: encode_utf8_def)
    moreover have "(of_nat c :: u8) = of_nat w \<longleftrightarrow> c = w"
      using True assms(2) byte_inj [of c w] by simp
    ultimately show ?thesis using mem by simp
  next
    case False
    have c: "c < 0x110000" using assms(1) by (auto simp: is_scalar_def)
    define n where "n = (if c < 0x800 then 0xC0 + c div 64 else if c < 0x10000 then 0xE0 + c div 4096 else 0xF0 + c div 262144)"
    have "encode_utf8 c = of_nat n # tl (encode_utf8 c)" using False by (simp add: encode_utf8_def n_def)
    then have "b = of_nat n" using bcs(1) by simp
    moreover have "0x80 \<le> n \<and> n < 0x100" using c by (auto simp: n_def)
    ultimately have "b \<noteq> of_nat w" using neq [of n] by simp
    moreover have "c \<noteq> w" using False assms(2) by linarith
    ultimately show ?thesis using mem by simp
  qed
qed

lemma fold_into_wild:
  assumes "upcase_ok t" and "wild_ok t" and "list_all is_scalar s" and "w \<in> {0x2A, 0x3F, 0x7C}"
  shows "of_nat w \<in> set (fold_into t s) \<longleftrightarrow> w \<in> set s"
proof -
  note f = fold_into_utf8 [OF assms(1,3)]
  have "of_nat w \<in> set (fold_into t s) \<longleftrightarrow> (\<exists>c \<in> set s. of_nat w \<in> set (encode_utf8 (fold_scalar t c)))"
    unfolding f(1) by (simp add: utf8_of_def)
  also have "\<dots> \<longleftrightarrow> (\<exists>c \<in> set s. fold_scalar t c = w)"
    using f(2) assms(4) by (intro bex_cong refl encode_ascii) (auto simp: list_all_iff)
  also have "\<dots> \<longleftrightarrow> w \<in> set s" using fold_scalar_wild [OF assms(2,4)] by auto
  finally show ?thesis .
qed

lemma globs_contains: "globs (ps @ map Lit w @ qs) xs \<Longrightarrow> sublist w xs"
proof (induction ps xs rule: globs.induct)
  case (1 xs)
  have "globs (map Lit w @ qs) ys \<Longrightarrow> prefix w ys" for ys :: "'a list"
  proof (induction w arbitrary: ys)
    case (Cons a w)
    then show ?case by (cases ys) auto
  qed simp
  from this [of xs] 1 show ?case by (simp add: prefix_imp_sublist)
qed (auto simp: sublist_Cons_right)

lemma split_at_first: "split_at c xs = y # ys \<Longrightarrow> prefix y xs"
  by (induction xs arbitrary: y ys) (auto split: if_splits list.splits)

lemma split_at_piece: "s \<in> set (split_at c xs) \<Longrightarrow> sublist s xs \<and> c \<notin> set s"
proof (induction xs arbitrary: s)
  case (Cons x xs)
  obtain y ys where ys: "split_at c xs = y # ys" using split_at_ne by (metis list.exhaust)
  with split_at_first [OF ys] Cons show ?case
    by (auto simp: sublist_Cons_right split: if_splits)
qed simp

lemma last_longest_in: "last_longest best ss \<in> insert best (set ss)"
  by (induction ss arbitrary: best) auto

lemma split_wild_piece:
  assumes "s \<in> set (split_wild needle)"
  shows "sublist s needle" "0x2A \<notin> set s" "0x3F \<notin> set s"
proof -
  obtain p where p: "p \<in> set (split_at 0x2A needle)" "s \<in> set (split_at 0x3F p)" using assms by (auto simp: split_wild_def)
  note a = split_at_piece [OF p(1)] split_at_piece [OF p(2)]
  then show "sublist s needle" "0x2A \<notin> set s" "0x3F \<notin> set s"
    using sublist_order.order.trans set_mono_sublist by (blast+)
qed

lemma trigram_needle_piece: "extract_trigram_needle needle True False \<in> set (split_wild needle)"
proof -
  have "split_wild needle \<noteq> []" using split_at_ne [of "0x2A" needle] by (auto simp: split_wild_def split_at_ne neq_Nil_conv)
  then show ?thesis using last_longest_in by (auto simp: extract_trigram_needle_def split: list.split)
qed

lemma name_matches_plain:
  assumes "name_matches name p = Some True" and "0x7C \<notin> set p" and "0x2A \<notin> set name" and "length p < u64_max"
  shows "wants p name"
proof (cases "p = [0x2A]")
  case True
  then show ?thesis by (simp add: wants_def has_wildcard_def tokens_def token_of_def globs_single_star)
next
  case False
  then show ?thesis using assms name_matches_single_wants [OF assms(3,4)] by (auto simp: name_matches_def split: if_splits)
qed

lemma fold_into_append:
  assumes "upcase_ok t" and "list_all is_scalar (a @ b)"
  shows "fold_into t (a @ b) = fold_into t a @ fold_into t b"
  using assms by (simp add: fold_into_utf8 utf8_of_def)

text \<open>A name that passes the test contains the needle of the trigram index.\<close>

lemma name_test_contains:
  assumes up: "upcase_ok t" and wild: "wild_ok t" and sc: "list_all is_scalar needle" and nor: "\<not> is_or_needle needle"
    and star: "0x2A \<notin> set (str_chars name)" and len: "length (fold_into t needle) < u64_max"
    and hit: "name_test_for t needle False ww name = Some True"
  shows "sublist (fold_into t (extract_trigram_needle needle (is_glob_needle needle) False)) (fold_into t (str_chars name))"
proof (cases "is_glob_needle needle")
  case False
  with hit nor show ?thesis by (auto simp: name_test_for_def extract_trigram_needle_def Let_def split: if_splits)
next
  case True
  let ?s = "extract_trigram_needle needle True False"
  note piece = split_wild_piece [OF trigram_needle_piece [of needle]]
  from piece(1) obtain A B where AB: "needle = A @ ?s @ B" by (auto simp: sublist_def)
  have scs: "list_all is_scalar A" "list_all is_scalar (?s @ B)" "list_all is_scalar ?s" "list_all is_scalar B"
    using sc by (subst (asm) AB, simp)+
  have "fold_into t needle = fold_into t A @ fold_into t ?s @ fold_into t B"
    by (subst AB) (use scs in \<open>simp add: fold_into_append [OF up]\<close>)
  moreover have "(0x2A :: u8) \<notin> set (fold_into t ?s)" "(0x3F :: u8) \<notin> set (fold_into t ?s)"
    using fold_into_wild [OF up wild scs(3), of "0x2A"] fold_into_wild [OF up wild scs(3), of "0x3F"] piece(2,3) by simp_all
  ultimately have toks: "tokens (fold_into t needle) = tokens (fold_into t A) @ map Lit (fold_into t ?s) @ tokens (fold_into t B)"
    by (simp add: tokens_def tokens_plain [unfolded tokens_def])
  have "(0x7C :: u8) \<notin> set (fold_into t needle)" "(0x2A :: u8) \<notin> set (fold_into t (str_chars name))" "has_wildcard (fold_into t needle)"
    using fold_into_wild [OF up wild sc, of "0x7C"] fold_into_wild [OF up wild str_chars_scalar, where w = "0x2A"] fold_into_wild [OF up wild sc, of "0x2A"]
      fold_into_wild [OF up wild sc, of "0x3F"] nor star True by (auto simp: is_or_needle_def is_glob_needle_def has_wildcard_def)
  moreover have "name_matches (fold_into t (str_chars name)) (fold_into t needle) = Some True"
    using hit True by (auto simp: name_test_for_def Let_def split: if_splits)
  ultimately have "globs (tokens (fold_into t needle)) (fold_into t (str_chars name))"
    using name_matches_plain len by (metis wants_def)
  then show ?thesis using globs_contains True unfolding toks by simp
qed

section \<open>Patterns over characters\<close>

lemma utf8_ascii_mem:
  assumes "list_all is_scalar s" and "w < 0x80"
  shows "of_nat w \<in> set (utf8_of s) \<longleftrightarrow> w \<in> set s"
  using encode_ascii [OF _ assms(2)] assms(1) by (induction s) auto

lemma utf8_inj: "list_all is_scalar xs \<Longrightarrow> list_all is_scalar ys \<Longrightarrow> utf8_of xs = utf8_of ys \<longleftrightarrow> xs = ys"
  using utf8_prefix [of xs ys] utf8_prefix [of ys xs] by (auto intro: prefix_order.antisym)

lemma utf8_sublist_iff: "list_all is_scalar xs \<Longrightarrow> list_all is_scalar ys \<Longrightarrow> sublist (utf8_of xs) (utf8_of ys) \<longleftrightarrow> sublist xs ys"
  using utf8_sublist [of xs ys] by (force simp: sublist_def utf8_of_def)

lemma tokens_append: "tokens (xs @ ys) = tokens xs @ tokens ys"
  by (simp add: tokens_def)

text \<open>The tokens of one character: a wildcard is its byte, any other character its bytes.\<close>

lemma tokens_encode:
  assumes "is_scalar c"
  shows "tokens (encode_utf8 c) = (if c = 0x2A then [Star] else if c = 0x3F then [One] else map Lit (encode_utf8 c))"
proof -
  have "(0x2A :: u8) \<in> set (encode_utf8 c) \<longleftrightarrow> c = 0x2A" "(0x3F :: u8) \<in> set (encode_utf8 c) \<longleftrightarrow> c = 0x3F"
    using encode_ascii [OF assms, of "0x2A"] encode_ascii [OF assms, of "0x3F"] by simp_all
  then have "tokens (encode_utf8 c) = map Lit (encode_utf8 c)" if "c \<noteq> 0x2A" "c \<noteq> 0x3F"
    using that by (auto simp: tokens_def token_of_def)
  moreover have "tokens (encode_utf8 0x2A) = [Star]" "tokens (encode_utf8 0x3F) = [One]"
    by (simp_all add: encode_utf8_def tokens_def token_of_def)
  ultimately show ?thesis by simp
qed

text \<open>Where a suffix of the bytes of a name starts inside a character, a glob without question marks can only start with a star.\<close>

lemma drop_utf8:
  "list_all is_scalar s \<Longrightarrow> \<exists>junk j. drop k (utf8_of s) = junk @ utf8_of (drop j s) \<and> list_all cont_byte junk
     \<and> (junk \<noteq> [] \<longrightarrow> (\<exists>c \<in> set s. 0x80 \<le> c))"
proof (induction s arbitrary: k)
  case (Cons c s)
  obtain b cs where b: "encode_utf8 c = b # cs" "list_all cont_byte cs" using encode_utf8_lead [of c] Cons.prems by auto
  show ?case
  proof (cases "k = 0 \<or> length (encode_utf8 c) \<le> k")
    case True
    then show ?thesis
    proof
      assume "k = 0"
      then show ?thesis by (intro exI [of _ "[]"] exI [of _ 0]) simp
    next
      assume k: "length (encode_utf8 c) \<le> k"
      obtain junk j where "drop (k - length (encode_utf8 c)) (utf8_of s) = junk @ utf8_of (drop j s)" "list_all cont_byte junk"
        "junk \<noteq> [] \<longrightarrow> (\<exists>c \<in> set s. 0x80 \<le> c)" using Cons.IH [of "k - length (encode_utf8 c)"] Cons.prems by auto
      with k show ?thesis by (intro exI [of _ junk] exI [of _ "Suc j"]) auto
    qed
  next
    case False
    then obtain k' where k: "k = Suc k'" "k' < length cs" using b by (cases k) auto
    then have "0x80 \<le> c" using b by (auto simp: encode_utf8_def split: if_splits)
    moreover have "list_all cont_byte (drop k' cs)" using b(2) by (auto simp: list_all_iff dest: in_set_dropD)
    ultimately show ?thesis using k b by (intro exI [of _ "drop k' cs"] exI [of _ 1]) simp
  qed
qed (intro exI [of _ "[]"], simp)

lemma globs_skip_junk:
  "list_all is_scalar p \<Longrightarrow> 0x3F \<notin> set p \<Longrightarrow> list_all cont_byte junk \<Longrightarrow> junk \<noteq> [] \<Longrightarrow>
   globs (tokens (utf8_of p)) (junk @ xs) \<Longrightarrow> (\<exists>q. p = 0x2A # q) \<and> globs (tokens (utf8_of p)) xs"
proof (induction p arbitrary: junk)
  case (Cons c p)
  have sc: "is_scalar c" "c \<noteq> 0x3F" using Cons.prems by auto
  show ?case
  proof (cases "c = 0x2A")
    case True
    then have toks: "tokens (utf8_of (c # p)) = Star # tokens (utf8_of p)" using tokens_encode [OF sc(1)] by (simp add: tokens_append)
    from Cons.prems(5) obtain k where k: "globs (tokens (utf8_of p)) (drop k (junk @ xs))" "k \<le> length (junk @ xs)"
      unfolding toks globs_star by blast
    have "\<exists>k \<le> length xs. globs (tokens (utf8_of p)) (drop k xs)"
    proof (cases "k < length junk")
      case True
      then have "globs (tokens (utf8_of p)) (drop k junk @ xs)" "drop k junk \<noteq> []" "list_all cont_byte (drop k junk)"
        using k Cons.prems(3) by (auto simp: list_all_iff dest: in_set_dropD)
      then have "globs (tokens (utf8_of p)) xs" using Cons.IH [of "drop k junk"] Cons.prems by auto
      then show ?thesis by (intro exI [of _ 0]) simp
    next
      case False
      then show ?thesis using k by (intro exI [of _ "k - length junk"]) auto
    qed
    then show ?thesis using True toks globs_star [of "tokens (utf8_of p)" xs] by auto
  next
    case False
    obtain b cs where b: "encode_utf8 c = b # cs" "\<not> cont_byte b" using encode_utf8_lead [OF sc(1)] by auto
    have "tokens (utf8_of (c # p)) = Lit b # map Lit cs @ tokens (utf8_of p)"
      using tokens_encode [OF sc(1)] False sc(2) b(1) by (simp add: tokens_append)
    with Cons.prems(3-5) b(2) show ?thesis by (cases junk) auto
  qed
qed (simp add: tokens_def)

text \<open>On bytes and on characters a glob means the same, when it has no question mark or the name is ASCII.\<close>

lemma globs_utf8:
  "list_all is_scalar p \<Longrightarrow> list_all is_scalar s \<Longrightarrow> (0x3F \<in> set p \<Longrightarrow> list_all (\<lambda>c. c < 0x80) s) \<Longrightarrow>
   globs (tokens (utf8_of p)) (utf8_of s) \<longleftrightarrow> globs (tokens p) s"
proof (induction p arbitrary: s)
  case Nil
  have "utf8_of s = [] \<longleftrightarrow> s = []" using utf8_inj [of s "[]"] Nil by simp
  then show ?case by (simp add: tokens_def)
next
  case (Cons c p)
  have sc: "is_scalar c" using Cons.prems(1) by simp
  have toks: "tokens (utf8_of (c # p)) = tokens (encode_utf8 c) @ tokens (utf8_of p)" "tokens (c # p) = token_of c # tokens p"
    by (simp_all add: tokens_def)
  consider "c = 0x2A" | "c = 0x3F" | "c \<noteq> 0x2A" "c \<noteq> 0x3F" by blast
  then show ?case
  proof cases
    case 1
    have "globs (tokens (utf8_of p)) (utf8_of (drop j s)) \<longleftrightarrow> globs (tokens p) (drop j s)" for j
      using Cons.IH [of "drop j s"] Cons.prems by (auto simp: list_all_iff dest: in_set_dropD)
    note IH = this
    have "(\<exists>k \<le> length (utf8_of s). globs (tokens (utf8_of p)) (drop k (utf8_of s))) \<longleftrightarrow> (\<exists>j \<le> length s. globs (tokens p) (drop j s))"
    proof
      assume "\<exists>k \<le> length (utf8_of s). globs (tokens (utf8_of p)) (drop k (utf8_of s))"
      then obtain k where k: "globs (tokens (utf8_of p)) (drop k (utf8_of s))" by blast
      obtain junk j where j: "drop k (utf8_of s) = junk @ utf8_of (drop j s)" "list_all cont_byte junk"
        "junk \<noteq> [] \<longrightarrow> (\<exists>c \<in> set s. 0x80 \<le> c)" using drop_utf8 [OF Cons.prems(2)] by blast
      have "globs (tokens (utf8_of p)) (utf8_of (drop j s))"
      proof (cases "junk = []")
        case False
        then have "0x3F \<notin> set p" using Cons.prems(3) j(3) by (force simp: list_all_iff)
        then show ?thesis using globs_skip_junk [of p junk "utf8_of (drop j s)"] Cons.prems(1) j False k by simp
      qed (use k j in simp)
      then have "globs (tokens p) (drop (min j (length s)) s)" using IH [of j] by (cases "j \<le> length s") simp_all
      then show "\<exists>j \<le> length s. globs (tokens p) (drop j s)" by (metis min.cobounded2)
    next
      assume "\<exists>j \<le> length s. globs (tokens p) (drop j s)"
      then obtain j where j: "globs (tokens (utf8_of p)) (utf8_of (drop j s))" using IH by blast
      have "utf8_of s = utf8_of (take j s) @ utf8_of (drop j s)" by (simp add: utf8_of_def flip: concat_append map_append)
      then have "drop (length (utf8_of (take j s))) (utf8_of s) = utf8_of (drop j s)" "length (utf8_of (take j s)) \<le> length (utf8_of s)"
        by (metis append_eq_conv_conj, metis le_add1 length_append)
      with j show "\<exists>k \<le> length (utf8_of s). globs (tokens (utf8_of p)) (drop k (utf8_of s))" by metis
    qed
    then show ?thesis unfolding toks tokens_encode [OF sc] using 1 by (simp add: globs_star token_of_def)
  next
    case 2
    then have ascii: "list_all (\<lambda>c. c < 0x80) s" using Cons.prems(3) by simp
    show ?thesis unfolding toks tokens_encode [OF sc]
      using 2 ascii Cons.IH Cons.prems by (cases s) (auto simp: token_of_def encode_utf8_def)
  next
    case 3
    have head: "prefix (encode_utf8 c) (utf8_of (d # s')) \<longleftrightarrow> c = d" if "s = d # s'" for d s'
      using utf8_prefix [of "[c]" "d # s'"] sc Cons.prems(2) that by auto
    have "encode_utf8 c \<noteq> []" using encode_utf8_lead [OF sc] by auto
    then show ?thesis unfolding toks tokens_encode [OF sc]
      using 3 Cons.IH [of "Cons_tl s" for Cons_tl] Cons.IH Cons.prems head by (cases s) (auto simp: globs_lits token_of_def)
  qed
qed

lemma split_at_utf8:
  assumes "list_all is_scalar p" and "w < 0x80"
  shows "split_at (of_nat w) (utf8_of p) = map utf8_of (split_at w p)"
  using assms(1)
proof (induction p)
  case (Cons c p)
  obtain y ys where ys: "split_at w p = y # ys" using split_at_ne by (metis list.exhaust)
  have glue: "split_at x (as @ bs) = (as @ z) # zs" if "x \<notin> set as" "split_at x bs = z # zs" for x :: u8 and as bs z zs
    using that by (induction as) auto
  have "of_nat w \<in> set (encode_utf8 c) \<longleftrightarrow> c = w" using encode_ascii [OF _ assms(2)] Cons.prems by simp
  then show ?case
    using Cons ys glue [of "of_nat w" "encode_utf8 c" "utf8_of p"] assms(2) by (cases "c = w") (auto simp: encode_utf8_def)
qed simp

lemma wants_utf8:
  assumes "list_all is_scalar p" and "list_all is_scalar s" and "0x3F \<in> set p \<Longrightarrow> list_all (\<lambda>c. c < 0x80) s"
  shows "wants (utf8_of p) (utf8_of s) \<longleftrightarrow> wants p s"
  using globs_utf8 [OF assms] utf8_sublist_iff [OF assms(1,2)] utf8_ascii_mem [OF assms(1), of "0x2A"] utf8_ascii_mem [OF assms(1), of "0x3F"]
  by (simp add: wants_def has_wildcard_def)

text \<open>
  C30. The matcher works on UTF-8 bytes, always returns, and what it decides of a name without a star is this:
  the name is neither empty nor the name of the current directory, and one of the alternatives of the pattern
  between bars matches, one with wildcards as a glob of the whole name, one without as a part of it. A star stands
  for any sequence of characters, whatever their number of bytes. A question mark stands for one character when
  the name is ASCII; on other names it stands for one byte of the encoding, unlike what the comment of
  \<open>name_matches\<close> says, which the first part of the statement, read over the bytes, expresses.
\<close>

theorem name_matches_decides:
  assumes "list_all is_scalar name" and "list_all is_scalar pattern" and "0x2A \<notin> set name" and "length (utf8_of pattern) < u64_max"
  shows "name_matches (utf8_of name) (utf8_of pattern) =
      Some (name \<noteq> [] \<and> name \<noteq> [0x2E] \<and> (\<exists>p \<in> set (split_at 0x7C (utf8_of pattern)). wants p (utf8_of name)))
    \<and> (0x3F \<notin> set pattern \<or> list_all (\<lambda>c. c < 0x80) name \<longrightarrow> name_matches (utf8_of name) (utf8_of pattern) =
      Some (name \<noteq> [] \<and> name \<noteq> [0x2E] \<and> (\<exists>p \<in> set (split_at 0x7C pattern). wants p name)))"
proof -
  have star: "0x2A \<notin> set (utf8_of name)" using utf8_ascii_mem [OF assms(1), of "0x2A"] assms(3) by simp
  have dot: "utf8_of name = [] \<longleftrightarrow> name = []" "utf8_of name = [0x2E] \<longleftrightarrow> name = [0x2E]"
    using utf8_inj [OF assms(1), of "[]"] utf8_inj [OF assms(1), of "[0x2E]"] by (simp_all add: is_scalar_def encode_utf8_def)
  note bytes = name_matches_bytes [OF star assms(4), unfolded dot]
  have "wants (utf8_of p) (utf8_of name) \<longleftrightarrow> wants p name"
    if "0x3F \<notin> set pattern \<or> list_all (\<lambda>c. c < 0x80) name" "p \<in> set (split_at 0x7C pattern)" for p
    using that assms(1,2) split_at_piece [OF that(2)] set_mono_sublist [of p pattern] by (intro wants_utf8) (auto simp: list_all_iff)
  then show ?thesis using bytes split_at_utf8 [OF assms(2), of "0x7C"] by simp
qed

theorem name_matches_decides_witness:
  "name_matches (utf8_of [0xE9, 0x2E, 0x63]) (utf8_of [0x2A, 0x2E, 0x68, 0x7C, 0xE9, 0x2A, 0x63]) = Some True
   \<and> name_matches (utf8_of [0x61, 0x62]) (utf8_of [0x61, 0x3F]) = Some True"
  using name_matches_decides [of "[0xE9, 0x2E, 0x63]" "[0x2A, 0x2E, 0x68, 0x7C, 0xE9, 0x2A, 0x63]"] name_matches_decides [of "[0x61, 0x62]" "[0x61, 0x3F]"]
  by (simp add: wants_def has_wildcard_def token_of_def is_scalar_def encode_utf8_def u64_max_def)

text \<open>
  The question mark is one byte: on a name of one letter of two bytes the pattern of one question mark fails,
  although it is laid over the one character, and the pattern of two question marks succeeds.
\<close>

theorem question_mark_is_one_byte:
  "name_matches (utf8_of [0xE9]) (utf8_of [0x3F]) = Some False \<and> wants [0x3F] [0xE9 :: nat]
   \<and> name_matches (utf8_of [0xE9]) (utf8_of [0x3F, 0x3F]) = Some True"
proof -
  have b: "utf8_of [0xE9] = [0xC3, 0xA9]" "utf8_of [0x3F] = [0x3F]" "utf8_of [0x3F, 0x3F] = [0x3F, 0x3F]" by (simp_all add: encode_utf8_def)
  show ?thesis unfolding b
    using name_matches_bytes [of "[0xC3, 0xA9]" "[0x3F]"] name_matches_bytes [of "[0xC3, 0xA9]" "[0x3F, 0x3F]"]
    by (simp add: wants_def has_wildcard_def tokens_def token_of_def u64_max_def)
qed

section \<open>The index finds what a scan finds\<close>

lemma collect_loop_spec:
  assumes "\<forall>r \<in> set (di_records d). \<exists>b. keep r = Some b"
  shows "collect_loop keep d limit is out = Some (out @ take (limit - length out)
    (map len_to_u32 (filter (\<lambda>i. i < length (di_records d) \<and> keep (di_records d ! i) = Some True) is)))"
proof (induction "is" arbitrary: out)
  case (Cons i "is")
  have "\<exists>b. keep (di_records d ! i) = Some b" if "i < length (di_records d)" using assms that by auto
  then show ?case using Cons by (auto simp: vec_get_def take_Cons' Suc_diff_le split: nat.split)
qed simp

lemma trigram_search_ascending:
  assumes inv: "index_inv d" and cand: "trigram_search d needle = Some cand"
  shows "ascending cand"
proof (cases "di_delta d")
  case None
  have len: "3 \<le> length needle"
    using cand None by (auto simp: trigram_search_def trigram_index_search_def needle_trigrams_def Let_def split: if_splits)
  have "get_posting (di_trigram d) k = (if selective (di_fold d) (di_names d) (di_records d) k
        then Some (trigram_posting (di_fold d) (di_names d) (di_records d) k) else None)" for k
    using inv None by (simp add: index_inv_def bases_fresh_def)
  from trigram_search_postings [OF this len] cand None show ?thesis
    by (auto simp: trigram_search_def sorted_wrt_filter split: if_splits)
next
  case (Some delta)
  obtain ts where ts: "needle_trigrams (di_fold d) needle = Some ts" using cand Some by (cases "needle_trigrams (di_fold d) needle") (simp_all add: trigram_search_def)
  let ?pls = "filter (\<lambda>l. l \<noteq> []) (map (effective_posting d delta) ts)"
  have asc: "\<forall>l \<in> set ?pls. ascending l" using effective_posting_spec(1) [OF inv Some] by auto
  show ?thesis
  proof (cases "sort_key length ?pls")
    case Nil
    with cand Some ts show ?thesis by (auto simp: trigram_search_def split: if_splits)
  next
    case (Cons first rest)
    from intersect_sorted [OF asc Cons] cand \<open>di_delta d = Some delta\<close> ts Cons show ?thesis
      by (auto simp: trigram_search_def Let_def sorted_wrt_filter split: if_splits)
  qed
qed

lemma record_name_folded:
  assumes "length names < u64_max" and "record_name r names \<noteq> []"
  shows "cr_name_len r \<noteq> 0" and "folded_name t names r = map (fold_char t) (str_chars (record_name r names))"
proof -
  have ne: "name_bytes r names \<noteq> []" and rn: "record_name r names = name_bytes r names" using assms(2) by (auto simp: record_name_def split: if_splits)
  then have le: "cr_name_offset r + cr_name_len r \<le> u64_max" using assms(1)
    by (auto simp: name_bytes_def u64_sat_add_def slice_get_def Let_def min_def split: if_splits)
  then have nb: "name_bytes r names = (case slice_get names (cr_name_offset r) (cr_name_offset r + cr_name_len r) of None \<Rightarrow> [] | Some bs \<Rightarrow> bs)"
    by (simp add: name_bytes_def u64_sat_add_def Let_def min_def)
  with ne obtain bs where bs: "slice_get names (cr_name_offset r) (cr_name_offset r + cr_name_len r) = Some bs" "name_bytes r names = bs"
    by (auto split: option.splits)
  show "cr_name_len r \<noteq> 0" using ne bs by (cases "cr_name_len r") (auto simp: slice_get_def split: if_splits)
  show "folded_name t names r = map (fold_char t) (str_chars (record_name r names))"
    using bs by (simp add: folded_name_def rn str_chars_def)
qed

text \<open>What the search asks of a record, without any index.\<close>

definition answers ::
  "(bytes \<Rightarrow> bytes) \<Rightarrow> (bytes \<Rightarrow> bytes) \<Rightarrow> (bytes \<Rightarrow> bytes) \<Rightarrow> drive_index \<Rightarrow> str \<Rightarrow> bool \<Rightarrow> search_filters \<Rightarrow> nat \<Rightarrow> bool"
where
  "answers lower_str lower_chars norm d needle ww f i \<longleftrightarrow>
     name_test_for (di_fold d) needle False ww (record_name (di_records d ! i) (di_names d)) = Some True
     \<and> matches_record lower_str lower_chars (resolved norm f d) (di_records d ! i) (di_names d) (di_fold d) = Some True"

text \<open>
  What the search relies on: a table and names as the file system has them, and trigrams of the needle that
  the index knows. An index may drop the trigrams that are too frequent; a needle of nothing else is not searchable.
\<close>

definition drive_searchable :: "drive_index \<Rightarrow> bool" where
  "drive_searchable d \<longleftrightarrow> index_inv d \<and> upcase_ok (di_fold d) \<and> wild_ok (di_fold d)
     \<and> list_all (\<lambda>r. time_fits r \<and> 0x2A \<notin> set (str_chars (record_name r (di_names d)))) (di_records d)"

definition needle_searchable :: "drive_index \<Rightarrow> str \<Rightarrow> bool" where
  "needle_searchable d needle \<longleftrightarrow> list_all is_scalar needle \<and> length (fold_into (di_fold d) needle) < u64_max
     \<and> (let s = extract_trigram_needle needle (is_glob_needle needle) (is_or_needle needle);
            ks = text_trigrams (map (fold_char (di_fold d)) s)
        in 3 \<le> length s \<longrightarrow> (\<forall>k \<in> ks. trigram_intact d k) \<and> (\<exists>k \<in> ks. trigram_known d k))"

lemma name_test_total: "length (fold_into t needle) < u64_max \<Longrightarrow> \<exists>b. name_test_for t needle False ww name = Some b"
  using name_matches_total [of "fold_into t needle"] by (auto simp: name_test_for_def Let_def)

lemma trigram_candidates_complete:
  assumes d: "drive_searchable d" and n: "needle_searchable d needle" and nor: "\<not> is_or_needle needle"
    and i: "i < length (di_records d)" and hit: "name_test_for (di_fold d) needle False ww (record_name (di_records d ! i) (di_names d)) = Some True"
    and cand: "trigram_search d (extract_trigram_needle needle (is_glob_needle needle) False) = Some cand"
  shows "i \<in> set cand"
proof -
  let ?s = "extract_trigram_needle needle (is_glob_needle needle) False" and ?name = "record_name (di_records d ! i) (di_names d)"
  have inv: "index_inv d" and up: "upcase_ok (di_fold d)" and wild: "wild_ok (di_fold d)" using d by (simp_all add: drive_searchable_def)
  have fits: "length (di_names d) < u64_max" using inv by (auto simp: index_inv_def index_fits_def)
  have star: "0x2A \<notin> set (str_chars ?name)" using d i by (simp add: drive_searchable_def list_all_length)
  have sc: "list_all is_scalar needle" and len: "length (fold_into (di_fold d) needle) < u64_max" using n by (simp_all add: needle_searchable_def)
  have len3: "3 \<le> length ?s"
    using cand by (cases "di_delta d") (auto simp: trigram_search_def trigram_index_search_def needle_trigrams_def Let_def split: if_splits)
  have ne: "?name \<noteq> []" using hit by (auto simp: name_test_for_def Let_def)
  have "list_all is_scalar ?s"
  proof (cases "is_glob_needle needle")
    case True
    then show ?thesis using split_wild_piece(1) [OF trigram_needle_piece [of needle]] sc set_mono_sublist by (fastforce simp: list_all_iff)
  qed (use sc in \<open>simp add: extract_trigram_needle_def\<close>)
  then have "sublist (map (fold_char (di_fold d)) ?s) (map (fold_char (di_fold d)) (str_chars ?name))"
    using folded_sublist [OF up _ str_chars_scalar] name_test_contains [OF up wild sc nor star len hit] by blast
  then have "sublist (map (fold_char (di_fold d)) ?s) (folded_name (di_fold d) (di_names d) (di_records d ! i))"
    by (simp add: record_name_folded(2) [OF fits ne])
  moreover have "live (di_records d) i" using i record_name_folded(1) [OF fits ne] by (simp add: live_def)
  ultimately have "\<exists>cand. trigram_search d ?s = Some cand \<and> i \<in> set cand"
    using n nor len3 by (intro trigram_search_current [OF inv len3]) (simp_all add: needle_searchable_def Let_def)
  with cand show ?thesis by simp
qed

lemma ascending_filter_unique:
  assumes "ascending xs" and "{i \<in> set xs. P i} = {i. i < n \<and> P i}"
  shows "filter P xs = filter P [0..<n]"
proof -
  have "sorted_wrt (<) (filter P xs)" "sorted_wrt (<) (filter P [0..<n])" using assms(1) by (simp_all add: sorted_wrt_filter)
  moreover have "set (filter P xs) = set (filter P [0..<n])" using assms(2) by auto
  ultimately show ?thesis by (intro strict_sorted_equal)
qed

lemma collect_exact:
  assumes d: "drive_searchable d" and len: "length (fold_into (di_fold d) needle) < u64_max" and fits: "filter_fits f"
    and cand: "\<And>cs. candidates = Some cs \<Longrightarrow> ascending cs \<and> {i \<in> set cs. i < length (di_records d) \<and> answers lower_str lower_chars norm d needle ww f i}
      = {i. i < length (di_records d) \<and> answers lower_str lower_chars norm d needle ww f i}"
  shows "collect_match_indices lower_str lower_chars d candidates limit (name_test_for (di_fold d) needle False ww) (resolve_ext_ids_for_drive norm d f)
    = Some (take limit (filter (answers lower_str lower_chars norm d needle ww f) [0..<length (di_records d)]))"
proof -
  let ?keep = "keeps lower_str lower_chars d (name_test_for (di_fold d) needle False ww) (resolve_ext_ids_for_drive norm d f)"
  have total: "\<forall>r \<in> set (di_records d). \<exists>b. ?keep r = Some b"
  proof
    fix r assume "r \<in> set (di_records d)"
    then have "time_fits r" using d by (simp add: drive_searchable_def list_all_iff)
    then show "\<exists>b. ?keep r = Some b"
      using name_test_total [OF len, of ww "record_name r (di_names d)"] matches_record_total [of "resolved norm f d" r lower_str lower_chars] fits
      by (auto simp: keeps_def resolved_def [symmetric])
  qed
  have keep: "?keep (di_records d ! i) = Some True \<longleftrightarrow> answers lower_str lower_chars norm d needle ww f i" for i
    by (auto simp: keeps_def answers_def resolved_def split: Option.bind_splits if_splits)
  let ?is = "case candidates of None \<Rightarrow> [0..<length (di_records d)] | Some cs \<Rightarrow> cs"
  have same: "filter (\<lambda>i. i < length (di_records d) \<and> answers lower_str lower_chars norm d needle ww f i) ?is
      = filter (answers lower_str lower_chars norm d needle ww f) [0..<length (di_records d)]"
  proof (cases candidates)
    case (Some cs)
    have "filter (\<lambda>i. i < length (di_records d) \<and> answers lower_str lower_chars norm d needle ww f i) cs
        = filter (\<lambda>i. i < length (di_records d) \<and> answers lower_str lower_chars norm d needle ww f i) [0..<length (di_records d)]"
      using cand [OF Some] by (intro ascending_filter_unique) auto
    also have "\<dots> = filter (answers lower_str lower_chars norm d needle ww f) [0..<length (di_records d)]" by (rule filter_cong) auto
    finally show ?thesis by (simp add: Some)
  qed (auto intro: filter_cong)
  have "length (di_records d) \<le> u32_max" using d by (auto simp: drive_searchable_def index_inv_def index_fits_def)
  then have "map len_to_u32 (filter (answers lower_str lower_chars norm d needle ww f) [0..<length (di_records d)])
      = filter (answers lower_str lower_chars norm d needle ww f) [0..<length (di_records d)]"
    by (intro map_idI) (auto simp: len_to_u32_def)
  then show ?thesis unfolding collect_match_indices_def collect_loop_spec [OF total] keep same by simp
qed

text \<open>
  C3. On a drive whose index is up to date, the trigram index changes nothing but the speed of a case-insensitive
  search by a plain needle, a wildcard pattern or alternatives, as long as the index can serve its needle: when the
  part of the pattern that is looked up has three letters or more, at least one of its trigrams has postings and none
  that the base index pruned as too frequent is used by an overlay record. Then the records
  found are the first \<open>limit\<close> of those, in order, whose name passes the test and which pass the filter, as a scan of
  all records finds them. A needle of pruned trigrams only finds nothing, which \<open>pruned_needle_finds_nothing\<close> and
  \<open>overlay_hides_pruned_matches\<close> show.
\<close>

theorem pattern_search_exact:
  assumes "drive_searchable d" and "needle_searchable d needle" and "filter_fits f"
  shows "search_compact_indices lower_str lower_chars norm d needle limit False ww False f
    = Some (take limit (filter (answers lower_str lower_chars norm d needle ww f) [0..<length (di_records d)]))"
proof -
  let ?s = "extract_trigram_needle needle (is_glob_needle needle) (is_or_needle needle)"
  define candidates where "candidates = (if length (utf8_of ?s) \<ge> 3 then trigram_search d ?s else None)"
  have "ascending cs \<and> {i \<in> set cs. i < length (di_records d) \<and> answers lower_str lower_chars norm d needle ww f i}
      = {i. i < length (di_records d) \<and> answers lower_str lower_chars norm d needle ww f i}" if "candidates = Some cs" for cs
  proof -
    have cs: "trigram_search d ?s = Some cs" "length (utf8_of ?s) \<ge> 3" using that by (auto simp: candidates_def split: if_splits)
    then have nor: "\<not> is_or_needle needle" by (auto simp: extract_trigram_needle_def)
    have "index_inv d" using assms(1) by (simp add: drive_searchable_def)
    from trigram_search_ascending [OF this cs(1)] have "ascending cs" .
    moreover have "i \<in> set cs" if "i < length (di_records d)" "answers lower_str lower_chars norm d needle ww f i" for i
      using trigram_candidates_complete [OF assms(1,2) nor that(1)] that(2) cs(1) nor by (auto simp: answers_def)
    ultimately show ?thesis by auto
  qed
  note cand = this
  have len: "length (fold_into (di_fold d) needle) < u64_max" using assms(2) by (simp add: needle_searchable_def)
  have "collect_match_indices lower_str lower_chars d candidates limit (name_test_for (di_fold d) needle False ww) (resolve_ext_ids_for_drive norm d f)
      = Some (take limit (filter (answers lower_str lower_chars norm d needle ww f) [0..<length (di_records d)]))"
    by (rule collect_exact [OF assms(1) len assms(3)]) (rule cand)
  then show ?thesis
    by (simp add: search_compact_indices_def candidates_def Let_def)
qed

lemma demo_aaa_searchable: "drive_searchable demo_aaa_drive" "needle_searchable demo_aaa_drive [0x61, 0x61, 0x61]"
proof -
  show "drive_searchable demo_aaa_drive"
    using demo_aaa_drive_inv
    by (simp add: drive_searchable_def time_fits_def demo_aaa_def compact_record_default_def i64_min_def i64_max_def upcase_ok_def wild_ok_def
        record_name_def name_bytes_def u64_sat_add_def slice_get_def utf8_valid_def utf8_ascii_chars u64_max_def str_chars_def Let_def)
  let ?k = "pack_char_trigram 0x61 0x61 0x61" and ?r = "demo_aaa\<lparr>cr_parent_idx := u32_max\<rparr>"
  have f: "fold_char [] 0x61 = 0x61" by (simp add: fold_char_def vec_get_def)
  have name: "folded_name [] [0x61, 0x61, 0x61] ?r = [0x61, 0x61, 0x61]" using demo_aaa_folded by (simp add: folded_name_def)
  have "selective [] [0x61, 0x61, 0x61] [?r] ?k"
    by (simp add: selective_def trigram_posting_def name text_trigrams_single freq_cap_def)
  then have "trigram_known demo_aaa_drive ?k" "trigram_intact demo_aaa_drive ?k"
    using demo_aaa_drive_inv by (auto simp: trigram_known_def trigram_intact_def index_inv_def bases_fresh_def)
  then show "needle_searchable demo_aaa_drive [0x61, 0x61, 0x61]"
    using demo_aaa_drive_inv
    by (simp add: needle_searchable_def is_scalar_def extract_trigram_needle_def is_glob_needle_def is_or_needle_def f text_trigrams_single
        fold_into_def fold_bytes_def vec_get_def utf8_valid_def utf8_ascii_chars u64_max_def Let_def)
qed

theorem pattern_search_exact_witness:
  "search_compact_indices id id id demo_aaa_drive [0x61, 0x61, 0x61] 5 False False False search_filters_default
   = Some (take 5 (filter (answers id id id demo_aaa_drive [0x61, 0x61, 0x61] False search_filters_default) [0..<length (di_records demo_aaa_drive)]))"
  by (rule pattern_search_exact [OF demo_aaa_searchable]) (simp add: filter_fits_def search_filters_default_def)

section \<open>Prefixes\<close>

lemma prefix_loop_spec:
  assumes "\<forall>r \<in> set (di_records d). \<exists>b. keep r = Some b"
  shows "prefix_loop keep d limit is out = Some (out @ take (max 1 (limit - length out))
    (filter (\<lambda>i. i < length (di_records d) \<and> keep (di_records d ! i) = Some True) is))"
proof (induction "is" arbitrary: out)
  case (Cons i "is")
  have "\<exists>b. keep (di_records d ! i) = Some b" if "i < length (di_records d)" using assms that by auto
  then show ?case using Cons by (auto simp: vec_get_def take_Cons' max_def)
qed simp

lemma chars_of_bytes_prefix: "chars_of_bytes n s = Some r \<Longrightarrow> prefix r s"
  by (induction n s arbitrary: r rule: chars_of_bytes.induct) (auto split: if_splits)

lemma prefix_needle_prefix: "prefix (prefix_needle pre) pre"
  using chars_of_bytes_prefix by (auto simp: prefix_needle_def split: option.split)

definition starts ::
  "(bytes \<Rightarrow> bytes) \<Rightarrow> (bytes \<Rightarrow> bytes) \<Rightarrow> (bytes \<Rightarrow> bytes) \<Rightarrow> drive_index \<Rightarrow> str \<Rightarrow> search_filters \<Rightarrow> nat \<Rightarrow> bool"
where
  "starts lower_str lower_chars norm d pre f i \<longleftrightarrow> record_name (di_records d ! i) (di_names d) \<noteq> []
     \<and> prefix (fold_into (di_fold d) pre) (fold_into (di_fold d) (str_chars (record_name (di_records d ! i) (di_names d))))
     \<and> matches_record lower_str lower_chars (resolved norm f d) (di_records d ! i) (di_names d) (di_fold d) = Some True"

lemma prefix_candidates_complete:
  assumes d: "drive_searchable d" and sc: "list_all is_scalar pre" and len: "3 \<le> length (prefix_needle pre)"
    and intact: "\<forall>k \<in> text_trigrams (map (fold_char (di_fold d)) (prefix_needle pre)). trigram_intact d k"
    and known: "\<exists>k \<in> text_trigrams (map (fold_char (di_fold d)) (prefix_needle pre)). trigram_known d k"
    and i: "i < length (di_records d)" and ne: "record_name (di_records d ! i) (di_names d) \<noteq> []"
    and pre: "prefix (fold_into (di_fold d) pre) (fold_into (di_fold d) (str_chars (record_name (di_records d ! i) (di_names d))))"
  shows "\<exists>cand. trigram_search d (prefix_needle pre) = Some cand \<and> i \<in> set cand"
proof -
  let ?t = "di_fold d" and ?name = "record_name (di_records d ! i) (di_names d)"
  have inv: "index_inv d" and up: "upcase_ok ?t" using d by (simp_all add: drive_searchable_def)
  have fits: "length (di_names d) < u64_max" using inv by (auto simp: index_inv_def index_fits_def)
  have "sublist (map (fold_char ?t) pre) (map (fold_char ?t) (str_chars ?name))"
    using folded_sublist [OF up sc str_chars_scalar] prefix_imp_sublist [OF pre] by blast
  moreover have "sublist (map (fold_char ?t) (prefix_needle pre)) (map (fold_char ?t) pre)"
    using prefix_needle_prefix prefix_imp_sublist map_mono_sublist by blast
  ultimately have "sublist (map (fold_char ?t) (prefix_needle pre)) (folded_name ?t (di_names d) (di_records d ! i))"
    unfolding record_name_folded(2) [OF fits ne] by (rule sublist_order.order.trans [rotated])
  moreover have "live (di_records d) i" using i record_name_folded(1) [OF fits ne] by (simp add: live_def)
  ultimately show ?thesis by (intro trigram_search_current [OF inv len intact known])
qed

text \<open>
  C20. A case-insensitive prefix search on a drive whose index is up to date shows the first \<open>limit\<close> records, and at
  least one, of those whose folded name starts with the folded prefix and which pass the filter, under two conditions:
  the first three bytes of the prefix hold three letters, or end inside one (then the whole prefix is looked up and has
  three letters or more), and of the trigrams looked up one has postings and none that the base index pruned is used by
  an overlay record. Without the first condition the search finds nothing (\<open>accented_prefix_finds_nothing\<close>), and neither
  does it when all the trigrams are pruned.
\<close>

theorem prefix_search_exact:
  assumes d: "drive_searchable d" and sc: "list_all is_scalar pre" and len: "3 \<le> length (prefix_needle pre)" and fits: "filter_fits f"
    and intact: "list_all (trigram_intact d) ks" and known: "list_ex (trigram_known d) ks"
    and ks: "set ks = text_trigrams (map (fold_char (di_fold d)) (prefix_needle pre))"
  shows "search_compact_drive_prefix lower_str lower_chars norm (letter, d) pre limit False f
    = Some (indices_to_rows d (take (max 1 limit) (filter (starts lower_str lower_chars norm d pre f) [0..<length (di_records d)]))
        (stack_volume_prefix letter) (malformed_render_of f))"
proof -
  let ?keep = "keeps lower_str lower_chars d (prefix_test (di_fold d) pre False) (resolve_ext_ids_for_drive norm d f)"
  have total: "\<forall>r \<in> set (di_records d). \<exists>b. ?keep r = Some b"
    using d fits matches_record_total [of "resolved norm f d" _ lower_str lower_chars]
    by (auto simp: keeps_def prefix_test_def resolved_def [symmetric] drive_searchable_def list_all_iff)
  have keep: "?keep (di_records d ! i) = Some True \<longleftrightarrow> starts lower_str lower_chars norm d pre f i" for i
    by (auto simp: keeps_def prefix_test_def starts_def resolved_def split: if_splits)
  have complete: "\<exists>cand. trigram_search d (prefix_needle pre) = Some cand \<and> i \<in> set cand"
    if "i < length (di_records d)" "starts lower_str lower_chars norm d pre f i" for i
    using that intact known ks by (intro prefix_candidates_complete [OF d sc len]) (auto simp: starts_def list_all_iff list_ex_iff)
  have none: "trigram_search d (prefix_needle pre) \<noteq> None"
    using len by (cases "di_delta d") (auto simp: trigram_search_def trigram_index_search_def needle_trigrams_def Let_def split: list.split)
  then obtain cs where cs: "trigram_search d (prefix_needle pre) = Some cs" by blast
  have "ascending cs" using trigram_search_ascending [OF _ cs] d by (simp add: drive_searchable_def)
  then have "filter (\<lambda>i. i < length (di_records d) \<and> starts lower_str lower_chars norm d pre f i) cs
      = filter (\<lambda>i. i < length (di_records d) \<and> starts lower_str lower_chars norm d pre f i) [0..<length (di_records d)]"
    using complete cs by (intro ascending_filter_unique) auto
  also have "\<dots> = filter (starts lower_str lower_chars norm d pre f) [0..<length (di_records d)]" by (rule filter_cong) auto
  finally show ?thesis
    by (simp add: search_compact_drive_prefix_def cs prefix_loop_spec [OF total] keep)
qed

theorem prefix_search_exact_witness:
  "search_compact_drive_prefix id id id (0x43, demo_aaa_drive) [0x61, 0x61, 0x61] 5 False search_filters_default
   = Some (indices_to_rows demo_aaa_drive (take (max 1 5) (filter (starts id id id demo_aaa_drive [0x61, 0x61, 0x61] search_filters_default)
       [0..<length (di_records demo_aaa_drive)])) (stack_volume_prefix 0x43) (malformed_render_of search_filters_default))"
proof -
  have n: "prefix_needle [0x61, 0x61, 0x61] = [0x61, 0x61, 0x61]" by (simp add: prefix_needle_def encode_utf8_def)
  have s: "extract_trigram_needle [0x61, 0x61, 0x61] (is_glob_needle [0x61, 0x61, 0x61]) (is_or_needle [0x61, 0x61, 0x61]) = [0x61, 0x61, 0x61]"
    by (simp add: extract_trigram_needle_def is_glob_needle_def is_or_needle_def)
  have f: "fold_char (di_fold demo_aaa_drive) 0x61 = 0x61" using demo_aaa_drive_inv by (simp add: fold_char_def vec_get_def)
  show ?thesis
    using demo_aaa_searchable(2)
    by (intro prefix_search_exact [where ks = "[pack_char_trigram 0x61 0x61 0x61]"])
      (simp_all add: demo_aaa_searchable(1) n s f is_scalar_def filter_fits_def search_filters_default_def needle_searchable_def text_trigrams_single Let_def)
qed

text \<open>
  A prefix search finds nothing when the first three bytes of the prefix hold fewer than three letters,
  whatever the drive holds: the needle cut at three bytes has no trigram, and no trigram is taken for no
  candidates. The test that sends a pattern to this search counts bytes.
\<close>

theorem accented_prefix_finds_nothing:
  assumes "length (prefix_needle pre) < 3"
  shows "search_compact_drive_prefix lower_str lower_chars norm drive pre limit case_sensitive f = Some []"
proof -
  have "needle_trigrams t (prefix_needle pre) = None" for t using assms by (simp add: needle_trigrams_def Let_def)
  then have "trigram_search (snd drive) (prefix_needle pre) = None"
    by (cases "di_delta (snd drive)") (simp_all add: trigram_search_def trigram_index_search_def)
  then show ?thesis by (simp add: search_compact_drive_prefix_def indices_to_rows_def indices_to_rows_sequential_def RESOLVE_CHUNK_SIZE_def)
qed

text \<open>The pattern is the French word for a summary, with its two accents, and a star.\<close>

theorem accented_prefix_finds_nothing_witness:
  "is_prefix_pattern (utf8_of [0x72, 0xE9, 0x73, 0x75, 0x6D, 0xE9, 0x2A]) = Some (utf8_of [0x72, 0xE9, 0x73, 0x75, 0x6D, 0xE9])
   \<and> search_compact_drive_prefix id id id (0x43, demo_aaa_drive) [0x72, 0xE9, 0x73, 0x75, 0x6D, 0xE9] 5 False search_filters_default = Some []"
proof
  show "is_prefix_pattern (utf8_of [0x72, 0xE9, 0x73, 0x75, 0x6D, 0xE9, 0x2A]) = Some (utf8_of [0x72, 0xE9, 0x73, 0x75, 0x6D, 0xE9])"
    by (simp add: is_prefix_pattern_def encode_utf8_def)
  show "search_compact_drive_prefix id id id (0x43, demo_aaa_drive) [0x72, 0xE9, 0x73, 0x75, 0x6D, 0xE9] 5 False search_filters_default = Some []"
    by (rule accented_prefix_finds_nothing) (simp add: prefix_needle_def encode_utf8_def)
qed

section \<open>The descent\<close>

text \<open>A step of the descent goes from a directory to a child.\<close>

definition below_dir :: "drive_index \<Rightarrow> (nat \<times> nat) set" where
  "below_dir d = {(p, c). p < length (di_records d) \<and> is_directory_record (di_records d ! p) \<and> c \<in> set (children_of_record d p)}"

definition dir_at :: "drive_index \<Rightarrow> nat \<Rightarrow> bool" where
  "dir_at d i \<longleftrightarrow> i < length (di_records d) \<and> is_directory_record (di_records d ! i)"

lemma push_dirs_filter: "push_dirs d cs stack = rev (filter (dir_at d) cs) @ stack"
  by (induction cs arbitrary: stack) (auto simp: dir_at_def vec_get_def)

lemma below_dir_step:
  assumes "dir_at d p"
  shows "(below_dir d)\<^sup>+ `` {p} = set (children_of_record d p) \<union> (below_dir d)\<^sup>+ `` set (filter (dir_at d) (children_of_record d p))"
proof -
  have 1: "below_dir d `` {p} = set (children_of_record d p)" using assms by (auto simp: below_dir_def dir_at_def)
  have "(p, z) \<in> (below_dir d)\<^sup>+ \<longleftrightarrow> (p, z) \<in> below_dir d \<or> (\<exists>y. (p, y) \<in> below_dir d \<and> (y, z) \<in> (below_dir d)\<^sup>+)" for z
    by (metis converse_tranclE r_into_trancl trancl_into_trancl2)
  then have "(below_dir d)\<^sup>+ `` {p} = below_dir d `` {p} \<union> (below_dir d)\<^sup>+ `` (below_dir d `` {p})" by blast
  moreover have "dir_at d c" if "(c, z) \<in> (below_dir d)\<^sup>+" for c z using tranclD [OF that] by (auto simp: below_dir_def dir_at_def)
  then have "(below_dir d)\<^sup>+ `` C = (below_dir d)\<^sup>+ `` {c \<in> C. dir_at d c}" for C by blast
  ultimately show ?thesis using 1 by simp
qed

lemma descend_total:
  assumes "\<And>p c. (p, c) \<in> below_dir d \<Longrightarrow> h c < (h p :: nat)"
  shows "list_all (dir_at d) stack \<Longrightarrow> \<exists>found. descend d stack extra = Some (extra @ found) \<and> set found = (below_dir d)\<^sup>+ `` set stack"
proof (induction "mset (map h stack)" arbitrary: stack extra rule: wf_induct_rule [OF wf_mult [OF wf_less_than]])
  case 1
  note IH = "1.hyps" and stack = "1.prems"
  show ?case
  proof (cases stack)
    case Nil
    then show ?thesis by (simp add: descend.simps)
  next
    case (Cons p rest)
    let ?ch = "children_of_record d p" and ?next = "push_dirs d (children_of_record d p) rest"
    have p: "dir_at d p" using stack Cons by simp
    have "(mset (map h rest) + mset (map h (filter (dir_at d) ?ch)), mset (map h rest) + {#h p#}) \<in> mult less_than"
      using assms p by (intro one_step_implies_mult) (auto simp: below_dir_def dir_at_def)
    then have "(mset (map h ?next), mset (map h stack)) \<in> mult less_than" by (simp add: push_dirs_filter Cons add.commute)
    moreover have "list_all (dir_at d) ?next" using stack by (auto simp: push_dirs_filter Cons list_all_iff)
    ultimately have "\<exists>found. descend d ?next (extra @ ?ch) = Some ((extra @ ?ch) @ found) \<and> set found = (below_dir d)\<^sup>+ `` set ?next" by (rule IH)
    then obtain found where found: "descend d ?next (extra @ ?ch) = Some (extra @ ?ch @ found)" "set found = (below_dir d)\<^sup>+ `` set ?next"
      by (metis append.assoc)
    have "descend d stack extra = Some (extra @ ?ch @ found)" using found(1) unfolding Cons by (subst descend.simps) (simp add: Let_def)
    moreover have "set (?ch @ found) = (below_dir d)\<^sup>+ `` set stack"
    proof -
      have "(below_dir d)\<^sup>+ `` set stack = (below_dir d)\<^sup>+ `` {p} \<union> (below_dir d)\<^sup>+ `` set rest" by (auto simp: Cons)
      then show ?thesis unfolding below_dir_step [OF p] by (auto simp: found(2) push_dirs_filter)
    qed
    ultimately show ?thesis by blast
  qed
qed

lemma descend_all_total:
  assumes "\<And>p c. (p, c) \<in> below_dir d \<Longrightarrow> h c < (h p :: nat)"
  shows "\<exists>found. descend_all d indices extra = Some (extra @ found) \<and> set found = (below_dir d)\<^sup>+ `` set indices"
proof (induction indices arbitrary: extra)
  case (Cons i indices)
  show ?case
  proof (cases "dir_at d i")
    case True
    from descend_total [where d = d and h = h and stack = "[i]" and extra = extra, OF assms] True
    obtain f1 where f1: "descend d [i] extra = Some (extra @ f1)" "set f1 = (below_dir d)\<^sup>+ `` {i}" by auto
    from Cons.IH [of "extra @ f1"]
    obtain f2 where f2: "descend_all d indices (extra @ f1) = Some (extra @ f1 @ f2)" "set f2 = (below_dir d)\<^sup>+ `` set indices" by auto
    have "descend_all d (i # indices) extra = Some (extra @ f1 @ f2)" using True f1(1) f2(1) by (simp add: dir_at_def vec_get_def)
    moreover have "set (f1 @ f2) = (below_dir d)\<^sup>+ `` set (i # indices)" using f1(2) f2(2) by auto
    ultimately show ?thesis by blast
  next
    case False
    then have "(i, z) \<notin> (below_dir d)\<^sup>+" for z using tranclD [of i z] by (auto simp: below_dir_def dir_at_def)
    then have "(below_dir d)\<^sup>+ `` set (i # indices) = (below_dir d)\<^sup>+ `` set indices" by auto
    moreover have "descend_all d (i # indices) extra = descend_all d indices extra" using False by (auto simp: dir_at_def vec_get_def)
    ultimately show ?thesis using Cons.IH by simp
  qed
qed simp

text \<open>
  C21. The path mode of a search returns on every drive whose directories form no cycle, and adds to the
  matching records exactly what is below them.
\<close>

theorem expand_descendants_exact:
  assumes "\<And>p c. (p, c) \<in> below_dir d \<Longrightarrow> h c < (h p :: nat)"
  shows "\<exists>out. expand_directory_descendants d indices = Some out \<and> set out = (below_dir d)\<^sup>* `` set indices"
proof -
  obtain found where found: "descend_all d indices [] = Some found" "set found = (below_dir d)\<^sup>+ `` set indices"
    using descend_all_total [where d = d and h = h and indices = indices and extra = "[]", OF assms] by auto
  have "set indices \<union> (below_dir d)\<^sup>+ `` set indices = (below_dir d)\<^sup>* `` set indices"
    by (auto simp: rtrancl_eq_or_trancl)
  then have "set (indices @ found) = (below_dir d)\<^sup>* `` set indices" using found(2) by simp
  then show ?thesis using found(1) by (cases "found = []") (simp_all add: expand_directory_descendants_def)
qed

definition nested_drive :: drive_index where "nested_drive = sample_drive\<lparr>di_children := ([0, 1, 2, 2], [1, 2])\<rparr>"

theorem expand_descendants_exact_witness:
  "\<exists>out. expand_directory_descendants nested_drive [0] = Some out \<and> set out = (below_dir nested_drive)\<^sup>* `` set [0]"
proof (rule expand_descendants_exact [where h = "\<lambda>i. 5 - i"])
  fix p c assume "(p, c) \<in> below_dir nested_drive"
  then have p: "p = 0 \<or> p = 1" and c: "c \<in> set (csr_get ([0, 1, 2, 2], [1, 2]) p)"
    by (auto simp: below_dir_def nested_drive_def children_of_record_def sample_drive_def children_get_def
        is_directory_record_def DIRECTORY_BIT_def compact_record_default_def nth_Cons' split: if_splits)
  have "csr_get ([0, 1, 2, 2], [1, 2]) 0 = [1]" "csr_get ([0, 1, 2, 2], [1, 2]) 1 = [2]"
    by (simp_all add: csr_get_def vec_get_def slice_get_def Let_def)
  with p c show "5 - c < 5 - p" by auto
qed

end
