(* ===== verification/Mft_Parse.thy ===== *)
theory Mft_Parse
  imports Ntfs_Records
begin

text \<open>
  The parser of whole file records (\<open>crates/uffs-mft/src/parse/\<close>: \<open>attribute_helpers.rs\<close>, \<open>full.rs\<close>,
  \<open>forensic.rs\<close> with its two parts, \<open>name_tracker.rs\<close>, \<open>types.rs\<close>, \<open>zero_alloc.rs\<close>) over the record layer of
  \<open>Ntfs_Records\<close>, with the payloads of \<open>ntfs/metadata.rs\<close>. The three attribute loops of the source share the code
  that reads a header and differ in what they do with an attribute, so the loop takes that step as an argument.
  Sums that overflow panic, as in the shipped build.
\<close>

section \<open>Text\<close>

text \<open>\<open>String::from_utf16\<close>: surrogates must come in pairs.\<close>

fun from_utf16 :: "u16 list \<Rightarrow> str option" where
  "from_utf16 [] = Some []"
| "from_utf16 (u # us) =
     (if unat u < 0xD800 \<or> 0xDFFF < unat u then map_option (Cons (unat u)) (from_utf16 us)
      else if 0xDC00 \<le> unat u then None
      else case us of
             [] \<Rightarrow> None
           | v # vs \<Rightarrow>
               if 0xDC00 \<le> unat v \<and> unat v \<le> 0xDFFF
               then map_option (Cons (0x10000 + (unat u - 0xD800) * 0x400 + (unat v - 0xDC00))) (from_utf16 vs)
               else None)"

text \<open>The formats \<open>{}\<close> and \<open>{:X}\<close> of an unsigned integer.\<close>

fun digits :: "nat \<Rightarrow> nat \<Rightarrow> str" where
  "digits b n =
     (let d = n mod b; c = (if d < 10 then 0x30 + d else 0x37 + d) in
      if b < 2 \<or> n < b then [c] else digits b (n div b) @ [c])"

declare digits.simps [simp del]

section \<open>Attribute payloads\<close>

definition file_reference_to_frs :: "u64 \<Rightarrow> nat" where
  "file_reference_to_frs r = unat (r AND 0x0000FFFFFFFFFFFF)"

record standard_information =
  si_creation_time :: int
  si_modification_time :: int
  si_mft_change_time :: int
  si_access_time :: int
  si_file_attributes :: u32

definition read_standard_information :: "bytes \<Rightarrow> standard_information option" where
  "read_standard_information data = do {
     ct \<leftarrow> read_i64_le_at data 0;
     mt \<leftarrow> read_i64_le_at data 8;
     mc \<leftarrow> read_i64_le_at data 16;
     ac \<leftarrow> read_i64_le_at data 24;
     fa \<leftarrow> read_u32_le_at data 32;
     Some \<lparr>si_creation_time = ct, si_modification_time = mt, si_mft_change_time = mc, si_access_time = ac,
       si_file_attributes = fa\<rparr>
   }"

record standard_information_extended = standard_information +
  si_max_versions :: u32
  si_version_number :: u32
  si_class_id :: u32
  si_owner_id :: u32
  si_security_id :: u32
  si_quota_charged :: u64
  si_usn :: u64

definition read_standard_information_extended :: "bytes \<Rightarrow> standard_information_extended option" where
  "read_standard_information_extended data = do {
     si \<leftarrow> read_standard_information data;
     mv \<leftarrow> read_u32_le_at data 36;
     vn \<leftarrow> read_u32_le_at data 40;
     ci \<leftarrow> read_u32_le_at data 44;
     oi \<leftarrow> read_u32_le_at data 48;
     sc \<leftarrow> read_u32_le_at data 52;
     qc \<leftarrow> read_u64_le_at data 56;
     us \<leftarrow> read_u64_le_at data 64;
     Some (standard_information.extend si
       (standard_information_extended.fields mv vn ci oi sc qc us))
   }"

definition STANDARD_INFO_SIZE_V12 :: nat where "STANDARD_INFO_SIZE_V12 = 36"
definition STANDARD_INFO_SIZE_V30 :: nat where "STANDARD_INFO_SIZE_V30 = 72"

record file_name_attribute =
  fna_parent_directory :: u64
  fna_creation_time :: int
  fna_modification_time :: int
  fna_mft_change_time :: int
  fna_access_time :: int
  fna_allocated_size :: int
  fna_data_size :: int
  fna_file_attributes :: u32
  fna_packed_ea_size :: u16
  fna_reserved :: u16
  fna_file_name_length :: u8
  fna_file_name_namespace :: u8

definition read_file_name_attribute :: "bytes \<Rightarrow> file_name_attribute option" where
  "read_file_name_attribute data = do {
     pd \<leftarrow> read_u64_le_at data 0;
     ct \<leftarrow> read_i64_le_at data 8;
     mt \<leftarrow> read_i64_le_at data 16;
     mc \<leftarrow> read_i64_le_at data 24;
     ac \<leftarrow> read_i64_le_at data 32;
     al \<leftarrow> read_i64_le_at data 40;
     ds \<leftarrow> read_i64_le_at data 48;
     fa \<leftarrow> read_u32_le_at data 56;
     pe \<leftarrow> read_u16_le_at data 60;
     rs \<leftarrow> read_u16_le_at data 62;
     nl \<leftarrow> read_u8_at data 64;
     ns \<leftarrow> read_u8_at data 65;
     Some \<lparr>fna_parent_directory = pd, fna_creation_time = ct, fna_modification_time = mt, fna_mft_change_time = mc,
       fna_access_time = ac, fna_allocated_size = al, fna_data_size = ds, fna_file_attributes = fa,
       fna_packed_ea_size = pe, fna_reserved = rs, fna_file_name_length = nl, fna_file_name_namespace = ns\<rparr>
   }"

record reparse_point_header =
  rph_reparse_tag :: u32
  rph_data_length :: u16
  rph_reserved :: u16

definition read_reparse_point_header :: "bytes \<Rightarrow> reparse_point_header option" where
  "read_reparse_point_header data = do {
     tag \<leftarrow> read_u32_le_at data 0;
     len \<leftarrow> read_u16_le_at data 4;
     rs \<leftarrow> read_u16_le_at data 6;
     Some \<lparr>rph_reparse_tag = tag, rph_data_length = len, rph_reserved = rs\<rparr>
   }"

section \<open>Parsed data\<close>

record name_info =
  ni_name :: str
  ni_parent_frs :: nat
  ni_namespace :: u8
  ni_created :: int
  ni_modified :: int
  ni_accessed :: int
  ni_mft_changed :: int
  ni_source_frs :: nat

record stream_info =
  st_name :: str
  st_size :: nat
  st_allocated_size :: nat
  st_is_sparse :: bool
  st_is_compressed :: bool
  st_is_resident :: bool

record ext_std_info =
  es_created :: int
  es_modified :: int
  es_accessed :: int
  es_mft_changed :: int
  es_usn :: u64
  es_security_id :: u32
  es_owner_id :: u32
  es_quota_charged :: u64
  es_max_versions :: u32
  es_version_number :: u32
  es_class_id :: u32
  es_is_readonly :: bool
  es_is_hidden :: bool
  es_is_system :: bool
  es_is_archive :: bool
  es_is_device :: bool
  es_is_normal :: bool
  es_is_temporary :: bool
  es_is_sparse :: bool
  es_is_reparse :: bool
  es_is_compressed :: bool
  es_is_offline :: bool
  es_is_not_content_indexed :: bool
  es_is_encrypted :: bool
  es_is_integrity_stream :: bool
  es_is_virtual :: bool
  es_is_no_scrub_data :: bool
  es_is_pinned :: bool
  es_is_unpinned :: bool

definition from_attributes :: "u32 \<Rightarrow> ext_std_info" where
  "from_attributes attrs = \<lparr>es_created = 0, es_modified = 0, es_accessed = 0, es_mft_changed = 0, es_usn = 0,
     es_security_id = 0, es_owner_id = 0, es_quota_charged = 0, es_max_versions = 0, es_version_number = 0, es_class_id = 0,
     es_is_readonly = (attrs AND 0x0001 \<noteq> 0), es_is_hidden = (attrs AND 0x0002 \<noteq> 0), es_is_system = (attrs AND 0x0004 \<noteq> 0),
     es_is_archive = (attrs AND 0x0020 \<noteq> 0), es_is_device = (attrs AND 0x0040 \<noteq> 0), es_is_normal = (attrs AND 0x0080 \<noteq> 0),
     es_is_temporary = (attrs AND 0x0100 \<noteq> 0), es_is_sparse = (attrs AND 0x0200 \<noteq> 0), es_is_reparse = (attrs AND 0x0400 \<noteq> 0),
     es_is_compressed = (attrs AND 0x0800 \<noteq> 0), es_is_offline = (attrs AND 0x1000 \<noteq> 0),
     es_is_not_content_indexed = (attrs AND 0x2000 \<noteq> 0), es_is_encrypted = (attrs AND 0x4000 \<noteq> 0),
     es_is_integrity_stream = (attrs AND 0x8000 \<noteq> 0), es_is_virtual = (attrs AND 0x00010000 \<noteq> 0),
     es_is_no_scrub_data = (attrs AND 0x00020000 \<noteq> 0), es_is_pinned = (attrs AND 0x00080000 \<noteq> 0),
     es_is_unpinned = (attrs AND 0x00100000 \<noteq> 0)\<rparr>"

definition to_raw_flags :: "ext_std_info \<Rightarrow> u32" where
  "to_raw_flags s = foldl (\<lambda>flags (on, b). if on then flags OR b else flags) 0
     [(es_is_readonly s, 0x0001), (es_is_hidden s, 0x0002), (es_is_system s, 0x0004), (es_is_archive s, 0x0020),
      (es_is_device s, 0x0040), (es_is_normal s, 0x0080), (es_is_temporary s, 0x0100), (es_is_sparse s, 0x0200),
      (es_is_reparse s, 0x0400), (es_is_compressed s, 0x0800), (es_is_offline s, 0x1000),
      (es_is_not_content_indexed s, 0x2000), (es_is_encrypted s, 0x4000), (es_is_integrity_stream s, 0x8000),
      (es_is_virtual s, 0x00010000), (es_is_no_scrub_data s, 0x00020000), (es_is_pinned s, 0x00080000),
      (es_is_unpinned s, 0x00100000)]"

text \<open>The derived default has every number zero and every flag off, which is what no attribute gives.\<close>

definition ext_std_info_default :: ext_std_info where "ext_std_info_default = from_attributes 0"

datatype std_info_parse = SI_Absent | SI_V30 | SI_V12 | SI_Malformed

definition is_malformed :: "std_info_parse \<Rightarrow> bool" where "is_malformed p \<longleftrightarrow> p = SI_Malformed"
definition is_decoded :: "std_info_parse \<Rightarrow> bool" where "is_decoded p \<longleftrightarrow> p = SI_V30 \<or> p = SI_V12"

section \<open>Indexing\<close>

text \<open>The parsers read a record in two ways: \<open>data.get(a..b)\<close> gives nothing when the range leaves the record (\<open>read_u16_le_at\<close>
  and its kin), and \<open>data[a..b]\<close> panics there. The readers below are of the second kind: their \<open>None\<close> is the panic.\<close>

definition slice_from :: "bytes \<Rightarrow> nat \<Rightarrow> bytes rust" where
  "slice_from data a = (if a \<le> length data then Some (drop a data) else None)"

definition i64_at :: "bytes \<Rightarrow> nat \<Rightarrow> int rust" where
  "i64_at data offset = map_option (\<lambda>bs. sint (from_le_bytes bs :: u64)) (slice_get data offset (offset + 8))"

section \<open>The three attributes with a payload\<close>

definition parse_standard_info_full :: "bytes \<Rightarrow> nat \<Rightarrow> ext_std_info \<Rightarrow> (std_info_parse \<times> ext_std_info) rust" where
  "parse_standard_info_full data attr_offset result =
     (case read_u32_le_at data (attr_offset + 16) of None \<Rightarrow> Some (SI_Malformed, result)
      | Some value_length \<Rightarrow>
     (case read_u16_le_at data (attr_offset + 20) of None \<Rightarrow> Some (SI_Malformed, result)
      | Some value_offset \<Rightarrow>
      (let si_offset = attr_offset + unat value_offset in
       if unat value_length \<ge> STANDARD_INFO_SIZE_V30 \<and> si_offset + 72 \<le> length data then do {
         bs \<leftarrow> slice_from data si_offset;
         Some (case read_standard_information_extended bs of
            None \<Rightarrow> (SI_Malformed, result)
          | Some si \<Rightarrow> (SI_V30, (from_attributes (si_file_attributes si))\<lparr>es_created := si_creation_time si,
              es_modified := si_modification_time si, es_accessed := si_access_time si, es_mft_changed := si_mft_change_time si,
              es_usn := si_usn si, es_security_id := si_security_id si, es_owner_id := si_owner_id si,
              es_quota_charged := si_quota_charged si, es_max_versions := si_max_versions si,
              es_version_number := si_version_number si, es_class_id := si_class_id si\<rparr>))
       } else if unat value_length \<ge> STANDARD_INFO_SIZE_V12 \<and> si_offset + 36 \<le> length data then do {
         bs \<leftarrow> slice_from data si_offset;
         Some (case read_standard_information bs of
            None \<Rightarrow> (SI_Malformed, result)
          | Some si \<Rightarrow> (SI_V12, (from_attributes (si_file_attributes si))\<lparr>es_created := si_creation_time si,
              es_modified := si_modification_time si, es_accessed := si_access_time si, es_mft_changed := si_mft_change_time si,
              es_usn := 0, es_security_id := 0, es_owner_id := 0\<rparr>))
       } else Some (SI_Malformed, result))))"

definition parse_file_name_full :: "bytes \<Rightarrow> nat \<Rightarrow> nat \<Rightarrow> name_info option rust" where
  "parse_file_name_full data attr_offset source_frs =
     (case read_u16_le_at data (attr_offset + 20) of
        None \<Rightarrow> Some None
      | Some value_offset \<Rightarrow>
          let fn_offset = attr_offset + unat value_offset in
          if fn_offset + 66 > length data then Some None
          else do {
            bs \<leftarrow> slice_from data fn_offset;
            case read_file_name_attribute bs of
              None \<Rightarrow> Some None
            | Some fn_attr \<Rightarrow>
                let name_len = unat (fna_file_name_length fn_attr); name_offset = fn_offset + 66 in
                if name_offset + name_len * 2 > length data then Some None
                else do {
                  name_bytes \<leftarrow> slice_get data name_offset (name_offset + name_len * 2);
                  Some (case from_utf16 (as_chunks2 name_bytes) of
                    None \<Rightarrow> None
                  | Some name \<Rightarrow>
                      Some \<lparr>ni_name = name, ni_parent_frs = file_reference_to_frs (fna_parent_directory fn_attr),
                        ni_namespace = fna_file_name_namespace fn_attr, ni_created = fna_creation_time fn_attr,
                        ni_modified = fna_modification_time fn_attr, ni_accessed = fna_access_time fn_attr,
                        ni_mft_changed = fna_mft_change_time fn_attr, ni_source_frs = source_frs\<rparr>)
                }
          })"

text \<open>The sizes of a non-resident stream: data, allocated and whether it is sparse and compressed.\<close>

definition non_resident_sizes ::
    "bytes \<Rightarrow> nat \<Rightarrow> attribute_record_header \<Rightarrow> bool \<Rightarrow> (nat \<times> nat \<times> bool \<times> bool) option rust" where
  "non_resident_sizes data nr_offset h is_badclus_bad =
     (if nr_offset + 48 > length data then Some None
      else do {
        allocated \<leftarrow> i64_at data (nr_offset + 24);
        data_sz \<leftarrow> i64_at data (nr_offset + 32);
        initialized \<leftarrow> i64_at data (nr_offset + 40);
        unit \<leftarrow> vec_get data (nr_offset + 18);
        let compressed = (unit > 0);
        let sparse = (arh_flags h AND 0x8000 \<noteq> 0);
        effective_raw \<leftarrow>
          (if compressed then (if nr_offset + 56 \<le> length data then i64_at data (nr_offset + 48) else Some allocated)
           else Some allocated);
        Some (Some (nonneg_to_u64 (if is_badclus_bad then initialized else data_sz),
                    nonneg_to_u64 (if is_badclus_bad then initialized else effective_raw), sparse, compressed))
      })"

text \<open>The name of a stream: none is given up when it leaves the record, and text that is not UTF-16 reads as empty.\<close>

definition data_stream_name :: "bytes \<Rightarrow> nat \<Rightarrow> attribute_record_header \<Rightarrow> str option rust" where
  "data_stream_name data attr_offset h =
     (if arh_name_length h > 0 then
        let name_offset = attr_offset + unat (arh_name_offset h); name_len = unat (arh_name_length h) in
        if name_offset + name_len * 2 > length data then Some None
        else do {
          name_bytes \<leftarrow> slice_get data name_offset (name_offset + name_len * 2);
          Some (Some (case from_utf16 (as_chunks2 name_bytes) of None \<Rightarrow> [] | Some name \<Rightarrow> name))
        }
      else Some (Some []))"

text \<open>Whether a non-resident attribute is a continuation, whose lowest cluster number is not zero; \<open>None\<close> inside when
  the number lies outside the record.\<close>

definition lowest_vcn :: "bytes \<Rightarrow> nat \<Rightarrow> int option rust" where
  "lowest_vcn data attr_offset =
     (let nr_offset = attr_offset + 16 in
      if nr_offset + 8 > length data then Some None else map_option Some (i64_at data nr_offset))"

definition parse_data_attribute_full :: "bytes \<Rightarrow> nat \<Rightarrow> attribute_record_header \<Rightarrow> nat \<Rightarrow> stream_info option rust" where
  "parse_data_attribute_full data attr_offset h frs = do {
     name \<leftarrow> data_stream_name data attr_offset h;
     case name of
       None \<Rightarrow> Some None
     | Some stream_name \<Rightarrow>
         if arh_is_non_resident h = 0 then
           Some (case read_u32_le_at data (attr_offset + 16) of
                   None \<Rightarrow> None
                 | Some value_length \<Rightarrow>
                     Some \<lparr>st_name = stream_name, st_size = unat value_length, st_allocated_size = 0, st_is_sparse = False,
                       st_is_compressed = False, st_is_resident = True\<rparr>)
         else do {
           lowest \<leftarrow> lowest_vcn data attr_offset;
           if lowest \<noteq> Some 0 then Some None
           else do {
             sizes \<leftarrow> non_resident_sizes data (attr_offset + 16) h (frs = 8 \<and> stream_name = chars_of ''$Bad'');
             Some (case sizes of
                     None \<Rightarrow> None
                   | Some (sz, allocated, sparse, compressed) \<Rightarrow>
                       Some \<lparr>st_name = stream_name, st_size = sz, st_allocated_size = allocated, st_is_sparse = sparse,
                         st_is_compressed = compressed, st_is_resident = False\<rparr>)
           }
         }
   }"

section \<open>The primary name\<close>

record primary_name_tracker =
  pn_name :: str
  pn_parent_frs :: nat
  pn_namespace :: u8
  pn_created :: int
  pn_modified :: int
  pn_accessed :: int
  pn_mft_changed :: int

definition INVALID_NAMESPACE :: u8 where "INVALID_NAMESPACE = 255"

definition tracker_default :: primary_name_tracker where
  "tracker_default = \<lparr>pn_name = [], pn_parent_frs = 0, pn_namespace = INVALID_NAMESPACE, pn_created = 0, pn_modified = 0,
     pn_accessed = 0, pn_mft_changed = 0\<rparr>"

definition tracker_of :: "name_info \<Rightarrow> primary_name_tracker" where
  "tracker_of n = \<lparr>pn_name = ni_name n, pn_parent_frs = ni_parent_frs n, pn_namespace = ni_namespace n, pn_created = ni_created n,
     pn_modified = ni_modified n, pn_accessed = ni_accessed n, pn_mft_changed = ni_mft_changed n\<rparr>"

definition tracker_update :: "primary_name_tracker \<Rightarrow> name_info \<Rightarrow> primary_name_tracker" where
  "tracker_update t n =
     (let dominated = (pn_namespace t = INVALID_NAMESPACE);
          is_better = (ni_namespace n = 1 \<or> ni_namespace n = 3 \<or> (ni_namespace n = 0 \<and> dominated))
      in if is_better \<or> dominated then tracker_of n else t)"

section \<open>One attribute\<close>

record parse_state =
  ps_names :: "name_info list"
  ps_streams :: "stream_info list"
  ps_std_info :: ext_std_info
  ps_std_info_parse :: std_info_parse
  ps_primary :: primary_name_tracker
  ps_reparse_tag :: u32
  ps_reparse_size :: nat
  ps_dir_index_size :: nat
  ps_dir_index_allocated :: nat

definition parse_state_init :: parse_state where
  "parse_state_init = \<lparr>ps_names = [], ps_streams = [], ps_std_info = ext_std_info_default, ps_std_info_parse = SI_Absent,
     ps_primary = tracker_default, ps_reparse_tag = 0, ps_reparse_size = 0, ps_dir_index_size = 0, ps_dir_index_allocated = 0\<rparr>"

text \<open>The bytes of the attribute's own name, when it has one that lies in the record.\<close>

definition attr_name_bytes :: "bytes \<Rightarrow> nat \<Rightarrow> attribute_record_header \<Rightarrow> bytes option rust" where
  "attr_name_bytes data offset h =
     (if arh_name_length h > 0 then
        let name_offset = offset + unat (arh_name_offset h); name_len = unat (arh_name_length h) in
        if name_offset + name_len * 2 \<le> length data
        then map_option Some (slice_get data name_offset (name_offset + name_len * 2)) else Some None
      else Some None)"

definition attr_name :: "bytes \<Rightarrow> nat \<Rightarrow> attribute_record_header \<Rightarrow> str rust" where
  "attr_name data offset h = do {
     name_bytes \<leftarrow> attr_name_bytes data offset h;
     Some (case name_bytes of
             None \<Rightarrow> []
           | Some bs \<Rightarrow> (case from_utf16 (as_chunks2 bs) of None \<Rightarrow> [] | Some name \<Rightarrow> name))
   }"

definition is_i30 :: "bytes \<Rightarrow> nat \<Rightarrow> attribute_record_header \<Rightarrow> bool rust" where
  "is_i30 data offset h = do {
     name_bytes \<leftarrow> attr_name_bytes data offset h;
     Some (arh_name_length h = 4 \<and> name_bytes = Some [0x24, 0, 0x49, 0, 0x33, 0, 0x30, 0])
   }"

definition is_primary :: "bytes \<Rightarrow> nat \<Rightarrow> attribute_record_header \<Rightarrow> bool rust" where
  "is_primary data offset h =
     (if arh_is_non_resident h = 0 then Some True
      else let nr_offset = offset + 16 in
           if nr_offset + 8 \<le> length data then map_option (\<lambda>vcn. vcn = 0) (i64_at data nr_offset) else Some False)"

definition value_length_at :: "bytes \<Rightarrow> nat \<Rightarrow> nat" where
  "value_length_at data offset = (case read_u32_le_at data (offset + 16) of None \<Rightarrow> 0 | Some n \<Rightarrow> unat n)"

text \<open>Size, allocated size and residence, as every branch but that of the data streams takes them.\<close>

definition attr_sizes :: "bytes \<Rightarrow> nat \<Rightarrow> attribute_record_header \<Rightarrow> (nat \<times> nat \<times> bool) rust" where
  "attr_sizes data offset h =
     (if arh_is_non_resident h = 0 then Some (value_length_at data offset, 0, True)
      else let nr_offset = offset + 16 in
           if nr_offset + 48 \<le> length data then do {
             allocated \<leftarrow> i64_at data (nr_offset + 24);
             data_size \<leftarrow> i64_at data (nr_offset + 32);
             Some (nonneg_to_u64 data_size, nonneg_to_u64 allocated, False)
           } else Some (0, 0, False))"

definition attr_stream :: "str \<Rightarrow> nat \<times> nat \<times> bool \<Rightarrow> stream_info" where
  "attr_stream name sizes = (case sizes of (sz, allocated, resident) \<Rightarrow>
     \<lparr>st_name = name, st_size = sz, st_allocated_size = allocated, st_is_sparse = False, st_is_compressed = False,
       st_is_resident = resident\<rparr>)"

definition type_stream_name :: "attribute_type \<Rightarrow> str" where
  "type_stream_name t = chars_of (case t of
       Bitmap \<Rightarrow> ''$BITMAP'' | IndexRoot \<Rightarrow> ''$INDEX_ROOT'' | IndexAllocation \<Rightarrow> ''$INDEX_ALLOCATION''
     | ObjectId \<Rightarrow> ''$OBJECT_ID'' | VolumeName \<Rightarrow> ''$VOLUME_NAME'' | VolumeInformation \<Rightarrow> ''$VOLUME_INFORMATION''
     | PropertySet \<Rightarrow> ''$PROPERTY_SET'' | Ea \<Rightarrow> ''$EA'' | EaInformation \<Rightarrow> ''$EA_INFORMATION''
     | LoggedUtilityStream \<Rightarrow> ''$LOGGED_UTILITY_STREAM'' | SecurityDescriptor \<Rightarrow> ''$SECURITY_DESCRIPTOR''
     | AttributeList \<Rightarrow> ''$ATTRIBUTE_LIST'' | _ \<Rightarrow> [])"

definition unknown_stream_name :: "u32 \<Rightarrow> str" where
  "unknown_stream_name type_code = chars_of ''$UNKNOWN_0x'' @ digits 16 (unat type_code)"

definition add_stream :: "parse_state \<Rightarrow> stream_info \<Rightarrow> parse_state" where
  "add_stream st s = st\<lparr>ps_streams := ps_streams st @ [s]\<rparr>"

definition named_or :: "str \<Rightarrow> str \<Rightarrow> str" where
  "named_or name fallback = (if name = [] then fallback else name)"

definition file_name_step :: "bytes \<Rightarrow> nat \<Rightarrow> nat \<Rightarrow> parse_state \<Rightarrow> parse_state rust" where
  "file_name_step data frs offset st = do {
     name_info \<leftarrow> parse_file_name_full data offset frs;
     Some (case name_info of
             Some n \<Rightarrow> (if ni_namespace n \<noteq> 2
                        then st\<lparr>ps_primary := tracker_update (ps_primary st) n, ps_names := ps_names st @ [n]\<rparr> else st)
           | None \<Rightarrow> st)
   }"

definition data_step :: "bytes \<Rightarrow> nat \<Rightarrow> nat \<Rightarrow> attribute_record_header \<Rightarrow> parse_state \<Rightarrow> parse_state rust" where
  "data_step data frs offset h st = do {
     stream_info \<leftarrow> parse_data_attribute_full data offset h frs;
     Some (case stream_info of Some s \<Rightarrow> add_stream st s | None \<Rightarrow> st)
   }"

definition standard_info_step :: "bytes \<Rightarrow> nat \<Rightarrow> parse_state \<Rightarrow> parse_state rust" where
  "standard_info_step data offset st = do {
     (p, si) \<leftarrow> parse_standard_info_full data offset (ps_std_info st);
     Some (st\<lparr>ps_std_info := si, ps_std_info_parse := p\<rparr>)
   }"

definition reparse_tag_at :: "bytes \<Rightarrow> nat \<Rightarrow> attribute_record_header \<Rightarrow> u32 \<Rightarrow> u32 rust" where
  "reparse_tag_at data offset h reparse_tag =
     (if arh_is_non_resident h = 0 then
        let value_offset = (case read_u16_le_at data (offset + 20) of None \<Rightarrow> 0 | Some n \<Rightarrow> unat n);
            rp_offset = offset + value_offset
        in if rp_offset + 8 \<le> length data then do {
             bs \<leftarrow> slice_from data rp_offset;
             Some (case read_reparse_point_header bs of Some rp \<Rightarrow> rph_reparse_tag rp | None \<Rightarrow> reparse_tag)
           } else Some reparse_tag
      else Some reparse_tag)"

definition reparse_step :: "bytes \<Rightarrow> nat \<Rightarrow> attribute_record_header \<Rightarrow> parse_state \<Rightarrow> parse_state rust" where
  "reparse_step data offset h st = do {
     tag \<leftarrow> reparse_tag_at data offset h (ps_reparse_tag st);
     sizes \<leftarrow> attr_sizes data offset h;
     Some (add_stream (st\<lparr>ps_reparse_size := fst sizes, ps_reparse_tag := tag\<rparr>) (attr_stream (chars_of ''$REPARSE'') sizes))
   }"

definition add_dir_index :: "parse_state \<Rightarrow> nat \<times> nat \<times> bool \<Rightarrow> parse_state rust" where
  "add_dir_index st sizes = (case sizes of (sz, allocated, _) \<Rightarrow> do {
     dir_size \<leftarrow> u64_add (ps_dir_index_size st) sz;
     dir_allocated \<leftarrow> u64_add (ps_dir_index_allocated st) allocated;
     Some (st\<lparr>ps_dir_index_size := dir_size, ps_dir_index_allocated := dir_allocated\<rparr>)
   })"

definition any_stream :: "bytes \<Rightarrow> nat \<Rightarrow> attribute_record_header \<Rightarrow> str \<Rightarrow> parse_state \<Rightarrow> parse_state rust" where
  "any_stream data offset h fallback st = do {
     name \<leftarrow> attr_name data offset h;
     sizes \<leftarrow> attr_sizes data offset h;
     Some (add_stream st (attr_stream (named_or name fallback) sizes))
   }"

definition primary_stream :: "bytes \<Rightarrow> nat \<Rightarrow> attribute_record_header \<Rightarrow> str \<Rightarrow> parse_state \<Rightarrow> parse_state rust" where
  "primary_stream data offset h fallback st = do {
     name \<leftarrow> attr_name data offset h;
     primary \<leftarrow> is_primary data offset h;
     if \<not> primary then Some st
     else do {
       sizes \<leftarrow> attr_sizes data offset h;
       Some (add_stream st (attr_stream (named_or name fallback) sizes))
     }
   }"

definition is_index_type :: "attribute_type \<Rightarrow> bool" where
  "is_index_type t \<longleftrightarrow> t \<in> {IndexRoot, IndexAllocation, Bitmap}"

definition is_listed_type :: "attribute_type \<Rightarrow> bool" where
  "is_listed_type t \<longleftrightarrow> t \<in> {ObjectId, VolumeName, VolumeInformation, PropertySet, Ea, EaInformation, LoggedUtilityStream,
     SecurityDescriptor, AttributeList}"

definition index_size_step :: "bytes \<Rightarrow> nat \<Rightarrow> attribute_record_header \<Rightarrow> parse_state \<Rightarrow> parse_state rust" where
  "index_size_step data offset h st = do {
     sizes \<leftarrow> attr_sizes data offset h;
     add_dir_index st sizes
   }"

definition index_step :: "bytes \<Rightarrow> nat \<Rightarrow> attribute_record_header \<Rightarrow> attribute_type \<Rightarrow> parse_state \<Rightarrow> parse_state rust" where
  "index_step data offset h t st = do {
     i30 \<leftarrow> is_i30 data offset h;
     if i30 then index_size_step data offset h st else primary_stream data offset h (type_stream_name t) st
   }"

section \<open>The attribute loop\<close>

type_synonym attr_step = "nat \<Rightarrow> attribute_record_header \<Rightarrow> parse_state \<Rightarrow> parse_state rust"

definition full_step :: "bytes \<Rightarrow> nat \<Rightarrow> attr_step" where
  "full_step data frs offset h st =
     (case attribute_type_from_u32 (arh_type_code h) of
        Some t \<Rightarrow>
          (if t = StandardInformation then (if arh_is_non_resident h = 0 then standard_info_step data offset st else Some st)
           else if t = FileName then (if arh_is_non_resident h = 0 then file_name_step data frs offset st else Some st)
           else if t = DataAttr then data_step data frs offset h st
           else if t = ReparsePoint then reparse_step data offset h st
           else if is_index_type t then index_step data offset h t st
           else if is_listed_type t then primary_stream data offset h (type_stream_name t) st
           else primary_stream data offset h (unknown_stream_name (arh_type_code h)) st)
      | None \<Rightarrow> primary_stream data offset h (unknown_stream_name (arh_type_code h)) st)"

text \<open>The forensic base parser counts the remaining attributes without asking whether they are primary, and among
  them the standard information and file names that are not resident.\<close>

definition base_step :: "bytes \<Rightarrow> nat \<Rightarrow> attr_step" where
  "base_step data frs offset h st =
     (case attribute_type_from_u32 (arh_type_code h) of
        Some t \<Rightarrow>
          (if t = StandardInformation \<and> arh_is_non_resident h = 0 then standard_info_step data offset st
           else if t = FileName \<and> arh_is_non_resident h = 0 then file_name_step data frs offset st
           else if t = DataAttr then data_step data frs offset h st
           else if t = ReparsePoint then reparse_step data offset h st
           else if is_index_type t then index_step data offset h t st
           else if is_listed_type t then primary_stream data offset h (type_stream_name t) st
           else any_stream data offset h (unknown_stream_name (arh_type_code h)) st)
      | None \<Rightarrow> any_stream data offset h (unknown_stream_name (arh_type_code h)) st)"

definition extension_step :: "bytes \<Rightarrow> nat \<Rightarrow> attr_step" where
  "extension_step data frs offset h st =
     (case attribute_type_from_u32 (arh_type_code h) of
        Some t \<Rightarrow>
          (if t = FileName \<and> arh_is_non_resident h = 0 then file_name_step data frs offset st
           else if t = DataAttr then data_step data frs offset h st
           else if t = ReparsePoint then do {
             sizes \<leftarrow> attr_sizes data offset h;
             Some (add_stream st (attr_stream (chars_of ''$REPARSE'') sizes))
           }
           else if is_index_type t then do {
             i30 \<leftarrow> is_i30 data offset h;
             if i30 then (if t = Bitmap then Some st else index_size_step data offset h st)
             else any_stream data offset h (type_stream_name t) st
           }
           else if is_listed_type t then any_stream data offset h (type_stream_name t) st
           else any_stream data offset h (unknown_stream_name (arh_type_code h)) st)
      | None \<Rightarrow> any_stream data offset h (unknown_stream_name (arh_type_code h)) st)"

function attribute_loop :: "attr_step \<Rightarrow> bytes \<Rightarrow> nat \<Rightarrow> nat \<Rightarrow> parse_state \<Rightarrow> parse_state rust" where
  "attribute_loop step data max_offset offset st =
     (if offset + 16 \<le> max_offset then
        (case slice_from data offset of
           None \<Rightarrow> None
         | Some bs \<Rightarrow>
        (case parse_attribute_record_header bs of
           None \<Rightarrow> Some st
         | Some h \<Rightarrow>
             if arh_type_code h = 0xFFFFFFFF then Some st
             else if arh_length h = 0 \<or> offset + unat (arh_length h) > max_offset then Some st
             else (case step offset h st of
                     None \<Rightarrow> None
                   | Some st' \<Rightarrow> attribute_loop step data max_offset (offset + unat (arh_length h)) st')))
      else Some st)"
  by pat_completeness auto
termination
  by (relation "measure (\<lambda>(_, _, max_offset, offset, _). max_offset - offset)") (auto intro!: diff_less_mono2 simp: unat_gt_0)

declare attribute_loop.simps [simp del]

section \<open>Whole records\<close>

record parsed_record =
  pr_frs :: nat
  pr_sequence_number :: u16
  pr_lsn :: u64
  pr_parent_frs :: nat
  pr_name :: str
  pr_namespace :: u8
  pr_names :: "name_info list"
  pr_streams :: "stream_info list"
  pr_size :: nat
  pr_allocated_size :: nat
  pr_std_info :: ext_std_info
  pr_in_use :: bool
  pr_is_directory :: bool
  pr_fn_created :: int
  pr_fn_modified :: int
  pr_fn_accessed :: int
  pr_fn_mft_changed :: int
  pr_reparse_tag :: u32
  pr_std_info_parse :: std_info_parse
  pr_is_deleted :: bool
  pr_is_corrupt :: bool
  pr_is_extension :: bool
  pr_base_frs :: nat

definition parsed_record_default :: parsed_record where
  "parsed_record_default = \<lparr>pr_frs = 0, pr_sequence_number = 0, pr_lsn = 0, pr_parent_frs = 0, pr_name = [], pr_namespace = 0,
     pr_names = [], pr_streams = [], pr_size = 0, pr_allocated_size = 0, pr_std_info = ext_std_info_default, pr_in_use = False,
     pr_is_directory = False, pr_fn_created = 0, pr_fn_modified = 0, pr_fn_accessed = 0, pr_fn_mft_changed = 0,
     pr_reparse_tag = 0, pr_std_info_parse = SI_Absent, pr_is_deleted = False, pr_is_corrupt = False, pr_is_extension = False,
     pr_base_frs = 0\<rparr>"

definition name_count :: "parsed_record \<Rightarrow> nat" where "name_count r = len_to_u16 (length (pr_names r))"
definition stream_count :: "parsed_record \<Rightarrow> nat" where "stream_count r = len_to_u16 (length (pr_streams r))"

definition record_flags :: "parsed_record \<Rightarrow> u16" where
  "record_flags r = ucast (to_raw_flags (pr_std_info r) AND 0xFFFF)"

record extension_attributes =
  ea_base_frs :: nat
  ea_extension_frs :: nat
  ea_names :: "name_info list"
  ea_streams :: "stream_info list"
  ea_dir_index_size :: nat
  ea_dir_index_allocated :: nat

datatype parse_result = PR_Base parsed_record | PR_Extension extension_attributes | PR_Skip

record parse_options =
  include_deleted :: bool
  include_corrupt :: bool
  include_extensions :: bool

definition parse_options_DEFAULT :: parse_options where
  "parse_options_DEFAULT = \<lparr>include_deleted = False, include_corrupt = False, include_extensions = False\<rparr>"
definition parse_options_FORENSIC :: parse_options where
  "parse_options_FORENSIC = \<lparr>include_deleted = True, include_corrupt = True, include_extensions = True\<rparr>"
definition is_forensic :: "parse_options \<Rightarrow> bool" where
  "is_forensic o' \<longleftrightarrow> include_deleted o' \<or> include_corrupt o' \<or> include_extensions o'"

text \<open>What both parsers make of the loop's result: the index of a directory becomes its default stream.\<close>

definition closing_streams :: "bool \<Rightarrow> parse_state \<Rightarrow> stream_info list" where
  "closing_streams directory st =
     ps_streams st @ (if directory \<and> ps_dir_index_size st > 0
       then [\<lparr>st_name = [], st_size = ps_dir_index_size st, st_allocated_size = ps_dir_index_allocated st, st_is_sparse = False,
              st_is_compressed = False, st_is_resident = False\<rparr>] else [])"

definition primary_sizes :: "bool \<Rightarrow> parse_state \<Rightarrow> nat \<times> nat" where
  "primary_sizes directory st =
     (if directory \<and> ps_dir_index_size st > 0 then (ps_dir_index_size st, ps_dir_index_allocated st)
      else case find (\<lambda>s. st_name s = []) (closing_streams directory st) of
             None \<Rightarrow> if ps_reparse_tag st \<noteq> 0 then (ps_reparse_size st, 0) else (0, 0)
           | Some s \<Rightarrow> (st_size s, st_allocated_size s))"

definition record_of_state :: "file_record_segment_header \<Rightarrow> nat \<Rightarrow> parse_state \<Rightarrow> parsed_record" where
  "record_of_state h frs st =
     (let p = ps_primary st; directory = is_directory h in
      \<lparr>pr_frs = frs, pr_sequence_number = sequence_number h, pr_lsn = log_file_sequence_number h, pr_parent_frs = pn_parent_frs p,
       pr_name = pn_name p, pr_namespace = pn_namespace p, pr_names = ps_names st, pr_streams = closing_streams directory st,
       pr_size = fst (primary_sizes directory st), pr_allocated_size = snd (primary_sizes directory st),
       pr_std_info = ps_std_info st, pr_in_use = True, pr_is_directory = directory, pr_fn_created = pn_created p,
       pr_fn_modified = pn_modified p, pr_fn_accessed = pn_accessed p, pr_fn_mft_changed = pn_mft_changed p,
       pr_reparse_tag = ps_reparse_tag st, pr_std_info_parse = ps_std_info_parse st, pr_is_deleted = False,
       pr_is_corrupt = False, pr_is_extension = False, pr_base_frs = 0\<rparr>)"

definition run_attributes :: "attr_step \<Rightarrow> bytes \<Rightarrow> file_record_segment_header \<Rightarrow> parse_state rust" where
  "run_attributes step data h =
     attribute_loop step data (min (unat (bytes_in_use h)) (length data)) (unat (first_attribute_offset h)) parse_state_init"

definition extension_of_state :: "nat \<Rightarrow> nat \<Rightarrow> parse_state \<Rightarrow> extension_attributes" where
  "extension_of_state base_frs frs st = \<lparr>ea_base_frs = base_frs, ea_extension_frs = frs, ea_names = ps_names st,
     ea_streams = ps_streams st, ea_dir_index_size = ps_dir_index_size st, ea_dir_index_allocated = ps_dir_index_allocated st\<rparr>"

definition parse_record_full :: "bytes \<Rightarrow> nat \<Rightarrow> parse_result rust" where
  "parse_record_full data frs =
     (if length data < 48 then Some PR_Skip
      else case parse_file_record_segment_header data of
        None \<Rightarrow> Some PR_Skip
      | Some h \<Rightarrow>
          if \<not> is_in_use h then Some PR_Skip
          else if \<not> is_file_record (frs_multi_sector_header h) then Some PR_Skip
          else do {
            st \<leftarrow> run_attributes (full_step data frs) data h;
            Some (if \<not> is_base_record h
                  then PR_Extension (extension_of_state (file_reference_to_frs (base_file_record_segment h)) frs st)
                  else PR_Base (record_of_state h frs st))
          })"

definition parse_record :: "bytes \<Rightarrow> nat \<Rightarrow> parsed_record option rust" where
  "parse_record data frs = do {
     r \<leftarrow> parse_record_full data frs;
     Some (case r of PR_Base rec \<Rightarrow> Some rec | _ \<Rightarrow> None)
   }"

definition parse_extension_record :: "bytes \<Rightarrow> nat \<Rightarrow> file_record_segment_header \<Rightarrow> nat \<Rightarrow> parse_result rust" where
  "parse_extension_record data frs h base_frs_value = do {
     st \<leftarrow> run_attributes (extension_step data frs) data h;
     Some (PR_Extension (extension_of_state base_frs_value frs st))
   }"

text \<open>The arrow in the name of an extension record is U+2192.\<close>

definition parse_base_record :: "bytes \<Rightarrow> nat \<Rightarrow> file_record_segment_header \<Rightarrow> bool \<Rightarrow> bool \<Rightarrow> nat \<Rightarrow> parse_result rust" where
  "parse_base_record data frs h is_deleted is_extension_record base_frs_value = do {
     st \<leftarrow> run_attributes (base_step data frs) data h;
     let name = (if pn_name (ps_primary st) = [] then
                   (if is_deleted then chars_of ''<DELETED:'' @ digits 10 frs @ chars_of ''>''
                    else if is_extension_record then chars_of ''<EXT:'' @ digits 10 frs @ [0x2192] @ digits 10 base_frs_value @ chars_of ''>''
                    else [])
                 else pn_name (ps_primary st));
     Some (PR_Base ((record_of_state h frs st)\<lparr>pr_name := name, pr_in_use := \<not> is_deleted, pr_is_deleted := is_deleted,
       pr_is_extension := is_extension_record, pr_base_frs := base_frs_value\<rparr>))
   }"

definition parse_record_forensic :: "bytes \<Rightarrow> nat \<Rightarrow> parse_options \<Rightarrow> bool \<Rightarrow> parse_result rust" where
  "parse_record_forensic data frs options is_corrupt =
     (if is_corrupt then
        Some (if \<not> include_corrupt options then PR_Skip
              else PR_Base (parsed_record_default\<lparr>pr_frs := frs, pr_name := chars_of ''<CORRUPT:'' @ digits 10 frs @ chars_of ''>'',
                pr_is_corrupt := True\<rparr>))
      else if length data < 48 then Some PR_Skip
      else case parse_file_record_segment_header data of
        None \<Rightarrow> Some PR_Skip
      | Some h \<Rightarrow>
          let is_deleted = (\<not> is_in_use h) in
          if is_deleted \<and> \<not> include_deleted options then Some PR_Skip
          else if \<not> is_file_record (frs_multi_sector_header h) then Some PR_Skip
          else let is_extension_record = (\<not> is_base_record h);
                   base_frs_value = (if is_extension_record then file_reference_to_frs (base_file_record_segment h) else 0)
               in if is_extension_record \<and> \<not> include_extensions options
                  then parse_extension_record data frs h base_frs_value
                  else parse_base_record data frs h is_deleted is_extension_record base_frs_value)"

text \<open>The thread-local buffer holds a copy of the record; what an earlier record left behind it is never read.\<close>

definition parse_record_zero_alloc :: "bytes \<Rightarrow> nat \<Rightarrow> parse_result rust" where
  "parse_record_zero_alloc data frs = do {
     (ok, buffer) \<leftarrow> apply_fixup data;
     if \<not> ok then Some PR_Skip else parse_record_full buffer frs
   }"

definition parse_record_zero_alloc_forensic :: "bytes \<Rightarrow> nat \<Rightarrow> parse_options \<Rightarrow> parse_result rust" where
  "parse_record_zero_alloc_forensic data frs options = do {
     (ok, buffer) \<leftarrow> apply_fixup data;
     if \<not> ok then parse_record_forensic buffer frs options True
     else parse_record_forensic buffer frs options False
   }"

section \<open>Attribute flags\<close>

lemma flag_kept:
  fixes a :: u32
  shows "(if a AND 2 ^ n \<noteq> 0 then 2 ^ n else 0) = a AND 2 ^ n"
proof -
  have "a AND 2 ^ n = (if bit a n then 2 ^ n else 0)" by (rule bit_eqI) (auto simp: bit_and_iff bit_exp_iff)
  then show ?thesis by simp
qed

lemma flags_kept:
  fixes a :: u32
  assumes "list_all (\<lambda>b. \<exists>n. b = 2 ^ n) bs"
  shows "foldl (\<lambda>flags (on, b). if on then flags OR b else flags) acc (map (\<lambda>b. (a AND b \<noteq> 0, b)) bs) = acc OR (a AND foldr (OR) bs 0)"
  using assms
proof (induction bs arbitrary: acc)
  case (Cons b bs)
  then obtain n where n: "b = 2 ^ n" by auto
  have "(if a AND b \<noteq> 0 then acc OR b else acc) = acc OR (if a AND b \<noteq> 0 then b else 0)" by simp
  also have "\<dots> = acc OR (a AND b)" unfolding n flag_kept ..
  finally show ?case using Cons by (simp add: bit.conj_disj_distrib or.assoc)
qed simp

definition FLAG_BITS :: "u32 list" where
  "FLAG_BITS = map (\<lambda>n. 2 ^ n) [0, 1, 2, 5, 6, 7, 8, 9, 10, 11, 12, 13, 14, 15, 16, 17, 19, 20]"

text \<open>Taking the attribute word apart into flags and putting it together keeps the eighteen bits that have a flag.\<close>

lemma raw_flags_kept: "to_raw_flags (from_attributes a) = a AND 0x001BFFE7"
proof -
  have "to_raw_flags (from_attributes a) = foldl (\<lambda>flags (on, b). if on then flags OR b else flags) 0 (map (\<lambda>b. (a AND b \<noteq> 0, b)) FLAG_BITS)"
    by (simp add: to_raw_flags_def from_attributes_def FLAG_BITS_def)
  also have "\<dots> = 0 OR (a AND foldr (OR) FLAG_BITS 0)" unfolding FLAG_BITS_def by (rule flags_kept) (auto simp only: list_all_iff set_map)
  finally show ?thesis by (simp add: FLAG_BITS_def)
qed

section \<open>The attributes a loop visits\<close>

function visited :: "bytes \<Rightarrow> nat \<Rightarrow> nat \<Rightarrow> (nat \<times> attribute_record_header) list" where
  "visited data max_offset offset =
     (if offset + 16 \<le> max_offset then
        (case parse_attribute_record_header (drop offset data) of
           None \<Rightarrow> []
         | Some h \<Rightarrow>
             if arh_type_code h = 0xFFFFFFFF then []
             else if arh_length h = 0 \<or> offset + unat (arh_length h) > max_offset then []
             else (offset, h) # visited data max_offset (offset + unat (arh_length h)))
      else [])"
  by pat_completeness auto
termination
  by (relation "measure (\<lambda>(_, max_offset, offset). max_offset - offset)") (auto intro!: diff_less_mono2 simp: unat_gt_0)

declare visited.simps [simp del]

fun run_steps :: "attr_step \<Rightarrow> (nat \<times> attribute_record_header) list \<Rightarrow> parse_state \<Rightarrow> parse_state rust" where
  "run_steps step [] st = Some st"
| "run_steps step ((offset, h) # vs) st = Option.bind (step offset h st) (run_steps step vs)"

lemma attribute_loop_visited:
  assumes "max_offset \<le> length data"
  shows "attribute_loop step data max_offset offset st = run_steps step (visited data max_offset offset) st"
  using assms
proof (induction step data max_offset offset st rule: attribute_loop.induct)
  case (1 step data max_offset offset st)
  show ?case using 1(2)
    by (subst attribute_loop.simps, subst visited.simps) (auto simp: 1(1) slice_from_def split: option.split)
qed

definition attributes_of :: "bytes \<Rightarrow> file_record_segment_header \<Rightarrow> (nat \<times> attribute_record_header) list" where
  "attributes_of data h = visited data (min (unat (bytes_in_use h)) (length data)) (unat (first_attribute_offset h))"

lemma run_attributes_visited: "run_attributes step data h = run_steps step (attributes_of data h) parse_state_init"
  by (simp add: run_attributes_def attributes_of_def attribute_loop_visited)

lemma run_steps_cong:
  assumes "\<And>offset h st. (offset, h) \<in> set vs \<Longrightarrow> f offset h st = g offset h st"
  shows "run_steps f vs st = run_steps g vs st"
  using assms
proof (induction vs arbitrary: st)
  case (Cons v vs)
  then show ?case by (cases v; cases "f (fst v) (snd v) st") (auto simp: Cons.prems)
qed simp

section \<open>The guards keep every index in the record\<close>

lemma slice_from_in: "a \<le> length data \<Longrightarrow> slice_from data a = Some (drop a data)"
  by (simp add: slice_from_def)

lemma slice_in: "a + n \<le> length data \<Longrightarrow> slice_get data a (a + n) = Some (take n (drop a data))"
  by (simp add: slice_get_def)

lemma i64_at_in: "offset + 8 \<le> length data \<Longrightarrow> i64_at data offset = Some (sint (from_le_bytes (take 8 (drop offset data)) :: u64))"
  by (simp add: i64_at_def slice_in)

lemma standard_info_no_panic: "\<exists>r. parse_standard_info_full data offset si = Some r"
  by (auto simp: parse_standard_info_full_def slice_from_in Let_def split: option.split)

lemma file_name_no_panic: "\<exists>r. parse_file_name_full data offset frs = Some r"
  by (auto simp: parse_file_name_full_def slice_from_in slice_in Let_def split: option.split)

lemma non_resident_no_panic: "\<exists>r. non_resident_sizes data nr_offset h b = Some r"
  by (auto simp: non_resident_sizes_def i64_at_in Let_def)

lemma data_attribute_no_panic: "\<exists>r. parse_data_attribute_full data offset h frs = Some r"
proof -
  have "\<exists>name. data_stream_name data offset h = Some name" by (auto simp: data_stream_name_def slice_in Let_def)
  then obtain name where "data_stream_name data offset h = Some name" ..
  moreover have "\<exists>lowest. lowest_vcn data offset = Some lowest" by (auto simp: lowest_vcn_def i64_at_in Let_def)
  then obtain lowest where "lowest_vcn data offset = Some lowest" ..
  moreover obtain sizes where "non_resident_sizes data (offset + 16) h (frs = 8 \<and> the name = chars_of ''$Bad'') = Some sizes"
    using non_resident_no_panic by blast
  ultimately show ?thesis by (auto simp: parse_data_attribute_full_def split: option.split)
qed

lemma attr_name_no_panic: "\<exists>bs. attr_name_bytes data offset h = Some bs"
  by (auto simp: attr_name_bytes_def slice_in Let_def)

lemma is_primary_no_panic: "\<exists>b. is_primary data offset h = Some b"
  by (auto simp: is_primary_def i64_at_in Let_def)

lemma reparse_tag_no_panic: "\<exists>tag. reparse_tag_at data offset h t = Some tag"
  by (auto simp: reparse_tag_at_def slice_from_in Let_def)

section \<open>When a record panics\<close>

text \<open>What an attribute declares: the length of a resident value, or the data and allocated sizes in the non-resident
  header when that lies in the record.\<close>

definition declared_sizes :: "bytes \<Rightarrow> nat \<Rightarrow> attribute_record_header \<Rightarrow> nat \<times> nat" where
  "declared_sizes data offset h =
     (if arh_is_non_resident h = 0
      then (if offset + 20 \<le> length data then unat (from_le_bytes (take 4 (drop (offset + 16) data)) :: u32) else 0, 0)
      else if offset + 64 \<le> length data
      then (nat (sint (from_le_bytes (take 8 (drop (offset + 48) data)) :: u64)),
            nat (sint (from_le_bytes (take 8 (drop (offset + 40) data)) :: u64)))
      else (0, 0))"

text \<open>An index attribute of a directory is one of the three index types under the name \<open>$I30\<close>.\<close>

definition i30_named :: "bytes \<Rightarrow> nat \<Rightarrow> attribute_record_header \<Rightarrow> bool" where
  "i30_named data offset h \<longleftrightarrow>
     arh_name_length h = 4 \<and> offset + unat (arh_name_offset h) + 8 \<le> length data
     \<and> take 8 (drop (offset + unat (arh_name_offset h)) data) = [0x24, 0, 0x49, 0, 0x33, 0, 0x30, 0]"

definition index_bytes :: "bytes \<Rightarrow> nat \<times> attribute_record_header \<Rightarrow> nat \<times> nat" where
  "index_bytes data v = (case v of (offset, h) \<Rightarrow>
     if attribute_type_from_u32 (arh_type_code h) \<in> {Some IndexRoot, Some IndexAllocation, Some Bitmap} \<and> i30_named data offset h
     then declared_sizes data offset h else (0, 0))"

lemma attr_sizes_declared:
  "attr_sizes data offset h = Some (fst (declared_sizes data offset h), snd (declared_sizes data offset h), arh_is_non_resident h = 0)"
  by (auto simp: attr_sizes_def declared_sizes_def value_length_at_def i64_at_in Let_def read_u32_le_at_def read_le_array_def
      slice_get_def nonneg_to_u64_def add.assoc)

lemma is_i30_named: "is_i30 data offset h = Some (i30_named data offset h)"
  by (auto simp: is_i30_def i30_named_def attr_name_bytes_def Let_def slice_in)

text \<open>Every branch but that of the index attributes returns and leaves the two sums alone.\<close>

definition quiet :: "parse_state \<Rightarrow> parse_state rust \<Rightarrow> bool" where
  "quiet st r \<longleftrightarrow>
     (\<exists>st'. r = Some st' \<and> ps_dir_index_size st' = ps_dir_index_size st \<and> ps_dir_index_allocated st' = ps_dir_index_allocated st)"

lemma quiet_steps:
  "quiet st (Some st)" "quiet st (standard_info_step data offset st)" "quiet st (file_name_step data frs offset st)"
  "quiet st (data_step data frs offset h st)" "quiet st (reparse_step data offset h st)"
  "quiet st (primary_stream data offset h n st)" "quiet st (any_stream data offset h n st)"
proof -
  show "quiet st (Some st)" by (simp add: quiet_def)
  show "quiet st (standard_info_step data offset st)"
    using standard_info_no_panic [of data offset "ps_std_info st"] by (auto simp: quiet_def standard_info_step_def)
  show "quiet st (file_name_step data frs offset st)"
    using file_name_no_panic [of data offset frs] by (auto simp: quiet_def file_name_step_def split: option.split)
  show "quiet st (data_step data frs offset h st)"
    using data_attribute_no_panic [of data offset h frs] by (auto simp: quiet_def data_step_def add_stream_def split: option.split)
  show "quiet st (reparse_step data offset h st)"
    using reparse_tag_no_panic [of data offset h "ps_reparse_tag st"]
    by (auto simp: quiet_def reparse_step_def attr_sizes_declared add_stream_def)
  show "quiet st (primary_stream data offset h n st)" "quiet st (any_stream data offset h n st)"
    using attr_name_no_panic [of data offset h] is_primary_no_panic [of data offset h]
    by (auto simp: quiet_def primary_stream_def any_stream_def attr_name_def attr_sizes_declared add_stream_def)
qed

lemma index_size_step_spec:
  "index_size_step data offset h st =
     (if ps_dir_index_size st + fst (declared_sizes data offset h) \<le> u64_max
         \<and> ps_dir_index_allocated st + snd (declared_sizes data offset h) \<le> u64_max
      then Some (st\<lparr>ps_dir_index_size := ps_dir_index_size st + fst (declared_sizes data offset h),
                    ps_dir_index_allocated := ps_dir_index_allocated st + snd (declared_sizes data offset h)\<rparr>) else None)"
  by (simp add: index_size_step_def attr_sizes_declared add_dir_index_def u64_add_def u64_check_def)

text \<open>A step of the parser either is quiet and no index attribute is there, or it adds what the attribute declares.\<close>

lemma full_step_cases:
  obtains "quiet st (full_step data frs offset h st)" and "index_bytes data (offset, h) = (0, 0)"
  | "full_step data frs offset h st = index_size_step data offset h st" and "index_bytes data (offset, h) = declared_sizes data offset h"
proof (cases "attribute_type_from_u32 (arh_type_code h)")
  case None
  then show thesis by (intro that(1)) (simp_all add: full_step_def index_bytes_def quiet_steps)
next
  case (Some t)
  show thesis
  proof (cases "is_index_type t \<and> i30_named data offset h")
    case True
    then show thesis using Some
      by (intro that(2)) (auto simp: full_step_def index_bytes_def index_step_def is_i30_named is_index_type_def)
  next
    case False
    then show thesis using Some
      by (intro that(1)) (auto simp: full_step_def index_bytes_def index_step_def is_i30_named is_index_type_def quiet_steps)
  qed
qed

lemma full_step_panics:
  assumes "ps_dir_index_size st \<le> u64_max" and "ps_dir_index_allocated st \<le> u64_max"
  shows "full_step data frs offset h st = None \<longleftrightarrow>
      ps_dir_index_size st + fst (index_bytes data (offset, h)) > u64_max \<or> ps_dir_index_allocated st + snd (index_bytes data (offset, h)) > u64_max"
  by (rule full_step_cases [of st data frs offset h]; use assms in \<open>auto simp: index_size_step_spec quiet_def\<close>)

lemma full_step_dir:
  assumes "full_step data frs offset h st = Some st'"
  shows "ps_dir_index_size st' = ps_dir_index_size st + fst (index_bytes data (offset, h))"
    and "ps_dir_index_allocated st' = ps_dir_index_allocated st + snd (index_bytes data (offset, h))"
  by (rule full_step_cases [of st data frs offset h]; use assms in \<open>auto simp: index_size_step_spec quiet_def split: if_splits\<close>)+

lemma run_full_panics:
  assumes "ps_dir_index_size st \<le> u64_max" and "ps_dir_index_allocated st \<le> u64_max"
  shows "run_steps (full_step data frs) vs st = None \<longleftrightarrow>
      ps_dir_index_size st + sum_list (map (fst \<circ> index_bytes data) vs) > u64_max
      \<or> ps_dir_index_allocated st + sum_list (map (snd \<circ> index_bytes data) vs) > u64_max"
  using assms
proof (induction vs arbitrary: st)
  case (Cons v vs)
  obtain offset h where v: "v = (offset, h)" by (cases v)
  show ?case
  proof (cases "full_step data frs offset h st")
    case None
    then show ?thesis using full_step_panics [OF Cons.prems, of data frs offset h] by (auto simp: v)
  next
    case (Some st')
    note dir = full_step_dir [OF Some]
    have "\<not> (ps_dir_index_size st' > u64_max \<or> ps_dir_index_allocated st' > u64_max)"
      using full_step_panics [OF Cons.prems, of data frs offset h] Some dir by auto
    then show ?thesis using Cons.IH [of st'] Some dir by (simp add: v add.assoc)
  qed
qed simp

lemma parse_record_none_iff:
  "parse_record_full data frs = None \<longleftrightarrow>
     (\<exists>h. parse_file_record_segment_header data = Some h \<and> is_in_use h \<and> is_file_record (frs_multi_sector_header h)
       \<and> (sum_list (map (fst \<circ> index_bytes data) (attributes_of data h)) > u64_max
          \<or> sum_list (map (snd \<circ> index_bytes data) (attributes_of data h)) > u64_max))"
proof -
  have "48 \<le> length data" if "parse_file_record_segment_header data = Some h" for h
    using that by (auto simp: parse_file_record_segment_header_def read_u32_le_at_def read_le_array_def slice_get_def
        split: bind_splits if_splits)
  moreover have "run_attributes (full_step data frs) data h = None \<longleftrightarrow>
      sum_list (map (fst \<circ> index_bytes data) (attributes_of data h)) > u64_max
      \<or> sum_list (map (snd \<circ> index_bytes data) (attributes_of data h)) > u64_max" for h
    unfolding run_attributes_visited by (subst run_full_panics) (simp_all add: parse_state_init_def)
  ultimately show ?thesis
    by (auto simp: parse_record_full_def bind_eq_None_conv split: option.split)
qed

text \<open>
  C33. The parser of a file record reads every byte sequence without a panic but one kind: a record whose index
  attributes named \<open>$I30\<close> declare more than 64 bits of data or of allocation in total. In particular every slice
  \<open>data[a..b]\<close> of the attribute parsers, which panics outside the record, is kept inside by the test before it.
  The sizes are taken from the record as they are, so a damaged record can declare them.
\<close>

theorem parse_record_panics_iff:
  "parse_record_full data frs = None \<longleftrightarrow>
     (\<exists>h. parse_file_record_segment_header data = Some h \<and> is_in_use h \<and> is_file_record (frs_multi_sector_header h)
       \<and> (sum_list (map (fst \<circ> index_bytes data) (attributes_of data h)) > u64_max
          \<or> sum_list (map (snd \<circ> index_bytes data) (attributes_of data h)) > u64_max))"
  by (rule parse_record_none_iff)

section \<open>The forensic parser\<close>

text \<open>An attribute on which the two base parsers do the same: standard information and file names are resident,
  and one that no other branch takes is primary.\<close>

definition plain_attribute :: "bytes \<Rightarrow> nat \<times> attribute_record_header \<Rightarrow> bool" where
  "plain_attribute data v = (case v of (offset, h) \<Rightarrow>
     (case attribute_type_from_u32 (arh_type_code h) of
        None \<Rightarrow> is_primary data offset h = Some True
      | Some t \<Rightarrow> if t = StandardInformation \<or> t = FileName then arh_is_non_resident h = 0
                 else t = DataAttr \<or> t = ReparsePoint \<or> is_index_type t \<or> is_listed_type t \<or> is_primary data offset h = Some True))"

lemma base_step_plain: "plain_attribute data (offset, h) \<Longrightarrow> base_step data frs offset h st = full_step data frs offset h st"
  by (auto simp: base_step_def full_step_def plain_attribute_def primary_stream_def any_stream_def is_index_type_def
      is_listed_type_def split: option.splits if_splits bind_splits)

text \<open>
  C35. On a base record made of plain attributes whose sectors passed the fixup, the forensic parser gives what the
  standard parser gives, with any options that do not ask for deleted records (so not with the preset that asks for
  everything, under which it returns a deleted record and the standard parser skips it); in particular both skip the
  same records.
\<close>

theorem forensic_agrees:
  assumes "parse_file_record_segment_header data = Some h" and "is_base_record h" and "\<not> include_deleted options"
    and "list_all (plain_attribute data) (attributes_of data h)"
  shows "parse_record_forensic data frs options False = parse_record_full data frs"
proof -
  have "run_attributes (base_step data frs) data h = run_attributes (full_step data frs) data h"
    unfolding run_attributes_visited using assms(4)
    by (intro run_steps_cong base_step_plain) (auto simp: list_all_iff)
  then show ?thesis using assms(1-3)
    by (auto simp: parse_record_forensic_def parse_record_full_def parse_base_record_def record_of_state_def Let_def
        intro!: arg_cong [where f = "Option.bind _"] ext)
qed

section \<open>The primary name\<close>

text \<open>The rule by which a merge chooses a name, and by which the tracker does: the last name of the Windows
  namespaces, or else the first name.\<close>

definition best_name :: "name_info list \<Rightarrow> name_info option" where
  "best_name names =
     (case find (\<lambda>n. ni_namespace n = 1 \<or> ni_namespace n = 3) (rev names) of
        Some n \<Rightarrow> Some n
      | None \<Rightarrow> (case names of [] \<Rightarrow> None | n # _ \<Rightarrow> Some n))"

lemma find_in_set: "find P xs = Some x \<Longrightarrow> x \<in> set xs"
  by (induction xs) (auto split: if_splits)

lemma best_name_snoc:
  "best_name (names @ [n]) = (if ni_namespace n = 1 \<or> ni_namespace n = 3 \<or> names = [] then Some n else best_name names)"
  by (cases names) (auto simp: best_name_def split: option.split)

lemma best_name_in: "best_name names = Some n \<Longrightarrow> n \<in> set names"
  by (auto simp: best_name_def split: option.splits list.splits dest: find_in_set)

lemma tracker_best:
  assumes "\<forall>n \<in> set names. ni_namespace n \<noteq> INVALID_NAMESPACE"
  shows "foldl tracker_update tracker_default names = (case best_name names of None \<Rightarrow> tracker_default | Some n \<Rightarrow> tracker_of n)"
  using assms
proof (induction names rule: rev_induct)
  case (snoc n names)
  show ?case
  proof (cases "best_name names")
    case None
    then have "names = []" by (auto simp: best_name_def split: option.splits list.splits)
    then show ?thesis by (simp add: best_name_def tracker_update_def tracker_default_def Let_def)
  next
    case (Some m)
    then have "pn_namespace (tracker_of m) \<noteq> INVALID_NAMESPACE" using snoc.prems best_name_in [OF Some] by (simp add: tracker_of_def)
    moreover have "names \<noteq> []" using Some by (auto simp: best_name_def)
    ultimately show ?thesis using snoc Some by (auto simp: best_name_snoc tracker_update_def Let_def)
  qed
qed (simp add: best_name_def)

lemma full_step_tracks:
  assumes "full_step data frs offset h st = Some st'" and "ps_primary st = foldl tracker_update tracker_default (ps_names st)"
  shows "ps_primary st' = foldl tracker_update tracker_default (ps_names st')"
  using assms
  by (auto simp: full_step_def standard_info_step_def file_name_step_def data_step_def reparse_step_def index_step_def index_size_step_def
      primary_stream_def add_stream_def add_dir_index_def Let_def split: option.splits if_splits prod.splits bind_splits)

lemma run_full_tracks:
  assumes "run_steps (full_step data frs) vs st = Some st'" and "ps_primary st = foldl tracker_update tracker_default (ps_names st)"
  shows "ps_primary st' = foldl tracker_update tracker_default (ps_names st')"
  using assms
proof (induction vs arbitrary: st)
  case (Cons v vs)
  then show ?case by (cases v) (auto split: bind_splits dest: full_step_tracks)
qed simp

text \<open>
  C34. The name under which a parsed record is filed is the last of its names in a Windows namespace, or its
  first name when it has none there, with the parent, the namespace and the four times of that name; a record without
  names has the empty name. None of its names may carry 255 as its namespace, which the tracker takes for "no name yet".
\<close>

theorem primary_name_is_best:
  assumes "parse_record_full data frs = Some (PR_Base r)" and "list_all (\<lambda>n. ni_namespace n \<noteq> INVALID_NAMESPACE) (pr_names r)"
  shows "case best_name (pr_names r) of
      None \<Rightarrow> pr_names r = [] \<and> pr_name r = [] \<and> pr_parent_frs r = 0
    | Some n \<Rightarrow> n \<in> set (pr_names r) \<and> pr_name r = ni_name n \<and> pr_parent_frs r = ni_parent_frs n \<and> pr_namespace r = ni_namespace n
        \<and> pr_fn_created r = ni_created n \<and> pr_fn_modified r = ni_modified n \<and> pr_fn_accessed r = ni_accessed n
        \<and> pr_fn_mft_changed r = ni_mft_changed n"
proof -
  obtain h st where st: "run_steps (full_step data frs) (attributes_of data h) parse_state_init = Some st" and r: "r = record_of_state h frs st"
    using assms(1) by (auto simp: parse_record_full_def run_attributes_visited split: if_splits option.splits bind_splits)
  have "ps_primary st = foldl tracker_update tracker_default (ps_names st)"
    using run_full_tracks [OF st] by (simp add: parse_state_init_def)
  then have "ps_primary st = (case best_name (pr_names r) of None \<Rightarrow> tracker_default | Some n \<Rightarrow> tracker_of n)"
    using tracker_best [of "ps_names st"] assms(2) r by (simp add: record_of_state_def Let_def list_all_iff)
  moreover have "best_name (pr_names r) = None \<longleftrightarrow> pr_names r = []" by (auto simp: best_name_def split: option.split list.split)
  ultimately show ?thesis using r
    by (auto simp: record_of_state_def Let_def tracker_of_def tracker_default_def split: option.split dest: best_name_in)
qed

section \<open>Witnesses\<close>

definition demo_header :: "u8 \<Rightarrow> u8 \<Rightarrow> bytes" where
  "demo_header used_lo used_hi = [0x46, 0x49, 0x4C, 0x45, 48, 0, 3, 0] @ replicate 8 0 @ [7, 0, 1, 0, 48, 0, 1, 0, used_lo, used_hi, 0, 0, 0, 4, 0, 0]
     @ replicate 16 0"

text \<open>A record with one resident file name, \<open>a\<close> in the root directory.\<close>

definition demo_named_record :: bytes where
  "demo_named_record = demo_header 144 0
     @ [0x30, 0, 0, 0, 96, 0, 0, 0, 0, 0, 0, 0, 0, 0, 1, 0, 68, 0, 0, 0, 24, 0, 0, 0]
     @ [5, 0, 0, 0, 0, 0, 5, 0] @ [1, 0, 0, 0, 0, 0, 0, 0] @ [2, 0, 0, 0, 0, 0, 0, 0] @ replicate 40 0 @ [1, 1, 0x61, 0, 0, 0, 0, 0]"

text \<open>A record with three index attributes that declare the largest positive size each.\<close>

definition demo_index_attribute :: bytes where
  "demo_index_attribute = [0xA0, 0, 0, 0, 72, 0, 0, 0, 1, 4, 64, 0, 0, 0, 0, 0] @ replicate 32 0
     @ [0xFF, 0xFF, 0xFF, 0xFF, 0xFF, 0xFF, 0xFF, 0x7F] @ replicate 8 0 @ [0x24, 0, 0x49, 0, 0x33, 0, 0x30, 0]"

definition oversized_record :: bytes where
  "oversized_record = demo_header 8 1 @ demo_index_attribute @ demo_index_attribute @ demo_index_attribute"

definition demo_index_header :: attribute_record_header where
  "demo_index_header = \<lparr>arh_type_code = 0xA0, arh_length = 72, arh_is_non_resident = 1, arh_name_length = 4, arh_name_offset = 64,
     arh_flags = 0, arh_instance = 0\<rparr>"

definition oversized_header :: file_record_segment_header where
  "oversized_header = the (parse_file_record_segment_header oversized_record)"

lemma oversized_declares:
  "\<exists>h. parse_file_record_segment_header oversized_record = Some h \<and> is_in_use h \<and> is_file_record (frs_multi_sector_header h)
     \<and> (sum_list (map (fst \<circ> index_bytes oversized_record) (attributes_of oversized_record h)) > u64_max
        \<or> sum_list (map (snd \<circ> index_bytes oversized_record) (attributes_of oversized_record h)) > u64_max)"
proof -
  have h: "parse_file_record_segment_header oversized_record = Some oversized_header" by (simp add: oversized_header_def) code_simp
  have u: "is_in_use oversized_header \<and> is_file_record (frs_multi_sector_header oversized_header)" by code_simp
  have v: "attributes_of oversized_record oversized_header = [(48, demo_index_header), (120, demo_index_header), (192, demo_index_header)]"
    by code_simp
  have len: "length oversized_record = 264" by (simp add: oversized_record_def demo_header_def demo_index_attribute_def)
  have "sint (from_le_bytes (take 8 (drop (offset + 48) oversized_record)) :: u64) = 2 ^ 63 - 1 \<and> i30_named oversized_record offset demo_index_header"
    if "offset \<in> {48, 120, 192}" for offset
    using that by (elim insertE emptyE; hypsubst) code_simp+
  then have "fst (index_bytes oversized_record (offset, demo_index_header)) = 2 ^ 63 - 1" if "offset \<in> {48, 120, 192}" for offset
    using that len unfolding index_bytes_def declared_sizes_def
    by (auto simp: attribute_type_from_u32_def demo_index_header_def)
  then have "sum_list (map (fst \<circ> index_bytes oversized_record) (attributes_of oversized_record oversized_header)) = 3 * (2 ^ 63 - 1)"
    unfolding v by simp
  with h u show ?thesis by (intro exI [of _ oversized_header]) (simp add: u64_max_def)
qed

lemma oversized_index_panics: "parse_record_full oversized_record 30 = None"
  unfolding parse_record_none_iff by (rule oversized_declares)

lemma demo_parsed:
  "case parse_record_full demo_named_record 30 of
     Some (PR_Base r) \<Rightarrow> map (\<lambda>n. (ni_name n, ni_parent_frs n, ni_namespace n)) (pr_names r) = [([0x61], 5, 1)] | _ \<Rightarrow> False"
  by code_simp

theorem parse_record_panics_iff_witness:
  "parse_record_full oversized_record 30 = None \<and> parse_record_full demo_named_record 30 \<noteq> None"
proof
  show "parse_record_full oversized_record 30 = None" unfolding parse_record_panics_iff by (rule oversized_declares)
  show "parse_record_full demo_named_record 30 \<noteq> None" using demo_parsed by (cases "parse_record_full demo_named_record 30") auto
qed

theorem primary_name_is_best_witness:
  "\<exists>r. parse_record_full demo_named_record 30 = Some (PR_Base r) \<and> pr_name r = chars_of ''a'' \<and> pr_parent_frs r = 5"
proof -
  obtain r where r: "parse_record_full demo_named_record 30 = Some (PR_Base r)"
    "map (\<lambda>n. (ni_name n, ni_parent_frs n, ni_namespace n)) (pr_names r) = [([0x61], 5, 1)]"
    using demo_parsed by (auto split: option.splits parse_result.splits)
  then obtain n where n: "pr_names r = [n]" "ni_name n = [0x61]" "ni_parent_frs n = 5" "ni_namespace n = 1" by auto
  from primary_name_is_best [OF r(1)] n r(1) show ?thesis by (auto simp: best_name_def INVALID_NAMESPACE_def chars_of_def)
qed

definition demo_named_header :: file_record_segment_header where
  "demo_named_header = the (parse_file_record_segment_header demo_named_record)"

theorem forensic_agrees_witness:
  "parse_record_forensic demo_named_record 30 parse_options_DEFAULT False = parse_record_full demo_named_record 30
   \<and> parse_record_full demo_named_record 30 \<noteq> Some PR_Skip"
proof
  have h: "parse_file_record_segment_header demo_named_record = Some demo_named_header"
    by (simp add: demo_named_header_def) code_simp
  have "is_base_record demo_named_header" "list_all (plain_attribute demo_named_record) (attributes_of demo_named_record demo_named_header)"
    by code_simp+
  then show "parse_record_forensic demo_named_record 30 parse_options_DEFAULT False = parse_record_full demo_named_record 30"
    by (intro forensic_agrees [OF h]) (simp_all add: parse_options_DEFAULT_def)
  show "parse_record_full demo_named_record 30 \<noteq> Some PR_Skip" using demo_parsed by auto
qed

end
