(* ===== verification/Mft_Index.thy ===== *)
theory Mft_Index
  imports Mft_Parse Search_Filters Usn_Changes
begin

text \<open>
  The lean index of one volume (\<open>crates/uffs-mft/src/index/\<close>): the packed name references, the records, the
  table from file numbers to records, the extension table, the linked lists of names, streams and directory
  entries, and the index built from parsed records. Vectors are lists, a linked list is a vector whose entries
  name the next one, and \<open>NO_ENTRY\<close> ends it.

  Unicode lower-casing is the argument \<open>lower\<close> of the extension table and of the sort of directory entries; the
  clock that stamps an index is the argument \<open>now\<close>. Reserving capacity and logging have no effect on the values.
\<close>

section \<open>Standard information\<close>

record standard_info =
  si_created :: int
  si_modified :: int
  si_accessed :: int
  si_mft_changed :: int
  si_flags :: u32
  si_usn :: u64
  si_security_id :: u32
  si_owner_id :: u32

definition IS_READONLY :: u32 where "IS_READONLY = 0x0001"
definition IS_HIDDEN :: u32 where "IS_HIDDEN = 0x0002"
definition IS_SYSTEM :: u32 where "IS_SYSTEM = 0x0004"
definition IS_DIRECTORY :: u32 where "IS_DIRECTORY = 0x0010"
definition IS_ARCHIVE :: u32 where "IS_ARCHIVE = 0x0020"
definition IS_TEMPORARY :: u32 where "IS_TEMPORARY = 0x0100"
definition IS_SPARSE :: u32 where "IS_SPARSE = 0x0200"
definition IS_REPARSE :: u32 where "IS_REPARSE = 0x0400"
definition IS_COMPRESSED :: u32 where "IS_COMPRESSED = 0x0800"
definition IS_OFFLINE :: u32 where "IS_OFFLINE = 0x1000"
definition IS_NOT_INDEXED :: u32 where "IS_NOT_INDEXED = 0x2000"
definition IS_ENCRYPTED :: u32 where "IS_ENCRYPTED = 0x4000"
definition IS_INTEGRITY_STREAM :: u32 where "IS_INTEGRITY_STREAM = 0x8000"
definition IS_VIRTUAL :: u32 where "IS_VIRTUAL = 0x00010000"
definition IS_NO_SCRUB_DATA :: u32 where "IS_NO_SCRUB_DATA = 0x00020000"
definition IS_PINNED :: u32 where "IS_PINNED = 0x00080000"
definition IS_UNPINNED :: u32 where "IS_UNPINNED = 0x00100000"

lemmas attribute_bits = IS_READONLY_def IS_HIDDEN_def IS_SYSTEM_def IS_DIRECTORY_def IS_ARCHIVE_def IS_TEMPORARY_def
  IS_SPARSE_def IS_REPARSE_def IS_COMPRESSED_def IS_OFFLINE_def IS_NOT_INDEXED_def IS_ENCRYPTED_def
  IS_INTEGRITY_STREAM_def IS_VIRTUAL_def IS_NO_SCRUB_DATA_def IS_PINNED_def IS_UNPINNED_def

definition standard_info_default :: standard_info where
  "standard_info_default = \<lparr>si_created = 0, si_modified = 0, si_accessed = 0, si_mft_changed = 0, si_flags = 0, si_usn = 0,
     si_security_id = 0, si_owner_id = 0\<rparr>"

definition flag_if :: "bool \<Rightarrow> u32 \<Rightarrow> u32" where "flag_if b m = (if b then m else 0)"

definition from_extended :: "ext_std_info \<Rightarrow> standard_info" where
  "from_extended e =
     \<lparr>si_created = es_created e, si_modified = es_modified e, si_accessed = es_accessed e, si_mft_changed = es_mft_changed e,
      si_flags =
        flag_if (es_is_readonly e) IS_READONLY OR flag_if (es_is_archive e) IS_ARCHIVE OR flag_if (es_is_system e) IS_SYSTEM
        OR flag_if (es_is_hidden e) IS_HIDDEN OR flag_if (es_is_offline e) IS_OFFLINE
        OR flag_if (es_is_not_content_indexed e) IS_NOT_INDEXED OR flag_if (es_is_compressed e) IS_COMPRESSED
        OR flag_if (es_is_encrypted e) IS_ENCRYPTED OR flag_if (es_is_sparse e) IS_SPARSE
        OR flag_if (es_is_reparse e) IS_REPARSE OR flag_if (es_is_temporary e) IS_TEMPORARY
        OR flag_if (es_is_integrity_stream e) IS_INTEGRITY_STREAM OR flag_if (es_is_no_scrub_data e) IS_NO_SCRUB_DATA
        OR flag_if (es_is_pinned e) IS_PINNED OR flag_if (es_is_unpinned e) IS_UNPINNED OR flag_if (es_is_virtual e) IS_VIRTUAL,
      si_usn = es_usn e, si_security_id = es_security_id e, si_owner_id = es_owner_id e\<rparr>"

definition si_is_hidden :: "standard_info \<Rightarrow> bool" where "si_is_hidden s \<longleftrightarrow> si_flags s AND IS_HIDDEN \<noteq> 0"
definition si_is_system :: "standard_info \<Rightarrow> bool" where "si_is_system s \<longleftrightarrow> si_flags s AND IS_SYSTEM \<noteq> 0"
definition si_is_directory :: "standard_info \<Rightarrow> bool" where "si_is_directory s \<longleftrightarrow> si_flags s AND IS_DIRECTORY \<noteq> 0"
definition si_is_compressed :: "standard_info \<Rightarrow> bool" where "si_is_compressed s \<longleftrightarrow> si_flags s AND IS_COMPRESSED \<noteq> 0"
definition si_is_encrypted :: "standard_info \<Rightarrow> bool" where "si_is_encrypted s \<longleftrightarrow> si_flags s AND IS_ENCRYPTED \<noteq> 0"
definition si_is_sparse :: "standard_info \<Rightarrow> bool" where "si_is_sparse s \<longleftrightarrow> si_flags s AND IS_SPARSE \<noteq> 0"
definition si_is_reparse :: "standard_info \<Rightarrow> bool" where "si_is_reparse s \<longleftrightarrow> si_flags s AND IS_REPARSE \<noteq> 0"

definition set_directory :: "bool \<Rightarrow> standard_info \<Rightarrow> standard_info" where
  "set_directory val s = s\<lparr>si_flags := if val then si_flags s OR IS_DIRECTORY else si_flags s AND NOT IS_DIRECTORY\<rparr>"

definition parity_attributes :: "standard_info \<Rightarrow> u32" where
  "parity_attributes s =
     si_flags s AND (IS_READONLY OR IS_HIDDEN OR IS_SYSTEM OR IS_DIRECTORY OR IS_ARCHIVE OR IS_SPARSE OR IS_REPARSE
       OR IS_COMPRESSED OR IS_OFFLINE OR IS_NOT_INDEXED OR IS_ENCRYPTED OR IS_INTEGRITY_STREAM OR IS_NO_SCRUB_DATA
       OR IS_PINNED OR IS_UNPINNED)"

section \<open>Records\<close>

definition NO_ENTRY :: nat where "NO_ENTRY = u32_max"
definition ROOT_FRS :: nat where "ROOT_FRS = 5"

text \<open>A name reference: an offset into the names and a packed word of length, flags and extension id.\<close>

record index_name_ref =
  nr_offset :: nat
  nr_meta :: u32

definition name_ref_new :: "nat \<Rightarrow> nat \<Rightarrow> bool \<Rightarrow> nat \<Rightarrow> index_name_ref" where
  "name_ref_new offset len is_ascii extension_id =
     \<lparr>nr_offset = offset,
      nr_meta = (of_nat len AND 0x3FF) OR (if is_ascii then push_bit 10 1 else 0) OR push_bit 16 (of_nat extension_id)\<rparr>"

definition name_ref_length :: "index_name_ref \<Rightarrow> nat" where "name_ref_length r = unat (nr_meta r AND 0x3FF)"
definition name_ref_flags :: "index_name_ref \<Rightarrow> nat" where "name_ref_flags r = unat (drop_bit 10 (nr_meta r) AND 0x3F)"
definition name_ref_extension_id :: "index_name_ref \<Rightarrow> nat" where
  "name_ref_extension_id r = unat (drop_bit 16 (nr_meta r) AND 0xFFFF)"
definition name_ref_is_ascii :: "index_name_ref \<Rightarrow> bool" where "name_ref_is_ascii r \<longleftrightarrow> nr_meta r AND push_bit 10 1 \<noteq> 0"

definition remap_extension_id :: "nat \<Rightarrow> index_name_ref \<Rightarrow> index_name_ref" where
  "remap_extension_id new_id r = r\<lparr>nr_meta := (nr_meta r AND NOT (push_bit 16 0xFFFF)) OR push_bit 16 (of_nat new_id)\<rparr>"

definition name_ref_is_valid :: "index_name_ref \<Rightarrow> bool" where "name_ref_is_valid r \<longleftrightarrow> nr_offset r \<noteq> NO_ENTRY"

record link_info =
  li_next_entry :: nat
  li_name :: index_name_ref
  li_parent_frs :: nat

record size_info =
  sz_length :: nat
  sz_allocated :: nat

record index_stream_info =
  is_size :: size_info
  is_next_entry :: nat
  is_name :: index_name_ref
  is_flags :: u8

record internal_stream_info =
  in_size :: size_info
  in_next_entry :: nat
  in_flags :: u8

record file_record =
  fr_frs :: nat
  fr_sequence_number :: u16
  fr_namespace :: u8
  fr_forensic_flags :: u8
  fr_lsn :: u64
  fr_reparse_tag :: u32
  fr_base_frs :: nat
  fr_stdinfo :: standard_info
  fr_name_count :: nat
  fr_stream_count :: nat
  fr_total_stream_count :: nat
  fr_first_internal_stream :: nat
  fr_first_child :: nat
  fr_first_name :: link_info
  fr_first_stream :: index_stream_info
  fr_fn_created :: int
  fr_fn_modified :: int
  fr_fn_accessed :: int
  fr_fn_mft_changed :: int
  fr_descendants :: nat
  fr_treesize :: nat
  fr_tree_allocated :: nat
  fr_internal_streams_size :: nat
  fr_internal_streams_allocated :: nat

definition file_record_new :: "nat \<Rightarrow> file_record" where
  "file_record_new frs =
     \<lparr>fr_frs = frs, fr_sequence_number = 0, fr_namespace = 0, fr_forensic_flags = 0, fr_lsn = 0, fr_reparse_tag = 0,
      fr_base_frs = 0, fr_stdinfo = standard_info_default, fr_name_count = 1, fr_stream_count = 1, fr_total_stream_count = 1,
      fr_first_internal_stream = NO_ENTRY, fr_first_child = NO_ENTRY,
      fr_first_name = \<lparr>li_next_entry = NO_ENTRY, li_name = \<lparr>nr_offset = NO_ENTRY, nr_meta = 0\<rparr>, li_parent_frs = NO_ENTRY\<rparr>,
      fr_first_stream = \<lparr>is_size = \<lparr>sz_length = 0, sz_allocated = 0\<rparr>, is_next_entry = NO_ENTRY,
        is_name = \<lparr>nr_offset = NO_ENTRY, nr_meta = 0\<rparr>, is_flags = 0\<rparr>,
      fr_fn_created = 0, fr_fn_modified = 0, fr_fn_accessed = 0, fr_fn_mft_changed = 0, fr_descendants = 0, fr_treesize = 0,
      fr_tree_allocated = 0, fr_internal_streams_size = 0, fr_internal_streams_allocated = 0\<rparr>"

definition file_record_new_unified :: "nat \<Rightarrow> file_record" where
  "file_record_new_unified frs =
     (file_record_new frs)\<lparr>fr_forensic_flags := 0x20, fr_name_count := 0, fr_stream_count := 0, fr_total_stream_count := 0\<rparr>"

definition has_name :: "file_record \<Rightarrow> bool" where "has_name r \<longleftrightarrow> name_ref_is_valid (li_name (fr_first_name r))"
definition has_base_data :: "file_record \<Rightarrow> bool" where "has_base_data r \<longleftrightarrow> si_created (fr_stdinfo r) \<noteq> 0"

definition fr_is_deleted :: "file_record \<Rightarrow> bool" where "fr_is_deleted r \<longleftrightarrow> fr_forensic_flags r AND 1 \<noteq> 0"
definition fr_is_corrupt :: "file_record \<Rightarrow> bool" where "fr_is_corrupt r \<longleftrightarrow> fr_forensic_flags r AND 2 \<noteq> 0"
definition fr_is_extension :: "file_record \<Rightarrow> bool" where "fr_is_extension r \<longleftrightarrow> fr_forensic_flags r AND 4 \<noteq> 0"

definition set_forensic_flags :: "bool \<Rightarrow> bool \<Rightarrow> bool \<Rightarrow> file_record \<Rightarrow> file_record" where
  "set_forensic_flags deleted corrupt extension r =
     r\<lparr>fr_forensic_flags := (fr_forensic_flags r AND 0x38) OR of_bool deleted OR push_bit 1 (of_bool corrupt)
        OR push_bit 2 (of_bool extension)\<rparr>"

definition has_default_data :: "file_record \<Rightarrow> bool" where "has_default_data r \<longleftrightarrow> fr_forensic_flags r AND 0x08 \<noteq> 0"
definition set_has_default_data :: "file_record \<Rightarrow> file_record" where
  "set_has_default_data r = r\<lparr>fr_forensic_flags := fr_forensic_flags r OR 0x08\<rparr>"
definition has_i30_stream :: "file_record \<Rightarrow> bool" where "has_i30_stream r \<longleftrightarrow> fr_forensic_flags r AND 0x10 \<noteq> 0"
definition set_has_i30_stream :: "file_record \<Rightarrow> file_record" where
  "set_has_i30_stream r = r\<lparr>fr_forensic_flags := fr_forensic_flags r OR 0x10\<rparr>"
definition is_unified :: "file_record \<Rightarrow> bool" where "is_unified r \<longleftrightarrow> fr_forensic_flags r AND 0x20 \<noteq> 0"
definition set_unified :: "file_record \<Rightarrow> file_record" where
  "set_unified r = r\<lparr>fr_forensic_flags := fr_forensic_flags r OR 0x20\<rparr>"

definition tree_metrics :: "file_record \<Rightarrow> nat \<times> nat \<times> nat" where
  "tree_metrics r = (fr_descendants r, fr_treesize r, fr_tree_allocated r)"

section \<open>The extension table\<close>

record extension_table =
  et_names :: "bytes list"
  et_counts :: "nat list"
  et_bytes :: "nat list"
  et_map :: "bytes \<rightharpoonup> nat"

definition extension_table_new :: extension_table where
  "extension_table_new = \<lparr>et_names = [[]], et_counts = [0], et_bytes = [0], et_map = [[] \<mapsto> 0]\<rparr>"

definition table_intern :: "(bytes \<Rightarrow> bytes) \<Rightarrow> bytes \<Rightarrow> extension_table \<Rightarrow> nat \<times> extension_table" where
  "table_intern lower extension t =
     (if extension = [] then (0, t)
      else
        (let normalized = lower (dropWhile (\<lambda>b. b = 0x2E) extension) in
         if normalized = [] then (0, t)
         else case et_map t normalized of
                Some id' \<Rightarrow> (id', t)
              | None \<Rightarrow>
                  (let id' = len_to_u16 (length (et_names t)) in
                   if id' = u16_max then (0, t)
                   else (id', \<lparr>et_names = et_names t @ [normalized], et_counts = et_counts t @ [0], et_bytes = et_bytes t @ [0],
                               et_map = (et_map t)(normalized \<mapsto> id')\<rparr>))))"

definition table_record_file :: "nat \<Rightarrow> nat \<Rightarrow> extension_table \<Rightarrow> extension_table rust" where
  "table_record_file idx file_size t =
     (if idx < length (et_counts t) \<and> idx < length (et_bytes t) then do {
        c \<leftarrow> u32_inc (et_counts t ! idx);
        b \<leftarrow> u64_add (et_bytes t ! idx) file_size;
        Some (t\<lparr>et_counts := (et_counts t)[idx := c], et_bytes := (et_bytes t)[idx := b]\<rparr>)
      } else Some t)"

definition get_extension :: "extension_table \<Rightarrow> nat \<Rightarrow> bytes option" where "get_extension t i = vec_get (et_names t) i"
definition get_count :: "extension_table \<Rightarrow> nat \<Rightarrow> nat" where
  "get_count t i = (case vec_get (et_counts t) i of None \<Rightarrow> 0 | Some c \<Rightarrow> c)"
definition get_bytes :: "extension_table \<Rightarrow> nat \<Rightarrow> nat" where
  "get_bytes t i = (case vec_get (et_bytes t) i of None \<Rightarrow> 0 | Some b \<Rightarrow> b)"

section \<open>The index\<close>

record child_info =
  ci_next_entry :: nat
  ci_child_frs :: nat
  ci_name_index :: nat

record mft_stats =
  ms_record_count :: nat
  ms_dir_count :: nat
  ms_file_count :: nat
  ms_max_frs :: nat
  ms_total_name_bytes :: nat
  ms_multi_name_count :: nat
  ms_ads_count :: nat
  ms_system_metafile_count :: nat
  ms_system_child_count :: nat
  ms_total_bytes :: nat
  ms_dir_bytes :: nat
  ms_hidden_bytes :: nat
  ms_system_bytes :: nat
  ms_compressed_bytes :: nat
  ms_encrypted_bytes :: nat
  ms_sparse_bytes :: nat
  ms_reparse_bytes :: nat
  ms_size_bucket_counts :: "nat list"
  ms_size_bucket_bytes :: "nat list"
  ms_lossy_name_count :: nat

definition mft_stats_new :: mft_stats where
  "mft_stats_new = \<lparr>ms_record_count = 0, ms_dir_count = 0, ms_file_count = 0, ms_max_frs = 0, ms_total_name_bytes = 0,
     ms_multi_name_count = 0, ms_ads_count = 0, ms_system_metafile_count = 0, ms_system_child_count = 0, ms_total_bytes = 0,
     ms_dir_bytes = 0, ms_hidden_bytes = 0, ms_system_bytes = 0, ms_compressed_bytes = 0, ms_encrypted_bytes = 0,
     ms_sparse_bytes = 0, ms_reparse_bytes = 0, ms_size_bucket_counts = replicate 8 0, ms_size_bucket_bytes = replicate 8 0,
     ms_lossy_name_count = 0\<rparr>"

record mft_index =
  mi_volume :: u8
  mi_records :: "file_record list"
  mi_frs_to_idx :: "nat list"
  mi_names :: bytes
  mi_links :: "link_info list"
  mi_streams :: "index_stream_info list"
  mi_internal_streams :: "internal_stream_info list"
  mi_children :: "child_info list"
  mi_stats :: mft_stats
  mi_extensions :: extension_table
  mi_extension_index :: "csr option"
  mi_forensic_mode :: bool
  mi_reserved_allocated_bytes :: nat
  mi_build_epoch :: nat

definition mft_index_new :: "nat \<Rightarrow> u8 \<Rightarrow> mft_index" where
  "mft_index_new now volume =
     \<lparr>mi_volume = volume, mi_records = [], mi_frs_to_idx = [], mi_names = [], mi_links = [], mi_streams = [],
      mi_internal_streams = [], mi_children = [], mi_stats = mft_stats_new, mi_extensions = extension_table_new,
      mi_extension_index = None, mi_forensic_mode = False, mi_reserved_allocated_bytes = 0, mi_build_epoch = now\<rparr>"

definition bump_epoch :: "nat \<Rightarrow> mft_index \<Rightarrow> mft_index" where "bump_epoch now ix = ix\<lparr>mi_build_epoch := now\<rparr>"

text \<open>The table from file numbers to records grows to hold the number it is asked for.\<close>

definition expand_lookup :: "nat \<Rightarrow> nat list \<Rightarrow> nat list rust" where
  "expand_lookup frs table =
     (if frs < length table then Some table
      else do { n \<leftarrow> u64_add frs 1; Some (table @ replicate (n - length table) NO_ENTRY) })"

definition pre_size_frs_lookup :: "nat \<Rightarrow> mft_index \<Rightarrow> mft_index rust" where
  "pre_size_frs_lookup total_records ix = do {
     capacity \<leftarrow> u64_add total_records (total_records div 10);
     Some (if capacity > length (mi_frs_to_idx ix)
           then ix\<lparr>mi_frs_to_idx := mi_frs_to_idx ix @ replicate (capacity - length (mi_frs_to_idx ix)) NO_ENTRY\<rparr> else ix)
   }"

text \<open>The record of a file number, created with \<open>mk\<close> when there is none; the result is its position.\<close>

definition ensure_with :: "(nat \<Rightarrow> file_record) \<Rightarrow> nat \<Rightarrow> mft_index \<Rightarrow> (nat \<times> mft_index) rust" where
  "ensure_with mk frs ix = do {
     table \<leftarrow> expand_lookup frs (mi_frs_to_idx ix);
     let idx = table ! frs;
     if idx = NO_ENTRY
     then Some (len_to_u32 (length (mi_records ix)),
                ix\<lparr>mi_frs_to_idx := table[frs := len_to_u32 (length (mi_records ix))], mi_records := mi_records ix @ [mk frs]\<rparr>)
     else Some (idx, ix\<lparr>mi_frs_to_idx := table\<rparr>)
   }"

definition ensure_record :: "nat \<Rightarrow> mft_index \<Rightarrow> (nat \<times> mft_index) rust" where
  "ensure_record = ensure_with file_record_new_unified"

text \<open>
  \<open>get_or_create\<close> and its unified variant lend the record itself, the new one by its position at the end of the
  vector; indexing panics behind the end.
\<close>

definition lend_record :: "(nat \<Rightarrow> file_record) \<Rightarrow> nat \<Rightarrow> (file_record \<Rightarrow> file_record) \<Rightarrow> mft_index \<Rightarrow> mft_index rust" where
  "lend_record mk frs f ix = do {
     (idx, ix') \<leftarrow> ensure_with mk frs ix;
     let i = (if length (mi_records ix) < length (mi_records ix') then length (mi_records ix) else idx);
     if i < length (mi_records ix') then Some (ix'\<lparr>mi_records := (mi_records ix')[i := f (mi_records ix' ! i)]\<rparr>) else None
   }"

definition get_or_create :: "nat \<Rightarrow> (file_record \<Rightarrow> file_record) \<Rightarrow> mft_index \<Rightarrow> mft_index rust" where
  "get_or_create = lend_record file_record_new"

definition get_or_create_unified :: "nat \<Rightarrow> (file_record \<Rightarrow> file_record) \<Rightarrow> mft_index \<Rightarrow> mft_index rust" where
  "get_or_create_unified = lend_record file_record_new_unified"

definition frs_to_idx_opt :: "mft_index \<Rightarrow> nat \<Rightarrow> nat option" where
  "frs_to_idx_opt ix frs =
     (case vec_get (mi_frs_to_idx ix) frs of None \<Rightarrow> None | Some idx \<Rightarrow> if idx = NO_ENTRY then None else Some idx)"

definition find_record :: "mft_index \<Rightarrow> nat \<Rightarrow> file_record option" where
  "find_record ix frs =
     (case vec_get (mi_frs_to_idx ix) frs of
        None \<Rightarrow> None
      | Some idx \<Rightarrow> if idx = NO_ENTRY then None else vec_get (mi_records ix) idx)"

definition add_name_bytes :: "bytes \<Rightarrow> mft_index \<Rightarrow> nat \<times> mft_index" where
  "add_name_bytes name ix = (len_to_u32 (length (mi_names ix)), ix\<lparr>mi_names := mi_names ix @ name\<rparr>)"

definition index_intern_extension :: "(bytes \<Rightarrow> bytes) \<Rightarrow> bytes \<Rightarrow> mft_index \<Rightarrow> nat \<times> mft_index" where
  "index_intern_extension lower filename ix =
     (case after_last_dot filename of
        None \<Rightarrow> (0, ix)
      | Some (dot_pos, ext) \<Rightarrow>
          if dot_pos > 0 \<and> dot_pos < length filename - 1
          then (case table_intern lower ext (mi_extensions ix) of (i, t) \<Rightarrow> (i, ix\<lparr>mi_extensions := t\<rparr>))
          else (0, ix))"

definition get_name_bytes :: "mft_index \<Rightarrow> index_name_ref \<Rightarrow> bytes" where
  "get_name_bytes ix info =
     (if \<not> name_ref_is_valid info then []
      else case slice_get (mi_names ix) (nr_offset info) (u64_sat_add (nr_offset info) (name_ref_length info)) of
             None \<Rightarrow> [] | Some bs \<Rightarrow> bs)"

text \<open>The view as a string: empty when the bytes are not UTF-8.\<close>

definition get_name :: "mft_index \<Rightarrow> index_name_ref \<Rightarrow> bytes" where
  "get_name ix info = (let bs = get_name_bytes ix info in if utf8_valid bs then bs else [])"

definition index_record_name :: "mft_index \<Rightarrow> file_record \<Rightarrow> bytes" where
  "index_record_name ix r = get_name ix (li_name (fr_first_name r))"

definition file_count :: "mft_index \<Rightarrow> nat" where
  "file_count ix = length (filter (\<lambda>r. \<not> si_is_directory (fr_stdinfo r)) (mi_records ix))"
definition dir_count :: "mft_index \<Rightarrow> nat" where
  "dir_count ix = length (filter (\<lambda>r. si_is_directory (fr_stdinfo r)) (mi_records ix))"

section \<open>Linked lists\<close>

text \<open>
  The loops \<open>while idx != NO_ENTRY\<close> over a vector of linked entries: the indices they visit. The walk ends at
  \<open>NO_ENTRY\<close> or at an index behind the end of the vector (the last one visited then); \<open>None\<close> is a walk that
  is not over after \<open>n\<close> entries.
\<close>

fun chain :: "(nat \<Rightarrow> nat option) \<Rightarrow> nat \<Rightarrow> nat \<Rightarrow> nat list option" where
  "chain nxt 0 i = (if i = NO_ENTRY then Some [] else None)"
| "chain nxt (Suc n) i =
     (if i = NO_ENTRY then Some []
      else case nxt i of
             None \<Rightarrow> Some [i]
           | Some j \<Rightarrow> map_option (Cons i) (chain nxt n j))"

text \<open>
  A walk that ends visits every entry at most once, so one step more than there are entries is enough to tell
  whether it ends.
\<close>

definition walk :: "('a \<Rightarrow> nat) \<Rightarrow> 'a list \<Rightarrow> nat \<Rightarrow> nat list option" where
  "walk next_of xs = chain (\<lambda>i. map_option next_of (vec_get xs i)) (Suc (length xs))"

definition child_chain :: "mft_index \<Rightarrow> nat \<Rightarrow> nat list option" where
  "child_chain ix = walk ci_next_entry (mi_children ix)"

text \<open>
  \<open>get_link_at\<close>: the name of a record by its number. The counter has 16 bits, so even a circular list is left:
  by finding the number or by the overflow of the counter.
\<close>

function link_at :: "link_info list \<Rightarrow> nat \<Rightarrow> nat \<Rightarrow> nat \<Rightarrow> link_info option rust" where
  "link_at links name_idx current idx =
     (if current = NO_ENTRY then Some None
      else case vec_get links current of
             None \<Rightarrow> Some None
           | Some link \<Rightarrow>
               if idx = name_idx then Some (Some link)
               else if idx < u16_max then link_at links name_idx (li_next_entry link) (idx + 1)
               else None)"
  by pat_completeness auto
termination
  by (relation "measure (\<lambda>(links, name_idx, current, idx). u16_max - idx)") auto

declare link_at.simps [simp del]

definition get_link_at :: "mft_index \<Rightarrow> file_record \<Rightarrow> nat \<Rightarrow> link_info option rust" where
  "get_link_at ix r name_idx =
     (if name_idx = 0 then Some (Some (fr_first_name r))
      else link_at (mi_links ix) name_idx (li_next_entry (fr_first_name r)) 1)"

section \<open>Directory entries\<close>

definition add_child_entry :: "nat \<Rightarrow> nat \<Rightarrow> nat \<Rightarrow> mft_index \<Rightarrow> mft_index rust" where
  "add_child_entry parent_frs child_frs name_index ix = do {
     (parent_idx, ix1) \<leftarrow> ensure_with file_record_new parent_frs ix;
     let child_idx = len_to_u32 (length (mi_children ix1));
     Some (if parent_idx < length (mi_records ix1)
           then (let parent_rec = mi_records ix1 ! parent_idx in
                 ix1\<lparr>mi_records := (mi_records ix1)[parent_idx := parent_rec\<lparr>fr_first_child := child_idx\<rparr>],
                     mi_children := mi_children ix1 @ [\<lparr>ci_next_entry = fr_first_child parent_rec, ci_child_frs = child_frs,
                                                        ci_name_index = name_index\<rparr>]\<rparr>)
           else ix1)
   }"

text \<open>One edge per name with a parent of its own; the numbers of the names run backwards along the list.\<close>

fun link_edges :: "link_info list \<Rightarrow> nat \<Rightarrow> nat \<Rightarrow> link_info \<Rightarrow> (nat \<times> nat \<times> nat) list" where
  "link_edges links child_frs 0 current_link = []"
| "link_edges links child_frs (Suc k) current_link =
     (if li_parent_frs current_link \<noteq> NO_ENTRY \<and> li_parent_frs current_link \<noteq> child_frs
      then [(li_parent_frs current_link, child_frs, len_to_u16 k)] else [])
     @ (if li_next_entry current_link = NO_ENTRY then []
        else case vec_get links (li_next_entry current_link) of
               None \<Rightarrow> []
             | Some next_link \<Rightarrow> link_edges links child_frs k next_link)"

definition collect_parent_child_edges :: "mft_index \<Rightarrow> (nat \<times> nat \<times> nat) list" where
  "collect_parent_child_edges ix =
     concat (map (\<lambda>r. link_edges (mi_links ix) (fr_frs r) (fr_name_count r) (fr_first_name r)) (mi_records ix))"

fun add_edges :: "(nat \<times> nat \<times> nat) list \<Rightarrow> mft_index \<Rightarrow> mft_index rust" where
  "add_edges [] ix = Some ix"
| "add_edges ((parent_frs, child_frs, name_index) # es) ix = do {
     ix' \<leftarrow> add_child_entry parent_frs child_frs name_index ix;
     add_edges es ix'
   }"

definition clear_children :: "mft_index \<Rightarrow> mft_index" where
  "clear_children ix = ix\<lparr>mi_children := [], mi_records := map (\<lambda>r. r\<lparr>fr_first_child := NO_ENTRY\<rparr>) (mi_records ix)\<rparr>"

definition rebuild_children_from_names :: "mft_index \<Rightarrow> mft_index rust" where
  "rebuild_children_from_names ix = add_edges (collect_parent_child_edges ix) (clear_children ix)"

text \<open>The order of two directory entries: names compared without regard to case, ASCII names byte by byte.\<close>

definition entry_name :: "mft_index \<Rightarrow> nat \<Rightarrow> bytes rust" where
  "entry_name ix i =
     (case vec_get (mi_children ix) i of
        None \<Rightarrow> Some []
      | Some c \<Rightarrow>
          (case Option.bind (frs_to_idx_opt ix (ci_child_frs c)) (vec_get (mi_records ix)) of
             None \<Rightarrow> Some []
           | Some r \<Rightarrow> do {
               l \<leftarrow> get_link_at ix r (ci_name_index c);
               Some (case l of None \<Rightarrow> [] | Some link \<Rightarrow> get_name ix (li_name link))
             }))"

definition is_ascii_bytes :: "bytes \<Rightarrow> bool" where "is_ascii_bytes bs \<longleftrightarrow> list_all (\<lambda>b. unat b < 0x80) bs"

definition names_before :: "(bytes \<Rightarrow> bytes) \<Rightarrow> bytes \<Rightarrow> bytes \<Rightarrow> bool" where
  "names_before lower a b \<longleftrightarrow>
     (if is_ascii_bytes a \<and> is_ascii_bytes b then map to_ascii_lowercase a \<le> map to_ascii_lowercase b
      else lower a \<le> lower b)"

text \<open>
  The standard library's stable sort, as an insertion sort: for a comparison that is a total preorder every
  stable sort gives the same list. The names are looked up by the comparison, which runs when there are two.
\<close>

fun insert_entry :: "('a \<Rightarrow> 'a \<Rightarrow> bool) \<Rightarrow> 'a \<Rightarrow> 'a list \<Rightarrow> 'a list" where
  "insert_entry le x [] = [x]"
| "insert_entry le x (y # ys) = (if le x y then x # y # ys else y # insert_entry le x ys)"

definition stable_sort :: "('a \<Rightarrow> 'a \<Rightarrow> bool) \<Rightarrow> 'a list \<Rightarrow> 'a list" where
  "stable_sort le xs = foldr (insert_entry le) xs []"

definition entries_before :: "(bytes \<Rightarrow> bytes) \<Rightarrow> mft_index \<Rightarrow> (nat \<times> bytes) \<Rightarrow> (nat \<times> bytes) \<Rightarrow> bool" where
  "entries_before lower ix a b \<longleftrightarrow>
     \<not> (fst a < length (mi_children ix) \<and> fst b < length (mi_children ix)) \<or> names_before lower (snd a) (snd b)"

fun relink :: "nat list \<Rightarrow> child_info list \<Rightarrow> child_info list" where
  "relink [] cs = cs"
| "relink (i # is) cs =
     relink is (if i < length cs
                then cs[i := (cs ! i)\<lparr>ci_next_entry := (case is of [] \<Rightarrow> NO_ENTRY | j # _ \<Rightarrow> j)\<rparr>] else cs)"

definition sort_one_directory :: "(bytes \<Rightarrow> bytes) \<Rightarrow> nat \<Rightarrow> mft_index \<Rightarrow> mft_index rust" where
  "sort_one_directory lower record_idx ix =
     (case vec_get (mi_records ix) record_idx of
        None \<Rightarrow> Some ix
      | Some r \<Rightarrow>
          if \<not> si_is_directory (fr_stdinfo r) \<or> fr_first_child r = NO_ENTRY then Some ix
          else do {
            child_indices \<leftarrow> child_chain ix (fr_first_child r);
            if length child_indices \<le> 1 then Some ix
            else do {
              names \<leftarrow> those (map (entry_name ix) child_indices);
              let sorted_indices = map fst (stable_sort (entries_before lower ix) (zip child_indices names));
              Some (ix\<lparr>mi_children := relink sorted_indices (mi_children ix),
                       mi_records := (mi_records ix)[record_idx := r\<lparr>fr_first_child := hd sorted_indices\<rparr>]\<rparr>)
            }
          })"

fun sort_directories :: "(bytes \<Rightarrow> bytes) \<Rightarrow> nat list \<Rightarrow> mft_index \<Rightarrow> mft_index rust" where
  "sort_directories lower [] ix = Some ix"
| "sort_directories lower (i # is) ix = do { ix' \<leftarrow> sort_one_directory lower i ix; sort_directories lower is ix' }"

definition sort_directory_children :: "(bytes \<Rightarrow> bytes) \<Rightarrow> mft_index \<Rightarrow> mft_index rust" where
  "sort_directory_children lower ix = sort_directories lower [0..<length (mi_records ix)] ix"

section \<open>Deletions from the journal\<close>

record usn_apply_stats =
  ua_deleted :: nat
  ua_targeted_reads :: nat
  ua_created :: nat
  ua_modified :: nat
  ua_skipped :: nat

definition DELETED_FLAG :: u32 where "DELETED_FLAG = 0x80000000"

definition mark_deleted :: "file_record \<Rightarrow> file_record" where
  "mark_deleted r = r\<lparr>fr_stdinfo := (fr_stdinfo r)\<lparr>si_flags := si_flags (fr_stdinfo r) OR DELETED_FLAG\<rparr>\<rparr>"

definition usn_step :: "file_change \<Rightarrow> usn_apply_stats \<times> nat list \<times> mft_index \<Rightarrow> usn_apply_stats \<times> nat list \<times> mft_index" where
  "usn_step change s =
     (case s of (stats, frs_to_read, ix) \<Rightarrow>
        let idx = (case vec_get (mi_frs_to_idx ix) (fc_frs change) of None \<Rightarrow> NO_ENTRY | Some i \<Rightarrow> i) in
        if fc_deleted change then
          (if idx = NO_ENTRY then (stats\<lparr>ua_skipped := ua_skipped stats + 1\<rparr>, frs_to_read, ix)
           else if idx < length (mi_records ix)
           then (stats\<lparr>ua_deleted := ua_deleted stats + 1\<rparr>, frs_to_read,
                 ix\<lparr>mi_records := (mi_records ix)[idx := mark_deleted (mi_records ix ! idx)]\<rparr>)
           else (stats, frs_to_read, ix))
        else if fc_created change \<or> fc_renamed change \<or> fc_size_changed change \<or> fc_metadata_changed change
        then (stats, frs_to_read @ [fc_frs change], ix)
        else (stats\<lparr>ua_skipped := ua_skipped stats + 1\<rparr>, frs_to_read, ix))"

definition apply_usn_deletes :: "nat \<Rightarrow> file_change list \<Rightarrow> mft_index \<Rightarrow> (usn_apply_stats \<times> nat list) \<times> mft_index" where
  "apply_usn_deletes now changes ix =
     (case fold usn_step changes
             (\<lparr>ua_deleted = 0, ua_targeted_reads = 0, ua_created = 0, ua_modified = 0, ua_skipped = 0\<rparr>, [], ix) of
        (stats, frs_to_read, ix') \<Rightarrow>
          let reads = remdups (sort frs_to_read) in
          ((stats, reads), if ua_deleted stats > 0 \<or> reads \<noteq> [] then bump_epoch now ix' else ix'))"


section \<open>Statistics\<close>

definition size_bucket :: "nat \<Rightarrow> nat" where
  "size_bucket n =
     (if n < 1024 then 0 else if n < 10 * 1024 then 1 else if n < 100 * 1024 then 2 else if n < 1024 * 1024 then 3
      else if n < 10 * (1024 * 1024) then 4 else if n < 100 * (1024 * 1024) then 5 else if n < 1024 * (1024 * 1024) then 6 else 7)"

definition inc_if :: "bool \<Rightarrow> nat \<Rightarrow> nat rust" where "inc_if b n = (if b then u32_inc n else Some n)"
definition add_if :: "bool \<Rightarrow> nat \<Rightarrow> nat \<Rightarrow> nat rust" where "add_if b v n = (if b then u64_add n v else Some n)"

definition system_frs :: "nat \<Rightarrow> bool" where "system_frs frs \<longleftrightarrow> frs \<le> 15 \<and> frs \<noteq> ROOT_FRS"

definition stats_step :: "file_record \<Rightarrow> mft_stats \<Rightarrow> mft_stats rust" where
  "stats_step r s = do {
     let sz = sz_length (is_size (fr_first_stream r));
     let si = fr_stdinfo r;
     let b = size_bucket sz;
     records \<leftarrow> u32_inc (ms_record_count s);
     dirs \<leftarrow> inc_if (si_is_directory si) (ms_dir_count s);
     dir_bytes \<leftarrow> add_if (si_is_directory si) sz (ms_dir_bytes s);
     files \<leftarrow> inc_if (\<not> si_is_directory si) (ms_file_count s);
     total_bytes \<leftarrow> u64_add (ms_total_bytes s) sz;
     bc \<leftarrow> u32_inc (ms_size_bucket_counts s ! b);
     bb \<leftarrow> u64_add (ms_size_bucket_bytes s ! b) sz;
     hidden \<leftarrow> add_if (si_is_hidden si) sz (ms_hidden_bytes s);
     system_b \<leftarrow> add_if (si_is_system si) sz (ms_system_bytes s);
     compressed \<leftarrow> add_if (si_is_compressed si) sz (ms_compressed_bytes s);
     encrypted \<leftarrow> add_if (si_is_encrypted si) sz (ms_encrypted_bytes s);
     sparse \<leftarrow> add_if (si_is_sparse si) sz (ms_sparse_bytes s);
     reparse \<leftarrow> add_if (si_is_reparse si) sz (ms_reparse_bytes s);
     multi \<leftarrow> inc_if (fr_name_count r > 1) (ms_multi_name_count s);
     ads \<leftarrow> inc_if (fr_stream_count r > 1) (ms_ads_count s);
     metafiles \<leftarrow> inc_if (system_frs (fr_frs r)) (ms_system_metafile_count s);
     sys_children \<leftarrow> inc_if (system_frs (li_parent_frs (fr_first_name r))) (ms_system_child_count s);
     name_bytes \<leftarrow> u64_add (ms_total_name_bytes s) (name_ref_length (li_name (fr_first_name r)));
     Some \<lparr>ms_record_count = records, ms_dir_count = dirs, ms_file_count = files,
           ms_max_frs = (if fr_frs r > ms_max_frs s then fr_frs r else ms_max_frs s), ms_total_name_bytes = name_bytes,
           ms_multi_name_count = multi, ms_ads_count = ads, ms_system_metafile_count = metafiles,
           ms_system_child_count = sys_children, ms_total_bytes = total_bytes, ms_dir_bytes = dir_bytes, ms_hidden_bytes = hidden,
           ms_system_bytes = system_b, ms_compressed_bytes = compressed, ms_encrypted_bytes = encrypted, ms_sparse_bytes = sparse,
           ms_reparse_bytes = reparse, ms_size_bucket_counts = (ms_size_bucket_counts s)[b := bc],
           ms_size_bucket_bytes = (ms_size_bucket_bytes s)[b := bb], ms_lossy_name_count = ms_lossy_name_count s\<rparr>
   }"

fun stats_loop :: "file_record list \<Rightarrow> mft_stats \<Rightarrow> mft_stats rust" where
  "stats_loop [] s = Some s"
| "stats_loop (r # rs) s = do { s' \<leftarrow> stats_step r s; stats_loop rs s' }"

text \<open>The number of lossily decoded names is a counter of the process and an argument.\<close>

definition recompute_stats :: "nat \<Rightarrow> mft_index \<Rightarrow> mft_index rust" where
  "recompute_stats lossy ix = do {
     s \<leftarrow> stats_loop (mi_records ix) mft_stats_new;
     Some (ix\<lparr>mi_stats := s\<lparr>ms_lossy_name_count := lossy\<rparr>\<rparr>)
   }"

section \<open>Packed name references\<close>

lemma name_ref_fields:
  "name_ref_length (name_ref_new off len asc ext) = len mod 1024"
  "name_ref_extension_id (name_ref_new off len asc ext) = ext mod 65536"
  "name_ref_is_ascii (name_ref_new off len asc ext) \<longleftrightarrow> asc"
proof -
  have m: "(0x3FF :: u32) = mask 10" "(0xFFFF :: u32) = mask 16" by (simp_all add: mask_eq_exp_minus_1)
  have a: "(if asc then push_bit 10 1 else 0 :: u32) = push_bit 10 (of_bool asc)" by simp
  have t: "unat (take_bit k (of_nat n :: u32)) = n mod 2 ^ k" if "k \<le> 32" for k n
  proof -
    have "unat (take_bit k (of_nat n :: u32)) = take_bit k (take_bit 32 n)" by (simp add: unsigned_take_bit_eq unsigned_of_nat)
    also have "\<dots> = take_bit k n" using that by (simp only: take_bit_take_bit min_def if_True)
    finally show ?thesis by (simp only: take_bit_eq_mod)
  qed
  let ?w = "nr_meta (name_ref_new off len asc ext)"
  have "?w AND 0x3FF = take_bit 10 (of_nat len)"
    unfolding name_ref_new_def m a
    by (rule bit_word_eqI) (auto simp: bit_simps)
  then show "name_ref_length (name_ref_new off len asc ext) = len mod 1024"
    using t [of 10 len] by (simp only: name_ref_length_def) simp
  have "drop_bit 16 ?w AND 0xFFFF = take_bit 16 (of_nat ext)"
    unfolding name_ref_new_def m a
    by (rule bit_word_eqI) (auto simp: bit_simps)
  then show "name_ref_extension_id (name_ref_new off len asc ext) = ext mod 65536"
    using t [of 16 ext] by (simp only: name_ref_extension_id_def) simp
  have "?w AND push_bit 10 (of_bool True) = push_bit 10 (of_bool asc)"
    unfolding name_ref_new_def m a
    by (rule bit_word_eqI) (auto simp: bit_simps simp del: of_bool_eq push_bit_of_1)
  then show "name_ref_is_ascii (name_ref_new off len asc ext) \<longleftrightarrow> asc"
    by (simp add: name_ref_is_ascii_def push_bit_eq_mult)
qed


text \<open>
  A packed name reference gives back what was packed: the length up to 1023 bytes, the ASCII mark and the
  extension id, and giving it a new extension id changes nothing else.
\<close>

theorem name_ref_roundtrip:
  assumes "len < 1024" and "ext < 65536" and "ext' < 65536"
  shows "let r = name_ref_new off len asc ext; r' = remap_extension_id ext' r in
      nr_offset r = off \<and> name_ref_length r = len \<and> name_ref_extension_id r = ext \<and> (name_ref_is_ascii r \<longleftrightarrow> asc)
      \<and> r' = name_ref_new off len asc ext'"
proof -
  have a: "(if asc then push_bit 10 1 else 0 :: u32) = push_bit 10 (of_bool asc)" by simp
  have m: "(0x3FF :: u32) = mask 10" "(0xFFFF :: u32) = mask 16" by (simp_all add: mask_eq_exp_minus_1)
  have "nr_meta (remap_extension_id ext' (name_ref_new off len asc ext)) = nr_meta (name_ref_new off len asc ext')"
    unfolding remap_extension_id_def name_ref_new_def index_name_ref.simps index_name_ref.select_convs m a
    by (rule bit_word_eqI) (auto simp: bit_simps)
  then have "remap_extension_id ext' (name_ref_new off len asc ext) = name_ref_new off len asc ext'"
    by (simp add: remap_extension_id_def name_ref_new_def)
  with assms show ?thesis by (simp add: name_ref_fields Let_def) (simp add: name_ref_new_def)
qed

theorem name_ref_roundtrip_witness:
  "let r = name_ref_new 7 12 True 3; r' = remap_extension_id 9 r in
      nr_offset r = 7 \<and> name_ref_length r = 12 \<and> name_ref_extension_id r = 3 \<and> (name_ref_is_ascii r \<longleftrightarrow> True)
      \<and> r' = name_ref_new 7 12 True 9"
  by (rule name_ref_roundtrip) simp_all

section \<open>Linked lists as lists\<close>

text \<open>The list of indices a linked list stands for.\<close>

fun linked :: "(nat \<Rightarrow> nat option) \<Rightarrow> nat \<Rightarrow> nat list \<Rightarrow> bool" where
  "linked nxt i [] \<longleftrightarrow> i = NO_ENTRY"
| "linked nxt i (x # xs) \<longleftrightarrow> i = x \<and> x \<noteq> NO_ENTRY \<and> (\<exists>j. nxt x = Some j \<and> linked nxt j xs)"

lemma linked_unique: "linked nxt i xs \<Longrightarrow> linked nxt i ys \<Longrightarrow> xs = ys"
proof (induction xs arbitrary: i ys)
  case Nil
  then show ?case by (cases ys) auto
next
  case (Cons x xs)
  from Cons.prems show ?case by (cases ys) (auto dest: Cons.IH)
qed

lemma linked_suffix: "linked nxt i (xs @ y # ys) \<Longrightarrow> linked nxt y (y # ys)"
  by (induction xs arbitrary: i) auto

lemma linked_distinct: "linked nxt i xs \<Longrightarrow> distinct xs"
proof (induction xs arbitrary: i)
  case (Cons x xs)
  then have d: "distinct xs" by auto
  have "x \<notin> set xs"
  proof
    assume "x \<in> set xs"
    then obtain as bs where xs: "xs = as @ x # bs" by (meson split_list)
    with Cons.prems have "linked nxt x (x # as @ x # bs)" by simp
    moreover from Cons.prems have "linked nxt i ((x # as) @ x # bs)" by (simp add: xs)
    then have "linked nxt x (x # bs)" by (rule linked_suffix)
    ultimately have "x # as @ x # bs = x # bs" by (rule linked_unique)
    then have "length (x # as @ x # bs) = length (x # bs)" by (rule arg_cong)
    then show False by simp
  qed
  with d show ?case by simp
qed simp

lemma linked_chain: "linked nxt i xs \<Longrightarrow> length xs \<le> n \<Longrightarrow> chain nxt n i = Some xs"
proof (induction xs arbitrary: i n)
  case Nil
  then show ?case by (cases n) auto
next
  case (Cons x xs)
  then obtain j m where "nxt x = Some j" "linked nxt j xs" "n = Suc m" by (cases n) auto
  with Cons show ?case by simp
qed

lemma linked_bounded:
  assumes "linked (\<lambda>i. map_option f (vec_get vs i)) i xs"
  shows "set xs \<subseteq> {..<length vs}" and "length xs \<le> length vs"
proof -
  show "set xs \<subseteq> {..<length vs}"
    using assms
  proof (induction xs arbitrary: i)
    case (Cons x xs)
    from Cons.prems obtain j where "map_option f (vec_get vs x) = Some j" "linked (\<lambda>i. map_option f (vec_get vs i)) j xs"
      unfolding linked.simps by blast
    with Cons.IH [OF this(2)] show ?case by auto
  qed simp
  then have "card (set xs) \<le> card {..<length vs}" by (intro card_mono) simp_all
  with linked_distinct [OF assms] show "length xs \<le> length vs" by (simp add: distinct_card)
qed

lemma linked_walk:
  assumes "linked (\<lambda>i. map_option f (vec_get vs i)) i xs"
  shows "walk f vs i = Some xs"
  unfolding walk_def using linked_chain [OF assms, of "Suc (length vs)"] linked_bounded(2) [OF assms] by simp

text \<open>The walk of \<open>Suc (length vs)\<close> steps is enough: when any number of steps ends, it ends with the same result.\<close>

lemma chain_mono: "chain nxt n i = Some xs \<Longrightarrow> n \<le> m \<Longrightarrow> chain nxt m i = Some xs"
proof (induction n arbitrary: i xs m)
  case 0
  then have "i = NO_ENTRY" "xs = []" by (simp_all split: if_splits)
  then show ?case by (cases m) simp_all
next
  case (Suc n)
  from Suc.prems(2) obtain m' where m: "m = Suc m'" "n \<le> m'" by (cases m) auto
  show ?case
  proof (cases "i = NO_ENTRY \<or> nxt i = None")
    case True
    with Suc.prems(1) show ?thesis by (auto simp: m)
  next
    case False
    then obtain j where j: "i \<noteq> NO_ENTRY" "nxt i = Some j" by auto
    with Suc.prems(1) obtain ys where "chain nxt n j = Some ys" "xs = i # ys" by auto
    with j Suc.IH [OF this(1) m(2)] show ?thesis by (simp add: m)
  qed
qed

text \<open>What a linked list holds, read from its first position: the entries one after the other, at most \<open>n\<close> of them.\<close>

fun read_list :: "('a \<Rightarrow> nat) \<Rightarrow> 'a list \<Rightarrow> nat \<Rightarrow> nat \<Rightarrow> 'a list" where
  "read_list next_of xs 0 i = []"
| "read_list next_of xs (Suc n) i =
     (if i = NO_ENTRY \<or> length xs \<le> i then [] else xs ! i # read_list next_of xs n (next_of (xs ! i)))"

lemma chain_read:
  assumes "chain (\<lambda>i. map_option f (vec_get xs i)) n i = Some js"
  shows "List.map_filter (\<lambda>j. map_option g (vec_get xs j)) js = map g (read_list f xs n i)"
  using assms
proof (induction n arbitrary: i js)
  case (Suc n)
  show ?case
  proof (cases "i = NO_ENTRY \<or> length xs \<le> i")
    case True
    with Suc.prems show ?thesis by (auto simp: vec_get_def split: if_splits)
  next
    case False
    with Suc.prems obtain ks where "js = i # ks" "chain (\<lambda>i. map_option f (vec_get xs i)) n (f (xs ! i)) = Some ks" by auto
    with Suc.IH False show ?thesis by auto
  qed
qed (simp split: if_splits)

lemma walk_read:
  "walk f xs i = Some js \<Longrightarrow> List.map_filter (\<lambda>j. map_option g (vec_get xs j)) js = map g (read_list f xs (Suc (length xs)) i)"
  unfolding walk_def by (rule chain_read)

lemma chain_no_end: "chain nxt n i = Some js \<Longrightarrow> j \<in> set js \<Longrightarrow> j \<noteq> NO_ENTRY"
  by (induction n arbitrary: i js) (auto split: if_splits option.splits)

lemma linked_cong:
  "linked nxt i xs \<Longrightarrow> (\<And>x. x \<in> set xs \<Longrightarrow> nxt' x = nxt x) \<Longrightarrow> linked nxt' i xs"
  by (induction xs arbitrary: i) auto


section \<open>The table of records\<close>

text \<open>The table and the records name each other, and there is a position for every record below \<open>NO_ENTRY\<close>.\<close>

definition lookup_ok :: "mft_index \<Rightarrow> bool" where
  "lookup_ok ix \<longleftrightarrow> length (mi_records ix) \<le> u32_max
     \<and> (\<forall>i < length (mi_records ix). fr_frs (mi_records ix ! i) < length (mi_frs_to_idx ix)
          \<and> mi_frs_to_idx ix ! fr_frs (mi_records ix ! i) = i)
     \<and> (\<forall>f < length (mi_frs_to_idx ix). mi_frs_to_idx ix ! f \<noteq> NO_ENTRY \<longrightarrow>
          mi_frs_to_idx ix ! f < length (mi_records ix) \<and> fr_frs (mi_records ix ! (mi_frs_to_idx ix ! f)) = f)"

lemma lookup_ok_new [simp]: "lookup_ok (mft_index_new now volume)"
  by (simp add: lookup_ok_def mft_index_new_def)

lemma lookup_ok_pos:
  assumes "lookup_ok ix" and "i < length (mi_records ix)"
  shows "frs_to_idx_opt ix (fr_frs (mi_records ix ! i)) = Some i" and "i \<noteq> NO_ENTRY"
  using assms by (auto simp: lookup_ok_def frs_to_idx_opt_def NO_ENTRY_def vec_get_def)

lemma lookup_ok_found:
  assumes "lookup_ok ix" and "frs_to_idx_opt ix f = Some i"
  shows "i < length (mi_records ix)" and "fr_frs (mi_records ix ! i) = f" and "find_record ix f = Some (mi_records ix ! i)"
  using assms by (auto simp: lookup_ok_def frs_to_idx_opt_def find_record_def split: option.splits if_splits)

lemma find_record_idx:
  "lookup_ok ix \<Longrightarrow> find_record ix f = map_option ((!) (mi_records ix)) (frs_to_idx_opt ix f)"
  by (auto simp: lookup_ok_def frs_to_idx_opt_def find_record_def split: option.splits)

lemma expand_lookup_spec:
  assumes "f < u64_max"
  obtains t' where "expand_lookup f t = Some t'" and "f < length t'" and "length t \<le> length t'"
    and "\<And>g. g < length t' \<Longrightarrow> t' ! g = (if g < length t then t ! g else NO_ENTRY)"
proof (cases "f < length t")
  case True
  then show ?thesis using that [of t] by (simp add: expand_lookup_def)
next
  case False
  with assms show ?thesis
    by (intro that [of "t @ replicate (f + 1 - length t) NO_ENTRY"])
       (auto simp: expand_lookup_def rust_arith nth_append)
qed

lemma frs_to_idx_opt_table:
  "frs_to_idx_opt (ix\<lparr>mi_frs_to_idx := t, mi_records := r\<rparr>) g = (if g < length t \<and> t ! g \<noteq> NO_ENTRY then Some (t ! g) else None)"
  "frs_to_idx_opt (ix\<lparr>mi_frs_to_idx := t\<rparr>) g = (if g < length t \<and> t ! g \<noteq> NO_ENTRY then Some (t ! g) else None)"
  by (simp_all add: frs_to_idx_opt_def vec_get_def)

text \<open>Asking for a record finds it or appends it, and changes no other.\<close>

definition extended :: "(nat \<Rightarrow> file_record) \<Rightarrow> nat \<Rightarrow> nat list \<Rightarrow> mft_index \<Rightarrow> mft_index" where
  "extended mk f t ix =
     ix\<lparr>mi_frs_to_idx := t, mi_records := mi_records ix @ (if frs_to_idx_opt ix f = None then [mk f] else [])\<rparr>"

lemma ensure_with_spec:
  assumes "lookup_ok ix" and "f < u64_max" and "length (mi_records ix) < u32_max" and mk: "fr_frs (mk f) = f"
  shows "\<exists>t i. ensure_with mk f ix = Some (i, extended mk f t ix) \<and> lookup_ok (extended mk f t ix)
    \<and> i = (case frs_to_idx_opt ix f of None \<Rightarrow> length (mi_records ix) | Some j \<Rightarrow> j)
    \<and> (\<forall>g. frs_to_idx_opt (extended mk f t ix) g = (if g = f then Some i else frs_to_idx_opt ix g))"
proof -
  from expand_lookup_spec [OF assms(2)] obtain t where t: "expand_lookup f (mi_frs_to_idx ix) = Some t" "f < length t"
    "length (mi_frs_to_idx ix) \<le> length t"
    "\<And>g. g < length t \<Longrightarrow> t ! g = (if g < length (mi_frs_to_idx ix) then mi_frs_to_idx ix ! g else NO_ENTRY)"
    by blast
  have old: "frs_to_idx_opt ix g = (if g < length t \<and> t ! g \<noteq> NO_ENTRY then Some (t ! g) else None)" for g
    using t(3,4) by (auto simp: frs_to_idx_opt_def vec_get_def)
  let ?n = "length (mi_records ix)"
  have n: "len_to_u32 ?n = ?n" "?n \<noteq> NO_ENTRY" using assms(3) by (simp_all add: NO_ENTRY_def)
  show ?thesis
  proof (cases "frs_to_idx_opt ix f")
    case None
    then have tf: "t ! f = NO_ENTRY" using t(2) by (simp add: old split: if_splits)
    let ?ix = "ix\<lparr>mi_frs_to_idx := t[f := ?n], mi_records := mi_records ix @ [mk f]\<rparr>"
    have "lookup_ok ?ix"
      unfolding lookup_ok_def
    proof (intro conjI allI impI)
      show "length (mi_records ?ix) \<le> u32_max" using assms(3) by simp
    next
      fix i assume i: "i < length (mi_records ?ix)"
      show "fr_frs (mi_records ?ix ! i) < length (mi_frs_to_idx ?ix)"
        using assms(1) i t(2,3) mk by (auto simp: lookup_ok_def nth_append)
      show "mi_frs_to_idx ?ix ! fr_frs (mi_records ?ix ! i) = i"
      proof (cases "i < ?n")
        case True
        with assms(1) have "fr_frs (mi_records ix ! i) < length (mi_frs_to_idx ix)"
          "mi_frs_to_idx ix ! fr_frs (mi_records ix ! i) = i" by (auto simp: lookup_ok_def)
        moreover have "i \<noteq> NO_ENTRY" using True assms(3) by (simp add: NO_ENTRY_def)
        ultimately have "t ! fr_frs (mi_records ix ! i) = i" "fr_frs (mi_records ix ! i) \<noteq> f" using t(3,4) tf by auto
        with True show ?thesis by (simp add: nth_append)
      next
        case False
        with i have "i = ?n" by simp
        then show ?thesis using t(2) mk by simp
      qed
    next
      fix g assume g: "g < length (mi_frs_to_idx ?ix)" "mi_frs_to_idx ?ix ! g \<noteq> NO_ENTRY"
      have "mi_frs_to_idx ?ix ! g < length (mi_records ?ix) \<and> fr_frs (mi_records ?ix ! (mi_frs_to_idx ?ix ! g)) = g"
      proof (cases "g = f")
        case True
        with t(2) mk show ?thesis by simp
      next
        case False
        with g have tg: "g < length t" "t ! g \<noteq> NO_ENTRY" by simp_all
        with t(4) [of g] have "g < length (mi_frs_to_idx ix)" "t ! g = mi_frs_to_idx ix ! g" by (auto split: if_splits)
        with tg assms(1) have "t ! g < ?n" "fr_frs (mi_records ix ! (t ! g)) = g" by (auto simp: lookup_ok_def)
        with False show ?thesis by (simp add: nth_append)
      qed
      then show "mi_frs_to_idx ?ix ! g < length (mi_records ?ix)" "fr_frs (mi_records ?ix ! (mi_frs_to_idx ?ix ! g)) = g"
        by simp_all
    qed
    with None t(1,2) tf n show ?thesis
      by (intro exI [of _ "t[f := ?n]"] exI [of _ ?n])
         (simp add: extended_def ensure_with_def Let_def old frs_to_idx_opt_table nth_list_update)
  next
    case (Some j)
    then have tf: "t ! f = j" "j \<noteq> NO_ENTRY" using t(2) by (simp_all add: old split: if_splits)
    have "lookup_ok (ix\<lparr>mi_frs_to_idx := t\<rparr>)"
      using assms(1) t(3,4) by (auto simp: lookup_ok_def split: if_splits)
    with Some t(1,2) tf show ?thesis
      by (intro exI [of _ t] exI [of _ j]) (auto simp: extended_def ensure_with_def Let_def old frs_to_idx_opt_table)
  qed
qed


lemma frs_to_idx_opt_records [simp]: "frs_to_idx_opt (ix\<lparr>mi_records := rs\<rparr>) = frs_to_idx_opt ix"
  by (simp add: fun_eq_iff frs_to_idx_opt_def)

lemma lookup_ok_update:
  assumes "lookup_ok ix" and "fr_frs r = fr_frs (mi_records ix ! i)"
  shows "lookup_ok (ix\<lparr>mi_records := (mi_records ix)[i := r]\<rparr>)"
proof (cases "i < length (mi_records ix)")
  case True
  have "fr_frs ((mi_records ix)[i := r] ! j) = fr_frs (mi_records ix ! j)" for j
    using assms(2) True by (simp add: nth_list_update)
  then show ?thesis using assms(1) by (simp add: lookup_ok_def)
next
  case False
  then have "ix\<lparr>mi_records := (mi_records ix)[i := r]\<rparr> = ix" by (cases ix) (simp add: list_update_beyond)
  with assms(1) show ?thesis by simp
qed

lemma find_record_update:
  assumes "lookup_ok ix" and "i < length (mi_records ix)" and "fr_frs r = fr_frs (mi_records ix ! i)"
  shows "find_record (ix\<lparr>mi_records := (mi_records ix)[i := r]\<rparr>) = (find_record ix)(fr_frs r \<mapsto> r)"
proof
  fix f
  let ?ix = "ix\<lparr>mi_records := (mi_records ix)[i := r]\<rparr>"
  show "find_record ?ix f = ((find_record ix)(fr_frs r \<mapsto> r)) f"
  proof (cases "f = fr_frs r")
    case True
    with lookup_ok_pos(1) [OF assms(1,2)] assms(2,3) show ?thesis
      by (simp add: find_record_idx [OF lookup_ok_update [OF assms(1,3)]])
  next
    case False
    then have "frs_to_idx_opt ix f \<noteq> Some i" using lookup_ok_found(2) [OF assms(1)] assms(3) by metis
    with False show ?thesis
      by (cases "frs_to_idx_opt ix f") (auto simp: find_record_idx [OF lookup_ok_update [OF assms(1,3)]] find_record_idx [OF assms(1)])
  qed
qed

lemma lend_record_spec:
  assumes "lookup_ok ix" and "f < u64_max" and "length (mi_records ix) < u32_max" and mk: "\<And>f. fr_frs (mk f) = f"
    and g: "\<And>r. fr_frs (g r) = fr_frs r"
  shows "\<exists>ix'. lend_record mk f g ix = Some ix' \<and> lookup_ok ix'
    \<and> find_record ix' = (find_record ix)(f \<mapsto> g (case find_record ix f of None \<Rightarrow> mk f | Some r \<Rightarrow> r))
    \<and> length (mi_records ix') \<le> Suc (length (mi_records ix))"
proof -
  obtain t i where e: "ensure_with mk f ix = Some (i, extended mk f t ix)" "lookup_ok (extended mk f t ix)"
    "i = (case frs_to_idx_opt ix f of None \<Rightarrow> length (mi_records ix) | Some j \<Rightarrow> j)"
    "\<And>g. frs_to_idx_opt (extended mk f t ix) g = (if g = f then Some i else frs_to_idx_opt ix g)"
    using ensure_with_spec [OF assms(1-3), of mk] mk by blast
  define ix1 where "ix1 = extended mk f t ix"
  define r where "r = (case find_record ix f of None \<Rightarrow> mk f | Some r \<Rightarrow> r)"
  have i: "i < length (mi_records ix1)" "mi_records ix1 ! i = r" "fr_frs r = f"
    using e(3) lookup_ok_found [OF assms(1), of f] mk
    by (auto simp: ix1_def extended_def r_def find_record_idx [OF assms(1)] nth_append split: option.splits)
  have len: "length (mi_records ix1) = length (mi_records ix) + (if frs_to_idx_opt ix f = None then 1 else 0)" by (simp add: ix1_def extended_def)
  have ok1: "lookup_ok ix1" using e(2) by (simp add: ix1_def)
  let ?ix = "ix1\<lparr>mi_records := (mi_records ix1)[i := g r]\<rparr>"
  have "lend_record mk f g ix = Some ?ix"
    using e(1,3) i len by (auto simp: lend_record_def ix1_def [symmetric] Let_def split: option.splits)
  moreover have "lookup_ok ?ix" using lookup_ok_update [OF ok1, of "g r" i] i g by simp
  moreover have "find_record ?ix = (find_record ix1)(f \<mapsto> g r)"
    using find_record_update [OF ok1 i(1), of "g r"] i g by simp
  moreover have "(find_record ix1)(f \<mapsto> g r) = (find_record ix)(f \<mapsto> g r)"
  proof
    fix h
    have "find_record ix1 h = find_record ix h" if "h \<noteq> f"
    proof -
      have "frs_to_idx_opt ix1 h = frs_to_idx_opt ix h" using e(4) that by (simp add: ix1_def)
      moreover have "mi_records ix1 ! j = mi_records ix ! j" if "frs_to_idx_opt ix h = Some j" for j
        using lookup_ok_found(1) [OF assms(1) that] by (simp add: ix1_def extended_def nth_append)
      ultimately show ?thesis
        by (cases "frs_to_idx_opt ix h") (simp_all add: find_record_idx [OF assms(1)] find_record_idx [OF ok1])
    qed
    then show "((find_record ix1)(f \<mapsto> g r)) h = ((find_record ix)(f \<mapsto> g r)) h" by simp
  qed
  ultimately show ?thesis using len by (auto simp: r_def)
qed

text \<open>
  What the table promises the parsers: updating the record of a file number is an update of a map. The client
  law is that any sequence of updates is the same sequence on the map.
\<close>

fun apply_updates :: "(nat \<Rightarrow> ('r \<Rightarrow> 'r) \<Rightarrow> 'ix \<Rightarrow> 'ix option) \<Rightarrow> (nat \<times> ('r \<Rightarrow> 'r)) list \<Rightarrow> 'ix \<Rightarrow> 'ix option" where
  "apply_updates upsert [] ix = Some ix"
| "apply_updates upsert ((f, g) # us) ix = Option.bind (upsert f g ix) (apply_updates upsert us)"

definition map_update :: "(nat \<Rightarrow> 'r) \<Rightarrow> nat \<times> ('r \<Rightarrow> 'r) \<Rightarrow> (nat \<rightharpoonup> 'r) \<Rightarrow> (nat \<rightharpoonup> 'r)" where
  "map_update fresh u m = m(fst u \<mapsto> snd u (case m (fst u) of None \<Rightarrow> fresh (fst u) | Some r \<Rightarrow> r))"

locale record_table =
  fixes ok :: "'ix \<Rightarrow> bool" and used :: "'ix \<Rightarrow> nat" and find_in :: "'ix \<Rightarrow> nat \<Rightarrow> 'r option"
    and upsert :: "nat \<Rightarrow> ('r \<Rightarrow> 'r) \<Rightarrow> 'ix \<Rightarrow> 'ix option" and fresh :: "nat \<Rightarrow> 'r" and keeps :: "('r \<Rightarrow> 'r) \<Rightarrow> bool"
  assumes upsert_law: "ok ix \<Longrightarrow> f < u64_max \<Longrightarrow> used ix < u32_max \<Longrightarrow> keeps g \<Longrightarrow>
    \<exists>ix'. upsert f g ix = Some ix' \<and> ok ix'
      \<and> find_in ix' = (find_in ix)(f \<mapsto> g (case find_in ix f of None \<Rightarrow> fresh f | Some r \<Rightarrow> r)) \<and> used ix' \<le> Suc (used ix)"
begin

lemma upsert_all_law:
  "ok ix \<Longrightarrow> used ix + length us \<le> u32_max \<Longrightarrow> \<forall>u \<in> set us. fst u < u64_max \<and> keeps (snd u) \<Longrightarrow>
   \<exists>ix'. apply_updates upsert us ix = Some ix' \<and> ok ix' \<and> find_in ix' = fold (map_update fresh) us (find_in ix)"
proof (induction us arbitrary: ix)
  case (Cons u us)
  obtain f g where u: "u = (f, g)" by (cases u)
  with Cons.prems obtain ix' where s: "upsert f g ix = Some ix'" "ok ix'"
    "find_in ix' = (find_in ix)(f \<mapsto> g (case find_in ix f of None \<Rightarrow> fresh f | Some r \<Rightarrow> r))" "used ix' \<le> Suc (used ix)"
    using upsert_law [of ix f g] by auto
  from Cons.IH [OF s(2)] s(4) Cons.prems obtain ix'' where "apply_updates upsert us ix' = Some ix''" "ok ix''"
    "find_in ix'' = fold (map_update fresh) us (find_in ix')" by auto
  moreover have "map_update fresh (f, g) (find_in ix) = find_in ix'" by (simp add: s(3) map_update_def split: option.splits)
  ultimately show ?case using s(1) u by simp
qed simp

end

definition keeps_frs :: "(file_record \<Rightarrow> file_record) \<Rightarrow> bool" where "keeps_frs g \<longleftrightarrow> (\<forall>r. fr_frs (g r) = fr_frs r)"

lemma frs_new [simp]: "fr_frs (file_record_new f) = f" "fr_frs (file_record_new_unified f) = f"
  by (simp_all add: file_record_new_def file_record_new_unified_def)

interpretation legacy: record_table lookup_ok "\<lambda>ix. length (mi_records ix)" find_record get_or_create file_record_new keeps_frs
  by unfold_locales (unfold get_or_create_def, rule lend_record_spec, auto simp: keeps_frs_def)

interpretation unified: record_table lookup_ok "\<lambda>ix. length (mi_records ix)" find_record get_or_create_unified
  file_record_new_unified keeps_frs
  by unfold_locales (unfold get_or_create_unified_def, rule lend_record_spec, auto simp: keeps_frs_def)

text \<open>
  C18. Any sequence of updates through \<open>get_or_create\<close> and its unified variant returns, keeps the table of file
  numbers in step with the records, and does to the lookup what the same updates do to a map: a number that was
  not known gets a fresh record first.
\<close>

theorem record_table_is_a_map:
  assumes "lookup_ok ix" and "length (mi_records ix) + length us \<le> u32_max"
    and "\<forall>u \<in> set us. fst u < u64_max \<and> keeps_frs (snd u)"
  shows "(\<exists>ix'. apply_updates get_or_create us ix = Some ix' \<and> lookup_ok ix'
         \<and> find_record ix' = fold (map_update file_record_new) us (find_record ix))
       \<and> (\<exists>ix'. apply_updates get_or_create_unified us ix = Some ix' \<and> lookup_ok ix'
         \<and> find_record ix' = fold (map_update file_record_new_unified) us (find_record ix))"
  using legacy.upsert_all_law [OF assms] unified.upsert_all_law [OF assms] by blast

theorem record_table_is_a_map_witness:
  "(\<exists>ix'. apply_updates get_or_create [(7, set_has_default_data), (7, set_unified)] (mft_index_new 0 67) = Some ix' \<and> lookup_ok ix'
         \<and> find_record ix' = fold (map_update file_record_new) [(7, set_has_default_data), (7, set_unified)] (find_record (mft_index_new 0 67)))
       \<and> (\<exists>ix'. apply_updates get_or_create_unified [(7, set_has_default_data), (7, set_unified)] (mft_index_new 0 67) = Some ix' \<and> lookup_ok ix'
         \<and> find_record ix' = fold (map_update file_record_new_unified) [(7, set_has_default_data), (7, set_unified)] (find_record (mft_index_new 0 67)))"
  by (rule record_table_is_a_map)
     (simp_all add: rust_limits mft_index_new_def keeps_frs_def set_has_default_data_def set_unified_def,
      simp add: lookup_ok_def)


section \<open>Directory entries as lists\<close>

abbreviation child_next :: "child_info list \<Rightarrow> nat \<Rightarrow> nat option" where
  "child_next cs \<equiv> \<lambda>i. map_option ci_next_entry (vec_get cs i)"

definition entry_positions :: "(nat \<times> nat \<times> nat) list \<Rightarrow> nat \<Rightarrow> nat list" where
  "entry_positions es p = rev (filter (\<lambda>j. fst (es ! j) = p) [0..<length es])"

definition childless :: "file_record \<Rightarrow> file_record" where "childless r = r\<lparr>fr_first_child := NO_ENTRY\<rparr>"

lemma frs_childless [simp]: "fr_frs (childless r) = fr_frs r" by (simp add: childless_def)

text \<open>The entries written so far: one per edge, and the list of a directory is that of its edges, the last first.\<close>

definition entries_of_edges :: "(nat \<times> nat \<times> nat) list \<Rightarrow> mft_index \<Rightarrow> bool" where
  "entries_of_edges es ix \<longleftrightarrow> lookup_ok ix
     \<and> map (\<lambda>c. (ci_child_frs c, ci_name_index c)) (mi_children ix) = map snd es
     \<and> (\<forall>r \<in> set (mi_records ix). linked (child_next (mi_children ix)) (fr_first_child r) (entry_positions es (fr_frs r)))
     \<and> (\<forall>e \<in> set es. frs_to_idx_opt ix (fst e) \<noteq> None)"

lemma entry_positions_snoc:
  "entry_positions (es @ [e]) p = (if fst e = p then length es # entry_positions es p else entry_positions es p)"
  unfolding entry_positions_def by (auto simp: nth_append intro: filter_cong)

lemma entry_positions_bound: "x \<in> set (entry_positions es p) \<Longrightarrow> x < length es"
  by (simp add: entry_positions_def)

lemma linked_snoc:
  assumes "linked (child_next cs) i (entry_positions es p)" and "length cs = length es"
  shows "linked (child_next (cs @ [c])) i (entry_positions es p)"
  using assms(1) by (rule linked_cong) (use assms(2) in \<open>auto dest: entry_positions_bound simp: vec_get_def nth_append\<close>)

lemma add_child_entry_spec:
  assumes inv: "entries_of_edges es ix" and "p < u64_max" and "length (mi_records ix) < u32_max" and es: "length es < u32_max"
  shows "\<exists>ix'. add_child_entry p c k ix = Some ix' \<and> entries_of_edges (es @ [(p, c, k)]) ix'
    \<and> map childless (take (length (mi_records ix)) (mi_records ix')) = map childless (mi_records ix)
    \<and> length (mi_records ix) \<le> length (mi_records ix') \<and> length (mi_records ix') \<le> Suc (length (mi_records ix))
    \<and> mi_links ix' = mi_links ix \<and> mi_names ix' = mi_names ix"
proof -
  from inv have ok: "lookup_ok ix" and cs: "map (\<lambda>c. (ci_child_frs c, ci_name_index c)) (mi_children ix) = map snd es"
    and lk: "\<forall>r \<in> set (mi_records ix). linked (child_next (mi_children ix)) (fr_first_child r) (entry_positions es (fr_frs r))"
    and known: "\<forall>e \<in> set es. frs_to_idx_opt ix (fst e) \<noteq> None"
    by (simp_all add: entries_of_edges_def)
  from arg_cong [OF cs, of length] have lcs: "length (mi_children ix) = length es" by simp
  obtain t i where e: "ensure_with file_record_new p ix = Some (i, extended file_record_new p t ix)"
    "lookup_ok (extended file_record_new p t ix)" "i = (case frs_to_idx_opt ix p of None \<Rightarrow> length (mi_records ix) | Some j \<Rightarrow> j)"
    "\<And>g. frs_to_idx_opt (extended file_record_new p t ix) g = (if g = p then Some i else frs_to_idx_opt ix g)"
    using ensure_with_spec [OF ok assms(2,3), of file_record_new] by auto
  define ix1 where "ix1 = extended file_record_new p t ix"
  have i: "i < length (mi_records ix1)" "fr_frs (mi_records ix1 ! i) = p"
    using lookup_ok_found [OF e(2), of p i] e(4) [of p] by (simp_all add: ix1_def)
  have same: "mi_children ix1 = mi_children ix" "mi_links ix1 = mi_links ix" "mi_names ix1 = mi_names ix"
    "take (length (mi_records ix)) (mi_records ix1) = mi_records ix" "length (mi_records ix) \<le> length (mi_records ix1)"
    "length (mi_records ix1) \<le> Suc (length (mi_records ix))"
    by (simp_all add: ix1_def extended_def)
  have lk1: "linked (child_next (mi_children ix)) (fr_first_child r) (entry_positions es (fr_frs r))" if "r \<in> set (mi_records ix1)" for r
  proof (cases "r \<in> set (mi_records ix)")
    case False
    with that have r: "r = file_record_new p" "frs_to_idx_opt ix p = None" by (auto simp: ix1_def extended_def split: if_splits)
    with known have "p \<notin> set (map fst es)" by auto
    then have "entry_positions es p = []" by (auto simp: entry_positions_def filter_empty_conv)
    with r show ?thesis by (simp add: file_record_new_def)
  qed (use lk in simp)
  let ?r = "(mi_records ix1 ! i)\<lparr>fr_first_child := length es\<rparr>"
  let ?c = "\<lparr>ci_next_entry = fr_first_child (mi_records ix1 ! i), ci_child_frs = c, ci_name_index = k\<rparr>"
  let ?ix = "ix1\<lparr>mi_records := (mi_records ix1)[i := ?r], mi_children := mi_children ix @ [?c]\<rparr>"
  have run: "add_child_entry p c k ix = Some ?ix"
    using e(1) i(1) es by (simp add: add_child_entry_def ix1_def [symmetric] Let_def same lcs)
  have "lookup_ok (ix1\<lparr>mi_records := (mi_records ix1)[i := ?r]\<rparr>)"
    using lookup_ok_update [of ix1 ?r i] e(2) by (simp add: ix1_def)
  then have ok': "lookup_ok ?ix" by (simp add: lookup_ok_def)
  have "linked (child_next (mi_children ix @ [?c])) (fr_first_child r) (entry_positions (es @ [(p, c, k)]) (fr_frs r))"
    if "r \<in> set (mi_records ?ix)" for r
  proof -
    from that obtain j where j: "j < length (mi_records ix1)" "r = (mi_records ix1)[i := ?r] ! j" by (auto simp: in_set_conv_nth)
    have old: "linked (child_next (mi_children ix @ [?c])) (fr_first_child (mi_records ix1 ! j))
        (entry_positions es (fr_frs (mi_records ix1 ! j)))"
      using linked_snoc [OF lk1 lcs] j(1) by simp
    show ?thesis
    proof (cases "j = i")
      case True
      with old j i es show ?thesis by (simp add: entry_positions_snoc NO_ENTRY_def vec_get_def nth_append lcs)
    next
      case False
      then have r: "r = mi_records ix1 ! j" using j by simp
      have "fr_frs r \<noteq> p"
        using lookup_ok_pos(1) [OF e(2), of j] lookup_ok_pos(1) [OF e(2), of i] j(1) i False by (auto simp: ix1_def r)
      with old r show ?thesis by (simp add: entry_positions_snoc)
    qed
  qed
  moreover have "\<forall>d \<in> set (es @ [(p, c, k)]). frs_to_idx_opt ?ix (fst d) \<noteq> None"
  proof -
    have "frs_to_idx_opt ?ix = frs_to_idx_opt ix1" by (simp add: fun_eq_iff frs_to_idx_opt_def)
    with known e(4) show ?thesis by (auto simp: ix1_def)
  qed
  ultimately have "entries_of_edges (es @ [(p, c, k)]) ?ix"
    using ok' cs by (simp add: entries_of_edges_def)
  moreover have "map childless (take (length (mi_records ix)) (mi_records ?ix)) = map childless (mi_records ix)"
  proof -
    have "map childless ((mi_records ix1)[i := ?r]) = map childless (mi_records ix1)"
    proof -
      have "childless ?r = map childless (mi_records ix1) ! i" using i(1) by (simp add: childless_def)
      then show ?thesis by (simp only: map_update list_update_id)
    qed
    then have "take (length (mi_records ix)) (map childless (mi_records ?ix)) = map childless (take (length (mi_records ix)) (mi_records ix1))"
      by (simp add: take_map)
    then show ?thesis by (simp only: take_map same(4))
  qed
  ultimately show ?thesis using run same by (intro exI [of _ ?ix]) simp
qed

lemma add_edges_spec:
  "entries_of_edges done ix \<Longrightarrow> \<forall>e \<in> set es. fst e < u64_max \<Longrightarrow> length (mi_records ix) + length es \<le> u32_max \<Longrightarrow>
   length done + length es \<le> u32_max \<Longrightarrow>
   \<exists>ix'. add_edges es ix = Some ix' \<and> entries_of_edges (done @ es) ix'
     \<and> map childless (take (length (mi_records ix)) (mi_records ix')) = map childless (mi_records ix)
     \<and> length (mi_records ix) \<le> length (mi_records ix') \<and> mi_links ix' = mi_links ix \<and> mi_names ix' = mi_names ix"
proof (induction es arbitrary: "done" ix)
  case (Cons e es)
  obtain p c k where e: "e = (p, c, k)" by (cases e)
  let ?n = "length (mi_records ix)"
  obtain ix1 where s: "add_child_entry p c k ix = Some ix1" "entries_of_edges (done @ [e]) ix1"
    "map childless (take ?n (mi_records ix1)) = map childless (mi_records ix)" "?n \<le> length (mi_records ix1)"
    "length (mi_records ix1) \<le> Suc ?n" "mi_links ix1 = mi_links ix" "mi_names ix1 = mi_names ix"
    using add_child_entry_spec [OF Cons.prems(1), of p c k] Cons.prems e by auto
  from Cons.IH [OF s(2)] Cons.prems s(5) obtain ix2 where t: "add_edges es ix1 = Some ix2" "entries_of_edges ((done @ [e]) @ es) ix2"
    "map childless (take (length (mi_records ix1)) (mi_records ix2)) = map childless (mi_records ix1)"
    "length (mi_records ix1) \<le> length (mi_records ix2)" "mi_links ix2 = mi_links ix1" "mi_names ix2 = mi_names ix1"
    by auto
  have "map childless (take ?n (mi_records ix2)) = take ?n (map childless (take (length (mi_records ix1)) (mi_records ix2)))"
    using s(4) by (simp add: take_map min_def)
  with t(3) s(3) have "map childless (take ?n (mi_records ix2)) = map childless (mi_records ix)" by (simp only: take_map)
  with s t e show ?case by (intro exI [of _ ix2]) simp
qed simp

lemma entries_clear:
  assumes "lookup_ok ix"
  shows "entries_of_edges [] (clear_children ix)"
proof -
  have "frs_to_idx_opt (clear_children ix) = frs_to_idx_opt ix" by (simp add: fun_eq_iff clear_children_def frs_to_idx_opt_def)
  with assms show ?thesis by (auto simp: entries_of_edges_def clear_children_def lookup_ok_def entry_positions_def)
qed

lemma entry_positions_edges:
  assumes "map f cs = map snd es"
  shows "map (\<lambda>i. f (cs ! i)) (entry_positions es p) = rev (map snd (filter (\<lambda>e. fst e = p) es))"
proof -
  from arg_cong [OF assms, of length] have l: "length cs = length es" by simp
  have "f (cs ! i) = snd (es ! i)" if "i < length es" for i
    using arg_cong [OF assms, of "\<lambda>xs. xs ! i"] that l by simp
  then have "map (\<lambda>i. f (cs ! i)) (entry_positions es p) = map (\<lambda>i. snd (es ! i)) (entry_positions es p)"
    by (intro map_cong) (auto dest: entry_positions_bound)
  also have "\<dots> = rev (map snd (map ((!) es) (filter (\<lambda>j. fst (es ! j) = p) [0..<length es])))"
    by (simp add: entry_positions_def rev_map comp_def)
  also have "map ((!) es) (filter (\<lambda>j. fst (es ! j) = p) [0..<length es]) = filter (\<lambda>e. fst e = p) es"
    using filter_map [of "\<lambda>e. fst e = p" "(!) es" "[0..<length es]"] by (simp add: map_nth comp_def)
  finally show ?thesis .
qed

text \<open>
  The names of a record, as many as it counts: the first one and those of its list. The list was built from its end,
  so the last name has the number 0. A name makes an entry in its directory, unless it has none or lies in the record
  itself, as that of the root does.
\<close>

definition names_listed :: "mft_index \<Rightarrow> file_record \<Rightarrow> link_info list" where
  "names_listed ix r =
     (if fr_name_count r = 0 then []
      else fr_first_name r # read_list li_next_entry (mi_links ix) (fr_name_count r - 1) (li_next_entry (fr_first_name r)))"

definition entry_of_name :: "nat \<Rightarrow> nat \<Rightarrow> nat \<times> link_info \<Rightarrow> (nat \<times> nat \<times> nat) list" where
  "entry_of_name child n e = (case e of (i, l) \<Rightarrow>
     if li_parent_frs l = NO_ENTRY \<or> li_parent_frs l = child then [] else [(li_parent_frs l, child, len_to_u16 (n - 1 - i))])"

definition name_entries :: "mft_index \<Rightarrow> (nat \<times> nat \<times> nat) list" where
  "name_entries ix = concat (map (\<lambda>r. concat (map (entry_of_name (fr_frs r) (fr_name_count r)) (enumerate 0 (names_listed ix r)))) (mi_records ix))"

lemma enumerate_shift: "enumerate (Suc k) xs = map (\<lambda>(i, x). (Suc i, x)) (enumerate k xs)"
  by (induction xs arbitrary: k) simp_all

lemma link_edges_listed:
  "link_edges links c (Suc n) l = concat (map (entry_of_name c (Suc n)) (enumerate 0 (l # read_list li_next_entry links n (li_next_entry l))))"
proof (induction n arbitrary: l)
  case 0
  then show ?case by (auto simp: entry_of_name_def split: option.split)
next
  case (Suc n)
  have "entry_of_name c (Suc (Suc n)) \<circ> (\<lambda>(i, x). (Suc i, x)) = entry_of_name c (Suc n)" by (auto simp: entry_of_name_def fun_eq_iff)
  then have shift: "map (entry_of_name c (Suc (Suc n))) (enumerate (Suc 0) ls) = map (entry_of_name c (Suc n)) (enumerate 0 ls)" for ls
    by (simp only: enumerate_shift [of 0] map_map)
  show ?case
  proof (cases "li_next_entry l = NO_ENTRY \<or> length links \<le> li_next_entry l")
    case True
    then have "read_list li_next_entry links (Suc n) (li_next_entry l) = []" by simp
    with True show ?thesis by (subst link_edges.simps(2)) (auto simp: entry_of_name_def split: option.split)
  next
    case False
    let ?l = "links ! li_next_entry l"
    from False have "read_list li_next_entry links (Suc n) (li_next_entry l) = ?l # read_list li_next_entry links n (li_next_entry ?l)" by simp
    then have "concat (map (entry_of_name c (Suc (Suc n))) (enumerate 0 (l # read_list li_next_entry links (Suc n) (li_next_entry l))))
        = entry_of_name c (Suc (Suc n)) (0, l)
          @ concat (map (entry_of_name c (Suc n)) (enumerate 0 (?l # read_list li_next_entry links n (li_next_entry ?l))))"
      by (simp only: enumerate_simps(2) [of 0 l] list.map concat.simps shift)
    moreover have "link_edges links c (Suc (Suc n)) l = entry_of_name c (Suc (Suc n)) (0, l) @ link_edges links c (Suc n) ?l"
      using False by (subst link_edges.simps(2)) (auto simp: entry_of_name_def)
    ultimately show ?thesis using Suc by (simp only:)
  qed
qed

lemma collected_edges: "collect_parent_child_edges ix = name_entries ix"
proof -
  have "link_edges (mi_links ix) (fr_frs r) (fr_name_count r) (fr_first_name r)
      = concat (map (entry_of_name (fr_frs r) (fr_name_count r)) (enumerate 0 (names_listed ix r)))" for r
    by (cases "fr_name_count r") (simp_all add: names_listed_def link_edges_listed del: link_edges.simps(2) enumerate_simps(2))
  then show ?thesis by (simp only: collect_parent_child_edges_def name_entries_def)
qed

text \<open>
  C17. Rebuilding the directory entries from the names returns and gives every directory exactly one entry per name
  that lies in it, with the number of the name, in a list that ends, the last name first; directories that are
  referenced but not known get a placeholder, the records keep everything else, and the table of file numbers stays
  in step. The names are read from the records and their lists, and records and names together have to fit the
  32-bit positions.
\<close>

theorem rebuild_children_exact:
  assumes "lookup_ok ix" and "\<forall>e \<in> set (name_entries ix). fst e < u64_max"
    and "length (mi_records ix) + length (name_entries ix) \<le> u32_max"
  shows "\<exists>ix'. rebuild_children_from_names ix = Some ix' \<and> lookup_ok ix'
    \<and> (\<forall>r \<in> set (mi_records ix'). \<exists>entries. child_chain ix' (fr_first_child r) = Some entries
         \<and> map (\<lambda>i. (ci_child_frs (mi_children ix' ! i), ci_name_index (mi_children ix' ! i))) entries
           = rev (map snd (filter (\<lambda>e. fst e = fr_frs r) (name_entries ix))))
    \<and> (\<forall>e \<in> set (name_entries ix). find_record ix' (fst e) \<noteq> None)
    \<and> map childless (take (length (mi_records ix)) (mi_records ix')) = map childless (mi_records ix)"
proof -
  let ?es = "name_entries ix"
  have len: "length (mi_records (clear_children ix)) = length (mi_records ix)" by (simp add: clear_children_def)
  obtain ix' where s: "add_edges ?es (clear_children ix) = Some ix'" "entries_of_edges ?es ix'"
    "map childless (take (length (mi_records ix)) (mi_records ix')) = map childless (mi_records (clear_children ix))"
    using add_edges_spec [OF entries_clear [OF assms(1)] assms(2)] assms(3) len by auto
  have cleared: "map childless (mi_records (clear_children ix)) = map childless (mi_records ix)"
    by (simp add: clear_children_def childless_def)
  from s(2) have ok: "lookup_ok ix'" by (simp add: entries_of_edges_def)
  have "\<exists>entries. child_chain ix' (fr_first_child r) = Some entries
      \<and> map (\<lambda>i. (ci_child_frs (mi_children ix' ! i), ci_name_index (mi_children ix' ! i))) entries
        = rev (map snd (filter (\<lambda>e. fst e = fr_frs r) ?es))" if "r \<in> set (mi_records ix')" for r
  proof -
    from s(2) that have "linked (child_next (mi_children ix')) (fr_first_child r) (entry_positions ?es (fr_frs r))"
      and m: "map (\<lambda>c. (ci_child_frs c, ci_name_index c)) (mi_children ix') = map snd ?es"
      by (auto simp: entries_of_edges_def)
    from linked_walk [OF this(1)] entry_positions_edges [OF m] show ?thesis by (simp add: child_chain_def)
  qed
  moreover have "find_record ix' (fst e) \<noteq> None" if "e \<in> set ?es" for e
    using s(2) that by (auto simp: entries_of_edges_def find_record_idx)
  ultimately show ?thesis
    using s ok cleared by (intro exI [of _ ix']) (auto simp: rebuild_children_from_names_def collected_edges)
qed


text \<open>A volume with a root directory and a file of two names, the second in a directory that was not read.\<close>

definition demo_index :: mft_index where
  "demo_index = (mft_index_new 0 67)\<lparr>
     mi_records := [(file_record_new 5)\<lparr>fr_stdinfo := set_directory True standard_info_default,
                      fr_first_name := \<lparr>li_next_entry = NO_ENTRY, li_name = name_ref_new 0 1 True 0, li_parent_frs = 5\<rparr>\<rparr>,
                    (file_record_new 7)\<lparr>fr_name_count := 2,
                      fr_first_name := \<lparr>li_next_entry = 0, li_name = name_ref_new 1 1 True 0, li_parent_frs = 5\<rparr>,
                      fr_first_stream := \<lparr>is_size = \<lparr>sz_length = 5, sz_allocated = 4096\<rparr>, is_next_entry = NO_ENTRY,
                        is_name = \<lparr>nr_offset = NO_ENTRY, nr_meta = 0\<rparr>, is_flags = 0\<rparr>\<rparr>],
     mi_frs_to_idx := [NO_ENTRY, NO_ENTRY, NO_ENTRY, NO_ENTRY, NO_ENTRY, 0, NO_ENTRY, 1],
     mi_names := [0x2E, 0x61, 0x62],
     mi_links := [\<lparr>li_next_entry = NO_ENTRY, li_name = name_ref_new 2 1 True 0, li_parent_frs = 9\<rparr>]\<rparr>"

lemma demo_index_ok: "lookup_ok demo_index"
  by (simp add: demo_index_def lookup_ok_def mft_index_new_def file_record_new_def NO_ENTRY_def rust_limits All_less_Suc nth_Cons')

lemma demo_index_edges: "name_entries demo_index = [(5, 7, 1), (9, 7, 0)]"
  by (simp add: name_entries_def names_listed_def entry_of_name_def demo_index_def mft_index_new_def file_record_new_def NO_ENTRY_def
      rust_limits len_to_u16_def)

theorem rebuild_children_exact_witness:
  "\<exists>ix'. rebuild_children_from_names demo_index = Some ix' \<and> lookup_ok ix'
    \<and> (\<forall>r \<in> set (mi_records ix'). \<exists>entries. child_chain ix' (fr_first_child r) = Some entries
         \<and> map (\<lambda>i. (ci_child_frs (mi_children ix' ! i), ci_name_index (mi_children ix' ! i))) entries
           = rev (map snd (filter (\<lambda>e. fst e = fr_frs r) (name_entries demo_index))))
    \<and> (\<forall>e \<in> set (name_entries demo_index). find_record ix' (fst e) \<noteq> None)
    \<and> map childless (take (length (mi_records demo_index)) (mi_records ix')) = map childless (mi_records demo_index)"
  by (rule rebuild_children_exact)
     (simp_all add: demo_index_ok demo_index_edges rust_limits, simp add: demo_index_def)

section \<open>Statistics as sums\<close>

abbreviation rec_size :: "file_record \<Rightarrow> nat" where "rec_size r \<equiv> sz_length (is_size (fr_first_stream r))"

definition count_where :: "(file_record \<Rightarrow> bool) \<Rightarrow> file_record list \<Rightarrow> nat" where
  "count_where P rs = length (filter P rs)"

definition bytes_where :: "(file_record \<Rightarrow> bool) \<Rightarrow> file_record list \<Rightarrow> nat" where
  "bytes_where P rs = sum_list (map rec_size (filter P rs))"

definition stats_of :: "file_record list \<Rightarrow> mft_stats" where
  "stats_of rs =
     \<lparr>ms_record_count = length rs,
      ms_dir_count = count_where (\<lambda>r. si_is_directory (fr_stdinfo r)) rs,
      ms_file_count = count_where (\<lambda>r. \<not> si_is_directory (fr_stdinfo r)) rs,
      ms_max_frs = fold max (map fr_frs rs) 0,
      ms_total_name_bytes = sum_list (map (\<lambda>r. name_ref_length (li_name (fr_first_name r))) rs),
      ms_multi_name_count = count_where (\<lambda>r. fr_name_count r > 1) rs,
      ms_ads_count = count_where (\<lambda>r. fr_stream_count r > 1) rs,
      ms_system_metafile_count = count_where (\<lambda>r. system_frs (fr_frs r)) rs,
      ms_system_child_count = count_where (\<lambda>r. system_frs (li_parent_frs (fr_first_name r))) rs,
      ms_total_bytes = bytes_where (\<lambda>r. True) rs,
      ms_dir_bytes = bytes_where (\<lambda>r. si_is_directory (fr_stdinfo r)) rs,
      ms_hidden_bytes = bytes_where (\<lambda>r. si_is_hidden (fr_stdinfo r)) rs,
      ms_system_bytes = bytes_where (\<lambda>r. si_is_system (fr_stdinfo r)) rs,
      ms_compressed_bytes = bytes_where (\<lambda>r. si_is_compressed (fr_stdinfo r)) rs,
      ms_encrypted_bytes = bytes_where (\<lambda>r. si_is_encrypted (fr_stdinfo r)) rs,
      ms_sparse_bytes = bytes_where (\<lambda>r. si_is_sparse (fr_stdinfo r)) rs,
      ms_reparse_bytes = bytes_where (\<lambda>r. si_is_reparse (fr_stdinfo r)) rs,
      ms_size_bucket_counts = map (\<lambda>b. count_where (\<lambda>r. size_bucket (rec_size r) = b) rs) [0..<8],
      ms_size_bucket_bytes = map (\<lambda>b. bytes_where (\<lambda>r. size_bucket (rec_size r) = b) rs) [0..<8],
      ms_lossy_name_count = 0\<rparr>"

lemma where_snoc [simp]:
  "count_where P (rs @ [r]) = count_where P rs + (if P r then 1 else 0)"
  "bytes_where P (rs @ [r]) = bytes_where P rs + (if P r then rec_size r else 0)"
  by (simp_all add: count_where_def bytes_where_def)

lemma where_le: "count_where P rs \<le> length rs" "bytes_where P rs \<le> bytes_where (\<lambda>r. True) rs"
  by (simp_all add: count_where_def bytes_where_def sum_list_filter_le_nat)

lemma size_bucket_less: "size_bucket n < 8"
  by (simp add: size_bucket_def)

lemma name_bytes_le: "sum_list (map (\<lambda>r. name_ref_length (li_name (fr_first_name r))) rs) \<le> 1023 * length rs"
proof (induction rs)
  case (Cons r rs)
  have "name_ref_length (li_name (fr_first_name r)) \<le> 1023"
  proof -
    have "unat (nr_meta (li_name (fr_first_name r)) AND 0x3FF) \<le> unat (0x3FF :: u32)"
      by (intro word_le_nat_alt [THEN iffD1] word_and_le1)
    then show ?thesis by (simp add: name_ref_length_def)
  qed
  with Cons show ?case by simp
qed simp

lemma inc_if_ok: "n < u32_max \<Longrightarrow> inc_if b n = Some (n + (if b then 1 else 0))"
  by (simp add: inc_if_def u32_inc_def)

lemma add_if_ok: "n + v \<le> u64_max \<Longrightarrow> add_if b v n = Some (n + (if b then v else 0))"
  by (simp add: add_if_def u64_add_def u64_check_def)

lemma buckets_snoc:
  "map (\<lambda>b. count_where (\<lambda>r. size_bucket (rec_size r) = b) (rs @ [r])) [0..<8]
     = (map (\<lambda>b. count_where (\<lambda>r. size_bucket (rec_size r) = b) rs) [0..<8])
       [size_bucket (rec_size r) := count_where (\<lambda>x. size_bucket (rec_size x) = size_bucket (rec_size r)) rs + 1]"
  "map (\<lambda>b. bytes_where (\<lambda>r. size_bucket (rec_size r) = b) (rs @ [r])) [0..<8]
     = (map (\<lambda>b. bytes_where (\<lambda>r. size_bucket (rec_size r) = b) rs) [0..<8])
       [size_bucket (rec_size r) := bytes_where (\<lambda>x. size_bucket (rec_size x) = size_bucket (rec_size r)) rs + rec_size r]"
  by (auto simp: list_eq_iff_nth_eq nth_list_update)

lemma stats_step_of:
  assumes "length rs < u32_max" and "bytes_where (\<lambda>r. True) (rs @ [r]) \<le> u64_max"
  shows "stats_step r (stats_of rs) = Some (stats_of (rs @ [r]))"
proof -
  have c: "count_where P rs < u32_max" for P using where_le(1) [of P rs] assms(1) by linarith
  have b: "bytes_where P rs + rec_size r \<le> u64_max" for P using where_le(2) [of P rs] assms(2) by simp
  have n: "sum_list (map (\<lambda>r. name_ref_length (li_name (fr_first_name r))) (rs @ [r])) \<le> u64_max"
    using name_bytes_le [of "rs @ [r]"] assms(1) unfolding rust_limits by simp
  have m: "fold max (map fr_frs (rs @ [r])) 0 = (if fold max (map fr_frs rs) 0 < fr_frs r then fr_frs r else fold max (map fr_frs rs) 0)"
    by (simp add: max_def)
  have nb: "u64_add (sum_list (map (\<lambda>r. name_ref_length (li_name (fr_first_name r))) rs)) (name_ref_length (li_name (fr_first_name r)))
      = Some (sum_list (map (\<lambda>r. name_ref_length (li_name (fr_first_name r))) (rs @ [r])))"
    using n by (simp add: u64_add_def u64_check_def)
  have rc: "u32_inc (length rs) = Some (length (rs @ [r]))" using assms(1) by (simp add: u32_inc_def)
  have cb: "u32_inc (count_where P rs) = Some (count_where P rs + 1)" "u64_add (bytes_where P rs) (rec_size r) = Some (bytes_where P rs + rec_size r)" for P
    using c b by (simp_all add: u32_inc_def u64_add_def u64_check_def)
  show ?thesis
    unfolding stats_step_def stats_of_def Let_def mft_stats.select_convs buckets_snoc m rc nb
    by (simp add: inc_if_ok [OF c] add_if_ok [OF b] cb size_bucket_less nth_map del: upt_rec_numeral)
qed

lemma stats_loop_of:
  "length rs + length rs' \<le> u32_max \<Longrightarrow> bytes_where (\<lambda>r. True) (rs @ rs') \<le> u64_max \<Longrightarrow>
   stats_loop rs' (stats_of rs) = Some (stats_of (rs @ rs'))"
proof (induction rs' arbitrary: rs)
  case (Cons r rs')
  have "bytes_where (\<lambda>r. True) (rs @ [r]) \<le> u64_max" using Cons.prems(2) by (simp add: bytes_where_def)
  with Cons.prems stats_step_of [of rs r] Cons.IH [of "rs @ [r]"] show ?case by simp
qed simp

text \<open>
  The statistics of an index are what their names say: on at most \<open>2^32 - 1\<close> records whose sizes add up to 64
  bits recomputing them returns, and every counter is the number of the records, and every sum the sum of the
  sizes of the records, of its kind.
\<close>

theorem recompute_stats_exact:
  assumes "length (mi_records ix) \<le> u32_max" and "bytes_where (\<lambda>r. True) (mi_records ix) \<le> u64_max"
  shows "recompute_stats lossy ix = Some (ix\<lparr>mi_stats := (stats_of (mi_records ix))\<lparr>ms_lossy_name_count := lossy\<rparr>\<rparr>)"
proof -
  have "mft_stats_new = stats_of []"
    by (simp add: mft_stats_new_def stats_of_def count_where_def bytes_where_def map_replicate_const del: upt_rec_numeral)
  with stats_loop_of [of "[]" "mi_records ix"] assms show ?thesis by (simp add: recompute_stats_def)
qed

theorem recompute_stats_exact_witness:
  "recompute_stats 3 demo_index = Some (demo_index\<lparr>mi_stats := (stats_of (mi_records demo_index))\<lparr>ms_lossy_name_count := 3\<rparr>\<rparr>)"
  by (rule recompute_stats_exact) (simp_all add: demo_index_def bytes_where_def file_record_new_def rust_limits)

end
