(* ===== verification/Tree_Metrics.thy ===== *)
theory Tree_Metrics
  imports Mft_Index "HOL-Library.Multiset"
begin

text \<open>
  The tree metrics of the index (\<open>crates/uffs-mft/src/tree_metrics.rs\<close>, \<open>index/tree.rs\<close>): sizes and counts are
  summed up the directory tree, the size of a file with several names is shared among the directories they lie
  in, and every directory is stamped with the sums below it.

  The recursion over directories has a depth as argument; \<open>None\<close> is a panic or a recursion deeper than that. One
  more than the number of records is enough: a deeper one has met a directory inside itself and never ends.
  Logging is left out, and the two environment variables that change the behaviour are arguments.
\<close>

section \<open>Shares\<close>

definition delta :: "nat \<Rightarrow> nat \<Rightarrow> nat \<Rightarrow> nat rust" where
  "delta v name_info total_names =
     (if total_names \<le> 1 then Some v
      else do {
        a \<leftarrow> u64_mul v (name_info + 1);
        b \<leftarrow> u64_mul v name_info;
        u64_sub (a div total_names) (b div total_names)
      })"

definition compute_name_info :: "nat \<Rightarrow> nat \<Rightarrow> nat" where
  "compute_name_info name_index total_names =
     (if total_names \<le> 1 then 0
      else (let clamped_index = (if name_index \<ge> total_names then total_names - 1 else name_index)
            in total_names - 1 - clamped_index))"

definition compute_name_info_checked :: "nat \<Rightarrow> nat \<Rightarrow> nat" where
  "compute_name_info_checked name_index total_names =
     (if total_names \<le> 1 then 0 else if name_index \<ge> total_names then 0 else total_names - 1 - name_index)"

section \<open>The traversal\<close>

record agg =
  ag_length :: nat
  ag_allocated :: nat
  ag_treesize :: nat

definition agg_default :: agg where "agg_default = \<lparr>ag_length = 0, ag_allocated = 0, ag_treesize = 0\<rparr>"

definition agg_add :: "agg \<Rightarrow> agg \<Rightarrow> agg" where
  "agg_add a b = \<lparr>ag_length = u64_sat_add (ag_length a) (ag_length b), ag_allocated = u64_sat_add (ag_allocated a) (ag_allocated b),
                  ag_treesize = u32_sat_add (ag_treesize a) (ag_treesize b)\<rparr>"

record tree_traversal =
  tt_index :: mft_index
  tt_seen :: "bool list"
  tt_skip_orphans :: bool
  tt_depth :: nat
  tt_reserved_allocated_bytes :: nat

definition WOF_NAME :: bytes where "WOF_NAME = ascii_bytes ''WofCompressedData''"
definition WOF_TAG :: u32 where "WOF_TAG = 0x80000017"

fun find_wof :: "mft_index \<Rightarrow> nat \<Rightarrow> nat \<Rightarrow> nat rust" where
  "find_wof ix 0 idx = (if idx = NO_ENTRY then Some NO_ENTRY else None)"
| "find_wof ix (Suc n) idx =
     (if idx = NO_ENTRY then Some NO_ENTRY
      else case vec_get (mi_streams ix) idx of
             None \<Rightarrow> None
           | Some stream \<Rightarrow>
               if get_name ix (is_name stream) = WOF_NAME then Some idx else find_wof ix n (is_next_entry stream))"

definition find_wof_stream :: "mft_index \<Rightarrow> nat \<Rightarrow> nat rust" where
  "find_wof_stream ix first_stream_next = find_wof ix (Suc (length (mi_streams ix))) first_stream_next"

definition set_first_allocated :: "nat \<Rightarrow> file_record \<Rightarrow> file_record" where
  "set_first_allocated a r =
     r\<lparr>fr_first_stream := (fr_first_stream r)\<lparr>is_size := (is_size (fr_first_stream r))\<lparr>sz_allocated := a\<rparr>\<rparr>\<rparr>"

definition merge_wof_alloc :: "nat \<Rightarrow> u32 \<Rightarrow> nat \<Rightarrow> nat \<Rightarrow> mft_index \<Rightarrow> ((nat \<times> nat) \<times> mft_index) rust" where
  "merge_wof_alloc record_idx reparse_tag first_stream_next first_alloc ix = do {
     wof_idx \<leftarrow> (if reparse_tag = WOF_TAG then find_wof_stream ix first_stream_next else Some NO_ENTRY);
     if wof_idx = NO_ENTRY then Some ((wof_idx, first_alloc), ix)
     else (let merged = u64_sat_add first_alloc (sz_allocated (is_size (mi_streams ix ! wof_idx))) in
           Some ((wof_idx, merged),
             ix\<lparr>mi_records := (mi_records ix)[record_idx := set_first_allocated merged (mi_records ix ! record_idx)]\<rparr>))
   }"

text \<open>The shares of a list of streams, each added with saturation.\<close>

definition add_share :: "nat \<Rightarrow> nat \<Rightarrow> size_info \<Rightarrow> nat \<times> nat \<Rightarrow> (nat \<times> nat) rust" where
  "add_share name_info total_names s own = do {
     l \<leftarrow> delta (sz_length s) name_info total_names;
     a \<leftarrow> delta (sz_allocated s) name_info total_names;
     Some (u64_sat_add (fst own) l, u64_sat_add (snd own) a)
   }"

fun add_shares :: "nat \<Rightarrow> nat \<Rightarrow> size_info list \<Rightarrow> nat \<times> nat \<Rightarrow> (nat \<times> nat) rust" where
  "add_shares name_info total_names [] own = Some own"
| "add_shares name_info total_names (s # ss) own = do {
     own' \<leftarrow> add_share name_info total_names s own;
     add_shares name_info total_names ss own'
   }"

definition NO_SIZE :: size_info where "NO_SIZE = \<lparr>sz_length = 0, sz_allocated = 0\<rparr>"

definition internal_sizes :: "mft_index \<Rightarrow> file_record \<Rightarrow> size_info list rust" where
  "internal_sizes ix r =
     (if fr_first_internal_stream r \<noteq> NO_ENTRY \<and> mi_internal_streams ix \<noteq> [] then
        map_option (List.map_filter (\<lambda>i. map_option in_size (vec_get (mi_internal_streams ix) i)))
          (walk in_next_entry (mi_internal_streams ix) (fr_first_internal_stream r))
      else if fr_internal_streams_size r > 0 \<or> fr_internal_streams_allocated r > 0
      then Some [\<lparr>sz_length = fr_internal_streams_size r, sz_allocated = fr_internal_streams_allocated r\<rparr>]
      else Some [])"

definition named_sizes :: "mft_index \<Rightarrow> nat \<Rightarrow> nat \<Rightarrow> size_info list rust" where
  "named_sizes ix first_stream_next wof_idx =
     map_option (List.map_filter (\<lambda>i. map_option (\<lambda>s. if i = wof_idx then NO_SIZE else is_size s) (vec_get (mi_streams ix) i)))
       (walk is_next_entry (mi_streams ix) first_stream_next)"

text \<open>The snapshot of the record is the record itself: the fields it copies do not change meanwhile.\<close>

definition accumulate_own_streams :: "mft_index \<Rightarrow> file_record \<Rightarrow> nat \<Rightarrow> nat \<Rightarrow> nat \<Rightarrow> nat \<Rightarrow> (nat \<times> nat) rust" where
  "accumulate_own_streams ix r first_alloc wof_idx name_info total_names = do {
     own_len \<leftarrow> delta (sz_length (is_size (fr_first_stream r))) name_info total_names;
     own_alloc \<leftarrow> delta first_alloc name_info total_names;
     internal \<leftarrow> internal_sizes ix r;
     own \<leftarrow> add_shares name_info total_names internal (own_len, own_alloc);
     named \<leftarrow> named_sizes ix (is_next_entry (fr_first_stream r)) wof_idx;
     add_shares name_info total_names named own
   }"

definition set_metrics :: "nat \<Rightarrow> nat \<Rightarrow> nat \<Rightarrow> file_record \<Rightarrow> file_record" where
  "set_metrics d s a r = r\<lparr>fr_descendants := d, fr_treesize := s, fr_tree_allocated := a\<rparr>"

definition store_printed_metrics :: "nat \<Rightarrow> bool \<Rightarrow> agg \<Rightarrow> nat \<Rightarrow> nat \<Rightarrow> mft_index \<Rightarrow> mft_index" where
  "store_printed_metrics record_idx is_dir children first_len first_alloc ix =
     ix\<lparr>mi_records := (mi_records ix)[record_idx :=
        (if is_dir
         then set_metrics (u32_sat_add (ag_treesize children) 1) (u64_sat_add (ag_length children) first_len)
                (u64_sat_add (ag_allocated children) first_alloc)
         else set_metrics 0 first_len first_alloc) (mi_records ix ! record_idx)]\<rparr>"

type_synonym visit = "nat \<Rightarrow> nat \<Rightarrow> nat \<Rightarrow> tree_traversal \<Rightarrow> (agg \<times> tree_traversal) rust"

fun child_loop :: "visit \<Rightarrow> child_info list \<Rightarrow> agg \<Rightarrow> tree_traversal \<Rightarrow> (agg \<times> tree_traversal) rust" where
  "child_loop visit [] acc tt = Some (acc, tt)"
| "child_loop visit (ce # ces) acc tt =
     (case frs_to_idx_opt (tt_index tt) (ci_child_frs ce) of
        None \<Rightarrow> child_loop visit ces acc tt
      | Some child_idx \<Rightarrow>
          if child_idx < length (mi_records (tt_index tt)) then do {
            let child_total_names = fr_name_count (mi_records (tt_index tt) ! child_idx);
            (child_agg, tt') \<leftarrow> visit child_idx (compute_name_info_checked (ci_name_index ce) child_total_names)
                                  (max child_total_names 1) tt;
            child_loop visit ces (agg_add acc child_agg) tt'
          } else None)"

text \<open>The entries of a directory do not change during the traversal, so they are walked before its children are visited.\<close>

definition child_entries :: "mft_index \<Rightarrow> nat \<Rightarrow> child_info list rust" where
  "child_entries ix first_child = do {
     is \<leftarrow> child_chain ix first_child;
     if list_all (\<lambda>i. i < length (mi_children ix)) is then Some (map ((!) (mi_children ix)) is) else None
   }"

definition aggregate_children :: "visit \<Rightarrow> nat \<Rightarrow> tree_traversal \<Rightarrow> (agg \<times> tree_traversal) rust" where
  "aggregate_children visit first_child tt = do {
     entries \<leftarrow> child_entries (tt_index tt) first_child;
     (a, tt1) \<leftarrow> child_loop visit entries agg_default (tt\<lparr>tt_depth := u32_sat_add (tt_depth tt) 1\<rparr>);
     let depth = tt_depth tt1 - 1;
     Some (if depth = 0 \<and> tt_reserved_allocated_bytes tt1 > 0
           then a\<lparr>ag_allocated := u64_sat_add (ag_allocated a) (tt_reserved_allocated_bytes tt1)\<rparr> else a,
           tt1\<lparr>tt_depth := depth\<rparr>)
   }"

definition visit_record :: "visit \<Rightarrow> visit" where
  "visit_record visit record_idx name_info total_names_raw tt =
     (if record_idx \<ge> length (mi_records (tt_index tt)) then Some (agg_default, tt)
      else do {
        let r = mi_records (tt_index tt) ! record_idx;
        let is_dir = si_is_directory (fr_stdinfo r);
        let first_len = sz_length (is_size (fr_first_stream r));
        let total_names = max total_names_raw 1;
        ((wof_idx, first_alloc), ix1) \<leftarrow> merge_wof_alloc record_idx (fr_reparse_tag r) (is_next_entry (fr_first_stream r))
                                           (sz_allocated (is_size (fr_first_stream r))) (tt_index tt);
        let tt1 = tt\<lparr>tt_seen := (tt_seen tt)[record_idx := True], tt_index := ix1\<rparr>;
        (children, tt2) \<leftarrow> (if is_dir then aggregate_children visit (fr_first_child r) tt1 else Some (agg_default, tt1));
        (own_len, own_alloc) \<leftarrow> accumulate_own_streams (tt_index tt2) r first_alloc wof_idx name_info total_names;
        Some (agg_add children \<lparr>ag_length = own_len, ag_allocated = own_alloc, ag_treesize = max (fr_total_stream_count r) 1\<rparr>,
              tt2\<lparr>tt_index := store_printed_metrics record_idx is_dir children first_len first_alloc (tt_index tt2)\<rparr>)
      })"

primrec preprocess :: "nat \<Rightarrow> visit" where
  "preprocess 0 = (\<lambda>record_idx name_info total_names_raw tt. None)"
| "preprocess (Suc d) = visit_record (preprocess d)"

fun sweep_orphans :: "nat \<Rightarrow> nat list \<Rightarrow> tree_traversal \<Rightarrow> tree_traversal rust" where
  "sweep_orphans d [] tt = Some tt"
| "sweep_orphans d (idx # idxs) tt =
     (if tt_seen tt ! idx then sweep_orphans d idxs tt
      else do { (a, tt') \<leftarrow> preprocess d idx 0 1 tt; sweep_orphans d idxs tt' })"

definition traverse_from_root :: "nat \<Rightarrow> tree_traversal \<Rightarrow> tree_traversal rust" where
  "traverse_from_root d tt =
     (case frs_to_idx_opt (tt_index tt) ROOT_FRS of
        None \<Rightarrow> Some tt
      | Some root_idx \<Rightarrow> map_option snd (preprocess d root_idx 0 1 tt))"

definition run_traversal :: "nat \<Rightarrow> tree_traversal \<Rightarrow> tree_traversal rust" where
  "run_traversal d tt = do {
     tt1 \<leftarrow> traverse_from_root d tt;
     if tt_skip_orphans tt1 then Some tt1 else sweep_orphans d [0..<length (mi_records (tt_index tt1))] tt1
   }"

definition traversal_new :: "bool \<Rightarrow> mft_index \<Rightarrow> tree_traversal" where
  "traversal_new skip_orphans ix =
     \<lparr>tt_index = ix, tt_seen = replicate (length (mi_records ix)) False, tt_skip_orphans = skip_orphans, tt_depth = 0,
      tt_reserved_allocated_bytes = mi_reserved_allocated_bytes ix\<rparr>"

definition compute_tree_metrics :: "bool \<Rightarrow> mft_index \<Rightarrow> mft_index rust" where
  "compute_tree_metrics skip_orphans ix =
     map_option tt_index (run_traversal (Suc (length (mi_records ix))) (traversal_new skip_orphans ix))"

section \<open>The pass over an index, with its repair\<close>

definition drop_phantom_stream :: "file_record \<Rightarrow> file_record" where
  "drop_phantom_stream r =
     (if \<not> is_unified r \<and> \<not> si_is_directory (fr_stdinfo r) \<and> \<not> has_default_data r \<and> fr_total_stream_count r > 1
         \<and> (is_next_entry (fr_first_stream r) \<noteq> NO_ENTRY \<or> fr_first_internal_stream r \<noteq> NO_ENTRY)
      then r\<lparr>fr_total_stream_count := fr_total_stream_count r - 1\<rparr> else r)"

definition unstamped :: "file_record \<Rightarrow> bool" where
  "unstamped r \<longleftrightarrow> si_is_directory (fr_stdinfo r) \<and> fr_descendants r = 0"

definition root_looks_bad :: "mft_index \<Rightarrow> bool" where
  "root_looks_bad ix =
     (case Option.bind (frs_to_idx_opt ix ROOT_FRS) (vec_get (mi_records ix)) of
        None \<Rightarrow> False
      | Some root \<Rightarrow> si_is_directory (fr_stdinfo root) \<and> (fr_descendants root = 0 \<or> fr_treesize root = 0))"

definition compute_tree_metrics_impl :: "bool \<Rightarrow> bool \<Rightarrow> mft_index \<Rightarrow> mft_index rust" where
  "compute_tree_metrics_impl rebuild_always skip_orphans ix0 = do {
     ix1 \<leftarrow> (if rebuild_always then rebuild_children_from_names ix0 else Some ix0);
     let ix2 = ix1\<lparr>mi_records := map drop_phantom_stream (mi_records ix1)\<rparr>;
     ix3 \<leftarrow> compute_tree_metrics skip_orphans ix2;
     if (\<exists>r \<in> set (mi_records ix3). unstamped r) \<or> root_looks_bad ix3 then do {
       ix4 \<leftarrow> rebuild_children_from_names ix3;
       compute_tree_metrics skip_orphans ix4
     } else Some ix3
   }"

section \<open>Shares add up\<close>

text \<open>The share as a natural number, where no product overflows.\<close>

definition share :: "nat \<Rightarrow> nat \<Rightarrow> nat \<Rightarrow> nat" where
  "share v i n = (if n \<le> 1 then v else v * (i + 1) div n - v * i div n)"

lemma delta_share:
  assumes "v * n \<le> u64_max" and "i < n"
  shows "delta v i n = Some (share v i n)"
proof (cases "n \<le> 1")
  case False
  have "v * (i + 1) \<le> v * n" using assms(2) by (intro mult_le_mono2) simp
  with assms(1) have le: "v * (i + 1) \<le> u64_max" "v * i \<le> u64_max" by (simp_all add: algebra_simps)
  have "v * i div n \<le> v * (i + 1) div n" by (intro div_le_mono) simp
  with False le show ?thesis by (simp add: delta_def share_def u64_mul_def u64_sub_def u64_check_def)
qed (simp add: delta_def share_def)

lemma share_zero [simp]: "share 0 i n = 0"
  by (simp add: share_def)

lemma share_prefix: "1 < n \<Longrightarrow> sum_list (map (\<lambda>i. share v i n) [0..<k]) = v * k div n"
proof (induction k)
  case (Suc k)
  have "v * k div n \<le> v * (k + 1) div n" by (intro div_le_mono) simp
  with Suc show ?case by (simp add: share_def)
qed simp

lemma share_sum: "0 < n \<Longrightarrow> sum_list (map (\<lambda>i. share v i n) [0..<n]) = v"
  by (cases "n = 1") (simp add: share_def, simp add: share_prefix)

lemma share_even:
  assumes "1 < n"
  shows "v div n \<le> share v i n" and "share v i n \<le> v div n + 1"
proof -
  have q: "v * (i + 1) = v * i + (v div n * n + v mod n)" by (simp add: algebra_simps)
  have "(v * i + (v div n * n + v mod n)) div n = v div n + (v * i + v mod n) div n"
    using assms by (metis add.assoc add.commute div_mult_self1 gr_implies_not0 mult.commute not_less_zero)
  moreover have "v * i div n \<le> (v * i + v mod n) div n" by (intro div_le_mono) simp
  moreover have "(v * i + v mod n) div n \<le> v * i div n + 1"
  proof -
    have "v * i + v mod n \<le> v * i + n" using assms by (simp add: mod_le_divisor)
    then have "(v * i + v mod n) div n \<le> (v * i + n) div n" by (rule div_le_mono)
    also have "(v * i + n) div n = v * i div n + 1" using assms by (subst div_add_self2) simp_all
    finally show ?thesis .
  qed
  ultimately show "v div n \<le> share v i n" "share v i n \<le> v div n + 1"
    unfolding share_def q using assms by simp_all
qed

lemma name_info_bound: "compute_name_info_checked k n < max n 1"
  by (simp add: compute_name_info_checked_def)

lemma name_info_agree: "compute_name_info_checked k n = compute_name_info k n"
  by (simp add: compute_name_info_checked_def compute_name_info_def)

lemma name_info_reverses: "map (\<lambda>k. compute_name_info_checked k n) [0..<n] = rev [0..<n]"
  by (auto simp: compute_name_info_checked_def rev_nth list_eq_iff_nth_eq)

text \<open>
  The size of a file with several names is shared among them without loss: while no product overflows, the
  shares of the names add up to the size, whatever the number of names, and no two differ by more than one byte.
\<close>

theorem hard_link_shares_exact:
  assumes "v * n \<le> u64_max" and "0 < n"
  shows "\<exists>shares. those (map (\<lambda>name_index. delta v (compute_name_info_checked name_index n) n) [0..<n]) = Some shares
    \<and> sum_list shares = v \<and> (\<forall>s \<in> set shares. v div n \<le> s \<and> s \<le> v div n + 1)"
proof -
  have d: "delta v (compute_name_info_checked k n) n = Some (share v (compute_name_info_checked k n) n)" for k
    using delta_share [OF assms(1)] name_info_bound [of k n] assms(2) by simp
  have those_map: "those (map (\<lambda>k. Some (f k)) ks) = Some (map f ks)" for f :: "nat \<Rightarrow> nat" and ks by (induction ks) auto
  let ?s = "map (\<lambda>k. share v (compute_name_info_checked k n) n) [0..<n]"
  have "?s = map (\<lambda>i. share v i n) (map (\<lambda>k. compute_name_info_checked k n) [0..<n])" by simp
  also have "\<dots> = rev (map (\<lambda>i. share v i n) [0..<n])" by (simp only: name_info_reverses rev_map)
  finally have "sum_list ?s = v" using share_sum [OF assms(2)] by (simp only: sum_list_rev)
  moreover have "v div n \<le> share v i n \<and> share v i n \<le> v div n + 1" for i
    using share_even [of n v i] assms(2) by (cases "n = 1") (simp_all add: share_def)
  ultimately show ?thesis by (simp add: d those_map)
qed

theorem hard_link_shares_exact_witness:
  "\<exists>shares. those (map (\<lambda>name_index. delta 1000 (compute_name_info_checked name_index 7) 7) [0..<7]) = Some shares
    \<and> sum_list shares = 1000 \<and> (\<forall>s \<in> set shares. 1000 div 7 \<le> s \<and> s \<le> 1000 div 7 + 1)"
  by (rule hard_link_shares_exact) (simp_all add: rust_limits)

text \<open>The products are checked: a damaged record of \<open>2^63\<close> bytes with two names stops the traversal.\<close>

lemma huge_file_share_panics: "delta (2 ^ 63) 1 2 = None"
  by (simp add: delta_def u64_mul_def u64_check_def rust_limits)


section \<open>What the traversal computes\<close>

text \<open>The part of an index the traversal reads: everything but the metrics it stamps.\<close>

definition core :: "mft_index \<Rightarrow> mft_index" where
  "core ix = ix\<lparr>mi_records := map (set_metrics 0 0 0) (mi_records ix)\<rparr>"

text \<open>
  The names a directory lists, as its list of entries has them: the record and the number of the name. A share goes
  to each name, counted from the last name; a number that the record does not have gets the first share.
\<close>

definition dir_names :: "mft_index \<Rightarrow> nat \<Rightarrow> (nat \<times> nat) list" where
  "dir_names ix idx =
     (if si_is_directory (fr_stdinfo (mi_records ix ! idx))
      then List.map_filter (\<lambda>ce. map_option (\<lambda>c. (c, ci_name_index ce)) (frs_to_idx_opt ix (ci_child_frs ce)))
             (read_list ci_next_entry (mi_children ix) (Suc (length (mi_children ix))) (fr_first_child (mi_records ix ! idx)))
      else [])"

definition share_slot :: "mft_index \<Rightarrow> nat \<times> nat \<Rightarrow> nat \<times> nat" where
  "share_slot ix e = (case e of (c, k) \<Rightarrow>
     (c, if k < fr_name_count (mi_records ix ! c) then fr_name_count (mi_records ix ! c) - Suc k else 0))"

definition entry_list :: "mft_index \<Rightarrow> nat \<Rightarrow> (nat \<times> nat) list" where
  "entry_list ix idx = map (share_slot ix) (dir_names ix idx)"

definition names_of :: "mft_index \<Rightarrow> nat \<Rightarrow> nat" where "names_of ix idx = max (fr_name_count (mi_records ix ! idx)) 1"

text \<open>The streams of a record: the default stream, the internal ones (or their sum when the index was loaded without
  them), and the named ones.\<close>

definition internals_of :: "mft_index \<Rightarrow> file_record \<Rightarrow> size_info list" where
  "internals_of ix r =
     (if fr_first_internal_stream r = NO_ENTRY \<or> mi_internal_streams ix = []
      then [\<lparr>sz_length = fr_internal_streams_size r, sz_allocated = fr_internal_streams_allocated r\<rparr>]
      else map in_size (read_list in_next_entry (mi_internal_streams ix) (Suc (length (mi_internal_streams ix))) (fr_first_internal_stream r)))"

definition stream_sizes :: "mft_index \<Rightarrow> nat \<Rightarrow> size_info list" where
  "stream_sizes ix idx =
     (let r = mi_records ix ! idx in
      is_size (fr_first_stream r) # internals_of ix r
        @ map is_size (read_list is_next_entry (mi_streams ix) (Suc (length (mi_streams ix))) (is_next_entry (fr_first_stream r))))"

text \<open>
  An index the traversal can go through: lists that end, no overlay-compressed file, and sizes small enough to be
  multiplied by the number of names.
\<close>

definition record_ok :: "mft_index \<Rightarrow> nat \<Rightarrow> bool" where
  "record_ok ix idx \<longleftrightarrow>
     (let r = mi_records ix ! idx in
      (si_is_directory (fr_stdinfo r) \<longrightarrow> (\<exists>is. linked (child_next (mi_children ix)) (fr_first_child r) is))
      \<and> (fr_first_internal_stream r \<noteq> NO_ENTRY \<longrightarrow> walk in_next_entry (mi_internal_streams ix) (fr_first_internal_stream r) \<noteq> None)
      \<and> walk is_next_entry (mi_streams ix) (is_next_entry (fr_first_stream r)) \<noteq> None
      \<and> (fr_reparse_tag r = WOF_TAG \<longrightarrow> find_wof_stream ix (is_next_entry (fr_first_stream r)) = Some NO_ENTRY)
      \<and> (\<forall>s \<in> set (stream_sizes ix idx). sz_length s * names_of ix idx \<le> u64_max \<and> sz_allocated s * names_of ix idx \<le> u64_max))"

definition dir_edges :: "mft_index \<Rightarrow> (nat \<times> nat) set" where
  "dir_edges ix = {(i, j). i < length (mi_records ix) \<and> j \<in> fst ` set (entry_list ix i)}"

definition tree_ok :: "mft_index \<Rightarrow> bool" where
  "tree_ok ix \<longleftrightarrow> lookup_ok ix \<and> length (mi_records ix) < u32_max \<and> (\<forall>idx < length (mi_records ix). record_ok ix idx)
     \<and> acyclic (dir_edges ix)"

text \<open>Everything below a directory, one pair for each way down; \<open>below\<close> stops at a depth.\<close>

primrec below :: "nat \<Rightarrow> mft_index \<Rightarrow> nat \<Rightarrow> (nat \<times> nat) list" where
  "below 0 ix idx = []"
| "below (Suc d) ix idx = concat (map (\<lambda>(c, i). (c, i) # below d ix c) (entry_list ix idx))"

definition subtree :: "mft_index \<Rightarrow> nat \<Rightarrow> (nat \<times> nat) list" where
  "subtree ix idx = below (Suc (length (mi_records ix))) ix idx"

definition own_length :: "mft_index \<Rightarrow> nat \<Rightarrow> nat \<Rightarrow> nat \<Rightarrow> nat" where
  "own_length ix idx i n = sum_list (map (\<lambda>s. share (sz_length s) i n) (stream_sizes ix idx))"
definition own_allocated :: "mft_index \<Rightarrow> nat \<Rightarrow> nat \<Rightarrow> nat \<Rightarrow> nat" where
  "own_allocated ix idx i n = sum_list (map (\<lambda>s. share (sz_allocated s) i n) (stream_sizes ix idx))"
definition own_streams :: "mft_index \<Rightarrow> nat \<Rightarrow> nat" where
  "own_streams ix idx = max (fr_total_stream_count (mi_records ix ! idx)) 1"

definition below_length :: "mft_index \<Rightarrow> (nat \<times> nat) list \<Rightarrow> nat" where
  "below_length ix es = sum_list (map (\<lambda>(c, i). own_length ix c i (names_of ix c)) es)"
definition below_allocated :: "mft_index \<Rightarrow> (nat \<times> nat) list \<Rightarrow> nat" where
  "below_allocated ix es = sum_list (map (\<lambda>(c, i). own_allocated ix c i (names_of ix c)) es)"
definition below_streams :: "mft_index \<Rightarrow> (nat \<times> nat) list \<Rightarrow> nat" where
  "below_streams ix es = sum_list (map (\<lambda>(c, i). own_streams ix c) es)"

text \<open>What a record is stamped with; \<open>extra\<close> are the reserved bytes a traversal starts with.\<close>

definition printed :: "mft_index \<Rightarrow> nat \<Rightarrow> nat \<Rightarrow> nat \<times> nat \<times> nat" where
  "printed ix extra idx =
     (let s = is_size (fr_first_stream (mi_records ix ! idx)) in
      if si_is_directory (fr_stdinfo (mi_records ix ! idx))
      then (min (below_streams ix (subtree ix idx) + 1) u32_max,
            min (below_length ix (subtree ix idx) + sz_length s) u64_max,
            min (below_allocated ix (subtree ix idx) + extra + sz_allocated s) u64_max)
      else (0, sz_length s, sz_allocated s))"

definition sat_agg :: "nat \<Rightarrow> nat \<Rightarrow> nat \<Rightarrow> agg" where
  "sat_agg l a c = \<lparr>ag_length = min l u64_max, ag_allocated = min a u64_max, ag_treesize = min c u32_max\<rparr>"

lemma agg_add_sat [simp]: "agg_add (sat_agg l a c) (sat_agg l' a' c') = sat_agg (l + l') (a + a') (c + c')"
  by (simp add: agg_add_def sat_agg_def u64_sat_add_def u32_sat_add_def min_def)

lemma agg_default_sat: "agg_default = sat_agg 0 0 0"
  by (simp add: agg_default_def sat_agg_def)

lemma below_append [simp]:
  "below_length ix (xs @ ys) = below_length ix xs + below_length ix ys"
  "below_allocated ix (xs @ ys) = below_allocated ix xs + below_allocated ix ys"
  "below_streams ix (xs @ ys) = below_streams ix xs + below_streams ix ys"
  "below_length ix ((c, i) # ys) = own_length ix c i (names_of ix c) + below_length ix ys"
  "below_allocated ix ((c, i) # ys) = own_allocated ix c i (names_of ix c) + below_allocated ix ys"
  "below_streams ix ((c, i) # ys) = own_streams ix c + below_streams ix ys"
  "below_length ix [] = 0" "below_allocated ix [] = 0" "below_streams ix [] = 0"
  by (simp_all add: below_length_def below_allocated_def below_streams_def)

lemma set_metrics_fields [simp]:
  "fr_stdinfo (set_metrics d s a r) = fr_stdinfo r" "fr_first_child (set_metrics d s a r) = fr_first_child r"
  "fr_first_stream (set_metrics d s a r) = fr_first_stream r" "fr_name_count (set_metrics d s a r) = fr_name_count r"
  "fr_total_stream_count (set_metrics d s a r) = fr_total_stream_count r" "fr_reparse_tag (set_metrics d s a r) = fr_reparse_tag r"
  "fr_first_internal_stream (set_metrics d s a r) = fr_first_internal_stream r"
  "fr_internal_streams_size (set_metrics d s a r) = fr_internal_streams_size r"
  "fr_internal_streams_allocated (set_metrics d s a r) = fr_internal_streams_allocated r"
  "fr_frs (set_metrics d s a r) = fr_frs r"
  "tree_metrics (set_metrics d s a r) = (d, s, a)" "set_metrics d' s' a' (set_metrics d s a r) = set_metrics d' s' a' r"
  by (simp_all add: set_metrics_def tree_metrics_def)

lemma core_fields:
  assumes "core ix' = core ix"
  shows "length (mi_records ix') = length (mi_records ix)" and "mi_frs_to_idx ix' = mi_frs_to_idx ix"
    and "mi_children ix' = mi_children ix" and "mi_streams ix' = mi_streams ix" and "mi_names ix' = mi_names ix"
    and "mi_internal_streams ix' = mi_internal_streams ix" and "frs_to_idx_opt ix' = frs_to_idx_opt ix"
proof -
  show "length (mi_records ix') = length (mi_records ix)"
    using arg_cong [OF assms, of "\<lambda>x. length (mi_records x)"] by (simp add: core_def)
  show t: "mi_frs_to_idx ix' = mi_frs_to_idx ix" using arg_cong [OF assms, of mi_frs_to_idx] by (simp add: core_def)
  show "mi_children ix' = mi_children ix" using arg_cong [OF assms, of mi_children] by (simp add: core_def)
  show "mi_streams ix' = mi_streams ix" using arg_cong [OF assms, of mi_streams] by (simp add: core_def)
  show "mi_names ix' = mi_names ix" using arg_cong [OF assms, of mi_names] by (simp add: core_def)
  show "mi_internal_streams ix' = mi_internal_streams ix" using arg_cong [OF assms, of mi_internal_streams] by (simp add: core_def)
  show "frs_to_idx_opt ix' = frs_to_idx_opt ix" by (simp add: fun_eq_iff frs_to_idx_opt_def t)
qed

lemma core_record:
  assumes "core ix' = core ix" and "j < length (mi_records ix)"
  shows "set_metrics 0 0 0 (mi_records ix' ! j) = set_metrics 0 0 0 (mi_records ix ! j)"
  using arg_cong [OF assms(1), of "\<lambda>x. mi_records x ! j"] assms(2) core_fields(1) [OF assms(1)] by (simp add: core_def)

lemma core_record_fields:
  assumes "core ix' = core ix" and "j < length (mi_records ix)"
  shows "fr_stdinfo (mi_records ix' ! j) = fr_stdinfo (mi_records ix ! j)"
    and "fr_first_child (mi_records ix' ! j) = fr_first_child (mi_records ix ! j)"
    and "fr_first_stream (mi_records ix' ! j) = fr_first_stream (mi_records ix ! j)"
    and "fr_name_count (mi_records ix' ! j) = fr_name_count (mi_records ix ! j)"
    and "fr_total_stream_count (mi_records ix' ! j) = fr_total_stream_count (mi_records ix ! j)"
    and "fr_reparse_tag (mi_records ix' ! j) = fr_reparse_tag (mi_records ix ! j)"
    and "internal_sizes ix' (mi_records ix' ! j) = internal_sizes ix (mi_records ix ! j)"
    and "named_sizes ix' k w = named_sizes ix k w" and "child_entries ix' k = child_entries ix k"
    and "find_wof_stream ix' k = find_wof_stream ix k"
proof -
  note r = core_record [OF assms] and c = core_fields [OF assms(1)]
  show "fr_stdinfo (mi_records ix' ! j) = fr_stdinfo (mi_records ix ! j)" using arg_cong [OF r, of fr_stdinfo] by simp
  show "fr_first_child (mi_records ix' ! j) = fr_first_child (mi_records ix ! j)" using arg_cong [OF r, of fr_first_child] by simp
  show "fr_first_stream (mi_records ix' ! j) = fr_first_stream (mi_records ix ! j)" using arg_cong [OF r, of fr_first_stream] by simp
  show "fr_name_count (mi_records ix' ! j) = fr_name_count (mi_records ix ! j)" using arg_cong [OF r, of fr_name_count] by simp
  show "fr_total_stream_count (mi_records ix' ! j) = fr_total_stream_count (mi_records ix ! j)"
    using arg_cong [OF r, of fr_total_stream_count] by simp
  show "fr_reparse_tag (mi_records ix' ! j) = fr_reparse_tag (mi_records ix ! j)" using arg_cong [OF r, of fr_reparse_tag] by simp
  show "internal_sizes ix' (mi_records ix' ! j) = internal_sizes ix (mi_records ix ! j)"
    using arg_cong [OF r, of fr_first_internal_stream] arg_cong [OF r, of fr_internal_streams_size]
      arg_cong [OF r, of fr_internal_streams_allocated] by (simp add: internal_sizes_def c)
  show "named_sizes ix' k w = named_sizes ix k w" by (simp add: named_sizes_def c)
  show "child_entries ix' k = child_entries ix k" unfolding child_entries_def child_chain_def c ..
  have "find_wof ix' d k = find_wof ix d k" for d
    by (induction d arbitrary: k) (auto simp: c get_name_def get_name_bytes_def split: option.splits)
  then show "find_wof_stream ix' k = find_wof_stream ix k" unfolding find_wof_stream_def c .
qed


section \<open>The height of a directory\<close>

lemma set_map_filter: "y \<in> set (List.map_filter f xs) \<longleftrightarrow> (\<exists>x \<in> set xs. f x = Some y)"
  by (induction xs) (auto split: option.splits)

lemma share_slot_info: "share_slot ix (c, k) = (c, compute_name_info_checked k (fr_name_count (mi_records ix ! c)))"
  by (auto simp: share_slot_def compute_name_info_checked_def)

text \<open>The visits the code makes for a directory, written with its own index of a share.\<close>

lemma entry_list_visits:
  assumes "si_is_directory (fr_stdinfo (mi_records ix ! idx))"
  shows "entry_list ix idx = List.map_filter (\<lambda>ce. map_option (\<lambda>c. (c, compute_name_info_checked (ci_name_index ce) (fr_name_count (mi_records ix ! c))))
           (frs_to_idx_opt ix (ci_child_frs ce)))
           (read_list ci_next_entry (mi_children ix) (Suc (length (mi_children ix))) (fr_first_child (mi_records ix ! idx)))"
proof -
  have "map (share_slot ix) (List.map_filter (\<lambda>ce. map_option (\<lambda>c. (c, ci_name_index ce)) (frs_to_idx_opt ix (ci_child_frs ce))) ces)
      = List.map_filter (\<lambda>ce. map_option (\<lambda>c. (c, compute_name_info_checked (ci_name_index ce) (fr_name_count (mi_records ix ! c))))
          (frs_to_idx_opt ix (ci_child_frs ce))) ces" for ces
    by (induction ces) (auto simp: share_slot_info split: option.split)
  then show ?thesis using assms by (simp only: entry_list_def dir_names_def if_True)
qed

lemma linked_entries:
  assumes "linked (child_next (mi_children ix)) first is"
  shows "child_entries ix first = Some (read_list ci_next_entry (mi_children ix) (Suc (length (mi_children ix))) first)"
proof -
  note b = linked_bounded(1) [OF assms]
  have "List.map_filter (\<lambda>j. map_option id (vec_get (mi_children ix) j)) js = map ((!) (mi_children ix)) js" if "set js \<subseteq> {..<length (mi_children ix)}" for js
    using that by (induction js) auto
  from walk_read [OF linked_walk [OF assms], of id, unfolded this [OF b]] b show ?thesis
    by (auto simp: child_entries_def child_chain_def linked_walk [OF assms] list_all_iff)
qed

lemma entry_list_bound:
  assumes "lookup_ok ix" and "(c, i) \<in> set (entry_list ix idx)"
  shows "c < length (mi_records ix)" and "i < names_of ix c"
proof -
  from assms(2) obtain k where k: "(c, k) \<in> set (dir_names ix idx)" and i: "i = compute_name_info_checked k (fr_name_count (mi_records ix ! c))"
    by (auto simp: entry_list_def share_slot_info)
  from k obtain ce :: child_info where ce: "frs_to_idx_opt ix (ci_child_frs ce) = Some c"
    unfolding dir_names_def by (cases "si_is_directory (fr_stdinfo (mi_records ix ! idx))") (auto simp: set_map_filter)
  from lookup_ok_found(1) [OF assms(1) ce] show "c < length (mi_records ix)" .
  show "i < names_of ix c" unfolding i names_of_def by (rule name_info_bound)
qed

text \<open>The number of records below a directory, which falls along every entry.\<close>

definition height :: "mft_index \<Rightarrow> nat \<Rightarrow> nat" where "height ix idx = card {j. (idx, j) \<in> (dir_edges ix)\<^sup>+}"

lemma dir_edges_bound:
  assumes "lookup_ok ix" and "(i, j) \<in> (dir_edges ix)\<^sup>+"
  shows "i < length (mi_records ix)" and "j < length (mi_records ix)"
proof -
  have step: "a < length (mi_records ix) \<and> b < length (mi_records ix)" if "(a, b) \<in> dir_edges ix" for a b
    using that entry_list_bound(1) [OF assms(1)] by (force simp: dir_edges_def)
  from assms(2) show "i < length (mi_records ix)" by (induction rule: converse_trancl_induct) (auto dest: step)
  from assms(2) show "j < length (mi_records ix)" by (induction rule: trancl_induct) (auto dest: step)
qed

lemma height_finite:
  assumes "lookup_ok ix"
  shows "finite {j. (i, j) \<in> (dir_edges ix)\<^sup>+}"
proof (rule finite_subset)
  show "{j. (i, j) \<in> (dir_edges ix)\<^sup>+} \<subseteq> {..<length (mi_records ix)}" using dir_edges_bound(2) [OF assms] by blast
qed simp

lemma height_decreases:
  assumes "tree_ok ix" and "(i, j) \<in> dir_edges ix"
  shows "height ix j < height ix i"
proof -
  from assms(1) have ok: "lookup_ok ix" and ac: "acyclic (dir_edges ix)" by (simp_all add: tree_ok_def)
  have "{k. (j, k) \<in> (dir_edges ix)\<^sup>+} \<subseteq> {k. (i, k) \<in> (dir_edges ix)\<^sup>+}"
    using assms(2) by (auto intro: trancl_into_trancl2)
  moreover have "j \<in> {k. (i, k) \<in> (dir_edges ix)\<^sup>+}" using assms(2) by auto
  moreover have "j \<notin> {k. (j, k) \<in> (dir_edges ix)\<^sup>+}" using ac by (auto simp: acyclic_def)
  ultimately have "{k. (j, k) \<in> (dir_edges ix)\<^sup>+} \<subset> {k. (i, k) \<in> (dir_edges ix)\<^sup>+}" by blast
  then show ?thesis unfolding height_def by (rule psubset_card_mono [OF height_finite [OF ok]])
qed

lemma height_bound:
  assumes "tree_ok ix"
  shows "height ix i \<le> length (mi_records ix)"
proof -
  from assms have ok: "lookup_ok ix" by (simp add: tree_ok_def)
  have "height ix i \<le> card {..<length (mi_records ix)}"
    unfolding height_def by (rule card_mono) (use dir_edges_bound(2) [OF ok] in auto)
  then show ?thesis by simp
qed

lemma entry_height:
  assumes "tree_ok ix" and "idx < length (mi_records ix)" and "(c, i) \<in> set (entry_list ix idx)"
  shows "height ix c < height ix idx"
  using height_decreases [OF assms(1), of idx c] assms(2,3) by (force simp: dir_edges_def)

lemma below_depth:
  assumes "tree_ok ix"
  shows "height ix idx < d \<Longrightarrow> height ix idx < d' \<Longrightarrow> idx < length (mi_records ix) \<Longrightarrow> below d ix idx = below d' ix idx"
proof (induction d arbitrary: d' idx)
  case (Suc d)
  from assms have ok: "lookup_ok ix" by (simp add: tree_ok_def)
  from Suc.prems obtain e where e: "d' = Suc e" by (cases d') auto
  have "below d ix c = below e ix c" if "(c, i) \<in> set (entry_list ix idx)" for c i
    using Suc.prems entry_height [OF assms Suc.prems(3) that] entry_list_bound(1) [OF ok that] e by (intro Suc.IH) auto
  then show ?case unfolding e below.simps by (intro arg_cong [where f = concat] map_cong) auto
qed simp

lemma subtree_eq:
  assumes "tree_ok ix" and "idx < length (mi_records ix)"
  shows "subtree ix idx = concat (map (\<lambda>(c, i). (c, i) # subtree ix c) (entry_list ix idx))"
proof -
  from assms(1) have ok: "lookup_ok ix" by (simp add: tree_ok_def)
  have "below (length (mi_records ix)) ix c = subtree ix c" if "(c, i) \<in> set (entry_list ix idx)" for c i
    unfolding subtree_def using height_bound [OF assms(1)] entry_height [OF assms that] entry_list_bound(1) [OF ok that]
    by (intro below_depth [OF assms(1)]) (auto simp: less_Suc_eq_le intro: order.strict_trans2)
  then show ?thesis unfolding subtree_def [of ix idx] below.simps by (intro arg_cong [where f = concat] map_cong) auto
qed

definition reach :: "mft_index \<Rightarrow> nat \<Rightarrow> nat set" where "reach ix idx = insert idx (fst ` set (subtree ix idx))"

lemma reach_eq:
  assumes "tree_ok ix" and "idx < length (mi_records ix)"
  shows "reach ix idx = insert idx (\<Union>e \<in> set (entry_list ix idx). reach ix (fst e))"
  unfolding reach_def subtree_eq [OF assms] by (force simp: image_iff split_beta)

lemma reach_height:
  assumes "tree_ok ix"
  shows "idx < length (mi_records ix) \<Longrightarrow> j \<in> reach ix idx \<Longrightarrow> j < length (mi_records ix) \<and> height ix j \<le> height ix idx"
proof (induction "height ix idx" arbitrary: idx j rule: less_induct)
  case less
  from assms have ok: "lookup_ok ix" by (simp add: tree_ok_def)
  from less.prems(2) consider "j = idx" | c i where "(c, i) \<in> set (entry_list ix idx)" "j \<in> reach ix c"
    by (auto simp: reach_eq [OF assms less.prems(1)])
  then show ?case
  proof cases
    case 1
    with less.prems show ?thesis by simp
  next
    case 2
    from entry_height [OF assms less.prems(1) 2(1)] have h: "height ix c < height ix idx" .
    from less.hyps [OF h entry_list_bound(1) [OF ok 2(1)] 2(2)] h show ?thesis by simp
  qed
qed


section \<open>The traversal meets its description\<close>

lemma add_shares_sat:
  assumes "i < n"
  shows "\<forall>s \<in> set ss. sz_length s * n \<le> u64_max \<and> sz_allocated s * n \<le> u64_max \<Longrightarrow>
    add_shares i n ss (min l u64_max, min a u64_max)
      = Some (min (l + sum_list (map (\<lambda>s. share (sz_length s) i n) ss)) u64_max,
              min (a + sum_list (map (\<lambda>s. share (sz_allocated s) i n) ss)) u64_max)"
proof (induction ss arbitrary: l a)
  case (Cons s ss)
  have m: "min (min x u64_max + y) u64_max = min (x + y) u64_max" for x y by (simp add: min_def)
  have "add_share i n s (min l u64_max, min a u64_max)
      = Some (min (l + share (sz_length s) i n) u64_max, min (a + share (sz_allocated s) i n) u64_max)"
    using Cons.prems assms by (simp add: add_share_def delta_share u64_sat_add_def m)
  with Cons.IH [of "l + share (sz_length s) i n" "a + share (sz_allocated s) i n"] Cons.prems show ?case by (simp add: add.assoc)
qed simp

lemma internal_sizes_bare:
  assumes "set_metrics 0 0 0 r = set_metrics 0 0 0 r'" and "mi_internal_streams ix = mi_internal_streams ix'"
  shows "internal_sizes ix r = internal_sizes ix' r'"
  using arg_cong [OF assms(1), of fr_first_internal_stream] arg_cong [OF assms(1), of fr_internal_streams_size]
    arg_cong [OF assms(1), of fr_internal_streams_allocated] assms(2) by (simp add: internal_sizes_def)

text \<open>The streams the code adds up are those of the record: it leaves out a sum of internal streams that is zero.\<close>

lemma internal_sizes_read:
  assumes "record_ok ix idx"
  shows "\<exists>ints. internal_sizes ix (mi_records ix ! idx) = Some ints \<and> set ints \<subseteq> set (internals_of ix (mi_records ix ! idx))
    \<and> (\<forall>i n. sum_list (map (\<lambda>s. share (sz_length s) i n) ints) = sum_list (map (\<lambda>s. share (sz_length s) i n) (internals_of ix (mi_records ix ! idx)))
          \<and> sum_list (map (\<lambda>s. share (sz_allocated s) i n) ints) = sum_list (map (\<lambda>s. share (sz_allocated s) i n) (internals_of ix (mi_records ix ! idx))))"
proof (cases "fr_first_internal_stream (mi_records ix ! idx) = NO_ENTRY \<or> mi_internal_streams ix = []")
  case True
  then show ?thesis by (auto simp: internal_sizes_def internals_of_def)
next
  case False
  with assms obtain js where "walk in_next_entry (mi_internal_streams ix) (fr_first_internal_stream (mi_records ix ! idx)) = Some js"
    by (auto simp: record_ok_def Let_def)
  with False walk_read [OF this, of in_size] show ?thesis by (simp add: internal_sizes_def internals_of_def del: read_list.simps)
qed

lemma named_sizes_read:
  assumes "record_ok ix idx"
  shows "named_sizes ix (is_next_entry (fr_first_stream (mi_records ix ! idx))) NO_ENTRY
    = Some (map is_size (read_list is_next_entry (mi_streams ix) (Suc (length (mi_streams ix))) (is_next_entry (fr_first_stream (mi_records ix ! idx)))))"
proof -
  from assms obtain js where js: "walk is_next_entry (mi_streams ix) (is_next_entry (fr_first_stream (mi_records ix ! idx))) = Some js"
    by (auto simp: record_ok_def Let_def)
  have "(\<lambda>i. map_option (\<lambda>s. if i = NO_ENTRY then NO_SIZE else is_size s) (vec_get (mi_streams ix) i)) j = map_option is_size (vec_get (mi_streams ix) j)"
    if "j \<in> set js" for j
    using chain_no_end [OF js [unfolded walk_def] that] by simp
  then have "List.map_filter (\<lambda>i. map_option (\<lambda>s. if i = NO_ENTRY then NO_SIZE else is_size s) (vec_get (mi_streams ix) i)) js
      = List.map_filter (\<lambda>i. map_option is_size (vec_get (mi_streams ix) i)) js"
    by (induction js) (auto split: option.split)
  with js walk_read [OF js, of is_size] show ?thesis by (simp add: named_sizes_def del: read_list.simps)
qed

lemma own_streams_sat:
  assumes "record_ok ix idx" and "core ix' = core ix" and r: "set_metrics 0 0 0 r = set_metrics 0 0 0 (mi_records ix ! idx)"
    and "i < n" and n: "n = 1 \<or> n = names_of ix idx"
  shows "accumulate_own_streams ix' r (sz_allocated (is_size (fr_first_stream r))) NO_ENTRY i n
    = Some (min (own_length ix idx i n) u64_max, min (own_allocated ix idx i n) u64_max)"
proof -
  let ?r = "mi_records ix ! idx"
  let ?named = "map is_size (read_list is_next_entry (mi_streams ix) (Suc (length (mi_streams ix))) (is_next_entry (fr_first_stream ?r)))"
  from arg_cong [OF r, of fr_first_stream] have f: "fr_first_stream r = fr_first_stream ?r" by simp
  from internal_sizes_read [OF assms(1)] obtain ints where s: "internal_sizes ix ?r = Some ints" "set ints \<subseteq> set (internals_of ix ?r)"
    "sum_list (map (\<lambda>s. share (sz_length s) i n) ints) = sum_list (map (\<lambda>s. share (sz_length s) i n) (internals_of ix ?r))"
    "sum_list (map (\<lambda>s. share (sz_allocated s) i n) ints) = sum_list (map (\<lambda>s. share (sz_allocated s) i n) (internals_of ix ?r))" by blast
  from assms(1) have b: "\<forall>s \<in> set (stream_sizes ix idx). sz_length s * names_of ix idx \<le> u64_max \<and> sz_allocated s * names_of ix idx \<le> u64_max"
    unfolding record_ok_def Let_def by (elim conjE)
  have sizes: "stream_sizes ix idx = is_size (fr_first_stream ?r) # internals_of ix ?r @ ?named" by (simp only: stream_sizes_def Let_def)
  have bn: "v * n \<le> u64_max" if "v * names_of ix idx \<le> u64_max" for v
  proof -
    have "n \<le> names_of ix idx" using n by (auto simp: names_of_def)
    then have "v * n \<le> v * names_of ix idx" by (rule mult_le_mono2)
    with that show ?thesis by linarith
  qed
  have b': "sz_length s * n \<le> u64_max \<and> sz_allocated s * n \<le> u64_max" if "s \<in> set (is_size (fr_first_stream ?r) # ints @ ?named)" for s
  proof -
    from that s(2) have "s \<in> set (stream_sizes ix idx)" unfolding sizes by (auto simp del: read_list.simps)
    with b bn show ?thesis by blast
  qed
  have i: "internal_sizes ix' r = Some ints" and nm: "named_sizes ix' (is_next_entry (fr_first_stream ?r)) NO_ENTRY = Some ?named"
    using internal_sizes_bare [OF r core_fields(6) [OF assms(2)]] s(1) named_sizes_read [OF assms(1)]
    by (simp_all add: named_sizes_def core_fields [OF assms(2)] del: read_list.simps)
  let ?v = "is_size (fr_first_stream ?r)"
  have le: "share v i n \<le> u64_max" if "v * n \<le> u64_max" for v
  proof -
    have "share v i n \<le> v * (i + 1)" by (auto simp: share_def intro: order.trans [OF diff_le_self div_le_dividend])
    also have "\<dots> \<le> v * n" using assms(4) by (intro mult_le_mono2) simp
    finally show ?thesis using that by simp
  qed
  have first: "delta (sz_length ?v) i n = Some (min (share (sz_length ?v) i n) u64_max)"
    "delta (sz_allocated ?v) i n = Some (min (share (sz_allocated ?v) i n) u64_max)"
    using b' [of ?v] delta_share [OF _ assms(4)] le by (simp_all add: min_def)
  show ?thesis
    unfolding accumulate_own_streams_def f first i nm
    using add_shares_sat [OF assms(4), of ints] add_shares_sat [OF assms(4), of ?named] b' s(3,4)
    by (simp add: own_length_def own_allocated_def sizes add.assoc del: read_list.simps)
qed

definition stamped :: "mft_index \<Rightarrow> nat set \<Rightarrow> (nat \<Rightarrow> nat) \<Rightarrow> tree_traversal \<Rightarrow> tree_traversal \<Rightarrow> bool" where
  "stamped ix S extra tt tt' \<longleftrightarrow> core (tt_index tt') = core ix \<and> tt_depth tt' = tt_depth tt
     \<and> tt_reserved_allocated_bytes tt' = tt_reserved_allocated_bytes tt \<and> tt_skip_orphans tt' = tt_skip_orphans tt
     \<and> length (tt_seen tt') = length (tt_seen tt)
     \<and> (\<forall>j < length (mi_records ix). (tt_seen tt' ! j \<longleftrightarrow> tt_seen tt ! j \<or> j \<in> S)
          \<and> tree_metrics (mi_records (tt_index tt') ! j)
            = (if j \<in> S then printed ix (extra j) j else tree_metrics (mi_records (tt_index tt) ! j)))"

lemma stamped_none: "core (tt_index tt) = core ix \<Longrightarrow> stamped ix {} e tt tt"
  by (simp add: stamped_def)

lemma stamped_trans: "stamped ix S e tt tt' \<Longrightarrow> stamped ix T e tt' tt'' \<Longrightarrow> stamped ix (S \<union> T) e tt tt''"
  by (auto simp: stamped_def)

definition expected_agg :: "mft_index \<Rightarrow> nat \<Rightarrow> nat \<Rightarrow> nat \<Rightarrow> nat \<Rightarrow> agg" where
  "expected_agg ix extra idx i n =
     sat_agg (below_length ix (subtree ix idx) + own_length ix idx i n)
             (below_allocated ix (subtree ix idx) + (if si_is_directory (fr_stdinfo (mi_records ix ! idx)) then extra else 0)
                + own_allocated ix idx i n)
             (below_streams ix (subtree ix idx) + own_streams ix idx)"

definition visit_ok :: "mft_index \<Rightarrow> nat \<Rightarrow> visit \<Rightarrow> nat \<Rightarrow> nat \<Rightarrow> nat \<Rightarrow> bool" where
  "visit_ok ix d visit idx i n \<longleftrightarrow>
     (\<forall>tt. core (tt_index tt) = core ix \<and> tt_depth tt + d \<le> u32_max \<and> length (tt_seen tt) = length (mi_records ix) \<longrightarrow>
        (let e = (if tt_depth tt = 0 then tt_reserved_allocated_bytes tt else 0) in
         \<exists>tt'. visit idx i n tt = Some (expected_agg ix e idx i n, tt')
           \<and> stamped ix (reach ix idx) (\<lambda>j. if j = idx then e else 0) tt tt'))"

text \<open>The loop over the entries of a directory, inside it and hence at a depth above zero.\<close>

lemma child_loop_ok:
  assumes "tree_ok ix" and tt: "core (tt_index tt) = core ix" "0 < tt_depth tt" "tt_depth tt + d \<le> u32_max"
      "length (tt_seen tt) = length (mi_records ix)"
    and ps: "ps = List.map_filter (\<lambda>ce. map_option (\<lambda>c. (c, compute_name_info_checked (ci_name_index ce) (fr_name_count (mi_records ix ! c))))
             (frs_to_idx_opt ix (ci_child_frs ce))) ces"
    and v: "\<And>c i. (c, i) \<in> set ps \<Longrightarrow> visit_ok ix d visit c i (names_of ix c)"
  shows "\<exists>tt'. child_loop visit ces (sat_agg l a s) tt
      = Some (let es = concat (map (\<lambda>(c, i). (c, i) # subtree ix c) ps) in
              sat_agg (l + below_length ix es) (a + below_allocated ix es) (s + below_streams ix es), tt')
    \<and> stamped ix (\<Union>e \<in> set ps. reach ix (fst e)) (\<lambda>j. 0) tt tt'"
  using tt ps v
proof (induction ces arbitrary: l a s tt ps)
  case Nil
  then show ?case by (auto simp: stamped_none)
next
  case (Cons ce ces)
  note c = core_fields [OF Cons.prems(1)]
  show ?case
  proof (cases "frs_to_idx_opt ix (ci_child_frs ce)")
    case None
    with Cons show ?thesis by (simp add: c)
  next
    case (Some x)
    let ?i = "compute_name_info_checked (ci_name_index ce) (fr_name_count (mi_records ix ! x))"
    from assms(1) lookup_ok_found(1) [OF _ Some] have x: "x < length (mi_records ix)" by (simp add: tree_ok_def)
    obtain ps' where ps': "ps = (x, ?i) # ps'" "ps' = List.map_filter (\<lambda>ce. map_option (\<lambda>c. (c, compute_name_info_checked (ci_name_index ce)
        (fr_name_count (mi_records ix ! c)))) (frs_to_idx_opt ix (ci_child_frs ce))) ces"
      using Cons.prems(5) Some by simp
    from Cons.prems(6) [of x ?i] ps'(1) have vx: "visit_ok ix d visit x ?i (names_of ix x)" by simp
    from vx [unfolded visit_ok_def, rule_format, of tt] Cons.prems(1-4) obtain tt1 where t1: "visit x ?i (names_of ix x) tt = Some (expected_agg ix 0 x ?i (names_of ix x), tt1)"
      "stamped ix (reach ix x) (\<lambda>j. 0) tt tt1"
      by (auto simp: Let_def)
    have sat: "agg_add (sat_agg l a s) (expected_agg ix 0 x ?i (names_of ix x))
        = sat_agg (l + below_length ix ((x, ?i) # subtree ix x)) (a + below_allocated ix ((x, ?i) # subtree ix x))
            (s + below_streams ix ((x, ?i) # subtree ix x))"
      by (simp add: expected_agg_def ac_simps)
    from t1(2) Cons.prems(2-4) have t1': "core (tt_index tt1) = core ix" "0 < tt_depth tt1" "tt_depth tt1 + d \<le> u32_max"
      "length (tt_seen tt1) = length (mi_records ix)" by (simp_all add: stamped_def)
    from Cons.IH [OF t1' ps'(2)] Cons.prems(6) ps'(1) obtain tt2 where t2: "child_loop visit ces (agg_add (sat_agg l a s) (expected_agg ix 0 x ?i (names_of ix x))) tt1
        = Some (let es = concat (map (\<lambda>(c, i). (c, i) # subtree ix c) ps') in
            sat_agg (l + below_length ix ((x, ?i) # subtree ix x) + below_length ix es)
              (a + below_allocated ix ((x, ?i) # subtree ix x) + below_allocated ix es)
              (s + below_streams ix ((x, ?i) # subtree ix x) + below_streams ix es), tt2)"
      "stamped ix (\<Union>e \<in> set ps'. reach ix (fst e)) (\<lambda>j. 0) tt1 tt2"
      unfolding sat by (metis (no_types, lifting) list.set_intros(2))
    have "child_loop visit (ce # ces) (sat_agg l a s) tt = child_loop visit ces (agg_add (sat_agg l a s) (expected_agg ix 0 x ?i (names_of ix x))) tt1"
      using Some x t1(1) by (simp add: c core_record_fields(4) [OF Cons.prems(1) x] names_of_def Let_def)
    moreover have "stamped ix (\<Union>e \<in> set ps. reach ix (fst e)) (\<lambda>j. 0) tt tt2"
      using stamped_trans [OF t1(2) t2(2)] by (simp add: ps'(1))
    ultimately show ?thesis using t2(1) by (simp add: ps'(1) Let_def add.assoc)
  qed
qed


lemma core_store [simp]: "core (store_printed_metrics idx b ch l a ix) = core ix"
proof -
  have "map (set_metrics 0 0 0) ((mi_records ix)[idx := set_metrics d s t (mi_records ix ! idx)]) = map (set_metrics 0 0 0) (mi_records ix)" for d s t
  proof (cases "idx < length (mi_records ix)")
    case True
    then have "set_metrics 0 0 0 (set_metrics d s t (mi_records ix ! idx)) = map (set_metrics 0 0 0) (mi_records ix) ! idx" by simp
    then show ?thesis by (simp only: map_update list_update_id)
  qed (simp add: list_update_beyond)
  then show ?thesis by (simp add: store_printed_metrics_def core_def)
qed

lemma merge_wof_none:
  assumes "record_ok ix idx" and "core ix' = core ix" and "idx < length (mi_records ix)"
  shows "merge_wof_alloc idx (fr_reparse_tag (mi_records ix ! idx)) (is_next_entry (fr_first_stream (mi_records ix ! idx))) a ix'
    = Some ((NO_ENTRY, a), ix')"
  using assms(1) core_record_fields(10) [OF assms(2,3)] by (simp add: merge_wof_alloc_def record_ok_def Let_def)

lemma sat_agg_reserved: "(sat_agg l a c)\<lparr>ag_allocated := u64_sat_add (ag_allocated (sat_agg l a c)) r\<rparr> = sat_agg l (a + r) c"
  by (simp add: sat_agg_def u64_sat_add_def min_def)

text \<open>The children of a directory, at any depth: the reserved bytes come on top when the traversal started here.\<close>

lemma aggregate_children_ok:
  assumes "tree_ok ix" and idx: "idx < length (mi_records ix)" "si_is_directory (fr_stdinfo (mi_records ix ! idx))"
    and tt: "core (tt_index tt) = core ix" "tt_depth tt + Suc d \<le> u32_max" "length (tt_seen tt) = length (mi_records ix)"
    and v: "\<And>c i. (c, i) \<in> set (entry_list ix idx) \<Longrightarrow> visit_ok ix d visit c i (names_of ix c)"
  shows "\<exists>tt'. aggregate_children visit (fr_first_child (mi_records ix ! idx)) tt
      = Some (sat_agg (below_length ix (subtree ix idx))
                (below_allocated ix (subtree ix idx) + (if tt_depth tt = 0 then tt_reserved_allocated_bytes tt else 0))
                (below_streams ix (subtree ix idx)), tt')
    \<and> stamped ix (\<Union>e \<in> set (entry_list ix idx). reach ix (fst e)) (\<lambda>j. 0) tt tt'"
proof -
  let ?fc = "fr_first_child (mi_records ix ! idx)"
  from assms(1) idx have "record_ok ix idx" by (simp add: tree_ok_def)
  with idx(2) obtain es where "linked (child_next (mi_children ix)) ?fc es" by (auto simp: record_ok_def Let_def)
  from linked_entries [OF this] obtain ces where ces: "child_entries ix ?fc = Some ces"
    and read: "ces = read_list ci_next_entry (mi_children ix) (Suc (length (mi_children ix))) ?fc" by blast
  have ps: "entry_list ix idx = List.map_filter (\<lambda>ce. map_option (\<lambda>c. (c, compute_name_info_checked (ci_name_index ce)
      (fr_name_count (mi_records ix ! c)))) (frs_to_idx_opt ix (ci_child_frs ce))) ces"
    unfolding read by (rule entry_list_visits [OF idx(2)])
  have depth: "u32_sat_add (tt_depth tt) 1 = Suc (tt_depth tt)" using tt(2) by (simp add: u32_sat_add_def)
  let ?tt = "tt\<lparr>tt_depth := Suc (tt_depth tt)\<rparr>"
  obtain tt1 where t1: "child_loop visit ces (sat_agg 0 0 0) ?tt
      = Some (sat_agg (below_length ix (subtree ix idx)) (below_allocated ix (subtree ix idx)) (below_streams ix (subtree ix idx)), tt1)"
    "stamped ix (\<Union>e \<in> set (entry_list ix idx). reach ix (fst e)) (\<lambda>j. 0) ?tt tt1"
    using child_loop_ok [OF assms(1), where tt = ?tt and d = d and ps = "entry_list ix idx" and l = 0 and a = 0 and s = 0, OF _ _ _ _ ps v] tt
    by (auto simp: Let_def subtree_eq [OF assms(1) idx(1)])
  have "aggregate_children visit ?fc tt = Some (sat_agg (below_length ix (subtree ix idx))
      (below_allocated ix (subtree ix idx) + (if tt_depth tt = 0 then tt_reserved_allocated_bytes tt else 0))
      (below_streams ix (subtree ix idx)), tt1\<lparr>tt_depth := tt_depth tt\<rparr>)"
    using t1 unfolding aggregate_children_def core_record_fields(9) [OF tt(1) idx(1)] ces depth agg_default_sat
    by (simp add: stamped_def Let_def sat_agg_reserved)
  moreover have "stamped ix (\<Union>e \<in> set (entry_list ix idx). reach ix (fst e)) (\<lambda>j. 0) tt (tt1\<lparr>tt_depth := tt_depth tt\<rparr>)"
    using t1(2) by (simp add: stamped_def)
  ultimately show ?thesis by blast
qed

lemma store_metrics:
  assumes "idx < length (mi_records ix)"
  shows "tree_metrics (mi_records (store_printed_metrics idx is_dir ch l a ix) ! j)
    = (if j = idx then (if is_dir then (u32_sat_add (ag_treesize ch) 1, u64_sat_add (ag_length ch) l, u64_sat_add (ag_allocated ch) a)
                        else (0, l, a))
       else tree_metrics (mi_records ix ! j))"
  using assms by (simp add: store_printed_metrics_def nth_list_update)

lemma visit_record_ok:
  assumes "tree_ok ix" and idx: "idx < length (mi_records ix)" and i: "i < n" "n = 1 \<or> n = names_of ix idx"
    and v: "\<And>c i. (c, i) \<in> set (entry_list ix idx) \<Longrightarrow> visit_ok ix d visit c i (names_of ix c)"
  shows "visit_ok ix (Suc d) (visit_record visit) idx i n"
  unfolding visit_ok_def Let_def
proof (intro allI impI)
  fix tt :: tree_traversal assume tt: "core (tt_index tt) = core ix \<and> tt_depth tt + Suc d \<le> u32_max \<and> length (tt_seen tt) = length (mi_records ix)"
  define e where "e = (if tt_depth tt = 0 then tt_reserved_allocated_bytes tt else 0)"
  let ?r = "mi_records ix ! idx" and ?s = "mi_records (tt_index tt) ! idx"
  let ?S = "\<Union>e \<in> set (entry_list ix idx). reach ix (fst e)"
  have c: "core (tt_index tt) = core ix" using tt by simp
  note f = core_record_fields [OF c idx]
  have rec: "record_ok ix idx" using assms(1) idx by (simp add: tree_ok_def)
  define tt1 where "tt1 = tt\<lparr>tt_seen := (tt_seen tt)[idx := True]\<rparr>"
  define dir where "dir \<longleftrightarrow> si_is_directory (fr_stdinfo ?r)"
  define ch where "ch = (if dir then sat_agg (below_length ix (subtree ix idx)) (below_allocated ix (subtree ix idx) + e)
      (below_streams ix (subtree ix idx)) else agg_default)"
  have leaf: "entry_list ix idx = []" "subtree ix idx = []" if "\<not> dir"
    using that subtree_eq [OF assms(1) idx] by (simp_all add: dir_def entry_list_def dir_names_def)
  obtain tt2 where t2: "(if dir then aggregate_children visit (fr_first_child ?r) tt1 else Some (agg_default, tt1)) = Some (ch, tt2)"
    "stamped ix ?S (\<lambda>j. 0) tt1 tt2"
  proof (cases dir)
    case True
    with aggregate_children_ok [OF assms(1) idx, of tt1 d visit] tt v that show ?thesis by (auto simp: dir_def ch_def tt1_def e_def)
  next
    case False
    with leaf that [of tt1] c show ?thesis by (simp add: ch_def stamped_none tt1_def)
  qed
  have c2: "core (tt_index tt2) = core ix" using t2(2) by (simp add: stamped_def)
  have len2: "idx < length (mi_records (tt_index tt2))" using idx core_fields(1) [OF c2] by simp
  have n: "max n 1 = n" using i by simp
  let ?l = "sz_length (is_size (fr_first_stream ?r))" and ?a = "sz_allocated (is_size (fr_first_stream ?r))"
  have own: "accumulate_own_streams (tt_index tt2) ?s (sz_allocated (is_size (fr_first_stream ?r))) NO_ENTRY i n
      = Some (min (own_length ix idx i n) u64_max, min (own_allocated ix idx i n) u64_max)"
    using own_streams_sat [OF rec c2 core_record [OF c idx] i] f(3) by simp
  let ?tt = "tt2\<lparr>tt_index := store_printed_metrics idx dir ch ?l ?a (tt_index tt2)\<rparr>"
  have tti: "tt\<lparr>tt_seen := (tt_seen tt)[idx := True], tt_index := tt_index tt\<rparr> = tt1" by (simp add: tt1_def)
  have agg: "agg_add ch \<lparr>ag_length = min (own_length ix idx i n) u64_max, ag_allocated = min (own_allocated ix idx i n) u64_max,
      ag_treesize = max (fr_total_stream_count ?r) 1\<rparr> = expected_agg ix e idx i n"
    using leaf by (auto simp: ch_def expected_agg_def sat_agg_def agg_add_def agg_default_def own_streams_def dir_def
        u64_sat_add_def u32_sat_add_def min_def)
  have run: "visit_record visit idx i n tt = Some (expected_agg ix e idx i n, ?tt)"
  proof -
    have len: "\<not> length (mi_records (tt_index tt)) \<le> idx" using idx core_fields(1) [OF c] by simp
    show ?thesis
      by (simp only: visit_record_def Let_def f n dir_def [symmetric] merge_wof_none [OF rec c idx] Option.bind.simps prod.case tti t2(1)
          own agg len if_False)
  qed
  have "idx \<notin> ?S"
  proof
    assume "idx \<in> ?S"
    then obtain x k where x: "(x, k) \<in> set (entry_list ix idx)" "idx \<in> reach ix x" by force
    moreover have "x < length (mi_records ix)" using x(1) entry_list_bound(1) assms(1) by (auto simp: tree_ok_def)
    ultimately show False using entry_height [OF assms(1) idx x(1)] reach_height [OF assms(1)] by fastforce
  qed
  have pr: "printed ix e idx = (if dir then (u32_sat_add (ag_treesize ch) 1, u64_sat_add (ag_length ch) ?l, u64_sat_add (ag_allocated ch) ?a)
      else (0, ?l, ?a))"
    by (auto simp: printed_def Let_def dir_def ch_def sat_agg_def u64_sat_add_def u32_sat_add_def min_def)
  have "stamped ix (reach ix idx) (\<lambda>j. if j = idx then e else 0) tt ?tt"
    unfolding stamped_def reach_eq [OF assms(1) idx]
    using t2(2) \<open>idx \<notin> ?S\<close> idx tt
    by (auto simp: stamped_def store_metrics [OF len2] pr tt1_def nth_list_update)
  with run show "\<exists>tt'. visit_record visit idx i n tt
        = Some (expected_agg ix (if tt_depth tt = 0 then tt_reserved_allocated_bytes tt else 0) idx i n, tt')
      \<and> stamped ix (reach ix idx) (\<lambda>j. if j = idx then if tt_depth tt = 0 then tt_reserved_allocated_bytes tt else 0 else 0) tt tt'"
    unfolding e_def by blast
qed

lemma preprocess_ok:
  assumes "tree_ok ix"
  shows "idx < length (mi_records ix) \<Longrightarrow> height ix idx < d \<Longrightarrow> i < n \<Longrightarrow> n = 1 \<or> n = names_of ix idx \<Longrightarrow>
    visit_ok ix d (preprocess d) idx i n"
proof (induction d arbitrary: idx i n)
  case (Suc d)
  from assms have ok: "lookup_ok ix" by (simp add: tree_ok_def)
  have "visit_ok ix d (preprocess d) c k (names_of ix c)" if "(c, k) \<in> set (entry_list ix idx)" for c k
    using entry_list_bound [OF ok that] entry_height [OF assms Suc.prems(1) that] Suc.prems(2) by (intro Suc.IH) auto
  with visit_record_ok [OF assms Suc.prems(1,3,4)] show ?case by simp
qed simp


section \<open>The whole pass\<close>

lemma subtree_entry:
  assumes "tree_ok ix"
  shows "idx < length (mi_records ix) \<Longrightarrow> e \<in> set (subtree ix idx) \<Longrightarrow> \<exists>p < length (mi_records ix). e \<in> set (entry_list ix p)"
proof (induction "height ix idx" arbitrary: idx rule: less_induct)
  case less
  from assms have ok: "lookup_ok ix" by (simp add: tree_ok_def)
  from less.prems(2) obtain c i where ci: "(c, i) \<in> set (entry_list ix idx)" "e = (c, i) \<or> e \<in> set (subtree ix c)"
    by (auto simp: subtree_eq [OF assms less.prems(1)])
  with less.hyps [OF entry_height [OF assms less.prems(1) ci(1)] entry_list_bound(1) [OF ok ci(1)]] less.prems(1) show ?case by blast
qed

definition stamp_ok :: "mft_index \<Rightarrow> nat \<Rightarrow> tree_traversal \<Rightarrow> bool" where
  "stamp_ok ix root tt \<longleftrightarrow> core (tt_index tt) = core ix \<and> tt_depth tt = 0 \<and> length (tt_seen tt) = length (mi_records ix)
     \<and> tt_reserved_allocated_bytes tt = mi_reserved_allocated_bytes ix
     \<and> (\<forall>j \<in> reach ix root. tt_seen tt ! j
          \<and> tree_metrics (mi_records (tt_index tt) ! j) = printed ix (if j = root then mi_reserved_allocated_bytes ix else 0) j)
     \<and> (\<forall>j < length (mi_records ix). tt_seen tt ! j \<longrightarrow>
          tree_metrics (mi_records (tt_index tt) ! j) \<in> {printed ix 0 j, printed ix (mi_reserved_allocated_bytes ix) j})"

lemma top_level_visit:
  assumes "tree_ok ix" and "idx < length (mi_records ix)" and "core (tt_index tt) = core ix" and "tt_depth tt = 0"
    and "length (tt_seen tt) = length (mi_records ix)" and "tt_reserved_allocated_bytes tt = mi_reserved_allocated_bytes ix"
  shows "\<exists>a tt'. preprocess (Suc (length (mi_records ix))) idx 0 1 tt = Some (a, tt')
    \<and> stamped ix (reach ix idx) (\<lambda>j. if j = idx then mi_reserved_allocated_bytes ix else 0) tt tt'"
proof -
  have "visit_ok ix (Suc (length (mi_records ix))) (preprocess (Suc (length (mi_records ix)))) idx 0 1"
    using height_bound [OF assms(1), of idx] assms(2) by (intro preprocess_ok [OF assms(1)]) simp_all
  from this [unfolded visit_ok_def, rule_format, of tt] assms show ?thesis by (auto simp: tree_ok_def Let_def)
qed

lemma sweep_orphans_ok:
  assumes "tree_ok ix" and root: "root < length (mi_records ix)" "\<forall>i < length (mi_records ix). root \<notin> fst ` set (entry_list ix i)"
  shows "stamp_ok ix root tt \<Longrightarrow> set idxs \<subseteq> {..<length (mi_records ix)} \<Longrightarrow>
    \<exists>tt'. sweep_orphans (Suc (length (mi_records ix))) idxs tt = Some tt' \<and> stamp_ok ix root tt'
      \<and> (\<forall>j < length (mi_records ix). tt_seen tt ! j \<longrightarrow> tt_seen tt' ! j) \<and> (\<forall>j \<in> set idxs. tt_seen tt' ! j)"
proof (induction idxs arbitrary: tt)
  case (Cons idx idxs)
  show ?case
  proof (cases "tt_seen tt ! idx")
    case True
    with Cons show ?thesis by fastforce
  next
    case False
    have idx: "idx < length (mi_records ix)" using Cons.prems(2) by simp
    from Cons.prems(1) top_level_visit [OF assms(1) idx, of tt] obtain a tt1 where t1:
      "preprocess (Suc (length (mi_records ix))) idx 0 1 tt = Some (a, tt1)"
      "stamped ix (reach ix idx) (\<lambda>j. if j = idx then mi_reserved_allocated_bytes ix else 0) tt tt1"
      by (auto simp: stamp_ok_def)
    have "root \<noteq> idx" using False Cons.prems(1) by (auto simp: stamp_ok_def reach_def)
    moreover have "root \<notin> fst ` set (subtree ix idx)" using subtree_entry [OF assms(1) idx] root(2) by fastforce
    ultimately have nr: "root \<notin> reach ix idx" by (simp add: reach_def)
    have ni: "idx \<notin> reach ix root" using False Cons.prems(1) by (auto simp: stamp_ok_def)
    have lt: "j < length (mi_records ix)" if "j \<in> reach ix root" for j using reach_height [OF assms(1) root(1) that] by simp
    have "stamp_ok ix root tt1"
      using t1(2) Cons.prems(1) nr ni lt unfolding stamp_ok_def stamped_def by auto
    from Cons.IH [OF this] Cons.prems(2) obtain tt2 where "sweep_orphans (Suc (length (mi_records ix))) idxs tt1 = Some tt2"
      "stamp_ok ix root tt2" "\<forall>j < length (mi_records ix). tt_seen tt1 ! j \<longrightarrow> tt_seen tt2 ! j" "\<forall>j \<in> set idxs. tt_seen tt2 ! j" by auto
    moreover have "\<forall>j < length (mi_records ix). tt_seen tt ! j \<or> j = idx \<longrightarrow> tt_seen tt1 ! j"
      using t1(2) by (auto simp: stamped_def reach_def)
    ultimately show ?thesis using t1(1) False idx by auto
  qed
qed auto

lemma run_traversal_ok:
  assumes "tree_ok ix" and "frs_to_idx_opt ix ROOT_FRS = Some root"
    and "\<forall>i < length (mi_records ix). root \<notin> fst ` set (entry_list ix i)"
  shows "\<exists>tt. run_traversal (Suc (length (mi_records ix))) (traversal_new skip ix) = Some tt \<and> stamp_ok ix root tt
    \<and> (\<not> skip \<longrightarrow> (\<forall>j < length (mi_records ix). tt_seen tt ! j))"
proof -
  from assms(1) have ok: "lookup_ok ix" by (simp add: tree_ok_def)
  note root = lookup_ok_found(1) [OF ok assms(2)]
  let ?tt = "traversal_new skip ix"
  obtain a tt1 where t1: "preprocess (Suc (length (mi_records ix))) root 0 1 ?tt = Some (a, tt1)"
    "stamped ix (reach ix root) (\<lambda>j. if j = root then mi_reserved_allocated_bytes ix else 0) ?tt tt1"
    using top_level_visit [OF assms(1) root, of ?tt] by (auto simp: traversal_new_def)
  have lt: "j < length (mi_records ix)" if "j \<in> reach ix root" for j using reach_height [OF assms(1) root that] by simp
  have s1: "stamp_ok ix root tt1" using t1(2) lt by (auto simp: stamp_ok_def stamped_def traversal_new_def)
  have skip: "tt_skip_orphans tt1 = skip" using t1(2) by (simp add: stamped_def traversal_new_def)
  have len: "length (mi_records (tt_index tt1)) = length (mi_records ix)" using core_fields(1) [of "tt_index tt1" ix] s1 by (simp add: stamp_ok_def)
  have "traverse_from_root (Suc (length (mi_records ix))) ?tt = Some tt1"
    using t1(1) assms(2) by (simp add: traverse_from_root_def traversal_new_def del: preprocess.simps)
  then have run: "run_traversal (Suc (length (mi_records ix))) ?tt
      = (if skip then Some tt1 else sweep_orphans (Suc (length (mi_records ix))) [0..<length (mi_records ix)] tt1)"
    by (simp add: run_traversal_def skip len del: upt_Suc)
  show ?thesis
  proof (cases skip)
    case True
    with run s1 show ?thesis by simp
  next
    case False
    have sub: "set [0..<length (mi_records ix)] \<subseteq> {..<length (mi_records ix)}" by auto
    from sweep_orphans_ok [OF assms(1) root assms(3) s1 sub] False run show ?thesis by auto
  qed
qed

text \<open>
  C14. On an index whose directories do not contain themselves, which has no overlay-compressed file (their default
  stream is changed, see below) and whose sizes can be multiplied by the number of names, the tree metrics return, and
  every record below the root is stamped with the sums over everything below it, one share per name: a directory with
  the count of streams plus one, with the sizes of the default, internal and named streams below plus its own index,
  and the root with the reserved clusters on top; a file with its own size. With the sweep every other record is
  stamped too, and nothing else of the index changes.
\<close>

theorem tree_metrics_exact:
  assumes "tree_ok ix" and "frs_to_idx_opt ix ROOT_FRS = Some root"
    and "\<forall>i < length (mi_records ix). root \<notin> fst ` set (entry_list ix i)"
  shows "\<exists>ix'. compute_tree_metrics skip ix = Some ix' \<and> core ix' = core ix
    \<and> (\<forall>j \<in> reach ix root. tree_metrics (mi_records ix' ! j) = printed ix (if j = root then mi_reserved_allocated_bytes ix else 0) j)
    \<and> (\<not> skip \<longrightarrow> (\<forall>j < length (mi_records ix).
         tree_metrics (mi_records ix' ! j) \<in> {printed ix 0 j, printed ix (mi_reserved_allocated_bytes ix) j}))"
  using run_traversal_ok [OF assms, of skip] by (auto simp: compute_tree_metrics_def stamp_ok_def)


text \<open>A root directory that lists a file of five bytes under two names.\<close>

definition demo_tree :: mft_index where
  "demo_tree = (mft_index_new 0 67)\<lparr>
     mi_records := [(file_record_new 5)\<lparr>fr_stdinfo := set_directory True standard_info_default, fr_first_child := 1\<rparr>,
                    (file_record_new 7)\<lparr>fr_name_count := 2,
                      fr_first_stream := \<lparr>is_size = \<lparr>sz_length = 5, sz_allocated = 4096\<rparr>, is_next_entry = NO_ENTRY,
                        is_name = \<lparr>nr_offset = NO_ENTRY, nr_meta = 0\<rparr>, is_flags = 0\<rparr>\<rparr>],
     mi_frs_to_idx := [NO_ENTRY, NO_ENTRY, NO_ENTRY, NO_ENTRY, NO_ENTRY, 0, NO_ENTRY, 1],
     mi_children := [\<lparr>ci_next_entry = NO_ENTRY, ci_child_frs = 7, ci_name_index = 0\<rparr>,
                     \<lparr>ci_next_entry = 0, ci_child_frs = 7, ci_name_index = 1\<rparr>],
     mi_reserved_allocated_bytes := 100\<rparr>"

lemma demo_tree_records:
  "mi_records demo_tree = [(file_record_new 5)\<lparr>fr_stdinfo := set_directory True standard_info_default, fr_first_child := 1\<rparr>,
      (file_record_new 7)\<lparr>fr_name_count := 2, fr_first_stream := \<lparr>is_size = \<lparr>sz_length = 5, sz_allocated = 4096\<rparr>, is_next_entry = NO_ENTRY,
          is_name = \<lparr>nr_offset = NO_ENTRY, nr_meta = 0\<rparr>, is_flags = 0\<rparr>\<rparr>]"
  "length (mi_records demo_tree) = 2" "mi_streams demo_tree = []" "mi_internal_streams demo_tree = []"
  "mi_reserved_allocated_bytes demo_tree = 100"
  by (simp_all add: demo_tree_def mft_index_new_def)

lemma demo_flags [simp]: "si_is_directory (set_directory True standard_info_default)" "\<not> si_is_directory standard_info_default"
  by (simp_all add: si_is_directory_def set_directory_def standard_info_default_def IS_DIRECTORY_def)

lemma no_entry_value: "NO_ENTRY = 4294967295" "NO_ENTRY \<noteq> 0" "NO_ENTRY \<noteq> 1"
  by (simp_all add: NO_ENTRY_def rust_limits)

lemma demo_tree_lookup:
  "frs_to_idx_opt demo_tree 5 = Some 0" "frs_to_idx_opt demo_tree 7 = Some 1"
  by (simp_all add: demo_tree_def frs_to_idx_opt_def vec_get_def no_entry_value)

lemma demo_tree_lookup_ok: "lookup_ok demo_tree"
  by (simp add: demo_tree_def lookup_ok_def mft_index_new_def file_record_new_def no_entry_value rust_limits All_less_Suc nth_Cons')

lemma demo_tree_chain: "linked (child_next (mi_children demo_tree)) (Suc 0) [Suc 0, 0]"
  by (simp add: demo_tree_def vec_get_def no_entry_value)

lemma demo_tree_names: "dir_names demo_tree 0 = [(1, 1), (1, 0)]" "dir_names demo_tree (Suc 0) = []"
proof -
  have "read_list ci_next_entry (mi_children demo_tree) (Suc (length (mi_children demo_tree))) (Suc 0)
      = [\<lparr>ci_next_entry = 0, ci_child_frs = 7, ci_name_index = 1\<rparr>, \<lparr>ci_next_entry = NO_ENTRY, ci_child_frs = 7, ci_name_index = 0\<rparr>]"
    by (simp add: demo_tree_def no_entry_value)
  then show "dir_names demo_tree 0 = [(1, 1), (1, 0)]" "dir_names demo_tree (Suc 0) = []"
    by (simp_all add: dir_names_def demo_tree_records demo_tree_lookup file_record_new_def del: read_list.simps)
qed

lemma demo_tree_entries: "entry_list demo_tree 0 = [(1, 0), (1, 1)]" "entry_list demo_tree (Suc 0) = []"
  by (simp_all add: entry_list_def demo_tree_names share_slot_def demo_tree_records)

lemma demo_tree_two: "n < length (mi_records demo_tree) \<longleftrightarrow> n = 0 \<or> n = Suc 0"
  by (auto simp: demo_tree_records(2))

lemma demo_tree_edges: "dir_edges demo_tree = {(0, 1)}"
  unfolding dir_edges_def demo_tree_two by (auto simp: demo_tree_entries)

lemma demo_tree_ok: "tree_ok demo_tree"
proof -
  have "record_ok demo_tree 0" "record_ok demo_tree (Suc 0)"
    using exI [of "linked (child_next (mi_children demo_tree)) (Suc 0)", OF demo_tree_chain]
    by (simp_all del: linked.simps add: record_ok_def Let_def demo_tree_records file_record_new_def stream_sizes_def internals_of_def walk_def names_of_def
        WOF_TAG_def rust_limits)
  moreover have "acyclic {(0 :: nat, 1 :: nat)}" by (simp add: acyclic_insert) (simp add: acyclic_def)
  ultimately show ?thesis
    unfolding tree_ok_def demo_tree_two by (auto simp: demo_tree_lookup_ok demo_tree_edges demo_tree_records(2) rust_limits)
qed

lemma demo_tree_no_root: "\<forall>i < length (mi_records demo_tree). 0 \<notin> fst ` set (entry_list demo_tree i)"
  unfolding demo_tree_two by (auto simp: demo_tree_entries)

theorem tree_metrics_exact_witness:
  "\<exists>ix'. compute_tree_metrics False demo_tree = Some ix' \<and> core ix' = core demo_tree
    \<and> (\<forall>j \<in> reach demo_tree 0. tree_metrics (mi_records ix' ! j)
         = printed demo_tree (if j = 0 then mi_reserved_allocated_bytes demo_tree else 0) j)
    \<and> (\<not> False \<longrightarrow> (\<forall>j < length (mi_records demo_tree).
         tree_metrics (mi_records ix' ! j) \<in> {printed demo_tree 0 j, printed demo_tree (mi_reserved_allocated_bytes demo_tree) j}))"
  by (rule tree_metrics_exact [OF demo_tree_ok _ demo_tree_no_root]) (simp add: ROOT_FRS_def demo_tree_lookup)

section \<open>Every file is counted once\<close>

definition whole_length :: "mft_index \<Rightarrow> nat \<Rightarrow> nat" where "whole_length ix f = sum_list (map sz_length (stream_sizes ix f))"
definition whole_allocated :: "mft_index \<Rightarrow> nat \<Rightarrow> nat" where "whole_allocated ix f = sum_list (map sz_allocated (stream_sizes ix f))"

text \<open>The names met on every way down from a directory.\<close>

primrec names_down :: "nat \<Rightarrow> mft_index \<Rightarrow> nat \<Rightarrow> (nat \<times> nat) list" where
  "names_down 0 ix idx = []"
| "names_down (Suc d) ix idx = concat (map (\<lambda>(c, k). (c, k) # names_down d ix c) (dir_names ix idx))"

definition names_below :: "mft_index \<Rightarrow> nat \<Rightarrow> (nat \<times> nat) list" where
  "names_below ix idx = names_down (Suc (length (mi_records ix))) ix idx"

lemma below_names: "below d ix idx = map (share_slot ix) (names_down d ix idx)"
proof (induction d arbitrary: idx)
  case (Suc d)
  have "concat (map (\<lambda>(c, i). (c, i) # below d ix c) (map (share_slot ix) es)) = map (share_slot ix) (concat (map (\<lambda>(c, k). (c, k) # names_down d ix c) es))" for es
    by (induction es) (auto simp: Suc share_slot_def)
  then show ?case by (simp add: entry_list_def)
qed simp

lemma subtree_names: "subtree ix idx = map (share_slot ix) (names_below ix idx)"
  unfolding subtree_def names_below_def by (rule below_names)

definition name_visits :: "mft_index \<Rightarrow> nat list \<Rightarrow> (nat \<times> nat) list" where
  "name_visits ix fs = concat (map (\<lambda>f. map (Pair f) [0..<names_of ix f]) fs)"

lemma shares_of_streams:
  "0 < n \<Longrightarrow> sum_list (map (\<lambda>i. sum_list (map (\<lambda>s. share (f s) i n) ss)) [0..<n]) = sum_list (map f ss)"
proof (induction ss)
  case (Cons s ss)
  have "sum_list (map (\<lambda>i. sum_list (map (\<lambda>s. share (f s) i n) (s # ss))) [0..<n])
      = sum_list (map (\<lambda>i. share (f s) i n) [0..<n]) + sum_list (map (\<lambda>i. sum_list (map (\<lambda>s. share (f s) i n) ss)) [0..<n])"
    by (simp add: sum_list_addf)
  with Cons share_sum [of n "f s"] show ?case by simp
qed simp

lemma slots_of_names:
  "map (share_slot ix) (map (Pair f) [0..<names_of ix f]) = rev (map (Pair f) [0..<names_of ix f])"
proof (cases "fr_name_count (mi_records ix ! f) = 0")
  case False
  then show ?thesis by (auto simp: list_eq_iff_nth_eq rev_nth share_slot_def names_of_def)
qed (simp add: share_slot_def names_of_def)

lemma name_visits_sums:
  "below_length ix (map (share_slot ix) (name_visits ix fs)) = sum_list (map (whole_length ix) fs)"
  "below_allocated ix (map (share_slot ix) (name_visits ix fs)) = sum_list (map (whole_allocated ix) fs)"
proof -
  have n: "0 < names_of ix f" for f by (simp add: names_of_def)
  have rev: "below_length ix (rev es) = below_length ix es" "below_allocated ix (rev es) = below_allocated ix es" for es
    by (simp_all add: below_length_def below_allocated_def rev_map [symmetric] sum_list_rev)
  have one: "below_length ix (map (share_slot ix) (map (Pair f) [0..<names_of ix f])) = whole_length ix f"
    "below_allocated ix (map (share_slot ix) (map (Pair f) [0..<names_of ix f])) = whole_allocated ix f" for f
    unfolding slots_of_names rev
    using shares_of_streams [OF n, of sz_length _ "stream_sizes ix f"] shares_of_streams [OF n, of sz_allocated _ "stream_sizes ix f"]
    by (simp_all add: below_length_def below_allocated_def own_length_def own_allocated_def whole_length_def whole_allocated_def comp_def)
  show "below_length ix (map (share_slot ix) (name_visits ix fs)) = sum_list (map (whole_length ix) fs)"
    by (induction fs) (simp_all add: name_visits_def one del: map_map)
  show "below_allocated ix (map (share_slot ix) (name_visits ix fs)) = sum_list (map (whole_allocated ix) fs)"
    by (induction fs) (simp_all add: name_visits_def one del: map_map)
qed

lemma below_mset:
  assumes "mset xs = mset ys"
  shows "below_length ix xs = below_length ix ys" and "below_allocated ix xs = below_allocated ix ys"
proof -
  have "sum_list (map g xs) = sum_list (map g ys)" for g :: "nat \<times> nat \<Rightarrow> nat"
    using assms by (metis mset_map sum_mset_sum_list)
  then show "below_length ix xs = below_length ix ys" "below_allocated ix xs = below_allocated ix ys"
    by (simp_all add: below_length_def below_allocated_def)
qed

text \<open>
  C15. Hard links are not counted twice: in an index without overlay-compressed files and directory cycles, when the
  directories below the root list every name of the records \<open>fs\<close> exactly once, by its number, the size of the root is
  its own plus the whole size of each of these records, with its default, internal and named streams, counted once
  however many names it has, and its allocation is that of these records, its own and the reserved clusters.
\<close>

theorem hard_links_counted_once:
  assumes "tree_ok ix" and "frs_to_idx_opt ix ROOT_FRS = Some root"
    and "\<forall>i < length (mi_records ix). root \<notin> fst ` set (entry_list ix i)"
    and dir: "si_is_directory (fr_stdinfo (mi_records ix ! root))"
    and names: "mset (names_below ix root) = mset (name_visits ix fs)"
  shows "\<exists>ix'. compute_tree_metrics skip ix = Some ix'
    \<and> fr_treesize (mi_records ix' ! root)
        = min (sum_list (map (whole_length ix) fs) + sz_length (is_size (fr_first_stream (mi_records ix ! root)))) u64_max
    \<and> fr_tree_allocated (mi_records ix' ! root)
        = min (sum_list (map (whole_allocated ix) fs) + mi_reserved_allocated_bytes ix
                + sz_allocated (is_size (fr_first_stream (mi_records ix ! root)))) u64_max"
proof -
  from run_traversal_ok [OF assms(1-3), of skip] obtain tt where
    t: "run_traversal (Suc (length (mi_records ix))) (traversal_new skip ix) = Some tt" "stamp_ok ix root tt" by blast
  have "root \<in> reach ix root" by (simp add: reach_def)
  with t(2) have "tree_metrics (mi_records (tt_index tt) ! root) = printed ix (mi_reserved_allocated_bytes ix) root"
    by (auto simp: stamp_ok_def)
  moreover have "below_length ix (subtree ix root) = sum_list (map (whole_length ix) fs)"
    "below_allocated ix (subtree ix root) = sum_list (map (whole_allocated ix) fs)"
    using below_mset [of "subtree ix root" "map (share_slot ix) (name_visits ix fs)"] names by (simp_all add: name_visits_sums subtree_names)
  ultimately show ?thesis
    using t(1) dir by (intro exI [of _ "tt_index tt"]) (simp add: compute_tree_metrics_def printed_def tree_metrics_def Let_def)
qed

theorem hard_links_counted_once_witness:
  "\<exists>ix'. compute_tree_metrics True demo_tree = Some ix'
    \<and> fr_treesize (mi_records ix' ! 0)
        = min (sum_list (map (whole_length demo_tree) [1]) + sz_length (is_size (fr_first_stream (mi_records demo_tree ! 0)))) u64_max
    \<and> fr_tree_allocated (mi_records ix' ! 0)
        = min (sum_list (map (whole_allocated demo_tree) [1]) + mi_reserved_allocated_bytes demo_tree
                + sz_allocated (is_size (fr_first_stream (mi_records demo_tree ! 0)))) u64_max"
proof (rule hard_links_counted_once [OF demo_tree_ok _ demo_tree_no_root])
  show "frs_to_idx_opt demo_tree ROOT_FRS = Some 0" by (simp add: ROOT_FRS_def demo_tree_lookup)
  show "si_is_directory (fr_stdinfo (mi_records demo_tree ! 0))" by (simp add: demo_tree_records)
  have "names_below demo_tree 0 = [(1, 1), (1, 0)]"
    by (simp add: names_below_def demo_tree_names demo_tree_records(2) numeral_3_eq_3)
  moreover have "name_visits demo_tree [1] = [(1, 0), (1, 1)]"
    by (simp add: name_visits_def names_of_def demo_tree_records upt_rec)
  ultimately show "mset (names_below demo_tree 0) = mset (name_visits demo_tree [1])" by simp
qed


section \<open>Directories that contain themselves\<close>

definition outline :: "file_record \<Rightarrow> file_record" where "outline r = set_metrics 0 0 0 (set_first_allocated 0 r)"

definition shape :: "mft_index \<Rightarrow> mft_index" where "shape ix = ix\<lparr>mi_records := map outline (mi_records ix)\<rparr>"

lemma outline_simps [simp]:
  "outline (set_metrics d s a r) = outline r" "outline (set_first_allocated a r) = outline r"
  "fr_stdinfo (outline r) = fr_stdinfo r" "fr_first_child (outline r) = fr_first_child r"
  by (simp_all add: outline_def set_metrics_def set_first_allocated_def)

lemma shape_fields:
  assumes "shape ix' = shape ix"
  shows "length (mi_records ix') = length (mi_records ix)" and "frs_to_idx_opt ix' = frs_to_idx_opt ix"
    and "child_entries ix' k = child_entries ix k"
    and "j < length (mi_records ix) \<Longrightarrow> fr_stdinfo (mi_records ix' ! j) = fr_stdinfo (mi_records ix ! j)"
    and "j < length (mi_records ix) \<Longrightarrow> fr_first_child (mi_records ix' ! j) = fr_first_child (mi_records ix ! j)"
proof -
  show len: "length (mi_records ix') = length (mi_records ix)"
    using arg_cong [OF assms, of "\<lambda>x. length (mi_records x)"] by (simp add: shape_def)
  have t: "mi_frs_to_idx ix' = mi_frs_to_idx ix" using arg_cong [OF assms, of mi_frs_to_idx] by (simp add: shape_def)
  then show "frs_to_idx_opt ix' = frs_to_idx_opt ix" by (simp add: fun_eq_iff frs_to_idx_opt_def)
  have c: "mi_children ix' = mi_children ix" using arg_cong [OF assms, of mi_children] by (simp add: shape_def)
  show "child_entries ix' k = child_entries ix k" unfolding child_entries_def child_chain_def c ..
  have r: "outline (mi_records ix' ! j) = outline (mi_records ix ! j)" if "j < length (mi_records ix)"
    using arg_cong [OF assms, of "\<lambda>x. mi_records x ! j"] that len by (simp add: shape_def)
  show "fr_stdinfo (mi_records ix' ! j) = fr_stdinfo (mi_records ix ! j)" if "j < length (mi_records ix)"
    using arg_cong [OF r [OF that], of fr_stdinfo] by simp
  show "fr_first_child (mi_records ix' ! j) = fr_first_child (mi_records ix ! j)" if "j < length (mi_records ix)"
    using arg_cong [OF r [OF that], of fr_first_child] by simp
qed

lemma shape_update: "outline r = outline (mi_records ix ! i) \<Longrightarrow> shape (ix\<lparr>mi_records := (mi_records ix)[i := r]\<rparr>) = shape ix"
proof (cases "i < length (mi_records ix)")
  case True
  assume "outline r = outline (mi_records ix ! i)"
  with True have "outline r = map outline (mi_records ix) ! i" by simp
  then have "map outline ((mi_records ix)[i := r]) = map outline (mi_records ix)" by (simp only: map_update list_update_id)
  then show ?thesis by (simp add: shape_def)
qed (simp add: list_update_beyond)

lemma shape_store: "shape (store_printed_metrics idx b ch l a ix) = shape ix"
  unfolding store_printed_metrics_def by (rule shape_update) simp

lemma shape_merge: "merge_wof_alloc idx tag k a ix = Some (w, ix') \<Longrightarrow> shape ix' = shape ix"
  by (auto simp: merge_wof_alloc_def Let_def shape_update split: if_splits bind_splits)

text \<open>A set of directories each of which lists one of the set again.\<close>

definition directory_cycle :: "mft_index \<Rightarrow> nat set \<Rightarrow> bool" where
  "directory_cycle ix C \<longleftrightarrow> C \<noteq> {} \<and> C \<subseteq> {..<length (mi_records ix)}
     \<and> (\<forall>x \<in> C. si_is_directory (fr_stdinfo (mi_records ix ! x))
          \<and> (\<forall>ces. child_entries ix (fr_first_child (mi_records ix ! x)) = Some ces \<longrightarrow>
               (\<exists>ce \<in> set ces. \<exists>y \<in> C. frs_to_idx_opt ix (ci_child_frs ce) = Some y)))"

definition avoids :: "mft_index \<Rightarrow> nat set \<Rightarrow> visit \<Rightarrow> bool" where
  "avoids ix C visit \<longleftrightarrow> (\<forall>idx i n tt a tt'. shape (tt_index tt) = shape ix \<and> visit idx i n tt = Some (a, tt') \<longrightarrow>
     idx \<notin> C \<and> shape (tt_index tt') = shape ix \<and> (\<forall>x \<in> C. tt_seen tt' ! x = tt_seen tt ! x)
       \<and> tt_skip_orphans tt' = tt_skip_orphans tt)"

lemma child_loop_avoids:
  assumes "avoids ix C visit"
  shows "shape (tt_index tt) = shape ix \<Longrightarrow> child_loop visit ces acc tt = Some (a, tt') \<Longrightarrow>
    shape (tt_index tt') = shape ix \<and> (\<forall>x \<in> C. tt_seen tt' ! x = tt_seen tt ! x) \<and> tt_skip_orphans tt' = tt_skip_orphans tt
    \<and> (\<forall>ce \<in> set ces. \<forall>y. frs_to_idx_opt ix (ci_child_frs ce) = Some y \<longrightarrow> y \<notin> C)"
proof (induction ces arbitrary: acc tt)
  case (Cons ce ces)
  note f = shape_fields(2) [OF Cons.prems(1)]
  show ?case
  proof (cases "frs_to_idx_opt ix (ci_child_frs ce)")
    case None
    with Cons.prems Cons.IH [OF Cons.prems(1)] show ?thesis by (simp add: f)
  next
    case (Some y)
    with Cons.prems(2) obtain b tt1 where v: "visit y (compute_name_info_checked (ci_name_index ce) (fr_name_count (mi_records (tt_index tt) ! y)))
        (max (fr_name_count (mi_records (tt_index tt) ! y)) 1) tt = Some (b, tt1)" "child_loop visit ces (agg_add acc b) tt1 = Some (a, tt')"
      by (auto simp: f Let_def split: if_splits bind_splits)
    from assms [unfolded avoids_def, rule_format, OF conjI [OF Cons.prems(1) v(1)]]
    have "y \<notin> C" "shape (tt_index tt1) = shape ix" "\<forall>x \<in> C. tt_seen tt1 ! x = tt_seen tt ! x" "tt_skip_orphans tt1 = tt_skip_orphans tt" by simp_all
    with Cons.IH [OF this(2) v(2)] Some show ?thesis by auto
  qed
qed simp

lemma visit_record_avoids:
  assumes "directory_cycle ix C" and "avoids ix C visit"
  shows "avoids ix C (visit_record visit)"
  unfolding avoids_def
proof (intro allI impI)
  fix idx i n and tt :: tree_traversal and a and tt' :: tree_traversal
  assume as: "shape (tt_index tt) = shape ix \<and> visit_record visit idx i n tt = Some (a, tt')"
  then have sh: "shape (tt_index tt) = shape ix" by simp
  note f = shape_fields [OF sh]
  show "idx \<notin> C \<and> shape (tt_index tt') = shape ix \<and> (\<forall>x \<in> C. tt_seen tt' ! x = tt_seen tt ! x) \<and> tt_skip_orphans tt' = tt_skip_orphans tt"
  proof (cases "idx < length (mi_records ix)")
    case False
    with as have "tt' = tt" by (auto simp: visit_record_def f(1))
    with False sh assms(1) show ?thesis by (auto simp: directory_cycle_def)
  next
    case True
    let ?s = "mi_records (tt_index tt) ! idx"
    from as True obtain w ix1 ch tt2 l al where m:
      "merge_wof_alloc idx (fr_reparse_tag ?s) (is_next_entry (fr_first_stream ?s)) (sz_allocated (is_size (fr_first_stream ?s))) (tt_index tt) = Some (w, ix1)"
      and c: "(if si_is_directory (fr_stdinfo (mi_records ix ! idx))
         then aggregate_children visit (fr_first_child ?s) (tt\<lparr>tt_seen := (tt_seen tt)[idx := True], tt_index := ix1\<rparr>)
         else Some (agg_default, tt\<lparr>tt_seen := (tt_seen tt)[idx := True], tt_index := ix1\<rparr>)) = Some (ch, tt2)"
      and tt': "tt' = tt2\<lparr>tt_index := store_printed_metrics idx (si_is_directory (fr_stdinfo (mi_records ix ! idx))) ch l al (tt_index tt2)\<rparr>"
      by (auto simp: visit_record_def f(1,4) Let_def split: bind_splits prod.splits)
    let ?tt1 = "tt\<lparr>tt_seen := (tt_seen tt)[idx := True], tt_index := ix1\<rparr>"
    have s1: "shape (tt_index ?tt1) = shape ix" using shape_merge [OF m] sh by simp
    have "idx \<notin> C \<and> shape (tt_index tt2) = shape ix \<and> (\<forall>x \<in> C. tt_seen tt2 ! x = tt_seen ?tt1 ! x)
        \<and> tt_skip_orphans tt2 = tt_skip_orphans tt"
    proof (cases "si_is_directory (fr_stdinfo (mi_records ix ! idx))")
      case True
      with c f(5) [OF \<open>idx < length (mi_records ix)\<close>] obtain ces b tt3 where l: "child_entries ix1 (fr_first_child (mi_records ix ! idx)) = Some ces"
        "child_loop visit ces agg_default (?tt1\<lparr>tt_depth := u32_sat_add (tt_depth tt) 1\<rparr>) = Some (b, tt3)"
        "tt2 = tt3\<lparr>tt_depth := tt_depth tt3 - 1\<rparr>"
        by (auto simp: aggregate_children_def Let_def split: bind_splits)
      have "child_entries ix (fr_first_child (mi_records ix ! idx)) = Some ces" using l(1) shape_fields(3) [OF s1] by simp
      with child_loop_avoids [OF assms(2) _ l(2)] s1 assms(1) l(3) show ?thesis by (fastforce simp: directory_cycle_def)
    next
      case False
      with c assms(1) s1 show ?thesis by (auto simp: directory_cycle_def)
    qed
    moreover have "tt_seen ?tt1 ! x = tt_seen tt ! x" if "x \<in> C" "idx \<notin> C" for x
      using that by (cases "x = idx") simp_all
    ultimately show ?thesis by (auto simp: tt' shape_store)
  qed
qed

lemma preprocess_avoids: "directory_cycle ix C \<Longrightarrow> avoids ix C (preprocess d)"
  by (induction d) (simp add: avoids_def, simp add: visit_record_avoids)

lemma sweep_meets_cycle:
  assumes "directory_cycle ix C"
  shows "shape (tt_index tt) = shape ix \<Longrightarrow> x \<in> C \<Longrightarrow> x \<in> set idxs \<Longrightarrow> \<not> tt_seen tt ! x \<Longrightarrow> sweep_orphans d idxs tt = None"
proof (induction idxs arbitrary: tt)
  case (Cons idx idxs)
  note av = preprocess_avoids [OF assms, of d, unfolded avoids_def, rule_format]
  show ?case
  proof (cases "tt_seen tt ! idx")
    case True
    with Cons show ?thesis by auto
  next
    case False
    show ?thesis
    proof (cases "preprocess d idx 0 1 tt")
      case (Some p)
      obtain a tt1 where p: "preprocess d idx 0 1 tt = Some (a, tt1)" using Some by (cases p) auto
      from av [OF conjI [OF Cons.prems(1) p]] Cons.prems(2-4) have "idx \<notin> C" "shape (tt_index tt1) = shape ix" "\<not> tt_seen tt1 ! x" by auto
      with Cons.IH [of tt1] Cons.prems False p show ?thesis by auto
    qed (use False in simp)
  qed
qed simp

text \<open>
  C16. Directories that contain each other, as in a damaged table, are never left: with the sweep over orphans the
  tree metrics do not return at any depth of recursion.
\<close>

theorem directory_cycle_never_returns:
  assumes "directory_cycle ix C"
  shows "run_traversal d (traversal_new False ix) = None"
proof -
  from assms obtain x where x: "x \<in> C" "x < length (mi_records ix)" by (auto simp: directory_cycle_def)
  let ?tt = "traversal_new False ix"
  have start: "shape (tt_index ?tt) = shape ix" "\<not> tt_seen ?tt ! x" using x by (simp_all add: traversal_new_def)
  note av = preprocess_avoids [OF assms, of d, unfolded avoids_def, rule_format]
  have first: "shape (tt_index tt1) = shape ix \<and> \<not> tt_seen tt1 ! x \<and> \<not> tt_skip_orphans tt1" if t: "traverse_from_root d ?tt = Some tt1" for tt1
  proof (cases "frs_to_idx_opt (tt_index ?tt) ROOT_FRS")
    case None
    with t start show ?thesis by (auto simp: traverse_from_root_def traversal_new_def)
  next
    case (Some root)
    with t obtain a where "preprocess d root 0 1 ?tt = Some (a, tt1)" by (auto simp: traverse_from_root_def)
    from av [OF conjI [OF start(1) this]] start(2) x(1) show ?thesis by (simp add: traversal_new_def)
  qed
  show ?thesis
  proof (cases "traverse_from_root d ?tt")
    case (Some tt1)
    from first [OF Some] have f: "shape (tt_index tt1) = shape ix" "\<not> tt_seen tt1 ! x" "\<not> tt_skip_orphans tt1" by simp_all
    have "sweep_orphans d [0..<length (mi_records (tt_index tt1))] tt1 = None"
      using x(2) shape_fields(1) [OF f(1)] by (intro sweep_meets_cycle [OF assms f(1) x(1) _ f(2)]) simp
    with Some f(3) show ?thesis by (simp add: run_traversal_def)
  qed (simp add: run_traversal_def)
qed


definition demo_loop :: mft_index where
  "demo_loop = (mft_index_new 0 67)\<lparr>
     mi_records := [(file_record_new 0)\<lparr>fr_stdinfo := set_directory True standard_info_default, fr_first_child := 0\<rparr>,
                    (file_record_new 1)\<lparr>fr_stdinfo := set_directory True standard_info_default, fr_first_child := 1\<rparr>],
     mi_frs_to_idx := [0, 1],
     mi_children := [\<lparr>ci_next_entry = NO_ENTRY, ci_child_frs = 1, ci_name_index = 0\<rparr>,
                     \<lparr>ci_next_entry = NO_ENTRY, ci_child_frs = 0, ci_name_index = 0\<rparr>]\<rparr>"

theorem directory_cycle_never_returns_witness: "run_traversal 1000 (traversal_new False demo_loop) = None"
proof (rule directory_cycle_never_returns [where C = "{0, Suc 0}"])
  have e: "child_entries demo_loop k = Some [mi_children demo_loop ! k]" if "k = 0 \<or> k = Suc 0" for k
  proof -
    have "child_chain demo_loop k = Some [k]"
      unfolding child_chain_def by (rule linked_walk) (use that in \<open>auto simp: demo_loop_def vec_get_def no_entry_value\<close>)
    with that show ?thesis by (auto simp: child_entries_def demo_loop_def)
  qed
  have f: "frs_to_idx_opt demo_loop 0 = Some 0" "frs_to_idx_opt demo_loop (Suc 0) = Some (Suc 0)"
    by (simp_all add: demo_loop_def frs_to_idx_opt_def vec_get_def no_entry_value)
  have r: "fr_first_child (mi_records demo_loop ! 0) = 0" "fr_first_child (mi_records demo_loop ! Suc 0) = Suc 0"
    "si_is_directory (fr_stdinfo (mi_records demo_loop ! 0))" "si_is_directory (fr_stdinfo (mi_records demo_loop ! Suc 0))"
    "length (mi_records demo_loop) = 2" "ci_child_frs (mi_children demo_loop ! 0) = Suc 0" "ci_child_frs (mi_children demo_loop ! Suc 0) = 0"
    by (simp_all add: demo_loop_def)
  show "directory_cycle demo_loop {0, Suc 0}" by (simp add: directory_cycle_def e f r)
qed

section \<open>What a second visit and an orphan add\<close>

text \<open>
  A file compressed by the overlay filter is visited once per name, and each visit adds the allocation of its
  compressed stream to the record again: the second visit starts from the sum the first one stored.
\<close>

lemma wof_allocation_added_again:
  assumes "idx < length (mi_records ix)" and a: "a = sz_allocated (is_size (fr_first_stream (mi_records ix ! idx)))"
    and m: "merge_wof_alloc idx tag k a ix = Some ((w, a1), ix1)" and "w \<noteq> NO_ENTRY"
  shows "let stream = sz_allocated (is_size (mi_streams ix ! w)) in
    a1 = u64_sat_add a stream \<and> sz_allocated (is_size (fr_first_stream (mi_records ix1 ! idx))) = a1
    \<and> (\<exists>ix2. merge_wof_alloc idx tag k a1 ix1 = Some ((w, u64_sat_add (u64_sat_add a stream) stream), ix2))"
proof -
  from m assms(4) have t: "tag = WOF_TAG" and w: "find_wof_stream ix k = Some w"
    and a1: "a1 = u64_sat_add a (sz_allocated (is_size (mi_streams ix ! w)))"
    and ix1: "ix1 = ix\<lparr>mi_records := (mi_records ix)[idx := set_first_allocated a1 (mi_records ix ! idx)]\<rparr>"
    by (auto simp: merge_wof_alloc_def Let_def split: if_splits bind_splits)
  have "find_wof ix1 d j = find_wof ix d j" for d j
    by (induction d arbitrary: j) (auto simp: ix1 get_name_def get_name_bytes_def split: option.splits)
  then have "find_wof_stream ix1 k = Some w" using w by (simp add: find_wof_stream_def ix1 del: find_wof.simps)
  moreover have "mi_streams ix1 = mi_streams ix" by (simp add: ix1)
  ultimately have "\<exists>ix2. merge_wof_alloc idx tag k a1 ix1 = Some ((w, u64_sat_add a1 (sz_allocated (is_size (mi_streams ix ! w)))), ix2)"
    using t assms(4) by (simp add: merge_wof_alloc_def Let_def)
  with a1 assms(1) show ?thesis by (simp add: Let_def ix1 set_first_allocated_def)
qed

text \<open>
  Every directory the sweep starts from is at depth zero like the root, so an orphan directory is stamped with the
  reserved clusters of the volume as well; here one that is alone.
\<close>

lemma orphan_counts_reserved:
  assumes "tree_ok ix" and "frs_to_idx_opt ix ROOT_FRS = None" and n: "length (mi_records ix) = 1"
  shows "\<exists>ix'. compute_tree_metrics False ix = Some ix'
    \<and> tree_metrics (mi_records ix' ! 0) = printed ix (mi_reserved_allocated_bytes ix) 0"
proof -
  let ?tt = "traversal_new False ix"
  obtain a tt1 where t: "preprocess (Suc (length (mi_records ix))) 0 0 1 ?tt = Some (a, tt1)"
    "stamped ix (reach ix 0) (\<lambda>j. if j = 0 then mi_reserved_allocated_bytes ix else 0) ?tt tt1"
    using top_level_visit [OF assms(1), of 0 ?tt] n by (auto simp: traversal_new_def)
  have s: "tt_seen ?tt ! 0 = False" "tt_skip_orphans ?tt = False" "tt_index ?tt = ix" using n by (simp_all add: traversal_new_def)
  have one: "[0..<length (mi_records ix)] = [0]" by (simp add: n)
  have "run_traversal (Suc (length (mi_records ix))) ?tt = Some tt1"
    using t(1) by (simp add: run_traversal_def traverse_from_root_def s one assms(2) del: preprocess.simps upt_Suc)
  with t(2) n show ?thesis by (auto simp: compute_tree_metrics_def stamped_def reach_def)
qed

end
