(* ===== verification/Mft_Merge.thy ===== *)
theory Mft_Merge
  imports Mft_Parse "HOL-Library.Multiset"
begin

text \<open>
  The merger of extension records into their base records (\<open>crates/uffs-mft/src/parse/merger.rs\<close>) and the
  placeholders for directories that are referenced but were not read (\<open>parse/placeholders.rs\<close>). The readers
  deliver parse results in the order their reads complete; what the merger makes of them depends on that order
  only in the order of the streams. Additions that overflow panic.
\<close>

section \<open>The merger\<close>

record mft_record_merger =
  mm_base_records :: "parsed_record option list"
  mm_extensions :: "extension_attributes list"
  mm_base_count :: nat

definition merger_new :: mft_record_merger where
  "merger_new = \<lparr>mm_base_records = [], mm_extensions = [], mm_base_count = 0\<rparr>"

definition merger_with_capacity :: "nat \<Rightarrow> mft_record_merger rust" where
  "merger_with_capacity max_frs = do {
     n \<leftarrow> u64_add max_frs 1;
     Some \<lparr>mm_base_records = replicate n None, mm_extensions = [], mm_base_count = 0\<rparr>
   }"

definition add_result :: "mft_record_merger \<Rightarrow> parse_result \<Rightarrow> mft_record_merger rust" where
  "add_result m result =
     (case result of
        PR_Base r \<Rightarrow> do {
          let frs = pr_frs r;
          base \<leftarrow> (if frs \<ge> length (mm_base_records m) then do {
                    n \<leftarrow> u64_add frs 1;
                    Some (mm_base_records m @ replicate (n - length (mm_base_records m)) None)
                  } else Some (mm_base_records m));
          Some (m\<lparr>mm_base_records := base[frs := Some r],
                  mm_base_count := (if base ! frs = None then Suc (mm_base_count m) else mm_base_count m)\<rparr>)
        }
      | PR_Extension e \<Rightarrow> Some (m\<lparr>mm_extensions := mm_extensions m @ [e]\<rparr>)
      | PR_Skip \<Rightarrow> Some m)"

fun add_results :: "parse_result list \<Rightarrow> mft_record_merger \<Rightarrow> mft_record_merger rust" where
  "add_results [] m = Some m"
| "add_results (r # rs) m = Option.bind (add_result m r) (add_results rs)"

section \<open>Merging streams\<close>

definition is_internal_stream :: "str \<Rightarrow> bool" where
  "is_internal_stream name = (case name of c # c' # _ \<Rightarrow> c = 0x24 \<and> 0x41 \<le> c' \<and> c' \<le> 0x5A | _ \<Rightarrow> False)"

text \<open>The first stream of the name is changed in place; without one a new stream is pushed.\<close>

fun change_first :: "str \<Rightarrow> (stream_info \<Rightarrow> stream_info rust) \<Rightarrow> stream_info \<Rightarrow> stream_info list \<Rightarrow> stream_info list rust" where
  "change_first name f new [] = Some [new]"
| "change_first name f new (s # ss) =
     (if st_name s = name then do { s' \<leftarrow> f s; Some (s' # ss) }
      else do { ss' \<leftarrow> change_first name f new ss; Some (s # ss') })"

definition merge_stream :: "stream_info \<Rightarrow> stream_info list \<Rightarrow> stream_info list rust" where
  "merge_stream s streams =
     (if is_internal_stream (st_name s) then Some (streams @ [s])
      else change_first (st_name s) (\<lambda>existing. do {
             sz \<leftarrow> u64_add (st_size existing) (st_size s);
             allocated \<leftarrow> u64_add (st_allocated_size existing) (st_allocated_size s);
             Some (existing\<lparr>st_size := sz, st_allocated_size := allocated,
               st_is_sparse := st_is_sparse existing \<or> st_is_sparse s,
               st_is_compressed := st_is_compressed existing \<or> st_is_compressed s,
               st_is_resident := st_is_resident existing \<and> st_is_resident s\<rparr>)
           }) s streams)"

fun merge_streams :: "stream_info list \<Rightarrow> stream_info list \<Rightarrow> stream_info list rust" where
  "merge_streams [] streams = Some streams"
| "merge_streams (s # ss) streams = Option.bind (merge_stream s streams) (merge_streams ss)"

definition merge_dir_index :: "extension_attributes \<Rightarrow> stream_info list \<Rightarrow> stream_info list rust" where
  "merge_dir_index e streams =
     (if ea_dir_index_size e > 0 \<or> ea_dir_index_allocated e > 0
      then change_first [] (\<lambda>existing. do {
             sz \<leftarrow> u64_add (st_size existing) (ea_dir_index_size e);
             allocated \<leftarrow> u64_add (st_allocated_size existing) (ea_dir_index_allocated e);
             Some (existing\<lparr>st_size := sz, st_allocated_size := allocated\<rparr>)
           })
           \<lparr>st_name = [], st_size = ea_dir_index_size e, st_allocated_size = ea_dir_index_allocated e, st_is_sparse = False,
            st_is_compressed = False, st_is_resident = (ea_dir_index_allocated e = 0)\<rparr> streams
      else Some streams)"

definition merge_extension :: "extension_attributes \<Rightarrow> parsed_record \<Rightarrow> parsed_record rust" where
  "merge_extension e base = do {
     streams \<leftarrow> merge_streams (ea_streams e) (pr_streams base);
     streams' \<leftarrow> merge_dir_index e streams;
     Some (base\<lparr>pr_names := pr_names base @ ea_names e, pr_streams := streams'\<rparr>)
   }"

fun merge_extensions :: "extension_attributes list \<Rightarrow> parsed_record option list \<Rightarrow> parsed_record option list rust" where
  "merge_extensions [] base_records = Some base_records"
| "merge_extensions (e # es) base_records =
     (case vec_get base_records (ea_base_frs e) of
        Some (Some base) \<Rightarrow> do {
          base' \<leftarrow> merge_extension e base;
          merge_extensions es (base_records[ea_base_frs e := Some base'])
        }
      | _ \<Rightarrow> merge_extensions es base_records)"

section \<open>The merged records\<close>

definition finish_record :: "parsed_record \<Rightarrow> parsed_record" where
  "finish_record r =
     (let r1 = r\<lparr>pr_names := sort_key ni_source_frs (pr_names r)\<rparr>;
          r2 = (case find (\<lambda>s. st_name s = []) (pr_streams r1) of
                  Some s \<Rightarrow> r1\<lparr>pr_size := st_size s, pr_allocated_size := st_allocated_size s\<rparr>
                | None \<Rightarrow> r1)
      in if pr_name r2 = [] \<and> pr_names r2 \<noteq> [] then
           (case best_name (pr_names r2) of
              Some n \<Rightarrow> r2\<lparr>pr_name := ni_name n, pr_parent_frs := ni_parent_frs n, pr_namespace := ni_namespace n,
                  pr_fn_created := ni_created n, pr_fn_modified := ni_modified n, pr_fn_accessed := ni_accessed n,
                  pr_fn_mft_changed := ni_mft_changed n\<rparr>
            | None \<Rightarrow> r2)
         else r2)"

definition flatten :: "'a option list \<Rightarrow> 'a list" where "flatten xs = concat (map (case_option [] (\<lambda>x. [x])) xs)"

definition merge :: "mft_record_merger \<Rightarrow> parsed_record list rust" where
  "merge m = do {
     base_records \<leftarrow> merge_extensions (mm_extensions m) (mm_base_records m);
     Some (filter (\<lambda>r. pr_name r \<noteq> []) (map finish_record (flatten base_records)))
   }"

definition extension_count :: "mft_record_merger \<Rightarrow> nat" where "extension_count m = length (mm_extensions m)"

text \<open>What a reader does with its results.\<close>

definition merge_results :: "parse_result list \<Rightarrow> parsed_record list rust" where
  "merge_results rs = Option.bind (add_results rs merger_new) merge"

section \<open>Placeholders\<close>

definition create_placeholder_record :: "nat \<Rightarrow> parsed_record" where
  "create_placeholder_record frs = parsed_record_default\<lparr>pr_frs := frs, pr_parent_frs := 5,
     pr_name := chars_of ''<dir:'' @ digits 10 frs @ chars_of ''>'', pr_namespace := 1, pr_in_use := True, pr_is_directory := True\<rparr>"

text \<open>The hash set yields the missing parents in an order of its own, the argument \<open>hash_order\<close>.\<close>

definition missing_parents :: "parsed_record list \<Rightarrow> nat list" where
  "missing_parents rs = remdups (filter (\<lambda>p. p \<notin> set (map pr_frs rs) \<and> p \<noteq> 0 \<and> p \<noteq> 5) (map pr_parent_frs rs))"

definition insert_missing_parents :: "(nat list \<Rightarrow> nat list) \<Rightarrow> parsed_record list \<Rightarrow> nat \<times> parsed_record list" where
  "insert_missing_parents hash_order rs =
     (let missing = hash_order (missing_parents rs) in
      if missing = [] then (0, rs) else (length missing, rs @ map create_placeholder_record missing))"

definition MAX_ITERATIONS :: nat where "MAX_ITERATIONS = 10"

fun placeholder_rounds :: "(nat list \<Rightarrow> nat list) \<Rightarrow> nat \<Rightarrow> nat \<Rightarrow> parsed_record list \<Rightarrow> nat \<times> parsed_record list" where
  "placeholder_rounds hash_order 0 sofar rs = (sofar, rs)"
| "placeholder_rounds hash_order (Suc k) sofar rs =
     (case insert_missing_parents hash_order rs of
        (added, rs') \<Rightarrow> if added = 0 then (sofar, rs') else placeholder_rounds hash_order k (sofar + added) rs')"

definition add_missing_parent_placeholders_to_vec :: "(nat list \<Rightarrow> nat list) \<Rightarrow> parsed_record list \<Rightarrow> nat \<times> parsed_record list" where
  "add_missing_parent_placeholders_to_vec hash_order rs = placeholder_rounds hash_order MAX_ITERATIONS 0 rs"

section \<open>What a merge adds to the streams\<close>

definition first_size :: "str \<Rightarrow> stream_info list \<Rightarrow> nat" where
  "first_size n ss = (case find (\<lambda>s. st_name s = n) ss of None \<Rightarrow> 0 | Some s \<Rightarrow> st_size s)"
definition first_allocated :: "str \<Rightarrow> stream_info list \<Rightarrow> nat" where
  "first_allocated n ss = (case find (\<lambda>s. st_name s = n) ss of None \<Rightarrow> 0 | Some s \<Rightarrow> st_allocated_size s)"

type_synonym gain = "str \<times> nat \<times> nat"

definition gain_size :: "str \<Rightarrow> gain list \<Rightarrow> nat" where "gain_size n gs = (\<Sum>(m, a, b)\<leftarrow>gs. if m = n then a else 0)"
definition gain_allocated :: "str \<Rightarrow> gain list \<Rightarrow> nat" where "gain_allocated n gs = (\<Sum>(m, a, b)\<leftarrow>gs. if m = n then b else 0)"

definition sizes_fit :: "stream_info list \<Rightarrow> bool" where
  "sizes_fit ss = list_all (\<lambda>s. st_size s \<le> u64_max \<and> st_allocated_size s \<le> u64_max) ss"

definition gains_fit :: "gain list \<Rightarrow> bool" where "gains_fit gs = list_all (\<lambda>(_, a, b). a \<le> u64_max \<and> b \<le> u64_max) gs"

definition overflows :: "stream_info list \<Rightarrow> gain list \<Rightarrow> bool" where
  "overflows ss gs \<longleftrightarrow> (\<exists>n. \<not> is_internal_stream n
     \<and> (first_size n ss + gain_size n gs > u64_max \<or> first_allocated n ss + gain_allocated n gs > u64_max))"

lemma gain_simps [simp]:
  "gain_size n [] = 0" "gain_allocated n [] = 0"
  "gain_size n ((m, a, b) # gs) = (if m = n then a else 0) + gain_size n gs"
  "gain_allocated n ((m, a, b) # gs) = (if m = n then b else 0) + gain_allocated n gs"
  "gain_size n (gs @ gs') = gain_size n gs + gain_size n gs'"
  "gain_allocated n (gs @ gs') = gain_allocated n gs + gain_allocated n gs'"
  by (simp_all add: gain_size_def gain_allocated_def)

lemma gain_mset:
  assumes "mset gs = mset gs'"
  shows "gain_size n gs = gain_size n gs'" and "gain_allocated n gs = gain_allocated n gs'"
proof -
  have "sum_list (map f gs) = sum_list (map f gs')" for f :: "gain \<Rightarrow> nat"
    using assms by (metis mset_map sum_mset_sum_list)
  then show "gain_size n gs = gain_size n gs'" "gain_allocated n gs = gain_allocated n gs'"
    by (simp_all add: gain_size_def gain_allocated_def)
qed

lemma first_simps [simp]:
  "first_size n [] = 0" "first_allocated n [] = 0"
  "first_size n (s # ss) = (if st_name s = n then st_size s else first_size n ss)"
  "first_allocated n (s # ss) = (if st_name s = n then st_allocated_size s else first_allocated n ss)"
  by (simp_all add: first_size_def first_allocated_def)

lemma first_fit:
  assumes "sizes_fit ss"
  shows "first_size n ss \<le> u64_max" and "first_allocated n ss \<le> u64_max"
  using assms by (induction ss) (auto simp: sizes_fit_def)

lemma first_append_other: "st_name s \<noteq> n \<Longrightarrow> first_size n (ss @ [s]) = first_size n ss \<and> first_allocated n (ss @ [s]) = first_allocated n ss"
  by (induction ss) auto

text \<open>
  What the loop over the extensions relies on of each of its steps: the step fails exactly when one of the streams
  it adds to overflows, and otherwise the first stream of each name grows by what the step has for that name.
\<close>

locale stream_absorber =
  fixes absorb :: "stream_info list \<Rightarrow> stream_info list rust" and gains :: "gain list"
  assumes absorb_none: "gains_fit gains \<Longrightarrow> sizes_fit ss \<Longrightarrow> absorb ss = None \<longleftrightarrow> overflows ss gains"
    and absorb_fit: "gains_fit gains \<Longrightarrow> sizes_fit ss \<Longrightarrow> absorb ss = Some ss' \<Longrightarrow> sizes_fit ss'"
    and absorb_first: "absorb ss = Some ss' \<Longrightarrow> \<not> is_internal_stream n \<Longrightarrow>
      first_size n ss' = first_size n ss + gain_size n gains \<and> first_allocated n ss' = first_allocated n ss + gain_allocated n gains"
    and absorb_named: "absorb ss = Some ss' \<Longrightarrow> \<not> is_internal_stream n \<Longrightarrow>
      (n \<in> st_name ` set ss') = (n \<in> st_name ` set ss \<or> n \<in> fst ` set gains)"
begin

lemma absorb_total: "gains_fit gains \<Longrightarrow> sizes_fit ss \<Longrightarrow> \<not> overflows ss gains \<Longrightarrow> \<exists>ss'. absorb ss = Some ss' \<and> sizes_fit ss'"
  by (metis absorb_none absorb_fit option.exhaust)

lemma overflows_after:
  assumes "absorb ss = Some ss'"
  shows "overflows ss' gs \<longleftrightarrow> overflows ss (gains @ gs)"
  unfolding overflows_def using absorb_first [OF assms] by (simp add: add.assoc cong: conj_cong)

end

lemma overflow_first: "overflows ss gs \<Longrightarrow> overflows ss (gs @ gs')"
  unfolding overflows_def by (metis add.assoc gain_simps(5,6) trans_less_add1)

lemma absorb_nothing: "stream_absorber Some []"
  by unfold_locales (auto simp: overflows_def not_less first_fit)

lemma absorb_both:
  assumes "stream_absorber f gs" and "stream_absorber g gs'"
  shows "stream_absorber (\<lambda>ss. Option.bind (f ss) g) (gs @ gs')"
proof
  fix ss assume fit: "gains_fit (gs @ gs')" and ss: "sizes_fit ss"
  then have fits: "gains_fit gs" "gains_fit gs'" by (simp_all add: gains_fit_def)
  show "Option.bind (f ss) g = None \<longleftrightarrow> overflows ss (gs @ gs')"
  proof (cases "f ss")
    case None
    then show ?thesis using stream_absorber.absorb_none [OF assms(1) fits(1) ss] overflow_first by simp
  next
    case (Some ss')
    then show ?thesis
      using stream_absorber.absorb_none [OF assms(2) fits(2)] stream_absorber.absorb_fit [OF assms(1) fits(1) ss Some]
        stream_absorber.overflows_after [OF assms(1) Some] by simp
  qed
next
  fix ss ss' assume "gains_fit (gs @ gs')" "sizes_fit ss" "Option.bind (f ss) g = Some ss'"
  moreover from this obtain s where "f ss = Some s" "g s = Some ss'" by (auto simp: bind_eq_Some_conv)
  ultimately show "sizes_fit ss'"
    using stream_absorber.absorb_fit [OF assms(1), of ss s] stream_absorber.absorb_fit [OF assms(2), of s ss'] by (simp add: gains_fit_def)
next
  fix ss ss' n assume "Option.bind (f ss) g = Some ss'" and n: "\<not> is_internal_stream n"
  then obtain s where s: "f ss = Some s" "g s = Some ss'" by (auto simp: bind_eq_Some_conv)
  show "first_size n ss' = first_size n ss + gain_size n (gs @ gs') \<and> first_allocated n ss' = first_allocated n ss + gain_allocated n (gs @ gs')"
    using stream_absorber.absorb_first [OF assms(1) s(1) n] stream_absorber.absorb_first [OF assms(2) s(2) n] by simp
  show "(n \<in> st_name ` set ss') = (n \<in> st_name ` set ss \<or> n \<in> fst ` set (gs @ gs'))"
    using stream_absorber.absorb_named [OF assms(1) s(1) n] stream_absorber.absorb_named [OF assms(2) s(2) n] by auto
qed

section \<open>The steps of a merge are absorbers\<close>

definition adds :: "(stream_info \<Rightarrow> stream_info rust) \<Rightarrow> nat \<Rightarrow> nat \<Rightarrow> bool" where
  "adds f a b \<longleftrightarrow> (\<forall>s. case f s of
      None \<Rightarrow> st_size s + a > u64_max \<or> st_allocated_size s + b > u64_max
    | Some s' \<Rightarrow> st_size s + a \<le> u64_max \<and> st_allocated_size s + b \<le> u64_max \<and> st_name s' = st_name s
        \<and> st_size s' = st_size s + a \<and> st_allocated_size s' = st_allocated_size s + b)"

lemma addsD:
  assumes "adds f a b"
  shows "f s = None \<Longrightarrow> st_size s + a > u64_max \<or> st_allocated_size s + b > u64_max"
    and "f s = Some s' \<Longrightarrow> st_size s + a \<le> u64_max \<and> st_allocated_size s + b \<le> u64_max \<and> st_name s' = st_name s
        \<and> st_size s' = st_size s + a \<and> st_allocated_size s' = st_allocated_size s + b"
  using spec [OF assms [unfolded adds_def], of s] by auto

lemma change_first_none:
  assumes "adds f a b" and "a \<le> u64_max" and "b \<le> u64_max"
  shows "change_first n f new ss = None \<longleftrightarrow> first_size n ss + a > u64_max \<or> first_allocated n ss + b > u64_max"
proof (induction ss)
  case (Cons s ss)
  show ?case
  proof (cases "st_name s = n")
    case True
    show ?thesis
    proof (cases "f s")
      case None
      with True show ?thesis using addsD(1) [OF assms(1) None] by simp
    next
      case (Some s')
      with True show ?thesis using addsD(2) [OF assms(1) Some] by simp
    qed
  next
    case False
    then show ?thesis using Cons by (auto simp: bind_eq_None_conv)
  qed
qed (use assms in auto)

lemma change_first_some:
  assumes "adds f a b" and "change_first n f new ss = Some ss'" and "st_name new = n" "st_size new = a" "st_allocated_size new = b"
  shows "first_size m ss' = first_size m ss + (if m = n then a else 0)" and "first_allocated m ss' = first_allocated m ss + (if m = n then b else 0)"
    and "st_name ` set ss' = insert n (st_name ` set ss)" and "a \<le> u64_max \<Longrightarrow> b \<le> u64_max \<Longrightarrow> sizes_fit ss \<Longrightarrow> sizes_fit ss'"
  using assms(2)
proof (induction ss arbitrary: ss')
  case Nil
  { case 1 then show ?case using assms(3-5) by auto
  next case 2 then show ?case using assms(3-5) by auto
  next case 3 then show ?case using assms(3-5) by auto
  next case 4 then show ?case using assms(3-5) by (auto simp: sizes_fit_def) }
next
  case (Cons s ss)
  have step: "(\<exists>s'. st_name s = n \<and> st_name s' = n \<and> st_size s + a \<le> u64_max \<and> st_allocated_size s + b \<le> u64_max
        \<and> st_size s' = st_size s + a \<and> st_allocated_size s' = st_allocated_size s + b \<and> ss' = s' # ss)
      \<or> (\<exists>t. st_name s \<noteq> n \<and> change_first n f new ss = Some t \<and> ss' = s # t)"
    if "change_first n f new (s # ss) = Some ss'" for ss'
    using that by (auto simp: bind_eq_Some_conv split: if_splits dest: addsD(2) [OF assms(1)])
  { case 1 then show ?case using step [OF 1] Cons.IH(1) by auto
  next case 2 then show ?case using step [OF 2] Cons.IH(2) by auto
  next case 3 then show ?case using step [OF 3] Cons.IH(3) by (elim disjE exE conjE) (simp_all add: insert_commute)
  next case 4 then show ?case using step [OF 4(4)] Cons.IH(4) by (auto simp: sizes_fit_def) }
qed

lemma change_first_absorbs:
  assumes "adds f a b" and "\<not> is_internal_stream n" and "st_name new = n" "st_size new = a" "st_allocated_size new = b"
  shows "stream_absorber (change_first n f new) [(n, a, b)]"
proof
  fix ss assume fit: "gains_fit [(n, a, b)]" and ss: "sizes_fit ss"
  have "overflows ss [(n, a, b)] \<longleftrightarrow> first_size n ss + a > u64_max \<or> first_allocated n ss + b > u64_max"
    using first_fit [OF ss] assms(2) by (auto simp: overflows_def not_less [symmetric] split: if_splits)
  moreover have "a \<le> u64_max" "b \<le> u64_max" using fit by (simp_all add: gains_fit_def)
  ultimately show "change_first n f new ss = None \<longleftrightarrow> overflows ss [(n, a, b)]" using change_first_none [OF assms(1)] by simp
qed (use change_first_some [OF assms(1) _ assms(3-5)] in \<open>auto simp: gains_fit_def\<close>)

definition stream_gain :: "stream_info \<Rightarrow> gain" where "stream_gain s = (st_name s, st_size s, st_allocated_size s)"

definition dir_gains :: "extension_attributes \<Rightarrow> gain list" where
  "dir_gains e = (if ea_dir_index_size e > 0 \<or> ea_dir_index_allocated e > 0 then [([], ea_dir_index_size e, ea_dir_index_allocated e)] else [])"

definition extension_gains :: "extension_attributes \<Rightarrow> gain list" where
  "extension_gains e = map stream_gain (ea_streams e) @ dir_gains e"

lemma push_internal_absorbs:
  assumes "is_internal_stream (st_name s)"
  shows "stream_absorber (\<lambda>ss. Some (ss @ [s])) [stream_gain s]"
proof
  fix ss assume "sizes_fit ss"
  then show "Some (ss @ [s]) = None \<longleftrightarrow> overflows ss [stream_gain s]"
    using assms by (auto simp: overflows_def stream_gain_def not_less first_fit)
next
  fix ss ss' n assume n: "Some (ss @ [s]) = Some ss'" "\<not> is_internal_stream n"
  then have "st_name s \<noteq> n" using assms by auto
  with n show "first_size n ss' = first_size n ss + gain_size n [stream_gain s] \<and> first_allocated n ss' = first_allocated n ss + gain_allocated n [stream_gain s]"
    and "(n \<in> st_name ` set ss') = (n \<in> st_name ` set ss \<or> n \<in> fst ` set [stream_gain s])"
    by (auto simp: stream_gain_def first_append_other)
qed (auto simp: sizes_fit_def gains_fit_def stream_gain_def)

interpretation one_stream: stream_absorber "merge_stream s" "[stream_gain s]" for s
proof (cases "is_internal_stream (st_name s)")
  case True
  then have "merge_stream s = (\<lambda>ss. Some (ss @ [s]))" by (simp add: merge_stream_def fun_eq_iff)
  with push_internal_absorbs [OF True] show "stream_absorber (merge_stream s) [stream_gain s]" by simp
next
  case False
  have "stream_absorber (change_first (st_name s) (\<lambda>existing. do {
             sz \<leftarrow> u64_add (st_size existing) (st_size s);
             allocated \<leftarrow> u64_add (st_allocated_size existing) (st_allocated_size s);
             Some (existing\<lparr>st_size := sz, st_allocated_size := allocated,
               st_is_sparse := st_is_sparse existing \<or> st_is_sparse s,
               st_is_compressed := st_is_compressed existing \<or> st_is_compressed s,
               st_is_resident := st_is_resident existing \<and> st_is_resident s\<rparr>)
           }) s) [(st_name s, st_size s, st_allocated_size s)]"
    by (rule change_first_absorbs) (simp_all add: False adds_def u64_add_def u64_check_def)
  with False show "stream_absorber (merge_stream s) [stream_gain s]" by (simp add: merge_stream_def [abs_def] stream_gain_def)
qed

interpretation dir_index: stream_absorber "merge_dir_index e" "dir_gains e" for e
proof (cases "ea_dir_index_size e > 0 \<or> ea_dir_index_allocated e > 0")
  case True
  have "stream_absorber (change_first [] (\<lambda>existing. do {
             sz \<leftarrow> u64_add (st_size existing) (ea_dir_index_size e);
             allocated \<leftarrow> u64_add (st_allocated_size existing) (ea_dir_index_allocated e);
             Some (existing\<lparr>st_size := sz, st_allocated_size := allocated\<rparr>)
           })
           \<lparr>st_name = [], st_size = ea_dir_index_size e, st_allocated_size = ea_dir_index_allocated e, st_is_sparse = False,
            st_is_compressed = False, st_is_resident = (ea_dir_index_allocated e = 0)\<rparr>) [([], ea_dir_index_size e, ea_dir_index_allocated e)]"
    by (rule change_first_absorbs) (simp_all add: is_internal_stream_def adds_def u64_add_def u64_check_def)
  with True show "stream_absorber (merge_dir_index e) (dir_gains e)" by (simp add: merge_dir_index_def [abs_def] dir_gains_def)
next
  case False
  then show "stream_absorber (merge_dir_index e) (dir_gains e)" using absorb_nothing by (simp add: merge_dir_index_def [abs_def] dir_gains_def)
qed

lemma merge_streams_absorbs: "stream_absorber (merge_streams ss) (map stream_gain ss)"
proof (induction ss)
  case Nil
  then show ?case using absorb_nothing by (simp add: merge_streams.simps [abs_def])
next
  case (Cons s ss)
  from absorb_both [OF one_stream.stream_absorber_axioms this, of s] show ?case by (simp add: merge_streams.simps [abs_def])
qed

definition absorb_extension :: "extension_attributes \<Rightarrow> stream_info list \<Rightarrow> stream_info list rust" where
  "absorb_extension e ss = Option.bind (merge_streams (ea_streams e) ss) (merge_dir_index e)"

interpretation extension: stream_absorber "absorb_extension e" "extension_gains e" for e
  using absorb_both [OF merge_streams_absorbs dir_index.stream_absorber_axioms, of "ea_streams e" e]
  by (simp add: absorb_extension_def [abs_def] extension_gains_def)

lemma merge_extension_absorb:
  "merge_extension e base = map_option (\<lambda>ss. base\<lparr>pr_names := pr_names base @ ea_names e, pr_streams := ss\<rparr>) (absorb_extension e (pr_streams base))"
proof (cases "merge_streams (ea_streams e) (pr_streams base)")
  case (Some ss)
  then show ?thesis by (cases "merge_dir_index e ss") (simp_all add: merge_extension_def absorb_extension_def)
qed (simp add: merge_extension_def absorb_extension_def)

section \<open>One record with its extensions\<close>

fun absorb_all :: "extension_attributes list \<Rightarrow> parsed_record \<Rightarrow> parsed_record rust" where
  "absorb_all [] b = Some b"
| "absorb_all (e # es) b = Option.bind (merge_extension e b) (absorb_all es)"

definition gains_of :: "extension_attributes list \<Rightarrow> gain list" where "gains_of es = concat (map extension_gains es)"

fun absorb_streams :: "extension_attributes list \<Rightarrow> stream_info list \<Rightarrow> stream_info list rust" where
  "absorb_streams [] ss = Some ss"
| "absorb_streams (e # es) ss = Option.bind (absorb_extension e ss) (absorb_streams es)"

interpretation extensions: stream_absorber "absorb_streams es" "gains_of es" for es
proof (induction es)
  case Nil
  then show ?case using absorb_nothing by (simp add: absorb_streams.simps [abs_def] gains_of_def)
next
  case (Cons e es)
  from absorb_both [OF extension.stream_absorber_axioms this, of e] show ?case by (simp add: absorb_streams.simps [abs_def] gains_of_def)
qed

lemma absorb_all_streams:
  "absorb_all es b = map_option (\<lambda>ss. b\<lparr>pr_names := pr_names b @ concat (map ea_names es), pr_streams := ss\<rparr>) (absorb_streams es (pr_streams b))"
proof (induction es arbitrary: b)
  case (Cons e es)
  show ?case by (cases "absorb_extension e (pr_streams b)") (simp_all add: merge_extension_absorb Cons)
qed simp

text \<open>Everything of a record but its streams, the sizes of the first stream of each name, and the internal streams,
  each of which counts by itself.\<close>

type_synonym record_view = "parsed_record \<times> (str \<Rightarrow> nat \<times> nat) \<times> stream_info multiset"

abbreviation internals :: "stream_info list \<Rightarrow> stream_info list" where
  "internals \<equiv> filter (\<lambda>s. is_internal_stream (st_name s))"

definition view :: "parsed_record \<Rightarrow> record_view" where
  "view r = (r\<lparr>pr_streams := []\<rparr>,
     \<lambda>n. if is_internal_stream n then (0, 0) else (first_size n (pr_streams r), first_allocated n (pr_streams r)),
     mset (internals (pr_streams r)))"

text \<open>The specification. The names stand in the order of the records they come from, those of one record as they were
  found; a record without a name takes the last of them in a Windows namespace, or the first; each stream has the
  sum of its parts, and the default stream gives the size.\<close>

definition by_source :: "name_info list \<Rightarrow> name_info list" where
  "by_source names = concat (map (\<lambda>k. filter (\<lambda>n. ni_source_frs n = k) names) (sorted_list_of_set (ni_source_frs ` set names)))"

definition filed_under :: "name_info list \<Rightarrow> name_info option" where
  "filed_under names =
     (let windows = filter (\<lambda>n. ni_namespace n \<in> {1, 3}) names in
      if windows \<noteq> [] then Some (last windows) else if names \<noteq> [] then Some (hd names) else None)"

definition named_after :: "name_info option \<Rightarrow> parsed_record \<Rightarrow> parsed_record" where
  "named_after best r =
     (case best of
        None \<Rightarrow> r
      | Some n \<Rightarrow> r\<lparr>pr_name := ni_name n, pr_parent_frs := ni_parent_frs n, pr_namespace := ni_namespace n,
          pr_fn_created := ni_created n, pr_fn_modified := ni_modified n, pr_fn_accessed := ni_accessed n,
          pr_fn_mft_changed := ni_mft_changed n\<rparr>)"

definition merged_view :: "extension_attributes list \<Rightarrow> parsed_record \<Rightarrow> record_view" where
  "merged_view es b =
     (let gs = gains_of es;
          sum = (\<lambda>n. (first_size n (pr_streams b) + gain_size n gs, first_allocated n (pr_streams b) + gain_allocated n gs));
          names = by_source (pr_names b @ concat (map ea_names es));
          named = (if pr_name b = [] then named_after (filed_under names) b else b);
          sized = (if [] \<in> st_name ` set (pr_streams b) \<union> fst ` set gs
                   then named\<lparr>pr_size := fst (sum []), pr_allocated_size := snd (sum [])\<rparr> else named)
      in (sized\<lparr>pr_names := names, pr_streams := []\<rparr>,
          \<lambda>n. if is_internal_stream n then (0, 0) else sum n,
          mset (internals (pr_streams b)) + mset (internals (concat (map ea_streams es)))))"

lemma find_first:
  assumes "find (\<lambda>s. st_name s = n) ss = Some s"
  shows "first_size n ss = st_size s" and "first_allocated n ss = st_allocated_size s" and "n \<in> st_name ` set ss"
  using assms by (induction ss) (auto split: if_splits)

lemma find_first_none: "find (\<lambda>s. st_name s = n) ss = None \<longleftrightarrow> n \<notin> st_name ` set ss"
  by (auto simp: find_None_iff)

lemma finish_streams [simp]: "pr_streams (finish_record r) = pr_streams r"
  by (simp add: finish_record_def Let_def split: option.split)

text \<open>The stable sort of the code is the grouping by source of the specification.\<close>

lemma group_filter:
  assumes "distinct ks"
  shows "filter (\<lambda>x. f x = k) (concat (map (\<lambda>k. filter (\<lambda>x. f x = k) xs) ks)) = (if k \<in> set ks then filter (\<lambda>x. f x = k) xs else [])"
  using assms by (induction ks) (auto simp: filter_empty_conv intro: filter_cong)

lemma group_sorted:
  fixes f :: "'a \<Rightarrow> nat"
  assumes "sorted ks"
  shows "sorted (map f (concat (map (\<lambda>k. filter (\<lambda>x. f x = k) xs) ks)))"
  using assms
proof (induction ks)
  case (Cons k ks)
  have "sorted (map f (filter (\<lambda>x. f x = k) xs))" by (induction xs) auto
  with Cons show ?case by (auto simp: sorted_append)
qed simp

lemma sort_by_source: "sort_key ni_source_frs names = by_source names"
proof (rule properties_for_sort_key)
  let ?ks = "sorted_list_of_set (ni_source_frs ` set names)"
  have group: "filter (\<lambda>n. ni_source_frs n = k) (by_source names) = filter (\<lambda>n. ni_source_frs n = k) names" for k
    unfolding by_source_def by (subst group_filter) (auto simp: eq_commute [of "[]"] filter_empty_conv)
  have "count (mset ns) n = count (mset (filter (\<lambda>m. ni_source_frs m = ni_source_frs n) ns)) n" for ns and n :: name_info by simp
  then show "mset (by_source names) = mset names" by (intro multiset_eqI) (metis group)
  show "filter (\<lambda>x. ni_source_frs k = ni_source_frs x) (by_source names) = filter (\<lambda>x. ni_source_frs k = ni_source_frs x) names" for k
    using group [of "ni_source_frs k"] by (simp add: eq_commute [of "ni_source_frs k"])
  show "sorted (map ni_source_frs (by_source names))" unfolding by_source_def by (rule group_sorted) simp
qed

lemma find_rev: "find P (rev xs) = (if filter P xs = [] then None else Some (last (filter P xs)))"
  by (induction xs rule: rev_induct) auto

lemma best_name_filed: "best_name names = filed_under names"
  unfolding best_name_def filed_under_def find_rev Let_def by (cases names) simp_all

lemma finish_record_view:
  "(finish_record r)\<lparr>pr_streams := []\<rparr> =
     (let names = by_source (pr_names r);
          named = (if pr_name r = [] then named_after (filed_under names) r else r);
          sized = (if [] \<in> st_name ` set (pr_streams r)
                   then named\<lparr>pr_size := first_size [] (pr_streams r), pr_allocated_size := first_allocated [] (pr_streams r)\<rparr> else named)
      in sized\<lparr>pr_names := names, pr_streams := []\<rparr>)"
proof (cases "find (\<lambda>s. st_name s = []) (pr_streams r)")
  case None
  then have "[] \<notin> st_name ` set (pr_streams r)" by (simp only: find_first_none not_False_eq_True)
  with None show ?thesis
    by (cases "filed_under (by_source (pr_names r))")
       (auto simp: finish_record_def sort_by_source best_name_filed named_after_def Let_def filed_under_def split: if_splits)
next
  case (Some s)
  with find_first [OF Some] show ?thesis
    by (cases "filed_under (by_source (pr_names r))")
       (auto simp: finish_record_def sort_by_source best_name_filed named_after_def Let_def filed_under_def split: if_splits)
qed

lemma change_first_internals:
  assumes "change_first n f new ss = Some ss'" and "\<not> is_internal_stream n" and "st_name new = n"
    and "\<And>s s'. f s = Some s' \<Longrightarrow> st_name s' = st_name s"
  shows "internals ss' = internals ss"
  using assms(1)
  by (induction ss arbitrary: ss') (use assms(2-4) in \<open>auto simp: bind_eq_Some_conv split: if_splits\<close>)

lemma merge_stream_internals: "merge_stream s ss = Some ss' \<Longrightarrow> internals ss' = internals ss @ internals [s]"
  by (auto simp: merge_stream_def split: if_splits dest!: change_first_internals)
     (auto simp: bind_eq_Some_conv)

lemma merge_streams_internals: "merge_streams new ss = Some ss' \<Longrightarrow> internals ss' = internals ss @ internals new"
  by (induction new arbitrary: ss) (auto simp: bind_eq_Some_conv dest!: merge_stream_internals)

lemma merge_dir_index_internals: "merge_dir_index e ss = Some ss' \<Longrightarrow> internals ss' = internals ss"
  by (auto simp: merge_dir_index_def is_internal_stream_def bind_eq_Some_conv split: if_splits dest!: change_first_internals)

lemma absorb_streams_internals:
  "absorb_streams es ss = Some ss' \<Longrightarrow> internals ss' = internals ss @ internals (concat (map ea_streams es))"
  by (induction es arbitrary: ss)
     (auto simp: absorb_extension_def bind_eq_Some_conv dest!: merge_streams_internals merge_dir_index_internals)

lemma absorb_all_view:
  assumes "absorb_all es b = Some r"
  shows "view (finish_record r) = merged_view es b"
proof -
  obtain ss where ss: "absorb_streams es (pr_streams b) = Some ss"
    and r: "r = b\<lparr>pr_names := pr_names b @ concat (map ea_names es), pr_streams := ss\<rparr>"
    using assms by (auto simp: absorb_all_streams)
  have "\<not> is_internal_stream []" by (simp add: is_internal_stream_def)
  note default = extensions.absorb_first [OF ss this] extensions.absorb_named [OF ss this]
  have "fst (view (finish_record r)) = fst (merged_view es b)"
    by (simp add: view_def finish_record_view merged_view_def r Let_def default named_after_def split: option.split)
  moreover have "fst (snd (view (finish_record r))) = fst (snd (merged_view es b))"
    using extensions.absorb_first [OF ss] by (auto simp: view_def merged_view_def r Let_def)
  moreover have "snd (snd (view (finish_record r))) = snd (snd (merged_view es b))"
    using absorb_streams_internals [OF ss] by (simp add: view_def merged_view_def r Let_def)
  ultimately show ?thesis by (simp add: prod_eq_iff)
qed

section \<open>All records\<close>

definition settle :: "extension_attributes list \<Rightarrow> nat \<Rightarrow> parsed_record option \<Rightarrow> parsed_record option rust" where
  "settle es k x = (case x of None \<Rightarrow> Some None | Some b \<Rightarrow> map_option Some (absorb_all (filter (\<lambda>e. ea_base_frs e = k) es) b))"

lemma those_conv: "those xs = (if None \<in> set xs then None else Some (map the xs))"
  by (induction xs) (auto split: option.split)

lemma merge_extensions_settle:
  "merge_extensions es brs = those (map (\<lambda>k. settle es k (brs ! k)) [0..<length brs])"
proof (induction es arbitrary: brs)
  case Nil
  have "map (\<lambda>k. settle [] k (brs ! k)) [0..<length brs] = map Some brs"
    by (rule nth_equalityI) (auto simp: settle_def split: option.split)
  then show ?case by (simp add: those_conv comp_def)
next
  case (Cons e es)
  let ?k = "ea_base_frs e"
  show ?case
  proof (cases "?k < length brs \<and> brs ! ?k \<noteq> None")
    case False
    then have "settle (e # es) k (brs ! k) = settle es k (brs ! k)" if "k < length brs" for k
      using that by (auto simp: settle_def split: option.split)
    then have "map (\<lambda>k. settle (e # es) k (brs ! k)) [0..<length brs] = map (\<lambda>k. settle es k (brs ! k)) [0..<length brs]" by simp
    moreover have "merge_extensions (e # es) brs = merge_extensions es brs" using False by (auto simp: vec_get_def split: option.splits)
    ultimately show ?thesis using Cons [of brs] by (simp only:)
  next
    case True
    then obtain b where b: "?k < length brs" "brs ! ?k = Some b" by auto
    have other: "settle (e # es) k (brs ! k) = settle es k (brs[?k := Some b'] ! k)" if "k \<noteq> ?k" for k b'
      using that by (auto simp: settle_def split: option.split)
    show ?thesis
    proof (cases "merge_extension e b")
      case None
      then have "settle (e # es) ?k (brs ! ?k) = None" using b by (simp add: settle_def)
      then have "None \<in> set (map (\<lambda>k. settle (e # es) k (brs ! k)) [0..<length brs])" using b(1) by force
      then show ?thesis using None b by (simp add: vec_get_def those_conv)
    next
      case (Some b')
      then have "settle (e # es) ?k (brs ! ?k) = settle es ?k (brs[?k := Some b'] ! ?k)" using b by (simp add: settle_def)
      then have "map (\<lambda>k. settle (e # es) k (brs ! k)) [0..<length brs] = map (\<lambda>k. settle es k (brs[?k := Some b'] ! k)) [0..<length brs]"
        using other [of _ b'] by (metis (no_types, lifting) map_cong)
      moreover have "merge_extensions (e # es) brs = merge_extensions es (brs[?k := Some b'])" using Some b by (simp add: vec_get_def)
      ultimately show ?thesis using Cons [of "brs[?k := Some b']"] by (simp only: length_list_update)
    qed
  qed
qed

section \<open>Collecting the results\<close>

definition bases :: "parse_result list \<Rightarrow> parsed_record list" where
  "bases rs = concat (map (\<lambda>r. case r of PR_Base b \<Rightarrow> [b] | _ \<Rightarrow> []) rs)"
definition exts :: "parse_result list \<Rightarrow> extension_attributes list" where
  "exts rs = concat (map (\<lambda>r. case r of PR_Extension e \<Rightarrow> [e] | _ \<Rightarrow> []) rs)"

lemma bases_simps [simp]:
  "bases [] = []" "bases (PR_Base b # rs) = b # bases rs" "bases (PR_Extension e # rs) = bases rs" "bases (PR_Skip # rs) = bases rs"
  "exts [] = []" "exts (PR_Base b # rs) = exts rs" "exts (PR_Extension e # rs) = e # exts rs" "exts (PR_Skip # rs) = exts rs"
  by (simp_all add: bases_def exts_def)

definition slot :: "'a option list \<Rightarrow> nat \<Rightarrow> 'a option" where "slot L k = (if k < length L then L ! k else None)"

lemma add_base_slot:
  assumes "pr_frs b < u64_max"
  shows "\<exists>m'. add_result m (PR_Base b) = Some m' \<and> mm_extensions m' = mm_extensions m
    \<and> slot (mm_base_records m') = (slot (mm_base_records m))(pr_frs b \<mapsto> b)"
proof -
  let ?L = "mm_base_records m"
  define base where "base = (if pr_frs b \<ge> length ?L then ?L @ replicate (pr_frs b + 1 - length ?L) None else ?L)"
  have "u64_add (pr_frs b) 1 = Some (pr_frs b + 1)" using assms by (simp add: u64_add_def u64_check_def)
  then have "add_result m (PR_Base b) = Some (m\<lparr>mm_base_records := base[pr_frs b := Some b],
      mm_base_count := (if base ! pr_frs b = None then Suc (mm_base_count m) else mm_base_count m)\<rparr>)"
    by (simp add: add_result_def base_def Let_def)
  moreover have "slot (base[pr_frs b := Some b]) = (slot ?L)(pr_frs b \<mapsto> b)"
    by (auto simp: base_def slot_def fun_eq_iff nth_append nth_list_update)
  ultimately show ?thesis by simp
qed

definition by_frs :: "parsed_record list \<Rightarrow> nat \<rightharpoonup> parsed_record" where "by_frs bs = map_of (map (\<lambda>b. (pr_frs b, b)) bs)"

lemma dom_by_frs: "dom (by_frs bs) = pr_frs ` set bs"
  by (simp add: by_frs_def dom_map_of_conv_image_fst image_image)

lemma add_results_slot:
  assumes "list_all (\<lambda>b. pr_frs b < u64_max) (bases rs)" and "distinct (map pr_frs (bases rs))"
  shows "\<exists>m'. add_results rs m = Some m' \<and> mm_extensions m' = mm_extensions m @ exts rs
    \<and> slot (mm_base_records m') = slot (mm_base_records m) ++ by_frs (bases rs)"
  using assms
proof (induction rs arbitrary: m)
  case (Cons r rs)
  show ?case
  proof (cases r)
    case (PR_Base b)
    with Cons.prems have b: "pr_frs b < u64_max" "list_all (\<lambda>b. pr_frs b < u64_max) (bases rs)" "distinct (map pr_frs (bases rs))"
      "pr_frs b \<notin> dom (by_frs (bases rs))" by (auto simp: dom_by_frs)
    from add_base_slot [OF b(1), of m] obtain m1 where m1: "add_result m (PR_Base b) = Some m1" "mm_extensions m1 = mm_extensions m"
      "slot (mm_base_records m1) = (slot (mm_base_records m))(pr_frs b \<mapsto> b)" by blast
    have "slot (mm_base_records m) ++ by_frs (bases (r # rs)) = (slot (mm_base_records m))(pr_frs b \<mapsto> b) ++ by_frs (bases rs)"
      using b(4) by (simp add: PR_Base by_frs_def map_add_upd_left)
    with Cons.IH [OF b(2,3), of m1] m1 PR_Base show ?thesis by (auto simp: fun_upd_def)
  next
    case (PR_Extension e)
    with Cons.IH [of "m\<lparr>mm_extensions := mm_extensions m @ [e]\<rparr>"] Cons.prems show ?thesis by (auto simp: add_result_def)
  next
    case PR_Skip
    with Cons show ?thesis by (simp add: add_result_def)
  qed
qed (simp add: by_frs_def)

lemma flatten_simps [simp]:
  "flatten [] = []" "flatten (L @ [None]) = flatten L" "flatten (L @ [Some x]) = flatten L @ [x]"
  by (simp_all add: flatten_def)

lemma set_flatten: "set (flatten L) = {x. Some x \<in> set L}"
  by (auto simp: flatten_def split: option.splits)

lemma flatten_keys:
  assumes "\<And>k x. slot L k = Some x \<Longrightarrow> f x = k"
  shows "map f (flatten L) = filter (\<lambda>k. L ! k \<noteq> None) [0..<length L]"
  using assms
proof (induction L rule: rev_induct)
  case (snoc y L)
  have "f x = k" if "slot L k = Some x" for k x using that snoc.prems [of k x] by (auto simp: slot_def nth_append split: if_splits)
  moreover have "f x = length L" if "y = Some x" for x using that snoc.prems [of "length L" x] by (simp add: slot_def)
  moreover have "filter (\<lambda>k. (L @ [y]) ! k \<noteq> None) [0..<length L] = filter (\<lambda>k. L ! k \<noteq> None) [0..<length L]"
    by (rule filter_cong) (auto simp: nth_append)
  ultimately show ?case using snoc.IH by (cases y) auto
qed simp

lemma flatten_map:
  assumes "\<And>k x. slot L k = Some x \<Longrightarrow> f x = k"
  shows "flatten (map (\<lambda>k. map_option (g k) (L ! k)) [0..<length L]) = map (\<lambda>x. g (f x) x) (flatten L)"
  using assms
proof (induction L rule: rev_induct)
  case (snoc y L)
  have keys: "f x = k" if "slot L k = Some x" for k x using that snoc.prems [of k x] by (auto simp: slot_def nth_append split: if_splits)
  have last: "f x = length L" if "y = Some x" for x using that snoc.prems [of "length L" x] by (simp add: slot_def)
  have "map (\<lambda>k. map_option (g k) ((L @ [y]) ! k)) [0..<length L] = map (\<lambda>k. map_option (g k) (L ! k)) [0..<length L]"
    by (rule map_cong) (auto simp: nth_append)
  moreover have "map (\<lambda>k. map_option (g k) ((L @ [y]) ! k)) [0..<length (L @ [y])]
      = map (\<lambda>k. map_option (g k) ((L @ [y]) ! k)) [0..<length L] @ [map_option (g (length L)) y]" by simp
  ultimately have "flatten (map (\<lambda>k. map_option (g k) ((L @ [y]) ! k)) [0..<length (L @ [y])])
      = flatten (map (\<lambda>k. map_option (g k) (L ! k)) [0..<length L] @ [map_option (g (length L)) y])" by (simp only:)
  then show ?case using snoc.IH [OF keys] last by (cases y) auto
qed simp

section \<open>The merge meets its specification\<close>

definition exts_for :: "parse_result list \<Rightarrow> parsed_record \<Rightarrow> extension_attributes list" where
  "exts_for rs b = filter (\<lambda>e. ea_base_frs e = pr_frs b) (exts rs)"

definition results_fit :: "parse_result list \<Rightarrow> bool" where
  "results_fit rs \<longleftrightarrow> list_all (\<lambda>b. pr_frs b < u64_max \<and> sizes_fit (pr_streams b)) (bases rs) \<and> list_all (\<lambda>e. gains_fit (extension_gains e)) (exts rs)"

definition too_large :: "parse_result list \<Rightarrow> bool" where
  "too_large rs = list_ex (\<lambda>b. overflows (pr_streams b) (gains_of (exts_for rs b))) (bases rs)"

definition expected :: "parse_result list \<Rightarrow> record_view list" where
  "expected rs = filter (\<lambda>v. pr_name (fst v) \<noteq> []) (map (\<lambda>b. merged_view (exts_for rs b) b) (sort_key pr_frs (bases rs)))"

lemma gains_of_fit: "list_all (\<lambda>e. gains_fit (extension_gains e)) es \<Longrightarrow> gains_fit (gains_of es)"
  by (auto simp: gains_of_def gains_fit_def list_all_iff)

lemma absorb_all_none:
  assumes "results_fit rs" and "b \<in> set (bases rs)"
  shows "absorb_all (exts_for rs b) b = None \<longleftrightarrow> overflows (pr_streams b) (gains_of (exts_for rs b))"
proof -
  have "gains_fit (gains_of (exts_for rs b))" by (rule gains_of_fit) (use assms in \<open>auto simp: results_fit_def exts_for_def list_all_iff\<close>)
  moreover have "sizes_fit (pr_streams b)" using assms by (auto simp: results_fit_def list_all_iff)
  ultimately show ?thesis using extensions.absorb_none by (simp add: absorb_all_streams)
qed

lemma sort_key_unique:
  fixes f :: "'a \<Rightarrow> 'b :: linorder"
  assumes "distinct (map f xs)" "distinct (map f ys)" "sorted (map f ys)" "set xs = set ys"
  shows "sort_key f xs = ys"
proof (rule map_sorted_distinct_set_unique [where f = f])
  show "inj_on f (set (sort_key f xs) \<union> set ys)" using assms by (simp add: distinct_map)
  show "distinct (map f (sort_key f xs))" using assms(1) by (simp add: distinct_map)
qed (use assms in simp_all)

lemma by_frs_conv:
  assumes "distinct (map pr_frs bs)"
  shows "by_frs bs k = Some b \<longleftrightarrow> b \<in> set bs \<and> pr_frs b = k"
  using assms by (auto simp: by_frs_def map_of_eq_Some_iff comp_def)

lemma flatten_by_frs:
  assumes "slot L = by_frs bs" and dist: "distinct (map pr_frs bs)"
  shows "flatten L = sort_key pr_frs bs"
proof (rule sort_key_unique [symmetric])
  have slot: "slot L k = Some b \<longleftrightarrow> b \<in> set bs \<and> pr_frs b = k" for k b using assms by (simp add: by_frs_conv)
  then have kmap: "map pr_frs (flatten L) = filter (\<lambda>k. L ! k \<noteq> None) [0..<length L]" by (intro flatten_keys) simp
  show "distinct (map pr_frs (flatten L))" "sorted (map pr_frs (flatten L))" unfolding kmap by (simp_all add: sorted_wrt_filter)
  have "b \<in> set (flatten L) \<longleftrightarrow> (\<exists>k. slot L k = Some b)" for b
    by (auto simp: set_flatten slot_def in_set_conv_nth)
  then show "set bs = set (flatten L)" using slot by auto
qed (rule dist)

text \<open>The base records in their table, before the extensions are merged in.\<close>

definition table_of :: "parse_result list \<Rightarrow> parsed_record option list \<Rightarrow> bool" where
  "table_of rs L \<longleftrightarrow> distinct (map pr_frs (bases rs)) \<and> slot L = by_frs (bases rs)"

lemma table_slot: "table_of rs L \<Longrightarrow> slot L k = Some b \<longleftrightarrow> b \<in> set (bases rs) \<and> pr_frs b = k"
  by (simp add: table_of_def by_frs_conv)

lemma table_settle:
  assumes "table_of rs L" and "k < length L"
  shows "settle (exts rs) k (L ! k) = (case L ! k of None \<Rightarrow> Some None | Some b \<Rightarrow> map_option Some (absorb_all (exts_for rs b) b))"
proof (cases "L ! k")
  case (Some b)
  then have "pr_frs b = k" using assms(2) table_slot [OF assms(1), of k b] by (simp add: slot_def)
  with Some show ?thesis by (simp add: settle_def exts_for_def)
qed (simp add: settle_def)

lemma table_none:
  assumes t: "table_of rs L" and fit: "results_fit rs"
  shows "(None \<in> set (map (\<lambda>k. settle (exts rs) k (L ! k)) [0..<length L])) = too_large rs"
proof -
  have "None \<in> set (map (\<lambda>k. settle (exts rs) k (L ! k)) [0..<length L]) \<longleftrightarrow> (\<exists>b \<in> set (flatten L). absorb_all (exts_for rs b) b = None)"
    using table_settle [OF t] by (force simp: set_flatten in_set_conv_nth image_iff split: option.splits)
  also have "\<dots> \<longleftrightarrow> too_large rs"
    using absorb_all_none [OF fit] flatten_by_frs [of L "bases rs"] t by (auto simp: too_large_def list_ex_iff table_of_def)
  finally show ?thesis .
qed

lemma table_settled:
  assumes t: "table_of rs L" and fit: "results_fit rs" and "\<not> too_large rs"
  shows "flatten (map the (map (\<lambda>k. settle (exts rs) k (L ! k)) [0..<length L])) = map (\<lambda>b. the (absorb_all (exts_for rs b) b)) (flatten L)"
proof -
  let ?r = "\<lambda>b. the (absorb_all (exts_for rs b) b)"
  have "the (settle (exts rs) k (L ! k)) = map_option ?r (L ! k)" if k: "k < length L" for k
  proof (cases "L ! k")
    case (Some b)
    then have "b \<in> set (bases rs)" using k table_slot [OF t, of k b] by (simp add: slot_def)
    then obtain r where "absorb_all (exts_for rs b) b = Some r" using assms(3) absorb_all_none [OF fit] by (auto simp: too_large_def list_ex_iff)
    then show ?thesis using Some table_settle [OF t k] by simp
  qed (use table_settle [OF t k] in simp)
  then have "map the (map (\<lambda>k. settle (exts rs) k (L ! k)) [0..<length L]) = map (\<lambda>k. map_option ?r (L ! k)) [0..<length L]" by simp
  moreover have "flatten (map (\<lambda>k. map_option ?r (L ! k)) [0..<length L]) = map ?r (flatten L)"
    by (rule flatten_map [where f = pr_frs]) (use table_slot [OF t] in blast)
  ultimately show ?thesis by (simp only:)
qed

lemma merge_results_meets:
  assumes fit: "results_fit rs" and dist: "distinct (map pr_frs (bases rs))"
  shows "map_option (map view) (merge_results rs) = (if too_large rs then None else Some (expected rs))"
proof -
  from add_results_slot [OF _ dist, of merger_new] fit obtain m where m: "add_results rs merger_new = Some m" "mm_extensions m = exts rs"
    and slots: "slot (mm_base_records m) = by_frs (bases rs)"
    by (auto simp: results_fit_def list_all_iff merger_new_def slot_def [abs_def] map_add_def by_frs_def split: option.splits)
  define L where "L = mm_base_records m"
  have t: "table_of rs L" and flat: "flatten L = sort_key pr_frs (bases rs)"
    using flatten_by_frs [OF _ dist] slots dist by (simp_all add: L_def table_of_def)
  have merged: "merge_results rs = Option.bind (those (map (\<lambda>k. settle (exts rs) k (L ! k)) [0..<length L]))
      (\<lambda>brs. Some (filter (\<lambda>r. pr_name r \<noteq> []) (map finish_record (flatten brs))))"
    by (simp add: merge_results_def m merge_def merge_extensions_settle L_def)
  show ?thesis
  proof (cases "too_large rs")
    case True
    then show ?thesis unfolding merged those_conv table_none [OF t fit] by simp
  next
    case False
    let ?r = "\<lambda>b. the (absorb_all (exts_for rs b) b)"
    have "map_option (map view) (merge_results rs) = Some (map view (filter (\<lambda>r. pr_name r \<noteq> []) (map finish_record (map ?r (flatten L)))))"
      unfolding merged those_conv table_none [OF t fit] table_settled [OF t fit False, symmetric] using False by simp
    also have "map view (filter (\<lambda>r. pr_name r \<noteq> []) (map finish_record (map ?r (flatten L))))
        = filter (\<lambda>v. pr_name (fst v) \<noteq> []) (map (\<lambda>b. view (finish_record (?r b))) (flatten L))"
      by (simp add: filter_map comp_def) (simp add: view_def)
    also have "map (\<lambda>b. view (finish_record (?r b))) (flatten L) = map (\<lambda>b. merged_view (exts_for rs b) b) (flatten L)"
      using False absorb_all_none [OF fit] absorb_all_view by (auto simp: flat too_large_def list_ex_iff)
    finally show ?thesis using False by (simp add: expected_def flat)
  qed
qed

text \<open>
  C10. The merger implements its specification: it panics exactly when a stream of some file would grow beyond 64
  bits, and otherwise yields, in the order of their file numbers, the base records that have a name, each with
  the names of its extension records sorted by the record they come from, each stream with the sum of its parts (an
  internal stream by itself), the size of its default stream, and, when it had no name of its own, the last of these
  names in a Windows namespace or the first. File numbers and declared sizes are those of 64-bit fields, and no file
  was read twice.
\<close>

theorem merge_meets_specification:
  assumes "results_fit rs" and "distinct (map pr_frs (bases rs))"
  shows "map_option (map view) (merge_results rs) = (if too_large rs then None else Some (expected rs))"
  by (rule merge_results_meets [OF assms])

section \<open>The order of the results\<close>

definition result_frs :: "parse_result \<Rightarrow> nat option" where
  "result_frs r = (case r of PR_Base b \<Rightarrow> Some (pr_frs b) | PR_Extension e \<Rightarrow> Some (ea_extension_frs e) | PR_Skip \<Rightarrow> None)"

text \<open>Each record was parsed once, and every name knows the record it was found in.\<close>

definition parsed_once :: "parse_result list \<Rightarrow> bool" where
  "parsed_once rs \<longleftrightarrow> distinct (map pr_frs (bases rs) @ map ea_extension_frs (exts rs))
     \<and> list_all (\<lambda>b. list_all (\<lambda>n. ni_source_frs n = pr_frs b) (pr_names b)) (bases rs)
     \<and> list_all (\<lambda>e. list_all (\<lambda>n. ni_source_frs n = ea_extension_frs e) (ea_names e)) (exts rs)"

lemma mset_concat_map:
  assumes "mset xs = mset ys"
  shows "mset (concat (map f xs)) = mset (concat (map f ys))"
proof -
  have "mset (concat (map f zs)) = sum_mset (image_mset (\<lambda>x. mset (f x)) (mset zs))" for zs by (induction zs) auto
  then show ?thesis using assms by simp
qed

lemma distinct_map_mset: "mset xs = mset ys \<Longrightarrow> distinct (map f xs) = distinct (map f ys)"
  using mset_eq_setD [of xs ys] mset_eq_imp_distinct_iff [of xs ys] by (simp add: distinct_map)

lemma mset_bases: "mset rs = mset rs' \<Longrightarrow> mset (bases rs) = mset (bases rs')"
  unfolding bases_def by (rule mset_concat_map)

lemma mset_exts: "mset rs = mset rs' \<Longrightarrow> mset (exts rs) = mset (exts rs')"
  unfolding exts_def by (rule mset_concat_map)

lemma mset_exts_for: "mset rs = mset rs' \<Longrightarrow> mset (exts_for rs b) = mset (exts_for rs' b)"
  using mset_exts [of rs rs'] by (simp add: exts_for_def)

lemma gains_of_mset: "mset es = mset es' \<Longrightarrow> mset (gains_of es) = mset (gains_of es')"
  unfolding gains_of_def by (rule mset_concat_map)

text \<open>The names of one source stand together, so the stable sort does not see the order of the extensions.\<close>

lemma names_of_source:
  assumes "distinct (map ea_extension_frs es)" and "\<forall>e \<in> set es. \<forall>n \<in> set (ea_names e). ni_source_frs n = ea_extension_frs e"
  shows "filter (\<lambda>n. ni_source_frs n = k) (concat (map ea_names es))
    = (case find (\<lambda>e. ea_extension_frs e = k) es of None \<Rightarrow> [] | Some e \<Rightarrow> ea_names e)"
  using assms
proof (induction es)
  case (Cons e es)
  have e: "filter (\<lambda>n. ni_source_frs n = k) (ea_names e) = (if ea_extension_frs e = k then ea_names e else [])"
    using Cons.prems(2) by (auto simp: filter_id_conv filter_empty_conv)
  show ?case
  proof (cases "ea_extension_frs e = k")
    case True
    then have "find (\<lambda>e. ea_extension_frs e = k) es = None" using Cons.prems(1) by (auto simp: find_None_iff) (metis image_eqI)
    then show ?thesis using Cons True e by simp
  next
    case False
    then show ?thesis using Cons e by simp
  qed
qed simp

lemma find_mset:
  assumes "mset xs = mset ys" and "distinct (map f xs)"
  shows "find (\<lambda>x. f x = k) xs = find (\<lambda>x. f x = k) ys"
proof -
  have "distinct (map f ys)" using assms(2) distinct_map_mset [OF assms(1), of f] by simp
  moreover have "find (\<lambda>x. f x = k) zs = Some z \<longleftrightarrow> z \<in> set zs \<and> f z = k" if "distinct (map f zs)" for zs z
    using that by (induction zs) auto
  ultimately have "find (\<lambda>x. f x = k) xs = Some z \<longleftrightarrow> find (\<lambda>x. f x = k) ys = Some z" for z
    using assms mset_eq_setD [OF assms(1)] by simp
  then show ?thesis by (metis not_None_eq)
qed

lemma sorted_names_mset:
  assumes "mset es = mset es'" and "distinct (map ea_extension_frs es)"
    and "\<forall>e \<in> set es. \<forall>n \<in> set (ea_names e). ni_source_frs n = ea_extension_frs e"
  shows "sort_key ni_source_frs (names @ concat (map ea_names es)) = sort_key ni_source_frs (names @ concat (map ea_names es'))"
proof (rule properties_for_sort_key)
  have es': "distinct (map ea_extension_frs es')" "\<forall>e \<in> set es'. \<forall>n \<in> set (ea_names e). ni_source_frs n = ea_extension_frs e"
    using assms(2,3) distinct_map_mset [OF assms(1), of ea_extension_frs] mset_eq_setD [OF assms(1)] by simp_all
  have "mset (concat (map ea_names es)) = mset (concat (map ea_names es'))"
    by (rule mset_concat_map [OF assms(1)])
  then show "mset (sort_key ni_source_frs (names @ concat (map ea_names es'))) = mset (names @ concat (map ea_names es))" by simp
  have same: "filter (\<lambda>n. ni_source_frs n = k) (concat (map ea_names es')) = filter (\<lambda>n. ni_source_frs n = k) (concat (map ea_names es))" for k
    using names_of_source [OF assms(2,3)] names_of_source [OF es'] find_mset [OF assms(1,2)] by simp
  show "filter (\<lambda>x. ni_source_frs n = ni_source_frs x) (sort_key ni_source_frs (names @ concat (map ea_names es')))
      = filter (\<lambda>x. ni_source_frs n = ni_source_frs x) (names @ concat (map ea_names es))" for n
    using same [of "ni_source_frs n"] sort_key_stable [of ni_source_frs "ni_source_frs n" "names @ concat (map ea_names es')"]
    by (simp add: eq_commute [of "ni_source_frs n"])
qed simp

lemma merged_view_mset:
  assumes "mset es = mset es'" and "distinct (map ea_extension_frs es)"
    and "\<forall>e \<in> set es. \<forall>n \<in> set (ea_names e). ni_source_frs n = ea_extension_frs e"
  shows "merged_view es b = merged_view es' b"
proof -
  note g = gains_of_mset [OF assms(1)]
  show ?thesis
    unfolding merged_view_def Let_def gain_mset [OF g] mset_eq_setD [OF g] sort_by_source [symmetric] sorted_names_mset [OF assms]
    using mset_concat_map [OF assms(1), of ea_streams] by simp
qed

lemma parsed_once_exts:
  assumes "parsed_once rs"
  shows "distinct (map ea_extension_frs (exts_for rs b))"
    and "\<forall>e \<in> set (exts_for rs b). \<forall>n \<in> set (ea_names e). ni_source_frs n = ea_extension_frs e"
  using assms by (auto simp: parsed_once_def exts_for_def list_all_iff distinct_map_filter)

text \<open>
  C11. The order in which the readers deliver their results does not matter: any two orders of the same results
  merge to the same records, in the same order, with the same names in the same order, the same primary name and
  the same sizes of all streams.
\<close>

theorem merge_order_irrelevant:
  assumes "mset rs = mset rs'" and "results_fit rs" and "parsed_once rs"
  shows "map_option (map view) (merge_results rs) = map_option (map view) (merge_results rs')"
proof -
  have dist: "distinct (map pr_frs (bases rs))" using assms(3) by (simp add: parsed_once_def)
  then have dist': "distinct (map pr_frs (bases rs'))"
    using distinct_map_mset [OF mset_bases [OF assms(1)], of pr_frs] by simp
  have sets: "set (bases rs) = set (bases rs')" "set (exts rs) = set (exts rs')"
    using mset_eq_setD [OF mset_bases [OF assms(1)]] mset_eq_setD [OF mset_exts [OF assms(1)]] by simp_all
  then have "results_fit rs'" using assms(2) by (simp add: results_fit_def list_all_iff)
  moreover have "too_large rs = too_large rs'"
    using gain_mset [OF gains_of_mset [OF mset_exts_for [OF assms(1)]]] sets by (simp add: too_large_def overflows_def list_ex_iff)
  moreover have "sort_key pr_frs (bases rs) = sort_key pr_frs (bases rs')"
    by (rule sort_key_unique) (use dist dist' sets in \<open>simp_all add: distinct_map\<close>)
  moreover have "merged_view (exts_for rs b) b = merged_view (exts_for rs' b) b" for b
    by (rule merged_view_mset [OF mset_exts_for [OF assms(1)] parsed_once_exts [OF assms(3)]])
  ultimately show ?thesis using merge_results_meets [OF assms(2) dist] merge_results_meets [OF _ dist'] by (simp add: expected_def)
qed

section \<open>Placeholders\<close>

definition parents_known :: "parsed_record list \<Rightarrow> bool" where
  "parents_known rs = list_all (\<lambda>r. pr_parent_frs r \<in> set (map pr_frs rs) \<or> pr_parent_frs r = 0 \<or> pr_parent_frs r = 5) rs"

lemma missing_none: "missing_parents rs = [] \<longleftrightarrow> parents_known rs"
  by (auto simp: missing_parents_def parents_known_def list_all_iff filter_empty_conv)

lemma placeholder_fields [simp]: "pr_frs (create_placeholder_record f) = f" "pr_parent_frs (create_placeholder_record f) = 5"
  by (simp_all add: create_placeholder_record_def)

lemma placed_known:
  assumes "set missing = set (missing_parents rs)"
  shows "parents_known (rs @ map create_placeholder_record missing)"
  using assms by (auto simp: parents_known_def list_all_iff missing_parents_def)

text \<open>
  C36. The placeholders settle in one round: afterwards the parent of every record is known or is the root or
  record 0, one placeholder was added for each missing parent and none twice, and adding placeholders again adds
  nothing. The limit of ten rounds is never met.
\<close>

theorem placeholders_complete:
  assumes "\<And>xs. mset (hash_order xs) = mset xs"
  shows "\<exists>missing. add_missing_parent_placeholders_to_vec hash_order rs = (length missing, rs @ map create_placeholder_record missing)
    \<and> distinct missing \<and> set missing = set (missing_parents rs) \<and> parents_known (rs @ map create_placeholder_record missing)
    \<and> add_missing_parent_placeholders_to_vec hash_order (rs @ map create_placeholder_record missing) = (0, rs @ map create_placeholder_record missing)"
proof -
  define missing where "missing = hash_order (missing_parents rs)"
  define out where "out = rs @ map create_placeholder_record missing"
  have ms: "mset missing = mset (missing_parents rs)" using assms by (simp add: missing_def)
  have m: "set missing = set (missing_parents rs)" "distinct missing"
    using mset_eq_setD [OF ms] mset_eq_imp_distinct_iff [OF ms] by (simp_all add: missing_parents_def)
  have known: "parents_known out" unfolding out_def by (rule placed_known [OF m(1)])
  have ten: "MAX_ITERATIONS = Suc (Suc 8)" by (simp add: MAX_ITERATIONS_def)
  have "hash_order [] = []" using assms [of "[]"] by simp
  then have stop: "insert_missing_parents hash_order out = (0, out)"
    using known missing_none [of out] by (simp add: insert_missing_parents_def)
  then have again: "placeholder_rounds hash_order (Suc k) n out = (n, out)" for k n by simp
  have "insert_missing_parents hash_order rs = (if missing = [] then (0, rs) else (length missing, out))"
    by (simp add: insert_missing_parents_def missing_def [symmetric] out_def Let_def)
  then have "placeholder_rounds hash_order (Suc (Suc k)) 0 rs = (length missing, out)" for k
    using again by (simp add: out_def)
  then show ?thesis using m known again
    unfolding add_missing_parent_placeholders_to_vec_def ten by (intro exI [of _ missing]) (simp only: out_def [symmetric] simp_thms)
qed

section \<open>Witnesses\<close>

definition demo_stream :: "nat \<Rightarrow> stream_info" where
  "demo_stream n = \<lparr>st_name = [], st_size = n, st_allocated_size = n, st_is_sparse = False, st_is_compressed = False, st_is_resident = False\<rparr>"

definition demo_name :: "nat \<Rightarrow> nat \<Rightarrow> name_info" where
  "demo_name c src = \<lparr>ni_name = [c], ni_parent_frs = 5, ni_namespace = 1, ni_created = 0, ni_modified = 0, ni_accessed = 0, ni_mft_changed = 0,
     ni_source_frs = src\<rparr>"

definition demo_base :: parsed_record where
  "demo_base = parsed_record_default\<lparr>pr_frs := 2, pr_streams := [demo_stream 3]\<rparr>"

definition demo_extension :: "nat \<Rightarrow> nat \<Rightarrow> extension_attributes" where
  "demo_extension c frs = \<lparr>ea_base_frs = 2, ea_extension_frs = frs, ea_names = [demo_name c frs], ea_streams = [demo_stream 4],
     ea_dir_index_size = 0, ea_dir_index_allocated = 0\<rparr>"

definition demo_results :: "parse_result list" where
  "demo_results = [PR_Extension (demo_extension 0x62 41), PR_Base demo_base, PR_Extension (demo_extension 0x61 40)]"

lemma demo_fits: "results_fit demo_results \<and> parsed_once demo_results"
  by (simp add: demo_results_def results_fit_def parsed_once_def demo_base_def demo_extension_def demo_stream_def demo_name_def
      parsed_record_default_def sizes_fit_def gains_fit_def extension_gains_def stream_gain_def dir_gains_def u64_max_def)

lemma demo_merged:
  "map_option (map (\<lambda>r. (map ni_name (pr_names r), pr_size r))) (merge_results demo_results) = Some [([[0x61], [0x62]], 11)]"
proof -
  have r: "replicate 3 None = [None, None, None :: parsed_record option]" by (simp add: numeral_eq_Suc)
  have i: "\<not> is_internal_stream []" by (simp add: is_internal_stream_def)
  have "add_results demo_results merger_new = Some \<lparr>mm_base_records = [None, None, Some demo_base],
      mm_extensions = [demo_extension 0x62 41, demo_extension 0x61 40], mm_base_count = 1\<rparr>"
    by (simp add: demo_results_def merger_new_def add_result_def Let_def demo_base_def u64_add_def u64_check_def u64_max_def r)
  moreover have "merge_extension (demo_extension c f) (demo_base\<lparr>pr_names := ns, pr_streams := [demo_stream k]\<rparr>)
      = Some (demo_base\<lparr>pr_names := ns @ [demo_name c f], pr_streams := [demo_stream (k + 4)]\<rparr>)" if "k < 10" for c f k ns
    using that i by (simp add: merge_extension_def demo_extension_def demo_stream_def merge_stream_def merge_dir_index_def u64_add_def u64_check_def u64_max_def)
  note e = this
  have "merge_extensions [demo_extension 0x62 41, demo_extension 0x61 40] [None, None, Some demo_base]
      = Some [None, None, Some (demo_base\<lparr>pr_names := [demo_name 0x62 41, demo_name 0x61 40], pr_streams := [demo_stream 11]\<rparr>)]"
    using e [of 3 "0x62" 41 "[]"] e [of 7 "0x61" 40 "[demo_name 0x62 41]"]
    by (simp add: vec_get_def demo_extension_def demo_base_def parsed_record_default_def)
  ultimately show ?thesis
    by (simp add: merge_results_def merge_def flatten_def finish_record_def best_name_def demo_base_def demo_name_def demo_stream_def
        parsed_record_default_def Let_def)
qed

theorem merge_meets_specification_witness: "map_option (map view) (merge_results demo_results) = Some (expected demo_results)"
proof -
  have "merge_results demo_results \<noteq> None" using demo_merged by auto
  with merge_meets_specification [of demo_results] demo_fits show ?thesis by (auto simp: parsed_once_def split: if_splits)
qed

theorem merge_order_irrelevant_witness:
  "map_option (map view) (merge_results demo_results) = map_option (map view) (merge_results (rev demo_results)) \<and> merge_results demo_results \<noteq> None"
  using merge_order_irrelevant [of demo_results "rev demo_results"] demo_fits demo_merged by auto

theorem placeholders_complete_witness:
  "fst (add_missing_parent_placeholders_to_vec rev [demo_base\<lparr>pr_parent_frs := 7\<rparr>, demo_base\<lparr>pr_parent_frs := 9\<rparr>]) = 2"
proof -
  let ?rs = "[demo_base\<lparr>pr_parent_frs := 7\<rparr>, demo_base\<lparr>pr_parent_frs := 9\<rparr>]"
  obtain missing where "add_missing_parent_placeholders_to_vec rev ?rs = (length missing, ?rs @ map create_placeholder_record missing)"
    "distinct missing" "set missing = set (missing_parents ?rs)"
    using placeholders_complete [of rev ?rs] by auto
  moreover have "missing_parents ?rs = [7, 9]" by (simp add: missing_parents_def demo_base_def parsed_record_default_def)
  ultimately show ?thesis using distinct_card [of missing] by simp
qed

end
