(* ===== verification/Index_Build.thy ===== *)
theory Index_Build
  imports Tree_Metrics Mft_Merge
begin

text \<open>
  The index built from parsed records (\<open>crates/uffs-mft/src/index/builder.rs\<close>) and its extension index
  (\<open>index/extensions.rs\<close>): every record is filed with its names, streams and directory entries, then the
  extension index is built, the directories are sorted and the tree metrics computed. Timing and logging are
  left out.
\<close>

section \<open>Filing a record\<close>

definition count_parsed :: "parsed_record \<Rightarrow> mft_stats \<Rightarrow> mft_stats rust" where
  "count_parsed p s = do {
     records \<leftarrow> u32_inc (ms_record_count s);
     text_bytes \<leftarrow> u64_add (ms_total_name_bytes s) (length (utf8_of (pr_name p)));
     dirs \<leftarrow> inc_if (pr_is_directory p) (ms_dir_count s);
     files \<leftarrow> inc_if (\<not> pr_is_directory p) (ms_file_count s);
     multi \<leftarrow> inc_if (length (pr_names p) > 1) (ms_multi_name_count s);
     ads \<leftarrow> inc_if (length (pr_streams p) > 1) (ms_ads_count s);
     metafiles \<leftarrow> inc_if (system_frs (pr_frs p)) (ms_system_metafile_count s);
     sys_children \<leftarrow> inc_if (system_frs (pr_parent_frs p)) (ms_system_child_count s);
     Some (s\<lparr>ms_record_count := records, ms_total_name_bytes := text_bytes,
             ms_max_frs := (if pr_frs p > ms_max_frs s then pr_frs p else ms_max_frs s), ms_dir_count := dirs,
             ms_file_count := files, ms_multi_name_count := multi, ms_ads_count := ads,
             ms_system_metafile_count := metafiles, ms_system_child_count := sys_children\<rparr>)
   }"

text \<open>A name goes into the buffer and its extension into the table; the reference packs both.\<close>

definition store_name :: "(bytes \<Rightarrow> bytes) \<Rightarrow> bytes \<Rightarrow> mft_index \<Rightarrow> index_name_ref \<times> mft_index" where
  "store_name lower bs ix =
     (case add_name_bytes bs ix of (offset, ix1) \<Rightarrow>
      case index_intern_extension lower bs ix1 of (ext_id, ix2) \<Rightarrow>
      (name_ref_new offset (len_to_u16 (length bs)) (is_ascii_bytes bs) ext_id, ix2))"

definition stream_flags :: "stream_info \<Rightarrow> u8" where
  "stream_flags st = of_bool (st_is_sparse st) OR push_bit 1 (of_bool (st_is_resident st))"

definition first_stream_of :: "parsed_record \<Rightarrow> index_stream_info \<Rightarrow> index_stream_info" where
  "first_stream_of p s =
     (if pr_is_directory p then s\<lparr>is_size := \<lparr>sz_length = pr_size p, sz_allocated = pr_allocated_size p\<rparr>\<rparr>
      else case List.find (\<lambda>st. st_name st = []) (pr_streams p) of
             Some d \<Rightarrow> s\<lparr>is_size := \<lparr>sz_length = st_size d, sz_allocated = st_allocated_size d\<rparr>, is_flags := is_flags s OR stream_flags d\<rparr>
           | None \<Rightarrow>
               if pr_streams p \<noteq> [] then s\<lparr>is_size := \<lparr>sz_length = pr_size p, sz_allocated = pr_allocated_size p\<rparr>\<rparr> else s)"

definition fill_record :: "parsed_record \<Rightarrow> index_name_ref \<Rightarrow> file_record \<Rightarrow> file_record" where
  "fill_record p name r =
     set_forensic_flags (pr_is_deleted p) (pr_is_corrupt p) (pr_is_extension p)
       (r\<lparr>fr_sequence_number := pr_sequence_number p, fr_lsn := pr_lsn p, fr_namespace := pr_namespace p,
          fr_fn_created := pr_fn_created p, fr_fn_modified := pr_fn_modified p, fr_fn_accessed := pr_fn_accessed p,
          fr_fn_mft_changed := pr_fn_mft_changed p,
          fr_stdinfo := set_directory (pr_is_directory p) (from_extended (pr_std_info p)),
          fr_first_name := (fr_first_name r)\<lparr>li_name := name, li_parent_frs := pr_parent_frs p\<rparr>,
          fr_reparse_tag := pr_reparse_tag p, fr_base_frs := pr_base_frs p,
          fr_first_stream := first_stream_of p (fr_first_stream r)\<rparr>)"

definition additional_names :: "parsed_record \<Rightarrow> name_info list" where
  "additional_names p = filter (\<lambda>n. \<not> (ni_name n = pr_name p \<and> ni_parent_frs n = pr_parent_frs p)) (pr_names p)"

fun add_links :: "(bytes \<Rightarrow> bytes) \<Rightarrow> name_info list \<Rightarrow> nat \<Rightarrow> mft_index \<Rightarrow> nat \<times> mft_index" where
  "add_links lower [] prev_link_idx ix = (prev_link_idx, ix)"
| "add_links lower (n # ns) prev_link_idx ix =
     (case store_name lower (utf8_of (ni_name n)) ix of (name, ix1) \<Rightarrow>
      add_links lower ns (len_to_u32 (length (mi_links ix1)))
        (ix1\<lparr>mi_links := mi_links ix1 @ [\<lparr>li_next_entry = prev_link_idx, li_name = name, li_parent_frs = ni_parent_frs n\<rparr>]\<rparr>))"

record stream_split =
  ss_size :: nat
  ss_allocated :: nat
  ss_first :: nat
  ss_last :: nat
  ss_named :: "stream_info list"
  ss_index :: mft_index

definition split_stream :: "stream_info \<Rightarrow> stream_split \<Rightarrow> stream_split rust" where
  "split_stream st s =
     (if st_name st = [] then Some s
      else if is_internal_stream (st_name st) then do {
        let ix = ss_index s;
        let new_idx = len_to_u32 (length (mi_internal_streams ix));
        let pushed = mi_internal_streams ix
              @ [\<lparr>in_size = \<lparr>sz_length = st_size st, sz_allocated = st_allocated_size st\<rparr>, in_next_entry = NO_ENTRY, in_flags = stream_flags st\<rparr>];
        linked_in \<leftarrow> (if ss_last s = NO_ENTRY then Some pushed
                     else if ss_last s < length pushed
                     then Some (pushed[ss_last s := (pushed ! ss_last s)\<lparr>in_next_entry := new_idx\<rparr>]) else None);
        Some (s\<lparr>ss_size := u64_sat_add (ss_size s) (st_size st), ss_allocated := u64_sat_add (ss_allocated s) (st_allocated_size st),
                ss_first := (if ss_last s = NO_ENTRY then new_idx else ss_first s), ss_last := new_idx,
                ss_index := ix\<lparr>mi_internal_streams := linked_in\<rparr>\<rparr>)
      }
      else Some (s\<lparr>ss_named := ss_named s @ [st]\<rparr>))"

fun split_streams :: "stream_info list \<Rightarrow> stream_split \<Rightarrow> stream_split rust" where
  "split_streams [] s = Some s"
| "split_streams (st # sts) s = do { s' \<leftarrow> split_stream st s; split_streams sts s' }"

fun add_streams :: "stream_info list \<Rightarrow> nat \<Rightarrow> mft_index \<Rightarrow> nat \<times> mft_index" where
  "add_streams [] prev_stream_idx ix = (prev_stream_idx, ix)"
| "add_streams (st # sts) prev_stream_idx ix =
     (case add_name_bytes (utf8_of (st_name st)) ix of (offset, ix1) \<Rightarrow>
      let bs = utf8_of (st_name st) in
      add_streams sts (len_to_u32 (length (mi_streams ix1)))
        (ix1\<lparr>mi_streams := mi_streams ix1
           @ [\<lparr>is_size = \<lparr>sz_length = st_size st, sz_allocated = st_allocated_size st\<rparr>, is_next_entry = prev_stream_idx,
               is_name = name_ref_new offset (len_to_u16 (length bs)) (is_ascii_bytes bs) 0, is_flags = stream_flags st\<rparr>]\<rparr>))"

text \<open>The entry of a child; here indexing the records panics where \<open>add_child_entry\<close> gives up.\<close>

definition builder_child_entry :: "nat \<Rightarrow> nat \<Rightarrow> nat \<Rightarrow> mft_index \<Rightarrow> mft_index rust" where
  "builder_child_entry parent_frs child_frs name_index ix = do {
     (parent_idx, ix1) \<leftarrow> ensure_with file_record_new parent_frs ix;
     if parent_idx < length (mi_records ix1) then add_child_entry parent_frs child_frs name_index ix else None
   }"

fun name_entries :: "nat \<Rightarrow> nat \<Rightarrow> name_info list \<Rightarrow> mft_index \<Rightarrow> mft_index rust" where
  "name_entries frs name_idx [] ix = Some ix"
| "name_entries frs name_idx (n # ns) ix =
     (if ni_parent_frs n = frs \<or> ni_parent_frs n = NO_ENTRY then name_entries frs (Suc name_idx) ns ix
      else do {
        ix' \<leftarrow> builder_child_entry (ni_parent_frs n) frs (len_to_u16 name_idx) ix;
        name_entries frs (Suc name_idx) ns ix'
      })"

definition file_children :: "parsed_record \<Rightarrow> mft_index \<Rightarrow> mft_index rust" where
  "file_children p ix = do {
     ix' \<leftarrow> name_entries (pr_frs p) 0 (pr_names p) ix;
     if pr_names p = [] \<and> pr_parent_frs p \<noteq> pr_frs p \<and> pr_parent_frs p \<noteq> NO_ENTRY
     then builder_child_entry (pr_parent_frs p) (pr_frs p) 0 ix' else Some ix'
   }"

definition is_forensic_record :: "parsed_record \<Rightarrow> bool" where
  "is_forensic_record p \<longleftrightarrow> pr_is_deleted p \<or> pr_is_corrupt p \<or> pr_is_extension p"

definition file_names :: "(bytes \<Rightarrow> bytes) \<Rightarrow> parsed_record \<Rightarrow> mft_index \<Rightarrow> mft_index rust" where
  "file_names lower p ix =
     (case store_name lower (utf8_of (pr_name p)) ix of (name, ix1) \<Rightarrow> do {
        let extra = additional_names p;
        ix2 \<leftarrow> get_or_create (pr_frs p) (fill_record p name) ix1;
        ix3 \<leftarrow> get_or_create (pr_frs p) (\<lambda>r. r\<lparr>fr_name_count := len_to_u16 (1 + length extra)\<rparr>) ix2;
        if extra = [] then Some ix3
        else (case add_links lower (rev extra) NO_ENTRY ix3 of (prev, ix4) \<Rightarrow>
              get_or_create (pr_frs p) (\<lambda>r. r\<lparr>fr_first_name := (fr_first_name r)\<lparr>li_next_entry := prev\<rparr>\<rparr>) ix4)
      })"

definition file_streams :: "parsed_record \<Rightarrow> mft_index \<Rightarrow> mft_index rust" where
  "file_streams p ix = do {
     s \<leftarrow> split_streams (pr_streams p) \<lparr>ss_size = 0, ss_allocated = 0, ss_first = NO_ENTRY, ss_last = NO_ENTRY, ss_named = [], ss_index = ix\<rparr>;
     ix1 \<leftarrow> get_or_create (pr_frs p) (\<lambda>r. r\<lparr>fr_total_stream_count := len_to_u16 (max (length (pr_streams p)) 1),
              fr_stream_count := len_to_u16 (1 + length (ss_named s)), fr_internal_streams_size := ss_size s,
              fr_internal_streams_allocated := ss_allocated s, fr_first_internal_stream := ss_first s\<rparr>) (ss_index s);
     if ss_named s = [] then Some ix1
     else (case add_streams (rev (ss_named s)) NO_ENTRY ix1 of (prev, ix2) \<Rightarrow>
           get_or_create (pr_frs p) (\<lambda>r. r\<lparr>fr_first_stream := (fr_first_stream r)\<lparr>is_next_entry := prev\<rparr>\<rparr>) ix2)
   }"

definition insert_parsed :: "(bytes \<Rightarrow> bytes) \<Rightarrow> parsed_record \<Rightarrow> mft_index \<Rightarrow> mft_index rust" where
  "insert_parsed lower p ix =
     (if \<not> pr_in_use p \<and> \<not> is_forensic_record p then Some ix
      else do {
        stats \<leftarrow> count_parsed p (mi_stats ix);
        ix1 \<leftarrow> file_names lower p (ix\<lparr>mi_stats := stats\<rparr>);
        ix2 \<leftarrow> file_streams p ix1;
        file_children p ix2
      })"

fun file_records :: "(bytes \<Rightarrow> bytes) \<Rightarrow> parsed_record list \<Rightarrow> mft_index \<Rightarrow> mft_index rust" where
  "file_records lower [] ix = Some ix"
| "file_records lower (p # ps) ix = do { ix' \<leftarrow> insert_parsed lower p ix; file_records lower ps ix' }"

section \<open>The extension index\<close>

text \<open>The names of a record that are counted: the first one and, when it has more, the linked ones.\<close>

definition name_ext_ids :: "mft_index \<Rightarrow> file_record \<Rightarrow> nat list rust" where
  "name_ext_ids ix r = do {
     more_ids \<leftarrow> (if fr_name_count r > 1
       then map_option (List.map_filter (\<lambda>i. map_option (\<lambda>l. name_ref_extension_id (li_name l)) (vec_get (mi_links ix) i)))
              (walk li_next_entry (mi_links ix) (li_next_entry (fr_first_name r)))
       else Some []);
     Some (name_ref_extension_id (li_name (fr_first_name r)) # more_ids)
   }"

fun ext_pairs :: "mft_index \<Rightarrow> nat \<Rightarrow> file_record list \<Rightarrow> (nat \<times> nat) list rust" where
  "ext_pairs ix record_idx [] = Some []"
| "ext_pairs ix record_idx (r # rs) = do {
     ids \<leftarrow> name_ext_ids ix r;
     ps \<leftarrow> ext_pairs ix (Suc record_idx) rs;
     Some (map (\<lambda>e. (e, record_idx)) ids @ ps)
   }"

fun running_sums :: "nat \<Rightarrow> nat list \<Rightarrow> nat list rust" where
  "running_sums acc [] = Some [acc]"
| "running_sums acc (c # cs) = (if acc + c \<le> u32_max then map_option (Cons acc) (running_sums (acc + c) cs) else None)"

fun ext_scatter :: "(nat \<times> nat) list \<Rightarrow> nat list \<Rightarrow> nat list \<Rightarrow> nat list rust" where
  "ext_scatter [] write_pos vals = Some vals"
| "ext_scatter ((ext_id, record_idx) # ps) write_pos vals =
     (if ext_id < length write_pos \<and> write_pos ! ext_id < length vals
      then do {
        w \<leftarrow> u32_inc (write_pos ! ext_id);
        ext_scatter ps (write_pos[ext_id := w]) (vals[write_pos ! ext_id := len_to_u32 record_idx])
      }
      else ext_scatter ps write_pos vals)"

definition ext_index_build :: "mft_index \<Rightarrow> csr rust" where
  "ext_index_build ix = do {
     ps \<leftarrow> ext_pairs ix 0 (mi_records ix);
     counts \<leftarrow> csr_count (map (\<lambda>p. Some (fst p)) ps) (replicate (length (et_names (mi_extensions ix))) 0);
     offsets \<leftarrow> running_sums 0 counts;
     vals \<leftarrow> ext_scatter ps offsets (replicate (last offsets) 0);
     Some (offsets, vals)
   }"

definition ext_get_records :: "csr \<Rightarrow> nat \<Rightarrow> nat list" where
  "ext_get_records ix ext_id =
     (case (vec_get (fst ix) ext_id, vec_get (fst ix) (ext_id + 1)) of
        (Some start, Some stop) \<Rightarrow> (case slice_get (snd ix) start stop of None \<Rightarrow> [] | Some rs \<Rightarrow> rs)
      | _ \<Rightarrow> [])"

definition ext_count :: "csr \<Rightarrow> nat \<Rightarrow> nat rust" where
  "ext_count ix ext_id =
     (case (vec_get (fst ix) ext_id, vec_get (fst ix) (ext_id + 1)) of
        (Some start, Some stop) \<Rightarrow> u64_sub stop start
      | _ \<Rightarrow> Some 0)"

definition build_extension_index :: "mft_index \<Rightarrow> mft_index rust" where
  "build_extension_index ix = do { e \<leftarrow> ext_index_build ix; Some (ix\<lparr>mi_extension_index := Some e\<rparr>) }"

section \<open>The whole build\<close>

definition from_parsed_records ::
  "(bytes \<Rightarrow> bytes) \<Rightarrow> nat \<Rightarrow> bool \<Rightarrow> bool \<Rightarrow> u8 \<Rightarrow> parsed_record list \<Rightarrow> mft_index rust"
where
  "from_parsed_records lower now rebuild_always skip_orphans volume records = do {
     ix1 \<leftarrow> file_records lower records (mft_index_new now volume);
     ix2 \<leftarrow> build_extension_index ix1;
     ix3 \<leftarrow> sort_directory_children lower ix2;
     ix4 \<leftarrow> compute_tree_metrics_impl rebuild_always skip_orphans ix3;
     ix5 \<leftarrow> build_extension_index ix4;
     Some (ix5\<lparr>mi_forensic_mode := list_ex is_forensic_record records\<rparr>)
   }"

text \<open>The build that is timed runs the metrics once more over its result, with the records' metrics cleared.\<close>

definition from_parsed_records_with_timing ::
  "(bytes \<Rightarrow> bytes) \<Rightarrow> nat \<Rightarrow> bool \<Rightarrow> bool \<Rightarrow> u8 \<Rightarrow> parsed_record list \<Rightarrow> mft_index rust"
where
  "from_parsed_records_with_timing lower now rebuild_always skip_orphans volume records = do {
     ix \<leftarrow> from_parsed_records lower now rebuild_always skip_orphans volume records;
     compute_tree_metrics_impl rebuild_always skip_orphans (ix\<lparr>mi_records := map (set_metrics 0 0 0) (mi_records ix)\<rparr>)
   }"

section \<open>The extension index is exact\<close>

lemma running_sums_prefix: "acc + sum_list cs \<le> u32_max \<Longrightarrow> running_sums acc cs = Some (csr_prefix acc cs)"
  by (induction cs arbitrary: acc) (simp_all add: u32_sat_add_def)

text \<open>The scatter of pairs is the scatter of positions, read through the pairs.\<close>

lemma ext_scatter_positions:
  "\<forall>i < length ps. f (idx + i) = len_to_u32 (snd (ps ! i)) \<Longrightarrow> idx + length ps \<le> u32_max \<Longrightarrow>
   ext_scatter ps wp (map f vals) = map_option (map f) (csr_scatter idx (map (\<lambda>p. Some (fst p)) ps) wp vals)"
proof (induction ps arbitrary: idx wp vals)
  case (Cons p ps)
  obtain e r where p: "p = (e, r)" by (cases p)
  have "\<forall>i < length ps. f (Suc idx + i) = len_to_u32 (snd (ps ! i))" using Cons.prems(1) by fastforce
  note IH = Cons.IH [OF this]
  have f: "f idx = len_to_u32 r" using Cons.prems(1) p by fastforce
  have upd: "(map f vals)[wp ! e := len_to_u32 r] = map f (vals[wp ! e := idx])" by (simp add: map_update f)
  show ?case
  proof (cases "e < length wp \<and> wp ! e < length vals")
    case True
    then show ?thesis using Cons.prems(2) by (cases "u32_inc (wp ! e)") (simp_all add: p upd IH)
  next
    case False
    then show ?thesis using Cons.prems(2) by (auto simp: p IH)
  qed
qed simp

definition records_of_ext :: "(nat \<times> nat) list \<Rightarrow> nat \<Rightarrow> nat list" where
  "records_of_ext ps e = map snd (filter (\<lambda>p. fst p = e) ps)"

lemma map_positions: "map (\<lambda>i. snd (ps ! i)) (positions (map (\<lambda>p. Some (fst p)) ps) e) = records_of_ext ps e"
proof -
  have "positions (map (\<lambda>p. Some (fst p)) ps) e = filter (\<lambda>i. fst (ps ! i) = e) [0..<length ps]"
    unfolding positions_def by (auto intro: filter_cong)
  then have "map (\<lambda>i. snd (ps ! i)) (positions (map (\<lambda>p. Some (fst p)) ps) e)
      = map snd (map ((!) ps) (filter (\<lambda>i. fst (ps ! i) = e) [0..<length ps]))" by simp
  also have "map ((!) ps) (filter (\<lambda>i. fst (ps ! i) = e) [0..<length ps]) = filter (\<lambda>p. fst p = e) ps"
    using filter_map [of "\<lambda>p. fst p = e" "(!) ps" "[0..<length ps]"] by (simp add: map_nth comp_def)
  finally show ?thesis by (simp add: records_of_ext_def)
qed

lemma ext_index_build_spec:
  assumes ps: "ext_pairs ix 0 (mi_records ix) = Some ps" and len: "length ps \<le> u32_max"
    and small: "\<forall>p \<in> set ps. snd p \<le> u32_max" and n: "n = length (et_names (mi_extensions ix))"
  shows "\<exists>e. ext_index_build ix = Some e \<and> length (fst e) = Suc n
    \<and> (\<forall>k < n. ext_get_records e k = records_of_ext ps k \<and> ext_count e k = Some (length (records_of_ext ps k)))
    \<and> (\<forall>k \<ge> n. ext_get_records e k = [] \<and> ext_count e k = Some 0)"
proof -
  let ?ks = "map (\<lambda>p. Some (fst p)) ps" and ?f = "\<lambda>i. if i < length ps then snd (ps ! i) else 0"
  let ?offs = "csr_prefix 0 (bucket_counts ?ks n)"
  let ?vals = "replicate (last ?offs) (length ps)"
  have lk: "length ?ks \<le> u32_max" using len by simp
  have c: "csr_count ?ks (replicate n 0) = Some (bucket_counts ?ks n)" by (rule csr_counted [OF lk])
  have r: "running_sums 0 (bucket_counts ?ks n) = Some ?offs"
    using running_sums_prefix [of 0] sum_bucket_counts [of ?ks n] len by simp
  obtain vs where vs: "csr_scatter 0 ?ks ?offs ?vals = Some vs"
    "\<And>k. k < n \<Longrightarrow> slice_get vs (?offs ! k) (?offs ! Suc k) = Some (positions ?ks k)"
    using csr_scattered [OF lk, of ?vals n] by auto
  have "\<forall>i < length ps. ?f (0 + i) = len_to_u32 (snd (ps ! i))" using small by simp
  from ext_scatter_positions [OF this, of ?offs ?vals] len vs(1)
  have s: "ext_scatter ps ?offs (replicate (last ?offs) 0) = Some (map ?f vs)" by simp
  have build: "ext_index_build ix = Some (?offs, map ?f vs)"
    unfolding ext_index_build_def ps n [symmetric] Option.bind.simps c r s ..
  have got: "slice_get (map ?f vs) (?offs ! k) (?offs ! Suc k) = Some (records_of_ext ps k)" if "k < n" for k
  proof -
    have "map ?f (positions ?ks k) = map (\<lambda>i. snd (ps ! i)) (positions ?ks k)" by (auto simp: positions_def)
    with vs(2) [OF that] map_positions [of ps k] show ?thesis
      by (auto simp: slice_get_def take_map drop_map split: if_splits)
  qed
  have "ext_get_records (?offs, map ?f vs) k = records_of_ext ps k
      \<and> ext_count (?offs, map ?f vs) k = Some (length (records_of_ext ps k))" if "k < n" for k
  proof -
    have "?offs ! k \<le> ?offs ! Suc k" using got [OF that] by (simp add: slice_get_def split: if_splits)
    with got [OF that] slice_get_length [OF got [OF that]] that show ?thesis
      by (simp add: ext_get_records_def ext_count_def u64_sub_def)
  qed
  moreover have "ext_get_records (?offs, map ?f vs) k = [] \<and> ext_count (?offs, map ?f vs) k = Some 0" if "n \<le> k" for k
  proof -
    have none: "vec_get ?offs (k + 1) = None" using that by simp
    show ?thesis unfolding ext_get_records_def ext_count_def fst_conv none by (simp split: option.splits)
  qed
  ultimately show ?thesis using build by (intro exI [of _ "(?offs, map ?f vs)"]) simp
qed

section \<open>What a vector of linked entries holds\<close>

definition holds :: "('a \<Rightarrow> nat) \<Rightarrow> 'a list \<Rightarrow> nat \<Rightarrow> ('a \<Rightarrow> 'b \<Rightarrow> bool) \<Rightarrow> 'b list \<Rightarrow> bool" where
  "holds nx vs i P ys \<longleftrightarrow>
     (\<exists>xs. linked (\<lambda>i. map_option nx (vec_get vs i)) i xs \<and> list_all2 (\<lambda>x y. P (vs ! x) y) xs ys)"

lemma holds_Nil [simp]: "holds nx vs NO_ENTRY P []"
  by (auto simp: holds_def intro!: exI [of _ "[]"])

lemma holds_mono:
  assumes "holds nx vs i P ys" and "\<And>v y. P v y \<Longrightarrow> Q v y"
  shows "holds nx (vs @ ws) i Q ys"
proof -
  from assms(1) obtain xs where xs: "linked (\<lambda>i. map_option nx (vec_get vs i)) i xs" "list_all2 (\<lambda>x y. P (vs ! x) y) xs ys"
    by (auto simp: holds_def)
  have b: "x < length vs" if "x \<in> set xs" for x using linked_bounded(1) [OF xs(1)] that by auto
  have "linked (\<lambda>i. map_option nx (vec_get (vs @ ws) i)) i xs"
    using xs(1) by (rule linked_cong) (auto simp: vec_get_def nth_append dest: b)
  moreover have "list_all2 (\<lambda>x y. Q ((vs @ ws) ! x) y) xs ys"
    using xs(2) by (rule list.rel_mono_strong) (auto simp: nth_append dest: b assms(2))
  ultimately show ?thesis by (auto simp: holds_def)
qed

lemma holds_push:
  assumes "holds nx vs i P ys" and "nx v = i" and "P v y" and "length vs < u32_max"
  shows "holds nx (vs @ [v]) (length vs) P (y # ys)"
proof -
  from holds_mono [OF assms(1), of P "[v]"] obtain xs where "linked (\<lambda>i. map_option nx (vec_get (vs @ [v]) i)) i xs"
    "list_all2 (\<lambda>x y. P ((vs @ [v]) ! x) y) xs ys" by (auto simp: holds_def)
  with assms show ?thesis by (auto simp: holds_def NO_ENTRY_def intro!: exI [of _ "length vs # xs"])
qed

lemma holds_walk:
  assumes "holds nx vs i P ys"
  obtains xs where "walk nx vs i = Some xs" and "list_all2 (\<lambda>x y. P (vs ! x) y) xs ys" and "set xs \<subseteq> {..<length vs}"
  using assms linked_walk linked_bounded(1) unfolding holds_def by blast

section \<open>Names and extensions in the index\<close>

text \<open>The extension under which a name is filed: what follows the last dot, in lower case.\<close>

definition ext_of :: "(bytes \<Rightarrow> bytes) \<Rightarrow> bytes \<Rightarrow> bytes option" where
  "ext_of lower name =
     (case after_last_dot name of
        None \<Rightarrow> None
      | Some (dot_pos, ext) \<Rightarrow>
          let e = lower (dropWhile (\<lambda>b. b = 0x2E) ext) in
          if dot_pos > 0 \<and> dot_pos < length name - 1 \<and> ext \<noteq> [] \<and> e \<noteq> [] then Some e else None)"

definition ext_table_ok :: "extension_table \<Rightarrow> bool" where
  "ext_table_ok t \<longleftrightarrow> et_names t \<noteq> [] \<and> et_names t ! 0 = [] \<and> length (et_names t) \<le> u16_max
     \<and> (\<forall>e i. et_map t e = Some i \<longleftrightarrow> i < length (et_names t) \<and> et_names t ! i = e)"

lemma ext_table_ok_new [simp]: "ext_table_ok extension_table_new"
  by (auto simp: ext_table_ok_def extension_table_new_def u16_max_def)

lemma ext_table_ok_distinct: "ext_table_ok t \<Longrightarrow> distinct (et_names t)"
  by (auto simp: ext_table_ok_def distinct_conv_nth) (metis option.inject)

lemma table_add:
  assumes "ext_table_ok t" and "et_map t e = None" and "length (et_names t) < u16_max"
  shows "ext_table_ok \<lparr>et_names = et_names t @ [e], et_counts = cs, et_bytes = bs, et_map = (et_map t)(e \<mapsto> length (et_names t))\<rparr>"
proof -
  have iff: "et_map t d = Some i \<longleftrightarrow> i < length (et_names t) \<and> et_names t ! i = d" for d i
    using assms(1) by (simp add: ext_table_ok_def)
  have fresh: "et_names t ! i \<noteq> e" if "i < length (et_names t)" for i
    using iff [of e i] assms(2) that by auto
  have "((et_map t)(e \<mapsto> length (et_names t))) d = Some i
      \<longleftrightarrow> i < length (et_names t @ [e]) \<and> (et_names t @ [e]) ! i = d" for d i
  proof (cases "i < length (et_names t)")
    case True
    with fresh [OF True] iff [of d i] show ?thesis by (auto simp: nth_append)
  next
    case False
    with iff [of d i] show ?thesis by (auto simp: nth_append)
  qed
  with assms show ?thesis by (auto simp: ext_table_ok_def nth_append)
qed

lemma intern_spec:
  assumes "ext_table_ok (mi_extensions ix)" and "length (et_names (mi_extensions ix)) < u16_max"
  shows "\<exists>i t. index_intern_extension lower name ix = (i, ix\<lparr>mi_extensions := t\<rparr>) \<and> ext_table_ok t
    \<and> et_map (mi_extensions ix) \<subseteq>\<^sub>m et_map t
    \<and> set (et_names t) = set (et_names (mi_extensions ix)) \<union> set_option (ext_of lower name)
    \<and> (case ext_of lower name of None \<Rightarrow> i = 0 | Some e \<Rightarrow> et_map t e = Some i \<and> i \<noteq> 0) \<and> i < u16_max"
proof -
  let ?t = "mi_extensions ix"
  have id: "ix\<lparr>mi_extensions := ?t\<rparr> = ix" by simp
  have same: "index_intern_extension lower name ix = (0, ix\<lparr>mi_extensions := ?t\<rparr>)" if none: "ext_of lower name = None"
  proof (cases "after_last_dot name")
    case (Some d)
    obtain pos ext where d: "d = (pos, ext)" by (cases d)
    consider "pos = 0 \<or> length name - 1 \<le> pos" | "ext = []" | "lower (dropWhile (\<lambda>b. b = 0x2E) ext) = []"
      using none Some by (auto simp: ext_of_def Let_def d not_less split: if_splits)
    then show ?thesis
      by cases (auto simp: index_intern_extension_def table_intern_def Some d)
  qed (simp add: index_intern_extension_def)
  show ?thesis
  proof (cases "ext_of lower name")
    case None
    with same assms show ?thesis by (intro exI [of _ 0] exI [of _ ?t]) (simp add: u16_max_def)
  next
    case (Some e)
    then have e: "e \<noteq> []" by (auto simp: ext_of_def Let_def split: option.splits if_splits)
    from Some obtain pos ext where d: "after_last_dot name = Some (pos, ext)" "pos > 0" "pos < length name - 1" "ext \<noteq> []"
      "e = lower (dropWhile (\<lambda>b. b = 0x2E) ext)"
      by (auto simp: ext_of_def Let_def split: option.splits if_splits)
    have run: "index_intern_extension lower name ix =
        (case et_map ?t e of Some i \<Rightarrow> (i, ix\<lparr>mi_extensions := ?t\<rparr>)
         | None \<Rightarrow> (length (et_names ?t), ix\<lparr>mi_extensions := \<lparr>et_names = et_names ?t @ [e], et_counts = et_counts ?t @ [0],
                      et_bytes = et_bytes ?t @ [0], et_map = (et_map ?t)(e \<mapsto> length (et_names ?t))\<rparr>\<rparr>))"
      unfolding index_intern_extension_def d(1) option.case prod.case table_intern_def d(5) [symmetric]
      using d(2-4) e assms(2) by (cases "et_map ?t e") (simp_all add: len_to_u16_def Let_def)
    show ?thesis
    proof (cases "et_map ?t e")
      case None
      let ?t' = "\<lparr>et_names = et_names ?t @ [e], et_counts = et_counts ?t @ [0], et_bytes = et_bytes ?t @ [0],
                   et_map = (et_map ?t)(e \<mapsto> length (et_names ?t))\<rparr>"
      have "index_intern_extension lower name ix = (length (et_names ?t), ix\<lparr>mi_extensions := ?t'\<rparr>)"
        using run None by simp
      moreover have "ext_table_ok ?t'" by (rule table_add [OF assms(1) None assms(2)])
      moreover have "et_map ?t \<subseteq>\<^sub>m et_map ?t'" using None by (auto simp: map_le_def)
      moreover have "et_names ?t \<noteq> []" using assms(1) by (simp add: ext_table_ok_def)
      ultimately show ?thesis using assms(2) \<open>ext_of lower name = Some e\<close>
        by (intro exI [of _ "length (et_names ?t)"] exI [of _ ?t']) simp
    next
      case (Some i)
      then have i: "i < length (et_names ?t)" "et_names ?t ! i = e" using assms(1) by (auto simp: ext_table_ok_def)
      then have "i \<noteq> 0" using e assms(1) by (auto simp: ext_table_ok_def)
      with i run Some \<open>ext_of lower name = Some e\<close> assms show ?thesis
        by (intro exI [of _ i] exI [of _ ?t]) (auto simp: insert_absorb)
    qed
  qed
qed

text \<open>A reference stands for a text in the buffer and for its extension in the table.\<close>

definition text_at :: "bytes \<Rightarrow> index_name_ref \<Rightarrow> bytes \<Rightarrow> bool" where
  "text_at names ref bs \<longleftrightarrow> name_ref_is_valid ref \<and> nr_offset ref + name_ref_length ref \<le> u64_max
     \<and> slice_get names (nr_offset ref) (nr_offset ref + name_ref_length ref) = Some bs"

definition ext_at :: "(bytes \<Rightarrow> bytes) \<Rightarrow> (bytes \<rightharpoonup> nat) \<Rightarrow> index_name_ref \<Rightarrow> bytes \<Rightarrow> bool" where
  "ext_at lower m ref bs \<longleftrightarrow>
     (case ext_of lower bs of None \<Rightarrow> name_ref_extension_id ref = 0
      | Some e \<Rightarrow> m e = Some (name_ref_extension_id ref) \<and> name_ref_extension_id ref \<noteq> 0)"

lemma text_at_read: "text_at (mi_names ix) ref bs \<Longrightarrow> get_name_bytes ix ref = bs"
  by (simp add: text_at_def get_name_bytes_def u64_sat_add_def)

lemma text_at_append: "text_at names ref bs \<Longrightarrow> text_at (names @ extra) ref bs"
  by (auto simp: text_at_def slice_get_def split: if_splits)

lemma ext_at_mono: "ext_at lower m ref bs \<Longrightarrow> m \<subseteq>\<^sub>m m' \<Longrightarrow> ext_at lower m' ref bs"
  by (auto simp: ext_at_def map_le_def dom_def split: option.splits)

lemma nr_offset_new [simp]: "nr_offset (name_ref_new off len asc ext) = off"
  by (simp add: name_ref_new_def)

lemma text_at_new:
  assumes "length names < u32_max" and "length bs < 1024"
  shows "text_at (names @ bs) (name_ref_new (len_to_u32 (length names)) (len_to_u16 (length bs)) asc ext) bs"
  using assms by (simp add: text_at_def name_ref_fields name_ref_is_valid_def NO_ENTRY_def slice_get_def len_to_u16_def rust_limits)

lemma store_name_spec:
  assumes "ext_table_ok (mi_extensions ix)" and "length (et_names (mi_extensions ix)) < u16_max"
    and "length (mi_names ix) < u32_max" and "length bs < 1024"
  shows "\<exists>ref t. store_name lower bs ix = (ref, ix\<lparr>mi_names := mi_names ix @ bs, mi_extensions := t\<rparr>) \<and> ext_table_ok t
    \<and> et_map (mi_extensions ix) \<subseteq>\<^sub>m et_map t
    \<and> set (et_names t) = set (et_names (mi_extensions ix)) \<union> set_option (ext_of lower bs)
    \<and> text_at (mi_names ix @ bs) ref bs \<and> ext_at lower (et_map t) ref bs"
proof -
  let ?ix = "ix\<lparr>mi_names := mi_names ix @ bs\<rparr>"
  obtain i t where s: "index_intern_extension lower bs ?ix = (i, ?ix\<lparr>mi_extensions := t\<rparr>)" "ext_table_ok t"
    "et_map (mi_extensions ix) \<subseteq>\<^sub>m et_map t" "set (et_names t) = set (et_names (mi_extensions ix)) \<union> set_option (ext_of lower bs)"
    "case ext_of lower bs of None \<Rightarrow> i = 0 | Some e \<Rightarrow> et_map t e = Some i \<and> i \<noteq> 0" "i < u16_max"
    using intern_spec [of ?ix lower bs] assms by auto
  let ?ref = "name_ref_new (len_to_u32 (length (mi_names ix))) (len_to_u16 (length bs)) (is_ascii_bytes bs) i"
  have "name_ref_extension_id ?ref = i" using s(6) by (simp add: name_ref_fields u16_max_def)
  with s(5) have "ext_at lower (et_map t) ?ref bs" by (auto simp: ext_at_def split: option.splits)
  with s text_at_new [OF assms(3,4)] show ?thesis
    by (intro exI [of _ ?ref] exI [of _ t]) (simp add: store_name_def add_name_bytes_def)
qed

section \<open>Filing changes one record\<close>

lemma other_fields [simp]:
  "lookup_ok (ix\<lparr>mi_names := n\<rparr>) = lookup_ok ix" "find_record (ix\<lparr>mi_names := n\<rparr>) = find_record ix"
  "lookup_ok (ix\<lparr>mi_links := l\<rparr>) = lookup_ok ix" "find_record (ix\<lparr>mi_links := l\<rparr>) = find_record ix"
  "lookup_ok (ix\<lparr>mi_streams := s\<rparr>) = lookup_ok ix" "find_record (ix\<lparr>mi_streams := s\<rparr>) = find_record ix"
  "lookup_ok (ix\<lparr>mi_internal_streams := i\<rparr>) = lookup_ok ix" "find_record (ix\<lparr>mi_internal_streams := i\<rparr>) = find_record ix"
  "lookup_ok (ix\<lparr>mi_children := c\<rparr>) = lookup_ok ix" "find_record (ix\<lparr>mi_children := c\<rparr>) = find_record ix"
  "lookup_ok (ix\<lparr>mi_extensions := t\<rparr>) = lookup_ok ix" "find_record (ix\<lparr>mi_extensions := t\<rparr>) = find_record ix"
  "lookup_ok (ix\<lparr>mi_stats := st\<rparr>) = lookup_ok ix" "find_record (ix\<lparr>mi_stats := st\<rparr>) = find_record ix"
  by (simp_all add: lookup_ok_def find_record_def fun_eq_iff split: option.splits)

definition record_or_new :: "mft_index \<Rightarrow> nat \<Rightarrow> file_record" where
  "record_or_new ix f = (case find_record ix f of None \<Rightarrow> file_record_new f | Some r \<Rightarrow> r)"

text \<open>The table after one record was asked for and changed to \<open>r\<close>; nothing else of the index changes.\<close>

definition upserted :: "nat \<Rightarrow> file_record \<Rightarrow> mft_index \<Rightarrow> mft_index \<Rightarrow> bool" where
  "upserted f r ix ix' \<longleftrightarrow> lookup_ok ix' \<and> find_record ix' = (find_record ix)(f \<mapsto> r)
     \<and> length (mi_records ix') = length (mi_records ix) + (if find_record ix f = None then 1 else 0)
     \<and> (\<exists>t rs. ix' = ix\<lparr>mi_frs_to_idx := t, mi_records := rs\<rparr>)"

lemma upserted_fields:
  assumes "upserted f r ix ix'"
  shows "mi_names ix' = mi_names ix" "mi_links ix' = mi_links ix" "mi_streams ix' = mi_streams ix"
    "mi_internal_streams ix' = mi_internal_streams ix" "mi_children ix' = mi_children ix" "mi_stats ix' = mi_stats ix"
    "mi_extensions ix' = mi_extensions ix" "lookup_ok ix'" "find_record ix' = (find_record ix)(f \<mapsto> r)"
    "length (mi_records ix') = length (mi_records ix) + (if find_record ix f = None then 1 else 0)"
  using assms by (auto simp: upserted_def)

lemma idx_find_none: "lookup_ok ix \<Longrightarrow> frs_to_idx_opt ix f = None \<longleftrightarrow> find_record ix f = None"
  by (simp add: find_record_idx)

lemma get_or_create_upserted:
  assumes "lookup_ok ix" and "f < u64_max" and "length (mi_records ix) < u32_max" and g: "\<And>r. fr_frs (g r) = fr_frs r"
  shows "\<exists>ix'. get_or_create f g ix = Some ix' \<and> upserted f (g (record_or_new ix f)) ix ix'"
proof -
  obtain ix' where l: "lend_record file_record_new f g ix = Some ix'" "lookup_ok ix'"
    "find_record ix' = (find_record ix)(f \<mapsto> g (record_or_new ix f))"
    using lend_record_spec [OF assms(1-3), of file_record_new g] g by (auto simp: record_or_new_def)
  obtain t i where e: "ensure_with file_record_new f ix = Some (i, extended file_record_new f t ix)"
    using ensure_with_spec [OF assms(1-3), of file_record_new] by auto
  from l(1) e obtain rs where ix': "ix' = (extended file_record_new f t ix)\<lparr>mi_records := rs\<rparr>"
    "length rs = length (mi_records (extended file_record_new f t ix))"
    by (auto simp: lend_record_def Let_def split: if_splits)
  then have "length rs = length (mi_records ix) + (if find_record ix f = None then 1 else 0)"
    using idx_find_none [OF assms(1)] by (auto simp: extended_def)
  moreover have "ix' = ix\<lparr>mi_frs_to_idx := t, mi_records := rs\<rparr>" by (simp add: ix' extended_def)
  ultimately show ?thesis using l by (auto simp: get_or_create_def upserted_def)
qed

text \<open>A known record is changed in place.\<close>

lemma get_or_create_known:
  assumes "lookup_ok ix" and "f < u64_max" and "length (mi_records ix) < u32_max" and "find_record ix f = Some r"
    and "\<And>r. fr_frs (g r) = fr_frs r"
  shows "\<exists>ix'. get_or_create f g ix = Some ix' \<and> upserted f (g r) ix ix' \<and> length (mi_records ix') = length (mi_records ix)"
  using get_or_create_upserted [OF assms(1-3,5)] assms(4) by (auto simp: record_or_new_def upserted_fields(10))

section \<open>Filing the names\<close>

definition tbl :: "bytes set \<Rightarrow> extension_table \<Rightarrow> bool" where
  "tbl E t \<longleftrightarrow> ext_table_ok t \<and> set (et_names t) \<subseteq> E \<and> finite E \<and> card E < u16_max"

lemma tbl_room: "tbl E t \<Longrightarrow> ext_table_ok t" "tbl E t \<Longrightarrow> length (et_names t) < u16_max"
proof -
  assume t: "tbl E t"
  then show "ext_table_ok t" by (simp add: tbl_def)
  from t have "length (et_names t) = card (set (et_names t))" using ext_table_ok_distinct by (simp add: tbl_def distinct_card)
  also have "\<dots> \<le> card E" using t by (auto simp: tbl_def intro: card_mono)
  finally show "length (et_names t) < u16_max" using t by (simp add: tbl_def)
qed

lemma store_name_tbl:
  assumes "tbl E (mi_extensions ix)" and "length (mi_names ix) < u32_max" and "length bs < 1024" and "set_option (ext_of lower bs) \<subseteq> E"
  shows "\<exists>ref t. store_name lower bs ix = (ref, ix\<lparr>mi_names := mi_names ix @ bs, mi_extensions := t\<rparr>) \<and> tbl E t
    \<and> et_map (mi_extensions ix) \<subseteq>\<^sub>m et_map t \<and> text_at (mi_names ix @ bs) ref bs \<and> ext_at lower (et_map t) ref bs"
proof -
  obtain ref t where "store_name lower bs ix = (ref, ix\<lparr>mi_names := mi_names ix @ bs, mi_extensions := t\<rparr>)" "ext_table_ok t"
    "et_map (mi_extensions ix) \<subseteq>\<^sub>m et_map t" "set (et_names t) = set (et_names (mi_extensions ix)) \<union> set_option (ext_of lower bs)"
    "text_at (mi_names ix @ bs) ref bs" "ext_at lower (et_map t) ref bs"
    using store_name_spec [OF tbl_room [OF assms(1)] assms(2,3)] by blast
  with assms show ?thesis by (auto simp: tbl_def)
qed

definition link_is :: "(bytes \<Rightarrow> bytes) \<Rightarrow> bytes \<Rightarrow> (bytes \<rightharpoonup> nat) \<Rightarrow> link_info \<Rightarrow> bytes \<times> nat \<Rightarrow> bool" where
  "link_is lower names m l y \<longleftrightarrow> text_at names (li_name l) (fst y) \<and> ext_at lower m (li_name l) (fst y) \<and> li_parent_frs l = snd y"

lemma link_is_mono: "link_is lower names m l y \<Longrightarrow> m \<subseteq>\<^sub>m m' \<Longrightarrow> link_is lower (names @ extra) m' l y"
  by (auto simp: link_is_def intro: text_at_append ext_at_mono)

definition link_text :: "name_info \<Rightarrow> bytes \<times> nat" where "link_text n = (utf8_of (ni_name n), ni_parent_frs n)"

definition link_bytes :: "name_info list \<Rightarrow> nat" where "link_bytes ns = sum_list (map (\<lambda>n. length (utf8_of (ni_name n))) ns)"

lemma add_links_spec:
  assumes "tbl E (mi_extensions ix)" and "\<forall>n \<in> set ns. length (utf8_of (ni_name n)) < 1024 \<and> set_option (ext_of lower (utf8_of (ni_name n))) \<subseteq> E"
    and "length (mi_names ix) + link_bytes ns < u32_max" and "length (mi_links ix) + length ns < u32_max"
    and "holds li_next_entry (mi_links ix) prev (link_is lower (mi_names ix) (et_map (mi_extensions ix))) ys"
  shows "\<exists>prev' nb ls t. add_links lower ns prev ix
      = (prev', ix\<lparr>mi_names := mi_names ix @ nb, mi_links := mi_links ix @ ls, mi_extensions := t\<rparr>)
    \<and> tbl E t \<and> et_map (mi_extensions ix) \<subseteq>\<^sub>m et_map t \<and> length nb = link_bytes ns \<and> length ls = length ns
    \<and> holds li_next_entry (mi_links ix @ ls) prev' (link_is lower (mi_names ix @ nb) (et_map t)) (map link_text (rev ns) @ ys)"
  using assms
proof (induction ns arbitrary: prev ix ys)
  case Nil
  then show ?case by (intro exI [of _ prev] exI [of _ "[]"] exI [of _ "mi_extensions ix"]) (simp add: link_bytes_def)
next
  case (Cons n ns)
  let ?bs = "utf8_of (ni_name n)"
  obtain ref t where s: "store_name lower ?bs ix = (ref, ix\<lparr>mi_names := mi_names ix @ ?bs, mi_extensions := t\<rparr>)" "tbl E t"
    "et_map (mi_extensions ix) \<subseteq>\<^sub>m et_map t" "text_at (mi_names ix @ ?bs) ref ?bs" "ext_at lower (et_map t) ref ?bs"
    using store_name_tbl [OF Cons.prems(1), of ?bs lower] Cons.prems(2,3) by auto
  let ?l = "\<lparr>li_next_entry = prev, li_name = ref, li_parent_frs = ni_parent_frs n\<rparr>"
  let ?ix = "ix\<lparr>mi_names := mi_names ix @ ?bs, mi_extensions := t, mi_links := mi_links ix @ [?l]\<rparr>"
  let ?P = "link_is lower (mi_names ix @ ?bs) (et_map t)"
  have "holds li_next_entry (mi_links ix @ []) prev ?P ys"
    using Cons.prems(5) by (rule holds_mono) (rule link_is_mono [OF _ s(3)])
  then have "holds li_next_entry (mi_links ix @ [?l]) (length (mi_links ix)) ?P (link_text n # ys)"
    using s Cons.prems(4) by (intro holds_push) (simp_all add: link_is_def link_text_def)
  then have "\<exists>prev' nb ls t'. add_links lower ns (length (mi_links ix)) ?ix
      = (prev', ?ix\<lparr>mi_names := mi_names ?ix @ nb, mi_links := mi_links ?ix @ ls, mi_extensions := t'\<rparr>)
    \<and> tbl E t' \<and> et_map (mi_extensions ?ix) \<subseteq>\<^sub>m et_map t' \<and> length nb = link_bytes ns \<and> length ls = length ns
    \<and> holds li_next_entry (mi_links ?ix @ ls) prev' (link_is lower (mi_names ?ix @ nb) (et_map t')) (map link_text (rev ns) @ link_text n # ys)"
    using s(2) Cons.prems by (intro Cons.IH) (simp_all add: link_bytes_def)
  then obtain prev' nb ls t' where r: "add_links lower ns (length (mi_links ix)) ?ix
      = (prev', ?ix\<lparr>mi_names := mi_names ?ix @ nb, mi_links := mi_links ?ix @ ls, mi_extensions := t'\<rparr>)" "tbl E t'"
    "et_map (mi_extensions ?ix) \<subseteq>\<^sub>m et_map t'" "length nb = link_bytes ns" "length ls = length ns"
    "holds li_next_entry (mi_links ?ix @ ls) prev' (link_is lower (mi_names ?ix @ nb) (et_map t')) (map link_text (rev ns) @ link_text n # ys)"
    by blast
  have "add_links lower (n # ns) prev ix = (prev', ix\<lparr>mi_names := mi_names ix @ ?bs @ nb, mi_links := mi_links ix @ ?l # ls, mi_extensions := t'\<rparr>)"
    using s(1) r(1) Cons.prems(4) by simp
  moreover have "et_map (mi_extensions ix) \<subseteq>\<^sub>m et_map t'" using s(3) r(3) map_le_trans by fastforce
  ultimately show ?case using r
    by (intro exI [of _ prev'] exI [of _ "?bs @ nb"] exI [of _ "?l # ls"] exI [of _ t']) (simp add: link_bytes_def)
qed

definition fits_name :: "(bytes \<Rightarrow> bytes) \<Rightarrow> bytes set \<Rightarrow> str \<Rightarrow> bool" where
  "fits_name lower E name \<longleftrightarrow> length (utf8_of name) < 1024 \<and> set_option (ext_of lower (utf8_of name)) \<subseteq> E"

definition with_names :: "parsed_record \<Rightarrow> index_name_ref \<Rightarrow> nat \<Rightarrow> file_record \<Rightarrow> file_record" where
  "with_names p ref nxt r = (fill_record p ref r)\<lparr>fr_name_count := len_to_u16 (1 + length (additional_names p)),
     fr_first_name := \<lparr>li_next_entry = nxt, li_name = ref, li_parent_frs = pr_parent_frs p\<rparr>\<rparr>"

lemma frs_kept [simp]: "fr_frs (fill_record p ref r) = fr_frs r" "fr_frs (with_names p ref nxt r) = fr_frs r"
  by (simp_all add: fill_record_def set_forensic_flags_def with_names_def)

lemma first_name_filled [simp]:
  "fr_first_name (fill_record p ref r) = (fr_first_name r)\<lparr>li_name := ref, li_parent_frs := pr_parent_frs p\<rparr>"
  by (simp add: fill_record_def set_forensic_flags_def)

definition names_filed :: "(bytes \<Rightarrow> bytes) \<Rightarrow> parsed_record \<Rightarrow> mft_index \<Rightarrow> index_name_ref \<Rightarrow> nat \<Rightarrow> bool" where
  "names_filed lower p ix ref nxt \<longleftrightarrow>
     text_at (mi_names ix) ref (utf8_of (pr_name p)) \<and> ext_at lower (et_map (mi_extensions ix)) ref (utf8_of (pr_name p))
     \<and> holds li_next_entry (mi_links ix) nxt (link_is lower (mi_names ix) (et_map (mi_extensions ix))) (map link_text (additional_names p))"

lemma file_names_spec:
  assumes ok: "lookup_ok ix" "pr_frs p < u64_max" "Suc (length (mi_records ix)) < u32_max" and t: "tbl E (mi_extensions ix)"
    and fits: "fits_name lower E (pr_name p)" "\<forall>n \<in> set (additional_names p). fits_name lower E (ni_name n)"
    and room: "length (mi_names ix) + length (utf8_of (pr_name p)) + link_bytes (additional_names p) < u32_max"
      "length (mi_links ix) + length (additional_names p) < u32_max"
    and fresh: "li_next_entry (fr_first_name (record_or_new ix (pr_frs p))) = NO_ENTRY"
  shows "\<exists>ix' ref nxt nb ls. file_names lower p ix = Some ix' \<and> lookup_ok ix' \<and> names_filed lower p ix' ref nxt
    \<and> find_record ix' = (find_record ix)(pr_frs p \<mapsto> with_names p ref nxt (record_or_new ix (pr_frs p)))
    \<and> length (mi_records ix') = length (mi_records ix) + (if find_record ix (pr_frs p) = None then 1 else 0)
    \<and> mi_names ix' = mi_names ix @ nb \<and> length nb = length (utf8_of (pr_name p)) + link_bytes (additional_names p)
    \<and> mi_links ix' = mi_links ix @ ls \<and> length ls = length (additional_names p)
    \<and> tbl E (mi_extensions ix') \<and> et_map (mi_extensions ix) \<subseteq>\<^sub>m et_map (mi_extensions ix')
    \<and> mi_streams ix' = mi_streams ix \<and> mi_internal_streams ix' = mi_internal_streams ix \<and> mi_children ix' = mi_children ix
    \<and> mi_stats ix' = mi_stats ix"
proof -
  let ?f = "pr_frs p" and ?bs = "utf8_of (pr_name p)" and ?extra = "additional_names p" and ?r0 = "record_or_new ix (pr_frs p)"
  obtain ref u where s: "store_name lower ?bs ix = (ref, ix\<lparr>mi_names := mi_names ix @ ?bs, mi_extensions := u\<rparr>)" "tbl E u"
    "et_map (mi_extensions ix) \<subseteq>\<^sub>m et_map u" "text_at (mi_names ix @ ?bs) ref ?bs" "ext_at lower (et_map u) ref ?bs"
    using store_name_tbl [OF t, of ?bs lower] fits(1) room(1) by (auto simp: fits_name_def)
  let ?ix1 = "ix\<lparr>mi_names := mi_names ix @ ?bs, mi_extensions := u\<rparr>"
  have "record_or_new ?ix1 ?f = ?r0" by (simp add: record_or_new_def)
  then obtain ix2 where i2: "get_or_create ?f (fill_record p ref) ?ix1 = Some ix2" "upserted ?f (fill_record p ref ?r0) ?ix1 ix2"
    using get_or_create_upserted [of ?ix1 ?f "fill_record p ref"] ok by auto
  note u2 = upserted_fields [OF i2(2)]
  let ?g = "\<lambda>r :: file_record. r\<lparr>fr_name_count := len_to_u16 (1 + length ?extra)\<rparr>"
  obtain ix3 where i3: "get_or_create ?f ?g ix2 = Some ix3" "upserted ?f (?g (fill_record p ref ?r0)) ix2 ix3"
    "length (mi_records ix3) = length (mi_records ix2)"
    using get_or_create_known [of ix2 ?f "fill_record p ref ?r0" ?g] u2 ok by (auto split: if_splits)
  note u3 = upserted_fields [OF i3(2)]
  have run: "file_names lower p ix = (if ?extra = [] then Some ix3
      else (case add_links lower (rev ?extra) NO_ENTRY ix3 of (prev, ix4) \<Rightarrow>
            get_or_create ?f (\<lambda>r. r\<lparr>fr_first_name := (fr_first_name r)\<lparr>li_next_entry := prev\<rparr>\<rparr>) ix4))"
    unfolding file_names_def s(1) prod.case i2(1) Let_def Option.bind.simps i3(1) ..
  have base: "length (mi_records ix3) = length (mi_records ix) + (if find_record ix ?f = None then 1 else 0)"
    "find_record ix3 = (find_record ix)(?f \<mapsto> ?g (fill_record p ref ?r0))"
    using u2 u3 by simp_all
  show ?thesis
  proof (cases "?extra = []")
    case True
    have "?g (fill_record p ref ?r0) = with_names p ref NO_ENTRY ?r0"
      using fresh by (simp add: with_names_def True)
    moreover have "names_filed lower p ix3 ref NO_ENTRY"
      using s u2 u3 by (simp add: names_filed_def True)
    ultimately show ?thesis using run base u2 u3 s True
      by (intro exI [of _ ix3] exI [of _ ref] exI [of _ NO_ENTRY] exI [of _ ?bs] exI [of _ "[]"]) (simp add: link_bytes_def)
  next
    case False
    obtain prev nb ls v where l: "add_links lower (rev ?extra) NO_ENTRY ix3
        = (prev, ix3\<lparr>mi_names := mi_names ix3 @ nb, mi_links := mi_links ix3 @ ls, mi_extensions := v\<rparr>)" "tbl E v"
      "et_map u \<subseteq>\<^sub>m et_map v" "length nb = link_bytes (rev ?extra)" "length ls = length ?extra"
      "holds li_next_entry (mi_links ix3 @ ls) prev (link_is lower (mi_names ix3 @ nb) (et_map v)) (map link_text ?extra)"
      using add_links_spec [of E ix3 "rev ?extra" lower NO_ENTRY "[]"] s(2) fits(2) room u2 u3
      by (auto simp: fits_name_def link_bytes_def rev_map [symmetric] simp del: rev_map)
    let ?ix4 = "ix3\<lparr>mi_names := mi_names ix3 @ nb, mi_links := mi_links ix3 @ ls, mi_extensions := v\<rparr>"
    let ?h = "\<lambda>r :: file_record. r\<lparr>fr_first_name := (fr_first_name r)\<lparr>li_next_entry := prev\<rparr>\<rparr>"
    obtain ix5 where i5: "get_or_create ?f ?h ?ix4 = Some ix5" "upserted ?f (?h (?g (fill_record p ref ?r0))) ?ix4 ix5"
      "length (mi_records ix5) = length (mi_records ?ix4)"
      using get_or_create_known [of ?ix4 ?f "?g (fill_record p ref ?r0)" ?h] u3 base ok by (auto split: if_splits)
    note u5 = upserted_fields [OF i5(2)]
    have r: "?h (?g (fill_record p ref ?r0)) = with_names p ref prev ?r0" by (simp add: with_names_def)
    have "names_filed lower p ix5 ref prev"
      using s(4,5) l(3,6) u2 u3 u5 text_at_append [of "mi_names ix @ ?bs" ref ?bs nb] ext_at_mono
      by (simp add: names_filed_def)
    moreover have "et_map (mi_extensions ix) \<subseteq>\<^sub>m et_map v" using map_le_trans [OF s(3) l(3)] .
    moreover have "file_names lower p ix = Some ix5" using run False l(1) i5(1) by simp
    moreover have "link_bytes (rev ?extra) = link_bytes ?extra" by (simp add: link_bytes_def rev_map [symmetric])
    ultimately show ?thesis using base u2 u3 u5 i5(3) l r
      by (intro exI [of _ ix5] exI [of _ ref] exI [of _ prev] exI [of _ "?bs @ nb"] exI [of _ ls]) simp
  qed
qed

section \<open>Filing the streams\<close>

lemma linked_upt:
  "\<forall>j. a \<le> j \<and> j < b \<longrightarrow> nxt j = Some (if Suc j < b then Suc j else NO_ENTRY) \<Longrightarrow> b \<le> u32_max \<Longrightarrow>
   linked nxt (if a < b then a else NO_ENTRY) [a..<b]"
proof (induction "b - a" arbitrary: a)
  case (Suc d)
  then have lt: "a < b" by simp
  have "linked nxt (if Suc a < b then Suc a else NO_ENTRY) [Suc a..<b]" using Suc by (intro Suc.hyps(1)) auto
  with Suc.prems lt show ?case by (simp add: upt_conv_Cons [OF lt] NO_ENTRY_def del: upt_Suc)
qed simp

lemma holds_segment:
  assumes "\<forall>j < length vs. nx (vs ! j) = (if Suc j < length vs then length us + Suc j else NO_ENTRY)"
    and "length us + length vs \<le> u32_max" and "list_all2 P vs ys"
  shows "holds nx (us @ vs) (if vs = [] then NO_ENTRY else length us) P ys"
proof -
  let ?b = "length us + length vs"
  have "map_option nx (vec_get (us @ vs) j) = Some (if Suc j < ?b then Suc j else NO_ENTRY)" if "length us \<le> j" "j < ?b" for j
    using assms(1) [rule_format, of "j - length us"] that by (auto simp: nth_append)
  then have "linked (\<lambda>i. map_option nx (vec_get (us @ vs) i)) (if length us < ?b then length us else NO_ENTRY) [length us..<?b]"
    using assms(2) by (intro linked_upt) auto
  moreover have "list_all2 (\<lambda>x y. P ((us @ vs) ! x) y) [length us..<?b] ys"
    using assms(3) by (auto simp: list_all2_conv_all_nth nth_append)
  ultimately show ?thesis by (auto simp: holds_def split: if_splits)
qed

definition named_streams :: "parsed_record \<Rightarrow> stream_info list" where
  "named_streams p = filter (\<lambda>st. st_name st \<noteq> [] \<and> \<not> is_internal_stream (st_name st)) (pr_streams p)"

definition internal_streams :: "parsed_record \<Rightarrow> stream_info list" where
  "internal_streams p = filter (\<lambda>st. is_internal_stream (st_name st)) (pr_streams p)"

definition stream_size :: "stream_info \<Rightarrow> size_info" where
  "stream_size st = \<lparr>sz_length = st_size st, sz_allocated = st_allocated_size st\<rparr>"

definition sat_sum :: "nat list \<Rightarrow> nat" where "sat_sum xs = min (sum_list xs) u64_max"

lemma sat_sum_snoc [simp]: "u64_sat_add (sat_sum xs) x = sat_sum (xs @ [x])"
  by (auto simp: sat_sum_def u64_sat_add_def)

lemma sat_sum_Nil [simp]: "sat_sum [] = 0" by (simp add: sat_sum_def)

definition internal_is :: "internal_stream_info \<Rightarrow> stream_info \<Rightarrow> bool" where
  "internal_is v st \<longleftrightarrow> in_size v = stream_size st \<and> in_flags v = stream_flags st"

text \<open>The state of the loop after the streams \<open>done\<close>: the internal ones form a list of their own at the end of the vector.\<close>

definition split_inv :: "mft_index \<Rightarrow> stream_info list \<Rightarrow> stream_split \<Rightarrow> bool" where
  "split_inv ix done s \<longleftrightarrow>
     (let ints = filter (\<lambda>st. is_internal_stream (st_name st)) done; us = mi_internal_streams ix in
      ss_named s = filter (\<lambda>st. st_name st \<noteq> [] \<and> \<not> is_internal_stream (st_name st)) done
      \<and> ss_size s = sat_sum (map st_size ints) \<and> ss_allocated s = sat_sum (map st_allocated_size ints)
      \<and> (\<exists>vs. ss_index s = ix\<lparr>mi_internal_streams := us @ vs\<rparr> \<and> list_all2 internal_is vs ints
           \<and> (\<forall>j < length vs. in_next_entry (vs ! j) = (if Suc j < length vs then length us + Suc j else NO_ENTRY))
           \<and> ss_first s = (if vs = [] then NO_ENTRY else length us)
           \<and> ss_last s = (if vs = [] then NO_ENTRY else length us + length vs - 1)))"

lemma internal_not_empty: "is_internal_stream name \<Longrightarrow> name \<noteq> []"
  by (auto simp: is_internal_stream_def)

lemma split_stream_inv:
  assumes "split_inv ix done s" and "length (mi_internal_streams ix) + length done < u32_max"
  shows "\<exists>s'. split_stream st s = Some s' \<and> split_inv ix (done @ [st]) s'"
proof (cases "is_internal_stream (st_name st)")
  case False
  then show ?thesis using assms(1) by (cases "st_name st = []") (auto simp: split_stream_def split_inv_def Let_def)
next
  case True
  let ?us = "mi_internal_streams ix" and ?ints = "filter (\<lambda>st. is_internal_stream (st_name st)) done"
  from assms(1) obtain vs where vs: "ss_index s = ix\<lparr>mi_internal_streams := ?us @ vs\<rparr>" "list_all2 internal_is vs ?ints"
    "\<forall>j < length vs. in_next_entry (vs ! j) = (if Suc j < length vs then length ?us + Suc j else NO_ENTRY)"
    "ss_first s = (if vs = [] then NO_ENTRY else length ?us)" "ss_last s = (if vs = [] then NO_ENTRY else length ?us + length vs - 1)"
    and rest: "ss_named s = filter (\<lambda>st. st_name st \<noteq> [] \<and> \<not> is_internal_stream (st_name st)) done"
      "ss_size s = sat_sum (map st_size ?ints)" "ss_allocated s = sat_sum (map st_allocated_size ?ints)"
    unfolding split_inv_def Let_def by blast
  have len: "length ?us + length vs < u32_max"
    using list_all2_lengthD [OF vs(2)] length_filter_le [of "\<lambda>st. is_internal_stream (st_name st)" "done"] assms(2) by linarith
  let ?v = "\<lparr>in_size = stream_size st, in_next_entry = NO_ENTRY, in_flags = stream_flags st\<rparr>"
  let ?n = "length ?us + length vs"
  define ws where "ws = (if vs = [] then [?v] else (vs[length vs - 1 := (last vs)\<lparr>in_next_entry := ?n\<rparr>]) @ [?v])"
  define s' where "s' = s\<lparr>ss_size := u64_sat_add (ss_size s) (st_size st), ss_allocated := u64_sat_add (ss_allocated s) (st_allocated_size st),
                ss_first := (if vs = [] then ?n else ss_first s), ss_last := ?n,
                ss_index := ix\<lparr>mi_internal_streams := ?us @ ws\<rparr>\<rparr>"
  have step: "split_stream st s = Some s'"
  proof (cases "vs = []")
    case True
    then show ?thesis using \<open>is_internal_stream (st_name st)\<close> len vs
      by (simp add: split_stream_def internal_not_empty Let_def s'_def ws_def stream_size_def)
  next
    case False
    then have last: "ss_last s = length ?us + length vs - 1" "ss_last s \<noteq> NO_ENTRY" using vs(5) len by (auto simp: NO_ENTRY_def)
    from False obtain m where m: "length vs = Suc m" by (cases vs) auto
    have "(?us @ vs @ [?v]) ! (length ?us + length vs - 1) = last vs"
      using False by (simp add: nth_append last_conv_nth m)
    moreover have "(?us @ vs @ [?v])[length ?us + length vs - 1 := (last vs)\<lparr>in_next_entry := ?n\<rparr>] = ?us @ ws"
      using False by (simp add: ws_def list_update_append m)
    ultimately show ?thesis using False \<open>is_internal_stream (st_name st)\<close> len vs last
      by (simp add: split_stream_def internal_not_empty Let_def s'_def stream_size_def)
  qed
  have lw: "length ws = Suc (length vs)" by (simp add: ws_def)
  have "list_all2 internal_is ws (?ints @ [st])"
  proof (cases "vs = []")
    case False
    have "internal_is (last vs) (?ints ! (length vs - 1))"
      using list_all2_nthD [OF vs(2), of "length vs - 1"] False by (simp add: last_conv_nth)
    then have "list_all2 internal_is (vs[length vs - 1 := (last vs)\<lparr>in_next_entry := ?n\<rparr>]) ?ints"
      using list_all2_update_cong [OF vs(2), of "(last vs)\<lparr>in_next_entry := ?n\<rparr>" "?ints ! (length vs - 1)" "length vs - 1"]
      by (simp add: internal_is_def)
    then show ?thesis using False by (simp add: ws_def internal_is_def list_all2_appendI)
  qed (use vs(2) in \<open>simp add: ws_def internal_is_def\<close>)
  moreover have "in_next_entry (ws ! j) = (if Suc j < length ws then length ?us + Suc j else NO_ENTRY)" if "j < length ws" for j
  proof (cases "vs = []")
    case False
    with that vs(3) show ?thesis by (auto simp: ws_def nth_append nth_list_update last_conv_nth)
  qed (use that in \<open>simp add: ws_def\<close>)
  ultimately have "split_inv ix (done @ [st]) s'"
    using rest vs(4) True lw internal_not_empty unfolding split_inv_def Let_def
    by (intro conjI exI [of _ ws]) (auto simp: s'_def)
  with step show ?thesis by blast
qed

lemma split_streams_inv:
  "split_inv ix done s \<Longrightarrow> length (mi_internal_streams ix) + length done + length sts \<le> u32_max \<Longrightarrow>
   \<exists>s'. split_streams sts s = Some s' \<and> split_inv ix (done @ sts) s'"
proof (induction sts arbitrary: "done" s)
  case (Cons st sts)
  obtain s1 where "split_stream st s = Some s1" "split_inv ix (done @ [st]) s1"
    using split_stream_inv [OF Cons.prems(1), of st] Cons.prems(2) by auto
  with Cons.IH [of "done @ [st]" s1] Cons.prems(2) show ?case by simp
qed simp

definition stream_is :: "bytes \<Rightarrow> index_stream_info \<Rightarrow> stream_info \<Rightarrow> bool" where
  "stream_is names s st \<longleftrightarrow> text_at names (is_name s) (utf8_of (st_name st)) \<and> is_size s = stream_size st \<and> is_flags s = stream_flags st"

lemma stream_is_mono: "stream_is names s st \<Longrightarrow> stream_is (names @ extra) s st"
  by (auto simp: stream_is_def intro: text_at_append)

definition stream_bytes :: "stream_info list \<Rightarrow> nat" where
  "stream_bytes sts = sum_list (map (\<lambda>st. length (utf8_of (st_name st))) sts)"

lemma add_streams_spec:
  assumes "\<forall>st \<in> set sts. length (utf8_of (st_name st)) < 1024"
    and "length (mi_names ix) + stream_bytes sts < u32_max" and "length (mi_streams ix) + length sts < u32_max"
    and "holds is_next_entry (mi_streams ix) prev (stream_is (mi_names ix)) ys"
  shows "\<exists>prev' nb ss. add_streams sts prev ix = (prev', ix\<lparr>mi_names := mi_names ix @ nb, mi_streams := mi_streams ix @ ss\<rparr>)
    \<and> length nb = stream_bytes sts \<and> length ss = length sts
    \<and> holds is_next_entry (mi_streams ix @ ss) prev' (stream_is (mi_names ix @ nb)) (rev sts @ ys)"
  using assms
proof (induction sts arbitrary: prev ix ys)
  case Nil
  then show ?case by (intro exI [of _ prev] exI [of _ "[]"]) (simp add: stream_bytes_def)
next
  case (Cons st sts)
  let ?bs = "utf8_of (st_name st)"
  let ?s = "\<lparr>is_size = stream_size st, is_next_entry = prev,
     is_name = name_ref_new (len_to_u32 (length (mi_names ix))) (len_to_u16 (length ?bs)) (is_ascii_bytes ?bs) 0, is_flags = stream_flags st\<rparr>"
  let ?ix = "ix\<lparr>mi_names := mi_names ix @ ?bs, mi_streams := mi_streams ix @ [?s]\<rparr>"
  have "text_at (mi_names ix @ ?bs) (is_name ?s) ?bs"
    using text_at_new [of "mi_names ix" ?bs "is_ascii_bytes ?bs" 0] Cons.prems(1,2) by simp
  then have si: "stream_is (mi_names ix @ ?bs) ?s st" by (simp add: stream_is_def)
  have "holds is_next_entry (mi_streams ix @ []) prev (stream_is (mi_names ix @ ?bs)) ys"
    using Cons.prems(4) by (rule holds_mono) (rule stream_is_mono)
  then have "holds is_next_entry (mi_streams ix @ [?s]) (length (mi_streams ix)) (stream_is (mi_names ix @ ?bs)) (st # ys)"
    using si Cons.prems(3) by (intro holds_push) simp_all
  then have "\<exists>prev' nb ss. add_streams sts (length (mi_streams ix)) ?ix
      = (prev', ?ix\<lparr>mi_names := mi_names ?ix @ nb, mi_streams := mi_streams ?ix @ ss\<rparr>)
    \<and> length nb = stream_bytes sts \<and> length ss = length sts
    \<and> holds is_next_entry (mi_streams ?ix @ ss) prev' (stream_is (mi_names ?ix @ nb)) (rev sts @ st # ys)"
    using Cons.prems by (intro Cons.IH) (simp_all add: stream_bytes_def)
  then obtain prev' nb ss where r: "add_streams sts (length (mi_streams ix)) ?ix
      = (prev', ?ix\<lparr>mi_names := mi_names ?ix @ nb, mi_streams := mi_streams ?ix @ ss\<rparr>)"
    "length nb = stream_bytes sts" "length ss = length sts"
    "holds is_next_entry (mi_streams ?ix @ ss) prev' (stream_is (mi_names ?ix @ nb)) (rev sts @ st # ys)" by blast
  have "add_streams (st # sts) prev ix = (prev', ix\<lparr>mi_names := mi_names ix @ ?bs @ nb, mi_streams := mi_streams ix @ ?s # ss\<rparr>)"
    using r(1) Cons.prems(3) by (simp add: add_name_bytes_def Let_def stream_size_def)
  with r(2-4) show ?case
    by (intro exI [of _ prev'] exI [of _ "?bs @ nb"] exI [of _ "?s # ss"]) (simp add: stream_bytes_def)
qed

definition with_streams :: "parsed_record \<Rightarrow> nat \<Rightarrow> nat \<Rightarrow> file_record \<Rightarrow> file_record" where
  "with_streams p nxt fi r = r\<lparr>fr_total_stream_count := len_to_u16 (max (length (pr_streams p)) 1),
     fr_stream_count := len_to_u16 (1 + length (named_streams p)), fr_internal_streams_size := sat_sum (map st_size (internal_streams p)),
     fr_internal_streams_allocated := sat_sum (map st_allocated_size (internal_streams p)), fr_first_internal_stream := fi,
     fr_first_stream := (fr_first_stream r)\<lparr>is_next_entry := nxt\<rparr>\<rparr>"

definition streams_filed :: "parsed_record \<Rightarrow> mft_index \<Rightarrow> nat \<Rightarrow> nat \<Rightarrow> bool" where
  "streams_filed p ix nxt fi \<longleftrightarrow> holds is_next_entry (mi_streams ix) nxt (stream_is (mi_names ix)) (named_streams p)
     \<and> holds in_next_entry (mi_internal_streams ix) fi internal_is (internal_streams p)"

lemma file_streams_spec:
  assumes ok: "lookup_ok ix" "pr_frs p < u64_max" "length (mi_records ix) < u32_max" and r: "find_record ix (pr_frs p) = Some r"
    and fresh: "is_next_entry (fr_first_stream r) = NO_ENTRY"
    and fits: "\<forall>st \<in> set (named_streams p). length (utf8_of (st_name st)) < 1024"
    and room: "length (mi_names ix) + stream_bytes (named_streams p) < u32_max"
      "length (mi_streams ix) + length (named_streams p) < u32_max" "length (mi_internal_streams ix) + length (pr_streams p) < u32_max"
  shows "\<exists>ix' nxt fi nb ss vs. file_streams p ix = Some ix' \<and> lookup_ok ix' \<and> streams_filed p ix' nxt fi
    \<and> find_record ix' = (find_record ix)(pr_frs p \<mapsto> with_streams p nxt fi r)
    \<and> length (mi_records ix') = length (mi_records ix)
    \<and> mi_names ix' = mi_names ix @ nb \<and> length nb = stream_bytes (named_streams p)
    \<and> mi_streams ix' = mi_streams ix @ ss \<and> length ss = length (named_streams p)
    \<and> mi_internal_streams ix' = mi_internal_streams ix @ vs \<and> length vs \<le> length (pr_streams p)
    \<and> mi_links ix' = mi_links ix \<and> mi_extensions ix' = mi_extensions ix \<and> mi_children ix' = mi_children ix \<and> mi_stats ix' = mi_stats ix"
proof -
  let ?f = "pr_frs p" and ?us = "mi_internal_streams ix"
  let ?s0 = "\<lparr>ss_size = 0, ss_allocated = 0, ss_first = NO_ENTRY, ss_last = NO_ENTRY, ss_named = [], ss_index = ix\<rparr>"
  have "split_inv ix [] ?s0" by (simp add: split_inv_def)
  from split_streams_inv [OF this, of "pr_streams p"] room(3) obtain s where s: "split_streams (pr_streams p) ?s0 = Some s"
    "split_inv ix (pr_streams p) s" by auto
  from s(2) obtain vs where vs: "ss_index s = ix\<lparr>mi_internal_streams := ?us @ vs\<rparr>" "list_all2 internal_is vs (internal_streams p)"
    "\<forall>j < length vs. in_next_entry (vs ! j) = (if Suc j < length vs then length ?us + Suc j else NO_ENTRY)"
    "ss_first s = (if vs = [] then NO_ENTRY else length ?us)"
    and sums: "ss_named s = named_streams p" "ss_size s = sat_sum (map st_size (internal_streams p))"
      "ss_allocated s = sat_sum (map st_allocated_size (internal_streams p))"
    unfolding split_inv_def Let_def named_streams_def [symmetric] internal_streams_def [symmetric] by blast
  have lv: "length vs \<le> length (pr_streams p)" using list_all2_lengthD [OF vs(2)] by (simp add: internal_streams_def)
  then have int: "holds in_next_entry (?us @ vs) (ss_first s) internal_is (internal_streams p)"
    using holds_segment [OF vs(3) _ vs(2)] vs(4) room(3) by simp
  let ?ix1 = "ix\<lparr>mi_internal_streams := ?us @ vs\<rparr>"
  let ?g = "\<lambda>r :: file_record. r\<lparr>fr_total_stream_count := len_to_u16 (max (length (pr_streams p)) 1),
              fr_stream_count := len_to_u16 (1 + length (ss_named s)), fr_internal_streams_size := ss_size s,
              fr_internal_streams_allocated := ss_allocated s, fr_first_internal_stream := ss_first s\<rparr>"
  obtain ix2 where i2: "get_or_create ?f ?g ?ix1 = Some ix2" "upserted ?f (?g r) ?ix1 ix2" "length (mi_records ix2) = length (mi_records ix)"
    using get_or_create_known [of ?ix1 ?f r ?g] ok r by auto
  note u2 = upserted_fields [OF i2(2)]
  have run: "file_streams p ix = (if ss_named s = [] then Some ix2
     else (case add_streams (rev (ss_named s)) NO_ENTRY ix2 of (prev, ix3) \<Rightarrow>
           get_or_create ?f (\<lambda>r. r\<lparr>fr_first_stream := (fr_first_stream r)\<lparr>is_next_entry := prev\<rparr>\<rparr>) ix3))"
    unfolding file_streams_def s(1) Option.bind.simps vs(1) i2(1) ..
  show ?thesis
  proof (cases "ss_named s = []")
    case True
    have "?g r = with_streams p NO_ENTRY (ss_first s) r" using fresh by (simp add: with_streams_def sums)
    moreover have "streams_filed p ix2 NO_ENTRY (ss_first s)" using int True u2 sums(1) by (simp add: streams_filed_def)
    ultimately show ?thesis using run True u2 i2(3) lv sums(1)
      by (intro exI [of _ ix2] exI [of _ NO_ENTRY] exI [of _ "ss_first s"] exI [of _ "[]"] exI [of _ vs]) (simp add: stream_bytes_def)
  next
    case False
    have sb: "stream_bytes (rev sts) = stream_bytes sts" for sts by (simp add: stream_bytes_def rev_map [symmetric])
    obtain prev nb ss where l: "add_streams (rev (ss_named s)) NO_ENTRY ix2
        = (prev, ix2\<lparr>mi_names := mi_names ix2 @ nb, mi_streams := mi_streams ix2 @ ss\<rparr>)" "length nb = stream_bytes (named_streams p)"
      "length ss = length (named_streams p)" "holds is_next_entry (mi_streams ix2 @ ss) prev (stream_is (mi_names ix2 @ nb)) (named_streams p)"
      using add_streams_spec [of "rev (ss_named s)" ix2 NO_ENTRY "[]"] fits room u2 sums(1) by (auto simp: sb)
    let ?ix3 = "ix2\<lparr>mi_names := mi_names ix2 @ nb, mi_streams := mi_streams ix2 @ ss\<rparr>"
    let ?h = "\<lambda>r :: file_record. r\<lparr>fr_first_stream := (fr_first_stream r)\<lparr>is_next_entry := prev\<rparr>\<rparr>"
    obtain ix4 where i4: "get_or_create ?f ?h ?ix3 = Some ix4" "upserted ?f (?h (?g r)) ?ix3 ix4"
      "length (mi_records ix4) = length (mi_records ix2)"
      using get_or_create_known [of ?ix3 ?f "?g r" ?h] u2 i2(3) ok by auto
    note u4 = upserted_fields [OF i4(2)]
    have w: "?h (?g r) = with_streams p prev (ss_first s) r" by (simp add: with_streams_def sums)
    have "streams_filed p ix4 prev (ss_first s)"
      using int l(4) u2 u4 by (simp add: streams_filed_def)
    moreover have "file_streams p ix = Some ix4" using run False l(1) i4(1) by simp
    ultimately show ?thesis using u2 u4 i2(3) i4(3) l(2,3) lv w
      by (intro exI [of _ ix4] exI [of _ prev] exI [of _ "ss_first s"] exI [of _ nb] exI [of _ ss] exI [of _ vs]) simp
  qed
qed

section \<open>Filing the directory entries\<close>

fun name_edges :: "nat \<Rightarrow> nat \<Rightarrow> name_info list \<Rightarrow> (nat \<times> nat \<times> nat) list" where
  "name_edges frs i [] = []"
| "name_edges frs i (n # ns) =
     (if ni_parent_frs n = frs \<or> ni_parent_frs n = NO_ENTRY then [] else [(ni_parent_frs n, frs, len_to_u16 i)]) @ name_edges frs (Suc i) ns"

text \<open>The directory entries of a record: one for each name that lies in another directory, with the number of the name.\<close>

definition parsed_edges :: "parsed_record \<Rightarrow> (nat \<times> nat \<times> nat) list" where
  "parsed_edges p =
     name_edges (pr_frs p) 0 (pr_names p)
     @ (if pr_names p = [] \<and> pr_parent_frs p \<noteq> pr_frs p \<and> pr_parent_frs p \<noteq> NO_ENTRY then [(pr_parent_frs p, pr_frs p, 0)] else [])"

fun build_edges :: "(nat \<times> nat \<times> nat) list \<Rightarrow> mft_index \<Rightarrow> mft_index rust" where
  "build_edges [] ix = Some ix"
| "build_edges ((p, c, k) # es) ix = Option.bind (builder_child_entry p c k ix) (build_edges es)"

lemma build_edges_append: "build_edges (es @ es') ix = Option.bind (build_edges es ix) (build_edges es')"
proof (induction es arbitrary: ix)
  case (Cons e es)
  then have "build_edges (es @ es') = (\<lambda>ix. Option.bind (build_edges es ix) (build_edges es'))" by (intro ext)
  then show ?case by (cases e) (simp add: Option.bind_assoc)
qed simp

lemma build_no_edges [simp]: "build_edges [] = Some"
  by (simp add: fun_eq_iff)

lemma name_entries_edges: "name_entries frs i ns ix = build_edges (name_edges frs i ns) ix"
  by (induction ns arbitrary: i ix) (auto intro: Option.bind_cong)

lemma file_children_edges: "file_children p ix = build_edges (parsed_edges p) ix"
  by (auto simp: file_children_def parsed_edges_def name_entries_edges build_edges_append)

definition core_of :: "mft_index \<Rightarrow> nat \<Rightarrow> file_record option" where "core_of ix f = map_option childless (find_record ix f)"

lemma childless_new [simp]: "childless (file_record_new f) = file_record_new f"
  by (simp add: childless_def file_record_new_def)

lemma childless_first_child [simp]: "childless (r\<lparr>fr_first_child := n\<rparr>) = childless r"
  by (simp add: childless_def)

lemma builder_child_entry_core:
  assumes "lookup_ok ix" and "p < u64_max" and "length (mi_records ix) < u32_max"
  shows "builder_child_entry p c k ix = add_child_entry p c k ix"
    and "\<exists>t rs cs. add_child_entry p c k ix = Some (ix\<lparr>mi_frs_to_idx := t, mi_records := rs, mi_children := cs\<rparr>)
      \<and> core_of (ix\<lparr>mi_frs_to_idx := t, mi_records := rs, mi_children := cs\<rparr>)
        = (core_of ix)(p := Some (case core_of ix p of None \<Rightarrow> file_record_new p | Some r \<Rightarrow> r))"
proof -
  obtain t i where e: "ensure_with file_record_new p ix = Some (i, extended file_record_new p t ix)"
    "lookup_ok (extended file_record_new p t ix)" "i = (case frs_to_idx_opt ix p of None \<Rightarrow> length (mi_records ix) | Some j \<Rightarrow> j)"
    "\<And>g. frs_to_idx_opt (extended file_record_new p t ix) g = (if g = p then Some i else frs_to_idx_opt ix g)"
    using ensure_with_spec [OF assms, of file_record_new] by auto
  define ix1 where "ix1 = extended file_record_new p t ix"
  have i: "i < length (mi_records ix1)" using lookup_ok_found [OF e(2), of p i] e(4) [of p] by (simp add: ix1_def)
  show "builder_child_entry p c k ix = add_child_entry p c k ix"
    using e(1) i by (simp add: builder_child_entry_def ix1_def)
  let ?g = "\<lambda>r :: file_record. r\<lparr>fr_first_child := len_to_u32 (length (mi_children ix))\<rparr>"
  let ?rs = "(mi_records ix1)[i := ?g (mi_records ix1 ! i)]"
  let ?cs = "mi_children ix @ [\<lparr>ci_next_entry = fr_first_child (mi_records ix1 ! i), ci_child_frs = c, ci_name_index = k\<rparr>]"
  have shape: "ix1\<lparr>mi_records := rs, mi_children := cs\<rparr> = ix\<lparr>mi_frs_to_idx := t, mi_records := rs, mi_children := cs\<rparr>" for rs cs
    by (simp add: ix1_def extended_def)
  have ch: "mi_children ix1 = mi_children ix" by (simp add: ix1_def extended_def)
  have run: "add_child_entry p c k ix = Some (ix1\<lparr>mi_records := ?rs, mi_children := ?cs\<rparr>)"
    using e(1) i by (simp add: add_child_entry_def ix1_def [symmetric] Let_def ch)
  have "(if length (mi_records ix) < length (mi_records ix1) then length (mi_records ix) else i) = i"
    using e(3) lookup_ok_found(1) [OF assms(1), of p] by (auto simp: ix1_def extended_def split: option.splits if_splits)
  then have "get_or_create p ?g ix = Some (ix1\<lparr>mi_records := ?rs\<rparr>)"
    using e(1) i by (simp add: get_or_create_def lend_record_def ix1_def [symmetric] Let_def)
  with get_or_create_upserted [OF assms, of ?g] have "upserted p (?g (record_or_new ix p)) ix (ix1\<lparr>mi_records := ?rs\<rparr>)" by auto
  from upserted_fields(9) [OF this]
  have "find_record (ix1\<lparr>mi_records := ?rs, mi_children := ?cs\<rparr>) = (find_record ix)(p \<mapsto> ?g (record_or_new ix p))" by simp
  then have "core_of (ix1\<lparr>mi_records := ?rs, mi_children := ?cs\<rparr>) f
      = ((core_of ix)(p := Some (case core_of ix p of None \<Rightarrow> file_record_new p | Some r \<Rightarrow> r))) f" for f
    by (simp add: core_of_def record_or_new_def split: option.splits)
  then have "core_of (ix1\<lparr>mi_records := ?rs, mi_children := ?cs\<rparr>)
      = (core_of ix)(p := Some (case core_of ix p of None \<Rightarrow> file_record_new p | Some r \<Rightarrow> r))" ..
  with run show "\<exists>t rs cs. add_child_entry p c k ix = Some (ix\<lparr>mi_frs_to_idx := t, mi_records := rs, mi_children := cs\<rparr>)
      \<and> core_of (ix\<lparr>mi_frs_to_idx := t, mi_records := rs, mi_children := cs\<rparr>)
        = (core_of ix)(p := Some (case core_of ix p of None \<Rightarrow> file_record_new p | Some r \<Rightarrow> r))"
    unfolding shape by blast
qed

text \<open>The edges add placeholders for the parents that are not known, and change no record otherwise.\<close>

definition placed :: "nat set \<Rightarrow> (nat \<rightharpoonup> file_record) \<Rightarrow> nat \<rightharpoonup> file_record" where
  "placed fs m f = (case m f of None \<Rightarrow> if f \<in> fs then Some (file_record_new f) else None | Some r \<Rightarrow> Some r)"

lemma build_edges_spec:
  "entries_of_edges done ix \<Longrightarrow> \<forall>e \<in> set es. fst e < u64_max \<Longrightarrow> length (mi_records ix) + length es \<le> u32_max \<Longrightarrow>
   length done + length es \<le> u32_max \<Longrightarrow>
   \<exists>t rs cs. build_edges es ix = Some (ix\<lparr>mi_frs_to_idx := t, mi_records := rs, mi_children := cs\<rparr>)
     \<and> entries_of_edges (done @ es) (ix\<lparr>mi_frs_to_idx := t, mi_records := rs, mi_children := cs\<rparr>)
     \<and> core_of (ix\<lparr>mi_frs_to_idx := t, mi_records := rs, mi_children := cs\<rparr>) = placed (fst ` set es) (core_of ix)
     \<and> length rs \<le> length (mi_records ix) + length es"
proof (induction es arbitrary: "done" ix)
  case Nil
  have "placed {} (core_of ix) = core_of ix" by (auto simp: placed_def fun_eq_iff split: option.splits)
  with Nil show ?case
    by (intro exI [of _ "mi_frs_to_idx ix"] exI [of _ "mi_records ix"] exI [of _ "mi_children ix"]) simp
next
  case (Cons e es)
  obtain p c k where e: "e = (p, c, k)" by (cases e)
  have ok: "lookup_ok ix" using Cons.prems(1) by (simp add: entries_of_edges_def)
  have p: "p < u64_max" "length (mi_records ix) < u32_max" "length done < u32_max" using Cons.prems e by auto
  note core = builder_child_entry_core [OF ok p(1,2)]
  obtain t rs cs where s: "builder_child_entry p c k ix = Some (ix\<lparr>mi_frs_to_idx := t, mi_records := rs, mi_children := cs\<rparr>)"
    "core_of (ix\<lparr>mi_frs_to_idx := t, mi_records := rs, mi_children := cs\<rparr>)
        = (core_of ix)(p := Some (case core_of ix p of None \<Rightarrow> file_record_new p | Some r \<Rightarrow> r))"
    using core(2) [of c k] core(1) [of c k] by auto
  let ?ix = "ix\<lparr>mi_frs_to_idx := t, mi_records := rs, mi_children := cs\<rparr>"
  have a: "entries_of_edges (done @ [e]) ?ix" "length rs \<le> Suc (length (mi_records ix))"
    using add_child_entry_spec [OF Cons.prems(1) p, of c k] s(1) core(1) [of c k] e by auto
  obtain t' rs' cs' where r: "build_edges es ?ix = Some (?ix\<lparr>mi_frs_to_idx := t', mi_records := rs', mi_children := cs'\<rparr>)"
    "entries_of_edges ((done @ [e]) @ es) (?ix\<lparr>mi_frs_to_idx := t', mi_records := rs', mi_children := cs'\<rparr>)"
    "core_of (?ix\<lparr>mi_frs_to_idx := t', mi_records := rs', mi_children := cs'\<rparr>) = placed (fst ` set es) (core_of ?ix)"
    "length rs' \<le> length (mi_records ?ix) + length es"
    using Cons.IH [OF a(1)] Cons.prems(2-4) a(2) by auto
  have "placed (fst ` set es) (core_of ?ix) = placed (fst ` set (e # es)) (core_of ix)"
    unfolding s(2) by (auto simp: placed_def fun_eq_iff e split: option.splits)
  with r s(1) a(2) e show ?case by (intro exI [of _ t'] exI [of _ rs'] exI [of _ cs']) simp
qed

section \<open>The index built so far\<close>

definition included :: "parsed_record \<Rightarrow> bool" where "included p \<longleftrightarrow> pr_in_use p \<or> is_forensic_record p"

definition parsed_stats :: "parsed_record list \<Rightarrow> mft_stats" where
  "parsed_stats ps = mft_stats_new\<lparr>ms_record_count := length ps, ms_dir_count := length (filter pr_is_directory ps),
     ms_file_count := length (filter (\<lambda>p. \<not> pr_is_directory p) ps), ms_max_frs := fold max (map pr_frs ps) 0,
     ms_total_name_bytes := sum_list (map (\<lambda>p. length (utf8_of (pr_name p))) ps),
     ms_multi_name_count := length (filter (\<lambda>p. length (pr_names p) > 1) ps),
     ms_ads_count := length (filter (\<lambda>p. length (pr_streams p) > 1) ps),
     ms_system_metafile_count := length (filter (\<lambda>p. system_frs (pr_frs p)) ps),
     ms_system_child_count := length (filter (\<lambda>p. system_frs (pr_parent_frs p)) ps)\<rparr>"

lemma count_parsed_spec:
  assumes "length ps < u32_max" and "sum_list (map (\<lambda>p. length (utf8_of (pr_name p))) (ps @ [p])) \<le> u64_max"
  shows "count_parsed p (parsed_stats ps) = Some (parsed_stats (ps @ [p]))"
proof -
  have c: "length (filter P ps) < u32_max" for P using length_filter_le [of P ps] assms(1) by linarith
  have i: "inc_if b (length (filter P ps)) = Some (length (filter P ps) + (if b then 1 else 0))" for b P
    using inc_if_ok [OF c] by simp
  show ?thesis
    unfolding count_parsed_def parsed_stats_def mft_stats.simps mft_stats_new_def
    using assms by (simp add: i u32_inc_def u64_add_def u64_check_def max_def)
qed

text \<open>What a record must fit into: names of at most 1023 bytes, and counts and file numbers of their widths.\<close>

definition fits :: "(bytes \<Rightarrow> bytes) \<Rightarrow> bytes set \<Rightarrow> parsed_record \<Rightarrow> bool" where
  "fits lower E p \<longleftrightarrow> pr_frs p < u64_max \<and> (\<forall>e \<in> set (parsed_edges p). fst e < u64_max)
     \<and> fits_name lower E (pr_name p) \<and> (\<forall>n \<in> set (additional_names p). fits_name lower E (ni_name n))
     \<and> (\<forall>st \<in> set (named_streams p). length (utf8_of (st_name st)) < 1024)
     \<and> length (pr_names p) < u16_max \<and> length (pr_streams p) < u16_max"

definition filing_weight :: "parsed_record \<Rightarrow> nat" where
  "filing_weight p = 1 + length (parsed_edges p) + length (pr_names p) + length (pr_streams p)
     + length (utf8_of (pr_name p)) + link_bytes (additional_names p) + stream_bytes (named_streams p)"

definition total_weight :: "parsed_record list \<Rightarrow> nat" where "total_weight ps = sum_list (map filing_weight ps)"

definition filed_record :: "parsed_record \<Rightarrow> index_name_ref \<Rightarrow> nat \<Rightarrow> nat \<Rightarrow> nat \<Rightarrow> file_record" where
  "filed_record p ref nxt snxt fi = with_streams p snxt fi (with_names p ref nxt (file_record_new (pr_frs p)))"

definition filed :: "(bytes \<Rightarrow> bytes) \<Rightarrow> mft_index \<Rightarrow> parsed_record \<Rightarrow> bool" where
  "filed lower ix p \<longleftrightarrow> (\<exists>ref nxt snxt fi. core_of ix (pr_frs p) = Some (filed_record p ref nxt snxt fi)
     \<and> names_filed lower p ix ref nxt \<and> streams_filed p ix snxt fi)"

definition grows :: "mft_index \<Rightarrow> mft_index \<Rightarrow> bool" where
  "grows ix ix' \<longleftrightarrow> (\<exists>a b c d. mi_names ix' = mi_names ix @ a \<and> mi_links ix' = mi_links ix @ b
     \<and> mi_streams ix' = mi_streams ix @ c \<and> mi_internal_streams ix' = mi_internal_streams ix @ d)
     \<and> et_map (mi_extensions ix) \<subseteq>\<^sub>m et_map (mi_extensions ix')"

lemma names_filed_grows: "names_filed lower p ix ref nxt \<Longrightarrow> grows ix ix' \<Longrightarrow> names_filed lower p ix' ref nxt"
  by (auto simp: names_filed_def grows_def intro: text_at_append ext_at_mono elim!: holds_mono dest: link_is_mono)

lemma streams_filed_grows: "streams_filed p ix nxt fi \<Longrightarrow> grows ix ix' \<Longrightarrow> streams_filed p ix' nxt fi"
  by (auto simp: streams_filed_def grows_def elim!: holds_mono dest: stream_is_mono)

lemma filed_grows:
  "filed lower ix p \<Longrightarrow> grows ix ix' \<Longrightarrow> core_of ix' (pr_frs p) = core_of ix (pr_frs p) \<Longrightarrow> filed lower ix' p"
  unfolding filed_def by (metis names_filed_grows streams_filed_grows)

definition all_edges :: "parsed_record list \<Rightarrow> (nat \<times> nat \<times> nat) list" where "all_edges ps = concat (map parsed_edges ps)"

lemma entries_find:
  "lookup_ok ix \<Longrightarrow> entries_of_edges es ix \<longleftrightarrow> map (\<lambda>c. (ci_child_frs c, ci_name_index c)) (mi_children ix) = map snd es
     \<and> (\<forall>f r. find_record ix f = Some r \<longrightarrow> linked (child_next (mi_children ix)) (fr_first_child r) (entry_positions es f))
     \<and> (\<forall>e \<in> set es. find_record ix (fst e) \<noteq> None)"
proof -
  assume ok: "lookup_ok ix"
  have mem: "r \<in> set (mi_records ix) \<longleftrightarrow> find_record ix (fr_frs r) = Some r" for r
  proof
    assume "r \<in> set (mi_records ix)"
    then obtain i where "i < length (mi_records ix)" "r = mi_records ix ! i" by (auto simp: in_set_conv_nth)
    then show "find_record ix (fr_frs r) = Some r" using lookup_ok_pos [OF ok] by (simp add: find_record_idx [OF ok])
  next
    assume "find_record ix (fr_frs r) = Some r"
    then obtain i where "frs_to_idx_opt ix (fr_frs r) = Some i" "r = mi_records ix ! i" by (auto simp: find_record_idx [OF ok])
    then show "r \<in> set (mi_records ix)" using lookup_ok_found(1) [OF ok] by auto
  qed
  have frs: "fr_frs r = f" if "find_record ix f = Some r" for f r
    using lookup_ok_found [OF ok] that by (auto simp: find_record_idx [OF ok])
  have "(\<forall>r \<in> set (mi_records ix). Q r (fr_frs r)) \<longleftrightarrow> (\<forall>f r. find_record ix f = Some r \<longrightarrow> Q r f)" for Q
    unfolding Ball_def mem using frs by metis
  from this [of "\<lambda>r f. linked (child_next (mi_children ix)) (fr_first_child r) (entry_positions es f)"] show ?thesis
    by (simp add: entries_of_edges_def ok idx_find_none [OF ok])
qed

lemma entries_upsert:
  assumes "entries_of_edges es ix" and "lookup_ok ix'" and "mi_children ix' = mi_children ix"
    and "find_record ix' = (find_record ix)(f \<mapsto> r)" and "fr_first_child r = fr_first_child (record_or_new ix f)"
  shows "entries_of_edges es ix'"
proof -
  have ok: "lookup_ok ix" using assms(1) by (simp add: entries_of_edges_def)
  note old = assms(1) [unfolded entries_find [OF ok]]
  have "linked (child_next (mi_children ix)) (fr_first_child (record_or_new ix f)) (entry_positions es f)"
  proof (cases "find_record ix f")
    case None
    with old have "\<forall>e \<in> set es. fst e \<noteq> f" by auto
    then have "entry_positions es f = []" by (auto simp: entry_positions_def filter_empty_conv)
    with None show ?thesis by (simp add: record_or_new_def file_record_new_def)
  qed (use old in \<open>auto simp: record_or_new_def\<close>)
  with old show ?thesis unfolding entries_find [OF assms(2)] assms(3,4) using assms(5) by auto
qed

section \<open>Filing one more record\<close>

lemma childless_filed:
  assumes "childless r0 = file_record_new (pr_frs p)"
  shows "childless (with_streams p snxt fi (with_names p ref nxt r0)) = filed_record p ref nxt snxt fi"
    and "fr_first_child (with_streams p snxt fi (with_names p ref nxt r0)) = fr_first_child r0"
    and "is_next_entry (fr_first_stream (with_names p ref nxt r0)) = NO_ENTRY" and "li_next_entry (fr_first_name r0) = NO_ENTRY"
proof -
  have s: "fr_first_stream r0 = fr_first_stream (file_record_new (pr_frs p))" "fr_first_name r0 = fr_first_name (file_record_new (pr_frs p))"
    using arg_cong [OF assms, of fr_first_stream] arg_cong [OF assms, of fr_first_name] by (simp_all add: childless_def)
  have "childless (with_streams p snxt fi (with_names p ref nxt r0)) = with_streams p snxt fi (with_names p ref nxt (childless r0))"
    by (simp add: childless_def with_streams_def with_names_def fill_record_def set_forensic_flags_def)
  then show "childless (with_streams p snxt fi (with_names p ref nxt r0)) = filed_record p ref nxt snxt fi"
    by (simp add: assms filed_record_def)
  show "fr_first_child (with_streams p snxt fi (with_names p ref nxt r0)) = fr_first_child r0"
    by (simp add: with_streams_def with_names_def fill_record_def set_forensic_flags_def)
  show "is_next_entry (fr_first_stream (with_names p ref nxt r0)) = NO_ENTRY"
    using s(1) by (simp add: with_names_def fill_record_def set_forensic_flags_def first_stream_of_def file_record_new_def split: option.splits)
  show "li_next_entry (fr_first_name r0) = NO_ENTRY" using s(2) by (simp add: file_record_new_def)
qed

lemma weight_parts:
  "length (additional_names p) \<le> length (pr_names p)" "length (named_streams p) \<le> length (pr_streams p)"
  "length (utf8_of (pr_name p)) < filing_weight p" "0 < filing_weight p"
  by (simp_all add: additional_names_def named_streams_def filing_weight_def)

lemma total_weight_snoc [simp]: "total_weight (ps @ [p]) = total_weight ps + filing_weight p"
  by (simp add: total_weight_def)

lemma total_weight_bounds:
  "length ps \<le> total_weight ps" "sum_list (map (\<lambda>p. length (utf8_of (pr_name p))) ps) \<le> total_weight ps"
  "length (all_edges ps) \<le> total_weight ps"
  by (induction ps) (simp_all add: total_weight_def filing_weight_def all_edges_def)

lemma all_edges_snoc [simp]: "all_edges (ps @ [p]) = all_edges ps @ parsed_edges p"
  by (simp add: all_edges_def)

definition sized :: "nat \<Rightarrow> mft_index \<Rightarrow> bool" where
  "sized w ix \<longleftrightarrow> length (mi_records ix) \<le> w \<and> length (mi_names ix) \<le> w \<and> length (mi_links ix) \<le> w
     \<and> length (mi_streams ix) \<le> w \<and> length (mi_internal_streams ix) \<le> w"

lemma file_record_spec:
  assumes ok: "lookup_ok ix" and t: "tbl E (mi_extensions ix)" and len: "sized w ix" and p: "fits lower E p" and w: "w + filing_weight p < u32_max"
    and r0: "childless (record_or_new ix (pr_frs p)) = file_record_new (pr_frs p)"
  shows "\<exists>ix' ref nxt snxt fi. Option.bind (file_names lower p ix) (file_streams p) = Some ix' \<and> lookup_ok ix'
    \<and> find_record ix' = (find_record ix)(pr_frs p \<mapsto> with_streams p snxt fi (with_names p ref nxt (record_or_new ix (pr_frs p))))
    \<and> names_filed lower p ix' ref nxt \<and> streams_filed p ix' snxt fi \<and> grows ix ix' \<and> tbl E (mi_extensions ix')
    \<and> sized (w + (filing_weight p - length (parsed_edges p))) ix' \<and> mi_children ix' = mi_children ix \<and> mi_stats ix' = mi_stats ix"
proof -
  let ?f = "pr_frs p" and ?r0 = "record_or_new ix (pr_frs p)"
  note ch = childless_filed [OF r0]
  from p have fit: "?f < u64_max" "fits_name lower E (pr_name p)" "\<forall>n \<in> set (additional_names p). fits_name lower E (ni_name n)"
    "\<forall>st \<in> set (named_streams p). length (utf8_of (st_name st)) < 1024"
    by (simp_all add: fits_def)
  note bounds = w [unfolded filing_weight_def] len [unfolded sized_def] weight_parts(1,2) [of p]
  have fr: "Suc (length (mi_records ix)) < u32_max"
    "length (mi_names ix) + length (utf8_of (pr_name p)) + link_bytes (additional_names p) < u32_max"
    "length (mi_links ix) + length (additional_names p) < u32_max"
    using bounds by simp_all
  obtain ix1 ref nxt nb ls where n: "file_names lower p ix = Some ix1" "lookup_ok ix1" "names_filed lower p ix1 ref nxt"
    "find_record ix1 = (find_record ix)(?f \<mapsto> with_names p ref nxt ?r0)"
    "length (mi_records ix1) \<le> Suc (length (mi_records ix))"
    "mi_names ix1 = mi_names ix @ nb" "length nb = length (utf8_of (pr_name p)) + link_bytes (additional_names p)"
    "mi_links ix1 = mi_links ix @ ls" "length ls = length (additional_names p)"
    "tbl E (mi_extensions ix1)" "et_map (mi_extensions ix) \<subseteq>\<^sub>m et_map (mi_extensions ix1)"
    "mi_streams ix1 = mi_streams ix" "mi_internal_streams ix1 = mi_internal_streams ix" "mi_children ix1 = mi_children ix"
    "mi_stats ix1 = mi_stats ix"
    using file_names_spec [OF ok fit(1) fr(1) t fit(2,3) fr(2,3) ch(4)] by (auto split: if_splits)
  have sr: "length (mi_records ix1) < u32_max" "length (mi_names ix1) + stream_bytes (named_streams p) < u32_max"
    "length (mi_streams ix1) + length (named_streams p) < u32_max" "length (mi_internal_streams ix1) + length (pr_streams p) < u32_max"
    using n bounds by simp_all
  have r1: "find_record ix1 ?f = Some (with_names p ref nxt ?r0)" using n(4) by simp
  obtain ix2 snxt fi nb2 ss vs where s: "file_streams p ix1 = Some ix2" "lookup_ok ix2" "streams_filed p ix2 snxt fi"
    "find_record ix2 = (find_record ix1)(?f \<mapsto> with_streams p snxt fi (with_names p ref nxt ?r0))"
    "length (mi_records ix2) = length (mi_records ix1)" "mi_names ix2 = mi_names ix1 @ nb2" "length nb2 = stream_bytes (named_streams p)"
    "mi_streams ix2 = mi_streams ix1 @ ss" "length ss = length (named_streams p)"
    "mi_internal_streams ix2 = mi_internal_streams ix1 @ vs" "length vs \<le> length (pr_streams p)"
    "mi_links ix2 = mi_links ix1" "mi_extensions ix2 = mi_extensions ix1" "mi_children ix2 = mi_children ix1" "mi_stats ix2 = mi_stats ix1"
    using file_streams_spec [OF n(2) fit(1) sr(1) r1 ch(3) fit(4) sr(2-4)] by metis
  have "grows ix ix2" "grows ix1 ix2" using n s by (simp_all add: grows_def)
  moreover have "sized (w + (filing_weight p - length (parsed_edges p))) ix2" using n s bounds by (simp add: sized_def filing_weight_def)
  ultimately show ?thesis using n s names_filed_grows [OF n(3)]
    by (intro exI [of _ ix2] exI [of _ ref] exI [of _ nxt] exI [of _ snxt] exI [of _ fi]) simp
qed

lemma grows_edges: "grows ix ix' \<Longrightarrow> grows ix (ix'\<lparr>mi_frs_to_idx := t, mi_records := rs, mi_children := cs\<rparr>)"
  by (simp add: grows_def)

lemma filed_edges:
  "names_filed lower p ix ref nxt \<Longrightarrow> names_filed lower p (ix\<lparr>mi_frs_to_idx := t, mi_records := rs, mi_children := cs\<rparr>) ref nxt"
  "streams_filed p ix snxt fi \<Longrightarrow> streams_filed p (ix\<lparr>mi_frs_to_idx := t, mi_records := rs, mi_children := cs\<rparr>) snxt fi"
  by (simp_all add: names_filed_def streams_filed_def)

lemma insert_parsed_effect:
  assumes ent: "entries_of_edges es ix" and t: "tbl E (mi_extensions ix)" and len: "sized w ix" "length es \<le> w" and p: "included p" "fits lower E p"
    and w: "w + filing_weight p < u32_max" and r0: "childless (record_or_new ix (pr_frs p)) = file_record_new (pr_frs p)"
    and st: "count_parsed p (mi_stats ix) = Some stats"
  shows "\<exists>ix' ref nxt snxt fi. insert_parsed lower p ix = Some ix' \<and> entries_of_edges (es @ parsed_edges p) ix'
    \<and> core_of ix' = placed (fst ` set (parsed_edges p)) ((core_of ix)(pr_frs p \<mapsto> filed_record p ref nxt snxt fi))
    \<and> names_filed lower p ix' ref nxt \<and> streams_filed p ix' snxt fi \<and> grows ix ix' \<and> tbl E (mi_extensions ix')
    \<and> sized (w + filing_weight p) ix' \<and> mi_stats ix' = stats"
proof -
  let ?f = "pr_frs p" and ?r0 = "record_or_new ix (pr_frs p)" and ?ix0 = "ix\<lparr>mi_stats := stats\<rparr>"
  have ok: "lookup_ok ix" using ent by (simp add: entries_of_edges_def)
  have run: "insert_parsed lower p ix = Option.bind (Option.bind (file_names lower p ?ix0) (file_streams p)) (file_children p)"
    using p(1) st by (auto simp: insert_parsed_def included_def Option.bind_assoc)
  have r00: "record_or_new ?ix0 ?f = ?r0" by (simp add: record_or_new_def)
  have "grows ?ix0 ix' = grows ix ix'" for ix' by (simp add: grows_def)
  moreover have "sized w ?ix0" using len(1) by (simp add: sized_def)
  ultimately obtain ix2 ref nxt snxt fi where s: "Option.bind (file_names lower p ?ix0) (file_streams p) = Some ix2" "lookup_ok ix2"
    "find_record ix2 = (find_record ix)(?f \<mapsto> with_streams p snxt fi (with_names p ref nxt ?r0))"
    "names_filed lower p ix2 ref nxt" "streams_filed p ix2 snxt fi" "grows ix ix2" "tbl E (mi_extensions ix2)"
    "sized (w + (filing_weight p - length (parsed_edges p))) ix2" "mi_children ix2 = mi_children ix" "mi_stats ix2 = stats"
    using file_record_spec [of ?ix0 E w lower p] ok t p(2) w r0 by (auto simp: r00)
  have ent2: "entries_of_edges es ix2"
    by (rule entries_upsert [OF ent s(2,9,3)]) (simp add: childless_filed(2) [OF r0])
  have core2: "core_of ix2 = (core_of ix)(?f \<mapsto> filed_record p ref nxt snxt fi)"
    by (simp add: fun_eq_iff core_of_def s(3) childless_filed(1) [OF r0])
  have we: "length (parsed_edges p) \<le> filing_weight p" by (simp add: filing_weight_def)
  have "length (mi_records ix2) + length (parsed_edges p) \<le> w + filing_weight p" using s(8) we unfolding sized_def by linarith
  moreover have "\<forall>e \<in> set (parsed_edges p). fst e < u64_max" using p(2) by (simp add: fits_def)
  ultimately obtain tt rs cs where c: "build_edges (parsed_edges p) ix2 = Some (ix2\<lparr>mi_frs_to_idx := tt, mi_records := rs, mi_children := cs\<rparr>)"
    "entries_of_edges (es @ parsed_edges p) (ix2\<lparr>mi_frs_to_idx := tt, mi_records := rs, mi_children := cs\<rparr>)"
    "core_of (ix2\<lparr>mi_frs_to_idx := tt, mi_records := rs, mi_children := cs\<rparr>) = placed (fst ` set (parsed_edges p)) (core_of ix2)"
    "length rs \<le> length (mi_records ix2) + length (parsed_edges p)"
    using build_edges_spec [OF ent2, of "parsed_edges p"] w we len(2) by auto
  have "sized (w + filing_weight p) (ix2\<lparr>mi_frs_to_idx := tt, mi_records := rs, mi_children := cs\<rparr>)"
    using s(8) c(4) we by (auto simp: sized_def)
  with c run s grows_edges [OF s(6)] filed_edges(1) [OF s(4)] filed_edges(2) [OF s(5)] core2 show ?thesis
    by (intro exI [of _ "ix2\<lparr>mi_frs_to_idx := tt, mi_records := rs, mi_children := cs\<rparr>"] exI [of _ ref] exI [of _ nxt] exI [of _ snxt] exI [of _ fi])
       (simp add: file_children_edges)
qed

definition built :: "(bytes \<Rightarrow> bytes) \<Rightarrow> bytes set \<Rightarrow> parsed_record list \<Rightarrow> mft_index \<Rightarrow> bool" where
  "built lower E ps ix \<longleftrightarrow> entries_of_edges (all_edges ps) ix \<and> tbl E (mi_extensions ix) \<and> mi_stats ix = parsed_stats ps
     \<and> sized (total_weight ps) ix \<and> (\<forall>p \<in> set ps. filed lower ix p)
     \<and> (\<forall>f. f \<notin> pr_frs ` set ps \<longrightarrow> core_of ix f = (if f \<in> fst ` set (all_edges ps) then Some (file_record_new f) else None))"

lemma built_new: "tbl E extension_table_new \<Longrightarrow> built lower E [] (mft_index_new now volume)"
  by (simp add: built_def all_edges_def total_weight_def entries_of_edges_def parsed_stats_def mft_stats_new_def mft_index_new_def
      lookup_ok_def core_of_def find_record_def vec_get_def sized_def)

lemma insert_parsed_built:
  assumes b: "built lower E ps ix" and p: "included p" "pr_frs p \<notin> pr_frs ` set ps" "fits lower E p"
    and w: "total_weight (ps @ [p]) < u32_max"
  shows "\<exists>ix'. insert_parsed lower p ix = Some ix' \<and> built lower E (ps @ [p]) ix'"
proof -
  let ?f = "pr_frs p"
  from b have ent: "entries_of_edges (all_edges ps) ix" and t: "tbl E (mi_extensions ix)" and st: "mi_stats ix = parsed_stats ps"
    and len: "sized (total_weight ps) ix" and old: "\<And>q. q \<in> set ps \<Longrightarrow> filed lower ix q"
    and rest: "\<And>g. g \<notin> pr_frs ` set ps \<Longrightarrow> core_of ix g = (if g \<in> fst ` set (all_edges ps) then Some (file_record_new g) else None)"
    by (auto simp: built_def)
  have r0: "childless (record_or_new ix ?f) = file_record_new ?f"
    using rest [OF p(2)] by (auto simp: core_of_def record_or_new_def split: option.splits if_splits)
  have c: "count_parsed p (mi_stats ix) = Some (parsed_stats (ps @ [p]))"
    unfolding st using w total_weight_bounds(1,2) [of ps] weight_parts(3) [of p] by (intro count_parsed_spec) (simp_all add: rust_limits)
  obtain ix' ref nxt snxt fi where s: "insert_parsed lower p ix = Some ix'" "entries_of_edges (all_edges ps @ parsed_edges p) ix'"
    "core_of ix' = placed (fst ` set (parsed_edges p)) ((core_of ix)(?f \<mapsto> filed_record p ref nxt snxt fi))"
    "names_filed lower p ix' ref nxt" "streams_filed p ix' snxt fi" "grows ix ix'" "tbl E (mi_extensions ix')"
    "sized (total_weight ps + filing_weight p) ix'" "mi_stats ix' = parsed_stats (ps @ [p])"
    using insert_parsed_effect [OF ent t len total_weight_bounds(3) p(1,3) w [unfolded total_weight_snoc] r0 c] by blast
  have "filed lower ix' q" if "q \<in> set (ps @ [p])" for q
  proof (cases "q \<in> set ps")
    case True
    then have "pr_frs q \<noteq> ?f" using p(2) by (metis imageI)
    moreover from old [OF True] have "core_of ix (pr_frs q) \<noteq> None" by (auto simp: filed_def)
    ultimately have "core_of ix' (pr_frs q) = core_of ix (pr_frs q)" by (auto simp: s(3) placed_def split: option.splits)
    with filed_grows [OF old [OF True] s(6)] show ?thesis by simp
  next
    case False
    with that have "q = p" by simp
    moreover have "core_of ix' ?f = Some (filed_record p ref nxt snxt fi)" by (simp add: s(3) placed_def)
    ultimately show ?thesis using s(4,5) by (auto simp: filed_def)
  qed
  moreover have "core_of ix' h = (if h \<in> fst ` set (all_edges (ps @ [p])) then Some (file_record_new h) else None)"
    if "h \<notin> pr_frs ` set (ps @ [p])" for h
    using rest [of h] that by (auto simp: s(3) placed_def)
  ultimately show ?thesis using s by (auto simp: built_def)
qed

lemma file_records_built:
  "built lower E done ix \<Longrightarrow> distinct (map pr_frs (done @ filter included ps)) \<Longrightarrow> \<forall>p \<in> set ps. included p \<longrightarrow> fits lower E p \<Longrightarrow>
   total_weight (done @ filter included ps) < u32_max \<Longrightarrow>
   \<exists>ix'. file_records lower ps ix = Some ix' \<and> built lower E (done @ filter included ps) ix'"
proof (induction ps arbitrary: "done" ix)
  case (Cons p ps)
  show ?case
  proof (cases "included p")
    case True
    have "total_weight (done @ [p]) < u32_max" using Cons.prems(4) True by (simp add: total_weight_def)
    with insert_parsed_built [OF Cons.prems(1) True, of] Cons.prems(2,3) True obtain ix1 where
      "insert_parsed lower p ix = Some ix1" "built lower E (done @ [p]) ix1" by auto
    with Cons.IH [of "done @ [p]" ix1] Cons.prems True show ?thesis by simp
  next
    case False
    then have "insert_parsed lower p ix = Some ix" by (simp add: insert_parsed_def included_def)
    with Cons False show ?thesis by simp
  qed
qed simp

section \<open>The index gives back what was filed\<close>

text \<open>What a reader of the index finds for a record: its names with their directories, its named streams and the sizes of its internal ones.\<close>

definition names_in :: "mft_index \<Rightarrow> file_record \<Rightarrow> (bytes \<times> nat) list option" where
  "names_in ix r =
     map_option (\<lambda>is. map (\<lambda>l. (get_name_bytes ix (li_name l), li_parent_frs l)) (fr_first_name r # map ((!) (mi_links ix)) is))
       (walk li_next_entry (mi_links ix) (li_next_entry (fr_first_name r)))"

definition streams_in :: "mft_index \<Rightarrow> file_record \<Rightarrow> (bytes \<times> size_info) list option" where
  "streams_in ix r =
     map_option (map (\<lambda>i. (get_name_bytes ix (is_name (mi_streams ix ! i)), is_size (mi_streams ix ! i))))
       (walk is_next_entry (mi_streams ix) (is_next_entry (fr_first_stream r)))"

definition internals_in :: "mft_index \<Rightarrow> file_record \<Rightarrow> size_info list option" where
  "internals_in ix r =
     map_option (map (\<lambda>i. in_size (mi_internal_streams ix ! i))) (walk in_next_entry (mi_internal_streams ix) (fr_first_internal_stream r))"

definition default_size :: "parsed_record \<Rightarrow> size_info" where
  "default_size p =
     (case filter (\<lambda>st. st_name st = []) (pr_streams p) of
        st # _ \<Rightarrow> if pr_is_directory p then \<lparr>sz_length = pr_size p, sz_allocated = pr_allocated_size p\<rparr> else stream_size st
      | [] \<Rightarrow> if pr_is_directory p \<or> pr_streams p \<noteq> [] then \<lparr>sz_length = pr_size p, sz_allocated = pr_allocated_size p\<rparr>
              else \<lparr>sz_length = 0, sz_allocated = 0\<rparr>)"

text \<open>The fields of the record itself.\<close>

definition record_agrees :: "parsed_record \<Rightarrow> file_record \<Rightarrow> bool" where
  "record_agrees p r \<longleftrightarrow> fr_frs r = pr_frs p \<and> fr_sequence_number r = pr_sequence_number p \<and> fr_lsn r = pr_lsn p
     \<and> fr_namespace r = pr_namespace p \<and> fr_reparse_tag r = pr_reparse_tag p \<and> fr_base_frs r = pr_base_frs p
     \<and> (fr_fn_created r, fr_fn_modified r, fr_fn_accessed r, fr_fn_mft_changed r)
       = (pr_fn_created p, pr_fn_modified p, pr_fn_accessed p, pr_fn_mft_changed p)
     \<and> fr_stdinfo r = set_directory (pr_is_directory p) (from_extended (pr_std_info p))
     \<and> (fr_is_deleted r \<longleftrightarrow> pr_is_deleted p) \<and> (fr_is_corrupt r \<longleftrightarrow> pr_is_corrupt p) \<and> (fr_is_extension r \<longleftrightarrow> pr_is_extension p)
     \<and> fr_name_count r = 1 + length (additional_names p) \<and> fr_stream_count r = 1 + length (named_streams p)
     \<and> fr_total_stream_count r = max (length (pr_streams p)) 1 \<and> is_size (fr_first_stream r) = default_size p
     \<and> fr_internal_streams_size r = sat_sum (map st_size (internal_streams p))
     \<and> fr_internal_streams_allocated r = sat_sum (map st_allocated_size (internal_streams p))"

lemma forensic_bits:
  "fr_is_deleted (set_forensic_flags d c e r) = d" "fr_is_corrupt (set_forensic_flags d c e r) = c"
  "fr_is_extension (set_forensic_flags d c e r) = e"
proof -
  have m: "(0x38 :: u8) = NOT (mask 3) AND mask 6" "(1 :: u8) = mask 1" "(2 :: u8) = push_bit 1 (mask 1)" "(4 :: u8) = push_bit 2 (mask 1)"
    by (simp_all add: mask_eq_exp_minus_1)
  let ?w = "(fr_forensic_flags r AND 0x38) OR of_bool d OR push_bit 1 (of_bool c) OR push_bit 2 (of_bool e)"
  have "?w AND 1 = of_bool d" "?w AND 2 = push_bit 1 (of_bool c)" "?w AND 4 = push_bit 2 (of_bool e)"
    unfolding m by (rule bit_word_eqI; auto simp: bit_simps less_Suc_eq numeral_eq_Suc)+
  then show "fr_is_deleted (set_forensic_flags d c e r) = d" "fr_is_corrupt (set_forensic_flags d c e r) = c"
    "fr_is_extension (set_forensic_flags d c e r) = e"
    by (simp_all add: fr_is_deleted_def fr_is_corrupt_def fr_is_extension_def set_forensic_flags_def push_bit_eq_mult)
qed

lemma default_size_of: "is_size (first_stream_of p (fr_first_stream (file_record_new f))) = default_size p"
proof (cases "filter (\<lambda>st. st_name st = []) (pr_streams p)")
  case Nil
  then have "List.find (\<lambda>st. st_name st = []) (pr_streams p) = None" by (auto simp: find_None_iff filter_empty_conv)
  with Nil show ?thesis by (simp add: first_stream_of_def default_size_def file_record_new_def)
next
  case (Cons st sts)
  have "List.find P xs = (case filter P xs of [] \<Rightarrow> None | x # _ \<Rightarrow> Some x)" for P :: "stream_info \<Rightarrow> bool" and xs by (induction xs) auto
  with Cons show ?thesis by (simp add: first_stream_of_def default_size_def file_record_new_def stream_size_def)
qed

lemma filed_agrees:
  assumes "fits lower E p" and "childless r = filed_record p ref nxt snxt fi"
  shows "record_agrees p r"
proof -
  have len: "len_to_u16 (1 + length (additional_names p)) = 1 + length (additional_names p)"
    "len_to_u16 (1 + length (named_streams p)) = 1 + length (named_streams p)"
    "len_to_u16 (max (length (pr_streams p)) 1) = max (length (pr_streams p)) 1"
    using assms(1) weight_parts(1,2) [of p] by (simp_all add: fits_def len_to_u16_def)
  have same: "record_agrees p (childless r) = record_agrees p r"
    by (simp add: record_agrees_def childless_def fr_is_deleted_def fr_is_corrupt_def fr_is_extension_def)
  have d: "fr_is_deleted r' = fr_is_deleted s \<and> fr_is_corrupt r' = fr_is_corrupt s \<and> fr_is_extension r' = fr_is_extension s"
    if "fr_forensic_flags r' = fr_forensic_flags s" for r' s :: file_record
    using that by (simp add: fr_is_deleted_def fr_is_corrupt_def fr_is_extension_def)
  have "fr_forensic_flags (filed_record p ref nxt snxt fi)
      = fr_forensic_flags (set_forensic_flags (pr_is_deleted p) (pr_is_corrupt p) (pr_is_extension p) (file_record_new 0))"
    by (simp add: filed_record_def with_streams_def with_names_def fill_record_def set_forensic_flags_def file_record_new_def)
  note f = d [OF this]
  have "record_agrees p (filed_record p ref nxt snxt fi)"
    unfolding record_agrees_def using f forensic_bits len default_size_of [of p "pr_frs p"]
    by (simp add: filed_record_def with_streams_def with_names_def fill_record_def set_forensic_flags_def)
  with same assms(2) show ?thesis by simp
qed

definition name_texts :: "parsed_record \<Rightarrow> bytes list" where
  "name_texts p = utf8_of (pr_name p) # map (\<lambda>n. utf8_of (ni_name n)) (additional_names p)"

definition record_exts :: "(bytes \<Rightarrow> bytes) \<Rightarrow> parsed_record \<Rightarrow> bytes list" where
  "record_exts lower p = List.map_filter (ext_of lower) (name_texts p)"

definition all_exts :: "(bytes \<Rightarrow> bytes) \<Rightarrow> parsed_record list \<Rightarrow> bytes set" where
  "all_exts lower ps = insert [] (set (concat (map (record_exts lower) ps)))"

text \<open>
  What the records of a volume must fit into: different file numbers, counts and file numbers of their widths,
  names, streams, entries and texts that together stay below \<open>2^32\<close>, and fewer than 65535 extensions.
\<close>

definition build_fits :: "(bytes \<Rightarrow> bytes) \<Rightarrow> parsed_record list \<Rightarrow> bool" where
  "build_fits lower ps \<longleftrightarrow> distinct (map pr_frs ps) \<and> (\<forall>p \<in> set ps. fits lower (all_exts lower ps) p)
     \<and> total_weight ps < u32_max \<and> card (all_exts lower ps) < u16_max"

lemma file_records_fits:
  assumes "build_fits lower (filter included ps)"
  obtains ix where "file_records lower ps (mft_index_new now volume) = Some ix"
    and "built lower (all_exts lower (filter included ps)) (filter included ps) ix"
proof -
  let ?E = "all_exts lower (filter included ps)"
  have "tbl ?E extension_table_new" using assms by (simp add: tbl_def build_fits_def) (simp add: all_exts_def extension_table_new_def)
  from file_records_built [OF built_new [OF this], of ps lower now volume] assms that show ?thesis by (auto simp: build_fits_def)
qed

lemma list_all2_maps: "list_all2 (\<lambda>x y. f x = g y) xs ys \<Longrightarrow> map f xs = map g ys"
  by (induction rule: list_all2_induct) simp_all

lemma filed_reads:
  assumes "filed lower ix p" and "fits lower E p"
  shows "\<exists>r. find_record ix (pr_frs p) = Some r \<and> record_agrees p r
    \<and> names_in ix r = Some ((utf8_of (pr_name p), pr_parent_frs p) # map link_text (additional_names p))
    \<and> streams_in ix r = Some (map (\<lambda>st. (utf8_of (st_name st), stream_size st)) (named_streams p))
    \<and> internals_in ix r = Some (map stream_size (internal_streams p))"
proof -
  from assms(1) obtain r ref nxt snxt fi where r: "find_record ix (pr_frs p) = Some r" "childless r = filed_record p ref nxt snxt fi"
    and n: "names_filed lower p ix ref nxt" and s: "streams_filed p ix snxt fi"
    by (auto simp: filed_def core_of_def)
  have f: "fr_first_name r = \<lparr>li_next_entry = nxt, li_name = ref, li_parent_frs = pr_parent_frs p\<rparr>"
    "is_next_entry (fr_first_stream r) = snxt" "fr_first_internal_stream r = fi"
    using arg_cong [OF r(2), of fr_first_name] arg_cong [OF r(2), of fr_first_stream] arg_cong [OF r(2), of fr_first_internal_stream]
    by (simp_all add: childless_def filed_record_def with_streams_def with_names_def)
  from n obtain ls where ls: "walk li_next_entry (mi_links ix) nxt = Some ls"
    "list_all2 (\<lambda>x y. link_is lower (mi_names ix) (et_map (mi_extensions ix)) (mi_links ix ! x) y) ls (map link_text (additional_names p))"
    unfolding names_filed_def by (blast elim: holds_walk)
  from s obtain ss where ss: "walk is_next_entry (mi_streams ix) snxt = Some ss"
    "list_all2 (\<lambda>x y. stream_is (mi_names ix) (mi_streams ix ! x) y) ss (named_streams p)"
    unfolding streams_filed_def by (blast elim: holds_walk)
  from s obtain vs where vs: "walk in_next_entry (mi_internal_streams ix) fi = Some vs"
    "list_all2 (\<lambda>x y. internal_is (mi_internal_streams ix ! x) y) vs (internal_streams p)"
    unfolding streams_filed_def by (blast elim: holds_walk)
  have "map (\<lambda>x. (get_name_bytes ix (li_name (mi_links ix ! x)), li_parent_frs (mi_links ix ! x))) ls = map (\<lambda>y. y) (map link_text (additional_names p))"
    using ls(2) by (intro list_all2_maps) (auto simp: link_is_def text_at_read elim!: list.rel_mono_strong)
  moreover have "get_name_bytes ix ref = utf8_of (pr_name p)" using n by (simp add: names_filed_def text_at_read)
  ultimately have "names_in ix r = Some ((utf8_of (pr_name p), pr_parent_frs p) # map link_text (additional_names p))"
    using ls(1) by (simp add: names_in_def f comp_def)
  moreover have "map (\<lambda>i. (get_name_bytes ix (is_name (mi_streams ix ! i)), is_size (mi_streams ix ! i))) ss
      = map (\<lambda>st. (utf8_of (st_name st), stream_size st)) (named_streams p)"
    using ss(2) by (intro list_all2_maps) (auto simp: stream_is_def text_at_read elim!: list.rel_mono_strong)
  moreover have "map (\<lambda>i. in_size (mi_internal_streams ix ! i)) vs = map stream_size (internal_streams p)"
    using vs(2) by (intro list_all2_maps) (auto simp: internal_is_def elim!: list.rel_mono_strong)
  ultimately show ?thesis
    using r(1) filed_agrees [OF assms(2) r(2)] ss(1) vs(1) by (simp add: streams_in_def internals_in_def f)
qed

lemma entries_chain:
  assumes "entries_of_edges es ix" and "r \<in> set (mi_records ix)"
  shows "\<exists>entries. child_chain ix (fr_first_child r) = Some entries
    \<and> map (\<lambda>i. (ci_child_frs (mi_children ix ! i), ci_name_index (mi_children ix ! i))) entries
      = rev (map snd (filter (\<lambda>e. fst e = fr_frs r) es))"
proof -
  from assms have "linked (child_next (mi_children ix)) (fr_first_child r) (entry_positions es (fr_frs r))"
    and m: "map (\<lambda>c. (ci_child_frs c, ci_name_index c)) (mi_children ix) = map snd es"
    by (auto simp: entries_of_edges_def)
  from linked_walk [OF this(1)] entry_positions_edges [OF m] show ?thesis by (simp add: child_chain_def)
qed

lemma record_found: "lookup_ok ix \<Longrightarrow> r \<in> set (mi_records ix) \<Longrightarrow> find_record ix (fr_frs r) = Some r"
  using lookup_ok_pos by (auto simp: in_set_conv_nth find_record_idx)

text \<open>
  C12. Building the index returns, and the index gives back what the parser found: for every record in use the
  fields of the record, its names with their directories (the chosen name first), its named streams with their
  sizes and the sizes of its internal streams; the counters count the records filed. Every directory lists
  exactly one entry for each name that lies in it, the last one filed first, and a record that was not filed is
  a placeholder for a directory that some name lies in.
\<close>

theorem built_index_reads_back:
  assumes "build_fits lower (filter included ps)"
  shows "\<exists>ix. file_records lower ps (mft_index_new now volume) = Some ix \<and> mi_stats ix = parsed_stats (filter included ps)
    \<and> (\<forall>p \<in> set ps. included p \<longrightarrow> (\<exists>r. find_record ix (pr_frs p) = Some r \<and> record_agrees p r
         \<and> names_in ix r = Some ((utf8_of (pr_name p), pr_parent_frs p) # map link_text (additional_names p))
         \<and> streams_in ix r = Some (map (\<lambda>st. (utf8_of (st_name st), stream_size st)) (named_streams p))
         \<and> internals_in ix r = Some (map stream_size (internal_streams p))))
    \<and> (\<forall>r \<in> set (mi_records ix). \<exists>entries. child_chain ix (fr_first_child r) = Some entries
         \<and> map (\<lambda>i. (ci_child_frs (mi_children ix ! i), ci_name_index (mi_children ix ! i))) entries
           = rev (map snd (filter (\<lambda>e. fst e = fr_frs r) (all_edges (filter included ps)))))
    \<and> (\<forall>r \<in> set (mi_records ix). fr_frs r \<notin> pr_frs ` set (filter included ps) \<longrightarrow>
         childless r = file_record_new (fr_frs r) \<and> fr_frs r \<in> fst ` set (all_edges (filter included ps)))"
proof -
  let ?ps = "filter included ps" and ?E = "all_exts lower (filter included ps)"
  obtain ix where run: "file_records lower ps (mft_index_new now volume) = Some ix" and b: "built lower ?E ?ps ix"
    by (rule file_records_fits [OF assms])
  from b have ent: "entries_of_edges (all_edges ?ps) ix" and f: "\<forall>p \<in> set ?ps. filed lower ix p"
    and rest: "\<And>g. g \<notin> pr_frs ` set ?ps \<Longrightarrow> core_of ix g = (if g \<in> fst ` set (all_edges ?ps) then Some (file_record_new g) else None)"
    by (auto simp: built_def)
  have "childless r = file_record_new (fr_frs r) \<and> fr_frs r \<in> fst ` set (all_edges ?ps)"
    if "r \<in> set (mi_records ix)" "fr_frs r \<notin> pr_frs ` set ?ps" for r
    using rest [OF that(2)] record_found [OF _ that(1)] ent by (auto simp: core_of_def entries_of_edges_def split: if_splits)
  moreover have "fits lower ?E p" "filed lower ix p" if "p \<in> set ps" "included p" for p
    using assms f that by (simp_all add: build_fits_def)
  then have "\<forall>p \<in> set ps. included p \<longrightarrow> (\<exists>r. find_record ix (pr_frs p) = Some r \<and> record_agrees p r
         \<and> names_in ix r = Some ((utf8_of (pr_name p), pr_parent_frs p) # map link_text (additional_names p))
         \<and> streams_in ix r = Some (map (\<lambda>st. (utf8_of (st_name st), stream_size st)) (named_streams p))
         \<and> internals_in ix r = Some (map stream_size (internal_streams p)))"
    by (intro ballI impI) (rule filed_reads)
  moreover have "mi_stats ix = parsed_stats ?ps" using b by (simp add: built_def)
  ultimately show ?thesis using run entries_chain [OF ent] by (intro exI [of _ ix]) simp
qed

definition demo_parsed_list :: "parsed_record list" where
  "demo_parsed_list =
     [parsed_record_default\<lparr>pr_frs := 7, pr_in_use := True, pr_name := [97, 46, 98], pr_parent_frs := 5,
        pr_names := [(demo_name 5 7)\<lparr>ni_name := [97, 46, 98], ni_parent_frs := 5\<rparr>, (demo_name 9 7)\<lparr>ni_name := [99, 46, 100], ni_parent_frs := 9\<rparr>],
        pr_streams := [demo_stream 3, (demo_stream 4)\<lparr>st_name := [122]\<rparr>, (demo_stream 5)\<lparr>st_name := [36, 69, 65]\<rparr>]\<rparr>,
      parsed_record_default\<lparr>pr_frs := 8\<rparr>]"

lemma demo_parsed_fits: "build_fits (\<lambda>bs. bs) (filter included demo_parsed_list)"
proof -
  have "(\<lambda>p. included p) = (\<lambda>p. pr_in_use p \<or> pr_is_deleted p \<or> pr_is_corrupt p \<or> pr_is_extension p)"
    by (simp add: included_def is_forensic_record_def)
  then have one: "filter included demo_parsed_list = [hd demo_parsed_list]" by (simp add: demo_parsed_list_def parsed_record_default_def)
  have adds: "additional_names (hd demo_parsed_list) = [(demo_name 9 7)\<lparr>ni_name := [99, 46, 100], ni_parent_frs := 9\<rparr>]"
    by (simp add: additional_names_def demo_parsed_list_def demo_name_def parsed_record_default_def)
  have nms: "named_streams (hd demo_parsed_list) = [(demo_stream 4)\<lparr>st_name := [122]\<rparr>]"
    by (simp add: named_streams_def demo_parsed_list_def demo_stream_def is_internal_stream_def parsed_record_default_def)
  have edg: "parsed_edges (hd demo_parsed_list) = [(5, 7, 0), (9, 7, 1)]"
    by (simp add: parsed_edges_def demo_parsed_list_def demo_name_def parsed_record_default_def NO_ENTRY_def rust_limits len_to_u16_def)
  have exts: "ext_of (\<lambda>bs. bs) [97, 46, 98] = Some [98]" "ext_of (\<lambda>bs. bs) [99, 46, 100] = Some [100]" by (simp_all add: ext_of_def)
  have "all_exts (\<lambda>bs. bs) [hd demo_parsed_list] = {[], [98], [100]}"
    using adds exts
    by (simp add: all_exts_def record_exts_def name_texts_def)
       (simp add: demo_parsed_list_def parsed_record_default_def utf8_of_def encode_utf8_def List.map_filter_simps exts)
  moreover have "total_weight [hd demo_parsed_list] = 15"
    by (simp add: total_weight_def filing_weight_def adds nms edg link_bytes_def stream_bytes_def)
       (simp add: demo_parsed_list_def parsed_record_default_def utf8_of_def encode_utf8_def)
  ultimately show ?thesis
    by (simp add: build_fits_def one fits_def adds nms edg fits_name_def)
       (simp add: demo_parsed_list_def parsed_record_default_def utf8_of_def encode_utf8_def exts rust_limits)
qed

theorem built_index_reads_back_witness:
  "\<exists>ix r. file_records (\<lambda>bs. bs) demo_parsed_list (mft_index_new 0 67) = Some ix \<and> find_record ix 7 = Some r
     \<and> names_in ix r = Some [([97, 46, 98], 5), ([99, 46, 100], 9)]"
proof -
  from built_index_reads_back [OF demo_parsed_fits, of 0 67] obtain ix where
    ix: "file_records (\<lambda>bs. bs) demo_parsed_list (mft_index_new 0 67) = Some ix"
    "\<forall>p \<in> set demo_parsed_list. included p \<longrightarrow> (\<exists>r. find_record ix (pr_frs p) = Some r \<and> record_agrees p r
         \<and> names_in ix r = Some ((utf8_of (pr_name p), pr_parent_frs p) # map link_text (additional_names p))
         \<and> streams_in ix r = Some (map (\<lambda>st. (utf8_of (st_name st), stream_size st)) (named_streams p))
         \<and> internals_in ix r = Some (map stream_size (internal_streams p)))" by blast
  have "hd demo_parsed_list \<in> set demo_parsed_list" "included (hd demo_parsed_list)" by (simp_all add: demo_parsed_list_def included_def)
  with ix(2) obtain r where "find_record ix (pr_frs (hd demo_parsed_list)) = Some r" "names_in ix r
      = Some ((utf8_of (pr_name (hd demo_parsed_list)), pr_parent_frs (hd demo_parsed_list)) # map link_text (additional_names (hd demo_parsed_list)))" by blast
  with ix(1) show ?thesis
    by (intro exI [of _ ix] exI [of _ r])
       (simp add: demo_parsed_list_def additional_names_def demo_name_def link_text_def utf8_of_def encode_utf8_def)
qed

section \<open>Records by extension\<close>

lemma ext_id_iff:
  assumes "ext_table_ok t" and "ext_at lower (et_map t) ref bs" and "et_map t x = Some i" and "x \<noteq> []"
  shows "name_ref_extension_id ref = i \<longleftrightarrow> ext_of lower bs = Some x"
proof -
  have tab: "et_map t e = Some j \<longleftrightarrow> j < length (et_names t) \<and> et_names t ! j = e" for e j using assms(1) by (simp add: ext_table_ok_def)
  have "i \<noteq> 0" using assms(1,3,4) by (auto simp: ext_table_ok_def)
  show ?thesis
  proof (cases "ext_of lower bs")
    case (Some e)
    then have e: "et_map t e = Some (name_ref_extension_id ref)" using assms(2) by (simp add: ext_at_def)
    then have "et_names t ! name_ref_extension_id ref = e" "et_names t ! i = x" using tab [of e] tab [of x i] assms(3) by simp_all
    with e Some assms(3) show ?thesis by (cases "e = x") auto
  qed (use \<open>i \<noteq> 0\<close> assms(2) in \<open>simp add: ext_at_def\<close>)
qed

lemma filed_ext_ids:
  assumes "filed lower ix p" and "find_record ix (pr_frs p) = Some r" and "fits lower E p"
  shows "\<exists>refs. name_ext_ids ix r = Some (map name_ref_extension_id refs)
    \<and> list_all2 (ext_at lower (et_map (mi_extensions ix))) refs (name_texts p)"
proof -
  from assms obtain ref nxt snxt fi where r: "childless r = filed_record p ref nxt snxt fi" and n: "names_filed lower p ix ref nxt"
    by (auto simp: filed_def core_of_def)
  have f: "fr_first_name r = \<lparr>li_next_entry = nxt, li_name = ref, li_parent_frs = pr_parent_frs p\<rparr>"
    using arg_cong [OF r, of fr_first_name] by (simp add: childless_def filed_record_def with_streams_def with_names_def)
  have c: "fr_name_count r = 1 + length (additional_names p)"
    using filed_agrees [OF assms(3) r] by (simp add: record_agrees_def)
  from n have "holds li_next_entry (mi_links ix) nxt (link_is lower (mi_names ix) (et_map (mi_extensions ix))) (map link_text (additional_names p))"
    by (simp add: names_filed_def)
  then obtain ls where ls: "walk li_next_entry (mi_links ix) nxt = Some ls"
    "list_all2 (\<lambda>x y. link_is lower (mi_names ix) (et_map (mi_extensions ix)) (mi_links ix ! x) y) ls (map link_text (additional_names p))"
    "set ls \<subseteq> {..<length (mi_links ix)}" by (rule holds_walk)
  let ?refs = "map (\<lambda>i. li_name (mi_links ix ! i)) ls"
  have "List.map_filter (\<lambda>i. map_option (\<lambda>l. name_ref_extension_id (li_name l)) (vec_get (mi_links ix) i)) ls
      = map name_ref_extension_id ?refs"
    using ls(3) by (induction ls) (simp_all add: List.map_filter_simps)
  moreover have "additional_names p = [] \<Longrightarrow> ls = []" using ls(2) by simp
  ultimately have "name_ext_ids ix r = Some (map name_ref_extension_id (ref # ?refs))"
    using ls(1) by (cases "additional_names p = []") (simp_all add: name_ext_ids_def f c)
  moreover have "list_all2 (ext_at lower (et_map (mi_extensions ix))) ?refs (map (\<lambda>n. utf8_of (ni_name n)) (additional_names p))"
    using ls(2) by (auto simp: list_all2_map1 list_all2_map2 link_is_def link_text_def elim!: list.rel_mono_strong)
  ultimately show ?thesis using n by (intro exI [of _ "ref # ?refs"]) (simp add: name_texts_def names_filed_def)
qed

lemma placeholder_ext_ids: "childless r = file_record_new f \<Longrightarrow> name_ext_ids ix r = Some [0]"
proof -
  assume r: "childless r = file_record_new f"
  have "fr_name_count r = 1" "fr_first_name r = fr_first_name (file_record_new f)"
    using arg_cong [OF r, of fr_name_count] arg_cong [OF r, of fr_first_name] by (simp_all add: childless_def file_record_new_def)
  then show ?thesis by (simp add: name_ext_ids_def file_record_new_def name_ref_extension_id_def)
qed

lemma ext_pairs_spec:
  "\<forall>r \<in> set rs. name_ext_ids ix r = Some (h r) \<Longrightarrow>
   \<exists>ps. ext_pairs ix k rs = Some ps \<and> length ps = sum_list (map (\<lambda>r. length (h r)) rs)
     \<and> (\<forall>e j. (e, j) \<in> set ps \<longleftrightarrow> k \<le> j \<and> j < k + length rs \<and> e \<in> set (h (rs ! (j - k))))"
proof (induction rs arbitrary: k)
  case (Cons r rs)
  from Cons.IH [of "Suc k"] Cons.prems obtain ps where ps: "ext_pairs ix (Suc k) rs = Some ps"
    "length ps = sum_list (map (\<lambda>r. length (h r)) rs)"
    "\<And>e j. (e, j) \<in> set ps \<longleftrightarrow> Suc k \<le> j \<and> j < Suc k + length rs \<and> e \<in> set (h (rs ! (j - Suc k)))" by auto
  have "(e, j) \<in> set (map (\<lambda>e. (e, k)) (h r) @ ps) \<longleftrightarrow> k \<le> j \<and> j < k + length (r # rs) \<and> e \<in> set (h ((r # rs) ! (j - k)))" for e j
  proof (cases "j \<le> k")
    case False
    then obtain m where "j = Suc (k + m)" using less_iff_Suc_add by (auto simp: not_le)
    then show ?thesis using ps(3) [of e j] by auto
  qed (use ps(3) [of e j] in auto)
  with ps(1,2) Cons.prems show ?case by (intro exI [of _ "map (\<lambda>e. (e, k)) (h r) @ ps"]) simp
qed simp

text \<open>No more postings than records, hard links and placeholders.\<close>

lemma sum_at_most_one: "distinct (map g rs) \<Longrightarrow> sum_list (map (\<lambda>r. if g r = f then c else 0) rs) \<le> (c :: nat)"
proof (induction rs)
  case (Cons r rs)
  have "sum_list (map (\<lambda>r. if g r = f then c else 0) rs) = 0" if "f \<notin> g ` set rs" using that by (induction rs) auto
  with Cons show ?case by auto
qed simp

lemma sum_by_key:
  "distinct (map g rs) \<Longrightarrow> sum_list (map (\<lambda>r. sum_list (map (\<lambda>p. if g r = k p then c p else 0) ps)) rs) \<le> sum_list (map c ps)"
  for c :: "_ \<Rightarrow> nat"
proof (induction ps)
  case (Cons p ps)
  with sum_at_most_one [of g rs "k p" "c p"] show ?case by (simp add: sum_list_addf)
qed (simp add: sum_list_0)

lemma distinct_frs: "lookup_ok ix \<Longrightarrow> distinct (map fr_frs (mi_records ix))"
proof -
  assume ok: "lookup_ok ix"
  show ?thesis
    unfolding distinct_conv_nth
  proof (intro allI impI)
    fix i j assume "i < length (map fr_frs (mi_records ix))" "j < length (map fr_frs (mi_records ix))" "i \<noteq> j"
    then show "map fr_frs (mi_records ix) ! i \<noteq> map fr_frs (mi_records ix) ! j"
      using lookup_ok_pos(1) [OF ok, of i] lookup_ok_pos(1) [OF ok, of j] by auto
  qed
qed

lemma built_record_count:
  assumes "built lower E ps ix"
  shows "length (mi_records ix) \<le> length ps + length (all_edges ps)"
proof -
  have ok: "lookup_ok ix" using assms by (simp add: built_def entries_of_edges_def)
  have "fr_frs r \<in> pr_frs ` set ps \<union> fst ` set (all_edges ps)" if "r \<in> set (mi_records ix)" for r
    using record_found [OF ok that] assms by (auto simp: built_def core_of_def split: if_splits)
  then have "card (set (map fr_frs (mi_records ix))) \<le> card (pr_frs ` set ps \<union> fst ` set (all_edges ps))" by (intro card_mono) auto
  also have "\<dots> \<le> card (pr_frs ` set ps) + card (fst ` set (all_edges ps))" by (rule card_Un_le)
  also have "card (pr_frs ` set ps) \<le> length ps" by (rule order.trans [OF card_image_le card_length]) simp
  also have "card (fst ` set (all_edges ps)) \<le> length (all_edges ps)" by (rule order.trans [OF card_image_le card_length]) simp
  finally show ?thesis using distinct_card [OF distinct_frs [OF ok]] by simp
qed

lemma weight_of_names: "length ps + length (all_edges ps) + sum_list (map (\<lambda>p. length (additional_names p)) ps) \<le> total_weight ps"
proof (induction ps)
  case (Cons p ps)
  with weight_parts(1) [of p] show ?case by (simp add: total_weight_def filing_weight_def all_edges_def)
qed (simp add: all_edges_def)

lemma built_record_cases:
  assumes "built lower E ps ix" and "r \<in> set (mi_records ix)"
  obtains p where "p \<in> set ps" and "fr_frs r = pr_frs p" and "filed lower ix p" and "find_record ix (pr_frs p) = Some r"
  | "fr_frs r \<notin> pr_frs ` set ps" and "childless r = file_record_new (fr_frs r)"
proof (cases "fr_frs r \<in> pr_frs ` set ps")
  case True
  then obtain p where p: "p \<in> set ps" "fr_frs r = pr_frs p" by auto
  have "find_record ix (fr_frs r) = Some r" using record_found assms by (simp add: built_def entries_of_edges_def)
  with p assms(1) that(1) show ?thesis by (auto simp: built_def)
next
  case False
  have "core_of ix (fr_frs r) = Some (childless r)"
    using record_found assms by (simp add: built_def entries_of_edges_def core_of_def)
  with False assms(1) that(2) show ?thesis by (auto simp: built_def split: if_splits)
qed

lemma built_ext_ids:
  assumes b: "built lower E ps ix" and fit: "\<forall>p \<in> set ps. fits lower E p" and d: "distinct (map pr_frs ps)" and r: "r \<in> set (mi_records ix)"
  shows "\<exists>ids. name_ext_ids ix r = Some ids
    \<and> length ids \<le> 1 + sum_list (map (\<lambda>p. if fr_frs r = pr_frs p then length (additional_names p) else 0) ps)
    \<and> (\<forall>x i. x \<noteq> [] \<longrightarrow> et_map (mi_extensions ix) x = Some i \<longrightarrow>
         (i \<in> set ids \<longleftrightarrow> (\<exists>p \<in> set ps. pr_frs p = fr_frs r \<and> x \<in> set (record_exts lower p))))"
proof -
  have t: "ext_table_ok (mi_extensions ix)" using b by (simp add: built_def tbl_def)
  have ids: "i \<in> set (map name_ref_extension_id refs) \<longleftrightarrow> x \<in> set (record_exts lower p)"
    if "list_all2 (ext_at lower (et_map (mi_extensions ix))) refs (name_texts p)" "x \<noteq> []" "et_map (mi_extensions ix) x = Some i" for refs p x i
  proof -
    have "list_all2 (\<lambda>ref bs. name_ref_extension_id ref = i \<longleftrightarrow> ext_of lower bs = Some x) refs (name_texts p)"
      using that(1) by (rule list.rel_mono_strong) (rule ext_id_iff [OF t _ that(3,2)])
    then have "(\<exists>ref \<in> set refs. name_ref_extension_id ref = i) \<longleftrightarrow> (\<exists>bs \<in> set (name_texts p). ext_of lower bs = Some x)"
      by (induction rule: list_all2_induct) auto
    then show ?thesis by (auto simp: record_exts_def set_map_filter)
  qed
  from b r show ?thesis
  proof (cases rule: built_record_cases)
    case (1 p)
    obtain refs where n: "name_ext_ids ix r = Some (map name_ref_extension_id refs)"
      "list_all2 (ext_at lower (et_map (mi_extensions ix))) refs (name_texts p)"
      using filed_ext_ids [OF 1(3,4)] fit 1(1) by blast
    have "length refs = 1 + length (additional_names p)" using list_all2_lengthD [OF n(2)] by (simp add: name_texts_def)
    moreover have "(if fr_frs r = pr_frs p then length (additional_names p) else 0)
        \<le> sum_list (map (\<lambda>p. if fr_frs r = pr_frs p then length (additional_names p) else 0) ps)"
      using 1(1) by (intro member_le_sum_list) auto
    moreover have "q = p" if "q \<in> set ps" "pr_frs q = fr_frs r" for q
      using inj_onD [of pr_frs "set ps" q p] d that 1(1,2) by (simp add: distinct_map)
    then have "(\<exists>q \<in> set ps. pr_frs q = fr_frs r \<and> x \<in> set (record_exts lower q)) \<longleftrightarrow> x \<in> set (record_exts lower p)" for x
      using 1(1,2) by metis
    ultimately show ?thesis using n(1) 1(2) ids [OF n(2)] by (intro exI [of _ "map name_ref_extension_id refs"]) simp
  next
    case 2
    have pos: "i \<noteq> 0" if "x \<noteq> []" "et_map (mi_extensions ix) x = Some i" for x i using t that by (auto simp: ext_table_ok_def)
    have "pr_frs p \<noteq> fr_frs r" if "p \<in> set ps" for p using 2(1) that by (metis imageI)
    with pos have "i \<in> set [0] \<longleftrightarrow> (\<exists>p \<in> set ps. pr_frs p = fr_frs r \<and> x \<in> set (record_exts lower p))"
      if "x \<noteq> []" "et_map (mi_extensions ix) x = Some i" for x i using that by auto
    with placeholder_ext_ids [OF 2(2), of ix] show ?thesis by (intro exI [of _ "[0]"]) simp
  qed
qed

lemma built_ext_index:
  assumes b: "built lower E ps ix" and fit: "\<forall>p \<in> set ps. fits lower E p" and d: "distinct (map pr_frs ps)" and w: "total_weight ps < u32_max"
  shows "\<exists>e. ext_index_build ix = Some e \<and> (\<forall>x i. x \<noteq> [] \<longrightarrow> et_map (mi_extensions ix) x = Some i \<longrightarrow>
    (\<forall>j. j \<in> set (ext_get_records e i) \<longleftrightarrow> j < length (mi_records ix)
       \<and> (\<exists>p \<in> set ps. pr_frs p = fr_frs (mi_records ix ! j) \<and> x \<in> set (record_exts lower p))))"
proof -
  let ?h = "\<lambda>r. the (name_ext_ids ix r)" and ?rs = "mi_records ix"
  let ?a = "\<lambda>r. sum_list (map (\<lambda>p. if fr_frs r = pr_frs p then length (additional_names p) else 0) ps)"
  have ids: "name_ext_ids ix r = Some (?h r)" "length (?h r) \<le> 1 + ?a r" "\<And>x i. x \<noteq> [] \<Longrightarrow> et_map (mi_extensions ix) x = Some i \<Longrightarrow>
         (i \<in> set (?h r) \<longleftrightarrow> (\<exists>p \<in> set ps. pr_frs p = fr_frs r \<and> x \<in> set (record_exts lower p)))" if "r \<in> set ?rs" for r
    using built_ext_ids [OF b fit d that] by auto
  obtain pl where pl: "ext_pairs ix 0 ?rs = Some pl" "length pl = sum_list (map (\<lambda>r. length (?h r)) ?rs)"
    "\<And>e j. (e, j) \<in> set pl \<longleftrightarrow> j < length ?rs \<and> e \<in> set (?h (?rs ! j))"
    using ext_pairs_spec [of ?rs ix ?h 0] ids(1) by auto
  have ok: "lookup_ok ix" and t: "ext_table_ok (mi_extensions ix)" using b by (simp_all add: built_def entries_of_edges_def tbl_def)
  have "length pl \<le> sum_list (map (\<lambda>r. 1 + ?a r) ?rs)" unfolding pl(2) by (rule sum_list_mono) (rule ids(2))
  also have "\<dots> = length ?rs + sum_list (map ?a ?rs)" by (simp add: sum_list_addf sum_list_Suc)
  also have "\<dots> \<le> length ?rs + sum_list (map (\<lambda>p. length (additional_names p)) ps)"
    using sum_by_key [OF distinct_frs [OF ok]] by simp
  also have "\<dots> \<le> total_weight ps" using built_record_count [OF b] weight_of_names [of ps] by linarith
  finally have len: "length pl \<le> u32_max" using w by simp
  have "\<forall>q \<in> set pl. snd q \<le> u32_max" using pl(3) ok by (fastforce simp: lookup_ok_def)
  from ext_index_build_spec [OF pl(1) len this refl] obtain e where e: "ext_index_build ix = Some e"
    "\<And>k. k < length (et_names (mi_extensions ix)) \<Longrightarrow> ext_get_records e k = records_of_ext pl k" by blast
  have "j \<in> set (ext_get_records e i) \<longleftrightarrow> j < length ?rs \<and> (\<exists>p \<in> set ps. pr_frs p = fr_frs (?rs ! j) \<and> x \<in> set (record_exts lower p))"
    if x: "x \<noteq> []" "et_map (mi_extensions ix) x = Some i" for x i j
  proof -
    have "i < length (et_names (mi_extensions ix))" using t x(2) by (auto simp: ext_table_ok_def)
    from e(2) [OF this] have "j \<in> set (ext_get_records e i) \<longleftrightarrow> (i, j) \<in> set pl"
      by (simp add: records_of_ext_def) force
    also have "\<dots> \<longleftrightarrow> j < length ?rs \<and> (\<exists>p \<in> set ps. pr_frs p = fr_frs (?rs ! j) \<and> x \<in> set (record_exts lower p))"
      using pl(3) [of i j] ids(3) [OF nth_mem x, of j] by auto
    finally show ?thesis .
  qed
  with e(1) show ?thesis by blast
qed

text \<open>The file numbers an extension query answers with.\<close>

definition files_with_ext :: "mft_index \<Rightarrow> csr \<Rightarrow> bytes \<Rightarrow> nat list" where
  "files_with_ext ix e x =
     (case et_map (mi_extensions ix) x of
        None \<Rightarrow> []
      | Some i \<Rightarrow> map (\<lambda>j. fr_frs (mi_records ix ! j)) (ext_get_records e i))"

lemma filed_ext_known:
  assumes b: "built lower E ps ix" and fit: "\<forall>p \<in> set ps. fits lower E p" and p: "p \<in> set ps" "x \<in> set (record_exts lower p)"
  shows "et_map (mi_extensions ix) x \<noteq> None" and "\<exists>j < length (mi_records ix). fr_frs (mi_records ix ! j) = pr_frs p"
proof -
  have ok: "lookup_ok ix" using b by (simp add: built_def entries_of_edges_def)
  have f: "filed lower ix p" using b p(1) by (simp add: built_def)
  then obtain r where r: "find_record ix (pr_frs p) = Some r" by (auto simp: filed_def core_of_def)
  obtain refs where "list_all2 (ext_at lower (et_map (mi_extensions ix))) refs (name_texts p)"
    using filed_ext_ids [OF f r] fit p(1) by blast
  moreover from p(2) obtain bs where "bs \<in> set (name_texts p)" "ext_of lower bs = Some x"
    by (auto simp: record_exts_def set_map_filter)
  ultimately show "et_map (mi_extensions ix) x \<noteq> None"
    by (auto simp: list_all2_conv_all_nth in_set_conv_nth ext_at_def split: option.splits)
  from r obtain j where "frs_to_idx_opt ix (pr_frs p) = Some j" by (auto simp: find_record_idx [OF ok])
  then show "\<exists>j < length (mi_records ix). fr_frs (mi_records ix ! j) = pr_frs p" using lookup_ok_found(1,2) [OF ok] by blast
qed

lemma built_files_with_ext:
  assumes b: "built lower E ps ix" and fit: "\<forall>p \<in> set ps. fits lower E p" and d: "distinct (map pr_frs ps)" "total_weight ps < u32_max"
  shows "\<exists>e. ext_index_build ix = Some e
    \<and> (\<forall>x. x \<noteq> [] \<longrightarrow> set (files_with_ext ix e x) = {pr_frs p |p. p \<in> set ps \<and> x \<in> set (record_exts lower p)})"
proof -
  obtain e where e: "ext_index_build ix = Some e" "\<And>x i j. x \<noteq> [] \<Longrightarrow> et_map (mi_extensions ix) x = Some i \<Longrightarrow>
    j \<in> set (ext_get_records e i) \<longleftrightarrow> j < length (mi_records ix)
       \<and> (\<exists>p \<in> set ps. pr_frs p = fr_frs (mi_records ix ! j) \<and> x \<in> set (record_exts lower p))"
    using built_ext_index [OF b fit d] by auto
  have "set (files_with_ext ix e x) = {pr_frs p |p. p \<in> set ps \<and> x \<in> set (record_exts lower p)}" if x: "x \<noteq> []" for x
  proof (cases "et_map (mi_extensions ix) x")
    case None
    then have "\<not> (\<exists>p \<in> set ps. x \<in> set (record_exts lower p))" using filed_ext_known(1) [OF b fit] by blast
    with None show ?thesis by (auto simp: files_with_ext_def)
  next
    case (Some i)
    note e = e(2) [OF x Some]
    have files: "set (files_with_ext ix e x) = (\<lambda>j. fr_frs (mi_records ix ! j)) ` set (ext_get_records e i)"
      by (simp add: files_with_ext_def Some)
    show ?thesis
    proof (intro equalityI subsetI)
      fix f assume "f \<in> set (files_with_ext ix e x)"
      then obtain j where "j \<in> set (ext_get_records e i)" "f = fr_frs (mi_records ix ! j)" unfolding files by blast
      with e [of j] obtain p where "p \<in> set ps" "pr_frs p = f" "x \<in> set (record_exts lower p)" by auto
      then show "f \<in> {pr_frs p |p. p \<in> set ps \<and> x \<in> set (record_exts lower p)}" by blast
    next
      fix f assume "f \<in> {pr_frs p |p. p \<in> set ps \<and> x \<in> set (record_exts lower p)}"
      then obtain p where p: "f = pr_frs p" "p \<in> set ps" "x \<in> set (record_exts lower p)" by auto
      obtain j where j: "j < length (mi_records ix)" "fr_frs (mi_records ix ! j) = pr_frs p" using filed_ext_known(2) [OF b fit p(2,3)] by blast
      with e [of j] p(2,3) have "j \<in> set (ext_get_records e i)" by auto
      with p(1) j(2) show "f \<in> set (files_with_ext ix e x)" unfolding files by force
    qed
  qed
  with e(1) show ?thesis by blast
qed

text \<open>
  C13. Over an index built from parsed records, the extension index finds exactly the files of an extension: those
  of which some name, the chosen one or a hard link, ends in it, whatever the case of its letters.
\<close>

theorem extension_query_exact:
  assumes "build_fits lower (filter included ps)" and "x \<noteq> []"
  shows "\<exists>ix e. file_records lower ps (mft_index_new now volume) = Some ix \<and> ext_index_build ix = Some e
    \<and> set (files_with_ext ix e x) = {pr_frs p |p. p \<in> set ps \<and> included p \<and> x \<in> set (record_exts lower p)}"
proof -
  obtain ix where run: "file_records lower ps (mft_index_new now volume) = Some ix"
    and b: "built lower (all_exts lower (filter included ps)) (filter included ps) ix"
    by (rule file_records_fits [OF assms(1)])
  from assms(1) have fit: "\<forall>p \<in> set (filter included ps). fits lower (all_exts lower (filter included ps)) p"
    "distinct (map pr_frs (filter included ps))" "total_weight (filter included ps) < u32_max" by (simp_all add: build_fits_def)
  obtain e where e: "ext_index_build ix = Some e"
    "\<And>x. x \<noteq> [] \<Longrightarrow> set (files_with_ext ix e x) = {pr_frs p |p. p \<in> set (filter included ps) \<and> x \<in> set (record_exts lower p)}"
    using built_files_with_ext [OF b fit] by blast
  have "set (files_with_ext ix e x) = {pr_frs p |p. p \<in> set ps \<and> included p \<and> x \<in> set (record_exts lower p)}"
    using e(2) [OF assms(2)] by (simp add: conj_assoc)
  with run e(1) show ?thesis by blast
qed

theorem extension_query_exact_witness:
  "\<exists>ix e. file_records (\<lambda>bs. bs) demo_parsed_list (mft_index_new 0 67) = Some ix \<and> ext_index_build ix = Some e
    \<and> set (files_with_ext ix e [100]) = {7}"
proof -
  have "included p \<and> [100] \<in> set (record_exts (\<lambda>bs. bs) p) \<longleftrightarrow> pr_frs p = 7" if "p \<in> set demo_parsed_list" for p
    using that by (auto simp: demo_parsed_list_def parsed_record_default_def included_def is_forensic_record_def record_exts_def name_texts_def
        additional_names_def demo_name_def utf8_of_def encode_utf8_def List.map_filter_simps ext_of_def)
  moreover have "hd demo_parsed_list \<in> set demo_parsed_list" "pr_frs (hd demo_parsed_list) = 7" by (simp_all add: demo_parsed_list_def)
  ultimately have "{pr_frs p |p. p \<in> set demo_parsed_list \<and> included p \<and> [100] \<in> set (record_exts (\<lambda>bs. bs) p)} = {7}" by (auto intro!: exI [of _ "hd demo_parsed_list"])
  with extension_query_exact [OF demo_parsed_fits, of "[100]" 0 67] show ?thesis by simp
qed

end
