(* ===== verification/Spec2Isabelle.thy ===== *)
theory Spec2Isabelle
  imports Snapshot_Messages Snapshot_Lease Shard_Daemon Mft_Bitmap Extent_Map Path_Trie Bloom Search_Query Index_Build
begin

text \<open>
  A verification of UltraFastFileSearch, a search engine over the master file table of NTFS volumes.
  All sources named below are under \<open>src/crates/\<close>.

  \<^bold>\<open>The program.\<close> A reader plans its reads of the master file table from the extents and the bitmap of the
  table, repairs and walks the records, and builds one in-memory index per drive: an array of records, a
  buffer of names and three inverted indexes (children, extensions, trigrams of folded names). The
  daemon keeps one shard per drive in one of several tiers (hot, warm, parked, cold), answers queries from
  the warm ones and keeps each index current from the change journal of its volume. Changes go into a small
  overlay above the indexes until they are folded in. A broker process hands out volume snapshots under
  leases over a binary protocol.

  \<^bold>\<open>The theories, in the order of the data.\<close>

  \<^item> \<open>Rust_Prelude\<close>: what the sources use of Rust. A definition of type \<open>'a rust\<close> is code that can panic, with
    \<open>None\<close> for the panic; checked and saturating arithmetic, slices, UTF-8 validation, binary search.
  \<^item> \<open>Ntfs_Records\<close> (\<open>uffs-mft/src/ntfs/records.rs\<close>, \<open>parse/fixup.rs\<close>, \<open>ntfs/boot_sector.rs\<close>): the attribute walk tiles
    the bytes of a record whatever they are, both fixups return and agree, the record size and its panics.
  \<^item> \<open>Data_Runs\<close> (\<open>ntfs/data_runs.rs\<close>): run lists parse back from their encoding.
  \<^item> \<open>Mft_Parse\<close>, \<open>Mft_Merge\<close> (\<open>parse/full.rs\<close>, \<open>parse/forensic*\<close>, \<open>parse/merger.rs\<close>, \<open>parse/placeholders.rs\<close>): whole records, with
    every slice index as a possible panic and exactly when one happens, which name they are filed under, and that
    merging extension records meets its specification (names sorted by their record, streams summed, the size and the
    primary name said without the merger) in whatever order the readers deliver.
  \<^item> \<open>Mft_Index\<close>, \<open>Tree_Metrics\<close> (\<open>index/types.rs\<close>, \<open>base.rs\<close>, \<open>child_order.rs\<close>, \<open>tree_metrics.rs\<close>): the index of a volume with
    its linked lists, whose table of file numbers is a map and whose directory entries are those of the names, read
    from the list of each record, and the sums over the directory tree of all streams, read from their lists, which
    count every file once however many names it has. These hold without overlay-compressed files, whose allocation the
    code adds on every visit.
  \<^item> \<open>Index_Build\<close> (\<open>index/builder.rs\<close>, \<open>index/extensions.rs\<close>): the index filled from parsed records, from which everything the
    parser found reads back, and its extension index, which finds exactly the files of an extension.
  \<^item> \<open>Mft_Bitmap\<close>, \<open>Extent_Map\<close> (\<open>platform/bitmap.rs\<close>, \<open>io/extent_map.rs\<close>): no record in use is outside the cluster
    ranges, and the read plan holds every record whole.
  \<^item> \<open>Case_Fold\<close> (\<open>uffs-text/src/case_fold.rs\<close>), \<open>Glob_Match\<close> (\<open>uffs-core/src/pattern*\<close>, \<open>compiled_pattern/glob.rs\<close>,
    \<open>index_search/pattern.rs\<close> and the matcher of \<open>search/tree.rs\<close>): folded comparison, and that the matchers decide
    the meaning of a pattern, which \<open>globs\<close> defines, on bytes; \<open>Search_Query\<close> gives the meaning over characters.
  \<^item> \<open>Compact_Record\<close>, \<open>Csr_Index\<close>, \<open>Trigram\<close>, \<open>Index_Delta\<close>, \<open>Compact_Index\<close> (\<open>uffs-core/src/compact*\<close>, \<open>trigram*.rs\<close>):
    the record, the counting-sort indexes, the parallel trigram build under any order of its stores, the
    overlay, and the queries through base and overlay. The specification is the record array itself: an
    extension or child query gives exactly the live records (invariant \<open>index_inv\<close>).
  \<^item> \<open>Path_Len\<close> (\<open>compact/path_len.rs\<close>), \<open>Path_Trie\<close> (\<open>path_trie.rs\<close>), \<open>Path_Resolve\<close> (\<open>search/tree.rs\<close>,
    \<open>search/query/row_resolve.rs\<close>): path lengths, the directory trie, full paths and result rows; the caches and
    the parallel chunks of the row builder change nothing.
  \<^item> \<open>Bloom\<close> (\<open>bloom.rs\<close>, \<open>compact_filters.rs\<close>, \<open>search/bloom_skip.rs\<close>): the pre-check drops only drives without a match.
  \<^item> \<open>Usn_Changes\<close>, \<open>Usn_Patch\<close> (\<open>uffs-mft/src/usn/mod.rs\<close>, \<open>uffs-core/src/compact_loader*\<close>): the net effect of a
    batch of journal events, its order, and that applying it does to every file what it asks, deleted records
    included, which are dead and in no answer, and keeps the queries exact.
  \<^item> \<open>Calendar_Time\<close> (\<open>uffs-time/src/lib.rs\<close>, \<open>search/filters/time_parsing.rs\<close>): dates and the time bounds of a search.
  \<^item> \<open>Semantic_Type\<close>, \<open>Search_Filters\<close> (\<open>search/derived.rs\<close>, \<open>extensions/mod.rs\<close>, \<open>search/filters/\<close>): the types of
    extensions, the filter built from the parameters of a query, and its two evaluations, on records and on
    finished rows, which agree.
  \<^item> \<open>Top_N\<close> (\<open>search/query/numeric_top_n.rs\<close>, \<open>numeric_sort_key.rs\<close>): the search for everything, sorted by a column.
    The specification is the sorted list of the keys of all files that pass; heaps, shortcut and merge give
    its first entries.
  \<^item> \<open>Search_Query\<close> (\<open>search/query/mod.rs\<close>, \<open>search/query/prefix_search.rs\<close>): the search of a drive by pattern,
    prefix and regular expression. The specification is the scan of all records; the trigram index changes
    nothing but the speed, as long as one trigram of the needle has postings and none pruned by the base is used by
    the overlay. Patterns are there read over characters: a star is any characters, a question mark one byte.
  \<^item> \<open>Shard\<close>, \<open>Cache_Cleaner\<close>, \<open>Shard_Registry\<close>, \<open>Shard_Daemon\<close> (\<open>uffs-daemon/src/cache\<close>, \<open>uffs-daemon/src/index\<close>): the
    state of a shard with its compare-and-swap transitions, the cache files of a drive on a disk and their deletion, the
    registry, and the daemon as a step relation over it. The warm-up and forget controllers are also stated as runs
    without interference; each write window of theirs is a step of the relation, whose invariant holds interleaved.
  \<^item> \<open>Snapshot_Codec\<close>, \<open>Snapshot_Messages\<close>, \<open>Snapshot_Lease\<close> (\<open>uffs-broker-protocol\<close>, \<open>uffs-broker/src/snapshot_lease.rs\<close>):
    the wire format byte for byte, and the lease table.

  \<^bold>\<open>Interfaces.\<close> Where one part relies on another the contract is a locale, interpreted on the model in the
  theory that provides it: the fields of the wire format (\<open>wire_field\<close>, \<open>Snapshot_Codec\<close>), the counting
  sort and its layout (\<open>bucket_index\<close>, \<open>bucket_layout\<close>, \<open>Csr_Index\<close>), posting merges (\<open>posting_union\<close>, \<open>Index_Delta\<close>),
  membership filters (\<open>membership_filter\<close>, \<open>Bloom\<close>), cached resolvers (\<open>cached_resolver\<close>, \<open>Path_Resolve\<close>) and the
  operations that move a shard between tiers (\<open>tier_change\<close>, \<open>Shard_Daemon\<close>), and the steps by which streams are
  merged (\<open>stream_absorber\<close>, \<open>Mft_Merge\<close>) and the updates of the record table (\<open>record_table\<close>, \<open>Mft_Index\<close>).

  \<^bold>\<open>Arguments.\<close> Code outside the repository is an argument: the hasher of the Bloom filter, the packages for
  regular expressions and globs, the VSS provider, Unicode lower-casing, the folding tables, the clock,
  the order in which parallel stores and loads take effect, and how an unstable sort orders equal keys.

  \<^bold>\<open>Bounds.\<close> Indices and sizes are natural numbers with the checks of their width. The walks of linked lists and the
  recursion of the tree metrics are cut at one step more than there are entries or records, which is enough: a longer
  one repeats itself. Other loops that may run forever are partial functions with \<open>None\<close> for not returning (the breadth-first path lengths, the
  upward walk of the trie, the glob loop, the descent below matching directories, the compare-and-swap
  retry), and it is proved where they return.
  The path resolver walks at most 257 levels, as the code does; the exactness theorems are for records
  within them. Dates are exact for day numbers up to a million million.

  \<^bold>\<open>Not modelled.\<close> Windows I/O (volume handles, completion ports, pipes, services, VSS), external packages
  (data frames, compression, encryption, serialisation), presentation (output formats, command line, MCP
  tools), and the tools around the program. Floating-point policies (adaptive thresholds, Bloom sizing) are
  arguments. The columnar and direct-to-index parsers, the merge of index fragments, the tree search, the final sort
  of rows with the path-sorted collections and the dispatch between the searches are plain code and are left
  for later.
\<close>

end
